(* ===== verification/Py_Base.thy ===== *)
theory Py_Base
  imports Main "HOL-Library.AList" "HOL-Library.Char_ord" "HOL-Library.List_Lexorder"
begin

text \<open>
  The prelude of the development: the values and effects of Python that the modelled
  modules share.  It holds the exceptions, the result type \<open>exc + 'a\<close> and the
  state-and-exception functions, the string methods of \<open>str\<close> the code calls, and
  dictionaries as association lists in insertion order.

  Strings are lists of characters whose code points are below 256.  A Python \<open>dict\<close>
  is a list of pairs with distinct keys; reading is \<open>map_of\<close>, writing is
  \<open>AList.update\<close>, which keeps the position of an existing key and appends a new one.
  A Python \<open>set\<close> that the code iterates over is a list without duplicates, in the
  order of the iteration; the theorems hold for every such list.
\<close>

named_theorems py_str "facts on the string methods"
named_theorems py_dict "facts on dictionaries and sets kept as lists"

section \<open>Exceptions and results\<close>

text \<open>The exceptions that the modelled code raises or lets through.\<close>

datatype exc =
    KeyError string
  | IndexError
  | TypeError
  | ValueError
  | AttributeError
  | RuntimeError
  | IntegrityError
  | VersionStringException string
  | NoProvider string
  | NoRProvider string
  | MultipleRProvider string
  | NotFoundError
  | OperationalError string
  | OSError
  | NoSuchFile string
  | BBHandledException
  | SystemExit
  | TaskFailure "string list"
  | Exception string
  | RecursionError
  | SyntaxError string
  | SkipRecipe string
  | ParseError string
  | ExpansionError "string option" string exc
  | OutOfFuel

type_synonym 'a res = "exc + 'a"

definition rbind :: "'e + 'a \<Rightarrow> ('a \<Rightarrow> 'e + 'b) \<Rightarrow> 'e + 'b" where
  "rbind m f = (case m of Inl e \<Rightarrow> Inl e | Inr x \<Rightarrow> f x)"

lemma rbind_Inl [simp]: "rbind (Inl e) f = Inl e"
  by (simp add: rbind_def)

lemma rbind_Inr [simp]: "rbind (Inr x) f = f x"
  by (simp add: rbind_def)

lemma rbind_eq_Inr: "rbind m f = Inr y \<longleftrightarrow> (\<exists>x. m = Inr x \<and> f x = Inr y)"
  by (cases m) auto

lemma rbind_eq_Inl: "rbind m f = Inl e \<longleftrightarrow> m = Inl e \<or> (\<exists>x. m = Inr x \<and> f x = Inl e)"
  by (cases m) auto

lemma rbind_pair_eq_Inr:
  "rbind m (\<lambda>(a, b). f a b) = Inr y \<longleftrightarrow> (\<exists>a b. m = Inr (a, b) \<and> f a b = Inr y)"
  by (cases m) auto

text \<open>The value of a dictionary entry or of a sequence item, or the exception.\<close>

definition dget :: "(string \<times> 'v) list \<Rightarrow> string \<Rightarrow> 'v res" where
  "dget d k = (case map_of d k of None \<Rightarrow> Inl (KeyError k) | Some v \<Rightarrow> Inr v)"

lemma dget_eq_Inr [simp]: "dget d k = Inr v \<longleftrightarrow> map_of d k = Some v"
  by (simp add: dget_def split: option.splits)

definition item :: "'a list \<Rightarrow> nat \<Rightarrow> 'a res" where
  "item xs i = (if i < length xs then Inr (xs ! i) else Inl IndexError)"

lemma item_eq_Inr [simp]: "item xs i = Inr x \<longleftrightarrow> i < length xs \<and> x = xs ! i"
  by (auto simp: item_def)

text \<open>\<open>[f x for x in xs]\<close>, stopping at the first exception.\<close>

fun rmap :: "('a \<Rightarrow> 'b res) \<Rightarrow> 'a list \<Rightarrow> 'b list res" where
  "rmap f [] = Inr []"
| "rmap f (x # xs) = rbind (f x) (\<lambda>y. rbind (rmap f xs) (\<lambda>ys. Inr (y # ys)))"

text \<open>A \<open>for\<close> loop that updates an accumulator and may raise.\<close>

fun rfold :: "('x \<Rightarrow> 'a \<Rightarrow> 'a res) \<Rightarrow> 'x list \<Rightarrow> 'a \<Rightarrow> 'a res" where
  "rfold f [] a = Inr a"
| "rfold f (x # xs) a = rbind (f x a) (rfold f xs)"

lemma rfold_append: "rfold f (xs @ ys) a = rbind (rfold f xs a) (rfold f ys)"
  by (induction xs arbitrary: a) (auto simp: rbind_def split: sum.splits)

text \<open>A loop keeps what every iteration keeps.\<close>

lemma rfold_inv:
  assumes "rfold f xs a = Inr b" and "P a"
    and "\<And>x a b. x \<in> set xs \<Longrightarrow> P a \<Longrightarrow> f x a = Inr b \<Longrightarrow> P b"
  shows "P b"
  using assms
proof (induction xs arbitrary: a)
  case Nil
  then show ?case by simp
next
  case (Cons x xs)
  then obtain a' where a': "f x a = Inr a'" and r: "rfold f xs a' = Inr b"
    by (auto simp: rbind_eq_Inr)
  from a' Cons.prems(2,3) have "P a'" by (meson list.set_intros(1))
  with r show ?case
    using Cons.IH Cons.prems(3) by (meson list.set_intros(2))
qed

lemma rfold_total:
  assumes "P a" and "\<And>x a. x \<in> set xs \<Longrightarrow> P a \<Longrightarrow> \<exists>b. f x a = Inr b \<and> P b"
  shows "\<exists>b. rfold f xs a = Inr b \<and> P b"
  using assms
proof (induction xs arbitrary: a)
  case Nil
  then show ?case by simp
next
  case (Cons x xs)
  then obtain b where "f x a = Inr b" "P b" by (meson list.set_intros(1))
  moreover have "\<exists>c. rfold f xs b = Inr c \<and> P c"
    using Cons.IH Cons.prems(2) \<open>P b\<close> by (meson list.set_intros(2))
  ultimately show ?case by auto
qed

text \<open>The same with the part of the list that has been iterated over.\<close>

lemma rfold_prefix:
  assumes "rfold f xs a = Inr b" and "P [] a"
    and "\<And>ys x zs a b. xs = ys @ x # zs \<Longrightarrow> P ys a \<Longrightarrow> f x a = Inr b \<Longrightarrow> P (ys @ [x]) b"
  shows "P xs b"
proof -
  have "rfold f zs a = Inr b \<Longrightarrow> xs = ys @ zs \<Longrightarrow> P ys a \<Longrightarrow> P xs b" for ys zs a
  proof (induction zs arbitrary: ys a)
    case Nil
    then show ?case by simp
  next
    case (Cons z zs)
    then obtain c where "f z a = Inr c" "rfold f zs c = Inr b" by (auto simp: rbind_eq_Inr)
    with Cons.prems(2,3) assms(3) [of ys z zs a c] Cons.IH [of c "ys @ [z]"] show ?case by simp
  qed
  with assms(1,2) show ?thesis by (metis append_Nil)
qed

section \<open>State and exceptions\<close>

text \<open>
  A method that updates the object it belongs to: it takes the state and returns the
  result, an exception or a value, with the state as it is when the method is left.  An
  exception does not undo the updates that were made before it.
\<close>

type_synonym ('s, 'a) sm = "'s \<Rightarrow> 'a res \<times> 's"

definition sret :: "'a \<Rightarrow> ('s, 'a) sm" where
  "sret x s = (Inr x, s)"

definition sraise :: "exc \<Rightarrow> ('s, 'a) sm" where
  "sraise e s = (Inl e, s)"

definition supd :: "('s \<Rightarrow> 's) \<Rightarrow> ('s, unit) sm" where
  "supd f s = (Inr (), f s)"

definition sget :: "('s \<Rightarrow> 'a) \<Rightarrow> ('s, 'a) sm" where
  "sget f s = (Inr (f s), s)"

definition sres :: "('s \<Rightarrow> 'a res) \<Rightarrow> ('s, 'a) sm" where
  "sres f s = (f s, s)"

definition sbind :: "('s, 'a) sm \<Rightarrow> ('a \<Rightarrow> ('s, 'b) sm) \<Rightarrow> ('s, 'b) sm" where
  "sbind m f s = (case m s of (Inl e, s') \<Rightarrow> (Inl e, s') | (Inr x, s') \<Rightarrow> f x s')"

text \<open>\<open>try: m except e if p(e): h(e)\<close>.\<close>

definition scatch :: "('s, 'a) sm \<Rightarrow> (exc \<Rightarrow> bool) \<Rightarrow> (exc \<Rightarrow> ('s, 'a) sm) \<Rightarrow> ('s, 'a) sm" where
  "scatch m p h s = (case m s of (Inl e, s') \<Rightarrow> if p e then h e s' else (Inl e, s')
     | (Inr x, s') \<Rightarrow> (Inr x, s'))"

text \<open>\<open>for x in xs: f(x)\<close> over a sequence that the body does not change.\<close>

fun sfor :: "'x list \<Rightarrow> ('x \<Rightarrow> ('s, unit) sm) \<Rightarrow> ('s, unit) sm" where
  "sfor [] f s = (Inr (), s)"
| "sfor (x # xs) f s = (case f x s of (Inl e, s') \<Rightarrow> (Inl e, s') | (Inr _, s') \<Rightarrow> sfor xs f s')"

lemmas sm_defs = sret_def sraise_def supd_def sget_def sres_def sbind_def

lemma sbind_eq_Inr:
  "sbind m f s = (Inr y, t) \<longleftrightarrow> (\<exists>x s'. m s = (Inr x, s') \<and> f x s' = (Inr y, t))"
  by (auto simp: sbind_def split: prod.splits sum.splits)

lemma sfor_append:
  "sfor (xs @ ys) f s = sbind (sfor xs f) (\<lambda>_. sfor ys f) s"
  by (induction xs arbitrary: s) (auto simp: sbind_def split: prod.splits sum.splits)

text \<open>
  Two rules for loops.  A reflexive and transitive relation between the states before and
  after that every iteration establishes holds across the loop, whether it finishes or
  raises; a predicate that every finished iteration keeps holds after a finished loop.
\<close>

lemma sfor_rel:
  assumes "\<And>s. R s s" and "\<And>s t u. R s t \<Longrightarrow> R t u \<Longrightarrow> R s u"
    and "\<And>x s. x \<in> set xs \<Longrightarrow> R s (snd (f x s))"
  shows "R s (snd (sfor xs f s))"
  using assms(3)
proof (induction xs arbitrary: s)
  case Nil
  then show ?case by (simp add: assms(1))
next
  case (Cons x xs)
  have 1: "R s (snd (f x s))" by (simp add: Cons.prems)
  have 2: "R t (snd (sfor xs f t))" for t by (simp add: Cons)
  show ?case
  proof (cases "f x s")
    case (Pair r s')
    then show ?thesis
      using 1 assms(2) [OF 1 2] by (auto split: sum.splits)
  qed
qed

lemma sfor_inv:
  assumes "sfor xs f s = (Inr (), t)" and "P s"
    and "\<And>x s t. x \<in> set xs \<Longrightarrow> P s \<Longrightarrow> f x s = (Inr (), t) \<Longrightarrow> P t"
  shows "P t"
  using assms
proof (induction xs arbitrary: s)
  case Nil
  then show ?case by simp
next
  case (Cons x xs)
  then obtain s' where s': "f x s = (Inr (), s')" and r: "sfor xs f s' = (Inr (), t)"
    by (auto split: prod.splits sum.splits)
  with Cons.prems(2,3) have "P s'" by (meson list.set_intros(1))
  with r show ?case
    using Cons.IH Cons.prems(3) by (meson list.set_intros(2))
qed

text \<open>Each element of a finished loop had its iteration, from an intermediate state.\<close>

lemma sfor_each:
  assumes "sfor xs f s = (Inr (), t)" and "x \<in> set xs"
  shows "\<exists>s' t' ys zs. xs = ys @ x # zs \<and> sfor ys f s = (Inr (), s') \<and>
    f x s' = (Inr (), t') \<and> sfor zs f t' = (Inr (), t)"
proof -
  from assms(2) obtain ys zs where xs: "xs = ys @ x # zs" by (meson split_list)
  with assms(1) show ?thesis
    by (auto simp: sfor_append sbind_def split: prod.splits sum.splits)
qed

text \<open>
  A small Hoare logic for these functions: from a state with \<open>P\<close> a value leaves with
  \<open>Q\<close> and an exception with \<open>E\<close>.
\<close>

named_theorems hoare_rules "rules of the Hoare logic of state and exceptions"

definition hoare :: "('s \<Rightarrow> bool) \<Rightarrow> ('s, 'a) sm \<Rightarrow> ('a \<Rightarrow> 's \<Rightarrow> bool) \<Rightarrow> (exc \<Rightarrow> 's \<Rightarrow> bool) \<Rightarrow> bool" where
  "hoare P m Q E \<longleftrightarrow> (\<forall>s. P s \<longrightarrow> (case m s of (Inl e, t) \<Rightarrow> E e t | (Inr x, t) \<Rightarrow> Q x t))"

lemma hoareI: "(\<And>s. P s \<Longrightarrow> (case m s of (Inl e, t) \<Rightarrow> E e t | (Inr x, t) \<Rightarrow> Q x t)) \<Longrightarrow> hoare P m Q E"
  by (simp add: hoare_def)

lemma hoareD: "hoare P m Q E \<Longrightarrow> P s \<Longrightarrow> (case m s of (Inl e, t) \<Rightarrow> E e t | (Inr x, t) \<Rightarrow> Q x t)"
  by (simp add: hoare_def)

lemma hoare_Inr: "hoare P m Q E \<Longrightarrow> P s \<Longrightarrow> m s = (Inr x, t) \<Longrightarrow> Q x t"
  by (auto simp: hoare_def split: prod.splits sum.splits)

lemma hoare_Inl: "hoare P m Q E \<Longrightarrow> P s \<Longrightarrow> m s = (Inl e, t) \<Longrightarrow> E e t"
  by (auto simp: hoare_def split: prod.splits sum.splits)

lemma hoare_cases:
  "(\<And>s x t. P s \<Longrightarrow> m s = (Inr x, t) \<Longrightarrow> Q x t) \<Longrightarrow> (\<And>s e t. P s \<Longrightarrow> m s = (Inl e, t) \<Longrightarrow> E e t) \<Longrightarrow>
    hoare P m Q E"
  by (auto simp: hoare_def split: prod.splits sum.splits)

lemma hoare_sret [hoare_rules]: "(\<And>s. P s \<Longrightarrow> Q x s) \<Longrightarrow> hoare P (sret x) Q E"
  by (simp add: hoare_def sret_def)

lemma hoare_sraise [hoare_rules]: "(\<And>s. P s \<Longrightarrow> E e s) \<Longrightarrow> hoare P (sraise e) Q E"
  by (simp add: hoare_def sraise_def)

lemma hoare_supd [hoare_rules]: "(\<And>s. P s \<Longrightarrow> Q () (f s)) \<Longrightarrow> hoare P (supd f) Q E"
  by (simp add: hoare_def supd_def)

lemma hoare_sget [hoare_rules]: "(\<And>s. P s \<Longrightarrow> Q (f s) s) \<Longrightarrow> hoare P (sget f) Q E"
  by (simp add: hoare_def sget_def)

lemma hoare_sres [hoare_rules]:
  "(\<And>s x. P s \<Longrightarrow> f s = Inr x \<Longrightarrow> Q x s) \<Longrightarrow> (\<And>s e. P s \<Longrightarrow> f s = Inl e \<Longrightarrow> E e s) \<Longrightarrow>
    hoare P (sres f) Q E"
  by (simp add: hoare_def sres_def split: sum.splits)

lemma hoare_sbind:
  assumes m: "hoare P m R E" and f: "\<And>x. hoare (R x) (f x) Q E"
  shows "hoare P (sbind m f) Q E"
proof (rule hoareI)
  fix s assume "P s"
  obtain r t where ms: "m s = (r, t)" by force
  show "case sbind m f s of (Inl e, t) \<Rightarrow> E e t | (Inr x, t) \<Rightarrow> Q x t"
  proof (cases r)
    case (Inl e)
    with ms hoare_Inl [OF m \<open>P s\<close>] show ?thesis by (simp add: sbind_def)
  next
    case (Inr x)
    with ms hoare_Inr [OF m \<open>P s\<close>] have "R x t" by simp
    with ms Inr f [of x] show ?thesis by (simp add: sbind_def hoare_def)
  qed
qed

lemma sfor_Cons: "sfor (x # xs) f = sbind (f x) (\<lambda>_. sfor xs f)"
  by (auto simp: sbind_def split: prod.splits sum.splits)

text \<open>The forms for a first step that only reads, so that what it read can be used.\<close>

lemma hoare_sget_bind: "(\<And>v. hoare (\<lambda>s. P s \<and> v = f s) (g v) Q E) \<Longrightarrow> hoare P (sbind (sget f) g) Q E"
  by (auto simp: hoare_def sbind_def sget_def)

lemma hoare_sres_bind:
  "(\<And>v. hoare (\<lambda>s. P s \<and> f s = Inr v) (g v) Q E) \<Longrightarrow> (\<And>s e. P s \<Longrightarrow> f s = Inl e \<Longrightarrow> E e s) \<Longrightarrow>
    hoare P (sbind (sres f) g) Q E"
  by (auto simp: hoare_def sbind_def sres_def split: sum.splits)

lemma hoare_supd_bind:
  "hoare P' g Q E \<Longrightarrow> (\<And>s. P s \<Longrightarrow> P' (f s)) \<Longrightarrow> hoare P (sbind (supd f) (\<lambda>_. g)) Q E"
  by (auto simp: hoare_def sbind_def supd_def)

text \<open>The forms for values that do not matter, and for what \<open>split_tid_mcfn\<close> returns.\<close>

lemma hoare_sget_any: "(\<And>v. hoare P (g v) Q E) \<Longrightarrow> hoare P (sbind (sget f) g) Q E"
  by (auto simp: hoare_def sbind_def sget_def)

lemma hoare_sres_any:
  "(\<And>v. hoare P (g v) Q E) \<Longrightarrow> (\<And>e s. E e s) \<Longrightarrow> hoare P (sbind (sres f) g) Q E"
  by (auto simp: hoare_def sbind_def sres_def split: sum.splits)

lemma hoare_case4:
  "(\<And>a b c d. hoare P (g a b c d) Q E) \<Longrightarrow> hoare P (case v of (a, b, c, d) \<Rightarrow> g a b c d) Q E"
  by (cases v) simp

lemma hoare_if [hoare_rules]:
  "(b \<Longrightarrow> hoare P m Q E) \<Longrightarrow> (\<not> b \<Longrightarrow> hoare P n Q E) \<Longrightarrow> hoare P (if b then m else n) Q E"
  by simp

lemma hoare_weaken:
  "hoare P m Q E \<Longrightarrow> (\<And>s. P' s \<Longrightarrow> P s) \<Longrightarrow> (\<And>x s. Q x s \<Longrightarrow> Q' x s) \<Longrightarrow> (\<And>e s. E e s \<Longrightarrow> E' e s) \<Longrightarrow>
    hoare P' m Q' E'"
  by (fastforce simp: hoare_def split: prod.splits sum.splits)

lemma hoare_pre: "hoare P m Q E \<Longrightarrow> (\<And>s. P' s \<Longrightarrow> P s) \<Longrightarrow> hoare P' m Q E"
  by (auto simp: hoare_def)

lemma hoare_conj:
  "hoare P m Q E \<Longrightarrow> hoare P' m Q' E' \<Longrightarrow>
    hoare (\<lambda>s. P s \<and> P' s) m (\<lambda>x s. Q x s \<and> Q' x s) (\<lambda>e s. E e s \<and> E' e s)"
  by (fastforce simp: hoare_def split: prod.splits sum.splits)

text \<open>What the precondition says of values that are not the state.\<close>

lemma hoare_fact: "(\<And>s. P s \<Longrightarrow> hoare P m Q E) \<Longrightarrow> hoare P m Q E"
  by (auto simp: hoare_def)

text \<open>A loop with an invariant over the elements already processed.\<close>

lemma hoare_sfor:
  assumes "\<And>ys x zs. xs = ys @ x # zs \<Longrightarrow> hoare (P ys) (f x) (\<lambda>_. P (ys @ [x])) E"
  shows "hoare (P []) (sfor xs f) (\<lambda>_. P xs) E"
proof -
  have "xs = ys @ zs \<Longrightarrow> hoare (P ys) (sfor zs f) (\<lambda>_. P xs) E" for ys zs
  proof (induction zs arbitrary: ys)
    case Nil
    then show ?case by (simp add: hoare_def)
  next
    case (Cons z zs)
    from assms [OF Cons.prems] have 1: "hoare (P ys) (f z) (\<lambda>_. P (ys @ [z])) E" .
    have 2: "hoare (P (ys @ [z])) (sfor zs f) (\<lambda>_. P xs) E" using Cons by simp
    show ?case unfolding sfor_Cons by (rule hoare_sbind [OF 1 2])
  qed
  from this [of "[]" xs] show ?thesis by simp
qed

lemma hoare_sfor_inv:
  assumes "\<And>x. x \<in> set xs \<Longrightarrow> hoare P (f x) (\<lambda>_. P) E"
  shows "hoare P (sfor xs f) (\<lambda>_. P) E"
  using hoare_sfor [of xs "\<lambda>_. P" f E] assms by (metis in_set_conv_decomp)

lemma hoare_scatch:
  "hoare P m Q (\<lambda>e s. if p e then R e s else E e s) \<Longrightarrow> (\<And>e. p e \<Longrightarrow> hoare (R e) (h e) Q E) \<Longrightarrow>
    hoare P (scatch m p h) Q E"
  by (fastforce simp: hoare_def scatch_def split: prod.splits sum.splits if_splits)

text \<open>
  The interface of a relation between the states before and after a method that is kept by
  composition: what every part of a method respects, the method respects, whether it
  returns or raises.
\<close>

locale state_preorder =
  fixes R :: "'s \<Rightarrow> 's \<Rightarrow> bool"
  assumes rel_refl: "R s s"
    and rel_trans: "R s t \<Longrightarrow> R t u \<Longrightarrow> R s u"
begin

definition keeps :: "('s, 'a) sm \<Rightarrow> bool" where
  "keeps m \<longleftrightarrow> (\<forall>s. R s (snd (m s)))"

lemma keepsD: "keeps m \<Longrightarrow> m s = (r, t) \<Longrightarrow> R s t"
  unfolding keeps_def by (metis snd_conv)

lemma pure: "keeps (sret x)" "keeps (sraise e)" "keeps (sget f)" "keeps (sres g)"
  by (simp_all add: keeps_def sm_defs rel_refl)

lemma update: "(\<And>s. R s (f s)) \<Longrightarrow> keeps (supd f)"
  by (simp add: keeps_def sm_defs)

lemma sequence: "keeps m \<Longrightarrow> (\<And>x. keeps (f x)) \<Longrightarrow> keeps (sbind m f)"
  by (auto simp: keeps_def sbind_def split: prod.split sum.split) (metis snd_conv rel_trans)+

lemma branch: "(b \<Longrightarrow> keeps m) \<Longrightarrow> (\<not> b \<Longrightarrow> keeps n) \<Longrightarrow> keeps (if b then m else n)"
  by simp

lemma loop: "(\<And>x. x \<in> set xs \<Longrightarrow> keeps (f x)) \<Longrightarrow> keeps (sfor xs f)"
proof (induction xs)
  case Nil
  then show ?case by (simp add: keeps_def rel_refl)
next
  case (Cons x xs)
  then show ?case unfolding sfor_Cons by (intro sequence) auto
qed

lemma handler: "keeps m \<Longrightarrow> (\<And>e. keeps (h e)) \<Longrightarrow> keeps (scatch m p h)"
  by (auto simp: keeps_def scatch_def split: prod.split sum.split) (metis snd_conv rel_trans)+

text \<open>A predicate that the relation keeps is kept by the method.\<close>

lemma hoare_keeps:
  "keeps m \<Longrightarrow> (\<And>s t. P s \<Longrightarrow> R s t \<Longrightarrow> P t) \<Longrightarrow> hoare P m (\<lambda>_. P) (\<lambda>_. P)"
  by (rule hoare_cases) (blast dest: keepsD)+

lemmas rules = pure sequence branch loop

end

text \<open>A method of the first of two objects.\<close>

definition on_fst :: "('a, 'r) sm \<Rightarrow> ('a \<times> 'b, 'r) sm" where
  "on_fst m s = (case s of (a, b) \<Rightarrow> (case m a of (r, a') \<Rightarrow> (r, (a', b))))"

lemma hoare_on_fst: "(\<And>b. hoare (\<lambda>a. P (a, b)) m (\<lambda>x a. Q x (a, b)) (\<lambda>e a. E e (a, b))) \<Longrightarrow>
    hoare P (on_fst m) Q E"
  by (fastforce simp: hoare_def on_fst_def split: prod.splits sum.splits)

section \<open>Sets and dictionaries kept as lists\<close>

definition sadd :: "'a \<Rightarrow> 'a list \<Rightarrow> 'a list" where
  "sadd x xs = (if x \<in> set xs then xs else xs @ [x])"

lemma set_sadd [simp, py_dict]: "set (sadd x xs) = insert x (set xs)"
  by (auto simp: sadd_def)

lemma distinct_sadd [simp, py_dict]: "distinct (sadd x xs) = distinct xs"
  by (auto simp: sadd_def)

definition sunion :: "'a list \<Rightarrow> 'a list \<Rightarrow> 'a list" where
  "sunion xs ys = fold sadd ys xs"

lemma set_sunion [simp, py_dict]: "set (sunion xs ys) = set xs \<union> set ys"
proof -
  have "set (fold sadd ys zs) = set zs \<union> set ys" for zs
    by (induction ys arbitrary: zs) auto
  then show ?thesis by (simp add: sunion_def)
qed

lemma distinct_sunion [simp, py_dict]: "distinct (sunion xs ys) = distinct xs"
proof -
  have "distinct (fold sadd ys zs) = distinct zs" for zs
    by (induction ys arbitrary: zs) auto
  then show ?thesis by (simp add: sunion_def)
qed

definition dset :: "'k \<Rightarrow> 'v \<Rightarrow> ('k \<times> 'v) list \<Rightarrow> ('k \<times> 'v) list" where
  "dset k v d = AList.update k v d"

definition keys :: "('k \<times> 'v) list \<Rightarrow> 'k list" where
  "keys d = map fst d"

definition dvals :: "('k \<times> 'v) list \<Rightarrow> 'v list" where
  "dvals d = map snd d"

lemma map_of_dset [simp, py_dict]: "map_of (dset k v d) = (map_of d)(k \<mapsto> v)"
  by (simp add: dset_def update_conv')

lemma map_of_filter_key: "map_of (filter (\<lambda>(k, v). p k) d) k = (if p k then map_of d k else None)"
  by (induction d) auto

lemma keys_filter_key: "keys (filter (\<lambda>(k, v). p k) d) = filter p (keys d)"
  by (induction d) (auto simp: keys_def)

lemma set_keys_dset [simp, py_dict]: "set (keys (dset k v d)) = insert k (set (keys d))"
  by (simp add: keys_def dset_def dom_update)

lemma distinct_keys_dset [simp, py_dict]: "distinct (keys d) \<Longrightarrow> distinct (keys (dset k v d))"
  by (simp add: keys_def dset_def distinct_update)

lemma keys_dset: "keys (dset k v d) = (if k \<in> set (keys d) then keys d else keys d @ [k])"
  by (simp add: keys_def dset_def update_keys)

lemma keys_dset_mem: "k \<in> set (keys d) \<Longrightarrow> keys (dset k v d) = keys d"
  by (simp add: keys_dset)

lemma set_keys [py_dict]: "k \<in> set (keys d) \<longleftrightarrow> (\<exists>v. map_of d k = Some v)"
  by (metis keys_def map_of_eq_None_iff not_None_eq set_map)

lemma map_of_keys: "map_of d k = Some v \<Longrightarrow> k \<in> set (keys d)"
  by (auto simp: set_keys)

lemma dom_map_of_keys: "dom (map_of d) = set (keys d)"
  by (simp add: keys_def dom_map_of_conv_image_fst)

lemma dset_new [py_dict]: "k \<notin> set (keys d) \<Longrightarrow> dset k v d = d @ [(k, v)]"
  by (induction d) (auto simp: dset_def keys_def)

text \<open>\<open>d.get(k, default)\<close>.\<close>

definition dget_or :: "('k \<times> 'v) list \<Rightarrow> 'k \<Rightarrow> 'v \<Rightarrow> 'v" where
  "dget_or d k v = (case map_of d k of None \<Rightarrow> v | Some w \<Rightarrow> w)"

text \<open>\<open>d[k].append(v)\<close> on a dictionary whose missing entries are empty lists.\<close>

definition dappend :: "'k \<Rightarrow> 'v \<Rightarrow> ('k \<times> 'v list) list \<Rightarrow> ('k \<times> 'v list) list" where
  "dappend k v d = dset k (dget_or d k [] @ [v]) d"

text \<open>The same after \<open>if v not in d[k]\<close>.\<close>

definition dappend_new :: "'k \<Rightarrow> 'v \<Rightarrow> ('k \<times> 'v list) list \<Rightarrow> ('k \<times> 'v list) list" where
  "dappend_new k v d = (if v \<in> set (dget_or d k []) then d else dappend k v d)"

lemma dget_or_dset [simp, py_dict]: "dget_or (dset k v d) l w = (if l = k then v else dget_or d l w)"
  by (simp add: dget_or_def)

lemma dget_or_dappend [simp, py_dict]:
  "dget_or (dappend k v d) l [] = (if l = k then dget_or d k [] @ [v] else dget_or d l [])"
  by (simp add: dappend_def)

lemma dget_or_dappend_new [simp, py_dict]:
  "dget_or (dappend_new k v d) l [] =
    (if l = k \<and> v \<notin> set (dget_or d k []) then dget_or d k [] @ [v] else dget_or d l [])"
  by (simp add: dappend_new_def)

lemma dget_or_mem: "x \<in> set (dget_or d k []) \<Longrightarrow> k \<in> set (keys d)"
  by (cases "map_of d k") (auto simp: dget_or_def set_keys)

lemma dget_or_Nil [simp, py_dict]: "dget_or [] k v = v"
  by (simp add: dget_or_def)


end
