(* ===== verification/Py_Str.thy ===== *)
theory Py_Str
  imports Py_Base "HOL-Library.Sublist"
begin

text \<open>
  The methods of Python's \<open>str\<close> that the modelled code calls: \<open>split\<close>,
  \<open>rsplit\<close>, \<open>strip\<close>, \<open>startswith\<close>, \<open>endswith\<close>,
  \<open>replace\<close>, \<open>join\<close> and the conversion \<open>int\<close>, with the round trips
  that the components use.
\<close>

section \<open>Character classes\<close>

text \<open>The white space of \<open>str.split()\<close> and \<open>str.strip()\<close> below code point 256.\<close>

definition py_isspace :: "char \<Rightarrow> bool" where
  "py_isspace c = (let n = (of_char c :: nat) in
     (9 \<le> n \<and> n \<le> 13) \<or> (28 \<le> n \<and> n \<le> 32) \<or> n = 133 \<or> n = 160)"

text \<open>\<open>c in string.digits\<close>, which below 256 is also what \<open>\\d\<close> matches.\<close>

definition is_digit :: "char \<Rightarrow> bool" where
  "is_digit c = (let n = (of_char c :: nat) in 48 \<le> n \<and> n \<le> 57)"

text \<open>\<open>c in string.ascii_letters\<close>.\<close>

definition is_letter :: "char \<Rightarrow> bool" where
  "is_letter c = (let n = (of_char c :: nat) in (65 \<le> n \<and> n \<le> 90) \<or> (97 \<le> n \<and> n \<le> 122))"

lemma digit_not_letter: "is_digit c \<Longrightarrow> \<not> is_letter c"
  by (auto simp: is_digit_def is_letter_def Let_def)

definition digit_val :: "char \<Rightarrow> nat" where
  "digit_val c = of_char c - 48"

definition digits_val :: "string \<Rightarrow> nat" where
  "digits_val s = foldl (\<lambda>n c. 10 * n + digit_val c) 0 s"

section \<open>Prefixes and suffixes\<close>

definition startswith :: "string \<Rightarrow> string \<Rightarrow> bool" where
  "startswith s p = (take (length p) s = p)"

definition endswith :: "string \<Rightarrow> string \<Rightarrow> bool" where
  "endswith s p = startswith (rev s) (rev p)"

text \<open>\<open>p in s\<close>.\<close>

definition occurs :: "string \<Rightarrow> string \<Rightarrow> bool" where
  "occurs s p = list_ex (\<lambda>t. startswith t p) (suffixes s)"

lemma startswith_prefix: "startswith s p \<longleftrightarrow> prefix p s"
  by (metis append_eq_conv_conj prefix_def startswith_def)

lemma startswith_iff: "startswith s p \<longleftrightarrow> (\<exists>t. s = p @ t)"
  by (auto simp: startswith_prefix prefix_def)

lemma endswith_iff: "endswith s p \<longleftrightarrow> (\<exists>t. s = t @ p)"
  by (auto simp: endswith_def startswith_iff) (metis rev_append rev_rev_ident)

lemma startswith_append [simp, py_str]: "startswith (p @ s) p"
  by (simp add: startswith_def)

lemma endswith_append [simp, py_str]: "endswith (s @ p) p"
  by (auto simp: endswith_iff)

lemma startswith_Nil [simp, py_str]: "startswith s []"
  by (simp add: startswith_def)

section \<open>Splitting and joining\<close>

text \<open>\<open>s.split(c)\<close> for a separator of one character.\<close>

fun split_on :: "char \<Rightarrow> string \<Rightarrow> string list" where
  "split_on c [] = [[]]"
| "split_on c (x # xs) = (if x = c then [] # split_on c xs
     else (case split_on c xs of [] \<Rightarrow> [[x]] | w # ws \<Rightarrow> (x # w) # ws))"

text \<open>\<open>c.join(ws)\<close> for a separator string.\<close>

fun join :: "string \<Rightarrow> string list \<Rightarrow> string" where
  "join sep [] = []"
| "join sep [w] = w"
| "join sep (w # v # ws) = w @ sep @ join sep (v # ws)"

text \<open>\<open>s.rsplit(c, 1)\<close>: at most one split, at the last separator.\<close>

definition rsplit1 :: "char \<Rightarrow> string \<Rightarrow> string list" where
  "rsplit1 c s = (if c \<in> set s
     then [rev (tl (dropWhile (\<lambda>x. x \<noteq> c) (rev s))), rev (takeWhile (\<lambda>x. x \<noteq> c) (rev s))]
     else [s])"

text \<open>\<open>s.split()\<close>: the maximal runs of characters that are not white space.\<close>

fun split_ws_aux :: "string \<Rightarrow> string \<Rightarrow> string list" where
  "split_ws_aux w [] = (if w = [] then [] else [rev w])"
| "split_ws_aux w (x # xs) = (if py_isspace x
     then (if w = [] then split_ws_aux [] xs else rev w # split_ws_aux [] xs)
     else split_ws_aux (x # w) xs)"

definition split_ws :: "string \<Rightarrow> string list" where
  "split_ws s = split_ws_aux [] s"

text \<open>\<open>s.strip(cs)\<close> and \<open>s.strip()\<close>.\<close>

definition strip_by :: "(char \<Rightarrow> bool) \<Rightarrow> string \<Rightarrow> string" where
  "strip_by p s = rev (dropWhile p (rev (dropWhile p s)))"

definition strip :: "string \<Rightarrow> string" where
  "strip s = strip_by py_isspace s"

text \<open>\<open>s.replace(old, new)\<close> for a non-empty \<open>old\<close>.\<close>

function replace :: "string \<Rightarrow> string \<Rightarrow> string \<Rightarrow> string" where
  "replace old new [] = []"
| "replace old new (x # xs) = (if old \<noteq> [] \<and> startswith (x # xs) old
     then new @ replace old new (drop (length old) (x # xs)) else x # replace old new xs)"
  by pat_completeness auto
termination
  by (relation "measure (\<lambda>(old, new, s). length s)") (auto simp: Suc_diff_le diff_le_self neq_Nil_conv)

text \<open>
  \<open>int(s)\<close>: optional white space, an optional sign and at least one decimal digit;
  anything else is a \<open>ValueError\<close>.
\<close>

definition py_int :: "string \<Rightarrow> int res" where
  "py_int s = (let t = strip s; neg = startswith t ''-'';
       ds = (if neg \<or> startswith t ''+'' then tl t else t)
     in if ds \<noteq> [] \<and> list_all is_digit ds
        then Inr (if neg then - int (digits_val ds) else int (digits_val ds))
        else Inl ValueError)"

section \<open>Facts\<close>

lemma split_on_ne [simp, py_str]: "split_on c s \<noteq> []"
  by (induction s) (auto split: list.splits)

lemma join_split_on [py_str]: "join [c] (split_on c s) = s"
proof (induction s)
  case Nil
  then show ?case by simp
next
  case (Cons x xs)
  obtain w ws where w: "split_on c xs = w # ws" by (meson list.exhaust split_on_ne)
  show ?case
    using Cons by (cases ws) (auto simp: w)
qed

lemma split_on_no_sep [py_str]: "w \<in> set (split_on c s) \<Longrightarrow> c \<notin> set w"
proof (induction s arbitrary: w)
  case Nil
  then show ?case by simp
next
  case (Cons x xs)
  then show ?case
    by (auto split: if_splits list.splits)
qed

lemma split_on_single [simp, py_str]: "c \<notin> set s \<Longrightarrow> split_on c s = [s]"
  by (induction s) auto

lemma split_on_append [simp, py_str]:
  "c \<notin> set w \<Longrightarrow> split_on c (w @ c # s) = w # split_on c s"
  by (induction w) auto

lemma split_on_join [py_str]:
  "ws \<noteq> [] \<Longrightarrow> \<forall>w \<in> set ws. c \<notin> set w \<Longrightarrow> split_on c (join [c] ws) = ws"
  by (induction "[c]" ws rule: join.induct) auto

lemma length_split_on: "length (split_on c s) = Suc (count_list s c)"
  by (induction s) (auto split: list.splits)

lemma join_append [py_str]:
  "xs \<noteq> [] \<Longrightarrow> ys \<noteq> [] \<Longrightarrow> join sep (xs @ ys) = join sep xs @ sep @ join sep ys"
proof (induction sep xs rule: join.induct)
  case (1 sep)
  then show ?case by simp
next
  case (2 sep w)
  then show ?case by (cases ys) auto
next
  case (3 sep w v ws)
  then show ?case by simp
qed

lemma rsplit1_single [simp, py_str]: "c \<notin> set s \<Longrightarrow> rsplit1 c s = [s]"
  by (simp add: rsplit1_def)

lemma rsplit1_append [simp, py_str]: "c \<notin> set w \<Longrightarrow> rsplit1 c (s @ c # w) = [s, w]"
proof -
  assume c: "c \<notin> set w"
  then have "takeWhile (\<lambda>x. x \<noteq> c) (rev w @ c # rev s) = rev w"
    and "dropWhile (\<lambda>x. x \<noteq> c) (rev w @ c # rev s) = c # rev s"
    by (auto simp: takeWhile_append dropWhile_append)
  then show ?thesis by (simp add: rsplit1_def)
qed

lemma rsplit1_cases:
  "(c \<notin> set s \<and> rsplit1 c s = [s]) \<or> (\<exists>a b. s = a @ c # b \<and> c \<notin> set b \<and> rsplit1 c s = [a, b])"
proof (cases "c \<in> set s")
  case True
  then obtain a b where s: "s = a @ c # b" "c \<notin> set b" by (meson split_list_last)
  then show ?thesis by auto
qed simp

lemma rsplit1_ne [simp, py_str]: "rsplit1 c s \<noteq> []"
  by (simp add: rsplit1_def)

lemma split_ws_aux_chars:
  "list_all (\<lambda>c. \<not> py_isspace c) w \<Longrightarrow>
    list_all (\<lambda>v. v \<noteq> [] \<and> list_all (\<lambda>c. \<not> py_isspace c) v) (split_ws_aux w s)"
proof (induction w s rule: split_ws_aux.induct)
  case (1 w)
  then show ?case by simp
next
  case (2 w x xs)
  show ?case
  proof (cases "py_isspace x")
    case True
    show ?thesis
      using 2(1,2) 2(4) True by (cases "w = []") auto
  next
    case False
    then show ?thesis using 2(3,4) by auto
  qed
qed

lemma split_ws_words [py_str]:
  assumes "w \<in> set (split_ws s)"
  shows "w \<noteq> [] \<and> (\<forall>c \<in> set w. \<not> py_isspace c)"
proof -
  have "list_all (\<lambda>v. v \<noteq> [] \<and> list_all (\<lambda>c. \<not> py_isspace c) v) (split_ws s)"
    unfolding split_ws_def by (rule split_ws_aux_chars) simp
  with assms show ?thesis by (simp add: list_all_iff)
qed

lemma split_ws_aux_word:
  "(\<forall>c \<in> set v. \<not> py_isspace c) \<Longrightarrow> split_ws_aux w (v @ s) = split_ws_aux (rev v @ w) s"
  by (induction v arbitrary: w) auto

lemma isspace_blank [simp, py_str]: "py_isspace CHR '' ''"
  by (simp add: py_isspace_def)

text \<open>Joining words with blanks and splitting gives the words back.\<close>

lemma split_ws_join [py_str]:
  "\<forall>w \<in> set ws. w \<noteq> [] \<and> (\<forall>c \<in> set w. \<not> py_isspace c) \<Longrightarrow> split_ws (join '' '' ws) = ws"
proof (induction "'' ''" ws rule: join.induct)
  case 1
  then show ?case by (simp add: split_ws_def)
next
  case (2 w)
  then have "split_ws_aux [] (w @ []) = [w]"
    by (subst split_ws_aux_word) auto
  then show ?case by (simp add: split_ws_def)
next
  case (3 w v ws)
  have "split_ws_aux [] (w @ '' '' @ join '' '' (v # ws)) = w # split_ws (join '' '' (v # ws))"
    using 3(2) by (subst split_ws_aux_word) (auto simp: split_ws_def)
  moreover have "split_ws (join '' '' (v # ws)) = v # ws"
    using 3(1,2) by simp
  ultimately show ?case by (simp add: split_ws_def)
qed

lemma split_ws_aux_blank: "split_ws_aux w (a @ CHR '' '' # b) = split_ws_aux w a @ split_ws b"
  by (induction w a rule: split_ws_aux.induct) (auto simp: split_ws_def)

lemma split_ws_blank [py_str]: "split_ws (a @ CHR '' '' # b) = split_ws a @ split_ws b"
  by (simp add: split_ws_def split_ws_aux_blank)

lemma split_ws_join_concat [py_str]: "split_ws (join '' '' ws) = concat (map split_ws ws)"
  by (induction "'' ''" ws rule: join.induct) (simp_all add: split_ws_blank, simp add: split_ws_def)

lemma split_ws_word [py_str]: "w \<noteq> [] \<Longrightarrow> \<forall>c \<in> set w. \<not> py_isspace c \<Longrightarrow> split_ws w = [w]"
  using split_ws_join [of "[w]"] by simp

lemma replace_char_Nil [py_str]: "replace [c] [] s = filter (\<lambda>x. x \<noteq> c) s"
  by (induction s) (auto simp: startswith_def)

lemma filter_join [py_str]: "filter p (join sep ws) = join (filter p sep) (map (filter p) ws)"
  by (induction sep ws rule: join.induct) auto

lemma split_ws_Nil [simp]: "split_ws [] = []"
  by (simp add: split_ws_def)

lemma dropWhile_none: "\<forall>c \<in> set s. \<not> p c \<Longrightarrow> dropWhile p s = s"
  by (cases s) auto

lemma strip_no_space: "\<forall>c \<in> set s. \<not> p c \<Longrightarrow> strip_by p s = s"
  by (simp add: strip_by_def dropWhile_none)

end
