(* ===== verification/Versions.thy ===== *)
theory Versions
  imports Py_Str
begin

text \<open>
  Version comparison, \<^verbatim>\<open>bitbake/lib/bb/utils.py\<close>: \<open>explode_version\<close> cuts a
  version into parts, \<open>vercmp_part\<close> compares two part lists, \<open>vercmp\<close> compares
  triples of epoch, version and revision, and \<open>vercmp_string_op\<close> evaluates a relation
  given as a string.  The parts are a linear order; the comparison of two versions that
  does not raise is the comparison of a total preorder, it is antisymmetric, and it raises
  exactly when one part list continues the other with a number.
\<close>

section \<open>The code\<close>

text \<open>A part of an exploded version: the pairs \<open>(-1, '~')\<close>, \<open>(0, n)\<close>,
  \<open>(1, letters)\<close> and \<open>(2, c)\<close> of the source.\<close>

datatype vpart = VTilde | VNum nat | VAlpha string | VOther char

fun vord :: "vpart \<Rightarrow> int" where
  "vord VTilde = -1"
| "vord (VNum n) = 0"
| "vord (VAlpha s) = 1"
| "vord (VOther c) = 2"

text \<open>
  What \<open>(.*)$\<close> captures at the start of \<open>s\<close>: the text up to the first newline, which
  may only be the last character; otherwise the match fails.
\<close>

definition re_tail :: "string \<Rightarrow> string option" where
  "re_tail s = (let x = takeWhile (\<lambda>c. c \<noteq> CHR 0x0A) s
     in if length s - length x \<le> 1 then Some x else None)"

lemma re_tail_length: "re_tail s = Some t \<Longrightarrow> length t \<le> length s"
  by (auto simp: re_tail_def Let_def length_takeWhile_le split: if_splits)

function explode_version :: "string \<Rightarrow> vpart list res" where
  "explode_version [] = Inr []"
| "explode_version (c # s) =
     (if is_digit c then
        (case re_tail (dropWhile is_digit s) of
           None \<Rightarrow> Inl AttributeError
         | Some t \<Rightarrow> rbind (explode_version t)
             (\<lambda>r. Inr (VNum (digits_val (c # takeWhile is_digit s)) # r)))
      else if is_letter c then
        (case re_tail (dropWhile is_letter s) of
           None \<Rightarrow> Inl AttributeError
         | Some t \<Rightarrow> rbind (explode_version t)
             (\<lambda>r. Inr (VAlpha (c # takeWhile is_letter s) # r)))
      else rbind (explode_version s)
        (\<lambda>r. Inr ((if c = CHR ''~'' then VTilde else VOther c) # r)))"
  by pat_completeness auto
termination
proof (relation "measure length")
  fix c s t
  assume "re_tail (dropWhile is_digit s) = Some t"
  then show "(t, c # s) \<in> measure length"
    using re_tail_length length_dropWhile_le [of is_digit s] by force
next
  fix c s t
  assume "re_tail (dropWhile is_letter s) = Some t"
  then show "(t, c # s) \<in> measure length"
    using re_tail_length length_dropWhile_le [of is_letter s] by force
qed auto

text \<open>
  One comparison of the loop of \<open>vercmp_part\<close>: \<open>None\<close> is the pair \<open>(0, None)\<close> that
  stands for an exhausted list.  Comparing \<open>None\<close> with a number is a \<open>TypeError\<close>
  of Python 3.
\<close>

fun ovord :: "vpart option \<Rightarrow> int" where
  "ovord None = 0"
| "ovord (Some p) = vord p"

definition cmp3 :: "'a::linorder \<Rightarrow> 'a \<Rightarrow> int" where
  "cmp3 a b = (if a < b then -1 else if a > b then 1 else 0)"

fun value_cmp :: "vpart option \<Rightarrow> vpart option \<Rightarrow> int res" where
  "value_cmp (Some (VNum m)) (Some (VNum n)) = Inr (cmp3 m n)"
| "value_cmp (Some (VAlpha s)) (Some (VAlpha t)) = Inr (cmp3 s t)"
| "value_cmp (Some (VOther c)) (Some (VOther d)) = Inr (cmp3 c d)"
| "value_cmp (Some VTilde) (Some VTilde) = Inr 0"
| "value_cmp _ _ = Inl TypeError"

definition ohd :: "'a list \<Rightarrow> 'a option" where
  "ohd xs = (case xs of [] \<Rightarrow> None | x # _ \<Rightarrow> Some x)"

function vercmp_loop :: "vpart list \<Rightarrow> vpart list \<Rightarrow> int res" where
  "vercmp_loop va vb =
     (if va = [] \<and> vb = [] then Inr 0
      else if ovord (ohd va) < ovord (ohd vb) then Inr (-1)
      else if ovord (ohd va) > ovord (ohd vb) then Inr 1
      else rbind (value_cmp (ohd va) (ohd vb))
        (\<lambda>r. if r < 0 then Inr (-1) else if r > 0 then Inr 1 else vercmp_loop (tl va) (tl vb)))"
  by pat_completeness auto
termination
  by (relation "measure (\<lambda>(va, vb). length va + length vb)") (auto simp: neq_Nil_conv)

declare vercmp_loop.simps [simp del]

definition vercmp_part :: "string \<Rightarrow> string \<Rightarrow> int res" where
  "vercmp_part a b = rbind (explode_version a) (\<lambda>va. rbind (explode_version b) (\<lambda>vb.
     vercmp_loop va vb))"

text \<open>An epoch is a string of the metadata, an integer from \<open>split_version\<close> or \<open>None\<close>.\<close>

datatype epoch = EInt int | EStr string | ENone

text \<open>\<open>int(e or 0)\<close>.\<close>

fun epoch_int :: "epoch \<Rightarrow> int res" where
  "epoch_int (EInt i) = Inr i"
| "epoch_int (EStr s) = (if s = [] then Inr 0 else py_int s)"
| "epoch_int ENone = Inr 0"

type_synonym version = "epoch \<times> string \<times> string"

definition vercmp :: "version \<Rightarrow> version \<Rightarrow> int res" where
  "vercmp ta tb = (case ta of (ea, va, ra) \<Rightarrow> case tb of (eb, vb, rb) \<Rightarrow>
     rbind (epoch_int ea) (\<lambda>ia. rbind (epoch_int eb) (\<lambda>ib.
       let r = ia - ib in
       rbind (if r = 0 then vercmp_part va vb else Inr r) (\<lambda>r.
         if r = 0 then vercmp_part ra rb else Inr r))))"

definition split_version :: "string \<Rightarrow> version res" where
  "split_version s0 =
     (let s = strip_by (\<lambda>c. c \<in> set '' <>='') s0 in
      rbind (if CHR '':'' \<in> set s
             then rbind (py_int (split_on CHR '':'' s ! 0))
               (\<lambda>e. Inr (e, split_on CHR '':'' s ! 1))
             else Inr (0, s))
        (\<lambda>(e, s). if CHR ''-'' \<in> set s
           then Inr (EInt e, rsplit1 CHR ''-'' s ! 0, rsplit1 CHR ''-'' s ! 1)
           else Inr (EInt e, s, '''')))"

definition vercmp_string :: "string \<Rightarrow> string \<Rightarrow> int res" where
  "vercmp_string a b = rbind (split_version a) (\<lambda>ta. rbind (split_version b) (vercmp ta))"

definition vercmp_string_op :: "string \<Rightarrow> string \<Rightarrow> string \<Rightarrow> bool res" where
  "vercmp_string_op a b op =
     rbind (vercmp_string a b) (\<lambda>res.
       if op \<in> {''='', ''==''} then Inr (res = 0)
       else if op = ''<='' then Inr (res \<le> 0)
       else if op = ''>='' then Inr (res \<ge> 0)
       else if op \<in> {''>'', ''>>''} then Inr (res > 0)
       else if op \<in> {''<'', ''<<''} then Inr (res < 0)
       else if op = ''!='' then Inr (res \<noteq> 0)
       else Inl (VersionStringException (''Unsupported comparison operator \"'' @ op @ ''\"'')))"

section \<open>The order of the parts\<close>

instantiation vpart :: linorder
begin

fun less_vpart :: "vpart \<Rightarrow> vpart \<Rightarrow> bool" where
  "less_vpart (VNum m) (VNum n) = (m < n)"
| "less_vpart (VAlpha s) (VAlpha t) = (s < t)"
| "less_vpart (VOther c) (VOther d) = (c < d)"
| "less_vpart a b = (vord a < vord b)"

definition less_eq_vpart :: "vpart \<Rightarrow> vpart \<Rightarrow> bool" where
  "less_eq_vpart a b = (a < b \<or> a = b)"

instance
proof
  fix a b c :: vpart
  show "a < b \<longleftrightarrow> a \<le> b \<and> \<not> b \<le> a"
    by (cases a; cases b) (auto simp: less_eq_vpart_def)
  show "a \<le> a" by (simp add: less_eq_vpart_def)
  show "a \<le> b \<Longrightarrow> b \<le> c \<Longrightarrow> a \<le> c"
    by (cases a; cases b; cases c) (auto simp: less_eq_vpart_def)
  show "a \<le> b \<Longrightarrow> b \<le> a \<Longrightarrow> a = b"
    by (cases a; cases b) (auto simp: less_eq_vpart_def)
  show "a \<le> b \<or> b \<le> a"
    by (cases a; cases b) (auto simp: less_eq_vpart_def)
qed

end

lemma VTilde_less [simp]: "VTilde < a \<longleftrightarrow> a \<noteq> VTilde" "\<not> a < VTilde"
  by (cases a; simp)+

lemma cmp3_simps [simp]: "cmp3 a a = 0" "cmp3 a b = 0 \<longleftrightarrow> a = b" "cmp3 a b < 0 \<longleftrightarrow> a < b"
    "0 < cmp3 a b \<longleftrightarrow> b < a" "- cmp3 a b = cmp3 b a" "sgn (cmp3 a b) = cmp3 a b"
    "cmp3 a b \<le> 0 \<longleftrightarrow> a \<le> b"
  by (auto simp: cmp3_def)

text \<open>One step of the loop on two parts compares them in this order.\<close>

lemma vercmp_loop_Nil [simp]: "vercmp_loop [] [] = Inr 0"
  by (simp add: vercmp_loop.simps)

lemma vercmp_loop_Cons [simp]:
  "vercmp_loop (a # va) (b # vb) = (if a = b then vercmp_loop va vb else Inr (cmp3 a b))"
  by (cases a; cases b; subst vercmp_loop.simps) (auto simp: ohd_def cmp3_def)

lemma vercmp_loop_left [simp]:
  "vercmp_loop (a # va) [] = (case a of VTilde \<Rightarrow> Inr (-1) | VNum _ \<Rightarrow> Inl TypeError | _ \<Rightarrow> Inr 1)"
  by (cases a) (auto simp: vercmp_loop.simps ohd_def)

lemma vercmp_loop_right [simp]:
  "vercmp_loop [] (b # vb) = (case b of VTilde \<Rightarrow> Inr 1 | VNum _ \<Rightarrow> Inl TypeError | _ \<Rightarrow> Inr (-1))"
  by (cases b) (auto simp: vercmp_loop.simps ohd_def)

text \<open>
  The total preorder behind the comparison: an exhausted list is above a tilde and below
  everything else.
\<close>

fun parts_cmp :: "vpart list \<Rightarrow> vpart list \<Rightarrow> int" where
  "parts_cmp [] [] = 0"
| "parts_cmp (a # va) [] = (if a = VTilde then -1 else 1)"
| "parts_cmp [] (b # vb) = (if b = VTilde then 1 else -1)"
| "parts_cmp (a # va) (b # vb) = (if a = b then parts_cmp va vb else cmp3 a b)"

lemma vercmp_loop_parts_cmp: "vercmp_loop va vb = Inr r \<Longrightarrow> r = parts_cmp va vb"
  by (induction va vb rule: parts_cmp.induct) (auto split: if_splits vpart.splits)

lemma parts_cmp_antisym: "parts_cmp vb va = - parts_cmp va vb"
  by (induction va vb rule: parts_cmp.induct) auto

declare less_vpart.simps [simp del]

lemma parts_cmp_eq_0: "parts_cmp va vb = 0 \<longleftrightarrow> va = vb"
  by (induction va vb rule: parts_cmp.induct) auto

lemma parts_cmp_same [simp]: "parts_cmp va va = 0"
  by (simp add: parts_cmp_eq_0)

lemma parts_cmp_neg_trans:
  "parts_cmp va vb < 0 \<Longrightarrow> parts_cmp vb vc < 0 \<Longrightarrow> parts_cmp va vc < 0"
proof (induction va vb arbitrary: vc rule: parts_cmp.induct)
  case 1
  then show ?case by simp
next
  case (2 a va)
  then show ?case by (cases vc) (auto split: if_splits)
next
  case (3 b vb)
  then show ?case by (cases vc) (auto split: if_splits)
next
  case (4 a va b vb)
  then show ?case by (cases vc) (auto split: if_splits)
qed

lemma parts_cmp_trans:
  "parts_cmp va vb \<le> 0 \<Longrightarrow> parts_cmp vb vc \<le> 0 \<Longrightarrow> parts_cmp va vc \<le> 0"
  using parts_cmp_neg_trans [of va vb vc] parts_cmp_eq_0
  by (metis order_le_less)

text \<open>The error behaviour: the only exception of the loop, and exactly when it happens.\<close>

lemma vercmp_loop_error:
  "vercmp_loop va vb = Inl e \<longleftrightarrow> e = TypeError \<and>
     ((\<exists>n q. vb = va @ VNum n # q) \<or> (\<exists>n q. va = vb @ VNum n # q))"
  by (induction va vb rule: parts_cmp.induct) (auto split: vpart.splits)

lemma vercmp_loop_cases:
  "vercmp_loop va vb = Inr (parts_cmp va vb) \<or> vercmp_loop va vb = Inl TypeError"
  by (cases "vercmp_loop va vb") (auto dest: vercmp_loop_parts_cmp simp: vercmp_loop_error)

lemma vercmp_loop_flip:
  "vercmp_loop vb va = (case vercmp_loop va vb of Inl e \<Rightarrow> Inl e | Inr r \<Rightarrow> Inr (- r))"
proof (cases "vercmp_loop va vb")
  case (Inl e)
  then have "vercmp_loop vb va = Inl e"
    by (simp only: vercmp_loop_error) blast
  with Inl show ?thesis by simp
next
  case (Inr r)
  then have "\<nexists>e. vercmp_loop vb va = Inl e"
    by (metis Inl_Inr_False vercmp_loop_error)
  then obtain r' where "vercmp_loop vb va = Inr r'" by (cases "vercmp_loop vb va") auto
  with Inr show ?thesis
    using vercmp_loop_parts_cmp parts_cmp_antisym by (metis (full_types) sum.simps(6))
qed

section \<open>Comparisons that may raise\<close>

text \<open>
  What a client that picks the greatest of several versions relies on: where the comparison
  does not raise, it is the comparison of a total preorder.
\<close>

locale partial_comparison =
  fixes cmp :: "'a \<Rightarrow> 'a \<Rightarrow> int res" and ref :: "'a \<Rightarrow> 'a \<Rightarrow> int"
  assumes cmp_ref: "cmp a b = Inr r \<Longrightarrow> r = ref a b"
    and ref_antisym: "ref b a = - ref a b"
    and ref_trans: "ref a b \<le> 0 \<Longrightarrow> ref b c \<le> 0 \<Longrightarrow> ref a c \<le> 0"
begin

lemma ref_refl: "ref a a = 0"
  using ref_antisym [of a a] by simp

lemma trans:
  assumes "cmp a b = Inr r" "cmp b c = Inr s" "cmp a c = Inr t" "r \<le> 0" "s \<le> 0"
  shows "t \<le> 0"
  using assms(4,5) ref_trans
  unfolding cmp_ref [OF assms(1)] cmp_ref [OF assms(2)] cmp_ref [OF assms(3)] by blast

lemma flip:
  assumes "cmp a b = Inr r" "cmp b a = Inr s"
  shows "s = - r"
  using ref_antisym unfolding cmp_ref [OF assms(1)] cmp_ref [OF assms(2)] by blast

end

text \<open>The sign of a comparison is the order of the triples of epoch and part lists.\<close>

definition parts :: "string \<Rightarrow> vpart list" where
  "parts s = (case explode_version s of Inl _ \<Rightarrow> [] | Inr r \<Rightarrow> r)"

lemma vercmp_part_Inr:
  "vercmp_part a b = Inr r \<Longrightarrow> vercmp_loop (parts a) (parts b) = Inr r \<and>
    (\<exists>va. explode_version a = Inr va) \<and> (\<exists>vb. explode_version b = Inr vb)"
  by (auto simp: vercmp_part_def rbind_eq_Inr parts_def)

lemma vercmp_part_eq:
  "explode_version a = Inr va \<Longrightarrow> explode_version b = Inr vb \<Longrightarrow>
    vercmp_part a b = vercmp_loop va vb"
  by (simp add: vercmp_part_def)

lemma vercmp_part_parts: "vercmp_part a b = Inr r \<Longrightarrow> r = parts_cmp (parts a) (parts b)"
  using vercmp_part_Inr vercmp_loop_parts_cmp by blast

lemma vercmp_part_flip:
  assumes "vercmp_part a b = Inr r"
  shows "vercmp_part b a = Inr (- r)"
proof -
  from assms have l: "vercmp_loop (parts a) (parts b) = Inr r"
    and "vercmp_part b a = vercmp_loop (parts b) (parts a)"
    by (auto simp: vercmp_part_def rbind_eq_Inr parts_def)
  with vercmp_loop_flip [of "parts b" "parts a"] show ?thesis by simp
qed

lemma vercmp_part_refl:
  assumes "vercmp_part a b = Inr r"
  shows "parts a = parts b \<longleftrightarrow> r = 0"
  by (simp add: vercmp_part_parts [OF assms] parts_cmp_eq_0)

interpretation vpc: partial_comparison vercmp_part "\<lambda>a b. parts_cmp (parts a) (parts b)"
  by unfold_locales (fact vercmp_part_parts, fact parts_cmp_antisym, fact parts_cmp_trans)

lemma vercmp_eq_Inr:
  "vercmp (ea, va, ra) (eb, vb, rb) = Inr r \<longleftrightarrow>
    (\<exists>ia ib. epoch_int ea = Inr ia \<and> epoch_int eb = Inr ib \<and>
      (if ia \<noteq> ib then r = ia - ib
       else \<exists>q. vercmp_part va vb = Inr q \<and> (if q \<noteq> 0 then r = q else vercmp_part ra rb = Inr r)))"
  by (auto simp: vercmp_def rbind_eq_Inr Let_def)

lemma vercmp_flip:
  assumes "vercmp a b = Inr r"
  shows "vercmp b a = Inr (- r)"
proof -
  obtain ea va ra eb vb rb where ab: "a = (ea, va, ra)" "b = (eb, vb, rb)"
    by (metis prod_cases3)
  from assms obtain ia ib where i: "epoch_int ea = Inr ia" "epoch_int eb = Inr ib"
    and r: "if ia \<noteq> ib then r = ia - ib
       else \<exists>q. vercmp_part va vb = Inr q \<and> (if q \<noteq> 0 then r = q else vercmp_part ra rb = Inr r)"
    unfolding ab vercmp_eq_Inr by blast
  have "if ib \<noteq> ia then - r = ib - ia
       else \<exists>q. vercmp_part vb va = Inr q \<and> (if q \<noteq> 0 then - r = q else vercmp_part rb ra = Inr (- r))"
    using r vercmp_part_flip [of va vb] vercmp_part_flip [of ra rb] by (cases "ia = ib") fastforce+
  with i show ?thesis unfolding ab vercmp_eq_Inr by blast
qed

text \<open>The order of the triples, written out over the integers of the epochs.\<close>

definition epoch_val :: "epoch \<Rightarrow> int" where
  "epoch_val e = (case epoch_int e of Inl _ \<Rightarrow> 0 | Inr i \<Rightarrow> i)"

definition version_cmp :: "version \<Rightarrow> version \<Rightarrow> int" where
  "version_cmp a b = (case a of (ea, va, ra) \<Rightarrow> case b of (eb, vb, rb) \<Rightarrow>
     if epoch_val ea \<noteq> epoch_val eb then epoch_val ea - epoch_val eb
     else if parts va \<noteq> parts vb then parts_cmp (parts va) (parts vb)
     else parts_cmp (parts ra) (parts rb))"

lemma vercmp_version_cmp:
  assumes "vercmp a b = Inr r"
  shows "r = version_cmp a b"
proof -
  obtain ea va ra eb vb rb where ab: "a = (ea, va, ra)" "b = (eb, vb, rb)"
    by (metis prod_cases3)
  from assms obtain ia ib where i: "epoch_int ea = Inr ia" "epoch_int eb = Inr ib"
    and r: "if ia \<noteq> ib then r = ia - ib
       else \<exists>q. vercmp_part va vb = Inr q \<and> (if q \<noteq> 0 then r = q else vercmp_part ra rb = Inr r)"
    unfolding ab vercmp_eq_Inr by blast
  show ?thesis
    using i r vercmp_part_parts vercmp_part_refl
    by (auto simp: ab version_cmp_def epoch_val_def split: if_splits)
qed

lemma version_cmp_trans:
  assumes "version_cmp a b \<le> 0" "version_cmp b c \<le> 0"
  shows "version_cmp a c \<le> 0"
proof -
  obtain ea va ra eb vb rb ec vc rc
    where abc: "a = (ea, va, ra)" "b = (eb, vb, rb)" "c = (ec, vc, rc)"
    by (metis prod_cases3)
  have neg: "parts_cmp x y < 0" if "parts_cmp x y \<le> 0" "x \<noteq> y" for x y
    using that parts_cmp_eq_0 [of x y] by linarith
  consider "epoch_val ea < epoch_val ec" | "epoch_val ea = epoch_val eb" "epoch_val eb = epoch_val ec"
    using assms by (force simp: abc version_cmp_def split: if_splits)
  then show ?thesis
  proof cases
    case 1
    then show ?thesis by (simp add: abc version_cmp_def)
  next
    case 2
    have "parts_cmp (parts va) (parts vb) < 0" if "parts va \<noteq> parts vb"
      using assms(1) 2 that neg by (auto simp: abc version_cmp_def)
    moreover have "parts_cmp (parts vb) (parts vc) < 0" if "parts vb \<noteq> parts vc"
      using assms(2) 2 that neg by (auto simp: abc version_cmp_def)
    ultimately consider "parts va = parts vb" "parts vb = parts vc"
      | "parts_cmp (parts va) (parts vc) < 0"
      using parts_cmp_neg_trans by metis
    then show ?thesis
      using assms 2 parts_cmp_trans parts_cmp_eq_0
      by cases (auto simp: abc version_cmp_def)
  qed
qed

lemma version_cmp_antisym: "version_cmp b a = - version_cmp a b"
proof -
  obtain ea va ra eb vb rb where ab: "a = (ea, va, ra)" "b = (eb, vb, rb)"
    by (metis prod_cases3)
  show ?thesis
    by (simp add: ab version_cmp_def eq_commute
      parts_cmp_antisym [of "parts vb" "parts va"] parts_cmp_antisym [of "parts rb" "parts ra"])
qed

interpretation vc: partial_comparison vercmp version_cmp
  by unfold_locales (fact vercmp_version_cmp, fact version_cmp_antisym, fact version_cmp_trans)

section \<open>Where the comparison is defined\<close>

text \<open>Without a newline every version can be exploded.\<close>

lemma re_tail_no_nl [simp]: "CHR 0x0A \<notin> set s \<Longrightarrow> re_tail s = Some s"
proof -
  assume "CHR 0x0A \<notin> set s"
  then have "takeWhile (\<lambda>c. c \<noteq> CHR 0x0A) s = s" by (induction s) auto
  then show ?thesis by (simp only: re_tail_def Let_def) simp
qed

lemma dropWhile_no_nl: "CHR 0x0A \<notin> set s \<Longrightarrow> CHR 0x0A \<notin> set (dropWhile p s)"
  using set_dropWhileD by fastforce

lemma explode_version_total: "CHR 0x0A \<notin> set s \<Longrightarrow> \<exists>r. explode_version s = Inr r"
proof (induction s rule: explode_version.induct)
  case 1
  then show ?case by simp
next
  case (2 c s)
  then have nl: "CHR 0x0A \<notin> set (dropWhile is_digit s)" "CHR 0x0A \<notin> set (dropWhile is_letter s)"
    by (simp_all add: dropWhile_no_nl)
  with 2 show ?case by (auto simp: rbind_eq_Inr)
qed

definition num_part :: "vpart \<Rightarrow> bool" where
  "num_part p = (case p of VNum _ \<Rightarrow> True | _ \<Rightarrow> False)"

lemma num_part_simps [simp]: "num_part (VNum n)" "\<not> num_part VTilde" "\<not> num_part (VAlpha s)"
    "\<not> num_part (VOther c)"
  by (simp_all add: num_part_def)

text \<open>A number is never followed by a number, and starts a digit.\<close>

lemma explode_version_nums:
  "CHR 0x0A \<notin> set s \<Longrightarrow> explode_version s = Inr r \<Longrightarrow>
    successively (\<lambda>p q. \<not> (num_part p \<and> num_part q)) r \<and>
    (r \<noteq> [] \<longrightarrow> num_part (hd r) \<longrightarrow> s \<noteq> [] \<and> is_digit (hd s))"
proof (induction s arbitrary: r rule: explode_version.induct)
  case 1
  then show ?case by simp
next
  case (2 c s)
  then have nl: "CHR 0x0A \<notin> set (dropWhile is_digit s)" "CHR 0x0A \<notin> set (dropWhile is_letter s)"
    by (simp_all add: dropWhile_no_nl)
  consider "is_digit c" | "\<not> is_digit c" "is_letter c" | "\<not> is_digit c" "\<not> is_letter c" by blast
  then show ?case
  proof cases
    case 1
    with 2(5) nl obtain q where q: "explode_version (dropWhile is_digit s) = Inr q"
      and r: "r = VNum (digits_val (c # takeWhile is_digit s)) # q"
      by (auto simp: rbind_eq_Inr)
    from "2.IH"(1) [OF 1 re_tail_no_nl [OF nl(1)] nl(1) q]
    have "successively (\<lambda>p q. \<not> (num_part p \<and> num_part q)) q" "q \<noteq> [] \<Longrightarrow> \<not> num_part (hd q)"
      using hd_dropWhile [of is_digit s] by auto
    with r 1 show ?thesis
      by (cases q) auto
  next
    case 2
    with "2.prems" nl obtain q where "explode_version (dropWhile is_letter s) = Inr q"
      and "r = VAlpha (c # takeWhile is_letter s) # q"
      by (auto simp: rbind_eq_Inr)
    with 2 "2.IH"(2) nl show ?thesis by (cases q) auto
  next
    case 3
    with "2.prems" obtain q where "explode_version s = Inr q"
      and "r = (if c = CHR ''~'' then VTilde else VOther c) # q"
      by (auto simp: rbind_eq_Inr)
    with 3 "2.IH"(3) "2.prems" show ?thesis by (cases q) (auto split: if_splits)
  qed
qed

text \<open>A version that ends in a digit has a number as its last part.\<close>

definition digit_ended :: "string \<Rightarrow> bool" where
  "digit_ended s = (s \<noteq> [] \<and> is_digit (last s) \<and> CHR 0x0A \<notin> set s)"

lemma last_dropWhile: "dropWhile p s \<noteq> [] \<Longrightarrow> last (dropWhile p s) = last s"
  by (metis last_appendR takeWhile_dropWhile_id)

lemma explode_version_last:
  "digit_ended s \<Longrightarrow> explode_version s = Inr r \<Longrightarrow> r \<noteq> [] \<and> num_part (last r)"
proof (induction s arbitrary: r rule: explode_version.induct)
  case 1
  then show ?case by (simp add: digit_ended_def)
next
  case (2 c s)
  then have nl: "CHR 0x0A \<notin> set (dropWhile is_digit s)" "CHR 0x0A \<notin> set (dropWhile is_letter s)"
    by (simp_all add: dropWhile_no_nl digit_ended_def)
  have tail: "digit_ended t" if "t \<noteq> []" "last t = last (c # s)" "CHR 0x0A \<notin> set t" for t
    using "2.prems"(1) that by (auto simp: digit_ended_def)
  have letters: "dropWhile is_letter s \<noteq> []" if "is_letter c"
  proof
    assume "dropWhile is_letter s = []"
    then have "\<forall>x \<in> set (c # s). is_letter x" using that by (auto simp: dropWhile_eq_Nil_conv)
    moreover have "last (c # s) \<in> set (c # s)" by (rule last_in_set) simp
    ultimately show False using "2.prems"(1) digit_not_letter by (auto simp: digit_ended_def)
  qed
  consider "is_digit c" | "\<not> is_digit c" "is_letter c" | "\<not> is_digit c" "\<not> is_letter c" by blast
  then show ?case
  proof cases
    case 1
    with "2.prems" nl obtain q where q: "explode_version (dropWhile is_digit s) = Inr q"
      and r: "r = VNum (digits_val (c # takeWhile is_digit s)) # q"
      by (auto simp: rbind_eq_Inr)
    show ?thesis
    proof (cases "dropWhile is_digit s")
      case Nil
      with q r show ?thesis by simp
    next
      case (Cons x xs)
      then have "s \<noteq> []" by auto
      with Cons nl have "digit_ended (dropWhile is_digit s)"
        using last_dropWhile [of is_digit s] by (intro tail) simp_all
      from "2.IH"(1) [OF 1 re_tail_no_nl [OF nl(1)] this q] r show ?thesis by simp
    qed
  next
    case 2
    with "2.prems" nl obtain q where "explode_version (dropWhile is_letter s) = Inr q"
      and "r = VAlpha (c # takeWhile is_letter s) # q"
      by (auto simp: rbind_eq_Inr)
    moreover have "digit_ended (dropWhile is_letter s)"
      using letters [OF 2(2)] nl by (intro tail) (auto simp: last_dropWhile)
    ultimately show ?thesis using 2 "2.IH"(2) nl by auto
  next
    case 3
    with "2.prems" obtain q where q: "explode_version s = Inr q"
      and r: "r = (if c = CHR ''~'' then VTilde else VOther c) # q"
      by (auto simp: rbind_eq_Inr)
    moreover have "s \<noteq> []" using 3 "2.prems"(1) by (auto simp: digit_ended_def)
    ultimately show ?thesis
      using 3 "2.IH"(3) "2.prems"(1) by (auto simp: digit_ended_def)
  qed
qed

lemma digit_ended_no_extension:
  assumes "digit_ended a" "CHR 0x0A \<notin> set b" "explode_version a = Inr va" "explode_version b = Inr vb"
  shows "vb \<noteq> va @ VNum n # q"
proof
  assume vb: "vb = va @ VNum n # q"
  from assms(1,3) have va: "va \<noteq> []" "num_part (last va)" by (auto dest: explode_version_last)
  have "successively (\<lambda>p q. \<not> (num_part p \<and> num_part q)) vb"
    using explode_version_nums assms(2,4) by blast
  with vb va show False by (auto simp: successively_append_iff)
qed

lemma vercmp_part_defined:
  assumes "digit_ended a" "digit_ended b"
  shows "\<exists>r. vercmp_part a b = Inr r"
proof -
  from assms have nl: "CHR 0x0A \<notin> set a" "CHR 0x0A \<notin> set b" by (simp_all add: digit_ended_def)
  then obtain va vb where e: "explode_version a = Inr va" "explode_version b = Inr vb"
    using explode_version_total by blast
  have "vercmp_loop va vb \<noteq> Inl err" for err
    using digit_ended_no_extension [OF assms(1) nl(2) e]
      digit_ended_no_extension [OF assms(2) nl(1) e(2,1)]
    by (auto simp: vercmp_loop_error)
  then obtain r where "vercmp_loop va vb = Inr r" by (cases "vercmp_loop va vb") auto
  with e show ?thesis by (simp add: vercmp_part_eq)
qed

section \<open>Tildes\<close>

text \<open>A tilde is a part of its own, wherever it stands.\<close>

lemma tilde_class [simp]: "\<not> is_digit CHR ''~''" "\<not> is_letter CHR ''~''"
  by (simp_all add: is_digit_def is_letter_def)

lemma explode_version_tilde:
  assumes "CHR 0x0A \<notin> set s" "CHR 0x0A \<notin> set t"
  shows "explode_version (s @ CHR ''~'' # t) =
    rbind (explode_version s) (\<lambda>r. rbind (explode_version t) (\<lambda>q. Inr (r @ VTilde # q)))"
  using assms(1)
proof (induction s rule: explode_version.induct)
  case 1
  then show ?case by simp
next
  case (2 c s)
  have split [simp]: "takeWhile p (s @ CHR ''~'' # t) = takeWhile p s"
    "dropWhile p (s @ CHR ''~'' # t) = dropWhile p s @ CHR ''~'' # t"
    if "\<not> p CHR ''~''" for p
    using that by (induction s) auto
  from 2(4) have nl: "CHR 0x0A \<notin> set (dropWhile is_digit s)" "CHR 0x0A \<notin> set (dropWhile is_letter s)"
    by (simp_all add: dropWhile_no_nl)
  have sum: "rbind (rbind m f) g = rbind m (\<lambda>x. rbind (f x) g)" for m :: "vpart list res" and f g
    by (cases m) auto
  show ?case
    using 2 nl assms(2) by (auto simp: sum)
qed

lemma vercmp_part_tilde:
  assumes "CHR 0x0A \<notin> set s" "CHR 0x0A \<notin> set t"
  shows "vercmp_part (s @ ''~'' @ t) s = Inr (-1)"
proof -
  obtain r q where e: "explode_version s = Inr r" "explode_version t = Inr q"
    using assms explode_version_total by blast
  then have "explode_version (s @ ''~'' @ t) = Inr (r @ VTilde # q)"
    using assms by (simp add: explode_version_tilde)
  moreover have "vercmp_loop (r @ VTilde # q) r = Inr (-1)"
    by (induction r) auto
  ultimately show ?thesis using e by (simp add: vercmp_part_eq)
qed

section \<open>Properties\<close>

text \<open>
  C36. The comparison of versions that returns is a total preorder: the result is the
  lexicographic comparison of the epochs as integers, then of the parts of the version, then of
  the parts of the revision, where a tilde sorts before the end of a version and the end before
  everything else; swapping the arguments negates it, and it is transitive.
\<close>

theorem vercmp_preorder:
  assumes "vercmp a b = Inr r" "vercmp b c = Inr q" "vercmp a c = Inr p"
  shows "r = version_cmp a b \<and> vercmp b a = Inr (- r) \<and> (r \<le> 0 \<longrightarrow> q \<le> 0 \<longrightarrow> p \<le> 0)"
proof (intro conjI impI)
  show "r = version_cmp a b" by (rule vc.cmp_ref [OF assms(1)])
  show "vercmp b a = Inr (- r)" by (rule vercmp_flip [OF assms(1)])
  assume "r \<le> 0" "q \<le> 0"
  then show "p \<le> 0" by (rule vc.trans [OF assms])
qed

lemma vercmp_preorder_witness:
  "vercmp (EInt 0, ''1.9'', ''r0'') (EInt 0, ''1.10'', ''r0'') = Inr (-1) \<and>
   vercmp (EInt 0, ''1.10'', ''r0'') (EInt 0, ''1.9'', ''r0'') = Inr 1"
proof -
  have "vercmp (EInt 0, ''1.9'', ''r0'') (EInt 0, ''1.10'', ''r0'') = Inr (-1)"
    "vercmp (EInt 0, ''1.10'', ''r0'') (EInt 1, ''2'', ''r0'') = Inr (-1)"
    "vercmp (EInt 0, ''1.9'', ''r0'') (EInt 1, ''2'', ''r0'') = Inr (-1)" by code_simp+
  from vercmp_preorder [OF this] this(1) show ?thesis by simp
qed

text \<open>
  C39. Where \<open>vercmp_part\<close> fails: on versions without a newline the only exception is a
  \<open>TypeError\<close>, and it is raised exactly when the parts of one version are those of the
  other followed by a number, which the code compares with \<open>None\<close>.
\<close>

theorem vercmp_part_error:
  assumes "CHR 0x0A \<notin> set a" "CHR 0x0A \<notin> set b"
  shows "vercmp_part a b = Inl e \<longleftrightarrow> e = TypeError \<and>
    ((\<exists>n q. parts b = parts a @ VNum n # q) \<or> (\<exists>n q. parts a = parts b @ VNum n # q))"
proof -
  obtain va vb where e: "explode_version a = Inr va" "explode_version b = Inr vb"
    using explode_version_total assms by blast
  then have "vercmp_part a b = vercmp_loop (parts a) (parts b)"
    by (simp add: vercmp_part_def parts_def)
  then show ?thesis by (simp only: vercmp_loop_error)
qed

lemma vercmp_part_error_witness:
  "vercmp_part ''1.'' ''1.0'' = Inl TypeError \<and> parts ''1.0'' = parts ''1.'' @ [VNum 0]"
proof -
  have p: "parts ''1.0'' = parts ''1.'' @ VNum 0 # []" by code_simp
  with vercmp_part_error [of "''1.''" "''1.0''" TypeError] show ?thesis by simp
qed

text \<open>
  \<open>vercmp_part\<close> returns on versions that end with a digit, the usual case, and a
  suffix that starts with a tilde makes a version smaller.
\<close>

theorem vercmp_part_returns:
  assumes "digit_ended a" "digit_ended b"
  shows "(\<exists>r. vercmp_part a b = Inr r) \<and> vercmp_part (a @ ''~'' @ b) a = Inr (-1)"
  using vercmp_part_defined [OF assms] vercmp_part_tilde [of a b] assms by (simp add: digit_ended_def)

lemma vercmp_part_returns_witness:
  "(\<exists>r. vercmp_part ''2.0'' ''1.0'' = Inr r) \<and> vercmp_part (''2.0'' @ ''~'' @ ''1.0'') ''2.0'' = Inr (-1)"
  by (rule vercmp_part_returns) code_simp+

end
