(* ===== verification/Dep_Strings.thy ===== *)
theory Dep_Strings
  imports Versions
begin

text \<open>
  Dependency strings, \<^verbatim>\<open>bitbake/lib/bb/utils.py\<close>: \<open>explode_deps\<close>,
  \<open>explode_dep_versions2\<close>, \<open>explode_dep_versions\<close> and \<open>join_deps\<close>.  The
  loops run over the words of the string with the flags and accumulators of the source as a
  record.  The main result is the round trip: printing a dictionary of dependencies and
  parsing it again gives the dictionary back.
\<close>

section \<open>The code\<close>

text \<open>The loop of \<open>explode_deps\<close> over the words, with the flag and the result.\<close>

fun explode_deps_loop :: "string list \<Rightarrow> bool \<Rightarrow> string list \<Rightarrow> string list" where
  "explode_deps_loop [] flag r = r"
| "explode_deps_loop (i # l) flag r =
     (let flag = (flag \<or> startswith i ''('');
          r = (if \<not> flag then r @ [i] else r);
          flag = (if flag \<and> endswith i '')'' then False else flag)
      in explode_deps_loop l flag r)"

definition explode_deps :: "string \<Rightarrow> string list" where
  "explode_deps s = explode_deps_loop (split_ws s) False []"

text \<open>
  The variables of the loop of \<open>explode_dep_versions2\<close>.  The key \<open>lastdep\<close> is
  \<open>None\<close> until the first name has been read.
\<close>

record depvars =
  dv_r :: "(string option \<times> string list) list"
  dv_lastdep :: "string option"
  dv_lastcmp :: string
  dv_lastver :: string
  dv_incmp :: bool
  dv_inversion :: bool

definition depvars_init :: depvars where
  "depvars_init = \<lparr>dv_r = [], dv_lastdep = None, dv_lastcmp = '''', dv_lastver = '''',
     dv_incmp = False, dv_inversion = False\<rparr>"

definition ops2 :: "string list" where
  "ops2 = [''<='', ''=<'', ''<<'', ''=='', ''!='', ''>='', ''=>'', ''>>'']"

definition ops1 :: "string list" where
  "ops1 = [''<'', ''>'', ''='']"

text \<open>The part of the loop body under \<open>if inversion\<close>.\<close>

definition dep_version_word :: "string \<Rightarrow> depvars \<Rightarrow> depvars" where
  "dep_version_word i v =
     (let close = endswith i '')'';
          i = (if close then butlast i else i);
          v = (if close then v\<lparr>dv_inversion := False,
                 dv_lastver := dv_lastver v @ (if dv_lastver v \<noteq> [] \<and> i \<noteq> [] then '' '' else [])\<rparr>
               else v)
      in if i \<noteq> [] then
           v\<lparr>dv_lastver := dv_lastver v @ i,
             dv_r := dappend (dv_lastdep v) (dv_lastcmp v @ '' '' @ dv_lastver v @ i) (dv_r v)\<rparr>
         else v)"

text \<open>The end of the loop body: a new dependency name.\<close>

definition dep_name_word :: "string \<Rightarrow> depvars \<Rightarrow> depvars" where
  "dep_name_word i v = v\<lparr>dv_lastdep := Some i, dv_lastver := '''', dv_lastcmp := '''',
     dv_r := (if dget_or (dv_r v) (Some i) [] \<noteq> [] then dv_r v else dset (Some i) [] (dv_r v))\<rparr>"

definition dep_word_rest :: "string \<Rightarrow> depvars \<Rightarrow> depvars" where
  "dep_word_rest i v = (if dv_inversion v then dep_version_word i v else dep_name_word i v)"

text \<open>The operator at the start of a constraint, and the rest of the word.\<close>

definition op_split :: "string \<Rightarrow> (string \<times> string) res" where
  "op_split i = (if list_ex (startswith i) ops2 then Inr (take 2 i, drop 2 i)
     else if list_ex (startswith i) ops1 then Inr (take 1 i, drop 1 i)
     else Inl (VersionStringException
       (''Invalid version specification in \"('' @ i @ '' - invalid or missing operator'')))"

text \<open>The part under \<open>if incmp\<close>; \<open>i.strip()\<close> is evaluated and dropped by the source.\<close>

definition dep_cmp_word :: "string \<Rightarrow> depvars \<Rightarrow> depvars res" where
  "dep_cmp_word i v0 =
     (let v = v0\<lparr>dv_incmp := False, dv_inversion := True\<rparr> in
      rbind (op_split i) (\<lambda>(c, i). let v = v\<lparr>dv_lastcmp := c\<rparr> in
           Inr (if i = [] then v else dep_word_rest i v)))"

definition dep_word :: "string \<Rightarrow> depvars \<Rightarrow> depvars res" where
  "dep_word i v =
     (if startswith i ''('' then
        (let v = v\<lparr>dv_incmp := True\<rparr>; i = strip (tl i)
         in if i = [] then Inr v else dep_cmp_word i v)
      else if dv_incmp v then dep_cmp_word i v
      else Inr (dep_word_rest i v))"

text \<open>\<open>sorted(r.items(), key=lambda x: x[0])\<close>: comparing \<open>None\<close> with a name raises.\<close>

definition sort_items :: "(string option \<times> 'v) list \<Rightarrow> (string option \<times> 'v) list res" where
  "sort_items d = (if None \<in> set (keys d) \<and> length d > 1 then Inl TypeError
     else Inr (sort_key (\<lambda>x. case fst x of None \<Rightarrow> [] | Some k \<Rightarrow> k) d))"

definition explode_dep_versions2 :: "string \<Rightarrow> (string option \<times> string list) list res" where
  "explode_dep_versions2 s =
     rbind (rfold dep_word (split_ws (replace '','' '''' s)) depvars_init) (\<lambda>v. sort_items (dv_r v))"

text \<open>The values of the dictionaries that \<open>join_deps\<close> accepts.\<close>

datatype depval = DNone | DStr string | DList "string list"

definition explode_dep_versions :: "string \<Rightarrow> (string option \<times> depval) list res" where
  "explode_dep_versions s = rbind (explode_dep_versions2 s) (\<lambda>r.
     Inr (map (\<lambda>(d, vs). (d, case vs of [] \<Rightarrow> DNone | v # _ \<Rightarrow> DStr v)) r))"

fun join_dep :: "string \<times> depval \<Rightarrow> string list" where
  "join_dep (dep, DNone) = [dep]"
| "join_dep (dep, DStr v) = (if v = [] then [dep] else [dep @ '' ('' @ v @ '')''])"
| "join_dep (dep, DList vs) = (if vs = [] then [dep]
     else map (\<lambda>v. dep @ '' ('' @ v @ '')'') vs)"

definition join_deps :: "(string \<times> depval) list \<Rightarrow> bool \<Rightarrow> string" where
  "join_deps deps commasep = (let result = concat (map join_dep deps)
     in if commasep then join '', '' result else join '' '' result)"

section \<open>The round trip\<close>

text \<open>Words of a dependency string: no white space, no comma, no bracket.\<close>

definition dep_word_ok :: "string \<Rightarrow> bool" where
  "dep_word_ok w = (w \<noteq> [] \<and>
     list_all (\<lambda>c. \<not> py_isspace c \<and> c \<noteq> CHR '','' \<and> c \<noteq> CHR ''('' \<and> c \<noteq> CHR '')'') w)"

text \<open>A constraint: an operator of the accepted list, a blank and a version word.\<close>

definition constraint_ok :: "string \<Rightarrow> bool" where
  "constraint_ok v = list_ex (\<lambda>c. startswith v (c @ '' '') \<and> dep_word_ok (drop (Suc (length c)) v))
     (ops2 @ ops1)"

definition deps_ok :: "(string \<times> string list) list \<Rightarrow> bool" where
  "deps_ok d = (sorted_wrt (<) (map fst d) \<and>
     list_all (\<lambda>(k, vs). dep_word_ok k \<and> list_all constraint_ok vs) d)"

lemma constraint_cases:
  assumes "constraint_ok v"
  obtains c w where "v = c @ '' '' @ w" "c \<in> set (ops2 @ ops1)" "dep_word_ok w"
proof -
  from assms obtain c where c: "c \<in> set (ops2 @ ops1)" "startswith v (c @ '' '')"
    and w: "dep_word_ok (drop (Suc (length c)) v)"
    unfolding constraint_ok_def list_ex_iff by blast
  from c(2) obtain t where "v = (c @ '' '') @ t" by (auto simp: startswith_iff)
  with c w that show ?thesis by simp
qed

lemma dep_word_ok_chars:
  "dep_word_ok w \<Longrightarrow> c \<in> set w \<Longrightarrow> \<not> py_isspace c \<and> c \<noteq> CHR '','' \<and> c \<noteq> CHR ''('' \<and> c \<noteq> CHR '')''"
  by (auto simp: dep_word_ok_def list_all_iff)

lemma op_chars: "c \<in> set (ops2 @ ops1) \<Longrightarrow> x \<in> set c \<Longrightarrow> x \<in> {CHR ''<'', CHR ''>'', CHR ''='', CHR ''!''}"
  by (auto simp: ops2_def ops1_def)

lemma op_char_facts:
  "x \<in> {CHR ''<'', CHR ''>'', CHR ''='', CHR ''!''} \<Longrightarrow>
    \<not> py_isspace x \<and> x \<noteq> CHR '','' \<and> x \<noteq> CHR ''('' \<and> x \<noteq> CHR '')''"
  by (auto simp: py_isspace_def)

lemma bracket_no_space [simp]: "\<not> py_isspace CHR ''(''" "\<not> py_isspace CHR '')''"
  by (simp_all add: py_isspace_def)

lemma op_word:
  assumes "c \<in> set (ops2 @ ops1)"
  shows "c \<noteq> []" "\<forall>x \<in> set c. \<not> py_isspace x \<and> x \<noteq> CHR '','' \<and> x \<noteq> CHR ''('' \<and> x \<noteq> CHR '')''"
proof -
  show "c \<noteq> []" using assms by (auto simp: ops2_def ops1_def)
  show "\<forall>x \<in> set c. \<not> py_isspace x \<and> x \<noteq> CHR '','' \<and> x \<noteq> CHR ''('' \<and> x \<noteq> CHR '')''"
    using op_chars [OF assms] op_char_facts by blast
qed

text \<open>What one name and its constraints are printed as, and the words of that.\<close>

definition entry_strings :: "string \<times> string list \<Rightarrow> string list" where
  "entry_strings e = join_dep (fst e, DList (snd e))"

lemma entry_strings_simps:
  "entry_strings (k, []) = [k]"
  "entry_strings (k, v # vs) = map (\<lambda>v. k @ '' ('' @ v @ '')'') (v # vs)"
  by (simp_all add: entry_strings_def)

lemma name_words: "dep_word_ok k \<Longrightarrow> split_ws k = [k]"
  by (rule split_ws_word) (auto simp: dep_word_ok_def list_all_iff)

lemma constraint_words:
  assumes "dep_word_ok k" "c \<in> set (ops2 @ ops1)" "dep_word_ok w"
  shows "split_ws (k @ '' ('' @ (c @ '' '' @ w) @ '')'') = [k, CHR ''('' # c, w @ '')'']"
proof -
  have "split_ws (CHR ''('' # c) = [CHR ''('' # c]"
    using op_word [OF assms(2)] by (intro split_ws_word) auto
  moreover have "split_ws (w @ '')'') = [w @ '')'']"
    using dep_word_ok_chars [OF assms(3)] by (intro split_ws_word) auto
  moreover have "k @ '' ('' @ (c @ '' '' @ w) @ '')'' =
      k @ CHR '' '' # ((CHR ''('' # c) @ CHR '' '' # (w @ '')''))"
    by simp
  ultimately show ?thesis
    using name_words [OF assms(1)] by (simp only: split_ws_blank) simp
qed

lemma no_comma_filter: "CHR '','' \<notin> set s \<Longrightarrow> filter (\<lambda>x. x \<noteq> CHR '','') s = s"
  by (induction s) auto

lemma constraint_no_comma:
  assumes "constraint_ok v"
  shows "CHR '','' \<notin> set v"
proof -
  obtain c w where v: "v = c @ '' '' @ w" "c \<in> set (ops2 @ ops1)" "dep_word_ok w"
    using assms by (rule constraint_cases)
  then show ?thesis
    using op_word(2) dep_word_ok_chars by (auto simp: v(1))
qed

lemma entry_strings_no_comma:
  "dep_word_ok k \<Longrightarrow> list_all constraint_ok vs \<Longrightarrow> e \<in> set (entry_strings (k, vs)) \<Longrightarrow>
    CHR '','' \<notin> set e"
  using dep_word_ok_chars [of k "CHR '','' "]
  by (cases vs) (auto simp: entry_strings_simps list_all_iff constraint_no_comma)

text \<open>The loop over one constraint, and over one name without constraints.\<close>

definition between :: "depvars \<Rightarrow> bool" where
  "between v \<longleftrightarrow> \<not> dv_incmp v \<and> \<not> dv_inversion v"

lemma name_not_bracket: "dep_word_ok k \<Longrightarrow> \<not> startswith k ''(''"
  by (cases k) (auto simp: startswith_def dep_word_ok_def)

lemma dep_word_name:
  "between v \<Longrightarrow> dep_word_ok k \<Longrightarrow> dep_word k v = Inr (dep_name_word k v)"
  by (simp add: dep_word_def dep_word_rest_def between_def name_not_bracket)

lemma op_parse: "c \<in> set (ops2 @ ops1) \<Longrightarrow> op_split c = Inr (c, [])"
  by (auto simp: op_split_def ops2_def ops1_def startswith_def)

lemma strip_op: "c \<in> set (ops2 @ ops1) \<Longrightarrow> strip c = c"
  using op_word(2) by (simp add: strip_def strip_no_space)

lemma dep_word_cmp:
  assumes "c \<in> set (ops2 @ ops1)"
  shows "dep_word (CHR ''('' # c) v =
    Inr (v\<lparr>dv_incmp := False, dv_inversion := True, dv_lastcmp := c\<rparr>)"
  using op_word(1) [OF assms]
  by (simp add: dep_word_def startswith_def strip_op [OF assms] op_parse [OF assms]
      dep_cmp_word_def Let_def)

lemma dep_word_version:
  assumes "\<not> dv_incmp v" "dv_inversion v" "dv_lastver v = []" "dep_word_ok w"
  shows "dep_word (w @ '')'') v = Inr (v\<lparr>dv_inversion := False, dv_lastver := w,
    dv_r := dappend (dv_lastdep v) (dv_lastcmp v @ '' '' @ w) (dv_r v)\<rparr>)"
proof -
  have "w \<noteq> []" "\<not> startswith (w @ '')'') ''(''"
    using assms(4) by (cases w; auto simp: startswith_def dep_word_ok_def)+
  with assms show ?thesis
    by (simp add: dep_word_def dep_word_rest_def dep_version_word_def butlast_append)
qed

text \<open>The effect of an entry on the result dictionary.\<close>

definition add_constraint :: "string \<Rightarrow> string \<Rightarrow> (string option \<times> string list) list \<Rightarrow>
    (string option \<times> string list) list" where
  "add_constraint k v r = dset (Some k) (dget_or r (Some k) [] @ [v]) r"

lemma dset_dset: "dset k v (dset k w d) = dset k v d"
  by (simp add: dset_def)

lemma dep_words_constraint:
  assumes "between s" "dep_word_ok k" "constraint_ok v"
  shows "\<exists>t. rfold dep_word (split_ws (k @ '' ('' @ v @ '')'')) s = Inr t \<and> between t \<and>
    dv_r t = add_constraint k v (dv_r s)"
proof -
  obtain c w where v: "v = c @ '' '' @ w" "c \<in> set (ops2 @ ops1)" "dep_word_ok w"
    using assms(3) by (rule constraint_cases)
  let ?s = "dep_name_word k s"
  let ?t = "?s\<lparr>dv_incmp := False, dv_inversion := True, dv_lastcmp := c\<rparr>"
  have 1: "dep_word k s = Inr ?s" using assms by (simp add: dep_word_name)
  have 2: "dep_word (CHR ''('' # c) ?s = Inr ?t" using v(2) by (rule dep_word_cmp)
  have 3: "dep_word (w @ '')'') ?t = Inr (?t\<lparr>dv_inversion := False, dv_lastver := w,
      dv_r := dappend (Some k) (c @ '' '' @ w) (dv_r ?s)\<rparr>)"
    using v(3) by (subst dep_word_version) (simp_all add: dep_name_word_def)
  have r: "dappend (Some k) v (dv_r ?s) = add_constraint k v (dv_r s)"
    by (simp add: dappend_def add_constraint_def dep_name_word_def dset_dset dget_or_def)
  show ?thesis
    unfolding v(1) constraint_words [OF assms(2) v(2,3)]
    using 1 2 3 r by (simp add: between_def v(1))
qed

lemma add_constraints_new:
  "Some k \<notin> set (keys r) \<Longrightarrow>
    fold (add_constraint k) (v # vs) r = r @ [(Some k, v # vs)]"
proof -
  assume k: "Some k \<notin> set (keys r)"
  have upd: "dset (Some k) y (r @ [(Some k, x)]) = r @ [(Some k, y)]" for x y
    using k by (induction r) (auto simp: dset_def keys_def)
  have lk: "dget_or (r @ [(Some k, x)]) (Some k) [] = x" for x
    using k by (auto simp: dget_or_def map_add_def map_of_keys split: option.splits)
  have "fold (add_constraint k) vs (r @ [(Some k, us)]) = r @ [(Some k, us @ vs)]" for us
    by (induction vs arbitrary: us) (simp_all add: add_constraint_def upd lk)
  moreover have "add_constraint k v r = r @ [(Some k, [v])]"
    using k by (auto simp: add_constraint_def dget_or_def dset_new map_of_keys split: option.splits)
  ultimately show ?thesis by simp
qed

lemma dep_words_constraints:
  assumes "between s" "dep_word_ok k" "list_all constraint_ok vs"
  shows "\<exists>t. rfold dep_word (concat (map split_ws (map (\<lambda>v. k @ '' ('' @ v @ '')'') vs))) s = Inr t \<and>
    between t \<and> dv_r t = fold (add_constraint k) vs (dv_r s)"
  using assms
proof (induction vs arbitrary: s)
  case Nil
  then show ?case by simp
next
  case (Cons v vs)
  from Cons.prems obtain t where t: "rfold dep_word (split_ws (k @ '' ('' @ v @ '')'')) s = Inr t"
    "between t" "dv_r t = add_constraint k v (dv_r s)"
    using dep_words_constraint by fastforce
  from Cons.IH [OF t(2)] Cons.prems
  obtain u where "rfold dep_word (concat (map split_ws (map (\<lambda>v. k @ '' ('' @ v @ '')'') vs))) t = Inr u"
    "between u" "dv_r u = fold (add_constraint k) vs (dv_r t)"
    by auto
  with t show ?case by (simp add: rfold_append)
qed

lemma dep_words_entry:
  assumes "between s" "dep_word_ok k" "list_all constraint_ok vs" "Some k \<notin> set (keys (dv_r s))"
  shows "\<exists>t. rfold dep_word (concat (map split_ws (entry_strings (k, vs)))) s = Inr t \<and>
    between t \<and> dv_r t = dv_r s @ [(Some k, vs)]"
proof (cases vs)
  case Nil
  have "dget_or (dv_r s) (Some k) [] = []"
    using assms(4) by (auto simp: dget_or_def map_of_keys split: option.splits)
  then show ?thesis
    using assms Nil
    by (simp add: entry_strings_simps name_words dep_word_name between_def dep_name_word_def dset_new)
next
  case (Cons v us)
  show ?thesis
    using dep_words_constraints [OF assms(1-3)] add_constraints_new [OF assms(4)]
    unfolding Cons entry_strings_simps by metis
qed

lemma dep_words_entries:
  assumes "list_all (\<lambda>(k, vs). dep_word_ok k \<and> list_all constraint_ok vs) d"
    and "distinct (map fst d)" and "between s" and "\<forall>k \<in> set (map fst d). Some k \<notin> set (keys (dv_r s))"
  shows "\<exists>t. rfold dep_word (concat (map split_ws (concat (map entry_strings d)))) s = Inr t \<and>
    dv_r t = dv_r s @ map (\<lambda>(k, vs). (Some k, vs)) d"
  using assms
proof (induction d arbitrary: s)
  case Nil
  then show ?case by simp
next
  case (Cons e d)
  obtain k vs where e: "e = (k, vs)" by (cases e)
  from Cons.prems e obtain t where t: "rfold dep_word (concat (map split_ws (entry_strings (k, vs)))) s = Inr t"
    "between t" "dv_r t = dv_r s @ [(Some k, vs)]"
    using dep_words_entry [of s k vs] by auto
  moreover have "\<exists>u. rfold dep_word (concat (map split_ws (concat (map entry_strings d)))) t = Inr u \<and>
      dv_r u = dv_r t @ map (\<lambda>(k, vs). (Some k, vs)) d"
    using Cons.prems e t(2,3) by (intro Cons.IH) (auto simp: keys_def)
  ultimately show ?case by (auto simp: e rfold_append)
qed

lemma map_join_dep: "map join_dep (map (\<lambda>(k, vs). (k, DList vs)) d) = map entry_strings d"
  by (auto simp: entry_strings_def simp del: join_dep.simps)

text \<open>The printed string, without its commas, has the words of the entries.\<close>

lemma join_deps_words:
  assumes "list_all (\<lambda>(k, vs). dep_word_ok k \<and> list_all constraint_ok vs) d"
  shows "split_ws (replace '','' '''' (join_deps (map (\<lambda>(k, vs). (k, DList vs)) d) commasep)) =
    concat (map split_ws (concat (map entry_strings d)))"
proof -
  let ?es = "concat (map entry_strings d)"
  have "join_deps (map (\<lambda>(k, vs). (k, DList vs)) d) commasep =
      join (if commasep then '', '' else '' '') ?es"
    by (simp only: join_deps_def map_join_dep Let_def if_distrib [of "\<lambda>x. join x _"] if_False)
  moreover have "map (filter (\<lambda>x. x \<noteq> CHR '','')) ?es = ?es"
    using assms
    by (intro map_idI) (force simp: list_all_iff intro!: no_comma_filter dest: entry_strings_no_comma)
  ultimately show ?thesis
    by (simp add: replace_char_Nil filter_join split_ws_join_concat)
qed

lemma sort_items_sorted:
  assumes "sorted_wrt (<) (map fst d)"
  shows "sort_items (map (\<lambda>(k, vs). (Some k, vs)) d) = Inr (map (\<lambda>(k, vs). (Some k, vs)) d)"
proof -
  have "map (\<lambda>x. case fst x of None \<Rightarrow> [] | Some k \<Rightarrow> k) (map (\<lambda>(k, vs). (Some k, vs)) d) = map fst d"
    by (induction d) auto
  moreover have "None \<notin> set (keys (map (\<lambda>(k, vs). (Some k, vs)) d))"
    by (auto simp: keys_def)
  ultimately show ?thesis
    using assms sort_key_id_if_sorted [of "\<lambda>x. case fst x of None \<Rightarrow> [] | Some k \<Rightarrow> k"
        "map (\<lambda>(k, vs). (Some k, vs)) d"]
    by (simp only: sort_items_def strict_sorted_iff) simp
qed

lemma explode_join_deps:
  assumes "deps_ok d"
  shows "explode_dep_versions2 (join_deps (map (\<lambda>(k, vs). (k, DList vs)) d) commasep) =
    Inr (map (\<lambda>(k, vs). (Some k, vs)) d)"
proof -
  from assms have d: "list_all (\<lambda>(k, vs). dep_word_ok k \<and> list_all constraint_ok vs) d"
    and s: "sorted_wrt (<) (map fst d)"
    by (simp_all add: deps_ok_def)
  from s have "distinct (map fst d)" by (simp add: strict_sorted_iff)
  from dep_words_entries [OF d this, of depvars_init]
  obtain t where "rfold dep_word (concat (map split_ws (concat (map entry_strings d)))) depvars_init = Inr t"
    "dv_r t = map (\<lambda>(k, vs). (Some k, vs)) d"
    by (auto simp: depvars_init_def between_def keys_def)
  then show ?thesis
    by (simp add: explode_dep_versions2_def join_deps_words [OF d] sort_items_sorted [OF s])
qed

text \<open>\<open>explode_deps\<close> keeps the names and drops every constraint in brackets.\<close>

lemma explode_deps_loop_acc:
  "explode_deps_loop l flag r = r @ explode_deps_loop l flag []"
proof (induction l arbitrary: flag r)
  case Nil
  then show ?case by simp
next
  case (Cons i l)
  show ?case
    using Cons.IH [of _ "r @ [i]"] Cons.IH [of _ r] Cons.IH [of _ "[i]"]
    by (auto simp: Let_def)
qed

lemma explode_deps_entry:
  assumes "dep_word_ok k" "list_all constraint_ok vs"
  shows "explode_deps_loop (concat (map split_ws (entry_strings (k, vs))) @ l) False [] =
    replicate (max 1 (length vs)) k @ explode_deps_loop l False []"
proof -
  have k: "explode_deps_loop (k # l) False [] = k # explode_deps_loop l False []" for l
    using assms(1) explode_deps_loop_acc [of l False "[k]"] by (simp add: name_not_bracket)
  have v: "explode_deps_loop (split_ws (k @ '' ('' @ v @ '')'') @ l) False [] =
      k # explode_deps_loop l False []" if ok: "constraint_ok v" for v l
  proof -
    obtain c w where v: "v = c @ '' '' @ w" "c \<in> set (ops2 @ ops1)" "dep_word_ok w"
      using ok by (rule constraint_cases)
    have "endswith (w @ '')'') '')''" by (rule endswith_append)
    moreover have "\<not> endswith (CHR ''('' # c) '')''"
      using op_word [OF v(2)] by (cases c rule: rev_cases) (auto simp: endswith_iff)
    moreover have "startswith (CHR ''('' # c) ''(''" by (simp add: startswith_def)
    ultimately show ?thesis
      unfolding v(1) constraint_words [OF assms(1) v(2,3)] unfolding append_Cons append_Nil k
      by simp
  qed
  show ?thesis
  proof (cases vs)
    case Nil
    then show ?thesis
      using k [of l] assms by (simp add: entry_strings_simps name_words del: explode_deps_loop.simps)
  next
    case (Cons u us)
    have "explode_deps_loop (concat (map split_ws (map (\<lambda>v. k @ '' ('' @ v @ '')'') vs)) @ l) False [] =
        replicate (length vs) k @ explode_deps_loop l False []"
      using assms(2) by (induction vs) (simp_all add: v [simplified])
    with Cons show ?thesis by (simp only: entry_strings_simps) simp
  qed
qed

lemma explode_deps_join:
  assumes "list_all (\<lambda>(k, vs). dep_word_ok k \<and> list_all constraint_ok vs) d"
  shows "explode_deps (join_deps (map (\<lambda>(k, vs). (k, DList vs)) d) False) =
    concat (map (\<lambda>(k, vs). replicate (max 1 (length vs)) k) d)"
proof -
  have "join_deps (map (\<lambda>(k, vs). (k, DList vs)) d) False = join '' '' (concat (map entry_strings d))"
    by (simp only: join_deps_def map_join_dep Let_def if_distrib [of "\<lambda>x. join x _"] if_False)
  then have "explode_deps (join_deps (map (\<lambda>(k, vs). (k, DList vs)) d) False) =
      explode_deps_loop (concat (map split_ws (concat (map entry_strings d)))) False []"
    by (simp add: explode_deps_def split_ws_join_concat)
  also have "\<dots> = concat (map (\<lambda>(k, vs). replicate (max 1 (length vs)) k) d)"
    using assms
  proof (induction d)
    case Nil
    then show ?case by simp
  next
    case (Cons e d)
    then show ?case
      by (cases e) (simp add: explode_deps_entry del: replicate.simps)
  qed
  finally show ?thesis .
qed

section \<open>Properties\<close>

text \<open>
  C33. Parsing what \<open>join_deps\<close> prints gives the dictionary back, with either separator: the
  names in sorted order, each with its constraints in order.
\<close>

theorem deps_roundtrip:
  assumes "deps_ok d"
  shows "explode_dep_versions2 (join_deps (map (\<lambda>(k, vs). (k, DList vs)) d) commasep) =
    Inr (map (\<lambda>(k, vs). (Some k, vs)) d)"
  by (rule explode_join_deps [OF assms])

lemma deps_roundtrip_witness:
  "explode_dep_versions2 (join_deps [(''bar'', DList []), (''foo'', DList [''>= 1.0'', ''<< 2''])] True) =
    Inr [(Some ''bar'', []), (Some ''foo'', [''>= 1.0'', ''<< 2''])]"
proof -
  have "deps_ok [(''bar'', []), (''foo'', [''>= 1.0'', ''<< 2''])]" by code_simp
  from deps_roundtrip [OF this, of True] show ?thesis by simp
qed

text \<open>
  \<open>explode_deps\<close> drops the constraints that \<open>join_deps\<close> prints: it returns the
  names, each once for every constraint it carries, and once when it has none.
\<close>

theorem explode_deps_drops_versions:
  assumes "list_all (\<lambda>(k, vs). dep_word_ok k \<and> list_all constraint_ok vs) d"
  shows "explode_deps (join_deps (map (\<lambda>(k, vs). (k, DList vs)) d) False) =
    concat (map (\<lambda>(k, vs). replicate (max 1 (length vs)) k) d)"
  by (rule explode_deps_join [OF assms])

lemma explode_deps_drops_versions_witness:
  "explode_deps (join_deps [(''bar'', DList []), (''foo'', DList [''>= 1.0'', ''<< 2''])] False) =
    [''bar'', ''foo'', ''foo'']"
proof -
  have "list_all (\<lambda>(k, vs). dep_word_ok k \<and> list_all constraint_ok vs)
    [(''bar'', []), (''foo'', [''>= 1.0'', ''<< 2''])]" by code_simp
  from explode_deps_drops_versions [OF this] show ?thesis by (simp add: numeral_2_eq_2)
qed

end
