(* ===== verification/Cache_Data.thy ===== *)
theory Cache_Data
  imports Py_Str
begin

text \<open>
  The recipe cache, \<^verbatim>\<open>bitbake/lib/bb/cache.py\<close>: the record of what a parsed recipe
  contributes (\<open>CoreRecipeInfo\<close>), the tables all recipes are collected in
  (\<open>CacheData\<close>, \<open>add_cacheData\<close>) and the names of virtual recipe files.  The
  lemmas show that the tables stay consistent: a file is listed as a provider exactly of what
  it provides, and the names of virtual files can be taken apart again.
\<close>

section \<open>The tables\<close>

text \<open>
  The task dependencies of a recipe: the list \<open>'tasks'\<close>, the dictionary
  \<open>'parents'\<close> and, by name, the dictionaries of the task flags (\<open>'depends'\<close>,
  \<open>'rdepends'\<close>, \<open>'deptask'\<close>, \<open>'rdeptask'\<close>, \<open>'recrdeptask'\<close>,
  \<open>'recideptask'\<close>, \<open>'nostamp'\<close>, \<open>'noexec'\<close>, \<open>'fakeroot'\<close>).
\<close>

record task_deps =
  tasks :: "string list"
  parents :: "(string \<times> string list) list"
  tflags :: "(string \<times> (string \<times> string) list) list"

text \<open>\<open>flag in task_deps and task in task_deps[flag]\<close>, with the value when it holds.\<close>

definition task_flag :: "task_deps \<Rightarrow> string \<Rightarrow> string \<Rightarrow> string option" where
  "task_flag td flag task = (case map_of (tflags td) flag of None \<Rightarrow> None | Some d \<Rightarrow> map_of d task)"

record recipe_info =
  ri_pn :: string
  ri_packages :: "string list"
  ri_basetaskhashes :: "(string \<times> string) list"
  ri_hashfilename :: string
  ri_task_deps :: task_deps
  ri_pe :: string
  ri_pv :: string
  ri_pr :: string
  ri_defaultpref :: int
  ri_not_world :: string
  ri_stamp :: string
  ri_stampclean :: string
  ri_stamp_extrainfo :: "(string \<times> string option) list"
  ri_file_checksums :: "(string \<times> string) list"
  ri_packages_dynamic :: "string list"
  ri_depends :: "string list"
  ri_provides :: "string list"
  ri_rdepends :: "string list"
  ri_rprovides :: "string list"
  ri_rrecommends :: "string list"
  ri_rprovides_pkg :: "(string \<times> string list) list"
  ri_rdepends_pkg :: "(string \<times> string list) list"
  ri_rrecommends_pkg :: "(string \<times> string list) list"
  ri_inherits :: string
  ri_fakerootenv :: string
  ri_fakerootdirs :: string
  ri_fakerootnoenv :: string
  ri_extradepsfunc :: string

text \<open>
  The tables of \<open>CacheData\<close>.  Dictionaries with a default are read with
  \<open>dget_or\<close>, the others with \<open>dget\<close>, which raises a \<open>KeyError\<close>.
\<close>

record cache_data =
  cd_task_deps :: "(string \<times> task_deps) list"
  pkg_fn :: "(string \<times> string) list"
  pkg_pn :: "(string \<times> string list) list"
  pkg_pepvpr :: "(string \<times> string \<times> string \<times> string) list"
  pkg_dp :: "(string \<times> int) list"
  cd_stamp :: "(string \<times> string) list"
  cd_stampclean :: "(string \<times> string) list"
  cd_stamp_extrainfo :: "(string \<times> (string \<times> string option) list) list"
  cd_file_checksums :: "(string \<times> (string \<times> string) list) list"
  fn_provides :: "(string \<times> string list) list"
  pn_provides :: "(string \<times> string list) list"
  all_depends :: "string list"
  cd_deps :: "(string \<times> string list) list"
  cd_packages :: "(string \<times> string list) list"
  cd_providers :: "(string \<times> string list) list"
  rproviders :: "(string \<times> string list) list"
  packages_dynamic :: "(string \<times> string list) list"
  rundeps :: "(string \<times> (string \<times> string list) list) list"
  runrecs :: "(string \<times> (string \<times> string list) list) list"
  possible_world :: "string list"
  universe_target :: "string list"
  hashfn :: "(string \<times> string) list"
  basetaskhash :: "(string \<times> string) list"
  cd_inherits :: "(string \<times> string) list"
  fakerootenv :: "(string \<times> string) list"
  fakerootnoenv :: "(string \<times> string) list"
  fakerootdirs :: "(string \<times> string) list"
  extradepsfunc :: "(string \<times> string) list"
  cd_preferred :: "(string \<times> string) list"
  ignored_dependencies :: "string list"
  world_target :: "string list"
  bbfile_priority :: "(string \<times> int) list"

text \<open>\<open>init_cacheData\<close> and the direct variables of \<open>CacheData.__init__\<close>.\<close>

definition init_cacheData :: cache_data where
  "init_cacheData = \<lparr>cd_task_deps = [], pkg_fn = [], pkg_pn = [], pkg_pepvpr = [], pkg_dp = [],
     cd_stamp = [], cd_stampclean = [], cd_stamp_extrainfo = [], cd_file_checksums = [],
     fn_provides = [], pn_provides = [], all_depends = [], cd_deps = [], cd_packages = [],
     cd_providers = [], rproviders = [], packages_dynamic = [], rundeps = [], runrecs = [],
     possible_world = [], universe_target = [], hashfn = [], basetaskhash = [], cd_inherits = [],
     fakerootenv = [], fakerootnoenv = [], fakerootdirs = [], extradepsfunc = [], cd_preferred = [],
     ignored_dependencies = [], world_target = [], bbfile_priority = []\<rparr>"

section \<open>Adding a recipe\<close>

text \<open>The loops of \<open>add_cacheData\<close>, in the order of the source.\<close>

definition recipe_provides :: "recipe_info \<Rightarrow> string list" where
  "recipe_provides ri = fold sadd (ri_provides ri) [ri_pn ri]"

definition add_provides :: "string \<Rightarrow> string \<Rightarrow> string list \<Rightarrow> cache_data \<Rightarrow> cache_data" where
  "add_provides pn fn provides cd = fold (\<lambda>provide cd. cd\<lparr>
     cd_providers := dappend provide fn (cd_providers cd),
     pn_provides := dappend_new pn provide (pn_provides cd)\<rparr>) provides cd"

definition add_depends :: "string \<Rightarrow> string list \<Rightarrow> cache_data \<Rightarrow> cache_data" where
  "add_depends fn deps cd = fold (\<lambda>dep cd. cd\<lparr>
     cd_deps := dappend_new fn dep (cd_deps cd),
     all_depends := sadd dep (all_depends cd)\<rparr>) deps cd"

text \<open>
  The loop over the packages extends \<open>rprovides\<close>, which is the list of the recipe
  information itself, so the extension is visible there afterwards.
\<close>

definition add_packages :: "string \<Rightarrow> recipe_info \<Rightarrow> cache_data \<Rightarrow> (recipe_info \<times> cache_data) res" where
  "add_packages fn ri cd = rfold (\<lambda>package (ri, cd).
     let cd = cd\<lparr>cd_packages := dappend package fn (cd_packages cd)\<rparr> in
     rbind (dget (ri_rprovides_pkg ri) package) (\<lambda>rp.
       Inr (ri\<lparr>ri_rprovides := ri_rprovides ri @ rp\<rparr>, cd))) (ri_packages ri) (ri, cd)"

definition add_rundeps :: "string \<Rightarrow> recipe_info \<Rightarrow> cache_data \<Rightarrow> cache_data res" where
  "add_rundeps fn ri cd = rfold (\<lambda>package cd.
     rbind (dget (ri_rdepends_pkg ri) package) (\<lambda>rd.
     rbind (dget (ri_rrecommends_pkg ri) package) (\<lambda>rr.
       Inr (cd\<lparr>
         rundeps := dset fn (dset package (ri_rdepends ri @ rd) (dget_or (rundeps cd) fn [])) (rundeps cd),
         runrecs := dset fn (dset package (ri_rrecommends ri @ rr) (dget_or (runrecs cd) fn [])) (runrecs cd)\<rparr>))))
     (ri_packages ri @ [ri_pn ri]) cd"

definition add_cacheData :: "recipe_info \<Rightarrow> cache_data \<Rightarrow> string \<Rightarrow> (recipe_info \<times> cache_data) res" where
  "add_cacheData ri cd fn =
     (let cd = cd\<lparr>cd_task_deps := dset fn (ri_task_deps ri) (cd_task_deps cd),
            pkg_fn := dset fn (ri_pn ri) (pkg_fn cd),
            pkg_pn := dappend (ri_pn ri) fn (pkg_pn cd),
            pkg_pepvpr := dset fn (ri_pe ri, ri_pv ri, ri_pr ri) (pkg_pepvpr cd),
            pkg_dp := dset fn (ri_defaultpref ri) (pkg_dp cd),
            cd_stamp := dset fn (ri_stamp ri) (cd_stamp cd),
            cd_stampclean := dset fn (ri_stampclean ri) (cd_stampclean cd),
            cd_stamp_extrainfo := dset fn (ri_stamp_extrainfo ri) (cd_stamp_extrainfo cd),
            cd_file_checksums := dset fn (ri_file_checksums ri) (cd_file_checksums cd)\<rparr>;
          provides = recipe_provides ri;
          cd = cd\<lparr>fn_provides := dset fn provides (fn_provides cd)\<rparr>;
          cd = add_provides (ri_pn ri) fn provides cd;
          cd = add_depends fn (ri_depends ri) cd
      in rbind (add_packages fn ri cd) (\<lambda>(ri, cd).
      let cd = cd\<lparr>rproviders := fold (\<lambda>rp d. dappend_new rp fn d) (ri_rprovides ri) (rproviders cd)\<rparr>;
          cd = cd\<lparr>packages_dynamic := fold (\<lambda>p d. dappend p fn d) (ri_packages_dynamic ri)
            (packages_dynamic cd)\<rparr>
      in rbind (add_rundeps fn ri cd) (\<lambda>cd.
      let cd = (if ri_not_world ri \<noteq> [] then cd else cd\<lparr>possible_world := possible_world cd @ [fn]\<rparr>)
      in Inr (ri, cd\<lparr>universe_target := universe_target cd @ [ri_pn ri],
            hashfn := dset fn (ri_hashfilename ri) (hashfn cd),
            basetaskhash := fold (\<lambda>(task, h) d. dset (fn @ ''.'' @ task) h d) (ri_basetaskhashes ri)
              (basetaskhash cd),
            cd_inherits := dset fn (ri_inherits ri) (cd_inherits cd),
            fakerootenv := dset fn (ri_fakerootenv ri) (fakerootenv cd),
            fakerootnoenv := dset fn (ri_fakerootnoenv ri) (fakerootnoenv cd),
            fakerootdirs := dset fn (ri_fakerootdirs ri) (fakerootdirs cd),
            extradepsfunc := dset fn (ri_extradepsfunc ri) (extradepsfunc cd)\<rparr>))))"

section \<open>Names of virtual files\<close>

definition multiconfig_prefix :: string where
  "multiconfig_prefix = ''multiconfig:''"

definition virtual_prefix :: string where
  "virtual_prefix = ''virtual:''"

text \<open>\<open>elems[1:-1]\<close> is \<open>butlast (tl elems)\<close> and \<open>elems[-1]\<close> is \<open>last elems\<close>.\<close>

definition virtualfn2realfn :: "string \<Rightarrow> string \<times> string \<times> string" where
  "virtualfn2realfn virtualfn =
     (let (mc, virtualfn) = (if startswith virtualfn multiconfig_prefix
            then (let elems = split_on CHR '':'' virtualfn in (elems ! 1, join '':'' (drop 2 elems)))
            else ('''', virtualfn))
      in if startswith virtualfn virtual_prefix
         then (let elems = split_on CHR '':'' virtualfn
               in (last elems, join '':'' (butlast (tl elems)), mc))
         else (virtualfn, '''', mc))"

definition realfn2virtual :: "string \<Rightarrow> string \<Rightarrow> string \<Rightarrow> string" where
  "realfn2virtual realfn cls mc =
     (let realfn = (if cls \<noteq> [] then ''virtual:'' @ cls @ '':'' @ realfn else realfn)
      in if mc \<noteq> [] then ''multiconfig:'' @ mc @ '':'' @ realfn else realfn)"

definition variant2virtual :: "string \<Rightarrow> string \<Rightarrow> string res" where
  "variant2virtual realfn variant =
     (if variant = [] then Inr realfn
      else if startswith variant multiconfig_prefix then
        (let elems = split_on CHR '':'' variant in
         rbind (item elems 2) (\<lambda>e2.
           if e2 \<noteq> [] then Inr (''multiconfig:'' @ elems ! 1 @ '':virtual:'' @
             join '':'' (drop 2 elems) @ '':'' @ realfn)
           else Inr (''multiconfig:'' @ elems ! 1 @ '':'' @ realfn)))
      else Inr (''virtual:'' @ variant @ '':'' @ realfn))"

text \<open>Taking a virtual name apart gives the parts it was built from.\<close>

lemma virtual_split:
  assumes "CHR '':'' \<notin> set fn"
  shows "split_on CHR '':'' (''virtual:'' @ cls @ '':'' @ fn) =
    ''virtual'' # split_on CHR '':'' cls @ [fn]"
proof -
  have 1: "split_on CHR '':'' (''virtual'' @ CHR '':'' # s) = ''virtual'' # split_on CHR '':'' s" for s
    by (rule split_on_append) simp
  have 2: "split_on CHR '':'' (s @ CHR '':'' # fn) = split_on CHR '':'' s @ [fn]" for s
    using assms by (induction s) (auto split: list.splits)
  show ?thesis using 1 [of "cls @ '':'' @ fn"] 2 by simp
qed

lemma multiconfig_split:
  assumes "CHR '':'' \<notin> set mc"
  shows "split_on CHR '':'' (''multiconfig:'' @ mc @ '':'' @ s) =
    ''multiconfig'' # mc # split_on CHR '':'' s"
proof -
  have "split_on CHR '':'' (''multiconfig'' @ CHR '':'' # t) = ''multiconfig'' # split_on CHR '':'' t" for t
    by (rule split_on_append) simp
  with split_on_append [OF assms, of s] show ?thesis by simp
qed

lemma virtualfn_virtual:
  assumes "CHR '':'' \<notin> set fn"
  shows "(let elems = split_on CHR '':'' (''virtual:'' @ cls @ '':'' @ fn)
    in (last elems, join '':'' (butlast (tl elems)), mc)) = (fn, cls, mc)"
  unfolding virtual_split [OF assms] Let_def by (simp add: butlast_append join_split_on)

lemma virtualfn2realfn_realfn2virtual:
  assumes "CHR '':'' \<notin> set fn" "CHR '':'' \<notin> set mc"
  shows "virtualfn2realfn (realfn2virtual fn cls mc) = (fn, cls, mc)"
proof -
  define v where "v = (if cls \<noteq> [] then ''virtual:'' @ cls @ '':'' @ fn else fn)"
  have v: "(if startswith v virtual_prefix
         then (let elems = split_on CHR '':'' v in (last elems, join '':'' (butlast (tl elems)), m))
         else (v, '''', m)) = (fn, cls, m)" for m
  proof (cases "cls = []")
    case True
    have "\<not> startswith fn virtual_prefix"
      using assms(1) by (auto simp: startswith_iff virtual_prefix_def)
    with True show ?thesis by (simp add: v_def)
  next
    case False
    have "startswith (''virtual:'' @ cls @ '':'' @ fn) virtual_prefix"
      unfolding virtual_prefix_def by (rule startswith_append)
    with False virtualfn_virtual [OF assms(1), of cls m] show ?thesis by (simp add: v_def)
  qed
  have nomc: "\<not> startswith v multiconfig_prefix"
    using assms(1) by (auto simp: v_def startswith_iff multiconfig_prefix_def)
  have mc: "startswith (''multiconfig:'' @ mc @ '':'' @ v) multiconfig_prefix"
    unfolding multiconfig_prefix_def by (rule startswith_append)
  show ?thesis
  proof (cases "mc = []")
    case True
    then have "realfn2virtual fn cls mc = v"
      by (simp add: v_def realfn2virtual_def)
    with True nomc v [of "[]"] show ?thesis
      by (simp add: virtualfn2realfn_def)
  next
    case False
    have "realfn2virtual fn cls mc = ''multiconfig:'' @ mc @ '':'' @ v"
      using False by (simp add: realfn2virtual_def v_def)
    moreover have "virtualfn2realfn (''multiconfig:'' @ mc @ '':'' @ v) = (fn, cls, mc)"
      unfolding virtualfn2realfn_def multiconfig_split [OF assms(2)] if_P [OF mc]
      using v [of mc] by (simp add: join_split_on)
    ultimately show ?thesis by simp
  qed
qed

section \<open>The tables stay consistent\<close>

text \<open>
  What every table that is built from fresh files satisfies: the index of providers and the
  list of what each file provides say the same, without duplicates; the files of a name and
  the name of a file say the same; a name provides what its files provide.
\<close>

definition cache_ok :: "cache_data \<Rightarrow> bool" where
  "cache_ok cd \<longleftrightarrow>
     (\<forall>fn p. fn \<in> set (dget_or (cd_providers cd) p []) \<longleftrightarrow> p \<in> set (dget_or (fn_provides cd) fn [])) \<and>
     (\<forall>p. distinct (dget_or (cd_providers cd) p [])) \<and>
     (\<forall>fn pn. fn \<in> set (dget_or (pkg_pn cd) pn []) \<longleftrightarrow> map_of (pkg_fn cd) fn = Some pn) \<and>
     (\<forall>pn. distinct (dget_or (pkg_pn cd) pn [])) \<and>
     set (keys (pkg_fn cd)) = set (keys (fn_provides cd))"

definition pn_provides_ok :: "cache_data \<Rightarrow> bool" where
  "pn_provides_ok cd \<longleftrightarrow> (\<forall>pn p. p \<in> set (dget_or (pn_provides cd) pn []) \<longleftrightarrow>
     (\<exists>fn. map_of (pkg_fn cd) fn = Some pn \<and> p \<in> set (dget_or (fn_provides cd) fn [])))"

lemma cache_ok_init: "cache_ok init_cacheData" "pn_provides_ok init_cacheData"
  by (simp_all add: cache_ok_def pn_provides_ok_def init_cacheData_def keys_def)

lemma add_provides_eq:
  "add_provides pn fn ps cd = cd\<lparr>
     cd_providers := fold (\<lambda>p. dappend p fn) ps (cd_providers cd),
     pn_provides := fold (dappend_new pn) ps (pn_provides cd)\<rparr>"
  unfolding add_provides_def by (induction ps arbitrary: cd) simp_all

lemma add_depends_eq:
  "add_depends fn ds cd = cd\<lparr>
     cd_deps := fold (dappend_new fn) ds (cd_deps cd), all_depends := fold sadd ds (all_depends cd)\<rparr>"
  unfolding add_depends_def by (induction ds arbitrary: cd) simp_all

lemma add_packages_frame:
  assumes "add_packages fn ri cd = Inr (ri', cd')"
  shows "\<exists>ps. cd' = cd\<lparr>cd_packages := ps\<rparr>" "\<exists>rp. ri' = ri\<lparr>ri_rprovides := rp\<rparr>"
proof -
  have "\<exists>ps rp. (ri', cd') = (ri\<lparr>ri_rprovides := rp\<rparr>, cd\<lparr>cd_packages := ps\<rparr>)"
    using assms unfolding add_packages_def
  proof (rule rfold_inv)
    have "(ri, cd) = (ri\<lparr>ri_rprovides := ri_rprovides ri\<rparr>, cd\<lparr>cd_packages := cd_packages cd\<rparr>)" by simp
    then show "\<exists>ps rp. (ri, cd) = (ri\<lparr>ri_rprovides := rp\<rparr>, cd\<lparr>cd_packages := ps\<rparr>)" by blast
  qed (auto simp: rbind_eq_Inr Let_def split: prod.splits)
  then show "\<exists>ps. cd' = cd\<lparr>cd_packages := ps\<rparr>" "\<exists>rp. ri' = ri\<lparr>ri_rprovides := rp\<rparr>" by auto
qed

lemma add_rundeps_frame:
  assumes "add_rundeps fn ri cd = Inr cd'"
  shows "\<exists>x y. cd' = cd\<lparr>rundeps := x, runrecs := y\<rparr>"
  using assms unfolding add_rundeps_def
proof (rule rfold_inv)
  have "cd = cd\<lparr>rundeps := rundeps cd, runrecs := runrecs cd\<rparr>" by simp
  then show "\<exists>x y. cd = cd\<lparr>rundeps := x, runrecs := y\<rparr>" by blast
qed (fastforce simp: rbind_eq_Inr)

lemma fold_dappend:
  "distinct ps \<Longrightarrow> dget_or (fold (\<lambda>p. dappend p fn) ps d) q [] =
    dget_or d q [] @ (if q \<in> set ps then [fn] else [])"
  by (induction ps arbitrary: d) auto

lemma fold_dappend_new:
  "set (dget_or (fold (dappend_new k) ps d) q []) =
    set (dget_or d q []) \<union> (if q = k then set ps else {})"
  by (induction ps arbitrary: d) auto

lemma recipe_provides: "distinct (recipe_provides ri)"
    "set (recipe_provides ri) = insert (ri_pn ri) (set (ri_provides ri))"
proof -
  have "distinct (fold sadd xs ys) = distinct ys \<and> set (fold sadd xs ys) = set ys \<union> set xs" for xs ys :: "string list"
    by (induction xs arbitrary: ys) auto
  then show "distinct (recipe_provides ri)"
    "set (recipe_provides ri) = insert (ri_pn ri) (set (ri_provides ri))"
    by (auto simp: recipe_provides_def)
qed

text \<open>The fields the consistency is about, after a recipe was added.\<close>

lemma add_cacheData_fields:
  assumes "add_cacheData ri cd fn = Inr (ri', cd')"
  shows "cd_providers cd' = fold (\<lambda>p. dappend p fn) (recipe_provides ri) (cd_providers cd)"
    and "pn_provides cd' = fold (dappend_new (ri_pn ri)) (recipe_provides ri) (pn_provides cd)"
    and "fn_provides cd' = dset fn (recipe_provides ri) (fn_provides cd)"
    and "pkg_fn cd' = dset fn (ri_pn ri) (pkg_fn cd)"
    and "pkg_pn cd' = dappend (ri_pn ri) fn (pkg_pn cd)"
  using assms
  by (auto simp: add_cacheData_def Let_def rbind_eq_Inr add_provides_eq add_depends_eq
      dest!: add_packages_frame(1) add_rundeps_frame)

lemma add_cacheData_ok:
  assumes "add_cacheData ri cd fn = Inr (ri', cd')" "cache_ok cd" "fn \<notin> set (keys (pkg_fn cd))"
  shows "cache_ok cd'"
proof -
  have new: "map_of (pkg_fn cd) fn = None" "map_of (fn_provides cd) fn = None"
    using assms(2,3) unfolding cache_ok_def by (metis not_None_eq map_of_keys)+
  have none: "fn \<notin> set (dget_or (cd_providers cd) p [])" for p
    using assms(2) new(2) by (simp add: cache_ok_def dget_or_def [of "fn_provides cd"])
  have none2: "fn \<notin> set (dget_or (pkg_pn cd) p [])" for p
    using assms(2) new(1) unfolding cache_ok_def by (metis option.distinct(1))
  note f = add_cacheData_fields [OF assms(1)]
  have "fn' \<in> set (dget_or (cd_providers cd') p []) \<longleftrightarrow> p \<in> set (dget_or (fn_provides cd') fn' [])" for fn' p
    using assms(2) none new by (auto simp: f fold_dappend recipe_provides(1) cache_ok_def)
  moreover have "distinct (dget_or (cd_providers cd') p [])" for p
    using assms(2) none by (auto simp: f fold_dappend recipe_provides(1) cache_ok_def)
  moreover have "fn' \<in> set (dget_or (pkg_pn cd') pn []) \<longleftrightarrow> map_of (pkg_fn cd') fn' = Some pn" for fn' pn
    using assms(2) none2 new by (auto simp: f cache_ok_def)
  moreover have "distinct (dget_or (pkg_pn cd') pn [])" for pn
    using assms(2) none2 by (auto simp: f cache_ok_def)
  moreover have "set (keys (pkg_fn cd')) = set (keys (fn_provides cd'))"
    using assms(2) by (auto simp: f cache_ok_def)
  ultimately show ?thesis by (auto simp: cache_ok_def)
qed

lemma add_cacheData_pn_provides:
  assumes "add_cacheData ri cd fn = Inr (ri', cd')" "cache_ok cd" "pn_provides_ok cd"
    and "fn \<notin> set (keys (pkg_fn cd))"
  shows "pn_provides_ok cd'"
proof -
  have new: "map_of (pkg_fn cd) fn = None"
    using assms(4) by (auto simp: set_keys)
  note f = add_cacheData_fields [OF assms(1)]
  show ?thesis
    unfolding pn_provides_ok_def
  proof (intro allI)
    fix pn p
    have split: "map_of (pkg_fn cd') fn' = Some pn \<and> p \<in> set (dget_or (fn_provides cd') fn' []) \<longleftrightarrow>
        fn' = fn \<and> pn = ri_pn ri \<and> p \<in> set (recipe_provides ri) \<or>
        map_of (pkg_fn cd) fn' = Some pn \<and> p \<in> set (dget_or (fn_provides cd) fn' [])" for fn'
      using new by (auto simp: f)
    have "p \<in> set (dget_or (pn_provides cd') pn []) \<longleftrightarrow>
        p \<in> set (dget_or (pn_provides cd) pn []) \<or> pn = ri_pn ri \<and> p \<in> set (recipe_provides ri)"
      by (auto simp: f fold_dappend_new)
    also have "\<dots> \<longleftrightarrow> (\<exists>fn'. map_of (pkg_fn cd) fn' = Some pn \<and> p \<in> set (dget_or (fn_provides cd) fn' []))
        \<or> pn = ri_pn ri \<and> p \<in> set (recipe_provides ri)"
      using assms(3) by (simp add: pn_provides_ok_def)
    also have "\<dots> \<longleftrightarrow> (\<exists>fn'. map_of (pkg_fn cd') fn' = Some pn \<and> p \<in> set (dget_or (fn_provides cd') fn' []))"
      by (simp only: split) blast
    finally show "p \<in> set (dget_or (pn_provides cd') pn []) \<longleftrightarrow>
        (\<exists>fn'. map_of (pkg_fn cd') fn' = Some pn \<and> p \<in> set (dget_or (fn_provides cd') fn' []))" .
  qed
qed

section \<open>Properties\<close>

text \<open>
  C37. Adding a recipe file that is not in the tables yet keeps them consistent: a file is among
  the providers of a name exactly if it provides it, without duplicates, and a recipe name
  provides exactly what its files provide.
\<close>

theorem add_cacheData_consistent:
  assumes "add_cacheData ri cd fn = Inr (ri', cd')" "cache_ok cd" "pn_provides_ok cd"
    "fn \<notin> set (keys (pkg_fn cd))"
  shows "cache_ok cd' \<and> pn_provides_ok cd'"
  using add_cacheData_ok [OF assms(1,2,4)] add_cacheData_pn_provides [OF assms] by blast

definition ri_example :: recipe_info where
  "ri_example = \<lparr>ri_pn = ''p'', ri_packages = [''p-dev''], ri_basetaskhashes = [], ri_hashfilename = [],
     ri_task_deps = \<lparr>tasks = [''do_build''], parents = [(''do_build'', [])], tflags = []\<rparr>,
     ri_pe = [], ri_pv = ''1'', ri_pr = ''r0'', ri_defaultpref = 0, ri_not_world = [], ri_stamp = [],
     ri_stampclean = [], ri_stamp_extrainfo = [], ri_file_checksums = [], ri_packages_dynamic = [],
     ri_depends = [''d''], ri_provides = [''v'', ''p''], ri_rdepends = [], ri_rprovides = [],
     ri_rrecommends = [], ri_rprovides_pkg = [(''p-dev'', [''x''])],
     ri_rdepends_pkg = [(''p-dev'', []), (''p'', [])], ri_rrecommends_pkg = [(''p-dev'', []), (''p'', [])],
     ri_inherits = [], ri_fakerootenv = [], ri_fakerootdirs = [], ri_fakerootnoenv = [],
     ri_extradepsfunc = []\<rparr>"

lemma add_cacheData_consistent_witness:
  "case add_cacheData ri_example init_cacheData ''p.bb'' of
     Inl _ \<Rightarrow> False | Inr (ri', cd') \<Rightarrow> cache_ok cd' \<and> pn_provides_ok cd' \<and>
       dget_or (cd_providers cd') ''v'' [] = [''p.bb'']"
proof -
  have "case add_cacheData ri_example init_cacheData ''p.bb'' of
     Inl _ \<Rightarrow> False | Inr (ri', cd') \<Rightarrow> dget_or (cd_providers cd') ''v'' [] = [''p.bb'']"
    by code_simp
  then obtain ri' cd' where r: "add_cacheData ri_example init_cacheData ''p.bb'' = Inr (ri', cd')"
    and p: "dget_or (cd_providers cd') ''v'' [] = [''p.bb'']"
    by (auto split: sum.splits)
  have "''p.bb'' \<notin> set (keys (pkg_fn init_cacheData))" by (simp add: init_cacheData_def keys_def)
  from add_cacheData_consistent [OF r cache_ok_init this] r p show ?thesis by simp
qed

text \<open>
  The name of a virtual recipe file can be taken apart into the file, the class extension
  and the multiconfig it was built from.
\<close>

theorem virtualfn_roundtrip:
  assumes "CHR '':'' \<notin> set fn" "CHR '':'' \<notin> set mc"
  shows "virtualfn2realfn (realfn2virtual fn cls mc) = (fn, cls, mc)"
  by (rule virtualfn2realfn_realfn2virtual [OF assms])

lemma virtualfn_roundtrip_witness:
  "virtualfn2realfn (realfn2virtual ''/a.bb'' ''native:x'' ''mc1'') = (''/a.bb'', ''native:x'', ''mc1'')"
  by (rule virtualfn_roundtrip) simp_all

end
