(* ===== verification/Providers.thy ===== *)
theory Providers
  imports Versions Cache_Data "HOL-Library.Multiset"
begin

text \<open>
  The choice of providers, \<^verbatim>\<open>bitbake/lib/bb/providers.py\<close>: ordering the recipe
  files of a name by layer priority and preference, picking the preferred or the latest
  version, and filtering the providers of a build or runtime target.

  Two things are parameters.  \<open>getVar\<close> reads the expanded configuration; \<open>re_match\<close>
  is \<open>re.compile(pattern).match(s)\<close>, with an exception for a malformed pattern.
\<close>

section \<open>Priorities\<close>

text \<open>The dictionary \<open>priorities\<close>: priority, then preference, then the files.\<close>

definition prio_add :: "cache_data \<Rightarrow> string \<Rightarrow> (int \<times> (int \<times> string list) list) list \<Rightarrow>
    (int \<times> (int \<times> string list) list) list res" where
  "prio_add dc f t = rbind (dget (bbfile_priority dc) f) (\<lambda>priority.
     rbind (dget (pkg_dp dc) f) (\<lambda>preference.
       Inr (dset priority (dappend preference f (dget_or t priority [])) t)))"

definition prio_group :: "(int \<times> string list) list \<Rightarrow> string list" where
  "prio_group prefs = concat (map (\<lambda>pref. dget_or prefs pref []) (sort (keys prefs)))"

definition sortPriorities :: "string \<Rightarrow> cache_data \<Rightarrow> (string \<times> string list) list \<Rightarrow>
    string list list res" where
  "sortPriorities pn dc pkg =
     (let pkg = (if pkg = [] then pkg_pn dc else pkg) in
      rbind (dget pkg pn) (\<lambda>files.
      rbind (rfold (prio_add dc) files []) (\<lambda>priorities.
        Inr (fold (\<lambda>pri tmp_pn. prio_group (dget_or priorities pri []) # tmp_pn)
          (sort (keys priorities)) []))))"

section \<open>Preferred versions\<close>

definition preferredVersionMatch :: "string \<Rightarrow> string \<Rightarrow> string \<Rightarrow> string option \<Rightarrow> string option \<Rightarrow>
    string option \<Rightarrow> bool" where
  "preferredVersionMatch pe pv pr preferred_e preferred_v preferred_r =
     (if Some pr = preferred_r \<or> preferred_r = None then
        if Some pe = preferred_e \<or> preferred_e = None then
          if preferred_v = Some pv then True
          else (case preferred_v of None \<Rightarrow> False
             | Some v \<Rightarrow> endswith v ''%'' \<and> startswith pv (butlast v))
        else False
      else False)"

text \<open>
  The groups of \<open>re.match('(\d+:)*(.*)(_.*)*', v)\<close>, which always matches: the last
  repetition of digits and a colon, the rest of the line, and what the third group can
  still take after the rest of the line.
\<close>

function re_epochs :: "string option \<Rightarrow> string \<Rightarrow> string option \<times> string" where
  "re_epochs g s =
     (if takeWhile is_digit s \<noteq> [] \<and> startswith (dropWhile is_digit s) '':''
      then re_epochs (Some (takeWhile is_digit s @ '':'')) (tl (dropWhile is_digit s))
      else (g, s))"
  by pat_completeness auto
termination
proof (relation "measure (\<lambda>(g, s). length s)")
  fix s :: string
  assume "takeWhile is_digit s \<noteq> [] \<and> startswith (dropWhile is_digit s) '':''"
  then have "dropWhile is_digit s \<noteq> []" unfolding startswith_def by (metis list.distinct(1) take_Nil)
  then have "length (tl (dropWhile is_digit s)) < length (dropWhile is_digit s)" by simp
  then show "((Some (takeWhile is_digit s @ '':''), tl (dropWhile is_digit s)), g, s)
      \<in> measure (\<lambda>(g, s). length s)" for g
    using length_dropWhile_le [of is_digit s] by simp
qed auto

declare re_epochs.simps [simp del]

definition re_line :: "string \<Rightarrow> string" where
  "re_line s = takeWhile (\<lambda>c. c \<noteq> CHR 0x0A) s"

definition re_revision :: "string \<Rightarrow> string option" where
  "re_revision s = (case s of [] \<Rightarrow> None
     | c # t \<Rightarrow> if c = CHR ''_'' then Some (c # re_line t) else None)"

definition preferred_groups :: "string \<Rightarrow> string option \<times> string \<times> string option" where
  "preferred_groups v = (let (g1, s) = re_epochs None v; g2 = re_line s
     in (g1, g2, re_revision (drop (length g2) s)))"

text \<open>\<open>if not v\<close> for an optional string.\<close>

definition falsy :: "string option \<Rightarrow> bool" where
  "falsy v = (v = None \<or> v = Some [])"

fun first_matching :: "cache_data \<Rightarrow> (string \<Rightarrow> string \<Rightarrow> string \<Rightarrow> bool) \<Rightarrow> string list \<Rightarrow>
    ((string \<times> string \<times> string) \<times> string) option res" where
  "first_matching dc m [] = Inr None"
| "first_matching dc m (f # fs) = rbind (dget (pkg_pepvpr dc) f) (\<lambda>(pe, pv, pr).
     if m pe pv pr then Inr (Some ((pe, pv, pr), f)) else first_matching dc m fs)"

text \<open>The result is the preferred version with its file, or nothing.\<close>

definition findPreferredProvider :: "string \<Rightarrow> (string \<Rightarrow> string option) \<Rightarrow> cache_data \<Rightarrow>
    string list list \<Rightarrow> ((string \<times> string \<times> string) \<times> string) option res" where
  "findPreferredProvider pn getVar dc file_sets =
     (let preferred_v = getVar (''PREFERRED_VERSION_pn-'' @ pn);
          preferred_v = (if falsy preferred_v then getVar (''PREFERRED_VERSION_'' @ pn) else preferred_v);
          preferred_v = (if falsy preferred_v then getVar ''PREFERRED_VERSION'' else preferred_v)
      in if falsy preferred_v then Inr None
         else (let (g1, g2, g3) = preferred_groups (the preferred_v);
                   preferred_e = map_option butlast g1;
                   preferred_r = map_option tl g3
               in first_matching dc (\<lambda>pe pv pr.
                    preferredVersionMatch pe pv pr preferred_e (Some g2) preferred_r)
                    (concat file_sets)))"

section \<open>Latest versions\<close>

text \<open>One iteration of the loop of \<open>findLatestProvider\<close>, over the comparison used.\<close>

definition latest_step :: "('v \<Rightarrow> 'v \<Rightarrow> int res) \<Rightarrow> 'f \<times> 'v \<times> int \<Rightarrow> ('v \<times> 'f \<times> int) option \<Rightarrow>
    ('v \<times> 'f \<times> int) option res" where
  "latest_step cmp x acc = (case x of (file_name, ver, dp) \<Rightarrow> (case acc of
       None \<Rightarrow> Inr (Some (ver, file_name, dp))
     | Some (latest, latest_f, latest_p) \<Rightarrow>
         rbind (if latest_p = dp then cmp latest ver else Inr 0) (\<lambda>c.
           if c < 0 \<or> dp > latest_p then Inr (Some (ver, file_name, dp)) else Inr acc)))"

definition file_version :: "cache_data \<Rightarrow> string \<Rightarrow> (string \<times> version \<times> int) res" where
  "file_version dc f = rbind (dget (pkg_pepvpr dc) f) (\<lambda>(pe, pv, pr).
     rbind (dget (pkg_dp dc) f) (\<lambda>dp. Inr (f, (EStr pe, pv, pr), dp)))"

definition findLatestProvider :: "cache_data \<Rightarrow> string list \<Rightarrow> (version \<times> string) option res" where
  "findLatestProvider dc file_set =
     rbind (rfold (\<lambda>f acc. rbind (file_version dc f) (\<lambda>x. latest_step vercmp x acc)) file_set None)
       (\<lambda>r. Inr (map_option (\<lambda>(latest, latest_f, latest_p). (latest, latest_f)) r))"

text \<open>The result: latest version and file, preferred version and file.\<close>

definition findBestProvider :: "string \<Rightarrow> (string \<Rightarrow> string option) \<Rightarrow> cache_data \<Rightarrow>
    (string \<times> string list) list \<Rightarrow> ((version \<times> string) option \<times> (version \<times> string) option) res" where
  "findBestProvider pn getVar dc pkg =
     rbind (sortPriorities pn dc pkg) (\<lambda>sortpkg_pn.
     rbind (findPreferredProvider pn getVar dc sortpkg_pn) (\<lambda>pref.
     rbind (item sortpkg_pn 0) (\<lambda>top.
     rbind (findLatestProvider dc top) (\<lambda>latest.
       Inr (latest, case pref of None \<Rightarrow> latest
         | Some ((pe, pv, pr), f) \<Rightarrow> Some ((EStr pe, pv, pr), f))))))"

definition findProviders :: "(string \<Rightarrow> string option) \<Rightarrow> cache_data \<Rightarrow> (string \<times> string list) list \<Rightarrow>
    ((string \<times> (version \<times> string) option) list \<times> (string \<times> (version \<times> string) option) list) res" where
  "findProviders getVar dc pkg =
     (let pkg = (if pkg = [] then pkg_pn dc else pkg) in
      rfold (\<lambda>pn (latest, preferred). rbind (findBestProvider pn getVar dc pkg) (\<lambda>(l, p).
        Inr (dset pn l latest, dset pn p preferred))) (keys pkg) ([], []))"

definition allProviders :: "cache_data \<Rightarrow> (string \<times> ((string \<times> string \<times> string) \<times> string) list) list res" where
  "allProviders dc = rfold (\<lambda>(fn, pn) all. rbind (dget (pkg_pepvpr dc) fn) (\<lambda>ver.
     Inr (dappend pn (ver, fn) all))) (pkg_fn dc) []"

section \<open>Filtering\<close>

text \<open>The files by name, in the order of the sorted providers.\<close>

definition collate :: "cache_data \<Rightarrow> string list \<Rightarrow> (string \<times> string list) list res" where
  "collate dc providers = rfold (\<lambda>p d. rbind (dget (pkg_fn dc) p) (\<lambda>pn. Inr (dappend pn p d))) providers []"

text \<open>\<open>eligible.remove(f)\<close> and \<open>eligible = [f] + eligible\<close>.\<close>

definition to_front :: "'a \<Rightarrow> 'a list \<Rightarrow> 'a list" where
  "to_front x xs = x # remove1 x xs"

text \<open>
  The two loops that choose one file for each name: first the names with a preferred version,
  then the others.  A group of \<open>sortPriorities\<close> is never empty, so a latest file exists.
\<close>

definition choose_preferred :: "(string \<Rightarrow> string option) \<Rightarrow> cache_data \<Rightarrow> (string \<times> string list) list \<Rightarrow>
    ((string \<times> string list list) list \<times> (string \<times> string option) list \<times> string list) res" where
  "choose_preferred getVar dc pkg = rfold (\<lambda>pn (sortpkg, chosen, eligible).
     rbind (sortPriorities pn dc pkg) (\<lambda>sets.
     rbind (findPreferredProvider pn getVar dc sets) (\<lambda>pref.
       let file = map_option snd pref in
       Inr (dset pn sets sortpkg, dset pn file chosen,
         case file of None \<Rightarrow> eligible | Some f \<Rightarrow> eligible @ [f])))) (keys pkg) ([], [], [])"

definition choose_latest :: "cache_data \<Rightarrow> (string \<times> string list list) list \<Rightarrow> (string \<times> string option) list \<Rightarrow>
    string list \<Rightarrow> ((string \<times> string option) list \<times> string list) res" where
  "choose_latest dc sortpkg chosen eligible = rfold (\<lambda>(pn, sets) (chosen, eligible).
     if dget_or chosen pn None \<noteq> None then Inr (chosen, eligible)
     else rbind (item sets 0) (\<lambda>top. rbind (findLatestProvider dc top) (\<lambda>latest.
       case latest of None \<Rightarrow> Inl (KeyError [])
       | Some (v, f) \<Rightarrow> Inr (dset pn (Some f) chosen, eligible @ [f])))) sortpkg (chosen, eligible)"

definition prefer_own_name :: "cache_data \<Rightarrow> string \<Rightarrow> (string \<times> string option) list \<Rightarrow> string list \<Rightarrow>
    string list \<Rightarrow> string list res" where
  "prefer_own_name dc target chosen providers eligible = rfold (\<lambda>p eligible.
     rbind (dget (pkg_fn dc) p) (\<lambda>pn.
       if pn \<noteq> target then Inr eligible
       else (case dget_or chosen pn None of None \<Rightarrow> Inr eligible
         | Some f \<Rightarrow> Inr (if f \<notin> set eligible then eligible else to_front f eligible)))) providers eligible"

text \<open>
  \<open>_filterProviders\<close>; it returns the number 0 instead of a list when nothing is
  eligible, which is \<open>None\<close> here.  Its in-place sort of the list of providers is
  written out by the callers.
\<close>

definition filterProviders_aux :: "string list \<Rightarrow> string \<Rightarrow> (string \<Rightarrow> string option) \<Rightarrow> cache_data \<Rightarrow>
    string list option res" where
  "filterProviders_aux providers0 target getVar dc =
     (let providers = sort providers0 in
      rbind (collate dc providers) (\<lambda>pkg.
      rbind (choose_preferred getVar dc pkg) (\<lambda>(sortpkg, chosen, eligible).
      rbind (choose_latest dc sortpkg chosen eligible) (\<lambda>(chosen, eligible).
        if eligible = [] then Inr None
        else rbind (prefer_own_name dc target chosen providers eligible) (\<lambda>eligible.
          Inr (Some eligible))))))"

text \<open>The first eligible file of a given name is moved to the front.\<close>

fun find_named :: "cache_data \<Rightarrow> string \<Rightarrow> string list \<Rightarrow> string option res" where
  "find_named dc name [] = Inr None"
| "find_named dc name (p # ps) = rbind (dget (pkg_fn dc) p) (\<lambda>pn.
     if name = pn then Inr (Some p) else find_named dc name ps)"

definition select_named :: "cache_data \<Rightarrow> string \<Rightarrow> string list \<Rightarrow> (string list \<times> bool) res" where
  "select_named dc name eligible = rbind (find_named dc name eligible) (\<lambda>r.
     Inr (case r of None \<Rightarrow> (eligible, False) | Some p \<Rightarrow> (to_front p eligible, True)))"

text \<open>
  \<open>filterProviders\<close>: the list, whether a \<open>PREFERRED_PROVIDER\<close> decided, and the
  tables with the preference recorded.  Iterating over the number 0 raises.
\<close>

definition record_preferred :: "(string \<Rightarrow> string option) \<Rightarrow> string \<Rightarrow> cache_data \<Rightarrow> cache_data" where
  "record_preferred getVar target dc =
     (let prefervar = getVar (''PREFERRED_PROVIDER_'' @ target)
      in if falsy prefervar then dc
         else dc\<lparr>cd_preferred := dset target (the prefervar) (cd_preferred dc)\<rparr>)"

definition filterProviders :: "string list \<Rightarrow> string \<Rightarrow> (string \<Rightarrow> string option) \<Rightarrow> cache_data \<Rightarrow>
    (string list option \<times> bool \<times> cache_data) res" where
  "filterProviders providers target getVar dc =
     rbind (filterProviders_aux providers target getVar dc) (\<lambda>eligible.
     let dc = record_preferred getVar target dc
     in case map_of (cd_preferred dc) target of
          None \<Rightarrow> Inr (eligible, False, dc)
        | Some name \<Rightarrow> (case eligible of None \<Rightarrow> Inl TypeError
            | Some es \<Rightarrow> rbind (select_named dc name es) (\<lambda>(es, found). Inr (Some es, found, dc))))"

text \<open>
  The loop of \<open>filterProvidersRunTime\<close> that infers a preference from
  \<open>PREFERRED_PROVIDER\<close> entries.  It iterates by index over the list \<open>it\<close>; the
  first \<open>eligible.remove\<close> happens on that very list, later ones on the new lists that
  \<open>eligible = [pref] + eligible\<close> creates.
\<close>

fun first_preference :: "(string \<Rightarrow> string option) \<Rightarrow> (string \<times> string) list \<Rightarrow> string list \<Rightarrow> string list \<Rightarrow>
    string option" where
  "first_preference getVar pns preferred [] = None"
| "first_preference getVar pns preferred (provide # ps) =
     (case getVar (''PREFERRED_PROVIDER_'' @ provide) of
        None \<Rightarrow> first_preference getVar pns preferred ps
      | Some v \<Rightarrow> (case map_of pns v of
            None \<Rightarrow> first_preference getVar pns preferred ps
          | Some f \<Rightarrow> if f \<notin> set preferred then Some f else first_preference getVar pns preferred ps))"

function infer_loop :: "(string \<Rightarrow> string option) \<Rightarrow> cache_data \<Rightarrow> (string \<times> string) list \<Rightarrow> nat \<Rightarrow>
    string list \<Rightarrow> string list \<Rightarrow> string list \<Rightarrow> (string list \<times> string list) res" where
  "infer_loop getVar dc pns i it eligible preferred =
     (if i < length it then
        rbind (dget (pkg_fn dc) (it ! i)) (\<lambda>pn.
          case first_preference getVar pns preferred (dget_or (pn_provides dc) pn []) of
            None \<Rightarrow> infer_loop getVar dc pns (Suc i) it eligible preferred
          | Some pref \<Rightarrow> infer_loop getVar dc pns (Suc i)
              (if preferred = [] then remove1 pref it else it) (to_front pref eligible) (preferred @ [pref]))
      else Inr (eligible, preferred))"
  by pat_completeness auto
termination
  by (relation "measure (\<lambda>(_, _, _, i, it, _, _). length it - i)")
    (auto simp: length_remove1)

declare infer_loop.simps [simp del]

definition filterProvidersRunTime :: "string list \<Rightarrow> string \<Rightarrow> (string \<Rightarrow> string option) \<Rightarrow> cache_data \<Rightarrow>
    (string list option \<times> nat) res" where
  "filterProvidersRunTime providers target getVar dc =
     rbind (filterProviders_aux providers target getVar dc) (\<lambda>eligible.
     let prefervar = getVar (''PREFERRED_RPROVIDER_'' @ target) in
     case eligible of
       None \<Rightarrow> Inl TypeError
     | Some es \<Rightarrow>
         rbind (if falsy prefervar then Inr (es, False) else select_named dc (the prefervar) es)
           (\<lambda>(es, found).
             if found then Inr (Some es, 1)
             else rbind (rfold (\<lambda>p d. rbind (dget (pkg_fn dc) p) (\<lambda>pn. Inr (dset pn p d))) es []) (\<lambda>pns.
               rbind (infer_loop getVar dc pns 0 es es []) (\<lambda>(es, preferred).
                 Inr (Some es, length preferred)))))"

section \<open>Runtime providers and the world target\<close>

text \<open>
  The search through the dynamic packages.  The entry is read under the escaped pattern;
  when there is none, the default dictionary inserts one while it is being iterated over,
  and the next step of the iteration raises.
\<close>

definition dynamic_step :: "(string \<Rightarrow> string \<Rightarrow> bool res) \<Rightarrow> cache_data \<Rightarrow> string \<Rightarrow> string \<Rightarrow>
    string list \<Rightarrow> string list res" where
  "dynamic_step re_match dc rdepend pattern0 rprov =
     (let pattern = replace ''+'' (CHR 0x5C # ''+'') pattern0 in
      rbind (re_match pattern rdepend) (\<lambda>b.
        if b then (case map_of (packages_dynamic dc) pattern of
            None \<Rightarrow> Inl RuntimeError
          | Some fns \<Rightarrow> Inr (rprov @ fns))
        else Inr rprov))"

definition getRuntimeProviders :: "(string \<Rightarrow> string \<Rightarrow> bool res) \<Rightarrow> cache_data \<Rightarrow> string \<Rightarrow> string list res" where
  "getRuntimeProviders re_match dc rdepend =
     (let rprov = dget_or (rproviders dc) rdepend [] @ dget_or (cd_packages dc) rdepend []
      in if rprov \<noteq> [] then Inr rprov
         else rfold (dynamic_step re_match dc rdepend) (keys (packages_dynamic dc)) [])"

text \<open>Whether a name is built by \<open>bitbake world\<close>: the loops over what it provides.\<close>

fun other_provider :: "cache_data \<Rightarrow> string \<Rightarrow> string list \<Rightarrow> bool res" where
  "other_provider dc pn [] = Inr False"
| "other_provider dc pn (pf # pfs) = rbind (dget (pkg_fn dc) pf) (\<lambda>n.
     if n \<noteq> pn then Inr True else other_provider dc pn pfs)"

fun world_terminal :: "cache_data \<Rightarrow> string \<Rightarrow> string list \<Rightarrow> bool \<Rightarrow> bool res" where
  "world_terminal dc pn [] terminal = Inr terminal"
| "world_terminal dc pn (p # ps) terminal =
     (if startswith p ''virtual/'' then Inr False
      else rbind (other_provider dc pn (dget_or (cd_providers dc) p [])) (\<lambda>b.
        world_terminal dc pn ps (if b then False else terminal)))"

definition world_file :: "string \<Rightarrow> string \<Rightarrow> cache_data \<Rightarrow> cache_data res" where
  "world_file task f dc =
     rbind (dget (pkg_fn dc) f) (\<lambda>pn.
     rbind (if task \<noteq> [] then rbind (dget (cd_task_deps dc) f) (\<lambda>td. Inr (task \<in> set (tasks td)))
            else Inr True) (\<lambda>terminal.
     rbind (world_terminal dc pn (dget_or (pn_provides dc) pn []) terminal) (\<lambda>terminal.
       Inr (if terminal then dc\<lparr>world_target := sadd pn (world_target dc)\<rparr> else dc))))"

definition buildWorldTargetList :: "string \<Rightarrow> cache_data \<Rightarrow> cache_data res" where
  "buildWorldTargetList task dc = (if world_target dc \<noteq> [] then Inr dc
     else rfold (world_file task) (possible_world dc) dc)"

section \<open>Sorting by priority\<close>

text \<open>Distributing a list over the values of a function and collecting it again.\<close>

lemma mset_concat_classes:
  "distinct ks \<Longrightarrow> mset (concat (map (\<lambda>k. filter (\<lambda>f. g f = k) fs) ks)) =
    filter_mset (\<lambda>f. g f \<in> set ks) (mset fs)"
proof (induction ks)
  case Nil
  then show ?case by simp
next
  case (Cons k ks)
  have "count (filter_mset (\<lambda>f. g f = k) (mset fs) + filter_mset (\<lambda>f. g f \<in> set ks) (mset fs)) f =
      count (filter_mset (\<lambda>f. g f \<in> set (k # ks)) (mset fs)) f" for f
    using Cons.prems by auto
  with Cons show ?case by (metis (no_types, lifting) concat.simps(2) distinct.simps(2) list.simps(9)
        mset_append mset_filter multiset_eqI)
qed

definition prio :: "cache_data \<Rightarrow> string \<Rightarrow> int" where
  "prio dc f = (case map_of (bbfile_priority dc) f of None \<Rightarrow> 0 | Some p \<Rightarrow> p)"

definition pref :: "cache_data \<Rightarrow> string \<Rightarrow> int" where
  "pref dc f = (case map_of (pkg_dp dc) f of None \<Rightarrow> 0 | Some p \<Rightarrow> p)"

text \<open>What the nested dictionary holds after the files \<open>fs\<close>.\<close>

definition prio_table :: "cache_data \<Rightarrow> string list \<Rightarrow> (int \<times> (int \<times> string list) list) list \<Rightarrow> bool" where
  "prio_table dc fs t \<longleftrightarrow> distinct (keys t) \<and> set (keys t) = prio dc ` set fs \<and>
     (\<forall>p. distinct (keys (dget_or t p [])) \<and>
        set (keys (dget_or t p [])) = pref dc ` {f \<in> set fs. prio dc f = p} \<and>
        (\<forall>q. dget_or (dget_or t p []) q [] = filter (\<lambda>f. prio dc f = p \<and> pref dc f = q) fs))"

lemma prio_add_table:
  assumes "prio_table dc fs t" "prio_add dc f t = Inr t'"
  shows "prio_table dc (fs @ [f]) t'"
proof -
  from assms(2) obtain p q where "map_of (bbfile_priority dc) f = Some p" "map_of (pkg_dp dc) f = Some q"
    and t': "t' = dset p (dappend q f (dget_or t p [])) t"
    by (auto simp: prio_add_def rbind_eq_Inr)
  then have pq: "prio dc f = p" "pref dc f = q" by (simp_all add: prio_def pref_def)
  have dk: "distinct (keys (dappend q f d)) = distinct (keys d)"
    "set (keys (dappend q f d)) = insert q (set (keys d))" for d :: "(int \<times> string list) list"
    by (auto simp: dappend_def keys_dset)
  have t: "distinct (keys t)" "set (keys t) = prio dc ` set fs"
    and d: "distinct (keys (dget_or t r []))"
    and k: "set (keys (dget_or t r [])) = pref dc ` {f \<in> set fs. prio dc f = r}"
    and v: "dget_or (dget_or t r []) u [] = filter (\<lambda>f. prio dc f = r \<and> pref dc f = u) fs" for r u
    using assms(1) by (simp_all add: prio_table_def)
  have "distinct (keys t')" "set (keys t') = prio dc ` set (fs @ [f])"
    using t by (auto simp: t' pq)
  moreover have "distinct (keys (dget_or t' r []))" for r
    using d by (simp add: t' dk)
  moreover have "set (keys (dget_or t' r [])) = pref dc ` {g \<in> set (fs @ [f]). prio dc g = r}" for r
    using k [of r] pq by (cases "r = p") (auto simp: t' dk)
  moreover have "dget_or (dget_or t' r []) u [] = filter (\<lambda>f. prio dc f = r \<and> pref dc f = u) (fs @ [f])" for r u
    using v pq by (simp add: t')
  ultimately show ?thesis by (simp add: prio_table_def)
qed

lemma prio_add_all:
  assumes "rfold (prio_add dc) fs t = Inr t'" "prio_table dc gs t"
  shows "prio_table dc (gs @ fs) t'"
  using assms
proof (induction fs arbitrary: gs t)
  case Nil
  then show ?case by simp
next
  case (Cons f fs)
  from Cons.prems(1) obtain u where u: "prio_add dc f t = Inr u" "rfold (prio_add dc) fs u = Inr t'"
    by (auto simp: rbind_eq_Inr)
  with Cons.IH [OF u(2) prio_add_table [OF Cons.prems(2) u(1)]] show ?case by simp
qed

lemma prio_group_mset:
  assumes "prio_table dc fs t"
  shows "mset (prio_group (dget_or t p [])) = mset (filter (\<lambda>f. prio dc f = p) fs)"
proof -
  let ?fs = "filter (\<lambda>f. prio dc f = p) fs"
  have ks: "distinct (keys (dget_or t p []))" "set (keys (dget_or t p [])) = pref dc ` set ?fs"
    and v: "\<And>q. dget_or (dget_or t p []) q [] = filter (\<lambda>f. pref dc f = q) ?fs"
    using assms by (auto simp: prio_table_def conj_commute)
  have "mset (prio_group (dget_or t p [])) =
      filter_mset (\<lambda>f. pref dc f \<in> set (sort (keys (dget_or t p [])))) (mset ?fs)"
    unfolding prio_group_def v by (rule mset_concat_classes) (simp add: ks)
  also have "\<dots> = mset ?fs"
    by (rule filter_mset_cong [of _ _ _ "\<lambda>_. True", THEN trans]) (auto simp: ks)
  finally show ?thesis .
qed

lemma prio_group_sorted:
  assumes "prio_table dc fs t"
  shows "sorted (map (pref dc) (prio_group (dget_or t p [])))"
proof -
  have v: "\<And>q. dget_or (dget_or t p []) q [] = filter (\<lambda>f. prio dc f = p \<and> pref dc f = q) fs"
    using assms by (auto simp: prio_table_def)
  have "sorted ks \<Longrightarrow> sorted (map (pref dc) (concat (map (\<lambda>q. filter (\<lambda>f. prio dc f = p \<and> pref dc f = q) fs) ks)))"
    for ks
  proof (induction ks)
    case Nil
    then show ?case by simp
  next
    case (Cons k ks)
    have "map (pref dc) (filter (\<lambda>f. prio dc f = p \<and> pref dc f = k) fs) =
        replicate (length (filter (\<lambda>f. prio dc f = p \<and> pref dc f = k) fs)) k"
      by (rule replicate_eqI) auto
    with Cons show ?case by (auto simp: sorted_append)
  qed
  then show ?thesis unfolding prio_group_def v by simp
qed

lemma fold_Cons_rev: "fold (\<lambda>x acc. g x # acc) xs ys = rev (map g xs) @ ys"
  by (induction xs arbitrary: ys) auto

text \<open>
  The result of \<open>sortPriorities\<close>: the files of the name, grouped by falling priority,
  and inside a group by rising preference.
\<close>

definition prio_sorted :: "cache_data \<Rightarrow> string list \<Rightarrow> string list list \<Rightarrow> bool" where
  "prio_sorted dc files sets \<longleftrightarrow>
     mset (concat sets) = mset files \<and> [] \<notin> set sets \<and>
     sorted_wrt (\<lambda>s t. \<forall>a \<in> set s. \<forall>b \<in> set t. prio dc a > prio dc b) sets \<and>
     (\<forall>s \<in> set sets. (\<forall>a \<in> set s. \<forall>b \<in> set s. prio dc a = prio dc b) \<and> sorted (map (pref dc) s))"

lemma sort_table:
  assumes "prio_table dc files t"
  shows "prio_sorted dc files (rev (map (\<lambda>p. prio_group (dget_or t p [])) (sort (keys t))))"
proof -
  let ?g = "\<lambda>p. prio_group (dget_or t p [])"
  have ks: "distinct (keys t)" "set (keys t) = prio dc ` set files"
    using assms by (auto simp: prio_table_def)
  have set_g: "set (?g p) = {f \<in> set files. prio dc f = p}" for p
    using arg_cong [OF prio_group_mset [OF assms], of set_mset] by auto
  have "mset (concat (rev (map ?g xs))) = mset (concat (map ?g xs))" for xs
    by (induction xs) auto
  moreover have "mset (concat (map ?g xs)) = mset (concat (map (\<lambda>p. filter (\<lambda>f. prio dc f = p) files) xs))" for xs
    by (induction xs) (auto simp: prio_group_mset [OF assms])
  ultimately have "mset (concat (rev (map ?g (sort (keys t))))) =
      filter_mset (\<lambda>f. prio dc f \<in> set (sort (keys t))) (mset files)"
    using mset_concat_classes [of "sort (keys t)" "prio dc" files] ks(1) by simp
  also have "\<dots> = mset files"
    by (rule filter_mset_cong [of _ _ _ "\<lambda>_. True", THEN trans]) (auto simp: ks)
  finally have 1: "mset (concat (rev (map ?g (sort (keys t))))) = mset files" .
  have 2: "[] \<notin> set (rev (map ?g (sort (keys t))))"
  proof
    assume "[] \<in> set (rev (map ?g (sort (keys t))))"
    then obtain p where p: "p \<in> prio dc ` set files" "?g p = []" using ks(2) by (auto dest: sym)
    with set_g [of p] show False by auto
  qed
  have "sorted_wrt (<) (sort (keys t))" using ks(1) by (simp add: strict_sorted_iff)
  then have 3: "sorted_wrt (\<lambda>s t. \<forall>a \<in> set s. \<forall>b \<in> set t. prio dc a > prio dc b)
      (rev (map ?g (sort (keys t))))"
    unfolding sorted_wrt_rev sorted_wrt_map
    by (rule sorted_wrt_mono_rel [rotated]) (auto simp: set_g)
  show ?thesis
    unfolding prio_sorted_def using 1 2 3 prio_group_sorted [OF assms] set_g by auto
qed

lemma sortPriorities_sorted:
  assumes "sortPriorities pn dc pkg = Inr sets"
  shows "\<exists>files. map_of (if pkg = [] then pkg_pn dc else pkg) pn = Some files \<and> prio_sorted dc files sets"
proof -
  from assms obtain files t where f: "map_of (if pkg = [] then pkg_pn dc else pkg) pn = Some files"
    and t: "rfold (prio_add dc) files [] = Inr t"
    and s: "sets = fold (\<lambda>pri tmp_pn. prio_group (dget_or t pri []) # tmp_pn) (sort (keys t)) []"
    by (auto simp: sortPriorities_def rbind_eq_Inr Let_def)
  have "prio_table dc [] []" by (auto simp: prio_table_def keys_def)
  with t have "prio_table dc ([] @ files) t" by (rule prio_add_all)
  then have "prio_sorted dc files sets" unfolding s fold_Cons_rev using sort_table by auto
  with f show ?thesis by blast
qed

section \<open>The latest version\<close>

text \<open>
  Over any comparison with the laws of \<open>partial_comparison\<close>, the loop of
  \<open>findLatestProvider\<close> keeps an element of the list that no element beats: none has a
  higher preference, and none of the same preference has a later version.
\<close>

context partial_comparison
begin

definition unbeaten :: "('f \<times> 'a \<times> int) set \<Rightarrow> 'a \<times> 'f \<times> int \<Rightarrow> bool" where
  "unbeaten X l \<longleftrightarrow> (case l of (v, f, p) \<Rightarrow> (f, v, p) \<in> X \<and>
     (\<forall>(g, w, q) \<in> X. q \<le> p \<and> (q = p \<longrightarrow> ref w v \<le> 0)))"

lemma latest_step_unbeaten:
  assumes "unbeaten X l" "latest_step cmp x (Some l) = Inr l'"
  shows "\<exists>m. l' = Some m \<and> unbeaten (insert x X) m"
proof -
  obtain v f p g w q where l: "l = (v, f, p)" and x: "x = (g, w, q)" by (metis prod_cases3)
  from assms(2) obtain c where c: "(if p = q then cmp v w else Inr 0) = Inr c"
    and l': "l' = (if c < 0 \<or> q > p then Some (w, g, q) else Some l)"
    by (auto simp: latest_step_def l x rbind_eq_Inr split: if_splits)
  have c': "p = q \<Longrightarrow> c = ref v w" using c cmp_ref by simp
  show ?thesis
  proof (cases "c < 0 \<or> q > p")
    case True
    have "q' \<le> q \<and> (q' = q \<longrightarrow> ref w' w \<le> 0)" if "(g', w', q') \<in> X" for g' w' q'
    proof -
      from that assms(1) have "q' \<le> p" "q' = p \<Longrightarrow> ref w' v \<le> 0"
        by (auto simp: unbeaten_def l)
      then show ?thesis
        using True c c' ref_trans [of w' v w] by (cases "p = q") auto
    qed
    then have "unbeaten (insert x X) (w, g, q)"
      by (auto simp: unbeaten_def x ref_refl)
    with l' True show ?thesis by auto
  next
    case False
    have "q = p \<Longrightarrow> ref w v \<le> 0"
      using False c' ref_antisym [of w v] by simp
    with False assms(1) have "unbeaten (insert x X) l"
      by (auto simp: unbeaten_def l x)
    with l' False show ?thesis by auto
  qed
qed

lemma latest_unbeaten:
  assumes "rfold (latest_step cmp) xs None = Inr r" "xs \<noteq> []"
  shows "\<exists>l. r = Some l \<and> unbeaten (set xs) l"
proof -
  have step: "rfold (latest_step cmp) ys (Some l) = Inr r \<Longrightarrow> unbeaten X l \<Longrightarrow>
      \<exists>m. r = Some m \<and> unbeaten (X \<union> set ys) m" for ys X l
  proof (induction ys arbitrary: X l)
    case Nil
    then show ?case by (cases l) auto
  next
    case (Cons y ys)
    from Cons.prems(1) obtain n where n: "latest_step cmp y (Some l) = Inr n"
      "rfold (latest_step cmp) ys n = Inr r"
      by (auto simp: rbind_eq_Inr simp del: split_paired_Ex)
    from latest_step_unbeaten [OF Cons.prems(2) n(1)] obtain m
      where "n = Some m" "unbeaten (insert y X) m" by blast
    with n(2) Cons.IH [of m "insert y X"] show ?case by (simp del: split_paired_Ex)
  qed
  obtain f v p ys where xs: "xs = (f, v, p) # ys" using assms(2) by (metis neq_Nil_conv prod_cases3)
  have "unbeaten {(f, v, p)} (v, f, p)" by (auto simp: unbeaten_def ref_refl)
  with step [of ys "(v, f, p)" "{(f, v, p)}"] assms(1) show ?thesis
    by (simp add: xs latest_step_def)
qed

end

lemma rfold_rmap:
  "rfold (\<lambda>f acc. rbind (g f) (\<lambda>x. h x acc)) fs a = Inr b \<Longrightarrow>
    \<exists>xs. rmap g fs = Inr xs \<and> rfold h xs a = Inr b"
proof (induction fs arbitrary: a)
  case Nil
  then show ?case by simp
next
  case (Cons f fs)
  then obtain x c where "g f = Inr x" "h x a = Inr c"
    "rfold (\<lambda>f acc. rbind (g f) (\<lambda>x. h x acc)) fs c = Inr b"
    by (auto simp: rbind_eq_Inr)
  with Cons.IH [of c] show ?case by (auto simp: rbind_eq_Inr)
qed

lemma rmap_set: "rmap g fs = Inr xs \<Longrightarrow> set xs = {x. \<exists>f\<in>set fs. g f = Inr x}"
  by (induction fs arbitrary: xs) (auto simp: rbind_eq_Inr)

lemma rmap_Nil_iff: "rmap g fs = Inr xs \<Longrightarrow> xs = [] \<longleftrightarrow> fs = []"
  by (cases fs) (auto simp: rbind_eq_Inr)

text \<open>The provider chosen is one of the given files, and no other one beats it.\<close>

lemma findLatestProvider_unbeaten:
  assumes "findLatestProvider dc fs = Inr r" "fs \<noteq> []"
  obtains v f p where "r = Some (v, f)" "f \<in> set fs" "file_version dc f = Inr (f, v, p)"
    "\<And>g w q. g \<in> set fs \<Longrightarrow> file_version dc g = Inr (g, w, q) \<Longrightarrow>
      q \<le> p \<and> (q = p \<longrightarrow> version_cmp w v \<le> 0)"
proof -
  from assms(1) obtain l where
    "rfold (\<lambda>f acc. rbind (file_version dc f) (\<lambda>x. latest_step vercmp x acc)) fs None = Inr l"
    and r: "r = map_option (\<lambda>(latest, latest_f, latest_p). (latest, latest_f)) l"
    by (auto simp: findLatestProvider_def rbind_eq_Inr)
  from rfold_rmap [OF this(1)] obtain xs where xs: "rmap (file_version dc) fs = Inr xs"
    "rfold (latest_step vercmp) xs None = Inr l" by blast
  with assms(2) vc.latest_unbeaten [of xs l] rmap_Nil_iff
  obtain v f p where l: "l = Some (v, f, p)" "vc.unbeaten (set xs) (v, f, p)"
    by (metis prod_cases3)
  have fst_ver: "file_version dc g = Inr (h, w, q) \<Longrightarrow> h = g" for g h w q
    by (auto simp: file_version_def rbind_eq_Inr)
  from l(2) obtain f' where f': "f' \<in> set fs" "file_version dc f' = Inr (f, v, p)"
    by (auto simp: vc.unbeaten_def rmap_set [OF xs(1)])
  with fst_ver have "f' = f" by blast
  with f' l r rmap_set [OF xs(1)] show thesis
    by (intro that [of v f p]) (force simp: vc.unbeaten_def)+
qed

section \<open>Filtering keeps one file for each name\<close>

text \<open>A list with one of the providers for each of the names, and nothing else.\<close>

definition one_per_name :: "cache_data \<Rightarrow> string list \<Rightarrow> string set \<Rightarrow> string list \<Rightarrow> bool" where
  "one_per_name dc providers names es \<longleftrightarrow> set es \<subseteq> set providers \<and>
     (\<exists>pns. map (map_of (pkg_fn dc)) es = map Some pns \<and> distinct pns \<and> set pns = names)"

definition names_of :: "cache_data \<Rightarrow> string list \<Rightarrow> string set" where
  "names_of dc fs = {pn. \<exists>f \<in> set fs. map_of (pkg_fn dc) f = Some pn}"

lemma one_per_name_Nil: "one_per_name dc providers {} []"
  by (simp add: one_per_name_def)

lemma one_per_name_snoc:
  assumes "one_per_name dc providers names es" "f \<in> set providers"
    "map_of (pkg_fn dc) f = Some pn" "pn \<notin> names"
  shows "one_per_name dc providers (insert pn names) (es @ [f])"
proof -
  from assms(1) obtain pns where "map (map_of (pkg_fn dc)) es = map Some pns" "distinct pns"
    "set pns = names" and es: "set es \<subseteq> set providers"
    by (auto simp: one_per_name_def)
  with assms(2,3,4) show ?thesis
    by (auto simp: one_per_name_def intro!: exI [of _ "pns @ [pn]"])
qed

lemma one_per_name_iff:
  "one_per_name dc providers names es \<longleftrightarrow> set es \<subseteq> set providers \<and>
     None \<notin> set (map (map_of (pkg_fn dc)) es) \<and> distinct (map (map_of (pkg_fn dc)) es) \<and>
     Some ` names = set (map (map_of (pkg_fn dc)) es)"
proof -
  have "(\<exists>pns. map g es = map Some pns \<and> distinct pns \<and> set pns = names) \<longleftrightarrow>
      None \<notin> set (map g es) \<and> distinct (map g es) \<and> Some ` names = set (map g es)"
    for g :: "string \<Rightarrow> string option"
  proof (intro iffI)
    assume "\<exists>pns. map g es = map Some pns \<and> distinct pns \<and> set pns = names"
    then obtain pns where e: "map g es = map Some pns" "distinct pns" "set pns = names" by blast
    then show "None \<notin> set (map g es) \<and> distinct (map g es) \<and> Some ` names = set (map g es)"
      unfolding e(1) by (simp add: distinct_map)
  next
    assume r: "None \<notin> set (map g es) \<and> distinct (map g es) \<and> Some ` names = set (map g es)"
    then have 1: "map g es = map Some (map (\<lambda>e. the (g e)) es)"
      by (auto simp: image_iff)
    have 2: "distinct (map (\<lambda>e. the (g e)) es)"
      using r unfolding 1 by (auto simp: distinct_map inj_on_def)
    have "Some ` set (map (\<lambda>e. the (g e)) es) = Some ` names"
      using r unfolding 1 by (metis set_map)
    then have "set (map (\<lambda>e. the (g e)) es) = names"
      by (simp add: inj_image_eq_iff)
    with 1 2 show "\<exists>pns. map g es = map Some pns \<and> distinct pns \<and> set pns = names" by blast
  qed
  then show ?thesis by (simp add: one_per_name_def)
qed

lemma one_per_name_mset:
  assumes "mset es = mset fs" "one_per_name dc providers names es"
  shows "one_per_name dc providers names fs"
proof -
  have "mset (map g es) = mset (map g fs)" for g :: "string \<Rightarrow> string option" using assms(1) by simp
  then have "distinct (map g es) = distinct (map g fs)" "set (map g es) = set (map g fs)"
    for g :: "string \<Rightarrow> string option"
    by (metis mset_eq_imp_distinct_iff, metis mset_eq_setD)
  with assms(2) mset_eq_setD [OF assms(1)] show ?thesis unfolding one_per_name_iff by metis
qed

lemma one_per_name_distinct: "one_per_name dc providers names es \<Longrightarrow> distinct es"
  unfolding one_per_name_iff by (simp add: distinct_map)

text \<open>The files by name.\<close>

definition collated :: "cache_data \<Rightarrow> string list \<Rightarrow> (string \<times> string list) list \<Rightarrow> bool" where
  "collated dc fs d \<longleftrightarrow> distinct (keys d) \<and> set (keys d) = names_of dc fs \<and>
     (\<forall>pn files. map_of d pn = Some files \<longrightarrow>
        files = filter (\<lambda>f. map_of (pkg_fn dc) f = Some pn) fs \<and> files \<noteq> [])"

lemma collate_collated:
  assumes "collate dc fs = Inr d"
  shows "collated dc fs d"
proof -
  let ?P = "\<lambda>ys d. distinct (keys d) \<and> set (keys d) = names_of dc ys \<and>
    (\<forall>pn. dget_or d pn [] = filter (\<lambda>f. map_of (pkg_fn dc) f = Some pn) ys)"
  have "?P fs d"
  proof (rule rfold_prefix [OF assms [unfolded collate_def]])
    show "?P [] []" by (simp add: keys_def names_of_def)
  next
    fix ys x zs a b
    assume "?P ys a" "rbind (dget (pkg_fn dc) x) (\<lambda>pn. Inr (dappend pn x a)) = Inr b"
    then show "?P (ys @ [x]) b"
      by (auto simp: rbind_eq_Inr dappend_def names_of_def)
  qed
  moreover from this have "files = filter (\<lambda>f. map_of (pkg_fn dc) f = Some pn) fs \<and> files \<noteq> []"
    if "map_of d pn = Some files" for pn files
  proof -
    from calculation that have "files = filter (\<lambda>f. map_of (pkg_fn dc) f = Some pn) fs"
      by (metis dget_or_def option.simps(5))
    moreover have "pn \<in> names_of dc fs" using that \<open>?P fs d\<close> map_of_keys by metis
    ultimately show ?thesis by (auto simp: names_of_def filter_empty_conv)
  qed
  ultimately show ?thesis by (simp add: collated_def)
qed

text \<open>The first loop: the preferred files, one for each name that has a preferred version.\<close>

definition sets_of_name :: "cache_data \<Rightarrow> string list \<Rightarrow> string \<Rightarrow> string list list \<Rightarrow> bool" where
  "sets_of_name dc fs pn sets \<longleftrightarrow> sets \<noteq> [] \<and> [] \<notin> set sets \<and>
     (\<forall>f \<in> set (concat sets). f \<in> set fs \<and> map_of (pkg_fn dc) f = Some pn)"

lemma sortPriorities_sets:
  assumes "sortPriorities pn dc d = Inr sets" "collated dc fs d" "pn \<in> set (keys d)"
  shows "sets_of_name dc fs pn sets"
proof -
  from assms(3) have "d \<noteq> []" by (auto simp: keys_def)
  with sortPriorities_sorted [OF assms(1)] obtain files where
    "map_of d pn = Some files" and s: "prio_sorted dc files sets" by auto
  with assms(2) have "files = filter (\<lambda>f. map_of (pkg_fn dc) f = Some pn) fs" "files \<noteq> []"
    by (auto simp: collated_def)
  moreover from s have "set (concat sets) = set files" "[] \<notin> set sets"
    by (simp_all add: prio_sorted_def) (metis mset_eq_setD set_concat)
  ultimately show ?thesis by (auto simp: sets_of_name_def)
qed

lemma first_matching_mem: "first_matching dc m fs = Inr (Some (v, f)) \<Longrightarrow> f \<in> set fs"
  by (induction fs) (auto simp: rbind_eq_Inr split: if_splits)

lemma findPreferredProvider_mem:
  "findPreferredProvider pn getVar dc sets = Inr (Some (v, f)) \<Longrightarrow> f \<in> set (concat sets)"
  unfolding findPreferredProvider_def Let_def
  by (auto split: if_splits prod.splits dest!: first_matching_mem)

definition chosen_names :: "(string \<times> string option) list \<Rightarrow> string set" where
  "chosen_names chosen = {pn. dget_or chosen pn None \<noteq> None}"

lemma choose_preferred_inv:
  assumes "choose_preferred getVar dc d = Inr (sortpkg, chosen, eligible)" "collated dc fs d"
  shows "set (keys sortpkg) = set (keys d) \<and>
    (\<forall>(pn, sets) \<in> set sortpkg. sets_of_name dc fs pn sets) \<and>
    chosen_names chosen \<subseteq> set (keys d) \<and> one_per_name dc fs (chosen_names chosen) eligible"
proof -
  define P where "P = (\<lambda>ys (sortpkg, chosen, eligible). keys sortpkg = ys \<and>
    (\<forall>(pn, sets) \<in> set sortpkg. sets_of_name dc fs pn sets) \<and>
    chosen_names chosen \<subseteq> set ys \<and> one_per_name dc fs (chosen_names chosen) eligible)"
  have "P (keys d) (sortpkg, chosen, eligible)"
  proof (rule rfold_prefix [OF assms(1) [unfolded choose_preferred_def]])
    show "P [] ([], [], [])"
      by (simp add: P_def chosen_names_def one_per_name_Nil keys_def)
  next
    fix ys x zs a b
    assume ks: "keys d = ys @ x # zs" and a: "P ys a"
      and b: "(case a of (sortpkg, chosen, eligible) \<Rightarrow>
        rbind (sortPriorities x dc d) (\<lambda>sets. rbind (findPreferredProvider x getVar dc sets) (\<lambda>pref.
          let file = map_option snd pref in Inr (dset x sets sortpkg, dset x file chosen,
            case file of None \<Rightarrow> eligible | Some f \<Rightarrow> eligible @ [f])))) = Inr b"
    obtain sp ch el where sa: "a = (sp, ch, el)" by (metis prod_cases3)
    from b obtain sets pr where sets: "sortPriorities x dc d = Inr sets"
      and pr: "findPreferredProvider x getVar dc sets = Inr pr"
      and sb: "b = (dset x sets sp, dset x (map_option snd pr) ch,
        case map_option snd pr of None \<Rightarrow> el | Some f \<Rightarrow> el @ [f])"
      by (auto simp: sa rbind_eq_Inr Let_def)
    from assms(2) ks have x: "x \<notin> set ys" by (auto simp: collated_def)
    have sx: "sets_of_name dc fs x sets"
      using sortPriorities_sets [OF sets assms(2)] ks by simp
    from a have k: "keys sp = ys" and c: "chosen_names ch \<subseteq> set ys" and
      o1: "one_per_name dc fs (chosen_names ch) el" and
      s1: "\<forall>(pn, sets) \<in> set sp. sets_of_name dc fs pn sets" by (simp_all add: P_def sa)
    have xc: "x \<notin> chosen_names ch" using c x by blast
    show "P (ys @ [x]) b"
    proof (cases pr)
      case None
      then have "chosen_names (dset x None ch) = chosen_names ch"
        using xc by (auto simp: chosen_names_def)
      then show ?thesis using None k x c o1 s1 sx
        by (auto simp: P_def sb dset_new keys_def)
    next
      case (Some vf)
      then obtain v f where vf: "pr = Some (v, f)" by (cases vf) auto
      have cn: "chosen_names (dset x (Some f) ch) = insert x (chosen_names ch)"
        by (auto simp: chosen_names_def)
      have "f \<in> set fs \<and> map_of (pkg_fn dc) f = Some x"
        using findPreferredProvider_mem [OF pr [unfolded vf]] sx by (auto simp: sets_of_name_def)
      then show ?thesis using vf k x c s1 sx one_per_name_snoc [OF o1 _ _ xc]
        by (auto simp: P_def sb cn dset_new keys_def)
    qed
  qed
  then show ?thesis by (simp add: P_def)
qed

text \<open>The second loop: the latest file of the highest priority for each of the other names.\<close>

lemma choose_latest_inv:
  assumes "choose_latest dc sortpkg chosen0 eligible0 = Inr (chosen, eligible)"
    and "\<forall>(pn, sets) \<in> set sortpkg. sets_of_name dc fs pn sets"
    and "one_per_name dc fs (chosen_names chosen0) eligible0"
  shows "one_per_name dc fs (chosen_names chosen0 \<union> set (keys sortpkg)) eligible \<and>
    chosen_names chosen = chosen_names chosen0 \<union> set (keys sortpkg)"
proof -
  define P where "P = (\<lambda>ys (chosen, eligible).
    chosen_names chosen = chosen_names chosen0 \<union> set (keys (ys :: (string \<times> string list list) list)) \<and>
    one_per_name dc fs (chosen_names chosen) eligible)"
  have "P sortpkg (chosen, eligible)"
  proof (rule rfold_prefix [OF assms(1) [unfolded choose_latest_def]])
    show "P [] (chosen0, eligible0)" using assms(3) by (simp add: P_def keys_def)
  next
    fix ys x zs a b
    assume sp: "sortpkg = ys @ x # zs" and a: "P ys a"
      and b: "(case x of (pn, sets) \<Rightarrow> \<lambda>(chosen, eligible).
        if dget_or chosen pn None \<noteq> None then Inr (chosen, eligible)
        else rbind (item sets 0) (\<lambda>top. rbind (findLatestProvider dc top) (\<lambda>latest.
          case latest of None \<Rightarrow> Inl (KeyError [])
          | Some (v, f) \<Rightarrow> Inr (dset pn (Some f) chosen, eligible @ [f])))) a = Inr b"
    obtain pn sets where x: "x = (pn, sets)" by force
    obtain ch el where sa: "a = (ch, el)" by force
    have sx: "sets_of_name dc fs pn sets" using assms(2) sp x by auto
    from a have c: "chosen_names ch = chosen_names chosen0 \<union> set (keys ys)" and
      o1: "one_per_name dc fs (chosen_names ch) el" unfolding P_def sa prod.case by blast+
    show "P (ys @ [x]) b"
    proof (cases "dget_or ch pn None = None")
      case False
      then have "pn \<in> chosen_names ch" by (simp add: chosen_names_def)
      with False b c o1 show ?thesis by (auto simp: P_def sa x keys_def)
    next
      case True
      from sx have ne: "sets \<noteq> []" "sets ! 0 \<noteq> []" and mem: "set (sets ! 0) \<subseteq> set (concat sets)"
        by (cases sets; auto simp: sets_of_name_def)+
      from True b ne(1) obtain r where r: "findLatestProvider dc (sets ! 0) = Inr r" and
        br: "(case r of None \<Rightarrow> Inl (KeyError [])
          | Some (v, f) \<Rightarrow> Inr (dset pn (Some f) ch, el @ [f])) = Inr b"
        by (auto simp: sa x rbind_eq_Inr item_def)
      from findLatestProvider_unbeaten [OF r ne(2)] obtain v f where
        vf: "r = Some (v, f)" "f \<in> set (sets ! 0)" by metis
      with br have sb: "b = (dset pn (Some f) ch, el @ [f])" by simp
      have "f \<in> set fs" "map_of (pkg_fn dc) f = Some pn"
        using vf(2) mem sx by (auto simp: sets_of_name_def)
      moreover have "pn \<notin> chosen_names ch" using True by (simp add: chosen_names_def)
      moreover have "chosen_names (dset pn (Some f) ch) = insert pn (chosen_names ch)"
        by (auto simp: chosen_names_def)
      ultimately show ?thesis
        using one_per_name_snoc [OF o1] c by (auto simp: P_def sb x keys_def)
    qed
  qed
  then show ?thesis by (auto simp: P_def)
qed

text \<open>Moving files to the front permutes the list.\<close>

lemma mset_to_front: "x \<in> set xs \<Longrightarrow> mset (to_front x xs) = mset xs"
  by (simp add: to_front_def)

lemma prefer_own_name_mset:
  assumes "prefer_own_name dc target chosen providers es0 = Inr es"
  shows "mset es = mset es0"
  by (rule rfold_inv [OF assms [unfolded prefer_own_name_def], of "\<lambda>es. mset es = mset es0"])
    (auto simp: rbind_eq_Inr mset_to_front split: if_splits option.splits)

lemma filterProviders_aux_names:
  assumes "filterProviders_aux providers target getVar dc = Inr (Some es)"
  shows "one_per_name dc providers (names_of dc providers) es"
proof -
  let ?fs = "sort providers"
  from assms obtain d sp ch0 el0 ch el where d: "collate dc ?fs = Inr d"
    and p: "choose_preferred getVar dc d = Inr (sp, ch0, el0)"
    and l: "choose_latest dc sp ch0 el0 = Inr (ch, el)"
    and o1: "prefer_own_name dc target ch ?fs el = Inr es"
    by (auto simp: filterProviders_aux_def rbind_eq_Inr Let_def split: if_splits)
  from collate_collated [OF d] have c: "collated dc ?fs d" .
  from choose_preferred_inv [OF p c] choose_latest_inv [OF l, of ?fs]
  have "one_per_name dc ?fs (set (keys d)) el" by (metis Un_absorb1)
  with one_per_name_mset [OF prefer_own_name_mset [OF o1, symmetric]]
  have "one_per_name dc ?fs (set (keys d)) es" .
  moreover have "set (keys d) = names_of dc providers"
    using c by (simp add: collated_def names_of_def)
  ultimately show ?thesis by (simp add: one_per_name_def)
qed

section \<open>Preferred providers\<close>

lemma find_named_cases:
  assumes "find_named dc name es = Inr r"
  shows "r = None \<longleftrightarrow> (\<forall>p \<in> set es. map_of (pkg_fn dc) p \<noteq> Some name)"
    and "r = Some p \<Longrightarrow> p \<in> set es \<and> map_of (pkg_fn dc) p = Some name"
  using assms by (induction es) (auto simp: rbind_eq_Inr split: if_splits)

lemma select_named_result:
  assumes "select_named dc name es = Inr (es', found)"
  shows "mset es' = mset es \<and> (found \<longleftrightarrow> name \<in> names_of dc es) \<and>
    (found \<longrightarrow> es' \<noteq> [] \<and> map_of (pkg_fn dc) (hd es') = Some name)"
proof -
  from assms obtain r where r: "find_named dc name es = Inr r"
    and e: "(es', found) = (case r of None \<Rightarrow> (es, False) | Some p \<Rightarrow> (to_front p es, True))"
    by (auto simp: select_named_def rbind_eq_Inr)
  show ?thesis
  proof (cases r)
    case None
    with e find_named_cases(1) [OF r] show ?thesis by (simp add: names_of_def)
  next
    case (Some p)
    with find_named_cases(2) [OF r, of p] have "p \<in> set es" "map_of (pkg_fn dc) p = Some name" by auto
    with e Some show ?thesis by (auto simp: mset_to_front names_of_def to_front_def)
  qed
qed

lemma one_per_name_names_of: "one_per_name dc providers names es \<Longrightarrow> names_of dc es = names"
proof -
  assume "one_per_name dc providers names es"
  then have "Some ` names = map_of (pkg_fn dc) ` set es" by (simp add: one_per_name_iff)
  then have "pn \<in> names \<longleftrightarrow> Some pn \<in> map_of (pkg_fn dc) ` set es" for pn
    by (metis image_iff option.inject)
  moreover have "pn \<in> names_of dc es \<longleftrightarrow> Some pn \<in> map_of (pkg_fn dc) ` set es" for pn
    unfolding names_of_def image_iff mem_Collect_eq by (metis (lifting))
  ultimately show ?thesis by blast
qed

lemma record_preferred_pkg_fn [simp]: "pkg_fn (record_preferred getVar target dc) = pkg_fn dc"
  by (simp add: record_preferred_def Let_def)

lemma names_of_cong: "pkg_fn dc = pkg_fn dc' \<Longrightarrow> names_of dc = names_of dc'"
  by (auto simp: names_of_def fun_eq_iff)

lemma filterProviders_result:
  assumes "filterProviders providers target getVar dc = Inr (Some es, found, dc')"
  shows "one_per_name dc providers (names_of dc providers) es"
    and "found \<longleftrightarrow> (\<exists>name \<in> names_of dc providers. map_of (cd_preferred dc') target = Some name)"
    and "found \<Longrightarrow> map_of (pkg_fn dc) (hd es) = map_of (cd_preferred dc') target"
    and "dc' = record_preferred getVar target dc"
proof -
  define dp where "dp = record_preferred getVar target dc"
  then have fn: "pkg_fn dp = pkg_fn dc" by simp
  from assms obtain el where el: "filterProviders_aux providers target getVar dc = Inr el"
    and r: "(case map_of (cd_preferred dp) target of None \<Rightarrow> Inr (el, False, dp)
      | Some name \<Rightarrow> (case el of None \<Rightarrow> Inl TypeError
          | Some es \<Rightarrow> rbind (select_named dp name es) (\<lambda>(es, found). Inr (Some es, found, dp))))
      = Inr (Some es, found, dc')"
    unfolding filterProviders_def rbind_eq_Inr Let_def dp_def by blast
  from r show dc': "dc' = record_preferred getVar target dc"
    unfolding dp_def [symmetric] by (auto split: option.splits simp: rbind_eq_Inr)
  have "one_per_name dc providers (names_of dc providers) es \<and>
    (found \<longleftrightarrow> (\<exists>name \<in> names_of dc providers. map_of (cd_preferred dp) target = Some name)) \<and>
    (found \<longrightarrow> map_of (pkg_fn dc) (hd es) = map_of (cd_preferred dp) target)"
  proof (cases "map_of (cd_preferred dp) target")
    case None
    then have "el = Some es" "\<not> found" using r by auto
    then show ?thesis using None filterProviders_aux_names [of providers target getVar dc es] el
      by auto
  next
    case (Some name)
    with r obtain es0 where e0: "el = Some es0" and s: "select_named dp name es0 = Inr (es, found)"
      by (cases el) (auto simp: rbind_eq_Inr)
    have o1: "one_per_name dc providers (names_of dc providers) es0"
      using filterProviders_aux_names [of providers target getVar dc es0] el e0 by simp
    from select_named_result [OF s] have sr: "mset es = mset es0" "found = (name \<in> names_of dc es0)"
      "found \<Longrightarrow> map_of (pkg_fn dc) (hd es) = Some name"
      using names_of_cong [OF fn] fn by metis+
    with one_per_name_names_of [OF o1] one_per_name_mset [OF sr(1) [symmetric] o1] Some
    show ?thesis by auto
  qed
  with dc' [folded dp_def] show "one_per_name dc providers (names_of dc providers) es"
    "found \<longleftrightarrow> (\<exists>name \<in> names_of dc providers. map_of (cd_preferred dc') target = Some name)"
    "found \<Longrightarrow> map_of (pkg_fn dc) (hd es) = map_of (cd_preferred dc') target"
    by blast+
qed

text \<open>
  The third group of the expression never captures anything: the second one has already
  taken the rest of the line.  So a preferred version never restricts the revision.
\<close>

lemma re_line_rest: "re_revision (drop (length (re_line s)) s) = None"
proof -
  have "drop (length (re_line s)) s = dropWhile (\<lambda>c. c \<noteq> CHR 0x0A) s"
    by (simp add: re_line_def dropWhile_eq_drop)
  moreover have "re_revision (dropWhile (\<lambda>c. c \<noteq> CHR 0x0A) s) = None"
  proof (cases "dropWhile (\<lambda>c. c \<noteq> CHR 0x0A) s")
    case Nil
    then show ?thesis unfolding re_revision_def by (simp only: list.case)
  next
    case (Cons c t)
    then have "c = CHR 0x0A" using hd_dropWhile [of "\<lambda>c. c \<noteq> CHR 0x0A" s] by simp
    with Cons show ?thesis by (simp add: re_revision_def)
  qed
  ultimately show ?thesis by simp
qed

lemma preferred_groups_revision: "snd (snd (preferred_groups v)) = None"
  by (simp add: preferred_groups_def Let_def re_line_rest split: prod.split)

section \<open>The world target\<close>

lemma other_provider_result:
  "other_provider dc pn pfs = Inr b \<Longrightarrow> b \<longleftrightarrow> (\<exists>pf \<in> set pfs. map_of (pkg_fn dc) pf \<noteq> Some pn)"
  by (induction pfs) (auto simp: rbind_eq_Inr split: if_splits)

text \<open>A name all of whose provides are its own and not virtual.\<close>

definition sole_provider :: "cache_data \<Rightarrow> string \<Rightarrow> bool" where
  "sole_provider dc pn \<longleftrightarrow> (\<forall>p \<in> set (dget_or (pn_provides dc) pn []). \<not> startswith p ''virtual/'' \<and>
     (\<forall>pf \<in> set (dget_or (cd_providers dc) p []). map_of (pkg_fn dc) pf = Some pn))"

lemma world_terminal_result:
  "world_terminal dc pn ps t = Inr b \<Longrightarrow> b \<longleftrightarrow> t \<and> (\<forall>p \<in> set ps. \<not> startswith p ''virtual/'' \<and>
     (\<forall>pf \<in> set (dget_or (cd_providers dc) p []). map_of (pkg_fn dc) pf = Some pn))"
  by (induction ps arbitrary: t) (auto simp: rbind_eq_Inr split: if_splits dest: other_provider_result)

definition in_world :: "string \<Rightarrow> cache_data \<Rightarrow> string \<Rightarrow> string \<Rightarrow> bool" where
  "in_world task dc f pn \<longleftrightarrow> map_of (pkg_fn dc) f = Some pn \<and> sole_provider dc pn \<and>
     (task = [] \<or> (\<exists>td. map_of (cd_task_deps dc) f = Some td \<and> task \<in> set (tasks td)))"

lemma world_file_result:
  assumes "world_file task f dc = Inr dc'"
  shows "dc' = dc\<lparr>world_target := world_target dc'\<rparr>"
    and "set (world_target dc') = set (world_target dc) \<union> {pn. in_world task dc f pn}"
proof -
  from assms obtain pn t b where pn: "map_of (pkg_fn dc) f = Some pn"
    and t: "(if task \<noteq> [] then rbind (dget (cd_task_deps dc) f) (\<lambda>td. Inr (task \<in> set (tasks td)))
            else Inr True) = Inr t"
    and b: "world_terminal dc pn (dget_or (pn_provides dc) pn []) t = Inr b"
    and dc': "dc' = (if b then dc\<lparr>world_target := sadd pn (world_target dc)\<rparr> else dc)"
    by (auto simp: world_file_def rbind_eq_Inr)
  show "dc' = dc\<lparr>world_target := world_target dc'\<rparr>" by (simp add: dc')
  have "t \<longleftrightarrow> task = [] \<or> (\<exists>td. map_of (cd_task_deps dc) f = Some td \<and> task \<in> set (tasks td))"
    using t by (auto simp: rbind_eq_Inr split: if_splits)
  with world_terminal_result [OF b] pn
  have "{n. in_world task dc f n} = (if b then {pn} else {})"
    by (auto simp: in_world_def sole_provider_def)
  then show "set (world_target dc') = set (world_target dc) \<union> {pn. in_world task dc f pn}"
    by (simp add: dc')
qed

lemma in_world_cong: "in_world task (dc\<lparr>world_target := w\<rparr>) = in_world task dc"
  by (intro ext) (simp add: in_world_def sole_provider_def)

lemma buildWorldTargetList_result:
  assumes "buildWorldTargetList task dc = Inr dc'" "world_target dc = []"
  shows "set (world_target dc') = {pn. \<exists>f \<in> set (possible_world dc). in_world task dc f pn}"
proof -
  define P where "P = (\<lambda>fs dc'. dc' = dc\<lparr>world_target := world_target dc'\<rparr> \<and>
    set (world_target dc') = {pn. \<exists>f \<in> set fs. in_world task dc f pn})"
  from assms have r: "rfold (world_file task) (possible_world dc) dc = Inr dc'"
    by (simp add: buildWorldTargetList_def)
  have "P (possible_world dc) dc'"
  proof (rule rfold_prefix [OF r])
    show "P [] dc" using assms(2) by (simp add: P_def)
  next
    fix ys x zs a b
    assume "P ys a" "world_file task x a = Inr b"
    then have a: "a = dc\<lparr>world_target := world_target a\<rparr>"
      "set (world_target a) = {pn. \<exists>f \<in> set ys. in_world task dc f pn}"
      and b: "b = a\<lparr>world_target := world_target b\<rparr>"
      "set (world_target b) = set (world_target a) \<union> {pn. in_world task a x pn}"
      using world_file_result [of task x a b] by (simp_all add: P_def)
    have "in_world task a = in_world task dc" by (metis a(1) in_world_cong)
    moreover have "b = dc\<lparr>world_target := world_target b\<rparr>"
    proof -
      have "a\<lparr>world_target := w\<rparr> = dc\<lparr>world_target := w\<rparr>" for w by (subst a(1)) simp
      with b(1) show ?thesis by (rule trans)
    qed
    ultimately show "P (ys @ [x]) b" using a(2) b(2) by (auto simp: P_def)
  qed
  then show ?thesis by (simp add: P_def)
qed

section \<open>Properties\<close>

definition dc_example :: cache_data where
  "dc_example = init_cacheData\<lparr>
     pkg_fn := [(''a1.bb'', ''a''), (''a2.bb'', ''a''), (''b.bb'', ''b'')],
     pkg_pn := [(''a'', [''a1.bb'', ''a2.bb'']), (''b'', [''b.bb''])],
     pkg_pepvpr := [(''a1.bb'', [], ''1.9'', ''r0''), (''a2.bb'', [], ''1.10'', ''r0''), (''b.bb'', [], ''2'', ''r0'')],
     pkg_dp := [(''a1.bb'', 0), (''a2.bb'', 0), (''b.bb'', 0)],
     pn_provides := [(''a'', [''a'']), (''b'', [''b'', ''v''])],
     cd_providers := [(''a'', [''a2.bb'', ''a1.bb'']), (''b'', [''b.bb'']), (''v'', [''b.bb''])],
     possible_world := [''a1.bb'', ''a2.bb'', ''b.bb''],
     bbfile_priority := [(''a1.bb'', 5), (''a2.bb'', 5), (''b.bb'', 6)]\<rparr>"

text \<open>
  \<open>sortPriorities\<close> returns the files of the recipe, each exactly once, in groups that
  are not empty: the priority of the layer falls from group to group, inside a group it is the
  same and the preference of the recipe rises.
\<close>

theorem sortPriorities_correct:
  assumes "sortPriorities pn dc pkg = Inr sets" "map_of pkg pn = Some files"
  shows "mset (concat sets) = mset files \<and> [] \<notin> set sets \<and>
    sorted_wrt (\<lambda>s t. \<forall>a \<in> set s. \<forall>b \<in> set t. prio dc a > prio dc b) sets \<and>
    (\<forall>s \<in> set sets. (\<forall>a \<in> set s. \<forall>b \<in> set s. prio dc a = prio dc b) \<and> sorted (map (pref dc) s))"
proof -
  obtain fs where fs: "map_of (if pkg = [] then pkg_pn dc else pkg) pn = Some fs" "prio_sorted dc fs sets"
    using sortPriorities_sorted [OF assms(1)] by (rule exE) (erule conjE, rule that)
  have "pkg \<noteq> []" using assms(2) by (cases pkg) simp_all
  then have "fs = files" using fs(1) assms(2) by simp
  then show ?thesis using fs(2) unfolding prio_sorted_def by (rule subst)
qed

lemma sortPriorities_correct_witness:
  "mset (concat [[''a1.bb'', ''a2.bb'']]) = mset [''a1.bb'', ''a2.bb'']"
proof -
  have "sortPriorities ''a'' dc_example (pkg_pn dc_example) = Inr [[''a1.bb'', ''a2.bb'']]"
    "map_of (pkg_pn dc_example) ''a'' = Some [''a1.bb'', ''a2.bb'']" by code_simp+
  from sortPriorities_correct [OF this] show ?thesis by blast
qed

text \<open>
  \<open>findLatestProvider\<close> returns one of the files with its version; no other file has a
  higher preference, and none of the same preference has a later version.
\<close>

theorem findLatestProvider_latest:
  assumes "findLatestProvider dc fs = Inr r" "fs \<noteq> []"
  shows "\<exists>v f p. r = Some (v, f) \<and> f \<in> set fs \<and> file_version dc f = Inr (f, v, p) \<and>
    (\<forall>g w q. g \<in> set fs \<longrightarrow> file_version dc g = Inr (g, w, q) \<longrightarrow> q \<le> p \<and> (q = p \<longrightarrow> version_cmp w v \<le> 0))"
  using findLatestProvider_unbeaten [OF assms] by metis

lemma findLatestProvider_latest_witness:
  "\<exists>p. file_version dc_example ''a2.bb'' = Inr (''a2.bb'', (EStr [], ''1.10'', ''r0''), p)"
proof -
  have "findLatestProvider dc_example [''a1.bb'', ''a2.bb''] = Inr (Some ((EStr [], ''1.10'', ''r0''), ''a2.bb''))"
    by code_simp
  from findLatestProvider_latest [OF this] show ?thesis by auto
qed

text \<open>
  C13. \<open>filterProviders\<close> chooses among the providers of a target exactly one file for each
  recipe name.  It reports a preferred provider exactly if the preference recorded for the
  target is the name of one of them, and then a file of that name comes first.
\<close>

theorem filterProviders_chooses:
  assumes "filterProviders providers target getVar dc = Inr (Some es, found, dc')"
  shows "one_per_name dc providers (names_of dc providers) es \<and>
    (found \<longleftrightarrow> (\<exists>name \<in> names_of dc providers. map_of (cd_preferred dc') target = Some name)) \<and>
    (found \<longrightarrow> map_of (pkg_fn dc) (hd es) = map_of (cd_preferred dc') target)"
  using filterProviders_result [OF assms] by blast

lemma filterProviders_chooses_witness:
  "case filterProviders [''b.bb'', ''a2.bb'', ''a1.bb''] ''v'' (\<lambda>k. if k = ''PREFERRED_PROVIDER_v'' then Some ''b'' else None) dc_example of
     Inl _ \<Rightarrow> False
   | Inr (eligible, found, dc') \<Rightarrow> eligible = Some [''b.bb'', ''a2.bb''] \<and> found \<and>
       one_per_name dc_example [''b.bb'', ''a2.bb'', ''a1.bb''] (names_of dc_example [''b.bb'', ''a2.bb'', ''a1.bb'']) [''b.bb'', ''a2.bb'']"
proof -
  let ?gv = "\<lambda>k. if k = ''PREFERRED_PROVIDER_v'' then Some ''b'' else None"
  let ?ps = "[''b.bb'', ''a2.bb'', ''a1.bb'']"
  have "case filterProviders ?ps ''v'' ?gv dc_example of Inl _ \<Rightarrow> False
    | Inr (eligible, found, dc') \<Rightarrow> eligible = Some [''b.bb'', ''a2.bb''] \<and> found" by code_simp
  then obtain dc' where r: "filterProviders ?ps ''v'' ?gv dc_example = Inr (Some [''b.bb'', ''a2.bb''], True, dc')"
    by (auto split: sum.splits)
  from filterProviders_chooses [OF r] r show ?thesis by simp
qed

text \<open>
  A revision in \<open>PREFERRED_VERSION\<close> is never looked at: the expression captures nothing
  as the revision, whatever the preferred version is, so \<open>findPreferredProvider\<close> matches
  epochs and versions only.
\<close>

theorem preferred_revision_ignored:
  "snd (snd (preferred_groups v)) = None \<and>
   preferredVersionMatch pe pv pr pe' pv' (map_option tl (snd (snd (preferred_groups v)))) =
     preferredVersionMatch pe pv pr0 pe' pv' None"
  by (simp add: preferred_groups_revision preferredVersionMatch_def)

text \<open>
  The targets of \<open>bitbake world\<close>, built from an empty list, are the names of the possible
  files that have the task and all of whose provides are not virtual and provided by files of
  this name only.
\<close>

theorem buildWorldTargetList_correct:
  assumes "buildWorldTargetList task dc = Inr dc'" "world_target dc = []"
  shows "set (world_target dc') = {pn. \<exists>f \<in> set (possible_world dc). in_world task dc f pn}"
  by (rule buildWorldTargetList_result [OF assms])

lemma buildWorldTargetList_correct_witness:
  "{pn. \<exists>f \<in> set (possible_world dc_example). in_world [] dc_example f pn} = {''a'', ''b''}"
proof -
  have w: "world_target dc_example = []" by (simp add: dc_example_def init_cacheData_def)
  have "case buildWorldTargetList [] dc_example of Inl _ \<Rightarrow> False | Inr dc' \<Rightarrow> world_target dc' = [''a'', ''b'']"
    by code_simp
  then obtain dc' where r: "buildWorldTargetList [] dc_example = Inr dc'" "world_target dc' = [''a'', ''b'']"
    by (auto split: sum.splits)
  from buildWorldTargetList_correct [OF r(1) w] r(2) show ?thesis by simp
qed

end
