(* ===== verification/Task_Data.thy ===== *)
theory Task_Data
  imports Providers
begin

text \<open>
  The task data, \<^verbatim>\<open>bitbake/lib/bb/taskdata.py\<close>: which recipe files provide the build
  and runtime targets, what their tasks depend on, and how a file or target that cannot be
  built makes what depends on it unbuildable.

  The object \<open>TaskData\<close> is a record; methods that change it are functions of the
  state-and-exception type.  The methods that also change the recipe cache have the pair of
  both as their state.  Log messages and events are not modelled; where building the text of
  an event can raise, the lookups are kept.  Besides the parameters of \<open>Providers\<close>,
  \<open>exec_func\<close> stands for executing the \<open>calculate_extra_depends\<close> function of a
  recipe, which is code of the recipe: from its text and the variables it gets it returns their
  new values.
\<close>

section \<open>State\<close>

record task_entry =
  tdepends :: "string list"
  idepends :: "(string \<times> string) list"
  irdepends :: "(string \<times> string) list"

record skip_item =
  si_pn :: string
  si_skipreason :: string
  si_provides :: "string list"
  si_rprovides :: "string list"

record taskdata =
  build_targets :: "(string \<times> string list) list"
  run_targets :: "(string \<times> string list) list"
  external_targets :: "string list"
  seenfns :: "string list"
  taskentries :: "(string \<times> task_entry) list"
  depids :: "(string \<times> string list) list"
  rdepids :: "(string \<times> string list) list"
  consider_msgs_cache :: "string list"
  failed_deps :: "string list"
  failed_rdeps :: "string list"
  failed_fns :: "string list"
  td_abort :: bool
  tryaltconfigs :: bool
  allowincomplete :: bool
  skiplist :: "(string \<times> skip_item) list"

definition init_taskdata :: "bool \<Rightarrow> bool \<Rightarrow> (string \<times> skip_item) list \<Rightarrow> bool \<Rightarrow> taskdata" where
  "init_taskdata ab tryalt skip incomplete = \<lparr>build_targets = [], run_targets = [],
     external_targets = [], seenfns = [], taskentries = [], depids = [], rdepids = [],
     consider_msgs_cache = [], failed_deps = [], failed_rdeps = [], failed_fns = [],
     td_abort = ab, tryaltconfigs = tryalt, allowincomplete = incomplete, skiplist = skip\<rparr>"

text \<open>\<open>any\<close> stops at the first string that matches.\<close>

fun re_match_strings :: "(string \<Rightarrow> string \<Rightarrow> bool res) \<Rightarrow> string \<Rightarrow> string list \<Rightarrow> bool res" where
  "re_match_strings re_match target [] = Inr False"
| "re_match_strings re_match target (name # names) =
     (if name = target then Inr True
      else rbind (re_match name target) (\<lambda>b.
        if b then Inr True else re_match_strings re_match target names))"

section \<open>Targets\<close>

text \<open>The providers of a target, none when it has not been seen.\<close>

abbreviation bt :: "taskdata \<Rightarrow> string \<Rightarrow> string list" where
  "bt td k \<equiv> dget_or (build_targets td) k []"

abbreviation rt :: "taskdata \<Rightarrow> string \<Rightarrow> string list" where
  "rt td k \<equiv> dget_or (run_targets td) k []"

definition have_build_target :: "taskdata \<Rightarrow> string \<Rightarrow> bool" where
  "have_build_target td target \<longleftrightarrow> target \<in> set (keys (build_targets td)) \<and> bt td target \<noteq> []"

definition have_runtime_target :: "taskdata \<Rightarrow> string \<Rightarrow> bool" where
  "have_runtime_target td target \<longleftrightarrow> target \<in> set (keys (run_targets td)) \<and> rt td target \<noteq> []"

text \<open>The updates of the two tables of targets, which are the same on each.\<close>

definition seen_target :: "string \<Rightarrow> (string \<times> string list) list \<Rightarrow> (string \<times> string list) list" where
  "seen_target name t = (if name \<notin> set (keys t) then dset name [] t else t)"

definition add_target :: "string \<Rightarrow> string \<Rightarrow> (string \<times> string list) list \<Rightarrow> (string \<times> string list) list" where
  "add_target fn name t =
     (if name \<in> set (keys t)
      then (if fn \<in> set (dget_or t name []) then t else dset name (dget_or t name [] @ [fn]) t)
      else dset name [fn] t)"

definition seen_build_target :: "string \<Rightarrow> taskdata \<Rightarrow> taskdata" where
  "seen_build_target name td = td\<lparr>build_targets := seen_target name (build_targets td)\<rparr>"

definition add_build_target :: "string \<Rightarrow> string \<Rightarrow> taskdata \<Rightarrow> taskdata" where
  "add_build_target fn name td = td\<lparr>build_targets := add_target fn name (build_targets td)\<rparr>"

definition seen_run_target :: "string \<Rightarrow> taskdata \<Rightarrow> taskdata" where
  "seen_run_target name td = td\<lparr>run_targets := seen_target name (run_targets td)\<rparr>"

definition add_runtime_target :: "string \<Rightarrow> string \<Rightarrow> taskdata \<Rightarrow> taskdata" where
  "add_runtime_target fn name td = td\<lparr>run_targets := add_target fn name (run_targets td)\<rparr>"

definition mark_external_target :: "string \<Rightarrow> taskdata \<Rightarrow> taskdata" where
  "mark_external_target target td = td\<lparr>external_targets := sadd target (external_targets td)\<rparr>"

definition get_unresolved_build_targets :: "(string \<Rightarrow> string \<Rightarrow> bool res) \<Rightarrow> taskdata \<times> cache_data \<Rightarrow>
    string list res" where
  "get_unresolved_build_targets re_match = (\<lambda>(td, dc). rfold (\<lambda>target unresolved.
     rbind (re_match_strings re_match target (ignored_dependencies dc)) (\<lambda>b.
       Inr (if b \<or> target \<in> set (failed_deps td) \<or> bt td target \<noteq> [] then unresolved
            else unresolved @ [target]))) (keys (build_targets td)) [])"

definition get_unresolved_run_targets :: "(string \<Rightarrow> string \<Rightarrow> bool res) \<Rightarrow> taskdata \<times> cache_data \<Rightarrow>
    string list res" where
  "get_unresolved_run_targets re_match = (\<lambda>(td, dc). rfold (\<lambda>target unresolved.
     rbind (re_match_strings re_match target (ignored_dependencies dc)) (\<lambda>b.
       Inr (if b \<or> target \<in> set (failed_rdeps td) \<or> rt td target \<noteq> [] then unresolved
            else unresolved @ [target]))) (keys (run_targets td)) [])"

definition get_dependees :: "taskdata \<Rightarrow> string \<Rightarrow> string list" where
  "get_dependees td it = filter (\<lambda>fn. it \<in> set (dget_or (depids td) fn [])) (keys (depids td))"

definition get_rdependees :: "taskdata \<Rightarrow> string \<Rightarrow> string list" where
  "get_rdependees td it = filter (\<lambda>fn. it \<in> set (dget_or (rdepids td) fn [])) (keys (rdepids td))"

definition get_reasons :: "taskdata \<Rightarrow> string \<Rightarrow> bool \<Rightarrow> string list" where
  "get_reasons td it runtime = concat (map (\<lambda>(fn, si).
     if si_pn si = it then [si_pn si @ '' was skipped: '' @ si_skipreason si]
     else if runtime \<and> it \<in> set (si_rprovides si)
       then [si_pn si @ '' RPROVIDES '' @ it @ '' but was skipped: '' @ si_skipreason si]
     else if \<not> runtime \<and> it \<in> set (si_provides si)
       then [si_pn si @ '' PROVIDES '' @ it @ '' but was skipped: '' @ si_skipreason si]
     else []) (skiplist td))"

definition get_providermap :: "string \<Rightarrow> taskdata \<Rightarrow> (string \<times> string) list" where
  "get_providermap start td = concat (map (\<lambda>name.
     if start \<noteq> [] \<and> \<not> startswith name start then []
     else if have_build_target td name then [(name, hd (bt td name))] else []) (keys (build_targets td)))"

section \<open>Failing files and targets\<close>

text \<open>
  \<open>fail_fn\<close>, \<open>remove_buildtarget\<close> and \<open>remove_runtarget\<close> call each other.  The
  two removals take the function that fails a file; \<open>fail_fn_fuel\<close> ties the knot with a
  bound on the depth of the recursion, and \<open>fail_fn\<close> starts with enough of it.  The
  list of missing requirements only goes into messages.
\<close>

definition tid_fn :: "string \<Rightarrow> string" where
  "tid_fn tid = hd (rsplit1 CHR '':'' tid)"

definition fail_entries :: "(string \<Rightarrow> (taskdata, unit) sm) \<Rightarrow> (task_entry \<Rightarrow> (string \<times> string) list) \<Rightarrow>
    string \<Rightarrow> (taskdata, unit) sm" where
  "fail_entries fail deps target = sbind (sget taskentries) (\<lambda>es.
     sfor es (\<lambda>(tid, e). sfor (deps e) (\<lambda>(idepend, idependtask).
       if idepend = target then fail (tid_fn tid) else sret ())))"

definition remove_buildtarget_with :: "(string \<Rightarrow> (taskdata, unit) sm) \<Rightarrow> string \<Rightarrow> (taskdata, unit) sm" where
  "remove_buildtarget_with fail target =
     sbind (supd (\<lambda>td. td\<lparr>failed_deps := failed_deps td @ [target]\<rparr>)) (\<lambda>_.
     sbind (sget (\<lambda>td. get_dependees td target)) (\<lambda>dependees.
     sbind (sfor dependees fail) (\<lambda>_.
     sbind (fail_entries fail idepends target) (\<lambda>_.
     sbind (sget (\<lambda>td. td_abort td \<and> target \<in> set (external_targets td))) (\<lambda>b.
       if b then sraise (NoProvider target) else sret ())))))"

definition remove_runtarget_with :: "(string \<Rightarrow> (taskdata, unit) sm) \<Rightarrow> string \<Rightarrow> (taskdata, unit) sm" where
  "remove_runtarget_with fail target =
     sbind (supd (\<lambda>td. td\<lparr>failed_rdeps := failed_rdeps td @ [target]\<rparr>)) (\<lambda>_.
     sbind (sget (\<lambda>td. get_rdependees td target)) (\<lambda>dependees.
     sbind (sfor dependees fail) (\<lambda>_. fail_entries fail irdepends target)))"

definition drop_build_provider :: "(string \<Rightarrow> (taskdata, unit) sm) \<Rightarrow> string \<Rightarrow> string \<Rightarrow> (taskdata, unit) sm" where
  "drop_build_provider fail fn target = sbind (sget (\<lambda>td. bt td target)) (\<lambda>fns.
     if fn \<in> set fns then
       sbind (supd (\<lambda>td. td\<lparr>build_targets := dset target (remove1 fn fns) (build_targets td)\<rparr>)) (\<lambda>_.
         if remove1 fn fns = [] then remove_buildtarget_with fail target else sret ())
     else sret ())"

definition drop_run_provider :: "(string \<Rightarrow> (taskdata, unit) sm) \<Rightarrow> string \<Rightarrow> string \<Rightarrow> (taskdata, unit) sm" where
  "drop_run_provider fail fn target = sbind (sget (\<lambda>td. rt td target)) (\<lambda>fns.
     if fn \<in> set fns then
       sbind (supd (\<lambda>td. td\<lparr>run_targets := dset target (remove1 fn fns) (run_targets td)\<rparr>)) (\<lambda>_.
         if remove1 fn fns = [] then remove_runtarget_with fail target else sret ())
     else sret ())"

definition mark_failed :: "string \<Rightarrow> taskdata \<Rightarrow> taskdata" where
  "mark_failed fn td = td\<lparr>failed_fns := failed_fns td @ [fn]\<rparr>"

fun fail_fn_fuel :: "nat \<Rightarrow> string \<Rightarrow> (taskdata, unit) sm" where
  "fail_fn_fuel 0 fn = sbind (sget (\<lambda>td. fn \<in> set (failed_fns td))) (\<lambda>b.
     if b then sret () else sraise OutOfFuel)"
| "fail_fn_fuel (Suc n) fn = sbind (sget (\<lambda>td. fn \<in> set (failed_fns td))) (\<lambda>b.
     if b then sret ()
     else sbind (supd (mark_failed fn)) (\<lambda>_.
       sbind (sget (\<lambda>td. keys (build_targets td))) (\<lambda>bs.
       sbind (sfor bs (drop_build_provider (fail_fn_fuel n) fn)) (\<lambda>_.
       sbind (sget (\<lambda>td. keys (run_targets td))) (\<lambda>rs.
         sfor rs (drop_run_provider (fail_fn_fuel n) fn))))))"

text \<open>The files a removed target can fail, and the fuel: one level for each of them.\<close>

definition dependent_fns :: "taskdata \<Rightarrow> string list" where
  "dependent_fns td = keys (depids td) @ keys (rdepids td) @ map tid_fn (keys (taskentries td))"

definition fail_fuel :: "taskdata \<Rightarrow> nat" where
  "fail_fuel td = Suc (length (dependent_fns td))"

definition fail_fn :: "string \<Rightarrow> (taskdata, unit) sm" where
  "fail_fn fn = (\<lambda>td. fail_fn_fuel (fail_fuel td) fn td)"

definition remove_buildtarget :: "string \<Rightarrow> (taskdata, unit) sm" where
  "remove_buildtarget target = (\<lambda>td. remove_buildtarget_with (fail_fn_fuel (fail_fuel td)) target td)"

definition remove_runtarget :: "string \<Rightarrow> (taskdata, unit) sm" where
  "remove_runtarget target = (\<lambda>td. remove_runtarget_with (fail_fn_fuel (fail_fuel td)) target td)"

section \<open>Adding the tasks of a file\<close>

text \<open>
  Running the function of a recipe: its text and the name of the recipe, then the variables
  \<open>deps\<close>, \<open>world_target\<close> and \<open>pkg_pn\<close> it may change in place.
\<close>

type_synonym recipe_exec = "string \<Rightarrow> string \<Rightarrow>
  string list \<times> string list \<times> (string \<times> string list) list \<Rightarrow>
  (string list \<times> string list \<times> (string \<times> string list) list) res"

definition add_extra_deps :: "recipe_exec \<Rightarrow> string \<Rightarrow> cache_data \<Rightarrow>
    cache_data res" where
  "add_extra_deps exec_func fn dc =
     (let func = dget_or (extradepsfunc dc) fn [] in
      if func = [] then Inr dc
      else rbind (buildWorldTargetList [] dc) (\<lambda>dc.
        rbind (dget (pkg_fn dc) fn) (\<lambda>pn.
        rbind (exec_func func pn (dget_or (cd_deps dc) fn [], world_target dc, pkg_pn dc)) (\<lambda>(deps, world, pns).
          Inr (dc\<lparr>cd_deps := dset fn deps (cd_deps dc), world_target := world, pkg_pn := pns\<rparr>)))))"

text \<open>The task dependencies of a flag, e.g. \<open>"a:do_x b:do_y"\<close>.\<close>

definition add_flag_deps :: "(string \<Rightarrow> taskdata \<Rightarrow> taskdata) \<Rightarrow>
    ((string \<times> string) list \<Rightarrow> task_entry \<Rightarrow> task_entry) \<Rightarrow> string \<Rightarrow> string option \<Rightarrow> (taskdata, unit) sm" where
  "add_flag_deps seen upd tid v = (case v of
       None \<Rightarrow> sret ()
     | Some s \<Rightarrow>
         sbind (sfor (split_ws s) (\<lambda>dep. if CHR '':'' \<notin> set dep then sraise SystemExit
           else supd (seen (split_on CHR '':'' dep ! 0)))) (\<lambda>_.
         sbind (sres (\<lambda>td. dget (taskentries td) tid)) (\<lambda>e.
           supd (\<lambda>td. td\<lparr>taskentries := dset tid
             (upd (map (\<lambda>dep. (split_on CHR '':'' dep ! 0, split_on CHR '':'' dep ! 1)) (split_ws s)) e)
             (taskentries td)\<rparr>))))"

definition add_task :: "string \<Rightarrow> task_deps \<Rightarrow> string \<Rightarrow> (taskdata, unit) sm" where
  "add_task fn deps task = (let tid = fn @ '':'' @ task in
     sbind (supd (\<lambda>td. td\<lparr>taskentries :=
       dset tid \<lparr>tdepends = [], idepends = [], irdepends = []\<rparr> (taskentries td)\<rparr>)) (\<lambda>_.
     sbind (sres (\<lambda>_. dget (parents deps) task)) (\<lambda>ps.
     sbind (supd (\<lambda>td. td\<lparr>taskentries := dset tid
       \<lparr>tdepends = map (\<lambda>dep. fn @ '':'' @ dep) (filter (\<lambda>dep. dep \<in> set (tasks deps)) ps),
        idepends = [], irdepends = []\<rparr> (taskentries td)\<rparr>)) (\<lambda>_.
     sbind (add_flag_deps seen_build_target (\<lambda>ids e. e\<lparr>idepends := idepends e @ ids\<rparr>) tid
       (task_flag deps ''depends'' task)) (\<lambda>_.
       add_flag_deps seen_run_target (\<lambda>ids e. e\<lparr>irdepends := irdepends e @ ids\<rparr>) tid
         (task_flag deps ''rdepends'' task))))))"

definition add_depids :: "string \<Rightarrow> cache_data \<Rightarrow> taskdata \<Rightarrow> taskdata" where
  "add_depids fn dc td = (if fn \<in> set (keys (depids td)) then td
     else td\<lparr>depids := dset fn (sunion [] (dget_or (cd_deps dc) fn [])) (depids td)\<rparr>)"

definition add_rdepids :: "string \<Rightarrow> cache_data \<Rightarrow> taskdata \<Rightarrow> taskdata" where
  "add_rdepids fn dc td = (if fn \<in> set (keys (rdepids td)) then td
     else td\<lparr>rdepids := dset fn (sunion [] (concat (dvals (dget_or (rundeps dc) fn [])) @
       concat (dvals (dget_or (runrecs dc) fn [])))) (rdepids td)\<rparr>)"

text \<open>The final loops; the result says whether the method returns there.\<close>

fun check_deps :: "(string \<Rightarrow> taskdata \<Rightarrow> taskdata) \<Rightarrow> (taskdata \<Rightarrow> string list) \<Rightarrow> string \<Rightarrow> string list \<Rightarrow>
    (taskdata, bool) sm" where
  "check_deps seen failed fn [] = sret False"
| "check_deps seen failed fn (dep # deps) =
     sbind (supd (seen dep)) (\<lambda>_.
     sbind (sget (\<lambda>td. dep \<in> set (failed td))) (\<lambda>b.
       if b then sbind (fail_fn fn) (\<lambda>_. sret True) else check_deps seen failed fn deps))"

definition add_new_tasks :: "string \<Rightarrow> task_deps \<Rightarrow> cache_data \<Rightarrow> (taskdata, unit) sm" where
  "add_new_tasks fn deps dc =
     sbind (sfor (tasks deps) (add_task fn deps)) (\<lambda>_.
     sbind (supd (\<lambda>td. add_rdepids fn dc (add_depids fn dc td))) (\<lambda>_.
     sbind (sget (\<lambda>td. dget_or (depids td) fn [])) (\<lambda>ds.
     sbind (check_deps seen_build_target failed_deps fn ds) (\<lambda>returned.
       if returned then sret ()
       else sbind (sget (\<lambda>td. dget_or (rdepids td) fn [])) (\<lambda>rs.
         sbind (check_deps seen_run_target failed_rdeps fn rs) (\<lambda>_. sret ()))))))"

type_synonym td_state = "taskdata \<times> cache_data"

text \<open>
  \<open>add_tasks\<close>: nothing for a file seen before, a fatal error for one that has failed.
\<close>

definition add_tasks :: "recipe_exec \<Rightarrow> string \<Rightarrow> (td_state, unit) sm" where
  "add_tasks exec_func fn =
     sbind (sres (\<lambda>(td, dc). dget (cd_task_deps dc) fn)) (\<lambda>deps.
     sbind (sget (\<lambda>(td, dc). td)) (\<lambda>td.
       if fn \<in> set (failed_fns td) then sraise SystemExit
       else if fn \<in> set (seenfns td) then sret ()
       else sbind (on_fst (supd (\<lambda>td. td\<lparr>seenfns := seenfns td @ [fn]\<rparr>))) (\<lambda>_.
         sbind (sres (\<lambda>(td, dc). add_extra_deps exec_func fn dc)) (\<lambda>dc.
         sbind (supd (\<lambda>(td, _). (td, dc))) (\<lambda>_. on_fst (add_new_tasks fn deps dc))))))"

section \<open>Adding providers\<close>

text \<open>
  The files that may provide a target, those that failed left out.  \<open>filterProviders\<close>
  sorts the list it is given, which for a build target is the list of the cache itself.
\<close>

definition eligible_build :: "(string \<Rightarrow> string option) \<Rightarrow> string \<Rightarrow> (td_state, string list \<times> bool) sm" where
  "eligible_build getVar it =
     sbind (sget (\<lambda>(td, dc). dget_or (cd_providers dc) it [])) (\<lambda>all_p.
     sbind (supd (\<lambda>(td, dc). (td, dc\<lparr>cd_providers := dset it (sort all_p) (cd_providers dc)\<rparr>))) (\<lambda>_.
     sbind (sres (\<lambda>(td, dc). filterProviders all_p it getVar dc)) (\<lambda>(eligible, found, dc).
     sbind (supd (\<lambda>(td, _). (td, dc))) (\<lambda>_.
       case eligible of None \<Rightarrow> sraise TypeError
       | Some es \<Rightarrow> sget (\<lambda>(td, dc). (filter (\<lambda>p. p \<notin> set (failed_fns td)) es, found))))))"

definition eligible_run :: "(string \<Rightarrow> string option) \<Rightarrow> string list \<Rightarrow> string \<Rightarrow> (td_state, string list \<times> nat) sm" where
  "eligible_run getVar all_p it =
     sbind (sres (\<lambda>(td, dc). filterProvidersRunTime all_p it getVar dc)) (\<lambda>(eligible, n).
       case eligible of None \<Rightarrow> sraise TypeError
       | Some es \<Rightarrow> sget (\<lambda>(td, dc). (filter (\<lambda>p. p \<notin> set (failed_fns td)) es, n)))"

text \<open>The message on several providers, sent once for each target.\<close>

definition consider_message :: "string list \<Rightarrow> string \<Rightarrow> (td_state, unit) sm" where
  "consider_message eligible it =
     sbind (sres (\<lambda>(td, dc). if it \<notin> set (consider_msgs_cache td)
       then rmap (dget (pkg_fn dc)) eligible else Inr [])) (\<lambda>_.
     on_fst (supd (\<lambda>td. td\<lparr>consider_msgs_cache := consider_msgs_cache td @ [it]\<rparr>)))"

definition add_all :: "(string \<Rightarrow> taskdata \<Rightarrow> taskdata) \<Rightarrow> (string \<Rightarrow> (td_state, unit) sm) \<Rightarrow> string list \<Rightarrow>
    (td_state, unit) sm" where
  "add_all add_target_fn tasks_of eligible = sfor eligible (\<lambda>fn.
     sbind (sget (\<lambda>(td, dc). fn \<in> set (failed_fns td))) (\<lambda>failed.
       if failed then sret ()
       else sbind (on_fst (supd (add_target_fn fn))) (\<lambda>_. tasks_of fn)))"

definition add_provider_internal :: "(string \<Rightarrow> string \<Rightarrow> bool res) \<Rightarrow> (string \<Rightarrow> string option) \<Rightarrow> recipe_exec \<Rightarrow> string \<Rightarrow> (td_state, unit) sm" where
  "add_provider_internal re_match getVar exec_func it =
     sbind (sres (\<lambda>(td, dc). re_match_strings re_match it (ignored_dependencies dc))) (\<lambda>ignored.
     sbind (sget (\<lambda>s. s)) (\<lambda>(td, dc).
       if ignored then sret ()
       else if it \<notin> set (keys (cd_providers dc)) then
         sbind (sres (\<lambda>_. rbind (getRuntimeProviders re_match dc it) (rmap (dget (pkg_fn dc))))) (\<lambda>_.
           sraise (NoProvider it))
       else if have_build_target td it then sret ()
       else sbind (eligible_build getVar it) (\<lambda>(eligible, foundUnique).
         if eligible = [] then sraise (NoProvider it)
         else sbind (if length eligible > 1 \<and> \<not> foundUnique then consider_message eligible it
             else sret ()) (\<lambda>_.
           add_all (\<lambda>fn. add_build_target fn it) (add_tasks exec_func) eligible))))"

definition add_rprovider :: "(string \<Rightarrow> string \<Rightarrow> bool res) \<Rightarrow> (string \<Rightarrow> string option) \<Rightarrow> recipe_exec \<Rightarrow> string \<Rightarrow> (td_state, unit) sm" where
  "add_rprovider re_match getVar exec_func it =
     sbind (sres (\<lambda>(td, dc). re_match_strings re_match it (ignored_dependencies dc))) (\<lambda>ignored.
     sbind (sget (\<lambda>(td, dc). td)) (\<lambda>td.
       if ignored then sret ()
       else if have_runtime_target td it then sret ()
       else sbind (sres (\<lambda>(td, dc). getRuntimeProviders re_match dc it)) (\<lambda>all_p.
         if all_p = [] then sraise (NoRProvider it)
         else sbind (eligible_run getVar all_p it) (\<lambda>(eligible, numberPreferred).
           if eligible = [] then sraise (NoRProvider it)
           else sbind (if length eligible > 1 \<and> numberPreferred = 0 then consider_message eligible it
               else sret ()) (\<lambda>_.
             if numberPreferred > 1
             then sbind (consider_message eligible it) (\<lambda>_. sraise (MultipleRProvider it))
             else add_all (\<lambda>fn. add_runtime_target fn it) (add_tasks exec_func) eligible)))))"

fun is_NoProvider :: "exc \<Rightarrow> bool" where
  "is_NoProvider (NoProvider _) = True"
| "is_NoProvider _ = False"

fun is_rprovider_exc :: "exc \<Rightarrow> bool" where
  "is_rprovider_exc (NoRProvider _) = True"
| "is_rprovider_exc (MultipleRProvider _) = True"
| "is_rprovider_exc _ = False"

definition add_provider :: "(string \<Rightarrow> string \<Rightarrow> bool res) \<Rightarrow> (string \<Rightarrow> string option) \<Rightarrow> recipe_exec \<Rightarrow> string \<Rightarrow> (td_state, unit) sm" where
  "add_provider re_match getVar exec_func it =
     sbind (scatch (add_provider_internal re_match getVar exec_func it) is_NoProvider (\<lambda>e.
       sbind (sget (\<lambda>(td, dc). td_abort td)) (\<lambda>ab.
         if ab then sraise e else on_fst (remove_buildtarget it)))) (\<lambda>_.
     on_fst (supd (mark_external_target it)))"

section \<open>Resolving all targets\<close>

text \<open>
  One pass of the loop of \<open>add_unresolved\<close> counts the targets for which a provider was
  added.  The loop runs until a pass adds none; with too little fuel the result is \<open>None\<close>.
\<close>

fun scount :: "'x list \<Rightarrow> ('x \<Rightarrow> ('s, bool) sm) \<Rightarrow> ('s, nat) sm" where
  "scount [] f = sret 0"
| "scount (x # xs) f = sbind (f x) (\<lambda>b. sbind (scount xs f) (\<lambda>n. sret (if b then Suc n else n)))"

definition resolve_build :: "(string \<Rightarrow> (td_state, unit) sm) \<Rightarrow> string \<Rightarrow> (td_state, bool) sm" where
  "resolve_build add target =
     scatch (sbind (add target) (\<lambda>_. sret True)) is_NoProvider (\<lambda>e.
       sbind (sget (\<lambda>(td, dc). td)) (\<lambda>td.
         if td_abort td \<and> target \<in> set (external_targets td) \<and> \<not> allowincomplete td then sraise e
         else if \<not> allowincomplete td
           then sbind (on_fst (remove_buildtarget target)) (\<lambda>_. sret False)
           else sret False))"

definition resolve_run :: "(string \<Rightarrow> (td_state, unit) sm) \<Rightarrow> string \<Rightarrow> (td_state, bool) sm" where
  "resolve_run add target =
     scatch (sbind (add target) (\<lambda>_. sret True)) is_rprovider_exc (\<lambda>e.
       sbind (on_fst (remove_runtarget target)) (\<lambda>_. sret False))"

definition resolve_pass :: "(string \<Rightarrow> string \<Rightarrow> bool res) \<Rightarrow> (string \<Rightarrow> (td_state, unit) sm) \<Rightarrow>
    (string \<Rightarrow> (td_state, unit) sm) \<Rightarrow> (td_state, nat) sm" where
  "resolve_pass re_match add_build add_run =
     sbind (sres (get_unresolved_build_targets re_match)) (\<lambda>bs.
     sbind (scount bs (resolve_build add_build)) (\<lambda>n.
     sbind (sres (get_unresolved_run_targets re_match)) (\<lambda>rs.
     sbind (scount rs (resolve_run add_run)) (\<lambda>m. sret (n + m)))))"

fun resolve_loop :: "nat \<Rightarrow> ('s, nat) sm \<Rightarrow> 's \<Rightarrow> (unit res \<times> 's) option" where
  "resolve_loop 0 pass s = None"
| "resolve_loop (Suc n) pass s = (case pass s of
     (Inl e, t) \<Rightarrow> Some (Inl e, t)
   | (Inr added, t) \<Rightarrow> if added = 0 then Some (Inr (), t) else resolve_loop n pass t)"

definition add_unresolved :: "nat \<Rightarrow> (string \<Rightarrow> string \<Rightarrow> bool res) \<Rightarrow> (string \<Rightarrow> string option) \<Rightarrow> recipe_exec \<Rightarrow>
    td_state \<Rightarrow> (unit res \<times> td_state) option" where
  "add_unresolved fuel re_match getVar exec_func =
     resolve_loop fuel (resolve_pass re_match (add_provider_internal re_match getVar exec_func)
       (add_rprovider re_match getVar exec_func))"

end
