(* ===== verification/Task_Data_Facts.thy ===== *)
theory Task_Data_Facts
  imports Task_Data
begin

text \<open>
  The lemmas on the task data: the recursion of \<open>fail_fn\<close> ends within its fuel, it
  fails exactly the files that cannot be built any more, no failed file stays in a list of
  providers, and when \<open>add_unresolved\<close> returns every target has a provider or has been
  given up.
\<close>

section \<open>What failing a file can change\<close>

text \<open>
  Lists of providers only lose elements, and a list that becomes empty has its target among
  the failed ones; what has failed stays failed; the rest is untouched.
\<close>

definition shrinks :: "taskdata \<Rightarrow> taskdata \<Rightarrow> bool" where
  "shrinks s t \<longleftrightarrow>
     keys (build_targets t) = keys (build_targets s) \<and> keys (run_targets t) = keys (run_targets s) \<and>
     depids t = depids s \<and> rdepids t = rdepids s \<and> taskentries t = taskentries s \<and>
     seenfns t = seenfns s \<and> external_targets t = external_targets s \<and>
     td_abort t = td_abort s \<and> allowincomplete t = allowincomplete s \<and>
     set (failed_fns s) \<subseteq> set (failed_fns t) \<and> set (failed_deps s) \<subseteq> set (failed_deps t) \<and>
     set (failed_rdeps s) \<subseteq> set (failed_rdeps t) \<and>
     (\<forall>k. set (bt t k) \<subseteq> set (bt s k) \<and> (distinct (bt s k) \<longrightarrow> distinct (bt t k)) \<and>
       (bt s k \<noteq> [] \<longrightarrow> bt t k \<noteq> [] \<or> k \<in> set (failed_deps t))) \<and>
     (\<forall>k. set (rt t k) \<subseteq> set (rt s k) \<and> (distinct (rt s k) \<longrightarrow> distinct (rt t k)) \<and>
       (rt s k \<noteq> [] \<longrightarrow> rt t k \<noteq> [] \<or> k \<in> set (failed_rdeps t)))"

lemma shrinks_refl: "shrinks s s"
  by (simp add: shrinks_def)

lemma shrinks_trans: "shrinks s t \<Longrightarrow> shrinks t u \<Longrightarrow> shrinks s u"
  unfolding shrinks_def by (elim conjE, intro conjI) (metis subset_trans subsetD)+

lemma shrinksD:
  assumes "shrinks s t"
  shows "keys (build_targets t) = keys (build_targets s)" "keys (run_targets t) = keys (run_targets s)"
    "depids t = depids s" "rdepids t = rdepids s" "taskentries t = taskentries s"
    "seenfns t = seenfns s" "external_targets t = external_targets s" "td_abort t = td_abort s"
    "allowincomplete t = allowincomplete s"
    "f \<in> set (failed_fns s) \<Longrightarrow> f \<in> set (failed_fns t)"
    "d \<in> set (failed_deps s) \<Longrightarrow> d \<in> set (failed_deps t)"
    "d \<in> set (failed_rdeps s) \<Longrightarrow> d \<in> set (failed_rdeps t)"
    "f \<in> set (bt t k) \<Longrightarrow> f \<in> set (bt s k)" "distinct (bt s k) \<Longrightarrow> distinct (bt t k)"
    "bt s k \<noteq> [] \<Longrightarrow> bt t k = [] \<Longrightarrow> k \<in> set (failed_deps t)"
    "f \<in> set (rt t k) \<Longrightarrow> f \<in> set (rt s k)" "distinct (rt s k) \<Longrightarrow> distinct (rt t k)"
    "rt s k \<noteq> [] \<Longrightarrow> rt t k = [] \<Longrightarrow> k \<in> set (failed_rdeps t)"
  using assms unfolding shrinks_def by blast+

interpretation shr: state_preorder shrinks
  by unfold_locales (fact shrinks_refl, fact shrinks_trans)

lemma dependent_fns_shrinks: "shrinks s t \<Longrightarrow> dependent_fns t = dependent_fns s"
  by (simp add: dependent_fns_def shrinksD)

lemma shrinks_failed_deps: "shrinks s (s\<lparr>failed_deps := failed_deps s @ [d]\<rparr>)"
  by (auto simp: shrinks_def)

lemma shrinks_failed_rdeps: "shrinks s (s\<lparr>failed_rdeps := failed_rdeps s @ [d]\<rparr>)"
  by (auto simp: shrinks_def)

lemma shrinks_mark_failed: "shrinks s (mark_failed fn s)"
  by (auto simp: shrinks_def mark_failed_def)

lemma fail_entries_shrinks:
  assumes "\<And>f. shr.keeps (ff f)"
  shows "shr.keeps (fail_entries ff deps target)"
  unfolding fail_entries_def
  by (intro shr.rules) (auto intro!: shr.rules assms split: prod.split)

lemma remove_buildtarget_with_shrinks:
  assumes "\<And>f. shr.keeps (ff f)"
  shows "shr.keeps (remove_buildtarget_with ff target)"
  unfolding remove_buildtarget_with_def
  by (intro shr.rules shr.update assms fail_entries_shrinks shrinks_failed_deps)

lemma remove_runtarget_with_shrinks:
  assumes "\<And>f. shr.keeps (ff f)"
  shows "shr.keeps (remove_runtarget_with ff target)"
  unfolding remove_runtarget_with_def
  by (intro shr.rules shr.update assms fail_entries_shrinks shrinks_failed_rdeps)

text \<open>Dropping the last provider goes with failing the target.\<close>

lemma shrinks_drop_build:
  assumes "fn \<in> set (bt s k)" and "fns = remove1 fn (bt s k)"
    and "fns = [] \<Longrightarrow> k \<in> set fd" and "set (failed_deps s) \<subseteq> set fd"
  shows "shrinks s (s\<lparr>build_targets := dset k fns (build_targets s), failed_deps := fd\<rparr>)"
proof -
  have "k \<in> set (keys (build_targets s))"
    using assms(1) by (rule dget_or_mem)
  with assms show ?thesis
    by (auto simp: shrinks_def keys_dset_mem dest: set_mp [OF set_remove1_subset])
qed

lemma shrinks_drop_run:
  assumes "fn \<in> set (rt s k)" and "fns = remove1 fn (rt s k)"
    and "fns = [] \<Longrightarrow> k \<in> set fd" and "set (failed_rdeps s) \<subseteq> set fd"
  shows "shrinks s (s\<lparr>run_targets := dset k fns (run_targets s), failed_rdeps := fd\<rparr>)"
proof -
  have "k \<in> set (keys (run_targets s))"
    using assms(1) by (rule dget_or_mem)
  with assms show ?thesis
    by (auto simp: shrinks_def keys_dset_mem dest: set_mp [OF set_remove1_subset])
qed

lemma remove_rest_shrinks:
  assumes "\<And>f. shr.keeps (ff f)"
  shows "shrinks (s\<lparr>failed_deps := failed_deps s @ [target]\<rparr>) (snd (remove_buildtarget_with ff target s))"
    and "shrinks (s\<lparr>failed_rdeps := failed_rdeps s @ [target]\<rparr>) (snd (remove_runtarget_with ff target s))"
proof -
  have "shr.keeps (sbind (sget (\<lambda>td. get_dependees td target)) (\<lambda>dependees.
     sbind (sfor dependees ff) (\<lambda>_.
     sbind (fail_entries ff idepends target) (\<lambda>_.
     sbind (sget (\<lambda>td. td_abort td \<and> target \<in> set (external_targets td))) (\<lambda>b.
       if b then sraise (NoProvider target) else sret ())))))"
    by (intro shr.rules assms fail_entries_shrinks)
  then show "shrinks (s\<lparr>failed_deps := failed_deps s @ [target]\<rparr>) (snd (remove_buildtarget_with ff target s))"
    unfolding remove_buildtarget_with_def shr.keeps_def by (simp add: sbind_def [of "supd _"] supd_def)
  have "shr.keeps (sbind (sget (\<lambda>td. get_rdependees td target)) (\<lambda>dependees.
     sbind (sfor dependees ff) (\<lambda>_. fail_entries ff irdepends target)))"
    by (intro shr.rules assms fail_entries_shrinks)
  then show "shrinks (s\<lparr>failed_rdeps := failed_rdeps s @ [target]\<rparr>) (snd (remove_runtarget_with ff target s))"
    unfolding remove_runtarget_with_def shr.keeps_def by (simp add: sbind_def [of "supd _"] supd_def)
qed

lemma drop_build_provider_shrinks:
  assumes "\<And>f. shr.keeps (ff f)"
  shows "shr.keeps (drop_build_provider ff fn k)"
  unfolding shr.keeps_def
proof
  fix s
  let ?fns = "remove1 fn (bt s k)"
  let ?s = "s\<lparr>build_targets := dset k ?fns (build_targets s)\<rparr>"
  show "shrinks s (snd (drop_build_provider ff fn k s))"
  proof (cases "fn \<in> set (bt s k)")
    case False
    then show ?thesis by (simp add: drop_build_provider_def sm_defs shrinks_refl)
  next
    case fn: True
    show ?thesis
    proof (cases "?fns = []")
      case True
      have "shrinks s (?s\<lparr>failed_deps := failed_deps ?s @ [k]\<rparr>)"
        using shrinks_drop_build [OF fn refl, of "failed_deps s @ [k]"] by auto
      from shrinks_trans [OF this remove_rest_shrinks(1) [OF assms]] fn True
      show ?thesis by (simp add: drop_build_provider_def sm_defs)
    next
      case False
      with fn shrinks_drop_build [OF fn refl, of "failed_deps s"] show ?thesis
        by (simp add: drop_build_provider_def sm_defs)
    qed
  qed
qed

lemma drop_run_provider_shrinks:
  assumes "\<And>f. shr.keeps (ff f)"
  shows "shr.keeps (drop_run_provider ff fn k)"
  unfolding shr.keeps_def
proof
  fix s
  let ?fns = "remove1 fn (rt s k)"
  let ?s = "s\<lparr>run_targets := dset k ?fns (run_targets s)\<rparr>"
  show "shrinks s (snd (drop_run_provider ff fn k s))"
  proof (cases "fn \<in> set (rt s k)")
    case False
    then show ?thesis by (simp add: drop_run_provider_def sm_defs shrinks_refl)
  next
    case fn: True
    show ?thesis
    proof (cases "?fns = []")
      case True
      have "shrinks s (?s\<lparr>failed_rdeps := failed_rdeps ?s @ [k]\<rparr>)"
        using shrinks_drop_run [OF fn refl, of "failed_rdeps s @ [k]"] by auto
      from shrinks_trans [OF this remove_rest_shrinks(2) [OF assms]] fn True
      show ?thesis by (simp add: drop_run_provider_def sm_defs)
    next
      case False
      with fn shrinks_drop_run [OF fn refl, of "failed_rdeps s"] show ?thesis
        by (simp add: drop_run_provider_def sm_defs)
    qed
  qed
qed

lemma fail_fn_fuel_shrinks: "shr.keeps (fail_fn_fuel n fn)"
proof (induction n arbitrary: fn)
  case 0
  then show ?case by (simp, intro shr.rules)
next
  case (Suc n)
  then show ?case
    by (simp, intro shr.rules shr.update shrinks_mark_failed drop_build_provider_shrinks drop_run_provider_shrinks)
qed

lemma fail_fn_shrinks: "shr.keeps (fail_fn fn)"
  using fail_fn_fuel_shrinks by (simp add: shr.keeps_def fail_fn_def)

lemma remove_buildtarget_shrinks: "shr.keeps (remove_buildtarget target)"
  using remove_buildtarget_with_shrinks [OF fail_fn_fuel_shrinks]
  by (simp add: shr.keeps_def remove_buildtarget_def)

lemma remove_runtarget_shrinks: "shr.keeps (remove_runtarget target)"
  using remove_runtarget_with_shrinks [OF fail_fn_fuel_shrinks]
  by (simp add: shr.keeps_def remove_runtarget_def)

section \<open>The recursion ends\<close>

text \<open>Every level of the recursion fails one more of the files that can be failed.\<close>

definition fuel_ok :: "string list \<Rightarrow> nat \<Rightarrow> taskdata \<Rightarrow> bool" where
  "fuel_ok D n s \<longleftrightarrow> dependent_fns s = D \<and> card (set D - set (failed_fns s)) \<le> n"

lemma fuel_ok_shrinks:
  assumes "fuel_ok D n s" "shrinks s t"
  shows "fuel_ok D n t"
proof -
  have "card (set D - set (failed_fns t)) \<le> card (set D - set (failed_fns s))"
    by (rule card_mono) (use shrinksD(10) [OF assms(2)] in auto)
  with assms show ?thesis by (simp add: fuel_ok_def dependent_fns_shrinks)
qed

definition safe :: "string list \<Rightarrow> nat \<Rightarrow> (taskdata, 'a) sm \<Rightarrow> bool" where
  "safe D n m \<longleftrightarrow> hoare (fuel_ok D n) m (\<lambda>_. fuel_ok D n) (\<lambda>e _. e \<noteq> OutOfFuel)"

lemma safe_simple:
  "safe D n (sret x)" "e \<noteq> OutOfFuel \<Longrightarrow> safe D n (sraise e)" "safe D n (sget f)"
  "(\<And>s. shrinks s (g s)) \<Longrightarrow> safe D n (supd g)"
  by (auto simp: safe_def intro!: hoare_rules elim: fuel_ok_shrinks)

lemma safe_rules:
  "safe D n m \<Longrightarrow> (\<And>x. safe D n (f x)) \<Longrightarrow> safe D n (sbind m f)"
  "(b \<Longrightarrow> safe D n m) \<Longrightarrow> (\<not> b \<Longrightarrow> safe D n m') \<Longrightarrow> safe D n (if b then m else m')"
  "(\<And>x. x \<in> set xs \<Longrightarrow> safe D n (h x)) \<Longrightarrow> safe D n (sfor xs h)"
  unfolding safe_def by (rule hoare_sbind; assumption) (auto intro: hoare_sfor_inv)

lemma safe_not_OutOfFuel: "safe D n m \<Longrightarrow> fuel_ok D n s \<Longrightarrow> fst (m s) \<noteq> Inl OutOfFuel"
  unfolding safe_def by (cases "m s") (auto dest: hoare_Inl)

lemma safe_read:
  "(\<And>s. fuel_ok D n s \<Longrightarrow> safe D n (f (g s))) \<Longrightarrow> safe D n (sbind (sget g) f)"
  by (auto simp: safe_def hoare_def sbind_def sget_def)

lemma fail_entries_safe:
  assumes "\<And>f. f \<in> set D \<Longrightarrow> safe D n (ff f)"
  shows "safe D n (fail_entries ff deps target)"
  unfolding fail_entries_def
proof (rule safe_read)
  fix s assume "fuel_ok D n s"
  then have "tid_fn tid \<in> set D" if "(tid, e) \<in> set (taskentries s)" for tid e
    using that by (force simp: fuel_ok_def dependent_fns_def keys_def)
  then show "safe D n (sfor (taskentries s) (\<lambda>(tid, e). sfor (deps e) (\<lambda>(idepend, idependtask).
      if idepend = target then ff (tid_fn tid) else sret ())))"
    by (auto intro!: safe_rules safe_simple assms split: prod.split)
qed

lemma remove_with_safe:
  assumes "\<And>f. f \<in> set D \<Longrightarrow> safe D n (ff f)"
  shows "safe D n (remove_buildtarget_with ff target)" and "safe D n (remove_runtarget_with ff target)"
proof -
  have "f \<in> set D" if "fuel_ok D n s" "f \<in> set (get_dependees s target)" for s f
    using that by (auto simp: fuel_ok_def dependent_fns_def get_dependees_def)
  then show "safe D n (remove_buildtarget_with ff target)"
    unfolding remove_buildtarget_with_def
    by (intro safe_rules(1) [OF safe_simple(4)] shrinks_failed_deps)
      (intro safe_read, intro safe_rules safe_simple fail_entries_safe assms, auto)
  have "f \<in> set D" if "fuel_ok D n s" "f \<in> set (get_rdependees s target)" for s f
    using that by (auto simp: fuel_ok_def dependent_fns_def get_rdependees_def)
  then show "safe D n (remove_runtarget_with ff target)"
    unfolding remove_runtarget_with_def
    by (intro safe_rules(1) [OF safe_simple(4)] shrinks_failed_rdeps)
      (intro safe_read, intro safe_rules safe_simple fail_entries_safe assms, auto)
qed

lemma drop_provider_safe:
  assumes "\<And>f. f \<in> set D \<Longrightarrow> safe D n (ff f)"
  shows "safe D n (drop_build_provider ff fn k)" and "safe D n (drop_run_provider ff fn k)"
proof -
  have [simp]: "fuel_ok D n (s\<lparr>build_targets := b\<rparr>) = fuel_ok D n s"
    "fuel_ok D n (s\<lparr>run_targets := b\<rparr>) = fuel_ok D n s" for s b
    by (simp_all add: fuel_ok_def dependent_fns_def)
  have 1: "safe D n (supd (\<lambda>td. td\<lparr>build_targets := f td\<rparr>))"
    "safe D n (supd (\<lambda>td. td\<lparr>run_targets := f td\<rparr>))" for f
    by (auto simp: safe_def intro!: hoare_rules)
  have 2: "safe D n (remove_buildtarget_with ff k)" "safe D n (remove_runtarget_with ff k)"
    by (rule remove_with_safe, erule assms)+
  show "safe D n (drop_build_provider ff fn k)"
    unfolding drop_build_provider_def by (intro safe_rules safe_simple(1,3) 1 2)
  show "safe D n (drop_run_provider ff fn k)"
    unfolding drop_run_provider_def by (intro safe_rules safe_simple(1,3) 1 2)
qed

lemma mark_failed_fuel:
  assumes "fuel_ok D (Suc n) s" "fn \<in> set D" "fn \<notin> set (failed_fns s)"
  shows "fuel_ok D n (mark_failed fn s)"
proof -
  have "set D - set (failed_fns (mark_failed fn s)) = (set D - set (failed_fns s)) - {fn}"
    by (auto simp: mark_failed_def)
  moreover have "card ((set D - set (failed_fns s)) - {fn}) < card (set D - set (failed_fns s))"
    by (rule card_Diff1_less) (use assms(2,3) in auto)
  moreover have "dependent_fns (mark_failed fn s) = dependent_fns s"
    by (simp add: dependent_fns_def mark_failed_def)
  ultimately show ?thesis using assms(1) unfolding fuel_ok_def by (intro conjI) simp_all
qed

text \<open>After the first file has been marked, the rest is a loop over the targets.\<close>

definition fail_loops :: "(string \<Rightarrow> (taskdata, unit) sm) \<Rightarrow> string \<Rightarrow> (taskdata, unit) sm" where
  "fail_loops ff fn = sbind (sget (\<lambda>td. keys (build_targets td))) (\<lambda>bs.
     sbind (sfor bs (drop_build_provider ff fn)) (\<lambda>_.
     sbind (sget (\<lambda>td. keys (run_targets td))) (\<lambda>rs. sfor rs (drop_run_provider ff fn))))"

lemma fail_fn_Suc: "fail_fn_fuel (Suc n) fn s = (if fn \<in> set (failed_fns s) then (Inr (), s)
    else fail_loops (fail_fn_fuel n) fn (mark_failed fn s))"
  by (simp add: fail_loops_def sm_defs)

declare fail_fn_fuel.simps(2) [simp del]

lemma fail_loops_safe:
  "(\<And>f. f \<in> set D \<Longrightarrow> safe D n (ff f)) \<Longrightarrow> safe D n (fail_loops ff fn)"
  unfolding fail_loops_def by (intro safe_rules safe_simple drop_provider_safe; assumption)

lemma fail_fn_fuel_safe: "fn \<in> set D \<Longrightarrow> safe D n (fail_fn_fuel n fn)"
proof (induction n arbitrary: fn)
  case 0
  have "fuel_ok D 0 s \<Longrightarrow> fn \<in> set (failed_fns s)" for s
    using 0 by (auto simp: fuel_ok_def)
  then show ?case by (auto simp: safe_def hoare_def sm_defs)
next
  case (Suc n)
  have mono: "fuel_ok D n s \<Longrightarrow> fuel_ok D (Suc n) s" for s by (simp add: fuel_ok_def)
  have "safe D n (fail_loops (fail_fn_fuel n) fn)" by (intro fail_loops_safe Suc.IH)
  then show ?case
    using mark_failed_fuel [OF _ Suc.prems] mono unfolding safe_def
    by (intro hoare_cases) (auto simp: fail_fn_Suc split: if_splits dest: hoare_Inr hoare_Inl)
qed

lemma fail_fuel_ok: "fuel_ok (dependent_fns s) (length (dependent_fns s)) s"
proof -
  have "card (set (dependent_fns s) - set (failed_fns s)) \<le> card (set (dependent_fns s))"
    by (rule card_mono) auto
  also have "\<dots> \<le> length (dependent_fns s)" by (rule card_length)
  finally show ?thesis by (simp add: fuel_ok_def)
qed

lemma fail_fn_fuel_enough: "fst (fail_fn fn s) \<noteq> Inl OutOfFuel"
proof (cases "fn \<in> set (failed_fns s)")
  case True
  then show ?thesis by (simp add: fail_fn_def fail_fuel_def fail_fn_Suc)
next
  case False
  let ?D = "dependent_fns s" and ?n = "length (dependent_fns s)"
  have "fuel_ok ?D ?n (mark_failed fn s)"
    using fuel_ok_shrinks [OF fail_fuel_ok shrinks_mark_failed] .
  moreover have "safe ?D ?n (fail_loops (fail_fn_fuel ?n) fn)"
    by (intro fail_loops_safe fail_fn_fuel_safe)
  ultimately show ?thesis using False safe_not_OutOfFuel
    by (simp add: fail_fn_def fail_fuel_def fail_fn_Suc)
qed

lemma remove_fuel_enough:
  "fst (remove_buildtarget target s) \<noteq> Inl OutOfFuel" "fst (remove_runtarget target s) \<noteq> Inl OutOfFuel"
proof -
  let ?D = "dependent_fns s"
  have mono: "fuel_ok ?D (Suc (length ?D)) s" using fail_fuel_ok [of s] by (simp add: fuel_ok_def)
  have "safe ?D (fail_fuel s) (remove_buildtarget_with (fail_fn_fuel (fail_fuel s)) target)"
    "safe ?D (fail_fuel s) (remove_runtarget_with (fail_fn_fuel (fail_fuel s)) target)"
    by (intro remove_with_safe fail_fn_fuel_safe; assumption)+
  with mono show "fst (remove_buildtarget target s) \<noteq> Inl OutOfFuel"
    "fst (remove_runtarget target s) \<noteq> Inl OutOfFuel"
    unfolding remove_buildtarget_def remove_runtarget_def fail_fuel_def
    by (simp_all add: safe_not_OutOfFuel)
qed

section \<open>What fails\<close>

text \<open>
  The specification, independent of the order of the loops: a file depends on a build target
  by its dependencies or by those of a task; when \<open>fn0\<close> fails, a target is dead once all
  of its providers, of which it had some, are unbuildable, and what depends on a dead target
  is unbuildable.
\<close>

definition build_dep :: "taskdata \<Rightarrow> string \<Rightarrow> string \<Rightarrow> bool" where
  "build_dep s d f \<longleftrightarrow> d \<in> set (dget_or (depids s) f []) \<or>
     (\<exists>(tid, e) \<in> set (taskentries s). f = tid_fn tid \<and> d \<in> fst ` set (idepends e))"

definition run_dep :: "taskdata \<Rightarrow> string \<Rightarrow> string \<Rightarrow> bool" where
  "run_dep s d f \<longleftrightarrow> d \<in> set (dget_or (rdepids s) f []) \<or>
     (\<exists>(tid, e) \<in> set (taskentries s). f = tid_fn tid \<and> d \<in> fst ` set (irdepends e))"

inductive unbuildable :: "taskdata \<Rightarrow> string \<Rightarrow> string \<Rightarrow> bool" for s fn0 where
  start: "unbuildable s fn0 fn0"
| build: "bt s d \<noteq> [] \<Longrightarrow> (\<And>p. p \<in> set (bt s d) \<Longrightarrow> unbuildable s fn0 p) \<Longrightarrow> build_dep s d f \<Longrightarrow>
    unbuildable s fn0 f"
| run: "rt s d \<noteq> [] \<Longrightarrow> (\<And>p. p \<in> set (rt s d) \<Longrightarrow> unbuildable s fn0 p) \<Longrightarrow> run_dep s d f \<Longrightarrow>
    unbuildable s fn0 f"

lemma deps_shrinks: "shrinks s t \<Longrightarrow> build_dep t = build_dep s \<and> run_dep t = run_dep s"
  by (intro conjI ext) (simp_all add: build_dep_def run_dep_def shrinksD)

lemma dep_entry:
  "(tid, e) \<in> set (taskentries s) \<Longrightarrow> (d, b) \<in> set (idepends e) \<Longrightarrow> build_dep s d (tid_fn tid)"
  "(tid, e) \<in> set (taskentries s) \<Longrightarrow> (d, b) \<in> set (irdepends e) \<Longrightarrow> run_dep s d (tid_fn tid)"
  unfolding build_dep_def run_dep_def by force+

lemma get_dependees_dep: "f \<in> set (get_dependees s d) \<longleftrightarrow> d \<in> set (dget_or (depids s) f [])"
  using dget_or_mem by (auto simp: get_dependees_def)

lemma get_rdependees_dep: "f \<in> set (get_rdependees s d) \<longleftrightarrow> d \<in> set (dget_or (rdepids s) f [])"
  using dget_or_mem by (auto simp: get_rdependees_def)

text \<open>
  Nothing else fails.  The state between: what failed is unbuildable or had failed before,
  and only unbuildable files were dropped from a list.
\<close>

definition sound :: "taskdata \<Rightarrow> string \<Rightarrow> taskdata \<Rightarrow> bool" where
  "sound s fn0 t \<longleftrightarrow> shrinks s t \<and>
     (\<forall>f \<in> set (failed_fns t). f \<in> set (failed_fns s) \<or> unbuildable s fn0 f) \<and>
     (\<forall>k. \<forall>f \<in> set (bt s k) - set (bt t k). unbuildable s fn0 f) \<and>
     (\<forall>k. \<forall>f \<in> set (rt s k) - set (rt t k). unbuildable s fn0 f)"

text \<open>The relation with the fixed first state, and a function that keeps it on such files.\<close>

definition keeps_sound :: "taskdata \<Rightarrow> string \<Rightarrow> (taskdata, 'a) sm \<Rightarrow> bool" where
  "keeps_sound s fn0 m \<longleftrightarrow> hoare (sound s fn0) m (\<lambda>_. sound s fn0) (\<lambda>_ _. True)"

lemma keeps_sound_rules:
  "keeps_sound s fn0 (sret x)" "keeps_sound s fn0 (sraise e)" "keeps_sound s fn0 (sget g)"
  "keeps_sound s fn0 m \<Longrightarrow> (\<And>x. keeps_sound s fn0 (f x)) \<Longrightarrow> keeps_sound s fn0 (sbind m f)"
  "(b \<Longrightarrow> keeps_sound s fn0 m) \<Longrightarrow> (\<not> b \<Longrightarrow> keeps_sound s fn0 m') \<Longrightarrow>
    keeps_sound s fn0 (if b then m else m')"
  "(\<And>x. x \<in> set xs \<Longrightarrow> keeps_sound s fn0 (h x)) \<Longrightarrow> keeps_sound s fn0 (sfor xs h)"
  unfolding keeps_sound_def by (auto intro: hoare_rules hoare_sbind hoare_sfor_inv)

lemma keeps_sound_read:
  "(\<And>t. sound s fn0 t \<Longrightarrow> keeps_sound s fn0 (f (g t))) \<Longrightarrow> keeps_sound s fn0 (sbind (sget g) f)"
  by (auto simp: keeps_sound_def hoare_def sbind_def sget_def)

lemma fail_entries_sound:
  assumes "\<And>f. unbuildable s fn0 f \<Longrightarrow> keeps_sound s fn0 (ff f)"
    and "\<And>tid e. (tid, e) \<in> set (taskentries s) \<Longrightarrow> target \<in> fst ` set (deps e) \<Longrightarrow>
      unbuildable s fn0 (tid_fn tid)"
  shows "keeps_sound s fn0 (fail_entries ff deps target)"
  unfolding fail_entries_def
proof (rule keeps_sound_read)
  fix t assume "sound s fn0 t"
  then have t: "taskentries t = taskentries s" by (simp add: sound_def shrinksD)
  show "keeps_sound s fn0 (sfor (taskentries t) (\<lambda>(tid, e). sfor (deps e) (\<lambda>(idepend, idependtask).
      if idepend = target then ff (tid_fn tid) else sret ())))"
    using assms(2) by (auto simp: t intro!: keeps_sound_rules assms(1) split: prod.split) force
qed

lemma remove_with_sound:
  assumes "\<And>f. unbuildable s fn0 f \<Longrightarrow> keeps_sound s fn0 (ff f)"
  shows "bt s d \<noteq> [] \<Longrightarrow> (\<And>p. p \<in> set (bt s d) \<Longrightarrow> unbuildable s fn0 p) \<Longrightarrow>
      hoare (\<lambda>t. sound s fn0 (t\<lparr>failed_deps := failed_deps t @ [d]\<rparr>)) (remove_buildtarget_with ff d)
        (\<lambda>_. sound s fn0) (\<lambda>_ _. True)"
    and "rt s d \<noteq> [] \<Longrightarrow> (\<And>p. p \<in> set (rt s d) \<Longrightarrow> unbuildable s fn0 p) \<Longrightarrow>
      hoare (\<lambda>t. sound s fn0 (t\<lparr>failed_rdeps := failed_rdeps t @ [d]\<rparr>)) (remove_runtarget_with ff d)
        (\<lambda>_. sound s fn0) (\<lambda>_ _. True)"
proof -
  assume d: "bt s d \<noteq> []" "\<And>p. p \<in> set (bt s d) \<Longrightarrow> unbuildable s fn0 p"
  have unb: "build_dep s d f \<Longrightarrow> unbuildable s fn0 f" for f by (rule unbuildable.build [OF d])
  have ent: "unbuildable s fn0 (tid_fn tid)"
    if "(tid, e) \<in> set (taskentries s)" "d \<in> fst ` set (idepends e)" for tid e
    using that unb dep_entry(1) by force
  have "keeps_sound s fn0 (sbind (sget (\<lambda>td. get_dependees td d)) (\<lambda>dependees.
     sbind (sfor dependees ff) (\<lambda>_.
     sbind (fail_entries ff idepends d) (\<lambda>_.
     sbind (sget (\<lambda>td. td_abort td \<and> d \<in> set (external_targets td))) (\<lambda>b.
       if b then sraise (NoProvider d) else sret ())))))"
  proof (rule keeps_sound_read)
    fix t assume "sound s fn0 t"
    then have "f \<in> set (get_dependees t d) \<Longrightarrow> unbuildable s fn0 f" for f
      by (intro unb) (auto simp: get_dependees_dep build_dep_def sound_def shrinksD)
    then show "keeps_sound s fn0 (sbind (sfor (get_dependees t d) ff) (\<lambda>_.
       sbind (fail_entries ff idepends d) (\<lambda>_.
       sbind (sget (\<lambda>td. td_abort td \<and> d \<in> set (external_targets td))) (\<lambda>b.
         if b then sraise (NoProvider d) else sret ()))))"
      by (intro keeps_sound_rules fail_entries_sound assms ent)
  qed
  then show "hoare (\<lambda>t. sound s fn0 (t\<lparr>failed_deps := failed_deps t @ [d]\<rparr>)) (remove_buildtarget_with ff d)
        (\<lambda>_. sound s fn0) (\<lambda>_ _. True)"
    unfolding remove_buildtarget_with_def keeps_sound_def by (rule hoare_supd_bind)
next
  assume d: "rt s d \<noteq> []" "\<And>p. p \<in> set (rt s d) \<Longrightarrow> unbuildable s fn0 p"
  have unb: "run_dep s d f \<Longrightarrow> unbuildable s fn0 f" for f by (rule unbuildable.run [OF d])
  have ent: "unbuildable s fn0 (tid_fn tid)"
    if "(tid, e) \<in> set (taskentries s)" "d \<in> fst ` set (irdepends e)" for tid e
    using that unb dep_entry(2) by force
  have "keeps_sound s fn0 (sbind (sget (\<lambda>td. get_rdependees td d)) (\<lambda>dependees.
     sbind (sfor dependees ff) (\<lambda>_. fail_entries ff irdepends d)))"
  proof (rule keeps_sound_read)
    fix t assume "sound s fn0 t"
    then have "f \<in> set (get_rdependees t d) \<Longrightarrow> unbuildable s fn0 f" for f
      by (intro unb) (auto simp: get_rdependees_dep run_dep_def sound_def shrinksD)
    then show "keeps_sound s fn0 (sbind (sfor (get_rdependees t d) ff) (\<lambda>_. fail_entries ff irdepends d))"
      by (intro keeps_sound_rules fail_entries_sound assms ent)
  qed
  then show "hoare (\<lambda>t. sound s fn0 (t\<lparr>failed_rdeps := failed_rdeps t @ [d]\<rparr>)) (remove_runtarget_with ff d)
        (\<lambda>_. sound s fn0) (\<lambda>_ _. True)"
    unfolding remove_runtarget_with_def keeps_sound_def by (rule hoare_supd_bind)
qed

text \<open>Dropping one unbuildable provider.\<close>

lemma sound_drop:
  assumes "sound s fn0 t" "unbuildable s fn0 fn"
  shows "fn \<in> set (bt t k) \<Longrightarrow> (remove1 fn (bt t k) = [] \<Longrightarrow> k \<in> set fd) \<Longrightarrow>
      set (failed_deps t) \<subseteq> set fd \<Longrightarrow>
      sound s fn0 (t\<lparr>build_targets := dset k (remove1 fn (bt t k)) (build_targets t), failed_deps := fd\<rparr>)"
    and "fn \<in> set (rt t k) \<Longrightarrow> (remove1 fn (rt t k) = [] \<Longrightarrow> k \<in> set fd) \<Longrightarrow>
      set (failed_rdeps t) \<subseteq> set fd \<Longrightarrow>
      sound s fn0 (t\<lparr>run_targets := dset k (remove1 fn (rt t k)) (run_targets t), failed_rdeps := fd\<rparr>)"
proof -
  have in_rm: "g \<in> set xs \<Longrightarrow> g \<notin> set (remove1 fn xs) \<Longrightarrow> g = fn" for g xs
    by (metis in_set_remove1)
  have s: "shrinks s t" "\<And>f. f \<in> set (failed_fns t) \<Longrightarrow> f \<in> set (failed_fns s) \<or> unbuildable s fn0 f"
    "\<And>k f. f \<in> set (bt s k) \<Longrightarrow> f \<notin> set (bt t k) \<Longrightarrow> unbuildable s fn0 f"
    "\<And>k f. f \<in> set (rt s k) \<Longrightarrow> f \<notin> set (rt t k) \<Longrightarrow> unbuildable s fn0 f"
    using assms(1) unfolding sound_def by blast+
  {
    assume a: "fn \<in> set (bt t k)" "remove1 fn (bt t k) = [] \<Longrightarrow> k \<in> set fd"
      "set (failed_deps t) \<subseteq> set fd"
    show "sound s fn0 (t\<lparr>build_targets := dset k (remove1 fn (bt t k)) (build_targets t), failed_deps := fd\<rparr>)"
      unfolding sound_def using shrinks_trans [OF s(1) shrinks_drop_build [OF a(1) refl a(2,3)]]
        s(2-4) in_rm assms(2) by (auto split: if_splits) blast
  next
    assume a: "fn \<in> set (rt t k)" "remove1 fn (rt t k) = [] \<Longrightarrow> k \<in> set fd"
      "set (failed_rdeps t) \<subseteq> set fd"
    show "sound s fn0 (t\<lparr>run_targets := dset k (remove1 fn (rt t k)) (run_targets t), failed_rdeps := fd\<rparr>)"
      unfolding sound_def using shrinks_trans [OF s(1) shrinks_drop_run [OF a(1) refl a(2,3)]]
        s(2-4) in_rm assms(2) by (auto split: if_splits) blast
  }
qed

lemma drop_build_provider_eq:
  "drop_build_provider ff fn k t = (if fn \<notin> set (bt t k) then (Inr (), t)
    else if remove1 fn (bt t k) = []
      then remove_buildtarget_with ff k (t\<lparr>build_targets := dset k (remove1 fn (bt t k)) (build_targets t)\<rparr>)
    else (Inr (), t\<lparr>build_targets := dset k (remove1 fn (bt t k)) (build_targets t)\<rparr>))"
  by (simp add: drop_build_provider_def sm_defs)

lemma drop_run_provider_eq:
  "drop_run_provider ff fn k t = (if fn \<notin> set (rt t k) then (Inr (), t)
    else if remove1 fn (rt t k) = []
      then remove_runtarget_with ff k (t\<lparr>run_targets := dset k (remove1 fn (rt t k)) (run_targets t)\<rparr>)
    else (Inr (), t\<lparr>run_targets := dset k (remove1 fn (rt t k)) (run_targets t)\<rparr>))"
  by (simp add: drop_run_provider_def sm_defs)

lemma remove1_Nil: "remove1 x xs = [] \<Longrightarrow> set xs \<subseteq> {x}"
  by (metis in_set_remove1 insertI1 empty_iff list.set(1) singletonD subsetI insert_iff)

lemma drop_provider_sound:
  assumes ff: "\<And>f. unbuildable s fn0 f \<Longrightarrow> keeps_sound s fn0 (ff f)" and fn: "unbuildable s fn0 fn"
  shows "keeps_sound s fn0 (drop_build_provider ff fn k)" "keeps_sound s fn0 (drop_run_provider ff fn k)"
proof -
  show "keeps_sound s fn0 (drop_build_provider ff fn k)"
    unfolding keeps_sound_def
  proof (rule hoare_cases)
    fix t u x assume t: "sound s fn0 t" and u: "drop_build_provider ff fn k t = (Inr x, u)"
    let ?t = "t\<lparr>build_targets := dset k (remove1 fn (bt t k)) (build_targets t)\<rparr>"
    consider "fn \<notin> set (bt t k)" | "fn \<in> set (bt t k)" "remove1 fn (bt t k) \<noteq> []"
      | "fn \<in> set (bt t k)" "remove1 fn (bt t k) = []" by blast
    then show "sound s fn0 u"
    proof cases
      case 1
      with t u show ?thesis by (simp add: drop_build_provider_eq)
    next
      case 2
      with u sound_drop(1) [OF t fn 2(1), of "failed_deps t"] show ?thesis
        by (auto simp: drop_build_provider_eq)
    next
      case 3
      have "unbuildable s fn0 p" if "p \<in> set (bt s k)" for p
        using that t remove1_Nil [OF 3(2)] fn unfolding sound_def by blast
      moreover have "bt s k \<noteq> []" using t 3(1) by (auto simp: sound_def dest!: shrinksD(13))
      moreover have "sound s fn0 (?t\<lparr>failed_deps := failed_deps ?t @ [k]\<rparr>)"
        using sound_drop(1) [OF t fn 3(1), of "failed_deps t @ [k]"] by auto
      ultimately show ?thesis
        using hoare_Inr [OF remove_with_sound(1) [of s fn0 ff k], of ?t x u, OF ff] u 3
        by (simp add: drop_build_provider_eq)
    qed
  qed simp
  show "keeps_sound s fn0 (drop_run_provider ff fn k)"
    unfolding keeps_sound_def
  proof (rule hoare_cases)
    fix t u x assume t: "sound s fn0 t" and u: "drop_run_provider ff fn k t = (Inr x, u)"
    let ?t = "t\<lparr>run_targets := dset k (remove1 fn (rt t k)) (run_targets t)\<rparr>"
    consider "fn \<notin> set (rt t k)" | "fn \<in> set (rt t k)" "remove1 fn (rt t k) \<noteq> []"
      | "fn \<in> set (rt t k)" "remove1 fn (rt t k) = []" by blast
    then show "sound s fn0 u"
    proof cases
      case 1
      with t u show ?thesis by (simp add: drop_run_provider_eq)
    next
      case 2
      with u sound_drop(2) [OF t fn 2(1), of "failed_rdeps t"] show ?thesis
        by (auto simp: drop_run_provider_eq)
    next
      case 3
      have "unbuildable s fn0 p" if "p \<in> set (rt s k)" for p
        using that t remove1_Nil [OF 3(2)] fn unfolding sound_def by blast
      moreover have "rt s k \<noteq> []" using t 3(1) by (auto simp: sound_def dest!: shrinksD(16))
      moreover have "sound s fn0 (?t\<lparr>failed_rdeps := failed_rdeps ?t @ [k]\<rparr>)"
        using sound_drop(2) [OF t fn 3(1), of "failed_rdeps t @ [k]"] by auto
      ultimately show ?thesis
        using hoare_Inr [OF remove_with_sound(2) [of s fn0 ff k], of ?t x u, OF ff] u 3
        by (simp add: drop_run_provider_eq)
    qed
  qed simp
qed

lemma fail_loops_sound:
  "(\<And>f. unbuildable s fn0 f \<Longrightarrow> keeps_sound s fn0 (ff f)) \<Longrightarrow> unbuildable s fn0 fn \<Longrightarrow>
    keeps_sound s fn0 (fail_loops ff fn)"
  unfolding fail_loops_def by (intro keeps_sound_rules(4) [OF keeps_sound_rules(3)]
    keeps_sound_rules(4,6) drop_provider_sound; assumption)

lemma sound_mark_failed: "sound s fn0 t \<Longrightarrow> unbuildable s fn0 fn \<Longrightarrow> sound s fn0 (mark_failed fn t)"
  using shrinks_trans [OF _ shrinks_mark_failed] by (auto simp: sound_def mark_failed_def)

lemma fail_fn_fuel_sound: "unbuildable s fn0 fn \<Longrightarrow> keeps_sound s fn0 (fail_fn_fuel n fn)"
proof (induction n arbitrary: fn)
  case 0
  then show ?case by (simp, intro keeps_sound_rules)
next
  case (Suc n)
  have "keeps_sound s fn0 (fail_loops (fail_fn_fuel n) fn)" by (intro fail_loops_sound Suc)
  then show ?case using sound_mark_failed [OF _ Suc.prems] unfolding keeps_sound_def
    by (intro hoare_cases) (auto simp: fail_fn_Suc split: if_splits dest: hoare_Inr)
qed

lemma sound_refl: "sound s fn0 s"
  by (simp add: sound_def shrinks_refl)

text \<open>
  Everything unbuildable fails.  The state between, while the files of \<open>A\<close> are being
  dropped and what depends on the targets of \<open>B\<close> and \<open>C\<close> is being failed; the files of
  \<open>F\<close> have failed.
\<close>

definition clean :: "string set \<Rightarrow> taskdata \<Rightarrow> bool" where
  "clean A s \<longleftrightarrow> (\<forall>k. distinct (bt s k) \<and> distinct (rt s k) \<and>
     (\<forall>f \<in> set (failed_fns s) - A. f \<notin> set (bt s k) \<and> f \<notin> set (rt s k)))"

definition gone_build :: "taskdata \<Rightarrow> taskdata \<Rightarrow> string \<Rightarrow> bool" where
  "gone_build s t d \<longleftrightarrow> d \<in> set (failed_deps t) - set (failed_deps s) \<or> bt s d \<noteq> [] \<and> bt t d = []"

definition gone_run :: "taskdata \<Rightarrow> taskdata \<Rightarrow> string \<Rightarrow> bool" where
  "gone_run s t d \<longleftrightarrow> d \<in> set (failed_rdeps t) - set (failed_rdeps s) \<or> rt s d \<noteq> [] \<and> rt t d = []"

definition complete :: "taskdata \<Rightarrow> string set \<Rightarrow> string set \<Rightarrow> string set \<Rightarrow> string set \<Rightarrow> taskdata \<Rightarrow> bool" where
  "complete s A B C F t \<longleftrightarrow> shrinks s t \<and> clean A t \<and> F \<subseteq> set (failed_fns t) \<and>
     (\<forall>d f. d \<notin> B \<longrightarrow> gone_build s t d \<longrightarrow> build_dep s d f \<longrightarrow> f \<in> set (failed_fns t)) \<and>
     (\<forall>d f. d \<notin> C \<longrightarrow> gone_run s t d \<longrightarrow> run_dep s d f \<longrightarrow> f \<in> set (failed_fns t))"

text \<open>A function that fails its file.\<close>

definition fails :: "taskdata \<Rightarrow> (string \<Rightarrow> (taskdata, unit) sm) \<Rightarrow> bool" where
  "fails s ff \<longleftrightarrow> (\<forall>A B C F f. hoare (complete s A B C F) (ff f)
     (\<lambda>_. complete s A B C (insert f F)) (\<lambda>_ _. True))"

lemma failsD: "fails s ff \<Longrightarrow> hoare (complete s A B C F) (ff f) (\<lambda>_. complete s A B C (insert f F)) (\<lambda>_ _. True)"
  by (simp add: fails_def)

lemma complete_mono: "complete s A B C F t \<Longrightarrow> G \<subseteq> F \<Longrightarrow> complete s A B C G t"
  by (auto simp: complete_def)

lemma fails_loop:
  assumes "fails s ff"
  shows "hoare (complete s A B C F) (sfor fs ff) (\<lambda>_. complete s A B C (F \<union> set fs)) (\<lambda>_ _. True)"
  using hoare_sfor [of fs "\<lambda>ys. complete s A B C (F \<union> set ys)" ff "\<lambda>_ _. True"] failsD [OF assms]
  by simp

definition entry_fns :: "(task_entry \<Rightarrow> (string \<times> string) list) \<Rightarrow> string \<Rightarrow> (string \<times> task_entry) list \<Rightarrow>
    string set" where
  "entry_fns deps d es = {tid_fn tid | tid e. (tid, e) \<in> set es \<and> d \<in> fst ` set (deps e)}"

lemma entry_fns_simps [simp]:
  "entry_fns deps d [] = {}"
  "entry_fns deps d (es @ [(tid, e)]) =
    entry_fns deps d es \<union> (if d \<in> fst ` set (deps e) then {tid_fn tid} else {})"
  by (auto simp: entry_fns_def)

lemma fail_entries_complete:
  assumes "fails s ff"
  shows "hoare (complete s A B C F) (fail_entries ff deps d)
    (\<lambda>_. complete s A B C (F \<union> entry_fns deps d (taskentries s))) (\<lambda>_ _. True)"
proof -
  let ?body = "\<lambda>(tid, e). sfor (deps e) (\<lambda>(idepend, idependtask).
      if idepend = d then ff (tid_fn tid) else sret ())"
  have inner: "hoare (complete s A B C G) (sfor xs (\<lambda>(idepend, idependtask).
      if idepend = d then ff f else sret ()))
      (\<lambda>_. complete s A B C (G \<union> (if d \<in> fst ` set xs then {f} else {}))) (\<lambda>_ _. True)"
    for G f and xs :: "(string \<times> string) list"
  proof -
    have "hoare (complete s A B C (G \<union> (if d \<in> fst ` set ys then {f} else {})))
        (case x of (idepend, idependtask) \<Rightarrow> if idepend = d then ff f else sret ())
        (\<lambda>_. complete s A B C (G \<union> (if d \<in> fst ` set (ys @ [x]) then {f} else {}))) (\<lambda>_ _. True)"
      for ys x
    proof (cases x)
      case (Pair a b)
      show ?thesis
      proof (cases "a = d")
        case True
        have "hoare (complete s A B C (G \<union> (if d \<in> fst ` set ys then {f} else {}))) (ff f)
          (\<lambda>_. complete s A B C (insert f (G \<union> (if d \<in> fst ` set ys then {f} else {})))) (\<lambda>_ _. True)"
          by (rule failsD [OF assms])
        moreover have "insert f (G \<union> (if d \<in> fst ` set ys then {f} else {})) = G \<union> {f}" by auto
        ultimately show ?thesis using True Pair by simp
      next
        case False
        then show ?thesis using Pair by (auto simp: hoare_def sret_def)
      qed
    qed
    from hoare_sfor [where P = "\<lambda>ys. complete s A B C (G \<union> (if d \<in> fst ` set ys then {f} else {}))", OF this]
    show ?thesis by (simp only: list.set image_empty empty_iff if_False Un_empty_right)
  qed
  have "hoare (complete s A B C F) (sfor es ?body)
      (\<lambda>_. complete s A B C (F \<union> entry_fns deps d es)) (\<lambda>_ _. True)" for es
  proof -
    have "hoare (complete s A B C (F \<union> entry_fns deps d ys)) (?body x)
        (\<lambda>_. complete s A B C (F \<union> entry_fns deps d (ys @ [x]))) (\<lambda>_ _. True)" for ys x
    proof (cases x)
      case (Pair tid e)
      from inner [of "F \<union> entry_fns deps d ys" "deps e" "tid_fn tid"] show ?thesis
        unfolding Pair by (simp only: prod.case entry_fns_simps Un_assoc)
    qed
    from hoare_sfor [where P = "\<lambda>ys. complete s A B C (F \<union> entry_fns deps d ys)", OF this]
    show ?thesis by simp
  qed
  moreover have "complete s A B C F t \<Longrightarrow> taskentries t = taskentries s" for t
    by (simp add: complete_def shrinksD)
  ultimately show ?thesis
    unfolding fail_entries_def by (auto simp: hoare_def sbind_def sget_def)
qed

text \<open>When all that depends on a target has failed, it is done.\<close>

lemma complete_done:
  assumes "complete s A (insert d B) C F t" "\<And>f. build_dep s d f \<Longrightarrow> f \<in> F"
  shows "complete s A B C F t"
proof -
  have "f \<in> set (failed_fns t)" if "e \<notin> B" "gone_build s t e" "build_dep s e f" for e f
    using assms that unfolding complete_def by (cases "e = d") blast+
  then show ?thesis using assms(1) unfolding complete_def by blast
qed

lemma complete_done_run:
  assumes "complete s A B (insert d C) F t" "\<And>f. run_dep s d f \<Longrightarrow> f \<in> F"
  shows "complete s A B C F t"
proof -
  have "f \<in> set (failed_fns t)" if "e \<notin> C" "gone_run s t e" "run_dep s e f" for e f
    using assms that unfolding complete_def by (cases "e = d") blast+
  then show ?thesis using assms(1) unfolding complete_def by blast
qed

lemma remove_with_complete:
  assumes "fails s ff"
  shows "hoare (\<lambda>t. complete s A (insert d B) C F (t\<lparr>failed_deps := failed_deps t @ [d]\<rparr>))
      (remove_buildtarget_with ff d) (\<lambda>_. complete s A B C F) (\<lambda>_ _. True)"
    and "hoare (\<lambda>t. complete s A B (insert d C) F (t\<lparr>failed_rdeps := failed_rdeps t @ [d]\<rparr>))
      (remove_runtarget_with ff d) (\<lambda>_. complete s A B C F) (\<lambda>_ _. True)"
proof -
  have deps: "set (get_dependees t d) \<union> entry_fns idepends d (taskentries s) = {f. build_dep s d f}"
    "set (get_rdependees t d) \<union> entry_fns irdepends d (taskentries s) = {f. run_dep s d f}"
    if "complete s A' B' C' F' t" for t A' B' C' F'
    using that by (auto simp: complete_def shrinksD get_dependees_dep get_rdependees_dep
        build_dep_def run_dep_def entry_fns_def)
  show "hoare (\<lambda>t. complete s A (insert d B) C F (t\<lparr>failed_deps := failed_deps t @ [d]\<rparr>))
      (remove_buildtarget_with ff d) (\<lambda>_. complete s A B C F) (\<lambda>_ _. True)"
    unfolding remove_buildtarget_with_def
  proof (rule hoare_supd_bind [where P' = "complete s A (insert d B) C F"],
      rule hoare_sget_bind, rule hoare_fact, goal_cases)
    case (1 ds t)
    let ?F = "F \<union> set ds \<union> entry_fns idepends d (taskentries s)"
    from 1 have ds: "ds = get_dependees t d" and k: "complete s A (insert d B) C F t" by simp_all
    have "?F = F \<union> {f. build_dep s d f}" using deps(1) [OF k] by (simp only: ds Un_assoc)
    then have "build_dep s d f \<Longrightarrow> f \<in> ?F" for f by blast
    from complete_mono [OF complete_done [OF _ this]]
    have fin: "complete s A (insert d B) C ?F u \<Longrightarrow> complete s A B C F u" for u by blast
    show ?case
      by (rule hoare_pre [OF hoare_sbind [OF fails_loop [OF assms]
          hoare_sbind [OF fail_entries_complete [OF assms] hoare_sget_bind]]])
        (auto intro!: hoare_rules fin)
  qed
  show "hoare (\<lambda>t. complete s A B (insert d C) F (t\<lparr>failed_rdeps := failed_rdeps t @ [d]\<rparr>))
      (remove_runtarget_with ff d) (\<lambda>_. complete s A B C F) (\<lambda>_ _. True)"
    unfolding remove_runtarget_with_def
  proof (rule hoare_supd_bind [where P' = "complete s A B (insert d C) F"],
      rule hoare_sget_bind, rule hoare_fact, goal_cases)
    case (1 ds t)
    let ?F = "F \<union> set ds \<union> entry_fns irdepends d (taskentries s)"
    from 1 have ds: "ds = get_rdependees t d" and k: "complete s A B (insert d C) F t" by simp_all
    have "?F = F \<union> {f. run_dep s d f}" using deps(2) [OF k] by (simp only: ds Un_assoc)
    then have "run_dep s d f \<Longrightarrow> f \<in> ?F" for f by blast
    from complete_mono [OF complete_done_run [OF _ this]]
    have fin: "complete s A B (insert d C) ?F u \<Longrightarrow> complete s A B C F u" for u by blast
    show ?case
      by (rule hoare_weaken [OF hoare_sbind [OF fails_loop [OF assms]
          fail_entries_complete [OF assms]]]) (auto intro: fin)
  qed
qed

text \<open>Dropping a failed file from the list of one target.\<close>

lemma complete_drop_build:
  assumes c: "complete s A B C F t" and fn: "fn \<in> set (bt t k)"
    and fd: "remove1 fn (bt t k) = [] \<Longrightarrow> fd = failed_deps t @ [k] \<and> B' = insert k B"
      "remove1 fn (bt t k) \<noteq> [] \<Longrightarrow> fd = failed_deps t \<and> B' = B"
  shows "complete s A B' C F (t\<lparr>build_targets := dset k (remove1 fn (bt t k)) (build_targets t),
    failed_deps := fd\<rparr>)" (is "complete s A B' C F ?u")
proof -
  have sh: "shrinks s ?u"
  proof -
    have "k \<in> set fd" if "remove1 fn (bt t k) = []" using fd(1) [OF that] by simp
    moreover have "set (failed_deps t) \<subseteq> set fd" using fd by (cases "remove1 fn (bt t k) = []") auto
    ultimately show ?thesis using c shrinks_trans [OF _ shrinks_drop_build [OF fn refl]]
      by (simp add: complete_def)
  qed
  have cl: "clean A ?u"
    using c by (auto simp: complete_def clean_def dest: notin_set_remove1)
  have "f \<in> set (failed_fns ?u)" if "d \<notin> B'" "gone_build s ?u d" "build_dep s d f" for d f
  proof (cases "d = k")
    case True
    with that(1) fd have ne: "remove1 fn (bt t k) \<noteq> []" "fd = failed_deps t" "d \<notin> B" by blast+
    with that(2) True have "gone_build s t d" by (simp add: gone_build_def)
    with c that(3) ne(3) have "f \<in> set (failed_fns t)" unfolding complete_def by blast
    then show ?thesis by simp
  next
    case False
    then have "d \<in> set fd \<longrightarrow> d \<in> set (failed_deps t)" "d \<notin> B"
      using fd that(1) by (cases "remove1 fn (bt t k) = []"; simp)+
    with that(2) False have "gone_build s t d" by (auto simp: gone_build_def)
    with c that(3) \<open>d \<notin> B\<close> have "f \<in> set (failed_fns t)" unfolding complete_def by blast
    then show ?thesis by simp
  qed
  with c sh cl show ?thesis by (auto simp: complete_def gone_run_def)
qed

lemma complete_drop_run:
  assumes c: "complete s A B C F t" and fn: "fn \<in> set (rt t k)"
    and fd: "remove1 fn (rt t k) = [] \<Longrightarrow> fd = failed_rdeps t @ [k] \<and> C' = insert k C"
      "remove1 fn (rt t k) \<noteq> [] \<Longrightarrow> fd = failed_rdeps t \<and> C' = C"
  shows "complete s A B C' F (t\<lparr>run_targets := dset k (remove1 fn (rt t k)) (run_targets t),
    failed_rdeps := fd\<rparr>)" (is "complete s A B C' F ?u")
proof -
  have sh: "shrinks s ?u"
  proof -
    have "k \<in> set fd" if "remove1 fn (rt t k) = []" using fd(1) [OF that] by simp
    moreover have "set (failed_rdeps t) \<subseteq> set fd" using fd by (cases "remove1 fn (rt t k) = []") auto
    ultimately show ?thesis using c shrinks_trans [OF _ shrinks_drop_run [OF fn refl]]
      by (simp add: complete_def)
  qed
  have cl: "clean A ?u"
    using c by (auto simp: complete_def clean_def dest: notin_set_remove1)
  have "f \<in> set (failed_fns ?u)" if "d \<notin> C'" "gone_run s ?u d" "run_dep s d f" for d f
  proof (cases "d = k")
    case True
    with that(1) fd have ne: "remove1 fn (rt t k) \<noteq> []" "fd = failed_rdeps t" "d \<notin> C" by blast+
    with that(2) True have "gone_run s t d" by (simp add: gone_run_def)
    with c that(3) ne(3) have "f \<in> set (failed_fns t)" unfolding complete_def by blast
    then show ?thesis by simp
  next
    case False
    then have "d \<in> set fd \<longrightarrow> d \<in> set (failed_rdeps t)" "d \<notin> C"
      using fd that(1) by (cases "remove1 fn (rt t k) = []"; simp)+
    with that(2) False have "gone_run s t d" by (auto simp: gone_run_def)
    with c that(3) \<open>d \<notin> C\<close> have "f \<in> set (failed_fns t)" unfolding complete_def by blast
    then show ?thesis by simp
  qed
  with c sh cl show ?thesis by (auto simp: complete_def gone_build_def)
qed

lemma notin_remove1: "distinct xs \<Longrightarrow> x \<notin> set (remove1 x xs)"
  by simp

lemma drop_build_provider_complete:
  assumes ff: "fails s ff" "\<And>f. shr.keeps (ff f)"
  shows "hoare (complete s A B C F) (drop_build_provider ff fn k)
    (\<lambda>_ t. complete s A B C F t \<and> fn \<notin> set (bt t k)) (\<lambda>_ _. True)"
proof (rule hoare_cases)
  fix t u x assume t: "complete s A B C F t" and u: "drop_build_provider ff fn k t = (Inr x, u)"
  let ?t = "t\<lparr>build_targets := dset k (remove1 fn (bt t k)) (build_targets t)\<rparr>"
  have d: "fn \<notin> set (bt ?t k)" using t by (simp add: complete_def clean_def)
  consider "fn \<notin> set (bt t k)" | "fn \<in> set (bt t k)" "remove1 fn (bt t k) \<noteq> []"
    | "fn \<in> set (bt t k)" "remove1 fn (bt t k) = []" by blast
  then show "complete s A B C F u \<and> fn \<notin> set (bt u k)"
  proof cases
    case 1
    with t u show ?thesis by (simp add: drop_build_provider_eq)
  next
    case 2
    from 2 have r: "u = ?t" using u by (simp add: drop_build_provider_eq)
    have "complete s A B C F ?t"
    proof -
      have "complete s A B C F (t\<lparr>build_targets := dset k (remove1 fn (bt t k)) (build_targets t),
          failed_deps := failed_deps t\<rparr>)"
        by (rule complete_drop_build [OF t 2(1)]) (use 2(2) in auto)
      then show ?thesis by simp
    qed
    with d r show ?thesis by simp
  next
    case 3
    with u have r: "remove_buildtarget_with ff k ?t = (Inr x, u)" by (simp add: drop_build_provider_eq)
    have "complete s A (insert k B) C F (?t\<lparr>failed_deps := failed_deps ?t @ [k]\<rparr>)"
      using complete_drop_build [OF t 3(1), of "failed_deps t @ [k]" "insert k B"] 3(2) by auto
    from hoare_Inr [OF remove_with_complete(1) [OF ff(1)] this r]
    have "complete s A B C F u" .
    moreover have "shrinks (?t\<lparr>failed_deps := failed_deps ?t @ [k]\<rparr>) u"
      using remove_rest_shrinks(1) [of ff ?t k, OF ff(2)] r by simp
    then have "fn \<notin> set (bt u k)" using shrinksD(13) d by fastforce
    ultimately show ?thesis by simp
  qed
qed simp

lemma drop_run_provider_complete:
  assumes ff: "fails s ff" "\<And>f. shr.keeps (ff f)"
  shows "hoare (complete s A B C F) (drop_run_provider ff fn k)
    (\<lambda>_ t. complete s A B C F t \<and> fn \<notin> set (rt t k)) (\<lambda>_ _. True)"
proof (rule hoare_cases)
  fix t u x assume t: "complete s A B C F t" and u: "drop_run_provider ff fn k t = (Inr x, u)"
  let ?t = "t\<lparr>run_targets := dset k (remove1 fn (rt t k)) (run_targets t)\<rparr>"
  have d: "fn \<notin> set (rt ?t k)" using t by (simp add: complete_def clean_def)
  consider "fn \<notin> set (rt t k)" | "fn \<in> set (rt t k)" "remove1 fn (rt t k) \<noteq> []"
    | "fn \<in> set (rt t k)" "remove1 fn (rt t k) = []" by blast
  then show "complete s A B C F u \<and> fn \<notin> set (rt u k)"
  proof cases
    case 1
    with t u show ?thesis by (simp add: drop_run_provider_eq)
  next
    case 2
    from 2 have r: "u = ?t" using u by (simp add: drop_run_provider_eq)
    have "complete s A B C F ?t"
    proof -
      have "complete s A B C F (t\<lparr>run_targets := dset k (remove1 fn (rt t k)) (run_targets t),
          failed_rdeps := failed_rdeps t\<rparr>)"
        by (rule complete_drop_run [OF t 2(1)]) (use 2(2) in auto)
      then show ?thesis by simp
    qed
    with d r show ?thesis by simp
  next
    case 3
    with u have r: "remove_runtarget_with ff k ?t = (Inr x, u)" by (simp add: drop_run_provider_eq)
    have "complete s A B (insert k C) F (?t\<lparr>failed_rdeps := failed_rdeps ?t @ [k]\<rparr>)"
      using complete_drop_run [OF t 3(1), of "failed_rdeps t @ [k]" "insert k C"] 3(2) by auto
    from hoare_Inr [OF remove_with_complete(2) [OF ff(1)] this r]
    have "complete s A B C F u" .
    moreover have "shrinks (?t\<lparr>failed_rdeps := failed_rdeps ?t @ [k]\<rparr>) u"
      using remove_rest_shrinks(2) [of ff ?t k, OF ff(2)] r by simp
    then have "fn \<notin> set (rt u k)" using shrinksD(16) d by fastforce
    ultimately show ?thesis by simp
  qed
qed simp

lemma fail_loops_complete:
  assumes ff: "fails s ff" "\<And>f. shr.keeps (ff f)"
  shows "hoare (complete s (insert fn A) B C F) (fail_loops ff fn)
    (\<lambda>_. complete s A B C F) (\<lambda>_ _. True)"
proof -
  let ?K = "complete s (insert fn A) B C F"
  let ?P = "\<lambda>ys t. ?K t \<and> (\<forall>k \<in> set ys. fn \<notin> set (bt t k))"
  let ?Q = "\<lambda>ys t. ?K t \<and> (\<forall>k. fn \<notin> set (bt t k)) \<and> (\<forall>k \<in> set ys. fn \<notin> set (rt t k))"
  have keep: "hoare (\<lambda>t. \<forall>k \<in> X. fn \<notin> set (bt t k)) m (\<lambda>_ t. \<forall>k \<in> X. fn \<notin> set (bt t k)) (\<lambda>_ _. True)"
    "hoare (\<lambda>t. \<forall>k \<in> X. fn \<notin> set (rt t k)) m (\<lambda>_ t. \<forall>k \<in> X. fn \<notin> set (rt t k)) (\<lambda>_ _. True)"
    if "shr.keeps m" for X and m :: "(taskdata, unit) sm"
    using shr.hoare_keeps [OF that, of "\<lambda>t. \<forall>k \<in> X. fn \<notin> set (bt t k)"] shrinksD(13)
      shr.hoare_keeps [OF that, of "\<lambda>t. \<forall>k \<in> X. fn \<notin> set (rt t k)"] shrinksD(16)
    by (blast intro: hoare_weaken)+
  have 1: "hoare (?P []) (sfor bs (drop_build_provider ff fn)) (\<lambda>_. ?P bs) (\<lambda>_ _. True)" for bs
  proof (rule hoare_sfor)
    fix ys k zs
    show "hoare (?P ys) (drop_build_provider ff fn k) (\<lambda>_. ?P (ys @ [k])) (\<lambda>_ _. True)"
      by (rule hoare_weaken [OF hoare_conj [OF drop_build_provider_complete [of s ff "insert fn A" B C F fn k, OF ff]
          keep(1) [where X = "set ys", OF drop_build_provider_shrinks [of ff fn k, OF ff(2)]]]]) auto
  qed
  have 2: "hoare (?Q []) (sfor rs (drop_run_provider ff fn)) (\<lambda>_. ?Q rs) (\<lambda>_ _. True)" for rs
  proof (rule hoare_sfor)
    fix ys k zs
    show "hoare (?Q ys) (drop_run_provider ff fn k) (\<lambda>_. ?Q (ys @ [k])) (\<lambda>_ _. True)"
      by (rule hoare_weaken [OF hoare_conj [OF drop_run_provider_complete [of s ff "insert fn A" B C F fn k, OF ff]
          hoare_conj [OF keep(1) [where X = UNIV, OF drop_run_provider_shrinks [of ff fn k, OF ff(2)]]
            keep(2) [where X = "set ys", OF drop_run_provider_shrinks [of ff fn k, OF ff(2)]]]]]) auto
  qed
  have bs: "?K t \<Longrightarrow> keys (build_targets t) = keys (build_targets s)"
    and rs: "?K t \<Longrightarrow> keys (run_targets t) = keys (run_targets s)" for t
    by (simp_all add: complete_def shrinksD)
  have all_b: "?P (keys (build_targets s)) t \<Longrightarrow> ?Q [] t" for t
    using bs [of t] dget_or_mem [of fn "build_targets t"] by auto
  have all_r: "?Q (keys (run_targets s)) t \<Longrightarrow> complete s A B C F t" for t
  proof -
    assume q: "?Q (keys (run_targets s)) t"
    then have "\<forall>k. fn \<notin> set (rt t k)" using rs [of t] dget_or_mem [of fn "run_targets t"] by auto
    with q show ?thesis unfolding complete_def clean_def by blast
  qed
  show ?thesis
    unfolding fail_loops_def
  proof (rule hoare_sget_bind, rule hoare_fact)
    fix b t assume "?K t \<and> b = keys (build_targets t)"
    then have b: "b = keys (build_targets s)" using bs by simp
    have "hoare (?Q []) (sbind (sget (\<lambda>td. keys (run_targets td)))
        (\<lambda>rs. sfor rs (drop_run_provider ff fn))) (\<lambda>_. complete s A B C F) (\<lambda>_ _. True)"
    proof (rule hoare_sget_bind, rule hoare_fact)
      fix r u assume "?Q [] u \<and> r = keys (run_targets u)"
      then have "r = keys (run_targets s)" using rs by simp
      then show "hoare (\<lambda>u. ?Q [] u \<and> r = keys (run_targets u)) (sfor r (drop_run_provider ff fn))
          (\<lambda>_. complete s A B C F) (\<lambda>_ _. True)"
        using all_r by (intro hoare_weaken [OF 2 [of r]]) auto
    qed
    then have "hoare (?P b) (sbind (sget (\<lambda>td. keys (run_targets td)))
        (\<lambda>rs. sfor rs (drop_run_provider ff fn))) (\<lambda>_. complete s A B C F) (\<lambda>_ _. True)"
      by (rule hoare_pre) (use all_b b in simp)
    from hoare_sbind [OF 1 [of b] this]
    show "hoare (\<lambda>t. ?K t \<and> b = keys (build_targets t)) (sbind (sfor b (drop_build_provider ff fn))
        (\<lambda>_. sbind (sget (\<lambda>td. keys (run_targets td))) (\<lambda>rs. sfor rs (drop_run_provider ff fn))))
        (\<lambda>_. complete s A B C F) (\<lambda>_ _. True)"
      by (rule hoare_pre) simp
  qed
qed

lemma complete_mark_failed:
  assumes "complete s A B C F t"
  shows "complete s (insert fn A) B C (insert fn F) (mark_failed fn t)"
  using assms shrinks_trans [OF _ shrinks_mark_failed, of s t fn]
  by (auto simp: complete_def clean_def mark_failed_def gone_build_def gone_run_def)

lemma fail_fn_fuel_fails: "fails s (fail_fn_fuel n)"
proof (induction n)
  case 0
  have "hoare (complete s A B C F) (fail_fn_fuel 0 f) (\<lambda>_. complete s A B C (insert f F)) (\<lambda>_ _. True)"
    for A B C F f
    by (auto simp: hoare_def sm_defs complete_def)
  then show ?case by (simp add: fails_def)
next
  case (Suc n)
  have "hoare (complete s A B C F) (fail_fn_fuel (Suc n) f) (\<lambda>_. complete s A B C (insert f F)) (\<lambda>_ _. True)"
    for A B C F f
  proof (rule hoare_cases)
    fix t u x assume t: "complete s A B C F t" and u: "fail_fn_fuel (Suc n) f t = (Inr x, u)"
    show "complete s A B C (insert f F) u"
    proof (cases "f \<in> set (failed_fns t)")
      case True
      with t u show ?thesis by (auto simp: fail_fn_Suc complete_def)
    next
      case False
      with u have "fail_loops (fail_fn_fuel n) f (mark_failed f t) = (Inr x, u)"
        by (simp add: fail_fn_Suc)
      with hoare_Inr [OF fail_loops_complete [OF Suc fail_fn_fuel_shrinks] complete_mark_failed [OF t]]
      show ?thesis by blast
    qed
  qed simp
  then show ?case by (simp add: fails_def)
qed

lemma complete_refl: "clean {} s \<Longrightarrow> complete s {} {} {} {} s"
  by (simp add: complete_def shrinks_refl gone_build_def gone_run_def)

lemma unbuildable_complete:
  assumes "unbuildable s fn0 f" "complete s {} {} {} {fn0} t"
  shows "f \<in> set (failed_fns t)"
  using assms(1)
proof induction
  case start
  with assms(2) show ?case by (simp add: complete_def)
next
  case (build d f)
  have "bt t d = []"
  proof (rule ccontr)
    assume "bt t d \<noteq> []"
    then obtain p where p: "p \<in> set (bt t d)" by (meson last_in_set)
    then have "p \<in> set (bt s d)" using assms(2) by (auto simp: complete_def dest: shrinksD(13))
    with build have "p \<in> set (failed_fns t)" by simp
    with p assms(2) show False by (auto simp: complete_def clean_def)
  qed
  with build(1) have "gone_build s t d" by (simp add: gone_build_def)
  with assms(2) build show ?case by (auto simp: complete_def)
next
  case (run d f)
  have "rt t d = []"
  proof (rule ccontr)
    assume "rt t d \<noteq> []"
    then obtain p where p: "p \<in> set (rt t d)" by (meson last_in_set)
    then have "p \<in> set (rt s d)" using assms(2) by (auto simp: complete_def dest: shrinksD(16))
    with run have "p \<in> set (failed_fns t)" by simp
    with p assms(2) show False by (auto simp: complete_def clean_def)
  qed
  with run(1) have "gone_run s t d" by (simp add: gone_run_def)
  with assms(2) run show ?case by (auto simp: complete_def)
qed

text \<open>Both directions: the files that fail are exactly the unbuildable ones.\<close>

lemma fail_fn_complete:
  "clean {} s \<Longrightarrow> fail_fn fn s = (Inr (), t) \<Longrightarrow> complete s {} {} {} {fn} t"
  unfolding fail_fn_def using hoare_Inr [OF failsD [OF fail_fn_fuel_fails]] complete_refl by blast

lemma fail_fn_unbuildable:
  assumes "clean {} s" "fail_fn fn s = (Inr (), t)"
  shows "set (failed_fns t) = set (failed_fns s) \<union> {f. unbuildable s fn f}"
proof -
  have "sound s fn t"
    using hoare_Inr [OF fail_fn_fuel_sound [OF unbuildable.start, unfolded keeps_sound_def] sound_refl]
      assms(2) unfolding fail_fn_def by blast
  then have "set (failed_fns t) \<subseteq> set (failed_fns s) \<union> {f. unbuildable s fn f}"
    by (auto simp: sound_def)
  moreover have c: "complete s {} {} {} {fn} t" by (rule fail_fn_complete [OF assms])
  ultimately show ?thesis
    using unbuildable_complete [OF _ c] by (auto simp: complete_def dest: shrinksD(10))
qed

text \<open>Without \<open>abort\<close> nothing is raised, so the failing always runs to its end.\<close>

definition quiet :: "(taskdata, 'a) sm \<Rightarrow> bool" where
  "quiet m \<longleftrightarrow> hoare (\<lambda>s. \<not> td_abort s) m (\<lambda>_ s. \<not> td_abort s) (\<lambda>e _. e = OutOfFuel)"

lemma quiet_rules:
  "quiet (sret x)" "quiet (sget g)" "(\<And>s. td_abort (u s) = td_abort s) \<Longrightarrow> quiet (supd u)"
  "quiet m \<Longrightarrow> (\<And>x. quiet (f x)) \<Longrightarrow> quiet (sbind m f)"
  "(b \<Longrightarrow> quiet m) \<Longrightarrow> (\<not> b \<Longrightarrow> quiet m') \<Longrightarrow> quiet (if b then m else m')"
  "(\<And>x. x \<in> set xs \<Longrightarrow> quiet (h x)) \<Longrightarrow> quiet (sfor xs h)"
  unfolding quiet_def by (auto intro: hoare_rules hoare_sbind hoare_sfor_inv)

lemma fail_entries_quiet: "(\<And>f. quiet (ff f)) \<Longrightarrow> quiet (fail_entries ff deps d)"
  unfolding fail_entries_def by (intro quiet_rules(4) quiet_rules(2))
    (auto intro!: quiet_rules split: prod.split)

lemma remove_with_quiet:
  assumes "\<And>f. quiet (ff f)"
  shows "quiet (remove_buildtarget_with ff d)" "quiet (remove_runtarget_with ff d)"
proof -
  have last_step: "quiet (sbind (sget (\<lambda>td. td_abort td \<and> d \<in> set (external_targets td))) (\<lambda>b.
      if b then sraise (NoProvider d) else sret ()))"
    by (auto simp: quiet_def hoare_def sm_defs)
  show "quiet (remove_buildtarget_with ff d)"
    unfolding remove_buildtarget_with_def
    by (rule quiet_rules(4) [OF quiet_rules(3)], simp, rule quiet_rules(4) [OF quiet_rules(2)],
        rule quiet_rules(4) [OF quiet_rules(6) [OF assms]],
        rule quiet_rules(4) [OF fail_entries_quiet [OF assms]], rule last_step)
  show "quiet (remove_runtarget_with ff d)"
    unfolding remove_runtarget_with_def
    by (intro quiet_rules(4) [OF quiet_rules(3)] quiet_rules(4) [OF quiet_rules(2)]
        quiet_rules(4) [OF quiet_rules(6) [OF assms]] fail_entries_quiet [OF assms]) simp
qed

lemma quiet_total: "quiet m \<Longrightarrow> \<not> td_abort s \<Longrightarrow> fst (m s) \<noteq> Inl OutOfFuel \<Longrightarrow> \<exists>x t. m s = (Inr x, t)"
  unfolding quiet_def by (cases "m s"; cases "fst (m s)") (auto dest: hoare_Inl)

lemma drop_provider_quiet:
  assumes "\<And>f. quiet (ff f)"
  shows "quiet (drop_build_provider ff fn k)" "quiet (drop_run_provider ff fn k)"
  unfolding drop_build_provider_def drop_run_provider_def
  by (intro quiet_rules(1,2,4,5) quiet_rules(3) remove_with_quiet assms; simp)+

lemma fail_fn_fuel_quiet: "quiet (fail_fn_fuel n fn)"
proof (induction n arbitrary: fn)
  case 0
  then show ?case by (auto simp: quiet_def hoare_def sm_defs)
next
  case (Suc n)
  have 1: "quiet (fail_loops (fail_fn_fuel n) fn)"
    unfolding fail_loops_def by (intro quiet_rules(2,4,6) drop_provider_quiet Suc)
  have "\<not> td_abort s \<Longrightarrow> \<not> td_abort (mark_failed fn s)" for s by (simp add: mark_failed_def)
  with 1 show ?case unfolding quiet_def
    by (intro hoare_cases) (auto simp: fail_fn_Suc split: if_splits dest: hoare_Inr hoare_Inl)
qed

lemma fail_fn_total: "\<not> td_abort s \<Longrightarrow> \<exists>t. fail_fn fn s = (Inr (), t)"
  using fail_fn_fuel_enough [of fn s] quiet_total [OF fail_fn_fuel_quiet, of s "fail_fuel s" fn]
  by (simp add: fail_fn_def)

lemma remove_total:
  assumes "\<not> td_abort s"
  shows "\<exists>t. remove_buildtarget d s = (Inr (), t)" "\<exists>t. remove_runtarget d s = (Inr (), t)"
  using quiet_total [OF remove_with_quiet(1) [OF fail_fn_fuel_quiet] assms] remove_fuel_enough(1) [of d s]
    quiet_total [OF remove_with_quiet(2) [OF fail_fn_fuel_quiet] assms] remove_fuel_enough(2) [of d s]
  by (simp_all add: remove_buildtarget_def remove_runtarget_def)

section \<open>The invariant of the task data\<close>

text \<open>
  Between the calls: lists of providers have no duplicates and no failed file, and whatever
  depends on a failed target has failed.  The set \<open>X\<close> holds the files for which the
  latter has not been established yet.
\<close>

definition closed_except :: "string set \<Rightarrow> taskdata \<Rightarrow> bool" where
  "closed_except X s \<longleftrightarrow>
     (\<forall>f d. f \<notin> X \<longrightarrow> d \<in> set (failed_deps s) \<longrightarrow> d \<in> set (dget_or (depids s) f []) \<longrightarrow>
       f \<in> set (failed_fns s)) \<and>
     (\<forall>f d. f \<notin> X \<longrightarrow> d \<in> set (failed_rdeps s) \<longrightarrow> d \<in> set (dget_or (rdepids s) f []) \<longrightarrow>
       f \<in> set (failed_fns s))"

definition td_inv :: "taskdata \<Rightarrow> bool" where
  "td_inv s \<longleftrightarrow> clean {} s \<and> closed_except {} s"

lemma td_inv_init: "td_inv (init_taskdata ab tryalt skip incomplete)"
  by (simp add: td_inv_def clean_def closed_except_def init_taskdata_def)

lemma complete_closed:
  assumes "complete s {} {} {} X t" "closed_except X s"
  shows "td_inv t"
proof -
  have eq: "depids t = depids s" "rdepids t = rdepids s"
    using assms(1) by (simp_all add: complete_def shrinksD)
  have "f \<in> set (failed_fns t)"
    if "d \<in> set (failed_deps t)" "d \<in> set (dget_or (depids t) f [])" for f d
  proof (cases "f \<in> X \<or> d \<in> set (failed_deps s)")
    case True
    with that assms show ?thesis
      by (auto simp: complete_def closed_except_def shrinksD)
  next
    case False
    with that have "gone_build s t d" by (simp add: gone_build_def)
    moreover have "build_dep s d f" using that(2) by (simp add: build_dep_def eq)
    ultimately show ?thesis using assms(1) by (simp add: complete_def)
  qed
  moreover have "f \<in> set (failed_fns t)"
    if "d \<in> set (failed_rdeps t)" "d \<in> set (dget_or (rdepids t) f [])" for f d
  proof (cases "f \<in> X \<or> d \<in> set (failed_rdeps s)")
    case True
    with that assms show ?thesis
      by (auto simp: complete_def closed_except_def shrinksD)
  next
    case False
    with that have "gone_run s t d" by (simp add: gone_run_def)
    moreover have "run_dep s d f" using that(2) by (simp add: run_dep_def eq)
    ultimately show ?thesis using assms(1) by (simp add: complete_def)
  qed
  ultimately show ?thesis using assms(1) by (simp add: td_inv_def closed_except_def complete_def)
qed

lemma fail_fn_inv:
  "clean {} s \<Longrightarrow> closed_except {fn} s \<Longrightarrow> fail_fn fn s = (Inr (), t) \<Longrightarrow> td_inv t"
  using complete_closed fail_fn_complete by blast

lemma remove_inv:
  assumes "td_inv s"
  shows "remove_buildtarget d s = (Inr (), t) \<Longrightarrow> td_inv t \<and> shrinks s t \<and> d \<in> set (failed_deps t)"
    and "remove_runtarget d s = (Inr (), u) \<Longrightarrow> td_inv u \<and> shrinks s u \<and> d \<in> set (failed_rdeps u)"
proof -
  have c: "clean {} s" "closed_except {} s" using assms by (simp_all add: td_inv_def)
  have "complete s {} {d} {} {} (s\<lparr>failed_deps := failed_deps s @ [d]\<rparr>)"
    using c(1) by (auto simp: complete_def clean_def shrinks_failed_deps gone_build_def gone_run_def)
  note b = hoare_Inr [OF remove_with_complete(1) [OF fail_fn_fuel_fails] this]
  have "complete s {} {} {d} {} (s\<lparr>failed_rdeps := failed_rdeps s @ [d]\<rparr>)"
    using c(1) by (auto simp: complete_def clean_def shrinks_failed_rdeps gone_build_def gone_run_def)
  note r = hoare_Inr [OF remove_with_complete(2) [OF fail_fn_fuel_fails] this]
  {
    assume rm: "remove_buildtarget d s = (Inr (), t)"
    then have "complete s {} {} {} {} t" using b unfolding remove_buildtarget_def by blast
    moreover have "shrinks (s\<lparr>failed_deps := failed_deps s @ [d]\<rparr>) t"
      using remove_rest_shrinks(1) [of "fail_fn_fuel (fail_fuel s)" s d, OF fail_fn_fuel_shrinks] rm
      by (simp add: remove_buildtarget_def)
    then have "d \<in> set (failed_deps t)" using shrinksD(11) by fastforce
    ultimately show "td_inv t \<and> shrinks s t \<and> d \<in> set (failed_deps t)"
      using complete_closed c(2) by (auto simp: complete_def)
  next
    assume rm: "remove_runtarget d s = (Inr (), u)"
    then have "complete s {} {} {} {} u" using r unfolding remove_runtarget_def by blast
    moreover have "shrinks (s\<lparr>failed_rdeps := failed_rdeps s @ [d]\<rparr>) u"
      using remove_rest_shrinks(2) [of "fail_fn_fuel (fail_fuel s)" s d, OF fail_fn_fuel_shrinks] rm
      by (simp add: remove_runtarget_def)
    then have "d \<in> set (failed_rdeps u)" using shrinksD(12) by fastforce
    ultimately show "td_inv u \<and> shrinks s u \<and> d \<in> set (failed_rdeps u)"
      using complete_closed c(2) by (auto simp: complete_def)
  }
qed

section \<open>Adding tasks and providers keeps the invariant\<close>

definition prov_exc :: "exc \<Rightarrow> bool" where
  "prov_exc e \<longleftrightarrow> is_NoProvider e \<or> is_rprovider_exc e"

lemma prov_exc_simps [simp]:
  "prov_exc (NoProvider n)" "prov_exc (NoRProvider n)" "prov_exc (MultipleRProvider n)"
  "\<not> prov_exc (KeyError k)" "\<not> prov_exc SystemExit" "\<not> prov_exc TypeError" "\<not> prov_exc IndexError"
  by (simp_all add: prov_exc_def)

text \<open>
  What the steps of \<open>add_tasks\<close> keep: a value leaves with \<open>Q\<close>; without \<open>abort\<close> no
  exception is one of those on missing providers.
\<close>

definition flags :: "taskdata \<Rightarrow> bool \<times> bool" where
  "flags s = (td_abort s, allowincomplete s)"

lemma flags_upd [simp]:
  "flags (s\<lparr>taskentries := e\<rparr>) = flags s" "flags (s\<lparr>seenfns := l\<rparr>) = flags s"
  "flags (s\<lparr>depids := d\<rparr>) = flags s" "flags (s\<lparr>rdepids := d\<rparr>) = flags s"
  "flags (s\<lparr>consider_msgs_cache := l\<rparr>) = flags s" "flags (s\<lparr>external_targets := l\<rparr>) = flags s"
  "flags (s\<lparr>build_targets := b\<rparr>) = flags s" "flags (s\<lparr>run_targets := b\<rparr>) = flags s"
  by (simp_all add: flags_def)

lemma flags_shrinks: "shrinks s t \<Longrightarrow> flags t = flags s"
  by (simp add: flags_def shrinksD)

definition adds :: "(taskdata \<Rightarrow> bool) \<Rightarrow> (taskdata, 'a) sm \<Rightarrow> ('a \<Rightarrow> taskdata \<Rightarrow> bool) \<Rightarrow> bool" where
  "adds P m Q \<longleftrightarrow> (\<forall>a. hoare (\<lambda>s. P s \<and> flags s = a) m (\<lambda>x s. Q x s \<and> flags s = a)
     (\<lambda>e _. \<not> fst a \<longrightarrow> \<not> prov_exc e))"

lemma adds_bind: "adds P m R \<Longrightarrow> (\<And>x. adds (R x) (f x) Q) \<Longrightarrow> adds P (sbind m f) Q"
  unfolding adds_def by (blast intro: hoare_sbind)

lemma adds_simple:
  "(\<And>s. P s \<Longrightarrow> Q x s) \<Longrightarrow> adds P (sret x) Q"
  "(\<And>s. P s \<Longrightarrow> Q' (g s) s) \<Longrightarrow> adds P (sget g) Q'"
  "(\<And>s. P s \<Longrightarrow> Q'' () (u s)) \<Longrightarrow> (\<And>s. flags (u s) = flags s) \<Longrightarrow> adds P (supd u) Q''"
  "\<not> prov_exc e \<Longrightarrow> adds P (sraise e) Q3"
  unfolding adds_def by (auto intro: hoare_rules)

lemma adds_dget: "(\<And>s x. P s \<Longrightarrow> Q x s) \<Longrightarrow> adds P (sres (\<lambda>s. dget (d s) k)) Q"
  unfolding adds_def by (auto intro!: hoare_rules simp: dget_def split: option.splits)

lemma adds_if: "(b \<Longrightarrow> adds P m Q) \<Longrightarrow> (\<not> b \<Longrightarrow> adds P m' Q) \<Longrightarrow> adds P (if b then m else m') Q"
  by simp

lemma adds_sfor: "(\<And>x. x \<in> set xs \<Longrightarrow> adds P (f x) (\<lambda>_. P)) \<Longrightarrow> adds P (sfor xs f) (\<lambda>_. P)"
  unfolding adds_def by (auto intro: hoare_sfor_inv)

lemma dget_or_seen [simp]: "dget_or (seen_target n t) k [] = dget_or t k []"
  using set_keys by (fastforce simp: seen_target_def dget_or_def split: option.splits)

lemma dget_or_add_target:
  "dget_or (add_target fn n t) k [] =
    (if k = n \<and> fn \<notin> set (dget_or t n []) then dget_or t n [] @ [fn] else dget_or t k [])"
  using set_keys by (fastforce simp: add_target_def dget_or_def split: option.splits)

text \<open>What does not touch the lists of providers, the dependencies and the failures.\<close>

lemma td_inv_parts [simp]:
  "clean X (s\<lparr>taskentries := e\<rparr>) = clean X s" "clean X (s\<lparr>seenfns := l\<rparr>) = clean X s"
  "clean X (s\<lparr>depids := d\<rparr>) = clean X s" "clean X (s\<lparr>rdepids := d\<rparr>) = clean X s"
  "clean X (s\<lparr>consider_msgs_cache := l\<rparr>) = clean X s" "clean X (s\<lparr>external_targets := l\<rparr>) = clean X s"
  "clean X (seen_build_target n s) = clean X s" "clean X (seen_run_target n s) = clean X s"
  "closed_except X (s\<lparr>taskentries := e\<rparr>) = closed_except X s"
  "closed_except X (s\<lparr>seenfns := l\<rparr>) = closed_except X s"
  "closed_except X (s\<lparr>consider_msgs_cache := l\<rparr>) = closed_except X s"
  "closed_except X (s\<lparr>external_targets := l\<rparr>) = closed_except X s"
  "closed_except X (s\<lparr>build_targets := b\<rparr>) = closed_except X s"
  "closed_except X (s\<lparr>run_targets := b\<rparr>) = closed_except X s"
  "closed_except X (seen_build_target n s) = closed_except X s"
  "closed_except X (seen_run_target n s) = closed_except X s"
  by (simp_all add: clean_def closed_except_def seen_build_target_def seen_run_target_def)

lemma seen_simps [simp]:
  "flags (seen_build_target n s) = flags s" "flags (seen_run_target n s) = flags s"
  "failed_deps (seen_build_target n s) = failed_deps s" "failed_deps (seen_run_target n s) = failed_deps s"
  "failed_rdeps (seen_build_target n s) = failed_rdeps s" "failed_rdeps (seen_run_target n s) = failed_rdeps s"
  "depids (seen_build_target n s) = depids s" "depids (seen_run_target n s) = depids s"
  "rdepids (seen_build_target n s) = rdepids s" "rdepids (seen_run_target n s) = rdepids s"
  "failed_fns (seen_build_target n s) = failed_fns s" "failed_fns (seen_run_target n s) = failed_fns s"
  by (simp_all add: seen_build_target_def seen_run_target_def)

lemma add_flag_deps_inv:
  assumes "\<And>n s. td_inv s \<Longrightarrow> td_inv (seen n s)" "\<And>n s. flags (seen n s) = flags s"
  shows "adds td_inv (add_flag_deps seen upd tid v) (\<lambda>_. td_inv)"
proof (cases v)
  case None
  then show ?thesis by (simp add: add_flag_deps_def adds_simple)
next
  case (Some s)
  show ?thesis unfolding add_flag_deps_def Some option.case
    by (rule adds_bind [where R = "\<lambda>_. td_inv"], rule adds_sfor, rule adds_if)
      (auto intro!: adds_simple adds_bind [where R = "\<lambda>_. td_inv"] adds_dget assms simp: td_inv_def)
qed

lemma add_task_inv: "adds td_inv (add_task fn deps task) (\<lambda>_. td_inv)"
proof -
  have seen: "td_inv s \<Longrightarrow> td_inv (seen_build_target n s)" "td_inv s \<Longrightarrow> td_inv (seen_run_target n s)"
    for n s by (simp_all add: td_inv_def)
  have read: "adds td_inv (sres (\<lambda>_. dget (parents deps) task)) (\<lambda>_. td_inv)"
    by (rule adds_dget)
  show ?thesis
    unfolding add_task_def Let_def
    by (intro adds_bind [where R = "\<lambda>_. td_inv"] add_flag_deps_inv read)
      (auto intro!: adds_simple seen simp: td_inv_def)
qed

text \<open>The file whose dependencies are being checked is the only one left open.\<close>

definition open_fn :: "string \<Rightarrow> string list \<Rightarrow> string list \<Rightarrow> taskdata \<Rightarrow> bool" where
  "open_fn fn bs rs s \<longleftrightarrow> clean {} s \<and> closed_except {fn} s \<and>
     dget_or (depids s) fn [] = bs \<and> dget_or (rdepids s) fn [] = rs"

lemma adds_fail_fn: "adds (open_fn fn bs rs) (fail_fn fn) (\<lambda>_. td_inv)"
  unfolding adds_def
proof (intro allI hoare_cases, goal_cases)
  case (1 a s x t)
  with fail_fn_inv [of s fn t] shr.keepsD [OF fail_fn_shrinks, of fn s "Inr x" t] show ?case
    by (auto simp: open_fn_def flags_shrinks)
next
  case (2 a s e t)
  with fail_fn_total [of s fn] show ?case by (auto simp: flags_def)
qed

lemma check_deps_inv:
  assumes seen: "\<And>n s. J s \<Longrightarrow> J (seen n s)" "\<And>n s. flags (seen n s) = flags s"
    and J: "\<And>s. J s \<Longrightarrow> open_fn fn bs rs s \<and> failed s = l"
  shows "adds J (check_deps seen failed fn ds)
    (\<lambda>r s. if r then td_inv s else J s \<and> (\<forall>d \<in> set ds. d \<notin> set l))"
proof (induction ds)
  case Nil
  then show ?case by (simp add: adds_simple)
next
  case (Cons d ds)
  let ?Q = "\<lambda>r s. if r then td_inv s else J s \<and> (\<forall>d \<in> set (d # ds). d \<notin> set l)"
  have fail: "adds (\<lambda>s. J s \<and> d \<in> set l) (sbind (fail_fn fn) (\<lambda>_. sret True)) ?Q"
    by (rule adds_bind [where R = "\<lambda>_. td_inv"])
      (use adds_fail_fn [of fn bs rs] J in \<open>auto simp: adds_def intro: hoare_pre adds_simple hoare_rules\<close>)
  have rest: "adds (\<lambda>s. J s \<and> d \<notin> set l) (check_deps seen failed fn ds) ?Q"
  proof (cases "d \<in> set l")
    case True
    then show ?thesis by (auto simp: adds_def hoare_def)
  next
    case False
    then show ?thesis using Cons by (simp cong: if_cong)
  qed
  show ?case
    unfolding check_deps.simps
  proof (rule adds_bind [where R = "\<lambda>_. J"])
    show "adds J (supd (seen d)) (\<lambda>_. J)" by (rule adds_simple(3)) (auto simp: seen)
    show "adds J (sbind (sget (\<lambda>td. d \<in> set (failed td))) (\<lambda>b.
        if b then sbind (fail_fn fn) (\<lambda>_. sret True) else check_deps seen failed fn ds)) ?Q"
    proof (rule adds_bind [where R = "\<lambda>b s. J s \<and> (d \<in> set l \<longleftrightarrow> b)"])
      show "adds J (sget (\<lambda>td. d \<in> set (failed td))) (\<lambda>b s. J s \<and> (d \<in> set l \<longleftrightarrow> b))"
        by (rule adds_simple(2)) (use J in auto)
      show "adds (\<lambda>s. J s \<and> (d \<in> set l \<longleftrightarrow> b)) (if b then sbind (fail_fn fn) (\<lambda>_. sret True)
          else check_deps seen failed fn ds) ?Q" for b
        using fail rest by (cases b) simp_all
    qed
  qed
qed

lemma add_new_tasks_inv: "adds td_inv (add_new_tasks fn deps dc) (\<lambda>_. td_inv)"
proof -
  let ?J = "\<lambda>bs rs fd fr s. open_fn fn bs rs s \<and> failed_deps s = fd \<and> failed_rdeps s = fr"
  let ?P = "\<lambda>s. clean {} s \<and> closed_except {fn} s"
  have ids: "td_inv s \<Longrightarrow> ?P (add_rdepids fn dc (add_depids fn dc s))"
    "flags (add_rdepids fn dc (add_depids fn dc s)) = flags s" for s
    by (auto simp: td_inv_def closed_except_def add_rdepids_def add_depids_def)
  have closed: "?J bs rs fd fr s \<Longrightarrow> \<forall>d \<in> set bs. d \<notin> set fd \<Longrightarrow> \<forall>d \<in> set rs. d \<notin> set fr \<Longrightarrow> td_inv s"
    for bs rs fd fr s
    by (auto simp: td_inv_def closed_except_def open_fn_def)
  have run: "adds (\<lambda>s. ?J bs rs fd fr s) (sbind (check_deps seen_run_target failed_rdeps fn rs) (\<lambda>_. sret ()))
      (\<lambda>_. td_inv)" if "\<forall>d \<in> set bs. d \<notin> set fd" for bs rs fd fr
    by (rule adds_bind, rule check_deps_inv [where bs = bs and rs = rs and l = fr])
      (use closed [OF _ that] in \<open>auto intro!: adds_simple simp: open_fn_def split: if_splits\<close>)
  have run': "adds (\<lambda>s. ?J bs rs fd fr s) (sbind (sget (\<lambda>td. dget_or (rdepids td) fn [])) (\<lambda>rs.
      sbind (check_deps seen_run_target failed_rdeps fn rs) (\<lambda>_. sret ()))) (\<lambda>_. td_inv)"
    if "\<forall>d \<in> set bs. d \<notin> set fd" for bs rs fd fr
    using run [OF that, of rs fr] by (auto simp: adds_def hoare_def sbind_def sget_def open_fn_def)
  have build: "adds (\<lambda>s. ?J bs rs fd fr s) (sbind (check_deps seen_build_target failed_deps fn bs) (\<lambda>r.
      if r then sret () else sbind (sget (\<lambda>td. dget_or (rdepids td) fn [])) (\<lambda>rs.
        sbind (check_deps seen_run_target failed_rdeps fn rs) (\<lambda>_. sret ())))) (\<lambda>_. td_inv)"
    for bs rs fd fr
  proof (rule adds_bind, rule check_deps_inv [where bs = bs and rs = rs and l = fd])
    fix r
    let ?R = "\<lambda>s. if r then td_inv s else ?J bs rs fd fr s \<and> (\<forall>d \<in> set bs. d \<notin> set fd)"
    let ?m = "sbind (sget (\<lambda>td. dget_or (rdepids td) fn [])) (\<lambda>rs.
        sbind (check_deps seen_run_target failed_rdeps fn rs) (\<lambda>_. sret ()))"
    show "adds ?R (if r then sret () else ?m) (\<lambda>_. td_inv)"
    proof (cases "r \<or> \<not> (\<forall>d \<in> set bs. d \<notin> set fd)")
      case True
      then show ?thesis by (cases r) (auto simp: adds_def hoare_def sret_def)
    next
      case False
      then show ?thesis using run' [of bs fd rs fr] by simp
    qed
  qed (auto simp: open_fn_def)
  have checks: "adds ?P (sbind (sget (\<lambda>td. dget_or (depids td) fn [])) (\<lambda>ds.
      sbind (check_deps seen_build_target failed_deps fn ds) (\<lambda>returned.
       if returned then sret ()
       else sbind (sget (\<lambda>td. dget_or (rdepids td) fn [])) (\<lambda>rs.
         sbind (check_deps seen_run_target failed_rdeps fn rs) (\<lambda>_. sret ()))))) (\<lambda>_. td_inv)"
    unfolding adds_def
  proof (intro allI hoareI)
    fix a s assume "?P s \<and> flags s = a"
    then have J: "?J (dget_or (depids s) fn []) (dget_or (rdepids s) fn []) (failed_deps s) (failed_rdeps s) s
        \<and> flags s = a"
      by (simp add: open_fn_def)
    let ?m = "\<lambda>ds. sbind (check_deps seen_build_target failed_deps fn ds) (\<lambda>returned.
       if returned then sret ()
       else sbind (sget (\<lambda>td. dget_or (rdepids td) fn [])) (\<lambda>rs.
         sbind (check_deps seen_run_target failed_rdeps fn rs) (\<lambda>_. sret ())))"
    have eq: "sbind (sget (\<lambda>td. dget_or (depids td) fn [])) ?m s = ?m (dget_or (depids s) fn []) s"
      by (simp add: sbind_def sget_def)
    show "case sbind (sget (\<lambda>td. dget_or (depids td) fn [])) ?m s of
        (Inl e, t) \<Rightarrow> \<not> fst a \<longrightarrow> \<not> prov_exc e | (Inr x, t) \<Rightarrow> td_inv t \<and> flags t = a"
      unfolding eq by (rule hoareD [OF build [unfolded adds_def, THEN spec] J])
  qed
  have upd: "adds td_inv (supd (\<lambda>td. add_rdepids fn dc (add_depids fn dc td))) (\<lambda>_. ?P)"
    by (rule adds_simple(3), erule ids(1), rule ids(2))
  show ?thesis
    unfolding add_new_tasks_def
    by (rule adds_bind [OF adds_sfor [OF add_task_inv]], rule adds_bind [OF upd], rule checks)
qed

text \<open>
  On the pair of the task data and the cache.  The function of a recipe must not raise one of
  the exceptions on missing providers itself, or it would be taken for one of them.
\<close>

definition exec_ok :: "recipe_exec \<Rightarrow> bool" where
  "exec_ok exec_func \<longleftrightarrow> (\<forall>f pn v e. exec_func f pn v = Inl e \<longrightarrow> \<not> prov_exc e)"

definition st_inv :: "bool \<times> bool \<Rightarrow> td_state \<Rightarrow> bool" where
  "st_inv a s \<longleftrightarrow> td_inv (fst s) \<and> flags (fst s) = a"

definition keeps_inv :: "(td_state, 'a) sm \<Rightarrow> bool" where
  "keeps_inv m \<longleftrightarrow> (\<forall>a. hoare (st_inv a) m (\<lambda>_. st_inv a) (\<lambda>e _. \<not> fst a \<longrightarrow> \<not> prov_exc e))"

lemma keeps_inv_rules:
  "keeps_inv (sret x)" "\<not> prov_exc e \<Longrightarrow> keeps_inv (sraise e)" "keeps_inv (sget g)"
  "(\<And>s e. h s = Inl e \<Longrightarrow> \<not> prov_exc e) \<Longrightarrow> keeps_inv (sres h)"
  "keeps_inv m \<Longrightarrow> (\<And>x. keeps_inv (f x)) \<Longrightarrow> keeps_inv (sbind m f)"
  "(b \<Longrightarrow> keeps_inv m) \<Longrightarrow> (\<not> b \<Longrightarrow> keeps_inv m') \<Longrightarrow> keeps_inv (if b then m else m')"
  "(\<And>x. x \<in> set xs \<Longrightarrow> keeps_inv (k x)) \<Longrightarrow> keeps_inv (sfor xs k)"
  unfolding keeps_inv_def
  by (auto simp del: split_paired_All intro: hoare_rules hoare_sbind hoare_sfor_inv)

lemma keeps_inv_on_fst: "adds td_inv m (\<lambda>_. td_inv) \<Longrightarrow> keeps_inv (on_fst m)"
  unfolding keeps_inv_def adds_def by (auto intro!: hoare_on_fst simp: st_inv_def)

lemma keeps_inv_upd:
  "(\<And>s. td_inv (fst s) \<Longrightarrow> td_inv (fst (u s)) \<and> flags (fst (u s)) = flags (fst s)) \<Longrightarrow>
    keeps_inv (supd u)"
  unfolding keeps_inv_def st_inv_def by (auto intro!: hoare_supd)

lemma dget_exc: "dget d k = Inl e \<Longrightarrow> \<not> prov_exc e"
  by (auto simp: dget_def split: option.splits)

lemma rfold_exc:
  "rfold f xs a = Inl e \<Longrightarrow> (\<And>x b. x \<in> set xs \<Longrightarrow> f x b = Inl e \<Longrightarrow> \<not> prov_exc e) \<Longrightarrow> \<not> prov_exc e"
  by (induction xs arbitrary: a) (auto simp: rbind_eq_Inl)

lemma other_provider_exc: "other_provider dc pn pfs = Inl e \<Longrightarrow> \<not> prov_exc e"
  by (induction pfs) (auto simp: rbind_eq_Inl dest: dget_exc split: if_splits)

lemma world_terminal_exc: "world_terminal dc pn ps t = Inl e \<Longrightarrow> \<not> prov_exc e"
  by (induction ps arbitrary: t) (auto simp: rbind_eq_Inl dest: other_provider_exc split: if_splits)

lemma buildWorldTargetList_exc: "buildWorldTargetList task dc = Inl e \<Longrightarrow> \<not> prov_exc e"
  unfolding buildWorldTargetList_def
  by (auto split: if_splits elim!: rfold_exc simp: world_file_def rbind_eq_Inl
      dest!: dget_exc world_terminal_exc)

lemma add_extra_deps_exc: "exec_ok exec_func \<Longrightarrow> add_extra_deps exec_func fn dc = Inl e \<Longrightarrow> \<not> prov_exc e"
  by (auto simp: add_extra_deps_def Let_def rbind_eq_Inl exec_ok_def split: if_splits
      dest: buildWorldTargetList_exc dget_exc)

lemma add_tasks_keeps_inv:
  assumes "exec_ok exec_func"
  shows "keeps_inv (add_tasks exec_func fn)"
proof -
  have 1: "keeps_inv (sres (\<lambda>(td, dc). dget (cd_task_deps dc) fn))"
    by (rule keeps_inv_rules(4)) (auto dest: dget_exc)
  have 2: "keeps_inv (sres (\<lambda>(td, dc). add_extra_deps exec_func fn dc))"
    by (rule keeps_inv_rules(4)) (auto dest: add_extra_deps_exc [OF assms])
  have 3: "keeps_inv (on_fst (supd (\<lambda>td. td\<lparr>seenfns := seenfns td @ [fn]\<rparr>)))"
    by (rule keeps_inv_on_fst, rule adds_simple(3)) (simp_all add: td_inv_def)
  have 4: "keeps_inv (supd (\<lambda>(td, _). (td, dc)))" for dc :: cache_data
    by (rule keeps_inv_upd) (auto split: prod.split)
  show ?thesis unfolding add_tasks_def
    by (intro keeps_inv_rules(5) [OF 1] keeps_inv_rules(5) [OF 2] keeps_inv_rules(5) [OF 3]
        keeps_inv_rules(5) [OF 4] keeps_inv_rules(5) [OF keeps_inv_rules(3)] keeps_inv_rules(6)
        keeps_inv_rules(1) keeps_inv_rules(2) keeps_inv_on_fst add_new_tasks_inv) simp
qed

lemma add_target_inv:
  assumes "td_inv s" "fn \<notin> set (failed_fns s)"
  shows "td_inv (add_build_target fn n s)" "td_inv (add_runtime_target fn n s)"
  using assms by (auto simp: td_inv_def clean_def add_build_target_def add_runtime_target_def dget_or_add_target)

lemma add_all_keeps_inv:
  assumes "\<And>fn. keeps_inv (tasks_of fn)"
    "\<And>fn s. td_inv s \<Longrightarrow> fn \<notin> set (failed_fns s) \<Longrightarrow> td_inv (add_target_fn fn s)"
    "\<And>fn s. flags (add_target_fn fn s) = flags s"
  shows "keeps_inv (add_all add_target_fn tasks_of es)"
proof -
  have "keeps_inv (sbind (sget (\<lambda>(td, dc). fn \<in> set (failed_fns td))) (\<lambda>failed.
       if failed then sret ()
       else sbind (on_fst (supd (add_target_fn fn))) (\<lambda>_. tasks_of fn)))" for fn
    unfolding keeps_inv_def
  proof (intro allI hoare_sget_bind)
    fix a v
    show "hoare (\<lambda>s. st_inv a s \<and> v = (case s of (td, dc) \<Rightarrow> fn \<in> set (failed_fns td)))
      (if v then sret () else sbind (on_fst (supd (add_target_fn fn))) (\<lambda>_. tasks_of fn))
      (\<lambda>_. st_inv a) (\<lambda>e _. \<not> fst a \<longrightarrow> \<not> prov_exc e)"
    proof (cases v)
      case True
      then show ?thesis by (auto intro: hoare_rules)
    next
      case False
      then show ?thesis
        using assms by (auto simp: keeps_inv_def st_inv_def intro!: hoare_sbind [where R = "\<lambda>_. st_inv a"]
            hoare_on_fst hoare_rules simp del: split_paired_All)
    qed
  qed
  then show ?thesis unfolding add_all_def by (intro keeps_inv_rules(7))
qed

section \<open>Every target is resolved or given up\<close>

text \<open>What happens before the exception when no provider is found.\<close>

definition harmless :: "td_state \<Rightarrow> td_state \<Rightarrow> bool" where
  "harmless s t \<longleftrightarrow> shrinks (fst s) (fst t) \<and>
     ignored_dependencies (snd t) = ignored_dependencies (snd s) \<and>
     (td_inv (fst s) \<longrightarrow> td_inv (fst t))"

interpretation harm: state_preorder harmless
  by unfold_locales (auto simp: harmless_def shrinks_refl dest: shrinks_trans)

lemma harmless_same_td:
  "fst t = fst s \<Longrightarrow> ignored_dependencies (snd t) = ignored_dependencies (snd s) \<Longrightarrow> harmless s t"
  by (simp add: harmless_def shrinks_refl)

lemma record_preferred_ignored [simp]:
  "ignored_dependencies (record_preferred getVar it dc) = ignored_dependencies dc"
  by (simp add: record_preferred_def Let_def)

lemma filterProviders_ignored:
  assumes "filterProviders ps it getVar dc = Inr (el, found, dc')"
  shows "ignored_dependencies dc' = ignored_dependencies dc"
proof -
  let ?dp = "record_preferred getVar it dc"
  from assms obtain e0 where "(case map_of (cd_preferred ?dp) it of None \<Rightarrow> Inr (e0, False, ?dp)
      | Some name \<Rightarrow> (case e0 of None \<Rightarrow> Inl TypeError
          | Some es \<Rightarrow> rbind (select_named ?dp name es) (\<lambda>(es, found). Inr (Some es, found, ?dp))))
      = Inr (el, found, dc')"
    unfolding filterProviders_def rbind_eq_Inr Let_def by blast
  then have "dc' = ?dp"
    by (cases "map_of (cd_preferred ?dp) it"; cases e0) (auto simp: rbind_eq_Inr)
  then show ?thesis by simp
qed

lemma eligible_build_harmless: "harm.keeps (eligible_build getVar it)"
  unfolding harm.keeps_def
proof
  fix s :: td_state
  obtain td dc where s: "s = (td, dc)" by force
  let ?ps = "dget_or (cd_providers dc) it []"
  let ?dc = "dc\<lparr>cd_providers := dset it (sort ?ps) (cd_providers dc)\<rparr>"
  show "harmless s (snd (eligible_build getVar it s))"
  proof (cases "filterProviders ?ps it getVar ?dc")
    case (Inl e)
    then show ?thesis by (simp add: eligible_build_def s sm_defs harmless_same_td)
  next
    case (Inr r)
    obtain el found dc' where r: "r = (el, found, dc')" by (metis prod_cases3)
    from filterProviders_ignored [OF Inr [unfolded r]]
    have "ignored_dependencies dc' = ignored_dependencies dc" by simp
    then show ?thesis
      using Inr r by (cases el) (simp_all add: eligible_build_def s sm_defs harmless_same_td)
  qed
qed

lemma eligible_run_harmless: "harm.keeps (eligible_run getVar ps it)"
  unfolding eligible_run_def by (intro harm.rules) (auto split: option.split prod.split intro: harm.rules)

lemma consider_message_harmless: "harm.keeps (consider_message es it)"
  unfolding consider_message_def
  by (intro harm.rules)
    (auto simp: harm.keeps_def on_fst_def supd_def harmless_def shrinks_def td_inv_def split: prod.split)

lemma harm_keeps_inv: "harm.keeps m \<Longrightarrow> st_inv a s \<Longrightarrow> m s = (r, t) \<Longrightarrow> st_inv a t \<and> harmless s t"
  using harm.keepsD [of m s r t] by (auto simp: st_inv_def harmless_def flags_shrinks)

text \<open>An addition: it keeps the invariant, and finding no provider is harmless.\<close>

definition addition :: "(td_state, 'a) sm \<Rightarrow> bool" where
  "addition m \<longleftrightarrow> (\<forall>a s. st_inv a s \<longrightarrow> (case m s of
     (Inl e, t) \<Rightarrow> \<not> fst a \<longrightarrow> prov_exc e \<longrightarrow> st_inv a t \<and> harmless s t
   | (Inr x, t) \<Rightarrow> st_inv a t))"

lemma addition_keeps_inv: "keeps_inv m \<Longrightarrow> addition m"
  unfolding addition_def keeps_inv_def hoare_def by (fastforce split: prod.splits sum.splits)

lemma addition_harmless: "harm.keeps m \<Longrightarrow> addition m"
  unfolding addition_def by (auto split: prod.split sum.split dest: harm_keeps_inv)

lemma addition_bind:
  assumes m: "harm.keeps m" and f: "\<And>x. addition (f x)"
  shows "addition (sbind m f)"
  unfolding addition_def
proof (intro allI impI)
  fix a s assume s: "st_inv a s"
  obtain r t where r: "m s = (r, t)" by (cases "m s")
  have t: "st_inv a t" "harmless s t" using harm_keeps_inv [OF m s r] by simp_all
  show "case sbind m f s of (Inl e, t) \<Rightarrow> \<not> fst a \<longrightarrow> prov_exc e \<longrightarrow> st_inv a t \<and> harmless s t
     | (Inr x, t) \<Rightarrow> st_inv a t"
  proof (cases r)
    case (Inl e)
    with r t show ?thesis by (simp add: sbind_def)
  next
    case (Inr x)
    with f [of x] t(1) have "case f x t of (Inl e, u) \<Rightarrow> \<not> fst a \<longrightarrow> prov_exc e \<longrightarrow> st_inv a u \<and> harmless t u
       | (Inr x, u) \<Rightarrow> st_inv a u" by (simp only: addition_def)
    with r Inr harm.rel_trans [OF t(2)] show ?thesis
      by (auto simp: sbind_def split: prod.splits sum.splits)
  qed
qed

lemma addition_if: "(b \<Longrightarrow> addition m) \<Longrightarrow> (\<not> b \<Longrightarrow> addition m') \<Longrightarrow> addition (if b then m else m')"
  by simp

lemma addition_split: "(\<And>a b. addition (f a b)) \<Longrightarrow> addition (case x of (a, b) \<Rightarrow> f a b)"
  by (cases x) simp

lemmas addition_pure = addition_harmless [OF harm.pure(1)] addition_harmless [OF harm.pure(2)]

lemma message_harmless: "harm.keeps (if b then consider_message es it else sret ())"
  by (intro harm.branch consider_message_harmless harm.pure)

lemma add_provider_internal_addition:
  assumes "exec_ok exec_func"
  shows "addition (add_provider_internal re_match getVar exec_func it)"
proof -
  have add: "addition (add_all (\<lambda>fn. add_build_target fn it) (add_tasks exec_func) es)" for es
    by (intro addition_keeps_inv add_all_keeps_inv add_tasks_keeps_inv assms add_target_inv)
      (simp_all add: add_build_target_def)
  show ?thesis unfolding add_provider_internal_def
    by (rule addition_bind [OF harm.pure(4)], rule addition_bind [OF harm.pure(3)], rule addition_split,
        rule addition_if, rule addition_pure, rule addition_if, rule addition_bind [OF harm.pure(4)],
        rule addition_pure, rule addition_if, rule addition_pure,
        rule addition_bind [OF eligible_build_harmless], rule addition_split, rule addition_if,
        rule addition_pure, rule addition_bind [OF message_harmless], rule add)
qed

lemma add_rprovider_addition:
  assumes "exec_ok exec_func"
  shows "addition (add_rprovider re_match getVar exec_func it)"
proof -
  have add: "addition (add_all (\<lambda>fn. add_runtime_target fn it) (add_tasks exec_func) es)" for es
    by (intro addition_keeps_inv add_all_keeps_inv add_tasks_keeps_inv assms add_target_inv)
      (simp_all add: add_runtime_target_def)
  show ?thesis unfolding add_rprovider_def
    by (rule addition_bind [OF harm.pure(4)], rule addition_bind [OF harm.pure(3)],
        rule addition_if, rule addition_pure, rule addition_if, rule addition_pure,
        rule addition_bind [OF harm.pure(4)], rule addition_if, rule addition_pure,
        rule addition_bind [OF eligible_run_harmless], rule addition_split, rule addition_if,
        rule addition_pure, rule addition_bind [OF message_harmless], rule addition_if,
        rule addition_bind [OF consider_message_harmless], rule addition_pure, rule add)
qed

text \<open>
  One target of a pass: when no provider was added, the target has been given up, unless
  incomplete builds are allowed and it is a build target.
\<close>

definition unresolved_step :: "bool \<Rightarrow> bool \<Rightarrow> (td_state \<Rightarrow> string list) \<Rightarrow> (string \<Rightarrow> (td_state, bool) sm) \<Rightarrow> bool" where
  "unresolved_step inc skip failed f \<longleftrightarrow> (\<forall>target s b t. st_inv (False, inc) s \<longrightarrow> f target s = (Inr b, t) \<longrightarrow>
     st_inv (False, inc) t \<and> (\<not> b \<longrightarrow> harmless s t \<and> (skip \<or> target \<in> set (failed t))))"

lemma remove_build_step:
  assumes "st_inv (False, inc) s" "on_fst (remove_buildtarget d) s = (Inr (), t)"
  shows "st_inv (False, inc) t \<and> harmless s t \<and> d \<in> set (failed_deps (fst t))"
  using assms remove_inv(1) [of "fst s" d "fst t"]
  by (auto simp: on_fst_def st_inv_def harmless_def flags_shrinks split: prod.splits)

lemma remove_run_step:
  assumes "st_inv (False, inc) s" "on_fst (remove_runtarget d) s = (Inr (), t)"
  shows "st_inv (False, inc) t \<and> harmless s t \<and> d \<in> set (failed_rdeps (fst t))"
  using assms remove_inv(2) [of "fst s" d "fst t"]
  by (auto simp: on_fst_def st_inv_def harmless_def flags_shrinks split: prod.splits)

lemma resolve_build_step:
  assumes "\<And>target. addition (add target)"
  shows "unresolved_step inc inc (\<lambda>s. failed_deps (fst s)) (resolve_build add)"
  unfolding unresolved_step_def
proof (intro allI impI, goal_cases)
  case (1 target s b t)
  obtain r u where r: "add target s = (r, u)" by (cases "add target s")
  with assms [of target] 1(1) have a: "case r of
      Inl e \<Rightarrow> prov_exc e \<longrightarrow> st_inv (False, inc) u \<and> harmless s u | Inr x \<Rightarrow> st_inv (False, inc) u"
    unfolding addition_def by (fastforce split: sum.splits)
  show ?case
  proof (cases r)
    case (Inl e)
    with 1(2) r have e: "is_NoProvider e"
      by (auto simp: resolve_build_def scatch_def sbind_def sret_def split: if_splits)
    with Inl a have u: "st_inv (False, inc) u" "harmless s u" by (auto simp: prov_exc_def)
    then have "\<not> td_abort (fst u)" "allowincomplete (fst u) = inc" by (auto simp: st_inv_def flags_def)
    with 1(2) r Inl e have "b = False" "if inc then t = u else on_fst (remove_buildtarget target) u = (Inr (), t)"
      by (auto simp: resolve_build_def scatch_def sbind_def sret_def sget_def split: prod.splits sum.splits if_splits)
    with remove_build_step [OF u(1)] harm.rel_trans [OF u(2)] u show ?thesis by (auto split: if_splits)
  next
    case (Inr x)
    with 1(2) r a show ?thesis
      by (auto simp: resolve_build_def scatch_def sbind_def sret_def)
  qed
qed

lemma resolve_run_step:
  assumes "\<And>target. addition (add target)"
  shows "unresolved_step inc False (\<lambda>s. failed_rdeps (fst s)) (resolve_run add)"
  unfolding unresolved_step_def
proof (intro allI impI, goal_cases)
  case (1 target s b t)
  obtain r u where r: "add target s = (r, u)" by (cases "add target s")
  with assms [of target] 1(1) have a: "case r of
      Inl e \<Rightarrow> prov_exc e \<longrightarrow> st_inv (False, inc) u \<and> harmless s u | Inr x \<Rightarrow> st_inv (False, inc) u"
    unfolding addition_def by (fastforce split: sum.splits)
  show ?case
  proof (cases r)
    case (Inl e)
    with 1(2) r have e: "is_rprovider_exc e"
      by (auto simp: resolve_run_def scatch_def sbind_def sret_def split: if_splits)
    with Inl a have u: "st_inv (False, inc) u" "harmless s u" by (auto simp: prov_exc_def)
    with 1(2) r Inl e have "b = False" "on_fst (remove_runtarget target) u = (Inr (), t)"
      by (auto simp: resolve_run_def scatch_def sbind_def sret_def split: prod.splits sum.splits)
    with remove_run_step [OF u(1)] harm.rel_trans [OF u(2)] show ?thesis by blast
  next
    case (Inr x)
    with 1(2) r a show ?thesis
      by (auto simp: resolve_run_def scatch_def sbind_def sret_def)
  qed
qed

lemma scount_steps:
  assumes f: "unresolved_step inc skip failed f" and mono: "\<And>s t x. harmless s t \<Longrightarrow> x \<in> set (failed s) \<Longrightarrow> x \<in> set (failed t)"
  shows "st_inv (False, inc) s \<Longrightarrow> scount xs f s = (Inr n, t) \<Longrightarrow>
    st_inv (False, inc) t \<and> (n = 0 \<longrightarrow> harmless s t \<and> (skip \<or> set xs \<subseteq> set (failed t)))"
proof (induction xs arbitrary: s n)
  case Nil
  then show ?case by (simp add: sret_def harm.rel_refl)
next
  case (Cons x xs)
  from Cons.prems(2) obtain b u m where b: "f x s = (Inr b, u)" and m: "scount xs f u = (Inr m, t)"
    and n: "n = (if b then Suc m else m)"
    by (auto simp: sbind_eq_Inr sret_def split: if_splits)
  from f b Cons.prems(1) have u: "st_inv (False, inc) u" "\<not> b \<Longrightarrow> harmless s u \<and> (skip \<or> x \<in> set (failed u))"
    unfolding unresolved_step_def by blast+
  from Cons.IH [OF u(1) m] u(2) n show ?case
    using mono [of u t x] harm.rel_trans [of s u t] by (auto split: if_splits)
qed

text \<open>The targets a pass looks at.\<close>

definition ignored :: "(string \<Rightarrow> string \<Rightarrow> bool res) \<Rightarrow> td_state \<Rightarrow> string \<Rightarrow> bool" where
  "ignored re_match s target \<longleftrightarrow> re_match_strings re_match target (ignored_dependencies (snd s)) = Inr True"

lemma unresolved_set:
  assumes "rfold (\<lambda>target acc. rbind (m target) (\<lambda>b. Inr (if b \<or> p target then acc else acc @ [target]))) ks [] = Inr ts"
    "k \<in> set ks" "m k \<noteq> Inr True" "\<not> p k"
  shows "k \<in> set ts"
proof -
  have "\<forall>k \<in> set ks. m k = Inr True \<or> p k \<or> k \<in> set ts"
    by (rule rfold_prefix [OF assms(1), of "\<lambda>ys acc. \<forall>k \<in> set ys. m k = Inr True \<or> p k \<or> k \<in> set acc"])
      (auto simp: rbind_eq_Inr split: if_splits)
  with assms(2-4) show ?thesis by blast
qed

definition settled_build :: "(string \<Rightarrow> string \<Rightarrow> bool res) \<Rightarrow> td_state \<Rightarrow> bool" where
  "settled_build re_match s \<longleftrightarrow> (\<forall>k \<in> set (keys (build_targets (fst s))).
     ignored re_match s k \<or> k \<in> set (failed_deps (fst s)) \<or> bt (fst s) k \<noteq> [])"

definition settled_run :: "(string \<Rightarrow> string \<Rightarrow> bool res) \<Rightarrow> td_state \<Rightarrow> bool" where
  "settled_run re_match s \<longleftrightarrow> (\<forall>k \<in> set (keys (run_targets (fst s))).
     ignored re_match s k \<or> k \<in> set (failed_rdeps (fst s)) \<or> rt (fst s) k \<noteq> [])"

lemma resolve_pass_result:
  assumes "\<And>target. addition (add_build target)" "\<And>target. addition (add_run target)"
    and s: "st_inv (False, inc) s" and p: "resolve_pass re_match add_build add_run s = (Inr n, t)"
  shows "st_inv (False, inc) t \<and> (n = 0 \<longrightarrow> settled_run re_match t \<and> (inc \<or> settled_build re_match t))"
proof -
  from p obtain bs m u rs l where bs: "get_unresolved_build_targets re_match s = Inr bs"
    and m: "scount bs (resolve_build add_build) s = (Inr m, u)"
    and rs: "get_unresolved_run_targets re_match u = Inr rs"
    and l: "scount rs (resolve_run add_run) u = (Inr l, t)" and n: "n = m + l"
    by (auto simp: resolve_pass_def sbind_eq_Inr sres_def sret_def)
  from scount_steps [OF resolve_build_step [of add_build, OF assms(1)] _ s m]
  have u: "st_inv (False, inc) u" "m = 0 \<Longrightarrow> harmless s u \<and> (inc \<or> set bs \<subseteq> set (failed_deps (fst u)))"
    by (auto simp: harmless_def dest: shrinksD(11))
  from scount_steps [OF resolve_run_step [of add_run, OF assms(2)] _ u(1) l]
  have t: "st_inv (False, inc) t" "l = 0 \<Longrightarrow> harmless u t \<and> set rs \<subseteq> set (failed_rdeps (fst t))"
    by (auto simp: harmless_def dest: shrinksD(12))
  have "settled_run re_match t \<and> (inc \<or> settled_build re_match t)" if "n = 0"
  proof -
    from that n u(2) t(2) have h: "harmless s u" "inc \<or> set bs \<subseteq> set (failed_deps (fst u))"
      "harmless u t" "set rs \<subseteq> set (failed_rdeps (fst t))" by auto
    then have st: "shrinks (fst s) (fst t)" "shrinks (fst u) (fst t)"
      and ign: "ignored re_match t = ignored re_match s" "ignored re_match t = ignored re_match u"
      using harm.rel_trans [OF h(1,3)] by (auto simp: harmless_def ignored_def fun_eq_iff)
    have "ignored re_match t k \<or> k \<in> set (failed_deps (fst t)) \<or> bt (fst t) k \<noteq> []"
      if k: "k \<in> set (keys (build_targets (fst t)))" and inc: "\<not> inc" for k
    proof (rule ccontr)
      assume not: "\<not> ?thesis"
      from k have "k \<in> set (keys (build_targets (fst s)))" using shrinksD(1) [OF st(1)] by simp
      moreover have "k \<notin> set (failed_deps (fst s))" "bt (fst s) k = []"
        using not shrinksD(11,15) [OF st(1)] by blast+
      moreover have "re_match_strings re_match k (ignored_dependencies (snd s)) \<noteq> Inr True"
        using not ign(1) by (simp add: ignored_def)
      ultimately have "k \<in> set bs"
        using bs unfolding get_unresolved_build_targets_def
        by (auto split: prod.splits intro: unresolved_set [where
            p = "\<lambda>k. k \<in> set (failed_deps (fst s)) \<or> bt (fst s) k \<noteq> []"])
      with h(2) inc shrinksD(11) [OF st(2)] not show False by blast
    qed
    moreover have "ignored re_match t k \<or> k \<in> set (failed_rdeps (fst t)) \<or> rt (fst t) k \<noteq> []"
      if k: "k \<in> set (keys (run_targets (fst t)))" for k
    proof (rule ccontr)
      assume not: "\<not> ?thesis"
      from k have "k \<in> set (keys (run_targets (fst u)))" using shrinksD(2) [OF st(2)] by simp
      moreover have "k \<notin> set (failed_rdeps (fst u))" "rt (fst u) k = []"
        using not shrinksD(12,18) [OF st(2)] by blast+
      moreover have "re_match_strings re_match k (ignored_dependencies (snd u)) \<noteq> Inr True"
        using not ign(2) by (simp add: ignored_def)
      ultimately have "k \<in> set rs"
        using rs unfolding get_unresolved_run_targets_def
        by (auto split: prod.splits intro: unresolved_set [where
            p = "\<lambda>k. k \<in> set (failed_rdeps (fst u)) \<or> rt (fst u) k \<noteq> []"])
      with h(4) not show False by blast
    qed
    ultimately show ?thesis unfolding settled_build_def settled_run_def by blast
  qed
  with t(1) show ?thesis by simp
qed

lemma add_unresolved_settled:
  assumes ex: "exec_ok exec_func" and s: "td_inv (fst s)" "\<not> td_abort (fst s)"
    and r: "add_unresolved n re_match getVar exec_func s = Some (Inr (), t)"
  shows "td_inv (fst t) \<and> settled_run re_match t \<and> (allowincomplete (fst s) \<or> settled_build re_match t)"
proof -
  define inc where "inc = allowincomplete (fst s)"
  let ?pass = "resolve_pass re_match (add_provider_internal re_match getVar exec_func)
     (add_rprovider re_match getVar exec_func)"
  note pass = resolve_pass_result [of "add_provider_internal re_match getVar exec_func",
      OF add_provider_internal_addition [OF ex] add_rprovider_addition [OF ex]]
  have "resolve_loop n ?pass s = Some (Inr (), t) \<Longrightarrow> st_inv (False, inc) s \<Longrightarrow>
      st_inv (False, inc) t \<and> settled_run re_match t \<and> (inc \<or> settled_build re_match t)" for s
  proof (induction n arbitrary: s)
    case 0
    then show ?case by simp
  next
    case (Suc n)
    then obtain m u where "?pass s = (Inr m, u)"
      "(if m = 0 then Some (Inr (), u) else resolve_loop n ?pass u) = Some (Inr (), t)"
      by (auto split: prod.splits sum.splits)
    with pass [OF Suc.prems(2)] Suc.IH show ?case by (auto split: if_splits)
  qed
  moreover have "st_inv (False, inc) s" using s by (simp add: st_inv_def flags_def inc_def)
  ultimately show ?thesis using r unfolding add_unresolved_def by (auto simp: st_inv_def inc_def)
qed

section \<open>Resolving ends\<close>

text \<open>
  A pass that adds a provider either adds the tasks of a file of the cache that had not been
  seen, or leaves fewer targets without a provider.
\<close>

definition cache_files :: "cache_data \<Rightarrow> string set" where
  "cache_files dc = set (concat (dvals (cd_providers dc) @ dvals (rproviders dc) @
     dvals (cd_packages dc) @ dvals (packages_dynamic dc)))"

definition unsettled :: "taskdata \<Rightarrow> (string + string) set" where
  "unsettled s = Inl ` {k \<in> set (keys (build_targets s)). bt s k = [] \<and> k \<notin> set (failed_deps s)} \<union>
     Inr ` {k \<in> set (keys (run_targets s)). rt s k = [] \<and> k \<notin> set (failed_rdeps s)}"

definition progress :: "td_state \<Rightarrow> td_state \<Rightarrow> bool" where
  "progress s t \<longleftrightarrow> cache_files (snd t) = cache_files (snd s) \<and>
     ignored_dependencies (snd t) = ignored_dependencies (snd s) \<and>
     set (seenfns (fst s)) \<subseteq> set (seenfns (fst t)) \<and>
     set (seenfns (fst t)) \<subseteq> set (seenfns (fst s)) \<union> cache_files (snd s) \<and>
     (set (seenfns (fst t)) = set (seenfns (fst s)) \<longrightarrow> unsettled (fst t) \<subseteq> unsettled (fst s))"

interpretation prog: state_preorder progress
  by unfold_locales (auto simp: progress_def)

lemma unsettled_shrinks:
  assumes "shrinks s t"
  shows "unsettled t \<subseteq> unsettled s"
proof -
  have "bt s k = [] \<or> bt t k \<noteq> [] \<or> k \<in> set (failed_deps t)"
    "rt s k = [] \<or> rt t k \<noteq> [] \<or> k \<in> set (failed_rdeps t)" for k
    using shrinksD(15,18) [OF assms] by blast+
  then show ?thesis
    using shrinksD(1,2,11,12) [OF assms] unfolding unsettled_def
    by (intro Un_mono image_mono) auto
qed

lemma progress_shrinks:
  "shrinks (fst s) (fst t) \<Longrightarrow> cache_files (snd t) = cache_files (snd s) \<Longrightarrow>
    ignored_dependencies (snd t) = ignored_dependencies (snd s) \<Longrightarrow> progress s t"
  by (simp add: progress_def shrinksD unsettled_shrinks)

lemma on_fst_progress: "shr.keeps m \<Longrightarrow> prog.keeps (on_fst m)"
  unfolding prog.keeps_def on_fst_def
  by (auto split: prod.splits intro!: progress_shrinks dest: shr.keepsD)

lemma dget_or_dvals: "set (dget_or d k []) \<subseteq> set (concat (dvals d))"
proof (cases "map_of d k")
  case (Some v)
  then have "(k, v) \<in> set d" by (rule map_of_SomeD)
  then have "v \<in> set (dvals d)" by (force simp: dvals_def)
  with Some show ?thesis by (auto simp: dget_or_def)
qed (simp add: dget_or_def)

lemma files_of_entry:
  "set (dget_or (cd_providers dc) k []) \<subseteq> cache_files dc"
  "set (dget_or (rproviders dc) k []) \<subseteq> cache_files dc"
  "set (dget_or (cd_packages dc) k []) \<subseteq> cache_files dc"
  "set (dget_or (packages_dynamic dc) k []) \<subseteq> cache_files dc"
  using dget_or_dvals [of "cd_providers dc" k] dget_or_dvals [of "rproviders dc" k]
    dget_or_dvals [of "cd_packages dc" k] dget_or_dvals [of "packages_dynamic dc" k]
  by (auto simp: cache_files_def simp del: set_concat)

lemma dvals_dset_same:
  "map_of d k = Some v \<Longrightarrow> set w = set v \<Longrightarrow> set (concat (dvals (dset k w d))) = set (concat (dvals d))"
  by (induction d) (auto simp: dset_def dvals_def split: if_splits)

lemma cache_files_sort:
  "it \<in> set (keys (cd_providers dc)) \<Longrightarrow>
    cache_files (dc\<lparr>cd_providers := dset it (sort (dget_or (cd_providers dc) it [])) (cd_providers dc)\<rparr>) = cache_files dc"
  using dvals_dset_same [of "cd_providers dc" it _ "sort (dget_or (cd_providers dc) it [])"]
  by (auto simp: cache_files_def set_keys dget_or_def simp del: set_concat)

lemma record_preferred_files [simp]: "cache_files (record_preferred getVar it dc) = cache_files dc"
  by (simp add: record_preferred_def cache_files_def Let_def)

lemma filterProviders_dc:
  assumes "filterProviders ps it getVar dc = Inr (el, found, dc')"
  shows "dc' = record_preferred getVar it dc"
proof -
  let ?dp = "record_preferred getVar it dc"
  from assms obtain e0 where "(case map_of (cd_preferred ?dp) it of None \<Rightarrow> Inr (e0, False, ?dp)
      | Some name \<Rightarrow> (case e0 of None \<Rightarrow> Inl TypeError
          | Some es \<Rightarrow> rbind (select_named ?dp name es) (\<lambda>(es, found). Inr (Some es, found, ?dp))))
      = Inr (el, found, dc')"
    unfolding filterProviders_def rbind_eq_Inr Let_def by blast
  then show ?thesis
    by (cases "map_of (cd_preferred ?dp) it"; cases e0) (auto simp: rbind_eq_Inr)
qed

text \<open>The eligible files come from the cache.\<close>

lemma dset_vals: "snd ` set (dset k v d) \<subseteq> insert v (snd ` set d)"
  by (induction d) (auto simp: dset_def)

lemma infer_loop_subset:
  "infer_loop getVar dc pns i it el pr = Inr (el', pr') \<Longrightarrow> set el \<subseteq> X \<Longrightarrow> snd ` set pns \<subseteq> X \<Longrightarrow> set el' \<subseteq> X"
proof (induction getVar dc pns i it el pr arbitrary: el' pr' rule: infer_loop.induct)
  case (1 getVar dc pns i it el pr)
  have pick: "first_preference getVar pns preferred ps = Some f \<Longrightarrow> f \<in> snd ` set pns" for preferred ps f
    by (induction ps) (auto split: option.splits if_splits dest!: map_of_SomeD intro: rev_image_eqI)
  show ?case
  proof (cases "i < length it")
    case False
    with 1(3,4) show ?thesis by (simp add: infer_loop.simps [of _ _ _ i])
  next
    case True
    with 1(3) obtain pn where pn: "dget (pkg_fn dc) (it ! i) = Inr pn"
      by (subst (asm) infer_loop.simps) (auto simp: rbind_eq_Inr)
    show ?thesis
    proof (cases "first_preference getVar pns pr (dget_or (pn_provides dc) pn [])")
      case None
      with 1(1) [OF True None] 1(3-5) True pn show ?thesis
        by (subst (asm) (2) infer_loop.simps) simp
    next
      case (Some f)
      have "set (to_front f el) \<subseteq> X"
        using 1(4,5) pick [OF Some] by (auto simp: to_front_def dest: notin_set_remove1 set_remove1_subset [THEN subsetD])
      with 1(2) [OF True Some] 1(3,5) True pn Some show ?thesis
        by (subst (asm) (2) infer_loop.simps) simp
    qed
  qed
qed

lemma filterProvidersRunTime_subset:
  assumes "filterProvidersRunTime ps it getVar dc = Inr (Some es, n)"
  shows "set es \<subseteq> set ps"
proof -
  let ?pv = "getVar (''PREFERRED_RPROVIDER_'' @ it)"
  let ?infer = "\<lambda>e1. rbind (rfold (\<lambda>p d. rbind (dget (pkg_fn dc) p) (\<lambda>pn. Inr (dset pn p d))) e1 []) (\<lambda>pns.
     rbind (infer_loop getVar dc pns 0 e1 e1 []) (\<lambda>(es, preferred). Inr (Some es, length preferred)))"
  from assms obtain el where el: "filterProviders_aux ps it getVar dc = Inr el"
    and "(case el of None \<Rightarrow> Inl TypeError
     | Some es \<Rightarrow> rbind (if falsy ?pv then Inr (es, False) else select_named dc (the ?pv) es)
           (\<lambda>(es, found). if found then Inr (Some es, 1) else ?infer es)) = Inr (Some es, n)"
    unfolding filterProvidersRunTime_def rbind_eq_Inr Let_def by blast
  then obtain e0 e1 found where e0: "filterProviders_aux ps it getVar dc = Inr (Some e0)"
    and e1: "(if falsy ?pv then Inr (e0, False) else select_named dc (the ?pv) e0) = Inr (e1, found)"
    and r: "(if found then Inr (Some e1, 1) else ?infer e1) = Inr (Some es, n)"
    by (cases el) (simp_all only: option.case rbind_pair_eq_Inr, simp, blast)
  from filterProviders_aux_names [OF e0] have s0: "set e0 \<subseteq> set ps" by (simp add: one_per_name_def)
  have s1: "set e1 = set e0"
    using e1 by (auto split: if_splits dest!: select_named_result mset_eq_setD)
  show ?thesis
  proof (cases found)
    case True
    with r s0 s1 show ?thesis by simp
  next
    case False
    with r obtain pns preferred where
      pns: "rfold (\<lambda>p d. rbind (dget (pkg_fn dc) p) (\<lambda>pn. Inr (dset pn p d))) e1 [] = Inr pns"
      and l: "infer_loop getVar dc pns 0 e1 e1 [] = Inr (es, preferred)"
      by (auto simp: rbind_eq_Inr)
    have "snd ` set pns \<subseteq> set e1"
    proof (rule rfold_inv [OF pns, of "\<lambda>d. snd ` set d \<subseteq> set e1"])
      fix x a b
      assume x: "x \<in> set e1" and a: "snd ` set a \<subseteq> set e1"
        and "rbind (dget (pkg_fn dc) x) (\<lambda>pn. Inr (dset pn x a)) = Inr b"
      then obtain pn where "b = dset pn x a" by (auto simp: rbind_eq_Inr)
      with dset_vals [of pn x a] x a show "snd ` set b \<subseteq> set e1" by blast
    qed simp
    with infer_loop_subset [OF l] s0 s1 show ?thesis by blast
  qed
qed

text \<open>Every part of a pass makes progress, or at least does not lose any.\<close>

lemma seenfns_seen [simp]:
  "seenfns (seen_build_target n s) = seenfns s" "seenfns (seen_run_target n s) = seenfns s"
  "seenfns (add_build_target f n s) = seenfns s" "seenfns (add_runtime_target f n s) = seenfns s"
  by (simp_all add: seen_build_target_def seen_run_target_def add_build_target_def add_runtime_target_def)

text \<open>The steps of \<open>add_new_tasks\<close> leave the files seen alone.\<close>

interpretation seen: state_preorder "\<lambda>s t. seenfns t = seenfns s"
  by unfold_locales auto

lemma fail_fn_seen: "seen.keeps (fail_fn fn)"
  unfolding seen.keeps_def using fail_fn_shrinks [unfolded shr.keeps_def] by (simp add: shrinksD)

lemma check_deps_seen: "(\<And>n s. seenfns (f n s) = seenfns s) \<Longrightarrow> seen.keeps (check_deps f failed fn ds)"
  by (induction ds) (auto intro!: seen.rules seen.update fail_fn_seen)

lemma add_flag_deps_seen: "(\<And>n s. seenfns (f n s) = seenfns s) \<Longrightarrow> seen.keeps (add_flag_deps f upd tid v)"
  unfolding add_flag_deps_def by (auto intro!: seen.rules seen.update split: option.split)

lemma add_new_tasks_seen: "seen.keeps (add_new_tasks fn deps dc)"
  unfolding add_new_tasks_def add_task_def Let_def
  by (intro seen.rules seen.update check_deps_seen add_flag_deps_seen)
    (simp_all add: add_depids_def add_rdepids_def)

lemma cache_files_upd [simp]:
  "cache_files (dc\<lparr>world_target := w\<rparr>) = cache_files dc"
  "cache_files (dc\<lparr>cd_deps := d\<rparr>) = cache_files dc"
  "cache_files (dc\<lparr>pkg_pn := p\<rparr>) = cache_files dc"
  by (simp_all add: cache_files_def)

lemma add_extra_deps_files:
  assumes "add_extra_deps exec_func fn dc = Inr dc'"
  shows "cache_files dc' = cache_files dc \<and> ignored_dependencies dc' = ignored_dependencies dc"
proof -
  have w: "cache_files d = cache_files dc \<and> ignored_dependencies d = ignored_dependencies dc"
    if "buildWorldTargetList [] dc = Inr d" for d
  proof (cases "world_target dc = []")
    case False
    with that show ?thesis by (simp add: buildWorldTargetList_def)
  next
    case True
    with that have "rfold (world_file []) (possible_world dc) dc = Inr d"
      by (simp add: buildWorldTargetList_def)
    then show ?thesis
    proof (rule rfold_inv [where P = "\<lambda>d. cache_files d = cache_files dc \<and>
        ignored_dependencies d = ignored_dependencies dc"])
      fix f a b
      assume a: "cache_files a = cache_files dc \<and> ignored_dependencies a = ignored_dependencies dc"
        and "world_file [] f a = Inr b"
      then obtain w where "b = a\<lparr>world_target := w\<rparr>" using world_file_result(1) by blast
      with a show "cache_files b = cache_files dc \<and> ignored_dependencies b = ignored_dependencies dc"
        by simp
    qed simp
  qed
  with assms show ?thesis
    by (auto simp: add_extra_deps_def Let_def rbind_eq_Inr split: if_splits)
qed

lemma progress_new:
  assumes "fn \<in> cache_files (snd s)" "fn \<notin> set (seenfns (fst s))"
    "set (seenfns (fst t)) = insert fn (set (seenfns (fst s)))"
    "cache_files (snd t) = cache_files (snd s)"
    "ignored_dependencies (snd t) = ignored_dependencies (snd s)"
  shows "progress s t"
  using assms by (auto simp: progress_def)

lemma add_tasks_progress:
  assumes "fn \<in> cache_files (snd s)"
  shows "progress s (snd (add_tasks exec_func fn s))"
proof -
  obtain td dc where s: "s = (td, dc)" by force
  consider "\<exists>e. dget (cd_task_deps dc) fn = Inl e" | "fn \<in> set (failed_fns td)" | "fn \<in> set (seenfns td)"
    | deps where "dget (cd_task_deps dc) fn = Inr deps" "fn \<notin> set (failed_fns td)" "fn \<notin> set (seenfns td)"
    by (cases "dget (cd_task_deps dc) fn") auto
  then show ?thesis
  proof cases
    case (4 deps)
    let ?td = "td\<lparr>seenfns := seenfns td @ [fn]\<rparr>"
    show ?thesis
    proof (cases "add_extra_deps exec_func fn dc")
      case (Inl e)
      then show ?thesis using 4 assms
        by (intro progress_new [of fn]) (simp_all add: add_tasks_def s sm_defs on_fst_def dget_def)
    next
      case (Inr dc')
      obtain r u where r: "add_new_tasks fn deps dc' ?td = (r, u)" by (cases "add_new_tasks fn deps dc' ?td")
      with seen.keepsD [OF add_new_tasks_seen r] have "seenfns u = seenfns td @ [fn]" by simp
      with 4 Inr r assms add_extra_deps_files [OF Inr] show ?thesis
        by (intro progress_new [of fn]) (simp_all add: add_tasks_def s sm_defs on_fst_def dget_def)
    qed
  qed (auto simp: add_tasks_def s sm_defs prog.rel_refl dget_def split: sum.splits option.splits)
qed

lemma add_target_progress:
  assumes "f = add_build_target fn it \<or> f = add_runtime_target fn it"
  shows "prog.keeps (on_fst (supd f))"
proof -
  have k: "set (keys (add_target fn it t)) = insert it (set (keys t))" for t
    by (auto simp: add_target_def)
  have "unsettled (f td) \<subseteq> unsettled td" for td
    using assms unfolding unsettled_def
    by (auto simp: add_build_target_def add_runtime_target_def dget_or_add_target k split: if_splits)
  moreover have "seenfns (f td) = seenfns td" for td using assms by auto
  ultimately show ?thesis
    by (auto simp: prog.keeps_def on_fst_def supd_def progress_def split: prod.split)
qed

lemma add_all_progress:
  assumes "set es \<subseteq> F" and f: "\<And>fn. f fn = add_build_target fn it \<or> f fn = add_runtime_target fn it"
  shows "cache_files (snd s) = F \<Longrightarrow> progress s (snd (add_all f (add_tasks exec_func) es s))"
  using assms(1)
proof (induction es arbitrary: s)
  case Nil
  then show ?case by (simp add: add_all_def prog.rel_refl)
next
  case (Cons fn es)
  let ?one = "sbind (sget (\<lambda>(td, dc). fn \<in> set (failed_fns td))) (\<lambda>failed.
       if failed then sret ()
       else sbind (on_fst (supd (f fn))) (\<lambda>_. add_tasks exec_func fn))"
  have one: "progress s (snd (?one s))"
  proof (cases "fn \<in> set (failed_fns (fst s))")
    case True
    then show ?thesis by (auto simp: sm_defs prog.rel_refl split: prod.split)
  next
    case False
    obtain u where u: "on_fst (supd (f fn)) s = (Inr (), u)"
      by (cases s) (simp add: on_fst_def supd_def)
    from prog.keepsD [OF add_target_progress [OF f] u] have su: "progress s u" .
    then have "fn \<in> cache_files (snd u)" using Cons.prems by (simp add: progress_def)
    from prog.rel_trans [OF su add_tasks_progress [OF this]] False u show ?thesis
      by (cases s) (simp add: sm_defs)
  qed
  obtain r u where r: "?one s = (r, u)" by (cases "?one s")
  with one have su: "progress s u" by simp
  then have "cache_files (snd u) = F" using Cons.prems by (simp add: progress_def)
  with Cons have rest: "progress u (snd (add_all f (add_tasks exec_func) es u))" by simp
  show ?case
    unfolding add_all_def sfor_Cons using r su prog.rel_trans [OF su rest]
    by (cases r) (simp_all add: sbind_def [of ?one] add_all_def)
qed

text \<open>Adding a provider: progress, and afterwards the target has a provider or a new file was seen.\<close>

lemma eligible_build_progress:
  assumes "it \<in> set (keys (cd_providers (snd s)))"
  shows "fst (snd (eligible_build getVar it s)) = fst s \<and>
    cache_files (snd (snd (eligible_build getVar it s))) = cache_files (snd s) \<and>
    ignored_dependencies (snd (snd (eligible_build getVar it s))) = ignored_dependencies (snd s) \<and>
    (\<forall>es found. fst (eligible_build getVar it s) = Inr (es, found) \<longrightarrow>
      set es \<subseteq> cache_files (snd s) \<and> set es \<inter> set (failed_fns (fst s)) = {})"
proof -
  obtain td dc where s: "s = (td, dc)" by force
  let ?ps = "dget_or (cd_providers dc) it []"
  let ?dc = "dc\<lparr>cd_providers := dset it (sort ?ps) (cd_providers dc)\<rparr>"
  have files: "cache_files ?dc = cache_files dc" using cache_files_sort assms s by simp
  have ps: "set ?ps \<subseteq> cache_files dc"
    by (rule files_of_entry)
  show ?thesis
  proof (cases "filterProviders ?ps it getVar ?dc")
    case (Inl e)
    then show ?thesis by (simp add: eligible_build_def s sm_defs files)
  next
    case (Inr r)
    obtain el found dc' where r: "r = (el, found, dc')" by (metis prod_cases3)
    have dc': "dc' = record_preferred getVar it ?dc" by (rule filterProviders_dc [OF Inr [unfolded r]])
    have "set es \<subseteq> set ?ps" if "el = Some es" for es
      using filterProviders_result(1) [of ?ps it getVar ?dc es found dc'] Inr r that
      by (simp add: one_per_name_def)
    with ps Inr r show ?thesis
      by (cases el) (auto simp: eligible_build_def s sm_defs dc' files)
  qed
qed

lemma getRuntimeProviders_files:
  assumes "getRuntimeProviders re_match dc it = Inr ps"
  shows "set ps \<subseteq> cache_files dc"
proof (cases "dget_or (rproviders dc) it [] @ dget_or (cd_packages dc) it [] = []")
  case False
  with assms have "ps = dget_or (rproviders dc) it [] @ dget_or (cd_packages dc) it []"
    by (simp add: getRuntimeProviders_def Let_def del: append_is_Nil_conv split: if_splits)
  then show ?thesis
    using files_of_entry(2,3) [of dc it] by simp
next
  case True
  with assms have "rfold (dynamic_step re_match dc it) (keys (packages_dynamic dc)) [] = Inr ps"
    by (simp add: getRuntimeProviders_def)
  then show ?thesis
  proof (rule rfold_inv)
    fix x a b assume a: "set a \<subseteq> cache_files dc" and b: "dynamic_step re_match dc it x a = Inr b"
    let ?p = "replace ''+'' (CHR 0x5C # ''+'') x"
    from b have "b = a \<or> (\<exists>fns. map_of (packages_dynamic dc) ?p = Some fns \<and> b = a @ fns)"
      by (auto simp: dynamic_step_def Let_def rbind_eq_Inr split: if_splits option.splits)
    with a files_of_entry(4) [of dc ?p] show "set b \<subseteq> cache_files dc"
      by (auto simp: dget_or_def)
  qed simp
qed

lemma eligible_run_progress:
  assumes "set ps \<subseteq> cache_files (snd s)"
  shows "snd (eligible_run getVar ps it s) = s \<and>
    (\<forall>es n. fst (eligible_run getVar ps it s) = Inr (es, n) \<longrightarrow>
      set es \<subseteq> cache_files (snd s) \<and> set es \<inter> set (failed_fns (fst s)) = {})"
proof -
  obtain td dc where s: "s = (td, dc)" by force
  show ?thesis
  proof (cases "filterProvidersRunTime ps it getVar dc")
    case (Inl e)
    then show ?thesis by (simp add: eligible_run_def s sm_defs)
  next
    case (Inr r)
    then show ?thesis
      using filterProvidersRunTime_subset [of ps it getVar dc] assms
      by (cases r; cases "fst r") (auto simp: eligible_run_def s sm_defs)
  qed
qed

lemma consider_message_result:
  "\<exists>r l. consider_message es it s = (r, ((fst s)\<lparr>consider_msgs_cache := l\<rparr>, snd s))"
proof -
  obtain td dc where s: "s = (td, dc)" by force
  let ?m = "if it \<notin> set (consider_msgs_cache td) then rmap (dget (pkg_fn dc)) es else Inr []"
  show ?thesis
  proof (cases ?m)
    case (Inl e)
    then have "consider_message es it s = (Inl e, (td\<lparr>consider_msgs_cache := consider_msgs_cache td\<rparr>, dc))"
      by (simp add: consider_message_def s sm_defs)
    then show ?thesis unfolding s fst_conv snd_conv by blast
  next
    case (Inr x)
    then have "consider_message es it s = (Inr (), (td\<lparr>consider_msgs_cache := consider_msgs_cache td @ [it]\<rparr>, dc))"
      by (simp add: consider_message_def s sm_defs on_fst_def)
    then show ?thesis unfolding s fst_conv snd_conv by blast
  qed
qed

lemma progress_message: "progress s ((fst s)\<lparr>consider_msgs_cache := l\<rparr>, snd s)"
  by (simp add: progress_def unsettled_def)

definition settles :: "(string \<Rightarrow> string + string) \<Rightarrow> string \<Rightarrow> td_state \<Rightarrow> td_state \<Rightarrow> bool" where
  "settles side it s t \<longleftrightarrow> set (seenfns (fst t)) = set (seenfns (fst s)) \<longrightarrow> side it \<notin> unsettled (fst t)"

lemma add_all_settles:
  assumes f: "f = (\<lambda>fn. add_build_target fn it) \<and> side = Inl \<or> f = (\<lambda>fn. add_runtime_target fn it) \<and> side = Inr"
    and es: "es \<noteq> []" "set es \<subseteq> cache_files (snd s)" "set es \<inter> set (failed_fns (fst s)) = {}"
    and t: "add_all f (add_tasks exec_func) es s = (Inr (), t)"
  shows "settles side it s t"
proof -
  obtain fn fs where fs: "es = fn # fs" using es(1) by (cases es) auto
  have fn: "f g = add_build_target g it \<or> f g = add_runtime_target g it" for g using f by auto
  let ?u = "(f fn (fst s), snd s)"
  have u: "on_fst (supd (f fn)) s = (Inr (), ?u)" by (cases s) (simp add: on_fst_def supd_def)
  have nf: "fn \<notin> set (failed_fns (fst s))" using es(3) fs by auto
  from t obtain v where v: "add_tasks exec_func fn ?u = (Inr (), v)"
    and r: "add_all f (add_tasks exec_func) fs v = (Inr (), t)"
    using nf u unfolding add_all_def fs sfor_Cons by (cases s) (auto simp: sbind_eq_Inr sget_def)
  have "side it \<notin> unsettled (fst ?u)"
    using f by (auto simp: unsettled_def add_build_target_def add_runtime_target_def dget_or_add_target
        split: if_splits)
  moreover have su: "progress s ?u" using prog.keepsD [OF add_target_progress [OF fn] u] .
  have uv: "progress ?u v"
    using add_tasks_progress [of fn ?u exec_func] es(2) fs v by simp
  have vt: "progress v t"
    using add_all_progress [of fs "cache_files (snd s)" f it v exec_func, OF _ fn] es(2) fs r uv
    by (simp add: progress_def)
  from prog.rel_trans [OF uv vt] su have
    "set (seenfns (fst t)) = set (seenfns (fst s)) \<longrightarrow> unsettled (fst t) \<subseteq> unsettled (fst ?u)"
    by (auto simp: progress_def)
  ultimately show ?thesis by (auto simp: settles_def)
qed

text \<open>The additions themselves, and one target of a pass.\<close>

definition makes_progress :: "(string \<Rightarrow> string + string) \<Rightarrow> (string \<Rightarrow> string \<Rightarrow> bool res) \<Rightarrow>
    (string \<Rightarrow> (td_state, unit) sm) \<Rightarrow> bool" where
  "makes_progress side re_match add \<longleftrightarrow> (\<forall>it s. progress s (snd (add it s)) \<and>
     (fst (add it s) = Inr () \<longrightarrow> ignored re_match s it \<or> settles side it s (snd (add it s))))"

lemma settles_trans: "progress s t \<Longrightarrow> set (seenfns (fst t)) = set (seenfns (fst s)) \<Longrightarrow>
    settles side it t u \<Longrightarrow> settles side it s u"
  by (simp add: settles_def)

lemma add_provider_internal_progress:
  "makes_progress Inl re_match (add_provider_internal re_match getVar exec_func)"
  unfolding makes_progress_def
proof (intro allI)
  fix it s
  let ?f = "\<lambda>fn. add_build_target fn it"
  let ?add = "add_provider_internal re_match getVar exec_func it s"
  obtain td dc where s: "s = (td, dc)" by force
  let ?ign = "re_match_strings re_match it (ignored_dependencies dc)"
  let ?early = "(\<exists>e. ?ign = Inl e) \<or> ?ign = Inr True \<or> it \<notin> set (keys (cd_providers dc)) \<or> have_build_target td it"
  show "progress s (snd ?add) \<and> (fst ?add = Inr () \<longrightarrow> ignored re_match s it \<or> settles Inl it s (snd ?add))"
  proof (cases ?early)
    case True
    then show ?thesis
      by (auto simp: add_provider_internal_def s sm_defs ignored_def settles_def unsettled_def
          have_build_target_def prog.rel_refl split: sum.split)
  next
    case False
    then have it: "it \<in> set (keys (cd_providers (snd s)))" and h: "\<not> have_build_target td it"
      by (simp_all add: s)
    from False have ign: "?ign = Inr False" by (cases ?ign) auto
    obtain r u where r: "eligible_build getVar it s = (r, u)" by (cases "eligible_build getVar it s")
    from eligible_build_progress [OF it, of getVar] r have u: "fst u = fst s"
      "cache_files (snd u) = cache_files (snd s)" "ignored_dependencies (snd u) = ignored_dependencies (snd s)"
      and es: "\<And>es found. r = Inr (es, found) \<Longrightarrow> set es \<subseteq> cache_files (snd s) \<and>
        set es \<inter> set (failed_fns (fst s)) = {}" by simp_all
    have su: "progress s u" by (rule progress_shrinks) (simp_all add: u shrinks_refl)
    have add: "?add = (case r of Inl e \<Rightarrow> (Inl e, u) | Inr (es, found) \<Rightarrow>
        (if es = [] then sraise (NoProvider it)
         else sbind (if length es > 1 \<and> \<not> found then consider_message es it else sret ()) (\<lambda>_.
           add_all ?f (add_tasks exec_func) es)) u)"
      using ign it h r
      by (simp add: add_provider_internal_def s sbind_def [of "sres _"] sbind_def [of "sget _"] sres_def sget_def)
        (cases r; simp add: sbind_def [of "eligible_build _ _"] split: prod.split)
    show ?thesis
    proof (cases r)
      case (Inl e)
      with add su show ?thesis by simp
    next
      case (Inr p)
      obtain es found where p: "p = (es, found)" by force
      show ?thesis
      proof (cases "es = []")
        case True
        with add Inr p su show ?thesis by (simp add: sraise_def)
      next
        case False
        obtain q l where v: "(if length es > 1 \<and> \<not> found then consider_message es it else sret ()) u =
            (q, ((fst u)\<lparr>consider_msgs_cache := l\<rparr>, snd u))"
        proof (cases "length es > 1 \<and> \<not> found")
          case True
          with consider_message_result [of es it u] that show ?thesis by auto
        next
          case False
          show ?thesis
            by (rule that [of "Inr ()" "consider_msgs_cache (fst u)"], unfold if_not_P [OF False] sret_def) simp
        qed
        let ?v = "((fst u)\<lparr>consider_msgs_cache := l\<rparr>, snd u)"
        have sv: "progress s ?v" by (rule prog.rel_trans [OF su progress_message])
        have es': "set es \<subseteq> cache_files (snd ?v)" "set es \<inter> set (failed_fns (fst ?v)) = {}"
          using es Inr p u by simp_all
        have pv: "progress ?v (snd (add_all ?f (add_tasks exec_func) es ?v))"
          by (rule add_all_progress [where it = it, OF es'(1)]) simp_all
        have st: "fst (add_all ?f (add_tasks exec_func) es ?v) = Inr () \<Longrightarrow>
            settles Inl it ?v (snd (add_all ?f (add_tasks exec_func) es ?v))"
          by (rule add_all_settles [of ?f it Inl es ?v exec_func, OF _ False es']) (auto simp: prod_eq_iff)
        have "?add = (case q of Inl e \<Rightarrow> (Inl e, ?v) | Inr _ \<Rightarrow> add_all ?f (add_tasks exec_func) es ?v)"
          using add Inr p False v by (simp add: sbind_def)
        then show ?thesis
          using sv pv prog.rel_trans [OF sv pv] settles_trans [OF sv _ st] u(1)
          by (cases q) auto
      qed
    qed
  qed
qed

lemma add_rprovider_progress:
  "makes_progress Inr re_match (add_rprovider re_match getVar exec_func)"
  unfolding makes_progress_def
proof (intro allI)
  fix it s
  let ?f = "\<lambda>fn. add_runtime_target fn it"
  let ?add = "add_rprovider re_match getVar exec_func it s"
  obtain td dc where s: "s = (td, dc)" by force
  let ?ign = "re_match_strings re_match it (ignored_dependencies dc)"
  let ?ps = "getRuntimeProviders re_match dc it"
  let ?early = "(\<exists>e. ?ign = Inl e) \<or> ?ign = Inr True \<or> have_runtime_target td it \<or>
    (\<exists>e. ?ps = Inl e) \<or> ?ps = Inr []"
  show "progress s (snd ?add) \<and> (fst ?add = Inr () \<longrightarrow> ignored re_match s it \<or> settles Inr it s (snd ?add))"
  proof (cases ?early)
    case True
    then show ?thesis
      by (auto simp: add_rprovider_def s sm_defs ignored_def settles_def unsettled_def
          have_runtime_target_def prog.rel_refl split: sum.split)
  next
    case False
    then obtain ps where ign: "?ign = Inr False" and h: "\<not> have_runtime_target td it" and ps: "?ps = Inr ps" "ps \<noteq> []"
      by (cases ?ign; cases ?ps) auto
    have psf: "set ps \<subseteq> cache_files (snd s)" using getRuntimeProviders_files [OF ps(1)] s by simp
    obtain r where r: "eligible_run getVar ps it s = (r, s)"
      and es: "\<And>es n. r = Inr (es, n) \<Longrightarrow> set es \<subseteq> cache_files (snd s) \<and>
        set es \<inter> set (failed_fns (fst s)) = {}"
      using eligible_run_progress [OF psf, of getVar it] by (cases "eligible_run getVar ps it s") simp
    let ?rest = "\<lambda>es n. if n > 1 then sbind (consider_message es it) (\<lambda>_. sraise (MultipleRProvider it))
       else add_all ?f (add_tasks exec_func) es"
    have add: "?add = (case r of Inl e \<Rightarrow> (Inl e, s) | Inr (es, n) \<Rightarrow>
        (if es = [] then sraise (NoRProvider it)
         else sbind (if length es > 1 \<and> n = 0 then consider_message es it else sret ()) (\<lambda>_. ?rest es n)) s)"
      using ign h r ps
      by (simp add: add_rprovider_def s sbind_def [of "sres _"] sbind_def [of "sget _"] sres_def sget_def)
        (cases r; simp add: s sbind_def [of "eligible_run _ _ _"] split: prod.split)
    show ?thesis
    proof (cases r)
      case (Inl e)
      with add show ?thesis by (simp add: prog.rel_refl)
    next
      case (Inr p)
      obtain es n where p: "p = (es, n)" by force
      show ?thesis
      proof (cases "es = []")
        case True
        with add Inr p show ?thesis by (simp add: sraise_def prog.rel_refl)
      next
        case False
        obtain q l where v: "(if length es > 1 \<and> n = 0 then consider_message es it else sret ()) s =
            (q, ((fst s)\<lparr>consider_msgs_cache := l\<rparr>, snd s))"
        proof (cases "length es > 1 \<and> n = 0")
          case True
          with consider_message_result [of es it s] that show ?thesis by auto
        next
          case False
          show ?thesis
            by (rule that [of "Inr ()" "consider_msgs_cache (fst s)"], unfold if_not_P [OF False] sret_def) simp
        qed
        let ?v = "((fst s)\<lparr>consider_msgs_cache := l\<rparr>, snd s)"
        have sv: "progress s ?v" by (rule progress_message)
        have es': "set es \<subseteq> cache_files (snd ?v)" "set es \<inter> set (failed_fns (fst ?v)) = {}"
          using es Inr p by simp_all
        have pv: "progress ?v (snd (add_all ?f (add_tasks exec_func) es ?v))"
          by (rule add_all_progress [where it = it, OF es'(1)]) simp_all
        have st: "fst (add_all ?f (add_tasks exec_func) es ?v) = Inr () \<Longrightarrow>
            settles Inr it ?v (snd (add_all ?f (add_tasks exec_func) es ?v))"
          by (rule add_all_settles [of ?f it Inr es ?v exec_func, OF _ False es']) (auto simp: prod_eq_iff)
        have m: "progress ?v (snd (sbind (consider_message es it) (\<lambda>_. sraise (MultipleRProvider it)) ?v)) \<and>
            fst (sbind (consider_message es it) (\<lambda>_. sraise (MultipleRProvider it)) ?v) \<noteq> Inr ()"
          using consider_message_result [of es it ?v] progress_message [of ?v]
          by (auto simp: sbind_def sraise_def split: sum.splits)
        have "?add = (case q of Inl e \<Rightarrow> (Inl e, ?v) | Inr _ \<Rightarrow> ?rest es n ?v)"
          using add Inr p False v by (simp add: sbind_def)
        then show ?thesis
          using sv m prog.rel_trans [OF sv pv] prog.rel_trans [OF sv conjunct1 [OF m]] settles_trans [OF sv _ st]
          by (cases q) auto
      qed
    qed
  qed
qed

text \<open>A pass that added something made progress.\<close>

definition resolves :: "(string \<Rightarrow> string + string) \<Rightarrow> (string \<Rightarrow> string \<Rightarrow> bool res) \<Rightarrow>
    (string \<Rightarrow> (td_state, bool) sm) \<Rightarrow> bool" where
  "resolves side re_match f \<longleftrightarrow> (\<forall>it s b t. f it s = (Inr b, t) \<longrightarrow> progress s t \<and>
     (b \<longrightarrow> ignored re_match s it \<or> settles side it s t))"

lemma resolve_build_resolves:
  assumes "makes_progress Inl re_match add"
  shows "resolves Inl re_match (resolve_build add)"
  unfolding resolves_def
proof (intro allI impI)
  fix it s b t assume r: "resolve_build add it s = (Inr b, t)"
  obtain q u where q: "add it s = (q, u)" by (cases "add it s")
  with assms have su: "progress s u" "q = Inr () \<Longrightarrow> ignored re_match s it \<or> settles Inl it s u"
    unfolding makes_progress_def by (metis snd_conv, metis fst_conv snd_conv)
  show "progress s t \<and> (b \<longrightarrow> ignored re_match s it \<or> settles Inl it s t)"
  proof (cases q)
    case (Inl e)
    let ?h = "sbind (sget (\<lambda>(td, dc). td)) (\<lambda>td.
         if td_abort td \<and> it \<in> set (external_targets td) \<and> \<not> allowincomplete td then sraise e
         else if \<not> allowincomplete td then sbind (on_fst (remove_buildtarget it)) (\<lambda>_. sret False)
           else sret False)"
    have "?h u = (Inr b, t)" and "\<not> b"
      using r q Inl by (auto simp: resolve_build_def scatch_def sbind_eq_Inr sbind_def [of "add it"] sret_def
          sget_def sraise_def split: if_splits prod.splits)
    moreover have "prog.keeps ?h"
      by (intro prog.rules on_fst_progress remove_buildtarget_shrinks)
    ultimately show ?thesis using prog.keepsD prog.rel_trans [OF su(1)] by blast
  next
    case (Inr x)
    with r q su show ?thesis by (auto simp: resolve_build_def scatch_def sbind_def sret_def)
  qed
qed

lemma resolve_run_resolves:
  assumes "makes_progress Inr re_match add"
  shows "resolves Inr re_match (resolve_run add)"
  unfolding resolves_def
proof (intro allI impI)
  fix it s b t assume r: "resolve_run add it s = (Inr b, t)"
  obtain q u where q: "add it s = (q, u)" by (cases "add it s")
  with assms have su: "progress s u" "q = Inr () \<Longrightarrow> ignored re_match s it \<or> settles Inr it s u"
    unfolding makes_progress_def by (metis snd_conv, metis fst_conv snd_conv)
  show "progress s t \<and> (b \<longrightarrow> ignored re_match s it \<or> settles Inr it s t)"
  proof (cases q)
    case (Inl e)
    let ?h = "sbind (on_fst (remove_runtarget it)) (\<lambda>_. sret False)"
    have "?h u = (Inr b, t)" and "\<not> b"
      using r q Inl by (auto simp: resolve_run_def scatch_def sbind_eq_Inr sbind_def [of "add it"] sret_def
          split: if_splits prod.splits)
    moreover have "prog.keeps ?h"
      by (intro prog.rules on_fst_progress remove_runtarget_shrinks)
    ultimately show ?thesis using prog.keepsD prog.rel_trans [OF su(1)] by blast
  next
    case (Inr x)
    with r q su show ?thesis by (auto simp: resolve_run_def scatch_def sbind_def sret_def)
  qed
qed

lemma ignored_progress: "progress s t \<Longrightarrow> ignored re_match t = ignored re_match s"
  by (simp add: progress_def ignored_def fun_eq_iff)

lemma scount_progress:
  assumes f: "resolves side re_match f"
  shows "scount xs f s = (Inr n, t) \<Longrightarrow> progress s t \<and>
    (0 < n \<longrightarrow> set (seenfns (fst t)) = set (seenfns (fst s)) \<longrightarrow>
      (\<exists>x \<in> set xs. ignored re_match s x \<or> side x \<notin> unsettled (fst t)))"
proof (induction xs arbitrary: s n)
  case Nil
  then show ?case by (simp add: sret_def prog.rel_refl)
next
  case (Cons x xs)
  from Cons.prems obtain b u m where b: "f x s = (Inr b, u)" and m: "scount xs f u = (Inr m, t)"
    and n: "n = (if b then Suc m else m)"
    by (auto simp: sbind_eq_Inr sret_def split: if_splits)
  from f b have su: "progress s u" "b \<Longrightarrow> ignored re_match s x \<or> settles side x s u"
    unfolding resolves_def by blast+
  note IH = Cons.IH [OF m]
  have seen: "set (seenfns (fst u)) = set (seenfns (fst s)) \<and> set (seenfns (fst t)) = set (seenfns (fst u))"
    if "set (seenfns (fst t)) = set (seenfns (fst s))"
    using that su(1) IH unfolding progress_def by blast
  have "\<exists>x \<in> set (x # xs). ignored re_match s x \<or> side x \<notin> unsettled (fst t)"
    if "0 < n" and same: "set (seenfns (fst t)) = set (seenfns (fst s))"
  proof (cases b)
    case True
    with su(2) seen [OF same] IH have "ignored re_match s x \<or> side x \<notin> unsettled (fst t)"
      unfolding settles_def progress_def by blast
    then show ?thesis by simp
  next
    case False
    with that(1) n IH seen [OF same] ignored_progress [OF su(1), of re_match] show ?thesis by auto
  qed
  with IH prog.rel_trans [OF su(1)] show ?case by blast
qed

lemma unresolved_members:
  assumes "rfold (\<lambda>target acc. rbind (m target) (\<lambda>b. Inr (if b \<or> p target then acc else acc @ [target]))) ks [] = Inr ts"
  shows "\<forall>k \<in> set ts. k \<in> set ks \<and> m k = Inr False \<and> \<not> p k"
  by (rule rfold_prefix [OF assms, of "\<lambda>ys acc. \<forall>k \<in> set acc. k \<in> set ks \<and> m k = Inr False \<and> \<not> p k"])
    (auto simp: rbind_eq_Inr split: if_splits)

lemma resolve_pass_progress:
  assumes "makes_progress Inl re_match add_build" "makes_progress Inr re_match add_run"
    and p: "resolve_pass re_match add_build add_run s = (Inr n, t)"
  shows "progress s t \<and> (0 < n \<longrightarrow> set (seenfns (fst t)) = set (seenfns (fst s)) \<longrightarrow>
    unsettled (fst t) \<subset> unsettled (fst s))"
proof -
  from p obtain bs m u rs l where bs: "get_unresolved_build_targets re_match s = Inr bs"
    and m: "scount bs (resolve_build add_build) s = (Inr m, u)"
    and rs: "get_unresolved_run_targets re_match u = Inr rs"
    and l: "scount rs (resolve_run add_run) u = (Inr l, t)" and n: "n = m + l"
    by (auto simp: resolve_pass_def sbind_eq_Inr sres_def sret_def)
  note su = scount_progress [OF resolve_build_resolves [OF assms(1)] m]
  note ut = scount_progress [OF resolve_run_resolves [OF assms(2)] l]
  have st: "progress s t" using su ut prog.rel_trans by blast
  have "rfold (\<lambda>k acc. rbind (re_match_strings re_match k (ignored_dependencies (snd s))) (\<lambda>b.
      Inr (if b \<or> (k \<in> set (failed_deps (fst s)) \<or> bt (fst s) k \<noteq> []) then acc else acc @ [k])))
      (keys (build_targets (fst s))) [] = Inr bs"
    using bs by (cases s) (simp add: get_unresolved_build_targets_def disj_assoc)
  note mem = unresolved_members [OF this, rule_format]
  have b: "Inl k \<in> unsettled (fst s) \<and> \<not> ignored re_match s k" if "k \<in> set bs" for k
    using mem [OF that] by (simp add: unsettled_def ignored_def)
  have "rfold (\<lambda>k acc. rbind (re_match_strings re_match k (ignored_dependencies (snd u))) (\<lambda>b.
      Inr (if b \<or> (k \<in> set (failed_rdeps (fst u)) \<or> rt (fst u) k \<noteq> []) then acc else acc @ [k])))
      (keys (run_targets (fst u))) [] = Inr rs"
    using rs by (cases u) (simp add: get_unresolved_run_targets_def disj_assoc)
  note mem = unresolved_members [OF this, rule_format]
  have r: "Inr k \<in> unsettled (fst u) \<and> \<not> ignored re_match u k" if "k \<in> set rs" for k
    using mem [OF that] by (simp add: unsettled_def ignored_def)
  have "unsettled (fst t) \<subset> unsettled (fst s)"
    if pos: "0 < n" and same: "set (seenfns (fst t)) = set (seenfns (fst s))"
  proof -
    have seen: "set (seenfns (fst u)) = set (seenfns (fst s))" "set (seenfns (fst t)) = set (seenfns (fst u))"
      using same su ut unfolding progress_def by blast+
    then have sub: "unsettled (fst u) \<subseteq> unsettled (fst s)" "unsettled (fst t) \<subseteq> unsettled (fst u)"
      using su ut unfolding progress_def by blast+
    consider "0 < m" | "0 < l" using pos n by auto
    then show ?thesis
    proof cases
      case 1
      with su seen(1) b obtain k where "Inl k \<in> unsettled (fst s)" "Inl k \<notin> unsettled (fst u)" by blast
      with sub show ?thesis by blast
    next
      case 2
      with ut seen(2) r obtain k where "Inr k \<in> unsettled (fst u)" "Inr k \<notin> unsettled (fst t)" by blast
      with sub show ?thesis by blast
    qed
  qed
  with st show ?thesis by blast
qed

text \<open>So the loop ends: some number of passes is enough.\<close>

lemma finite_files: "finite (cache_files dc)"
  by (simp add: cache_files_def)

lemma finite_unsettled: "finite (unsettled td)"
  by (simp add: unsettled_def)

lemma resolve_loop_returns:
  assumes pass: "\<And>s n t. pass s = (Inr n, t) \<Longrightarrow> progress s t \<and>
    (0 < n \<longrightarrow> set (seenfns (fst t)) = set (seenfns (fst s)) \<longrightarrow> unsettled (fst t) \<subset> unsettled (fst s))"
  shows "\<exists>n. resolve_loop n pass s \<noteq> None"
proof (induction s rule: wf_induct [OF wf_measures [of "[\<lambda>s. card (cache_files (snd s) - set (seenfns (fst s))),
    \<lambda>s. card (unsettled (fst s))]"]])
  case (1 s)
  obtain r t where r: "pass s = (r, t)" by (cases "pass s")
  show ?case
  proof (cases "\<exists>n. r = Inr n \<and> 0 < n")
    case False
    with r have "resolve_loop (Suc 0) pass s \<noteq> None" by (auto split: sum.split)
    then show ?thesis ..
  next
    case True
    then obtain n where n: "r = Inr n" "0 < n" by blast
    with pass [of s n t] r have st: "progress s t"
      and u: "set (seenfns (fst t)) = set (seenfns (fst s)) \<Longrightarrow> unsettled (fst t) \<subset> unsettled (fst s)" by auto
    let ?new = "\<lambda>s. cache_files (snd s) - set (seenfns (fst s))"
    have "\<exists>n. resolve_loop n pass t \<noteq> None"
    proof (cases "set (seenfns (fst t)) = set (seenfns (fst s))")
      case True
      then have "card (unsettled (fst t)) < card (unsettled (fst s))"
        by (intro psubset_card_mono finite_unsettled u)
      moreover have "?new t = ?new s" using True st by (simp add: progress_def)
      ultimately show ?thesis by (intro 1 [rule_format]) simp
    next
      case False
      then have "?new t \<subset> ?new s" using st unfolding progress_def by blast
      then have "card (?new t) < card (?new s)" by (intro psubset_card_mono) (simp_all add: finite_files)
      then show ?thesis by (intro 1 [rule_format]) simp
    qed
    then obtain m where "resolve_loop m pass t \<noteq> None" ..
    with r n have "resolve_loop (Suc m) pass s \<noteq> None" by simp
    then show ?thesis ..
  qed
qed

lemma add_unresolved_returns: "\<exists>n. add_unresolved n re_match getVar exec_func s \<noteq> None"
  unfolding add_unresolved_def
  by (rule resolve_loop_returns)
    (rule resolve_pass_progress [OF add_provider_internal_progress add_rprovider_progress])

lemma resolve_loop_mono: "resolve_loop n pass s = Some r \<Longrightarrow> n \<le> m \<Longrightarrow> resolve_loop m pass s = Some r"
proof (induction n arbitrary: m s)
  case (Suc n)
  then show ?case by (cases m) (auto split: prod.splits sum.splits if_splits)
qed simp

section \<open>Properties\<close>

lemma add_provider_inv:
  assumes ex: "exec_ok exec_func" and s: "td_inv (fst s)" "\<not> td_abort (fst s)"
    and r: "add_provider re_match getVar exec_func it s = (Inr (), t)"
  shows "td_inv (fst t) \<and> it \<in> set (external_targets (fst t))"
proof -
  let ?add = "add_provider_internal re_match getVar exec_func it"
  let ?P = "\<lambda>u. td_inv (fst u) \<and> \<not> td_abort (fst u)"
  have st: "st_inv (False, allowincomplete (fst s)) s"
    using s by (simp add: st_inv_def flags_def)
  obtain q u where q: "?add s = (q, u)" by (cases "?add s")
  have "case ?add s of (Inl e, t) \<Rightarrow> \<not> fst (False, allowincomplete (fst s)) \<longrightarrow> prov_exc e \<longrightarrow>
        st_inv (False, allowincomplete (fst s)) t \<and> harmless s t
      | (Inr x, t) \<Rightarrow> st_inv (False, allowincomplete (fst s)) t"
    by (rule add_provider_internal_addition [OF ex, unfolded addition_def, THEN spec, THEN spec, THEN mp, OF st])
  then have a: "case q of Inl e \<Rightarrow> prov_exc e \<longrightarrow> ?P u | Inr x \<Rightarrow> ?P u"
    unfolding q by (cases q) (simp_all add: st_inv_def flags_def)
  have "\<exists>v. td_inv (fst v) \<and> t = (fst v\<lparr>external_targets := sadd it (external_targets (fst v))\<rparr>, snd v)"
  proof (cases q)
    case (Inl e)
    with r q have e: "is_NoProvider e"
      by (auto simp: add_provider_def scatch_def sbind_def split: if_splits)
    with Inl a have u: "?P u" by (auto simp: prov_exc_def)
    with r q Inl e obtain v where v: "remove_buildtarget it (fst u) = (Inr (), v)"
      and t: "t = (mark_external_target it v, snd u)"
      by (auto simp: add_provider_def scatch_def sbind_def sget_def on_fst_def supd_def
          split: prod.splits sum.splits)
    from remove_inv(1) [OF conjunct1 [OF u] v] t show ?thesis
      by (intro exI [of _ "(v, snd u)"]) (simp add: mark_external_target_def)
  next
    case (Inr x)
    with a have u: "?P u" by simp
    with r q Inr show ?thesis
      by (intro exI [of _ u]) (auto simp: add_provider_def scatch_def sbind_def on_fst_def supd_def
          mark_external_target_def split: prod.splits)
  qed
  then show ?thesis by (auto simp: td_inv_def clean_def closed_except_def sadd_def)
qed

text \<open>A file \<open>x\<close> whose only build dependency is provided by one other file, \<open>l\<close>.\<close>

definition td_example :: taskdata where
  "td_example = (init_taskdata False True [] False)\<lparr>
     build_targets := [(''x'', [''x.bb'']), (''l'', [''l.bb''])],
     taskentries := [(''x.bb:do_c'', \<lparr>tdepends = [], idepends = [(''l'', ''do_c'')], irdepends = []\<rparr>),
       (''l.bb:do_c'', \<lparr>tdepends = [], idepends = [], irdepends = []\<rparr>)],
     depids := [(''x.bb'', [''l'']), (''l.bb'', [])],
     rdepids := [(''x.bb'', []), (''l.bb'', [])]\<rparr>"

lemma td_example_inv: "td_inv td_example"
  by (auto simp: td_inv_def clean_def closed_except_def td_example_def init_taskdata_def dget_or_def)

text \<open>
  C10. Failing a file fails exactly the files that cannot be built without it: the least set
  that holds the file and every file that depends, by its recipe or one of its tasks, on a
  target all of whose providers are in the set.
\<close>

theorem fail_fn_exact:
  assumes "td_inv s" "fail_fn fn s = (Inr (), t)"
  shows "set (failed_fns t) = set (failed_fns s) \<union> {f. unbuildable s fn f} \<and> td_inv t"
proof -
  have "closed_except {fn} s" using assms(1) by (auto simp: td_inv_def closed_except_def)
  with assms fail_fn_inv fail_fn_unbuildable show ?thesis by (auto simp: td_inv_def)
qed

lemma fail_fn_exact_witness:
  "{f. unbuildable td_example ''l.bb'' f} = {''l.bb'', ''x.bb''}"
proof -
  have "case fail_fn ''l.bb'' td_example of (r, t) \<Rightarrow> r = Inr () \<and> failed_fns t = [''l.bb'', ''x.bb'']"
    by code_simp
  then obtain t where t: "fail_fn ''l.bb'' td_example = (Inr (), t)" "failed_fns t = [''l.bb'', ''x.bb'']"
    by (cases "fail_fn ''l.bb'' td_example") auto
  have "failed_fns td_example = []" by (simp add: td_example_def init_taskdata_def)
  with fail_fn_exact [OF td_example_inv t(1)] t(2) show ?thesis by auto
qed

text \<open>
  C38. The mutual recursion of \<open>fail_fn\<close>, \<open>remove_buildtarget\<close> and
  \<open>remove_runtarget\<close> ends: the depth the model allows is never used up, and a task data
  that does not abort ends it without an exception.
\<close>

theorem fail_fn_returns:
  "fst (fail_fn fn s) \<noteq> Inl OutOfFuel \<and> (td_abort s \<or> (\<exists>t. fail_fn fn s = (Inr (), t)))"
  using fail_fn_fuel_enough [of fn s] fail_fn_total [of s fn] by blast

text \<open>
  \<open>add_provider\<close> keeps the invariant, also when no provider is found and the target is
  removed: no target lists a file twice or a failed file, and every file that needs a failed
  target has failed.  The target is an external target afterwards.
\<close>

theorem add_provider_correct:
  assumes "exec_ok exec_func" "td_inv (fst s)" "\<not> td_abort (fst s)"
    "add_provider re_match getVar exec_func it s = (Inr (), t)"
  shows "td_inv (fst t) \<and> it \<in> set (external_targets (fst t))"
  by (rule add_provider_inv [OF assms])

lemma add_provider_correct_witness:
  "\<exists>t :: td_state. failed_deps (fst t) = [''u''] \<and> td_inv (fst t) \<and> ''u'' \<in> set (external_targets (fst t))"
proof -
  let ?r = "add_provider (\<lambda>_ _. Inr False) (\<lambda>_. None) (\<lambda>_ _. Inr) ''u'' (td_example, init_cacheData)"
  have "case ?r of (r, t) \<Rightarrow> r = Inr () \<and> failed_deps (fst t) = [''u'']" by code_simp
  then obtain t where t: "?r = (Inr (), t)" "failed_deps (fst t) = [''u'']" by (cases ?r) auto
  have ex: "exec_ok (\<lambda>_ _. Inr)" by (simp add: exec_ok_def)
  have inv: "td_inv (fst (td_example, init_cacheData))" by (simp add: td_example_inv)
  have ab: "\<not> td_abort (fst (td_example, init_cacheData))" by (simp add: td_example_def init_taskdata_def)
  show ?thesis by (rule exI [of _ t], rule conjI [OF t(2)], rule add_provider_correct [OF ex inv ab t(1)])
qed

text \<open>
  C11. For task data that does not abort on errors: once \<open>add_unresolved\<close> returns, every
  runtime target is ignored, has failed, or has a provider, and so is every build target unless
  incomplete builds are allowed; the invariant holds.  The functions of the recipes must not raise
  the exceptions on missing providers themselves.  With \<open>abort\<close> none of this holds: an
  exception on a required target can be lost (\<open>abort_is_lost\<close> below).
\<close>

theorem add_unresolved_correct:
  assumes "exec_ok exec_func" "td_inv (fst s)" "\<not> td_abort (fst s)"
    "add_unresolved n re_match getVar exec_func s = Some (Inr (), t)"
  shows "settled_run re_match t \<and> (allowincomplete (fst s) \<or> settled_build re_match t) \<and> td_inv (fst t)"
  using add_unresolved_settled [OF assms] by blast

lemma add_unresolved_correct_witness:
  "\<exists>t :: td_state. failed_fns (fst t) = [''x.bb''] \<and>
     settled_run (\<lambda>_ _. Inr False) t \<and> settled_build (\<lambda>_ _. Inr False) t \<and> td_inv (fst t)"
proof -
  let ?td = "td_example\<lparr>build_targets := [(''x'', [''x.bb'']), (''l'', [])]\<rparr>"
  let ?r = "add_unresolved 2 (\<lambda>_ _. Inr False) (\<lambda>_. None) (\<lambda>_ _. Inr) (?td, init_cacheData)"
  have "case ?r of None \<Rightarrow> False | Some (r, t) \<Rightarrow> r = Inr () \<and> failed_fns (fst t) = [''x.bb'']" by code_simp
  then obtain t where t: "?r = Some (Inr (), t)" "failed_fns (fst t) = [''x.bb'']"
    by (auto split: option.splits prod.splits)
  have ex: "exec_ok (\<lambda>_ _. Inr)" by (simp add: exec_ok_def)
  have inv: "td_inv (fst (?td, init_cacheData))"
    by (auto simp: td_inv_def clean_def closed_except_def td_example_def init_taskdata_def dget_or_def)
  have ab: "\<not> td_abort (fst (?td, init_cacheData))" "\<not> allowincomplete (fst (?td, init_cacheData))"
    by (simp_all add: td_example_def init_taskdata_def)
  from add_unresolved_correct [OF ex inv ab(1) t(1)] ab(2) t(2) show ?thesis by blast
qed

text \<open>
  The exception for a required target is caught as if it were for the target just looked at.
  Here \<^verbatim>\<open>f\<close> has a second provider when \<^verbatim>\<open>y\<close> fails, and then the only provider of \<^verbatim>\<open>x\<close> fails
  while it is added, because it needs \<^verbatim>\<open>y\<close>; with it fails \<^verbatim>\<open>e\<close>, which was asked for.  The loop
  returns all the same.
\<close>

definition lost_cache :: cache_data where
  "lost_cache = init_cacheData\<lparr>cd_task_deps := [(''x.bb'', \<lparr>tasks = [], parents = [], tflags = []\<rparr>)],
     pkg_fn := [(''x.bb'', ''x'')], pkg_pn := [(''x'', [''x.bb''])],
     pkg_pepvpr := [(''x.bb'', ([], ''1'', ''r0''))], pkg_dp := [(''x.bb'', 0)], bbfile_priority := [(''x.bb'', 0)],
     cd_deps := [(''x.bb'', [''y''])], cd_providers := [(''x'', [''x.bb''])]\<rparr>"

definition lost_taskdata :: taskdata where
  "lost_taskdata = (init_taskdata True True [] False)\<lparr>
     build_targets := [(''e'', [''e.bb'']), (''f'', [''f1.bb'', ''f2.bb'']), (''y'', []), (''x'', [])],
     external_targets := [''e'', ''f''], seenfns := [''e.bb'', ''f1.bb'', ''f2.bb''],
     depids := [(''e.bb'', [''x'']), (''f1.bb'', [''y'']), (''f2.bb'', [])],
     rdepids := [(''e.bb'', []), (''f1.bb'', []), (''f2.bb'', [])]\<rparr>"

lemma abort_is_lost:
  "case add_unresolved 3 (\<lambda>_ _. Inr False) (\<lambda>_. None) (\<lambda>_ _. Inr) (lost_taskdata, lost_cache) of
     None \<Rightarrow> False | Some (r, td, _) \<Rightarrow> r = Inr () \<and> td_abort td \<and> ''e'' \<in> set (failed_deps td) \<and> ''e'' \<in> set (external_targets td)"
  by code_simp

text \<open>
  C12. \<open>add_unresolved\<close> ends for every task data, cache and behaviour of the recipes: some
  number of passes is enough, and more do not change the result.
\<close>

theorem add_unresolved_ends:
  "\<exists>n r. \<forall>m. add_unresolved (n + m) re_match getVar exec_func s = Some r"
proof -
  obtain n r where "add_unresolved n re_match getVar exec_func s = Some r"
    using add_unresolved_returns [of re_match getVar exec_func s] unfolding not_None_eq
    by (elim exE) (rule that)
  then have "\<forall>m. add_unresolved (n + m) re_match getVar exec_func s = Some r"
    unfolding add_unresolved_def by (intro allI) (erule resolve_loop_mono, rule le_add1)
  then show ?thesis by - (rule exI [of _ n], rule exI [of _ r])
qed

end
