(* ===== verification/Dep_Graph.thy ===== *)
theory Dep_Graph
  imports Py_Base
begin

text \<open>
  Graphs of tasks.  The recursive helpers of \<^verbatim>\<open>runqueue.py\<close> that mark tasks walk
  along the dependencies of a task and call themselves on what they have not seen.  They share
  the function \<open>visit_all\<close>: its list holds the calls that are still to be made, in the
  order in which the recursion makes them.
\<close>

section \<open>Walking a graph\<close>

text \<open>
  \<open>U\<close> are the tasks there are, a task outside raises a \<open>KeyError\<close>; \<open>visit\<close>
  does the work of one call and returns the tasks to go on with.
\<close>

function visit_all :: "string list \<Rightarrow> (string \<Rightarrow> 's \<Rightarrow> (string list \<times> 's) res) \<Rightarrow>
    string list \<Rightarrow> string list \<Rightarrow> 's \<Rightarrow> (string list \<times> 's) res" where
  "visit_all U visit [] seen s = Inr (seen, s)"
| "visit_all U visit (t # ts) seen s =
     (if t \<in> set seen then visit_all U visit ts seen s
      else if t \<notin> set U then Inl (KeyError t)
      else (case visit t s of
          Inl e \<Rightarrow> Inl e
        | Inr (ns, s') \<Rightarrow> visit_all U visit (ns @ ts) (seen @ [t]) s'))"
  by pat_completeness auto
termination
proof (relation "measures [\<lambda>(U, visit, ts, seen, s). card (set U - set seen), \<lambda>(U, visit, ts, seen, s). length ts]",
    goal_cases)
  case (3 U visit t ts seen s x ns s')
  then have "set U - set (seen @ [t]) \<subset> set U - set seen" by auto
  then have "card (set U - set (seen @ [t])) < card (set U - set seen)" by (intro psubset_card_mono) auto
  then show ?case by simp
qed auto

text \<open>The calls that \<open>visit\<close> returns do not depend on what has been collected so far.\<close>

definition goes_on :: "(string \<Rightarrow> 's \<Rightarrow> (string list \<times> 's) res) \<Rightarrow> (string \<Rightarrow> string set) \<Rightarrow> bool" where
  "goes_on visit succs \<longleftrightarrow> (\<forall>t s ns s'. visit t s = Inr (ns, s') \<longrightarrow> set ns = succs t)"

lemma goes_onD: "goes_on visit succs \<Longrightarrow> visit t s = Inr (ns, s') \<Longrightarrow> set ns = succs t"
  unfolding goes_on_def by blast

lemma visit_all_closed:
  "goes_on visit succs \<Longrightarrow> visit_all U visit ts seen s = Inr (seen', s') \<Longrightarrow>
    (\<And>t. t \<in> set seen \<Longrightarrow> succs t \<subseteq> set seen \<union> set ts) \<Longrightarrow>
    set seen \<union> set ts \<subseteq> set seen' \<and> (\<forall>t \<in> set seen'. succs t \<subseteq> set seen')"
proof (induction U visit ts seen s rule: visit_all.induct)
  case (1 U visit seen s)
  then show ?case by auto
next
  case (2 U visit t ts seen s)
  show ?case
  proof (cases "t \<in> set seen")
    case True
    have "visit_all U visit ts seen s = Inr (seen', s')" using 2(4) True by simp
    moreover have "succs x \<subseteq> set seen \<union> set ts" if "x \<in> set seen" for x using 2(5) [OF that] True by auto
    ultimately have "set seen \<union> set ts \<subseteq> set seen' \<and> (\<forall>t \<in> set seen'. succs t \<subseteq> set seen')"
      by (rule 2(1) [OF True 2(3)])
    with True show ?thesis by auto
  next
    case False
    with 2(4) obtain ns u where t: "t \<in> set U" and v: "visit t s = Inr (ns, u)"
      and r: "visit_all U visit (ns @ ts) (seen @ [t]) u = Inr (seen', s')"
      by (auto split: if_splits sum.splits prod.splits)
    have "succs x \<subseteq> set (seen @ [t]) \<union> set (ns @ ts)" if "x \<in> set (seen @ [t])" for x
      using that 2(5) [of x] goes_onD [OF 2(3) v] by auto
    from 2(2) [OF False _ v refl 2(3) r this] t show ?thesis by auto
  qed
qed

lemma visit_all_inside:
  "goes_on visit succs \<Longrightarrow> visit_all U visit ts seen s = Inr (seen', s') \<Longrightarrow> P seen s \<Longrightarrow>
    (\<And>t seen s ns s'. t \<in> R \<Longrightarrow> P seen s \<Longrightarrow> visit t s = Inr (ns, s') \<Longrightarrow> P (seen @ [t]) s') \<Longrightarrow>
    set ts \<subseteq> R \<Longrightarrow> (\<And>t. t \<in> R \<Longrightarrow> succs t \<subseteq> R) \<Longrightarrow> set seen' \<subseteq> set seen \<union> (R \<inter> set U) \<and> P seen' s'"
proof (induction U visit ts seen s rule: visit_all.induct)
  case (1 U visit seen s)
  then show ?case by auto
next
  case (2 U visit t ts seen s)
  have tR: "t \<in> R" and tsR: "set ts \<subseteq> R" using 2(7) by simp_all
  show ?case
  proof (cases "t \<in> set seen")
    case True
    have "visit_all U visit ts seen s = Inr (seen', s')" using 2(4) True by simp
    then show ?thesis using 2(1) [OF True 2(3)] 2(5,6,8) tsR by blast
  next
    case False
    with 2(4) obtain ns u where t: "t \<in> set U" and v: "visit t s = Inr (ns, u)"
      and r: "visit_all U visit (ns @ ts) (seen @ [t]) u = Inr (seen', s')"
      by (auto split: if_splits sum.splits prod.splits)
    have "P (seen @ [t]) u" using 2(6) [OF tR 2(5)] v by blast
    moreover have "set (ns @ ts) \<subseteq> R" using 2(8) [OF tR] goes_onD [OF 2(3) v] tsR by auto
    ultimately have "set seen' \<subseteq> set (seen @ [t]) \<union> (R \<inter> set U) \<and> P seen' s'"
      using 2(2) [OF False _ v refl 2(3) r] t 2(6,8) by blast
    with t tR show ?thesis by auto
  qed
qed

lemma visit_all_distinct:
  "visit_all U visit ts seen s = Inr (seen', s') \<Longrightarrow> distinct seen \<Longrightarrow> distinct seen'"
proof (induction U visit ts seen s rule: visit_all.induct)
  case (2 U visit t ts seen s)
  then show ?case by (auto split: if_splits sum.splits prod.splits)
qed simp

text \<open>A walk inside a closed set of tasks on which \<open>visit\<close> returns does return.\<close>

lemma visit_all_total:
  "(\<And>t s. t \<in> set U \<Longrightarrow> \<exists>ns s'. visit t s = Inr (ns, s')) \<Longrightarrow> set ts \<subseteq> set U \<Longrightarrow>
    (\<And>t. t \<in> set U \<Longrightarrow> succs t \<subseteq> set U) \<Longrightarrow>
    goes_on visit succs \<Longrightarrow> \<exists>r. visit_all U visit ts seen s = Inr r"
proof (induction U visit ts seen s rule: visit_all.induct)
  case (2 U visit t ts seen s)
  show ?case
  proof (cases "t \<in> set seen")
    case True
    with 2 show ?thesis by auto
  next
    case False
    have t: "t \<in> set U" using 2(4) by simp
    then obtain ns u where v: "visit t s = Inr (ns, u)" using 2(3) by blast
    have "set (ns @ ts) \<subseteq> set U" using goes_onD [OF 2(6) v] 2(4) 2(5) [OF t] by auto
    from 2(2) [OF False _ v refl 2(3) this 2(5,6)] t obtain r where
      "visit_all U visit (ns @ ts) (seen @ [t]) u = Inr r" by blast
    with False t v show ?thesis by simp
  qed
qed simp

text \<open>
  What a walk needs to know of \<open>visit\<close>: the tasks it goes on with do not depend on what
  has been collected so far.
\<close>

locale traversal =
  fixes visit :: "string \<Rightarrow> 's \<Rightarrow> (string list \<times> 's) res" and succs :: "string \<Rightarrow> string set"
  assumes visit_succs: "visit t s = Inr (ns, s') \<Longrightarrow> set ns = succs t"
begin

lemma going: "goes_on visit succs"
  unfolding goes_on_def using visit_succs by blast

definition arcs :: "(string \<times> string) set" where
  "arcs = {(t, n). n \<in> succs t}"

text \<open>A walk from nothing sees exactly the tasks that can be reached.\<close>

lemma visit_all_reach:
  assumes "visit_all U visit ts [] s = Inr (seen, s')"
  shows "set seen = arcs\<^sup>* `` set ts"
proof
  have "set seen \<subseteq> set [] \<union> (arcs\<^sup>* `` set ts \<inter> set U) \<and> True"
  proof (rule visit_all_inside [OF going assms, where P = "\<lambda>_ _. True"])
    show "succs t \<subseteq> arcs\<^sup>* `` set ts" if "t \<in> arcs\<^sup>* `` set ts" for t
    proof
      fix n assume "n \<in> succs t"
      then have "(t, n) \<in> arcs" by (simp add: arcs_def)
      with that show "n \<in> arcs\<^sup>* `` set ts" by (auto intro: rtrancl_into_rtrancl)
    qed
  qed auto
  then show "set seen \<subseteq> arcs\<^sup>* `` set ts" by auto
  have c: "set ts \<subseteq> set seen" "\<forall>t \<in> set seen. succs t \<subseteq> set seen"
    using visit_all_closed [OF going assms] by auto
  have "n \<in> set seen" if "(t, n) \<in> arcs\<^sup>*" "t \<in> set ts" for t n
    using that by (induction rule: rtrancl_induct) (use c in \<open>auto simp: arcs_def\<close>)
  then show "arcs\<^sup>* `` set ts \<subseteq> set seen" by auto
qed

lemma visit_all_state:
  assumes "visit_all U visit ts [] s = Inr (seen, s')" "P [] s"
    "\<And>t seen s ns s'. P seen s \<Longrightarrow> visit t s = Inr (ns, s') \<Longrightarrow> P (seen @ [t]) s'"
  shows "P seen s'"
  using visit_all_inside [where P = P and R = UNIV, OF going assms(1)] assms(2,3) by blast

end

end
