(* ===== verification/Run_Queue_Data.thy ===== *)
theory Run_Queue_Data
  imports Task_Data Dep_Graph
begin

text \<open>
  The parts of \<^verbatim>\<open>bitbake/lib/bb/runqueue.py\<close> below the preparation of the run
  queue: task ids, statistics, the weights of the tasks with the search for circular
  dependencies, and the schedulers.

  A task of the run queue is an entry of the dictionary \<open>runtaskentries\<close>.  Its sets
  \<open>depends\<close> and \<open>revdeps\<close> are lists without duplicates in some order; nothing
  depends on which.  Log messages are not modelled.
\<close>

section \<open>Task ids\<close>

definition fn_from_tid :: "string \<Rightarrow> string" where
  "fn_from_tid tid = hd (rsplit1 CHR '':'' tid)"

definition taskname_from_tid :: "string \<Rightarrow> string res" where
  "taskname_from_tid tid = item (rsplit1 CHR '':'' tid) 1"

text \<open>The configuration, the file, the task and the file with its configuration.\<close>

definition split_tid_mcfn :: "string \<Rightarrow> (string \<times> string \<times> string \<times> string) res" where
  "split_tid_mcfn tid =
     (if startswith tid multiconfig_prefix
      then (let elems = split_on CHR '':'' tid; mc = elems ! 1; fn = join '':'' (butlast (drop 2 elems))
            in Inr (mc, fn, last elems, multiconfig_prefix @ mc @ '':'' @ fn))
      else (let parts = rsplit1 CHR '':'' tid; fn = parts ! 0
            in rbind (item parts 1) (\<lambda>taskname. Inr ('''', fn, taskname, fn))))"

definition split_tid :: "string \<Rightarrow> (string \<times> string \<times> string) res" where
  "split_tid tid = rbind (split_tid_mcfn tid) (\<lambda>(mc, fn, taskname, _). Inr (mc, fn, taskname))"

definition build_tid :: "string \<Rightarrow> string \<Rightarrow> string \<Rightarrow> string" where
  "build_tid mc fn taskname = (if mc \<noteq> [] then multiconfig_prefix @ mc @ '':'' @ fn @ '':'' @ taskname
     else fn @ '':'' @ taskname)"

section \<open>Statistics\<close>

record rq_stats =
  completed :: int
  skipped :: int
  failed :: int
  active :: int
  total :: int

definition init_stats :: "int \<Rightarrow> rq_stats" where
  "init_stats n = \<lparr>completed = 0, skipped = 0, failed = 0, active = 0, total = n\<rparr>"

definition taskFailed :: "rq_stats \<Rightarrow> rq_stats" where
  "taskFailed st = st\<lparr>active := active st - 1, failed := failed st + 1\<rparr>"

definition taskCompleted :: "int \<Rightarrow> rq_stats \<Rightarrow> rq_stats" where
  "taskCompleted n st = st\<lparr>active := active st - n, completed := completed st + n\<rparr>"

definition taskSkipped :: "int \<Rightarrow> rq_stats \<Rightarrow> rq_stats" where
  "taskSkipped n st = st\<lparr>active := active st + n, skipped := skipped st + n\<rparr>"

definition taskActive :: "rq_stats \<Rightarrow> rq_stats" where
  "taskActive st = st\<lparr>active := active st + 1\<rparr>"

section \<open>Tasks\<close>

record run_task =
  rt_depends :: "string list"
  rt_revdeps :: "string list"
  rt_hash :: "string option"
  rt_weight :: int

definition new_task :: run_task where
  "new_task = \<lparr>rt_depends = [], rt_revdeps = [], rt_hash = None, rt_weight = 1\<rparr>"

type_synonym run_tasks = "(string \<times> run_task) list"

section \<open>Circular dependencies\<close>

text \<open>The chain from its least task on; the first of the least ones when it has several.\<close>

definition chain_reorder :: "string list \<Rightarrow> string list" where
  "chain_reorder chain =
     (let lowest = foldl (\<lambda>lowest entry. if chain ! entry < chain ! lowest then entry else lowest) 0
        [0..<length chain]
      in drop lowest chain @ take lowest chain)"

definition chain_array_contains :: "string list \<Rightarrow> string list list \<Rightarrow> bool" where
  "chain_array_contains chain chain_array = list_ex (\<lambda>ch. ch = chain) chain_array"

text \<open>The variables that the nested functions of \<open>circular_depchains_handler\<close> share.\<close>

record chain_state =
  valid_chains :: "string list list"
  explored_deps :: "(string \<times> string list) list"

definition must_scan :: "string \<Rightarrow> string list \<Rightarrow> chain_state \<Rightarrow> bool" where
  "must_scan revdep prev_chain s = (case map_of (explored_deps s) revdep of
     None \<Rightarrow> True
   | Some ds \<Rightarrow> revdep \<in> set ds \<or> list_ex (\<lambda>dep. dep \<in> set ds) prev_chain)"

definition add_chain :: "string list \<Rightarrow> chain_state \<Rightarrow> chain_state" where
  "add_chain chain s = (if chain_array_contains chain (valid_chains s) then s
     else s\<lparr>valid_chains := valid_chains s @ [chain]\<rparr>)"

text \<open>
  The loop of \<open>find_chains\<close> over the reverse dependencies, with the function that is
  called for one of them.  After ten chains it returns without an entry in
  \<open>explored_deps\<close>, which the caller then reads.
\<close>

fun chain_loop :: "(string \<Rightarrow> string list \<Rightarrow> (chain_state, unit) sm) \<Rightarrow> string \<Rightarrow> string list \<Rightarrow>
    string list \<Rightarrow> string list \<Rightarrow> (chain_state, unit) sm" where
  "chain_loop search tid prev_chain [] total_deps =
     supd (\<lambda>s. s\<lparr>explored_deps := dset tid total_deps (explored_deps s)\<rparr>)"
| "chain_loop search tid prev_chain (revdep # revdeps) total_deps =
     (if revdep \<in> set prev_chain then
        sbind (supd (add_chain (chain_reorder (dropWhile (\<lambda>x. x \<noteq> revdep) prev_chain)))) (\<lambda>_.
        sbind (sget (\<lambda>s. length (valid_chains s) > 10)) (\<lambda>many.
          if many then sret () else chain_loop search tid prev_chain revdeps total_deps))
      else
        sbind (sget (must_scan revdep prev_chain)) (\<lambda>scan.
        sbind (if scan then search revdep prev_chain else sret ()) (\<lambda>_.
        sbind (sres (\<lambda>s. dget (explored_deps s) revdep)) (\<lambda>deps.
          chain_loop search tid prev_chain revdeps (sunion total_deps deps)))))"

text \<open>A chain has no task twice, so the recursion is not deeper than there are tasks.\<close>

fun find_chains :: "nat \<Rightarrow> run_tasks \<Rightarrow> string \<Rightarrow> string list \<Rightarrow> (chain_state, unit) sm" where
  "find_chains 0 es tid prev_chain = sraise OutOfFuel"
| "find_chains (Suc n) es tid prev_chain =
     sbind (sres (\<lambda>_. dget es tid)) (\<lambda>e.
       chain_loop (find_chains n es) tid (prev_chain @ [tid]) (rt_revdeps e) (rt_revdeps e))"

definition circular_depchains_handler :: "run_tasks \<Rightarrow> string list \<Rightarrow> string list list res" where
  "circular_depchains_handler es ts =
     (case sfor ts (\<lambda>t. find_chains (Suc (length es)) es t []) \<lparr>valid_chains = [], explored_deps = []\<rparr> of
        (Inl e, s) \<Rightarrow> Inl e
      | (Inr _, s) \<Rightarrow> Inr (valid_chains s))"

section \<open>Weights\<close>

text \<open>The dictionaries of \<open>calculate_task_weights\<close>.\<close>

record weight_state =
  w_weight :: "(string \<times> int) list"
  w_left :: "(string \<times> int) list"
  w_done :: "(string \<times> bool) list"

definition weights_init :: "run_tasks \<Rightarrow> string list \<Rightarrow> weight_state" where
  "weights_init es endpoints = (let s = \<lparr>
     w_weight = map (\<lambda>(tid, e). (tid, 1)) es,
     w_left = map (\<lambda>(tid, e). (tid, int (length (rt_revdeps e)))) es,
     w_done = map (\<lambda>(tid, e). (tid, False)) es\<rparr>
   in fold (\<lambda>tid s. s\<lparr>w_weight := dset tid 10 (w_weight s), w_done := dset tid True (w_done s)\<rparr>) endpoints s)"

definition weight_step :: "string \<Rightarrow> string \<Rightarrow> weight_state \<times> string list \<Rightarrow> (weight_state \<times> string list) res" where
  "weight_step tid revdep = (\<lambda>(s, next_points).
     rbind (dget (w_weight s) revdep) (\<lambda>w. rbind (dget (w_weight s) tid) (\<lambda>wt.
     rbind (dget (w_left s) revdep) (\<lambda>n.
       let s = s\<lparr>w_weight := dset revdep (w + wt) (w_weight s), w_left := dset revdep (n - 1) (w_left s)\<rparr>
       in Inr (if n - 1 = 0 then (s\<lparr>w_done := dset revdep True (w_done s)\<rparr>, next_points @ [revdep])
            else (s, next_points))))))"

definition weight_point :: "run_tasks \<Rightarrow> string \<Rightarrow> weight_state \<times> string list \<Rightarrow> (weight_state \<times> string list) res" where
  "weight_point es tid sn = rbind (dget es tid) (\<lambda>e. rfold (weight_step tid) (rt_depends e) sn)"

definition weight_pass :: "run_tasks \<Rightarrow> string list \<Rightarrow> weight_state \<Rightarrow> (weight_state \<times> string list) res" where
  "weight_pass es endpoints s = rfold (weight_point es) endpoints (s, [])"

text \<open>
  The loop ends: a task becomes an end point when its count of unfinished reverse dependencies
  falls to zero, and the counts only fall.
\<close>

definition left_of :: "weight_state \<Rightarrow> string \<Rightarrow> int" where
  "left_of s k = dget_or (w_left s) k 0"

definition left_count :: "weight_state \<Rightarrow> nat" where
  "left_count s = card {k. left_of s k > 0}"

lemma left_finite: "finite {k. left_of s k > 0}"
proof (rule finite_subset)
  show "{k. left_of s k > 0} \<subseteq> dom (map_of (w_left s))"
    by (auto simp: left_of_def dget_or_def split: option.splits)
qed (rule finite_dom_map_of)

definition less_left :: "weight_state \<times> string list \<Rightarrow> weight_state \<times> string list \<Rightarrow> bool" where
  "less_left sn tm \<longleftrightarrow> (\<forall>k. left_of (fst tm) k \<le> left_of (fst sn) k) \<and>
     (\<forall>k \<in> set (snd tm) - set (snd sn). left_of (fst sn) k > 0 \<and> left_of (fst tm) k \<le> 0)"

lemma less_left_refl: "less_left sn sn"
  by (simp add: less_left_def)

lemma less_left_trans:
  assumes "less_left a b" "less_left b c"
  shows "less_left a c"
  unfolding less_left_def
proof (intro conjI allI ballI)
  show "left_of (fst c) k \<le> left_of (fst a) k" for k
    using assms unfolding less_left_def by (meson order_trans)
  fix k assume k: "k \<in> set (snd c) - set (snd a)"
  have le: "left_of (fst c) k \<le> left_of (fst b) k" "left_of (fst b) k \<le> left_of (fst a) k"
    using assms unfolding less_left_def by simp_all
  have "left_of (fst a) k > 0 \<and> left_of (fst b) k \<le> 0 \<or> left_of (fst b) k > 0 \<and> left_of (fst c) k \<le> 0"
    using assms k unfolding less_left_def by (cases "k \<in> set (snd b)") auto
  with le show "left_of (fst a) k > 0" "left_of (fst c) k \<le> 0" by linarith+
qed

lemma weight_step_less:
  assumes "weight_step tid revdep sn = Inr tm"
  shows "less_left sn tm"
proof (cases sn)
  case (Pair s nxt)
  from assms obtain w wt n where n: "map_of (w_left s) revdep = Some n"
    and tm: "tm = (let s = s\<lparr>w_weight := dset revdep (w + wt) (w_weight s),
        w_left := dset revdep (n - 1) (w_left s)\<rparr>
      in if n - 1 = 0 then (s\<lparr>w_done := dset revdep True (w_done s)\<rparr>, nxt @ [revdep]) else (s, nxt))"
    unfolding Pair weight_step_def by (auto simp: rbind_eq_Inr Let_def)
  have "left_of s revdep = n" using n by (simp add: left_of_def dget_or_def)
  with tm show ?thesis
    unfolding Pair less_left_def by (auto simp: Let_def left_of_def split: if_splits)
qed

lemma weight_pass_less:
  assumes "weight_pass es endpoints s = Inr tm"
  shows "less_left (s, []) tm"
  using assms unfolding weight_pass_def
proof (rule rfold_inv [where P = "less_left (s, [])"])
  fix tid a b assume p: "less_left (s, []) a" and b: "weight_point es tid a = Inr b"
  then obtain e :: run_task where "rfold (weight_step tid) (rt_depends e) a = Inr b"
    by (auto simp: weight_point_def rbind_eq_Inr)
  then show "less_left (s, []) b"
    by (rule rfold_inv [where P = "less_left (s, [])"]) (use p in \<open>auto intro: less_left_trans weight_step_less\<close>)
qed (rule less_left_refl)

lemma weight_pass_count:
  assumes "weight_pass es endpoints s = Inr (t, nxt)" "nxt \<noteq> []"
  shows "left_count t < left_count s"
proof -
  have l: "less_left (s, []) (t, nxt)" by (rule weight_pass_less [OF assms(1)])
  obtain k where k: "k \<in> set nxt" using assms(2) by (cases nxt) auto
  have "{k. left_of t k > 0} \<subset> {k. left_of s k > 0}"
  proof
    show "{k. left_of t k > 0} \<subseteq> {k. left_of s k > 0}"
      using l unfolding less_left_def by (auto intro: less_le_trans)
    have "left_of s k > 0" "\<not> left_of t k > 0" using l k unfolding less_left_def by auto
    then show "{k. left_of t k > 0} \<noteq> {k. left_of s k > 0}" by auto
  qed
  then show ?thesis unfolding left_count_def by (intro psubset_card_mono left_finite)
qed

function weight_loop :: "run_tasks \<Rightarrow> string list \<Rightarrow> weight_state \<Rightarrow> weight_state res" where
  "weight_loop es endpoints s = (case weight_pass es endpoints s of
     Inl e \<Rightarrow> Inl e
   | Inr (s', next_points) \<Rightarrow> if next_points = [] then Inr s' else weight_loop es next_points s')"
  by pat_completeness auto
termination
  by (relation "measure (\<lambda>(es, endpoints, s). left_count s)") (auto dest: weight_pass_count)

declare weight_loop.simps [simp del]

text \<open>
  \<open>calculate_task_weights\<close>: the weights and the tasks with their weights entered.  With
  unbuildable tasks the search for loops runs before the fatal error.
\<close>

definition problem_tasks :: "run_tasks \<Rightarrow> weight_state \<Rightarrow> string list" where
  "problem_tasks es s = filter (\<lambda>tid. \<not> dget_or (w_done s) tid False \<or> dget_or (w_left s) tid 0 \<noteq> 0) (keys es)"

definition calculate_task_weights :: "run_tasks \<Rightarrow> string list \<Rightarrow> ((string \<times> int) list \<times> run_tasks) res" where
  "calculate_task_weights es endpoints =
     rbind (weight_loop es endpoints (weights_init es endpoints)) (\<lambda>s.
       let es' = map (\<lambda>(tid, e). (tid, e\<lparr>rt_weight := dget_or (w_weight s) tid 0\<rparr>)) es in
       if problem_tasks es s \<noteq> []
       then rbind (circular_depchains_handler es' (problem_tasks es s)) (\<lambda>_. Inl SystemExit)
       else Inr (w_weight s, es'))"

section \<open>Schedulers\<close>

datatype sched_kind = Basic | Speed | Completion

text \<open>
  The priority map: \<open>None\<close> is the list with one element, the view of the keys, that the
  basic scheduler builds; no task is equal to it.
\<close>

record scheduler =
  sc_prio_map :: "string list option"
  sc_buildable :: "string list"
  sc_stamps :: "(string \<times> string option) list"

definition speed_prio_map :: "run_tasks \<Rightarrow> string list" where
  "speed_prio_map es =
     (let weights = fold (\<lambda>(tid, e) d. dappend (rt_weight e) tid d) es []
      in rev (concat (map (\<lambda>weight. dget_or weights weight []) (sort (keys weights)))))"

definition index_of :: "'a \<Rightarrow> 'a list \<Rightarrow> nat" where
  "index_of x xs = length (takeWhile (\<lambda>y. y \<noteq> x) xs)"

definition del_index :: "nat \<Rightarrow> 'a list \<Rightarrow> 'a list" where
  "del_index i xs = take i xs @ drop (Suc i) xs"

lemma length_del_index: "length (del_index i xs) \<le> length xs"
  by (simp add: del_index_def)

lemma length_del_all: "length (fold del_index is xs) \<le> length xs"
proof (induction "is" arbitrary: xs)
  case (Cons i "is")
  then show ?case using length_del_index [of i xs] order_trans by fastforce
qed simp

text \<open>All tasks of a file after the first of them.\<close>

function completion_order :: "string list \<Rightarrow> string list" where
  "completion_order [] = []"
| "completion_order (entry # basemap) =
     (let same = filter (\<lambda>e. fn_from_tid e = fn_from_tid entry) basemap;
          todel = map (\<lambda>e. index_of e basemap) same
      in entry # same @ completion_order (fold del_index (rev todel) basemap))"
  by pat_completeness auto
termination
  by (relation "measure length") (auto simp: less_Suc_eq_le length_del_all)

definition prio_map_of :: "sched_kind \<Rightarrow> run_tasks \<Rightarrow> string list option" where
  "prio_map_of kind es = (case kind of
     Basic \<Rightarrow> None
   | Speed \<Rightarrow> Some (speed_prio_map es)
   | Completion \<Rightarrow> Some (completion_order (speed_prio_map es)))"

definition scheduler_init :: "sched_kind \<Rightarrow> run_tasks \<Rightarrow> (string \<Rightarrow> string option res) \<Rightarrow> string list \<Rightarrow>
    scheduler res" where
  "scheduler_init kind es stamp_of runq_buildable =
     rbind (rmap (\<lambda>tid. rbind (stamp_of tid) (\<lambda>st. Inr (tid, st))) (keys es)) (\<lambda>stamps.
       Inr \<lparr>sc_prio_map = prio_map_of kind es,
         sc_buildable = filter (\<lambda>tid. tid \<in> set runq_buildable) (keys es), sc_stamps = stamps\<rparr>)"

definition newbuilable :: "string \<Rightarrow> scheduler \<Rightarrow> scheduler" where
  "newbuilable tid sc = sc\<lparr>sc_buildable := sc_buildable sc @ [tid]\<rparr>"

text \<open>The position of every task, \<open>self.prio_map.index(tid)\<close>.\<close>

definition prio_index :: "string list option \<Rightarrow> string \<Rightarrow> nat res" where
  "prio_index m tid = (case m of None \<Rightarrow> Inl ValueError
     | Some xs \<Rightarrow> if tid \<in> set xs then Inr (index_of tid xs) else Inl ValueError)"

definition rev_prio_map :: "run_tasks \<Rightarrow> scheduler \<Rightarrow> (string \<times> nat) list res" where
  "rev_prio_map es sc = rmap (\<lambda>tid. rbind (prio_index (sc_prio_map sc) tid) (\<lambda>i. Inr (tid, i))) (keys es)"

definition best_step :: "scheduler \<Rightarrow> string option list \<Rightarrow> (string \<times> nat) list \<Rightarrow> string \<Rightarrow>
    (string \<times> nat) option \<Rightarrow> (string \<times> nat) option res" where
  "best_step sc used rev_prio tid best = rbind (dget rev_prio tid) (\<lambda>prio.
     if best = None \<or> snd (the best) > prio
     then rbind (dget (sc_stamps sc) tid) (\<lambda>stamp. Inr (if stamp \<in> set used then best else Some (tid, prio)))
     else Inr best)"

definition next_buildable_task :: "run_tasks \<Rightarrow> string list \<Rightarrow> string option list \<Rightarrow> scheduler \<Rightarrow>
    (string option \<times> scheduler) res" where
  "next_buildable_task es runq_running used sc0 =
     (let sc = sc0\<lparr>sc_buildable := filter (\<lambda>x. x \<notin> set runq_running) (sc_buildable sc0)\<rparr>;
          select = rbind (rev_prio_map es sc) (\<lambda>rev_prio.
            rbind (rfold (best_step sc used rev_prio) (sc_buildable sc) None) (\<lambda>best.
              Inr (map_option fst best, sc)))
      in case sc_buildable sc of
           [] \<Rightarrow> Inr (None, sc)
         | [tid] \<Rightarrow> rbind (dget (sc_stamps sc) tid) (\<lambda>stamp.
             if stamp \<notin> set used then Inr (Some tid, sc) else select)
         | _ \<Rightarrow> select)"

definition sched_next :: "run_tasks \<Rightarrow> int \<Rightarrow> rq_stats \<Rightarrow> string list \<Rightarrow> string option list \<Rightarrow> scheduler \<Rightarrow>
    (string option \<times> scheduler) res" where
  "sched_next es number_tasks st runq_running used sc =
     (if active st < number_tasks then next_buildable_task es runq_running used sc else Inr (None, sc))"

end
