(* ===== verification/Run_Queue_Prepare.thy ===== *)
theory Run_Queue_Prepare
  imports Run_Queue_Data
begin

text \<open>
  \<open>RunQueueData.prepare\<close> of \<^verbatim>\<open>bitbake/lib/bb/runqueue.py\<close>: the task data of
  every configuration is turned into the table of the tasks to run.  Dependencies between
  targets become dependencies between tasks, tasks that no target needs are dropped, the graph
  is checked for cycles, and every task gets its weight and its hash.

  The object is the record \<open>rqdata\<close>.  The signature generator is chosen by the
  configuration, so \<open>get_taskhash\<close> is a parameter; the calls of its
  \<open>invalidate_task\<close> are collected in \<open>invalidated\<close>.  The text of log messages and
  the progress reports are not modelled.
\<close>

section \<open>State\<close>

text \<open>What the constructor gets: task data and caches by configuration, targets, settings.\<close>

record rq_env =
  q_taskData :: "(string \<times> taskdata) list"
  q_dataCaches :: "(string \<times> cache_data) list"
  q_targets :: "(string \<times> string \<times> string \<times> string) list"
  q_stampwhitelist :: string
  q_multi_provider_whitelist :: "string list"
  q_nosetscene :: bool
  q_force :: bool
  q_invalidate_stamp :: string

record rqdata =
  runtaskentries :: run_tasks
  target_tids :: "string list"
  runq_weight :: "(string \<times> int) list"
  stampfnwhitelist :: "(string \<times> string list) list"
  runq_setscene_tids :: "string list"
  invalidated :: "(string \<times> string) list"

definition init_rqdata :: rqdata where
  "init_rqdata = \<lparr>runtaskentries = [], target_tids = [], runq_weight = [], stampfnwhitelist = [],
     runq_setscene_tids = [], invalidated = []\<rparr>"

section \<open>Step A: the dependencies of the tasks\<close>

text \<open>
  \<open>add_build_dependencies\<close> and \<open>add_runtime_dependencies\<close> differ in the table of
  targets they read: the tasks of the first provider of each dependency that exist.
\<close>

definition add_dependencies :: "(string \<Rightarrow> string list) \<Rightarrow> taskdata \<Rightarrow> string list \<Rightarrow> string list \<Rightarrow>
    string list \<Rightarrow> string list" where
  "add_dependencies targets td deps tasknames = fold (\<lambda>depname depends.
     case targets depname of
       [] \<Rightarrow> depends
     | depdata # _ \<Rightarrow> fold (\<lambda>taskname depends. let t = depdata @ '':'' @ taskname in
         if t \<in> set (keys (taskentries td)) then sadd t depends else depends) tasknames depends) deps"

definition add_build_dependencies :: "taskdata \<Rightarrow> string list \<Rightarrow> string list \<Rightarrow> string list \<Rightarrow> string list" where
  "add_build_dependencies td = add_dependencies (bt td) td"

definition add_runtime_dependencies :: "taskdata \<Rightarrow> string list \<Rightarrow> string list \<Rightarrow> string list \<Rightarrow> string list" where
  "add_runtime_dependencies td = add_dependencies (rt td) td"

definition add_resolved_dependencies :: "run_tasks \<Rightarrow> string \<Rightarrow> string \<Rightarrow> string list \<Rightarrow> string list \<Rightarrow> string list" where
  "add_resolved_dependencies es mc fn tasknames = fold (\<lambda>taskname depends. let tid = build_tid mc fn taskname in
     if tid \<in> set (keys es) then sadd tid depends else depends) tasknames"

text \<open>The dependencies inside the recipe.\<close>

definition internal_depends :: "string \<Rightarrow> string list \<Rightarrow> string list res" where
  "internal_depends mc ts = rfold (\<lambda>t depends. rbind (split_tid_mcfn t) (\<lambda>(_, depfn, deptaskname, _).
     Inr (sadd (build_tid mc depfn deptaskname) depends))) ts []"

text \<open>The tasks a flag names, applied to the dependencies of the file if the task has the flag.\<close>

definition flag_depends :: "task_deps \<Rightarrow> string \<Rightarrow> string \<Rightarrow> (string list \<Rightarrow> string list \<Rightarrow> string list res) \<Rightarrow>
    string list \<Rightarrow> string list res" where
  "flag_depends deps flag taskname add depends = (case task_flag deps flag taskname of
     None \<Rightarrow> Inr depends | Some s \<Rightarrow> add (split_ws s) depends)"

definition idepend_step :: "taskdata \<Rightarrow> string \<times> string \<Rightarrow> string list \<Rightarrow> string list res" where
  "idepend_step td = (\<lambda>(depname, idependtask) depends.
     if bt td depname \<noteq> [] \<and> depname \<notin> set (failed_deps td)
     then (let t = hd (bt td depname) @ '':'' @ idependtask
       in if t \<notin> set (keys (taskentries td)) then Inl SystemExit else Inr (sadd t depends))
     else Inr depends)"

definition irdepend_step :: "taskdata \<Rightarrow> string \<times> string \<Rightarrow> string list \<Rightarrow> string list res" where
  "irdepend_step td = (\<lambda>(depname, idependtask) depends.
     if depname \<in> set (keys (run_targets td))
     then rbind (item (rt td depname) 0) (\<lambda>depdata. let t = depdata @ '':'' @ idependtask
       in if t \<notin> set (keys (taskentries td)) then Inl SystemExit else Inr (sadd t depends))
     else Inr depends)"

text \<open>
  The dictionaries that step A fills: the tasks, and for tasks with \<open>recrdeptask\<close> the names
  of the tasks to depend on recursively, the extra tasks to start from, and whether a task
  names itself.
\<close>

record step_a =
  sa_entries :: run_tasks
  sa_recursive :: "(string \<times> string list) list"
  sa_recursivei :: "(string \<times> string list) list"
  sa_selfref :: "string list"

definition task_depends :: "taskdata \<Rightarrow> task_deps \<Rightarrow> string \<Rightarrow> string \<Rightarrow> string \<Rightarrow> task_entry \<Rightarrow> string list res" where
  "task_depends td deps mc taskname taskfn e =
     rbind (internal_depends mc (tdepends e)) (\<lambda>depends.
     rbind (flag_depends deps ''deptask'' taskname (\<lambda>ts ds. rbind (dget (depids td) taskfn) (\<lambda>ids.
       Inr (add_build_dependencies td ids ts ds))) depends) (\<lambda>depends.
     rbind (flag_depends deps ''rdeptask'' taskname (\<lambda>ts ds. rbind (dget (rdepids td) taskfn) (\<lambda>ids.
       Inr (add_runtime_dependencies td ids ts ds))) depends) (\<lambda>depends.
     rbind (rfold (idepend_step td) (idepends e) depends) (\<lambda>depends.
     rbind (rfold (irdepend_step td) (irdepends e) depends) (\<lambda>depends.
     flag_depends deps ''recrdeptask'' taskname (\<lambda>ts ds. rbind (dget (depids td) taskfn) (\<lambda>ids.
       rbind (dget (rdepids td) taskfn) (\<lambda>rids.
         Inr (add_runtime_dependencies td rids ts (add_build_dependencies td ids ts ds))))) depends)))))"

definition note_recursive :: "task_deps \<Rightarrow> string \<Rightarrow> string \<Rightarrow> string \<Rightarrow> string \<Rightarrow> step_a \<Rightarrow> step_a" where
  "note_recursive deps tid mc fn taskname a = (case task_flag deps ''recrdeptask'' taskname of
     None \<Rightarrow> a
   | Some s \<Rightarrow> (let tasknames = split_ws s;
        a = a\<lparr>sa_recursive := dset tid tasknames (sa_recursive a)\<rparr>;
        a = (if taskname \<in> set tasknames then a\<lparr>sa_selfref := sadd tid (sa_selfref a)\<rparr> else a)
      in case task_flag deps ''recideptask'' taskname of
           None \<Rightarrow> a
         | Some s' \<Rightarrow> a\<lparr>sa_recursivei := dset tid (map (build_tid mc fn) (split_ws s')) (sa_recursivei a)\<rparr>))"

definition step_a_task :: "rq_env \<Rightarrow> string \<Rightarrow> step_a \<Rightarrow> step_a res" where
  "step_a_task env tid a =
     rbind (split_tid_mcfn tid) (\<lambda>(mc, fn, taskname, taskfn).
     rbind (dget (q_dataCaches env) mc) (\<lambda>dc.
     rbind (dget (cd_task_deps dc) taskfn) (\<lambda>deps.
     rbind (dget (q_taskData env) mc) (\<lambda>td.
       if fn \<in> set (failed_fns td) then Inr (a\<lparr>sa_entries := dset tid new_task (sa_entries a)\<rparr>)
       else rbind (dget (taskentries td) tid) (\<lambda>e.
         rbind (task_depends td deps mc taskname taskfn e) (\<lambda>depends.
           Inr (note_recursive deps tid mc fn taskname
             (a\<lparr>sa_entries := dset tid (new_task\<lparr>rt_depends := depends\<rparr>) (sa_entries a)\<rparr>))))))))"

definition prepare_a :: "rq_env \<Rightarrow> step_a res" where
  "prepare_a env = rfold (\<lambda>(mc, td) a. rfold (step_a_task env) (keys (taskentries td)) a) (q_taskData env)
     \<lparr>sa_entries = [], sa_recursive = [], sa_recursivei = [], sa_selfref = []\<rparr>"

text \<open>
  Part B, \<open>generate_recdeps\<close>: the named tasks of every file that is reached, from a task
  along the dependencies.
\<close>

definition recdeps_visit :: "run_tasks \<Rightarrow> string list \<Rightarrow> string \<Rightarrow> string list \<Rightarrow> (string list \<times> string list) res" where
  "recdeps_visit es tasknames t extra =
     rbind (split_tid_mcfn t) (\<lambda>(mc, fn, _, _).
       let newdeps = add_resolved_dependencies es mc fn tasknames [] in
       rbind (rmap (dget es) (sadd t newdeps)) (\<lambda>entries.
         Inr (concat (map rt_depends entries), sunion extra newdeps)))"

definition generate_recdeps :: "run_tasks \<Rightarrow> string list \<Rightarrow> string \<Rightarrow> string list \<times> string list \<Rightarrow>
    (string list \<times> string list) res" where
  "generate_recdeps es tasknames t = (\<lambda>(seendeps, extra).
     rbind (recdeps_visit es tasknames t extra) (\<lambda>(ns, extra).
       visit_all (keys es) (recdeps_visit es tasknames) ns (sadd t seendeps) extra))"

definition recursive_extra :: "step_a \<Rightarrow> string \<times> string list \<Rightarrow> (string \<times> string list) list \<Rightarrow>
    (string \<times> string list) list res" where
  "recursive_extra a = (\<lambda>(tid, tasknames) extradeps.
     rbind (dget (sa_entries a) tid) (\<lambda>e.
     rbind (rfold (generate_recdeps (sa_entries a) tasknames) (tid # dget_or (sa_recursivei a) tid [])
         ([], rt_depends e)) (\<lambda>(_, extra).
       Inr (dset tid extra extradeps))))"

definition final_depends :: "step_a \<Rightarrow> (string \<times> string list) list \<Rightarrow> run_tasks" where
  "final_depends a extradeps = map (\<lambda>(tid, e). (tid, e\<lparr>rt_depends :=
     filter (\<lambda>d. d \<noteq> tid) (case map_of extradeps tid of
         None \<Rightarrow> rt_depends e
       | Some ds \<Rightarrow> filter (\<lambda>d. d \<notin> set (sa_selfref a)) ds)\<rparr>)) (sa_entries a)"

definition prepare_b :: "step_a \<Rightarrow> run_tasks res" where
  "prepare_b a = rbind (rfold (recursive_extra a) (sa_recursive a) []) (\<lambda>extradeps. Inr (final_depends a extradeps))"

section \<open>Steps B and C: the active tasks\<close>

definition mark_active :: "run_tasks \<Rightarrow> string list \<Rightarrow> string list \<Rightarrow> string list res" where
  "mark_active es tids runq_build =
     rbind (visit_all (keys es) (\<lambda>t _. rbind (dget es t) (\<lambda>e. Inr (rt_depends e, ()))) tids runq_build ())
       (\<lambda>(runq_build, _). Inr runq_build)"

definition mark_target :: "rq_env \<Rightarrow> run_tasks \<Rightarrow> string \<times> string \<times> string \<times> string \<Rightarrow>
    string list \<times> string list \<Rightarrow> (string list \<times> string list) res" where
  "mark_target env es = (\<lambda>(mc, target, task, fn) (runq_build, tids).
     rbind (dget (q_taskData env) mc) (\<lambda>td.
       if bt td target = [] \<or> target \<in> set (failed_deps td) then Inr (runq_build, tids)
       else (let only_deps = endswith task ''-''; task = (if only_deps then butlast task else task);
                 tid = fn @ '':'' @ task
         in if fn \<in> set (failed_fns td) then Inr (runq_build, tids)
            else if tid \<notin> set (keys (taskentries td)) then Inl SystemExit
            else rbind (if only_deps then rbind (dget es tid) (\<lambda>e. Inr (rt_depends e)) else Inr [tid]) (\<lambda>starts.
              rbind (mark_active es starts runq_build) (\<lambda>runq_build.
                Inr (runq_build, tids @ [tid]))))))"

definition prune :: "string list \<Rightarrow> run_tasks \<Rightarrow> run_tasks" where
  "prune runq_build es = filter (\<lambda>(tid, e). tid \<in> set runq_build) es"

section \<open>Step D: checks and computations\<close>

text \<open>Reverse dependencies: \<open>runtaskentries[dep].revdeps.add(tid)\<close> for every dependency.\<close>

definition add_revdep :: "string \<Rightarrow> string \<Rightarrow> run_tasks \<Rightarrow> run_tasks res" where
  "add_revdep tid dep es = rbind (dget es dep) (\<lambda>e.
     Inr (dset dep (e\<lparr>rt_revdeps := sadd tid (rt_revdeps e)\<rparr>) es))"

definition add_revdeps :: "run_tasks \<Rightarrow> run_tasks res" where
  "add_revdeps es0 = rfold (\<lambda>(tid, e) es. rfold (add_revdep tid) (rt_depends e) es) es0 es0"

text \<open>The tasks nothing depends on; two tasks that depend on each other are an error.\<close>

definition find_endpoints :: "run_tasks \<Rightarrow> string list res" where
  "find_endpoints es = rfold (\<lambda>(tid, e) endpoints.
     if list_ex (\<lambda>dep. dep \<in> set (rt_depends e)) (rt_revdeps e) then Inl SystemExit
     else Inr (if rt_revdeps e = [] then endpoints @ [tid] else endpoints)) es []"

text \<open>Reverse dependencies, endpoints and weights.\<close>

definition weigh_tasks :: "run_tasks \<Rightarrow> ((string \<times> int) list \<times> run_tasks) res" where
  "weigh_tasks es = rbind (add_revdeps es) (\<lambda>es. rbind (find_endpoints es) (calculate_task_weights es))"

text \<open>
  No two versions of a recipe may provide the same thing; different recipes only get a message.
  The providers of a configuration are the files of its tasks, once each.
\<close>

definition provider_step :: "cache_data \<Rightarrow> string \<Rightarrow> string \<Rightarrow> string list \<times> (string \<times> string list) list \<Rightarrow>
    (string list \<times> (string \<times> string list) list) res" where
  "provider_step dc mc tid = (\<lambda>(seen_fn, prov_list).
     rbind (split_tid_mcfn tid) (\<lambda>(tidmc, fn, taskname, taskfn).
       if taskfn \<in> set seen_fn \<or> mc \<noteq> tidmc then Inr (seen_fn, prov_list)
       else rbind (dget (fn_provides dc) taskfn) (\<lambda>provs.
         Inr (seen_fn @ [taskfn], fold (\<lambda>prov pl. dappend_new prov taskfn pl) provs prov_list))))"

definition one_version_step :: "cache_data \<Rightarrow> string \<Rightarrow> string list \<Rightarrow> string list res" where
  "one_version_step dc fn seen_pn = rbind (dget (pkg_fn dc) fn) (\<lambda>pn.
     if pn \<in> set seen_pn then Inl BBHandledException else Inr (seen_pn @ [pn]))"

definition check_providers :: "rq_env \<Rightarrow> run_tasks \<Rightarrow> unit res" where
  "check_providers env es = rfold (\<lambda>(mc, dc) _.
     rbind (rfold (provider_step dc mc) (keys es) ([], [])) (\<lambda>(_, prov_list).
     rfold (\<lambda>(prov, fns) _.
       if length fns < 2 \<or> prov \<in> set (q_multi_provider_whitelist env) then Inr ()
       else rbind (rfold (one_version_step dc) fns []) (\<lambda>_. Inr ())) prov_list ())) (q_dataCaches env) ()"

text \<open>
  The whitelist of the stamp checks.  The files are read from the dictionary of all
  configurations instead of the task data of one, which has no \<open>build_targets\<close>.
\<close>

definition stamp_whitelist :: "rq_env \<Rightarrow> (string \<times> string list) list res" where
  "stamp_whitelist env = rfold (\<lambda>(mc, td) wl.
     if list_ex (\<lambda>entry. entry \<in> set (keys (build_targets td))) (split_ws (q_stampwhitelist env))
     then Inl AttributeError else Inr (dset mc [] wl)) (q_taskData env) []"

definition setscene_suffix :: string where
  "setscene_suffix = ''_setscene''"

definition find_setscene_tids :: "rq_env \<Rightarrow> run_tasks \<Rightarrow> string list res" where
  "find_setscene_tids env es = (if q_nosetscene env then Inr []
     else rfold (\<lambda>tid tids. rbind (split_tid_mcfn tid) (\<lambda>(mc, fn, taskname, _).
       rbind (dget (q_taskData env) mc) (\<lambda>td.
         Inr (if fn @ '':'' @ taskname @ setscene_suffix \<in> set (keys (taskentries td)) then tids @ [tid] else tids))))
       (keys es) [])"

text \<open>Forced and invalidated tasks: the calls of the signature generator.\<close>

definition invalidate_task :: "rq_env \<Rightarrow> bool \<Rightarrow> string \<Rightarrow> (string \<times> string) list \<Rightarrow> (string \<times> string) list res" where
  "invalidate_task env error_nostamp tid calls =
     rbind (split_tid_mcfn tid) (\<lambda>(mc, fn, taskname, _).
     rbind (dget (q_dataCaches env) mc) (\<lambda>dc.
     rbind (dget (cd_task_deps dc) fn) (\<lambda>taskdep.
     rbind (dget (q_taskData env) mc) (\<lambda>td.
       if task_flag taskdep ''nostamp'' taskname \<noteq> None
       then (if error_nostamp then Inl BBHandledException else Inr calls)
       else Inr (calls @ [(taskname, fn)])))))"

definition invalidated_task :: "string \<Rightarrow> string" where
  "invalidated_task st = (if startswith st ''do_'' then st else ''do_'' @ st)"

definition invalidate_tasks :: "rq_env \<Rightarrow> string list \<Rightarrow> (string \<times> string) list res" where
  "invalidate_tasks env tids =
     rbind (if q_force env then rfold (invalidate_task env False) tids [] else Inr []) (\<lambda>calls.
       if q_invalidate_stamp env = [] then Inr calls
       else rfold (\<lambda>tid. rfold (\<lambda>st. invalidate_task env True (fn_from_tid tid @ '':'' @ invalidated_task st))
         (split_on CHR '','' (q_invalidate_stamp env))) tids calls)"

text \<open>The table of virtual targets goes into messages; reading it can raise.\<close>

definition check_virtual :: "rq_env \<Rightarrow> unit res" where
  "check_virtual env = rfold (\<lambda>(mc, td) _. rbind (dget (q_dataCaches env) mc) (\<lambda>dc.
     rfold (\<lambda>(v, fn) _. rbind (dget (pkg_fn dc) fn) (\<lambda>_. Inr ())) (get_providermap ''virtual/'' td) ()))
     (q_taskData env) ()"

section \<open>Hashes\<close>

text \<open>
  The hash of a task is calculated once all its dependencies are dealt with.  A pass goes over a
  copy of the tasks to deal with, and passes are made while there are any.  The number of
  passes the model allows, one for each task, is enough on a graph without cycles.
\<close>

type_synonym taskhash = "string \<Rightarrow> string \<Rightarrow> string list \<Rightarrow> cache_data \<Rightarrow> string"

definition proc_dep :: "string \<Rightarrow> string res" where
  "proc_dep dep = rbind (taskname_from_tid dep) (\<lambda>taskname. Inr (fn_from_tid dep @ ''.'' @ taskname))"

definition task_hash :: "taskhash \<Rightarrow> rq_env \<Rightarrow> string \<Rightarrow> run_task \<Rightarrow> string res" where
  "task_hash get_taskhash env tid e =
     rbind (rmap proc_dep (rt_depends e)) (\<lambda>procdep.
     rbind (split_tid_mcfn tid) (\<lambda>(mc, fn, taskname, taskfn).
     rbind (dget (q_dataCaches env) mc) (\<lambda>dc.
       Inr (get_taskhash taskfn taskname procdep dc))))"

record hash_state =
  h_entries :: run_tasks
  h_dealtwith :: "string list"
  h_todeal :: "string list"

definition hash_step :: "taskhash \<Rightarrow> rq_env \<Rightarrow> string \<Rightarrow> hash_state \<Rightarrow> hash_state res" where
  "hash_step get_taskhash env tid s = rbind (dget (h_entries s) tid) (\<lambda>e.
     if list_all (\<lambda>d. d \<in> set (h_dealtwith s)) (rt_depends e)
     then rbind (task_hash get_taskhash env tid e) (\<lambda>h.
       Inr (s\<lparr>h_dealtwith := sadd tid (h_dealtwith s), h_todeal := remove1 tid (h_todeal s),
         h_entries := dset tid (e\<lparr>rt_hash := Some h\<rparr>) (h_entries s)\<rparr>))
     else Inr s)"

fun hash_loop :: "nat \<Rightarrow> taskhash \<Rightarrow> rq_env \<Rightarrow> hash_state \<Rightarrow> hash_state res" where
  "hash_loop n get_taskhash env s = (if h_todeal s = [] then Inr s
     else case n of 0 \<Rightarrow> Inl OutOfFuel
       | Suc m \<Rightarrow> rbind (rfold (hash_step get_taskhash env) (h_todeal s) s) (hash_loop m get_taskhash env))"

declare hash_loop.simps [simp del]

definition calculate_hashes :: "taskhash \<Rightarrow> rq_env \<Rightarrow> run_tasks \<Rightarrow> run_tasks res" where
  "calculate_hashes get_taskhash env es = rbind (hash_loop (length es) get_taskhash env
     \<lparr>h_entries = es, h_dealtwith = [], h_todeal = keys es\<rparr>) (\<lambda>s. Inr (h_entries s))"

section \<open>The preparation\<close>

text \<open>The number of tasks, 0 if there is nothing to do, with the state of the object.\<close>

definition prepare :: "taskhash \<Rightarrow> rq_env \<Rightarrow> (nat \<times> rqdata) res" where
  "prepare get_taskhash env =
     (if \<not> list_ex (\<lambda>(mc, td). taskentries td \<noteq> []) (q_taskData env) then Inr (0, init_rqdata)
      else
        rbind (prepare_a env) (\<lambda>a.
        rbind (prepare_b a) (\<lambda>es.
        rbind (rfold (mark_target env es) (q_targets env) ([], [])) (\<lambda>(runq_build, tids).
        let es = prune runq_build es in
        if es = [] then rbind (dget (q_taskData env) []) (\<lambda>_. Inl SystemExit)
        else
          rbind (weigh_tasks es) (\<lambda>(weights, es).
          rbind (check_providers env es) (\<lambda>_.
          rbind (stamp_whitelist env) (\<lambda>wl.
          rbind (find_setscene_tids env es) (\<lambda>setscene.
          rbind (invalidate_tasks env tids) (\<lambda>calls.
          rbind (check_virtual env) (\<lambda>_.
          rbind (calculate_hashes get_taskhash env es) (\<lambda>es.
            Inr (length es, \<lparr>runtaskentries = es, target_tids = tids, runq_weight = weights,
              stampfnwhitelist = wl, runq_setscene_tids = setscene, invalidated = calls\<rparr>))))))))))))"

end
