(* ===== verification/Run_Queue_Data_Facts.thy ===== *)
theory Run_Queue_Data_Facts
  imports Run_Queue_Data
begin

text \<open>
  What the operations of \<open>Run_Queue_Data\<close> establish: the round trip of task ids, the
  weights of the tasks with the test for circular dependencies, and what the schedulers choose.
\<close>

section \<open>The graph of the tasks\<close>

definition deps_of :: "run_tasks \<Rightarrow> string \<Rightarrow> string list" where
  "deps_of es t = (case map_of es t of None \<Rightarrow> [] | Some e \<Rightarrow> rt_depends e)"

definition rdeps_of :: "run_tasks \<Rightarrow> string \<Rightarrow> string list" where
  "rdeps_of es t = (case map_of es t of None \<Rightarrow> [] | Some e \<Rightarrow> rt_revdeps e)"

definition dep_rel :: "run_tasks \<Rightarrow> (string \<times> string) set" where
  "dep_rel es = {(t, d). d \<in> set (deps_of es t)}"

definition graph_ok :: "run_tasks \<Rightarrow> bool" where
  "graph_ok es \<longleftrightarrow> distinct (keys es) \<and> (\<forall>t. distinct (deps_of es t) \<and> distinct (rdeps_of es t) \<and>
     set (deps_of es t) \<subseteq> set (keys es)) \<and> (\<forall>t u. u \<in> set (rdeps_of es t) \<longleftrightarrow> t \<in> set (deps_of es u))"

definition endpoints_of :: "run_tasks \<Rightarrow> string list" where
  "endpoints_of es = filter (\<lambda>t. rdeps_of es t = []) (keys es)"

lemma deps_of_key: "d \<in> set (deps_of es t) \<Longrightarrow> t \<in> set (keys es)"
  by (cases "map_of es t") (auto simp: deps_of_def set_keys)

lemma deps_of_Some: "map_of es t = Some e \<Longrightarrow> deps_of es t = rt_depends e"
  by (simp add: deps_of_def)

lemma rdeps_of_Some: "map_of es t = Some e \<Longrightarrow> rdeps_of es t = rt_revdeps e"
  by (simp add: rdeps_of_def)

lemma graph_okD:
  assumes "graph_ok es"
  shows "distinct (keys es)" "distinct (deps_of es t)" "distinct (rdeps_of es t)"
    "set (deps_of es t) \<subseteq> set (keys es)" "u \<in> set (rdeps_of es t) \<longleftrightarrow> t \<in> set (deps_of es u)"
    "set (rdeps_of es t) \<subseteq> set (keys es)"
proof -
  show 1: "distinct (keys es)" "distinct (deps_of es t)" "distinct (rdeps_of es t)"
    "set (deps_of es t) \<subseteq> set (keys es)" "u \<in> set (rdeps_of es t) \<longleftrightarrow> t \<in> set (deps_of es u)" for t u
    using assms unfolding graph_ok_def by blast+
  show "set (rdeps_of es t) \<subseteq> set (keys es)" using 1(5) deps_of_key by blast
qed

lemma dep_rel_finite: "finite (dep_rel es)"
proof (rule finite_subset)
  show "dep_rel es \<subseteq> (\<Union>t \<in> set (keys es). {t} \<times> set (deps_of es t))"
    by (auto simp: dep_rel_def dest: deps_of_key)
qed simp

section \<open>Weights\<close>

definition base_weight :: "run_tasks \<Rightarrow> string \<Rightarrow> int" where
  "base_weight es t = (if rdeps_of es t = [] then 10 else 1)"

definition weight_of :: "weight_state \<Rightarrow> string \<Rightarrow> int" where
  "weight_of s t = dget_or (w_weight s) t 0"

text \<open>
  The state of the loop: \<open>P\<close> are the tasks whose dependencies have been dealt with,
  \<open>Q\<close> those all of whose reverse dependencies are in \<open>P\<close>.
\<close>

definition weights_inv :: "run_tasks \<Rightarrow> string set \<Rightarrow> string list \<Rightarrow> weight_state \<Rightarrow> bool" where
  "weights_inv es P Q s \<longleftrightarrow> distinct Q \<and> set Q \<inter> P = {} \<and>
     P \<union> set Q = {t \<in> set (keys es). set (rdeps_of es t) \<subseteq> P} \<and>
     (\<forall>t \<in> set (keys es). map_of (w_left s) t = Some (int (card (set (rdeps_of es t) - P))) \<and>
       map_of (w_done s) t = Some (t \<in> P \<union> set Q) \<and>
       map_of (w_weight s) t = Some (weight_of s t) \<and> weight_of s t \<ge> 1 \<and>
       weight_of s t = base_weight es t + (\<Sum>r \<in> set (rdeps_of es t) \<inter> P. weight_of s r))"

lemma weight_steps:
  assumes "distinct ds" "tid \<notin> set ds" "map_of (w_weight s) tid = Some wt"
    "\<And>d. d \<in> set ds \<Longrightarrow> map_of (w_weight s) d \<noteq> None \<and> map_of (w_left s) d \<noteq> None"
  shows "\<exists>s'. rfold (weight_step tid) ds (s, N) = Inr (s', N @ filter (\<lambda>d. left_of s d = 1) ds) \<and>
    (\<forall>k. map_of (w_weight s') k = (if k \<in> set ds then map_option (\<lambda>w. w + wt) (map_of (w_weight s) k)
       else map_of (w_weight s) k)) \<and>
    (\<forall>k. map_of (w_left s') k = (if k \<in> set ds then map_option (\<lambda>n. n - 1) (map_of (w_left s) k)
       else map_of (w_left s) k)) \<and>
    (\<forall>k. map_of (w_done s') k = (if k \<in> set ds \<and> left_of s k = 1 then Some True else map_of (w_done s) k))"
  using assms
proof (induction ds arbitrary: s N)
  case Nil
  then show ?case by simp
next
  case (Cons d ds)
  then obtain w n where w: "map_of (w_weight s) d = Some w" and n: "map_of (w_left s) d = Some n" by fastforce
  have l: "left_of s d = n" using n by (simp add: left_of_def dget_or_def)
  define u where "u = s\<lparr>w_weight := dset d (w + wt) (w_weight s), w_left := dset d (n - 1) (w_left s),
     w_done := (if n = 1 then dset d True (w_done s) else w_done s)\<rparr>"
  have step: "weight_step tid d (s, N) = Inr (u, if n = 1 then N @ [d] else N)"
    using w n Cons.prems(3) by (simp add: weight_step_def dget_def u_def)
  have left: "left_of u k = left_of s k" if "k \<noteq> d" for k
    using that by (simp add: u_def left_of_def)
  have "distinct ds" "tid \<notin> set ds" "map_of (w_weight u) tid = Some wt"
    "\<And>d. d \<in> set ds \<Longrightarrow> map_of (w_weight u) d \<noteq> None \<and> map_of (w_left u) d \<noteq> None"
    using Cons.prems by (auto simp: u_def)
  from Cons.IH [OF this, of "if n = 1 then N @ [d] else N"] obtain s' where
    r: "rfold (weight_step tid) ds (u, if n = 1 then N @ [d] else N) =
      Inr (s', (if n = 1 then N @ [d] else N) @ filter (\<lambda>d. left_of u d = 1) ds)"
    and m: "\<forall>k. map_of (w_weight s') k = (if k \<in> set ds then map_option (\<lambda>w. w + wt) (map_of (w_weight u) k)
       else map_of (w_weight u) k)"
    "\<forall>k. map_of (w_left s') k = (if k \<in> set ds then map_option (\<lambda>n. n - 1) (map_of (w_left u) k)
       else map_of (w_left u) k)"
    "\<forall>k. map_of (w_done s') k = (if k \<in> set ds \<and> left_of u k = 1 then Some True else map_of (w_done u) k)"
    by blast
  have d: "d \<notin> set ds" using Cons.prems(1) by simp
  have f: "filter (\<lambda>d. left_of u d = 1) ds = filter (\<lambda>d. left_of s d = 1) ds"
  proof (rule filter_cong [OF refl])
    show "(left_of u k = 1) = (left_of s k = 1)" if "k \<in> set ds" for k
      using that d left [of k] by (cases "k = d") simp_all
  qed
  show ?case
  proof (intro exI conjI allI)
    show "rfold (weight_step tid) (d # ds) (s, N) = Inr (s', N @ filter (\<lambda>d. left_of s d = 1) (d # ds))"
      using step r f l by simp
    show "map_of (w_weight s') k = (if k \<in> set (d # ds) then map_option (\<lambda>w. w + wt) (map_of (w_weight s) k)
       else map_of (w_weight s) k)" for k
      using m(1) d w by (simp add: u_def)
    show "map_of (w_left s') k = (if k \<in> set (d # ds) then map_option (\<lambda>n. n - 1) (map_of (w_left s) k)
       else map_of (w_left s) k)" for k
      using m(2) d n by (simp add: u_def)
    show "map_of (w_done s') k = (if k \<in> set (d # ds) \<and> left_of s k = 1 then Some True else map_of (w_done s) k)" for k
      using m(3) d l left [of k] by (cases "k = d") (simp_all add: u_def)
  qed
qed

lemma card_Diff_insert: "finite A \<Longrightarrow> x \<in> A \<Longrightarrow> x \<notin> P \<Longrightarrow> card (A - insert x P) = card (A - P) - 1 \<and> card (A - P) \<ge> 1"
proof -
  assume a: "finite A" "x \<in> A" "x \<notin> P"
  then have "card (A - P - {x}) = card (A - P) - 1" by (intro card_Diff_singleton) auto
  moreover have "A - P - {x} = A - insert x P" by auto
  moreover have "card (A - P) \<noteq> 0" using a by auto
  ultimately show ?thesis by simp
qed

lemma weight_point_inv:
  assumes g: "graph_ok es" and inv: "weights_inv es P (tid # E @ N) s"
  shows "\<exists>s' M. weight_point es tid (s, N) = Inr (s', M) \<and> weights_inv es (insert tid P) (E @ M) s'"
proof -
  note gd = graph_okD [OF g]
  have tid: "tid \<in> set (keys es)" "set (rdeps_of es tid) \<subseteq> P" "tid \<notin> P"
    using inv unfolding weights_inv_def by auto
  then obtain e where e: "map_of es tid = Some e" by (auto simp: set_keys)
  have self: "tid \<notin> set (deps_of es tid)" using gd(5) tid by blast
  have i: "map_of (w_left s) t = Some (int (card (set (rdeps_of es t) - P)))"
    "map_of (w_done s) t = Some (t \<in> P \<union> set (tid # E @ N))" "map_of (w_weight s) t = Some (weight_of s t)"
    "weight_of s t \<ge> 1" "weight_of s t = base_weight es t + (\<Sum>r \<in> set (rdeps_of es t) \<inter> P. weight_of s r)"
    if "t \<in> set (keys es)" for t
    using inv that unfolding weights_inv_def by auto
  let ?D = "deps_of es tid" and ?F = "filter (\<lambda>d. left_of s d = 1) (deps_of es tid)"
  have "\<And>d. d \<in> set ?D \<Longrightarrow> map_of (w_weight s) d \<noteq> None \<and> map_of (w_left s) d \<noteq> None"
    using gd(4) [of tid] i(1,3) by auto
  from weight_steps [OF gd(2) self i(3) [OF tid(1)] this, of N] obtain s' where
    r: "rfold (weight_step tid) ?D (s, N) = Inr (s', N @ ?F)"
    and m: "\<And>k. map_of (w_weight s') k = (if k \<in> set ?D then map_option (\<lambda>w. w + weight_of s tid) (map_of (w_weight s) k)
       else map_of (w_weight s) k)"
    "\<And>k. map_of (w_left s') k = (if k \<in> set ?D then map_option (\<lambda>n. n - 1) (map_of (w_left s) k)
       else map_of (w_left s) k)"
    "\<And>k. map_of (w_done s') k = (if k \<in> set ?D \<and> left_of s k = 1 then Some True else map_of (w_done s) k)"
    by blast
  have w: "weight_of s' t = (if t \<in> set ?D then weight_of s t + weight_of s tid else weight_of s t)"
    if "t \<in> set (keys es)" for t
    using m(1) [of t] i(3) [OF that] unfolding weight_of_def [of s' t] dget_or_def by (cases "t \<in> set ?D") simp_all
  have left: "left_of s t = int (card (set (rdeps_of es t) - P))" if "t \<in> set (keys es)" for t
    using i(1) [OF that] by (simp add: left_of_def dget_or_def)
  have mem: "t \<in> set ?D \<longleftrightarrow> tid \<in> set (rdeps_of es t)" for t using gd(5) by blast
  have F: "t \<in> set ?F \<longleftrightarrow> t \<in> set (keys es) \<and> tid \<in> set (rdeps_of es t) \<and> set (rdeps_of es t) \<subseteq> insert tid P" for t
  proof -
    have "card (set (rdeps_of es t) - P) = 1 \<longleftrightarrow> set (rdeps_of es t) \<subseteq> insert tid P"
      if "tid \<in> set (rdeps_of es t)"
    proof -
      have "card (set (rdeps_of es t) - insert tid P) = 0 \<longleftrightarrow> set (rdeps_of es t) \<subseteq> insert tid P"
        by (simp add: card_eq_0_iff)
      with card_Diff_insert [OF _ that tid(3)] show ?thesis by auto
    qed
    then have "left_of s t = 1 \<longleftrightarrow> set (rdeps_of es t) \<subseteq> insert tid P"
      if "t \<in> set (keys es)" "tid \<in> set (rdeps_of es t)" using left [OF that(1)] that(2) by simp
    then show ?thesis using mem [of t] gd(4) [of tid] by auto
  qed
  have same: "set (rdeps_of es t) \<inter> insert tid P = set (rdeps_of es t) \<inter> P" if "t \<notin> set ?D" for t
    using that mem by auto
  have fin: "weight_of s' r = weight_of s r" if "r \<in> P" for r
  proof -
    have "r \<in> set (keys es)" "set (rdeps_of es r) \<subseteq> P" using inv that unfolding weights_inv_def by auto
    then show ?thesis using w mem tid(3) by auto
  qed
  have sums: "weight_of s' t = base_weight es t + (\<Sum>r \<in> set (rdeps_of es t) \<inter> insert tid P. weight_of s' r)"
    if t: "t \<in> set (keys es)" for t
  proof -
    have s0: "(\<Sum>r \<in> set (rdeps_of es t) \<inter> P. weight_of s' r) = (\<Sum>r \<in> set (rdeps_of es t) \<inter> P. weight_of s r)"
      by (rule sum.cong) (use fin in auto)
    show ?thesis
    proof (cases "t \<in> set ?D")
      case True
      have "set (rdeps_of es t) \<inter> insert tid P = insert tid (set (rdeps_of es t) \<inter> P)" using True mem by auto
      moreover have "weight_of s' tid = weight_of s tid" using w [OF tid(1)] self by simp
      ultimately show ?thesis using True w [OF t] i(5) [OF t] s0 tid(3) by simp
    next
      case False
      then show ?thesis using w [OF t] i(5) [OF t] s0 same by simp
    qed
  qed
  have Q: "tid \<notin> set (E @ N)" "distinct (E @ N)" "set (E @ N) \<inter> P = {}"
    "P \<union> set (tid # E @ N) = {t \<in> set (keys es). set (rdeps_of es t) \<subseteq> P}"
    using inv unfolding weights_inv_def by auto
  have notF: "t \<notin> P \<union> set (tid # E @ N)" if "t \<in> set ?F" for t
    using that F Q(4) tid(3) by auto
  have "weights_inv es (insert tid P) (E @ N @ ?F) s'"
    unfolding weights_inv_def
  proof (intro conjI ballI)
    show "distinct (E @ N @ ?F)" using Q(2) notF gd(2) by auto
    show "set (E @ N @ ?F) \<inter> insert tid P = {}" using Q(1,3) notF by auto
    have "insert tid P \<union> set (E @ N @ ?F) = (P \<union> set (tid # E @ N)) \<union> set ?F" by auto
    also have "\<dots> = {t \<in> set (keys es). set (rdeps_of es t) \<subseteq> insert tid P}"
      unfolding Q(4) using F by blast
    finally show "insert tid P \<union> set (E @ N @ ?F) = {t \<in> set (keys es). set (rdeps_of es t) \<subseteq> insert tid P}" .
    fix t assume t: "t \<in> set (keys es)"
    show "map_of (w_left s') t = Some (int (card (set (rdeps_of es t) - insert tid P)))"
    proof (cases "t \<in> set ?D")
      case True
      then have "tid \<in> set (rdeps_of es t)" using mem by simp
      from card_Diff_insert [OF _ this tid(3)] show ?thesis
        using m(2) [of t] i(1) [OF t] True by (simp add: of_nat_diff)
    next
      case False
      then have "set (rdeps_of es t) - insert tid P = set (rdeps_of es t) - P" using mem by auto
      then show ?thesis using m(2) [of t] i(1) [OF t] False by simp
    qed
    show "map_of (w_done s') t = Some (t \<in> insert tid P \<union> set (E @ N @ ?F))"
      using m(3) [of t] i(2) [OF t] by auto
    show "map_of (w_weight s') t = Some (weight_of s' t)"
      using m(1) [of t] i(3) [OF t] w [OF t] by simp
    show "weight_of s' t \<ge> 1"
      using w [OF t] i(4) [OF t] i(4) [OF tid(1)] by auto
    show "weight_of s' t = base_weight es t + (\<Sum>r \<in> set (rdeps_of es t) \<inter> insert tid P. weight_of s' r)"
      by (rule sums [OF t])
  qed
  moreover have "weight_point es tid (s, N) = Inr (s', N @ ?F)"
    using r e deps_of_Some [OF e] by (simp add: weight_point_def dget_def)
  ultimately show ?thesis by (intro exI [of _ s'] exI [of _ "N @ ?F"] conjI) simp_all
qed

lemma weight_pass_inv:
  assumes g: "graph_ok es"
  shows "weights_inv es P (E @ N) s \<Longrightarrow>
    \<exists>s' M. rfold (weight_point es) E (s, N) = Inr (s', M) \<and> weights_inv es (P \<union> set E) M s'"
proof (induction E arbitrary: P N s)
  case (Cons tid E)
  from weight_point_inv [OF g, of P tid E N s] Cons.prems obtain s' M where
    1: "weight_point es tid (s, N) = Inr (s', M)" "weights_inv es (insert tid P) (E @ M) s'" by auto
  from Cons.IH [OF 1(2)] obtain s'' M' where
    "rfold (weight_point es) E (s', M) = Inr (s'', M')" "weights_inv es (insert tid P \<union> set E) M' s''" by blast
  with 1(1) show ?case by auto
qed simp

lemma weight_loop_inv:
  "graph_ok es \<Longrightarrow> weights_inv es P E s \<Longrightarrow> \<exists>s' P'. weight_loop es E s = Inr s' \<and> weights_inv es P' [] s'"
proof (induction es E s arbitrary: P rule: weight_loop.induct)
  case (1 es E s)
  from weight_pass_inv [OF 1(2), of P E "[]" s] 1(3) obtain s' M where
    r: "weight_pass es E s = Inr (s', M)" and i: "weights_inv es (P \<union> set E) M s'"
    by (auto simp: weight_pass_def)
  show ?case
  proof (cases "M = []")
    case True
    with r have "weight_loop es E s = Inr s'" by (simp add: weight_loop.simps)
    with i True show ?thesis by auto
  next
    case False
    from 1(1) [OF r refl False 1(2) i] r False show ?thesis by (simp add: weight_loop.simps)
  qed
qed

lemma fold_dset_map_of:
  "map_of (fold (\<lambda>k d. dset k v d) ks d) k = (if k \<in> set ks then Some v else map_of d k)"
  by (induction ks arbitrary: d) auto

lemma weights_init_eq:
  "w_weight (weights_init es E) = fold (\<lambda>k d. dset k 10 d) E (map (\<lambda>(tid, e). (tid, 1)) es)"
  "w_left (weights_init es E) = map (\<lambda>(tid, e). (tid, int (length (rt_revdeps e)))) es"
  "w_done (weights_init es E) = fold (\<lambda>k d. dset k True d) E (map (\<lambda>(tid, e). (tid, False)) es)"
proof -
  have "w_weight (fold (\<lambda>tid s. s\<lparr>w_weight := dset tid 10 (w_weight s), w_done := dset tid True (w_done s)\<rparr>) E s) =
      fold (\<lambda>k d. dset k 10 d) E (w_weight s) \<and>
    w_left (fold (\<lambda>tid s. s\<lparr>w_weight := dset tid 10 (w_weight s), w_done := dset tid True (w_done s)\<rparr>) E s) = w_left s \<and>
    w_done (fold (\<lambda>tid s. s\<lparr>w_weight := dset tid 10 (w_weight s), w_done := dset tid True (w_done s)\<rparr>) E s) =
      fold (\<lambda>k d. dset k True d) E (w_done s)" for s :: weight_state
    by (induction E arbitrary: s) auto
  then show "w_weight (weights_init es E) = fold (\<lambda>k d. dset k 10 d) E (map (\<lambda>(tid, e). (tid, 1)) es)"
    "w_left (weights_init es E) = map (\<lambda>(tid, e). (tid, int (length (rt_revdeps e)))) es"
    "w_done (weights_init es E) = fold (\<lambda>k d. dset k True d) E (map (\<lambda>(tid, e). (tid, False)) es)"
    by (simp_all add: weights_init_def Let_def)
qed

lemma map_of_map_snd: "map_of (map (\<lambda>(k, v). (k, f v)) d) k = map_option f (map_of d k)"
  by (induction d) auto

lemma weights_init_inv:
  assumes g: "graph_ok es"
  shows "weights_inv es {} (endpoints_of es) (weights_init es (endpoints_of es))"
proof -
  have E: "set (endpoints_of es) = {t \<in> set (keys es). rdeps_of es t = []}" by (auto simp: endpoints_of_def)
  have m: "\<exists>e. map_of es t = Some e \<and> rt_revdeps e = rdeps_of es t" if "t \<in> set (keys es)" for t
    using that by (auto simp: set_keys rdeps_of_def)
  show ?thesis unfolding weights_inv_def
  proof (intro conjI ballI)
    show "distinct (endpoints_of es)" using graph_okD(1) [OF g] by (simp add: endpoints_of_def)
    show "{} \<union> set (endpoints_of es) = {t \<in> set (keys es). set (rdeps_of es t) \<subseteq> {}}" using E by auto
    fix t assume t: "t \<in> set (keys es)"
    then obtain e where e: "map_of es t = Some e" "rt_revdeps e = rdeps_of es t" using m by blast
    show "map_of (w_left (weights_init es (endpoints_of es))) t = Some (int (card (set (rdeps_of es t) - {})))"
      using e graph_okD(3) [OF g, of t] by (simp add: weights_init_eq map_of_map_snd distinct_card)
    show "map_of (w_done (weights_init es (endpoints_of es))) t = Some (t \<in> {} \<union> set (endpoints_of es))"
      using e by (simp add: weights_init_eq fold_dset_map_of map_of_map_snd)
    have w: "map_of (w_weight (weights_init es (endpoints_of es))) t = Some (base_weight es t)"
      using e t E by (simp add: weights_init_eq fold_dset_map_of map_of_map_snd base_weight_def)
    then have w': "weight_of (weights_init es (endpoints_of es)) t = base_weight es t"
      by (simp add: weight_of_def dget_or_def)
    with w show "map_of (w_weight (weights_init es (endpoints_of es))) t =
      Some (weight_of (weights_init es (endpoints_of es)) t)" by simp
    show "1 \<le> weight_of (weights_init es (endpoints_of es)) t" using w' by (simp add: base_weight_def)
    show "weight_of (weights_init es (endpoints_of es)) t = base_weight es t +
      sum (weight_of (weights_init es (endpoints_of es))) (set (rdeps_of es t) \<inter> {})" using w' by simp
  qed simp
qed

text \<open>
  The weights solve the equations of the graph when it has no cycle, and only then every task
  is dealt with.
\<close>

definition weights_solve :: "run_tasks \<Rightarrow> (string \<Rightarrow> int) \<Rightarrow> bool" where
  "weights_solve es w \<longleftrightarrow> (\<forall>t \<in> set (keys es). w t = base_weight es t + sum_list (map w (rdeps_of es t)))"

lemma weights_done:
  assumes g: "graph_ok es" and i: "weights_inv es P [] s"
  shows "set (problem_tasks es s) = set (keys es) - P"
    and "problem_tasks es s = [] \<longleftrightarrow> acyclic (dep_rel es)"
    and "problem_tasks es s = [] \<Longrightarrow> weights_solve es (weight_of s)"
proof -
  have P: "P = {t \<in> set (keys es). set (rdeps_of es t) \<subseteq> P}" using i unfolding weights_inv_def by simp
  have w: "weight_of s t \<ge> 1" "weight_of s t = base_weight es t + (\<Sum>r \<in> set (rdeps_of es t) \<inter> P. weight_of s r)"
    "dget_or (w_left s) t 0 = int (card (set (rdeps_of es t) - P))" "dget_or (w_done s) t False \<longleftrightarrow> t \<in> P"
    if "t \<in> set (keys es)" for t
    using i that unfolding weights_inv_def by (auto simp: dget_or_def)
  show p: "set (problem_tasks es s) = set (keys es) - P"
  proof -
    have "t \<in> set (problem_tasks es s) \<longleftrightarrow> t \<notin> P" if "t \<in> set (keys es)" for t
    proof -
      have "t \<in> P \<Longrightarrow> set (rdeps_of es t) - P = {}" using P by blast
      then show ?thesis using w(3,4) [OF that] that unfolding problem_tasks_def by auto
    qed
    moreover have "set (problem_tasks es s) \<subseteq> set (keys es)" by (auto simp: problem_tasks_def)
    ultimately show ?thesis by blast
  qed
  have "acyclic (dep_rel es)" if "set (keys es) \<subseteq> P"
  proof -
    have lt: "weight_of s t < weight_of s d" if "(t, d) \<in> dep_rel es" for t d
    proof -
      have td: "d \<in> set (keys es)" "t \<in> set (keys es)" "t \<in> set (rdeps_of es d)"
        using that graph_okD [OF g] deps_of_key unfolding dep_rel_def by blast+
      have tP: "t \<in> set (rdeps_of es d) \<inter> P" using td \<open>set (keys es) \<subseteq> P\<close> by auto
      have nn: "0 \<le> weight_of s r" if "r \<in> set (rdeps_of es d) \<inter> P" for r
        using w(1) [of r] that P by force
      have "weight_of s t \<le> (\<Sum>r \<in> set (rdeps_of es d) \<inter> P. weight_of s r)"
        by (rule member_le_sum [OF tP]) (simp_all add: nn)
      moreover have "base_weight es d \<ge> 1" by (simp add: base_weight_def)
      ultimately show ?thesis using w(2) [OF td(1)] by linarith
    qed
    have "weight_of s t < weight_of s d" if "(t, d) \<in> (dep_rel es)\<^sup>+" for t d
      using that by (induction rule: trancl_induct) (auto dest: lt)
    then show ?thesis unfolding acyclic_def by fastforce
  qed
  moreover have "set (keys es) \<subseteq> P" if a: "acyclic (dep_rel es)"
  proof (rule ccontr)
    assume "\<not> ?thesis"
    then obtain t where "t \<in> set (keys es) - P" by auto
    with wfE_min [OF finite_acyclic_wf [OF dep_rel_finite a], of t "set (keys es) - P"]
    obtain z where z: "z \<in> set (keys es) - P" "\<And>y. (y, z) \<in> dep_rel es \<Longrightarrow> y \<notin> set (keys es) - P" by blast
    have "set (rdeps_of es z) \<subseteq> P"
    proof
      fix r assume r: "r \<in> set (rdeps_of es z)"
      then have "(r, z) \<in> dep_rel es" using graph_okD(5) [OF g] by (simp add: dep_rel_def)
      with z(2) [of r] r graph_okD(6) [OF g, of z] show "r \<in> P" by auto
    qed
    with P z(1) show False by blast
  qed
  ultimately have a: "set (keys es) \<subseteq> P \<longleftrightarrow> acyclic (dep_rel es)" by blast
  have n: "problem_tasks es s = [] \<longleftrightarrow> set (keys es) \<subseteq> P" using p by (metis Diff_eq_empty_iff set_empty2)
  with a show "problem_tasks es s = [] \<longleftrightarrow> acyclic (dep_rel es)" by simp
  show "weights_solve es (weight_of s)" if "problem_tasks es s = []"
    unfolding weights_solve_def
  proof
    fix t assume t: "t \<in> set (keys es)"
    have "set (rdeps_of es t) \<inter> P = set (rdeps_of es t)" using graph_okD(6) [OF g, of t] n that by auto
    with w(2) [OF t] show "weight_of s t = base_weight es t + sum_list (map (weight_of s) (rdeps_of es t))"
      using graph_okD(3) [OF g, of t] by (simp add: sum_list_distinct_conv_sum_set)
  qed
qed

text \<open>The result: the weights are computed exactly if no task depends on itself.\<close>

lemma calculate_task_weights_result:
  assumes g: "graph_ok es"
  shows "acyclic (dep_rel es) \<longleftrightarrow> (\<exists>r. calculate_task_weights es (endpoints_of es) = Inr r)"
    and "calculate_task_weights es (endpoints_of es) = Inr (w, es') \<Longrightarrow>
      weights_solve es (\<lambda>t. dget_or w t 0) \<and>
      es' = map (\<lambda>(tid, e). (tid, e\<lparr>rt_weight := dget_or w tid 0\<rparr>)) es"
proof -
  from weight_loop_inv [OF g weights_init_inv [OF g]] obtain s P where
    r: "weight_loop es (endpoints_of es) (weights_init es (endpoints_of es)) = Inr s"
    and i: "weights_inv es P [] s" by blast
  note d = weights_done [OF g i]
  show "acyclic (dep_rel es) \<longleftrightarrow> (\<exists>r. calculate_task_weights es (endpoints_of es) = Inr r)"
    using d(2) r unfolding calculate_task_weights_def by (simp add: Let_def rbind_eq_Inr)
  assume "calculate_task_weights es (endpoints_of es) = Inr (w, es')"
  then have "problem_tasks es s = []" "w = w_weight s"
    "es' = map (\<lambda>(tid, e). (tid, e\<lparr>rt_weight := dget_or (w_weight s) tid 0\<rparr>)) es"
    using r unfolding calculate_task_weights_def by (auto simp: Let_def rbind_eq_Inr split: if_splits)
  with d(3) show "weights_solve es (\<lambda>t. dget_or w t 0) \<and>
      es' = map (\<lambda>(tid, e). (tid, e\<lparr>rt_weight := dget_or w tid 0\<rparr>)) es"
    unfolding weight_of_def [abs_def] by simp
qed

lemma weights_positive:
  assumes g: "graph_ok es" and a: "acyclic (dep_rel es)" and w: "weights_solve es w" and t: "t \<in> set (keys es)"
  shows "w t \<ge> 1"
  using t
proof (induction t rule: wf_induct_rule [OF finite_acyclic_wf [OF dep_rel_finite a]])
  case (1 t)
  have "0 \<le> w r" if r: "r \<in> set (rdeps_of es t)" for r
  proof -
    have "(r, t) \<in> dep_rel es" "r \<in> set (keys es)"
      using graph_okD(5) [OF g] graph_okD(6) [OF g, of t] r by (auto simp: dep_rel_def)
    with 1(1) show ?thesis by force
  qed
  then have "0 \<le> sum_list (map w (rdeps_of es t))" by (intro sum_list_nonneg) auto
  moreover have "base_weight es t \<ge> 1" by (simp add: base_weight_def)
  ultimately show ?case using w 1(2) unfolding weights_solve_def by force
qed

text \<open>A task weighs less than everything it depends on.\<close>

lemma weights_decrease:
  assumes g: "graph_ok es" and a: "acyclic (dep_rel es)" and w: "weights_solve es w"
    and d: "d \<in> set (deps_of es t)"
  shows "w t < w d"
proof -
  have dk: "d \<in> set (keys es)" "t \<in> set (rdeps_of es d)" using graph_okD(4,5) [OF g] d by blast+
  have nn: "0 \<le> w r" if "r \<in> set (rdeps_of es d)" for r
    using weights_positive [OF g a w, of r] graph_okD(6) [OF g, of d] that by force
  have "w t \<le> sum_list (map w (rdeps_of es d))"
    by (rule member_le_sum_list) (use dk nn in auto)
  moreover have "base_weight es d \<ge> 1" by (simp add: base_weight_def)
  ultimately show ?thesis using w dk(1) unfolding weights_solve_def by force
qed

section \<open>Circular dependencies\<close>

text \<open>A loop: every task is depended on by the next one, and the last by the first.\<close>

definition is_loop :: "run_tasks \<Rightarrow> string list \<Rightarrow> bool" where
  "is_loop es xs \<longleftrightarrow> xs \<noteq> [] \<and> distinct xs \<and> successively (\<lambda>a b. b \<in> set (rdeps_of es a)) xs \<and>
     hd xs \<in> set (rdeps_of es (last xs))"

lemma is_loop_rotate:
  assumes "is_loop es (xs @ ys)" "xs \<noteq> []" "ys \<noteq> []"
  shows "is_loop es (ys @ xs)"
  using assms by (auto simp: is_loop_def successively_append_iff)

lemma chain_reorder_loop:
  assumes "is_loop es xs"
  shows "is_loop es (chain_reorder xs)"
proof -
  define n where "n = foldl (\<lambda>lowest entry. if xs ! entry < xs ! lowest then entry else lowest) 0 [0..<length xs]"
  have "n < length xs"
  proof -
    have "m < length xs \<Longrightarrow> set is \<subseteq> {..<length xs} \<Longrightarrow>
        foldl (\<lambda>lowest entry. if xs ! entry < xs ! lowest then entry else lowest) m is < length xs" for m "is"
      by (induction "is" arbitrary: m) auto
    note this [of 0 "[0..<length xs]"]
    moreover have "0 < length xs" "set [0..<length xs] \<subseteq> {..<length xs}" using assms by (auto simp: is_loop_def)
    ultimately show ?thesis by (simp only: n_def)
  qed
  moreover have "chain_reorder xs = drop n xs @ take n xs" by (simp add: chain_reorder_def n_def Let_def)
  ultimately show ?thesis
    using is_loop_rotate [of es "take n xs" "drop n xs"] assms by (cases "n = 0") (auto simp: is_loop_def)
qed

definition chains_ok :: "run_tasks \<Rightarrow> chain_state \<Rightarrow> bool" where
  "chains_ok es s \<longleftrightarrow> (\<forall>c \<in> set (valid_chains s). is_loop es c) \<and>
     (valid_chains s = [] \<longrightarrow> (\<forall>x \<in> set (keys (explored_deps s)). set (rdeps_of es x) \<subseteq> set (keys (explored_deps s))) \<and>
       acyclic {(x, r). x \<in> set (keys (explored_deps s)) \<and> r \<in> set (rdeps_of es x)})"

text \<open>What a call finds stays found.\<close>

definition grows :: "chain_state \<Rightarrow> chain_state \<Rightarrow> bool" where
  "grows s t \<longleftrightarrow> (\<exists>cs. valid_chains t = valid_chains s @ cs) \<and>
     set (keys (explored_deps s)) \<subseteq> set (keys (explored_deps t))"

interpretation grow: state_preorder grows
  by unfold_locales (auto simp: grows_def)

lemma chain_loop_grows:
  assumes "\<And>r p. grow.keeps (search r p)"
  shows "grow.keeps (chain_loop search tid prev_chain revdeps total_deps)"
proof (induction revdeps arbitrary: total_deps)
  case Nil
  show ?case unfolding chain_loop.simps by (rule grow.update) (auto simp: grows_def)
next
  case (Cons r rs)
  have 1: "grow.keeps (supd (add_chain c))" for c
    by (rule grow.update) (auto simp: add_chain_def grows_def)
  show ?case
    by (simp only: chain_loop.simps) (intro grow.branch grow.sequence 1 grow.pure Cons.IH assms)
qed

lemma find_chains_grows: "grow.keeps (find_chains n es tid prev_chain)"
proof (induction n arbitrary: tid prev_chain)
  case 0
  show ?case by (simp add: grow.pure)
next
  case (Suc n)
  show ?case by (simp only: find_chains.simps) (intro grow.sequence grow.pure chain_loop_grows Suc.IH)
qed

text \<open>
  The search from a task: only loops are recorded, and if none has been, the explored tasks
  are closed under reverse dependencies and without a cycle.
\<close>

definition good_prev :: "run_tasks \<Rightarrow> string list \<Rightarrow> bool" where
  "good_prev es xs \<longleftrightarrow> distinct xs \<and> successively (\<lambda>a b. b \<in> set (rdeps_of es a)) xs"

lemma good_prev_loop:
  assumes "good_prev es prev" "r \<in> set prev" "r \<in> set (rdeps_of es (last prev))"
  shows "is_loop es (dropWhile (\<lambda>x. x \<noteq> r) prev)"
proof -
  obtain xs ys where p: "prev = xs @ r # ys" "r \<notin> set xs" using assms(2) by (meson split_list_first)
  have e: "dropWhile (\<lambda>x. x \<noteq> r) prev = r # ys"
    unfolding p(1) using p(2) by (subst dropWhile_append2) auto
  show ?thesis
    using assms(1,3) unfolding e is_loop_def good_prev_def by (simp add: p successively_append_iff)
qed

lemma chains_ok_finish:
  assumes s: "chains_ok es s" and r: "valid_chains s = [] \<Longrightarrow> set (rdeps_of es tid) \<subseteq> set (keys (explored_deps s)) - {tid}"
  shows "chains_ok es (s\<lparr>explored_deps := dset tid d (explored_deps s)\<rparr>)"
proof -
  let ?X = "set (keys (explored_deps s))"
  have c: "\<forall>x \<in> ?X. set (rdeps_of es x) \<subseteq> ?X"
    and a: "acyclic {(x, r). x \<in> ?X \<and> r \<in> set (rdeps_of es x)}" if "valid_chains s = []"
    using s that unfolding chains_ok_def by blast+
  have "acyclic {(x, r). x \<in> insert tid ?X \<and> r \<in> set (rdeps_of es x)}" if v: "valid_chains s = []"
  proof (cases "tid \<in> ?X")
    case True
    then show ?thesis using a [OF v] by (simp add: insert_absorb)
  next
    case False
    let ?R = "{(x, r). x \<in> ?X \<and> r \<in> set (rdeps_of es x)}"
    have split: "{(x, r). x \<in> insert tid ?X \<and> r \<in> set (rdeps_of es x)} = ?R \<union> {tid} \<times> set (rdeps_of es tid)"
      by auto
    have inX: "y \<in> ?X" if "(x, y) \<in> (?R \<union> {tid} \<times> set (rdeps_of es tid))\<^sup>+" for x y
      using that by (induction rule: trancl_induct) (use c [OF v] r [OF v] in auto)
    have old: "(x, y) \<in> ?R\<^sup>+" if "(x, y) \<in> (?R \<union> {tid} \<times> set (rdeps_of es tid))\<^sup>+" "x \<in> ?X" for x y
      using that
    proof (induction rule: trancl_induct)
      case (base y)
      with False show ?case by auto
    next
      case (step y z)
      have "y \<in> ?X" by (rule inX [OF step(1)])
      with step False have "(x, y) \<in> ?R\<^sup>+" "(y, z) \<in> ?R" by auto
      then show ?case by (rule trancl_into_trancl)
    qed
    have "(x, x) \<notin> (?R \<union> {tid} \<times> set (rdeps_of es tid))\<^sup>+" for x
      using inX [of x x] old [of x x] a [OF v] unfolding acyclic_def by blast
    then show ?thesis unfolding split acyclic_def by blast
  qed
  with s c r show ?thesis unfolding chains_ok_def by auto
qed

definition chain_spec :: "run_tasks \<Rightarrow> string \<Rightarrow> (chain_state, unit) sm \<Rightarrow> bool" where
  "chain_spec es tid m \<longleftrightarrow> hoare (chains_ok es) m
     (\<lambda>_ s. chains_ok es s \<and> (valid_chains s = [] \<longrightarrow> tid \<in> set (keys (explored_deps s)))) (\<lambda>e _. e \<noteq> OutOfFuel)"

lemma chain_loop_ok:
  assumes search: "\<And>r. r \<in> set (rdeps_of es tid) \<Longrightarrow> r \<notin> set prev \<Longrightarrow> chain_spec es r (search r prev)"
    and grows: "\<And>r. grow.keeps (search r prev)"
    and prev: "good_prev es prev" "prev \<noteq> []" "last prev = tid"
  shows "rdeps_of es tid = old @ rs \<Longrightarrow>
    hoare (\<lambda>s. chains_ok es s \<and> (valid_chains s = [] \<longrightarrow> set old \<subseteq> set (keys (explored_deps s)) - {tid}))
      (chain_loop search tid prev rs total_deps)
      (\<lambda>_ s. chains_ok es s \<and> (valid_chains s = [] \<longrightarrow> tid \<in> set (keys (explored_deps s)))) (\<lambda>e _. e \<noteq> OutOfFuel)"
proof (induction rs arbitrary: old total_deps)
  case Nil
  then have r: "rdeps_of es tid = old" by simp
  show ?case unfolding chain_loop.simps
  proof (rule hoare_supd)
    fix s assume s: "chains_ok es s \<and> (valid_chains s = [] \<longrightarrow> set old \<subseteq> set (keys (explored_deps s)) - {tid})"
    from chains_ok_finish [of es s tid] s r
    show "chains_ok es (s\<lparr>explored_deps := dset tid total_deps (explored_deps s)\<rparr>) \<and>
      (valid_chains (s\<lparr>explored_deps := dset tid total_deps (explored_deps s)\<rparr>) = [] \<longrightarrow>
        tid \<in> set (keys (explored_deps (s\<lparr>explored_deps := dset tid total_deps (explored_deps s)\<rparr>))))" by simp
  qed
next
  case (Cons r rs)
  let ?P = "\<lambda>old s. chains_ok es s \<and> (valid_chains s = [] \<longrightarrow> set old \<subseteq> set (keys (explored_deps s)) - {tid})"
  have rd: "r \<in> set (rdeps_of es tid)" using Cons.prems by simp
  have next_IH: "hoare (?P (old @ [r])) (chain_loop search tid prev rs d)
      (\<lambda>_ s. chains_ok es s \<and> (valid_chains s = [] \<longrightarrow> tid \<in> set (keys (explored_deps s)))) (\<lambda>e _. e \<noteq> OutOfFuel)" for d
    by (rule Cons.IH) (simp add: Cons.prems)
  show ?case
  proof (cases "r \<in> set prev")
    case True
    let ?c = "chain_reorder (dropWhile (\<lambda>x. x \<noteq> r) prev)"
    have loop: "is_loop es ?c"
      by (rule chain_reorder_loop, rule good_prev_loop [OF prev(1) True]) (simp add: prev(3) rd)
    have add: "chains_ok es (add_chain ?c s) \<and> valid_chains (add_chain ?c s) \<noteq> []" if "chains_ok es s" for s
      using that loop by (auto simp: chains_ok_def add_chain_def chain_array_contains_def list_ex_iff)
    have "hoare (\<lambda>s. chains_ok es s \<and> valid_chains s \<noteq> []) (chain_loop search tid prev rs total_deps)
      (\<lambda>_ s. chains_ok es s \<and> (valid_chains s = [] \<longrightarrow> tid \<in> set (keys (explored_deps s)))) (\<lambda>e _. e \<noteq> OutOfFuel)"
      by (rule hoare_pre [OF next_IH]) simp
    then have rest: "hoare (\<lambda>s. (chains_ok es s \<and> valid_chains s \<noteq> []) \<and> v = (length (valid_chains s) > 10))
      (if v then sret () else chain_loop search tid prev rs total_deps)
      (\<lambda>_ s. chains_ok es s \<and> (valid_chains s = [] \<longrightarrow> tid \<in> set (keys (explored_deps s)))) (\<lambda>e _. e \<noteq> OutOfFuel)" for v
      by (intro hoare_if) (auto intro!: hoare_sret elim: hoare_pre)
    show ?thesis
      unfolding chain_loop.simps using True
      by (simp only: if_True) (rule hoare_supd_bind [OF hoare_sget_bind [OF rest]], use add in blast)
  next
    case False
    have frame: "hoare (\<lambda>s. valid_chains s = [] \<longrightarrow> set old \<subseteq> set (keys (explored_deps s)) - {tid}) (search r prev)
        (\<lambda>_ s. valid_chains s = [] \<longrightarrow> set old \<subseteq> set (keys (explored_deps s)) - {tid}) (\<lambda>_ _. True)"
      by (rule hoare_weaken [OF grow.hoare_keeps [OF grows]]) (auto simp: grows_def)
    have call: "hoare (?P old) (search r prev) (\<lambda>_. ?P old) (\<lambda>e _. e \<noteq> OutOfFuel)"
      by (rule hoare_weaken [OF hoare_conj [OF search [OF rd False, unfolded chain_spec_def] frame]]) auto
    have ne: "r \<noteq> tid" using False prev(2,3) last_in_set by blast
    have read: "hoare (?P old) (sbind (sres (\<lambda>s. dget (explored_deps s) r)) (\<lambda>deps.
          chain_loop search tid prev rs (sunion total_deps deps)))
        (\<lambda>_ s. chains_ok es s \<and> (valid_chains s = [] \<longrightarrow> tid \<in> set (keys (explored_deps s)))) (\<lambda>e _. e \<noteq> OutOfFuel)"
      by (rule hoare_sres_bind, rule hoare_pre [OF next_IH])
        (use ne in \<open>auto simp: dest: map_of_keys split: option.splits\<close>, auto simp: dget_def split: option.splits)
    have "hoare (?P old) (if v then search r prev else sret ()) (\<lambda>_. ?P old) (\<lambda>e _. e \<noteq> OutOfFuel)" for v
      using call by (intro hoare_if) (auto intro: hoare_sret)
    then have "hoare (\<lambda>s. ?P old s \<and> v = must_scan r prev s) (if v then search r prev else sret ()) (\<lambda>_. ?P old) (\<lambda>e _. e \<noteq> OutOfFuel)" for v
      by (rule hoare_pre) simp
    note scan = hoare_sbind [OF this read]
    show ?thesis
      unfolding chain_loop.simps using False
      by (simp only: if_False) (rule hoare_sget_bind [OF scan])
  qed
qed

lemma find_chains_ok:
  "graph_ok es \<Longrightarrow> good_prev es (prev @ [tid]) \<Longrightarrow> card (set (keys es) - set prev) < n \<Longrightarrow>
    chain_spec es tid (find_chains n es tid prev)"
proof (induction n arbitrary: prev tid)
  case (Suc n)
  have "hoare (chains_ok es) (chain_loop (find_chains n es) tid (prev @ [tid]) (rt_revdeps e) (rt_revdeps e))
      (\<lambda>_ s. chains_ok es s \<and> (valid_chains s = [] \<longrightarrow> tid \<in> set (keys (explored_deps s)))) (\<lambda>e _. e \<noteq> OutOfFuel)"
    if e: "map_of es tid = Some e" for e
  proof -
    have tid: "tid \<in> set (keys es)" "tid \<notin> set prev"
      using map_of_keys [OF e] Suc.prems(2) by (auto simp: good_prev_def)
    have less: "card (set (keys es) - set (prev @ [tid])) < n"
    proof -
      have "card (set (keys es) - set (prev @ [tid])) < card (set (keys es) - set prev)"
        using tid by (intro psubset_card_mono) auto
      with Suc.prems(3) show ?thesis by simp
    qed
    have search: "chain_spec es r (find_chains n es r (prev @ [tid]))"
      if r: "r \<in> set (rdeps_of es tid)" "r \<notin> set (prev @ [tid])" for r
    proof (rule Suc.IH [OF Suc.prems(1) _ less])
      show "good_prev es ((prev @ [tid]) @ [r])"
        using Suc.prems(2) r unfolding good_prev_def by (auto simp: successively_append_iff)
    qed
    have "hoare (\<lambda>s. chains_ok es s \<and> (valid_chains s = [] \<longrightarrow> set [] \<subseteq> set (keys (explored_deps s)) - {tid}))
        (chain_loop (find_chains n es) tid (prev @ [tid]) (rt_revdeps e) (rt_revdeps e))
        (\<lambda>_ s. chains_ok es s \<and> (valid_chains s = [] \<longrightarrow> tid \<in> set (keys (explored_deps s)))) (\<lambda>e _. e \<noteq> OutOfFuel)"
      by (rule chain_loop_ok [where search = "find_chains n es", OF search find_chains_grows Suc.prems(2)])
        (simp_all add: rdeps_of_Some [OF e])
    then show ?thesis by simp
  qed
  then show ?case
    unfolding chain_spec_def find_chains.simps
    by (intro hoare_sres_bind) (auto intro: hoare_fact simp: dget_def split: option.splits)
qed simp

text \<open>
  The handler on tasks none of which can be built: it raises a \<open>KeyError\<close> or returns
  loops, at least one.
\<close>

lemma circular_depchains_result:
  assumes g: "graph_ok es" and ts: "ts \<noteq> []" "\<And>t. t \<in> set ts \<Longrightarrow> \<exists>r \<in> set ts. r \<in> set (rdeps_of es t)"
  shows "circular_depchains_handler es ts \<noteq> Inl OutOfFuel"
    and "circular_depchains_handler es ts = Inr cs \<Longrightarrow> cs \<noteq> [] \<and> (\<forall>c \<in> set cs. is_loop es c)"
proof -
  let ?s0 = "\<lparr>valid_chains = [], explored_deps = []\<rparr>"
  let ?P = "\<lambda>ys s. chains_ok es s \<and> (valid_chains s = [] \<longrightarrow> set ys \<subseteq> set (keys (explored_deps s)))"
  have call: "hoare (?P ys) (find_chains (Suc (length es)) es t []) (\<lambda>_. ?P (ys @ [t])) (\<lambda>e _. e \<noteq> OutOfFuel)" for ys t
  proof -
    have "card (set (keys es)) \<le> length es" using card_length [of "keys es"] by (simp add: keys_def)
    then have "chain_spec es t (find_chains (Suc (length es)) es t [])"
      by (intro find_chains_ok [OF g]) (auto simp: good_prev_def)
    moreover have "hoare (\<lambda>s. valid_chains s = [] \<longrightarrow> set ys \<subseteq> set (keys (explored_deps s))) (find_chains (Suc (length es)) es t [])
        (\<lambda>_ s. valid_chains s = [] \<longrightarrow> set ys \<subseteq> set (keys (explored_deps s))) (\<lambda>_ _. True)"
      by (rule hoare_weaken [OF grow.hoare_keeps [OF find_chains_grows]]) (auto simp: grows_def)
    ultimately show ?thesis
      unfolding chain_spec_def by (rule hoare_weaken [OF hoare_conj]) auto
  qed
  have all: "hoare (?P []) (sfor ts (\<lambda>t. find_chains (Suc (length es)) es t [])) (\<lambda>_. ?P ts) (\<lambda>e _. e \<noteq> OutOfFuel)"
    by (rule hoare_sfor [where P = ?P]) (rule call)
  have init: "?P [] ?s0" by (auto simp: chains_ok_def keys_def acyclic_def)
  obtain r s where rs: "sfor ts (\<lambda>t. find_chains (Suc (length es)) es t []) ?s0 = (r, s)" by (meson surj_pair)
  show "circular_depchains_handler es ts \<noteq> Inl OutOfFuel"
    using hoare_Inl [OF all init] rs unfolding circular_depchains_handler_def by (cases r) auto
  assume "circular_depchains_handler es ts = Inr cs"
  with rs have r: "r = Inr ()" and cs: "cs = valid_chains s"
    unfolding circular_depchains_handler_def by (cases r; simp)+
  have ok: "chains_ok es s" and seen: "valid_chains s = [] \<longrightarrow> set ts \<subseteq> set (keys (explored_deps s))"
    using hoare_Inr [OF all init] rs r by auto
  have "cs \<noteq> []"
  proof
    assume "cs = []"
    with cs seen ok have sub: "set ts \<subseteq> set (keys (explored_deps s))"
      and a: "acyclic {(x, r). x \<in> set (keys (explored_deps s)) \<and> r \<in> set (rdeps_of es x)}"
      unfolding chains_ok_def by auto
    let ?R = "{(x, r). x \<in> set (keys (explored_deps s)) \<and> r \<in> set (rdeps_of es x)}"
    have "finite ?R"
      by (rule finite_subset [of _ "\<Union>x \<in> set (keys (explored_deps s)). {x} \<times> set (rdeps_of es x)"]) auto
    from finite_acyclic_wf_converse [OF this a] have wf: "wf (?R\<inverse>)" .
    obtain t where t: "t \<in> set ts" using ts(1) by (cases ts) auto
    from wfE_min [OF wf t] obtain z where z: "z \<in> set ts" "\<And>y. (y, z) \<in> ?R\<inverse> \<Longrightarrow> y \<notin> set ts" by blast
    from ts(2) [OF z(1)] z sub show False by blast
  qed
  with ok cs show "cs \<noteq> [] \<and> (\<forall>c \<in> set cs. is_loop es c)" by (simp add: chains_ok_def)
qed

lemma rdeps_of_weighted: "rdeps_of (map (\<lambda>(tid, e). (tid, e\<lparr>rt_weight := f tid\<rparr>)) es) t = rdeps_of es t"
  and deps_of_weighted: "deps_of (map (\<lambda>(tid, e). (tid, e\<lparr>rt_weight := f tid\<rparr>)) es) t = deps_of es t"
  and keys_weighted: "keys (map (\<lambda>(tid, e). (tid, e\<lparr>rt_weight := f tid\<rparr>)) es) = keys es"
  by (induction es) (auto simp: rdeps_of_def deps_of_def keys_def)

lemma graph_ok_weighted: "graph_ok es \<Longrightarrow> graph_ok (map (\<lambda>(tid, e). (tid, e\<lparr>rt_weight := f tid\<rparr>)) es)"
  unfolding graph_ok_def rdeps_of_weighted deps_of_weighted keys_weighted .

lemma is_loop_weighted: "is_loop (map (\<lambda>(tid, e). (tid, e\<lparr>rt_weight := f tid\<rparr>)) es) = is_loop es"
  unfolding is_loop_def by (simp only: rdeps_of_weighted)

text \<open>With a cycle the calculation raises, after it has searched for loops.\<close>

lemma calculate_task_weights_cyclic:
  assumes g: "graph_ok es" and c: "\<not> acyclic (dep_rel es)"
  shows "\<exists>e. calculate_task_weights es (endpoints_of es) = Inl e \<and> e \<noteq> OutOfFuel"
proof -
  from weight_loop_inv [OF g weights_init_inv [OF g]] obtain s P where
    r: "weight_loop es (endpoints_of es) (weights_init es (endpoints_of es)) = Inr s"
    and i: "weights_inv es P [] s" by blast
  let ?es = "map (\<lambda>(tid, e). (tid, e\<lparr>rt_weight := dget_or (w_weight s) tid 0\<rparr>)) es"
  note d = weights_done [OF g i]
  have ne: "problem_tasks es s \<noteq> []" using d(2) c by simp
  have "\<exists>r \<in> set (problem_tasks es s). r \<in> set (rdeps_of ?es t)" if "t \<in> set (problem_tasks es s)" for t
  proof -
    have P: "P = {t \<in> set (keys es). set (rdeps_of es t) \<subseteq> P}" using i unfolding weights_inv_def by simp
    from that d(1) P obtain r where "r \<in> set (rdeps_of es t)" "r \<notin> P" by blast
    with graph_okD(6) [OF g, of t] d(1) show ?thesis unfolding rdeps_of_weighted by blast
  qed
  from circular_depchains_result(1) [OF graph_ok_weighted [OF g] ne this]
  have "circular_depchains_handler ?es (problem_tasks es s) \<noteq> Inl OutOfFuel" .
  with ne r show ?thesis
    unfolding calculate_task_weights_def by (cases "circular_depchains_handler ?es (problem_tasks es s)") (auto simp: Let_def)
qed

section \<open>Task ids\<close>

lemma startswith_build: "mc \<noteq> [] \<Longrightarrow> startswith (build_tid mc fn taskname) multiconfig_prefix"
  by (simp add: build_tid_def)

lemma multiconfig_prefix_split: "multiconfig_prefix @ s = ''multiconfig'' @ CHR '':'' # s"
  by (simp add: multiconfig_prefix_def)

lemma split_on_mc:
  "CHR '':'' \<notin> set mc \<Longrightarrow> split_on CHR '':'' (multiconfig_prefix @ mc @ '':'' @ s) = ''multiconfig'' # mc # split_on CHR '':'' s"
  unfolding multiconfig_prefix_split by (simp add: split_on_append)

lemma split_on_last:
  "CHR '':'' \<notin> set b \<Longrightarrow> split_on CHR '':'' (a @ CHR '':'' # b) = split_on CHR '':'' a @ [b]"
  by (induction a) (auto split: list.splits)

lemma split_build_tid:
  assumes "CHR '':'' \<notin> set mc" "CHR '':'' \<notin> set taskname" "mc \<noteq> [] \<or> \<not> startswith (fn @ '':'' @ taskname) multiconfig_prefix"
  shows "split_tid_mcfn (build_tid mc fn taskname) =
    Inr (mc, fn, taskname, if mc = [] then fn else multiconfig_prefix @ mc @ '':'' @ fn)"
proof (cases "mc = []")
  case True
  with assms have "\<not> startswith (fn @ '':'' @ taskname) multiconfig_prefix" by simp
  then show ?thesis
    using True assms(2) by (simp add: split_tid_mcfn_def build_tid_def rsplit1_append item_def)
next
  case False
  have e: "split_on CHR '':'' (build_tid mc fn taskname) = ''multiconfig'' # mc # (split_on CHR '':'' fn @ [taskname])"
    using False assms(1,2) split_on_mc [OF assms(1), of "fn @ '':'' @ taskname"] split_on_last [of taskname fn]
    by (simp add: build_tid_def)
  have j: "join '':'' (split_on CHR '':'' fn) = fn" by (rule join_split_on)
  show ?thesis
    unfolding split_tid_mcfn_def e using False startswith_build [OF False, of fn taskname] j
    by (simp add: Let_def)
qed

section \<open>Schedulers\<close>

definition task_weight :: "run_tasks \<Rightarrow> string \<Rightarrow> int" where
  "task_weight es t = (case map_of es t of None \<Rightarrow> 0 | Some e \<Rightarrow> rt_weight e)"

lemma weight_table:
  "dget_or (fold (\<lambda>(tid, e) d. dappend (rt_weight e) tid d) es d) w [] =
    dget_or d w [] @ map fst (filter (\<lambda>(tid, e). rt_weight e = w) es)"
  "distinct (keys d) \<Longrightarrow> distinct (keys (fold (\<lambda>(tid, e) d. dappend (rt_weight e) tid d) es d))"
  "set (keys (fold (\<lambda>(tid, e) d. dappend (rt_weight e) tid d) es d)) = set (keys d) \<union> (\<lambda>(tid, e). rt_weight e) ` set es"
  by (induction es arbitrary: d) (auto simp: dappend_def)

lemma weight_group:
  "distinct (keys es) \<Longrightarrow> map fst (filter (\<lambda>(tid, e). rt_weight e = w) es) = filter (\<lambda>t. task_weight es t = w) (keys es)"
proof (induction es)
  case (Cons x es)
  have "filter (\<lambda>t. task_weight (x # es) t = w) (keys es) = filter (\<lambda>t. task_weight es t = w) (keys es)"
  proof (rule filter_cong [OF refl])
    fix t assume t: "t \<in> set (keys es)"
    have "fst x \<notin> set (keys es)" using Cons.prems by (simp add: keys_def)
    with t have "t \<noteq> fst x" by blast
    then show "(task_weight (x # es) t = w) = (task_weight es t = w)" by (simp add: task_weight_def)
  qed
  with Cons show ?case by (auto simp: task_weight_def keys_def)
qed (simp add: keys_def)

lemma speed_prio_map_eq:
  assumes "distinct (keys es)"
  shows "\<exists>ks. distinct ks \<and> sorted ks \<and> set ks = task_weight es ` set (keys es) \<and>
    speed_prio_map es = rev (concat (map (\<lambda>w. filter (\<lambda>t. task_weight es t = w) (keys es)) ks))"
proof -
  let ?t = "fold (\<lambda>(tid, e) d. dappend (rt_weight e) tid d) es []"
  have "set (keys ?t) = task_weight es ` set (keys es)"
  proof -
    have "rt_weight e = task_weight es t" if "(t, e) \<in> set es" for t e
      using that assms by (simp add: task_weight_def keys_def)
    then show ?thesis unfolding weight_table(3) by (force simp: keys_def)
  qed
  moreover have "distinct (keys ?t)" by (rule weight_table(2)) (simp add: keys_def)
  moreover have "speed_prio_map es = rev (concat (map (\<lambda>w. filter (\<lambda>t. task_weight es t = w) (keys es)) (sort (keys ?t))))"
    unfolding speed_prio_map_def Let_def weight_table(1) weight_group [OF assms, symmetric] by simp
  ultimately show ?thesis by (intro exI [of _ "sort (keys ?t)"]) simp
qed

lemma speed_prio_map_result:
  assumes d: "distinct (keys es)"
  shows "mset (speed_prio_map es) = mset (keys es)"
    and "sorted_wrt (\<lambda>a b. task_weight es a \<ge> task_weight es b) (speed_prio_map es)"
proof -
  obtain ks where ks: "distinct ks" "sorted ks" "set ks = task_weight es ` set (keys es)"
    and e: "speed_prio_map es = rev (concat (map (\<lambda>w. filter (\<lambda>t. task_weight es t = w) (keys es)) ks))"
    using speed_prio_map_eq [OF d] by blast
  have "mset (speed_prio_map es) = filter_mset (\<lambda>t. task_weight es t \<in> set ks) (mset (keys es))"
    unfolding e mset_rev by (rule mset_concat_classes [OF ks(1)])
  also have "\<dots> = mset (keys es)"
    by (rule filter_mset_cong [of _ _ _ "\<lambda>_. True", THEN trans]) (auto simp: ks)
  finally show "mset (speed_prio_map es) = mset (keys es)" .
  have "sorted_wrt (\<lambda>a b. task_weight es a \<le> task_weight es b)
      (concat (map (\<lambda>w. filter (\<lambda>t. task_weight es t = w) (keys es)) ks))"
    using ks(2)
  proof (induction ks)
    case (Cons k ks)
    have "sorted_wrt (\<lambda>a b. task_weight es a \<le> task_weight es b) (filter (\<lambda>t. task_weight es t = k) xs)" for xs
      by (induction xs) auto
    with Cons show ?case by (auto simp: sorted_wrt_append)
  qed simp
  then show "sorted_wrt (\<lambda>a b. task_weight es a \<ge> task_weight es b) (speed_prio_map es)"
    unfolding e sorted_wrt_rev .
qed

lemma index_of_nth: "x \<in> set xs \<Longrightarrow> index_of x xs < length xs \<and> xs ! index_of x xs = x"
  by (induction xs) (auto simp: index_of_def)

lemma index_of_sorted:
  assumes "sorted_wrt (\<lambda>a b. f a \<ge> (f b :: int)) xs" "a \<in> set xs" "b \<in> set xs" "f a > f b"
  shows "index_of a xs < index_of b xs"
proof (rule ccontr)
  assume "\<not> ?thesis"
  then consider "index_of b xs < index_of a xs" | "index_of a xs = index_of b xs" by linarith
  then show False
  proof cases
    case 1
    from sorted_wrt_nth_less [OF assms(1) this] index_of_nth [OF assms(2)] index_of_nth [OF assms(3)] assms(4)
    show False by simp
  next
    case 2
    have "a = xs ! index_of b xs" using index_of_nth [OF assms(2)] 2 by simp
    also have "\<dots> = b" using index_of_nth [OF assms(3)] by simp
    finally show False using assms(4) by simp
  qed
qed

text \<open>The completion order.\<close>

lemma del_index_Cons: "del_index 0 (x # xs) = xs" "del_index (Suc i) (x # xs) = x # del_index i xs"
  by (simp_all add: del_index_def)

lemma fold_del_Suc: "fold del_index (map Suc is) (x # xs) = x # fold del_index is xs"
  by (induction "is" arbitrary: xs) (auto simp: del_index_Cons)

lemma index_of_Cons: "index_of e (x # xs) = (if e = x then 0 else Suc (index_of e xs))"
  by (simp add: index_of_def)

lemma del_filtered:
  "distinct xs \<Longrightarrow> fold del_index (rev (map (\<lambda>e. index_of e xs) (filter p xs))) xs = filter (\<lambda>e. \<not> p e) xs"
proof (induction xs)
  case (Cons x xs)
  have "map (\<lambda>e. index_of e (x # xs)) (filter p xs) = map Suc (map (\<lambda>e. index_of e xs) (filter p xs))"
    using Cons.prems by (auto simp: index_of_Cons)
  then have m: "rev (map (\<lambda>e. index_of e (x # xs)) (filter p xs)) = map Suc (rev (map (\<lambda>e. index_of e xs) (filter p xs)))"
    by (simp add: rev_map)
  show ?case
    using Cons by (cases "p x") (simp_all add: m fold_del_Suc index_of_Cons [of x x] del_index_Cons del: map_map)
qed simp

lemma completion_order_Cons:
  assumes "distinct (x # xs)"
  shows "completion_order (x # xs) = x # filter (\<lambda>e. fn_from_tid e = fn_from_tid x) xs @
    completion_order (filter (\<lambda>e. fn_from_tid e \<noteq> fn_from_tid x) xs)"
  using assms del_filtered [of xs "\<lambda>e. fn_from_tid e = fn_from_tid x"] by (simp add: Let_def)

declare completion_order.simps(2) [simp del]

text \<open>Groups of tasks, one for each file.\<close>

definition by_file :: "string list list \<Rightarrow> bool" where
  "by_file gs \<longleftrightarrow> distinct (map (\<lambda>g. fn_from_tid (hd g)) gs) \<and>
     (\<forall>g \<in> set gs. g \<noteq> [] \<and> (\<forall>e \<in> set g. fn_from_tid e = fn_from_tid (hd g)))"

lemma by_file_Cons:
  assumes "by_file gs" "\<And>e. e \<in> set (concat gs) \<Longrightarrow> fn_from_tid e \<noteq> fn_from_tid x"
    "\<And>e. e \<in> set ys \<Longrightarrow> fn_from_tid e = fn_from_tid x"
  shows "by_file ((x # ys) # gs)"
proof -
  have "fn_from_tid (hd g) \<noteq> fn_from_tid x" if "g \<in> set gs" for g
  proof (rule assms(2))
    have "hd g \<in> set g" using assms(1) that by (simp add: by_file_def)
    with that show "hd g \<in> set (concat gs)" by auto
  qed
  then have "fn_from_tid x \<notin> (\<lambda>g. fn_from_tid (hd g)) ` set gs" unfolding image_iff by metis
  moreover have "distinct (map (\<lambda>g. fn_from_tid (hd g)) gs)" using assms(1) unfolding by_file_def by blast
  ultimately have 1: "distinct (map (\<lambda>g. fn_from_tid (hd g)) ((x # ys) # gs))" by simp
  have 2: "g \<noteq> [] \<and> (\<forall>e \<in> set g. fn_from_tid e = fn_from_tid (hd g))" if "g \<in> set ((x # ys) # gs)" for g
  proof (cases "g = x # ys")
    case True
    have "fn_from_tid e = fn_from_tid x" if "e \<in> set (x # ys)" for e
    proof (cases "e = x")
      case False
      with that have "e \<in> set ys" by simp
      then show ?thesis by (rule assms(3))
    qed simp
    then show ?thesis unfolding True list.sel by blast
  next
    case False
    with that have "g \<in> set gs" by simp
    with assms(1) show ?thesis unfolding by_file_def by blast
  qed
  show ?thesis unfolding by_file_def by (intro conjI [OF 1] ballI 2)
qed

definition grouped :: "string list \<Rightarrow> string list \<Rightarrow> bool" where
  "grouped xs ys \<longleftrightarrow> mset ys = mset xs \<and> (\<exists>gs. ys = concat gs \<and> by_file gs)"

lemma grouped_step:
  assumes "grouped (filter (\<lambda>e. fn_from_tid e \<noteq> fn_from_tid x) ys) zs"
  shows "grouped (x # ys) (x # filter (\<lambda>e. fn_from_tid e = fn_from_tid x) ys @ zs)"
proof -
  obtain gs where m: "mset zs = mset (filter (\<lambda>e. fn_from_tid e \<noteq> fn_from_tid x) ys)"
    and gs: "zs = concat gs" "by_file gs" using assms unfolding grouped_def by (elim conjE exE)
  have "by_file ((x # filter (\<lambda>e. fn_from_tid e = fn_from_tid x) ys) # gs)"
  proof (rule by_file_Cons [OF gs(2)])
    fix e assume "e \<in> set (concat gs)"
    then have "e \<in># mset zs" using gs(1) by simp
    then show "fn_from_tid e \<noteq> fn_from_tid x" unfolding m by simp
  qed simp
  moreover have "mset (x # filter (\<lambda>e. fn_from_tid e = fn_from_tid x) ys @ zs) = mset (x # ys)"
    using m by simp
  moreover have "x # filter (\<lambda>e. fn_from_tid e = fn_from_tid x) ys @ zs =
      concat ((x # filter (\<lambda>e. fn_from_tid e = fn_from_tid x) ys) # gs)" using gs(1) by simp
  ultimately show ?thesis unfolding grouped_def by (intro conjI exI)
qed

lemma completion_order_result: "distinct xs \<Longrightarrow> grouped xs (completion_order xs)"
proof (induction "length xs" arbitrary: xs rule: less_induct)
  case less
  show ?case
  proof (cases xs)
    case Nil
    have "by_file []" by (simp add: by_file_def)
    with Nil show ?thesis unfolding grouped_def by (intro conjI exI [of _ "[]"]) simp_all
  next
    case (Cons x ys)
    let ?rest = "filter (\<lambda>e. fn_from_tid e \<noteq> fn_from_tid x) ys"
    have "grouped ?rest (completion_order ?rest)"
      using less.prems Cons by (intro less.hyps) (simp_all add: le_imp_less_Suc)
    from grouped_step [OF this] completion_order_Cons less.prems Cons show ?thesis by simp
  qed
qed

text \<open>The choice of the next task.\<close>

definition candidates :: "scheduler \<Rightarrow> string list \<Rightarrow> string option list \<Rightarrow> string set" where
  "candidates sc runq_running used = {t \<in> set (sc_buildable sc). t \<notin> set runq_running \<and>
     (\<exists>st. map_of (sc_stamps sc) t = Some st \<and> st \<notin> set used)}"

definition sched_ok :: "run_tasks \<Rightarrow> string list \<Rightarrow> scheduler \<Rightarrow> bool" where
  "sched_ok es pm sc \<longleftrightarrow> sc_prio_map sc = Some pm \<and> set pm = set (keys es) \<and> set (sc_buildable sc) \<subseteq> set (keys es) \<and>
     set (keys (sc_stamps sc)) = set (keys es)"

lemma rmap_pairs:
  "rmap (\<lambda>k. rbind (f k) (\<lambda>v. Inr (k, v))) ks = Inr d \<Longrightarrow>
    keys d = ks \<and> (\<forall>k \<in> set ks. map_of d k \<noteq> None \<and> f k = Inr (the (map_of d k)))"
proof (induction ks arbitrary: d)
  case (Cons k ks)
  then obtain v d' where v: "f k = Inr v" "rmap (\<lambda>k. rbind (f k) (\<lambda>v. Inr (k, v))) ks = Inr d'" "d = (k, v) # d'"
    by (auto simp: rbind_eq_Inr)
  from Cons.IH [OF v(2)] v(1,3) show ?case by (auto simp: keys_def)
qed (simp add: keys_def)

lemma rmap_total: "(\<And>x. x \<in> set xs \<Longrightarrow> \<exists>y. f x = Inr y) \<Longrightarrow> \<exists>ys. rmap f xs = Inr ys"
  by (induction xs) (auto, metis rbind_Inr)

lemma rev_prio_map_result:
  assumes "sched_ok es pm sc"
  shows "\<exists>rp. rev_prio_map es sc = Inr rp \<and> (\<forall>t \<in> set (keys es). map_of rp t = Some (index_of t pm))"
proof -
  have i: "prio_index (sc_prio_map sc) t = Inr (index_of t pm)" if "t \<in> set (keys es)" for t
    using assms that by (simp add: sched_ok_def prio_index_def)
  then obtain rp where rp: "rev_prio_map es sc = Inr rp"
    using rmap_total [of "keys es" "\<lambda>tid. rbind (prio_index (sc_prio_map sc) tid) (\<lambda>i. Inr (tid, i))"]
    by (auto simp: rev_prio_map_def)
  from rmap_pairs [OF this [unfolded rev_prio_map_def]] i rp show ?thesis by auto
qed

definition best_inv :: "(string \<Rightarrow> nat) \<Rightarrow> (string \<Rightarrow> bool) \<Rightarrow> string list \<Rightarrow> (string \<times> nat) option \<Rightarrow> bool" where
  "best_inv f free ys best \<longleftrightarrow> (case best of
     None \<Rightarrow> \<forall>t \<in> set ys. \<not> free t
   | Some (t, i) \<Rightarrow> t \<in> set ys \<and> free t \<and> i = f t \<and> (\<forall>u \<in> set ys. free u \<longrightarrow> i \<le> f u))"

lemma best_steps:
  assumes p: "\<And>t. t \<in> set xs \<Longrightarrow> map_of rp t = Some (f t) \<and> (\<exists>st. map_of (sc_stamps sc) t = Some st \<and> (st \<notin> set used \<longleftrightarrow> free t))"
  shows "\<exists>best. rfold (best_step sc used rp) xs None = Inr best \<and> best_inv f free xs best"
proof -
  have step: "\<exists>b. best_step sc used rp t a = Inr b \<and> best_inv f free (ys @ [t]) b"
    if "t \<in> set xs" "best_inv f free ys a" for t a ys
  proof -
    from p [OF that(1)] obtain st where m: "map_of rp t = Some (f t)" "map_of (sc_stamps sc) t = Some st"
      "st \<notin> set used \<longleftrightarrow> free t" by blast
    then show ?thesis using that(2)
      by (cases a) (auto simp: best_step_def dget_def best_inv_def split: prod.splits)
  qed
  have "set zs \<subseteq> set xs \<Longrightarrow> best_inv f free ys a \<Longrightarrow>
      \<exists>b. rfold (best_step sc used rp) zs a = Inr b \<and> best_inv f free (ys @ zs) b" for zs ys a
  proof (induction zs arbitrary: ys a)
    case (Cons z zs)
    from step [of z ys a] Cons.prems obtain b where b: "best_step sc used rp z a = Inr b" "best_inv f free (ys @ [z]) b" by auto
    from Cons.IH [OF _ b(2)] Cons.prems b(1) show ?case by auto
  qed simp
  from this [of xs "[]" None] show ?thesis by (simp add: best_inv_def)
qed

lemma next_buildable_task_result:
  assumes ok: "sched_ok es pm sc"
  shows "\<exists>r sc'. next_buildable_task es runq_running used sc = Inr (r, sc') \<and>
    sc' = sc\<lparr>sc_buildable := filter (\<lambda>x. x \<notin> set runq_running) (sc_buildable sc)\<rparr> \<and>
    (case r of None \<Rightarrow> candidates sc runq_running used = {}
     | Some t \<Rightarrow> t \<in> candidates sc runq_running used \<and>
        (\<forall>u \<in> candidates sc runq_running used. index_of t pm \<le> index_of u pm))"
proof -
  let ?b = "filter (\<lambda>x. x \<notin> set runq_running) (sc_buildable sc)"
  let ?sc = "sc\<lparr>sc_buildable := ?b\<rparr>" and ?C = "candidates sc runq_running used"
  define free where "free = (\<lambda>t. \<exists>st. map_of (sc_stamps sc) t = Some st \<and> st \<notin> set used)"
  have ok': "sched_ok es pm ?sc" using ok by (auto simp: sched_ok_def)
  have st: "\<exists>st. map_of (sc_stamps sc) t = Some st \<and> (st \<notin> set used \<longleftrightarrow> free t)" if "t \<in> set ?b" for t
  proof -
    have "t \<in> set (keys (sc_stamps sc))" using ok that by (auto simp: sched_ok_def)
    then show ?thesis by (auto simp: set_keys free_def)
  qed
  have C: "t \<in> ?C \<longleftrightarrow> t \<in> set ?b \<and> free t" for t by (auto simp: candidates_def free_def)
  obtain rp where rp: "rev_prio_map es ?sc = Inr rp" "\<forall>t \<in> set (keys es). map_of rp t = Some (index_of t pm)"
    using rev_prio_map_result [OF ok'] by blast
  have "map_of rp t = Some (index_of t pm) \<and> (\<exists>st. map_of (sc_stamps ?sc) t = Some st \<and> (st \<notin> set used \<longleftrightarrow> free t))"
    if "t \<in> set ?b" for t
    using rp(2) ok' st [OF that] that by (auto simp: sched_ok_def)
  from best_steps [where f = "\<lambda>t. index_of t pm", OF this] obtain best where
    best: "rfold (best_step ?sc used rp) ?b None = Inr best" "best_inv (\<lambda>t. index_of t pm) free ?b best" by blast
  let ?select = "rbind (rev_prio_map es ?sc) (\<lambda>rev_prio. rbind (rfold (best_step ?sc used rev_prio) (sc_buildable ?sc) None)
    (\<lambda>best. Inr (map_option fst best, ?sc)))"
  have select: "?select = Inr (map_option fst best, ?sc)" using rp(1) best(1) by simp
  have good: "case map_option fst best of None \<Rightarrow> ?C = {}
     | Some t \<Rightarrow> t \<in> ?C \<and> (\<forall>u \<in> ?C. index_of t pm \<le> index_of u pm)"
    using best(2) C by (cases best) (auto simp: best_inv_def)
  show ?thesis
  proof (cases "\<exists>t. ?b = [t] \<and> free t")
    case True
    then obtain t where t: "?b = [t]" "free t" by blast
    then obtain s where "map_of (sc_stamps sc) t = Some s" "s \<notin> set used" by (auto simp: free_def)
    then have "next_buildable_task es runq_running used sc = Inr (Some t, ?sc)"
      using t(1) by (simp add: next_buildable_task_def Let_def dget_def)
    with C t show ?thesis by auto
  next
    case False
    have "next_buildable_task es runq_running used sc = (if ?b = [] then Inr (None, ?sc) else ?select)"
    proof (cases ?b)
      case (Cons t ts)
      show ?thesis
      proof (cases ts)
        case Nil
        with Cons False st [of t] obtain s where "map_of (sc_stamps sc) t = Some s" "s \<in> set used" by auto
        with Cons Nil show ?thesis by (simp add: next_buildable_task_def Let_def dget_def)
      qed (simp add: next_buildable_task_def Let_def Cons)
    qed (simp add: next_buildable_task_def Let_def)
    with select good C show ?thesis by (cases "?b = []") auto
  qed
qed

section \<open>Properties\<close>

lemma calculate_task_weights_decrease:
  assumes g: "graph_ok es" and r: "calculate_task_weights es (endpoints_of es) = Inr (w, es')"
    and d: "d \<in> set (deps_of es t)"
  shows "dget_or w t 0 < dget_or w d 0"
proof -
  have "acyclic (dep_rel es)" using calculate_task_weights_result(1) [OF g] r by blast
  with weights_decrease [OF g _ _ d] calculate_task_weights_result(2) [OF g r] show ?thesis by blast
qed

lemma task_weight_weighted:
  "t \<in> set (keys es) \<Longrightarrow> task_weight (map (\<lambda>(tid, e). (tid, e\<lparr>rt_weight := f tid\<rparr>)) es) t = f t"
  by (induction es) (auto simp: task_weight_def keys_def)

text \<open>Three tasks, the last one depends on both others; and the same with a cycle.\<close>

definition es_example :: run_tasks where
  "es_example = [
     (''a:x'', \<lparr>rt_depends = [], rt_revdeps = [''b:x'', ''c:y''], rt_hash = None, rt_weight = 1\<rparr>),
     (''b:x'', \<lparr>rt_depends = [''a:x''], rt_revdeps = [''c:y''], rt_hash = None, rt_weight = 1\<rparr>),
     (''c:y'', \<lparr>rt_depends = [''a:x'', ''b:x''], rt_revdeps = [], rt_hash = None, rt_weight = 1\<rparr>)]"

definition es_cycle :: run_tasks where
  "es_cycle = [
     (''a:x'', \<lparr>rt_depends = [''c:y''], rt_revdeps = [''b:x''], rt_hash = None, rt_weight = 1\<rparr>),
     (''b:x'', \<lparr>rt_depends = [''a:x''], rt_revdeps = [''c:y''], rt_hash = None, rt_weight = 1\<rparr>),
     (''c:y'', \<lparr>rt_depends = [''b:x''], rt_revdeps = [''a:x''], rt_hash = None, rt_weight = 1\<rparr>)]"

lemma es_example_ok: "graph_ok es_example"
  by (auto simp: graph_ok_def es_example_def deps_of_def rdeps_of_def keys_def split: if_splits)

lemma es_cycle_ok: "graph_ok es_cycle"
  by (auto simp: graph_ok_def es_cycle_def deps_of_def rdeps_of_def keys_def split: if_splits)

text \<open>
  C9. On a consistent graph the weights are calculated exactly if no task depends on itself.
  The weight of a task is then 10 if nothing depends on it, and otherwise one more than the sum
  of the weights of the tasks that depend on it, so it is greater than each of those.
\<close>

theorem task_weights_correct:
  assumes "graph_ok es"
  shows "if acyclic (dep_rel es)
    then \<exists>w es'. calculate_task_weights es (endpoints_of es) = Inr (w, es') \<and>
      weights_solve es (\<lambda>t. dget_or w t 0) \<and>
      (\<forall>t d. d \<in> set (deps_of es t) \<longrightarrow> dget_or w t 0 < dget_or w d 0)
    else \<exists>e. calculate_task_weights es (endpoints_of es) = Inl e \<and> e \<noteq> OutOfFuel"
proof (cases "acyclic (dep_rel es)")
  case True
  then obtain w es' where r: "calculate_task_weights es (endpoints_of es) = Inr (w, es')"
    using calculate_task_weights_result(1) [OF assms] by (metis surj_pair)
  with calculate_task_weights_result(2) [OF assms r] calculate_task_weights_decrease [OF assms r] True
  show ?thesis by auto
next
  case False
  with calculate_task_weights_cyclic [OF assms] show ?thesis by simp
qed

lemma task_weights_correct_witness:
  "\<exists>w es'. calculate_task_weights es_example (endpoints_of es_example) = Inr (w, es') \<and>
    dget_or w ''a:x'' 0 = 22 \<and> weights_solve es_example (\<lambda>t. dget_or w t 0)"
proof -
  have r: "case calculate_task_weights es_example (endpoints_of es_example) of Inl e \<Rightarrow> False
    | Inr (w, es') \<Rightarrow> dget_or w ''a:x'' 0 = 22" by code_simp
  show ?thesis
    using task_weights_correct [OF es_example_ok] r by (auto split: if_splits)
qed

text \<open>
  When every one of the given tasks waits for another of them, the search for circular
  dependencies ends, and if it returns it has found at least one loop; every chain it returns is
  a loop of tasks each of which is depended on by the next.
\<close>

theorem circular_depchains_correct:
  assumes "graph_ok es" "ts \<noteq> []" "\<forall>t \<in> set ts. \<exists>r \<in> set ts. r \<in> set (rdeps_of es t)"
  shows "case circular_depchains_handler es ts of
      Inl e \<Rightarrow> e \<noteq> OutOfFuel
    | Inr cs \<Rightarrow> cs \<noteq> [] \<and> (\<forall>c \<in> set cs. is_loop es c)"
  using circular_depchains_result [OF assms(1,2)] assms(3) by (auto split: sum.split)

lemma circular_depchains_correct_witness:
  "is_loop es_cycle [''a:x'', ''b:x'', ''c:y'']"
proof -
  have p: "\<forall>t \<in> set [''c:y'']. \<exists>r \<in> set [''c:y'', ''a:x'', ''b:x'']. r \<in> set (rdeps_of es_cycle t)"
    "\<forall>t \<in> set [''c:y'', ''a:x'', ''b:x'']. \<exists>r \<in> set [''c:y'', ''a:x'', ''b:x'']. r \<in> set (rdeps_of es_cycle t)"
    by code_simp+
  have r: "circular_depchains_handler es_cycle [''c:y'', ''a:x'', ''b:x''] = Inr [[''a:x'', ''b:x'', ''c:y'']]"
    by code_simp
  from circular_depchains_correct [OF es_cycle_ok _ p(2)] r show ?thesis by simp
qed

text \<open>
  The order of the scheduler for speed: every task once, heavier tasks first, and every
  task after all the tasks it depends on.
\<close>

theorem speed_order_correct:
  assumes "graph_ok es" "calculate_task_weights es (endpoints_of es) = Inr (w, es')"
  shows "mset (speed_prio_map es') = mset (keys es) \<and>
    sorted_wrt (\<lambda>a b. dget_or w a 0 \<ge> dget_or w b 0) (speed_prio_map es') \<and>
    (\<forall>t d. d \<in> set (deps_of es t) \<longrightarrow> index_of d (speed_prio_map es') < index_of t (speed_prio_map es'))"
proof -
  have es': "es' = map (\<lambda>(tid, e). (tid, e\<lparr>rt_weight := dget_or w tid 0\<rparr>)) es"
    using calculate_task_weights_result(2) [OF assms] by blast
  have k: "keys es' = keys es" unfolding es' by (rule keys_weighted)
  have tw: "task_weight es' t = dget_or w t 0" if "t \<in> set (keys es)" for t
    unfolding es' using that by (rule task_weight_weighted)
  note sp = speed_prio_map_result [of es', unfolded k, OF graph_okD(1) [OF assms(1)]]
  have set_eq: "set (speed_prio_map es') = set (keys es)" using sp(1) by (rule mset_eq_setD)
  have s: "sorted_wrt (\<lambda>a b. dget_or w a 0 \<ge> dget_or w b 0) (speed_prio_map es')"
    by (rule sorted_wrt_mono_rel [OF _ sp(2)]) (simp add: set_eq tw)
  have "index_of d (speed_prio_map es') < index_of t (speed_prio_map es')" if "d \<in> set (deps_of es t)" for t d
    by (rule index_of_sorted [OF s]) (use that set_eq graph_okD(4) [OF assms(1), of t] deps_of_key
      calculate_task_weights_decrease [OF assms that] in auto)
  with sp(1) s show ?thesis by blast
qed

lemma speed_order_correct_witness:
  "\<exists>w es'. calculate_task_weights es_example (endpoints_of es_example) = Inr (w, es') \<and>
    speed_prio_map es' = [''a:x'', ''b:x'', ''c:y''] \<and>
    index_of ''b:x'' (speed_prio_map es') < index_of ''c:y'' (speed_prio_map es')"
proof -
  have r: "case calculate_task_weights es_example (endpoints_of es_example) of Inl e \<Rightarrow> False
    | Inr (w, es') \<Rightarrow> speed_prio_map es' = [''a:x'', ''b:x'', ''c:y'']" by code_simp
  have d: "''b:x'' \<in> set (deps_of es_example ''c:y'')" by code_simp
  show ?thesis
    using speed_order_correct [OF es_example_ok] r d by (auto split: sum.splits)
qed

text \<open>
  The scheduler that completes files keeps every task once and puts the tasks of a file
  one after another.
\<close>

theorem completion_order_correct:
  assumes "distinct xs"
  shows "mset (completion_order xs) = mset xs \<and> (\<exists>gs. completion_order xs = concat gs \<and> by_file gs)"
  using completion_order_result [OF assms] unfolding grouped_def .

lemma completion_order_correct_witness:
  "mset [''a:x'', ''a:y'', ''b:x''] = mset [''a:x'', ''b:x'', ''a:y'']"
proof -
  have "completion_order [''a:x'', ''b:x'', ''a:y''] = [''a:x'', ''a:y'', ''b:x'']" by code_simp
  with completion_order_correct [of "[''a:x'', ''b:x'', ''a:y'']"] show ?thesis by simp
qed

text \<open>
  With a priority map of the tasks a scheduler returns a task that is buildable, not
  running and whose stamp no running task uses, and the first such task of the map; it returns
  none only if there is none.
\<close>

theorem next_buildable_task_correct:
  assumes "sched_ok es pm sc"
  shows "\<exists>r sc'. next_buildable_task es runq_running used sc = Inr (r, sc') \<and>
    (case r of None \<Rightarrow> candidates sc runq_running used = {}
     | Some t \<Rightarrow> t \<in> candidates sc runq_running used \<and>
        (\<forall>u \<in> candidates sc runq_running used. index_of t pm \<le> index_of u pm))"
  using next_buildable_task_result [OF assms, of runq_running used] by blast

lemma next_buildable_task_correct_witness:
  "''b:x'' \<in> candidates \<lparr>sc_prio_map = Some [''a:x'', ''b:x'', ''c:y''], sc_buildable = [''c:y'', ''b:x'', ''a:x''],
      sc_stamps = [(''a:x'', Some ''s''), (''b:x'', Some ''t''), (''c:y'', Some ''u'')]\<rparr> [''a:x''] [Some ''s'']"
proof -
  let ?sc = "\<lparr>sc_prio_map = Some [''a:x'', ''b:x'', ''c:y''], sc_buildable = [''c:y'', ''b:x'', ''a:x''],
      sc_stamps = [(''a:x'', Some ''s''), (''b:x'', Some ''t''), (''c:y'', Some ''u'')]\<rparr>"
  have ok: "sched_ok es_example [''a:x'', ''b:x'', ''c:y''] ?sc"
    by (auto simp: sched_ok_def es_example_def keys_def)
  have r: "case next_buildable_task es_example [''a:x''] [Some ''s''] ?sc of Inl e \<Rightarrow> False | Inr (r, sc') \<Rightarrow> r = Some ''b:x''"
    by code_simp
  from next_buildable_task_correct [OF ok, of "[''a:x'']" "[Some ''s'']"] r show ?thesis by (auto split: option.splits)
qed

text \<open>
  The basic scheduler fails as soon as it has to choose: with two buildable tasks, its
  priority map, a list that holds the view of the keys, contains no task, and looking one up
  raises a \<open>ValueError\<close>.
\<close>

theorem basic_scheduler_fails:
  assumes "scheduler_init Basic es stamp_of buildable = Inr sc" "es \<noteq> []"
    "length (filter (\<lambda>t. t \<notin> set runq_running) (sc_buildable sc)) \<ge> 2"
  shows "next_buildable_task es runq_running used sc = Inl ValueError"
proof -
  obtain t u ts where b: "filter (\<lambda>t. t \<notin> set runq_running) (sc_buildable sc) = t # u # ts"
    using assms(3) by (cases "filter (\<lambda>t. t \<notin> set runq_running) (sc_buildable sc)" rule: remdups_adj.cases) auto
  have m: "sc_prio_map sc = None" using assms(1) by (auto simp: scheduler_init_def rbind_eq_Inr prio_map_of_def)
  obtain k ks where "keys es = k # ks" using assms(2) by (cases es) (auto simp: keys_def)
  then have "rev_prio_map es (sc\<lparr>sc_buildable := t # u # ts\<rparr>) = Inl ValueError"
    using m by (simp add: rev_prio_map_def prio_index_def)
  then show ?thesis unfolding next_buildable_task_def Let_def b by simp
qed

lemma basic_scheduler_fails_witness:
  "\<exists>sc. scheduler_init Basic es_example (\<lambda>_. Inr None) [''a:x'', ''b:x''] = Inr sc \<and>
    next_buildable_task es_example [] [] sc = Inl ValueError"
proof -
  have "case scheduler_init Basic es_example (\<lambda>_. Inr None) [''a:x'', ''b:x''] of Inl e \<Rightarrow> False
    | Inr sc \<Rightarrow> 2 \<le> length (filter (\<lambda>t. t \<notin> set []) (sc_buildable sc))" by code_simp
  then obtain sc where sc: "scheduler_init Basic es_example (\<lambda>_. Inr None) [''a:x'', ''b:x''] = Inr sc"
    "2 \<le> length (filter (\<lambda>t. t \<notin> set []) (sc_buildable sc))" by (auto split: sum.splits)
  have "es_example \<noteq> []" by (simp add: es_example_def)
  from basic_scheduler_fails [OF sc(1) this sc(2)] sc(1) show ?thesis by blast
qed

text \<open>
  A task id is taken apart into the configuration, the file and the task it was made of,
  if the file name of the default configuration does not look like that of another one.
\<close>

theorem tid_roundtrip:
  assumes "CHR '':'' \<notin> set mc" "CHR '':'' \<notin> set taskname"
    "mc \<noteq> [] \<or> \<not> startswith (fn @ '':'' @ taskname) multiconfig_prefix"
  shows "split_tid (build_tid mc fn taskname) = Inr (mc, fn, taskname)"
  by (simp add: split_tid_def split_build_tid [OF assms])

lemma tid_roundtrip_witness:
  "split_tid (build_tid ''m'' ''virtual:native:/a.bb'' ''do_build'') = Inr (''m'', ''virtual:native:/a.bb'', ''do_build'')"
  by (rule tid_roundtrip) simp_all

end
