(* ===== verification/Run_Queue_Prepare_Facts.thy ===== *)
theory Run_Queue_Prepare_Facts
  imports Run_Queue_Prepare Run_Queue_Data_Facts
begin

text \<open>
  What \<open>prepare\<close> establishes: the tasks to run are those the targets need, their
  dependencies form a graph without cycles whose reverse dependencies are consistent, and
  every task has its hash, calculated after those of its dependencies.
\<close>

section \<open>Tables of tasks\<close>

lemma map_of_map_kv: "map_of (map (\<lambda>(k, v). (k, f k v)) d) k = map_option (f k) (map_of d k)"
  by (induction d) auto

lemma keys_map_kv: "keys (map (\<lambda>(k, v). (k, f k v)) d) = keys d"
  by (induction d) (auto simp: keys_def)

lemma deps_of_dset: "deps_of (dset t e es) u = (if u = t then rt_depends e else deps_of es u)"
  by (simp add: deps_of_def)

lemma rdeps_of_dset: "rdeps_of (dset t e es) u = (if u = t then rt_revdeps e else rdeps_of es u)"
  by (simp add: rdeps_of_def)

text \<open>Entries before the reverse dependencies are filled in.\<close>

definition entries_ok :: "run_tasks \<Rightarrow> bool" where
  "entries_ok es \<longleftrightarrow> distinct (keys es) \<and> (\<forall>t. distinct (deps_of es t) \<and> rdeps_of es t = [])"

lemma entries_ok_dset:
  "entries_ok es \<Longrightarrow> distinct (rt_depends e) \<Longrightarrow> rt_revdeps e = [] \<Longrightarrow> entries_ok (dset t e es)"
  by (simp add: entries_ok_def deps_of_dset rdeps_of_dset)

section \<open>Step A\<close>

lemma fold_distinct:
  assumes "\<And>x xs. distinct xs \<Longrightarrow> distinct (f x xs)"
  shows "distinct a \<Longrightarrow> distinct (fold f ys a)"
  by (induction ys arbitrary: a) (auto simp: assms)

lemma add_dependencies_distinct: "distinct ds \<Longrightarrow> distinct (add_dependencies targets td deps ts ds)"
  unfolding add_dependencies_def
  by (rule fold_distinct) (auto intro!: fold_distinct simp: Let_def split: list.splits)

lemma task_depends_distinct:
  assumes "task_depends td deps mc taskname taskfn e = Inr ds"
  shows "distinct ds"
proof -
  have fl: "distinct b" if "flag_depends deps flag taskname add a = Inr b" "distinct a"
    "\<And>ts c. add ts a = Inr c \<Longrightarrow> distinct c" for flag add a b
    using that by (auto simp: flag_depends_def split: option.splits)
  from assms obtain d1 d2 d3 d4 d5 where
    1: "internal_depends mc (tdepends e) = Inr d1"
    and 2: "flag_depends deps ''deptask'' taskname (\<lambda>ts ds. rbind (dget (depids td) taskfn) (\<lambda>ids.
       Inr (add_build_dependencies td ids ts ds))) d1 = Inr d2"
    and 3: "flag_depends deps ''rdeptask'' taskname (\<lambda>ts ds. rbind (dget (rdepids td) taskfn) (\<lambda>ids.
       Inr (add_runtime_dependencies td ids ts ds))) d2 = Inr d3"
    and 4: "rfold (idepend_step td) (idepends e) d3 = Inr d4"
    and 5: "rfold (irdepend_step td) (irdepends e) d4 = Inr d5"
    and 6: "flag_depends deps ''recrdeptask'' taskname (\<lambda>ts ds. rbind (dget (depids td) taskfn) (\<lambda>ids.
       rbind (dget (rdepids td) taskfn) (\<lambda>rids.
         Inr (add_runtime_dependencies td rids ts (add_build_dependencies td ids ts ds))))) d5 = Inr ds"
    unfolding task_depends_def rbind_eq_Inr by (elim exE conjE) (rule that)
  have "distinct d1"
    by (rule rfold_inv [where P = distinct, OF 1 [unfolded internal_depends_def]])
      (auto simp: rbind_eq_Inr)
  then have "distinct d2"
    by (rule fl [OF 2]) (auto simp: rbind_eq_Inr add_build_dependencies_def intro: add_dependencies_distinct \<open>distinct d1\<close>)
  then have "distinct d3"
    by (rule fl [OF 3]) (auto simp: rbind_eq_Inr add_runtime_dependencies_def intro: add_dependencies_distinct \<open>distinct d2\<close>)
  then have "distinct d4"
    by (rule rfold_inv [where P = distinct, OF 4]) (auto simp: idepend_step_def Let_def split: if_splits prod.splits)
  then have "distinct d5"
    by (rule rfold_inv [where P = distinct, OF 5])
      (auto simp: irdepend_step_def Let_def rbind_eq_Inr split: if_splits prod.splits)
  then show "distinct ds"
    by (rule fl [OF 6]) (auto simp: rbind_eq_Inr add_runtime_dependencies_def add_build_dependencies_def
      intro!: add_dependencies_distinct \<open>distinct d5\<close>)
qed

lemma note_recursive_entries: "sa_entries (note_recursive deps tid mc fn taskname a) = sa_entries a"
  by (simp add: note_recursive_def Let_def split: option.splits)

lemma step_a_task_ok:
  assumes "step_a_task env tid a = Inr b" "entries_ok (sa_entries a)"
  shows "entries_ok (sa_entries b)"
proof -
  from assms(1) obtain e where "sa_entries b = dset tid e (sa_entries a)" "distinct (rt_depends e)" "rt_revdeps e = []"
    unfolding step_a_task_def rbind_eq_Inr
    by (auto simp: note_recursive_entries new_task_def rbind_eq_Inr dest: task_depends_distinct split: if_splits)
  with assms(2) show ?thesis by (simp add: entries_ok_dset)
qed

lemma prepare_a_ok:
  assumes "prepare_a env = Inr a"
  shows "entries_ok (sa_entries a)"
proof (rule rfold_inv [where P = "\<lambda>a. entries_ok (sa_entries a)", OF assms [unfolded prepare_a_def]])
  fix x :: "string \<times> taskdata" and a b
  assume a: "entries_ok (sa_entries a)" and b: "(case x of (mc, td) \<Rightarrow> rfold (step_a_task env) (keys (taskentries td))) a = Inr b"
  from b have "rfold (step_a_task env) (keys (taskentries (snd x))) a = Inr b" by (simp split: prod.splits)
  from rfold_inv [where P = "\<lambda>a. entries_ok (sa_entries a)", OF this a] step_a_task_ok
  show "entries_ok (sa_entries b)" by blast
qed (simp add: entries_ok_def keys_def deps_of_def rdeps_of_def)

section \<open>Recursive dependencies\<close>

text \<open>The tasks with the given names of the file of a task.\<close>

definition named_tasks :: "run_tasks \<Rightarrow> string list \<Rightarrow> string \<Rightarrow> string set" where
  "named_tasks es tasknames t = (case split_tid_mcfn t of Inl e \<Rightarrow> {}
     | Inr (mc, fn, _, _) \<Rightarrow> build_tid mc fn ` set tasknames \<inter> set (keys es))"

text \<open>Where the walk goes on: to what these tasks and the task itself depend on.\<close>

definition rec_succs :: "run_tasks \<Rightarrow> string list \<Rightarrow> string \<Rightarrow> string set" where
  "rec_succs es tasknames t = (\<Union>u \<in> insert t (named_tasks es tasknames t). set (deps_of es u))"

lemma add_resolved_set:
  "set (add_resolved_dependencies es mc fn tasknames ds) = set ds \<union> (build_tid mc fn ` set tasknames \<inter> set (keys es))"
  unfolding add_resolved_dependencies_def by (induction tasknames arbitrary: ds) (auto simp: Let_def)

lemma rmap_dget_deps: "rmap (dget es) ts = Inr entries \<Longrightarrow> set (concat (map rt_depends entries)) = (\<Union>t \<in> set ts. set (deps_of es t))"
proof (induction ts arbitrary: entries)
  case (Cons t ts)
  then obtain e es' where e: "map_of es t = Some e" and r: "rmap (dget es) ts = Inr es'" "entries = e # es'"
    by (auto simp: rbind_eq_Inr)
  from Cons.IH [OF r(1)] r(2) show ?case by (simp add: deps_of_Some [OF e])
qed simp

lemma recdeps_visit_result:
  assumes "recdeps_visit es tasknames t extra = Inr (ns, extra')"
  shows "set ns = rec_succs es tasknames t" "set extra' = set extra \<union> named_tasks es tasknames t"
    "distinct extra \<Longrightarrow> distinct extra'"
proof -
  from assms obtain mc fn a b entries where s: "split_tid_mcfn t = Inr (mc, fn, a, b)"
    and r: "rmap (dget es) (sadd t (add_resolved_dependencies es mc fn tasknames [])) = Inr entries"
    and n: "ns = concat (map rt_depends entries)"
    and x: "extra' = sunion extra (add_resolved_dependencies es mc fn tasknames [])"
    by (auto simp: recdeps_visit_def rbind_eq_Inr Let_def)
  show "set ns = rec_succs es tasknames t"
    unfolding n rmap_dget_deps [OF r] rec_succs_def using s by (simp add: named_tasks_def add_resolved_set)
  show "set extra' = set extra \<union> named_tasks es tasknames t"
    unfolding x using s by (simp add: named_tasks_def add_resolved_set)
  show "distinct extra \<Longrightarrow> distinct extra'" unfolding x by simp
qed

lemma recdeps_goes_on: "goes_on (recdeps_visit es tasknames) (rec_succs es tasknames)"
  unfolding goes_on_def using recdeps_visit_result(1) by blast

interpretation recdeps: traversal "recdeps_visit es tasknames" "rec_succs es tasknames" for es tasknames
  by unfold_locales (rule recdeps_visit_result(1))

text \<open>The result of the calls for a list of tasks: everything reached has been seen.\<close>

lemma generate_recdeps_result:
  assumes r: "rfold (generate_recdeps es tasknames) ts (seen, extra) = Inr (seen', extra')"
    and c: "\<And>t. t \<in> set seen \<Longrightarrow> rec_succs es tasknames t \<subseteq> set seen"
    and x: "set extra = D \<union> (\<Union>t \<in> set seen. named_tasks es tasknames t)" "distinct extra"
  shows "set seen' = set seen \<union> (recdeps.arcs es tasknames)\<^sup>* `` set ts \<and>
    set extra' = D \<union> (\<Union>t \<in> set seen'. named_tasks es tasknames t) \<and> distinct extra'"
proof -
  let ?succs = "rec_succs es tasknames"
  let ?Q = "\<lambda>ys (seen', extra'). set seen' = set seen \<union> (recdeps.arcs es tasknames)\<^sup>* `` set ys \<and>
    (\<forall>t \<in> set seen'. ?succs t \<subseteq> set seen') \<and>
    set extra' = D \<union> (\<Union>t \<in> set seen'. named_tasks es tasknames t) \<and> distinct extra'"
  have "?Q ts (seen', extra')"
  proof (rule rfold_prefix [where P = ?Q, OF r])
    show "?Q [] (seen, extra)" using c x by auto
    fix ys t zs a b
    assume Q: "?Q ys a" and b: "generate_recdeps es tasknames t a = Inr b"
    obtain sa xa where a: "a = (sa, xa)" by (cases a)
    obtain sb xb where bp: "b = (sb, xb)" by (cases b)
    from b obtain ns x1 where v: "recdeps_visit es tasknames t xa = Inr (ns, x1)"
      and w: "visit_all (keys es) (recdeps_visit es tasknames) ns (sadd t sa) x1 = Inr (sb, xb)"
      unfolding a bp generate_recdeps_def by (auto simp: rbind_eq_Inr)
    note v' = recdeps_visit_result [OF v]
    let ?R = "(recdeps.arcs es tasknames)\<^sup>* `` {t}"
    have Qa: "set sa = set seen \<union> (recdeps.arcs es tasknames)\<^sup>* `` set ys" "\<And>t. t \<in> set sa \<Longrightarrow> ?succs t \<subseteq> set sa"
      "set xa = D \<union> (\<Union>t \<in> set sa. named_tasks es tasknames t)" "distinct xa"
      using Q unfolding a prod.case by blast+
    have "?succs u \<subseteq> set (sadd t sa) \<union> set ns" if "u \<in> set (sadd t sa)" for u
      using that Qa(2) [of u] v'(1) by auto
    from visit_all_closed [OF recdeps_goes_on w this]
    have cl: "set sa \<subseteq> set sb" "t \<in> set sb" "\<forall>u \<in> set sb. ?succs u \<subseteq> set sb" by auto
    let ?P = "\<lambda>s x. set x = D \<union> (\<Union>u \<in> set s. named_tasks es tasknames u) \<and> distinct x"
    have closedR: "?succs u \<subseteq> ?R" if "u \<in> ?R" for u
      using that unfolding recdeps.arcs_def by (auto intro: rtrancl_into_rtrancl)
    have nsR: "set ns \<subseteq> ?R" unfolding v'(1) by (rule closedR) simp
    have P1: "?P (sadd t sa) x1" using v'(2,3) Qa(3,4) by (auto simp: sadd_def)
    have "set sb \<subseteq> set (sadd t sa) \<union> (?R \<inter> set (keys es)) \<and> ?P sb xb"
    proof (rule visit_all_inside [where P = ?P, OF recdeps_goes_on w P1 _ nsR closedR])
      fix u s x ns x'
      assume P: "?P s x" and v: "recdeps_visit es tasknames u x = Inr (ns, x')"
      show "?P (s @ [u]) x'" using recdeps_visit_result(2,3) [OF v] P by auto
    qed
    then have up: "set sb \<subseteq> set sa \<union> ?R" "?P sb xb" by auto
    have "?R \<subseteq> set sb"
    proof -
      have "u \<in> set sb" if "(t, u) \<in> (recdeps.arcs es tasknames)\<^sup>*" for u
        using that by (induction rule: rtrancl_induct) (use cl in \<open>auto simp: recdeps.arcs_def\<close>)
      then show ?thesis by auto
    qed
    with up cl(1) have "set sb = set sa \<union> ?R" by blast
    with up(2) cl(3) Qa(1) show "?Q (ys @ [t]) b" unfolding bp by auto
  qed
  then show ?thesis by simp
qed

text \<open>What the loop over the recursive tasks collects for one of them.\<close>

definition rec_starts :: "step_a \<Rightarrow> string \<Rightarrow> string list" where
  "rec_starts a tid = tid # dget_or (sa_recursivei a) tid []"

definition rec_set :: "step_a \<Rightarrow> string \<Rightarrow> string list \<Rightarrow> string set" where
  "rec_set a tid tasknames = set (deps_of (sa_entries a) tid) \<union>
     (\<Union>t \<in> (recdeps.arcs (sa_entries a) tasknames)\<^sup>* `` set (rec_starts a tid). named_tasks (sa_entries a) tasknames t)"

lemma recursive_extra_step:
  assumes r: "recursive_extra a (tid, tasknames) ex = Inr ex'" and ok: "entries_ok (sa_entries a)"
  shows "\<exists>ds. ex' = dset tid ds ex \<and> distinct ds \<and> set ds = rec_set a tid tasknames"
proof -
  from r obtain e seen ds where e: "map_of (sa_entries a) tid = Some e"
    and g: "rfold (generate_recdeps (sa_entries a) tasknames) (rec_starts a tid) ([], rt_depends e) = Inr (seen, ds)"
    and x: "ex' = dset tid ds ex"
    by (auto simp: recursive_extra_def rec_starts_def rbind_eq_Inr)
  have d: "rt_depends e = deps_of (sa_entries a) tid" using e by (simp add: deps_of_Some)
  have "distinct (rt_depends e)" using ok unfolding d entries_ok_def by blast
  from generate_recdeps_result [where D = "set (rt_depends e)", OF g _ _ this] x d show ?thesis
    by (auto simp: rec_set_def)
qed

definition rec_result :: "step_a \<Rightarrow> (string \<times> string list) list \<Rightarrow> string \<Rightarrow> string list \<Rightarrow> bool" where
  "rec_result a rs tid ds \<longleftrightarrow> (\<exists>ts. (tid, ts) \<in> set rs \<and> distinct ds \<and> set ds = rec_set a tid ts)"

lemma rec_result_append: "rec_result a ys tid ds \<Longrightarrow> rec_result a (ys @ zs) tid ds"
  unfolding rec_result_def by (elim exE conjE) (intro exI conjI, auto)

lemma recursive_extra_all:
  assumes r: "rfold (recursive_extra a) rs [] = Inr ex" and ok: "entries_ok (sa_entries a)" and d: "distinct (keys rs)"
  shows "case map_of rs tid of None \<Rightarrow> map_of ex tid = None
    | Some ts \<Rightarrow> \<exists>ds. map_of ex tid = Some ds \<and> distinct ds \<and> set ds = rec_set a tid ts"
proof -
  let ?P = "\<lambda>ys ex. (\<forall>tid ds. map_of ex tid = Some ds \<longrightarrow> rec_result a ys tid ds) \<and>
    (\<forall>tid \<in> set (keys ys). map_of ex tid \<noteq> None)"
  have "?P rs ex"
  proof (rule rfold_prefix [where P = ?P, OF r])
    fix ys x zs b c assume P: "?P ys b" and s: "recursive_extra a x b = Inr c"
    obtain t ts where x: "x = (t, ts)" by (cases x)
    from recursive_extra_step [OF s [unfolded x] ok] obtain ds where
      c: "c = dset t ds b" and ds: "distinct ds" "set ds = rec_set a t ts" by blast
    have "rec_result a (ys @ [x]) t ds" unfolding rec_result_def x using ds by (intro exI [of _ ts]) simp
    with P have "rec_result a (ys @ [x]) tid ds'" if "map_of c tid = Some ds'" for tid ds'
      using that by (cases "tid = t") (simp_all add: c rec_result_append)
    moreover have "map_of c tid \<noteq> None" if "tid \<in> set (keys (ys @ [x]))" for tid
    proof (cases "tid = t")
      case False
      with that have "tid \<in> set (keys ys)" by (auto simp: x keys_def)
      with P False show ?thesis by (simp add: c)
    qed (simp add: c)
    ultimately show "?P (ys @ [x]) c" by blast
  qed (simp add: keys_def)
  then have P: "map_of ex tid = Some ds \<Longrightarrow> rec_result a rs tid ds"
    "tid \<in> set (keys rs) \<Longrightarrow> map_of ex tid \<noteq> None" for ds by blast+
  show ?thesis
  proof (cases "map_of rs tid")
    case None
    have "map_of ex tid = None"
    proof (cases "map_of ex tid")
      case (Some ds)
      from P(1) [OF this] obtain ts where "(tid, ts) \<in> set rs" unfolding rec_result_def by blast
      then have "tid \<in> set (keys rs)" by (force simp: keys_def)
      with None show ?thesis by (simp add: set_keys)
    qed
    with None show ?thesis by simp
  next
    case (Some ts)
    then have "tid \<in> set (keys rs)" by (rule map_of_keys)
    with P(2) obtain ds where ds: "map_of ex tid = Some ds" by blast
    from P(1) [OF this] obtain ts' where t: "(tid, ts') \<in> set rs" "distinct ds" "set ds = rec_set a tid ts'"
      unfolding rec_result_def by blast
    have "map_of rs tid = Some ts'" using t(1) d by (simp add: keys_def)
    with Some have "ts' = ts" by simp
    with Some ds t(2,3) show ?thesis by simp
  qed
qed

lemma note_recursive_keys:
  "distinct (keys (sa_recursive a)) \<Longrightarrow> distinct (keys (sa_recursive (note_recursive deps tid mc fn taskname a)))"
  by (simp add: note_recursive_def Let_def split: option.split)

lemma prepare_a_recursive: "prepare_a env = Inr a \<Longrightarrow> distinct (keys (sa_recursive a))"
proof -
  assume r: "prepare_a env = Inr a"
  have step: "distinct (keys (sa_recursive b))" if "step_a_task env tid a = Inr b" "distinct (keys (sa_recursive a))" for tid a b
    using that unfolding step_a_task_def rbind_eq_Inr
    by (auto simp: rbind_eq_Inr note_recursive_keys split: if_splits)
  show ?thesis
  proof (rule rfold_inv [where P = "\<lambda>a. distinct (keys (sa_recursive a))", OF r [unfolded prepare_a_def]])
    fix x :: "string \<times> taskdata" and a b
    assume a: "distinct (keys (sa_recursive a))" and b: "(case x of (mc, td) \<Rightarrow> rfold (step_a_task env) (keys (taskentries td))) a = Inr b"
    from b have "rfold (step_a_task env) (keys (taskentries (snd x))) a = Inr b" by (simp split: prod.splits)
    from rfold_inv [where P = "\<lambda>a. distinct (keys (sa_recursive a))", OF this a] step
    show "distinct (keys (sa_recursive b))" by blast
  qed (simp add: keys_def)
qed

text \<open>The dependencies of a task after both steps.\<close>

definition final_set :: "step_a \<Rightarrow> string \<Rightarrow> string set" where
  "final_set a tid = (case map_of (sa_recursive a) tid of
     None \<Rightarrow> set (deps_of (sa_entries a) tid)
   | Some tasknames \<Rightarrow> rec_set a tid tasknames - set (sa_selfref a)) - {tid}"

lemma prepare_b_result:
  assumes a: "prepare_a env = Inr a" and b: "prepare_b a = Inr es"
  shows "entries_ok es" "keys es = keys (sa_entries a)"
    "t \<in> set (keys es) \<Longrightarrow> set (deps_of es t) = final_set a t" "t \<notin> set (deps_of es t)"
proof -
  note ok = prepare_a_ok [OF a]
  from b obtain ex where ex: "rfold (recursive_extra a) (sa_recursive a) [] = Inr ex" and es: "es = final_depends a ex"
    by (auto simp: prepare_b_def rbind_eq_Inr)
  note x = recursive_extra_all [OF ex ok prepare_a_recursive [OF a]]
  show k: "keys es = keys (sa_entries a)" unfolding es final_depends_def by (rule keys_map_kv)
  let ?ds = "\<lambda>t. filter (\<lambda>d. d \<noteq> t) (case map_of ex t of None \<Rightarrow> deps_of (sa_entries a) t
     | Some ds \<Rightarrow> filter (\<lambda>d. d \<notin> set (sa_selfref a)) ds)"
  have m: "map_of es t = map_option (\<lambda>e. e\<lparr>rt_depends := ?ds t\<rparr>) (map_of (sa_entries a) t)" for t
    unfolding es final_depends_def map_of_map_kv
    by (cases "map_of (sa_entries a) t"; cases "map_of ex t") (simp_all add: deps_of_Some)
  have d: "deps_of es t = (if t \<in> set (keys (sa_entries a)) then ?ds t else [])" for t
    by (cases "map_of (sa_entries a) t") (auto simp: deps_of_def [of es] m set_keys)
  have r: "rdeps_of es t = rdeps_of (sa_entries a) t" for t
    by (cases "map_of (sa_entries a) t") (simp_all add: rdeps_of_def m)
  have ds: "distinct (?ds t)" for t
    using x [of t] ok unfolding entries_ok_def by (auto split: option.splits)
  show "entries_ok es"
    using ok ds k unfolding entries_ok_def r by (simp add: d)
  show "set (deps_of es t) = final_set a t" if "t \<in> set (keys es)"
  proof (cases "map_of (sa_recursive a) t")
    case None
    with that x [of t] k show ?thesis by (auto simp: d final_set_def)
  next
    case (Some ts)
    with x [of t] obtain ds where ds: "map_of ex t = Some ds" and s: "set ds = rec_set a t ts" by auto
    have "set (deps_of es t) = {x \<in> set ds. x \<notin> set (sa_selfref a) \<and> x \<noteq> t}"
      using that k ds by (auto simp: d)
    with Some s show ?thesis by (auto simp: final_set_def)
  qed
  show "t \<notin> set (deps_of es t)" by (simp add: d)
qed

section \<open>The active tasks\<close>

definition task_visit :: "run_tasks \<Rightarrow> string \<Rightarrow> unit \<Rightarrow> (string list \<times> unit) res" where
  "task_visit es t u = rbind (dget es t) (\<lambda>e. Inr (rt_depends e, ()))"

interpretation tasks_walk: traversal "task_visit es" "\<lambda>t. set (deps_of es t)" for es
  by unfold_locales (auto simp: task_visit_def rbind_eq_Inr deps_of_Some)

lemma tasks_walk_arcs: "tasks_walk.arcs es = dep_rel es"
  by (simp add: tasks_walk.arcs_def dep_rel_def)

text \<open>Marking adds what can be reached, and keeps the marked tasks closed.\<close>

lemma mark_active_result:
  assumes r: "mark_active es ts seen = Inr seen'" and c: "\<And>t. t \<in> set seen \<Longrightarrow> set (deps_of es t) \<subseteq> set seen"
  shows "set seen' = set seen \<union> (dep_rel es)\<^sup>* `` set ts"
    and "set seen \<subseteq> set (keys es) \<Longrightarrow> set seen' \<subseteq> set (keys es)"
    and "t \<in> set seen' \<Longrightarrow> set (deps_of es t) \<subseteq> set seen'"
proof -
  have f: "(\<lambda>t _. rbind (dget es t) (\<lambda>e. Inr (rt_depends e, ()))) = task_visit es"
    by (intro ext) (simp add: task_visit_def)
  from r have v: "visit_all (keys es) (task_visit es) ts seen () = Inr (seen', ())"
    by (auto simp: mark_active_def rbind_eq_Inr f)
  have cl: "set seen \<union> set ts \<subseteq> set seen' \<and> (\<forall>t \<in> set seen'. set (deps_of es t) \<subseteq> set seen')"
    by (rule visit_all_closed [OF tasks_walk.going v]) (use c in blast)
  have "set seen' \<subseteq> set seen \<union> ((dep_rel es)\<^sup>* `` set ts \<inter> set (keys es)) \<and> True"
    by (rule visit_all_inside [where P = "\<lambda>_ _. True", OF tasks_walk.going v])
      (auto simp: dep_rel_def intro: rtrancl_into_rtrancl)
  moreover have "(dep_rel es)\<^sup>* `` set ts \<subseteq> set seen'"
  proof -
    have "u \<in> set seen'" if "(t, u) \<in> (dep_rel es)\<^sup>*" "t \<in> set ts" for t u
      using that by (induction rule: rtrancl_induct) (use cl in \<open>auto simp: dep_rel_def\<close>)
    then show ?thesis by auto
  qed
  ultimately show "set seen' = set seen \<union> (dep_rel es)\<^sup>* `` set ts"
    "set seen \<subseteq> set (keys es) \<Longrightarrow> set seen' \<subseteq> set (keys es)"
    "t \<in> set seen' \<Longrightarrow> set (deps_of es t) \<subseteq> set seen'" using cl by auto
qed

text \<open>The tasks that the targets ask for, from which marking starts.\<close>

definition target_starts :: "rq_env \<Rightarrow> run_tasks \<Rightarrow> string \<times> string \<times> string \<times> string \<Rightarrow> string set" where
  "target_starts env es = (\<lambda>(mc, target, task, fn). case map_of (q_taskData env) mc of None \<Rightarrow> {}
     | Some td \<Rightarrow> if bt td target = [] \<or> target \<in> set (failed_deps td) \<or> fn \<in> set (failed_fns td) then {}
         else if endswith task ''-'' then set (deps_of es (fn @ '':'' @ butlast task))
         else {fn @ '':'' @ task})"

lemma mark_target_result:
  assumes "mark_target env es x (seen, tids) = Inr (seen', tids')"
    and "\<And>t. t \<in> set seen \<Longrightarrow> set (deps_of es t) \<subseteq> set seen" "set seen \<subseteq> set (keys es)"
  shows "set seen' = set seen \<union> (dep_rel es)\<^sup>* `` target_starts env es x"
    "set seen' \<subseteq> set (keys es)" "\<And>t. t \<in> set seen' \<Longrightarrow> set (deps_of es t) \<subseteq> set seen'"
proof -
  obtain mc target task fn where x: "x = (mc, target, task, fn)" by (cases x)
  from assms(1) obtain td where td: "map_of (q_taskData env) mc = Some td"
    by (auto simp: mark_target_def x rbind_eq_Inr)
  have "set seen' = set seen \<union> (dep_rel es)\<^sup>* `` target_starts env es x \<and> set seen' \<subseteq> set (keys es) \<and>
    (\<forall>t \<in> set seen'. set (deps_of es t) \<subseteq> set seen')"
  proof (cases "bt td target = [] \<or> target \<in> set (failed_deps td) \<or> fn \<in> set (failed_fns td)")
    case True
    with assms td show ?thesis by (auto simp: mark_target_def x Let_def target_starts_def dget_def split: if_splits)
  next
    case False
    with assms(1) td obtain starts where m: "mark_active es starts seen = Inr seen'"
      and s: "set starts = target_starts env es x"
      by (auto simp: mark_target_def x Let_def target_starts_def dget_def [of "q_taskData env"] rbind_eq_Inr deps_of_Some
          split: if_splits)
    from mark_active_result [OF m assms(2)] assms(3) s show ?thesis by auto
  qed
  then show "set seen' = set seen \<union> (dep_rel es)\<^sup>* `` target_starts env es x"
    "set seen' \<subseteq> set (keys es)" "\<And>t. t \<in> set seen' \<Longrightarrow> set (deps_of es t) \<subseteq> set seen'" by blast+
qed

lemma mark_targets_result:
  assumes "rfold (mark_target env es) targets ([], []) = Inr (seen, tids)"
  shows "set seen = (dep_rel es)\<^sup>* `` (\<Union>x \<in> set targets. target_starts env es x)"
    "set seen \<subseteq> set (keys es)" "\<And>t. t \<in> set seen \<Longrightarrow> set (deps_of es t) \<subseteq> set seen"
proof -
  let ?P = "\<lambda>ys (seen, tids). set seen = (dep_rel es)\<^sup>* `` (\<Union>x \<in> set ys. target_starts env es x) \<and>
    set seen \<subseteq> set (keys es) \<and> (\<forall>t \<in> set seen. set (deps_of es t) \<subseteq> set seen)"
  have "?P targets (seen, tids)"
  proof (rule rfold_prefix [where P = ?P, OF assms])
    fix ys x zs a b assume P: "?P ys a" and m: "mark_target env es x a = Inr b"
    obtain s t s' t' where a: "a = (s, t)" and b: "b = (s', t')" by (cases a, cases b)
    have P': "set s = (dep_rel es)\<^sup>* `` (\<Union>x \<in> set ys. target_starts env es x)" "set s \<subseteq> set (keys es)"
      "\<And>t. t \<in> set s \<Longrightarrow> set (deps_of es t) \<subseteq> set s" using P unfolding a prod.case by blast+
    from mark_target_result [OF m [unfolded a b] P'(3,2)] P'(1) show "?P (ys @ [x]) b"
      unfolding b prod.case by (auto simp: Image_Un)
  qed simp
  then show "set seen = (dep_rel es)\<^sup>* `` (\<Union>x \<in> set targets. target_starts env es x)"
    "set seen \<subseteq> set (keys es)" "\<And>t. t \<in> set seen \<Longrightarrow> set (deps_of es t) \<subseteq> set seen"
    unfolding prod.case by blast+
qed

lemma prune_result:
  assumes "entries_ok es" "set seen \<subseteq> set (keys es)" "\<And>t. t \<in> set seen \<Longrightarrow> set (deps_of es t) \<subseteq> set seen"
  shows "entries_ok (prune seen es)" "set (keys (prune seen es)) = set seen"
    "deps_of (prune seen es) t = (if t \<in> set seen then deps_of es t else [])"
proof -
  have m: "map_of (prune seen es) t = (if t \<in> set seen then map_of es t else None)" for t
    unfolding prune_def by (rule map_of_filter_key)
  have k: "keys (prune seen es) = filter (\<lambda>t. t \<in> set seen) (keys es)"
    unfolding prune_def by (rule keys_filter_key)
  show d: "deps_of (prune seen es) t = (if t \<in> set seen then deps_of es t else [])" for t
    by (simp add: deps_of_def m)
  have r: "rdeps_of (prune seen es) t = (if t \<in> set seen then rdeps_of es t else [])" for t
    by (simp add: rdeps_of_def m)
  show "set (keys (prune seen es)) = set seen" using assms(2) by (auto simp: k)
  show "entries_ok (prune seen es)" using assms(1) by (simp add: entries_ok_def d r k)
qed

section \<open>Reverse dependencies and endpoints\<close>

lemma add_revdep_result:
  assumes "add_revdep tid dep es = Inr es'"
  shows "keys es' = keys es" "deps_of es' t = deps_of es t"
    "rdeps_of es' t = (if t = dep then sadd tid (rdeps_of es t) else rdeps_of es t)"
proof -
  from assms obtain e where e: "map_of es dep = Some e" and es': "es' = dset dep (e\<lparr>rt_revdeps := sadd tid (rt_revdeps e)\<rparr>) es"
    by (auto simp: add_revdep_def rbind_eq_Inr)
  show "keys es' = keys es" unfolding es' using e by (simp add: keys_dset_mem map_of_keys)
  show "deps_of es' t = deps_of es t" unfolding es' deps_of_dset using e by (simp add: deps_of_Some)
  show "rdeps_of es' t = (if t = dep then sadd tid (rdeps_of es t) else rdeps_of es t)"
    unfolding es' rdeps_of_dset using e by (simp add: rdeps_of_Some)
qed

lemma add_revdep_all:
  assumes "rfold (add_revdep tid) ds es = Inr es'"
  shows "keys es' = keys es" "deps_of es' t = deps_of es t"
    "set (rdeps_of es' t) = set (rdeps_of es t) \<union> (if t \<in> set ds then {tid} else {})"
    "distinct (rdeps_of es t) \<Longrightarrow> distinct (rdeps_of es' t)"
proof -
  let ?P = "\<lambda>ys es'. keys es' = keys es \<and> (\<forall>t. deps_of es' t = deps_of es t) \<and>
    (\<forall>t. set (rdeps_of es' t) = set (rdeps_of es t) \<union> (if t \<in> set ys then {tid} else {}) \<and>
      (distinct (rdeps_of es t) \<longrightarrow> distinct (rdeps_of es' t)))"
  have "?P ds es'"
  proof (rule rfold_prefix [where P = ?P, OF assms])
    fix ys x zs a b assume P: "?P ys a" and b: "add_revdep tid x a = Inr b"
    show "?P (ys @ [x]) b" using P by (simp add: add_revdep_result [OF b])
  qed simp
  then show "keys es' = keys es" "deps_of es' t = deps_of es t"
    "set (rdeps_of es' t) = set (rdeps_of es t) \<union> (if t \<in> set ds then {tid} else {})"
    "distinct (rdeps_of es t) \<Longrightarrow> distinct (rdeps_of es' t)" by simp_all
qed

lemma add_revdeps_result:
  assumes ok: "entries_ok es" and sub: "\<And>t. set (deps_of es t) \<subseteq> set (keys es)" and r: "add_revdeps es = Inr es'"
  shows "graph_ok es'" "keys es' = keys es" "deps_of es' t = deps_of es t"
proof -
  let ?P = "\<lambda>(ys :: run_tasks) es'. keys es' = keys es \<and> (\<forall>t. deps_of es' t = deps_of es t \<and> distinct (rdeps_of es' t) \<and>
    set (rdeps_of es' t) = {u. \<exists>f. (u, f) \<in> set ys \<and> t \<in> set (rt_depends f)})"
  have P: "?P es es'"
  proof (rule rfold_prefix [where P = ?P, OF r [unfolded add_revdeps_def]])
    show "?P [] es" using ok by (simp add: entries_ok_def)
    fix ys zs and x :: "string \<times> run_task" and a b
    assume P: "?P ys a" and b: "(case x of (tid, e) \<Rightarrow> rfold (add_revdep tid) (rt_depends e)) a = Inr b"
    obtain u f where x: "x = (u, f)" by (cases x)
    from b have b: "rfold (add_revdep u) (rt_depends f) a = Inr b" by (simp add: x)
    show "?P (ys @ [x]) b" using P by (auto simp: add_revdep_all [OF b] x)
  qed
  then show k: "keys es' = keys es" and d: "\<And>t. deps_of es' t = deps_of es t" by blast+
  have m: "(\<exists>f. (u, f) \<in> set es \<and> t \<in> set (rt_depends f)) \<longleftrightarrow> t \<in> set (deps_of es u)" for t u
    using ok by (auto simp: deps_of_def entries_ok_def keys_def split: option.split dest: map_of_SomeD)
  show "graph_ok es'"
    unfolding graph_ok_def k d using P ok sub m by (simp add: entries_ok_def)
qed

lemma find_endpoints_result:
  assumes r: "find_endpoints es = Inr eps" and d: "distinct (keys es)"
  shows "eps = endpoints_of es" "\<And>t u. u \<in> set (rdeps_of es t) \<Longrightarrow> u \<notin> set (deps_of es t)"
proof -
  let ?P = "\<lambda>ys eps. eps = map fst (filter (\<lambda>(t, e). rt_revdeps e = []) ys) \<and>
    (\<forall>(t, e) \<in> set ys. \<forall>u \<in> set (rt_revdeps e). u \<notin> set (rt_depends e))"
  have P: "?P es eps"
    by (rule rfold_prefix [where P = ?P, OF r [unfolded find_endpoints_def]])
      (auto simp: list_ex_iff split: if_splits)
  have "map fst (filter (\<lambda>(t, e). rt_revdeps e = []) es) = filter (\<lambda>t. rdeps_of es t = []) (keys es)"
  proof -
    have "rdeps_of es t = rt_revdeps e" if "(t, e) \<in> set es" for t e
      using that d by (simp add: rdeps_of_def keys_def)
    then have "filter (\<lambda>(t, e). rt_revdeps e = []) es = filter (\<lambda>x. rdeps_of es (fst x) = []) es"
      by (intro filter_cong) auto
    then show ?thesis by (simp add: keys_def filter_map o_def)
  qed
  with P show "eps = endpoints_of es" by (simp add: endpoints_of_def)
  show "u \<notin> set (deps_of es t)" if u: "u \<in> set (rdeps_of es t)" for t u
  proof (cases "map_of es t")
    case (Some e)
    then have "(t, e) \<in> set es" by (rule map_of_SomeD)
    with P u Some show ?thesis by (fastforce simp: deps_of_Some rdeps_of_Some)
  qed (simp add: deps_of_def)
qed

section \<open>Hashes\<close>

text \<open>The tasks up to their hashes.\<close>

definition same_tasks :: "run_tasks \<Rightarrow> run_tasks \<Rightarrow> bool" where
  "same_tasks es es' \<longleftrightarrow> keys es' = keys es \<and>
     (\<forall>t e'. map_of es' t = Some e' \<longrightarrow> (\<exists>e. map_of es t = Some e \<and> e' = e\<lparr>rt_hash := rt_hash e'\<rparr>))"

lemma same_tasksD:
  assumes "same_tasks es es'"
  shows "deps_of es' t = deps_of es t" "rdeps_of es' t = rdeps_of es t" "task_weight es' t = task_weight es t"
proof -
  have "deps_of es' t = deps_of es t \<and> rdeps_of es' t = rdeps_of es t \<and> task_weight es' t = task_weight es t"
  proof (cases "map_of es' t")
    case None
    then have "map_of es t = None" using assms unfolding same_tasks_def by (metis set_keys not_None_eq)
    with None show ?thesis by (simp add: deps_of_def rdeps_of_def task_weight_def)
  next
    case (Some e')
    with assms obtain e where e: "map_of es t = Some e" "e' = e\<lparr>rt_hash := rt_hash e'\<rparr>"
      unfolding same_tasks_def by blast
    have "rt_depends e' = rt_depends e" "rt_revdeps e' = rt_revdeps e" "rt_weight e' = rt_weight e"
      by (subst e(2), simp)+
    with Some e(1) show ?thesis by (simp add: deps_of_def rdeps_of_def task_weight_def)
  qed
  then show "deps_of es' t = deps_of es t" "rdeps_of es' t = rdeps_of es t" "task_weight es' t = task_weight es t"
    by blast+
qed

lemma graph_ok_same: "same_tasks es es' \<Longrightarrow> graph_ok es \<Longrightarrow> graph_ok es'"
  unfolding graph_ok_def by (simp add: same_tasksD) (simp add: same_tasks_def)

lemma dep_rel_same: "same_tasks es es' \<Longrightarrow> dep_rel es' = dep_rel es"
  by (simp add: dep_rel_def same_tasksD)

text \<open>A task that is dealt with has its hash, and so have its dependencies.\<close>

definition hashed :: "taskhash \<Rightarrow> rq_env \<Rightarrow> run_tasks \<Rightarrow> string \<Rightarrow> bool" where
  "hashed get_taskhash env es t \<longleftrightarrow> (\<exists>e h. map_of es t = Some e \<and> rt_hash e = Some h \<and>
     task_hash get_taskhash env t e = Inr h)"

definition hash_inv :: "taskhash \<Rightarrow> rq_env \<Rightarrow> run_tasks \<Rightarrow> hash_state \<Rightarrow> bool" where
  "hash_inv get_taskhash env es s \<longleftrightarrow> same_tasks es (h_entries s) \<and> distinct (h_todeal s) \<and>
     set (h_todeal s) = set (keys es) - set (h_dealtwith s) \<and>
     (\<forall>t \<in> set (h_dealtwith s). hashed get_taskhash env (h_entries s) t \<and> set (deps_of es t) \<subseteq> set (h_dealtwith s))"

lemma task_hash_hash: "task_hash gt env t (e\<lparr>rt_hash := h\<rparr>) = task_hash gt env t e"
  by (simp add: task_hash_def)

lemma hash_step_inv:
  assumes inv: "hash_inv gt env es s" and r: "hash_step gt env t s = Inr s'"
  shows "hash_inv gt env es s'" "set (h_dealtwith s) \<subseteq> set (h_dealtwith s')"
    "set (deps_of es t) \<subseteq> set (h_dealtwith s) \<Longrightarrow> t \<in> set (h_dealtwith s')"
proof -
  have i: "same_tasks es (h_entries s)" "distinct (h_todeal s)" "set (h_todeal s) = set (keys es) - set (h_dealtwith s)"
    "\<And>t. t \<in> set (h_dealtwith s) \<Longrightarrow> hashed gt env (h_entries s) t \<and> set (deps_of es t) \<subseteq> set (h_dealtwith s)"
    using inv unfolding hash_inv_def by blast+
  from r obtain e where e: "map_of (h_entries s) t = Some e"
    and c: "(if list_all (\<lambda>d. d \<in> set (h_dealtwith s)) (rt_depends e)
     then rbind (task_hash gt env t e) (\<lambda>h. Inr (s\<lparr>h_dealtwith := sadd t (h_dealtwith s),
       h_todeal := remove1 t (h_todeal s), h_entries := dset t (e\<lparr>rt_hash := Some h\<rparr>) (h_entries s)\<rparr>))
     else Inr s) = Inr s'"
    by (auto simp: hash_step_def rbind_eq_Inr)
  have d: "rt_depends e = deps_of es t" using e same_tasksD(1) [OF i(1)] by (simp add: deps_of_Some [symmetric])
  have all: "list_all (\<lambda>d. d \<in> set (h_dealtwith s)) (rt_depends e) \<longleftrightarrow> set (deps_of es t) \<subseteq> set (h_dealtwith s)"
    unfolding d list_all_iff by blast
  have "hash_inv gt env es s' \<and> set (h_dealtwith s) \<subseteq> set (h_dealtwith s') \<and>
    (set (deps_of es t) \<subseteq> set (h_dealtwith s) \<longrightarrow> t \<in> set (h_dealtwith s'))"
  proof (cases "set (deps_of es t) \<subseteq> set (h_dealtwith s)")
    case False
    then have "s' = s" using c all by simp
    with inv False show ?thesis by simp
  next
    case True
    then obtain h where h: "task_hash gt env t e = Inr h"
      and s': "s' = s\<lparr>h_dealtwith := sadd t (h_dealtwith s), h_todeal := remove1 t (h_todeal s),
        h_entries := dset t (e\<lparr>rt_hash := Some h\<rparr>) (h_entries s)\<rparr>"
      using c all by (auto simp: rbind_eq_Inr)
    have tk: "t \<in> set (keys (h_entries s))" using e by (rule map_of_keys)
    have same: "same_tasks es (h_entries s')"
      unfolding same_tasks_def
    proof (intro conjI allI impI)
      show "keys (h_entries s') = keys es" using i(1) tk by (simp add: s' keys_dset_mem same_tasks_def)
      fix u e' assume u: "map_of (h_entries s') u = Some e'"
      show "\<exists>e. map_of es u = Some e \<and> e' = e\<lparr>rt_hash := rt_hash e'\<rparr>"
      proof (cases "u = t")
        case True
        from e i(1) obtain e0 where "map_of es t = Some e0" "e = e0\<lparr>rt_hash := rt_hash e\<rparr>"
          unfolding same_tasks_def by blast
        moreover from u True have "e' = e\<lparr>rt_hash := Some h\<rparr>" by (simp add: s')
        ultimately have "map_of es u = Some e0" "e' = e0\<lparr>rt_hash := rt_hash e'\<rparr>" using True by (simp, metis run_task.update_convs(3) run_task.surjective)
        then show ?thesis by blast
      next
        case False
        with u i(1) show ?thesis unfolding same_tasks_def by (simp add: s')
      qed
    qed
    have hs: "hashed gt env (h_entries s') u" if "u \<in> set (h_dealtwith s')" for u
    proof (cases "u = t")
      case True
      then show ?thesis by (simp add: hashed_def s' task_hash_hash h)
    next
      case False
      with that i(4) [of u] show ?thesis by (simp add: hashed_def s')
    qed
    have "set (h_todeal s') = set (keys es) - set (h_dealtwith s')" using i(2,3) by (auto simp: s')
    moreover have "set (deps_of es u) \<subseteq> set (h_dealtwith s')" if "u \<in> set (h_dealtwith s')" for u
      using that True i(4) [of u] by (auto simp: s')
    moreover have "set (h_dealtwith s) \<subseteq> set (h_dealtwith s')" "t \<in> set (h_dealtwith s')" by (auto simp: s')
    moreover have "distinct (h_todeal s')" using i(2) by (simp add: s')
    ultimately show ?thesis using same hs unfolding hash_inv_def by blast
  qed
  then show "hash_inv gt env es s'" "set (h_dealtwith s) \<subseteq> set (h_dealtwith s')"
    "set (deps_of es t) \<subseteq> set (h_dealtwith s) \<Longrightarrow> t \<in> set (h_dealtwith s')" by blast+
qed

lemma hash_pass_inv:
  assumes inv: "hash_inv gt env es s" and r: "rfold (hash_step gt env) ts s = Inr s'"
  shows "hash_inv gt env es s'" "set (h_dealtwith s) \<subseteq> set (h_dealtwith s')"
    "t \<in> set ts \<Longrightarrow> set (deps_of es t) \<subseteq> set (h_dealtwith s) \<Longrightarrow> t \<in> set (h_dealtwith s')"
proof -
  let ?P = "\<lambda>ys s'. hash_inv gt env es s' \<and> set (h_dealtwith s) \<subseteq> set (h_dealtwith s') \<and>
    (\<forall>t \<in> set ys. set (deps_of es t) \<subseteq> set (h_dealtwith s) \<longrightarrow> t \<in> set (h_dealtwith s'))"
  have "?P ts s'"
  proof (rule rfold_prefix [where P = ?P, OF r])
    show "?P [] s" using inv by simp
    fix ys x zs a b assume P: "?P ys a" and b: "hash_step gt env x a = Inr b"
    from hash_step_inv [OF _ b] P have h: "hash_inv gt env es b" "set (h_dealtwith a) \<subseteq> set (h_dealtwith b)"
      "set (deps_of es x) \<subseteq> set (h_dealtwith a) \<Longrightarrow> x \<in> set (h_dealtwith b)" by blast+
    with P show "?P (ys @ [x]) b" by auto
  qed
  then show "hash_inv gt env es s'" "set (h_dealtwith s) \<subseteq> set (h_dealtwith s')"
    "t \<in> set ts \<Longrightarrow> set (deps_of es t) \<subseteq> set (h_dealtwith s) \<Longrightarrow> t \<in> set (h_dealtwith s')" by blast+
qed

text \<open>A pass on a graph without cycles deals with a task, so as many passes as tasks are enough.\<close>

lemma hash_pass_progress:
  assumes g: "graph_ok es" and a: "acyclic (dep_rel es)" and inv: "hash_inv gt env es s"
    and r: "rfold (hash_step gt env) (h_todeal s) s = Inr s'" and ne: "h_todeal s \<noteq> []"
  shows "length (h_todeal s') < length (h_todeal s)"
proof -
  have i: "distinct (h_todeal s)" "set (h_todeal s) = set (keys es) - set (h_dealtwith s)"
    using inv unfolding hash_inv_def by blast+
  note p = hash_pass_inv [OF inv r]
  have i': "distinct (h_todeal s')" "set (h_todeal s') = set (keys es) - set (h_dealtwith s')"
    using p(1) unfolding hash_inv_def by blast+
  have wf: "wf ((dep_rel es)\<inverse>)" by (rule finite_acyclic_wf_converse [OF dep_rel_finite a])
  obtain t0 where "t0 \<in> set (h_todeal s)" using ne by (cases "h_todeal s") auto
  from wfE_min [OF wf this] obtain t where t: "t \<in> set (h_todeal s)"
    and min: "\<And>d. (d, t) \<in> (dep_rel es)\<inverse> \<Longrightarrow> d \<notin> set (h_todeal s)" by blast
  have "set (deps_of es t) \<subseteq> set (h_dealtwith s)"
    using min i(2) graph_okD(4) [OF g, of t] by (auto simp: dep_rel_def)
  with p(3) t have "t \<in> set (h_dealtwith s')" by blast
  with t i(2) i'(2) p(2) have "set (h_todeal s') \<subset> set (h_todeal s)" by blast
  from psubset_card_mono [OF _ this] show ?thesis by (simp add: distinct_card i(1) i'(1))
qed

lemma hash_loop_result:
  assumes g: "graph_ok es" and a: "acyclic (dep_rel es)"
  shows "hash_inv gt env es s \<Longrightarrow> length (h_todeal s) \<le> n \<Longrightarrow>
    (case hash_loop n gt env s of Inl e \<Rightarrow> \<exists>s' ts. rfold (hash_step gt env) ts s' = Inl e
     | Inr s' \<Rightarrow> hash_inv gt env es s' \<and> h_todeal s' = [])"
proof (induction n arbitrary: s)
  case 0
  then show ?case by (simp add: hash_loop.simps)
next
  case (Suc n)
  show ?case
  proof (cases "h_todeal s = []")
    case True
    with Suc.prems(1) show ?thesis by (simp add: hash_loop.simps)
  next
    case False
    show ?thesis
    proof (cases "rfold (hash_step gt env) (h_todeal s) s")
      case (Inl e)
      with False show ?thesis by (auto simp: hash_loop.simps)
    next
      case (Inr s')
      have "length (h_todeal s') \<le> n"
        using hash_pass_progress [OF g a Suc.prems(1) Inr False] Suc.prems(2) by simp
      from Suc.IH [OF hash_pass_inv(1) [OF Suc.prems(1) Inr] this] False Inr show ?thesis
        by (simp add: hash_loop.simps)
    qed
  qed
qed

lemma calculate_hashes_result:
  assumes g: "graph_ok es" and a: "acyclic (dep_rel es)" and r: "calculate_hashes gt env es = Inr es'"
  shows "same_tasks es es'" "t \<in> set (keys es) \<Longrightarrow> hashed gt env es' t"
proof -
  let ?s = "\<lparr>h_entries = es, h_dealtwith = [], h_todeal = keys es\<rparr>"
  have "same_tasks es es" unfolding same_tasks_def by (auto intro: exI)
  then have "hash_inv gt env es ?s" using graph_okD(1) [OF g] by (simp add: hash_inv_def)
  from hash_loop_result [OF g a this, of "length es"] r obtain s' where
    "hash_inv gt env es s'" "h_todeal s' = []" "es' = h_entries s'"
    by (auto simp: calculate_hashes_def rbind_eq_Inr keys_def)
  then show "same_tasks es es'" "t \<in> set (keys es) \<Longrightarrow> hashed gt env es' t"
    unfolding hash_inv_def by auto
qed

section \<open>The preparation\<close>

lemma same_tasks_weights: "same_tasks es es' \<Longrightarrow> weights_solve es w \<Longrightarrow> weights_solve es' w"
proof -
  assume s: "same_tasks es es'" and w: "weights_solve es w"
  have "keys es' = keys es" using s by (simp add: same_tasks_def)
  with w show ?thesis unfolding weights_solve_def base_weight_def by (simp only: same_tasksD [OF s])
qed

lemma same_tasks_length: "same_tasks es es' \<Longrightarrow> length es' = length es"
  unfolding same_tasks_def keys_def by (metis length_map)

lemma weigh_tasks_result:
  assumes ok: "entries_ok es" and sub: "\<And>t. set (deps_of es t) \<subseteq> set (keys es)" and r: "weigh_tasks es = Inr (w, es2)"
  shows "graph_ok es2" "acyclic (dep_rel es2)" "weights_solve es2 (task_weight es2)"
    "keys es2 = keys es" "deps_of es2 t = deps_of es t"
proof -
  from r obtain es1 eps where r: "add_revdeps es = Inr es1" and e: "find_endpoints es1 = Inr eps"
    and c: "calculate_task_weights es1 eps = Inr (w, es2)" by (auto simp: weigh_tasks_def rbind_eq_Inr)
  note R = add_revdeps_result [OF ok sub r]
  have eps: "eps = endpoints_of es1" by (rule find_endpoints_result(1) [OF e graph_okD(1) [OF R(1)]])
  note W = calculate_task_weights_result [OF R(1)]
  have ac: "acyclic (dep_rel es1)" and ws: "weights_solve es1 (\<lambda>t. dget_or w t 0)"
    and es2: "es2 = map (\<lambda>(tid, e). (tid, e\<lparr>rt_weight := dget_or w tid 0\<rparr>)) es1"
    using W(1) W(2) [of w es2] c unfolding eps by blast+
  have k2: "keys es2 = keys es1" "deps_of es2 t = deps_of es1 t" "rdeps_of es2 t = rdeps_of es1 t" for t
    unfolding es2 by (simp_all only: keys_weighted deps_of_weighted rdeps_of_weighted)
  show "graph_ok es2" unfolding es2 by (rule graph_ok_weighted [OF R(1)])
  show "acyclic (dep_rel es2)" using ac by (simp add: dep_rel_def k2)
  show "keys es2 = keys es" "deps_of es2 t = deps_of es t" by (simp_all add: k2 R)
  have tw: "task_weight es2 t = dget_or w t 0" if "t \<in> set (keys es1)" for t
    unfolding es2 using that by (rule task_weight_weighted)
  show "weights_solve es2 (task_weight es2)"
    unfolding weights_solve_def
  proof
    fix t assume t: "t \<in> set (keys es2)"
    have "map (\<lambda>t. dget_or w t 0) (rdeps_of es1 t) = map (task_weight es2) (rdeps_of es1 t)"
      using graph_okD(6) [OF R(1), of t] tw by (intro map_cong [OF refl]) auto
    from arg_cong [OF this, of sum_list] ws t
    show "task_weight es2 t = base_weight es2 t + sum_list (map (task_weight es2) (rdeps_of es2 t))"
      unfolding weights_solve_def by (simp add: k2 tw base_weight_def)
  qed
qed

text \<open>The tasks that are left after pruning.\<close>

lemma active_tasks_result:
  assumes a: "prepare_a env = Inr a" and b: "prepare_b a = Inr es"
    and m: "rfold (mark_target env es) (q_targets env) ([], []) = Inr (seen, tids)"
  shows "entries_ok (prune seen es)" "set (deps_of (prune seen es) t) \<subseteq> set (keys (prune seen es))"
    "set (keys (prune seen es)) = (dep_rel es)\<^sup>* `` (\<Union>x \<in> set (q_targets env). target_starts env es x)"
    "t \<in> set (keys (prune seen es)) \<Longrightarrow> deps_of (prune seen es) t = deps_of es t"
    "set (keys (prune seen es)) \<subseteq> set (keys es)"
proof -
  note B = prepare_b_result [OF a b]
  note M = mark_targets_result [OF m]
  have P: "entries_ok (prune seen es)" "set (keys (prune seen es)) = set seen"
    "\<And>t. deps_of (prune seen es) t = (if t \<in> set seen then deps_of es t else [])"
    using prune_result [OF B(1) M(2)] M(3) by blast+
  show "entries_ok (prune seen es)" by (rule P(1))
  show "set (deps_of (prune seen es) t) \<subseteq> set (keys (prune seen es))"
    using M(3) unfolding P(2,3) by (cases "t \<in> set seen") auto
  show "set (keys (prune seen es)) = (dep_rel es)\<^sup>* `` (\<Union>x \<in> set (q_targets env). target_starts env es x)"
    unfolding P(2) by (rule M(1))
  show "deps_of (prune seen es) t = deps_of es t" if "t \<in> set (keys (prune seen es))"
    using that unfolding P(2,3) by simp
  show "set (keys (prune seen es)) \<subseteq> set (keys es)" unfolding P(2) by (rule M(2))
qed

lemma prepare_result:
  assumes a: "prepare_a env = Inr a" and b: "prepare_b a = Inr es" and p: "prepare gt env = Inr (n, s)" and n: "n \<noteq> 0"
  shows "n = length (runtaskentries s)" "graph_ok (runtaskentries s)" "acyclic (dep_rel (runtaskentries s))"
    "weights_solve (runtaskentries s) (task_weight (runtaskentries s))"
    "set (keys (runtaskentries s)) = (dep_rel es)\<^sup>* `` (\<Union>x \<in> set (q_targets env). target_starts env es x)"
    "t \<in> set (keys (runtaskentries s)) \<Longrightarrow> hashed gt env (runtaskentries s) t \<and>
      deps_of (runtaskentries s) t = deps_of es t"
    "set (keys (runtaskentries s)) \<subseteq> set (keys es)"
proof -
  have ne: "list_ex (\<lambda>(mc, td). taskentries td \<noteq> []) (q_taskData env)"
    using p n unfolding prepare_def by (rule_tac ccontr) simp
  from p ne a b obtain seen tids w es2 where
    m: "rfold (mark_target env es) (q_targets env) ([], []) = Inr (seen, tids)"
    and r: "weigh_tasks (prune seen es) = Inr (w, es2)"
    and h: "calculate_hashes gt env es2 = Inr (runtaskentries s)" and len: "n = length (runtaskentries s)"
    unfolding prepare_def Let_def by (auto simp: rbind_eq_Inr split: if_splits)
  note A = active_tasks_result [OF a b m]
  note R = weigh_tasks_result [OF A(1,2) r]
  note H = calculate_hashes_result [OF R(1,2) h]
  show "n = length (runtaskentries s)" by (rule len)
  show "graph_ok (runtaskentries s)" by (rule graph_ok_same [OF H(1) R(1)])
  show "acyclic (dep_rel (runtaskentries s))" using R(2) by (simp only: dep_rel_same [OF H(1)])
  show "weights_solve (runtaskentries s) (task_weight (runtaskentries s))"
    unfolding same_tasksD(3) [OF H(1), abs_def] by (rule same_tasks_weights [OF H(1) R(3)])
  have k: "keys (runtaskentries s) = keys (prune seen es)" using H(1) R(4) unfolding same_tasks_def by simp
  show "set (keys (runtaskentries s)) = (dep_rel es)\<^sup>* `` (\<Union>x \<in> set (q_targets env). target_starts env es x)"
    unfolding k by (rule A(3))
  show "set (keys (runtaskentries s)) \<subseteq> set (keys es)" unfolding k by (rule A(5))
  assume t: "t \<in> set (keys (runtaskentries s))"
  then have "deps_of (runtaskentries s) t = deps_of es t"
    using A(4) by (simp add: k same_tasksD(1) [OF H(1)] R(5))
  moreover have "t \<in> set (keys es2)" using t H(1) unfolding same_tasks_def by simp
  ultimately show "hashed gt env (runtaskentries s) t \<and> deps_of (runtaskentries s) t = deps_of es t"
    using H(2) by blast
qed

lemma prepare_none: "prepare gt env = Inr (0, s) \<Longrightarrow> runtaskentries s = []"
  by (auto simp: prepare_def Let_def init_rqdata_def rbind_eq_Inr split: if_splits)

lemma prepare_parts:
  assumes "prepare gt env = Inr (n, s)" "n \<noteq> 0"
  obtains a es where "prepare_a env = Inr a" "prepare_b a = Inr es"
  using assms by (auto simp: prepare_def rbind_eq_Inr split: if_splits)

section \<open>No step runs out of fuel\<close>

definition fueled :: "'a res \<Rightarrow> bool" where
  "fueled m \<longleftrightarrow> m \<noteq> Inl OutOfFuel"

named_theorems fueled_rules "results that are not the exception of the fuel"

lemma fueled_basic [fueled_rules]:
  "fueled (Inr x)" "fueled (dget d k)" "fueled (item xs i)" "fueled (Inl SystemExit)" "fueled (Inl AttributeError)"
  "fueled (Inl BBHandledException)"
  by (simp_all add: fueled_def dget_def item_def split: option.split)

lemma fueled_rbind [fueled_rules]: "fueled m \<Longrightarrow> (\<And>x. fueled (f x)) \<Longrightarrow> fueled (rbind m f)"
  by (cases m) (auto simp: fueled_def)

lemma fueled_rfold [fueled_rules]: "(\<And>x a. fueled (f x a)) \<Longrightarrow> fueled (rfold f xs a)"
proof (induction xs arbitrary: a)
  case Nil
  show ?case by (simp add: fueled_basic)
next
  case (Cons x xs)
  then show ?case by (simp add: fueled_rbind)
qed

lemma fueled_rmap [fueled_rules]: "(\<And>x. fueled (f x)) \<Longrightarrow> fueled (rmap f xs)"
proof (induction xs)
  case Nil
  show ?case by (simp add: fueled_basic)
next
  case (Cons x xs)
  then show ?case by (simp add: fueled_rbind fueled_basic)
qed

lemma fueled_if [fueled_rules]: "fueled m \<Longrightarrow> fueled m' \<Longrightarrow> fueled (if b then m else m')"
  by simp

lemma fueled_option [fueled_rules]: "fueled m \<Longrightarrow> (\<And>x. fueled (f x)) \<Longrightarrow> fueled (case v of None \<Rightarrow> m | Some x \<Rightarrow> f x)"
  by (cases v) auto

lemma fueled_prod [fueled_rules]: "(\<And>a b. fueled (f a b)) \<Longrightarrow> fueled (case p of (a, b) \<Rightarrow> f a b)"
  by (cases p) auto

lemma fueled_prod_app [fueled_rules]: "(\<And>a b. fueled (f a b x)) \<Longrightarrow> fueled ((case p of (a, b) \<Rightarrow> f a b) x)"
  by (cases p) auto

lemma fueled_visit_all [fueled_rules]:
  "(\<And>t s. fueled (visit t s)) \<Longrightarrow> fueled (visit_all U visit ts seen s)"
proof (induction U visit ts seen s rule: visit_all.induct)
  case (2 U visit t ts seen s)
  show ?case
  proof (cases "visit t s")
    case (Inl e)
    with 2(3) [of t s] 2(1) [OF _ 2(3)] show ?thesis by (auto simp: fueled_def)
  next
    case (Inr r)
    obtain ns u where "r = (ns, u)" by (cases r)
    with 2 Inr show ?thesis by (auto simp: fueled_def)
  qed
qed (simp add: fueled_def)

lemma fueled_split [fueled_rules]: "fueled (split_tid_mcfn tid)"
  unfolding split_tid_mcfn_def Let_def by (intro fueled_rules)

lemma fueled_flag [fueled_rules]: "(\<And>ts ds. fueled (add ts ds)) \<Longrightarrow> fueled (flag_depends deps flag taskname add ds)"
  unfolding flag_depends_def by (intro fueled_rules)

lemma fueled_a [fueled_rules]: "fueled (prepare_a env)"
  unfolding prepare_a_def step_a_task_def task_depends_def internal_depends_def idepend_step_def irdepend_step_def Let_def
  by (intro fueled_rules)

lemma fueled_b [fueled_rules]: "fueled (prepare_b a)"
  unfolding prepare_b_def recursive_extra_def generate_recdeps_def recdeps_visit_def Let_def
  by (intro fueled_rules)

lemma fueled_mark [fueled_rules]: "fueled (mark_target env es x acc)"
  unfolding mark_target_def mark_active_def Let_def by (intro fueled_rules)

lemma fueled_checks [fueled_rules]:
  "fueled (add_revdeps es)" "fueled (find_endpoints es)" "fueled (check_providers env es)" "fueled (stamp_whitelist env)"
  "fueled (find_setscene_tids env es)" "fueled (invalidate_tasks env tids)" "fueled (check_virtual env)"
  unfolding add_revdeps_def add_revdep_def find_endpoints_def check_providers_def provider_step_def one_version_step_def
    stamp_whitelist_def find_setscene_tids_def invalidate_tasks_def invalidate_task_def check_virtual_def Let_def
  by (intro fueled_rules)+

lemma fueled_hash_step: "fueled (hash_step gt env t s)"
  unfolding hash_step_def task_hash_def proc_dep_def taskname_from_tid_def by (intro fueled_rules)

lemma fueled_weights: "graph_ok es \<Longrightarrow> fueled (calculate_task_weights es (endpoints_of es))"
  using calculate_task_weights_result(1) [of es] calculate_task_weights_cyclic [of es] unfolding fueled_def by fastforce

lemma fueled_hashes:
  assumes g: "graph_ok es" and a: "acyclic (dep_rel es)"
  shows "fueled (calculate_hashes gt env es)"
proof -
  let ?s = "\<lparr>h_entries = es, h_dealtwith = [], h_todeal = keys es\<rparr>"
  have "same_tasks es es" unfolding same_tasks_def by (auto intro: exI)
  then have "hash_inv gt env es ?s" using graph_okD(1) [OF g] by (simp add: hash_inv_def)
  from hash_loop_result [OF g a this, of "length es"]
  have "fueled (hash_loop (length es) gt env ?s)"
    using fueled_rfold [of "hash_step gt env", OF fueled_hash_step]
    by (cases "hash_loop (length es) gt env ?s") (auto simp: fueled_def keys_def)
  then show ?thesis unfolding calculate_hashes_def by (intro fueled_rules)
qed

lemma fueled_rbind_Inr: "fueled m \<Longrightarrow> (\<And>x. m = Inr x \<Longrightarrow> fueled (f x)) \<Longrightarrow> fueled (rbind m f)"
  by (cases m) (auto simp: fueled_def)

lemma fueled_weigh_tasks:
  assumes ok: "entries_ok es" and sub: "\<And>t. set (deps_of es t) \<subseteq> set (keys es)"
  shows "fueled (weigh_tasks es)"
  unfolding weigh_tasks_def
proof (rule fueled_rbind_Inr [OF fueled_checks(1)], rule fueled_rbind_Inr [OF fueled_checks(2)])
  fix es1 eps assume r: "add_revdeps es = Inr es1" and e: "find_endpoints es1 = Inr eps"
  note R = add_revdeps_result [OF ok sub r]
  have "eps = endpoints_of es1" by (rule find_endpoints_result(1) [OF e graph_okD(1) [OF R(1)]])
  with fueled_weights [OF R(1)] show "fueled (calculate_task_weights es1 eps)" by simp
qed

lemma prepare_fueled: "fueled (prepare gt env)"
proof -
  have rest: "fueled (rbind (weigh_tasks (prune seen es)) f)"
    if "prepare_a env = Inr a" "prepare_b a = Inr es"
      "rfold (mark_target env es) (q_targets env) ([], []) = Inr (seen, tids)"
      "\<And>w es2. graph_ok es2 \<Longrightarrow> acyclic (dep_rel es2) \<Longrightarrow> fueled (f (w, es2))" for a es seen tids and f :: "_ \<Rightarrow> 'z res"
  proof -
    note A = active_tasks_result(1,2) [OF that(1-3)]
    show ?thesis
    proof (rule fueled_rbind_Inr [OF fueled_weigh_tasks [OF A]])
      fix x assume r: "weigh_tasks (prune seen es) = Inr x"
      obtain w es2 where x: "x = (w, es2)" by (cases x)
      from weigh_tasks_result(1,2) [OF A r [unfolded x]] show "fueled (f x)" unfolding x by (rule that(4))
    qed
  qed
  show ?thesis
    unfolding prepare_def Let_def
    by (rule fueled_if, rule fueled_basic, rule fueled_rbind_Inr [OF fueled_a], rule fueled_rbind_Inr [OF fueled_b],
        rule fueled_rbind_Inr [OF fueled_rfold [OF fueled_mark]], simp only: split_paired_all prod.case, rule fueled_if,
        intro fueled_rules, erule (2) rest, simp only: prod.case, intro fueled_rules fueled_hashes)
qed

section \<open>Properties\<close>

text \<open>
  Two recipes: \<open>x\<close> depends on \<open>l\<close>, its task \<open>do_c\<close> on the \<open>do_c\<close> of its
  dependencies, and its task \<open>do_all\<close> on every \<open>do_c\<close> below.
\<close>

definition env_example :: rq_env where
  "env_example = (let e = \<lparr>tdepends = [], idepends = [], irdepends = []\<rparr> in
     \<lparr>q_taskData = [('''', (init_taskdata False True [] False)\<lparr>
        build_targets := [(''x'', [''x.bb'']), (''l'', [''l.bb''])],
        taskentries := [(''x.bb:do_c'', e), (''x.bb:do_all'', e\<lparr>tdepends := [''x.bb:do_c'']\<rparr>),
          (''l.bb:do_c'', e), (''l.bb:do_d'', e)],
        depids := [(''x.bb'', [''l'']), (''l.bb'', [])], rdepids := [(''x.bb'', []), (''l.bb'', [])]\<rparr>)],
      q_dataCaches = [('''', init_cacheData\<lparr>
        cd_task_deps := [(''x.bb'', \<lparr>tasks = [''do_c'', ''do_all''], parents = [],
            tflags = [(''deptask'', [(''do_c'', ''do_c'')]), (''recrdeptask'', [(''do_all'', ''do_c'')])]\<rparr>),
          (''l.bb'', \<lparr>tasks = [''do_c'', ''do_d''], parents = [], tflags = []\<rparr>)],
        pkg_fn := [(''x.bb'', ''x''), (''l.bb'', ''l'')],
        fn_provides := [(''x.bb'', [''x'']), (''l.bb'', [''l''])]\<rparr>)],
      q_targets = [('''', ''x'', ''do_all'', ''x.bb'')], q_stampwhitelist = [], q_multi_provider_whitelist = [],
      q_nosetscene = False, q_force = False, q_invalidate_stamp = []\<rparr>)"

definition hash_example :: taskhash where
  "hash_example taskfn taskname procdep dc = taskfn @ taskname"

text \<open>
  C2. What the preparation hands to the execution: the dependencies of the tasks form a graph
  without cycles, closed, with the reverse dependencies that belong to it; the weights solve
  its equations; and every task has the hash that the signature generator calculates from its
  dependencies.
\<close>

theorem prepare_correct:
  assumes "prepare get_taskhash env = Inr (n, s)"
  shows "n = length (runtaskentries s) \<and> graph_ok (runtaskentries s) \<and> acyclic (dep_rel (runtaskentries s)) \<and>
    weights_solve (runtaskentries s) (task_weight (runtaskentries s)) \<and>
    (\<forall>t \<in> set (keys (runtaskentries s)). hashed get_taskhash env (runtaskentries s) t)"
proof (cases "n = 0")
  case True
  with assms have "runtaskentries s = []" using prepare_none by blast
  with True show ?thesis
    by (simp add: graph_ok_def keys_def deps_of_def rdeps_of_def dep_rel_def acyclic_def weights_solve_def)
next
  case False
  obtain a es where "prepare_a env = Inr a" "prepare_b a = Inr es" by (rule prepare_parts [OF assms False])
  from prepare_result [OF this assms False] show ?thesis by blast
qed

lemma prepare_correct_witness:
  "\<exists>s. prepare hash_example env_example = Inr (3, s) \<and> keys (runtaskentries s) = [''x.bb:do_c'', ''x.bb:do_all'', ''l.bb:do_c''] \<and>
    acyclic (dep_rel (runtaskentries s))"
proof -
  have "case prepare hash_example env_example of Inl e \<Rightarrow> False
    | Inr (n, s) \<Rightarrow> n = 3 \<and> keys (runtaskentries s) = [''x.bb:do_c'', ''x.bb:do_all'', ''l.bb:do_c'']" by code_simp
  then obtain s where s: "prepare hash_example env_example = Inr (3, s)"
    "keys (runtaskentries s) = [''x.bb:do_c'', ''x.bb:do_all'', ''l.bb:do_c'']"
    by (auto split: sum.splits)
  from prepare_correct [OF s(1)] s show ?thesis by blast
qed

text \<open>
  C1. The tasks that are run are exactly those that the tasks of the targets reach along the
  dependencies.  A task with \<open>recrdeptask\<close> depends on what it depended on before and on the
  named tasks of every file that is reached from it along the dependencies of those tasks; the
  tasks that name themselves and the task itself are left out.
\<close>

theorem prepare_tasks_exact:
  assumes "prepare_a env = Inr a" "prepare_b a = Inr es" "prepare get_taskhash env = Inr (n, s)" "n \<noteq> 0"
  shows "set (keys (runtaskentries s)) = (dep_rel es)\<^sup>* `` (\<Union>x \<in> set (q_targets env). target_starts env es x) \<and>
    (\<forall>t \<in> set (keys (runtaskentries s)). set (deps_of (runtaskentries s) t) = final_set a t)"
proof -
  note R = prepare_result [OF assms]
  have "set (deps_of (runtaskentries s) t) = final_set a t" if "t \<in> set (keys (runtaskentries s))" for t
    using R(6) [OF that] prepare_b_result(3) [OF assms(1,2)] R(7) that by fastforce
  with R(5) show ?thesis by blast
qed

lemma prepare_tasks_exact_witness:
  "\<exists>a es s. prepare_a env_example = Inr a \<and> prepare_b a = Inr es \<and> prepare hash_example env_example = Inr (3, s) \<and>
    final_set a ''x.bb:do_all'' = {''x.bb:do_c'', ''l.bb:do_c''}"
proof -
  have r: "case prepare_a env_example of Inl e \<Rightarrow> False | Inr a \<Rightarrow> (case prepare_b a of Inl e \<Rightarrow> False
    | Inr es \<Rightarrow> (case prepare hash_example env_example of Inl e \<Rightarrow> False
        | Inr (n, s) \<Rightarrow> n = 3 \<and> ''x.bb:do_all'' \<in> set (keys (runtaskentries s)) \<and>
            deps_of (runtaskentries s) ''x.bb:do_all'' = [''x.bb:do_c'', ''l.bb:do_c'']))" by code_simp
  then obtain a where a: "prepare_a env_example = Inr a" by (cases "prepare_a env_example") auto
  from r a obtain es where es: "prepare_b a = Inr es" by (cases "prepare_b a") auto
  from r a es obtain s where s: "prepare hash_example env_example = Inr (3, s)" "''x.bb:do_all'' \<in> set (keys (runtaskentries s))"
    "deps_of (runtaskentries s) ''x.bb:do_all'' = [''x.bb:do_c'', ''l.bb:do_c'']"
    by (auto split: sum.splits)
  have "(3 :: nat) \<noteq> 0" by simp
  from prepare_tasks_exact [OF a es s(1) this] s(2,3)
  have "final_set a ''x.bb:do_all'' = set [''x.bb:do_c'', ''l.bb:do_c'']" by metis
  with a es s(1) show ?thesis by (intro exI conjI) simp_all
qed

text \<open>
  C34. The preparation ends for every task data: the search for circular dependencies is not
  deeper than there are tasks, and calculating the hashes needs no more passes than tasks.
\<close>

theorem prepare_ends: "prepare get_taskhash env \<noteq> Inl OutOfFuel"
  using prepare_fueled unfolding fueled_def .

end
