(* ===== verification/Py_Glob.thy ===== *)
theory Py_Glob
  imports Py_Str
begin

text \<open>
  Shell patterns as in the modules \<open>fnmatch\<close> and \<open>glob\<close> of the standard
  library: \<open>fnmatch\<close> selects tasks by name, \<open>glob\<close> selects stamp files by path.
\<close>

section \<open>Patterns\<close>

datatype pat_item = AnyString | AnyChar | CharSet bool string | Exactly char

text \<open>
  What follows an opening bracket: negated or not, the characters and the rest of the pattern.
  A bracket without its end stands for itself.
\<close>

definition bracket :: "string \<Rightarrow> (bool \<times> string \<times> string) option" where
  "bracket s =
     (let neg = startswith s ''!''; s1 = (if neg then tl s else s);
          lead = startswith s1 '']''; s2 = (if lead then tl s1 else s1);
          body = takeWhile (\<lambda>c. c \<noteq> CHR '']'') s2
      in if length body = length s2 then None
         else Some (neg, (if lead then CHR '']'' # body else body), drop (Suc (length body)) s2))"

lemma bracket_length: "bracket s = Some (neg, body, rest) \<Longrightarrow> length rest < Suc (length s)"
  unfolding bracket_def Let_def by (auto split: if_splits)

fun char_in :: "string \<Rightarrow> char \<Rightarrow> bool" where
  "char_in (a # b # c # s) x =
     (if b = CHR ''-'' then (a \<le> x \<and> x \<le> c) \<or> char_in s x else a = x \<or> char_in (b # c # s) x)"
| "char_in s x = (x \<in> set s)"

function pat_items :: "string \<Rightarrow> pat_item list" where
  "pat_items [] = []"
| "pat_items (c # s) =
     (if c = CHR ''*'' then AnyString # pat_items s
      else if c = CHR ''?'' then AnyChar # pat_items s
      else if c = CHR ''['' then
        (case bracket s of
           None \<Rightarrow> Exactly c # pat_items s
         | Some (neg, body, rest) \<Rightarrow> CharSet neg body # pat_items rest)
      else Exactly c # pat_items s)"
  by pat_completeness auto
termination
  by (relation "measure length") (auto dest: bracket_length)

fun pat_match :: "pat_item list \<Rightarrow> string \<Rightarrow> bool" where
  "pat_match [] s = (s = [])"
| "pat_match (AnyString # ps) [] = pat_match ps []"
| "pat_match (AnyString # ps) (c # s) = (pat_match ps (c # s) \<or> pat_match (AnyString # ps) s)"
| "pat_match (_ # ps) [] = False"
| "pat_match (AnyChar # ps) (c # s) = pat_match ps s"
| "pat_match (CharSet neg body # ps) (c # s) = (char_in body c \<noteq> neg \<and> pat_match ps s)"
| "pat_match (Exactly a # ps) (c # s) = (a = c \<and> pat_match ps s)"

text \<open>\<open>fnmatch.fnmatch(name, pattern)\<close>; on this platform case is not folded.\<close>

definition fnmatch :: "string \<Rightarrow> string \<Rightarrow> bool" where
  "fnmatch name pattern = pat_match (pat_items pattern) name"

definition magic :: "char \<Rightarrow> bool" where
  "magic c = (c \<in> set ''*?['')"

section \<open>Paths\<close>

text \<open>
  One part of a path: a pattern does not match a name with a leading dot unless it has one too;
  a part without special characters has to be the name itself.
\<close>

definition glob_part :: "string \<Rightarrow> string \<Rightarrow> bool" where
  "glob_part pattern name =
     (if list_ex magic pattern
      then name \<noteq> [] \<and> (startswith name ''.'' \<longrightarrow> startswith pattern ''.'') \<and> fnmatch name pattern
      else name = pattern)"

definition glob_match :: "string \<Rightarrow> string \<Rightarrow> bool" where
  "glob_match pattern path = list_all2 glob_part (split_on CHR ''/'' pattern) (split_on CHR ''/'' path)"

text \<open>\<open>glob.glob(pattern)\<close> on the paths of the files there are.\<close>

definition glob :: "string list \<Rightarrow> string \<Rightarrow> string list" where
  "glob paths pattern = filter (glob_match pattern) paths"

section \<open>Lemmas\<close>

lemma pat_match_AnyString: "pat_match (AnyString # ps) s \<longleftrightarrow> (\<exists>a b. s = a @ b \<and> pat_match ps b)"
proof (induction s)
  case (Cons c s)
  have "(\<exists>a b. c # s = a @ b \<and> pat_match ps b) \<longleftrightarrow> pat_match ps (c # s) \<or> (\<exists>a b. s = a @ b \<and> pat_match ps b)"
    by (metis append_Cons append_Nil append_eq_Cons_conv)
  with Cons show ?case by simp
qed simp

lemma pat_match_exactly: "pat_match (map Exactly p @ ps) s \<longleftrightarrow> (\<exists>b. s = p @ b \<and> pat_match ps b)"
proof (induction p arbitrary: s)
  case (Cons c p)
  then show ?case by (cases s) auto
qed simp

lemma pat_items_plain: "\<not> list_ex magic p \<Longrightarrow> pat_items (p @ s) = map Exactly p @ pat_items s"
  by (induction p) (auto simp: magic_def)

text \<open>A name without special characters matches itself only, a star stands for any text.\<close>

lemma fnmatch_plain [py_str]: "\<not> list_ex magic p \<Longrightarrow> fnmatch s p \<longleftrightarrow> s = p"
  using pat_items_plain [of p "[]"] pat_match_exactly [of p "[]"] by (simp add: fnmatch_def)

lemma fnmatch_star [py_str]:
  assumes "\<not> list_ex magic p" "\<not> list_ex magic q"
  shows "fnmatch s (p @ CHR ''*'' # q) \<longleftrightarrow> (\<exists>m. s = p @ m @ q)"
proof -
  have "pat_items (p @ CHR ''*'' # q) = map Exactly p @ AnyString # map Exactly q @ []"
    using pat_items_plain [OF assms(1)] pat_items_plain [OF assms(2), of "[]"] by simp
  then show ?thesis
    unfolding fnmatch_def by (simp only: pat_match_exactly pat_match_AnyString) auto
qed

lemma split_on_slash_plain: "\<not> list_ex magic p \<Longrightarrow> w \<in> set (split_on c p) \<Longrightarrow> \<not> list_ex magic w"
proof (induction p arbitrary: w)
  case (Cons x p)
  then show ?case by (auto split: if_splits list.splits)
qed simp

lemma glob_match_plain [py_str]:
  assumes "\<not> list_ex magic p"
  shows "glob_match p path \<longleftrightarrow> path = p"
proof -
  have "list_all2 glob_part (split_on CHR ''/'' p) ws \<longleftrightarrow> ws = split_on CHR ''/'' p" for ws
  proof -
    have "list_all2 glob_part vs ws \<longleftrightarrow> ws = vs" if "\<forall>w \<in> set vs. \<not> list_ex magic w" for vs
      using that by (induction vs arbitrary: ws) (auto simp: glob_part_def list_all2_Cons1)
    with split_on_slash_plain [OF assms] show ?thesis by blast
  qed
  then show ?thesis unfolding glob_match_def by (metis join_split_on)
qed

lemma set_glob [simp]: "set (glob paths p) = {f \<in> set paths. glob_match p f}"
  by (auto simp: glob_def)

end
