(* ===== verification/Build_Stamps.thy ===== *)
theory Build_Stamps
  imports Cache_Data Py_Glob
begin

text \<open>
  Stamps and task lists of \<^verbatim>\<open>bitbake/lib/bb/build.py\<close>.  A stamp is an empty file
  whose time says when a task has run.  The name of the stamp comes from the signature generator,
  which the configuration chooses, so its two functions are a parameter; the generators of
  \<^verbatim>\<open>siggen.py\<close> are in \<open>Siggen\<close>.

  The files are a dictionary from paths to the time and the text of a file; \<open>now\<close> is the
  time at which an operation writes.  Creating the directories is not modelled.
\<close>

section \<open>Files and signature generators\<close>

type_synonym file_table = "(string \<times> int \<times> string) list"

definition unlink :: "string \<Rightarrow> file_table \<Rightarrow> file_table" where
  "unlink path fs = filter (\<lambda>(p, _). p \<noteq> path) fs"

definition get_timestamp :: "file_table \<Rightarrow> string \<Rightarrow> int option" where
  "get_timestamp fs path = map_option fst (map_of fs path)"

text \<open>\<open>bb.utils.remove(path)\<close>, without \<open>recurse\<close>: the path is a pattern.\<close>

definition remove_path :: "string \<Rightarrow> file_table \<Rightarrow> file_table" where
  "remove_path path fs = (if path = [] then fs else fold unlink (glob (keys fs) path) fs)"

text \<open>The arguments: stamp base, file name, task name, extra information.\<close>

record sig_gen =
  sg_stampfile :: "string \<Rightarrow> string \<Rightarrow> string \<Rightarrow> string \<Rightarrow> string res"
  sg_stampcleanmask :: "string \<Rightarrow> string \<Rightarrow> string \<Rightarrow> string \<Rightarrow> string res"

section \<open>Names of stamps\<close>

text \<open>
  The functions are called with the recipe cache and a file, or in a task with its data store
  and no file.  Then the variables and flags of the store are read; \<open>BB_FILENAME\<close>, which is
  set in every task, is the first argument of \<open>InTask\<close>.
\<close>

datatype stamp_ctx =
    Core cache_data string
  | InTask string "string \<Rightarrow> string option" "string \<Rightarrow> string \<Rightarrow> string option"

definition or_empty :: "string option \<Rightarrow> string" where
  "or_empty s = (case s of None \<Rightarrow> [] | Some x \<Rightarrow> x)"

definition taskflagname :: "string \<Rightarrow> string" where
  "taskflagname taskname = (if endswith taskname ''_setscene'' \<and> taskname \<noteq> ''do_setscene''
     then replace ''_setscene'' [] taskname else taskname)"

text \<open>
  The stamp base, the file and the extra information; \<open>clean\<close> selects the variable
  \<open>STAMPCLEAN\<close> instead of \<open>STAMP\<close>.
\<close>

definition stamp_parts :: "bool \<Rightarrow> string \<Rightarrow> stamp_ctx \<Rightarrow> (string \<times> string \<times> string) res" where
  "stamp_parts clean taskname ctx = (case ctx of
     Core dc file_name \<Rightarrow>
       if file_name = [] then Inl AttributeError
       else rbind (dget (if clean then cd_stampclean dc else cd_stamp dc) file_name) (\<lambda>stamp.
         rbind (dget (cd_stamp_extrainfo dc) file_name) (\<lambda>extra.
           Inr (stamp, file_name, or_empty (dget_or extra (taskflagname taskname) None))))
   | InTask file_name getVar getVarFlag \<Rightarrow>
       Inr (or_empty (getVar (if clean then ''STAMPCLEAN'' else ''STAMP'')), file_name,
         or_empty (getVarFlag (taskflagname taskname) ''stamp-extra-info'')))"

definition stamp_internal :: "sig_gen \<Rightarrow> string \<Rightarrow> stamp_ctx \<Rightarrow> bool \<Rightarrow> bool \<Rightarrow> string option res" where
  "stamp_internal sg taskname ctx baseonly noextra =
     rbind (stamp_parts False taskname ctx) (\<lambda>(stamp, file_name, extrainfo).
       if baseonly then Inr (Some stamp)
       else let extrainfo = (if noextra then [] else extrainfo) in
         if stamp = [] then Inr None
         else rbind (sg_stampfile sg stamp file_name taskname extrainfo) (\<lambda>path. Inr (Some path)))"

definition stamp_cleanmask_internal :: "sig_gen \<Rightarrow> string \<Rightarrow> stamp_ctx \<Rightarrow> string list res" where
  "stamp_cleanmask_internal sg taskname ctx =
     rbind (stamp_parts True taskname ctx) (\<lambda>(stamp, file_name, extrainfo).
       if stamp = [] then Inr []
       else rbind (sg_stampcleanmask sg stamp file_name taskname extrainfo) (\<lambda>cleanmask.
         let flag = taskflagname taskname in
         Inr [cleanmask, replace flag (flag @ ''_setscene'') cleanmask]))"

definition stampfile :: "sig_gen \<Rightarrow> string \<Rightarrow> stamp_ctx \<Rightarrow> bool \<Rightarrow> string option res" where
  "stampfile sg taskname ctx noextra = stamp_internal sg taskname ctx False noextra"

section \<open>Writing and deleting stamps\<close>

text \<open>Files with signatures and taint files stay.\<close>

definition preserved :: "string \<Rightarrow> bool" where
  "preserved name = (occurs name ''sigdata'' \<or> occurs name ''sigbasedata'' \<or> endswith name ''.taint'')"

definition clean_mask :: "string \<Rightarrow> file_table \<Rightarrow> file_table" where
  "clean_mask pattern fs = fold (\<lambda>name fs. if preserved name then fs else unlink name fs) (glob (keys fs) pattern) fs"

text \<open>The result has the call of \<open>dump_sigtask\<close>, if one is made: file, task, stamp base.\<close>

definition make_stamp :: "sig_gen \<Rightarrow> int \<Rightarrow> string \<Rightarrow> stamp_ctx \<Rightarrow> file_table \<Rightarrow>
    ((string \<times> string \<times> string) option \<times> file_table) res" where
  "make_stamp sg now task ctx fs =
     rbind (stamp_cleanmask_internal sg task ctx) (\<lambda>cleanmask.
     let fs = fold clean_mask cleanmask fs in
     rbind (stamp_internal sg task ctx False False) (\<lambda>stamp.
     let fs = (case stamp of
          None \<Rightarrow> fs
        | Some path \<Rightarrow> if path = [] then fs else dset path (now, []) (remove_path path fs)) in
     case ctx of
       Core _ _ \<Rightarrow> Inr (None, fs)
     | InTask file_name _ _ \<Rightarrow>
         if endswith task ''_setscene'' \<or> task = ''do_setscene'' then Inr (None, fs)
         else rbind (stamp_internal sg task ctx True False) (\<lambda>stampbase.
           Inr (Some (file_name, task, or_empty stampbase), fs))))"

definition del_stamp :: "sig_gen \<Rightarrow> string \<Rightarrow> stamp_ctx \<Rightarrow> file_table \<Rightarrow> file_table res" where
  "del_stamp sg task ctx fs = rbind (stamp_internal sg task ctx False False) (\<lambda>stamp.
     Inr (remove_path (or_empty stamp) fs))"

definition taint_path :: "string \<Rightarrow> string \<Rightarrow> string" where
  "taint_path stamp task = stamp @ ''.'' @ task @ ''.taint''"

definition write_taint :: "int \<Rightarrow> string \<Rightarrow> string \<Rightarrow> stamp_ctx \<Rightarrow> file_table \<Rightarrow> file_table res" where
  "write_taint now uuid task ctx fs =
     rbind (case ctx of
         Core dc file_name \<Rightarrow> if file_name = [] then Inl AttributeError else dget (cd_stamp dc) file_name
       | InTask _ getVar _ \<Rightarrow> (case getVar ''STAMP'' of None \<Rightarrow> Inl TypeError | Some s \<Rightarrow> Inr s)) (\<lambda>stamp.
       Inr (dset (taint_path stamp task) (now, uuid) fs))"

section \<open>The list of tasks of a recipe\<close>

text \<open>
  What the functions read and write of the data store: the variable \<open>__BBTASKS\<close>, the flag
  \<open>deps\<close> of the tasks and their other flags.
\<close>

record task_vars =
  tv_tasks :: "string list"
  tv_deps :: "(string \<times> string list) list"
  tv_flags :: "(string \<times> (string \<times> string) list) list"

definition task_prefix :: "string \<Rightarrow> string" where
  "task_prefix task = (if startswith task ''do_'' then task else ''do_'' @ task)"

definition deps_flag :: "task_vars \<Rightarrow> string \<Rightarrow> string list" where
  "deps_flag d task = dget_or (tv_deps d) task []"

definition set_flag :: "string \<Rightarrow> string \<Rightarrow> string \<Rightarrow> task_vars \<Rightarrow> task_vars" where
  "set_flag task flag v d = d\<lparr>tv_flags := dset task (dset flag v (dget_or (tv_flags d) task [])) (tv_flags d)\<rparr>"

definition del_flag :: "string \<Rightarrow> string \<Rightarrow> task_vars \<Rightarrow> task_vars" where
  "del_flag task flag d = (if task \<in> set (keys (tv_flags d))
     then d\<lparr>tv_flags := dset task (filter (\<lambda>(k, _). k \<noteq> flag) (dget_or (tv_flags d) task [])) (tv_flags d)\<rparr>
     else d)"

definition add_before :: "string \<Rightarrow> string \<Rightarrow> task_vars \<Rightarrow> task_vars" where
  "add_before task entry d = (let existing = deps_flag d entry in
     if task \<in> set existing then d else d\<lparr>tv_deps := dset entry (task # existing) (tv_deps d)\<rparr>)"

definition addtask :: "string \<Rightarrow> string option \<Rightarrow> string option \<Rightarrow> task_vars \<Rightarrow> task_vars" where
  "addtask task0 before after d =
     (let task = task_prefix task0;
          d = set_flag task ''task'' ''1'' d;
          d = d\<lparr>tv_tasks := sadd task (tv_tasks d)\<rparr>;
          existing = (case after of None \<Rightarrow> deps_flag d task | Some s \<Rightarrow> fold sadd (split_ws s) (deps_flag d task));
          d = d\<lparr>tv_deps := dset task existing (tv_deps d)\<rparr>
      in case before of None \<Rightarrow> d | Some s \<Rightarrow> fold (add_before task) (split_ws s) d)"

definition drop_dep :: "string \<Rightarrow> string \<Rightarrow> task_vars \<Rightarrow> task_vars" where
  "drop_dep task bbtask d = (let deps = deps_flag d bbtask in
     if task \<in> set deps then d\<lparr>tv_deps := dset bbtask (remove1 task deps) (tv_deps d)\<rparr> else d)"

definition deltask :: "string \<Rightarrow> task_vars \<Rightarrow> task_vars" where
  "deltask task0 d =
     (let task = task_prefix task0;
          d = (if task \<in> set (tv_tasks d)
               then del_flag task ''task'' (d\<lparr>tv_tasks := remove1 task (tv_tasks d)\<rparr>) else d);
          d = d\<lparr>tv_deps := filter (\<lambda>(k, _). k \<noteq> task) (tv_deps d)\<rparr>
      in fold (drop_dep task) (tv_tasks d) d)"

text \<open>
  \<open>add_tasks\<close> builds the table of task dependencies that goes into the recipe cache;
  \<open>expand\<close> stands for the expansion of variables.
\<close>

definition dep_flags :: "string list" where
  "dep_flags = [''depends'', ''rdepends'', ''deptask'', ''rdeptask'', ''recrdeptask'', ''recideptask'',
     ''nostamp'', ''fakeroot'', ''noexec'', ''umask'']"

definition getTask :: "(string \<Rightarrow> string) \<Rightarrow> (string \<times> string) list \<Rightarrow> string \<Rightarrow> string \<Rightarrow>
    (string \<times> (string \<times> string) list) list \<Rightarrow> (string \<times> (string \<times> string) list) list" where
  "getTask expand flags task name fl =
     (let fl = (if name \<in> set (keys fl) then fl else dset name [] fl)
      in case map_of flags name of
           None \<Rightarrow> fl
         | Some v \<Rightarrow> dset name (dset task (expand v) (dget_or fl name [])) fl)"

definition add_task_deps :: "(string \<Rightarrow> string) \<Rightarrow> string \<Rightarrow> task_deps \<times> task_vars \<Rightarrow> task_deps \<times> task_vars" where
  "add_task_deps expand task0 = (\<lambda>(td, d).
     let task = expand task0; d = set_flag task ''task'' ''1'' d;
         flags = dget_or (tv_flags d) task []
     in (td\<lparr>tasks := sadd task (tasks td), tflags := fold (getTask expand flags task) dep_flags (tflags td),
           parents := dset task (map expand (deps_flag d task)) (parents td)\<rparr>, d))"

definition build_task_deps :: "(string \<Rightarrow> string) \<Rightarrow> string list \<Rightarrow> task_deps option \<Rightarrow> task_vars \<Rightarrow> task_deps \<times> task_vars" where
  "build_task_deps expand tasklist old d = fold (add_task_deps expand) tasklist
     (case old of None \<Rightarrow> \<lparr>tasks = [], parents = [], tflags = []\<rparr> | Some td \<Rightarrow> td, d)"

section \<open>Lemmas on files\<close>

lemma map_of_unlink [simp]: "map_of (unlink p fs) f = (if f = p then None else map_of fs f)"
  by (simp add: unlink_def map_of_filter_key)

lemma map_of_unlink_all:
  "map_of (fold (\<lambda>name fs. if P name then fs else unlink name fs) names fs) f =
    (if f \<in> set names \<and> \<not> P f then None else map_of fs f)"
  by (induction names arbitrary: fs) auto

lemma map_of_not_key: "f \<notin> set (keys fs) \<Longrightarrow> map_of fs f = None"
  by (metis map_of_keys option.exhaust)

lemma map_of_clean_mask:
  "map_of (clean_mask m fs) f = (if glob_match m f \<and> \<not> preserved f then None else map_of fs f)"
  using map_of_not_key [of f fs] by (auto simp: clean_mask_def map_of_unlink_all)

lemma map_of_clean_masks:
  "map_of (fold clean_mask ms fs) f = (if (\<exists>m \<in> set ms. glob_match m f) \<and> \<not> preserved f then None else map_of fs f)"
  by (induction ms arbitrary: fs) (auto simp: map_of_clean_mask)

lemma map_of_remove_path:
  "map_of (remove_path p fs) f = (if p \<noteq> [] \<and> glob_match p f then None else map_of fs f)"
  using map_of_unlink_all [of "\<lambda>_. False" "glob (keys fs) p" fs f] map_of_not_key [of f fs]
  by (auto simp: remove_path_def)

text \<open>The files after a stamp has been made.\<close>

lemma make_stamp_files:
  assumes "make_stamp sg now task ctx fs = Inr (dump, fs')"
  obtains ms stamp where "stamp_cleanmask_internal sg task ctx = Inr ms"
    "stamp_internal sg task ctx False False = Inr stamp"
    "\<And>f. map_of fs' f = (if stamp = Some f \<and> f \<noteq> [] then Some (now, [])
       else if (\<exists>m \<in> set ms. glob_match m f) \<and> \<not> preserved f \<or> (\<exists>p. stamp = Some p \<and> p \<noteq> [] \<and> glob_match p f)
         then None
       else map_of fs f)"
proof -
  obtain ms stamp where ms: "stamp_cleanmask_internal sg task ctx = Inr ms"
    and st: "stamp_internal sg task ctx False False = Inr stamp"
    and fs': "fs' = (case stamp of None \<Rightarrow> fold clean_mask ms fs
      | Some path \<Rightarrow> if path = [] then fold clean_mask ms fs
          else dset path (now, []) (remove_path path (fold clean_mask ms fs)))"
    using assms unfolding make_stamp_def Let_def
    by (cases ctx) (auto simp: rbind_eq_Inr split: if_splits)
  show thesis
    by (rule that [OF ms st]) (auto simp: fs' map_of_remove_path map_of_clean_masks split: option.splits)
qed

section \<open>Lemmas on the list of tasks\<close>

definition task_vars_ok :: "task_vars \<Rightarrow> bool" where
  "task_vars_ok d \<longleftrightarrow> distinct (tv_tasks d) \<and> (\<forall>t. distinct (deps_flag d t))"

lemma deps_flag_simps [simp]:
  "deps_flag (set_flag t f v d) x = deps_flag d x"
  "deps_flag (del_flag t f d) x = deps_flag d x"
  "deps_flag (d\<lparr>tv_tasks := ts\<rparr>) x = deps_flag d x"
  "tv_tasks (set_flag t f v d) = tv_tasks d"
  "tv_tasks (del_flag t f d) = tv_tasks d"
  "deps_flag (d\<lparr>tv_deps := dset t l (tv_deps d)\<rparr>) x = (if x = t then l else deps_flag d x)"
  by (simp_all add: deps_flag_def set_flag_def del_flag_def)

lemma set_fold_sadd: "set (fold sadd xs ys) = set xs \<union> set ys"
  by (induction xs arbitrary: ys) auto

lemma distinct_fold_sadd: "distinct (fold sadd xs ys) = distinct ys"
  by (induction xs arbitrary: ys) auto

lemma add_before_result [simp]:
  "tv_tasks (add_before t entry d) = tv_tasks d"
  "set (deps_flag (add_before t entry d) x) = set (deps_flag d x) \<union> (if x = entry then {t} else {})"
  "distinct (deps_flag d x) \<Longrightarrow> distinct (deps_flag (add_before t entry d) x)"
  by (auto simp: add_before_def Let_def)

lemma add_befores_result:
  "tv_tasks (fold (add_before t) es d) = tv_tasks d"
  "set (deps_flag (fold (add_before t) es d) x) = set (deps_flag d x) \<union> (if x \<in> set es then {t} else {})"
  "distinct (deps_flag d x) \<Longrightarrow> distinct (deps_flag (fold (add_before t) es d) x)"
  by (induction es arbitrary: d) auto

lemma drop_dep_result [simp]:
  "tv_tasks (drop_dep t u d) = tv_tasks d"
  "deps_flag (drop_dep t u d) x = (if x = u then remove1 t (deps_flag d x) else deps_flag d x)"
  by (auto simp: drop_dep_def Let_def remove1_idem)

lemma drop_deps_result:
  "tv_tasks (fold (drop_dep t) us d) = tv_tasks d"
  "distinct us \<Longrightarrow> deps_flag (fold (drop_dep t) us d) x = (if x \<in> set us then remove1 t (deps_flag d x) else deps_flag d x)"
  by (induction us arbitrary: d) auto

text \<open>The words of an optional argument.\<close>

definition words_of :: "string option \<Rightarrow> string list" where
  "words_of s = (case s of None \<Rightarrow> [] | Some w \<Rightarrow> split_ws w)"

lemma addtask_result:
  "set (tv_tasks (addtask t before after d)) = insert (task_prefix t) (set (tv_tasks d))"
  "set (deps_flag (addtask t before after d) x) = set (deps_flag d x) \<union>
     (if x = task_prefix t then set (words_of after) else {}) \<union>
     (if x \<in> set (words_of before) then {task_prefix t} else {})"
  "task_vars_ok d \<Longrightarrow> task_vars_ok (addtask t before after d)"
proof -
  let ?d1 = "set_flag (task_prefix t) ''task'' ''1'' d"
  let ?ex = "case after of None \<Rightarrow> deps_flag d (task_prefix t) | Some s \<Rightarrow> fold sadd (split_ws s) (deps_flag d (task_prefix t))"
  let ?d2 = "?d1\<lparr>tv_tasks := sadd (task_prefix t) (tv_tasks d)\<rparr>"
  let ?d3 = "?d2\<lparr>tv_deps := dset (task_prefix t) ?ex (tv_deps ?d2)\<rparr>"
  have eq: "addtask t before after d = fold (add_before (task_prefix t)) (words_of before) ?d3"
    by (simp add: addtask_def Let_def words_of_def split: option.split)
  have d3: "deps_flag ?d3 x = (if x = task_prefix t then ?ex else deps_flag d x)" for x
    by (subst deps_flag_simps(6)) simp
  have ex: "set ?ex = set (words_of after) \<union> set (deps_flag d (task_prefix t))"
    "distinct (deps_flag d (task_prefix t)) \<Longrightarrow> distinct ?ex"
    by (auto simp: words_of_def set_fold_sadd distinct_fold_sadd split: option.split)
  show "set (tv_tasks (addtask t before after d)) = insert (task_prefix t) (set (tv_tasks d))"
    unfolding eq add_befores_result by simp
  show "set (deps_flag (addtask t before after d) x) = set (deps_flag d x) \<union>
     (if x = task_prefix t then set (words_of after) else {}) \<union>
     (if x \<in> set (words_of before) then {task_prefix t} else {})"
    unfolding eq add_befores_result(2) d3 using ex(1) by auto
  assume ok: "task_vars_ok d"
  have "distinct (deps_flag ?d3 x)" for x
    unfolding d3 using ok ex(2) unfolding task_vars_ok_def by simp
  then have "distinct (deps_flag (addtask t before after d) x)" for x
    unfolding eq by (rule add_befores_result(3))
  moreover have "distinct (tv_tasks (addtask t before after d))"
    unfolding eq add_befores_result(1) using ok by (simp add: task_vars_ok_def)
  ultimately show "task_vars_ok (addtask t before after d)" unfolding task_vars_ok_def by blast
qed

lemma deltask_result:
  assumes "task_vars_ok d"
  shows "set (tv_tasks (deltask t d)) = set (tv_tasks d) - {task_prefix t}"
    "deps_flag (deltask t d) x = (if x = task_prefix t then []
       else if x \<in> set (tv_tasks d) then remove1 (task_prefix t) (deps_flag d x) else deps_flag d x)"
    "task_vars_ok (deltask t d)"
proof -
  let ?t = "task_prefix t"
  let ?d1 = "if ?t \<in> set (tv_tasks d) then del_flag ?t ''task'' (d\<lparr>tv_tasks := remove1 ?t (tv_tasks d)\<rparr>) else d"
  let ?d2 = "?d1\<lparr>tv_deps := filter (\<lambda>(k, _). k \<noteq> ?t) (tv_deps ?d1)\<rparr>"
  have eq: "deltask t d = fold (drop_dep ?t) (tv_tasks ?d2) ?d2"
    by (simp add: deltask_def Let_def)
  have ts: "tv_tasks ?d2 = remove1 ?t (tv_tasks d)" by (simp add: remove1_idem)
  have dist: "distinct (tv_tasks d)" using assms by (simp add: task_vars_ok_def)
  have d2: "deps_flag ?d2 x = (if x = ?t then [] else deps_flag d x)" for x
    by (auto simp: deps_flag_def dget_or_def del_flag_def map_of_filter_key)
  have tasks: "tv_tasks (deltask t d) = remove1 ?t (tv_tasks d)"
    unfolding eq drop_deps_result(1) by (rule ts)
  then show s: "set (tv_tasks (deltask t d)) = set (tv_tasks d) - {?t}" using dist by simp
  have deps: "deps_flag (deltask t d) x = (if x = ?t then []
       else if x \<in> set (tv_tasks d) then remove1 ?t (deps_flag d x) else deps_flag d x)" for x
  proof -
    have "distinct (tv_tasks ?d2)" unfolding ts using dist by simp
    from drop_deps_result(2) [OF this, of ?t ?d2 x] show ?thesis
      unfolding eq d2 unfolding ts using dist by simp
  qed
  then show "deps_flag (deltask t d) x = (if x = ?t then []
       else if x \<in> set (tv_tasks d) then remove1 ?t (deps_flag d x) else deps_flag d x)" .
  show "task_vars_ok (deltask t d)"
    using assms unfolding task_vars_ok_def tasks deps by simp
qed

section \<open>Lemmas on the task dependencies\<close>

lemma map_of_getTask:
  "(case map_of (getTask expand flags task name fl) f of None \<Rightarrow> None | Some d \<Rightarrow> map_of d t) =
    (if f = name \<and> t = task \<and> map_of flags name \<noteq> None then map_option expand (map_of flags name)
     else (case map_of fl f of None \<Rightarrow> None | Some d \<Rightarrow> map_of d t))"
  by (auto simp: getTask_def Let_def set_keys dget_or_def split: option.splits)

lemma map_of_getTasks:
  "distinct names \<Longrightarrow>
    (case map_of (fold (getTask expand flags task) names fl) f of None \<Rightarrow> None | Some d \<Rightarrow> map_of d t) =
    (if f \<in> set names \<and> t = task \<and> map_of flags f \<noteq> None then map_option expand (map_of flags f)
     else (case map_of fl f of None \<Rightarrow> None | Some d \<Rightarrow> map_of d t))"
  by (induction names arbitrary: fl) (auto simp: map_of_getTask)

text \<open>The flags of a task, except that it is a task.\<close>

definition flag_of :: "task_vars \<Rightarrow> string \<Rightarrow> string \<Rightarrow> string option" where
  "flag_of d task f = map_of (dget_or (tv_flags d) task []) f"

lemma flag_of_set_flag [simp]: "flag_of (set_flag u ''task'' v d) t f =
    (if t = u \<and> f = ''task'' then Some v else flag_of d t f)"
  by (simp add: flag_of_def set_flag_def)

lemma dep_flags_distinct: "distinct dep_flags" "''task'' \<notin> set dep_flags"
  by (simp_all add: dep_flags_def)

lemma add_task_deps_result:
  assumes "add_task_deps expand u (td, d) = (td', d')"
  shows "set (tasks td') = insert (expand u) (set (tasks td))"
    "map_of (parents td') = (map_of (parents td))(expand u \<mapsto> map expand (deps_flag d (expand u)))"
    "f \<in> set dep_flags \<Longrightarrow> task_flag td' f t = (if t = expand u \<and> flag_of d t f \<noteq> None
       then map_option expand (flag_of d t f) else task_flag td f t)"
    "deps_flag d' = deps_flag d" "f \<noteq> ''task'' \<Longrightarrow> flag_of d' t f = flag_of d t f"
    "distinct (tasks td') = distinct (tasks td)"
proof -
  let ?d1 = "set_flag (expand u) ''task'' ''1'' d"
  have d': "d' = ?d1"
    and td': "td' = td\<lparr>tasks := sadd (expand u) (tasks td),
      tflags := fold (getTask expand (dget_or (tv_flags ?d1) (expand u) []) (expand u)) dep_flags (tflags td),
      parents := dset (expand u) (map expand (deps_flag ?d1 (expand u))) (parents td)\<rparr>"
    using assms unfolding add_task_deps_def Let_def prod.case prod.inject by blast+
  show "set (tasks td') = insert (expand u) (set (tasks td))" "distinct (tasks td') = distinct (tasks td)"
    "map_of (parents td') = (map_of (parents td))(expand u \<mapsto> map expand (deps_flag d (expand u)))"
    unfolding td' by simp_all
  show "deps_flag d' = deps_flag d" "f \<noteq> ''task'' \<Longrightarrow> flag_of d' t f = flag_of d t f"
    unfolding d' by auto
  assume f: "f \<in> set dep_flags"
  then have ne: "f \<noteq> ''task''" using dep_flags_distinct(2) by blast
  have "flag_of ?d1 t f = flag_of d t f" using ne by simp
  then have eq: "map_of (dget_or (tv_flags ?d1) t []) f = flag_of d t f" unfolding flag_of_def .
  show "task_flag td' f t = (if t = expand u \<and> flag_of d t f \<noteq> None
       then map_option expand (flag_of d t f) else task_flag td f t)"
    using map_of_getTasks [OF dep_flags_distinct(1), where expand = expand and
      flags = "dget_or (tv_flags ?d1) (expand u) []" and task = "expand u" and fl = "tflags td" and f = f and t = t] f eq
    unfolding td' task_flag_def by (cases "t = expand u") simp_all
qed

lemma build_task_deps_fold:
  "fold (add_task_deps expand) us (td, d) = (td', d') \<Longrightarrow>
    set (tasks td') = set (tasks td) \<union> expand ` set us \<and> (distinct (tasks td) \<longrightarrow> distinct (tasks td')) \<and>
    (\<forall>t. map_of (parents td') t = (if t \<in> expand ` set us then Some (map expand (deps_flag d t)) else map_of (parents td) t)) \<and>
    (\<forall>t. \<forall>f \<in> set dep_flags. task_flag td' f t = (if t \<in> expand ` set us \<and> flag_of d t f \<noteq> None
       then map_option expand (flag_of d t f) else task_flag td f t))"
proof (induction us arbitrary: td d)
  case Nil
  then show ?case by simp
next
  case (Cons u us)
  obtain td1 d1 where s: "add_task_deps expand u (td, d) = (td1, d1)" by fastforce
  note R = add_task_deps_result [OF s]
  have "fold (add_task_deps expand) us (td1, d1) = (td', d')" using Cons.prems s by simp
  note IH = Cons.IH [OF this]
  have fl: "flag_of d1 t f = flag_of d t f" if "f \<in> set dep_flags" for t f
    using R(5) that dep_flags_distinct(2) by metis
  have "map_of (parents td') t = (if t \<in> expand ` set (u # us) then Some (map expand (deps_flag d t)) else map_of (parents td) t)" for t
    using IH R(2,4) by simp
  moreover have "task_flag td' f t = (if t \<in> expand ` set (u # us) \<and> flag_of d t f \<noteq> None
       then map_option expand (flag_of d t f) else task_flag td f t)" if f: "f \<in> set dep_flags" for t f
    using IH R(3) [OF f, of t] fl [OF f, of t] f by auto
  ultimately show ?case using IH R(1,6) by auto
qed

section \<open>Properties\<close>

text \<open>Statements of a recipe that change its list of tasks.\<close>

datatype task_op = AddTask string "string option" "string option" | DelTask string

definition task_op_step :: "task_op \<Rightarrow> task_vars \<Rightarrow> task_vars" where
  "task_op_step op d = (case op of AddTask t before after \<Rightarrow> addtask t before after d | DelTask t \<Rightarrow> deltask t d)"

lemma task_op_ok: "task_vars_ok d \<Longrightarrow> task_vars_ok (task_op_step op d)"
  by (cases op) (simp_all add: task_op_step_def addtask_result(3) deltask_result(3))

lemma task_ops_ok: "task_vars_ok d \<Longrightarrow> task_vars_ok (fold task_op_step ops d)"
  by (induction ops arbitrary: d) (simp_all add: task_op_ok)

text \<open>
  C40. After any sequence of \<open>addtask\<close> and \<open>deltask\<close> statements no task is listed twice
  and no dependency is.  A task that is deleted then is no task, has no dependencies, and is
  removed from the dependencies of the tasks listed at that moment, and of those only: a task that
  was only named by another statement keeps it.  A task that is added then has exactly the old
  dependencies and those of its two arguments.
\<close>

theorem task_list_correct:
  assumes d: "d = fold task_op_step ops \<lparr>tv_tasks = [], tv_deps = [], tv_flags = []\<rparr>"
  shows "distinct (tv_tasks d) \<and> (\<forall>u. distinct (deps_flag d u)) \<and>
    set (tv_tasks (deltask t d)) = set (tv_tasks d) - {task_prefix t} \<and>
    (\<forall>u. set (deps_flag (deltask t d) u) = (if u = task_prefix t then {}
       else if u \<in> set (tv_tasks d) then set (deps_flag d u) - {task_prefix t} else set (deps_flag d u))) \<and>
    set (tv_tasks (addtask t before after d)) = insert (task_prefix t) (set (tv_tasks d)) \<and>
    (\<forall>u. set (deps_flag (addtask t before after d) u) = set (deps_flag d u) \<union>
       (if u = task_prefix t then set (words_of after) else {}) \<union>
       (if u \<in> set (words_of before) then {task_prefix t} else {}))"
proof -
  have ok: "task_vars_ok d"
    unfolding d by (rule task_ops_ok) (simp add: task_vars_ok_def deps_flag_def)
  then have dd: "distinct (tv_tasks d)" "distinct (deps_flag d u)" for u unfolding task_vars_ok_def by blast+
  then have "set (deps_flag (deltask t d) u) = (if u = task_prefix t then {}
       else if u \<in> set (tv_tasks d) then set (deps_flag d u) - {task_prefix t} else set (deps_flag d u))" for u
    using deltask_result(2) [OF ok, of t u] by simp
  with dd show ?thesis
    unfolding addtask_result deltask_result(1) [OF ok] by blast
qed

lemma task_list_correct_witness:
  "set (deps_flag (addtask ''b'' (Some ''do_c'') (Some ''do_a do_x'')
     (fold task_op_step [AddTask ''a'' None None, AddTask ''do_c'' None (Some ''do_a'')]
       \<lparr>tv_tasks = [], tv_deps = [], tv_flags = []\<rparr>)) ''do_c'') = {''do_a'', ''do_b''}"
proof -
  let ?d = "fold task_op_step [AddTask ''a'' None None, AddTask ''do_c'' None (Some ''do_a'')]
       \<lparr>tv_tasks = [], tv_deps = [], tv_flags = []\<rparr>"
  have "set (deps_flag ?d ''do_c'') = {''do_a''}" "words_of (Some ''do_c'') = [''do_c'']"
    "task_prefix ''b'' = ''do_b''" by code_simp+
  with task_list_correct [OF refl, where t = "''b''" and ops = "[AddTask ''a'' None None, AddTask ''do_c'' None (Some ''do_a'')]"
      and before = "Some ''do_c''" and after = "Some ''do_a do_x''"] show ?thesis by auto
qed

text \<open>
  The table of task dependencies of a recipe has its tasks once each, with the expanded
  dependencies and flags they have in the data store, and nothing else.
\<close>

theorem build_task_deps_correct:
  assumes "build_task_deps expand tasklist None d = (td, d')"
  shows "set (tasks td) = expand ` set tasklist \<and> distinct (tasks td) \<and>
    (\<forall>t. map_of (parents td) t = (if t \<in> set (tasks td) then Some (map expand (deps_flag d t)) else None)) \<and>
    (\<forall>t. \<forall>f \<in> set dep_flags. task_flag td f t =
       (if t \<in> set (tasks td) then map_option expand (flag_of d t f) else None))"
proof -
  have "fold (add_task_deps expand) tasklist (\<lparr>tasks = [], parents = [], tflags = []\<rparr>, d) = (td, d')"
    using assms by (simp add: build_task_deps_def)
  from build_task_deps_fold [OF this] show ?thesis by (auto simp: task_flag_def)
qed

lemma build_task_deps_correct_witness:
  "map_of (parents (fst (build_task_deps (\<lambda>s. s @ ''!'') [''do_a''] None
     \<lparr>tv_tasks = [''do_a!''], tv_deps = [(''do_a!'', [''do_b''])], tv_flags = []\<rparr>))) ''do_a!'' = Some [''do_b!'']"
proof -
  let ?d = "\<lparr>tv_tasks = [''do_a!''], tv_deps = [(''do_a!'', [''do_b''])], tv_flags = []\<rparr>"
  have e: "build_task_deps (\<lambda>s. s @ ''!'') [''do_a''] None ?d =
    (fst (build_task_deps (\<lambda>s. s @ ''!'') [''do_a''] None ?d), snd (build_task_deps (\<lambda>s. s @ ''!'') [''do_a''] None ?d))"
    by simp
  show ?thesis using build_task_deps_correct [OF e] by (simp add: deps_flag_def dget_or_def)
qed

text \<open>
  Making a stamp writes the stamp with the current time and removes exactly the files that the
  clean masks or the name of the stamp match, but no signature and no taint file unless it is
  matched by the name of the stamp.
\<close>

theorem make_stamp_correct:
  assumes "make_stamp sg now task ctx fs = Inr (dump, fs')"
  shows "\<exists>ms stamp. stamp_cleanmask_internal sg task ctx = Inr ms \<and> stamp_internal sg task ctx False False = Inr stamp \<and>
    (\<forall>f. map_of fs' f = (if stamp = Some f \<and> f \<noteq> [] then Some (now, [])
       else if (\<exists>m \<in> set ms. glob_match m f) \<and> \<not> preserved f \<or> (\<exists>p. stamp = Some p \<and> p \<noteq> [] \<and> glob_match p f)
         then None
       else map_of fs f))"
  by (rule make_stamp_files [OF assms]) blast

lemma make_stamp_correct_witness:
  "\<exists>dump fs'. make_stamp \<lparr>sg_stampfile = \<lambda>b f t e. Inr (b @ ''.'' @ t @ ''.2''), sg_stampcleanmask = \<lambda>b f t e. Inr (b @ ''.'' @ t @ ''.*'')\<rparr>
      7 ''do_a'' (Core (init_cacheData\<lparr>cd_stamp := [(''f'', ''s/f'')], cd_stampclean := [(''f'', ''s/f'')],
        cd_stamp_extrainfo := [(''f'', [])]\<rparr>) ''f'')
      [(''s/f.do_a.1'', 3, []), (''s/f.do_a.taint'', 3, []), (''s/f.do_b.1'', 4, [])] = Inr (dump, fs') \<and>
    map_of fs' ''s/f.do_a.2'' = Some (7, []) \<and> map_of fs' ''s/f.do_a.1'' = None \<and> map_of fs' ''s/f.do_b.1'' = Some (4, [])"
proof -
  let ?sg = "\<lparr>sg_stampfile = \<lambda>b f t e. Inr (b @ ''.'' @ t @ ''.2''), sg_stampcleanmask = \<lambda>b f t e. Inr (b @ ''.'' @ t @ ''.*'')\<rparr>"
  let ?ctx = "Core (init_cacheData\<lparr>cd_stamp := [(''f'', ''s/f'')], cd_stampclean := [(''f'', ''s/f'')],
        cd_stamp_extrainfo := [(''f'', [])]\<rparr>) ''f''"
  let ?fs = "[(''s/f.do_a.1'', 3 :: int, [] :: string), (''s/f.do_a.taint'', 3, []), (''s/f.do_b.1'', 4, [])]"
  have "case make_stamp ?sg 7 ''do_a'' ?ctx ?fs of Inl e \<Rightarrow> False | Inr _ \<Rightarrow> True" by code_simp
  then obtain dump fs' where r: "make_stamp ?sg 7 ''do_a'' ?ctx ?fs = Inr (dump, fs')" by (auto split: sum.splits)
  have ms: "stamp_cleanmask_internal ?sg ''do_a'' ?ctx = Inr [''s/f.do_a.*'', ''s/f.do_a_setscene.*'']"
    and st: "stamp_internal ?sg ''do_a'' ?ctx False False = Inr (Some ''s/f.do_a.2'')" by code_simp+
  have g: "glob_match ''s/f.do_a.*'' ''s/f.do_a.1''" "\<not> preserved ''s/f.do_a.1''"
    "\<not> glob_match ''s/f.do_a.*'' ''s/f.do_b.1''" "\<not> glob_match ''s/f.do_a_setscene.*'' ''s/f.do_b.1''"
    "\<not> glob_match ''s/f.do_a.2'' ''s/f.do_b.1''" by code_simp+
  from make_stamp_correct [OF r] ms st
  have e: "map_of fs' f = (if ''s/f.do_a.2'' = f then Some (7, [])
      else if (glob_match ''s/f.do_a.*'' f \<or> glob_match ''s/f.do_a_setscene.*'' f) \<and> \<not> preserved f \<or> glob_match ''s/f.do_a.2'' f
      then None else map_of ?fs f)" for f by auto
  have "map_of fs' ''s/f.do_a.2'' = Some (7, [])" "map_of fs' ''s/f.do_a.1'' = None" "map_of fs' ''s/f.do_b.1'' = Some (4, [])"
    unfolding e using g by simp_all
  with r show ?thesis by blast
qed

end
