(* ===== verification/Run_Queue_Exec.thy ===== *)
theory Run_Queue_Exec
  imports Run_Queue_Prepare Build_Stamps
begin

text \<open>
  The execution of the tasks, \<open>RunQueueExecute\<close> and \<open>RunQueueExecuteTasks\<close> of
  \<^verbatim>\<open>bitbake/lib/bb/runqueue.py\<close>, with \<open>check_stamp_task\<close> of \<open>RunQueue\<close>
  and the whitelist of setscene tasks.

  The workers are other processes.  A message to one is an entry of \<open>x_sent\<close>; what the
  workers send is an argument of the operations that read, a list of \<open>worker_msg\<close>.  The
  objects \<open>rq\<close>, \<open>rqdata\<close> and \<open>rqexe\<close> share their attributes, so what
  changes of them during the execution is one record \<open>exec_state\<close>; what does not change is
  \<open>exec_env\<close>.  Events for the user interface and log messages are not modelled.
\<close>

section \<open>State\<close>

datatype rq_phase =
    runQueuePrepare
  | runQueueSceneInit
  | runQueueSceneRun
  | runQueueRunInit
  | runQueueRunning
  | runQueueFailed
  | runQueueCleanUp
  | runQueueComplete

text \<open>
  \<open>x_fakeworker_starts\<close> says whether starting the workers for fakeroot succeeds;
  \<open>x_setsceneverify\<close> is the function of the metadata named by
  \<open>BB_SETSCENE_VERIFY_FUNCTION2\<close>: from the covered tasks, the names and files of the tasks
  and the list of invalid tasks it returns the tasks to run anyway.
\<close>

record exec_env =
  x_rq :: rq_env
  x_data :: rqdata
  x_siggen :: sig_gen
  x_stamppolicy :: string
  x_number_tasks :: int
  x_scheduler :: string
  x_dry_run :: bool
  x_setscenewhitelist :: "string list option"
  x_fakeworker_starts :: bool
  x_setsceneverify :: "(string list \<Rightarrow> (string \<times> string) list \<Rightarrow> (string \<times> string) list \<Rightarrow> string list \<Rightarrow> string list) option"

text \<open>What a task gets to know of a task it depends on: name, task, file, dependencies, provides.\<close>

type_synonym task_dep_data = "(string \<times> string \<times> string \<times> string \<times> string list \<times> string list) list"

record exec_state =
  x_entries :: run_tasks
  x_phase :: rq_phase
  x_covered :: "string list"
  x_buildable :: "string list"
  x_running :: "string list"
  x_complete :: "string list"
  x_build_stamps :: "(string \<times> string option) list"
  x_build_stamps2 :: "string option list"
  x_failed :: "string list"
  x_stampcache :: "(string \<times> bool) list"
  x_stats :: rq_stats
  x_sched :: scheduler
  x_whitelist_checked :: bool
  x_fakeworker :: bool
  x_sent :: "(bool \<times> string \<times> task_dep_data) list"
  x_files :: file_table

text \<open>The values that \<open>execute\<close> and \<open>finish\<close> return: true, a list of pipes, none, false.\<close>

datatype rq_ret = RTrue | RFds | RNone | RFalse

datatype worker_msg = ExitCode string int | WorkerDied

section \<open>Stamps of tasks\<close>

definition task_stamp :: "exec_env \<Rightarrow> string \<Rightarrow> string \<Rightarrow> string \<Rightarrow> bool \<Rightarrow> string option res" where
  "task_stamp env mc taskfn taskname noextra =
     rbind (dget (q_dataCaches (x_rq env)) mc) (\<lambda>dc. stampfile (x_siggen env) taskname (Core dc taskfn) noextra)"

text \<open>\<open>get_timestamp\<close>: none for a missing file and for no path.\<close>

definition stamp_time :: "file_table \<Rightarrow> string option \<Rightarrow> int option" where
  "stamp_time fs path = (case path of None \<Rightarrow> None | Some p \<Rightarrow> get_timestamp fs p)"

definition truthy :: "int option \<Rightarrow> bool" where
  "truthy t = (t \<noteq> None \<and> t \<noteq> Some 0)"

text \<open>
  What the stamp of a dependency says: it does not count, the task is not current, or the task
  is current as far as this dependency is concerned.
\<close>

datatype dep_verdict = Ignored | Stale | Older

definition dep_check :: "exec_env \<Rightarrow> file_table \<Rightarrow> int \<Rightarrow> string \<Rightarrow> string list option \<Rightarrow> string \<Rightarrow> dep_verdict res" where
  "dep_check env fs t1 fn whitelist dep =
     rbind (split_tid_mcfn dep) (\<lambda>(mc2, fn2, taskname2, taskfn2).
     rbind (task_stamp env mc2 taskfn2 taskname2 False) (\<lambda>stampfile2.
     rbind (task_stamp env mc2 taskfn2 (taskname2 @ ''_setscene'') False) (\<lambda>stampfile3.
       let t2 = stamp_time fs stampfile2; t3 = stamp_time fs stampfile3 in
       Inr (if truthy t3 \<and> \<not> truthy t2 then Ignored
         else if truthy t3 \<and> the t3 > the t2 then Ignored
         else if fn = fn2 \<or> (case whitelist of None \<Rightarrow> False | Some w \<Rightarrow> fn2 \<notin> set w)
              then (if \<not> truthy t2 then Stale else if t1 < the t2 then Stale else Older)
         else Ignored))))"

fun stamp_loop :: "(string \<Rightarrow> (string \<times> bool) list \<Rightarrow> (bool \<times> (string \<times> bool) list) res) \<Rightarrow>
    (string \<Rightarrow> dep_verdict res) \<Rightarrow> bool \<Rightarrow> string list \<Rightarrow> (string \<times> bool) list \<Rightarrow>
    (bool \<times> (string \<times> bool) list) res" where
  "stamp_loop check verdict recurse [] cache = Inr (True, cache)"
| "stamp_loop check verdict recurse (dep # deps) cache = rbind (verdict dep) (\<lambda>v. case v of
     Ignored \<Rightarrow> stamp_loop check verdict recurse deps cache
   | Stale \<Rightarrow> Inr (False, cache)
   | Older \<Rightarrow>
       if \<not> recurse then stamp_loop check verdict recurse deps cache
       else rbind (case map_of cache dep of
            Some b \<Rightarrow> Inr (b, cache)
          | None \<Rightarrow> rbind (check dep cache) (\<lambda>(b, cache). Inr (b, dset dep b cache))) (\<lambda>(b, cache).
         if b then stamp_loop check verdict recurse deps cache else Inr (False, cache)))"

text \<open>
  \<open>check_stamp_task\<close>.  With the policy \<open>perfile\<close> only dependencies in the same file
  count.  The recursion follows the dependencies, so it is not deeper than there are tasks.
\<close>

fun check_stamp_task :: "nat \<Rightarrow> exec_env \<Rightarrow> file_table \<Rightarrow> run_tasks \<Rightarrow> bool \<Rightarrow> string \<Rightarrow> string option \<Rightarrow>
    (string \<times> bool) list \<Rightarrow> (bool \<times> (string \<times> bool) list) res" where
  "check_stamp_task 0 env fs es recurse tid name cache = Inl OutOfFuel"
| "check_stamp_task (Suc n) env fs es recurse tid name cache =
     rbind (split_tid_mcfn tid) (\<lambda>(mc, fn, tn, taskfn).
     let taskname = (case name of None \<Rightarrow> tn | Some t \<Rightarrow> t) in
     rbind (if x_stamppolicy env = ''perfile'' then Inr None
            else if x_stamppolicy env = ''whitelist''
            then rbind (dget (stampfnwhitelist (x_data env)) mc) (\<lambda>w. Inr (Some w))
            else Inr (Some [])) (\<lambda>whitelist.
     rbind (task_stamp env mc taskfn taskname False) (\<lambda>path.
     case path of
       None \<Rightarrow> Inl TypeError
     | Some p \<Rightarrow> (case get_timestamp fs p of
         None \<Rightarrow> Inr (False, cache)
       | Some t1 \<Rightarrow>
           rbind (dget (q_dataCaches (x_rq env)) mc) (\<lambda>dc.
           rbind (dget (cd_task_deps dc) taskfn) (\<lambda>taskdep.
             if task_flag taskdep ''nostamp'' taskname \<noteq> None then Inr (False, cache)
             else if taskname \<noteq> ''do_setscene'' \<and> endswith taskname ''_setscene'' then Inr (True, cache)
             else rbind (dget es tid) (\<lambda>e.
               rbind (stamp_loop (\<lambda>dep cache. check_stamp_task n env fs es True dep None cache)
                   (dep_check env fs t1 fn whitelist) recurse (rt_depends e) cache) (\<lambda>(iscurrent, cache).
                 Inr (iscurrent, if recurse then dset tid iscurrent cache else cache)))))))))"

text \<open>The call with the cache of the object, \<open>cache=self.stampcache\<close>.\<close>

definition check_stamp :: "exec_env \<Rightarrow> bool \<Rightarrow> string \<Rightarrow> string option \<Rightarrow> (exec_state, bool) sm" where
  "check_stamp env recurse tid name =
     sbind (sres (\<lambda>s. check_stamp_task (Suc (length (x_entries s))) env (x_files s) (x_entries s) recurse tid name
         (x_stampcache s))) (\<lambda>(b, cache).
     sbind (supd (\<lambda>s. s\<lparr>x_stampcache := cache\<rparr>)) (\<lambda>_. sret b))"

section \<open>Whitelist of setscene tasks\<close>

text \<open>
  \<open>get_setscene_enforce_whitelist\<close>; \<open>args\<close> is the command line, and an item with a
  percent sign stands for its targets.
\<close>

definition get_setscene_enforce_whitelist :: "string list \<Rightarrow> string option \<Rightarrow> string option \<Rightarrow> string list option res" where
  "get_setscene_enforce_whitelist args enforce whitelist =
     (if enforce \<noteq> Some ''1'' then Inr None
      else rbind (rfold (\<lambda>it outlist.
          if startswith it ''%:''
          then rfold (\<lambda>target outlist. if startswith target ''-'' then Inr outlist
                 else rbind (item (split_on CHR '':'' it) 1) (\<lambda>t.
                   Inr (outlist @ [split_on CHR '':'' target ! 0 @ '':'' @ t]))) (drop 1 args) outlist
          else Inr (outlist @ [it])) (split_ws (or_empty whitelist)) []) (\<lambda>outlist. Inr (Some outlist)))"

definition check_setscene_enforce_whitelist :: "string \<Rightarrow> string \<Rightarrow> string list option \<Rightarrow> bool" where
  "check_setscene_enforce_whitelist pn taskname whitelist = (case whitelist of
     None \<Rightarrow> True
   | Some [] \<Rightarrow> True
   | Some w \<Rightarrow> list_ex (fnmatch (pn @ '':'' @ taskname)) w)"

section \<open>Completion of tasks\<close>

definition setbuildable :: "string \<Rightarrow> (exec_state, unit) sm" where
  "setbuildable task = supd (\<lambda>s. s\<lparr>x_buildable := sadd task (x_buildable s), x_sched := newbuilable task (x_sched s)\<rparr>)"

definition consider_revdep :: "string \<Rightarrow> (exec_state, unit) sm" where
  "consider_revdep revdep =
     sbind (sget (\<lambda>s. revdep \<in> set (x_running s) \<or> revdep \<in> set (x_buildable s))) (\<lambda>done.
       if done then sret ()
       else sbind (sres (\<lambda>s. dget (x_entries s) revdep)) (\<lambda>e.
         sbind (sget (\<lambda>s. list_all (\<lambda>dep. dep \<in> set (x_complete s)) (rt_depends e))) (\<lambda>alldeps.
           if alldeps then sbind (setbuildable revdep) (\<lambda>_. sbind (sres (\<lambda>_. taskname_from_tid revdep)) (\<lambda>_. sret ()))
           else sret ())))"

definition task_completeoutright :: "string \<Rightarrow> (exec_state, unit) sm" where
  "task_completeoutright task =
     sbind (supd (\<lambda>s. s\<lparr>x_complete := sadd task (x_complete s)\<rparr>)) (\<lambda>_.
     sbind (sres (\<lambda>s. dget (x_entries s) task)) (\<lambda>e.
       sfor (rt_revdeps e) consider_revdep))"

definition task_complete :: "string \<Rightarrow> (exec_state, unit) sm" where
  "task_complete task =
     sbind (supd (\<lambda>s. s\<lparr>x_stats := taskCompleted 1 (x_stats s)\<rparr>)) (\<lambda>_. task_completeoutright task)"

definition task_fail :: "exec_env \<Rightarrow> string \<Rightarrow> (exec_state, unit) sm" where
  "task_fail env task =
     sbind (supd (\<lambda>s. s\<lparr>x_stats := taskFailed (x_stats s), x_failed := x_failed s @ [task]\<rparr>)) (\<lambda>_.
     sbind (sres (\<lambda>_. dget (q_taskData (x_rq env)) [])) (\<lambda>td.
       if td_abort td then supd (\<lambda>s. s\<lparr>x_phase := runQueueCleanUp\<rparr>) else sret ()))"

definition task_skip :: "string \<Rightarrow> (exec_state, unit) sm" where
  "task_skip task =
     sbind (supd (\<lambda>s. s\<lparr>x_running := sadd task (x_running s)\<rparr>)) (\<lambda>_.
     sbind (setbuildable task) (\<lambda>_.
     sbind (task_completeoutright task) (\<lambda>_.
       supd (\<lambda>s. s\<lparr>x_stats := taskSkipped 1 (taskCompleted 1 (x_stats s))\<rparr>))))"

section \<open>Messages of the workers\<close>

definition runqueue_process_waitpid :: "exec_env \<Rightarrow> string \<Rightarrow> int \<Rightarrow> (exec_state, unit) sm" where
  "runqueue_process_waitpid env task status =
     sbind (sget (\<lambda>s. map_of (x_build_stamps s) task)) (\<lambda>stamp.
     sbind (case stamp of
         None \<Rightarrow> sret ()
       | Some st \<Rightarrow> sbind (sres (\<lambda>s. if st \<in> set (x_build_stamps2 s) then Inr () else Inl ValueError)) (\<lambda>_.
           supd (\<lambda>s. s\<lparr>x_build_stamps2 := remove1 st (x_build_stamps2 s),
             x_build_stamps := filter (\<lambda>(t, _). t \<noteq> task) (x_build_stamps s)\<rparr>))) (\<lambda>_.
       if status \<noteq> 0 then task_fail env task else task_complete task))"

definition finish_now :: "(exec_state, unit) sm" where
  "finish_now = supd (\<lambda>s. s\<lparr>x_phase := (if x_failed s \<noteq> [] then runQueueFailed else runQueueComplete)\<rparr>)"

definition read_workers :: "exec_env \<Rightarrow> worker_msg list \<Rightarrow> (exec_state, unit) sm" where
  "read_workers env msgs = sfor msgs (\<lambda>m. case m of
     ExitCode task status \<Rightarrow> runqueue_process_waitpid env task status
   | WorkerDied \<Rightarrow> finish_now)"

definition finish :: "exec_env \<Rightarrow> worker_msg list \<Rightarrow> (exec_state, rq_ret) sm" where
  "finish env msgs =
     sbind (supd (\<lambda>s. s\<lparr>x_phase := runQueueCleanUp\<rparr>)) (\<lambda>_.
     sbind (sget (\<lambda>s. active (x_stats s) > 0)) (\<lambda>waiting.
       if waiting then sbind (read_workers env msgs) (\<lambda>_. sret RFds)
       else sbind finish_now (\<lambda>_. sret RTrue)))"

section \<open>Starting tasks\<close>

text \<open>
  \<open>build_taskdepdata\<close>.  The set \<open>depends\<close> of the task is not copied, so adding the
  task to it changes the entry.  A pass goes over the tasks of the last one; each but the last
  adds a task to the table.
\<close>

definition depdata_step :: "exec_env \<Rightarrow> run_tasks \<Rightarrow> string \<Rightarrow> task_dep_data \<times> string list \<Rightarrow>
    (task_dep_data \<times> string list) res" where
  "depdata_step env es revdep = (\<lambda>(taskdepdata, additional).
     rbind (split_tid_mcfn revdep) (\<lambda>(mc, fn, taskname, taskfn).
     rbind (dget (q_dataCaches (x_rq env)) mc) (\<lambda>dc.
     rbind (dget (pkg_fn dc) taskfn) (\<lambda>pn.
     rbind (dget es revdep) (\<lambda>e.
     rbind (dget (fn_provides dc) taskfn) (\<lambda>provides.
       let taskdepdata = dset revdep (pn, taskname, fn, rt_depends e, provides) taskdepdata in
       Inr (taskdepdata, additional @ filter (\<lambda>d. d \<notin> set (keys taskdepdata)) (rt_depends e))))))))"

fun depdata_loop :: "nat \<Rightarrow> exec_env \<Rightarrow> run_tasks \<Rightarrow> string list \<Rightarrow> task_dep_data \<Rightarrow> task_dep_data res" where
  "depdata_loop n env es [] taskdepdata = Inr taskdepdata"
| "depdata_loop 0 env es (t # ts) taskdepdata = Inl OutOfFuel"
| "depdata_loop (Suc n) env es (t # ts) taskdepdata =
     rbind (rfold (depdata_step env es) (t # ts) (taskdepdata, [])) (\<lambda>(taskdepdata, additional).
       depdata_loop n env es additional taskdepdata)"

definition build_taskdepdata :: "exec_env \<Rightarrow> string \<Rightarrow> (exec_state, task_dep_data) sm" where
  "build_taskdepdata env task =
     sbind (sres (\<lambda>s. dget (x_entries s) task)) (\<lambda>e.
     let deps = sadd task (rt_depends e) in
     sbind (supd (\<lambda>s. s\<lparr>x_entries := dset task (e\<lparr>rt_depends := deps\<rparr>) (x_entries s)\<rparr>)) (\<lambda>_.
       sres (\<lambda>s. depdata_loop (Suc (length (x_entries s))) env (x_entries s) deps [])))"

definition next_task :: "exec_env \<Rightarrow> (exec_state, string option) sm" where
  "next_task env =
     sbind (sres (\<lambda>s. sched_next (x_entries s) (x_number_tasks env) (x_stats s) (x_running s)
         (dvals (x_build_stamps s)) (x_sched s))) (\<lambda>(r, sc).
     sbind (supd (\<lambda>s. s\<lparr>x_sched := sc\<rparr>)) (\<lambda>_. sret r))"

text \<open>A task that does nothing completes at once; its stamp is made unless this is a dry run.\<close>

definition run_noexec :: "exec_env \<Rightarrow> int \<Rightarrow> string \<Rightarrow> (exec_state, unit) sm" where
  "run_noexec env now task =
     sbind (sres (\<lambda>_. split_tid_mcfn task)) (\<lambda>(mc, fn, taskname, taskfn).
     sbind (supd (\<lambda>s. s\<lparr>x_running := sadd task (x_running s), x_stats := taskActive (x_stats s)\<rparr>)) (\<lambda>_.
     sbind (if x_dry_run env then sret ()
        else sbind (sres (\<lambda>s. rbind (dget (q_dataCaches (x_rq env)) mc) (\<lambda>dc.
               make_stamp (x_siggen env) now taskname (Core dc taskfn) (x_files s)))) (\<lambda>(_, fs).
             supd (\<lambda>s. s\<lparr>x_files := fs\<rparr>))) (\<lambda>_.
       task_complete task)))"

text \<open>
  The message to the worker.  False is returned if the workers for fakeroot cannot be started,
  which ends the build.
\<close>

definition send_task :: "exec_env \<Rightarrow> bool \<Rightarrow> string \<Rightarrow> (exec_state, bool) sm" where
  "send_task env fakeroot task =
     sbind (build_taskdepdata env task) (\<lambda>taskdepdata.
     sbind (sget (\<lambda>s. fakeroot \<and> \<not> x_fakeworker s \<and> \<not> x_fakeworker_starts env)) (\<lambda>fails.
       if fails then sbind (supd (\<lambda>s. s\<lparr>x_phase := runQueueFailed, x_stats := taskFailed (x_stats s)\<rparr>)) (\<lambda>_. sret False)
       else sbind (supd (\<lambda>s. s\<lparr>x_fakeworker := x_fakeworker s \<or> fakeroot,
           x_sent := x_sent s @ [(fakeroot, task, taskdepdata)]\<rparr>)) (\<lambda>_. sret True)))"

definition start_task :: "exec_env \<Rightarrow> string \<Rightarrow> (exec_state, unit) sm" where
  "start_task env task =
     sbind (sres (\<lambda>_. rbind (split_tid_mcfn task) (\<lambda>(mc, fn, taskname, taskfn). task_stamp env mc taskfn taskname True))) (\<lambda>stamp.
       supd (\<lambda>s. s\<lparr>x_build_stamps := dset task stamp (x_build_stamps s), x_build_stamps2 := x_build_stamps2 s @ [stamp],
         x_running := sadd task (x_running s), x_stats := taskActive (x_stats s)\<rparr>))"

section \<open>Execution\<close>

text \<open>Would the task run although the whitelist does not allow it?\<close>

definition check_norun_task :: "exec_env \<Rightarrow> string \<Rightarrow> (exec_state, bool) sm" where
  "check_norun_task env tid =
     sbind (sres (\<lambda>_. split_tid_mcfn tid)) (\<lambda>(mc, fn, taskname, taskfn).
     sbind (sget (\<lambda>s. tid \<in> set (x_covered s))) (\<lambda>covered.
     if covered then sret False
     else sbind (check_stamp env False tid (Some taskname)) (\<lambda>current.
       if current then sret False
       else sbind (sres (\<lambda>_. rbind (dget (q_dataCaches (x_rq env)) mc) (\<lambda>dc.
              rbind (dget (cd_task_deps dc) fn) (\<lambda>taskdep. Inr (dc, taskdep))))) (\<lambda>(dc, taskdep).
            if task_flag taskdep ''noexec'' taskname \<noteq> None then sret False
            else sbind (sres (\<lambda>_. dget (pkg_fn dc) fn)) (\<lambda>pn.
              sret (\<not> check_setscene_enforce_whitelist pn taskname (x_setscenewhitelist env)))))))"

fun any_norun :: "exec_env \<Rightarrow> string list \<Rightarrow> (exec_state, bool) sm" where
  "any_norun env [] = sret False"
| "any_norun env (tid # tids) =
     sbind (check_norun_task env tid) (\<lambda>b. if b then sret True else any_norun env tids)"

text \<open>All tasks are passed over in the order in which they would have run.\<close>

fun skip_all :: "nat \<Rightarrow> exec_env \<Rightarrow> (exec_state, unit) sm" where
  "skip_all 0 env = sraise OutOfFuel"
| "skip_all (Suc n) env = sbind (next_task env) (\<lambda>task. case task of
     None \<Rightarrow> sret ()
   | Some t \<Rightarrow> sbind (check_norun_task env t) (\<lambda>_. sbind (task_skip t) (\<lambda>_. skip_all n env)))"

text \<open>True if the check ends the execution.\<close>

definition enforce_whitelist :: "exec_env \<Rightarrow> (exec_state, bool) sm" where
  "enforce_whitelist env =
     sbind (sget (\<lambda>s. x_setscenewhitelist env \<noteq> None \<and> x_setscenewhitelist env \<noteq> Some [] \<and>
        \<not> x_whitelist_checked s)) (\<lambda>check.
     if \<not> check then sret False
     else sbind (supd (\<lambda>s. s\<lparr>x_whitelist_checked := True\<rparr>)) (\<lambda>_.
       sbind (sget (\<lambda>s. keys (x_entries s))) (\<lambda>tids.
       sbind (any_norun env tids) (\<lambda>unexpected.
         if \<not> unexpected then sret False
         else sbind (skip_all (Suc (length tids)) env) (\<lambda>_.
           sbind (supd (\<lambda>s. s\<lparr>x_phase := runQueueCleanUp\<rparr>)) (\<lambda>_. sret True))))))"

text \<open>
  What happens to the task that the scheduler has chosen.  The result is false if it has been
  sent to a worker and no more can be started now; then \<open>execute\<close> goes on to wait.
\<close>

definition execute_task :: "exec_env \<Rightarrow> int \<Rightarrow> string \<Rightarrow> (exec_state, bool) sm" where
  "execute_task env now task =
     sbind (sres (\<lambda>_. split_tid_mcfn task)) (\<lambda>(mc, fn, taskname, taskfn).
     sbind (sget (\<lambda>s. task \<in> set (x_covered s))) (\<lambda>covered.
     if covered then sbind (task_skip task) (\<lambda>_. sret True)
     else sbind (check_stamp env False task (Some taskname)) (\<lambda>current.
     if current then sbind (task_skip task) (\<lambda>_. sret True)
     else sbind (sres (\<lambda>_. rbind (dget (q_dataCaches (x_rq env)) mc) (\<lambda>dc. dget (cd_task_deps dc) taskfn))) (\<lambda>taskdep.
     if task_flag taskdep ''noexec'' taskname \<noteq> None then sbind (run_noexec env now task) (\<lambda>_. sret True)
     else sbind (send_task env (task_flag taskdep ''fakeroot'' taskname \<noteq> None \<and> \<not> x_dry_run env) task) (\<lambda>sent.
     if \<not> sent then sret True
     else sbind (start_task env task) (\<lambda>_. sget (\<lambda>s. active (x_stats s) < x_number_tasks env)))))))"

text \<open>The part of \<open>execute\<close> up to the messages that are read when it waits.\<close>

definition execute_start :: "exec_env \<Rightarrow> int \<Rightarrow> worker_msg list \<Rightarrow> (exec_state, bool) sm" where
  "execute_start env now msgs =
     sbind (enforce_whitelist env) (\<lambda>ended.
     if ended then sret True
     else sbind (read_workers env msgs) (\<lambda>_.
       sbind (supd (\<lambda>s. if total (x_stats s) = 0 then s\<lparr>x_phase := runQueueCleanUp\<rparr> else s)) (\<lambda>_.
       sbind (next_task env) (\<lambda>task. case task of
           None \<Rightarrow> sret False
         | Some t \<Rightarrow> execute_task env now t))))"

text \<open>The tasks that the sanity checks at the end report: never buildable, run or completed.\<close>

definition never_run :: "exec_state \<Rightarrow> string list" where
  "never_run s = filter (\<lambda>t. t \<notin> set (x_buildable s) \<or> t \<notin> set (x_running s) \<or> t \<notin> set (x_complete s)) (keys (x_entries s))"

definition execute_wait :: "exec_env \<Rightarrow> worker_msg list \<Rightarrow> (exec_state, rq_ret) sm" where
  "execute_wait env msgs =
     sbind (sget (\<lambda>s. active (x_stats s) > 0)) (\<lambda>waiting.
     if waiting then sbind (read_workers env msgs) (\<lambda>_. sret RFds)
     else sbind finish_now (\<lambda>_. sret RTrue))"

definition execute :: "exec_env \<Rightarrow> int \<Rightarrow> worker_msg list \<Rightarrow> worker_msg list \<Rightarrow> (exec_state, rq_ret) sm" where
  "execute env now msgs1 msgs2 =
     sbind (execute_start env now msgs1) (\<lambda>again. if again then sret RTrue else execute_wait env msgs2)"

section \<open>The start of the execution\<close>

text \<open>A task is covered if all that depend on it are, and something does.\<close>

definition all_covered :: "run_task \<Rightarrow> string list \<Rightarrow> bool" where
  "all_covered e covered = (rt_revdeps e \<noteq> [] \<and> list_all (\<lambda>t. t \<in> set covered) (rt_revdeps e))"

definition initial_tasks :: "run_tasks \<Rightarrow> string list \<Rightarrow> string list \<times> string list" where
  "initial_tasks es covered = fold (\<lambda>(tid, e) (buildable, covered).
     (if rt_depends e = [] then sadd tid buildable else buildable,
      if all_covered e covered then sadd tid covered else covered)) es ([], covered)"

definition cover_pass :: "run_tasks \<Rightarrow> string list \<Rightarrow> string list \<Rightarrow> string list" where
  "cover_pass es notcovered covered = fold (\<lambda>(tid, e) covered.
     if tid \<notin> set covered \<and> all_covered e covered \<and> tid \<notin> set notcovered then sadd tid covered else covered) es covered"

lemma cover_pass_cases:
  "set covered \<subseteq> set (cover_pass es notcovered covered) \<and>
    set (cover_pass es notcovered covered) \<subseteq> set covered \<union> set (keys es) \<and>
    (cover_pass es notcovered covered = covered \<or> set covered \<subset> set (cover_pass es notcovered covered))"
proof -
  let ?f = "\<lambda>(tid, e) covered. if tid \<notin> set covered \<and> all_covered e covered \<and> tid \<notin> set notcovered
     then sadd tid covered else covered"
  have "set c \<subseteq> set (fold ?f es c) \<and> set (fold ?f es c) \<subseteq> set c \<union> set (keys es) \<and>
    (fold ?f es c = c \<or> set c \<subset> set (fold ?f es c))" for c
  proof (induction es arbitrary: c)
    case (Cons p es)
    obtain tid e where p: "p = (tid, e)" by force
    show ?case
    proof (cases "tid \<notin> set c \<and> all_covered e c \<and> tid \<notin> set notcovered")
      case True
      with Cons [of "sadd tid c"] show ?thesis by (auto simp: p keys_def)
    next
      case False
      then have "fold ?f (p # es) c = fold ?f es c" by (auto simp: p)
      with Cons [of c] show ?thesis by (auto simp: p keys_def)
    qed
  qed (simp add: keys_def)
  then show ?thesis unfolding cover_pass_def by blast
qed

function cover_loop :: "run_tasks \<Rightarrow> string list \<Rightarrow> string list \<Rightarrow> string list" where
  "cover_loop es notcovered covered =
     (let covered' = cover_pass es notcovered covered
      in if covered' = covered then covered else cover_loop es notcovered covered')"
  by pat_completeness auto
termination
proof (relation "measure (\<lambda>(es, notcovered, covered). card (set (keys es) - set covered))", goal_cases)
  case (2 es notcovered covered covered')
  then have "set (keys es) - set covered' \<subset> set (keys es) - set covered"
    using cover_pass_cases [of covered es notcovered] by blast
  then show ?case by (simp add: psubset_card_mono)
qed simp

declare cover_loop.simps [simp del]

text \<open>
  The metadata may elect covered tasks to run anyway.  It is told which tasks have neither a
  current setscene stamp nor a current stamp.
\<close>

definition invalid_step :: "exec_env \<Rightarrow> file_table \<Rightarrow> run_tasks \<Rightarrow> string \<Rightarrow> string list \<times> (string \<times> bool) list \<Rightarrow>
    (string list \<times> (string \<times> bool) list) res" where
  "invalid_step env fs es tid = (\<lambda>(invalidtasks, cache).
     rbind (split_tid_mcfn tid) (\<lambda>(mc, fn, taskname, taskfn).
     rbind (dget (q_dataCaches (x_rq env)) mc) (\<lambda>dc.
     rbind (dget (cd_task_deps dc) taskfn) (\<lambda>taskdep.
       if task_flag taskdep ''noexec'' taskname \<noteq> None then Inr (invalidtasks, cache)
       else rbind (check_stamp_task (Suc (length es)) env fs es False tid (Some (taskname @ ''_setscene'')) cache) (\<lambda>(b, cache).
         if b then Inr (invalidtasks, cache)
         else rbind (check_stamp_task (Suc (length es)) env fs es True tid (Some taskname) cache) (\<lambda>(b, cache).
           Inr (if b then invalidtasks else invalidtasks @ [tid], cache)))))))"

definition covered_remove :: "exec_env \<Rightarrow> file_table \<Rightarrow> run_tasks \<Rightarrow> string list \<Rightarrow> (string \<times> bool) list \<Rightarrow>
    (string list \<times> (string \<times> bool) list) res" where
  "covered_remove env fs es covered cache = (case x_setsceneverify env of
     None \<Rightarrow> Inr ([], cache)
   | Some verify \<Rightarrow>
       rbind (rmap (\<lambda>tid. rbind (split_tid_mcfn tid) (\<lambda>(mc, fn, taskname, taskfn). Inr (tid, taskname, taskfn))) (keys es)) (\<lambda>names.
       rbind (rfold (invalid_step env fs es) (keys es) ([], cache)) (\<lambda>(invalidtasks, cache).
         Inr (verify covered (map (\<lambda>(tid, name, fn). (tid, name)) names) (map (\<lambda>(tid, name, fn). (tid, fn)) names) invalidtasks,
           cache))))"

text \<open>
  \<open>removecoveredtask\<close>, and one pass of the loop around it: what the removed tasks depend on
  and what has not been covered from the start is removed in the next pass.
\<close>

definition removecoveredtask :: "exec_env \<Rightarrow> string \<Rightarrow> string list \<times> file_table \<Rightarrow> (string list \<times> file_table) res" where
  "removecoveredtask env tid = (\<lambda>(covered, fs).
     rbind (split_tid_mcfn tid) (\<lambda>(mc, fn, taskname, taskfn).
     rbind (dget (q_dataCaches (x_rq env)) mc) (\<lambda>dc.
     rbind (del_stamp (x_siggen env) (taskname @ ''_setscene'') (Core dc taskfn) fs) (\<lambda>fs.
       if tid \<in> set covered then Inr (filter (\<lambda>t. t \<noteq> tid) covered, fs) else Inl (KeyError tid)))))"

definition remove_step :: "exec_env \<Rightarrow> run_tasks \<Rightarrow> string list \<Rightarrow> string list \<Rightarrow> string \<Rightarrow>
    (string list \<times> file_table) \<times> string list \<Rightarrow> ((string list \<times> file_table) \<times> string list) res" where
  "remove_step env es initial toremove task = (\<lambda>(cf, removed).
     rbind (removecoveredtask env task cf) (\<lambda>(covered, fs).
     rbind (dget es task) (\<lambda>e.
       Inr ((covered, fs), fold (\<lambda>deptask removed.
         if deptask \<notin> set covered \<or> deptask \<in> set toremove \<or> deptask \<in> set removed \<or> deptask \<in> set initial
         then removed else removed @ [deptask]) (rt_depends e) removed))))"

lemma remove_step_length:
  "remove_step env es initial toremove t ((c, fs), r) = Inr ((c', fs'), r') \<Longrightarrow> length c' < length c"
  by (auto simp: remove_step_def removecoveredtask_def rbind_eq_Inr split: if_splits intro!: length_filter_less)

lemma remove_steps_length:
  "rfold (remove_step env es initial toremove) ts ((c, fs), r) = Inr ((c', fs'), r') \<Longrightarrow>
    length c' \<le> length c \<and> (ts \<noteq> [] \<longrightarrow> length c' < length c)"
proof (induction ts arbitrary: c fs r)
  case (Cons t ts)
  then obtain c1 fs1 r1 where s: "remove_step env es initial toremove t ((c, fs), r) = Inr ((c1, fs1), r1)"
    and rest: "rfold (remove_step env es initial toremove) ts ((c1, fs1), r1) = Inr ((c', fs'), r')"
    by (auto simp: rbind_eq_Inr)
  from remove_step_length [OF s] Cons.IH [OF rest] show ?case by linarith
qed simp

function remove_loop :: "exec_env \<Rightarrow> run_tasks \<Rightarrow> string list \<Rightarrow> string list \<Rightarrow> string list \<times> file_table \<Rightarrow>
    (string list \<times> file_table) res" where
  "remove_loop env es initial [] cf = Inr cf"
| "remove_loop env es initial (t # ts) cf =
     (case rfold (remove_step env es initial (t # ts)) (t # ts) (cf, []) of
        Inl e \<Rightarrow> Inl e
      | Inr (cf', removed) \<Rightarrow> remove_loop env es initial removed cf')"
  by pat_completeness auto
termination
proof (relation "measure (\<lambda>(env, es, initial, ts, cf). length (fst cf))", goal_cases)
  case (2 env es initial t ts cf r cf' removed)
  obtain c fs c' fs' where cf: "cf = (c, fs)" "cf' = (c', fs')" by (cases cf; cases cf')
  from 2 have "rfold (remove_step env es initial (t # ts)) (t # ts) ((c, fs), []) = Inr ((c', fs'), removed)"
    by (simp add: cf)
  from remove_steps_length [OF this] show ?case by (simp add: cf)
qed simp

definition sched_kind_of :: "string \<Rightarrow> sched_kind res" where
  "sched_kind_of name = (if name = ''basic'' then Inr Basic else if name = ''speed'' then Inr Speed
     else if name = ''completion'' then Inr Completion else Inl BBHandledException)"

text \<open>
  The constructor, with the tasks that the setscene phase has covered and not covered and the
  files there are.  Schedulers of other modules (\<open>BB_SCHEDULERS\<close>) are not modelled.
\<close>

definition execute_init :: "exec_env \<Rightarrow> string list \<Rightarrow> string list \<Rightarrow> bool \<Rightarrow> bool \<Rightarrow>
    (bool \<times> string \<times> task_dep_data) list \<Rightarrow> file_table \<Rightarrow> exec_state res" where
  "execute_init env covered notcovered fakeworker checked sent fs =
     (if x_number_tasks env \<le> 0 then Inl BBHandledException
      else let es = runtaskentries (x_data env);
               (buildable, covered1) = initial_tasks es covered;
               covered2 = cover_loop es notcovered covered1 in
        rbind (covered_remove env fs es covered2 []) (\<lambda>(toremove, cache).
        rbind (remove_loop env es covered toremove (covered2, fs)) (\<lambda>(covered3, fs).
        rbind (sched_kind_of (x_scheduler env)) (\<lambda>kind.
        rbind (scheduler_init kind es (\<lambda>tid. rbind (split_tid_mcfn tid) (\<lambda>(mc, fn, taskname, taskfn).
            task_stamp env mc taskfn taskname True)) buildable) (\<lambda>sched.
          Inr \<lparr>x_entries = es, x_phase = runQueueRunning, x_covered = covered3, x_buildable = buildable,
            x_running = [], x_complete = [], x_build_stamps = [], x_build_stamps2 = [], x_failed = [],
            x_stampcache = cache, x_stats = init_stats (int (length es)), x_sched = sched,
            x_whitelist_checked = checked, x_fakeworker = fakeworker, x_sent = sent, x_files = fs\<rparr>)))))"

end
