(* ===== verification/Run_Queue_Exec_Facts.thy ===== *)
theory Run_Queue_Exec_Facts
  imports Run_Queue_Exec Run_Queue_Prepare_Facts
begin

text \<open>
  What holds while the tasks are executed.  \<open>run_inv\<close> is the invariant: which tasks are
  buildable, running, complete and failed, which of them the workers have, that no two of those
  use the same stamp, and what the statistics count.  Every operation keeps it.  The steps of the
  execution are an inductive relation over whatever the workers report; from the invariant follow
  that a task is started only after all it depends on is complete, and that the execution does
  not end before all tasks are.
\<close>

section \<open>The invariant\<close>

text \<open>
  Starting a task adds it to its own dependencies; the graph is otherwise the one that was
  prepared.  \<open>X\<close> are tasks whose dependencies may have changed.
\<close>

definition same_graph :: "run_tasks \<Rightarrow> string set \<Rightarrow> run_tasks \<Rightarrow> bool" where
  "same_graph es0 X es \<longleftrightarrow> keys es = keys es0 \<and> (\<forall>t. rdeps_of es t = rdeps_of es0 t) \<and>
     (\<forall>t. t \<notin> X \<longrightarrow> deps_of es t = deps_of es0 t)"

definition stamp_of :: "exec_env \<Rightarrow> string \<Rightarrow> string option res" where
  "stamp_of env tid = rbind (split_tid_mcfn tid) (\<lambda>(mc, fn, taskname, taskfn). task_stamp env mc taskfn taskname True)"

text \<open>
  The scheduler knows every buildable task that is not running, and no more tasks are given to
  the workers than the configuration allows.
\<close>

definition sched_inv :: "exec_env \<Rightarrow> run_tasks \<Rightarrow> string list \<Rightarrow> exec_state \<Rightarrow> bool" where
  "sched_inv env es0 pm s \<longleftrightarrow> sched_ok es0 pm (x_sched s) \<and>
     (\<forall>t st. map_of (sc_stamps (x_sched s)) t = Some st \<longrightarrow> stamp_of env t = Inr st) \<and>
     set (sc_buildable (x_sched s)) \<subseteq> set (x_buildable s) \<and>
     set (x_buildable s) - set (x_running s) \<subseteq> set (sc_buildable (x_sched s)) \<and>
     int (length (x_build_stamps s)) \<le> x_number_tasks env"

text \<open>
  A task is buildable exactly if all it depends on is complete; tasks of \<open>P\<close> may still have
  to be found out to be.
\<close>

definition tasks_inv :: "run_tasks \<Rightarrow> string set \<Rightarrow> exec_state \<Rightarrow> bool" where
  "tasks_inv es0 P s \<longleftrightarrow>
     set (x_complete s) \<subseteq> set (x_running s) \<and> set (x_running s) \<subseteq> set (x_buildable s) \<and>
     set (x_buildable s) \<subseteq> set (keys es0) \<and> set (x_failed s) \<subseteq> set (x_running s) \<and>
     set (x_failed s) \<inter> set (x_complete s) = {} \<and> total (x_stats s) = int (length es0) \<and>
     (\<forall>t \<in> set (x_buildable s). set (deps_of es0 t) \<subseteq> set (x_complete s)) \<and>
     (\<forall>t \<in> set (keys es0). set (deps_of es0 t) \<subseteq> set (x_complete s) \<longrightarrow> t \<in> set (x_buildable s) \<or> t \<in> P)"

text \<open>The tasks that the workers have; \<open>A\<close> are tasks on their way from or to them.\<close>

definition active_inv :: "string set \<Rightarrow> exec_state \<Rightarrow> bool" where
  "active_inv A s \<longleftrightarrow> distinct (keys (x_build_stamps s)) \<and> set (keys (x_build_stamps s)) \<inter> A = {} \<and>
     set (keys (x_build_stamps s)) \<union> A = set (x_running s) - set (x_complete s) - set (x_failed s) \<and>
     mset (x_build_stamps2 s) = mset (dvals (x_build_stamps s)) \<and> distinct (dvals (x_build_stamps s))"

definition counts_inv :: "int \<Rightarrow> int \<Rightarrow> exec_state \<Rightarrow> bool" where
  "counts_inv a c s \<longleftrightarrow> active (x_stats s) = int (length (x_build_stamps s)) + a \<and>
     completed (x_stats s) = int (card (set (x_complete s))) + c \<and>
     failed (x_stats s) = int (length (x_failed s)) \<and> distinct (x_failed s) \<and>
     0 \<le> skipped (x_stats s)"

definition run_inv :: "exec_env \<Rightarrow> run_tasks \<Rightarrow> string list \<Rightarrow> exec_state \<Rightarrow> bool" where
  "run_inv env es0 pm s \<longleftrightarrow> same_graph es0 (set (x_running s)) (x_entries s) \<and> sched_inv env es0 pm s \<and>
     tasks_inv es0 {} s \<and> active_inv {} s \<and> counts_inv 0 0 s"

text \<open>What does not touch the state of the tasks keeps the invariant.\<close>

definition task_state :: "exec_state \<Rightarrow> run_tasks \<times> string list \<times> string list \<times> string list \<times>
    (string \<times> string option) list \<times> string option list \<times> string list \<times> rq_stats \<times> scheduler" where
  "task_state s = (x_entries s, x_buildable s, x_running s, x_complete s, x_build_stamps s, x_build_stamps2 s,
     x_failed s, x_stats s, x_sched s)"

definition same_task_state :: "exec_state \<Rightarrow> exec_state \<Rightarrow> bool" where
  "same_task_state s t \<longleftrightarrow> task_state s = task_state t"

interpretation quiet: state_preorder same_task_state
  by unfold_locales (simp_all add: same_task_state_def)

lemma task_state_inv:
  assumes "task_state s = task_state t"
  shows "run_inv env es0 pm s = run_inv env es0 pm t" "sched_inv env es0 pm s = sched_inv env es0 pm t"
    "tasks_inv es0 P s = tasks_inv es0 P t" "active_inv A s = active_inv A t" "counts_inv a c s = counts_inv a c t"
  using assms by (simp_all add: task_state_def run_inv_def sched_inv_def tasks_inv_def active_inv_def counts_inv_def)

lemma quiet_run_inv: "run_inv env es0 pm s \<Longrightarrow> same_task_state s t \<Longrightarrow> run_inv env es0 pm t"
  using task_state_inv(1) unfolding same_task_state_def by blast

lemma check_stamp_quiet: "quiet.keeps (check_stamp env recurse tid name)"
  unfolding check_stamp_def
  by (intro quiet.sequence quiet.pure) (auto simp: same_task_state_def task_state_def split: prod.split
      intro!: quiet.sequence quiet.update quiet.pure)

lemma check_norun_task_quiet: "quiet.keeps (check_norun_task env tid)"
  unfolding check_norun_task_def
  by (auto split: prod.split intro!: quiet.rules check_stamp_quiet)

lemma any_norun_quiet: "quiet.keeps (any_norun env tids)"
  by (induction tids) (auto intro!: quiet.rules check_norun_task_quiet)

section \<open>Completion of a task\<close>

definition any_exc :: "exc \<Rightarrow> exec_state \<Rightarrow> bool" where
  "any_exc e s = True"

lemma sched_ok_newbuilable:
  "sched_ok es pm sc \<Longrightarrow> t \<in> set (keys es) \<Longrightarrow> sched_ok es pm (newbuilable t sc)"
  by (simp add: sched_ok_def newbuilable_def)

lemma sched_inv_setbuildable:
  assumes "sched_inv env es0 pm s" "t \<in> set (keys es0)"
  shows "sched_inv env es0 pm (s\<lparr>x_buildable := sadd t (x_buildable s), x_sched := newbuilable t (x_sched s)\<rparr>)"
  using assms sched_ok_newbuilable [of es0 pm "x_sched s" t] unfolding sched_inv_def
  by (auto simp: newbuilable_def)

text \<open>The part of the invariant that does not concern buildable tasks.\<close>

definition rest_inv :: "run_tasks \<Rightarrow> string set \<Rightarrow> int \<Rightarrow> int \<Rightarrow> exec_state \<Rightarrow> bool" where
  "rest_inv es0 A a c s \<longleftrightarrow> same_graph es0 (set (x_running s)) (x_entries s) \<and> active_inv A s \<and> counts_inv a c s"

lemma rest_inv_simps [simp]:
  "rest_inv es0 A a c (s\<lparr>x_buildable := b\<rparr>) = rest_inv es0 A a c s"
  "rest_inv es0 A a c (s\<lparr>x_sched := sc\<rparr>) = rest_inv es0 A a c s"
  by (simp_all add: rest_inv_def active_inv_def counts_inv_def)

lemma same_graph_entry:
  assumes "same_graph es0 X es" "map_of es t = Some e"
  shows "rt_revdeps e = rdeps_of es0 t" "t \<notin> X \<Longrightarrow> rt_depends e = deps_of es0 t" "t \<in> set (keys es0)"
  using assms unfolding same_graph_def by (metis deps_of_Some rdeps_of_Some map_of_keys)+

lemma consider_revdep_inv:
  assumes "u \<in> set (keys es0)"
  shows "hoare (\<lambda>s. rest_inv es0 A a c s \<and> sched_inv env es0 pm s \<and> tasks_inv es0 P s)
    (consider_revdep u)
    (\<lambda>_ s. rest_inv es0 A a c s \<and> sched_inv env es0 pm s \<and> tasks_inv es0 (P - {u}) s) any_exc"
  unfolding consider_revdep_def setbuildable_def
proof (rule hoare_sget_bind, rule hoare_if)
  fix v assume v: v
  show "hoare (\<lambda>s. (rest_inv es0 A a c s \<and> sched_inv env es0 pm s \<and> tasks_inv es0 P s) \<and>
      v = (u \<in> set (x_running s) \<or> u \<in> set (x_buildable s))) (sret ())
     (\<lambda>_ s. rest_inv es0 A a c s \<and> sched_inv env es0 pm s \<and> tasks_inv es0 (P - {u}) s) any_exc"
    using v by (intro hoare_sret) (auto simp: tasks_inv_def)
next
  fix v assume v: "\<not> v"
  show "hoare (\<lambda>s. (rest_inv es0 A a c s \<and> sched_inv env es0 pm s \<and> tasks_inv es0 P s) \<and>
      v = (u \<in> set (x_running s) \<or> u \<in> set (x_buildable s)))
     (sbind (sres (\<lambda>s. dget (x_entries s) u))
       (\<lambda>e. sbind (sget (\<lambda>s. list_all (\<lambda>dep. dep \<in> set (x_complete s)) (rt_depends e)))
              (\<lambda>alldeps. if alldeps
                 then sbind (supd (\<lambda>s. s\<lparr>x_buildable := sadd u (x_buildable s), x_sched := newbuilable u (x_sched s)\<rparr>))
                        (\<lambda>_. sbind (sres (\<lambda>_. taskname_from_tid u)) (\<lambda>_. sret ()))
                 else sret ())))
     (\<lambda>_ s. rest_inv es0 A a c s \<and> sched_inv env es0 pm s \<and> tasks_inv es0 (P - {u}) s) any_exc"
  proof (rule hoare_sres_bind, rule hoare_sget_bind, rule hoare_if)
    fix e all assume all
    show "hoare (\<lambda>s. (((rest_inv es0 A a c s \<and> sched_inv env es0 pm s \<and> tasks_inv es0 P s) \<and>
        v = (u \<in> set (x_running s) \<or> u \<in> set (x_buildable s))) \<and> dget (x_entries s) u = Inr e) \<and>
        all = list_all (\<lambda>dep. dep \<in> set (x_complete s)) (rt_depends e))
      (sbind (supd (\<lambda>s. s\<lparr>x_buildable := sadd u (x_buildable s), x_sched := newbuilable u (x_sched s)\<rparr>))
        (\<lambda>_. sbind (sres (\<lambda>_. taskname_from_tid u)) (\<lambda>_. sret ())))
      (\<lambda>_ s. rest_inv es0 A a c s \<and> sched_inv env es0 pm s \<and> tasks_inv es0 (P - {u}) s) any_exc"
    proof (rule hoare_supd_bind [where P' = "\<lambda>s. rest_inv es0 A a c s \<and> sched_inv env es0 pm s \<and> tasks_inv es0 (P - {u}) s"])
      show "hoare (\<lambda>s. rest_inv es0 A a c s \<and> sched_inv env es0 pm s \<and> tasks_inv es0 (P - {u}) s)
        (sbind (sres (\<lambda>_. taskname_from_tid u)) (\<lambda>_. sret ()))
        (\<lambda>_ s. rest_inv es0 A a c s \<and> sched_inv env es0 pm s \<and> tasks_inv es0 (P - {u}) s) any_exc"
        by (rule hoare_sres_bind) (auto intro!: hoare_sret simp: any_exc_def)
    next
      fix s
      assume pre: "(((rest_inv es0 A a c s \<and> sched_inv env es0 pm s \<and> tasks_inv es0 P s) \<and>
        v = (u \<in> set (x_running s) \<or> u \<in> set (x_buildable s))) \<and> dget (x_entries s) u = Inr e) \<and>
        all = list_all (\<lambda>dep. dep \<in> set (x_complete s)) (rt_depends e)"
      then have d: "set (deps_of es0 u) \<subseteq> set (x_complete s)"
        using v \<open>all\<close> same_graph_entry(2) [of es0 "set (x_running s)" "x_entries s" u e]
        by (auto simp: rest_inv_def list_all_iff)
      have "tasks_inv es0 (P - {u}) (s\<lparr>x_buildable := sadd u (x_buildable s), x_sched := newbuilable u (x_sched s)\<rparr>)"
        using pre d assms unfolding tasks_inv_def by auto
      then show "rest_inv es0 A a c (s\<lparr>x_buildable := sadd u (x_buildable s), x_sched := newbuilable u (x_sched s)\<rparr>) \<and>
        sched_inv env es0 pm (s\<lparr>x_buildable := sadd u (x_buildable s), x_sched := newbuilable u (x_sched s)\<rparr>) \<and>
        tasks_inv es0 (P - {u}) (s\<lparr>x_buildable := sadd u (x_buildable s), x_sched := newbuilable u (x_sched s)\<rparr>)"
        using pre sched_inv_setbuildable [OF _ assms] by simp
    qed
  next
    fix e all assume "\<not> all"
    show "hoare (\<lambda>s. (((rest_inv es0 A a c s \<and> sched_inv env es0 pm s \<and> tasks_inv es0 P s) \<and>
        v = (u \<in> set (x_running s) \<or> u \<in> set (x_buildable s))) \<and> dget (x_entries s) u = Inr e) \<and>
        all = list_all (\<lambda>dep. dep \<in> set (x_complete s)) (rt_depends e))
      (sret ()) (\<lambda>_ s. rest_inv es0 A a c s \<and> sched_inv env es0 pm s \<and> tasks_inv es0 (P - {u}) s) any_exc"
    proof (rule hoare_sret)
      fix s
      assume pre: "(((rest_inv es0 A a c s \<and> sched_inv env es0 pm s \<and> tasks_inv es0 P s) \<and>
        v = (u \<in> set (x_running s) \<or> u \<in> set (x_buildable s))) \<and> dget (x_entries s) u = Inr e) \<and>
        all = list_all (\<lambda>dep. dep \<in> set (x_complete s)) (rt_depends e)"
      then have "\<not> set (deps_of es0 u) \<subseteq> set (x_complete s)"
        using v \<open>\<not> all\<close> same_graph_entry(2) [of es0 "set (x_running s)" "x_entries s" u e]
        by (auto simp: rest_inv_def list_all_iff)
      then show "rest_inv es0 A a c s \<and> sched_inv env es0 pm s \<and> tasks_inv es0 (P - {u}) s"
        using pre unfolding tasks_inv_def by auto
    qed
  qed (simp add: any_exc_def)
qed

definition inv_with :: "exec_env \<Rightarrow> run_tasks \<Rightarrow> string list \<Rightarrow> string set \<Rightarrow> int \<Rightarrow> int \<Rightarrow> string set \<Rightarrow> exec_state \<Rightarrow> bool" where
  "inv_with env es0 pm A a c P s \<longleftrightarrow> rest_inv es0 A a c s \<and> sched_inv env es0 pm s \<and> tasks_inv es0 P s"

lemma run_inv_with: "run_inv env es0 pm = inv_with env es0 pm {} 0 0 {}"
  by (auto simp: fun_eq_iff run_inv_def inv_with_def rest_inv_def)

lemma consider_revdep_with:
  "u \<in> set (keys es0) \<Longrightarrow> hoare (inv_with env es0 pm A a c P) (consider_revdep u)
    (\<lambda>_. inv_with env es0 pm A a c (P - {u})) any_exc"
  using consider_revdep_inv [of u es0 A a c env pm P] unfolding inv_with_def [abs_def] .

lemma consider_revdeps_with:
  assumes "set us \<subseteq> set (keys es0)"
  shows "hoare (inv_with env es0 pm A a c P) (sfor us consider_revdep)
    (\<lambda>_. inv_with env es0 pm A a c (P - set us)) any_exc"
proof -
  have "hoare (inv_with env es0 pm A a c (P - set [])) (sfor us consider_revdep)
    (\<lambda>_. inv_with env es0 pm A a c (P - set us)) any_exc"
  proof (rule hoare_sfor)
    fix ys u zs assume "us = ys @ u # zs"
    then have "u \<in> set (keys es0)" using assms by auto
    moreover have "P - set ys - {u} = P - set (ys @ [u])" by auto
    ultimately show "hoare (inv_with env es0 pm A a c (P - set ys)) (consider_revdep u)
      (\<lambda>_. inv_with env es0 pm A a c (P - set (ys @ [u]))) any_exc"
      using consider_revdep_with [of u es0 env pm A a c "P - set ys"] by simp
  qed
  then show ?thesis by simp
qed

lemma mark_complete_inv:
  assumes g: "graph_ok es0" and s: "inv_with env es0 pm {t} a c {} s"
  shows "inv_with env es0 pm {} a (c - 1) (set (rdeps_of es0 t)) (s\<lparr>x_complete := sadd t (x_complete s)\<rparr>)"
proof -
  let ?s = "s\<lparr>x_complete := sadd t (x_complete s)\<rparr>"
  have t: "t \<in> set (x_running s)" "t \<notin> set (x_complete s)" "t \<notin> set (x_failed s)"
    "t \<notin> set (keys (x_build_stamps s))"
    and un: "set (keys (x_build_stamps s)) \<union> {t} = set (x_running s) - set (x_complete s) - set (x_failed s)"
    using s unfolding inv_with_def rest_inv_def active_inv_def by auto
  have "active_inv {} ?s"
    using s t un unfolding inv_with_def rest_inv_def active_inv_def by auto
  moreover have "counts_inv a (c - 1) ?s"
    using s t(2) unfolding inv_with_def rest_inv_def counts_inv_def by simp
  moreover have "tasks_inv es0 (set (rdeps_of es0 t)) ?s"
    using s t graph_okD(5) [OF g] unfolding inv_with_def tasks_inv_def by auto
  moreover have "sched_inv env es0 pm ?s" using s unfolding inv_with_def sched_inv_def by simp
  ultimately show ?thesis using s unfolding inv_with_def rest_inv_def by simp
qed

lemma task_completeoutright_inv:
  assumes "graph_ok es0"
  shows "hoare (inv_with env es0 pm {t} a c {}) (task_completeoutright t)
    (\<lambda>_. inv_with env es0 pm {} a (c - 1) {}) any_exc"
  unfolding task_completeoutright_def
proof (rule hoare_supd_bind, rule hoare_sres_bind)
  fix e
  show "hoare (\<lambda>s. inv_with env es0 pm {} a (c - 1) (set (rdeps_of es0 t)) s \<and> dget (x_entries s) t = Inr e)
    (sfor (rt_revdeps e) consider_revdep) (\<lambda>_. inv_with env es0 pm {} a (c - 1) {}) any_exc"
  proof (rule hoare_fact)
    fix s
    assume "inv_with env es0 pm {} a (c - 1) (set (rdeps_of es0 t)) s \<and> dget (x_entries s) t = Inr e"
    then have r: "rt_revdeps e = rdeps_of es0 t"
      using same_graph_entry(1) unfolding inv_with_def rest_inv_def by (metis dget_eq_Inr)
    have "set (rt_revdeps e) \<subseteq> set (keys es0)" unfolding r by (rule graph_okD(6) [OF assms])
    from consider_revdeps_with [OF this, of env pm "{}" a "c - 1" "set (rdeps_of es0 t)"]
    show "hoare (\<lambda>s. inv_with env es0 pm {} a (c - 1) (set (rdeps_of es0 t)) s \<and> dget (x_entries s) t = Inr e)
      (sfor (rt_revdeps e) consider_revdep) (\<lambda>_. inv_with env es0 pm {} a (c - 1) {}) any_exc"
      unfolding r by (simp add: hoare_pre)
  qed
qed (auto simp: any_exc_def intro: mark_complete_inv [OF assms])

text \<open>A change of the statistics.\<close>

lemma inv_with_stats:
  assumes "inv_with env es0 pm A a c P s" "active st = active (x_stats s) + da" "completed st = completed (x_stats s) + dc"
    "failed st = failed (x_stats s)" "0 \<le> skipped st" "total st = total (x_stats s)"
  shows "inv_with env es0 pm A (a + da) (c + dc) P (s\<lparr>x_stats := st\<rparr>)"
  using assms
  by (auto simp: inv_with_def rest_inv_def active_inv_def counts_inv_def sched_inv_def tasks_inv_def)

lemma inv_with_skipped: "inv_with env es0 pm A a c P s \<Longrightarrow> 0 \<le> skipped (x_stats s)"
  by (simp add: inv_with_def rest_inv_def counts_inv_def)

lemma task_complete_inv:
  assumes "graph_ok es0"
  shows "hoare (inv_with env es0 pm {t} 1 0 {}) (task_complete t) (\<lambda>_. run_inv env es0 pm) any_exc"
  unfolding task_complete_def run_inv_with
proof (rule hoare_supd_bind)
  show "hoare (inv_with env es0 pm {t} 0 1 {}) (task_completeoutright t) (\<lambda>_. inv_with env es0 pm {} 0 0 {}) any_exc"
    using task_completeoutright_inv [OF assms, of env pm t 0 1] by simp
next
  fix s assume s: "inv_with env es0 pm {t} 1 0 {} s"
  show "inv_with env es0 pm {t} 0 1 {} (s\<lparr>x_stats := taskCompleted 1 (x_stats s)\<rparr>)"
    using inv_with_stats [OF s, of "taskCompleted 1 (x_stats s)" "- 1" 1] inv_with_skipped [OF s]
    by (simp add: taskCompleted_def)
qed

text \<open>Failing keeps it: the task is no longer active.\<close>

lemma task_fail_inv:
  "hoare (inv_with env es0 pm {t} 1 0 {}) (task_fail env t) (\<lambda>_. run_inv env es0 pm) any_exc"
  unfolding task_fail_def
proof (rule hoare_supd_bind)
  show "hoare (run_inv env es0 pm) (sbind (sres (\<lambda>_. dget (q_taskData (x_rq env)) []))
      (\<lambda>td. if td_abort td then supd (\<lambda>s. s\<lparr>x_phase := runQueueCleanUp\<rparr>) else sret ()))
    (\<lambda>_. run_inv env es0 pm) any_exc"
    by (rule hoare_sres_bind, intro hoare_if hoare_supd hoare_sret)
      (auto simp: any_exc_def elim: quiet_run_inv simp: same_task_state_def task_state_def)
next
  fix s assume s: "inv_with env es0 pm {t} 1 0 {} s"
  have t: "t \<in> set (x_running s)" "t \<notin> set (x_complete s)" "t \<notin> set (x_failed s)"
    "t \<notin> set (keys (x_build_stamps s))"
    and un: "set (keys (x_build_stamps s)) \<union> {t} = set (x_running s) - set (x_complete s) - set (x_failed s)"
    using s unfolding inv_with_def rest_inv_def active_inv_def by auto
  show "run_inv env es0 pm (s\<lparr>x_stats := taskFailed (x_stats s), x_failed := x_failed s @ [t]\<rparr>)"
    unfolding run_inv_with inv_with_def rest_inv_def
  proof (intro conjI)
    show "active_inv {} (s\<lparr>x_stats := taskFailed (x_stats s), x_failed := x_failed s @ [t]\<rparr>)"
      using s t(4) un unfolding inv_with_def rest_inv_def active_inv_def by auto
  qed (use s t in \<open>auto simp: inv_with_def rest_inv_def counts_inv_def sched_inv_def tasks_inv_def taskFailed_def\<close>)
qed

lemma task_skip_inv:
  assumes g: "graph_ok es0"
  shows "hoare (\<lambda>s. run_inv env es0 pm s \<and> t \<in> set (x_buildable s) \<and> t \<notin> set (x_running s)) (task_skip t)
    (\<lambda>_. run_inv env es0 pm) any_exc"
  unfolding task_skip_def setbuildable_def
proof (rule hoare_supd_bind)
  let ?start = "\<lambda>s. s\<lparr>x_running := sadd t (x_running s)\<rparr>"
  show "hoare (\<lambda>s. inv_with env es0 pm {t} 0 0 {} s \<and> t \<in> set (x_buildable s)) (sbind
       (supd (\<lambda>s. s\<lparr>x_buildable := sadd t (x_buildable s), x_sched := newbuilable t (x_sched s)\<rparr>)) (\<lambda>_.
       sbind (task_completeoutright t) (\<lambda>_. supd (\<lambda>s. s\<lparr>x_stats := taskSkipped 1 (taskCompleted 1 (x_stats s))\<rparr>))))
     (\<lambda>_. run_inv env es0 pm) any_exc"
  proof (rule hoare_supd_bind [where P' = "inv_with env es0 pm {t} 0 0 {}"])
    have "hoare (inv_with env es0 pm {} 0 (0 - 1) {})
      (supd (\<lambda>s. s\<lparr>x_stats := taskSkipped 1 (taskCompleted 1 (x_stats s))\<rparr>)) (\<lambda>_. run_inv env es0 pm) any_exc"
    proof (rule hoare_supd)
      fix s assume s: "inv_with env es0 pm {} 0 (0 - 1) {} s"
      show "run_inv env es0 pm (s\<lparr>x_stats := taskSkipped 1 (taskCompleted 1 (x_stats s))\<rparr>)"
        using inv_with_stats [OF s, of "taskSkipped 1 (taskCompleted 1 (x_stats s))" 0 1] inv_with_skipped [OF s]
        by (simp add: run_inv_with taskCompleted_def taskSkipped_def)
    qed
    with task_completeoutright_inv [OF g, of env pm t 0 0]
    show "hoare (inv_with env es0 pm {t} 0 0 {}) (sbind (task_completeoutright t)
        (\<lambda>_. supd (\<lambda>s. s\<lparr>x_stats := taskSkipped 1 (taskCompleted 1 (x_stats s))\<rparr>))) (\<lambda>_. run_inv env es0 pm) any_exc"
      by (rule hoare_sbind)
  next
    fix s assume s: "inv_with env es0 pm {t} 0 0 {} s \<and> t \<in> set (x_buildable s)"
    let ?s = "s\<lparr>x_buildable := sadd t (x_buildable s), x_sched := newbuilable t (x_sched s)\<rparr>"
    have "t \<in> set (keys es0)" "tasks_inv es0 {} ?s"
      using s unfolding inv_with_def tasks_inv_def by auto
    then show "inv_with env es0 pm {t} 0 0 {} ?s"
      using s sched_inv_setbuildable unfolding inv_with_def by simp
  qed
next
  fix s assume s: "run_inv env es0 pm s \<and> t \<in> set (x_buildable s) \<and> t \<notin> set (x_running s)"
  have "active_inv {t} (s\<lparr>x_running := sadd t (x_running s)\<rparr>)"
    using s unfolding run_inv_def active_inv_def tasks_inv_def by auto
  then show "inv_with env es0 pm {t} 0 0 {} (s\<lparr>x_running := sadd t (x_running s)\<rparr>) \<and>
      t \<in> set (x_buildable (s\<lparr>x_running := sadd t (x_running s)\<rparr>))"
    using s unfolding run_inv_def inv_with_def rest_inv_def
    by (auto simp: tasks_inv_def sched_inv_def counts_inv_def same_graph_def)
qed

section \<open>Messages of the workers\<close>

text \<open>The workers report on tasks they have, on each of them once.\<close>

fun msgs_ok :: "string set \<Rightarrow> worker_msg list \<Rightarrow> bool" where
  "msgs_ok A [] = True"
| "msgs_ok A (ExitCode t status # ms) = (t \<in> A \<and> msgs_ok (A - {t}) ms)"
| "msgs_ok A (WorkerDied # ms) = msgs_ok A ms"

definition active_tasks :: "exec_state \<Rightarrow> string set" where
  "active_tasks s = set (keys (x_build_stamps s))"

definition same_stamps :: "exec_state \<Rightarrow> exec_state \<Rightarrow> bool" where
  "same_stamps s t \<longleftrightarrow> x_build_stamps s = x_build_stamps t"

interpretation held: state_preorder same_stamps
  by unfold_locales (simp_all add: same_stamps_def)

lemma consider_revdep_held: "held.keeps (consider_revdep u)"
  unfolding consider_revdep_def setbuildable_def
  by (auto intro!: held.rules held.update simp: same_stamps_def)

lemma task_completeoutright_held: "held.keeps (task_completeoutright t)"
  unfolding task_completeoutright_def
  by (auto intro!: held.rules held.update consider_revdep_held simp: same_stamps_def)

lemma task_end_held: "held.keeps (task_complete t)" "held.keeps (task_fail env t)"
  unfolding task_complete_def task_fail_def
  by (auto intro!: held.rules held.update task_completeoutright_held simp: same_stamps_def)

lemma hoare_held:
  assumes "hoare P m (\<lambda>_. Q) any_exc" "held.keeps m"
  shows "hoare (\<lambda>s. P s \<and> active_tasks s = A) m (\<lambda>_ s. Q s \<and> active_tasks s = A) any_exc"
proof -
  have "hoare (\<lambda>s. active_tasks s = A) m (\<lambda>_ s. active_tasks s = A) (\<lambda>_ s. active_tasks s = A)"
    by (rule held.hoare_keeps [OF assms(2)]) (simp add: active_tasks_def same_stamps_def)
  from hoare_conj [OF assms(1) this] show ?thesis by (rule hoare_weaken) (simp_all add: any_exc_def)
qed

lemma keys_filter: "keys (filter (\<lambda>(k, _). P k) d) = filter P (keys d)"
  by (induction d) (auto simp: keys_def)

lemma remove_entry:
  assumes "distinct (keys d)" "map_of d k = Some v"
  shows "mset (dvals d) = add_mset v (mset (dvals (filter (\<lambda>(l, _). l \<noteq> k) d)))"
    "length d = Suc (length (filter (\<lambda>(l, _). l \<noteq> k) d))"
proof -
  have "mset (dvals d) = add_mset v (mset (dvals (filter (\<lambda>(l, _). l \<noteq> k) d))) \<and>
    length d = Suc (length (filter (\<lambda>(l, _). l \<noteq> k) d))"
    using assms
  proof (induction d)
    case (Cons p d)
    obtain l w where p: "p = (l, w)" by force
    show ?case
    proof (cases "l = k")
      case True
      then have "filter (\<lambda>(l, _). l \<noteq> k) d = d" using Cons.prems(1) by (force simp: p keys_def filter_id_conv)
      with True Cons.prems(2) show ?thesis by (simp add: p dvals_def)
    next
      case False
      with Cons show ?thesis by (auto simp: p keys_def dvals_def)
    qed
  qed simp
  then show "mset (dvals d) = add_mset v (mset (dvals (filter (\<lambda>(l, _). l \<noteq> k) d)))"
    "length d = Suc (length (filter (\<lambda>(l, _). l \<noteq> k) d))" by blast+
qed

lemma drop_stamp_inv:
  assumes s: "run_inv env es0 pm s" and t: "map_of (x_build_stamps s) t = Some st"
  shows "inv_with env es0 pm {t} 1 0 {} (s\<lparr>x_build_stamps2 := remove1 st (x_build_stamps2 s),
     x_build_stamps := filter (\<lambda>(u, _). u \<noteq> t) (x_build_stamps s)\<rparr>)"
proof -
  let ?s = "s\<lparr>x_build_stamps2 := remove1 st (x_build_stamps2 s),
     x_build_stamps := filter (\<lambda>(u, _). u \<noteq> t) (x_build_stamps s)\<rparr>"
  have a: "active_inv {} s" using s by (simp add: run_inv_def)
  then have d: "distinct (keys (x_build_stamps s))" by (simp add: active_inv_def)
  note R = remove_entry [OF d t]
  have k: "t \<in> set (keys (x_build_stamps s))" using t by (rule map_of_keys)
  have "mset (x_build_stamps2 ?s) = mset (dvals (x_build_stamps ?s))" using a R(1) by (simp add: active_inv_def)
  moreover have "distinct (dvals (x_build_stamps ?s))" using a by (simp add: active_inv_def dvals_def distinct_map_filter)
  moreover have "set (keys (x_build_stamps ?s)) = set (keys (x_build_stamps s)) - {t}" by (auto simp: keys_filter)
  ultimately have "active_inv {t} ?s"
    using a k d unfolding active_inv_def by (auto simp: keys_filter)
  moreover have "counts_inv 1 0 ?s" using s R(2) unfolding run_inv_def counts_inv_def by simp
  ultimately show ?thesis
    using s R(2) unfolding run_inv_def inv_with_def rest_inv_def sched_inv_def tasks_inv_def by simp
qed

lemma waitpid_inv:
  assumes g: "graph_ok es0" and t: "t \<in> A"
  shows "hoare (\<lambda>s. run_inv env es0 pm s \<and> active_tasks s = A) (runqueue_process_waitpid env t status)
    (\<lambda>_ s. run_inv env es0 pm s \<and> active_tasks s = A - {t}) any_exc"
  unfolding runqueue_process_waitpid_def
proof (rule hoare_sget_bind)
  fix v
  let ?P = "\<lambda>s. (run_inv env es0 pm s \<and> active_tasks s = A) \<and> v = map_of (x_build_stamps s) t"
  let ?R = "\<lambda>s. inv_with env es0 pm {t} 1 0 {} s \<and> active_tasks s = A - {t}"
  have "hoare ?P (case v of None \<Rightarrow> sret () | Some st \<Rightarrow>
      sbind (sres (\<lambda>s. if st \<in> set (x_build_stamps2 s) then Inr () else Inl ValueError)) (\<lambda>_.
        supd (\<lambda>s. s\<lparr>x_build_stamps2 := remove1 st (x_build_stamps2 s),
          x_build_stamps := filter (\<lambda>(u, _). u \<noteq> t) (x_build_stamps s)\<rparr>))) (\<lambda>_. ?R) any_exc"
  proof (cases v)
    case None
    have "\<not> ?P s" for s using None t by (auto simp: active_tasks_def set_keys)
    then show ?thesis unfolding hoare_def by blast
  next
    case (Some st)
    show ?thesis
      unfolding Some option.case
    proof (rule hoare_sres_bind)
      fix x
      show "hoare (\<lambda>s. ((run_inv env es0 pm s \<and> active_tasks s = A) \<and> Some st = map_of (x_build_stamps s) t) \<and>
          (if st \<in> set (x_build_stamps2 s) then Inr () else Inl ValueError) = Inr x)
        (supd (\<lambda>s. s\<lparr>x_build_stamps2 := remove1 st (x_build_stamps2 s),
          x_build_stamps := filter (\<lambda>(u, _). u \<noteq> t) (x_build_stamps s)\<rparr>)) (\<lambda>_. ?R) any_exc"
        by (rule hoare_supd) (use drop_stamp_inv in \<open>auto simp: active_tasks_def keys_filter\<close>)
    qed (simp add: any_exc_def)
  qed
  moreover have "hoare ?R (if status \<noteq> 0 then task_fail env t else task_complete t)
    (\<lambda>_ s. run_inv env es0 pm s \<and> active_tasks s = A - {t}) any_exc"
    by (intro hoare_if hoare_held task_end_held task_fail_inv task_complete_inv [OF g])
  ultimately show "hoare ?P (sbind (case v of None \<Rightarrow> sret () | Some st \<Rightarrow>
      sbind (sres (\<lambda>s. if st \<in> set (x_build_stamps2 s) then Inr () else Inl ValueError)) (\<lambda>_.
        supd (\<lambda>s. s\<lparr>x_build_stamps2 := remove1 st (x_build_stamps2 s),
          x_build_stamps := filter (\<lambda>(u, _). u \<noteq> t) (x_build_stamps s)\<rparr>)))
      (\<lambda>_. if status \<noteq> 0 then task_fail env t else task_complete t))
    (\<lambda>_ s. run_inv env es0 pm s \<and> active_tasks s = A - {t}) any_exc"
    by (rule hoare_sbind)
qed

lemma finish_now_quiet: "quiet.keeps finish_now"
  unfolding finish_now_def by (rule quiet.update) (simp add: same_task_state_def task_state_def)

lemma hoare_quiet:
  assumes "quiet.keeps m"
  shows "hoare (\<lambda>s. run_inv env es0 pm s \<and> active_tasks s = A) m (\<lambda>_ s. run_inv env es0 pm s \<and> active_tasks s = A) any_exc"
proof (rule hoare_weaken [OF quiet.hoare_keeps [OF assms]])
  fix s t
  assume "run_inv env es0 pm s \<and> active_tasks s = A" "same_task_state s t"
  then show "run_inv env es0 pm t \<and> active_tasks t = A"
    using quiet_run_inv by (auto simp: same_task_state_def task_state_def active_tasks_def)
qed (simp_all add: any_exc_def)

lemma read_workers_inv:
  assumes g: "graph_ok es0"
  shows "msgs_ok A msgs \<Longrightarrow> hoare (\<lambda>s. run_inv env es0 pm s \<and> active_tasks s = A) (read_workers env msgs)
    (\<lambda>_. run_inv env es0 pm) any_exc"
proof (induction A msgs rule: msgs_ok.induct)
  case (1 A)
  then show ?case by (auto simp: read_workers_def intro!: hoare_sret simp: hoare_def)
next
  case (2 A t status ms)
  have "hoare (\<lambda>s. run_inv env es0 pm s \<and> active_tasks s = A - {t}) (read_workers env ms) (\<lambda>_. run_inv env es0 pm) any_exc"
    using 2 by simp
  moreover have "read_workers env (ExitCode t status # ms) =
      sbind (runqueue_process_waitpid env t status) (\<lambda>_. read_workers env ms)"
    unfolding read_workers_def sfor_Cons by simp
  moreover have "t \<in> A" using 2(2) by simp
  ultimately show ?case using hoare_sbind [OF waitpid_inv [OF g]] by simp
next
  case (3 A ms)
  have "hoare (\<lambda>s. run_inv env es0 pm s \<and> active_tasks s = A) (read_workers env ms) (\<lambda>_. run_inv env es0 pm) any_exc"
    using 3 by simp
  moreover have "read_workers env (WorkerDied # ms) = sbind finish_now (\<lambda>_. read_workers env ms)"
    unfolding read_workers_def sfor_Cons by simp
  ultimately show ?case using hoare_sbind [OF hoare_quiet [OF finish_now_quiet]] by simp
qed

section \<open>Starting a task\<close>

lemma sched_ok_keys: "sched_ok es0 pm sc \<Longrightarrow> keys es = keys es0 \<Longrightarrow> sched_ok es pm sc"
  by (simp add: sched_ok_def)

text \<open>
  What the scheduler returns: a task with a free stamp that can be started, or nothing if the
  workers have enough or every buildable task would use a stamp in use.
\<close>

definition chosen :: "exec_env \<Rightarrow> string option \<Rightarrow> exec_state \<Rightarrow> bool" where
  "chosen env r s \<longleftrightarrow> (case r of
     Some t \<Rightarrow> t \<in> set (x_buildable s) \<and> t \<notin> set (x_running s) \<and> active (x_stats s) < x_number_tasks env \<and>
       (\<exists>st. stamp_of env t = Inr st \<and> st \<notin> set (dvals (x_build_stamps s)))
   | None \<Rightarrow> active (x_stats s) \<ge> x_number_tasks env \<or>
       (\<forall>t \<in> set (x_buildable s) - set (x_running s). \<exists>st. stamp_of env t = Inr st \<and> st \<in> set (dvals (x_build_stamps s))))"

lemma quiet_chosen: "chosen env r s \<Longrightarrow> same_task_state s t \<Longrightarrow> chosen env r t"
  by (cases r) (auto simp: chosen_def same_task_state_def task_state_def)

lemma chosen_sched [simp]: "chosen env r (s\<lparr>x_sched := sc\<rparr>) = chosen env r s"
  by (cases r) (simp_all add: chosen_def)

lemma hoare_quiet_inv:
  assumes "quiet.keeps m"
  shows "hoare (\<lambda>s. run_inv env es0 pm s \<and> chosen env r s) m (\<lambda>_ s. run_inv env es0 pm s \<and> chosen env r s) any_exc"
    "hoare (run_inv env es0 pm) m (\<lambda>_. run_inv env es0 pm) any_exc"
proof -
  have "run_inv env es0 pm u \<and> chosen env r u" if "run_inv env es0 pm s \<and> chosen env r s" "same_task_state s u" for s u
    using that quiet_run_inv quiet_chosen by blast
  from quiet.hoare_keeps [OF assms this]
  show "hoare (\<lambda>s. run_inv env es0 pm s \<and> chosen env r s) m (\<lambda>_ s. run_inv env es0 pm s \<and> chosen env r s) any_exc"
    by (rule hoare_weaken) (simp_all add: any_exc_def)
  from quiet.hoare_keeps [OF assms quiet_run_inv]
  show "hoare (run_inv env es0 pm) m (\<lambda>_. run_inv env es0 pm) any_exc"
    by (rule hoare_weaken) (simp_all add: any_exc_def)
qed

lemma next_task_inv:
  "hoare (run_inv env es0 pm) (next_task env) (\<lambda>r s. run_inv env es0 pm s \<and> chosen env r s) any_exc"
  unfolding next_task_def
proof (rule hoare_sres_bind)
  fix v :: "string option \<times> scheduler"
  obtain r sc where v: "v = (r, sc)" by force
  let ?P = "\<lambda>s. run_inv env es0 pm s \<and> sched_next (x_entries s) (x_number_tasks env) (x_stats s) (x_running s)
    (dvals (x_build_stamps s)) (x_sched s) = Inr v"
  show "hoare ?P (case v of (r, sc) \<Rightarrow> sbind (supd (\<lambda>s. s\<lparr>x_sched := sc\<rparr>)) (\<lambda>_. sret r))
    (\<lambda>r s. run_inv env es0 pm s \<and> chosen env r s) any_exc"
    unfolding v prod.case
  proof (rule hoare_supd_bind [where P' = "\<lambda>s. run_inv env es0 pm s \<and> chosen env r s"])
    fix s
    assume s: "run_inv env es0 pm s \<and> sched_next (x_entries s) (x_number_tasks env) (x_stats s) (x_running s)
      (dvals (x_build_stamps s)) (x_sched s) = Inr (r, sc)"
    then have i: "sched_inv env es0 pm s" and k: "keys (x_entries s) = keys es0"
      by (simp_all add: run_inv_def same_graph_def)
    show "run_inv env es0 pm (s\<lparr>x_sched := sc\<rparr>) \<and> chosen env r (s\<lparr>x_sched := sc\<rparr>)"
    proof (cases "active (x_stats s) < x_number_tasks env")
      case False
      with s have "r = None" "sc = x_sched s" by (simp_all add: sched_next_def)
      then show ?thesis using s False by (simp add: chosen_def)
    next
      case True
      let ?C = "candidates (x_sched s) (x_running s) (dvals (x_build_stamps s))"
      have ok: "sched_ok (x_entries s) pm (x_sched s)"
        using i k sched_ok_keys by (auto simp: sched_inv_def)
      from s True have "next_buildable_task (x_entries s) (x_running s) (dvals (x_build_stamps s)) (x_sched s) = Inr (r, sc)"
        by (simp add: sched_next_def)
      with next_buildable_task_result [OF ok, of "x_running s" "dvals (x_build_stamps s)"]
      have sc: "sc = x_sched s\<lparr>sc_buildable := filter (\<lambda>x. x \<notin> set (x_running s)) (sc_buildable (x_sched s))\<rparr>"
        and c: "case r of None \<Rightarrow> ?C = {} | Some t \<Rightarrow> t \<in> ?C" by (auto split: option.splits)
      have st: "\<exists>st. map_of (sc_stamps (x_sched s)) t = Some st \<and> stamp_of env t = Inr st" if "t \<in> set (x_buildable s)" for t
      proof -
        have "t \<in> set (keys es0)" using that s by (auto simp: run_inv_def tasks_inv_def)
        then have "t \<in> set (keys (sc_stamps (x_sched s)))" using i by (simp add: sched_inv_def sched_ok_def)
        then show ?thesis using i by (auto simp: set_keys sched_inv_def)
      qed
      have "chosen env r s"
      proof (cases r)
        case None
        have "\<exists>st. stamp_of env t = Inr st \<and> st \<in> set (dvals (x_build_stamps s))"
          if t: "t \<in> set (x_buildable s) - set (x_running s)" for t
        proof -
          from t i have "t \<in> set (sc_buildable (x_sched s))" by (auto simp: sched_inv_def)
          with t st [of t] c None show ?thesis by (auto simp: candidates_def)
        qed
        with None show ?thesis by (simp add: chosen_def)
      next
        case (Some t)
        with c i st [of t] True show ?thesis by (auto simp: chosen_def candidates_def sched_inv_def)
      qed
      moreover have "sched_inv env es0 pm (s\<lparr>x_sched := sc\<rparr>)"
        using i by (auto simp: sched_inv_def sc sched_ok_def)
      ultimately show ?thesis
        using s by (simp add: run_inv_def tasks_inv_def active_inv_def counts_inv_def)
    qed
  qed (rule hoare_sret, assumption)
qed (simp add: any_exc_def)

lemma same_graph_dset:
  assumes "same_graph es0 X es" "map_of es t = Some e" "rt_revdeps e' = rt_revdeps e"
  shows "same_graph es0 (insert t X) (dset t e' es)"
proof -
  have "rdeps_of (dset t e' es) u = rdeps_of es u" for u using assms(2,3) by (simp add: rdeps_of_def)
  moreover have "deps_of (dset t e' es) u = deps_of es u" if "u \<noteq> t" for u using that by (simp add: deps_of_def)
  ultimately show ?thesis
    using assms(1) map_of_keys [OF assms(2)] by (simp add: same_graph_def keys_dset_mem)
qed

text \<open>Between sending the message and noting that the task runs.\<close>

definition starting :: "exec_env \<Rightarrow> run_tasks \<Rightarrow> string list \<Rightarrow> string \<Rightarrow> exec_state \<Rightarrow> bool" where
  "starting env es0 pm t s \<longleftrightarrow> same_graph es0 (insert t (set (x_running s))) (x_entries s) \<and> sched_inv env es0 pm s \<and>
     tasks_inv es0 {} s \<and> active_inv {} s \<and> counts_inv 0 0 s \<and> chosen env (Some t) s"

lemma starting_quiet: "starting env es0 pm t s \<Longrightarrow> same_task_state s u \<Longrightarrow> starting env es0 pm t u"
  using task_state_inv(2-5) [of s u] quiet_chosen [of env "Some t" s u]
  unfolding starting_def same_task_state_def by (simp add: task_state_def)

lemma send_task_inv:
  assumes "x_fakeworker_starts env"
  shows "hoare (\<lambda>s. run_inv env es0 pm s \<and> chosen env (Some t) s) (send_task env fakeroot t)
    (\<lambda>sent s. sent \<and> starting env es0 pm t s) any_exc"
proof -
  have "hoare (\<lambda>s. run_inv env es0 pm s \<and> chosen env (Some t) s) (build_taskdepdata env t)
    (\<lambda>_. starting env es0 pm t) any_exc"
    unfolding build_taskdepdata_def Let_def
  proof (rule hoare_sres_bind, rule hoare_supd_bind [where P' = "starting env es0 pm t"])
    fix e s
    assume s: "(run_inv env es0 pm s \<and> chosen env (Some t) s) \<and> dget (x_entries s) t = Inr e"
    then have "same_graph es0 (insert t (set (x_running s))) (dset t (e\<lparr>rt_depends := sadd t (rt_depends e)\<rparr>) (x_entries s))"
      by (intro same_graph_dset) (auto simp: run_inv_def)
    then show "starting env es0 pm t (s\<lparr>x_entries := dset t (e\<lparr>rt_depends := sadd t (rt_depends e)\<rparr>) (x_entries s)\<rparr>)"
      using s by (simp add: starting_def run_inv_def sched_inv_def tasks_inv_def active_inv_def counts_inv_def chosen_def)
  qed (auto intro: hoare_sres simp: any_exc_def)
  moreover have "hoare (starting env es0 pm t)
    (sbind (sget (\<lambda>s. fakeroot \<and> \<not> x_fakeworker s \<and> \<not> x_fakeworker_starts env)) (\<lambda>fails.
       if fails then sbind (supd (\<lambda>s. s\<lparr>x_phase := runQueueFailed, x_stats := taskFailed (x_stats s)\<rparr>)) (\<lambda>_. sret False)
       else sbind (supd (\<lambda>s. s\<lparr>x_fakeworker := x_fakeworker s \<or> fakeroot,
           x_sent := x_sent s @ [(fakeroot, t, d)]\<rparr>)) (\<lambda>_. sret True)))
    (\<lambda>sent s. sent \<and> starting env es0 pm t s) any_exc" for d
  proof (rule hoare_sget_bind, rule hoare_if)
    fix v assume v
    show "hoare (\<lambda>s. starting env es0 pm t s \<and> v = (fakeroot \<and> \<not> x_fakeworker s \<and> \<not> x_fakeworker_starts env))
      (sbind (supd (\<lambda>s. s\<lparr>x_phase := runQueueFailed, x_stats := taskFailed (x_stats s)\<rparr>)) (\<lambda>_. sret False))
      (\<lambda>sent s. sent \<and> starting env es0 pm t s) any_exc"
      using \<open>v\<close> assms by (simp add: hoare_def)
  next
    fix v
    show "hoare (\<lambda>s. starting env es0 pm t s \<and> v = (fakeroot \<and> \<not> x_fakeworker s \<and> \<not> x_fakeworker_starts env))
      (sbind (supd (\<lambda>s. s\<lparr>x_fakeworker := x_fakeworker s \<or> fakeroot, x_sent := x_sent s @ [(fakeroot, t, d)]\<rparr>)) (\<lambda>_. sret True))
      (\<lambda>sent s. sent \<and> starting env es0 pm t s) any_exc"
    proof (rule hoare_supd_bind [where P' = "starting env es0 pm t"])
      show "starting env es0 pm t (s\<lparr>x_fakeworker := x_fakeworker s \<or> fakeroot, x_sent := x_sent s @ [(fakeroot, t, d)]\<rparr>)"
        if "starting env es0 pm t s \<and> v = (fakeroot \<and> \<not> x_fakeworker s \<and> \<not> x_fakeworker_starts env)" for s
        by (rule starting_quiet [of _ _ _ _ s]) (use that in \<open>simp_all add: same_task_state_def task_state_def\<close>)
    qed (simp add: hoare_sret)
  qed
  ultimately show ?thesis unfolding send_task_def by (rule hoare_sbind)
qed

lemma start_task_inv:
  "hoare (starting env es0 pm t) (start_task env t) (\<lambda>_. run_inv env es0 pm) any_exc"
  unfolding start_task_def
proof (rule hoare_sres_bind, rule hoare_supd)
  fix st s
  assume "starting env es0 pm t s \<and> rbind (split_tid_mcfn t) (\<lambda>(mc, fn, taskname, taskfn).
    task_stamp env mc taskfn taskname True) = Inr st"
  then have s: "starting env es0 pm t s" and st: "stamp_of env t = Inr st" by (simp_all add: stamp_of_def)
  have a: "active_inv {} s" and c: "counts_inv 0 0 s" and ch: "chosen env (Some t) s"
    using s by (simp_all add: starting_def)
  have t: "t \<notin> set (x_running s)" "t \<in> set (x_buildable s)" "st \<notin> set (dvals (x_build_stamps s))"
    using ch st by (auto simp: chosen_def)
  then have new: "t \<notin> set (keys (x_build_stamps s))" using a by (auto simp: active_inv_def)
  have n: "int (length (x_build_stamps s)) < x_number_tasks env"
    using ch c by (simp add: chosen_def counts_inv_def)
  let ?s = "s\<lparr>x_build_stamps := dset t st (x_build_stamps s), x_build_stamps2 := x_build_stamps2 s @ [st],
         x_running := sadd t (x_running s), x_stats := taskActive (x_stats s)\<rparr>"
  have d: "dset t st (x_build_stamps s) = x_build_stamps s @ [(t, st)]" by (rule dset_new [OF new])
  have "t \<notin> set (x_complete s)" "t \<notin> set (x_failed s)" using s t(1) by (auto simp: starting_def tasks_inv_def)
  then have "active_inv {} ?s"
    using a new t(1,3) unfolding active_inv_def d by (auto simp: keys_def dvals_def)
  moreover have "counts_inv 0 0 ?s" using c unfolding counts_inv_def by (simp add: d taskActive_def)
  moreover have "sched_inv env es0 pm ?s" using s n unfolding starting_def sched_inv_def by (auto simp: d)
  moreover have "tasks_inv es0 {} ?s" using s t unfolding starting_def tasks_inv_def by (auto simp: taskActive_def)
  ultimately show "run_inv env es0 pm ?s" using s unfolding starting_def run_inv_def by simp
qed (simp add: any_exc_def)

lemma run_noexec_inv:
  assumes g: "graph_ok es0"
  shows "hoare (\<lambda>s. run_inv env es0 pm s \<and> chosen env (Some t) s) (run_noexec env now t) (\<lambda>_. run_inv env es0 pm) any_exc"
  unfolding run_noexec_def
proof (rule hoare_sres_bind)
  fix v :: "string \<times> string \<times> string \<times> string"
  obtain mc fn tn tf where v: "v = (mc, fn, tn, tf)" by (cases v)
  let ?stamp = "if x_dry_run env then sret ()
    else sbind (sres (\<lambda>s. rbind (dget (q_dataCaches (x_rq env)) mc) (\<lambda>dc.
               make_stamp (x_siggen env) now tn (Core dc tf) (x_files s)))) (\<lambda>(_, fs).
             supd (\<lambda>s. s\<lparr>x_files := fs\<rparr>))"
  have "quiet.keeps ?stamp"
    by (auto intro!: quiet.rules quiet.update split: prod.split simp: same_task_state_def task_state_def)
  then have q: "hoare (inv_with env es0 pm {t} 1 0 {}) ?stamp (\<lambda>_. inv_with env es0 pm {t} 1 0 {}) any_exc"
  proof (rule hoare_weaken [OF quiet.hoare_keeps])
    fix s u assume "inv_with env es0 pm {t} 1 0 {} s" "same_task_state s u"
    then show "inv_with env es0 pm {t} 1 0 {} u"
      using task_state_inv(2-5) [of s u] unfolding same_task_state_def inv_with_def rest_inv_def
      by (simp add: task_state_def)
  qed (simp_all add: any_exc_def)
  show "hoare (\<lambda>s. (run_inv env es0 pm s \<and> chosen env (Some t) s) \<and> split_tid_mcfn t = Inr v)
    (case v of (mc, fn, taskname, taskfn) \<Rightarrow>
      sbind (supd (\<lambda>s. s\<lparr>x_running := sadd t (x_running s), x_stats := taskActive (x_stats s)\<rparr>)) (\<lambda>_.
      sbind (if x_dry_run env then sret ()
        else sbind (sres (\<lambda>s. rbind (dget (q_dataCaches (x_rq env)) mc) (\<lambda>dc.
               make_stamp (x_siggen env) now taskname (Core dc taskfn) (x_files s)))) (\<lambda>(_, fs).
             supd (\<lambda>s. s\<lparr>x_files := fs\<rparr>))) (\<lambda>_. task_complete t)))
    (\<lambda>_. run_inv env es0 pm) any_exc"
    unfolding v prod.case
  proof (rule hoare_supd_bind [OF hoare_sbind [OF q task_complete_inv [OF g]]])
    fix s assume "(run_inv env es0 pm s \<and> chosen env (Some t) s) \<and> split_tid_mcfn t = Inr (mc, fn, tn, tf)"
    then have s: "run_inv env es0 pm s" and t: "t \<in> set (x_buildable s)" "t \<notin> set (x_running s)"
      by (auto simp: chosen_def)
    let ?s = "s\<lparr>x_running := sadd t (x_running s), x_stats := taskActive (x_stats s)\<rparr>"
    have "active_inv {t} ?s" "tasks_inv es0 {} ?s" "counts_inv 1 0 ?s" "sched_inv env es0 pm ?s"
      using s t by (auto simp: run_inv_def active_inv_def tasks_inv_def counts_inv_def taskActive_def sched_inv_def)
    then show "inv_with env es0 pm {t} 1 0 {} ?s"
      using s by (auto simp: inv_with_def rest_inv_def run_inv_def same_graph_def)
  qed
qed (simp add: any_exc_def)

section \<open>One call of \<open>execute\<close>\<close>

lemma execute_task_inv:
  assumes g: "graph_ok es0" and fw: "x_fakeworker_starts env"
  shows "hoare (\<lambda>s. run_inv env es0 pm s \<and> chosen env (Some t) s) (execute_task env now t)
    (\<lambda>again s. run_inv env es0 pm s \<and> (\<not> again \<longrightarrow> active (x_stats s) \<ge> x_number_tasks env)) any_exc"
proof -
  let ?P = "\<lambda>s. run_inv env es0 pm s \<and> chosen env (Some t) s"
  let ?Q = "\<lambda>again s. run_inv env es0 pm s \<and> (\<not> again \<longrightarrow> active (x_stats s) \<ge> x_number_tasks env)"
  have skip: "hoare ?P (sbind (task_skip t) (\<lambda>_. sret True)) ?Q any_exc"
    by (rule hoare_sbind [OF hoare_pre [OF task_skip_inv [OF g]]]) (auto simp: chosen_def intro: hoare_sret)
  have noexec: "hoare ?P (sbind (run_noexec env now t) (\<lambda>_. sret True)) ?Q any_exc"
    by (rule hoare_sbind [OF run_noexec_inv [OF g]]) (auto intro: hoare_sret)
  have started: "hoare (\<lambda>s. sent \<and> starting env es0 pm t s) (if \<not> sent then sret True
      else sbind (start_task env t) (\<lambda>_. sget (\<lambda>s. active (x_stats s) < x_number_tasks env))) ?Q any_exc" for sent
    by (rule hoare_if, simp add: hoare_def, rule hoare_sbind [OF hoare_pre [OF start_task_inv]])
      (auto intro: hoare_sget)
  have send: "hoare ?P (sbind (send_task env fk t) (\<lambda>sent. if \<not> sent then sret True
      else sbind (start_task env t) (\<lambda>_. sget (\<lambda>s. active (x_stats s) < x_number_tasks env)))) ?Q any_exc" for fk
    by (rule hoare_sbind [OF send_task_inv [OF fw] started])
  have check: "hoare ?P (sbind (check_stamp env rec t name) m) ?Q any_exc" if "\<And>v. hoare ?P (m v) ?Q any_exc" for rec name m
    by (rule hoare_sbind [OF hoare_quiet_inv(1) [OF check_stamp_quiet]]) (rule that)
  show ?thesis
    unfolding execute_task_def
    by (intro hoare_sres_any hoare_sget_any hoare_case4 hoare_if skip check noexec send) (simp_all add: any_exc_def)
qed

lemma execute_choice_inv:
  assumes g: "graph_ok es0" and fw: "x_fakeworker_starts env"
  shows "hoare (run_inv env es0 pm) (sbind (next_task env) (\<lambda>task. case task of None \<Rightarrow> sret False | Some t \<Rightarrow> execute_task env now t))
    (\<lambda>again s. run_inv env es0 pm s \<and> (\<not> again \<longrightarrow> active (x_stats s) \<ge> x_number_tasks env \<or> chosen env None s)) any_exc"
proof (rule hoare_sbind [OF next_task_inv])
  fix r
  show "hoare (\<lambda>s. run_inv env es0 pm s \<and> chosen env r s) (case r of None \<Rightarrow> sret False | Some t \<Rightarrow> execute_task env now t)
    (\<lambda>again s. run_inv env es0 pm s \<and> (\<not> again \<longrightarrow> active (x_stats s) \<ge> x_number_tasks env \<or> chosen env None s)) any_exc"
  proof (cases r)
    case None
    then show ?thesis by (auto intro: hoare_sret)
  next
    case (Some t)
    show ?thesis
      unfolding Some option.case by (rule hoare_weaken [OF execute_task_inv [OF g fw]]) auto
  qed
qed

text \<open>Passing over all tasks: no task is given to a worker, and none fails.\<close>

definition same_held :: "exec_state \<Rightarrow> exec_state \<Rightarrow> bool" where
  "same_held s t \<longleftrightarrow> x_build_stamps s = x_build_stamps t \<and> x_failed s = x_failed t"

interpretation idle: state_preorder same_held
  by unfold_locales (simp_all add: same_held_def)

lemma task_skip_idle: "idle.keeps (task_skip t)"
proof -
  have "idle.keeps (consider_revdep u)" for u
    unfolding consider_revdep_def setbuildable_def by (auto intro!: idle.rules idle.update simp: same_held_def)
  then have "idle.keeps (task_completeoutright t)"
    unfolding task_completeoutright_def by (auto intro!: idle.rules idle.update simp: same_held_def)
  then show ?thesis
    unfolding task_skip_def setbuildable_def by (auto intro!: idle.rules idle.update simp: same_held_def)
qed

definition idle_inv :: "exec_env \<Rightarrow> run_tasks \<Rightarrow> string list \<Rightarrow> bool \<Rightarrow> exec_state \<Rightarrow> bool" where
  "idle_inv env es0 pm died s \<longleftrightarrow> run_inv env es0 pm s \<and> (died \<or> x_build_stamps s = [] \<and> x_failed s = [])"

lemma quiet_idle_inv: "idle_inv env es0 pm died s \<Longrightarrow> same_task_state s t \<Longrightarrow> idle_inv env es0 pm died t"
  using quiet_run_inv [of env es0 pm s t] unfolding idle_inv_def
  by (auto simp: same_task_state_def task_state_def)

lemma skip_all_inv:
  assumes g: "graph_ok es0"
  shows "hoare (idle_inv env es0 pm died) (skip_all n env) (\<lambda>_ s. idle_inv env es0 pm died s \<and> chosen env None s) any_exc"
proof (induction n)
  case 0
  then show ?case by (simp add: hoare_sraise any_exc_def)
next
  case (Suc n)
  have "idle.keeps (next_task env)"
    unfolding next_task_def by (auto intro!: idle.rules idle.update split: prod.split simp: same_held_def)
  from hoare_conj [OF next_task_inv idle.hoare_keeps [OF this, of "\<lambda>s. died \<or> x_build_stamps s = [] \<and> x_failed s = []"]]
  have 1: "hoare (idle_inv env es0 pm died) (next_task env) (\<lambda>r s. idle_inv env es0 pm died s \<and> chosen env r s) any_exc"
    by (rule hoare_weaken) (auto simp: idle_inv_def same_held_def any_exc_def)
  have 2: "hoare (\<lambda>s. idle_inv env es0 pm died s \<and> chosen env (Some t) s) (task_skip t) (\<lambda>_. idle_inv env es0 pm died) any_exc" for t
    using hoare_conj [OF task_skip_inv [OF g] idle.hoare_keeps [OF task_skip_idle, of "\<lambda>s. died \<or> x_build_stamps s = [] \<and> x_failed s = []"]]
    by (rule hoare_weaken) (auto simp: idle_inv_def same_held_def any_exc_def chosen_def)
  have 3: "hoare (\<lambda>s. idle_inv env es0 pm died s \<and> chosen env (Some t) s) (check_norun_task env t)
      (\<lambda>_ s. idle_inv env es0 pm died s \<and> chosen env (Some t) s) any_exc" for t
  proof -
    have "idle_inv env es0 pm died u \<and> chosen env (Some t) u"
      if "idle_inv env es0 pm died s \<and> chosen env (Some t) s" "same_task_state s u" for s u
      using that quiet_idle_inv quiet_chosen by blast
    from quiet.hoare_keeps [OF check_norun_task_quiet this] show ?thesis
      by (rule hoare_weaken) (simp_all add: any_exc_def)
  qed
  show ?case
    unfolding skip_all.simps
  proof (rule hoare_sbind [OF 1])
    fix r
    show "hoare (\<lambda>s. idle_inv env es0 pm died s \<and> chosen env r s) (case r of None \<Rightarrow> sret ()
        | Some t \<Rightarrow> sbind (check_norun_task env t) (\<lambda>_. sbind (task_skip t) (\<lambda>_. skip_all n env)))
      (\<lambda>_ s. idle_inv env es0 pm died s \<and> chosen env None s) any_exc"
    proof (cases r)
      case None
      then show ?thesis by (auto intro: hoare_sret)
    next
      case (Some t)
      show ?thesis
        unfolding Some option.case by (rule hoare_sbind [OF 3 hoare_sbind [OF 2 Suc.IH]])
    qed
  qed
qed

section \<open>When nothing is left\<close>

definition all_done :: "run_tasks \<Rightarrow> exec_state \<Rightarrow> bool" where
  "all_done es0 s \<longleftrightarrow> set (keys es0) \<subseteq> set (x_complete s)"

lemma stuck_done:
  assumes g: "graph_ok es0" and ac: "acyclic (dep_rel es0)" and s: "run_inv env es0 pm s"
    and n: "0 < x_number_tasks env" and c: "chosen env None s" "x_build_stamps s = []" "x_failed s = []"
  shows "all_done es0 s"
proof -
  have "active (x_stats s) = 0" using s c(2) by (simp add: run_inv_def counts_inv_def)
  with c n have "set (x_buildable s) \<subseteq> set (x_running s)" by (auto simp: chosen_def dvals_def)
  moreover have "set (x_running s) \<subseteq> set (x_complete s)"
    using s c by (auto simp: run_inv_def active_inv_def keys_def)
  ultimately have b: "set (x_buildable s) \<subseteq> set (x_complete s)" by blast
  have "wf ((dep_rel es0)\<inverse>)" by (rule finite_acyclic_wf_converse [OF dep_rel_finite ac])
  then have "t \<in> set (keys es0) \<Longrightarrow> t \<in> set (x_complete s)" for t
  proof (induction t rule: wf_induct_rule)
    case (less t)
    have "d \<in> set (x_complete s)" if "d \<in> set (deps_of es0 t)" for d
      using less(1) [of d] that graph_okD(4) [OF g, of t] by (auto simp: dep_rel_def)
    with less(2) s have "t \<in> set (x_buildable s)" by (auto simp: run_inv_def tasks_inv_def)
    with b show ?case by blast
  qed
  then show ?thesis unfolding all_done_def by blast
qed

section \<open>Phases\<close>

definition whitelist_used :: "exec_env \<Rightarrow> bool" where
  "whitelist_used env \<longleftrightarrow> x_setscenewhitelist env \<noteq> None \<and> x_setscenewhitelist env \<noteq> Some []"

text \<open>Why the phase is what it is, between two calls.\<close>

definition phase_inv :: "exec_env \<Rightarrow> run_tasks \<Rightarrow> exec_state \<Rightarrow> bool" where
  "phase_inv env es0 s \<longleftrightarrow>
     (x_phase s = runQueueCleanUp \<longrightarrow> x_failed s \<noteq> [] \<or> all_done es0 s) \<and>
     (x_phase s = runQueueFailed \<longrightarrow> x_failed s \<noteq> []) \<and>
     (x_phase s = runQueueComplete \<longrightarrow> x_failed s = [] \<and> all_done es0 s) \<and>
     (whitelist_used env \<and> \<not> x_whitelist_checked s \<longrightarrow>
        x_phase s = runQueueRunning \<and> x_build_stamps s = [] \<and> x_failed s = [])"

text \<open>And during one.\<close>

definition calm :: "exec_env \<Rightarrow> run_tasks \<Rightarrow> exec_state \<Rightarrow> bool" where
  "calm env es0 s \<longleftrightarrow> (whitelist_used env \<longrightarrow> x_whitelist_checked s) \<and>
     (x_phase s = runQueueRunning \<or> x_phase s = runQueueCleanUp \<and> (x_failed s \<noteq> [] \<or> all_done es0 s))"

lemma calm_phase_inv: "calm env es0 s \<Longrightarrow> phase_inv env es0 s"
  by (auto simp: calm_def phase_inv_def)

definition grows :: "exec_state \<Rightarrow> exec_state \<Rightarrow> bool" where
  "grows s t \<longleftrightarrow> set (x_failed s) \<subseteq> set (x_failed t) \<and> set (x_complete s) \<subseteq> set (x_complete t) \<and>
     (x_whitelist_checked s \<longrightarrow> x_whitelist_checked t) \<and>
     (x_phase t = x_phase s \<or> x_phase t = runQueueCleanUp \<and> x_failed t \<noteq> [])"

interpretation growing: state_preorder grows
proof
  show "grows s s" for s by (simp add: grows_def)
  show "grows s u" if "grows s t" "grows t u" for s t u
    using that by (auto simp: grows_def)
qed

lemma grows_calm: "calm env es0 s \<Longrightarrow> grows s t \<Longrightarrow> calm env es0 t"
  by (auto simp: calm_def grows_def all_done_def)

lemma hoare_grows:
  assumes "growing.keeps m" "hoare P m Q any_exc"
  shows "hoare (\<lambda>s. P s \<and> calm env es0 s) m (\<lambda>x s. Q x s \<and> calm env es0 s) any_exc"
  using hoare_conj [OF assms(2) growing.hoare_keeps [OF assms(1) grows_calm]]
  by (rule hoare_weaken) (auto simp: any_exc_def)

lemma consider_revdep_growing: "growing.keeps (consider_revdep u)"
  unfolding consider_revdep_def setbuildable_def
  by (auto intro!: growing.rules growing.update simp: grows_def)

lemma ends_growing:
  "growing.keeps (task_completeoutright t)" "growing.keeps (task_complete t)"
  "growing.keeps (task_fail env t)" "growing.keeps (task_skip t)"
proof -
  show 1: "growing.keeps (task_completeoutright t)"
    unfolding task_completeoutright_def
    by (auto intro!: growing.rules growing.update consider_revdep_growing simp: grows_def)
  show "growing.keeps (task_complete t)" "growing.keeps (task_skip t)"
    unfolding task_complete_def task_skip_def setbuildable_def
    by (auto intro!: growing.rules growing.update 1 simp: grows_def)
  have "growing.keeps (supd (\<lambda>s. s\<lparr>x_stats := taskFailed (x_stats s), x_failed := x_failed s @ [t]\<rparr>))"
    by (rule growing.update) (auto simp: grows_def)
  moreover have "grows s (snd (task_fail env t s))" for s
    by (auto simp: task_fail_def sm_defs grows_def split: sum.split)
  ultimately show "growing.keeps (task_fail env t)" unfolding growing.keeps_def by blast
qed

lemma read_workers_growing:
  assumes "WorkerDied \<notin> set msgs"
  shows "growing.keeps (read_workers env msgs)"
  unfolding read_workers_def
proof (rule growing.loop)
  fix m assume "m \<in> set msgs"
  with assms obtain t st where "m = ExitCode t st" by (cases m) auto
  then show "growing.keeps (case m of ExitCode task status \<Rightarrow> runqueue_process_waitpid env task status | WorkerDied \<Rightarrow> finish_now)"
    by (auto simp: runqueue_process_waitpid_def grows_def split: option.split
        intro!: growing.rules growing.update ends_growing)
qed

lemma check_stamp_growing: "growing.keeps (check_stamp env recurse tid name)"
  unfolding check_stamp_def
  by (auto split: prod.split intro!: growing.rules growing.update simp: grows_def)

lemma next_task_growing: "growing.keeps (next_task env)"
  unfolding next_task_def by (auto split: prod.split intro!: growing.rules growing.update simp: grows_def)

lemma any_norun_growing: "growing.keeps (check_norun_task env t)" "growing.keeps (any_norun env ts)"
proof -
  show 1: "growing.keeps (check_norun_task env t)" for t
    unfolding check_norun_task_def by (auto split: prod.split intro!: growing.rules check_stamp_growing)
  show "growing.keeps (any_norun env ts)" by (induction ts) (auto intro!: growing.rules 1)
qed

lemma skip_all_growing: "growing.keeps (skip_all n env)"
  by (induction n) (auto intro!: growing.rules next_task_growing any_norun_growing ends_growing split: option.split)

lemma sbind_sget_False: "sbind (sget (\<lambda>_. False)) f = f False"
  by (simp add: fun_eq_iff sbind_def sget_def)

lemma execute_task_growing:
  assumes "x_fakeworker_starts env"
  shows "growing.keeps (execute_task env now t)"
proof -
  have "growing.keeps (send_task env fk t)" for fk
    unfolding send_task_def build_taskdepdata_def Let_def
    by (auto simp: assms sbind_sget_False grows_def intro!: growing.rules growing.update)
  then show ?thesis
    unfolding execute_task_def run_noexec_def start_task_def
    by (auto split: prod.split intro!: growing.rules growing.update check_stamp_growing ends_growing simp: grows_def)
qed

text \<open>
  The operations leave the invariant, and if no worker dies also the reason for the phase.
  \<open>died\<close> says whether a worker may die.
\<close>

definition good :: "exec_env \<Rightarrow> run_tasks \<Rightarrow> string list \<Rightarrow> bool \<Rightarrow> exec_state \<Rightarrow> bool" where
  "good env es0 pm died s \<longleftrightarrow> run_inv env es0 pm s \<and> (died \<or> calm env es0 s)"

lemma hoare_good:
  assumes "hoare P m Q any_exc" "\<not> died \<Longrightarrow> growing.keeps m"
  shows "hoare (\<lambda>s. P s \<and> (died \<or> calm env es0 s)) m (\<lambda>x s. Q x s \<and> (died \<or> calm env es0 s)) any_exc"
proof (cases died)
  case True
  then show ?thesis using assms(1) by simp
next
  case False
  then show ?thesis using hoare_grows [OF assms(2) assms(1)] by simp
qed

lemma read_workers_good:
  assumes "graph_ok es0" "msgs_ok A msgs" "WorkerDied \<in> set msgs \<Longrightarrow> died"
  shows "hoare (\<lambda>s. (run_inv env es0 pm s \<and> active_tasks s = A) \<and> (died \<or> calm env es0 s)) (read_workers env msgs)
    (\<lambda>_. good env es0 pm died) any_exc"
  unfolding good_def [abs_def]
  by (rule hoare_good [OF read_workers_inv [OF assms(1,2)] read_workers_growing]) (use assms(3) in blast)

lemma enforce_whitelist_good:
  assumes g: "graph_ok es0" "acyclic (dep_rel es0)" and n: "0 < x_number_tasks env"
  shows "hoare (\<lambda>s. run_inv env es0 pm s \<and> active_tasks s = A \<and> x_phase s = runQueueRunning \<and> (died \<or> phase_inv env es0 s))
    (enforce_whitelist env)
    (\<lambda>ended s. run_inv env es0 pm s \<and> (\<not> ended \<longrightarrow> active_tasks s = A) \<and> (died \<or> calm env es0 s)) any_exc"
  unfolding enforce_whitelist_def
proof (rule hoare_sget_bind, rule hoare_if)
  let ?pre = "\<lambda>s. run_inv env es0 pm s \<and> active_tasks s = A \<and> x_phase s = runQueueRunning \<and> (died \<or> phase_inv env es0 s)"
  let ?post = "\<lambda>ended s. run_inv env es0 pm s \<and> (\<not> ended \<longrightarrow> active_tasks s = A) \<and> (died \<or> calm env es0 s)"
  let ?check = "\<lambda>s. x_setscenewhitelist env \<noteq> None \<and> x_setscenewhitelist env \<noteq> Some [] \<and> \<not> x_whitelist_checked s"
  fix v assume "\<not> v"
  then show "hoare (\<lambda>s. ?pre s \<and> v = ?check s) (sret False) ?post any_exc"
    by (intro hoare_sret) (auto simp: calm_def whitelist_used_def)
next
  let ?pre = "\<lambda>s. run_inv env es0 pm s \<and> active_tasks s = A \<and> x_phase s = runQueueRunning \<and> (died \<or> phase_inv env es0 s)"
  let ?post = "\<lambda>ended s. run_inv env es0 pm s \<and> (\<not> ended \<longrightarrow> active_tasks s = A) \<and> (died \<or> calm env es0 s)"
  let ?check = "\<lambda>s. x_setscenewhitelist env \<noteq> None \<and> x_setscenewhitelist env \<noteq> Some [] \<and> \<not> x_whitelist_checked s"
  let ?P = "\<lambda>s. (idle_inv env es0 pm died s \<and> active_tasks s = A) \<and> (died \<or> calm env es0 s)"
  fix v assume v: "\<not> \<not> v"
  have norun: "hoare ?P (any_norun env tids) (\<lambda>_. ?P) any_exc" for tids
  proof (rule hoare_good)
    show "hoare (\<lambda>s. idle_inv env es0 pm died s \<and> active_tasks s = A) (any_norun env tids)
      (\<lambda>_ s. idle_inv env es0 pm died s \<and> active_tasks s = A) any_exc"
      by (rule hoare_weaken [OF quiet.hoare_keeps [OF any_norun_quiet, of "\<lambda>s. idle_inv env es0 pm died s \<and> active_tasks s = A"]])
        (use quiet_idle_inv in \<open>auto simp: any_exc_def active_tasks_def same_task_state_def task_state_def\<close>)
  qed (rule any_norun_growing)
  have skip: "hoare ?P (skip_all k env) (\<lambda>_ s. (idle_inv env es0 pm died s \<and> chosen env None s) \<and> (died \<or> calm env es0 s)) any_exc" for k
    by (rule hoare_pre [OF hoare_good [OF skip_all_inv [OF g(1)] skip_all_growing]]) auto
  have last: "hoare (\<lambda>s. (idle_inv env es0 pm died s \<and> chosen env None s) \<and> (died \<or> calm env es0 s))
    (sbind (supd (\<lambda>s. s\<lparr>x_phase := runQueueCleanUp\<rparr>)) (\<lambda>_. sret True)) ?post any_exc"
  proof (rule hoare_supd_bind [where P' = "?post True"])
    fix s assume s: "(idle_inv env es0 pm died s \<and> chosen env None s) \<and> (died \<or> calm env es0 s)"
    have "all_done es0 s" if "\<not> died"
      using s that stuck_done [OF g _ n, of pm s] by (auto simp: idle_inv_def)
    then show "?post True (s\<lparr>x_phase := runQueueCleanUp\<rparr>)"
      using s quiet_run_inv [of env es0 pm s "s\<lparr>x_phase := runQueueCleanUp\<rparr>"]
      by (auto simp: idle_inv_def calm_def all_done_def same_task_state_def task_state_def)
  qed (simp add: hoare_sret)
  show "hoare (\<lambda>s. ?pre s \<and> v = ?check s)
    (sbind (supd (\<lambda>s. s\<lparr>x_whitelist_checked := True\<rparr>)) (\<lambda>_.
       sbind (sget (\<lambda>s. keys (x_entries s))) (\<lambda>tids.
       sbind (any_norun env tids) (\<lambda>unexpected.
         if \<not> unexpected then sret False
         else sbind (skip_all (Suc (length tids)) env) (\<lambda>_.
           sbind (supd (\<lambda>s. s\<lparr>x_phase := runQueueCleanUp\<rparr>)) (\<lambda>_. sret True)))))) ?post any_exc"
  proof (rule hoare_supd_bind)
    show "hoare ?P (sbind (sget (\<lambda>s. keys (x_entries s))) (\<lambda>tids.
       sbind (any_norun env tids) (\<lambda>unexpected.
         if \<not> unexpected then sret False
         else sbind (skip_all (Suc (length tids)) env) (\<lambda>_.
           sbind (supd (\<lambda>s. s\<lparr>x_phase := runQueueCleanUp\<rparr>)) (\<lambda>_. sret True))))) ?post any_exc"
      by (intro hoare_sget_any hoare_sbind [OF norun] hoare_if hoare_sret hoare_sbind [OF skip last])
        (simp add: idle_inv_def)
  next
    fix s assume s: "?pre s \<and> v = ?check s"
    then have "run_inv env es0 pm (s\<lparr>x_whitelist_checked := True\<rparr>)"
      using quiet_run_inv [of env es0 pm s] by (simp add: same_task_state_def task_state_def)
    then show "?P (s\<lparr>x_whitelist_checked := True\<rparr>)"
      using s v by (auto simp: idle_inv_def active_tasks_def calm_def phase_inv_def whitelist_used_def)
  qed
qed

lemma execute_start_good:
  assumes g: "graph_ok es0" "acyclic (dep_rel es0)" and n: "0 < x_number_tasks env" and fw: "x_fakeworker_starts env"
    and m: "msgs_ok A msgs" "WorkerDied \<in> set msgs \<Longrightarrow> died"
  shows "hoare (\<lambda>s. run_inv env es0 pm s \<and> active_tasks s = A \<and> x_phase s = runQueueRunning \<and> (died \<or> phase_inv env es0 s))
    (execute_start env now msgs)
    (\<lambda>again s. good env es0 pm died s \<and>
      (\<not> again \<longrightarrow> active (x_stats s) \<ge> x_number_tasks env \<or> chosen env None s)) any_exc"
  unfolding execute_start_def
proof (rule hoare_sbind [OF enforce_whitelist_good [OF g n]])
  fix ended
  let ?post = "\<lambda>again s. good env es0 pm died s \<and>
      (\<not> again \<longrightarrow> active (x_stats s) \<ge> x_number_tasks env \<or> chosen env None s)"
  have choose: "hoare (good env es0 pm died) (sbind (next_task env) (\<lambda>task. case task of
       None \<Rightarrow> sret False | Some t \<Rightarrow> execute_task env now t)) ?post any_exc"
    unfolding good_def [abs_def]
    by (rule hoare_weaken [OF hoare_good [OF execute_choice_inv [OF g(1) fw]]])
      (auto intro!: growing.rules next_task_growing execute_task_growing [OF fw] split: option.split simp: any_exc_def)
  have zero: "good env es0 pm died (if total (x_stats s) = 0 then s\<lparr>x_phase := runQueueCleanUp\<rparr> else s)"
    if s: "good env es0 pm died s" for s
  proof (cases "total (x_stats s) = 0")
    case True
    with s have "es0 = []" by (auto simp: good_def run_inv_def tasks_inv_def)
    then have "all_done es0 (s\<lparr>x_phase := runQueueCleanUp\<rparr>)" by (simp add: all_done_def keys_def)
    moreover have "run_inv env es0 pm (s\<lparr>x_phase := runQueueCleanUp\<rparr>)"
      using s quiet_run_inv [of env es0 pm s] by (simp add: good_def same_task_state_def task_state_def)
    ultimately show ?thesis using True s by (auto simp: good_def calm_def)
  qed (use s in simp)
  show "hoare (\<lambda>s. run_inv env es0 pm s \<and> (\<not> ended \<longrightarrow> active_tasks s = A) \<and> (died \<or> calm env es0 s))
    (if ended then sret True else sbind (read_workers env msgs) (\<lambda>_.
       sbind (supd (\<lambda>s. if total (x_stats s) = 0 then s\<lparr>x_phase := runQueueCleanUp\<rparr> else s)) (\<lambda>_.
       sbind (next_task env) (\<lambda>task. case task of None \<Rightarrow> sret False | Some t \<Rightarrow> execute_task env now t)))) ?post any_exc"
  proof (rule hoare_if)
    assume ended
    then show "hoare (\<lambda>s. run_inv env es0 pm s \<and> (\<not> ended \<longrightarrow> active_tasks s = A) \<and> (died \<or> calm env es0 s))
      (sret True) ?post any_exc" by (intro hoare_sret) (simp add: good_def)
  next
    assume e: "\<not> ended"
    show "hoare (\<lambda>s. run_inv env es0 pm s \<and> (\<not> ended \<longrightarrow> active_tasks s = A) \<and> (died \<or> calm env es0 s))
      (sbind (read_workers env msgs) (\<lambda>_.
       sbind (supd (\<lambda>s. if total (x_stats s) = 0 then s\<lparr>x_phase := runQueueCleanUp\<rparr> else s)) (\<lambda>_.
       sbind (next_task env) (\<lambda>task. case task of None \<Rightarrow> sret False | Some t \<Rightarrow> execute_task env now t)))) ?post any_exc"
    proof (rule hoare_pre [OF hoare_sbind [OF read_workers_good [OF g(1) m] hoare_supd_bind [OF choose zero]]])
      fix s assume "run_inv env es0 pm s \<and> (\<not> ended \<longrightarrow> active_tasks s = A) \<and> (died \<or> calm env es0 s)"
      with e show "(run_inv env es0 pm s \<and> active_tasks s = A) \<and> (died \<or> calm env es0 s)" by blast
    qed
  qed
qed

lemma finish_now_run: "run_inv env es0 pm s \<Longrightarrow> run_inv env es0 pm (s\<lparr>x_phase := p\<rparr>)"
  by (rule quiet_run_inv) (simp_all add: same_task_state_def task_state_def)

text \<open>Waiting for the workers, or the end.\<close>

lemma wait_or_end:
  assumes g: "graph_ok es0" and m: "msgs_ok A msgs" "WorkerDied \<in> set msgs \<Longrightarrow> died"
    and P: "\<And>s. P s \<Longrightarrow> run_inv env es0 pm s \<and> active_tasks s = A \<and> (died \<or> calm env es0 s)"
      "\<And>s. P s \<Longrightarrow> \<not> died \<Longrightarrow> \<not> active (x_stats s) > 0 \<Longrightarrow> x_failed s = [] \<Longrightarrow> all_done es0 s"
  shows "hoare P (sbind (sget (\<lambda>s. active (x_stats s) > 0)) (\<lambda>waiting.
      if waiting then sbind (read_workers env msgs) (\<lambda>_. sret RFds) else sbind finish_now (\<lambda>_. sret RTrue)))
    (\<lambda>_ s. run_inv env es0 pm s \<and> (died \<or> phase_inv env es0 s)) any_exc"
proof (rule hoare_sget_bind, rule hoare_if)
  fix v
  show "hoare (\<lambda>s. P s \<and> v = (active (x_stats s) > 0)) (sbind (read_workers env msgs) (\<lambda>_. sret RFds))
    (\<lambda>_ s. run_inv env es0 pm s \<and> (died \<or> phase_inv env es0 s)) any_exc"
    by (rule hoare_pre [OF hoare_sbind [OF read_workers_good [OF g m]]])
      (use P(1) calm_phase_inv in \<open>auto simp: good_def intro!: hoare_sret\<close>)
next
  fix v assume v: "\<not> v"
  show "hoare (\<lambda>s. P s \<and> v = (active (x_stats s) > 0)) (sbind finish_now (\<lambda>_. sret RTrue))
    (\<lambda>_ s. run_inv env es0 pm s \<and> (died \<or> phase_inv env es0 s)) any_exc"
    unfolding finish_now_def
  proof (rule hoare_supd_bind [where P' = "\<lambda>s. run_inv env es0 pm s \<and> (died \<or> phase_inv env es0 s)"])
    fix s assume "P s \<and> v = (active (x_stats s) > 0)"
    with P [of s] v show "run_inv env es0 pm (s\<lparr>x_phase := if x_failed s \<noteq> [] then runQueueFailed else runQueueComplete\<rparr>) \<and>
      (died \<or> phase_inv env es0 (s\<lparr>x_phase := if x_failed s \<noteq> [] then runQueueFailed else runQueueComplete\<rparr>))"
      by (auto simp: finish_now_run phase_inv_def calm_def all_done_def)
  qed (rule hoare_sret, assumption)
qed

lemma execute_wait_good:
  assumes g: "graph_ok es0" "acyclic (dep_rel es0)" and n: "0 < x_number_tasks env"
    and m: "msgs_ok A msgs" "WorkerDied \<in> set msgs \<Longrightarrow> died"
  shows "hoare (\<lambda>s. (good env es0 pm died s \<and> (active (x_stats s) \<ge> x_number_tasks env \<or> chosen env None s)) \<and> active_tasks s = A)
    (execute_wait env msgs) (\<lambda>_ s. run_inv env es0 pm s \<and> (died \<or> phase_inv env es0 s)) any_exc"
  unfolding execute_wait_def
proof (rule wait_or_end [OF g(1) m])
  fix s
  assume s: "(good env es0 pm died s \<and> (active (x_stats s) \<ge> x_number_tasks env \<or> chosen env None s)) \<and> active_tasks s = A"
    and e: "\<not> active (x_stats s) > 0" "x_failed s = []"
  then have r: "run_inv env es0 pm s" and c: "chosen env None s" using n by (auto simp: good_def)
  have "x_build_stamps s = []" using r e(1) by (simp add: run_inv_def counts_inv_def)
  from stuck_done [OF g r n c this e(2)] show "all_done es0 s" .
qed (auto simp: good_def)

lemma finish_good:
  assumes g: "graph_ok es0" and m: "msgs_ok A msgs" "WorkerDied \<in> set msgs \<Longrightarrow> died"
  shows "hoare (\<lambda>s. run_inv env es0 pm s \<and> active_tasks s = A \<and> x_phase s = runQueueCleanUp \<and> (died \<or> phase_inv env es0 s))
    (finish env msgs) (\<lambda>_ s. run_inv env es0 pm s \<and> (died \<or> phase_inv env es0 s)) any_exc"
  unfolding finish_def
proof (rule hoare_supd_bind)
  let ?P = "\<lambda>s. run_inv env es0 pm s \<and> active_tasks s = A \<and> x_phase s = runQueueCleanUp \<and> (died \<or> phase_inv env es0 s)"
  show "hoare ?P (sbind (sget (\<lambda>s. active (x_stats s) > 0)) (\<lambda>waiting.
      if waiting then sbind (read_workers env msgs) (\<lambda>_. sret RFds) else sbind finish_now (\<lambda>_. sret RTrue)))
    (\<lambda>_ s. run_inv env es0 pm s \<and> (died \<or> phase_inv env es0 s)) any_exc"
    by (rule wait_or_end [OF g m]) (auto simp: calm_def phase_inv_def)
  fix s assume "?P s"
  then show "?P (s\<lparr>x_phase := runQueueCleanUp\<rparr>)"
    by (auto simp: finish_now_run active_tasks_def phase_inv_def all_done_def)
qed

section \<open>Steps of the execution\<close>

text \<open>
  One step is one call of \<open>execute\<close> while the phase is \<open>runQueueRunning\<close>, or of
  \<open>finish\<close> during the clean-up.  The workers report whatever they like on the tasks they
  have; a worker dies only if \<open>died\<close>.
\<close>

definition reports :: "bool \<Rightarrow> exec_state \<Rightarrow> worker_msg list \<Rightarrow> bool" where
  "reports died s msgs \<longleftrightarrow> msgs_ok (active_tasks s) msgs \<and> (WorkerDied \<in> set msgs \<longrightarrow> died)"

inductive exec_step :: "exec_env \<Rightarrow> bool \<Rightarrow> exec_state \<Rightarrow> exec_state \<Rightarrow> bool" for env died where
  goes_on: "x_phase s = runQueueRunning \<Longrightarrow> reports died s msgs \<Longrightarrow>
    execute_start env now msgs s = (Inr True, t) \<Longrightarrow> exec_step env died s t"
| waits: "x_phase s = runQueueRunning \<Longrightarrow> reports died s msgs \<Longrightarrow>
    execute_start env now msgs s = (Inr False, u) \<Longrightarrow> reports died u msgs2 \<Longrightarrow>
    execute_wait env msgs2 u = (Inr r, t) \<Longrightarrow> exec_step env died s t"
| finishes: "x_phase s = runQueueCleanUp \<Longrightarrow> reports died s msgs \<Longrightarrow>
    finish env msgs s = (Inr r, t) \<Longrightarrow> exec_step env died s t"

text \<open>The first two kinds of steps are the calls of \<open>execute\<close> that return.\<close>

lemma exec_step_execute:
  assumes "x_phase s = runQueueRunning" "reports died s msgs" "execute env now msgs msgs2 s = (Inr r, t)"
    "\<And>u. execute_start env now msgs s = (Inr False, u) \<Longrightarrow> reports died u msgs2"
  shows "exec_step env died s t"
proof -
  obtain again u where u: "execute_start env now msgs s = (Inr again, u)"
    using assms(3) by (auto simp: execute_def sbind_def split: prod.splits sum.splits)
  with assms(3) have "(if again then sret RTrue else execute_wait env msgs2) u = (Inr r, t)"
    by (simp add: execute_def sbind_def)
  with u assms show ?thesis
    by (cases again) (auto simp: sret_def intro: exec_step.goes_on exec_step.waits)
qed

definition exec_inv :: "exec_env \<Rightarrow> run_tasks \<Rightarrow> string list \<Rightarrow> bool \<Rightarrow> exec_state \<Rightarrow> bool" where
  "exec_inv env es0 pm died s \<longleftrightarrow> run_inv env es0 pm s \<and> (died \<or> phase_inv env es0 s)"

lemma exec_step_inv:
  assumes "exec_step env died s t" and g: "graph_ok es0" "acyclic (dep_rel es0)" and n: "0 < x_number_tasks env"
    and fw: "x_fakeworker_starts env" and s: "exec_inv env es0 pm died s"
  shows "exec_inv env es0 pm died t"
  using assms(1)
proof cases
  case (goes_on msgs now)
  from execute_start_good [OF g n fw, of "active_tasks s" msgs died] goes_on(2)
  have "hoare (\<lambda>s'. run_inv env es0 pm s' \<and> active_tasks s' = active_tasks s \<and> x_phase s' = runQueueRunning \<and> (died \<or> phase_inv env es0 s'))
    (execute_start env now msgs) (\<lambda>again s. good env es0 pm died s \<and>
      (\<not> again \<longrightarrow> active (x_stats s) \<ge> x_number_tasks env \<or> chosen env None s)) any_exc"
    by (simp add: reports_def)
  from hoare_Inr [OF this _ goes_on(3)] s goes_on(1) show ?thesis
    by (auto simp: exec_inv_def good_def calm_phase_inv)
next
  case (waits msgs now u msgs2 r)
  from execute_start_good [OF g n fw, of "active_tasks s" msgs died] waits(2)
  have "hoare (\<lambda>s'. run_inv env es0 pm s' \<and> active_tasks s' = active_tasks s \<and> x_phase s' = runQueueRunning \<and> (died \<or> phase_inv env es0 s'))
    (execute_start env now msgs) (\<lambda>again s. good env es0 pm died s \<and>
      (\<not> again \<longrightarrow> active (x_stats s) \<ge> x_number_tasks env \<or> chosen env None s)) any_exc"
    by (simp add: reports_def)
  from hoare_Inr [OF this _ waits(3)] s waits(1)
  have u: "good env es0 pm died u \<and> (active (x_stats u) \<ge> x_number_tasks env \<or> chosen env None u)"
    by (simp add: exec_inv_def)
  from execute_wait_good [OF g n, of "active_tasks u" msgs2 died] waits(4)
  have "hoare (\<lambda>s. (good env es0 pm died s \<and> (active (x_stats s) \<ge> x_number_tasks env \<or> chosen env None s)) \<and> active_tasks s = active_tasks u)
    (execute_wait env msgs2) (\<lambda>_ s. run_inv env es0 pm s \<and> (died \<or> phase_inv env es0 s)) any_exc"
    by (simp add: reports_def)
  from hoare_Inr [OF this _ waits(5)] u show ?thesis by (simp add: exec_inv_def)
next
  case (finishes msgs r)
  from finish_good [OF g(1), of "active_tasks s" msgs died] finishes(2)
  have "hoare (\<lambda>s'. run_inv env es0 pm s' \<and> active_tasks s' = active_tasks s \<and> x_phase s' = runQueueCleanUp \<and> (died \<or> phase_inv env es0 s'))
    (finish env msgs) (\<lambda>_ s. run_inv env es0 pm s \<and> (died \<or> phase_inv env es0 s)) any_exc"
    by (simp add: reports_def)
  from hoare_Inr [OF this _ finishes(3)] s finishes(1) show ?thesis by (simp add: exec_inv_def)
qed

section \<open>The first state\<close>

lemma initial_buildable:
  "set (fst (fold (\<lambda>(tid, e) (buildable, covered).
     (if rt_depends e = [] then sadd tid buildable else buildable,
      if all_covered e covered then sadd tid covered else covered)) es (b, c))) =
    set b \<union> fst ` {p \<in> set es. rt_depends (snd p) = []}"
proof (induction es arbitrary: b c)
  case (Cons p es)
  obtain t e where p: "p = (t, e)" by force
  show ?case unfolding p by (cases "rt_depends e = []") (auto simp: Cons image_iff)
qed simp

lemma initial_tasks_buildable:
  assumes "distinct (keys es)"
  shows "set (fst (initial_tasks es covered)) = {t \<in> set (keys es). deps_of es t = []}"
proof -
  have "t \<in> fst ` {p \<in> set es. rt_depends (snd p) = []} \<longleftrightarrow> t \<in> set (keys es) \<and> deps_of es t = []" for t
  proof -
    have "map_of es t = Some e \<longleftrightarrow> (t, e) \<in> set es" for e
      using assms by (simp add: keys_def map_of_eq_Some_iff)
    then show ?thesis by (force simp: set_keys deps_of_def)
  qed
  then show ?thesis unfolding initial_tasks_def initial_buildable by auto
qed

lemma scheduler_init_ok:
  assumes "graph_ok es" "scheduler_init kind es f buildable = Inr sc" "kind \<noteq> Basic"
  shows "\<exists>pm. sched_ok es pm sc" "set (sc_buildable sc) = set (keys es) \<inter> set buildable"
    "map_of (sc_stamps sc) t = Some st \<Longrightarrow> f t = Inr st"
proof -
  obtain stamps where r: "rmap (\<lambda>tid. rbind (f tid) (\<lambda>st. Inr (tid, st))) (keys es) = Inr stamps"
    and sc: "sc = \<lparr>sc_prio_map = prio_map_of kind es,
         sc_buildable = filter (\<lambda>tid. tid \<in> set buildable) (keys es), sc_stamps = stamps\<rparr>"
    using assms(2) by (auto simp: scheduler_init_def rbind_eq_Inr)
  note R = rmap_pairs [OF r]
  have d: "distinct (keys es)" by (rule graph_okD(1) [OF assms(1)])
  have sp: "mset (speed_prio_map es) = mset (keys es)" using speed_prio_map_result(1) [OF d] .
  then have "distinct (speed_prio_map es)" using d mset_eq_imp_distinct_iff by blast
  from completion_order_result [OF this] sp have co: "mset (completion_order (speed_prio_map es)) = mset (keys es)"
    by (simp add: grouped_def)
  obtain pm where pm: "prio_map_of kind es = Some pm" "mset pm = mset (keys es)"
    using assms(3) sp co by (cases kind) (simp_all add: prio_map_of_def)
  then have "set pm = set (keys es)" by (metis set_mset_mset)
  then show "\<exists>pm. sched_ok es pm sc" using pm(1) R unfolding sched_ok_def sc by auto
  show "set (sc_buildable sc) = set (keys es) \<inter> set buildable" unfolding sc by auto
  assume t: "map_of (sc_stamps sc) t = Some st"
  then have "t \<in> set (keys stamps)" unfolding sc by (simp add: map_of_keys)
  with R t show "f t = Inr st" unfolding sc by simp
qed

lemma execute_init_inv:
  assumes g: "graph_ok (runtaskentries (x_data env))" and b: "x_scheduler env \<noteq> ''basic''"
    and i: "execute_init env covered notcovered fk checked sent fs = Inr s"
  shows "\<exists>pm. exec_inv env (runtaskentries (x_data env)) pm died s" "0 < x_number_tasks env"
proof -
  let ?es = "runtaskentries (x_data env)"
  from i show n: "0 < x_number_tasks env" by (auto simp: execute_init_def split: if_splits)
  define bc where "bc = initial_tasks ?es covered"
  from i n obtain kind sc c cache f where k: "sched_kind_of (x_scheduler env) = Inr kind"
    and sc: "scheduler_init kind ?es (stamp_of env) (fst bc) = Inr sc"
    and s: "s = \<lparr>x_entries = ?es, x_phase = runQueueRunning, x_covered = c, x_buildable = fst bc,
            x_running = [], x_complete = [], x_build_stamps = [], x_build_stamps2 = [], x_failed = [],
            x_stampcache = cache, x_stats = init_stats (int (length ?es)), x_sched = sc,
            x_whitelist_checked = checked, x_fakeworker = fk, x_sent = sent, x_files = f\<rparr>"
    by (auto simp: execute_init_def Let_def rbind_eq_Inr bc_def stamp_of_def [abs_def] split: prod.splits)
  have "kind \<noteq> Basic" using k b by (auto simp: sched_kind_of_def split: if_splits)
  note S = scheduler_init_ok [OF g sc this]
  have bs: "set (fst bc) = {t \<in> set (keys ?es). deps_of ?es t = []}"
    unfolding bc_def by (rule initial_tasks_buildable [OF graph_okD(1) [OF g]])
  obtain pm where pm: "sched_ok ?es pm sc" using S(1) by blast
  have "same_graph ?es {} ?es" by (simp add: same_graph_def)
  moreover have "sched_inv env ?es pm s" using pm S(2,3) n unfolding sched_inv_def s by (auto simp: bs)
  moreover have "tasks_inv ?es {} s" unfolding tasks_inv_def s by (auto simp: bs init_stats_def)
  moreover have "active_inv {} s" "counts_inv 0 0 s"
    unfolding active_inv_def counts_inv_def s by (simp_all add: keys_def dvals_def init_stats_def)
  ultimately have "run_inv env ?es pm s" by (simp add: run_inv_def s)
  moreover have "phase_inv env ?es s" by (simp add: phase_inv_def s)
  ultimately show "\<exists>pm. exec_inv env ?es pm died s" unfolding exec_inv_def by blast
qed

lemma exec_reach_inv:
  assumes "(exec_step env died)\<^sup>*\<^sup>* s0 s"
    and g: "graph_ok (runtaskentries (x_data env))" "acyclic (dep_rel (runtaskentries (x_data env)))"
    and b: "x_scheduler env \<noteq> ''basic''" "x_fakeworker_starts env"
    and i: "execute_init env covered notcovered fk checked sent fs = Inr s0"
  shows "\<exists>pm. exec_inv env (runtaskentries (x_data env)) pm died s"
proof -
  obtain pm where pm: "exec_inv env (runtaskentries (x_data env)) pm died s0"
    using execute_init_inv(1) [OF g(1) b(1) i] by blast
  from assms(1) pm have "exec_inv env (runtaskentries (x_data env)) pm died s"
    by (induction rule: rtranclp_induct)
      (use exec_step_inv g b(2) execute_init_inv(2) [OF g(1) b(1) i] in blast)+
  then show ?thesis by blast
qed

section \<open>Progress\<close>

definition runs_more :: "exec_state \<Rightarrow> exec_state \<Rightarrow> bool" where
  "runs_more s t \<longleftrightarrow> set (x_running s) \<subseteq> set (x_running t)"

interpretation more: state_preorder runs_more
  by unfold_locales (auto simp: runs_more_def)

lemma ends_more:
  "more.keeps (task_completeoutright t)" "more.keeps (task_complete t)" "more.keeps (task_skip t)"
  "more.keeps (next_task env)" "more.keeps (enforce_whitelist env)" "more.keeps (check_stamp env rec t name)"
  "more.keeps (build_taskdepdata env t)" "more.keeps (send_task env fk t)"
proof -
  have "more.keeps (consider_revdep u)" for u
    unfolding consider_revdep_def setbuildable_def by (auto intro!: more.rules more.update simp: runs_more_def)
  then show 1: "more.keeps (task_completeoutright t)" for t
    unfolding task_completeoutright_def by (auto intro!: more.rules more.update simp: runs_more_def)
  show "more.keeps (task_complete t)"
    unfolding task_complete_def by (auto intro!: more.rules more.update 1 simp: runs_more_def)
  show skip: "more.keeps (task_skip t)" for t
    unfolding task_skip_def setbuildable_def by (auto intro!: more.rules more.update 1 simp: runs_more_def)
  show next_task: "more.keeps (next_task env)"
    unfolding next_task_def by (auto split: prod.split intro!: more.rules more.update simp: runs_more_def)
  show check: "more.keeps (check_stamp env rec t name)" for rec t name
    unfolding check_stamp_def by (auto split: prod.split intro!: more.rules more.update simp: runs_more_def)
  have norun: "more.keeps (check_norun_task env t)" for t
    unfolding check_norun_task_def by (auto split: prod.split intro!: more.rules check)
  have "more.keeps (any_norun env ts)" for ts by (induction ts) (auto intro!: more.rules norun)
  moreover have "more.keeps (skip_all n env)" for n
    by (induction n) (auto intro!: more.rules next_task norun skip split: option.split)
  ultimately show "more.keeps (enforce_whitelist env)"
    unfolding enforce_whitelist_def by (auto intro!: more.rules more.update simp: runs_more_def)
  show depdata: "more.keeps (build_taskdepdata env t)" for t
    unfolding build_taskdepdata_def Let_def by (auto intro!: more.rules more.update simp: runs_more_def)
  show "more.keeps (send_task env fk t)"
    unfolding send_task_def by (auto intro!: more.rules more.update depdata simp: runs_more_def)
qed

definition runs :: "string \<Rightarrow> exec_state \<Rightarrow> bool" where
  "runs t s \<longleftrightarrow> t \<in> set (x_running s)"

lemma hoare_runs: "more.keeps m \<Longrightarrow> hoare (runs t) m (\<lambda>_. runs t) any_exc"
  by (rule hoare_weaken [OF more.hoare_keeps]) (auto simp: runs_def runs_more_def any_exc_def)

lemma execute_task_runs:
  assumes fw: "x_fakeworker_starts env"
  shows "hoare (\<lambda>_. True) (execute_task env now t) (\<lambda>_. runs t) any_exc"
proof -
  have skip: "hoare (\<lambda>_. True) (sbind (task_skip t) (\<lambda>_. sret True)) (\<lambda>_. runs t) any_exc"
  proof (rule hoare_sbind)
    show "hoare (\<lambda>_. True) (task_skip t) (\<lambda>_. runs t) any_exc"
      unfolding task_skip_def
      by (rule hoare_supd_bind [OF hoare_runs])
        (auto intro!: more.rules more.update ends_more simp: runs_def runs_more_def setbuildable_def)
  qed (simp add: hoare_sret)
  have noexec: "hoare (\<lambda>_. True) (sbind (run_noexec env now t) (\<lambda>_. sret True)) (\<lambda>_. runs t) any_exc"
    unfolding run_noexec_def
    by (rule hoare_sbind [OF hoare_sres_any [OF hoare_case4 [OF hoare_supd_bind [OF hoare_runs]]] hoare_sret])
      (auto intro!: more.rules more.update ends_more split: prod.split simp: runs_def runs_more_def any_exc_def)
  have sent: "hoare (\<lambda>_. True) (send_task env fk t) (\<lambda>sent s. sent) any_exc" for fk
    unfolding send_task_def using fw
    by (intro hoare_sbind [of _ "build_taskdepdata env t" "\<lambda>_ _. True"])
      (auto simp: hoare_def any_exc_def sbind_sget_False sbind_def supd_def sret_def split: prod.splits sum.splits)
  have start: "hoare (\<lambda>_. True) (start_task env t) (\<lambda>_. runs t) any_exc"
    unfolding start_task_def by (intro hoare_sres_any hoare_supd) (auto simp: runs_def any_exc_def)
  have send: "hoare (\<lambda>_. True) (sbind (send_task env fk t) (\<lambda>sent. if \<not> sent then sret True
      else sbind (start_task env t) (\<lambda>_. sget (\<lambda>s. active (x_stats s) < x_number_tasks env)))) (\<lambda>_. runs t) any_exc" for fk
    by (rule hoare_sbind [OF sent], rule hoare_if, simp add: hoare_def, rule hoare_pre [OF hoare_sbind [OF start]])
      (auto intro: hoare_sget)
  have check: "hoare (\<lambda>_. True) (sbind (check_stamp env rec t name) m) (\<lambda>_. runs t) any_exc"
    if "\<And>v. hoare (\<lambda>_. True) (m v) (\<lambda>_. runs t) any_exc" for rec name m
    by (rule hoare_sbind [of _ _ "\<lambda>_ _. True"]) (use that in \<open>auto simp: hoare_def any_exc_def split: prod.split sum.split\<close>)
  show ?thesis
    unfolding execute_task_def
    by (intro hoare_sres_any hoare_sget_any hoare_case4 hoare_if skip check noexec send) (simp_all add: any_exc_def)
qed

lemma next_task_state: "next_task env s = (Inr r, t) \<Longrightarrow> \<exists>sc. t = s\<lparr>x_sched := sc\<rparr>"
  by (cases "sched_next (x_entries s) (x_number_tasks env) (x_stats s) (x_running s) (dvals (x_build_stamps s)) (x_sched s)")
    (auto simp: next_task_def sm_defs)

text \<open>Without a report, a call either chooses nothing or runs a new task.\<close>

lemma execute_start_runs:
  assumes g: "graph_ok es0" "acyclic (dep_rel es0)" and n: "0 < x_number_tasks env" and fw: "x_fakeworker_starts env"
    and s: "exec_inv env es0 pm died s" "x_phase s = runQueueRunning"
    and r: "execute_start env now [] s = (Inr again, t)"
  shows "x_phase t = runQueueCleanUp \<or> set (x_running s) \<subset> set (x_running t) \<or> \<not> again \<and> active_tasks t = active_tasks s"
proof -
  obtain ended u where u: "enforce_whitelist env s = (Inr ended, u)"
    using r by (auto simp: execute_start_def sbind_def split: prod.splits sum.splits)
  show ?thesis
  proof (cases ended)
    case True
    then have "t = u" using r u by (simp add: execute_start_def sbind_def sret_def)
    moreover have "x_phase u = runQueueCleanUp"
      using u True by (auto simp: enforce_whitelist_def sm_defs split: prod.splits sum.splits if_splits)
    ultimately show ?thesis by blast
  next
    case False
    from enforce_whitelist_good [OF g n, of pm "active_tasks s" died] u s
    have ui: "run_inv env es0 pm u" "active_tasks u = active_tasks s"
      using False hoare_Inr [of _ "enforce_whitelist env" _ any_exc s ended u] unfolding exec_inv_def by fast+
    have su: "set (x_running s) \<subseteq> set (x_running u)"
      using more.keepsD [OF ends_more(5) u] by (simp add: runs_more_def)
    define v where "v = (if total (x_stats u) = 0 then u\<lparr>x_phase := runQueueCleanUp\<rparr> else u)"
    have v: "run_inv env es0 pm v" "active_tasks v = active_tasks s" "x_running v = x_running u"
      using ui finish_now_run by (auto simp: v_def active_tasks_def)
    have r': "sbind (next_task env) (\<lambda>task. case task of None \<Rightarrow> sret False | Some t \<Rightarrow> execute_task env now t) v = (Inr again, t)"
      using r u False by (simp add: execute_start_def sbind_def read_workers_def sret_def supd_def v_def)
    obtain r0 w where w0: "next_task env v = (r0, w)" by force
    with r' obtain task where "r0 = Inr task" by (cases r0) (simp_all add: sbind_def)
    with w0 have w: "next_task env v = (Inr task, w)" by simp
    from hoare_Inr [OF next_task_inv v(1) w] have wi: "chosen env task w" by simp
    obtain sc where "w = v\<lparr>x_sched := sc\<rparr>" using next_task_state [OF w] by blast
    then have ww: "x_running w = x_running u" "active_tasks w = active_tasks s"
      using v(2,3) by (simp_all add: active_tasks_def)
    show ?thesis
    proof (cases task)
      case None
      with r' w have "again = False \<and> t = w" by (simp add: sbind_def sret_def)
      with ww(2) show ?thesis by blast
    next
      case (Some x)
      with r' w have e: "execute_task env now x w = (Inr again, t)" by (simp add: sbind_def)
      from hoare_Inr [OF execute_task_runs [OF fw] _ e] have "x \<in> set (x_running t)" by (simp add: runs_def)
      moreover have "set (x_running w) \<subseteq> set (x_running t)"
      proof -
        have "more.keeps (execute_task env now x)"
          unfolding execute_task_def run_noexec_def start_task_def
          by (auto split: prod.split intro!: more.rules more.update ends_more simp: runs_more_def)
        from more.keepsD [OF this e] show ?thesis by (simp add: runs_more_def)
      qed
      moreover have "x \<notin> set (x_running u)" using wi Some ww(1) by (simp add: chosen_def)
      ultimately show ?thesis using su ww(1) by auto
    qed
  qed
qed

lemma exec_step_progress:
  assumes g: "graph_ok es0" "acyclic (dep_rel es0)" and n: "0 < x_number_tasks env" and fw: "x_fakeworker_starts env"
    and s: "exec_inv env es0 pm died s" "x_phase s = runQueueRunning" "active_tasks s = {}"
    and r: "execute env now [] [] s = (Inr r, t)"
  shows "x_phase t \<noteq> runQueueRunning \<or> set (x_running s) \<subset> set (x_running t)"
proof -
  obtain again u where u: "execute_start env now [] s = (Inr again, u)"
    using r by (auto simp: execute_def sbind_def split: prod.splits sum.splits)
  note P = execute_start_runs [OF g n fw s(1,2) u]
  show ?thesis
  proof (cases again)
    case True
    then have "t = u" using r u by (simp add: execute_def sbind_def sret_def)
    with P True show ?thesis by auto
  next
    case False
    then have w: "execute_wait env [] u = (Inr r, t)" using r u by (simp add: execute_def sbind_def)
    then have rt: "x_running t = x_running u" 
      and ph: "x_phase t \<noteq> runQueueRunning \<or> active (x_stats u) > 0 \<and> x_phase t = x_phase u"
      by (auto simp: execute_wait_def read_workers_def finish_now_def sm_defs split: if_splits)
    have "hoare (\<lambda>s'. run_inv env es0 pm s' \<and> active_tasks s' = active_tasks s \<and> x_phase s' = runQueueRunning \<and> (died \<or> phase_inv env es0 s'))
      (execute_start env now []) (\<lambda>again s. good env es0 pm died s \<and>
        (\<not> again \<longrightarrow> active (x_stats s) \<ge> x_number_tasks env \<or> chosen env None s)) any_exc"
      using execute_start_good [OF g n fw, of "active_tasks s" "[]" died] by simp
    from hoare_Inr [OF this _ u] s(1,2) have "run_inv env es0 pm u" by (auto simp: exec_inv_def good_def)
    then have "active_tasks u = {} \<Longrightarrow> active (x_stats u) = 0"
      by (simp add: run_inv_def counts_inv_def active_tasks_def keys_def)
    with P s(3) rt ph show ?thesis by auto
  qed
qed

section \<open>Covered tasks\<close>

definition cover_rule :: "run_tasks \<Rightarrow> string list \<Rightarrow> string \<Rightarrow> bool" where
  "cover_rule es covered t \<longleftrightarrow> rdeps_of es t \<noteq> [] \<and> set (rdeps_of es t) \<subseteq> set covered"

lemma cover_rule_mono: "cover_rule es c t \<Longrightarrow> set c \<subseteq> set d \<Longrightarrow> cover_rule es d t"
  by (auto simp: cover_rule_def)

lemma all_covered_rule: "map_of es t = Some e \<Longrightarrow> all_covered e c = cover_rule es c t"
  by (auto simp: all_covered_def cover_rule_def rdeps_of_Some list_all_iff)

definition justified :: "run_tasks \<Rightarrow> string list \<Rightarrow> string list \<Rightarrow> bool" where
  "justified es c0 c \<longleftrightarrow> set c0 \<subseteq> set c \<and> (\<forall>t \<in> set c - set c0. t \<in> set (keys es) \<and> cover_rule es c t)"

lemma justified_add:
  "justified es c0 c \<Longrightarrow> map_of es t = Some e \<Longrightarrow> all_covered e c \<Longrightarrow> justified es c0 (sadd t c)"
  using map_of_keys [of es t e] unfolding justified_def
  by (auto simp: all_covered_rule intro: cover_rule_mono)

lemma initial_covered_justified:
  assumes "distinct (keys es)"
  shows "justified es covered (snd (initial_tasks es covered))"
proof -
  have "set ps \<subseteq> set es \<Longrightarrow> justified es covered c \<Longrightarrow> justified es covered (snd (fold (\<lambda>(tid, e) (buildable, covered).
     (if rt_depends e = [] then sadd tid buildable else buildable,
      if all_covered e covered then sadd tid covered else covered)) ps (b, c)))" for ps b c
  proof (induction ps arbitrary: b c)
    case (Cons p ps)
    obtain t e where p: "p = (t, e)" by force
    have "map_of es t = Some e" using Cons.prems(1) assms by (simp add: p keys_def)
    then have "justified es covered (if all_covered e c then sadd t c else c)" using justified_add Cons.prems(2) by simp
    then show ?case using Cons.IH Cons.prems(1) by (simp add: p)
  qed simp
  moreover have "justified es covered covered" by (simp add: justified_def)
  ultimately show ?thesis unfolding initial_tasks_def by blast
qed

lemma cover_pass_justified:
  assumes "distinct (keys es)" "justified es c0 c"
  shows "justified es c0 (cover_pass es notcovered c)"
proof -
  have "set ps \<subseteq> set es \<Longrightarrow> justified es c0 c \<Longrightarrow> justified es c0 (fold (\<lambda>(tid, e) covered.
     if tid \<notin> set covered \<and> all_covered e covered \<and> tid \<notin> set notcovered then sadd tid covered else covered) ps c)" for ps c
  proof (induction ps arbitrary: c)
    case (Cons p ps)
    obtain t e where p: "p = (t, e)" by force
    have "map_of es t = Some e" using Cons.prems(1) assms(1) by (simp add: p keys_def)
    then have "justified es c0 (if t \<notin> set c \<and> all_covered e c \<and> t \<notin> set notcovered then sadd t c else c)"
      using justified_add Cons.prems(2) by simp
    from Cons.IH [OF _ this] Cons.prems(1) show ?case by (simp only: p fold_simps prod.case) simp
  qed simp
  with assms(2) show ?thesis unfolding cover_pass_def by blast
qed

lemma cover_pass_fixed:
  "cover_pass es notcovered c = c \<Longrightarrow> (t, e) \<in> set es \<Longrightarrow> t \<in> set c \<or> \<not> all_covered e c \<or> t \<in> set notcovered"
proof (induction es)
  case (Cons p es)
  obtain u f where p: "p = (u, f)" by force
  let ?c = "if u \<notin> set c \<and> all_covered f c \<and> u \<notin> set notcovered then sadd u c else c"
  have e: "cover_pass (p # es) notcovered c = cover_pass es notcovered ?c"
    unfolding cover_pass_def p by simp
  have "set ?c \<subseteq> set c" using cover_pass_cases [of ?c es notcovered] Cons.prems(1) unfolding e by simp
  then have n: "\<not> (u \<notin> set c \<and> all_covered f c \<and> u \<notin> set notcovered)" by (auto split: if_splits)
  then have "cover_pass es notcovered c = c" using Cons.prems(1) unfolding e by (simp only: if_False)
  then show ?case using Cons n by (auto simp: p)
qed simp

lemma cover_loop_result:
  "distinct (keys es) \<Longrightarrow> justified es c0 c \<Longrightarrow> justified es c0 (cover_loop es notcovered c) \<and>
    cover_pass es notcovered (cover_loop es notcovered c) = cover_loop es notcovered c"
proof (induction es notcovered c rule: cover_loop.induct)
  case (1 es notcovered c)
  then show ?case using cover_pass_justified [of es c0 c notcovered] by (subst (1 2 3) cover_loop.simps) (auto simp: Let_def)
qed

section \<open>Properties\<close>

text \<open>Two tasks, the second of which depends on the first, and two workers.\<close>

definition exec_example :: exec_env where
  "exec_example = (let td = \<lparr>tasks = [''x''], parents = [], tflags = []\<rparr> in
     \<lparr>x_rq = env_example\<lparr>q_taskData := [('''', init_taskdata True False [] False)],
        q_dataCaches := [('''', init_cacheData\<lparr>cd_task_deps := [(''a'', td), (''b'', td)],
          pkg_fn := [(''a'', ''a''), (''b'', ''b'')], fn_provides := [(''a'', [''a'']), (''b'', [''b''])],
          cd_stamp := [(''a'', ''s/a''), (''b'', ''s/b'')], cd_stamp_extrainfo := [(''a'', []), (''b'', [])]\<rparr>)]\<rparr>,
      x_data = init_rqdata\<lparr>runtaskentries := [
        (''a:x'', new_task\<lparr>rt_revdeps := [''b:x'']\<rparr>), (''b:x'', new_task\<lparr>rt_depends := [''a:x'']\<rparr>)]\<rparr>,
      x_siggen = \<lparr>sg_stampfile = \<lambda>stamp fn task extra. Inr (stamp @ ''.'' @ task),
        sg_stampcleanmask = \<lambda>stamp fn task extra. Inr (stamp @ ''.'' @ task)\<rparr>,
      x_stamppolicy = ''perfile'', x_number_tasks = 2, x_scheduler = ''speed'', x_dry_run = False,
      x_setscenewhitelist = None, x_fakeworker_starts = True, x_setsceneverify = None\<rparr>)"

lemma exec_example_graph:
  "graph_ok (runtaskentries (x_data exec_example))" "acyclic (dep_rel (runtaskentries (x_data exec_example)))"
proof -
  have e: "runtaskentries (x_data exec_example) =
    [(''a:x'', new_task\<lparr>rt_revdeps := [''b:x'']\<rparr>), (''b:x'', new_task\<lparr>rt_depends := [''a:x'']\<rparr>)]"
    by (simp add: exec_example_def Let_def)
  show "graph_ok (runtaskentries (x_data exec_example))"
    unfolding e by (auto simp: graph_ok_def new_task_def deps_of_def rdeps_of_def keys_def split: if_splits)
  have "dep_rel (runtaskentries (x_data exec_example)) \<subseteq> {(''b:x'', ''a:x'')}"
    unfolding e by (auto simp: dep_rel_def deps_of_def new_task_def split: if_splits)
  moreover have "acyclic {(''b:x'', ''a:x'')}" by (simp add: acyclic_def trancl_insert)
  ultimately show "acyclic (dep_rel (runtaskentries (x_data exec_example)))" by (rule acyclic_subset [rotated])
qed

text \<open>The build of the example: the states after each of three calls of \<open>execute\<close>.\<close>

definition example_run :: "exec_state list" where
  "example_run = (case execute_init exec_example [] [] False False [] [] of
     Inl e \<Rightarrow> []
   | Inr s0 \<Rightarrow> (let s1 = snd (execute exec_example 1 [] [] s0);
                    s2 = snd (execute exec_example 2 [ExitCode ''a:x'' 0] [] s1);
                    s3 = snd (execute exec_example 3 [ExitCode ''b:x'' 0] [] s2) in [s0, s1, s2, s3]))"

lemma example_run_init:
  "\<exists>s0 s1 s2 s3. example_run = [s0, s1, s2, s3] \<and> execute_init exec_example [] [] False False [] [] = Inr s0 \<and>
    s1 = snd (execute exec_example 1 [] [] s0) \<and> s2 = snd (execute exec_example 2 [ExitCode ''a:x'' 0] [] s1) \<and>
    s3 = snd (execute exec_example 3 [ExitCode ''b:x'' 0] [] s2)"
proof -
  have "case execute_init exec_example [] [] False False [] [] of Inl e \<Rightarrow> False | Inr s \<Rightarrow> True" by code_simp
  then obtain s0 where s0: "execute_init exec_example [] [] False False [] [] = Inr s0" by (auto split: sum.splits)
  then show ?thesis by (simp add: example_run_def Let_def)
qed

lemma example_run_values:
  "map (\<lambda>s. (x_phase s, x_running s, x_complete s, x_failed s, keys (x_build_stamps s), never_run s)) example_run =
    [(runQueueRunning, [], [], [], [], [''a:x'', ''b:x'']),
     (runQueueRunning, [''a:x''], [], [], [''a:x''], [''a:x'', ''b:x'']),
     (runQueueRunning, [''a:x'', ''b:x''], [''a:x''], [], [''b:x''], [''b:x'']),
     (runQueueComplete, [''a:x'', ''b:x''], [''a:x'', ''b:x''], [], [], [])]"
  by code_simp

lemma example_run_returns:
  "case example_run of [s0, s1, s2, s3] \<Rightarrow>
     fst (execute_start exec_example 1 [] s0) = Inr True \<and>
     fst (execute_start exec_example 2 [ExitCode ''a:x'' 0] s1) = Inr True \<and>
     fst (execute_start exec_example 3 [ExitCode ''b:x'' 0] s2) = Inr False \<and>
     fst (execute_wait exec_example [] (snd (execute_start exec_example 3 [ExitCode ''b:x'' 0] s2))) = Inr RTrue
   | _ \<Rightarrow> False"
  by code_simp

lemma example_steps:
  obtains s0 s1 s2 s3 where "example_run = [s0, s1, s2, s3]" "execute_init exec_example [] [] False False [] [] = Inr s0"
    "(exec_step exec_example False)\<^sup>*\<^sup>* s0 s2" "(exec_step exec_example False)\<^sup>*\<^sup>* s0 s3"
    "execute exec_example 1 [] [] s0 = (Inr RTrue, s1)"
proof -
  obtain s0 s1 s2 s3 where l: "example_run = [s0, s1, s2, s3]"
    and i: "execute_init exec_example [] [] False False [] [] = Inr s0"
    and d: "s1 = snd (execute exec_example 1 [] [] s0)" "s2 = snd (execute exec_example 2 [ExitCode ''a:x'' 0] [] s1)"
      "s3 = snd (execute exec_example 3 [ExitCode ''b:x'' 0] [] s2)"
    using example_run_init by blast
  have ph: "x_phase s0 = runQueueRunning" "x_phase s1 = runQueueRunning" "x_phase s2 = runQueueRunning"
    and a: "active_tasks s0 = {}" "active_tasks s1 = {''a:x''}" "active_tasks s2 = {''b:x''}"
    using example_run_values unfolding l active_tasks_def by simp_all
  define u where "u = snd (execute_start exec_example 3 [ExitCode ''b:x'' 0] s2)"
  have r: "fst (execute_start exec_example 1 [] s0) = Inr True"
    "fst (execute_start exec_example 2 [ExitCode ''a:x'' 0] s1) = Inr True"
    "fst (execute_start exec_example 3 [ExitCode ''b:x'' 0] s2) = Inr False"
    "fst (execute_wait exec_example [] u) = Inr RTrue"
    using example_run_returns unfolding l u_def by simp_all
  have e: "execute env now m m2 s = (Inr RTrue, snd (execute_start env now m s))"
    if "fst (execute_start env now m s) = Inr True" for env now m m2 s
    using that by (auto simp: execute_def sbind_def sret_def split: prod.splits)
  have e3: "snd (execute exec_example 3 [ExitCode ''b:x'' 0] [] s2) = snd (execute_wait exec_example [] u)"
    using r(3) by (auto simp: execute_def sbind_def u_def split: prod.splits)
  have rep: "reports False s0 []" "reports False s1 [ExitCode ''a:x'' 0]" "reports False s2 [ExitCode ''b:x'' 0]"
    "reports False u []" by (simp_all add: reports_def a)
  have st: "execute_start exec_example 1 [] s0 = (Inr True, s1)"
    "execute_start exec_example 2 [ExitCode ''a:x'' 0] s1 = (Inr True, s2)"
    "execute_start exec_example 3 [ExitCode ''b:x'' 0] s2 = (Inr False, u)"
    using r(1-3) d(1,2) e [OF r(1)] e [OF r(2)] u_def by (metis prod.collapse snd_conv)+
  have w: "execute_wait exec_example [] u = (Inr RTrue, s3)" using r(4) d(3) e3 by (metis prod.collapse)
  have 1: "exec_step exec_example False s0 s1" by (rule exec_step.goes_on [OF ph(1) rep(1) st(1)])
  have 2: "exec_step exec_example False s1 s2" by (rule exec_step.goes_on [OF ph(2) rep(2) st(2)])
  have 3: "exec_step exec_example False s2 s3" by (rule exec_step.waits [OF ph(3) rep(3) st(3) rep(4) w])
  have s2: "(exec_step exec_example False)\<^sup>*\<^sup>* s0 s2"
    by (rule converse_rtranclp_into_rtranclp [of "exec_step exec_example False", OF 1 r_into_rtranclp [of "exec_step exec_example False", OF 2]])
  show thesis
    by (rule that [OF l i s2 rtranclp.rtrancl_into_rtrancl [OF s2 3]]) (simp add: d(1) e [OF r(1)])
qed

text \<open>
  C3. On an acyclic consistent queue, as \<open>prepare\<close> makes it, with the speed or the completion
  scheduler, and if the workers for fakeroot can be started
  when they are needed: whatever the workers report, a task is given to a worker only after
  everything it depends on is complete; no two tasks at the workers use the same stamp, there are
  never more than the configuration allows, and the statistics count the tasks at the workers, the
  complete and the failed ones.  The basic scheduler is left out because its priority map cannot
  be searched, and a worker for fakeroot that does not start because the statistics then count a
  failure of a task that was never active.
\<close>

theorem exec_tasks_safe:
  assumes "graph_ok (runtaskentries (x_data env))" "acyclic (dep_rel (runtaskentries (x_data env)))"
    "x_scheduler env \<noteq> ''basic''" "x_fakeworker_starts env"
    "execute_init env covered notcovered fk checked sent fs = Inr s0" "(exec_step env died)\<^sup>*\<^sup>* s0 s"
  shows "(\<forall>t \<in> set (x_running s). set (deps_of (runtaskentries (x_data env)) t) \<subseteq> set (x_complete s)) \<and>
    set (x_complete s) \<inter> set (x_failed s) = {} \<and>
    active_tasks s = set (x_running s) - set (x_complete s) - set (x_failed s) \<and>
    distinct (dvals (x_build_stamps s)) \<and>
    active (x_stats s) = int (card (active_tasks s)) \<and> active (x_stats s) \<le> x_number_tasks env \<and>
    completed (x_stats s) = int (card (set (x_complete s))) \<and> failed (x_stats s) = int (card (set (x_failed s)))"
proof -
  obtain pm where "run_inv env (runtaskentries (x_data env)) pm s"
    using exec_reach_inv [OF assms(6,1,2,3,4,5)] unfolding exec_inv_def by blast
  then have t: "tasks_inv (runtaskentries (x_data env)) {} s" and a: "active_inv {} s" and c: "counts_inv 0 0 s"
    and sc: "sched_inv env (runtaskentries (x_data env)) pm s" by (simp_all add: run_inv_def)
  have "distinct (keys (x_build_stamps s))" using a by (simp add: active_inv_def)
  from distinct_card [OF this] have "length (x_build_stamps s) = card (active_tasks s)"
    by (simp add: active_tasks_def keys_def)
  with t a c sc show ?thesis
    unfolding tasks_inv_def active_inv_def counts_inv_def sched_inv_def
    by (auto simp: active_tasks_def distinct_card)
qed

lemma exec_tasks_safe_witness:
  "\<exists>s0 s. (exec_step exec_example False)\<^sup>*\<^sup>* s0 s \<and> x_running s = [''a:x'', ''b:x''] \<and> active_tasks s = {''b:x''} \<and>
    active (x_stats s) = 1"
proof (rule example_steps)
  fix s0 s1 s2 s3
  assume l: "example_run = [s0, s1, s2, s3]" and i: "execute_init exec_example [] [] False False [] [] = Inr s0"
    and r: "(exec_step exec_example False)\<^sup>*\<^sup>* s0 s2"
  have v: "x_running s2 = [''a:x'', ''b:x'']" "active_tasks s2 = {''b:x''}"
    using example_run_values unfolding l by (simp_all add: active_tasks_def)
  have e: "x_scheduler exec_example \<noteq> ''basic''" "x_fakeworker_starts exec_example"
    by (simp_all add: exec_example_def Let_def)
  from exec_tasks_safe [OF exec_example_graph e i r] v(2) have "active (x_stats s2) = 1" by simp
  with r v show ?thesis by blast
qed

text \<open>
  C4. On an acyclic consistent queue, if no worker dies, the workers for fakeroot can be started when they are needed and the
  scheduler is speed or completion: the execution ends as complete only when every task is
  buildable, has run and is complete and none has failed, so the sanity checks at the end never
  report a task; it ends as failed only if a task has failed.
\<close>

theorem exec_tasks_complete:
  assumes "graph_ok (runtaskentries (x_data env))" "acyclic (dep_rel (runtaskentries (x_data env)))"
    "x_scheduler env \<noteq> ''basic''" "x_fakeworker_starts env"
    "execute_init env covered notcovered fk checked sent fs = Inr s0" "(exec_step env False)\<^sup>*\<^sup>* s0 s"
  shows "(x_phase s = runQueueComplete \<longrightarrow> never_run s = [] \<and> x_failed s = [] \<and>
      completed (x_stats s) = int (length (runtaskentries (x_data env)))) \<and>
    (x_phase s = runQueueFailed \<longrightarrow> x_failed s \<noteq> [])"
proof -
  let ?es = "runtaskentries (x_data env)"
  obtain pm where i: "exec_inv env ?es pm False s" using exec_reach_inv [OF assms(6,1,2,3,4,5)] by blast
  then have t: "tasks_inv ?es {} s" and c: "counts_inv 0 0 s" and g: "same_graph ?es (set (x_running s)) (x_entries s)"
    and p: "phase_inv env ?es s" by (simp_all add: exec_inv_def run_inv_def)
  have "never_run s = [] \<and> completed (x_stats s) = int (length ?es)" if "all_done ?es s"
  proof -
    have eq: "set (x_complete s) = set (keys ?es)" using t that by (auto simp: tasks_inv_def all_done_def)
    have "card (set (keys ?es)) = length ?es"
      using distinct_card [OF graph_okD(1) [OF assms(1)]] by (simp add: keys_def)
    with c eq have "completed (x_stats s) = int (length ?es)" by (simp add: counts_inv_def)
    moreover have "set (keys (x_entries s)) = set (keys ?es)" using g by (simp add: same_graph_def)
    then have "never_run s = []"
      using t eq unfolding never_run_def filter_empty_conv tasks_inv_def by blast
    ultimately show ?thesis by blast
  qed
  with p show ?thesis by (simp add: phase_inv_def)
qed

lemma exec_tasks_complete_witness:
  "\<exists>s0 s. (exec_step exec_example False)\<^sup>*\<^sup>* s0 s \<and> x_phase s = runQueueComplete \<and> completed (x_stats s) = 2"
proof (rule example_steps)
  fix s0 s1 s2 s3
  assume l: "example_run = [s0, s1, s2, s3]" and i: "execute_init exec_example [] [] False False [] [] = Inr s0"
    and r: "(exec_step exec_example False)\<^sup>*\<^sup>* s0 s3"
  have v: "x_phase s3 = runQueueComplete" using example_run_values unfolding l by simp
  have e: "x_scheduler exec_example \<noteq> ''basic''" "x_fakeworker_starts exec_example"
    by (simp_all add: exec_example_def Let_def)
  have "length (runtaskentries (x_data exec_example)) = 2" by (simp add: exec_example_def Let_def)
  with exec_tasks_complete [OF exec_example_graph e i r] v have "completed (x_stats s3) = 2" by simp
  with r v show ?thesis by blast
qed

text \<open>
  C5. The execution is never stuck, with the speed or the completion scheduler and if the workers
  for fakeroot can be started: while no worker has a task, a call of \<open>execute\<close> that returns has
  run a task that had not run before, or has left the phase.
\<close>

theorem exec_never_stuck:
  assumes "graph_ok (runtaskentries (x_data env))" "acyclic (dep_rel (runtaskentries (x_data env)))"
    "x_scheduler env \<noteq> ''basic''" "x_fakeworker_starts env"
    "execute_init env covered notcovered fk checked sent fs = Inr s0" "(exec_step env died)\<^sup>*\<^sup>* s0 s"
    "x_phase s = runQueueRunning" "active_tasks s = {}" "execute env now [] [] s = (Inr r, t)"
  shows "x_phase t \<noteq> runQueueRunning \<or> set (x_running s) \<subset> set (x_running t)"
proof -
  obtain pm where "exec_inv env (runtaskentries (x_data env)) pm died s"
    using exec_reach_inv [OF assms(6,1,2,3,4,5)] by blast
  from exec_step_progress [OF assms(1,2) execute_init_inv(2) [OF assms(1,3,5)] assms(4) this assms(7,8,9)]
  show ?thesis .
qed

lemma exec_never_stuck_witness:
  "\<exists>s t. execute exec_example 1 [] [] s = (Inr RTrue, t) \<and> x_running s = [] \<and> set (x_running t) \<noteq> {}"
proof (rule example_steps)
  fix s0 s1 s2 s3
  assume l: "example_run = [s0, s1, s2, s3]" and i: "execute_init exec_example [] [] False False [] [] = Inr s0"
    and x: "execute exec_example 1 [] [] s0 = (Inr RTrue, s1)"
  have v: "x_phase s0 = runQueueRunning" "x_running s0 = []" "active_tasks s0 = {}" "x_phase s1 = runQueueRunning"
    using example_run_values unfolding l by (simp_all add: active_tasks_def)
  have e: "x_scheduler exec_example \<noteq> ''basic''" "x_fakeworker_starts exec_example"
    by (simp_all add: exec_example_def Let_def)
  from exec_never_stuck [OF exec_example_graph e i rtranclp.rtrancl_refl v(1,3) x] v
  have "set (x_running s1) \<noteq> {}" by auto
  with x v(2) show ?thesis by blast
qed

text \<open>
  The tasks to skip: those that the setscene phase has covered, and in addition only tasks all
  of whose dependents are skipped.  The search for them does not stop before there is no other
  task of this kind that the setscene phase has not given up.
\<close>

theorem covered_tasks_correct:
  assumes "distinct (keys es)" "c = cover_loop es notcovered (snd (initial_tasks es covered))"
  shows "set covered \<subseteq> set c \<and> (\<forall>t \<in> set c - set covered. t \<in> set (keys es) \<and> cover_rule es c t) \<and>
    (\<forall>t \<in> set (keys es). t \<notin> set c \<and> t \<notin> set notcovered \<longrightarrow> \<not> cover_rule es c t)"
proof -
  note R = cover_loop_result [OF assms(1) initial_covered_justified [OF assms(1)], of covered notcovered, folded assms(2)]
  have "\<not> cover_rule es c t" if t: "t \<in> set (keys es)" "t \<notin> set c" "t \<notin> set notcovered" for t
  proof -
    obtain e where e: "map_of es t = Some e" using t(1) by (auto simp: set_keys)
    from cover_pass_fixed [OF _ map_of_SomeD [OF e], of notcovered c] R t have "\<not> all_covered e c" by blast
    then show ?thesis by (simp add: all_covered_rule [OF e])
  qed
  with R show ?thesis unfolding justified_def by blast
qed

lemma covered_tasks_correct_witness:
  "cover_rule es_example [''c:y'', ''b:x'', ''a:x''] ''a:x''"
proof -
  have "[''c:y'', ''b:x'', ''a:x''] = cover_loop es_example [] (snd (initial_tasks es_example [''c:y'']))" by code_simp
  from covered_tasks_correct [OF graph_okD(1) [OF es_example_ok] this] show ?thesis by simp
qed

end
