(* ===== verification/PR_Table.thy ===== *)
theory PR_Table
  imports Py_Str
begin

text \<open>
  The tables of the package revision service (\<^verbatim>\<open>prserv/db.py\<close>) and the requests its
  server answers (\<^verbatim>\<open>prserv/serv.py\<close>).  A table holds a number for each version,
  architecture and checksum of a package.  The statements of SQLite that the code uses are
  functions on the list of rows, in the order of their insertion; \<open>None\<close> as an argument is the
  value NULL, which no column except the number may have and which equals nothing.  Numbers are
  integers without the bound of the 64 bits of SQLite.

  The connection has the rows as they are now and as they were committed last.  A command that
  defines a table commits what was pending before it, as the \<^verbatim>\<open>sqlite3\<close> module
  does.  The waiting for the lock of the database is modelled on its own (\<open>pr_execute\<close>); the
  other operations are those of the one process that holds the lock.
\<close>

section \<open>Rows and statements\<close>

record pr_row =
  row_version :: string
  row_pkgarch :: string
  row_checksum :: string
  row_value :: int

type_synonym pr_db = "(string \<times> pr_row list) list"

definition in_group :: "string option \<Rightarrow> string option \<Rightarrow> pr_row \<Rightarrow> bool" where
  "in_group v p r = (v = Some (row_version r) \<and> p = Some (row_pkgarch r))"

definition is_row :: "string option \<Rightarrow> string option \<Rightarrow> string option \<Rightarrow> pr_row \<Rightarrow> bool" where
  "is_row v p c r = (in_group v p r \<and> c = Some (row_checksum r))"

text \<open>\<open>SELECT value FROM t WHERE version=? AND pkgarch=? AND checksum=?\<close>\<close>

definition select_value :: "string option \<Rightarrow> string option \<Rightarrow> string option \<Rightarrow> pr_row list \<Rightarrow> int list" where
  "select_value v p c rows = map row_value (filter (is_row v p c) rows)"

text \<open>\<open>SELECT max(value) FROM t WHERE version=? AND pkgarch=?\<close>, which is NULL without a row.\<close>

definition select_max :: "string option \<Rightarrow> string option \<Rightarrow> pr_row list \<Rightarrow> int option" where
  "select_max v p rows = (case map row_value (filter (in_group v p) rows) of
     [] \<Rightarrow> None | x # xs \<Rightarrow> Some (fold max xs x))"

text \<open>\<open>SELECT ifnull(max(value)+1,0) FROM t WHERE version=? AND pkgarch=?\<close>\<close>

definition next_value :: "string option \<Rightarrow> string option \<Rightarrow> pr_row list \<Rightarrow> int" where
  "next_value v p rows = (case select_max v p rows of None \<Rightarrow> 0 | Some m \<Rightarrow> m + 1)"

text \<open>\<open>value >= x\<close> where \<open>x\<close> may be NULL.\<close>

definition sql_ge :: "int \<Rightarrow> int option \<Rightarrow> bool" where
  "sql_ge y x = (case x of None \<Rightarrow> False | Some m \<Rightarrow> m \<le> y)"

definition make_row :: "string option \<Rightarrow> string option \<Rightarrow> string option \<Rightarrow> int \<Rightarrow> pr_row res" where
  "make_row v p c x = (case (v, p, c) of
     (Some v, Some p, Some c) \<Rightarrow> Inr \<lparr>row_version = v, row_pkgarch = p, row_checksum = c, row_value = x\<rparr>
   | _ \<Rightarrow> Inl IntegrityError)"

text \<open>\<open>INSERT INTO t VALUES (?, ?, ?, x)\<close> and \<open>INSERT OR REPLACE\<close>\<close>

definition insert_row :: "string option \<Rightarrow> string option \<Rightarrow> string option \<Rightarrow> int \<Rightarrow> pr_row list \<Rightarrow> pr_row list res" where
  "insert_row v p c x rows = rbind (make_row v p c x) (\<lambda>r.
     if list_ex (is_row v p c) rows then Inl IntegrityError else Inr (rows @ [r]))"

definition replace_row :: "string option \<Rightarrow> string option \<Rightarrow> string option \<Rightarrow> int \<Rightarrow> pr_row list \<Rightarrow> pr_row list res" where
  "replace_row v p c x rows = rbind (make_row v p c x) (\<lambda>r.
     Inr (filter (\<lambda>r. \<not> is_row v p c r) rows @ [r]))"

text \<open>\<open>UPDATE t SET value=? WHERE version=? AND pkgarch=? AND checksum=? AND value<?\<close>\<close>

definition raise_row :: "string option \<Rightarrow> string option \<Rightarrow> string option \<Rightarrow> int \<Rightarrow> pr_row list \<Rightarrow> pr_row list" where
  "raise_row v p c x rows = map (\<lambda>r. if is_row v p c r \<and> row_value r < x then r\<lparr>row_value := x\<rparr> else r) rows"

section \<open>Waiting for the lock\<close>

text \<open>
  \<open>PRTable._execute\<close>: each attempt either ends with a result or fails with the message of an
  \<open>OperationalError\<close>, at a time in seconds; the result is \<open>None\<close> while it is still trying.
\<close>

fun pr_attempts :: "int \<Rightarrow> (int \<times> (string + 'a)) list \<Rightarrow> 'a res option" where
  "pr_attempts end_time [] = None"
| "pr_attempts end_time ((now, Inr x) # rest) = Some (Inr x)"
| "pr_attempts end_time ((now, Inl msg) # rest) =
     (if occurs msg ''is locked'' \<and> now < end_time then pr_attempts end_time rest
      else Some (Inl (OperationalError msg)))"

definition pr_execute :: "int \<Rightarrow> (int \<times> (string + 'a)) list \<Rightarrow> 'a res option" where
  "pr_execute start attempts = pr_attempts (start + 20) attempts"

section \<open>A table\<close>

text \<open>A \<open>PRTable\<close> with its connection.\<close>

record pr_conn =
  pr_now :: pr_db
  pr_saved :: pr_db

record pr_state = pr_conn +
  pr_table :: string
  pr_nohist :: bool
  pr_dirty :: bool

definition table_name :: "string \<Rightarrow> bool \<Rightarrow> string" where
  "table_name tbl nohist = (if nohist then tbl @ ''_nohist'' else tbl @ ''_hist'')"

definition create_table :: "string \<Rightarrow> pr_db \<Rightarrow> pr_db" where
  "create_table t db = (if t \<in> set (keys db) then db else dset t [] db)"

definition init_table :: "string \<Rightarrow> bool \<Rightarrow> pr_db \<Rightarrow> pr_state" where
  "init_table tbl nohist db = (let t = table_name tbl nohist; db = create_table t db in
     \<lparr>pr_now = db, pr_saved = db, pr_table = t, pr_nohist = nohist, pr_dirty = False\<rparr>)"

definition pr_rows :: "pr_state \<Rightarrow> pr_row list res" where
  "pr_rows s = (case map_of (pr_now s) (pr_table s) of
     None \<Rightarrow> Inl (OperationalError (''no such table: '' @ pr_table s)) | Some rows \<Rightarrow> Inr rows)"

definition set_rows :: "pr_row list \<Rightarrow> (pr_state, unit) sm" where
  "set_rows rows = supd (\<lambda>s. s\<lparr>pr_now := dset (pr_table s) rows (pr_now s)\<rparr>)"

definition pr_sync :: "(pr_state, unit) sm" where
  "pr_sync = supd (\<lambda>s. s\<lparr>pr_saved := pr_now s\<rparr>)"

definition sync_if_dirty :: "(pr_state, unit) sm" where
  "sync_if_dirty = sbind (sget pr_dirty) (\<lambda>dirty.
     if dirty then sbind pr_sync (\<lambda>_. supd (\<lambda>s. s\<lparr>pr_dirty := False\<rparr>)) else sret ())"

definition rollback :: "(pr_state, unit) sm" where
  "rollback = supd (\<lambda>s. s\<lparr>pr_now := pr_saved s\<rparr>)"

text \<open>A statement that writes rows; an \<open>IntegrityError\<close> is logged and handled by \<open>h\<close>.\<close>

definition write_or :: "(pr_row list \<Rightarrow> pr_row list res) \<Rightarrow> (pr_state, unit) sm \<Rightarrow> (pr_state, unit) sm" where
  "write_or stmt h = scatch (sbind (sres (\<lambda>s. rbind (pr_rows s) stmt)) set_rows) (\<lambda>e. e = IntegrityError) (\<lambda>_. h)"

definition fetchone :: "(pr_row list \<Rightarrow> 'a list) \<Rightarrow> (pr_state, 'a option) sm" where
  "fetchone query = sbind (sres pr_rows) (\<lambda>rows.
     sret (case query rows of [] \<Rightarrow> None | x # _ \<Rightarrow> Some x))"

definition set_dirty :: "(pr_state, unit) sm" where
  "set_dirty = supd (\<lambda>s. s\<lparr>pr_dirty := True\<rparr>)"

definition found :: "int option \<Rightarrow> (pr_state, int) sm" where
  "found row = (case row of Some x \<Rightarrow> sret x | None \<Rightarrow> sraise NotFoundError)"

definition getValueHist :: "string option \<Rightarrow> string option \<Rightarrow> string option \<Rightarrow> (pr_state, int) sm" where
  "getValueHist v p c =
     sbind (fetchone (select_value v p c)) (\<lambda>row. case row of
       Some x \<Rightarrow> sret x
     | None \<Rightarrow>
         sbind (write_or (\<lambda>rows. insert_row v p c (next_value v p rows) rows) (sret ())) (\<lambda>_.
         sbind set_dirty (\<lambda>_.
         sbind (fetchone (select_value v p c)) found)))"

definition getValueNohist :: "string option \<Rightarrow> string option \<Rightarrow> string option \<Rightarrow> (pr_state, int) sm" where
  "getValueNohist v p c =
     sbind (fetchone (\<lambda>rows. filter (\<lambda>x. sql_ge x (select_max v p rows)) (select_value v p c rows))) (\<lambda>row. case row of
       Some x \<Rightarrow> sret x
     | None \<Rightarrow>
         sbind (write_or (\<lambda>rows. replace_row v p c (next_value v p rows) rows) rollback) (\<lambda>_.
         sbind set_dirty (\<lambda>_.
         sbind (fetchone (select_value v p c)) found)))"

definition getValue :: "string option \<Rightarrow> string option \<Rightarrow> string option \<Rightarrow> (pr_state, int) sm" where
  "getValue v p c = sbind (sget pr_nohist) (\<lambda>nohist.
     if nohist then getValueNohist v p c else getValueHist v p c)"

definition importHist :: "string option \<Rightarrow> string option \<Rightarrow> string option \<Rightarrow> int \<Rightarrow> (pr_state, int option) sm" where
  "importHist v p c x =
     sbind (fetchone (select_value v p c)) (\<lambda>row. case row of
       Some y \<Rightarrow> sret (Some y)
     | None \<Rightarrow>
         sbind (write_or (insert_row v p c x) (sret ())) (\<lambda>_.
         sbind set_dirty (\<lambda>_. fetchone (select_value v p c))))"

definition importNohist :: "string option \<Rightarrow> string option \<Rightarrow> string option \<Rightarrow> int \<Rightarrow> (pr_state, int option) sm" where
  "importNohist v p c x =
     sbind (write_or (insert_row v p c x) (write_or (\<lambda>rows. Inr (raise_row v p c x rows)) (sret ()))) (\<lambda>_.
     sbind set_dirty (\<lambda>_. fetchone (\<lambda>rows. filter (\<lambda>y. x \<le> y) (select_value v p c rows))))"

definition importone :: "string option \<Rightarrow> string option \<Rightarrow> string option \<Rightarrow> int \<Rightarrow> (pr_state, int option) sm" where
  "importone v p c x = sbind (sget pr_nohist) (\<lambda>nohist.
     if nohist then importNohist v p c x else importHist v p c x)"

section \<open>Export\<close>

text \<open>
  \<open>PRAGMA table_info\<close>: name, type, NOT NULL flag, default and position in the primary key of
  each column, as the CREATE TABLE statement has them.
\<close>

record pr_column =
  col_name :: string
  col_type :: string
  col_notnull :: int
  col_dflt_value :: "string option"
  col_pk :: int

definition table_info :: "pr_column list" where
  "table_info =
    [\<lparr>col_name = ''version'', col_type = ''TEXT'', col_notnull = 1, col_dflt_value = None, col_pk = 1\<rparr>,
     \<lparr>col_name = ''pkgarch'', col_type = ''TEXT'', col_notnull = 1, col_dflt_value = None, col_pk = 2\<rparr>,
     \<lparr>col_name = ''checksum'', col_type = ''TEXT'', col_notnull = 1, col_dflt_value = None, col_pk = 3\<rparr>,
     \<lparr>col_name = ''value'', col_type = ''INTEGER'', col_notnull = 0, col_dflt_value = None, col_pk = 0\<rparr>]"

record pr_metainfo =
  tbl_name :: string
  core_ver :: string
  col_info :: "pr_column list"

text \<open>The optional conditions of the statement: an empty or missing argument sets none.\<close>

definition where_arg :: "string option \<Rightarrow> string \<Rightarrow> bool" where
  "where_arg a x = (case a of None \<Rightarrow> True | Some y \<Rightarrow> y = [] \<or> x = y)"

text \<open>The join with the highest number of each version and architecture.\<close>

definition highest_row :: "pr_row list \<Rightarrow> pr_row \<Rightarrow> bool" where
  "highest_row rows r = (select_max (Some (row_version r)) (Some (row_pkgarch r)) rows = Some (row_value r))"

definition export_rows :: "bool \<Rightarrow> string option \<Rightarrow> string option \<Rightarrow> string option \<Rightarrow> pr_row list \<Rightarrow> pr_row list" where
  "export_rows nohist v p c rows =
     filter (\<lambda>r. row_version r \<noteq> [])
       (filter (\<lambda>r. where_arg v (row_version r) \<and> where_arg p (row_pkgarch r) \<and> where_arg c (row_checksum r))
         (if nohist then filter (highest_row rows) rows else rows))"

definition export :: "string \<Rightarrow> string option \<Rightarrow> string option \<Rightarrow> string option \<Rightarrow> bool \<Rightarrow>
    (pr_state, pr_metainfo option \<times> pr_row list) sm" where
  "export prserv_version v p c colinfo =
     sbind (sget (\<lambda>s. if colinfo
       then Some \<lparr>tbl_name = pr_table s, core_ver = prserv_version, col_info = table_info\<rparr> else None)) (\<lambda>metainfo.
     sbind (sget pr_nohist) (\<lambda>nohist.
     sbind (sres pr_rows) (\<lambda>rows. sret (metainfo, export_rows nohist v p c rows))))"

section \<open>The database\<close>

text \<open>
  \<open>PRData\<close>: the tables that have been opened, by their plain names, with their dirty flags.
  A method of a table runs on the shared connection.
\<close>

record pr_data = pr_conn +
  pd_nohist :: bool
  pd_tables :: "(string \<times> bool) list"

definition open_table :: "string \<Rightarrow> pr_data \<Rightarrow> pr_data" where
  "open_table tbl d =
     (if tbl \<in> set (keys (pd_tables d)) then d
      else let db = create_table (table_name tbl (pd_nohist d)) (pr_now d)
        in d\<lparr>pr_now := db, pr_saved := db, pd_tables := dset tbl False (pd_tables d)\<rparr>)"

definition call_table :: "string \<Rightarrow> (pr_state, 'a) sm \<Rightarrow> (pr_data, 'a) sm" where
  "call_table tbl m d0 =
     (let d = open_table tbl d0;
          s = \<lparr>pr_now = pr_now d, pr_saved = pr_saved d, pr_table = table_name tbl (pd_nohist d),
            pr_nohist = pd_nohist d, pr_dirty = dget_or (pd_tables d) tbl False\<rparr>;
          (r, t) = m s
      in (r, d\<lparr>pr_now := pr_now t, pr_saved := pr_saved t, pd_tables := dset tbl (pr_dirty t) (pd_tables d)\<rparr>))"

definition del_table :: "string \<Rightarrow> pr_data \<Rightarrow> pr_data" where
  "del_table tbl d =
     (let db = filter (\<lambda>(t, _). t \<noteq> tbl) (pr_now d)
      in d\<lparr>pd_tables := filter (\<lambda>(t, _). t \<noteq> tbl) (pd_tables d), pr_now := db, pr_saved := db\<rparr>)"

section \<open>The server\<close>

text \<open>
  The requests that reach the table, and their answers; an exception goes to the client as a
  fault.  Handling one request is one turn of the loop of \<open>process_request_thread\<close>.
\<close>

datatype pr_request =
    GetPR "string option" "string option" "string option"
  | ImportOne "string option" "string option" "string option" int
  | Export "string option" "string option" "string option" bool

datatype pr_answer =
    Number "int option"
  | Rows "(pr_metainfo option \<times> pr_row list) option"
  | Fault exc

definition is_sqlite_error :: "exc \<Rightarrow> bool" where
  "is_sqlite_error e = (case e of IntegrityError \<Rightarrow> True | OperationalError _ \<Rightarrow> True | _ \<Rightarrow> False)"

definition getPR :: "string option \<Rightarrow> string option \<Rightarrow> string option \<Rightarrow> (pr_state, int option) sm" where
  "getPR v p c = scatch (sbind (getValue v p c) (\<lambda>x. sret (Some x)))
     (\<lambda>e. e = NotFoundError \<or> is_sqlite_error e) (\<lambda>_. sret None)"

definition export_or_none :: "string \<Rightarrow> string option \<Rightarrow> string option \<Rightarrow> string option \<Rightarrow> bool \<Rightarrow>
    (pr_state, (pr_metainfo option \<times> pr_row list) option) sm" where
  "export_or_none prserv_version v p c colinfo =
     scatch (sbind (export prserv_version v p c colinfo) (\<lambda>x. sret (Some x))) is_sqlite_error (\<lambda>_. sret None)"

fun answer_request :: "string \<Rightarrow> pr_request \<Rightarrow> (pr_state, pr_answer) sm" where
  "answer_request ver (GetPR v p c) = sbind (getPR v p c) (\<lambda>x. sret (Number x))"
| "answer_request ver (ImportOne v p c x) = sbind (importone v p c x) (\<lambda>y. sret (Number y))"
| "answer_request ver (Export v p c colinfo) = sbind (export_or_none ver v p c colinfo) (\<lambda>r. sret (Rows r))"

text \<open>
  The XML-RPC server turns an exception of the method into a fault; \<open>sent\<close> says whether the
  answer could be sent, without which \<open>finish_request\<close> itself raises.
\<close>

definition process_request :: "string \<Rightarrow> pr_request \<Rightarrow> bool \<Rightarrow> nat \<Rightarrow> (pr_state, pr_answer \<times> nat) sm" where
  "process_request ver req sent iter_count =
     sbind (scatch (answer_request ver req) (\<lambda>_. True) (\<lambda>e. sret (Fault e))) (\<lambda>a.
     sbind (if sent then
         let n = (iter_count + 1) mod 60 in
         sbind (if n = 0 then sync_if_dirty else sret ()) (\<lambda>_. sret (a, n))
       else sbind pr_sync (\<lambda>_. sret (a, iter_count))) (\<lambda>r.
     sbind sync_if_dirty (\<lambda>_. sret r)))"

end
