(* ===== verification/PR_Table_Facts.thy ===== *)
theory PR_Table_Facts
  imports PR_Table
begin

text \<open>
  What the package revision service promises.  The contract of a numbering is a locale with one
  extension for each mode of the tables; its client lemmas speak of any sequence of requests.
  The tables interpret it, and refine a numbering that is a function.
\<close>

section \<open>The contract of a numbering\<close>

text \<open>
  A request for a name \<open>c\<close> under a key \<open>k\<close> gets a number, which is the number the name
  has from then on: the one it had, or one above all others of the key, the next one or zero.
\<close>

locale numbering =
  fixes get :: "'k \<Rightarrow> 'c \<Rightarrow> ('s, int) sm"
    and val :: "'s \<Rightarrow> 'k \<Rightarrow> 'c \<Rightarrow> int option"
    and inv :: "'s \<Rightarrow> bool"
  assumes get_returns: "inv s \<Longrightarrow> \<exists>x t. get k c s = (Inr x, t)"
    and get_inv: "inv s \<Longrightarrow> get k c s = (Inr x, t) \<Longrightarrow> inv t"
    and get_val: "inv s \<Longrightarrow> get k c s = (Inr x, t) \<Longrightarrow> val t = (val s)(k := (val s k)(c \<mapsto> x))"
    and get_new: "inv s \<Longrightarrow> get k c s = (Inr x, t) \<Longrightarrow> val s k c \<noteq> Some x \<Longrightarrow>
      val s k d = Some y \<Longrightarrow> y < x"
    and get_next: "inv s \<Longrightarrow> get k c s = (Inr x, t) \<Longrightarrow> val s k c \<noteq> Some x \<Longrightarrow>
      val s k = Map.empty \<and> x = 0 \<or> (\<exists>d. val s k d = Some (x - 1))"
begin

definition one_number_each :: "'s \<Rightarrow> bool" where
  "one_number_each s \<longleftrightarrow> (\<forall>k c d y. val s k c = Some y \<longrightarrow> val s k d = Some y \<longrightarrow> c = d)"

lemma one_number_get:
  assumes "inv s" "get k c s = (Inr x, t)" "one_number_each s"
  shows "one_number_each t"
proof (cases "val s k c = Some x")
  case True
  then have "(val s)(k := (val s k)(c \<mapsto> x)) = val s" by (metis fun_upd_triv)
  with get_val [OF assms(1,2)] assms(3) show ?thesis by (simp add: one_number_each_def)
next
  case False
  have "val s k d \<noteq> Some x" for d using get_new [OF assms(1,2) False, of d x] by auto
  with assms(3) show ?thesis
    unfolding one_number_each_def get_val [OF assms(1,2)] by (auto split: if_splits)
qed

definition request :: "'k \<times> 'c \<Rightarrow> ('s, unit) sm" where
  "request kc = sbind (get (fst kc) (snd kc)) (\<lambda>_. sret ())"

lemma request_get:
  assumes "inv s"
  shows "\<exists>x t. get (fst kc) (snd kc) s = (Inr x, t) \<and> request kc s = (Inr (), t) \<and> inv t"
  using get_returns [OF assms, of "fst kc" "snd kc"] get_inv [OF assms]
  by (fastforce simp: request_def sbind_def sret_def)

lemma requests_return: "inv s \<Longrightarrow> \<exists>t. sfor rs request s = (Inr (), t) \<and> inv t"
proof (induction rs arbitrary: s)
  case (Cons kc rs)
  from request_get [OF Cons.prems, of kc] obtain t where "request kc s = (Inr (), t)" "inv t" by blast
  with Cons.IH show ?case by simp
qed simp

text \<open>What every request keeps, a sequence of requests keeps.\<close>

lemma requests_keep:
  assumes "inv s" "sfor rs request s = (Inr (), t)" "P s"
    and "\<And>s k c x t. inv s \<Longrightarrow> P s \<Longrightarrow> get k c s = (Inr x, t) \<Longrightarrow> (k, c) \<in> set rs \<Longrightarrow> P t"
  shows "P t"
proof -
  have "inv t \<and> P t"
  proof (rule sfor_inv [OF assms(2)])
    show "inv s \<and> P s" using assms(1,3) ..
    fix kc s t assume kc: "kc \<in> set rs" and s: "inv s \<and> P s" and r: "request kc s = (Inr (), t)"
    from s request_get [of s kc] r
    obtain x where "get (fst kc) (snd kc) s = (Inr x, t)" "inv t" by auto
    with s kc assms(4) [of s "fst kc" "snd kc" x t] show "inv t \<and> P t" by simp
  qed
  then show ?thesis ..
qed

lemma one_number_requests:
  "inv s \<Longrightarrow> sfor rs request s = (Inr (), t) \<Longrightarrow> one_number_each s \<Longrightarrow> one_number_each t"
  by (erule (2) requests_keep) (rule one_number_get)

lemma requests_dom:
  assumes "inv s" "sfor rs request s = (Inr (), t)"
  shows "dom (val t k) = dom (val s k) \<union> {c. (k, c) \<in> set rs}"
proof -
  have "inv t \<and> dom (val t k) = dom (val s k) \<union> {c. (k, c) \<in> set rs}"
    using assms
  proof (induction rs arbitrary: s)
    case (Cons kc rs)
    from request_get [OF Cons.prems(1), of kc] obtain x u
      where u: "get (fst kc) (snd kc) s = (Inr x, u)" "request kc s = (Inr (), u)" "inv u" by blast
    with Cons.prems(2) have "sfor rs request u = (Inr (), t)" by simp
    from Cons.IH [OF u(3) this] get_val [OF Cons.prems(1) u(1)] show ?case by (cases kc) auto
  qed simp
  then show ?thesis ..
qed

end

text \<open>With history a name keeps its number.\<close>

locale numbering_with_history = numbering get val inv
  for get :: "'k \<Rightarrow> 'c \<Rightarrow> ('s, int) sm"
    and val :: "'s \<Rightarrow> 'k \<Rightarrow> 'c \<Rightarrow> int option"
    and inv :: "'s \<Rightarrow> bool" +
  assumes get_again: "inv s \<Longrightarrow> val s k c = Some x \<Longrightarrow> get k c s = (Inr x, s)"
begin

lemma same_answer:
  assumes "inv s" "get k c s = (Inr x, t)" "sfor rs request t = (Inr (), u)"
  shows "get k c u = (Inr x, u)"
proof -
  have t: "inv t" "val t k c = Some x" using get_inv [OF assms(1,2)] get_val [OF assms(1,2)] by simp_all
  have keep: "val b l e = Some y" if "inv a" "val a l e = Some y" "get m d a = (Inr z, b)" for a b l e y m d z
    using that get_val [OF that(1,3)] get_again [OF that(1,2)] by (cases "(l, e) = (m, d)") auto
  have "val u k c = Some x"
    by (rule requests_keep [where P = "\<lambda>u. val u k c = Some x", OF t(1) assms(3) t(2)]) (rule keep)
  moreover have "inv u" using requests_return [OF t(1), of rs] assms(3) by auto
  ultimately show ?thesis using get_again by blast
qed

text \<open>The numbers of a key have no gap below them.\<close>

definition gapless :: "'s \<Rightarrow> bool" where
  "gapless s \<longleftrightarrow> (\<forall>k. \<forall>y \<in> ran (val s k). 0 \<le> y \<and> (y = 0 \<or> y - 1 \<in> ran (val s k)))"

lemma gapless_get:
  assumes "inv s" "gapless s" "get k c s = (Inr x, t)"
  shows "gapless t"
proof (cases "val s k c")
  case None
  then have new: "val s k c \<noteq> Some x" by simp
  have r: "ran (val t l) = (if l = k then insert x (ran (val s k)) else ran (val s l))" for l
    using None by (simp add: get_val [OF assms(1,3)] ran_map_upd)
  have "x = 0 \<or> 0 \<le> x \<and> x - 1 \<in> ran (val s k)"
  proof (cases "val s k = Map.empty \<and> x = 0")
    case False
    with get_next [OF assms(1,3) new] have d: "x - 1 \<in> ran (val s k)" by (auto simp: ran_def)
    with assms(2) have "0 \<le> x - 1" unfolding gapless_def by blast
    with d show ?thesis by simp
  qed simp
  with assms(2) show ?thesis unfolding gapless_def r by auto
next
  case (Some y)
  with get_again [OF assms(1)] assms(3) have "t = s" by simp
  with assms(2) show ?thesis by simp
qed

lemma downward_closed_interval:
  fixes A :: "int set"
  assumes "finite A" "\<forall>y \<in> A. 0 \<le> y \<and> (y = 0 \<or> y - 1 \<in> A)"
  shows "A = {0..<int (card A)}"
proof -
  have below: "y \<in> A \<Longrightarrow> 0 \<le> z \<Longrightarrow> z \<le> y \<Longrightarrow> z \<in> A" for y z
  proof (induction "nat (y - z)" arbitrary: z)
    case (Suc n)
    then have "n = nat (y - (z + 1))" "0 \<le> z + 1" "z + 1 \<le> y" by linarith+
    with Suc have "z + 1 \<in> A" by blast
    with assms(2) Suc.prems show ?case by force
  qed simp
  show ?thesis
  proof (cases "A = {}")
    case False
    with assms have m: "Max A \<in> A" "0 \<le> Max A" using Max_in by blast+
    have A: "A = {0..<Max A + 1}"
    proof (intro set_eqI iffI)
      fix y assume "y \<in> A"
      with assms Max_ge [OF assms(1) this] show "y \<in> {0..<Max A + 1}" by auto
    next
      fix y assume "y \<in> {0..<Max A + 1}"
      then show "y \<in> A" using below [OF m(1)] by simp
    qed
    then have "card A = nat (Max A + 1)" by (metis card_atLeastLessThan_int diff_0_right)
    with A m(2) show ?thesis by simp
  qed simp
qed

text \<open>From an empty table \<open>n\<close> names get the numbers below \<open>n\<close>.\<close>

lemma numbers_below:
  assumes "inv s" "\<And>k. val s k = Map.empty" "sfor rs request s = (Inr (), t)"
  shows "bij_betw (\<lambda>c. the (val t k c)) {c. (k, c) \<in> set rs} {0..<int (card {c. (k, c) \<in> set rs})}"
proof -
  let ?C = "{c. (k, c) \<in> set rs}"
  have d: "dom (val t k) = ?C" using requests_dom [OF assms(1,3)] assms(2) by simp
  have fin: "finite ?C" by (rule finite_subset [of _ "snd ` set rs"]) force+
  have one: "one_number_each t"
    by (rule one_number_requests [OF assms(1,3)]) (simp add: one_number_each_def assms(2))
  have "gapless t"
    by (rule requests_keep [where P = gapless, OF assms(1,3)]) (simp add: gapless_def assms(2), rule gapless_get)
  then have g: "\<forall>y \<in> ran (val t k). 0 \<le> y \<and> (y = 0 \<or> y - 1 \<in> ran (val t k))" by (simp add: gapless_def)
  have i: "inj_on (\<lambda>c. the (val t k c)) ?C"
  proof (rule inj_onI)
    fix c e assume ce: "c \<in> ?C" "e \<in> ?C" "the (val t k c) = the (val t k e)"
    with d obtain y z where "val t k c = Some y" "val t k e = Some z" by (metis domD)
    with ce(3) one show "c = e" by (simp add: one_number_each_def)
  qed
  have r: "ran (val t k) = (\<lambda>c. the (val t k c)) ` ?C" using d by (force simp: ran_def dom_def)
  have "finite (ran (val t k))" "card (ran (val t k)) = card ?C" using fin i by (simp_all add: r card_image)
  with downward_closed_interval [OF _ g] have "ran (val t k) = {0..<int (card ?C)}" by simp
  with i r show ?thesis by (simp add: bij_betw_def)
qed

end

text \<open>
  Without history the answer is the highest number of the key; a number may also be imported,
  which lowers none.
\<close>

locale numbering_upward = numbering get val inv
  for get :: "'k \<Rightarrow> 'c \<Rightarrow> ('s, int) sm"
    and val :: "'s \<Rightarrow> 'k \<Rightarrow> 'c \<Rightarrow> int option"
    and inv :: "'s \<Rightarrow> bool" +
  fixes imp :: "'k \<Rightarrow> 'c \<Rightarrow> int \<Rightarrow> ('s, int option) sm"
  assumes get_highest: "inv s \<Longrightarrow> get k c s = (Inr x, t) \<Longrightarrow> val t k d = Some y \<Longrightarrow> y \<le> x"
    and imp_returns: "inv s \<Longrightarrow> \<exists>r t. imp k c x s = (Inr r, t)"
    and imp_inv: "inv s \<Longrightarrow> imp k c x s = (Inr r, t) \<Longrightarrow> inv t"
    and imp_raises: "inv s \<Longrightarrow> imp k c x s = (Inr r, t) \<Longrightarrow> val s l d = Some y \<Longrightarrow>
      \<exists>z \<ge> y. val t l d = Some z"
begin

definition reached :: "'k \<Rightarrow> int \<Rightarrow> 's \<Rightarrow> bool" where
  "reached k x s \<longleftrightarrow> inv s \<and> (\<exists>d. \<exists>y \<ge> x. val s k d = Some y)"

lemma reached_get:
  assumes "reached k x s" "get l c s = (Inr z, t)"
  shows "reached k x t"
proof -
  from assms(1) obtain d y where i: "inv s" and y: "x \<le> y" "val s k d = Some y" unfolding reached_def by blast
  note v = get_val [OF i assms(2)]
  have "\<exists>d. \<exists>y \<ge> x. val t k d = Some y"
  proof (cases "l = k \<and> c = d")
    case True
    then have "y \<le> z" using y(2) get_new [OF i assms(2), of d y] by fastforce
    with True v y(1) show ?thesis by (intro exI [of _ d] exI [of _ z]) simp
  next
    case False
    with v y show ?thesis by (intro exI [of _ d] exI [of _ y]) auto
  qed
  with get_inv [OF i assms(2)] show ?thesis unfolding reached_def by blast
qed

lemma reached_imp: "reached k x s \<Longrightarrow> imp l c z s = (Inr r, t) \<Longrightarrow> reached k x t"
  unfolding reached_def by (meson imp_inv imp_raises order_trans)

definition change :: "'k \<times> 'c \<times> int option \<Rightarrow> ('s, unit) sm" where
  "change r = (case r of
     (k, c, None) \<Rightarrow> sbind (get k c) (\<lambda>_. sret ())
   | (k, c, Some x) \<Rightarrow> sbind (imp k c x) (\<lambda>_. sret ()))"

lemma never_decreases:
  assumes "inv s" "get k c s = (Inr x, t)" "sfor rs change t = (Inr (), u)" "get k d u = (Inr y, w)"
  shows "x \<le> y"
proof -
  have t: "reached k x t"
    using get_inv [OF assms(1,2)] get_val [OF assms(1,2)] by (auto simp: reached_def intro!: exI [of _ c])
  have "reached k x u"
  proof (rule sfor_inv [where P = "reached k x", OF assms(3) t])
    fix r s t assume "reached k x s" "change r s = (Inr (), t)"
    then show "reached k x t"
      by (auto simp: change_def sbind_eq_Inr sret_def intro: reached_get reached_imp split: prod.splits option.splits)
  qed
  then have "inv u" and "reached k x w" using reached_get [OF _ assms(4)] by (auto simp: reached_def)
  then obtain e z where "x \<le> z" "val w k e = Some z" unfolding reached_def by blast
  with get_highest [OF \<open>inv u\<close> assms(4)] show ?thesis by (meson order_trans)
qed

end

section \<open>Rows\<close>

definition row_key :: "pr_row \<Rightarrow> (string \<times> string) \<times> string" where
  "row_key r = ((row_version r, row_pkgarch r), row_checksum r)"

definition rows_ok :: "pr_row list \<Rightarrow> bool" where
  "rows_ok rows \<longleftrightarrow> distinct (map row_key rows)"

text \<open>The numbering that the rows stand for.\<close>

type_synonym pr_abs = "string \<times> string \<Rightarrow> string \<Rightarrow> int option"

definition pr_abs :: "pr_row list \<Rightarrow> pr_abs" where
  "pr_abs rows k c = map_of (map (\<lambda>r. (row_key r, row_value r)) rows) (k, c)"

lemma is_row_key: "is_row (Some v) (Some p) (Some c) r \<longleftrightarrow> row_key r = ((v, p), c)"
  by (auto simp: is_row_def in_group_def row_key_def)

lemma pr_abs_Nil [simp]: "pr_abs [] = (\<lambda>_. Map.empty)"
  by (intro ext) (simp add: pr_abs_def)

lemma pr_abs_None: "pr_abs rows k c = None \<longleftrightarrow> (k, c) \<notin> row_key ` set rows"
  by (simp add: pr_abs_def map_of_eq_None_iff image_image)

lemma pr_abs_Some:
  assumes "rows_ok rows"
  shows "pr_abs rows k c = Some x \<longleftrightarrow> (\<exists>r \<in> set rows. row_key r = (k, c) \<and> row_value r = x)"
proof -
  have "distinct (map fst (map (\<lambda>r. (row_key r, row_value r)) rows))"
    using assms by (simp add: rows_ok_def comp_def)
  from map_of_eq_Some_iff [OF this, of "(k, c)" x] show ?thesis unfolding pr_abs_def by (auto simp: image_iff) metis
qed

lemma pr_abs_append:
  assumes "row_key r = (k, c)" "(k, c) \<notin> row_key ` set rows"
  shows "pr_abs (rows @ [r]) = (pr_abs rows)(k := (pr_abs rows k)(c \<mapsto> row_value r))"
proof (intro ext)
  fix l d
  show "pr_abs (rows @ [r]) l d = ((pr_abs rows)(k := (pr_abs rows k)(c \<mapsto> row_value r))) l d"
    using assms pr_abs_None [of rows k c] by (auto simp: pr_abs_def map_add_def split: option.splits)
qed

lemma pr_abs_filter:
  "pr_abs (filter (\<lambda>r. row_key r \<noteq> (k, c)) rows) l d = (if (l, d) = (k, c) then None else pr_abs rows l d)"
  by (induction rows) (auto simp: pr_abs_def)

lemma select_value_eq:
  assumes "rows_ok rows"
  shows "select_value (Some v) (Some p) (Some c) rows = (case pr_abs rows (v, p) c of None \<Rightarrow> [] | Some x \<Rightarrow> [x])"
  using assms
proof (induction rows)
  case Nil
  then show ?case by (simp add: select_value_def)
next
  case (Cons r rows)
  have ok: "rows_ok rows" and new: "row_key r \<notin> row_key ` set rows"
    using Cons.prems by (auto simp: rows_ok_def)
  show ?case
  proof (cases "row_key r = ((v, p), c)")
    case True
    then have "filter (is_row (Some v) (Some p) (Some c)) rows = []"
      using new by (auto simp: filter_empty_conv is_row_key image_iff)
    with True show ?thesis by (simp add: select_value_def is_row_key pr_abs_def)
  next
    case False
    with Cons.IH [OF ok] show ?thesis by (simp add: select_value_def is_row_key pr_abs_def)
  qed
qed

lemma select_value_NULL: "v = None \<or> p = None \<or> c = None \<Longrightarrow> select_value v p c rows = []"
  by (auto simp: select_value_def is_row_def in_group_def)

lemma fold_max: "fold max xs (x :: int) = Max (insert x (set xs))"
  by (metis Max.set_eq_fold list.simps(15))

lemma group_values:
  assumes "rows_ok rows"
  shows "set (map row_value (filter (in_group (Some v) (Some p)) rows)) = ran (pr_abs rows (v, p))"
  using pr_abs_Some [OF assms, of "(v, p)"] by (force simp: ran_def in_group_def row_key_def)

text \<open>The highest number of a key.\<close>

definition highest :: "(string \<Rightarrow> int option) \<Rightarrow> int option" where
  "highest m = (if m = Map.empty then None else Some (Max (ran m)))"

lemma ran_Nil_iff: "ran m = {} \<longleftrightarrow> m = Map.empty"
proof
  assume "ran m = {}"
  show "m = Map.empty"
  proof
    fix x show "m x = None" using \<open>ran m = {}\<close> by (cases "m x") (auto simp: ran_def)
  qed
qed simp

lemma select_max_eq:
  assumes "rows_ok rows"
  shows "select_max (Some v) (Some p) rows = highest (pr_abs rows (v, p))"
proof -
  note g = group_values [OF assms, of v p]
  show ?thesis
  proof (cases "map row_value (filter (in_group (Some v) (Some p)) rows)")
    case Nil
    with g have "ran (pr_abs rows (v, p)) = {}" by simp
    then have "pr_abs rows (v, p) = Map.empty" by (simp add: ran_Nil_iff)
    with Nil show ?thesis by (simp add: select_max_def highest_def)
  next
    case (Cons x xs)
    with g have "ran (pr_abs rows (v, p)) = insert x (set xs)" by simp
    moreover from this have "pr_abs rows (v, p) \<noteq> Map.empty" by auto
    ultimately show ?thesis by (simp add: select_max_def Cons highest_def fold_max)
  qed
qed

lemma ran_abs_finite: "rows_ok rows \<Longrightarrow> finite (ran (pr_abs rows k))"
  by (cases k) (metis group_values List.finite_set)

text \<open>A new number: zero, or one above the highest.\<close>

definition new_number :: "(string \<Rightarrow> int option) \<Rightarrow> int" where
  "new_number m = (case highest m of None \<Rightarrow> 0 | Some x \<Rightarrow> x + 1)"

lemma next_value_eq: "rows_ok rows \<Longrightarrow> next_value (Some v) (Some p) rows = new_number (pr_abs rows (v, p))"
  by (simp add: next_value_def new_number_def select_max_eq)

lemma new_number_above:
  assumes "rows_ok rows" "pr_abs rows k c = Some y"
  shows "y < new_number (pr_abs rows k)"
proof -
  have "y \<in> ran (pr_abs rows k)" using assms(2) by (rule ranI)
  from Max_ge [OF ran_abs_finite [OF assms(1)] this] assms(2) show ?thesis
    by (auto simp: new_number_def highest_def)
qed

lemma new_number_next:
  assumes "rows_ok rows"
  shows "pr_abs rows k = Map.empty \<and> new_number (pr_abs rows k) = 0 \<or>
    (\<exists>c. pr_abs rows k c = Some (new_number (pr_abs rows k) - 1))"
proof (cases "pr_abs rows k = Map.empty")
  case False
  then have "ran (pr_abs rows k) \<noteq> {}" by (simp add: ran_Nil_iff)
  from Max_in [OF ran_abs_finite [OF assms] this] False show ?thesis
    by (auto simp: new_number_def highest_def ran_def)
qed (simp add: new_number_def highest_def)

section \<open>The tables keep the contract\<close>

definition table_ok :: "pr_state \<Rightarrow> pr_row list \<Rightarrow> bool" where
  "table_ok s rows \<longleftrightarrow> map_of (pr_now s) (pr_table s) = Some rows \<and> rows_ok rows"

definition store_rows :: "pr_row list \<Rightarrow> pr_state \<Rightarrow> pr_state" where
  "store_rows rows s = s\<lparr>pr_now := dset (pr_table s) rows (pr_now s), pr_dirty := True\<rparr>"

lemma store_rows_simps [simp]:
  "pr_nohist (store_rows rows s) = pr_nohist s" "pr_table (store_rows rows s) = pr_table s"
  "pr_saved (store_rows rows s) = pr_saved s" "pr_dirty (store_rows rows s)"
  "map_of (pr_now (store_rows rows s)) (pr_table s) = Some rows"
  by (simp_all add: store_rows_def)

lemma table_ok_store: "rows_ok rows \<Longrightarrow> table_ok (store_rows rows s) rows"
  by (simp add: table_ok_def)

lemma pr_rows_ok: "table_ok s rows \<Longrightarrow> pr_rows s = Inr rows"
  by (simp add: table_ok_def pr_rows_def)

text \<open>A row with its key, and what writing it does.\<close>

definition row :: "string \<times> string \<Rightarrow> string \<Rightarrow> int \<Rightarrow> pr_row" where
  "row k c x = \<lparr>row_version = fst k, row_pkgarch = snd k, row_checksum = c, row_value = x\<rparr>"

lemma row_simps [simp]: "row_key (row k c x) = (k, c)" "row_value (row k c x) = x"
  by (simp_all add: row_key_def row_def)

lemma insert_row_eq:
  "insert_row (Some v) (Some p) (Some c) x rows = (if ((v, p), c) \<in> row_key ` set rows then Inl IntegrityError
    else Inr (rows @ [row (v, p) c x]))"
  by (force simp: insert_row_def make_row_def row_def list_ex_iff is_row_key)

lemma replace_row_eq:
  "replace_row (Some v) (Some p) (Some c) x rows =
    Inr (filter (\<lambda>r. row_key r \<noteq> ((v, p), c)) rows @ [row (v, p) c x])"
  by (simp add: replace_row_def make_row_def row_def is_row_key)

lemma make_row_NULL: "v = None \<or> p = None \<or> c = None \<Longrightarrow> make_row v p c x = Inl IntegrityError"
  by (auto simp: make_row_def split: option.splits)

lemma rows_ok_append: "rows_ok rows \<Longrightarrow> (k, c) \<notin> row_key ` set rows \<Longrightarrow> rows_ok (rows @ [row k c x])"
  by (simp add: rows_ok_def)

lemma rows_ok_filter: "rows_ok rows \<Longrightarrow> rows_ok (filter p rows)"
  by (simp add: rows_ok_def distinct_map_filter)

lemma rows_ok_raise: "rows_ok rows \<Longrightarrow> rows_ok (raise_row v p c x rows)"
proof -
  have "map row_key (raise_row v p c x rows) = map row_key rows"
    by (simp add: raise_row_def row_key_def)
  then show "rows_ok rows \<Longrightarrow> ?thesis" by (simp add: rows_ok_def)
qed

text \<open>Each operation as one equation over the rows.\<close>

definition rows_after :: "bool \<Rightarrow> string \<times> string \<Rightarrow> string \<Rightarrow> pr_row list \<Rightarrow> pr_row list" where
  "rows_after nohist k c rows = (if nohist then filter (\<lambda>r. row_key r \<noteq> (k, c)) rows else rows)
     @ [row k c (new_number (pr_abs rows k))]"

definition has_number :: "bool \<Rightarrow> string \<times> string \<Rightarrow> string \<Rightarrow> pr_row list \<Rightarrow> bool" where
  "has_number nohist k c rows \<longleftrightarrow> (\<exists>x. pr_abs rows k c = Some x \<and> (nohist \<longrightarrow> highest (pr_abs rows k) = Some x))"

lemma rows_after_ok:
  assumes "rows_ok rows" "\<not> has_number nohist k c rows"
  shows "rows_ok (rows_after nohist k c rows)"
    and "pr_abs (rows_after nohist k c rows) = (pr_abs rows)(k := (pr_abs rows k)(c \<mapsto> new_number (pr_abs rows k)))"
proof -
  let ?rows = "if nohist then filter (\<lambda>r. row_key r \<noteq> (k, c)) rows else rows"
  have new: "(k, c) \<notin> row_key ` set ?rows"
    using assms(2) pr_abs_None [of rows k c] by (auto simp: has_number_def)
  have ok: "rows_ok ?rows" using assms(1) by (simp add: rows_ok_filter)
  show "rows_ok (rows_after nohist k c rows)"
    unfolding rows_after_def by (rule rows_ok_append [OF ok new])
  have old: "(pr_abs ?rows)(k := (pr_abs ?rows k)(c \<mapsto> y)) = (pr_abs rows)(k := (pr_abs rows k)(c \<mapsto> y))" for y
    by (intro ext) (simp add: pr_abs_filter)
  show "pr_abs (rows_after nohist k c rows) = (pr_abs rows)(k := (pr_abs rows k)(c \<mapsto> new_number (pr_abs rows k)))"
    using pr_abs_append [of "row k c (new_number (pr_abs rows k))" k c ?rows, OF _ new]
    unfolding rows_after_def by (simp only: old row_simps)
qed

lemma fetchone_eq: "table_ok s rows \<Longrightarrow> fetchone q s = (Inr (case q rows of [] \<Rightarrow> None | x # _ \<Rightarrow> Some x), s)"
  by (simp add: fetchone_def sbind_def sres_def sret_def pr_rows_ok)

lemma write_or_eq:
  assumes "table_ok s rows"
  shows "write_or stmt h s = (case stmt rows of
     Inr rows' \<Rightarrow> (Inr (), s\<lparr>pr_now := dset (pr_table s) rows' (pr_now s)\<rparr>)
   | Inl e \<Rightarrow> if e = IntegrityError then h s else (Inl e, s))"
  using assms
  by (simp add: write_or_def scatch_def sbind_def sres_def set_rows_def supd_def pr_rows_ok split: sum.splits)

lemma getValue_eq:
  assumes "table_ok s rows"
  shows "getValue (Some v) (Some p) (Some c) s =
    (if has_number (pr_nohist s) (v, p) c rows then (Inr (the (pr_abs rows (v, p) c)), s)
     else (Inr (new_number (pr_abs rows (v, p))), store_rows (rows_after (pr_nohist s) (v, p) c rows) s))"
proof -
  have ok: "rows_ok rows" using assms by (simp add: table_ok_def)
  note sel = select_value_eq [OF ok] select_max_eq [OF ok] next_value_eq [OF ok]
  show ?thesis
  proof (cases "has_number (pr_nohist s) (v, p) c rows")
    case True
    then obtain x where x: "pr_abs rows (v, p) c = Some x" "pr_nohist s \<Longrightarrow> highest (pr_abs rows (v, p)) = Some x"
      unfolding has_number_def by blast
    with True show ?thesis
      by (simp add: getValue_def getValueHist_def getValueNohist_def sbind_def sget_def fetchone_eq [OF assms] sel
        sql_ge_def sret_def)
  next
    case False
    let ?t = "store_rows (rows_after (pr_nohist s) (v, p) c rows) s"
    have t: "table_ok ?t (rows_after (pr_nohist s) (v, p) c rows)"
      by (rule table_ok_store [OF rows_after_ok(1) [OF ok False]])
    have f: "fetchone (select_value (Some v) (Some p) (Some c)) ?t = (Inr (Some (new_number (pr_abs rows (v, p)))), ?t)"
      using select_value_eq [OF rows_after_ok(1) [OF ok False], of v p c]
      by (simp add: fetchone_eq [OF t] rows_after_ok(2) [OF ok False])
    have low: "filter (\<lambda>x. sql_ge x (highest (pr_abs rows (v, p))))
        (case pr_abs rows (v, p) c of None \<Rightarrow> [] | Some x \<Rightarrow> [x]) = []" if "pr_nohist s"
    proof (cases "pr_abs rows (v, p) c")
      case (Some x)
      then have x: "x \<in> ran (pr_abs rows (v, p))" "pr_abs rows (v, p) \<noteq> Map.empty" by (auto intro: ranI)
      with False Some that have "x \<noteq> Max (ran (pr_abs rows (v, p)))" by (auto simp: has_number_def highest_def)
      with Max_ge [OF ran_abs_finite [OF ok] x(1)] Some x(2) show ?thesis by (simp add: highest_def sql_ge_def)
    qed simp
    have none: "pr_abs rows (v, p) c = None" if "\<not> pr_nohist s"
      using False that by (auto simp: has_number_def)
    show ?thesis
    proof (cases "pr_nohist s")
      case True
      have w: "replace_row (Some v) (Some p) (Some c) (next_value (Some v) (Some p) rows) rows =
          Inr (rows_after (pr_nohist s) (v, p) c rows)"
        by (simp add: replace_row_eq rows_after_def True sel)
      show ?thesis
        using False True low [OF True] f
        by (simp add: getValue_def getValueNohist_def sbind_def sget_def fetchone_eq [OF assms] sel(1,2) write_or_eq [OF assms]
          w set_dirty_def supd_def store_rows_def [symmetric] found_def sret_def)
    next
      case nohist: False
      have w: "insert_row (Some v) (Some p) (Some c) (next_value (Some v) (Some p) rows) rows =
          Inr (rows_after (pr_nohist s) (v, p) c rows)"
        using none [OF nohist] by (simp add: insert_row_eq rows_after_def nohist sel pr_abs_None)
      show ?thesis
        using False nohist none [OF nohist] f
        by (simp add: getValue_def getValueHist_def sbind_def sget_def fetchone_eq [OF assms] sel(1) write_or_eq [OF assms]
          w set_dirty_def supd_def store_rows_def [symmetric] found_def sret_def)
    qed
  qed
qed

text \<open>With a missing argument there is no number, and the rows stay as they are or as saved.\<close>

lemma getValue_NULL:
  assumes "table_ok s rows" "v = None \<or> p = None \<or> c = None" "map_of (pr_saved s) (pr_table s) = Some rows'"
  shows "getValue v p c s = (Inl NotFoundError, s\<lparr>pr_now := (if pr_nohist s then pr_saved s else pr_now s), pr_dirty := True\<rparr>)"
proof -
  have m: "insert_row v p c x rows = Inl IntegrityError" "replace_row v p c x rows = Inl IntegrityError" for x
    using make_row_NULL [OF assms(2)] by (simp_all add: insert_row_def replace_row_def)
  let ?t = "\<lambda>now. s\<lparr>pr_now := now, pr_dirty := True\<rparr>"
  have f: "fetchone (select_value v p c) (?t now) = (Inr None, ?t now)" if "map_of now (pr_table s) \<noteq> None" for now
    using that by (auto simp: fetchone_def sbind_def sres_def sret_def pr_rows_def select_value_NULL [OF assms(2)])
  have now: "s\<lparr>pr_dirty := True\<rparr> = ?t (pr_now s)" by simp
  have t: "map_of (pr_now s) (pr_table s) \<noteq> None" using assms(1) by (simp add: table_ok_def)
  show ?thesis
    using f [OF t] f [of "pr_saved s"] assms(3)
    by (simp add: getValue_def getValueHist_def getValueNohist_def sbind_def sget_def fetchone_eq [OF assms(1)]
      select_value_NULL [OF assms(2)] write_or_eq [OF assms(1)] m sret_def rollback_def set_dirty_def supd_def found_def sraise_def)
qed

text \<open>An import.\<close>

definition rows_imported :: "bool \<Rightarrow> string \<times> string \<Rightarrow> string \<Rightarrow> int \<Rightarrow> pr_row list \<Rightarrow> pr_row list" where
  "rows_imported nohist k c x rows =
     (if (k, c) \<notin> row_key ` set rows then rows @ [row k c x]
      else if nohist then raise_row (Some (fst k)) (Some (snd k)) (Some c) x rows else rows)"

definition abs_imported :: "bool \<Rightarrow> string \<times> string \<Rightarrow> string \<Rightarrow> int \<Rightarrow> pr_abs \<Rightarrow> pr_abs" where
  "abs_imported nohist k c x f = f(k := (f k)(c \<mapsto>
     (case f k c of None \<Rightarrow> x | Some y \<Rightarrow> if nohist then max x y else y)))"

lemma abs_same: "f k c = Some y \<Longrightarrow> f(k := (f k)(c \<mapsto> y)) = f"
  by (metis fun_upd_triv)

lemma raise_row_abs:
  "pr_abs (raise_row (Some (fst k)) (Some (snd k)) (Some c) x rows) l d =
    (if (l, d) = (k, c) then map_option (max x) (pr_abs rows k c) else pr_abs rows l d)"
proof (induction rows)
  case (Cons r rows)
  have "raise_row (Some (fst k)) (Some (snd k)) (Some c) x (r # rows) =
      (if row_key r = (k, c) \<and> row_value r < x then r\<lparr>row_value := x\<rparr> else r) #
      raise_row (Some (fst k)) (Some (snd k)) (Some c) x rows"
    by (simp add: raise_row_def is_row_key)
  moreover have "row_key (r\<lparr>row_value := x\<rparr>) = row_key r" by (simp add: row_key_def)
  ultimately show ?case using Cons by (auto simp: pr_abs_def max.absorb1 max.absorb2)
qed (simp add: raise_row_def)

lemma rows_imported_ok:
  assumes "rows_ok rows"
  shows "rows_ok (rows_imported nohist k c x rows)"
    and "pr_abs (rows_imported nohist k c x rows) = abs_imported nohist k c x (pr_abs rows)"
proof -
  show "rows_ok (rows_imported nohist k c x rows)"
    using rows_ok_append [OF assms] rows_ok_raise [OF assms] assms by (simp add: rows_imported_def)
  show "pr_abs (rows_imported nohist k c x rows) = abs_imported nohist k c x (pr_abs rows)"
  proof (cases "(k, c) \<in> row_key ` set rows")
    case False
    then have "pr_abs rows k c = None" by (simp add: pr_abs_None)
    with False pr_abs_append [of "row k c x" k c rows] show ?thesis
      by (simp add: rows_imported_def abs_imported_def)
  next
    case True
    then obtain y where y: "pr_abs rows k c = Some y" using pr_abs_None [of rows k c] by auto
    show ?thesis
    proof (intro ext)
      fix l d
      show "pr_abs (rows_imported nohist k c x rows) l d = abs_imported nohist k c x (pr_abs rows) l d"
        using True y by (simp add: rows_imported_def abs_imported_def raise_row_abs)
    qed
  qed
qed

lemma importone_eq:
  assumes "table_ok s rows"
  shows "importone (Some v) (Some p) (Some c) x s =
    (Inr (pr_abs (rows_imported (pr_nohist s) (v, p) c x rows) (v, p) c),
     if \<not> pr_nohist s \<and> pr_abs rows (v, p) c \<noteq> None then s
     else store_rows (rows_imported (pr_nohist s) (v, p) c x rows) s)"
proof -
  have ok: "rows_ok rows" using assms by (simp add: table_ok_def)
  let ?rows = "rows_imported (pr_nohist s) (v, p) c x rows"
  let ?t = "store_rows ?rows s"
  have t: "table_ok ?t ?rows" by (rule table_ok_store [OF rows_imported_ok(1) [OF ok]])
  have sel: "select_value (Some v) (Some p) (Some c) ?rows =
      [case pr_abs rows (v, p) c of None \<Rightarrow> x | Some y \<Rightarrow> if pr_nohist s then max x y else y]"
    by (simp add: select_value_eq [OF rows_imported_ok(1) [OF ok]] rows_imported_ok(2) [OF ok] abs_imported_def)
  have a: "pr_abs ?rows (v, p) c = Some (case pr_abs rows (v, p) c of None \<Rightarrow> x | Some y \<Rightarrow> if pr_nohist s then max x y else y)"
    by (simp add: rows_imported_ok(2) [OF ok] abs_imported_def)
  show ?thesis
  proof (cases "pr_nohist s")
    case True
    have w: "write_or (insert_row (Some v) (Some p) (Some c) x)
        (write_or (\<lambda>rows. Inr (raise_row (Some v) (Some p) (Some c) x rows)) (sret ())) s =
        (Inr (), s\<lparr>pr_now := dset (pr_table s) ?rows (pr_now s)\<rparr>)"
      by (simp add: write_or_eq [OF assms] insert_row_eq rows_imported_def True)
    have f: "fetchone (\<lambda>rows. filter (\<lambda>y. x \<le> y) (select_value (Some v) (Some p) (Some c) rows)) ?t = (Inr (pr_abs ?rows (v, p) c), ?t)"
      using a True unfolding fetchone_eq [OF t] sel by (simp split: option.splits)
    show ?thesis
      using True f
      by (simp add: importone_def importNohist_def sbind_def sget_def w set_dirty_def supd_def store_rows_def [symmetric])
  next
    case False
    show ?thesis
    proof (cases "pr_abs rows (v, p) c")
      case None
      then have w: "insert_row (Some v) (Some p) (Some c) x rows = Inr ?rows"
        by (simp add: insert_row_eq rows_imported_def pr_abs_None)
      have f: "fetchone (select_value (Some v) (Some p) (Some c)) ?t = (Inr (pr_abs ?rows (v, p) c), ?t)"
        using a unfolding fetchone_eq [OF t] sel by simp
      show ?thesis
        using False None f
        by (simp add: importone_def importHist_def sbind_def sget_def fetchone_eq [OF assms] select_value_eq [OF ok]
          write_or_eq [OF assms] w set_dirty_def supd_def store_rows_def [symmetric])
    next
      case (Some y)
      with False a show ?thesis
        by (simp add: importone_def importHist_def sbind_def sget_def fetchone_eq [OF assms] select_value_eq [OF ok] sret_def)
    qed
  qed
qed

section \<open>Interpretation and refinement\<close>

definition pr_ok :: "bool \<Rightarrow> pr_state \<Rightarrow> bool" where
  "pr_ok nohist s \<longleftrightarrow> pr_nohist s = nohist \<and> (\<exists>rows. table_ok s rows)"

definition pr_val :: "pr_state \<Rightarrow> string \<times> string \<Rightarrow> string \<Rightarrow> int option" where
  "pr_val s = (case pr_rows s of Inl _ \<Rightarrow> (\<lambda>_. Map.empty) | Inr rows \<Rightarrow> pr_abs rows)"

definition pr_get :: "string \<times> string \<Rightarrow> string \<Rightarrow> (pr_state, int) sm" where
  "pr_get k c = getValue (Some (fst k)) (Some (snd k)) (Some c)"

definition pr_import :: "string \<times> string \<Rightarrow> string \<Rightarrow> int \<Rightarrow> (pr_state, int option) sm" where
  "pr_import k c x = importone (Some (fst k)) (Some (snd k)) (Some c) x"

lemma pr_val_ok: "table_ok s rows \<Longrightarrow> pr_val s = pr_abs rows"
  by (simp add: pr_val_def pr_rows_ok)

lemma pr_okE:
  assumes "pr_ok nohist s"
  obtains rows where "pr_nohist s = nohist" "table_ok s rows" "rows_ok rows" "pr_val s = pr_abs rows"
  using assms pr_val_ok by (auto simp: pr_ok_def table_ok_def)

text \<open>The numbering as a function: what a request answers and what it changes.\<close>

definition spec_get :: "bool \<Rightarrow> string \<times> string \<Rightarrow> string \<Rightarrow> pr_abs \<Rightarrow> int \<times> pr_abs" where
  "spec_get nohist k c f = (case f k c of
     Some x \<Rightarrow> if nohist \<and> highest (f k) \<noteq> Some x
       then (new_number (f k), f(k := (f k)(c \<mapsto> new_number (f k)))) else (x, f)
   | None \<Rightarrow> (new_number (f k), f(k := (f k)(c \<mapsto> new_number (f k)))))"

definition spec_import :: "bool \<Rightarrow> string \<times> string \<Rightarrow> string \<Rightarrow> int \<Rightarrow> pr_abs \<Rightarrow> int \<times> pr_abs" where
  "spec_import nohist k c x f = (the (abs_imported nohist k c x f k c), abs_imported nohist k c x f)"

lemma pr_get_refines:
  assumes "pr_ok nohist s"
  shows "\<exists>t. pr_get k c s = (Inr (fst (spec_get nohist k c (pr_val s))), t) \<and> pr_ok nohist t \<and>
    pr_val t = snd (spec_get nohist k c (pr_val s))"
proof -
  from assms obtain rows where r: "pr_nohist s = nohist" "table_ok s rows" "rows_ok rows" "pr_val s = pr_abs rows"
    by (rule pr_okE)
  note g = getValue_eq [OF r(2), of "fst k" "snd k" c, unfolded r(1) prod.collapse]
  show ?thesis
  proof (cases "has_number nohist k c rows")
    case True
    then have "spec_get nohist k c (pr_val s) = (the (pr_abs rows k c), pr_val s)"
      by (auto simp: has_number_def spec_get_def r(4))
    with True g assms show ?thesis by (auto simp: pr_get_def)
  next
    case False
    let ?rows = "rows_after nohist k c rows"
    note ok = table_ok_store [OF rows_after_ok(1) [OF r(3) False], of s]
    from False have "spec_get nohist k c (pr_val s) =
        (new_number (pr_abs rows k), (pr_abs rows)(k := (pr_abs rows k)(c \<mapsto> new_number (pr_abs rows k))))"
      by (auto simp: has_number_def spec_get_def r(4) split: option.splits)
    with False g pr_val_ok [OF ok] rows_after_ok(2) [OF r(3) False] ok r(1) show ?thesis
      by (auto simp: pr_get_def pr_ok_def)
  qed
qed

lemma pr_import_refines:
  assumes "pr_ok nohist s"
  shows "\<exists>t. pr_import k c x s = (Inr (Some (fst (spec_import nohist k c x (pr_val s)))), t) \<and> pr_ok nohist t \<and>
    pr_val t = snd (spec_import nohist k c x (pr_val s))"
proof -
  from assms obtain rows where r: "pr_nohist s = nohist" "table_ok s rows" "rows_ok rows" "pr_val s = pr_abs rows"
    by (rule pr_okE)
  note g = importone_eq [OF r(2), of "fst k" "snd k" c x, unfolded r(1) prod.collapse]
  note i = rows_imported_ok [OF r(3), of nohist k c x]
  have some: "abs_imported nohist k c x (pr_abs rows) k c = Some (the (abs_imported nohist k c x (pr_abs rows) k c))"
    by (simp add: abs_imported_def)
  show ?thesis
  proof (cases "\<not> nohist \<and> pr_abs rows k c \<noteq> None")
    case True
    then have "abs_imported nohist k c x (pr_abs rows) = pr_abs rows"
      by (auto simp: abs_imported_def abs_same)
    with True g i(2) some assms r(4) show ?thesis by (simp add: pr_import_def spec_import_def)
  next
    case False
    note ok = table_ok_store [OF i(1), of s]
    from False g i(2) some pr_val_ok [OF ok] ok r(1,4) show ?thesis
      by (auto simp: pr_import_def spec_import_def pr_ok_def)
  qed
qed

lemma spec_get_laws:
  assumes "rows_ok rows" "spec_get nohist k c (pr_abs rows) = (x, g)"
  shows "g = (pr_abs rows)(k := (pr_abs rows k)(c \<mapsto> x))"
    and "pr_abs rows k c \<noteq> Some x \<Longrightarrow> x = new_number (pr_abs rows k)"
    and "nohist \<Longrightarrow> g k d = Some y \<Longrightarrow> y \<le> x"
proof -
  have c: "pr_abs rows k c = Some x \<and> g = pr_abs rows \<and> (nohist \<longrightarrow> highest (pr_abs rows k) = Some x) \<or>
      x = new_number (pr_abs rows k) \<and> g = (pr_abs rows)(k := (pr_abs rows k)(c \<mapsto> x))"
    using assms(2) by (auto simp: spec_get_def split: option.splits if_splits)
  then show "g = (pr_abs rows)(k := (pr_abs rows k)(c \<mapsto> x))"
    using abs_same [of "pr_abs rows" k c x] by auto
  show "pr_abs rows k c \<noteq> Some x \<Longrightarrow> x = new_number (pr_abs rows k)" using c by blast
  assume n: "nohist" and y: "g k d = Some y"
  from c show "y \<le> x"
  proof
    assume h: "pr_abs rows k c = Some x \<and> g = pr_abs rows \<and> (nohist \<longrightarrow> highest (pr_abs rows k) = Some x)"
    with y have "y \<in> ran (pr_abs rows k)" by (auto intro: ranI)
    from Max_ge [OF ran_abs_finite [OF assms(1)] this] h n show ?thesis by (auto simp: highest_def split: if_splits)
  next
    assume "x = new_number (pr_abs rows k) \<and> g = (pr_abs rows)(k := (pr_abs rows k)(c \<mapsto> x))"
    with y new_number_above [OF assms(1), of k d y] show ?thesis by (auto split: if_splits)
  qed
qed

lemma pr_get_step:
  assumes "pr_ok nohist s" "pr_get k c s = (Inr x, t)"
  obtains rows where "pr_nohist s = nohist" "table_ok s rows" "rows_ok rows" "pr_val s = pr_abs rows" "pr_ok nohist t"
    "spec_get nohist k c (pr_abs rows) = (x, pr_val t)"
proof -
  from assms(1) obtain rows where r: "pr_nohist s = nohist" "table_ok s rows" "rows_ok rows" "pr_val s = pr_abs rows"
    by (rule pr_okE)
  from pr_get_refines [OF assms(1), of k c] assms(2) r(4)
  have "pr_ok nohist t" "spec_get nohist k c (pr_abs rows) = (x, pr_val t)" by (auto simp: prod_eq_iff)
  with r that show thesis by blast
qed

interpretation pr: numbering pr_get pr_val "pr_ok nohist"
proof
  fix s k c
  show "\<exists>x t. pr_get k c s = (Inr x, t)" if "pr_ok nohist s" using pr_get_refines [OF that, of k c] by blast
  fix x t assume s: "pr_ok nohist s" and g: "pr_get k c s = (Inr x, t)"
  from s g obtain rows where r: "rows_ok rows" "pr_val s = pr_abs rows" "pr_ok nohist t"
      "spec_get nohist k c (pr_abs rows) = (x, pr_val t)" by (rule pr_get_step)
  note l = spec_get_laws [OF r(1,4)]
  from r(3) show "pr_ok nohist t" .
  from l(1) r(2) show "pr_val t = (pr_val s)(k := (pr_val s k)(c \<mapsto> x))" by simp
  assume "pr_val s k c \<noteq> Some x"
  with l(2) r(2) have x: "x = new_number (pr_abs rows k)" by simp
  show "y < x" if "pr_val s k d = Some y" for d y
    using that new_number_above [OF r(1)] by (simp add: r(2) x)
  show "pr_val s k = Map.empty \<and> x = 0 \<or> (\<exists>d. pr_val s k d = Some (x - 1))"
    using new_number_next [OF r(1)] by (simp add: r(2) x)
qed

interpretation pr_hist: numbering_with_history pr_get pr_val "pr_ok False"
proof
  fix s k c x assume "pr_ok False s" "pr_val s k c = Some x"
  from this(1) obtain rows where r: "pr_nohist s = False" "table_ok s rows" "rows_ok rows" "pr_val s = pr_abs rows"
    by (rule pr_okE)
  with getValue_eq [OF r(2), of "fst k" "snd k" c] \<open>pr_val s k c = Some x\<close>
  show "pr_get k c s = (Inr x, s)" by (simp add: pr_get_def has_number_def)
qed

interpretation pr_nohist: numbering_upward pr_get pr_val "pr_ok True" pr_import
proof
  fix s k c
  show "y \<le> x" if g: "pr_ok True s" "pr_get k c s = (Inr x, t)" and y: "pr_val t k d = Some y" for x t d y
  proof -
    from g obtain rows where r: "rows_ok rows" "spec_get True k c (pr_abs rows) = (x, pr_val t)" by (rule pr_get_step)
    from spec_get_laws(3) [OF this] y show ?thesis by simp
  qed
  fix x
  show "\<exists>r t. pr_import k c x s = (Inr r, t)" if "pr_ok True s" using pr_import_refines [OF that, of k c x] by blast
  fix r t assume i: "pr_ok True s" "pr_import k c x s = (Inr r, t)"
  from pr_import_refines [OF i(1), of k c x] i(2)
  have t: "pr_ok True t" "pr_val t = abs_imported True k c x (pr_val s)" by (auto simp: spec_import_def)
  from t(1) show "pr_ok True t" .
  show "\<exists>z\<ge>y. pr_val t l d = Some z" if "pr_val s l d = Some y" for l d y
    using that by (auto simp: t(2) abs_imported_def)
qed

section \<open>Copying a table\<close>

definition import_row :: "pr_row \<Rightarrow> (pr_state, unit) sm" where
  "import_row r = sbind (importone (Some (row_version r)) (Some (row_pkgarch r)) (Some (row_checksum r)) (row_value r))
     (\<lambda>_. sret ())"

lemma import_row_spec:
  assumes "pr_ok nohist s"
  shows "\<exists>t. import_row r s = (Inr (), t) \<and> pr_ok nohist t \<and>
    pr_val t = abs_imported nohist (fst (row_key r)) (snd (row_key r)) (row_value r) (pr_val s)"
  using pr_import_refines [OF assms, of "fst (row_key r)" "snd (row_key r)" "row_value r"]
  by (auto simp: import_row_def pr_import_def row_key_def spec_import_def sbind_def sret_def)

lemma import_rows:
  assumes "rows_ok (pre @ ds)" "pr_ok nohist s" "pr_val s = pr_abs pre" "sfor ds import_row s = (Inr (), t)"
  shows "pr_ok nohist t \<and> pr_val t = pr_abs (pre @ ds)"
  using assms
proof (induction ds arbitrary: pre s)
  case Nil
  then show ?case by simp
next
  case (Cons r ds)
  obtain u where u: "import_row r s = (Inr (), u)" "pr_ok nohist u"
      "pr_val u = abs_imported nohist (fst (row_key r)) (snd (row_key r)) (row_value r) (pr_val s)"
    using import_row_spec [OF Cons.prems(2)] by blast
  have new: "row_key r \<notin> row_key ` set pre" using Cons.prems(1) by (auto simp: rows_ok_def)
  then have "pr_abs pre (fst (row_key r)) (snd (row_key r)) = None" by (simp add: pr_abs_None)
  with u(3) pr_abs_append [of r "fst (row_key r)" "snd (row_key r)" pre] new Cons.prems(3)
  have "pr_val u = pr_abs (pre @ [r])" by (simp add: abs_imported_def)
  with Cons.IH [of "pre @ [r]" u] Cons.prems(1,4) u(1,2) show ?case by simp
qed

lemma highest_rows_abs:
  assumes "rows_ok rows"
  shows "pr_abs (filter (highest_row rows) rows) k c =
    (if highest (pr_abs rows k) = pr_abs rows k c then pr_abs rows k c else None)"
proof -
  let ?g = "pr_abs (filter (highest_row rows) rows)"
  have h: "highest_row rows r \<longleftrightarrow> highest (pr_abs rows (fst (row_key r))) = Some (row_value r)" for r
    by (simp add: highest_row_def select_max_eq [OF assms] row_key_def)
  have "?g k c = Some x \<longleftrightarrow> pr_abs rows k c = Some x \<and> highest (pr_abs rows k) = Some x" for x
    unfolding pr_abs_Some [OF rows_ok_filter [OF assms]] pr_abs_Some [OF assms] by (auto simp: h)
  then show ?thesis by (metis not_None_eq)
qed

lemma highest_rows_highest:
  assumes "rows_ok rows"
  shows "highest (pr_abs (filter (highest_row rows) rows) k) = highest (pr_abs rows k)"
proof (cases "pr_abs rows k = Map.empty")
  case True
  then have "pr_abs (filter (highest_row rows) rows) k = Map.empty"
    by (intro ext) (simp add: highest_rows_abs [OF assms])
  with True show ?thesis by simp
next
  case False
  let ?m = "Max (ran (pr_abs rows k))"
  have h: "highest (pr_abs rows k) = Some ?m" using False by (simp add: highest_def)
  from False have "ran (pr_abs rows k) \<noteq> {}" by (simp add: ran_Nil_iff)
  from Max_in [OF ran_abs_finite [OF assms] this] obtain c where c: "pr_abs rows k c = Some ?m"
    unfolding ran_def by blast
  then have g: "pr_abs (filter (highest_row rows) rows) k c = Some ?m" by (simp add: highest_rows_abs [OF assms] h)
  then have "?m \<in> ran (pr_abs (filter (highest_row rows) rows) k)" by (rule ranI)
  moreover have "ran (pr_abs (filter (highest_row rows) rows) k) \<subseteq> {?m}"
    by (auto simp: ran_def highest_rows_abs [OF assms] h split: if_splits)
  ultimately have "ran (pr_abs (filter (highest_row rows) rows) k) = {?m}" by blast
  with g h show ?thesis by (auto simp: highest_def)
qed

lemma spec_get_highest:
  assumes "rows_ok rows"
  shows "fst (spec_get True k c (pr_abs (filter (highest_row rows) rows))) = fst (spec_get True k c (pr_abs rows))"
proof -
  have n: "new_number (pr_abs (filter (highest_row rows) rows) k) = new_number (pr_abs rows k)"
    by (simp add: new_number_def highest_rows_highest [OF assms])
  show ?thesis
    by (auto simp: spec_get_def n highest_rows_highest [OF assms] highest_rows_abs [OF assms] split: option.splits)
qed

section \<open>The server loses nothing\<close>

text \<open>What is not saved is marked as dirty.\<close>

definition clean :: "pr_state \<Rightarrow> bool" where
  "clean s \<longleftrightarrow> pr_dirty s \<or> pr_saved s = pr_now s"

definition keeps_clean :: "(pr_state, 'a) sm \<Rightarrow> bool" where
  "keeps_clean m \<longleftrightarrow> hoare clean m (\<lambda>_. clean) (\<lambda>_. clean)"

lemma keeps_clean_simple [simp]:
  "keeps_clean (sret x)" "keeps_clean (sraise e)" "keeps_clean (sget f)" "keeps_clean (sres g)" "keeps_clean pr_sync"
  "keeps_clean set_dirty" "keeps_clean (found r)" "keeps_clean sync_if_dirty"
  by (auto simp: keeps_clean_def hoare_def sm_defs pr_sync_def set_dirty_def found_def sync_if_dirty_def clean_def
    split: option.splits sum.splits)

lemma keeps_clean_bind: "keeps_clean m \<Longrightarrow> (\<And>x. keeps_clean (f x)) \<Longrightarrow> keeps_clean (sbind m f)"
  unfolding keeps_clean_def by (rule hoare_sbind)

lemma keeps_clean_fetchone [simp]: "keeps_clean (fetchone q)"
  unfolding fetchone_def by (intro keeps_clean_bind) simp_all

lemma keeps_clean_catch:
  "keeps_clean m \<Longrightarrow> (\<And>e. keeps_clean (h e)) \<Longrightarrow> keeps_clean (scatch m p h)"
  unfolding keeps_clean_def by (rule hoare_scatch [where R = "\<lambda>_. clean"]) simp_all

text \<open>A statement leaves an exception only without having written.\<close>

definition writes :: "(pr_state, unit) sm \<Rightarrow> bool" where
  "writes m \<longleftrightarrow> hoare clean m (\<lambda>_ _. True) (\<lambda>_. clean)"

lemma writes_simple [simp]: "writes (sret ())" "writes rollback"
  by (simp_all add: writes_def hoare_def sret_def rollback_def supd_def)

lemma writes_write_or: "writes h \<Longrightarrow> writes (write_or stmt h)"
  by (auto simp: writes_def write_or_def hoare_def scatch_def sbind_def sres_def set_rows_def supd_def
    split: prod.splits sum.splits)

lemma keeps_clean_write:
  "writes m \<Longrightarrow> (\<And>x. keeps_clean (f x)) \<Longrightarrow> keeps_clean (sbind m (\<lambda>_. sbind set_dirty f))"
  unfolding writes_def keeps_clean_def set_dirty_def
  by (rule hoare_sbind, assumption) (auto simp: hoare_def sbind_def supd_def clean_def split: prod.splits sum.splits)

lemma keeps_clean_row:
  "(\<And>x. keeps_clean (f x)) \<Longrightarrow> keeps_clean g \<Longrightarrow> keeps_clean (case res of None \<Rightarrow> g | Some x \<Rightarrow> f x)"
  by (simp split: option.splits)

lemma keeps_clean_if: "keeps_clean f \<Longrightarrow> keeps_clean g \<Longrightarrow> keeps_clean (if b then f else g)"
  by simp

lemmas clean_rules = keeps_clean_if keeps_clean_row keeps_clean_write keeps_clean_bind keeps_clean_catch writes_write_or

lemma getValue_clean: "keeps_clean (getValue v p c)"
  unfolding getValue_def getValueHist_def getValueNohist_def by (intro clean_rules) simp_all

lemma importone_clean: "keeps_clean (importone v p c x)"
  unfolding importone_def importHist_def importNohist_def by (intro clean_rules) simp_all

lemma answer_request_clean: "keeps_clean (answer_request ver req)"
proof (cases req)
  case (GetPR v p c)
  then show ?thesis by (simp add: getPR_def) (intro clean_rules getValue_clean; simp)
next
  case (ImportOne v p c x)
  then show ?thesis by simp (intro clean_rules importone_clean; simp)
next
  case (Export v p c i)
  then show ?thesis by (simp add: export_or_none_def export_def) (intro clean_rules; simp)
qed

lemma process_request_saves:
  assumes "clean s"
  shows "\<exists>a n t. process_request ver req sent iter_count s = (Inr (a, n), t) \<and> pr_saved t = pr_now t \<and> \<not> pr_dirty t \<and>
    (case answer_request ver req s of (Inr b, u) \<Rightarrow> a = b \<and> pr_now t = pr_now u | (Inl e, u) \<Rightarrow> a = Fault e \<and> pr_now t = pr_now u)"
proof -
  obtain r u where ru: "answer_request ver req s = (r, u)" by force
  have "clean u"
    using answer_request_clean [of ver req] assms ru
    by (auto simp: keeps_clean_def hoare_def split: prod.splits sum.splits)
  with ru show ?thesis
    by (cases r; cases "pr_dirty u"; cases sent)
      (auto simp: process_request_def scatch_def sbind_def sret_def sync_if_dirty_def sget_def supd_def pr_sync_def
        Let_def clean_def)
qed

section \<open>Properties\<close>

text \<open>
  C28. In both modes the table implements a numbering that is a function of version, architecture
  and checksum: a request and an import answer what the function answers, and leave the rows of
  its new value.
\<close>

theorem pr_table_refines:
  assumes "pr_ok nohist s"
  shows "\<exists>t u. getValue (Some v) (Some p) (Some c) s = (Inr (fst (spec_get nohist (v, p) c (pr_val s))), t) \<and>
    pr_ok nohist t \<and> pr_val t = snd (spec_get nohist (v, p) c (pr_val s)) \<and>
    importone (Some v) (Some p) (Some c) x s = (Inr (Some (fst (spec_import nohist (v, p) c x (pr_val s)))), u) \<and>
    pr_ok nohist u \<and> pr_val u = snd (spec_import nohist (v, p) c x (pr_val s))"
  using pr_get_refines [OF assms, of "(v, p)" c] pr_import_refines [OF assms, of "(v, p)" c x]
  by (auto simp: pr_get_def pr_import_def)

lemma init_table_ok:
  assumes "table_name tbl nohist \<notin> set (keys db)"
  shows "pr_ok nohist (init_table tbl nohist db)" "pr_val (init_table tbl nohist db) = (\<lambda>_. Map.empty)"
    and "table_ok (init_table tbl nohist db) []"
proof -
  show t: "table_ok (init_table tbl nohist db) []"
    using assms by (simp add: table_ok_def init_table_def create_table_def Let_def rows_ok_def)
  from pr_val_ok [OF t] show "pr_val (init_table tbl nohist db) = (\<lambda>_. Map.empty)" by simp
  from t show "pr_ok nohist (init_table tbl nohist db)"
    unfolding pr_ok_def by (intro conjI exI) (simp_all add: init_table_def Let_def)
qed

lemma pr_table_refines_witness:
  "fst (getValue (Some ''1'') (Some ''x86'') (Some ''c'') (init_table ''PRMAIN'' True [])) = Inr 0"
proof -
  let ?s = "init_table ''PRMAIN'' True []"
  have "pr_ok True ?s" "pr_val ?s = (\<lambda>_. Map.empty)" by (rule init_table_ok; simp add: keys_def)+
  from pr_table_refines [OF this(1), of "''1''" "''x86''" "''c''" 0] this(2) show ?thesis
    by (auto simp: spec_get_def new_number_def highest_def)
qed

text \<open>A sequence of requests, each a version and architecture with a checksum.\<close>

definition ask_all :: "((string \<times> string) \<times> string) list \<Rightarrow> (pr_state, unit) sm" where
  "ask_all rs = sfor rs (\<lambda>r. sbind (getValue (Some (fst (fst r))) (Some (snd (fst r))) (Some (snd r))) (\<lambda>_. sret ()))"

lemma ask_all_requests: "ask_all rs = sfor rs pr.request"
  by (simp add: ask_all_def pr.request_def [abs_def] pr_get_def)

text \<open>
  C29. With history the checksums that were asked for a version and architecture of a new table
  have the numbers from 0 up to their count, each its own, and keep them: the answer to a repeated
  request is the number of the first.
\<close>

theorem pr_history_numbers:
  assumes "table_name tbl False \<notin> set (keys db)"
  shows "\<exists>t. ask_all rs (init_table tbl False db) = (Inr (), t) \<and>
    bij_betw (\<lambda>c. the (pr_val t (v, p) c)) {c. ((v, p), c) \<in> set rs} {0..<int (card {c. ((v, p), c) \<in> set rs})} \<and>
    (\<forall>c \<in> {c. ((v, p), c) \<in> set rs}.
      getValue (Some v) (Some p) (Some c) t = (Inr (the (pr_val t (v, p) c)), t))"
proof -
  note i = init_table_ok [OF assms]
  from pr.requests_return [OF i(1)] obtain t where t: "sfor rs pr.request (init_table tbl False db) = (Inr (), t)" "pr_ok False t"
    by blast
  from i(2) have e: "pr_val (init_table tbl False db) k = Map.empty" for k by simp
  note n = pr_hist.numbers_below [OF i(1) e t(1), of "(v, p)"]
  have d: "dom (pr_val t (v, p)) = {c. ((v, p), c) \<in> set rs}"
    using pr.requests_dom [OF i(1) t(1), of "(v, p)"] e by simp
  have "getValue (Some v) (Some p) (Some c) t = (Inr (the (pr_val t (v, p) c)), t)" if "((v, p), c) \<in> set rs" for c
  proof -
    from that d obtain x where "pr_val t (v, p) c = Some x" by blast
    with pr_hist.get_again [OF t(2), of "(v, p)" c] show ?thesis by (simp add: pr_get_def)
  qed
  with t(1) n show ?thesis by (auto simp: ask_all_requests)
qed

lemma pr_history_numbers_witness:
  "\<exists>t. ask_all [((''1'', ''x86''), ''c''), ((''1'', ''x86''), ''d''), ((''1'', ''x86''), ''c'')] (init_table ''PRMAIN'' False []) = (Inr (), t) \<and>
    bij_betw (\<lambda>c. the (pr_val t (''1'', ''x86'') c)) {''c'', ''d''} {0..<2}"
proof -
  let ?rs = "[((''1'', ''x86''), ''c''), ((''1'', ''x86''), ''d''), ((''1'', ''x86''), ''c'')]"
  have c: "{c. ((''1'', ''x86''), c) \<in> set ?rs} = {''c'', ''d''}" by auto
  from pr_history_numbers [of "''PRMAIN''" "[]" ?rs "''1''" "''x86''"] show ?thesis
    unfolding c by (auto simp: keys_def)
qed

text \<open>A sequence of requests and imports.\<close>

definition change_all :: "((string \<times> string) \<times> string \<times> int option) list \<Rightarrow> (pr_state, unit) sm" where
  "change_all rs = sfor rs (\<lambda>(k, c, i). case i of
     None \<Rightarrow> sbind (getValue (Some (fst k)) (Some (snd k)) (Some c)) (\<lambda>_. sret ())
   | Some x \<Rightarrow> sbind (importone (Some (fst k)) (Some (snd k)) (Some c) x) (\<lambda>_. sret ()))"

lemma change_all_changes: "change_all rs = sfor rs pr_nohist.change"
proof -
  have "(\<lambda>(k, c, i). case i of
     None \<Rightarrow> sbind (getValue (Some (fst k)) (Some (snd k)) (Some c)) (\<lambda>_. sret ())
   | Some x \<Rightarrow> sbind (importone (Some (fst k)) (Some (snd k)) (Some c) x) (\<lambda>_. sret ())) = pr_nohist.change"
    by (intro ext) (simp add: pr_nohist.change_def pr_get_def pr_import_def split: prod.splits option.splits)
  then show ?thesis by (simp add: change_all_def)
qed

text \<open>
  C30. Without history the number of a version and architecture never decreases, whatever is asked
  for and imported in between.
\<close>

theorem pr_never_decreases:
  assumes "pr_ok True s" "getValue (Some v) (Some p) (Some c) s = (Inr x, t)"
    "change_all rs t = (Inr (), u)" "getValue (Some v) (Some p) (Some d) u = (Inr y, w)"
  shows "x \<le> y"
  using pr_nohist.never_decreases [of s "(v, p)" c x t rs u d y w] assms
  by (simp add: change_all_changes pr_get_def)

lemma pr_never_decreases_witness:
  "\<exists>x t u y w. getValue (Some ''1'') (Some ''x86'') (Some ''c'') (init_table ''PRMAIN'' True []) = (Inr x, t) \<and>
    change_all [((''1'', ''x86''), ''d'', None), ((''1'', ''x86''), ''e'', Some 7)] t = (Inr (), u) \<and>
    getValue (Some ''1'') (Some ''x86'') (Some ''c'') u = (Inr y, w) \<and> y = 8 \<and> x \<le> y"
proof -
  let ?s = "init_table ''PRMAIN'' True []"
  let ?g = "\<lambda>c. getValue (Some ''1'') (Some ''x86'') (Some c)"
  let ?u = "\<lambda>t. change_all [((''1'', ''x86''), ''d'', None), ((''1'', ''x86''), ''e'', Some 7)] t"
  have e: "fst (?g ''c'' ?s) = Inr 0" "fst (?u (snd (?g ''c'' ?s))) = Inr ()"
    "fst (?g ''c'' (snd (?u (snd (?g ''c'' ?s))))) = Inr 8" by code_simp+
  then obtain t where t: "?g ''c'' ?s = (Inr 0, t)" by (cases "?g ''c'' ?s") auto
  with e(2) obtain u where u: "?u t = (Inr (), u)" by (cases "?u t") auto
  with t e(3) obtain w where w: "?g ''c'' u = (Inr 8, w)" by (cases "?g ''c'' u") auto
  have "pr_ok True ?s" by (rule init_table_ok) (simp add: keys_def)
  from pr_never_decreases [OF this t u w] t u w show ?thesis by blast
qed

text \<open>Rows without a version do not matter for the other versions.\<close>

lemma pr_abs_versions:
  "pr_abs (filter (\<lambda>r. row_version r \<noteq> []) rows) (v, p) = (if v = [] then Map.empty else pr_abs rows (v, p))"
proof
  show "pr_abs (filter (\<lambda>r. row_version r \<noteq> []) rows) (v, p) c = (if v = [] then Map.empty else pr_abs rows (v, p)) c" for c
    by (induction rows) (auto simp: pr_abs_def row_key_def)
qed

lemma spec_get_local: "f k = g k \<Longrightarrow> fst (spec_get nohist k c f) = fst (spec_get nohist k c g)"
  by (simp add: spec_get_def split: option.split)

lemma getValue_answer:
  assumes "pr_ok nohist u"
  shows "fst (getValue (Some v) (Some p) (Some c) u) = Inr (fst (spec_get nohist (v, p) c (pr_val u)))"
  using pr_get_refines [OF assms, of "(v, p)" c] by (auto simp: pr_get_def)

text \<open>
  C31. Exporting a table and importing the rows into a new one of the same mode gives a table that
  answers a request for any version that is not empty like the original.  Rows with an empty
  version are not exported: the new table answers a request for that version with 0, as if it had
  never been asked for.
\<close>

theorem pr_export_roundtrip:
  assumes "pr_ok nohist s" "export ver None None None colinfo s = (Inr (metainfo, data), s')"
    "table_name tbl nohist \<notin> set (keys db)" "sfor data import_row (init_table tbl nohist db) = (Inr (), t)"
  shows "fst (getValue (Some v) (Some p) (Some c) t) =
    (if v = [] then Inr 0 else fst (getValue (Some v) (Some p) (Some c) s))"
proof -
  let ?named = "filter (\<lambda>r. row_version r \<noteq> [])"
  from assms(1) obtain rows where r: "pr_nohist s = nohist" "table_ok s rows" "rows_ok rows" "pr_val s = pr_abs rows"
    by (rule pr_okE)
  then have d: "data = ?named (if nohist then filter (highest_row rows) rows else rows)"
    using assms(2) by (simp add: export_def export_rows_def where_arg_def sbind_def sget_def sres_def sret_def pr_rows_ok)
  have ok: "rows_ok ([] @ data)" using r(3) by (simp add: d rows_ok_filter)
  have "pr_val (init_table tbl nohist db) = pr_abs []" using init_table_ok(2) [OF assms(3)] by simp
  from import_rows [OF ok init_table_ok(1) [OF assms(3)] this assms(4)]
  have t: "pr_ok nohist t" "pr_val t = pr_abs data" by (simp_all only: append_Nil)
  have "fst (spec_get nohist (v, p) c (pr_abs data)) = (if v = [] then 0 else fst (spec_get nohist (v, p) c (pr_abs rows)))"
  proof (cases "v = []")
    case True
    then show ?thesis by (simp add: d spec_get_def pr_abs_versions new_number_def highest_def)
  next
    case False
    then have "fst (spec_get nohist (v, p) c (pr_abs data)) =
        fst (spec_get nohist (v, p) c (pr_abs (if nohist then filter (highest_row rows) rows else rows)))"
      by (intro spec_get_local) (simp add: d pr_abs_versions)
    with False spec_get_highest [OF r(3)] show ?thesis by simp
  qed
  then show ?thesis by (simp add: getValue_answer [OF t(1)] getValue_answer [OF assms(1)] t(2) r(4))
qed

text \<open>A table with two checksums, the first one raised.\<close>

definition pr_example :: pr_state where
  "pr_example = snd (change_all [((''1'', ''x86''), ''c'', None), ((''1'', ''x86''), ''d'', None), ((''1'', ''x86''), ''c'', None)]
     (init_table ''PRMAIN'' True []))"

lemma pr_example_ok: "pr_ok True pr_example"
proof -
  have "map_of (pr_now pr_example) (pr_table pr_example) = Some [row (''1'', ''x86'') ''d'' 1, row (''1'', ''x86'') ''c'' 2]"
    "pr_nohist pr_example" by code_simp+
  then show ?thesis by (simp add: pr_ok_def table_ok_def rows_ok_def)
qed

lemma pr_export_roundtrip_witness:
  "\<exists>data s' t. export ''1'' None None None False pr_example = (Inr (None, data), s') \<and>
    sfor data import_row (init_table ''COPY'' True []) = (Inr (), t) \<and>
    fst (getValue (Some ''1'') (Some ''x86'') (Some ''c'') t) = fst (getValue (Some ''1'') (Some ''x86'') (Some ''c'') pr_example)"
proof -
  let ?data = "[row (''1'', ''x86'') ''c'' 2]"
  have e: "fst (export ''1'' None None None False pr_example) = Inr (None, ?data)"
    "fst (sfor ?data import_row (init_table ''COPY'' True [])) = Inr ()" by code_simp+
  then obtain s' t where s': "export ''1'' None None None False pr_example = (Inr (None, ?data), s')"
    and t: "sfor ?data import_row (init_table ''COPY'' True []) = (Inr (), t)" by (metis prod.collapse)
  have k: "table_name ''COPY'' True \<notin> set (keys [])" by (simp add: keys_def)
  from pr_export_roundtrip [OF pr_example_ok s' k t, of "''1''"] s' t show ?thesis by auto
qed

text \<open>
  C32. After every request of a client, whether the answer could be sent or not, what the table
  holds is saved.  A request for a number gets one, and a request with a missing argument gets
  none and changes nothing.
\<close>

theorem pr_server_saves:
  assumes "pr_ok nohist s" "pr_saved s = pr_now s" "\<not> pr_dirty s"
  shows "\<exists>a n t. process_request ver req sent iter_count s = (Inr (a, n), t) \<and> pr_saved t = pr_now t \<and> \<not> pr_dirty t \<and>
    (case req of
       GetPR (Some v) (Some p) (Some c) \<Rightarrow> a = Number (Some (fst (spec_get nohist (v, p) c (pr_val s))))
     | GetPR _ _ _ \<Rightarrow> a = Number None \<and> pr_now t = pr_now s
     | _ \<Rightarrow> True)"
proof -
  have "clean s" using assms(2) by (simp add: clean_def)
  from process_request_saves [OF this, of ver req sent iter_count]
  obtain a n t where t: "process_request ver req sent iter_count s = (Inr (a, n), t)" "pr_saved t = pr_now t" "\<not> pr_dirty t"
    and a: "case answer_request ver req s of (Inr b, u) \<Rightarrow> a = b \<and> pr_now t = pr_now u | (Inl e, u) \<Rightarrow> a = Fault e \<and> pr_now t = pr_now u"
    by (elim exE conjE) (rule that)
  from assms(1) obtain rows where r: "table_ok s rows" "pr_nohist s = nohist" by (rule pr_okE)
  have some: "a = Number (Some (fst (spec_get nohist (v, p) c (pr_val s))))" if "req = GetPR (Some v) (Some p) (Some c)" for v p c
    using a pr_get_refines [OF assms(1), of "(v, p)" c]
    by (auto simp: that getPR_def pr_get_def scatch_def sbind_def sret_def)
  have null: "a = Number None \<and> pr_now t = pr_now s" if "req = GetPR v p c" "v = None \<or> p = None \<or> c = None" for v p c
    using a getValue_NULL [OF r(1) that(2), of rows] r(1) assms(2)
    by (auto simp: that(1) getPR_def scatch_def sbind_def sret_def table_ok_def)
  show ?thesis
    using t some null by (auto split: pr_request.splits option.splits)
qed

lemma pr_server_saves_witness:
  "\<exists>n t. process_request ''1'' (GetPR (Some ''1'') (Some ''x86'') (Some ''c'')) True 59 (init_table ''PRMAIN'' True []) =
    (Inr (Number (Some 0), n), t) \<and> pr_saved t = pr_now t"
proof -
  let ?s = "init_table ''PRMAIN'' True []"
  have s: "pr_ok True ?s" "pr_val ?s = (\<lambda>_. Map.empty)" by (rule init_table_ok; simp add: keys_def)+
  have "pr_saved ?s = pr_now ?s" "\<not> pr_dirty ?s" by (simp_all add: init_table_def Let_def)
  from pr_server_saves [OF s(1) this, of "''1''" "GetPR (Some ''1'') (Some ''x86'') (Some ''c'')" True 59] s(2)
  show ?thesis by (auto simp: spec_get_def new_number_def highest_def)
qed

end
