(* ===== verification/Siggen.thy ===== *)
theory Siggen
  imports Build_Stamps
begin

text \<open>
  The signature generators of \<^verbatim>\<open>bitbake/lib/bb/siggen.py\<close>: the hash of what a task
  is (the base hash, over the variables it refers to), the hash of what it is built from (the task
  hash, over the hashes of the tasks it depends on, the checksums of its files and its taints), the
  names of stamps made of them, the data that is written beside a stamp, and the comparison of two
  such files.

  The digest \<open>md5\<close>, the search with the expression of \<open>BB_HASHTASK_WHITELIST\<close>, the checksums of
  files and the random identifiers are parameters.  Sets are lists; names have no line breaks.
\<close>

section \<open>The generator without signatures\<close>

definition rstrip_dots :: "string \<Rightarrow> string" where
  "rstrip_dots s = rev (dropWhile (\<lambda>c. c = CHR ''.'') (rev s))"

definition noop_taskhash :: string where
  "noop_taskhash = ''0''"

definition noop_stampfile :: "string \<Rightarrow> string \<Rightarrow> string \<Rightarrow> string \<Rightarrow> string res" where
  "noop_stampfile stampbase fn taskname extrainfo =
     Inr (rstrip_dots (stampbase @ ''.'' @ taskname @ ''.'' @ extrainfo))"

definition noop_sig_gen :: sig_gen where
  "noop_sig_gen = \<lparr>sg_stampfile = noop_stampfile, sg_stampcleanmask = noop_stampfile\<rparr>"

section \<open>The state\<close>

record siggen =
  si_basehash :: "(string \<times> string) list"
  si_taskhash :: "(string \<times> string) list"
  si_taskdeps :: "(string \<times> (string \<times> string list) list) list"
  si_runtaskdeps :: "(string \<times> string list) list"
  si_file_checksum_values :: "(string \<times> (string \<times> string option) list) list"
  si_taints :: "(string \<times> string) list"
  si_gendeps :: "(string \<times> (string \<times> string list) list) list"
  si_lookupcache :: "(string \<times> (string \<times> string option) list) list"
  si_basewhitelist :: "string list"
  si_taskwhitelist :: "string option"

definition init_siggen :: "string option \<Rightarrow> string option \<Rightarrow> siggen" where
  "init_siggen basewhitelist taskwhitelist =
     \<lparr>si_basehash = [], si_taskhash = [], si_taskdeps = [], si_runtaskdeps = [], si_file_checksum_values = [],
      si_taints = [], si_gendeps = [], si_lookupcache = [],
      si_basewhitelist = remdups (split_ws (or_empty basewhitelist)),
      si_taskwhitelist = (if or_empty taskwhitelist = [] then None else taskwhitelist)\<rparr>"

text \<open>
  What the generator shares with the worker processes (\<open>get_taskdata\<close>, \<open>set_taskdata\<close>).
\<close>

type_synonym sig_taskdata =
  "(string \<times> string list) list \<times> (string \<times> string) list \<times> (string \<times> (string \<times> string option) list) list \<times>
   (string \<times> string) list \<times> (string \<times> string) list"

definition get_taskdata :: "siggen \<Rightarrow> sig_taskdata" where
  "get_taskdata s = (si_runtaskdeps s, si_taskhash s, si_file_checksum_values s, si_taints s, si_basehash s)"

definition set_taskdata :: "sig_taskdata \<Rightarrow> siggen \<Rightarrow> siggen" where
  "set_taskdata d s = (case d of (runtaskdeps, taskhash, file_checksum_values, taints, basehash) \<Rightarrow>
     s\<lparr>si_runtaskdeps := runtaskdeps, si_taskhash := taskhash, si_file_checksum_values := file_checksum_values,
       si_taints := taints, si_basehash := basehash\<rparr>)"

definition sig_key :: "string \<Rightarrow> string \<Rightarrow> string" where
  "sig_key fn task = fn @ ''.'' @ task"

lemma dget_found: "map_of d k = Some v \<Longrightarrow> dget d k = Inr v"
  by simp

section \<open>Base hashes\<close>

text \<open>
  \<open>bb.data.generate_dependencies\<close> gives the tasks, the references of every variable and the
  values.  The loop follows the references, and drops those of the whitelist from the table.
\<close>

definition without :: "string list \<Rightarrow> string list \<Rightarrow> string list" where
  "without wl ds = filter (\<lambda>d. d \<notin> set wl) ds"

definition dep_refs :: "string list \<Rightarrow> string \<Rightarrow> (string \<times> string list) list \<times> string list \<Rightarrow>
    ((string \<times> string list) list \<times> string list) res" where
  "dep_refs wl dep = (\<lambda>(gendeps, newdeps).
     if dep \<in> set wl then Inr (gendeps, newdeps)
     else rbind (dget gendeps dep) (\<lambda>ds.
       Inr (dset dep (without wl ds) gendeps, sunion newdeps (without wl ds))))"

fun deps_loop :: "nat \<Rightarrow> string list \<Rightarrow> (string \<times> string list) list \<Rightarrow> string list \<Rightarrow> string list \<Rightarrow>
    ((string \<times> string list) list \<times> string list) res" where
  "deps_loop fuel wl gendeps newdeps seen =
     (if newdeps = [] then Inr (gendeps, seen)
      else case fuel of 0 \<Rightarrow> Inl OutOfFuel | Suc n \<Rightarrow>
        let seen = sunion seen newdeps in
        rbind (rfold (dep_refs wl) newdeps (gendeps, [])) (\<lambda>(gendeps, newdeps).
          deps_loop n wl gendeps (without seen newdeps) seen))"

declare deps_loop.simps [simp del]

definition dep_text :: "(string \<times> string option) list \<Rightarrow> string \<Rightarrow> string \<Rightarrow> string res" where
  "dep_text vals dep data = rbind (dget vals dep) (\<lambda>var. Inr (data @ dep @ or_empty var))"

definition base_task :: "(string \<Rightarrow> string) \<Rightarrow> string \<Rightarrow> (string \<times> string option) list \<Rightarrow> string \<Rightarrow>
    siggen \<times> (string \<times> string list) list \<times> (string \<times> string list) list \<Rightarrow>
    (siggen \<times> (string \<times> string list) list \<times> (string \<times> string list) list) res" where
  "base_task md5 fn lookupcache task = (\<lambda>(s, gendeps, taskdeps).
     rbind (dget lookupcache task) (\<lambda>data.
     rbind (dget gendeps task) (\<lambda>ds.
     let newdeps = without (si_basewhitelist s) ds; gendeps = dset task newdeps gendeps in
     rbind (deps_loop (Suc (length gendeps)) (si_basewhitelist s) gendeps newdeps []) (\<lambda>(gendeps, seen).
     let alldeps = sort seen in
     rbind (rfold (dep_text lookupcache) alldeps (or_empty data)) (\<lambda>data.
     Inr (s\<lparr>si_basehash := dset (sig_key fn task) (md5 data) (si_basehash s)\<rparr>, gendeps, dset task alldeps taskdeps))))))"

definition build_data :: "(string \<Rightarrow> string) \<Rightarrow> string \<Rightarrow> string list \<Rightarrow> (string \<times> string list) list \<Rightarrow>
    (string \<times> string option) list \<Rightarrow> siggen \<Rightarrow> (siggen \<times> (string \<times> string list) list) res" where
  "build_data md5 fn tasklist gendeps lookupcache s =
     rbind (rfold (base_task md5 fn lookupcache) tasklist (s, gendeps, [])) (\<lambda>(s, gendeps, taskdeps).
       Inr (s\<lparr>si_taskdeps := dset fn taskdeps (si_taskdeps s), si_gendeps := dset fn gendeps (si_gendeps s),
         si_lookupcache := dset fn lookupcache (si_lookupcache s)\<rparr>, taskdeps))"

text \<open>The result has the variables \<open>BB_BASEHASH_task-\<close> that are set in the data store.\<close>

definition finalise :: "(string \<Rightarrow> string) \<Rightarrow> string \<Rightarrow> string \<Rightarrow> string \<Rightarrow> string list \<Rightarrow> (string \<times> string list) list \<Rightarrow>
    (string \<times> string option) list \<Rightarrow> siggen \<Rightarrow> (siggen \<times> (string \<times> string) list) res" where
  "finalise md5 fn variant mc tasklist gendeps lookupcache s =
     (let fn = (if variant \<noteq> [] \<or> mc \<noteq> [] then realfn2virtual fn variant mc else fn) in
      rbind (build_data md5 fn tasklist gendeps lookupcache s) (\<lambda>(s, taskdeps).
      rbind (rmap (\<lambda>task. rbind (dget (si_basehash s) (sig_key fn task)) (\<lambda>h. Inr (''BB_BASEHASH_task-'' @ task, h)))
        (keys taskdeps)) (\<lambda>vars. Inr (s, vars))))"

section \<open>Task hashes\<close>

definition rsplit2 :: "char \<Rightarrow> string \<Rightarrow> string list" where
  "rsplit2 c s = (case rsplit1 c s of [a, b] \<Rightarrow> rsplit1 c a @ [b] | w \<Rightarrow> w)"

definition clean_basepath :: "string \<Rightarrow> string res" where
  "clean_basepath a =
     rbind (item (rsplit2 CHR ''/'' a) 1) (\<lambda>x.
     rbind (item (rsplit2 CHR ''/'' a) 2) (\<lambda>y.
     Inr (if startswith a ''virtual:'' then x @ y @ '':'' @ hd (rsplit1 CHR '':'' a) else x @ y)))"

definition clean_basepaths_list :: "string list \<Rightarrow> string list res" where
  "clean_basepaths_list a = rmap clean_basepath a"

text \<open>
  What the generator reads besides its own state: the digest, the search of the whitelist, the
  checksums of the files of a task, the identifier for a task without stamp, and the files.
\<close>

record sig_env =
  se_md5 :: "string \<Rightarrow> string"
  se_search :: "string \<Rightarrow> string \<Rightarrow> bool"
  se_checksums :: "string \<Rightarrow> string \<Rightarrow> (string \<times> string option) list"
  se_uuid :: string
  se_files :: file_table

definition read_taint :: "file_table \<Rightarrow> string \<Rightarrow> string \<Rightarrow> string option" where
  "read_taint fs task stampbase = map_option snd (map_of fs (stampbase @ ''.'' @ task @ ''.taint''))"

definition rundep_check :: "sig_env \<Rightarrow> string option \<Rightarrow> string \<Rightarrow> string \<Rightarrow> bool" where
  "rundep_check env twl recipename depname = (case twl of
     None \<Rightarrow> True
   | Some twl \<Rightarrow> \<not> (\<not> se_search env twl recipename \<and> se_search env twl depname))"

text \<open>\<open>pkgnameextract\<close>: the file of a dependency, all before its last dot.\<close>

definition dep_fn :: "string \<Rightarrow> string res" where
  "dep_fn dep = (case rsplit1 CHR ''.'' dep of [fn, _] \<Rightarrow> Inr fn | _ \<Rightarrow> Inl AttributeError)"

text \<open>\<open>sorted(deps, key=clean_basepath)\<close>\<close>

definition sort_deps :: "string list \<Rightarrow> string list res" where
  "sort_deps deps = rbind (rmap (\<lambda>d. rbind (clean_basepath d) (\<lambda>b. Inr (b, d))) deps) (\<lambda>kds.
     Inr (map snd (sort_key fst kds)))"

definition add_dep_hash :: "sig_env \<Rightarrow> cache_data \<Rightarrow> string \<Rightarrow> string \<Rightarrow> string \<Rightarrow> siggen \<times> string \<Rightarrow>
    (siggen \<times> string) res" where
  "add_dep_hash env dc k recipename dep = (\<lambda>(s, data).
     rbind (dep_fn dep) (\<lambda>f.
     rbind (dget (pkg_fn dc) f) (\<lambda>depname.
     if \<not> rundep_check env (si_taskwhitelist s) recipename depname then Inr (s, data)
     else case map_of (si_taskhash s) dep of
       None \<Rightarrow> Inl BBHandledException
     | Some h \<Rightarrow> Inr (s\<lparr>si_runtaskdeps := dappend k dep (si_runtaskdeps s)\<rparr>, data @ h))))"

definition add_checksum :: "string \<Rightarrow> string \<times> string option \<Rightarrow> siggen \<times> string \<Rightarrow> siggen \<times> string" where
  "add_checksum k fcs = (\<lambda>(s, data).
     (s\<lparr>si_file_checksum_values := dappend k fcs (si_file_checksum_values s)\<rparr>, data @ or_empty (snd fcs)))"

definition add_files :: "sig_env \<Rightarrow> cache_data \<Rightarrow> string \<Rightarrow> string \<Rightarrow> string \<Rightarrow> siggen \<times> string \<Rightarrow> (siggen \<times> string) res" where
  "add_files env dc fn task recipename sd =
     rbind (dget (cd_file_checksums dc) fn) (\<lambda>fcs. Inr (case map_of fcs task of
       None \<Rightarrow> sd
     | Some files \<Rightarrow> fold (add_checksum (sig_key fn task)) (se_checksums env files recipename) sd))"

definition add_nostamp :: "sig_env \<Rightarrow> cache_data \<Rightarrow> string \<Rightarrow> string \<Rightarrow> siggen \<times> string \<Rightarrow> (siggen \<times> string) res" where
  "add_nostamp env dc fn task = (\<lambda>(s, data).
     rbind (dget (cd_task_deps dc) fn) (\<lambda>taskdep. Inr (case task_flag taskdep ''nostamp'' task of
       None \<Rightarrow> (s, data)
     | Some _ \<Rightarrow> (s\<lparr>si_taints := dset (sig_key fn task) (''nostamp:'' @ se_uuid env) (si_taints s)\<rparr>, data @ se_uuid env))))"

definition add_taint :: "sig_env \<Rightarrow> cache_data \<Rightarrow> string \<Rightarrow> string \<Rightarrow> siggen \<times> string \<Rightarrow> (siggen \<times> string) res" where
  "add_taint env dc fn task = (\<lambda>(s, data).
     rbind (dget (cd_stamp dc) fn) (\<lambda>stamp. Inr (case read_taint (se_files env) task stamp of
       None \<Rightarrow> (s, data)
     | Some taint \<Rightarrow> if taint = [] then (s, data)
         else (s\<lparr>si_taints := dset (sig_key fn task) taint (si_taints s)\<rparr>, data @ taint))))"

definition get_taskhash :: "sig_env \<Rightarrow> cache_data \<Rightarrow> string \<Rightarrow> string \<Rightarrow> string list \<Rightarrow> siggen \<Rightarrow> (siggen \<times> string) res" where
  "get_taskhash env dc fn task deps s =
     (let k = sig_key fn task in
      rbind (dget (basetaskhash dc) k) (\<lambda>base.
      let s = s\<lparr>si_basehash := dset k base (si_basehash s), si_runtaskdeps := dset k [] (si_runtaskdeps s),
        si_file_checksum_values := dset k [] (si_file_checksum_values s)\<rparr> in
      rbind (dget (pkg_fn dc) fn) (\<lambda>recipename.
      rbind (sort_deps deps) (\<lambda>deps.
      rbind (rfold (add_dep_hash env dc k recipename) deps (s, base)) (\<lambda>sd.
      rbind (add_files env dc fn task recipename sd) (\<lambda>sd.
      rbind (add_nostamp env dc fn task sd) (\<lambda>sd.
      rbind (add_taint env dc fn task sd) (\<lambda>(s, data).
      let h = se_md5 env data in
      Inr (s\<lparr>si_taskhash := dset k h (si_taskhash s)\<rparr>, h)))))))))"

section \<open>Signature files\<close>

text \<open>The parts that a file has once the task hash is known, and the file.\<close>

record sigrun =
  sr_runtaskdeps :: "string list"
  sr_checksums :: "(string \<times> string option) list"
  sr_hashes :: "(string \<times> string) list"
  sr_taskhash :: string

record sigdata =
  sd_task :: string
  sd_basewhitelist :: "string list"
  sd_taskwhitelist :: "string option"
  sd_taskdeps :: "string list"
  sd_basehash :: string
  sd_gendeps :: "(string \<times> string list) list"
  sd_varvals :: "(string \<times> string option) list"
  sd_run :: "sigrun option"
  sd_taint :: "string option"

definition calc_basehash :: "(string \<Rightarrow> string) \<Rightarrow> sigdata \<Rightarrow> string res" where
  "calc_basehash md5 sd =
     rbind (dget (sd_varvals sd) (sd_task sd)) (\<lambda>data.
     rbind (rfold (dep_text (sd_varvals sd)) (sd_taskdeps sd) (or_empty data)) (\<lambda>data. Inr (md5 data)))"

definition run_hash_text :: "sigrun \<Rightarrow> string \<Rightarrow> string \<Rightarrow> string res" where
  "run_hash_text run dep data = rbind (dget (sr_hashes run) dep) (\<lambda>h. Inr (data @ h))"

definition checksum_text :: "string \<times> string option \<Rightarrow> string \<Rightarrow> string res" where
  "checksum_text c data = (case snd c of None \<Rightarrow> Inl TypeError | Some cs \<Rightarrow> Inr (data @ cs))"

definition taint_text :: "string option \<Rightarrow> string" where
  "taint_text taint = (case taint of None \<Rightarrow> [] | Some t \<Rightarrow> if occurs t ''nostamp:'' then drop 8 t else t)"

definition calc_taskhash :: "(string \<Rightarrow> string) \<Rightarrow> sigdata \<Rightarrow> string res" where
  "calc_taskhash md5 sd = (case sd_run sd of
     None \<Rightarrow> Inl (KeyError ''runtaskdeps'')
   | Some run \<Rightarrow>
       rbind (rfold (run_hash_text run) (sr_runtaskdeps run) (sd_basehash sd)) (\<lambda>data.
       rbind (rfold checksum_text (sr_checksums run) data) (\<lambda>data.
       Inr (md5 (data @ taint_text (sd_taint sd))))))"

datatype sig_runtime = RunTime | BaseOnly | CustomFile string

definition basename :: "string \<Rightarrow> string" where
  "basename path = last (split_on CHR ''/'' path)"

definition sigfile_name :: "siggen \<Rightarrow> string \<Rightarrow> string \<Rightarrow> string \<Rightarrow> sig_runtime \<Rightarrow> (string \<times> string) res" where
  "sigfile_name s k task stampbase runtime = (case runtime of
     CustomFile reference \<Rightarrow> Inr (stampbase, reference)
   | BaseOnly \<Rightarrow> rbind (dget (si_basehash s) k) (\<lambda>h. Inr (stampbase @ ''.'' @ task @ ''.sigbasedata.'' @ h, stampbase))
   | RunTime \<Rightarrow> (case map_of (si_taskhash s) k of
         Some h \<Rightarrow> Inr (stampbase @ ''.'' @ task @ ''.sigdata.'' @ h, stampbase)
       | None \<Rightarrow> rbind (dget (si_basehash s) k) (\<lambda>h. Inr (stampbase @ ''.'' @ task @ ''.sigbasedata.'' @ h, stampbase))))"

definition dump_dep :: "(string \<times> string list) list \<Rightarrow> (string \<times> string option) list \<Rightarrow> string list \<Rightarrow> string \<Rightarrow>
    (string \<times> string list) list \<times> (string \<times> string option) list \<Rightarrow>
    ((string \<times> string list) list \<times> (string \<times> string option) list) res" where
  "dump_dep gendeps vals wl dep = (\<lambda>(gd, vv).
     if dep \<in> set wl then Inr (gd, vv)
     else rbind (dget gendeps dep) (\<lambda>ds. rbind (dget vals dep) (\<lambda>v. Inr (dset dep ds gd, dset dep v vv))))"

definition dump_run :: "siggen \<Rightarrow> string \<Rightarrow> string \<Rightarrow> sigrun res" where
  "dump_run s k taskhash =
     rbind (dget (si_runtaskdeps s) k) (\<lambda>deps.
     rbind (dget (si_file_checksum_values s) k) (\<lambda>fcs.
     rbind (rfold (\<lambda>dep hs. rbind (dget (si_taskhash s) dep) (\<lambda>h. Inr (dset dep h hs))) deps []) (\<lambda>hashes.
     Inr \<lparr>sr_runtaskdeps = deps, sr_checksums = map (\<lambda>(f, cs). (basename f, cs)) fcs, sr_hashes = hashes,
       sr_taskhash = taskhash\<rparr>)))"

definition dump_taint :: "siggen \<Rightarrow> file_table \<Rightarrow> string \<Rightarrow> string \<Rightarrow> string \<Rightarrow> sig_runtime \<Rightarrow> string option" where
  "dump_taint s fs k task referencestamp runtime =
     (let file_taint = (case read_taint fs task referencestamp of
            None \<Rightarrow> None | Some t \<Rightarrow> if t = [] then None else Some t)
      in if runtime = BaseOnly then file_taint
         else case map_of (si_taints s) k of
           None \<Rightarrow> file_taint
         | Some t \<Rightarrow> if occurs t ''nostamp:'' then Some t else file_taint)"

text \<open>
  The result has the name of the file, its contents, and whether the hashes computed from the
  contents are the stored ones; if the task hash is not, it replaces the stored one in the name.
\<close>

definition dump_sigtask :: "sig_env \<Rightarrow> siggen \<Rightarrow> string \<Rightarrow> string \<Rightarrow> string \<Rightarrow> sig_runtime \<Rightarrow>
    (string \<times> sigdata \<times> bool \<times> bool) res" where
  "dump_sigtask env s fn task stampbase runtime =
     (let k = sig_key fn task in
      rbind (sigfile_name s k task stampbase runtime) (\<lambda>(sigfile, referencestamp).
      rbind (dget (si_taskdeps s) fn) (\<lambda>fndeps.
      rbind (dget fndeps task) (\<lambda>deps.
      rbind (dget (si_basehash s) k) (\<lambda>basehash.
      rbind (dget (si_lookupcache s) fn) (\<lambda>vals.
      rbind (dget vals task) (\<lambda>v.
      rbind (dget (si_gendeps s) fn) (\<lambda>gendeps.
      rbind (rfold (dump_dep gendeps vals (si_basewhitelist s)) deps ([], [(task, v)])) (\<lambda>(gd, vv).
      rbind (case map_of (si_taskhash s) k of
          None \<Rightarrow> Inr None
        | Some h \<Rightarrow> if runtime = BaseOnly then Inr None else rbind (dump_run s k h) (\<lambda>run. Inr (Some run))) (\<lambda>run.
      let sd = \<lparr>sd_task = task, sd_basewhitelist = si_basewhitelist s, sd_taskwhitelist = si_taskwhitelist s,
        sd_taskdeps = deps, sd_basehash = basehash, sd_gendeps = gd, sd_varvals = vv, sd_run = run,
        sd_taint = dump_taint s (se_files env) k task referencestamp runtime\<rparr> in
      rbind (calc_basehash (se_md5 env) sd) (\<lambda>computed_basehash.
      case run of
        None \<Rightarrow> Inr (sigfile, sd, computed_basehash = basehash, True)
      | Some r \<Rightarrow> rbind (calc_taskhash (se_md5 env) sd) (\<lambda>computed_taskhash.
          Inr (if computed_taskhash = sr_taskhash r then sigfile else replace (sr_taskhash r) computed_taskhash sigfile,
            sd, computed_basehash = basehash, computed_taskhash = sr_taskhash r)))))))))))))"

text \<open>\<open>dump_sigs\<close>: all tasks whose hash is known, with the stamps of their recipes;
  \<open>cache_of\<close> gives the recipe cache of the configuration that a file belongs to.\<close>

definition dump_sigs :: "sig_env \<Rightarrow> (string \<Rightarrow> cache_data) \<Rightarrow> siggen \<Rightarrow> ((string \<times> sigdata \<times> bool \<times> bool) list) res" where
  "dump_sigs env cache_of s =
     rfold (\<lambda>(fn, task) out.
       let k = sig_key fn task in
       if k \<notin> set (keys (si_taskhash s)) then Inr out
       else rbind (dget (basetaskhash (cache_of fn)) k) (\<lambda>_. rbind (dget (si_basehash s) k) (\<lambda>_.
         rbind (dget (cd_stamp (cache_of fn)) fn) (\<lambda>stamp.
         rbind (dump_sigtask env s fn task stamp RunTime) (\<lambda>r. Inr (out @ [r]))))))
       (concat (map (\<lambda>(fn, tds). map (\<lambda>task. (fn, task)) (keys tds)) (si_taskdeps s))) []"

section \<open>Stamps with hashes\<close>

definition hash_stampfile :: "siggen \<Rightarrow> bool \<Rightarrow> string \<Rightarrow> string \<Rightarrow> string \<Rightarrow> string \<Rightarrow> string res" where
  "hash_stampfile s clean stampbase fn taskname extrainfo =
     (let k = sig_key fn (if taskname \<noteq> ''do_setscene'' \<and> endswith taskname ''_setscene''
        then take (length taskname - 9) taskname else taskname) in
      rbind (if clean then Inr ''*'' else case map_of (si_taskhash s) k of
          Some h \<Rightarrow> Inr h | None \<Rightarrow> dget (si_basehash s) k) (\<lambda>h.
      Inr (rstrip_dots (stampbase @ ''.'' @ taskname @ ''.'' @ h @ ''.'' @ extrainfo))))"

definition hash_sig_gen :: "siggen \<Rightarrow> sig_gen" where
  "hash_sig_gen s = \<lparr>sg_stampfile = hash_stampfile s False, sg_stampcleanmask = hash_stampfile s True\<rparr>"

end
