(* ===== verification/Siggen_Facts.thy ===== *)
theory Siggen_Facts
  imports Siggen
begin

text \<open>
  What the signatures mean: the base hash of a task covers exactly the variables it refers to,
  directly or through others; the hashes that are computed again from a signature file are those
  the generator computed; the mask for the stamps of a task finds its stamps and no others.
\<close>

section \<open>The variables of a task\<close>

text \<open>The references of a variable that count, and the relation they form.\<close>

definition refs :: "string list \<Rightarrow> (string \<times> string list) list \<Rightarrow> string \<Rightarrow> string set" where
  "refs wl gd x = set (dget_or gd x []) - set wl"

definition ref_rel :: "string list \<Rightarrow> (string \<times> string list) list \<Rightarrow> (string \<times> string) set" where
  "ref_rel wl gd = {(x, y). y \<in> refs wl gd x}"

lemma set_without [simp]: "set (without wl ds) = set ds - set wl"
  by (auto simp: without_def)

lemma distinct_without [simp]: "distinct ds \<Longrightarrow> distinct (without wl ds)"
  by (simp add: without_def)

text \<open>Dropping the whitelist from an entry changes neither the references nor the keys.\<close>

definition same_refs :: "string list \<Rightarrow> (string \<times> string list) list \<Rightarrow> (string \<times> string list) list \<Rightarrow> bool" where
  "same_refs wl gd gd' \<longleftrightarrow> refs wl gd' = refs wl gd \<and> set (keys gd') = set (keys gd) \<and> length gd' = length gd"

lemma same_refs_refl [simp]: "same_refs wl gd gd"
  by (simp add: same_refs_def)

lemma same_refs_trans: "same_refs wl a b \<Longrightarrow> same_refs wl b c \<Longrightarrow> same_refs wl a c"
  by (simp add: same_refs_def)

lemma same_refs_dset:
  assumes "map_of gd x = Some ds"
  shows "same_refs wl gd (dset x (without wl ds) gd)"
proof -
  have k: "x \<in> set (keys gd)" using assms by (rule map_of_keys)
  then have "keys (dset x (without wl ds) gd) = keys gd" by (rule keys_dset_mem)
  then have "length (dset x (without wl ds) gd) = length gd" by (metis keys_def length_map)
  moreover have "refs wl (dset x (without wl ds) gd) = refs wl gd"
  proof
    fix y show "refs wl (dset x (without wl ds) gd) y = refs wl gd y"
      using assms by (cases "y = x") (auto simp: refs_def dget_or_def)
  qed
  ultimately show ?thesis using k by (auto simp: same_refs_def)
qed

lemma dep_refs_all:
  assumes "rfold (dep_refs wl) nd (gd, acc) = Inr (gd', acc')" "set nd \<inter> set wl = {}"
  shows "same_refs wl gd gd' \<and> set acc' = set acc \<union> (\<Union>x \<in> set nd. refs wl gd x) \<and> set nd \<subseteq> set (keys gd) \<and>
    (distinct acc \<longrightarrow> distinct acc')"
  using assms
proof (induction nd arbitrary: gd acc)
  case Nil
  then show ?case by simp
next
  case (Cons x nd)
  from Cons.prems(1) obtain p where p: "dep_refs wl x (gd, acc) = Inr p" "rfold (dep_refs wl) nd p = Inr (gd', acc')"
    by (auto simp: rbind_eq_Inr)
  from p(1) Cons.prems(2) obtain ds where ds: "map_of gd x = Some ds" "p = (dset x (without wl ds) gd, sunion acc (without wl ds))"
    by (auto simp: dep_refs_def rbind_eq_Inr)
  note r = p(2) [unfolded ds(2)]
  have s: "same_refs wl gd (dset x (without wl ds) gd)" using ds(1) by (rule same_refs_dset)
  have x: "refs wl gd x = set ds - set wl" "x \<in> set (keys gd)"
    using ds(1) by (auto simp: refs_def dget_or_def intro: map_of_keys)
  from Cons.IH [OF r] Cons.prems(2) s have
    i: "same_refs wl (dset x (without wl ds) gd) gd'"
      "set acc' = set acc \<union> (set ds - set wl) \<union> (\<Union>x \<in> set nd. refs wl gd x)"
      "set nd \<subseteq> set (keys gd)" "distinct acc \<longrightarrow> distinct acc'"
    by (auto simp: same_refs_def)
  from same_refs_trans [OF s i(1)] i(2,3,4) x show ?case by auto
qed

lemma deps_loop_result:
  assumes "deps_loop fuel wl gd nd seen = Inr (gd', seen')" "set nd \<inter> set wl = {}"
    "\<And>x. x \<in> set seen \<Longrightarrow> refs wl gd x \<subseteq> set seen \<union> set nd"
  shows "same_refs wl gd gd' \<and> set seen \<union> set nd \<subseteq> set seen' \<and> (\<forall>x \<in> set seen'. refs wl gd x \<subseteq> set seen') \<and>
    set seen' \<subseteq> set seen \<union> (ref_rel wl gd)\<^sup>* `` set nd \<and> (distinct seen \<longrightarrow> distinct seen') \<and>
    set seen' \<subseteq> set seen \<union> set (keys gd)"
  using assms
proof (induction fuel arbitrary: gd nd seen)
  case 0
  then show ?case by (simp add: deps_loop.simps split: if_splits)
next
  case (Suc n)
  show ?case
  proof (cases "nd = []")
    case True
    with Suc.prems show ?thesis by (simp add: deps_loop.simps)
  next
    case False
    with Suc.prems(1) obtain gd1 nd1 where
      f: "rfold (dep_refs wl) nd (gd, []) = Inr (gd1, nd1)" and
      l: "deps_loop n wl gd1 (without (sunion seen nd) nd1) (sunion seen nd) = Inr (gd', seen')"
      by (subst (asm) deps_loop.simps) (auto simp: Let_def rbind_pair_eq_Inr)
    from dep_refs_all [OF f Suc.prems(2)]
    have d: "same_refs wl gd gd1" "set nd1 = (\<Union>x \<in> set nd. refs wl gd x)" "set nd \<subseteq> set (keys gd)" by auto
    have e: "refs wl gd1 = refs wl gd" "ref_rel wl gd1 = ref_rel wl gd" "set (keys gd1) = set (keys gd)"
      using d(1) by (simp_all add: same_refs_def ref_rel_def)
    have w: "set (without (sunion seen nd) nd1) \<inter> set wl = {}"
      using d(2) by (auto simp: refs_def)
    have c: "refs wl gd1 x \<subseteq> set (sunion seen nd) \<union> set (without (sunion seen nd) nd1)"
      if "x \<in> set (sunion seen nd)" for x
      using that Suc.prems(3) [of x] d(2) by (auto simp: e)
    note i = Suc.IH [OF l w c]
    have "(ref_rel wl gd)\<^sup>* `` set (without (sunion seen nd) nd1) \<subseteq> (ref_rel wl gd)\<^sup>* `` set nd"
    proof
      fix y assume "y \<in> (ref_rel wl gd)\<^sup>* `` set (without (sunion seen nd) nd1)"
      then obtain z where z: "z \<in> set nd1" "(z, y) \<in> (ref_rel wl gd)\<^sup>*" by auto
      with d(2) obtain x where "x \<in> set nd" "(x, z) \<in> ref_rel wl gd" by (auto simp: ref_rel_def)
      with z(2) show "y \<in> (ref_rel wl gd)\<^sup>* `` set nd" by (meson ImageI converse_rtrancl_into_rtrancl)
    qed
    moreover have "set nd \<subseteq> (ref_rel wl gd)\<^sup>* `` set nd" by auto
    ultimately have sub: "set seen' \<subseteq> set seen \<union> (ref_rel wl gd)\<^sup>* `` set nd"
      using i unfolding e set_sunion by blast
    from i have "same_refs wl gd1 gd'" "set seen \<union> set nd \<subseteq> set seen'" "\<forall>x \<in> set seen'. refs wl gd x \<subseteq> set seen'"
      "distinct seen \<longrightarrow> distinct seen'" "set seen' \<subseteq> set seen \<union> set nd \<union> set (keys gd)"
      by (simp_all add: e)
    with sub d(3) same_refs_trans [OF d(1)] show ?thesis by blast
  qed
qed

lemma deps_loop_fuel:
  assumes "card (set (keys gd) - set seen) < fuel" "set nd \<inter> set wl = {}" "set nd \<inter> set seen = {}"
  shows "deps_loop fuel wl gd nd seen \<noteq> Inl OutOfFuel"
  using assms
proof (induction fuel arbitrary: gd nd seen)
  case (Suc n)
  show ?case
  proof (cases "nd = []")
    case True
    then show ?thesis by (simp add: deps_loop.simps)
  next
    case False
    have nf: "rfold (dep_refs wl) ds x \<noteq> Inl OutOfFuel" for ds x
    proof (induction ds arbitrary: x)
      case (Cons d ds)
      have "dep_refs wl d x \<noteq> Inl OutOfFuel"
        by (cases x) (auto simp: dep_refs_def rbind_def dget_def split: option.splits)
      with Cons show ?case by (auto simp: rbind_eq_Inl)
    qed simp
    show ?thesis
    proof (cases "rfold (dep_refs wl) nd (gd, [])")
      case (Inl e)
      with nf False show ?thesis by (subst deps_loop.simps) (auto simp: Let_def)
    next
      case (Inr r)
      obtain gd1 nd1 where r: "r = (gd1, nd1)" by (cases r)
      from dep_refs_all [OF Inr [unfolded r] Suc.prems(2)]
      have d: "same_refs wl gd gd1" "set nd1 = (\<Union>x \<in> set nd. refs wl gd x)" "set nd \<subseteq> set (keys gd)" by auto
      from False obtain x where "x \<in> set nd" by (cases nd) auto
      with d(3) Suc.prems(3) have "set (keys gd) - set (sunion seen nd) \<subset> set (keys gd) - set seen" by auto
      then have "card (set (keys gd) - set (sunion seen nd)) < card (set (keys gd) - set seen)"
        by (simp add: psubset_card_mono)
      with Suc.prems(1) d(1) have "card (set (keys gd1) - set (sunion seen nd)) < n" by (simp add: same_refs_def)
      moreover have "set (without (sunion seen nd) nd1) \<inter> set wl = {}" using d(2) by (auto simp: refs_def)
      moreover have "set (without (sunion seen nd) nd1) \<inter> set (sunion seen nd) = {}" by auto
      ultimately show ?thesis
        using Suc.IH False Inr r by (subst deps_loop.simps) (simp add: Let_def)
    qed
  qed
qed simp

lemma reachable_refs:
  assumes "set seen' = A" "refs wl gd t \<subseteq> A" "\<forall>x \<in> A. refs wl gd x \<subseteq> A" "A \<subseteq> (ref_rel wl gd)\<^sup>* `` refs wl gd t"
  shows "A = {y. (t, y) \<in> (ref_rel wl gd)\<^sup>+}"
proof
  show "A \<subseteq> {y. (t, y) \<in> (ref_rel wl gd)\<^sup>+}"
  proof
    fix y assume "y \<in> A"
    with assms(4) obtain x where "x \<in> refs wl gd t" "(x, y) \<in> (ref_rel wl gd)\<^sup>*" by auto
    then have "(t, y) \<in> (ref_rel wl gd)\<^sup>+" by (simp add: ref_rel_def rtrancl_into_trancl2)
    then show "y \<in> {y. (t, y) \<in> (ref_rel wl gd)\<^sup>+}" ..
  qed
  have "(t, y) \<in> (ref_rel wl gd)\<^sup>+ \<Longrightarrow> y \<in> A" for y
  proof (induction rule: trancl_induct)
    case (base y)
    with assms(2) show ?case by (auto simp: ref_rel_def)
  next
    case (step y z)
    with assms(3) show ?case by (auto simp: ref_rel_def)
  qed
  then show "{y. (t, y) \<in> (ref_rel wl gd)\<^sup>+} \<subseteq> A" by blast
qed

lemma base_task_result:
  assumes "base_task md5 fn lookupcache task (s, gd, td) = Inr (s', gd', td')"
  shows "\<exists>ds data tx. map_of lookupcache task = Some data \<and>
    sorted ds \<and> distinct ds \<and> set ds = {y. (task, y) \<in> (ref_rel (si_basewhitelist s) gd)\<^sup>+} \<and>
    set ds \<subseteq> set (keys gd) \<and>
    rfold (dep_text lookupcache) ds (or_empty data) = Inr tx \<and>
    s' = s\<lparr>si_basehash := dset (sig_key fn task) (md5 tx) (si_basehash s)\<rparr> \<and> td' = dset task ds td \<and>
    same_refs (si_basewhitelist s) gd gd'"
proof -
  let ?wl = "si_basewhitelist s"
  from assms obtain data ds seen tx where
    d: "map_of lookupcache task = Some data" and g: "map_of gd task = Some ds" and
    l: "deps_loop (Suc (length (dset task (without ?wl ds) gd))) ?wl (dset task (without ?wl ds) gd) (without ?wl ds) [] = Inr (gd', seen)" and
    t: "rfold (dep_text lookupcache) (sort seen) (or_empty data) = Inr tx" and
    s: "s' = s\<lparr>si_basehash := dset (sig_key fn task) (md5 tx) (si_basehash s)\<rparr>" "td' = dset task (sort seen) td"
    unfolding base_task_def prod.case Let_def by (auto simp: rbind_eq_Inr)
  let ?gd = "dset task (without ?wl ds) gd"
  have sr: "same_refs ?wl gd ?gd" using g by (rule same_refs_dset)
  then have e: "refs ?wl ?gd = refs ?wl gd" "ref_rel ?wl ?gd = ref_rel ?wl gd" "set (keys ?gd) = set (keys gd)"
    by (simp_all add: same_refs_def ref_rel_def)
  have rt: "refs ?wl gd task = set (without ?wl ds)" using g by (simp add: refs_def dget_or_def)
  have dis: "set (without ?wl ds) \<inter> set ?wl = {}" by auto
  from deps_loop_result [OF l dis]
  have r: "same_refs ?wl ?gd gd'" "set (without ?wl ds) \<subseteq> set seen" "\<forall>x \<in> set seen. refs ?wl gd x \<subseteq> set seen"
    "set seen \<subseteq> (ref_rel ?wl gd)\<^sup>* `` set (without ?wl ds)" "distinct seen" "set seen \<subseteq> set (keys gd)"
    unfolding e by simp_all
  from reachable_refs [OF refl, of ?wl gd task seen] r(2,3,4) rt
  have "set seen = {y. (task, y) \<in> (ref_rel ?wl gd)\<^sup>+}" by simp
  with d t s r(5,6) same_refs_trans [OF sr r(1)] show ?thesis
    by (intro exI [of _ "sort seen"] exI [of _ data] exI [of _ tx]) simp
qed

text \<open>What is known of a task once its base hash is.\<close>

definition base_ok :: "(string \<Rightarrow> string) \<Rightarrow> string \<Rightarrow> (string \<times> string option) list \<Rightarrow>
    (string \<Rightarrow> string set) \<Rightarrow> (string \<times> string) list \<Rightarrow> (string \<times> string list) list \<Rightarrow> string \<Rightarrow> bool" where
  "base_ok md5 fn lookupcache reach basehash td task \<longleftrightarrow>
     (\<exists>ds data tx. map_of td task = Some ds \<and> map_of lookupcache task = Some data \<and> sorted ds \<and> distinct ds \<and>
        set ds = reach task \<and> rfold (dep_text lookupcache) ds (or_empty data) = Inr tx \<and>
        map_of basehash (sig_key fn task) = Some (md5 tx))"

lemma sig_key_eq [simp]: "sig_key fn a = sig_key fn b \<longleftrightarrow> a = b"
  by (simp add: sig_key_def)

lemma base_tasks_result:
  assumes "rfold (base_task md5 fn lookupcache) tasklist (s, gd, td) = Inr (s', gd', td')"
  shows "same_refs (si_basewhitelist s) gd gd' \<and> si_basewhitelist s' = si_basewhitelist s \<and>
    s' = s\<lparr>si_basehash := si_basehash s'\<rparr> \<and>
    (\<forall>task. task \<in> set tasklist \<or>
        base_ok md5 fn lookupcache (\<lambda>t. {y. (t, y) \<in> (ref_rel (si_basewhitelist s) gd)\<^sup>+}) (si_basehash s) td task \<longrightarrow>
      base_ok md5 fn lookupcache (\<lambda>t. {y. (t, y) \<in> (ref_rel (si_basewhitelist s) gd)\<^sup>+}) (si_basehash s') td' task) \<and>
    set (keys td') = set (keys td) \<union> set tasklist \<and>
    (\<forall>task \<in> set tasklist. {y. (task, y) \<in> (ref_rel (si_basewhitelist s) gd)\<^sup>+} \<subseteq> set (keys gd))"
  using assms
proof (induction tasklist arbitrary: s gd td)
  case (Cons t ts)
  from Cons.prems obtain s1 gd1 td1 where
    b: "base_task md5 fn lookupcache t (s, gd, td) = Inr (s1, gd1, td1)" and
    r: "rfold (base_task md5 fn lookupcache) ts (s1, gd1, td1) = Inr (s', gd', td')"
    by (auto simp: rbind_eq_Inr)
  let ?wl = "si_basewhitelist s"
  let ?R = "\<lambda>t. {y. (t, y) \<in> (ref_rel ?wl gd)\<^sup>+}"
  from base_task_result [OF b] obtain ds data tx where
    d: "map_of lookupcache t = Some data" "sorted ds" "distinct ds" "set ds = ?R t" "set ds \<subseteq> set (keys gd)"
      "rfold (dep_text lookupcache) ds (or_empty data) = Inr tx" and
    e: "s1 = s\<lparr>si_basehash := dset (sig_key fn t) (md5 tx) (si_basehash s)\<rparr>" "td1 = dset t ds td" and
    sr: "same_refs ?wl gd gd1"
    by (elim exE conjE) (rule that)
  have w: "si_basewhitelist s1 = ?wl" by (simp add: e)
  have rel: "ref_rel ?wl gd1 = ref_rel ?wl gd" "set (keys gd1) = set (keys gd)"
    using sr by (simp_all add: same_refs_def ref_rel_def)
  have ok: "base_ok md5 fn lookupcache ?R (si_basehash s1) td1 task"
    if "task = t \<or> base_ok md5 fn lookupcache ?R (si_basehash s) td task" for task
  proof (cases "task = t")
    case True
    with d e show ?thesis
      unfolding base_ok_def by (intro exI [of _ ds] exI [of _ data] exI [of _ tx]) simp
  next
    case False
    with that e show ?thesis unfolding base_ok_def by simp
  qed
  note i = Cons.IH [OF r, unfolded w rel]
  have "s' = s\<lparr>si_basehash := si_basehash s'\<rparr>"
    using i by (simp add: e(1))
  with i ok d(4,5) same_refs_trans [OF sr] w show ?case by (auto simp: e(2))
qed simp

lemma build_data_result:
  assumes "build_data md5 fn tasklist gd lookupcache s = Inr (s', td)"
  shows "\<forall>task \<in> set tasklist.
      base_ok md5 fn lookupcache (\<lambda>t. {y. (t, y) \<in> (ref_rel (si_basewhitelist s) gd)\<^sup>+}) (si_basehash s') td task"
    and "set (keys td) = set tasklist"
    and "\<exists>gd'. same_refs (si_basewhitelist s) gd gd' \<and> s' = s\<lparr>si_basehash := si_basehash s',
        si_taskdeps := dset fn td (si_taskdeps s), si_gendeps := dset fn gd' (si_gendeps s),
        si_lookupcache := dset fn lookupcache (si_lookupcache s)\<rparr>"
    and "\<forall>task \<in> set tasklist. {y. (task, y) \<in> (ref_rel (si_basewhitelist s) gd)\<^sup>+} \<subseteq> set (keys gd)"
proof -
  from assms obtain s1 gd' where r: "rfold (base_task md5 fn lookupcache) tasklist (s, gd, []) = Inr (s1, gd', td)"
    and s': "s' = s1\<lparr>si_taskdeps := dset fn td (si_taskdeps s1), si_gendeps := dset fn gd' (si_gendeps s1),
        si_lookupcache := dset fn lookupcache (si_lookupcache s1)\<rparr>"
    by (auto simp: build_data_def rbind_eq_Inr)
  note b = base_tasks_result [OF r]
  from b s' show "\<forall>task \<in> set tasklist.
      base_ok md5 fn lookupcache (\<lambda>t. {y. (t, y) \<in> (ref_rel (si_basewhitelist s) gd)\<^sup>+}) (si_basehash s') td task" by simp
  from b show "set (keys td) = set tasklist" by (simp add: keys_def)
  from b have e: "s1 = s\<lparr>si_basehash := si_basehash s1\<rparr>" by blast
  show "\<exists>gd'. same_refs (si_basewhitelist s) gd gd' \<and> s' = s\<lparr>si_basehash := si_basehash s',
        si_taskdeps := dset fn td (si_taskdeps s), si_gendeps := dset fn gd' (si_gendeps s),
        si_lookupcache := dset fn lookupcache (si_lookupcache s)\<rparr>"
  proof (intro exI [of _ gd'] conjI)
    show "same_refs (si_basewhitelist s) gd gd'" using b by blast
    have "si_taskdeps s1 = si_taskdeps s" "si_gendeps s1 = si_gendeps s" "si_lookupcache s1 = si_lookupcache s"
      by (subst e, simp)+
    moreover have "si_basehash s' = si_basehash s1" by (simp add: s')
    ultimately show "s' = s\<lparr>si_basehash := si_basehash s',
        si_taskdeps := dset fn td (si_taskdeps s), si_gendeps := dset fn gd' (si_gendeps s),
        si_lookupcache := dset fn lookupcache (si_lookupcache s)\<rparr>"
      unfolding s' by (subst (1) e) simp
  qed
  from b show "\<forall>task \<in> set tasklist. {y. (task, y) \<in> (ref_rel (si_basewhitelist s) gd)\<^sup>+} \<subseteq> set (keys gd)" by blast
qed

section \<open>The hash of a task\<close>

lemma map_of_dappend: "map_of (dappend k v d) = (map_of d)(k \<mapsto> dget_or d k [] @ [v])"
  by (simp add: dappend_def)

lemma add_dep_hashes:
  assumes "rfold (add_dep_hash env dc k recipename) deps (s, data) = Inr (s', data')" "k \<in> set (keys (si_runtaskdeps s))"
  shows "\<exists>kept. s' = s\<lparr>si_runtaskdeps := si_runtaskdeps s'\<rparr> \<and>
    map_of (si_runtaskdeps s') = (map_of (si_runtaskdeps s))(k \<mapsto> dget_or (si_runtaskdeps s) k [] @ kept) \<and>
    set kept \<subseteq> set (keys (si_taskhash s)) \<and>
    data' = data @ concat (map (\<lambda>d. dget_or (si_taskhash s) d []) kept)"
  using assms
proof (induction deps arbitrary: s data)
  case Nil
  then show ?case by (intro exI [of _ "[]"]) (auto simp: fun_eq_iff dget_or_def set_keys)
next
  case (Cons d deps)
  from Cons.prems(1) obtain s1 data1 where
    a: "add_dep_hash env dc k recipename d (s, data) = Inr (s1, data1)" and
    r: "rfold (add_dep_hash env dc k recipename) deps (s1, data1) = Inr (s', data')"
    by (auto simp: rbind_eq_Inr)
  from a consider "s1 = s" "data1 = data" |
    h where "map_of (si_taskhash s) d = Some h" "s1 = s\<lparr>si_runtaskdeps := dappend k d (si_runtaskdeps s)\<rparr>" "data1 = data @ h"
    by (auto simp: add_dep_hash_def rbind_eq_Inr split: if_splits option.splits)
  then show ?case
  proof cases
    case 1
    with Cons.IH [of s data] r Cons.prems(2) show ?thesis by simp
  next
    case 2
    then have k: "k \<in> set (keys (si_runtaskdeps s1))" by (simp add: dappend_def)
    from Cons.IH [OF r k] obtain kept where
      i: "s' = s1\<lparr>si_runtaskdeps := si_runtaskdeps s'\<rparr>"
      "map_of (si_runtaskdeps s') = (map_of (si_runtaskdeps s1))(k \<mapsto> dget_or (si_runtaskdeps s1) k [] @ kept)"
      "set kept \<subseteq> set (keys (si_taskhash s1))" "data' = data1 @ concat (map (\<lambda>d. dget_or (si_taskhash s1) d []) kept)"
      by (elim exE conjE) (rule that)
    show ?thesis
    proof (intro exI [of _ "d # kept"] conjI)
      show "s' = s\<lparr>si_runtaskdeps := si_runtaskdeps s'\<rparr>" by (subst i(1)) (simp add: 2(2))
      show "map_of (si_runtaskdeps s') = (map_of (si_runtaskdeps s))(k \<mapsto> dget_or (si_runtaskdeps s) k [] @ d # kept)"
        by (simp add: i(2) 2(2) map_of_dappend)
      show "set (d # kept) \<subseteq> set (keys (si_taskhash s))" using i(3) 2(1,2) by (auto intro: map_of_keys)
      show "data' = data @ concat (map (\<lambda>d. dget_or (si_taskhash s) d []) (d # kept))"
        using i(4) 2 by (simp add: dget_or_def)
    qed
  qed
qed

lemma add_checksums:
  assumes "fold (add_checksum k) fcs (s, data) = (s', data')" "k \<in> set (keys (si_file_checksum_values s))"
  shows "s' = s\<lparr>si_file_checksum_values := si_file_checksum_values s'\<rparr> \<and>
    map_of (si_file_checksum_values s') =
      (map_of (si_file_checksum_values s))(k \<mapsto> dget_or (si_file_checksum_values s) k [] @ fcs) \<and>
    data' = data @ concat (map (\<lambda>c. or_empty (snd c)) fcs)"
  using assms
proof (induction fcs arbitrary: s data)
  case Nil
  then show ?case by (auto simp: fun_eq_iff dget_or_def set_keys)
next
  case (Cons c fcs)
  let ?s = "s\<lparr>si_file_checksum_values := dappend k c (si_file_checksum_values s)\<rparr>"
  have k: "k \<in> set (keys (si_file_checksum_values ?s))" by (simp add: dappend_def)
  have "add_checksum k c (s, data) = (?s, data @ or_empty (snd c))" by (simp add: add_checksum_def)
  with Cons.prems(1) have f: "fold (add_checksum k) fcs (?s, data @ or_empty (snd c)) = (s', data')" by simp
  note i = Cons.IH [OF f k]
  then have "s' = s\<lparr>si_file_checksum_values := si_file_checksum_values s'\<rparr>" by (metis siggen.surjective siggen.update_convs(5))
  with i show ?case by (simp add: map_of_dappend fun_eq_iff)
qed

text \<open>What makes a task tainted, and the text it adds.\<close>

definition is_nostamp :: "cache_data \<Rightarrow> string \<Rightarrow> string \<Rightarrow> bool" where
  "is_nostamp dc fn task \<longleftrightarrow> (\<exists>td. map_of (cd_task_deps dc) fn = Some td \<and> task_flag td ''nostamp'' task \<noteq> None)"

definition file_taint :: "file_table \<Rightarrow> string \<Rightarrow> string \<Rightarrow> string" where
  "file_taint fs task stampbase = or_empty (read_taint fs task stampbase)"

definition same_static :: "siggen \<Rightarrow> siggen \<Rightarrow> bool" where
  "same_static s t \<longleftrightarrow> si_taskdeps t = si_taskdeps s \<and> si_gendeps t = si_gendeps s \<and> si_lookupcache t = si_lookupcache s \<and>
     si_basewhitelist t = si_basewhitelist s \<and> si_taskwhitelist t = si_taskwhitelist s"

definition hash_text :: "siggen \<Rightarrow> string \<Rightarrow> string list \<Rightarrow> (string \<times> string option) list \<Rightarrow> string \<Rightarrow> string" where
  "hash_text s base kept fcs taint = base @ concat (map (\<lambda>d. dget_or (si_taskhash s) d []) kept)
     @ concat (map (\<lambda>c. or_empty (snd c)) fcs) @ taint"

lemma get_taskhash_result:
  assumes "get_taskhash env dc fn task deps s = Inr (s', h)"
  shows "\<exists>base kept fcs stampbase. let k = sig_key fn task; ft = file_taint (se_files env) task stampbase; ns = is_nostamp dc fn task in
    map_of (basetaskhash dc) k = Some base \<and> map_of (cd_stamp dc) fn = Some stampbase \<and>
    set kept \<subseteq> set (keys (si_taskhash s)) \<and>
    map_of (si_basehash s') = (map_of (si_basehash s))(k \<mapsto> base) \<and>
    map_of (si_runtaskdeps s') = (map_of (si_runtaskdeps s))(k \<mapsto> kept) \<and>
    map_of (si_file_checksum_values s') = (map_of (si_file_checksum_values s))(k \<mapsto> fcs) \<and>
    map_of (si_taskhash s') = (map_of (si_taskhash s))(k \<mapsto> h) \<and>
    map_of (si_taints s') = (if ft \<noteq> [] then (map_of (si_taints s))(k \<mapsto> ft)
      else if ns then (map_of (si_taints s))(k \<mapsto> ''nostamp:'' @ se_uuid env) else map_of (si_taints s)) \<and>
    same_static s s' \<and>
    h = se_md5 env (hash_text s base kept fcs ((if ns then se_uuid env else []) @ ft))"
proof -
  let ?k = "sig_key fn task"
  from assms obtain base recipename sdeps s1 data1 s2 data2 s3 data3 s4 data4 where
    base: "map_of (basetaskhash dc) ?k = Some base" and
    f: "rfold (add_dep_hash env dc ?k recipename) sdeps
      (s\<lparr>si_basehash := dset ?k base (si_basehash s), si_runtaskdeps := dset ?k [] (si_runtaskdeps s),
        si_file_checksum_values := dset ?k [] (si_file_checksum_values s)\<rparr>, base) = Inr (s1, data1)" and
    g: "add_files env dc fn task recipename (s1, data1) = Inr (s2, data2)"
      "add_nostamp env dc fn task (s2, data2) = Inr (s3, data3)" "add_taint env dc fn task (s3, data3) = Inr (s4, data4)" and
    e: "h = se_md5 env data4" "s' = s4\<lparr>si_taskhash := dset ?k h (si_taskhash s4)\<rparr>"
    unfolding get_taskhash_def Let_def rbind_eq_Inr dget_eq_Inr by auto
  let ?s0 = "s\<lparr>si_basehash := dset ?k base (si_basehash s), si_runtaskdeps := dset ?k [] (si_runtaskdeps s),
        si_file_checksum_values := dset ?k [] (si_file_checksum_values s)\<rparr>"
  from add_dep_hashes [OF f] obtain kept where
    k1: "s1 = ?s0\<lparr>si_runtaskdeps := si_runtaskdeps s1\<rparr>"
    "map_of (si_runtaskdeps s1) = (map_of (si_runtaskdeps s))(?k \<mapsto> kept)"
    "set kept \<subseteq> set (keys (si_taskhash s))" "data1 = base @ concat (map (\<lambda>d. dget_or (si_taskhash s) d []) kept)"
    by auto
  from g(1) obtain fcs where s2: "fold (add_checksum ?k) fcs (s1, data1) = (s2, data2)"
    by (auto simp: add_files_def rbind_eq_Inr split: option.splits intro: that [of "[]"])
  have f1: "si_file_checksum_values s1 = dset ?k [] (si_file_checksum_values s)" by (subst k1(1)) simp
  from add_checksums [OF s2] f1 have
    k2: "s2 = s1\<lparr>si_file_checksum_values := si_file_checksum_values s2\<rparr>"
    "map_of (si_file_checksum_values s2) = (map_of (si_file_checksum_values s))(?k \<mapsto> fcs)"
    "data2 = data1 @ concat (map (\<lambda>c. or_empty (snd c)) fcs)" by simp_all
  have b2: "si_basehash s2 = dset ?k base (si_basehash s)" "si_taskhash s2 = si_taskhash s" "si_taints s2 = si_taints s"
    "si_runtaskdeps s2 = si_runtaskdeps s1" "same_static s s2"
    unfolding same_static_def by (subst k2(1), subst (1) k1(1), simp)+
  let ?ns = "is_nostamp dc fn task"
  from g(2) have n: "s3 = s2\<lparr>si_taints := if ?ns then dset ?k (''nostamp:'' @ se_uuid env) (si_taints s) else si_taints s\<rparr>"
    "data3 = data2 @ (if ?ns then se_uuid env else [])"
    by (auto simp: add_nostamp_def rbind_eq_Inr is_nostamp_def b2(3) [symmetric] split: option.splits)
  from g(3) obtain stampbase where st: "map_of (cd_stamp dc) fn = Some stampbase" by (auto simp: add_taint_def rbind_eq_Inr)
  let ?ft = "file_taint (se_files env) task stampbase"
  from g(3) st have t: "s4 = s3\<lparr>si_taints := if ?ft \<noteq> [] then dset ?k ?ft (si_taints s3) else si_taints s3\<rparr>"
    "data4 = data3 @ ?ft"
    by (auto simp: add_taint_def rbind_eq_Inr file_taint_def or_empty_def split: option.splits if_splits)
  show ?thesis
    unfolding Let_def
  proof (rule exI [of _ base], rule exI [of _ kept], rule exI [of _ fcs], rule exI [of _ stampbase], intro conjI)
    show "map_of (basetaskhash dc) ?k = Some base" "map_of (cd_stamp dc) fn = Some stampbase"
      "set kept \<subseteq> set (keys (si_taskhash s))" using base st k1(3) by simp_all
    show "map_of (si_basehash s') = (map_of (si_basehash s))(?k \<mapsto> base)"
      "map_of (si_runtaskdeps s') = (map_of (si_runtaskdeps s))(?k \<mapsto> kept)"
      "map_of (si_file_checksum_values s') = (map_of (si_file_checksum_values s))(?k \<mapsto> fcs)"
      "map_of (si_taskhash s') = (map_of (si_taskhash s))(?k \<mapsto> h)"
      using k1(2) k2(2) by (simp_all add: e(2) t(1) n(1) b2)
    show "map_of (si_taints s') = (if ?ft \<noteq> [] then (map_of (si_taints s))(?k \<mapsto> ?ft)
      else if is_nostamp dc fn task then (map_of (si_taints s))(?k \<mapsto> ''nostamp:'' @ se_uuid env) else map_of (si_taints s))"
      by (simp add: e(2) t(1) n(1))
    show "same_static s s'" using b2(5) by (simp add: same_static_def e(2) t(1) n(1))
    show "h = se_md5 env (hash_text s base kept fcs ((if is_nostamp dc fn task then se_uuid env else []) @ ?ft))"
      by (simp add: e(1) t(2) n(2) hash_text_def k2(3) k1(4))
  qed
qed

section \<open>Hashing all tasks\<close>

text \<open>A call of \<open>get_taskhash\<close> with the random identifier it draws, and a run of calls.\<close>

record hash_call =
  hc_uuid :: string
  hc_cache :: cache_data
  hc_fn :: string
  hc_task :: string
  hc_deps :: "string list"

definition call_key :: "hash_call \<Rightarrow> string" where
  "call_key c = sig_key (hc_fn c) (hc_task c)"

definition call_step :: "sig_env \<Rightarrow> hash_call \<Rightarrow> siggen \<Rightarrow> siggen res" where
  "call_step env c s = rbind (get_taskhash (env\<lparr>se_uuid := hc_uuid c\<rparr>) (hc_cache c) (hc_fn c) (hc_task c) (hc_deps c) s)
     (\<lambda>(s, _). Inr s)"

definition hash_all :: "sig_env \<Rightarrow> hash_call list \<Rightarrow> siggen \<Rightarrow> siggen res" where
  "hash_all env calls s = rfold (call_step env) calls s"

text \<open>What the state has of a call that has been made.\<close>

definition call_ok :: "sig_env \<Rightarrow> siggen \<Rightarrow> hash_call \<Rightarrow> bool" where
  "call_ok env s c \<longleftrightarrow> (\<exists>base kept fcs stampbase. let k = call_key c; ft = file_taint (se_files env) (hc_task c) stampbase;
      ns = is_nostamp (hc_cache c) (hc_fn c) (hc_task c) in
    map_of (basetaskhash (hc_cache c)) k = Some base \<and> map_of (cd_stamp (hc_cache c)) (hc_fn c) = Some stampbase \<and>
    set kept \<subseteq> set (keys (si_taskhash s)) \<and> map_of (si_basehash s) k = Some base \<and>
    map_of (si_runtaskdeps s) k = Some kept \<and> map_of (si_file_checksum_values s) k = Some fcs \<and>
    map_of (si_taskhash s) k = Some (se_md5 env (hash_text s base kept fcs ((if ns then hc_uuid c else []) @ ft))) \<and>
    map_of (si_taints s) k = (if ft \<noteq> [] then Some ft else if ns then Some (''nostamp:'' @ hc_uuid c) else None))"

definition calls_inv :: "sig_env \<Rightarrow> siggen \<Rightarrow> hash_call list \<Rightarrow> siggen \<Rightarrow> bool" where
  "calls_inv env s0 made s \<longleftrightarrow> same_static s0 s \<and> set (keys (si_taskhash s)) = call_key ` set made \<and>
     set (keys (si_taints s)) \<subseteq> call_key ` set made \<and>
     (\<forall>k. k \<notin> call_key ` set made \<longrightarrow> map_of (si_basehash s) k = map_of (si_basehash s0) k) \<and>
     (\<forall>c \<in> set made. call_ok env s c)"

lemma hash_text_later:
  assumes "set kept \<subseteq> set (keys (si_taskhash s))" "k \<notin> set (keys (si_taskhash s))"
    "map_of (si_taskhash s') = (map_of (si_taskhash s))(k \<mapsto> h)"
  shows "hash_text s' base kept fcs taint = hash_text s base kept fcs taint"
proof -
  have "map (\<lambda>d. dget_or (si_taskhash s') d []) kept = map (\<lambda>d. dget_or (si_taskhash s) d []) kept"
    using assms by (auto simp: dget_or_def)
  then show ?thesis unfolding hash_text_def by (simp only:)
qed

lemma call_step_inv:
  assumes "call_step env c s = Inr s'" "calls_inv env s0 made s" "call_key c \<notin> call_key ` set made"
  shows "calls_inv env s0 (made @ [c]) s'"
proof -
  let ?k = "call_key c"
  have env: "se_files (env\<lparr>se_uuid := hc_uuid c\<rparr>) = se_files env" "se_md5 (env\<lparr>se_uuid := hc_uuid c\<rparr>) = se_md5 env"
    "se_uuid (env\<lparr>se_uuid := hc_uuid c\<rparr>) = hc_uuid c" by simp_all
  from assms(1) obtain h where "get_taskhash (env\<lparr>se_uuid := hc_uuid c\<rparr>) (hc_cache c) (hc_fn c) (hc_task c) (hc_deps c) s = Inr (s', h)"
    by (auto simp: call_step_def rbind_eq_Inr)
  from get_taskhash_result [OF this, unfolded Let_def env, folded call_key_def] obtain base kept fcs stampbase where
    g: "map_of (basetaskhash (hc_cache c)) ?k = Some base" "map_of (cd_stamp (hc_cache c)) (hc_fn c) = Some stampbase"
    "set kept \<subseteq> set (keys (si_taskhash s))" and
    m: "map_of (si_basehash s') = (map_of (si_basehash s))(?k \<mapsto> base)"
    "map_of (si_runtaskdeps s') = (map_of (si_runtaskdeps s))(?k \<mapsto> kept)"
    "map_of (si_file_checksum_values s') = (map_of (si_file_checksum_values s))(?k \<mapsto> fcs)"
    "map_of (si_taskhash s') = (map_of (si_taskhash s))(?k \<mapsto> h)" and
    t: "map_of (si_taints s') = (if file_taint (se_files env) (hc_task c) stampbase \<noteq> []
      then (map_of (si_taints s))(?k \<mapsto> file_taint (se_files env) (hc_task c) stampbase)
      else if is_nostamp (hc_cache c) (hc_fn c) (hc_task c) then (map_of (si_taints s))(?k \<mapsto> ''nostamp:'' @ hc_uuid c)
      else map_of (si_taints s))" and
    st: "same_static s s'" and
    h: "h = se_md5 env (hash_text s base kept fcs ((if is_nostamp (hc_cache c) (hc_fn c) (hc_task c) then hc_uuid c else [])
      @ file_taint (se_files env) (hc_task c) stampbase))"
    by (elim exE conjE) (rule that)
  from assms(2) have i: "same_static s0 s" "set (keys (si_taskhash s)) = call_key ` set made"
    "set (keys (si_taints s)) \<subseteq> call_key ` set made"
    "\<forall>k. k \<notin> call_key ` set made \<longrightarrow> map_of (si_basehash s) k = map_of (si_basehash s0) k"
    "\<forall>d \<in> set made. call_ok env s d" by (simp_all add: calls_inv_def)
  have kn: "?k \<notin> set (keys (si_taskhash s))" using assms(3) i(2) by simp
  have tn: "map_of (si_taints s) ?k = None" using assms(3) i(3) by (metis map_of_keys not_Some_eq subsetD)
  have keys: "set (keys (si_taskhash s')) = insert ?k (set (keys (si_taskhash s)))"
    using m(4) by (metis dom_fun_upd dom_map_of_keys option.discI)
  have tkeys: "set (keys (si_taints s')) \<subseteq> insert ?k (set (keys (si_taints s)))"
    using t by (auto simp: dom_map_of_keys [symmetric] split: if_splits)
  note l = hash_text_later [OF _ kn m(4)]
  have "call_ok env s' c"
    unfolding call_ok_def Let_def
    by (rule exI [of _ base], rule exI [of _ kept], rule exI [of _ fcs], rule exI [of _ stampbase])
      (use g m t tn h l [OF g(3)] keys in auto)
  moreover have "call_ok env s' d" if d: "d \<in> set made" for d
  proof -
    have ne: "call_key d \<noteq> ?k" using assms(3) d by (metis imageI)
    from i(5) d have "call_ok env s d" by blast
    then obtain base' kept' fcs' stampbase' where
      o: "map_of (basetaskhash (hc_cache d)) (call_key d) = Some base'" "map_of (cd_stamp (hc_cache d)) (hc_fn d) = Some stampbase'"
        "set kept' \<subseteq> set (keys (si_taskhash s))" "map_of (si_basehash s) (call_key d) = Some base'"
        "map_of (si_runtaskdeps s) (call_key d) = Some kept'" "map_of (si_file_checksum_values s) (call_key d) = Some fcs'" and
      p: "map_of (si_taskhash s) (call_key d) = Some (se_md5 env (hash_text s base' kept' fcs'
          ((if is_nostamp (hc_cache d) (hc_fn d) (hc_task d) then hc_uuid d else []) @ file_taint (se_files env) (hc_task d) stampbase')))"
        "map_of (si_taints s) (call_key d) = (if file_taint (se_files env) (hc_task d) stampbase' \<noteq> []
          then Some (file_taint (se_files env) (hc_task d) stampbase')
          else if is_nostamp (hc_cache d) (hc_fn d) (hc_task d) then Some (''nostamp:'' @ hc_uuid d) else None)"
      unfolding call_ok_def Let_def by blast
    have tt: "map_of (si_taints s') (call_key d) = map_of (si_taints s) (call_key d)" using t ne by auto
    show ?thesis
      unfolding call_ok_def Let_def
      by (rule exI [of _ base'], rule exI [of _ kept'], rule exI [of _ fcs'], rule exI [of _ stampbase'])
        (use o p m tt ne l [OF o(3)] keys in auto)
  qed
  moreover have "same_static s0 s'" using i(1) st by (simp add: same_static_def)
  ultimately show ?thesis
    unfolding calls_inv_def using i(2,3,4) keys tkeys m(1) by auto
qed

lemma hash_all_inv:
  assumes "hash_all env calls s0 = Inr s" "distinct (map call_key calls)" "si_taskhash s0 = []" "si_taints s0 = []"
  shows "calls_inv env s0 calls s"
proof (rule rfold_prefix [where P = "calls_inv env s0" and xs = calls, OF assms(1) [unfolded hash_all_def]])
  show "calls_inv env s0 [] s0" using assms(3,4) by (simp add: calls_inv_def same_static_def keys_def)
  fix made c rest s s'
  assume e: "calls = made @ c # rest" and i: "calls_inv env s0 made s" and r: "call_step env c s = Inr s'"
  from assms(2) have "call_key c \<notin> call_key ` set made" by (simp add: e)
  then show "calls_inv env s0 (made @ [c]) s'" by (rule call_step_inv [OF r i])
qed

section \<open>Signature files are consistent\<close>

lemma dep_texts_cong:
  assumes "\<And>d. d \<in> set ds \<Longrightarrow> map_of vv d = map_of vals d"
  shows "rfold (dep_text vv) ds data = rfold (dep_text vals) ds data"
  using assms
proof (induction ds arbitrary: data)
  case (Cons d ds)
  then have "dep_text vv d = dep_text vals d" by (auto simp: dep_text_def dget_def fun_eq_iff)
  with Cons show ?case by (cases "dep_text vals d data") simp_all
qed simp

lemma dep_texts_known: "rfold (dep_text vals) ds data = Inr tx \<Longrightarrow> set ds \<subseteq> set (keys vals)"
  by (induction ds arbitrary: data) (auto simp: rbind_eq_Inr dep_text_def intro: map_of_keys)

lemma dump_deps:
  assumes "set ds \<subseteq> set (keys gendeps)" "set ds \<subseteq> set (keys vals)" "set ds \<inter> set wl = {}"
  shows "\<exists>gd' vv'. rfold (dump_dep gendeps vals wl) ds (gd, vv) = Inr (gd', vv') \<and>
    (\<forall>d. map_of vv' d = (if d \<in> set ds then map_of vals d else map_of vv d))"
  using assms
proof (induction ds arbitrary: gd vv)
  case (Cons d ds)
  then obtain g v where g: "map_of gendeps d = Some g" "map_of vals d = Some v" by (auto simp: set_keys)
  with Cons.prems(3) have "dump_dep gendeps vals wl d (gd, vv) = Inr (dset d g gd, dset d v vv)"
    by (simp add: dump_dep_def dget_found)
  moreover have "set ds \<subseteq> set (keys gendeps)" "set ds \<subseteq> set (keys vals)" "set ds \<inter> set wl = {}"
    using Cons.prems by auto
  ultimately show ?case using g(2) Cons.IH [of "dset d g gd" "dset d v vv"] by auto
qed simp

lemma dump_hashes:
  assumes "set kept \<subseteq> set (keys th)"
  shows "\<exists>hs'. rfold (\<lambda>dep hs. rbind (dget th dep) (\<lambda>h. Inr (dset dep h hs))) kept hs = Inr hs' \<and>
    (\<forall>d. map_of hs' d = (if d \<in> set kept then map_of th d else map_of hs d))"
  using assms
proof (induction kept arbitrary: hs)
  case (Cons d kept)
  then obtain h where h: "map_of th d = Some h" by (auto simp: set_keys)
  from Cons.prems have "set kept \<subseteq> set (keys th)" by simp
  from Cons.IH [OF this, of "dset d h hs"] h show ?case by (auto simp: dget_found)
qed simp

lemma run_hash_text_all:
  assumes "\<forall>d \<in> set kept. map_of (sr_hashes run) d = map_of th d" "set kept \<subseteq> set (keys th)"
  shows "rfold (run_hash_text run) kept data = Inr (data @ concat (map (\<lambda>d. dget_or th d []) kept))"
  using assms
proof (induction kept arbitrary: data)
  case (Cons d kept)
  then obtain h where "map_of th d = Some h" by (auto simp: set_keys)
  with Cons show ?case by (simp add: run_hash_text_def dget_found dget_or_def)
qed simp

lemma checksum_text_all:
  "\<forall>c \<in> set fcs. snd c \<noteq> None \<Longrightarrow>
    rfold checksum_text (map (\<lambda>(f, cs). (basename f, cs)) fcs) data = Inr (data @ concat (map (\<lambda>c. or_empty (snd c)) fcs))"
  by (induction fcs arbitrary: data) (auto simp: checksum_text_def or_empty_def split: option.splits)

lemma dump_taint_text:
  assumes "map_of (si_taints s) k = (if ft \<noteq> [] then Some ft else if ns then Some (''nostamp:'' @ uuid) else None)"
    "ft = file_taint fs task stampbase" "\<not> ns \<or> ft = []" "\<not> occurs ft ''nostamp:''"
  shows "taint_text (dump_taint s fs k task stampbase RunTime) = (if ns then uuid else []) @ ft"
proof -
  have occ: "occurs (''nostamp:'' @ uuid) ''nostamp:''"
    by (auto simp: occurs_def list_ex_iff startswith_def intro: bexI [of _ "''nostamp:'' @ uuid"])
  have "(case read_taint fs task stampbase of None \<Rightarrow> None | Some t \<Rightarrow> if t = [] then None else Some t) =
      (if ft = [] then None else Some ft)"
    by (auto simp: assms(2) file_taint_def or_empty_def split: option.splits)
  with assms(1,3,4) occ show ?thesis
    by (cases "ft = []"; cases ns) (simp_all add: dump_taint_def taint_text_def Let_def)
qed

lemma reach_not_whitelisted: "(t, y) \<in> (ref_rel wl gd)\<^sup>+ \<Longrightarrow> y \<notin> set wl"
  by (erule trancl.cases) (auto simp: ref_rel_def refs_def)

lemma dump_sigtask_consistent:
  assumes "base_ok (se_md5 env) fn vals reach (si_basehash s) td task" "reach task \<inter> set (si_basewhitelist s) = {}"
    "reach task \<subseteq> set (keys gd)" "map_of (si_taskdeps s) fn = Some td" "map_of (si_lookupcache s) fn = Some vals"
    "map_of (si_gendeps s) fn = Some gd" "call_ok env s c" "hc_fn c = fn" "hc_task c = task"
    "map_of (cd_stamp (hc_cache c)) fn = Some stampbase"
    "\<not> is_nostamp (hc_cache c) fn task \<or> file_taint (se_files env) task stampbase = []"
    "\<not> occurs (file_taint (se_files env) task stampbase) ''nostamp:''"
    "\<forall>x \<in> set (dget_or (si_file_checksum_values s) (sig_key fn task) []). snd x \<noteq> None"
  shows "\<exists>sd h. dump_sigtask env s fn task stampbase RunTime =
      Inr (stampbase @ ''.'' @ task @ ''.sigdata.'' @ h, sd, True, True) \<and> map_of (si_taskhash s) (sig_key fn task) = Some h"
proof -
  let ?k = "sig_key fn task"
  from assms(1) obtain ds data tx where b: "map_of td task = Some ds" "map_of vals task = Some data" "set ds = reach task"
      "rfold (dep_text vals) ds (or_empty data) = Inr tx" "map_of (si_basehash s) ?k = Some (se_md5 env tx)"
    unfolding base_ok_def by blast
  from assms(7) obtain kept fcs where
    c: "set kept \<subseteq> set (keys (si_taskhash s))" "map_of (si_runtaskdeps s) ?k = Some kept"
      "map_of (si_file_checksum_values s) ?k = Some fcs" and
    h: "map_of (si_taskhash s) ?k = Some (se_md5 env (hash_text s (se_md5 env tx) kept fcs
        ((if is_nostamp (hc_cache c) fn task then hc_uuid c else []) @ file_taint (se_files env) task stampbase)))"
      "map_of (si_taints s) ?k = (if file_taint (se_files env) task stampbase \<noteq> []
        then Some (file_taint (se_files env) task stampbase)
        else if is_nostamp (hc_cache c) fn task then Some (''nostamp:'' @ hc_uuid c) else None)"
    unfolding call_ok_def Let_def call_key_def assms(8,9) using b(5) assms(10) by auto
  let ?ds = "ds" and ?taint = "dump_taint s (se_files env) ?k task stampbase RunTime"
  have "set ds \<subseteq> set (keys gd)" "set ds \<subseteq> set (keys vals)" "set ds \<inter> set (si_basewhitelist s) = {}"
    using assms(2,3) b(3) dep_texts_known [OF b(4)] by auto
  from dump_deps [OF this, of "[]" "[(task, data)]"] obtain gd' vv where
    dd: "rfold (dump_dep gd vals (si_basewhitelist s)) ds ([], [(task, data)]) = Inr (gd', vv)"
      "\<forall>d. map_of vv d = (if d \<in> set ds then map_of vals d else map_of [(task, data)] d)" by blast
  have vv: "map_of vv task = Some data" "\<And>d. d \<in> set ds \<Longrightarrow> map_of vv d = map_of vals d"
    using dd(2) b(2) by auto
  from dump_hashes [OF c(1), of "[]"] obtain hs where
    hs: "rfold (\<lambda>dep hs. rbind (dget (si_taskhash s) dep) (\<lambda>h. Inr (dset dep h hs))) kept [] = Inr hs"
      "\<forall>d \<in> set kept. map_of hs d = map_of (si_taskhash s) d" by auto
  define h where "h = se_md5 env (hash_text s (se_md5 env tx) kept fcs
        ((if is_nostamp (hc_cache c) fn task then hc_uuid c else []) @ file_taint (se_files env) task stampbase))"
  define run where "run = \<lparr>sr_runtaskdeps = kept, sr_checksums = map (\<lambda>(f, cs). (basename f, cs)) fcs, sr_hashes = hs, sr_taskhash = h\<rparr>"
  define sd where "sd = \<lparr>sd_task = task, sd_basewhitelist = si_basewhitelist s, sd_taskwhitelist = si_taskwhitelist s,
        sd_taskdeps = ds, sd_basehash = se_md5 env tx, sd_gendeps = gd', sd_varvals = vv, sd_run = Some run, sd_taint = ?taint\<rparr>"
  have th: "map_of (si_taskhash s) ?k = Some h" using h(1) by (simp add: h_def)
  have "dump_run s ?k h = Inr run"
    using c(2,3) hs(1) by (simp add: dump_run_def run_def dget_found)
  moreover have "calc_basehash (se_md5 env) sd = Inr (se_md5 env tx)"
    using vv(1) dep_texts_cong [of ds vv vals "or_empty data", OF vv(2)] b(4)
    by (simp add: calc_basehash_def sd_def dget_found)
  moreover have "calc_taskhash (se_md5 env) sd = Inr h"
  proof -
    have "rfold (run_hash_text run) kept (se_md5 env tx) =
        Inr (se_md5 env tx @ concat (map (\<lambda>d. dget_or (si_taskhash s) d []) kept))"
      by (rule run_hash_text_all [OF _ c(1)]) (use hs(2) in \<open>simp add: run_def\<close>)
    moreover have "\<forall>x \<in> set fcs. snd x \<noteq> None" using assms(13) c(3) by (simp add: dget_or_def)
    note checksum_text_all [OF this]
    moreover have "taint_text ?taint =
        (if is_nostamp (hc_cache c) fn task then hc_uuid c else []) @ file_taint (se_files env) task stampbase"
      by (rule dump_taint_text [OF h(2) refl assms(11,12)])
    ultimately show ?thesis
      by (simp add: calc_taskhash_def sd_def run_def h_def hash_text_def)
  qed
  moreover have srt: "sr_taskhash run = h" by (simp add: run_def)
  ultimately have "dump_sigtask env s fn task stampbase RunTime =
      Inr (stampbase @ ''.'' @ task @ ''.sigdata.'' @ h, sd, True, True)"
    using b(1,2,5) th assms(4,5,6) dd(1) srt
    by (simp add: dump_sigtask_def sigfile_name_def dget_found Let_def flip: sd_def)
  with th show ?thesis by blast
qed

section \<open>Stamps of a task\<close>

lemma rstrip_dots_end: "e \<noteq> [] \<Longrightarrow> CHR ''.'' \<notin> set e \<Longrightarrow> rstrip_dots (s @ e) = s @ e"
  by (cases e rule: rev_cases) (auto simp: rstrip_dots_def)

lemma rstrip_dots_dot: "rstrip_dots (s @ ''.'') = rstrip_dots s"
  by (simp add: rstrip_dots_def)

text \<open>A part of a name: not empty, without dots, slashes and the characters of patterns.\<close>

definition plain_word :: "string \<Rightarrow> bool" where
  "plain_word w \<longleftrightarrow> w \<noteq> [] \<and> CHR ''.'' \<notin> set w \<and> CHR ''/'' \<notin> set w \<and> \<not> list_ex magic w"

definition stamp_tail :: "string \<Rightarrow> string \<Rightarrow> string \<Rightarrow> string" where
  "stamp_tail t h e = ''.'' @ t @ ''.'' @ h @ (if e = [] then [] else ''.'' @ e)"

lemma stamp_name:
  assumes "h \<noteq> []" "CHR ''.'' \<notin> set h" "e = [] \<or> plain_word e"
  shows "rstrip_dots (base @ ''.'' @ t @ ''.'' @ h @ ''.'' @ e) = base @ stamp_tail t h e"
proof (cases "e = []")
  case True
  have "rstrip_dots ((base @ ''.'' @ t @ ''.'' @ h) @ ''.'') = rstrip_dots ((base @ ''.'' @ t @ ''.'') @ h)"
    using rstrip_dots_dot [of "base @ ''.'' @ t @ ''.'' @ h"] by simp
  also have "\<dots> = (base @ ''.'' @ t @ ''.'') @ h" using assms(1,2) by (rule rstrip_dots_end)
  finally show ?thesis by (simp add: True stamp_tail_def)
next
  case False
  with assms(3) have "rstrip_dots ((base @ ''.'' @ t @ ''.'' @ h @ ''.'') @ e) = (base @ ''.'' @ t @ ''.'' @ h @ ''.'') @ e"
    by (intro rstrip_dots_end) (simp_all add: plain_word_def)
  then show ?thesis by (simp add: stamp_tail_def False)
qed

lemma split_on_last_part:
  assumes "c \<notin> set y"
  shows "split_on c (b @ y) = butlast (split_on c b) @ [last (split_on c b) @ y]"
proof (induction b)
  case Nil
  from split_on_single [OF assms] show ?case by simp
next
  case (Cons x b)
  obtain w ws where w: "split_on c b = w # ws" by (cases "split_on c b") (use split_on_ne in auto)
  show ?case
  proof (cases "x = c")
    case False
    with Cons w show ?thesis by (cases ws) auto
  qed (use Cons w in simp)
qed

lemma glob_plain_parts:
  assumes "\<forall>w \<in> set ws. \<not> list_ex magic w"
  shows "list_all2 glob_part ws ws"
  using assms by (induction ws) (auto simp: glob_part_def)

text \<open>The names below one directory that a pattern with a star in its last part matches.\<close>

lemma glob_match_tail:
  assumes "\<not> list_ex magic b" "CHR ''/'' \<notin> set x" "CHR ''/'' \<notin> set y" "list_ex magic x"
    "y \<noteq> []" "hd (last (split_on CHR ''/'' b) @ y) = CHR ''.'' \<longrightarrow> hd (last (split_on CHR ''/'' b) @ x) = CHR ''.''"
  shows "glob_match (b @ x) (b @ y) \<longleftrightarrow> fnmatch (last (split_on CHR ''/'' b) @ y) (last (split_on CHR ''/'' b) @ x)"
proof -
  let ?l = "last (split_on CHR ''/'' b)"
  have p: "\<forall>w \<in> set (butlast (split_on CHR ''/'' b)). \<not> list_ex magic w"
    using split_on_slash_plain [OF assms(1)] by (meson in_set_butlastD)
  have s: "startswith (z # zs) ''.'' \<longleftrightarrow> z = CHR ''.''" for z zs by (auto simp: startswith_def)
  have dot: "startswith (?l @ y) ''.'' \<longrightarrow> startswith (?l @ x) ''.''"
    using assms(4,5,6) by (cases "?l @ y"; cases "?l @ x") (auto simp: s)
  have m: "list_ex magic (?l @ x)" "?l @ y \<noteq> []" using assms(4,5) by auto
  have "glob_part (?l @ x) (?l @ y) \<longleftrightarrow> fnmatch (?l @ y) (?l @ x)"
    unfolding glob_part_def using dot m by simp
  then show ?thesis
    using glob_plain_parts [OF p]
    by (simp add: glob_match_def split_on_last_part [OF assms(2)] split_on_last_part [OF assms(3)] list_all2_append)
qed

lemma no_sep_unique:
  assumes "c \<notin> set a" "c \<notin> set b" "a @ c # x = b @ c # y"
  shows "a = b \<and> x = y"
  using assms
proof (induction a arbitrary: b)
  case Nil
  then show ?case by (cases b) auto
next
  case (Cons z a)
  then show ?case by (cases b) auto
qed

lemma dot_tails_unique:
  assumes "CHR ''.'' \<notin> set h" "e = [] \<or> CHR ''.'' \<notin> set e" "CHR ''.'' \<notin> set e'" "e' \<noteq> []"
    "h @ (if e = [] then [] else CHR ''.'' # e) = m @ CHR ''.'' # e'"
  shows "m = h \<and> e = e'"
proof (cases "e = []")
  case True
  with assms(1,5) show ?thesis by auto
next
  case False
  with assms(5) have "rev (h @ CHR ''.'' # e) = rev (m @ CHR ''.'' # e')" by simp
  then have "rev e @ CHR ''.'' # rev h = rev e' @ CHR ''.'' # rev m" by simp
  with no_sep_unique [of "CHR ''.''" "rev e" "rev e'" "rev h" "rev m"] assms(2,3) False show ?thesis by auto
qed

lemma stamp_tail_match:
  assumes "\<not> list_ex magic base" "plain_word t" "plain_word u" "plain_word h" "e = [] \<or> plain_word e" "f = [] \<or> plain_word f"
  shows "glob_match (base @ stamp_tail t ''*'' e) (base @ stamp_tail u h f) \<longleftrightarrow> t = u \<and> (e = [] \<or> e = f)"
proof -
  let ?l = "last (split_on CHR ''/'' base)" and ?q = "\<lambda>e. if e = [] then [] else CHR ''.'' # e"
  have l: "\<not> list_ex magic ?l" using split_on_slash_plain [OF assms(1)] by (metis last_in_set split_on_ne)
  have x: "CHR ''/'' \<notin> set (stamp_tail t ''*'' e)" "CHR ''/'' \<notin> set (stamp_tail u h f)" "list_ex magic (stamp_tail t ''*'' e)"
    using assms(2-6) by (auto simp: stamp_tail_def plain_word_def magic_def)
  have hd: "hd (?l @ stamp_tail u h f) = hd (?l @ stamp_tail t ''*'' e)" by (cases ?l) (simp_all add: stamp_tail_def)
  have "glob_match (base @ stamp_tail t ''*'' e) (base @ stamp_tail u h f) \<longleftrightarrow>
      fnmatch (?l @ stamp_tail u h f) (?l @ stamp_tail t ''*'' e)"
    by (rule glob_match_tail [OF assms(1) x]) (simp_all add: hd, simp add: stamp_tail_def)
  also have "\<dots> \<longleftrightarrow> fnmatch (?l @ stamp_tail u h f) ((?l @ ''.'' @ t @ ''.'') @ CHR ''*'' # ?q e)"
    by (simp add: stamp_tail_def)
  also have "\<dots> \<longleftrightarrow> (\<exists>m. ?l @ stamp_tail u h f = (?l @ ''.'' @ t @ ''.'') @ m @ ?q e)"
    by (rule fnmatch_star) (use l assms(2,5) in \<open>auto simp: plain_word_def magic_def\<close>)
  also have "\<dots> \<longleftrightarrow> (\<exists>m. u @ CHR ''.'' # h @ ?q f = t @ CHR ''.'' # m @ ?q e)"
    by (simp add: stamp_tail_def)
  also have "\<dots> \<longleftrightarrow> (\<exists>m. u = t \<and> h @ ?q f = m @ ?q e)"
  proof -
    have "CHR ''.'' \<notin> set u" "CHR ''.'' \<notin> set t" using assms(2,3) by (simp_all add: plain_word_def)
    then have "u @ CHR ''.'' # a = t @ CHR ''.'' # b \<longleftrightarrow> u = t \<and> a = b" for a b
      using no_sep_unique [of "CHR ''.''" u t a b] by blast
    then show ?thesis by (simp only:)
  qed
  also have "\<dots> \<longleftrightarrow> t = u \<and> (e = [] \<or> e = f)"
  proof (cases "e = []")
    case False
    have "m = h \<and> f = e" if "h @ ?q f = m @ ?q e" for m
    proof -
      have "CHR ''.'' \<notin> set h" "f = [] \<or> CHR ''.'' \<notin> set f" "CHR ''.'' \<notin> set e"
        using assms(4,5,6) False by (auto simp: plain_word_def)
      from dot_tails_unique [OF this False, of m] that False show ?thesis by simp
    qed
    then have "(\<exists>m. h @ ?q f = m @ ?q e) \<longleftrightarrow> f = e" by blast
    with False show ?thesis by blast
  qed auto
  finally show ?thesis .
qed

section \<open>Properties\<close>

lemma dep_texts_value:
  "rfold (dep_text vals) ds data = Inr tx \<Longrightarrow> tx = data @ concat (map (\<lambda>d. d @ or_empty (dget_or vals d None)) ds)"
proof (induction ds arbitrary: data)
  case (Cons d ds)
  from Cons.prems obtain data' where d: "dep_text vals d data = Inr data'" "rfold (dep_text vals) ds data' = Inr tx"
    by (auto simp: rbind_eq_Inr)
  from d(1) obtain v where "map_of vals d = Some v" "data' = data @ d @ or_empty v"
    by (auto simp: dep_text_def rbind_eq_Inr)
  note v = this(1) d(2) [unfolded this(2)]
  from Cons.IH [OF v(2)] v(1) show ?case by (simp add: dget_or_def)
qed simp

lemma not_fuel_simps: "dget d k \<noteq> Inl OutOfFuel" "rfold (dep_text vals) ds data \<noteq> Inl OutOfFuel"
proof -
  show d: "dget d k \<noteq> Inl OutOfFuel" for d :: "(string \<times> 'b) list" and k by (simp add: dget_def split: option.splits)
  show "rfold (dep_text vals) ds data \<noteq> Inl OutOfFuel"
    by (induction ds arbitrary: data) (auto simp: rbind_eq_Inl dep_text_def d)
qed

lemma base_task_fuel: "base_task md5 fn vals t (s, gd, td) \<noteq> Inl OutOfFuel"
proof -
  let ?wl = "si_basewhitelist s"
  have "deps_loop (Suc (length gd')) ?wl gd' (without ?wl ds) [] \<noteq> Inl OutOfFuel" for gd' ds
  proof (rule deps_loop_fuel)
    show "card (set (keys gd') - set []) < Suc (length gd')"
      using card_length [of "keys gd'"] by (simp add: keys_def)
  qed auto
  then show ?thesis
    by (auto simp: base_task_def Let_def rbind_eq_Inl not_fuel_simps)
qed

lemma base_tasks_fuel: "rfold (base_task md5 fn vals) ts x \<noteq> Inl OutOfFuel"
proof (induction ts arbitrary: x)
  case (Cons t ts)
  obtain s gd td where "x = (s, gd, td)" by (cases x)
  with Cons base_task_fuel [of md5 fn vals t s gd td] show ?case by (auto simp: rbind_eq_Inl)
qed simp

text \<open>
  C25. The search for the variables of a task always ends.  The dependencies of a task are, sorted,
  exactly the variables that it refers to directly or through other variables, leaving out those
  of the whitelist and what only they refer to; the base hash covers its value and the names and
  values of these variables.
\<close>

theorem base_hash_exact:
  "build_data md5 fn tasklist gendeps lookupcache s \<noteq> Inl OutOfFuel \<and>
    (\<forall>s' taskdeps. \<forall>task \<in> set tasklist. build_data md5 fn tasklist gendeps lookupcache s = Inr (s', taskdeps) \<longrightarrow>
      (\<exists>ds data. map_of taskdeps task = Some ds \<and> sorted ds \<and> distinct ds \<and>
        set ds = {y. (task, y) \<in> (ref_rel (si_basewhitelist s) gendeps)\<^sup>+} \<and> map_of lookupcache task = Some data \<and>
        map_of (si_basehash s') (sig_key fn task) =
          Some (md5 (or_empty data @ concat (map (\<lambda>d. d @ or_empty (dget_or lookupcache d None)) ds)))))"
proof (intro conjI allI ballI impI)
  show "build_data md5 fn tasklist gendeps lookupcache s \<noteq> Inl OutOfFuel"
    using base_tasks_fuel [of md5 fn lookupcache tasklist "(s, gendeps, [])"] by (auto simp: build_data_def rbind_eq_Inl)
next
  fix s' taskdeps task
  assume t: "task \<in> set tasklist" and b: "build_data md5 fn tasklist gendeps lookupcache s = Inr (s', taskdeps)"
  from build_data_result(1) [OF b] t obtain ds data tx where
    d: "map_of taskdeps task = Some ds" "map_of lookupcache task = Some data" "sorted ds" "distinct ds"
      "set ds = {y. (task, y) \<in> (ref_rel (si_basewhitelist s) gendeps)\<^sup>+}"
      "rfold (dep_text lookupcache) ds (or_empty data) = Inr tx" "map_of (si_basehash s') (sig_key fn task) = Some (md5 tx)"
    unfolding base_ok_def by blast
  with dep_texts_value [OF d(6)]
  show "\<exists>ds data. map_of taskdeps task = Some ds \<and> sorted ds \<and> distinct ds \<and>
        set ds = {y. (task, y) \<in> (ref_rel (si_basewhitelist s) gendeps)\<^sup>+} \<and> map_of lookupcache task = Some data \<and>
        map_of (si_basehash s') (sig_key fn task) =
          Some (md5 (or_empty data @ concat (map (\<lambda>d. d @ or_empty (dget_or lookupcache d None)) ds)))"
    by blast
qed

text \<open>A task that refers to one variable, which refers to a second and to one of the whitelist.\<close>

lemma base_hash_exact_witness:
  "\<exists>s' taskdeps. build_data id ''f'' [''do_a''] [(''do_a'', [''B'']), (''B'', [''C'', ''W'']), (''C'', []), (''W'', [])]
      [(''do_a'', Some ''x''), (''B'', Some ''1''), (''C'', None), (''W'', Some ''w'')] (init_siggen (Some ''W'') None) = Inr (s', taskdeps) \<and>
    map_of (si_basehash s') ''f.do_a'' = Some ''xB1C''"
proof -
  let ?g = "[(''do_a'', [''B'']), (''B'', [''C'', ''W'']), (''C'', []), (''W'', [])]"
  let ?v = "[(''do_a'', Some ''x''), (''B'', Some ''1''), (''C'', None), (''W'', Some ''w'')]"
  let ?b = "build_data id ''f'' [''do_a''] ?g ?v (init_siggen (Some ''W'') None)"
  have "case ?b of Inl e \<Rightarrow> False | Inr (s', td) \<Rightarrow> map_of td ''do_a'' = Some [''B'', ''C'']" by code_simp
  then obtain s' td where r: "?b = Inr (s', td)" "map_of td ''do_a'' = Some [''B'', ''C'']"
    by (cases ?b) (auto split: prod.splits)
  from base_hash_exact [of id "''f''" "[''do_a'']" ?g ?v "init_siggen (Some ''W'') None"] r
  have "map_of (si_basehash s') ''f.do_a'' = Some ''xB1C''" by (auto simp: sig_key_def or_empty_def dget_or_def)
  with r(1) show ?thesis by blast
qed

text \<open>
  C24. After the base hashes of a recipe have been built and all tasks have been hashed, each once,
  the signature file of a task can be written, it is found consistent, and it has the task hash in
  its name: the base hash and the task hash computed from its contents are the stored ones.  The
  cache of the recipe must hold the base hash that was built, the task must not be both without
  stamp and tainted by a file (then the hashes differ), its taint must not look like that of a task
  without stamp, and all its files must have checksums.
\<close>

theorem signature_files_consistent:
  assumes "build_data (se_md5 env) fn tasklist gendeps lookupcache (init_siggen basewhitelist taskwhitelist) = Inr (s0, taskdeps)"
    "hash_all env calls s0 = Inr s" "distinct (map call_key calls)" "c \<in> set calls" "hc_fn c = fn" "hc_task c \<in> set tasklist"
    "map_of (basetaskhash (hc_cache c)) (call_key c) = map_of (si_basehash s0) (call_key c)"
    "map_of (cd_stamp (hc_cache c)) fn = Some stampbase"
    "\<not> is_nostamp (hc_cache c) fn (hc_task c) \<or> file_taint (se_files env) (hc_task c) stampbase = []"
    "\<not> occurs (file_taint (se_files env) (hc_task c) stampbase) ''nostamp:''"
    "\<forall>x \<in> set (dget_or (si_file_checksum_values s) (call_key c) []). snd x \<noteq> None"
  shows "\<exists>sd h. dump_sigtask env s fn (hc_task c) stampbase RunTime =
      Inr (stampbase @ ''.'' @ hc_task c @ ''.sigdata.'' @ h, sd, True, True) \<and> map_of (si_taskhash s) (call_key c) = Some h"
proof -
  let ?s = "init_siggen basewhitelist taskwhitelist" and ?task = "hc_task c"
  let ?wl = "si_basewhitelist ?s"
  let ?reach = "\<lambda>t. {y. (t, y) \<in> (ref_rel ?wl gendeps)\<^sup>+}"
  note b = build_data_result [OF assms(1)]
  from b(3) obtain gd' where gd: "same_refs ?wl gendeps gd'" "s0 = ?s\<lparr>si_basehash := si_basehash s0,
        si_taskdeps := dset fn taskdeps (si_taskdeps ?s), si_gendeps := dset fn gd' (si_gendeps ?s),
        si_lookupcache := dset fn lookupcache (si_lookupcache ?s)\<rparr>" by blast
  have e: "si_taskhash s0 = []" "si_taints s0 = []" "si_taskdeps s0 = [(fn, taskdeps)]" "si_gendeps s0 = [(fn, gd')]"
    "si_lookupcache s0 = [(fn, lookupcache)]" "si_basewhitelist s0 = ?wl"
    by (subst gd(2), simp add: init_siggen_def dset_def)+
  from hash_all_inv [OF assms(2,3) e(1,2)] have i: "same_static s0 s" "call_ok env s c"
    using assms(4) by (simp_all add: calls_inv_def)
  have st: "map_of (si_taskdeps s) fn = Some taskdeps" "map_of (si_gendeps s) fn = Some gd'"
    "map_of (si_lookupcache s) fn = Some lookupcache" "si_basewhitelist s = ?wl"
    using i(1) by (simp_all add: same_static_def e)
  have bh: "map_of (si_basehash s) (sig_key fn ?task) = map_of (si_basehash s0) (sig_key fn ?task)"
    using i(2) assms(7) by (auto simp: call_ok_def call_key_def assms(5) Let_def)
  have "base_ok (se_md5 env) fn lookupcache ?reach (si_basehash s) taskdeps ?task"
    using b(1) assms(6) by (auto simp: base_ok_def bh)
  moreover have "?reach ?task \<inter> set (si_basewhitelist s) = {}"
    using reach_not_whitelisted [of ?task _ ?wl gendeps] by (auto simp: st(4))
  moreover have "?reach ?task \<subseteq> set (keys gd')" using b(4) assms(6) gd(1) by (auto simp: same_refs_def)
  ultimately show ?thesis
    using dump_sigtask_consistent [OF _ _ _ st(1,3,2) i(2) assms(5) refl assms(8,9,10)] assms(11)
    by (simp add: call_key_def assms(5))
qed

text \<open>A recipe with two tasks, the second of which depends on the first, is tainted and has a file.\<close>

definition sig_example_env :: sig_env where
  "sig_example_env = \<lparr>se_md5 = \<lambda>s. ''h'' @ s, se_search = \<lambda>_ _. False, se_checksums = \<lambda>_ _. [(''d/x'', Some ''c'')],
     se_uuid = [], se_files = [(''s/f.do_b.taint'', 1, ''t'')]\<rparr>"

definition sig_example_cache :: cache_data where
  "sig_example_cache = init_cacheData\<lparr>basetaskhash := [(''/r/f.do_a'', ''hx''), (''/r/f.do_b'', ''hyV1'')], pkg_fn := [(''/r/f'', ''p'')],
     cd_file_checksums := [(''/r/f'', [(''do_b'', ''x'')])], cd_stamp := [(''/r/f'', ''s/f'')],
     cd_task_deps := [(''/r/f'', \<lparr>tasks = [], parents = [], tflags = []\<rparr>)]\<rparr>"

definition sig_example_call :: "string \<Rightarrow> string list \<Rightarrow> hash_call" where
  "sig_example_call task deps = \<lparr>hc_uuid = ''u'', hc_cache = sig_example_cache, hc_fn = ''/r/f'', hc_task = task, hc_deps = deps\<rparr>"

lemma signature_files_consistent_witness:
  "\<exists>s0 taskdeps s sd h. build_data (se_md5 sig_example_env) ''/r/f'' [''do_a'', ''do_b''] [(''do_a'', []), (''do_b'', [''V'']), (''V'', [])]
      [(''do_a'', Some ''x''), (''do_b'', Some ''y''), (''V'', Some ''1'')] (init_siggen None None) = Inr (s0, taskdeps) \<and>
    hash_all sig_example_env [sig_example_call ''do_a'' [], sig_example_call ''do_b'' [''/r/f.do_a'']] s0 = Inr s \<and>
    dump_sigtask sig_example_env s ''/r/f'' ''do_b'' ''s/f'' RunTime = Inr (''s/f.do_b.sigdata.'' @ h, sd, True, True) \<and> h = ''hhyV1hhxct''"
proof -
  let ?g = "[(''do_a'', []), (''do_b'', [''V'']), (''V'', [])]" and ?v = "[(''do_a'', Some ''x''), (''do_b'', Some ''y''), (''V'', Some ''1'')]"
  let ?b = "build_data (se_md5 sig_example_env) ''/r/f'' [''do_a'', ''do_b''] ?g ?v (init_siggen None None)"
  let ?calls = "[sig_example_call ''do_a'' [], sig_example_call ''do_b'' [''/r/f.do_a'']]" and ?c = "sig_example_call ''do_b'' [''/r/f.do_a'']"
  have "case ?b of Inl e \<Rightarrow> False | Inr (s0, td) \<Rightarrow> map_of (si_basehash s0) ''/r/f.do_b'' = Some ''hyV1'' \<and>
      (case hash_all sig_example_env ?calls s0 of Inl e \<Rightarrow> False
       | Inr s \<Rightarrow> map_of (si_taskhash s) ''/r/f.do_b'' = Some ''hhyV1hhxct'' \<and>
           dget_or (si_file_checksum_values s) ''/r/f.do_b'' [] = [(''d/x'', Some ''c'')])"
    by code_simp
  then obtain s0 td s where r: "?b = Inr (s0, td)" "hash_all sig_example_env ?calls s0 = Inr s" and
    v: "map_of (si_basehash s0) ''/r/f.do_b'' = Some ''hyV1''" "map_of (si_taskhash s) ''/r/f.do_b'' = Some ''hhyV1hhxct''"
      "dget_or (si_file_checksum_values s) ''/r/f.do_b'' [] = [(''d/x'', Some ''c'')]"
    by (auto split: sum.splits prod.splits)
  have k: "call_key ?c = ''/r/f.do_b''" "hc_task ?c = ''do_b''" "hc_fn ?c = ''/r/f''" "hc_cache ?c = sig_example_cache"
    by (simp_all add: call_key_def sig_key_def sig_example_call_def)
  have "distinct (map call_key ?calls)" by (simp add: call_key_def sig_key_def sig_example_call_def)
  moreover have "map_of (basetaskhash sig_example_cache) ''/r/f.do_b'' = map_of (si_basehash s0) ''/r/f.do_b''"
    by (simp add: v(1) sig_example_cache_def)
  moreover have "map_of (cd_stamp sig_example_cache) ''/r/f'' = Some ''s/f''" by (simp add: sig_example_cache_def)
  moreover have "\<not> is_nostamp sig_example_cache ''/r/f'' ''do_b''"
    by (simp add: is_nostamp_def sig_example_cache_def task_flag_def)
  moreover have "\<not> occurs (file_taint (se_files sig_example_env) ''do_b'' ''s/f'') ''nostamp:''" by code_simp
  ultimately have "\<exists>sd h. dump_sigtask sig_example_env s ''/r/f'' ''do_b'' ''s/f'' RunTime =
      Inr (''s/f'' @ ''.'' @ ''do_b'' @ ''.sigdata.'' @ h, sd, True, True) \<and> map_of (si_taskhash s) ''/r/f.do_b'' = Some h"
    using signature_files_consistent [OF r, of ?c "''s/f''"] v(3) by (simp add: k)
  with r v(2) show ?thesis by auto
qed

text \<open>
  C26. The mask that finds the old stamps of a task matches a stamp of the same recipe, whatever
  its hash, exactly if it is a stamp of this task and, where the mask has extra information, with
  the same one: no stamp of another task is removed, and no old stamp of this one is left.
\<close>

theorem stamp_mask_exact:
  assumes "\<not> list_ex magic base" "plain_word t" "plain_word u" "e = [] \<or> plain_word e" "f = [] \<or> plain_word f"
    "\<forall>h \<in> set (dvals (si_taskhash s)) \<union> set (dvals (si_basehash s)). plain_word h"
    "hash_stampfile s True base fn t e = Inr pat" "hash_stampfile s False base fn u f = Inr stamp"
  shows "glob_match pat stamp \<longleftrightarrow> t = u \<and> (e = [] \<or> e = f)"
proof -
  have m: "pat = base @ stamp_tail t ''*'' e"
    using assms(7) stamp_name [OF _ _ assms(4), of "''*''" base t] by (auto simp: hash_stampfile_def Let_def)
  from assms(8) obtain k h where h: "map_of (si_taskhash s) k = Some h \<or> map_of (si_basehash s) k = Some h"
    "stamp = rstrip_dots (base @ ''.'' @ u @ ''.'' @ h @ ''.'' @ f)"
    by (auto simp: hash_stampfile_def Let_def rbind_eq_Inr split: option.splits)
  then have "h \<in> set (dvals (si_taskhash s)) \<union> set (dvals (si_basehash s))"
    unfolding dvals_def by (auto dest!: map_of_SomeD simp: rev_image_eqI)
  with assms(6) have p: "plain_word h" by blast
  with stamp_name [OF _ _ assms(5), of h base u] h(2) have "stamp = base @ stamp_tail u h f" by (simp add: plain_word_def)
  with m stamp_tail_match [OF assms(1,2,3) p assms(4,5)] show ?thesis by simp
qed

lemma stamp_mask_exact_witness:
  "\<exists>pat stamp. hash_stampfile (init_siggen None None\<lparr>si_taskhash := [(''f.do_a'', ''12''), (''f.do_ab'', ''34'')]\<rparr>) True ''s/f'' ''f'' ''do_a'' [] = Inr pat \<and>
    hash_stampfile (init_siggen None None\<lparr>si_taskhash := [(''f.do_a'', ''12''), (''f.do_ab'', ''34'')]\<rparr>) False ''s/f'' ''f'' ''do_ab'' [] = Inr stamp \<and>
    \<not> glob_match pat stamp"
proof -
  let ?s = "init_siggen None None\<lparr>si_taskhash := [(''f.do_a'', ''12''), (''f.do_ab'', ''34'')]\<rparr>"
  have r: "hash_stampfile ?s True ''s/f'' ''f'' ''do_a'' [] = Inr ''s/f.do_a.*''"
    "hash_stampfile ?s False ''s/f'' ''f'' ''do_ab'' [] = Inr ''s/f.do_ab.34''" by code_simp+
  have p: "\<not> list_ex magic ''s/f''" "plain_word ''do_a''" "plain_word ''do_ab''"
    "\<forall>h \<in> set (dvals (si_taskhash ?s)) \<union> set (dvals (si_basehash ?s)). plain_word h"
    by (simp_all add: magic_def plain_word_def init_siggen_def dvals_def)
  from stamp_mask_exact [OF p(1,2,3) _ _ p(4) r] r show ?thesis by simp
qed

end
