(* ===== verification/Sig_Compare.thy ===== *)
theory Sig_Compare
  imports Siggen "HOL-Library.Multiset"
begin

text \<open>
  The comparison of two signature files (\<open>compare_sigfiles\<close> of
  \<^verbatim>\<open>bitbake/lib/bb/siggen.py\<close>).  A line of the output is a constructor with the
  values that the line prints.  Sets are compared as sets; where the code iterates over a set the
  model takes the order of the dictionary that the set was made of.
\<close>

section \<open>Lines\<close>

datatype sig_line =
    BaseWhitelistChanged "string list" "string list"
  | TaskWhitelistChanged "string option" "string option"
  | ChangedItems "string list"
  | TaskDepsChanged "string list" "string list"
  | BaseHashChanged string string
  | VarDepsChanged string "string list" "string list"
  | VarDepAdded string
  | VarDepRemoved string
  | VarChanged string "string option" "string option"
  | ChecksumChanged string "string option" "string option"
  | ChecksumAdded string
  | ChecksumRemoved string
  | RunDepsChanged "string list" "string list"
  | RunDepsNumber
  | RunDepChanged string string string string
  | TaskAdded string string
  | TaskRemoved string string
  | TaskHashChanged string string string
  | TaintChanged "string option" "string option"

definition symmetric_difference :: "string list \<Rightarrow> string list \<Rightarrow> string list" where
  "symmetric_difference a b = filter (\<lambda>x. x \<notin> set b) a @ filter (\<lambda>x. x \<notin> set a) b"

section \<open>Differences\<close>

text \<open>The keys that changed, that were added and that were removed; \<open>eq\<close> compares values.\<close>

definition dict_diff :: "('v \<Rightarrow> 'v \<Rightarrow> bool) \<Rightarrow> (string \<times> 'v) list \<Rightarrow> (string \<times> 'v) list \<Rightarrow> string list \<Rightarrow>
    string list \<times> string list \<times> string list" where
  "dict_diff eq a b wl =
     (filter (\<lambda>i. i \<notin> set wl \<and> (case (map_of a i, map_of b i) of (Some x, Some y) \<Rightarrow> \<not> eq x y | _ \<Rightarrow> False)) (keys a),
      filter (\<lambda>i. i \<notin> set (keys a)) (keys b),
      filter (\<lambda>i. i \<notin> set (keys b)) (keys a))"

text \<open>\<open>Counter(a)\<close> after \<open>subtract(b)\<close>, and the items it still counts, in order.\<close>

definition counter_minus :: "'x list \<Rightarrow> 'x list \<Rightarrow> 'x \<Rightarrow> int" where
  "counter_minus a b x = int (count_list a x) - int (count_list b x)"

fun counted :: "('x \<Rightarrow> int) \<Rightarrow> 'x list \<Rightarrow> 'x list" where
  "counted c [] = []"
| "counted c (x # xs) = (if c x > 0 then x # counted (c(x := c x - 1)) xs else counted c xs)"

type_synonym checksum_diff =
  "(string \<times> string option \<times> string option) list \<times> (string \<times> string option) list \<times> (string \<times> string option) list"

definition match_removed :: "string \<times> string option \<Rightarrow> checksum_diff \<Rightarrow> checksum_diff" where
  "match_removed x = (\<lambda>(changed, added, removed). case find (\<lambda>y. fst y = fst x) added of
     Some y \<Rightarrow> (changed @ [(fst x, snd x, snd y)], remove1 y added, removed)
   | None \<Rightarrow> (changed, added, removed @ [x]))"

definition file_checksums_diff :: "(string \<times> string option) list \<Rightarrow> (string \<times> string option) list \<Rightarrow>
    (string \<times> string option \<times> string option) list \<times> string list \<times> string list" where
  "file_checksums_diff a b =
     (let (changed, added, removed) =
        fold match_removed (counted (counter_minus a b) a) ([], counted (counter_minus b a) b, [])
      in (changed, map fst added, map fst removed))"

section \<open>The comparison\<close>

definition whitelist_lines :: "sigdata \<Rightarrow> sigdata \<Rightarrow> sig_line list" where
  "whitelist_lines a b =
     (if set (sd_basewhitelist a) \<noteq> set (sd_basewhitelist b)
      then BaseWhitelistChanged (sd_basewhitelist a) (sd_basewhitelist b) #
        (if sd_basewhitelist a \<noteq> [] \<and> sd_basewhitelist b \<noteq> []
         then [ChangedItems (symmetric_difference (sd_basewhitelist a) (sd_basewhitelist b))] else [])
      else [])"

text \<open>The whitelist of tasks is a string, which has no \<open>symmetric_difference\<close>.\<close>

definition taskwhitelist_lines :: "sigdata \<Rightarrow> sigdata \<Rightarrow> sig_line list res" where
  "taskwhitelist_lines a b =
     (if sd_taskwhitelist a \<noteq> sd_taskwhitelist b
      then if or_empty (sd_taskwhitelist a) \<noteq> [] \<and> or_empty (sd_taskwhitelist b) \<noteq> [] then Inl AttributeError
        else Inr [TaskWhitelistChanged (sd_taskwhitelist a) (sd_taskwhitelist b)]
      else Inr [])"

definition gendeps_lines :: "sigdata \<Rightarrow> sigdata \<Rightarrow> sig_line list" where
  "gendeps_lines a b =
     (let wl = filter (\<lambda>x. x \<in> set (sd_basewhitelist b)) (sd_basewhitelist a);
          (changed, added, removed) = dict_diff (\<lambda>x y. set x = set y) (sd_gendeps a) (sd_gendeps b) wl
      in concat (map (\<lambda>dep. let x = dget_or (sd_gendeps a) dep []; y = dget_or (sd_gendeps b) dep [] in
           VarDepsChanged dep x y # (if x \<noteq> [] \<and> y \<noteq> [] then [ChangedItems (symmetric_difference x y)] else [])) changed)
         @ map VarDepAdded added @ map VarDepRemoved removed)"

definition varvals_lines :: "sigdata \<Rightarrow> sigdata \<Rightarrow> sig_line list" where
  "varvals_lines a b = map (\<lambda>dep. VarChanged dep (dget_or (sd_varvals a) dep None) (dget_or (sd_varvals b) dep None))
     (fst (dict_diff (=) (sd_varvals a) (sd_varvals b) []))"

definition checksum_lines :: "(string \<times> string option) list \<Rightarrow> (string \<times> string option) list \<Rightarrow> sig_line list" where
  "checksum_lines a b = (let (changed, added, removed) = file_checksums_diff a b in
     map (\<lambda>(f, old, new). ChecksumChanged f old new) changed @ map ChecksumAdded added @ map ChecksumRemoved removed)"

text \<open>The tasks a task depends on, compared by position.\<close>

definition rundep_line :: "(string \<times> string) list \<Rightarrow> (string \<times> string) list \<Rightarrow> string \<times> string \<Rightarrow> sig_line list res" where
  "rundep_line ahash bhash = (\<lambda>(a, b).
     rbind (dget ahash a) (\<lambda>x. rbind (dget bhash b) (\<lambda>y. Inr (if x \<noteq> y then [RunDepChanged a x b y] else []))))"

definition rundeps_lines :: "string list \<Rightarrow> string list \<Rightarrow> (string \<times> string) list \<Rightarrow> (string \<times> string) list \<Rightarrow>
    sig_line list res" where
  "rundeps_lines adeps bdeps ahash bhash =
     rbind (if length adeps \<noteq> length bdeps then Inr [RunDepsNumber]
       else rbind (rmap (rundep_line ahash bhash) (zip adeps bdeps)) (\<lambda>ls. Inr (concat ls))) (\<lambda>changed.
     if changed = [] then Inr []
     else rbind (clean_basepaths_list adeps) (\<lambda>x. rbind (clean_basepaths_list bdeps) (\<lambda>y.
       Inr (RunDepsChanged x y # changed))))"

text \<open>
  Added and removed tasks, but none that was replaced by one with the same hash; the changes of
  a task whose hash changed take the place of all lines before, if \<open>recursecb\<close> finds some.
\<close>

definition moved_line :: "(string \<Rightarrow> string \<Rightarrow> sig_line) \<Rightarrow> (string \<times> string) list \<Rightarrow> (string \<times> string) list \<Rightarrow>
    string list \<Rightarrow> string \<Rightarrow> sig_line list res" where
  "moved_line line here there others dep =
     rbind (dget here dep) (\<lambda>h.
       if list_ex (\<lambda>d. map_of there d = Some h) others then Inr []
       else rbind (clean_basepath dep) (\<lambda>p. Inr [line p h]))"

definition hash_line :: "(string \<Rightarrow> string \<Rightarrow> string \<Rightarrow> sig_line list) option \<Rightarrow> (string \<times> string) list \<Rightarrow>
    (string \<times> string) list \<Rightarrow> string \<Rightarrow> sig_line list \<Rightarrow> sig_line list res" where
  "hash_line recursecb a b dep output =
     rbind (clean_basepath dep) (\<lambda>p. rbind (dget a dep) (\<lambda>x. rbind (dget b dep) (\<lambda>y.
       let line = TaskHashChanged p x y in
       case recursecb of
         None \<Rightarrow> Inr (output @ [line])
       | Some cb \<Rightarrow> (let recout = cb dep x y in Inr (if recout \<noteq> [] then line # recout else output @ [line])))))"

definition taskhashes_lines :: "(string \<Rightarrow> string \<Rightarrow> string \<Rightarrow> sig_line list) option \<Rightarrow> (string \<times> string) list \<Rightarrow>
    (string \<times> string) list \<Rightarrow> sig_line list \<Rightarrow> sig_line list res" where
  "taskhashes_lines recursecb a b output =
     (let (changed, added, removed) = dict_diff (=) a b [] in
      rbind (rmap (moved_line TaskAdded b a removed) added) (\<lambda>l1.
      rbind (rmap (moved_line TaskRemoved a b added) removed) (\<lambda>l2.
      rfold (hash_line recursecb a b) changed (output @ concat l1 @ concat l2))))"

definition run_deps :: "sigdata \<Rightarrow> string list" where
  "run_deps sd = (case sd_run sd of None \<Rightarrow> [] | Some r \<Rightarrow> sr_runtaskdeps r)"

definition run_hashes :: "sigdata \<Rightarrow> (string \<times> string) list" where
  "run_hashes sd = (case sd_run sd of None \<Rightarrow> [] | Some r \<Rightarrow> sr_hashes r)"

definition run_checksums :: "sigdata \<Rightarrow> (string \<times> string option) list" where
  "run_checksums sd = (case sd_run sd of None \<Rightarrow> [] | Some r \<Rightarrow> sr_checksums r)"

definition plain_lines :: "sigdata \<Rightarrow> sigdata \<Rightarrow> sig_line list" where
  "plain_lines a b =
     (if sd_taskdeps a \<noteq> sd_taskdeps b then [TaskDepsChanged (sort (sd_taskdeps a)) (sort (sd_taskdeps b))] else [])
     @ (if sd_basehash a \<noteq> sd_basehash b then [BaseHashChanged (sd_basehash a) (sd_basehash b)] else [])
     @ gendeps_lines a b @ varvals_lines a b @ checksum_lines (run_checksums a) (run_checksums b)"

definition compare_sigfiles :: "(string \<Rightarrow> string \<Rightarrow> string \<Rightarrow> sig_line list) option \<Rightarrow> sigdata \<Rightarrow> sigdata \<Rightarrow>
    sig_line list res" where
  "compare_sigfiles recursecb a b =
     rbind (taskwhitelist_lines a b) (\<lambda>twl.
     rbind (rundeps_lines (run_deps a) (run_deps b) (run_hashes a) (run_hashes b)) (\<lambda>run.
     let output = whitelist_lines a b @ twl @ plain_lines a b @ run in
     rbind (case (sd_run a, sd_run b) of
         (Some _, Some _) \<Rightarrow> taskhashes_lines recursecb (run_hashes a) (run_hashes b) output
       | _ \<Rightarrow> Inr output) (\<lambda>output.
     Inr (output @ (if sd_taint a \<noteq> sd_taint b then [TaintChanged (sd_taint a) (sd_taint b)] else [])))))"

section \<open>No difference is missed\<close>

lemma counted_Nil: "counted c xs = [] \<longleftrightarrow> (\<forall>x \<in> set xs. c x \<le> 0)"
  by (induction c xs rule: counted.induct) auto

lemma match_removed_length:
  "fold match_removed xs (ch, ad, re) = (changed, added, removed) \<Longrightarrow>
    length ch + length re + length xs = length changed + length removed"
proof (induction xs arbitrary: ch ad re)
  case (Cons x xs)
  obtain c' a' r' where s: "match_removed x (ch, ad, re) = (c', a', r')" by (cases "match_removed x (ch, ad, re)")
  then have "length c' + length r' = Suc (length ch + length re)"
    by (auto simp: match_removed_def split: option.splits)
  with Cons.IH [where ch = c' and ad = a' and re = r'] Cons.prems s show ?case by simp
qed simp

lemma file_checksums_same:
  assumes "file_checksums_diff a b = ([], [], [])"
  shows "mset a = mset b"
proof -
  obtain ch ad re where f: "fold match_removed (counted (counter_minus a b) a) ([], counted (counter_minus b a) b, []) = (ch, ad, re)"
    by (metis prod_cases3)
  with assms have e: "ch = []" "ad = []" "re = []" by (simp_all add: file_checksums_diff_def)
  with match_removed_length [OF f] have r: "counted (counter_minus a b) a = []" by simp
  with f e have "counted (counter_minus b a) b = []" by simp
  with r have "\<forall>x \<in> set b. count_list b x \<le> count_list a x" "\<forall>x \<in> set a. count_list a x \<le> count_list b x"
    by (simp_all add: counted_Nil counter_minus_def)
  then have "count_list a x = count_list b x" for x
    by (metis count_notin le_antisym le0)
  then show ?thesis by (simp add: multiset_eq_iff count_mset)
qed

text \<open>The checksums of a file list as \<open>get_checksums\<close> returns it: all known, sorted by checksum.\<close>

definition checksums_sorted :: "(string \<times> string option) list \<Rightarrow> bool" where
  "checksums_sorted cs \<longleftrightarrow> (\<forall>c \<in> set cs. snd c \<noteq> None) \<and> sorted (map (\<lambda>c. the (snd c)) cs)"

lemma checksums_text:
  "\<forall>c \<in> set cs. snd c \<noteq> None \<Longrightarrow> rfold checksum_text cs d = Inr (d @ concat (map (\<lambda>c. the (snd c)) cs))"
  by (induction cs arbitrary: d) (auto simp: checksum_text_def)

lemma checksums_same_text:
  assumes "mset a = mset b" "checksums_sorted a" "checksums_sorted b"
  shows "rfold checksum_text a d = rfold checksum_text b d"
proof -
  have "mset (map (\<lambda>c. the (snd c)) a) = mset (map (\<lambda>c. the (snd c)) b)" using assms(1) by simp
  with assms(2,3) have "map (\<lambda>c. the (snd c)) a = map (\<lambda>c. the (snd c)) b"
    unfolding checksums_sorted_def by (metis properties_for_sort)
  with assms(2,3) show ?thesis by (simp add: checksums_text checksums_sorted_def)
qed

lemma run_hash_texts:
  "rfold (run_hash_text run) deps d = rbind (rmap (dget (sr_hashes run)) deps) (\<lambda>hs. Inr (d @ concat hs))"
proof (induction deps arbitrary: d)
  case (Cons dep deps)
  show ?case
  proof (cases "dget (sr_hashes run) dep")
    case (Inr h)
    then have "run_hash_text run dep d = Inr (d @ h)" by (simp add: run_hash_text_def dget_found)
    with Inr Cons [of "d @ h"] show ?thesis
      by (cases "rmap (dget (sr_hashes run)) deps") (simp_all add: dget_found)
  qed (simp add: run_hash_text_def)
qed simp

lemma rundeps_same:
  assumes "rundeps_lines adeps bdeps ahash bhash = Inr []"
  shows "rmap (dget ahash) adeps = rmap (dget bhash) bdeps"
proof -
  from assms obtain changed where c: "(if length adeps \<noteq> length bdeps then Inr [RunDepsNumber]
       else rbind (rmap (rundep_line ahash bhash) (zip adeps bdeps)) (\<lambda>ls. Inr (concat ls))) = Inr changed" "changed = []"
    by (auto simp: rundeps_lines_def rbind_eq_Inr split: if_splits)
  then have l: "length adeps = length bdeps" by (auto split: if_splits)
  with c obtain ls where "rmap (rundep_line ahash bhash) (zip adeps bdeps) = Inr ls" "\<forall>l \<in> set ls. l = []"
    by (auto simp: rbind_eq_Inr)
  with l show ?thesis
  proof (induction adeps bdeps arbitrary: ls rule: list_induct2)
    case (Cons a as b bs)
    from Cons.prems(1) obtain l ls' where
      l: "rundep_line ahash bhash (a, b) = Inr l" "rmap (rundep_line ahash bhash) (zip as bs) = Inr ls'" "ls = l # ls'"
      by (auto simp: rbind_eq_Inr)
    with Cons.prems(2) obtain x where "dget ahash a = Inr x" "dget bhash b = Inr x"
      by (auto simp: rundep_line_def rbind_eq_Inr split: if_splits)
    with Cons.IH [OF l(2)] Cons.prems(2) l(3) show ?case by (simp add: dget_def)
  qed simp
qed

lemma taskhashes_lines_Nil: "taskhashes_lines recursecb a b out = Inr [] \<Longrightarrow> out = []"
proof -
  have h: "hash_line recursecb a b dep o1 = Inr o2 \<Longrightarrow> o2 \<noteq> []" for dep o1 o2
    by (auto simp: hash_line_def rbind_eq_Inr Let_def split: option.splits if_splits)
  have f: "rfold (hash_line recursecb a b) cs o1 = Inr [] \<Longrightarrow> o1 = []" for cs o1
    by (induction cs arbitrary: o1) (auto simp: rbind_eq_Inr dest!: h)
  assume "taskhashes_lines recursecb a b out = Inr []"
  then show ?thesis
    unfolding taskhashes_lines_def Let_def by (auto simp: rbind_eq_Inr dest!: f split: prod.splits)
qed

lemma compare_sigfiles_parts:
  assumes "compare_sigfiles recursecb a b = Inr []"
  shows "sd_basehash a = sd_basehash b" "sd_taint a = sd_taint b"
    "checksum_lines (run_checksums a) (run_checksums b) = []"
    "rundeps_lines (run_deps a) (run_deps b) (run_hashes a) (run_hashes b) = Inr []"
proof -
  from assms obtain twl run out where
    r: "rundeps_lines (run_deps a) (run_deps b) (run_hashes a) (run_hashes b) = Inr run" and
    o: "(case (sd_run a, sd_run b) of
         (Some _, Some _) \<Rightarrow> taskhashes_lines recursecb (run_hashes a) (run_hashes b) (whitelist_lines a b @ twl @ plain_lines a b @ run)
       | _ \<Rightarrow> Inr (whitelist_lines a b @ twl @ plain_lines a b @ run)) = Inr out" and
    t: "out @ (if sd_taint a \<noteq> sd_taint b then [TaintChanged (sd_taint a) (sd_taint b)] else []) = []"
    unfolding compare_sigfiles_def Let_def rbind_eq_Inr by auto
  from t have e: "out = []" "sd_taint a = sd_taint b" by (simp_all split: if_splits)
  from o e(1) have n: "whitelist_lines a b @ twl @ plain_lines a b @ run = []"
    by (auto dest!: taskhashes_lines_Nil split: option.splits)
  from e(2) show "sd_taint a = sd_taint b" .
  from n show "sd_basehash a = sd_basehash b" "checksum_lines (run_checksums a) (run_checksums b) = []"
    by (simp_all add: plain_lines_def split: if_splits)
  from n r show "rundeps_lines (run_deps a) (run_deps b) (run_hashes a) (run_hashes b) = Inr []" by simp
qed

text \<open>
  C27. If the comparison of two signature files prints nothing, their base hashes are the same, and
  so are the task hashes that are computed from the two files.
\<close>

theorem compare_sigfiles_complete:
  assumes "compare_sigfiles recursecb a b = Inr []" "sd_run a = Some ra" "sd_run b = Some rb"
    "checksums_sorted (sr_checksums ra)" "checksums_sorted (sr_checksums rb)"
  shows "sd_basehash a = sd_basehash b \<and> calc_taskhash md5 a = calc_taskhash md5 b"
proof -
  note p = compare_sigfiles_parts [OF assms(1)]
  have "file_checksums_diff (sr_checksums ra) (sr_checksums rb) = ([], [], [])"
    using p(3) assms(2,3) by (auto simp: checksum_lines_def run_checksums_def split: prod.splits)
  from file_checksums_same [OF this]
  have c: "rfold checksum_text (sr_checksums ra) d = rfold checksum_text (sr_checksums rb) d" for d
    using assms(4,5) by (rule checksums_same_text)
  have "rfold (run_hash_text ra) (sr_runtaskdeps ra) d = rfold (run_hash_text rb) (sr_runtaskdeps rb) d" for d
    using rundeps_same [OF p(4)] assms(2,3) by (simp add: run_hash_texts run_deps_def run_hashes_def)
  with c p(1,2) assms(2,3) show ?thesis by (simp add: calc_taskhash_def)
qed

text \<open>The signature of a task with one dependency and one file.\<close>

definition sig_example :: "string \<Rightarrow> sigdata" where
  "sig_example deps = \<lparr>sd_task = ''do_a'', sd_basewhitelist = [], sd_taskwhitelist = None, sd_taskdeps = [],
     sd_basehash = ''b'', sd_gendeps = [], sd_varvals = [(''do_a'', None)],
     sd_run = Some \<lparr>sr_runtaskdeps = [deps], sr_checksums = [(''f'', Some ''c'')], sr_hashes = [(deps, ''h'')],
       sr_taskhash = ''t''\<rparr>, sd_taint = None\<rparr>"

lemma compare_sigfiles_complete_witness:
  "compare_sigfiles None (sig_example ''/x/y/f.do_b'') (sig_example ''/x/z/f.do_b'') = Inr [] \<and>
    calc_taskhash id (sig_example ''/x/y/f.do_b'') = calc_taskhash id (sig_example ''/x/z/f.do_b'')"
proof -
  have c: "compare_sigfiles None (sig_example ''/x/y/f.do_b'') (sig_example ''/x/z/f.do_b'') = Inr []" by code_simp
  have r: "sd_run (sig_example d) = Some \<lparr>sr_runtaskdeps = [d], sr_checksums = [(''f'', Some ''c'')], sr_hashes = [(d, ''h'')],
       sr_taskhash = ''t''\<rparr>" for d by (simp add: sig_example_def)
  from c compare_sigfiles_complete [OF c r r] show ?thesis by (simp add: checksums_sorted_def)
qed

end
