(* ===== verification/Scene_Queue.thy ===== *)
theory Scene_Queue
  imports Run_Queue_Exec
begin

text \<open>
  The setscene queue, \<open>RunQueueExecuteScenequeue\<close> of
  \<^verbatim>\<open>bitbake/lib/bb/runqueue.py\<close>.  Before the tasks are executed, the tasks that can
  fetch a finished result (setscene tasks) get their chance, in the order from the targets down: a
  setscene task is only tried after the setscene tasks that depend on it.  The constructor
  makes the graph of the setscene tasks out of the graph of all tasks, and the operations that
  follow settle its tasks as covered or not covered.

  As in \<open>Run_Queue_Exec\<close>, the messages of the workers are arguments.  The dictionary
  \<open>build_stamps\<close> is never filled here, so what the inherited
  \<open>runqueue_process_waitpid\<close> does with it is left out.
\<close>

section \<open>The graph of the setscene tasks\<close>

text \<open>
  A round goes over the points of \<open>endpoints\<close> and hands what it knows of their
  dependents down to their dependencies; those are the points of the next round.  \<open>left\<close> is
  \<open>sq_revdeps\<close>, \<open>new\<close> is \<open>sq_revdeps_new\<close>.
\<close>

type_synonym tid_sets = "(string \<times> string list) list"

definition hand_down :: "string list \<Rightarrow> string \<Rightarrow> string list \<Rightarrow> string list \<Rightarrow> string \<Rightarrow>
    (tid_sets \<times> tid_sets) \<times> tid_sets \<Rightarrow> ((tid_sets \<times> tid_sets) \<times> tid_sets) res" where
  "hand_down setscene point task ts dep = (\<lambda>((left, new), newendpoints).
     rbind (dget left dep) (\<lambda>l.
     rbind (dget new dep) (\<lambda>n.
       let l = filter (\<lambda>t. t \<noteq> point) l; n = sunion n ts in
       Inr ((dset dep l left, dset dep n new),
         if (l = [] \<or> n \<noteq> []) \<and> dep \<notin> set setscene then dset dep task newendpoints else newendpoints))))"

text \<open>A point of the first search, which stops at the setscene tasks.\<close>

definition process_point :: "run_tasks \<Rightarrow> string list \<Rightarrow> string \<times> string list \<Rightarrow>
    (tid_sets \<times> tid_sets) \<times> tid_sets \<Rightarrow> ((tid_sets \<times> tid_sets) \<times> tid_sets) res" where
  "process_point es setscene = (\<lambda>(point, task) ((left, new), newendpoints).
     rbind (dget new point) (\<lambda>n.
     let ts = sunion task n; stop = point \<in> set setscene in
     rbind (dget es point) (\<lambda>e.
       rfold (hand_down setscene point task (if stop then [] else ts)) (rt_depends e)
         ((left, dset point (if stop then ts else []) new), newendpoints))))"

text \<open>A point of the second search, which also hands down the points it has passed.\<close>

definition process_point2 :: "run_tasks \<Rightarrow> string list \<Rightarrow> string \<times> string list \<Rightarrow>
    (tid_sets \<times> tid_sets) \<times> tid_sets \<Rightarrow> ((tid_sets \<times> tid_sets) \<times> tid_sets) res" where
  "process_point2 es setscene = (\<lambda>(point, task) ((left, new), newendpoints).
     rbind (dget new point) (\<lambda>n.
     let ts = sunion (sunion [point] task) n in
     rbind (dget es point) (\<lambda>e.
       rfold (hand_down setscene point ts ts) (rt_depends e)
         ((left, dset point (if point \<in> set setscene then ts else []) new), newendpoints))))"

text \<open>
  The recursion.  The points of a round depend on those of the round before, so there are no more
  rounds than there are tasks if the graph has no cycle.
\<close>

fun endpoint_rounds :: "nat \<Rightarrow> (string \<times> string list \<Rightarrow> (tid_sets \<times> tid_sets) \<times> tid_sets \<Rightarrow>
    ((tid_sets \<times> tid_sets) \<times> tid_sets) res) \<Rightarrow> tid_sets \<Rightarrow> tid_sets \<times> tid_sets \<Rightarrow> (tid_sets \<times> tid_sets) res" where
  "endpoint_rounds 0 step endpoints s = Inl OutOfFuel"
| "endpoint_rounds (Suc n) step endpoints s =
     rbind (rfold step endpoints (s, [])) (\<lambda>(s, newendpoints).
       if newendpoints = [] then Inr s else endpoint_rounds n step newendpoints s)"

definition revdeps_copy :: "run_tasks \<Rightarrow> tid_sets" where
  "revdeps_copy es = map (\<lambda>(tid, e). (tid, rt_revdeps e)) es"

definition no_revdeps :: "run_tasks \<Rightarrow> tid_sets" where
  "no_revdeps es = map (\<lambda>(tid, e). (tid, [])) es"

definition first_endpoints :: "run_tasks \<Rightarrow> string list \<Rightarrow> tid_sets" where
  "first_endpoints es setscene =
     map (\<lambda>(tid, e). (tid, [])) (filter (\<lambda>(tid, e). rt_revdeps e = [] \<and> tid \<notin> set setscene) es)"

definition setscene_endpoints :: "run_tasks \<Rightarrow> string list \<Rightarrow> tid_sets \<Rightarrow> tid_sets res" where
  "setscene_endpoints es setscene endpoints = rfold (\<lambda>tid endpoints.
     rbind (dget es tid) (\<lambda>e. Inr (fold (\<lambda>dep endpoints. dset dep (sadd tid (dget_or endpoints dep [])) endpoints)
       (rt_depends e) endpoints))) setscene endpoints"

definition process_endpoints :: "run_tasks \<Rightarrow> string list \<Rightarrow> tid_sets res" where
  "process_endpoints es setscene =
     rbind (setscene_endpoints es setscene (first_endpoints es setscene)) (\<lambda>endpoints.
     rbind (endpoint_rounds (Suc (length es)) (process_point es setscene) endpoints (revdeps_copy es, no_revdeps es))
       (\<lambda>(_, new). Inr new))"

definition find_unskippable :: "run_tasks \<Rightarrow> string list \<Rightarrow> string list res" where
  "find_unskippable es setscene =
     rbind (endpoint_rounds (Suc (length es)) (process_point2 es setscene) (first_endpoints es setscene)
       (revdeps_copy es, no_revdeps es)) (\<lambda>(_, new).
     rfold (\<lambda>tid unskippable. rbind (dget new tid) (\<lambda>n.
       Inr (if n \<noteq> [] then unskippable @ [tid] else unskippable))) setscene [])"

text \<open>The squashed graph; a task that is left without a setscene task above it is an error.\<close>

definition squash :: "run_tasks \<Rightarrow> string list \<Rightarrow> tid_sets \<Rightarrow> tid_sets res" where
  "squash es setscene new = rfold (\<lambda>tid sq. rbind (dget new tid) (\<lambda>n.
     if tid \<in> set setscene then Inr (dset tid n sq)
     else if n \<noteq> [] then Inl SystemExit else Inr sq)) (keys es) []"

text \<open>
  A dependency between setscene tasks that the metadata states.  The task that is depended on
  loses its own dependents; \<open>hard\<close> is \<open>sq_harddeps\<close>.
\<close>

definition hard_dep :: "run_tasks \<Rightarrow> taskdata \<Rightarrow> string \<Rightarrow> string \<times> string \<Rightarrow> tid_sets \<times> tid_sets \<Rightarrow>
    (tid_sets \<times> tid_sets) res" where
  "hard_dep es td tid = (\<lambda>(depname, idependtask) (hard, sq).
     if depname \<notin> set (keys (build_targets td)) then Inr (hard, sq)
     else rbind (item (bt td depname) 0) (\<lambda>depfn.
       let deptid = depfn @ '':'' @ replace setscene_suffix [] idependtask in
       if deptid \<notin> set (keys es) then Inl SystemExit
       else rbind (dget sq tid) (\<lambda>d.
         Inr (dset deptid (sadd tid (dget_or hard deptid [])) hard, dset deptid [] (dset tid (sadd deptid d) sq)))))"

definition hard_deps :: "rq_env \<Rightarrow> run_tasks \<Rightarrow> string list \<Rightarrow> tid_sets \<Rightarrow> (tid_sets \<times> tid_sets) res" where
  "hard_deps env es setscene sq = rfold (\<lambda>tid acc.
     rbind (split_tid_mcfn tid) (\<lambda>(mc, fn, taskname, _).
     rbind (dget (q_taskData env) mc) (\<lambda>td.
     rbind (dget (taskentries td) (fn @ '':'' @ taskname @ setscene_suffix)) (\<lambda>te.
       rfold (hard_dep es td tid) (idepends te) acc)))) setscene ([], sq)"

text \<open>\<open>d[k].add(x)\<close> for a dictionary of sets.\<close>

definition set_add :: "string \<Rightarrow> string \<Rightarrow> tid_sets \<Rightarrow> tid_sets res" where
  "set_add k x d = rbind (dget d k) (\<lambda>v. Inr (dset k (sadd x v) d))"

definition add_hard_deps :: "tid_sets \<Rightarrow> tid_sets \<Rightarrow> tid_sets res" where
  "add_hard_deps hard sq = rfold (\<lambda>(task, deps). rfold (\<lambda>dep. set_add dep task) deps) hard sq"

definition invert_deps :: "tid_sets \<Rightarrow> tid_sets res" where
  "invert_deps sq = rfold (\<lambda>(tid, deps). rfold (\<lambda>dep. set_add dep tid) deps) sq (map (\<lambda>(tid, _). (tid, [])) sq)"

section \<open>State\<close>

text \<open>
  \<open>sq_hashvalidate\<close> is the function of the metadata that says which results are available: from
  the files, tasks, hashes and names of hash files it returns the positions of those that are.
  \<open>sq_depvalidate\<close> says whether a task is not needed, from what it knows of the tasks that depend
  on it and of the tasks not needed so far.
\<close>

record scene_env =
  sq_exec :: exec_env
  sq_hashvalidate :: "(string list \<Rightarrow> string list \<Rightarrow> string option list \<Rightarrow> string list \<Rightarrow> nat list) option"
  sq_depvalidate :: "(string \<Rightarrow> (string \<times> string \<times> string \<times> string) list \<Rightarrow> string list \<Rightarrow> bool) option"

record scene_state =
  sq_phase :: rq_phase
  sq_covered :: "string list"
  sq_notcovered :: "string list"
  sq_notneeded :: "string list"
  sq_buildable :: "string list"
  sq_running :: "string list"
  sq_stampcache :: "(string \<times> bool) list"
  sq_stats :: rq_stats
  sq_deps :: tid_sets
  sq_revdeps :: tid_sets
  sq_revdeps2 :: tid_sets
  sq_harddeps :: tid_sets
  sq_unskippable :: "string list"
  sq_outrightfail :: "string list"
  sq_fakeworker :: bool
  sq_sent :: "(bool \<times> string) list"
  sq_result :: "(string list \<times> string list) option"
  sq_files :: file_table

abbreviation scene_tids :: "scene_env \<Rightarrow> string list" where
  "scene_tids env \<equiv> runq_setscene_tids (x_data (sq_exec env))"

abbreviation scene_tasks :: "scene_env \<Rightarrow> run_tasks" where
  "scene_tasks env \<equiv> runtaskentries (x_data (sq_exec env))"

definition scene_cache :: "scene_env \<Rightarrow> string \<Rightarrow> cache_data res" where
  "scene_cache env mc = dget (q_dataCaches (x_rq (sq_exec env))) mc"

definition scene_check_stamp :: "scene_env \<Rightarrow> bool \<Rightarrow> string \<Rightarrow> string \<Rightarrow> (scene_state, bool) sm" where
  "scene_check_stamp env recurse tid name =
     sbind (sres (\<lambda>s. check_stamp_task (Suc (length (scene_tasks env))) (sq_exec env) (sq_files s) (scene_tasks env)
         recurse tid (Some name) (sq_stampcache s))) (\<lambda>(b, cache).
     sbind (supd (\<lambda>s. s\<lparr>sq_stampcache := cache\<rparr>)) (\<lambda>_. sret b))"

section \<open>Settling tasks\<close>

text \<open>
  \<open>scenequeue_updatecounters\<close>.  A task whose hard dependency has failed is passed over and
  never tried; the recursion goes down such dependencies.
\<close>

fun scenequeue_updatecounters :: "nat \<Rightarrow> bool \<Rightarrow> string \<Rightarrow> (scene_state, unit) sm" where
  "scenequeue_updatecounters 0 fail task = sraise OutOfFuel"
| "scenequeue_updatecounters (Suc n) fail task =
     sbind (sres (\<lambda>s. dget (sq_deps s) task)) (\<lambda>deps. sfor deps (\<lambda>dep.
       sbind (sget (\<lambda>s. fail \<and> dep \<in> set (dget_or (sq_harddeps s) task []))) (\<lambda>hard.
       if hard then scenequeue_updatecounters n fail dep
       else sbind (sres (\<lambda>s. dget (sq_revdeps2 s) dep)) (\<lambda>r.
         if task \<notin> set r then sret ()
         else let r = filter (\<lambda>t. t \<noteq> task) r in
           supd (\<lambda>s. s\<lparr>sq_revdeps2 := dset dep r (sq_revdeps2 s),
             sq_buildable := (if r = [] then sadd dep (sq_buildable s) else sq_buildable s)\<rparr>)))))"

definition updatecounters :: "bool \<Rightarrow> string \<Rightarrow> (scene_state, unit) sm" where
  "updatecounters fail task =
     sbind (sget (\<lambda>s. length (sq_deps s))) (\<lambda>n. scenequeue_updatecounters (Suc n) fail task)"

definition scene_completeoutright :: "string \<Rightarrow> (scene_state, unit) sm" where
  "scene_completeoutright task =
     sbind (supd (\<lambda>s. s\<lparr>sq_covered := sadd task (sq_covered s)\<rparr>)) (\<lambda>_. updatecounters False task)"

text \<open>The part of a string before another: \<open>s.split(sep)[0]\<close>.\<close>

fun before :: "string \<Rightarrow> string \<Rightarrow> string" where
  "before sep [] = []"
| "before sep (c # s) = (if startswith (c # s) sep then [] else c # before sep s)"

definition check_taskfail :: "scene_env \<Rightarrow> string \<Rightarrow> (scene_state, unit) sm" where
  "check_taskfail env task =
     (if x_setscenewhitelist (sq_exec env) = None \<or> x_setscenewhitelist (sq_exec env) = Some [] then sret ()
      else sbind (sres (\<lambda>_. rbind (split_tid_mcfn (before setscene_suffix task)) (\<lambda>(mc, fn, taskname, _).
             rbind (scene_cache env mc) (\<lambda>dc. rbind (dget (pkg_fn dc) fn) (\<lambda>pn. Inr (pn, taskname)))))) (\<lambda>(pn, taskname).
        if check_setscene_enforce_whitelist pn taskname (x_setscenewhitelist (sq_exec env)) then sret ()
        else supd (\<lambda>s. s\<lparr>sq_phase := runQueueCleanUp\<rparr>)))"

definition scene_task_complete :: "string \<Rightarrow> (scene_state, unit) sm" where
  "scene_task_complete task =
     sbind (supd (\<lambda>s. s\<lparr>sq_stats := taskCompleted 1 (sq_stats s)\<rparr>)) (\<lambda>_. scene_completeoutright task)"

definition scene_task_fail :: "scene_env \<Rightarrow> string \<Rightarrow> (scene_state, unit) sm" where
  "scene_task_fail env task =
     sbind (supd (\<lambda>s. s\<lparr>sq_stats := taskFailed (sq_stats s), sq_notcovered := sadd task (sq_notcovered s)\<rparr>)) (\<lambda>_.
     sbind (updatecounters True task) (\<lambda>_. check_taskfail env task))"

definition task_failoutright :: "string \<Rightarrow> (scene_state, unit) sm" where
  "task_failoutright task =
     sbind (supd (\<lambda>s. s\<lparr>sq_running := sadd task (sq_running s), sq_buildable := sadd task (sq_buildable s),
       sq_stats := taskSkipped 1 (taskCompleted 1 (sq_stats s)), sq_notcovered := sadd task (sq_notcovered s)\<rparr>)) (\<lambda>_.
     updatecounters True task)"

definition scene_task_skip :: "string \<Rightarrow> (scene_state, unit) sm" where
  "scene_task_skip task =
     sbind (supd (\<lambda>s. s\<lparr>sq_running := sadd task (sq_running s), sq_buildable := sadd task (sq_buildable s)\<rparr>)) (\<lambda>_.
     sbind (scene_completeoutright task) (\<lambda>_.
       supd (\<lambda>s. s\<lparr>sq_stats := taskSkipped 1 (taskCompleted 1 (sq_stats s))\<rparr>)))"

section \<open>Messages of the workers\<close>

text \<open>\<open>failed_tids\<close> stays empty in this phase, so the end is always \<open>runQueueComplete\<close>.\<close>

definition scene_finish_now :: "(scene_state, unit) sm" where
  "scene_finish_now = supd (\<lambda>s. s\<lparr>sq_phase := runQueueComplete\<rparr>)"

definition scene_read_workers :: "scene_env \<Rightarrow> worker_msg list \<Rightarrow> (scene_state, unit) sm" where
  "scene_read_workers env msgs = sfor msgs (\<lambda>m. case m of
     ExitCode task status \<Rightarrow> if status \<noteq> 0 then scene_task_fail env task else scene_task_complete task
   | WorkerDied \<Rightarrow> scene_finish_now)"

definition scene_finish :: "scene_env \<Rightarrow> worker_msg list \<Rightarrow> (scene_state, rq_ret) sm" where
  "scene_finish env msgs =
     sbind (supd (\<lambda>s. s\<lparr>sq_phase := runQueueCleanUp\<rparr>)) (\<lambda>_.
     sbind (sget (\<lambda>s. active (sq_stats s) > 0)) (\<lambda>waiting.
       if waiting then sbind (scene_read_workers env msgs) (\<lambda>_. sret RFds)
       else sbind scene_finish_now (\<lambda>_. sret RTrue)))"

section \<open>Execution\<close>

text \<open>
  \<open>check_dependencies\<close>.  The set that it gets is that of the queue, so adding the task to it
  changes the reverse dependencies of the task.
\<close>

definition check_dependencies :: "scene_env \<Rightarrow> string \<Rightarrow> (scene_state, bool) sm" where
  "check_dependencies env task = (case sq_depvalidate env of
     None \<Rightarrow> sret False
   | Some depvalidate \<Rightarrow>
       sbind (sres (\<lambda>s. dget (sq_revdeps s) task)) (\<lambda>deps.
       let taskdeps = sadd task deps in
       sbind (supd (\<lambda>s. s\<lparr>sq_revdeps := dset task taskdeps (sq_revdeps s)\<rparr>)) (\<lambda>_.
       sbind (sres (\<lambda>_. rmap (\<lambda>dep. rbind (split_tid_mcfn dep) (\<lambda>(mc, fn, taskname, _).
           rbind (scene_cache env mc) (\<lambda>dc. rbind (dget (pkg_fn dc) fn) (\<lambda>pn. Inr (dep, pn, taskname, fn))))) taskdeps)) (\<lambda>taskdata.
         sget (\<lambda>s. depvalidate task taskdata (sq_notneeded s))))))"

text \<open>May the task be skipped because all that would use its result is there already?\<close>

definition not_needed :: "scene_env \<Rightarrow> string \<Rightarrow> (scene_state, bool) sm" where
  "not_needed env task =
     sbind (sget (\<lambda>s. task \<in> set (sq_unskippable s))) (\<lambda>unskippable.
     if unskippable then sret False
     else sbind (sres (\<lambda>s. dget (sq_revdeps s) task)) (\<lambda>deps.
       sbind (sget (\<lambda>s. deps \<noteq> [] \<and> list_all (\<lambda>t. t \<in> set (sq_covered s)) deps)) (\<lambda>there.
         if there then check_dependencies env task else sret False)))"

text \<open>What a look for the next task finds: nothing, a task that it settled, or a task to run.\<close>

datatype scene_choice = NoTask | Settled | RunTask string

definition next_scene_task :: "scene_env \<Rightarrow> (scene_state, scene_choice) sm" where
  "next_scene_task env =
     sbind (sget (\<lambda>s. find (\<lambda>t. t \<in> set (sq_buildable s) \<and> t \<notin> set (sq_running s)) (scene_tids env))) (\<lambda>next. case next of
       None \<Rightarrow> sret NoTask
     | Some nexttask \<Rightarrow>
         sbind (not_needed env nexttask) (\<lambda>unneeded.
         if unneeded \<and> nexttask \<notin> set (target_tids (x_data (sq_exec env)))
         then sbind (scene_task_skip nexttask) (\<lambda>_.
           sbind (supd (\<lambda>s. s\<lparr>sq_notneeded := sadd nexttask (sq_notneeded s)\<rparr>)) (\<lambda>_. sret Settled))
         else sbind (sget (\<lambda>s. nexttask \<in> set (sq_outrightfail s))) (\<lambda>fails.
           if fails then sbind (task_failoutright nexttask) (\<lambda>_. sret Settled) else sret (RunTask nexttask))))"

text \<open>The result is false if the task has been sent to a worker and no more can be started now.\<close>

definition scene_send :: "scene_env \<Rightarrow> bool \<Rightarrow> string \<Rightarrow> (scene_state, bool) sm" where
  "scene_send env fakeroot task =
     sbind (sres (\<lambda>s. if fakeroot \<and> \<not> sq_fakeworker s \<and> \<not> x_fakeworker_starts (sq_exec env) then Inl OSError else Inr ())) (\<lambda>_.
     sbind (supd (\<lambda>s. s\<lparr>sq_fakeworker := sq_fakeworker s \<or> fakeroot, sq_sent := sq_sent s @ [(fakeroot, task)],
       sq_running := sadd task (sq_running s), sq_stats := taskActive (sq_stats s)\<rparr>)) (\<lambda>_.
     sget (\<lambda>s. active (sq_stats s) < x_number_tasks (sq_exec env))))"

definition run_scene_task :: "scene_env \<Rightarrow> string \<Rightarrow> (scene_state, bool) sm" where
  "run_scene_task env task =
     sbind (sres (\<lambda>_. split_tid_mcfn task)) (\<lambda>(mc, fn, tn, taskfn).
     let taskname = tn @ setscene_suffix in
     sbind (sres (\<lambda>_. taskname_from_tid task)) (\<lambda>name.
     sbind (scene_check_stamp env True task name) (\<lambda>current.
     if current then sbind (task_failoutright task) (\<lambda>_. sret True)
     else if q_force (x_rq (sq_exec env)) \<and> task \<in> set (target_tids (x_data (sq_exec env)))
     then sbind (task_failoutright task) (\<lambda>_. sret True)
     else sbind (scene_check_stamp env False task taskname) (\<lambda>current.
     if current then sbind (scene_task_skip task) (\<lambda>_. sret True)
     else sbind (sres (\<lambda>_. rbind (scene_cache env mc) (\<lambda>dc. dget (cd_task_deps dc) taskfn))) (\<lambda>taskdep.
       scene_send env (task_flag taskdep ''fakeroot'' taskname \<noteq> None \<and> \<not> x_dry_run (sq_exec env)) task)))))"

definition scene_execute_start :: "scene_env \<Rightarrow> worker_msg list \<Rightarrow> (scene_state, bool) sm" where
  "scene_execute_start env msgs =
     sbind (scene_read_workers env msgs) (\<lambda>_.
     sbind (sget (\<lambda>s. active (sq_stats s) < x_number_tasks (sq_exec env))) (\<lambda>free.
     sbind (if free then next_scene_task env else sret NoTask) (\<lambda>choice. case choice of
         NoTask \<Rightarrow> sret False
       | Settled \<Rightarrow> sret True
       | RunTask task \<Rightarrow> run_scene_task env task)))"

text \<open>Waiting for the workers, or the end of the phase, which keeps the result.\<close>

definition scene_execute_wait :: "scene_env \<Rightarrow> worker_msg list \<Rightarrow> (scene_state, rq_ret) sm" where
  "scene_execute_wait env msgs =
     sbind (sget (\<lambda>s. active (sq_stats s) > 0)) (\<lambda>waiting.
     if waiting then sbind (scene_read_workers env msgs) (\<lambda>_. sret RFds)
     else sbind (supd (\<lambda>s. s\<lparr>sq_result := Some (sq_covered s, sq_notcovered s), sq_phase := runQueueRunInit\<rparr>)) (\<lambda>_.
       sret RTrue))"

definition scene_execute :: "scene_env \<Rightarrow> worker_msg list \<Rightarrow> worker_msg list \<Rightarrow> (scene_state, rq_ret) sm" where
  "scene_execute env msgs1 msgs2 =
     sbind (scene_execute_start env msgs1) (\<lambda>again. if again then sret RTrue else scene_execute_wait env msgs2)"

section \<open>The start of the phase\<close>

text \<open>
  With \<open>hashvalidate\<close>, what is known of the tasks is settled before the first is tried: a task
  that does nothing or has a current stamp is covered, and of the rest those without a result
  fail outright.
\<close>

datatype scene_kind = NoExec | StampPresent | Candidate string string "string option" string

definition scene_candidate :: "scene_env \<Rightarrow> int \<Rightarrow> string \<Rightarrow> (scene_state, scene_kind) sm" where
  "scene_candidate env now tid =
     sbind (sres (\<lambda>_. split_tid_mcfn tid)) (\<lambda>(mc, fn, taskname, taskfn).
     sbind (sres (\<lambda>_. scene_cache env mc)) (\<lambda>dc.
     sbind (sres (\<lambda>_. dget (cd_task_deps dc) fn)) (\<lambda>taskdep.
     if task_flag taskdep ''noexec'' taskname \<noteq> None
     then sbind (scene_task_skip tid) (\<lambda>_.
       sbind (sres (\<lambda>s. make_stamp (x_siggen (sq_exec env)) now (taskname @ setscene_suffix) (Core dc taskfn) (sq_files s))) (\<lambda>(_, fs).
       sbind (supd (\<lambda>s. s\<lparr>sq_files := fs\<rparr>)) (\<lambda>_. sret NoExec)))
     else sbind (scene_check_stamp env False tid (taskname @ setscene_suffix)) (\<lambda>current.
     if current then sbind (scene_task_skip tid) (\<lambda>_. sret StampPresent)
     else sbind (scene_check_stamp env True tid taskname) (\<lambda>current.
     if current then sbind (scene_task_skip tid) (\<lambda>_. sret StampPresent)
     else sbind (sres (\<lambda>_. dget (hashfn dc) fn)) (\<lambda>hf.
       sbind (sres (\<lambda>_. dget (scene_tasks env) tid)) (\<lambda>e. sret (Candidate fn taskname (rt_hash e) hf))))))))"

fun scene_candidates :: "scene_env \<Rightarrow> int \<Rightarrow> string list \<Rightarrow> (scene_state, (string \<times> scene_kind) list) sm" where
  "scene_candidates env now [] = sret []"
| "scene_candidates env now (tid # tids) =
     sbind (scene_candidate env now tid) (\<lambda>k.
     sbind (scene_candidates env now tids) (\<lambda>ks. sret ((tid, k) # ks)))"

definition is_candidate :: "scene_kind \<Rightarrow> bool" where
  "is_candidate k = (case k of Candidate _ _ _ _ \<Rightarrow> True | _ \<Rightarrow> False)"

definition available :: "(string list \<Rightarrow> string list \<Rightarrow> string option list \<Rightarrow> string list \<Rightarrow> nat list) \<Rightarrow>
    (string \<times> scene_kind) list \<Rightarrow> string list res" where
  "available hashvalidate ks =
     (let cs = filter (\<lambda>(tid, k). is_candidate k) ks
      in rmap (item (map fst cs)) (hashvalidate
        (map (\<lambda>(tid, k). case k of Candidate fn name h hf \<Rightarrow> fn | _ \<Rightarrow> []) cs)
        (map (\<lambda>(tid, k). case k of Candidate fn name h hf \<Rightarrow> name | _ \<Rightarrow> []) cs)
        (map (\<lambda>(tid, k). case k of Candidate fn name h hf \<Rightarrow> h | _ \<Rightarrow> None) cs)
        (map (\<lambda>(tid, k). case k of Candidate fn name h hf \<Rightarrow> hf | _ \<Rightarrow> []) cs)))"

definition scene_validate :: "scene_env \<Rightarrow> int \<Rightarrow> (scene_state, unit) sm" where
  "scene_validate env now = (case sq_hashvalidate env of
     None \<Rightarrow> sret ()
   | Some hashvalidate \<Rightarrow>
       sbind (sget (\<lambda>s. keys (sq_revdeps s))) (\<lambda>tids.
       sbind (scene_candidates env now tids) (\<lambda>ks.
       sbind (sres (\<lambda>_. available hashvalidate ks)) (\<lambda>valid.
         supd (\<lambda>s. s\<lparr>sq_outrightfail := map fst (filter (\<lambda>(tid, k). is_candidate k \<and> tid \<notin> set valid) ks)\<rparr>)))))"

definition scene_graph :: "rq_env \<Rightarrow> run_tasks \<Rightarrow> string list \<Rightarrow> (tid_sets \<times> tid_sets \<times> tid_sets \<times> string list) res" where
  "scene_graph env es setscene =
     rbind (process_endpoints es setscene) (\<lambda>new.
     rbind (find_unskippable es setscene) (\<lambda>unskippable.
     rbind (squash es setscene new) (\<lambda>sq.
     rbind (hard_deps env es setscene sq) (\<lambda>(hard, sq).
     rbind (add_hard_deps hard sq) (\<lambda>sq.
     rbind (invert_deps sq) (\<lambda>deps. Inr (deps, sq, hard, unskippable)))))))"

definition scene_start :: "scene_env \<Rightarrow> file_table \<Rightarrow> tid_sets \<times> tid_sets \<times> tid_sets \<times> string list \<Rightarrow> scene_state" where
  "scene_start env fs = (\<lambda>(deps, sq, hard, unskippable).
     \<lparr>sq_phase = runQueueSceneInit, sq_covered = [], sq_notcovered = [], sq_notneeded = [],
      sq_buildable = keys (filter (\<lambda>(tid, r). r = []) sq), sq_running = [], sq_stampcache = [],
      sq_stats = init_stats (int (length (scene_tids env))), sq_deps = deps, sq_revdeps = sq, sq_revdeps2 = sq,
      sq_harddeps = hard, sq_unskippable = unskippable, sq_outrightfail = [], sq_fakeworker = False, sq_sent = [],
      sq_result = None, sq_files = fs\<rparr>)"

text \<open>
  The constructor; \<open>None\<close> if there are no setscene tasks, when the object is left without its
  attributes and the next phase starts at once.
\<close>

definition scene_init :: "scene_env \<Rightarrow> int \<Rightarrow> file_table \<Rightarrow> scene_state option res" where
  "scene_init env now fs =
     (if x_number_tasks (sq_exec env) \<le> 0 then Inl BBHandledException
      else if scene_tids env = [] then Inr None
      else rbind (scene_graph (x_rq (sq_exec env)) (scene_tasks env) (scene_tids env)) (\<lambda>g.
        case scene_validate env now (scene_start env fs g) of
          (Inl e, _) \<Rightarrow> Inl e
        | (Inr _, s) \<Rightarrow> Inr (Some (s\<lparr>sq_phase := runQueueSceneRun\<rparr>))))"

end
