(* ===== verification/Scene_Graph_Facts.thy ===== *)
theory Scene_Graph_Facts
  imports Scene_Queue Run_Queue_Exec_Facts
begin

text \<open>
  The graph of the setscene tasks: what the two searches along the dependencies find, and that they
  end.  A setscene task gets at least the setscene tasks that depend on it with no other between
  them, and none that does not depend on it; it is unskippable exactly if a target that is no
  setscene task needs it with no setscene task between.
\<close>

section \<open>Paths\<close>

text \<open>A path whose inner tasks are outside of \<open>S\<close>.\<close>

inductive passes :: "run_tasks \<Rightarrow> string list \<Rightarrow> string \<Rightarrow> string \<Rightarrow> bool" for es S where
  direct: "(p, t) \<in> dep_rel es \<Longrightarrow> passes es S p t"
| through: "(p, d) \<in> dep_rel es \<Longrightarrow> d \<notin> set S \<Longrightarrow> passes es S d t \<Longrightarrow> passes es S p t"

inductive_cases passesE: "passes es S p t"

lemma passes_trancl: "passes es S p t \<Longrightarrow> (p, t) \<in> (dep_rel es)\<^sup>+"
  by (induction rule: passes.induct) (auto intro: trancl_into_trancl2)

text \<open>Going down from a non-empty set in a graph without cycles leaves something behind.\<close>

definition reach :: "(string \<times> string) set \<Rightarrow> string set \<Rightarrow> string set" where
  "reach r L = r\<^sup>* `` L"

lemma reach_shrinks:
  assumes "finite r" "acyclic r" "L \<noteq> {}" "L' \<subseteq> r `` L"
  shows "reach r L' \<subset> reach r L"
proof -
  have "reach r L' \<subseteq> reach r L"
    using assms(4) unfolding reach_def by (blast intro: converse_rtrancl_into_rtrancl)
  moreover have "wf (r\<^sup>+)" using finite_acyclic_wf [OF assms(1,2)] by (rule wf_trancl)
  then obtain z where z: "z \<in> L" "\<And>y. (y, z) \<in> r\<^sup>+ \<Longrightarrow> y \<notin> L" using assms(3) by (metis all_not_in_conv wfE_min)
  have "z \<notin> reach r L'"
  proof
    assume "z \<in> reach r L'"
    then obtain l' where l': "l' \<in> L'" "(l', z) \<in> r\<^sup>*" by (auto simp: reach_def)
    then obtain l where "l \<in> L" "(l, l') \<in> r" using assms(4) by blast
    with l' z(2) show False by (meson rtrancl_into_trancl2)
  qed
  moreover have "z \<in> reach r L" using z(1) by (auto simp: reach_def)
  ultimately show ?thesis by blast
qed

lemma reach_self: "L \<subseteq> reach r L"
  by (auto simp: reach_def)

lemma reach_keys:
  assumes "graph_ok es" "L \<subseteq> set (keys es)"
  shows "reach (dep_rel es) L \<subseteq> set (keys es)"
proof
  fix x assume "x \<in> reach (dep_rel es) L"
  then obtain l where "(l, x) \<in> (dep_rel es)\<^sup>*" "l \<in> L" by (auto simp: reach_def)
  then show "x \<in> set (keys es)"
  proof (induction rule: rtrancl_induct)
    case (step y z)
    then show ?case using graph_okD(4) [OF assms(1), of y] by (auto simp: dep_rel_def)
  qed (use assms(2) in auto)
qed

section \<open>A round of a search\<close>

text \<open>The tables have an entry for every task.\<close>

definition full :: "run_tasks \<Rightarrow> tid_sets \<Rightarrow> bool" where
  "full es d \<longleftrightarrow> set (keys d) = set (keys es)"

definition at :: "tid_sets \<Rightarrow> string \<Rightarrow> string set" where
  "at d t = set (dget_or d t [])"

lemma at_dset [simp]: "at (dset k v d) t = (if t = k then set v else at d t)"
  by (simp add: at_def)

lemma full_dget: "full es d \<Longrightarrow> t \<in> set (keys es) \<Longrightarrow> \<exists>v. dget d t = Inr v \<and> at d t = set v"
  unfolding full_def at_def dget_or_def by (cases "map_of d t") (auto simp: map_of_eq_None_iff keys_def)

lemma full_dset: "full es d \<Longrightarrow> t \<in> set (keys es) \<Longrightarrow> full es (dset t v d)"
  by (auto simp: full_def)

lemma keys_Cons [simp]: "keys ((k, v) # d) = k # keys d" and keys_Nil [simp]: "keys [] = []"
  by (simp_all add: keys_def)

lemma in_keys: "(k, v) \<in> set d \<Longrightarrow> k \<in> set (keys d)"
  by (force simp: keys_def)

lemma key_in: "k \<in> set (keys d) \<Longrightarrow> \<exists>v. (k, v) \<in> set d"
  by (force simp: keys_def)

lemma sunion_Nil [simp]: "sunion xs ys = [] \<longleftrightarrow> xs = [] \<and> ys = []"
  by (metis set_empty set_sunion Un_empty)

lemma set_dset: "x \<in> set (dset k v d) \<Longrightarrow> x = (k, v) \<or> x \<in> set d"
  unfolding dset_def by (induction d) (auto split: if_splits)

text \<open>
  Handing down \<open>ts\<close> to the dependencies \<open>ds\<close>: they are added at every dependency, and a
  dependency that is not a setscene task and has something is an endpoint of the next round.
\<close>

lemma hand_down_all:
  assumes "full es left" "full es new" "set ds \<subseteq> set (keys es)"
  shows "\<exists>left' new' neps'. rfold (hand_down S point task ts) ds ((left, new), neps) = Inr ((left', new'), neps') \<and>
    full es left' \<and> full es new' \<and>
    (\<forall>t. at new' t = (if t \<in> set ds then at new t \<union> set ts else at new t)) \<and>
    set (keys neps) \<subseteq> set (keys neps') \<and> set (keys neps') \<subseteq> set (keys neps) \<union> set ds \<and>
    (\<forall>d \<in> set ds - set S. at new' d \<noteq> {} \<longrightarrow> d \<in> set (keys neps')) \<and>
    (\<forall>d v. (d, v) \<in> set neps' \<longrightarrow> (d, v) \<in> set neps \<or> v = task \<and> d \<in> set ds \<and> d \<notin> set S)"
  using assms
proof (induction ds arbitrary: left new neps)
  case Nil
  then show ?case by auto
next
  case (Cons d ds)
  obtain l n where l: "dget left d = Inr l" and n: "dget new d = Inr n" "at new d = set n"
    using full_dget [OF Cons.prems(1)] full_dget [OF Cons.prems(2)] Cons.prems(3) by (metis list.set_intros(1) subsetD)
  define left1 new1 neps1 where "left1 = dset d (filter (\<lambda>t. t \<noteq> point) l) left" and "new1 = dset d (sunion n ts) new"
    and "neps1 = (if (filter (\<lambda>t. t \<noteq> point) l = [] \<or> sunion n ts \<noteq> []) \<and> d \<notin> set S then dset d task neps else neps)"
  have s: "hand_down S point task ts d ((left, new), neps) = Inr ((left1, new1), neps1)"
    using l n(1) by (simp add: hand_down_def left1_def new1_def neps1_def Let_def del: dget_eq_Inr)
  have f: "full es left1" "full es new1" using Cons.prems by (simp_all add: left1_def new1_def full_dset)
  have sub: "set ds \<subseteq> set (keys es)" using Cons.prems(3) by simp
  obtain left' new' neps' where r: "rfold (hand_down S point task ts) ds ((left1, new1), neps1) = Inr ((left', new'), neps')"
    and 1: "full es left'" "full es new'" "\<forall>t. at new' t = (if t \<in> set ds then at new1 t \<union> set ts else at new1 t)"
      "set (keys neps1) \<subseteq> set (keys neps')" "set (keys neps') \<subseteq> set (keys neps1) \<union> set ds"
      "\<forall>x \<in> set ds - set S. at new' x \<noteq> {} \<longrightarrow> x \<in> set (keys neps')"
      "\<forall>x v. (x, v) \<in> set neps' \<longrightarrow> (x, v) \<in> set neps1 \<or> v = task \<and> x \<in> set ds \<and> x \<notin> set S"
    using Cons.IH [OF f sub, of neps1] by (elim exE conjE) (rule that)
  have at1: "at new1 t = (if t = d then at new d \<union> set ts else at new t)" for t by (simp add: new1_def n(2))
  have k1: "set (keys neps) \<subseteq> set (keys neps1)" "set (keys neps1) \<subseteq> insert d (set (keys neps))"
    by (auto simp: neps1_def)
  have d1: "d \<in> set (keys neps1)" if "d \<notin> set S" "at new1 d \<noteq> {}"
    using that by (auto simp: neps1_def new1_def)
  have "at new' d \<noteq> {} \<Longrightarrow> at new1 d \<noteq> {} \<or> d \<in> set ds" by (auto simp: 1(3) split: if_splits)
  then have 2: "d \<notin> set S \<Longrightarrow> at new' d \<noteq> {} \<Longrightarrow> d \<in> set (keys neps')" using d1 1(4,6) by blast
  have 3: "(x, v) \<in> set neps1 \<Longrightarrow> (x, v) \<in> set neps \<or> v = task \<and> x = d \<and> d \<notin> set S" for x v
    using set_dset [of "(x, v)" d task neps] by (auto simp: neps1_def split: if_splits)
  have "rfold (hand_down S point task ts) (d # ds) ((left, new), neps) = Inr ((left', new'), neps')"
    using s r by simp
  moreover have "\<forall>t. at new' t = (if t \<in> set (d # ds) then at new t \<union> set ts else at new t)"
    by (auto simp: 1(3) at1)
  moreover have "set (keys neps) \<subseteq> set (keys neps')" "set (keys neps') \<subseteq> set (keys neps) \<union> set (d # ds)"
    using 1(4,5) k1 by auto
  moreover have "\<forall>x \<in> set (d # ds) - set S. at new' x \<noteq> {} \<longrightarrow> x \<in> set (keys neps')"
    using 1(6) 2 by auto
  moreover have "\<forall>x v. (x, v) \<in> set neps' \<longrightarrow> (x, v) \<in> set neps \<or> v = task \<and> x \<in> set (d # ds) \<and> x \<notin> set S"
    using 1(7) 3 by (metis list.set_intros(1,2))
  ultimately show ?case using 1(1,2) by blast
qed

section \<open>Searches\<close>

text \<open>
  What one point of a search does, the same for both searches: with \<open>T\<close> what it has, it takes
  \<open>T\<close> if it is a setscene task, and else hands \<open>T\<close> down.  \<open>src\<close> is what a point adds,
  \<open>P\<close> the points a search comes to.  The rest says what the search is to find: \<open>Q\<close> holds of
  the points, \<open>R\<close> of what they have, and \<open>W\<close> are the pairs that are to be found.
\<close>

definition step_spec :: "run_tasks \<Rightarrow> string list \<Rightarrow> (string \<Rightarrow> string set) \<Rightarrow> string \<times> string list \<Rightarrow>
    (tid_sets \<times> tid_sets) \<times> tid_sets \<Rightarrow> (tid_sets \<times> tid_sets) \<times> tid_sets \<Rightarrow> bool" where
  "step_spec es S src = (\<lambda>(p, task) ((left, new), neps) ((left', new'), neps').
     (let T = set task \<union> at new p \<union> src p; ds = set (deps_of es p) in
       full es left' \<and> full es new' \<and>
       (\<forall>t. at new' t = (if t = p then (if p \<in> set S then T else {}) else at new t) \<union> (if t \<in> ds \<and> p \<notin> set S then T else {})) \<and>
       set (keys neps) \<subseteq> set (keys neps') \<and> set (keys neps') \<subseteq> set (keys neps) \<union> (ds - set S) \<and>
       (\<forall>d \<in> ds - set S. at new' d \<noteq> {} \<longrightarrow> d \<in> set (keys neps')) \<and>
       (\<forall>d v. (d, v) \<in> set neps' \<longrightarrow> (d, v) \<in> set neps \<or> d \<in> ds \<and> set v \<subseteq> T)))"

locale search =
  fixes es :: run_tasks and S :: "string list"
    and step :: "string \<times> string list \<Rightarrow> (tid_sets \<times> tid_sets) \<times> tid_sets \<Rightarrow> ((tid_sets \<times> tid_sets) \<times> tid_sets) res"
    and src :: "string \<Rightarrow> string set" and P :: "string set" and Q :: "string \<Rightarrow> bool"
    and R :: "string \<Rightarrow> string \<Rightarrow> bool" and W :: "string \<Rightarrow> string \<Rightarrow> bool"
  assumes graph: "graph_ok es" "acyclic (dep_rel es)"
    and step: "\<And>p task left new neps. p \<in> set (keys es) \<Longrightarrow> p \<in> P \<Longrightarrow> full es left \<Longrightarrow> full es new \<Longrightarrow>
      \<exists>s'. step (p, task) ((left, new), neps) = Inr s' \<and> step_spec es S src (p, task) ((left, new), neps) s'"
    and P: "- set S \<subseteq> P"
    and Q: "\<And>p d. Q p \<Longrightarrow> p \<in> P \<Longrightarrow> d \<in> set (deps_of es p) \<Longrightarrow> d \<notin> set S \<Longrightarrow> Q d"
    and src: "\<And>u p. Q p \<Longrightarrow> p \<in> P \<Longrightarrow> u \<in> src p \<Longrightarrow> p \<notin> set S \<and> (\<forall>d \<in> set (deps_of es p). R u d)"
    and R: "\<And>u p d. R u p \<Longrightarrow> p \<in> P \<Longrightarrow> d \<in> set (deps_of es p) \<Longrightarrow> R u d"
    and W: "\<And>u t. W u t \<Longrightarrow> t \<in> set S"
begin

text \<open>The ways on which something still has to be handed down to \<open>t\<close>.\<close>

definition route :: "string \<Rightarrow> string \<Rightarrow> bool" where
  "route p t \<longleftrightarrow> p = t \<or> p \<notin> set S \<and> passes es S p t"

definition waiting :: "tid_sets \<Rightarrow> tid_sets \<Rightarrow> tid_sets \<Rightarrow> string \<Rightarrow> string \<Rightarrow> bool" where
  "waiting rest neps new u t \<longleftrightarrow>
     (\<exists>p task. (p, task) \<in> set rest \<and> u \<in> set task \<union> at new p \<union> src p \<and> route p t) \<or>
     (\<exists>p \<in> set (keys neps). u \<in> at new p \<and> route p t)"

definition inv :: "tid_sets \<Rightarrow> tid_sets \<Rightarrow> tid_sets \<Rightarrow> bool" where
  "inv rest neps new \<longleftrightarrow>
     set (keys rest) \<union> set (keys neps) \<subseteq> set (keys es) \<inter> P \<and>
     (\<forall>p \<in> set (keys rest) \<union> set (keys neps). Q p) \<and>
     (\<forall>t u. u \<in> at new t \<longrightarrow> R u t) \<and> (\<forall>p task u. (p, task) \<in> set rest \<union> set neps \<longrightarrow> u \<in> set task \<longrightarrow> R u p) \<and>
     (\<forall>t. t \<notin> set S \<longrightarrow> at new t \<noteq> {} \<longrightarrow> t \<in> set (keys rest) \<union> set (keys neps)) \<and>
     (\<forall>u t. W u t \<longrightarrow> u \<in> at new t \<or> waiting rest neps new u t)"

lemma inv_next:
  assumes "inv [] neps new"
  shows "inv neps [] new"
proof -
  have "waiting neps [] new u t" if "waiting [] neps new u t" for u t
    using that key_in [of _ neps] unfolding waiting_def by fastforce
  with assms show ?thesis unfolding inv_def by simp blast
qed

lemma route_step:
  assumes "route p t" "p \<noteq> t"
  shows "p \<notin> set S \<and> (\<exists>d \<in> set (deps_of es p). d = t \<or> d \<notin> set S \<and> passes es S d t)"
proof -
  have "p \<notin> set S" "passes es S p t" using assms by (simp_all add: route_def)
  from this(2) show ?thesis by (rule passesE) (use \<open>p \<notin> set S\<close> in \<open>auto simp: dep_rel_def\<close>)
qed
lemma inv_step:
  assumes i: "inv ((p, task) # rest) neps new"
    and s: "step_spec es S src (p, task) ((left, new), neps) ((left', new'), neps')"
  shows "inv rest neps' new' \<and> set (keys neps') \<subseteq> set (keys neps) \<union> set (deps_of es p)"
proof -
  define T where "T = set task \<union> at new p \<union> src p"
  let ?ds = "set (deps_of es p)"
  have at: "\<And>t. at new' t = (if t = p then (if p \<in> set S then T else {}) else at new t) \<union> (if t \<in> ?ds \<and> p \<notin> set S then T else {})"
    and k: "set (keys neps) \<subseteq> set (keys neps')" "set (keys neps') \<subseteq> set (keys neps) \<union> (?ds - set S)"
    and ne: "\<And>d. d \<in> ?ds - set S \<Longrightarrow> at new' d \<noteq> {} \<Longrightarrow> d \<in> set (keys neps')"
    and v: "\<And>d v. (d, v) \<in> set neps' \<Longrightarrow> (d, v) \<in> set neps \<or> d \<in> ?ds \<and> set v \<subseteq> T"
    using s unfolding step_spec_def T_def Let_def by simp_all
  have p: "p \<in> set (keys es)" "p \<in> P" "Q p" and i': "set (keys rest) \<union> set (keys neps) \<subseteq> set (keys es) \<inter> P"
      "\<And>x. x \<in> set (keys rest) \<union> set (keys neps) \<Longrightarrow> Q x"
    and sound: "\<And>t u. u \<in> at new t \<Longrightarrow> R u t" "\<And>u. u \<in> set task \<Longrightarrow> R u p"
      "\<And>x w u. (x, w) \<in> set rest \<union> set neps \<Longrightarrow> u \<in> set w \<Longrightarrow> R u x"
    and kept: "\<And>t. t \<notin> set S \<Longrightarrow> at new t \<noteq> {} \<Longrightarrow> t = p \<or> t \<in> set (keys rest) \<union> set (keys neps)"
    and compl: "\<And>u t. W u t \<Longrightarrow> u \<in> at new t \<or> waiting ((p, task) # rest) neps new u t"
    using i unfolding inv_def by simp_all blast+
  have ds: "?ds \<subseteq> set (keys es)" using graph_okD(4) [OF graph(1)] .
  have T: "R u d" if "u \<in> T" "d \<in> ?ds" for u d
    using that sound(1,2) src [OF p(3,2), of u] R [OF _ p(2), of u d] by (auto simp: T_def)
  have Tp: "R u p" if "u \<in> T" "p \<in> set S" for u
    using that sound(1,2) src [OF p(3,2), of u] by (auto simp: T_def)
  have 1: "set (keys rest) \<union> set (keys neps') \<subseteq> set (keys es) \<inter> P" using i'(1) k(2) ds P by blast
  have 2: "Q x" if "x \<in> set (keys rest) \<union> set (keys neps')" for x using that i'(2) k(2) Q [OF p(3,2)] by blast
  have 3: "u \<in> at new' t \<Longrightarrow> R u t" for t u using T Tp sound(1) by (auto simp: at split: if_splits)
  have 4: "(x, w) \<in> set rest \<union> set neps' \<Longrightarrow> u \<in> set w \<Longrightarrow> R u x" for x w u
    using sound(3) [of x w u] v [of x w] T [of u x] by blast
  have 5: "t \<in> set (keys rest) \<union> set (keys neps')" if "t \<notin> set S" "at new' t \<noteq> {}" for t
    using that kept [of t] ne [of t] k(1) by (cases "t \<in> ?ds") (auto simp: at split: if_splits)
  have 6: "u \<in> at new' t \<or> waiting rest neps' new' u t" if "W u t" for u t
  proof -
    have moved: "u \<in> at new' t \<or> waiting rest neps' new' u t" if "u \<in> T" "route p t"
    proof (cases "p = t")
      case True
      with that W [OF \<open>W u t\<close>] show ?thesis by (simp add: at)
    next
      case False
      from route_step [OF that(2) this] obtain d where d: "p \<notin> set S" "d \<in> ?ds" "d = t \<or> d \<notin> set S \<and> passes es S d t"
        by blast
      with that(1) have "u \<in> at new' d" by (simp add: at)
      with d ne [of d] show ?thesis unfolding waiting_def route_def by blast
    qed
    have other: "u \<in> at new' x" if "u \<in> at new x" "x \<noteq> p" for x using that by (simp add: at)
    have T': "u \<in> at new p \<Longrightarrow> u \<in> T" "u \<in> set task \<union> src p \<Longrightarrow> u \<in> T" by (auto simp: T_def)
    from compl [OF that] show ?thesis
    proof
      assume u: "u \<in> at new t"
      then show ?thesis using moved T'(1) other by (cases "t = p") (auto simp: route_def)
    next
      assume "waiting ((p, task) # rest) neps new u t"
      then consider "u \<in> T" "route p t"
        | x w where "(x, w) \<in> set rest" "u \<in> set w \<union> at new x \<union> src x" "route x t" "x \<noteq> p \<or> u \<in> set w \<union> src x"
        | x where "x \<in> set (keys neps)" "u \<in> at new x" "route x t" "x \<noteq> p"
        using T' unfolding waiting_def by auto
      then show ?thesis
      proof cases
        case 2
        then have "u \<in> set w \<union> at new' x \<union> src x" using other by auto
        with 2 show ?thesis unfolding waiting_def by blast
      next
        case 3
        with other k(1) show ?thesis unfolding waiting_def by blast
      qed (rule moved)
    qed
  qed
  from 1 2 3 4 5 6 have "inv rest neps' new'" unfolding inv_def by blast
  with k(2) show ?thesis by blast
qed

lemma round:
  "inv rest neps new \<Longrightarrow> full es left \<Longrightarrow> full es new \<Longrightarrow>
    \<exists>left' new' neps'. rfold step rest ((left, new), neps) = Inr ((left', new'), neps') \<and>
      full es left' \<and> full es new' \<and> inv [] neps' new' \<and>
      set (keys neps') \<subseteq> set (keys neps) \<union> dep_rel es `` set (keys rest)"
proof (induction rest arbitrary: left new neps)
  case (Cons x rest)
  obtain p task where x: "x = (p, task)" by force
  have "p \<in> set (keys es)" "p \<in> P" using Cons.prems(1) by (auto simp: x inv_def)
  from step [OF this Cons.prems(2,3)] obtain s1 where
    s1: "step (p, task) ((left, new), neps) = Inr s1" and sp: "step_spec es S src (p, task) ((left, new), neps) s1" by blast
  obtain left1 new1 neps1 where e: "s1 = ((left1, new1), neps1)" by (metis prod.exhaust)
  have f: "full es left1" "full es new1" using sp by (simp_all add: e step_spec_def Let_def)
  from inv_step [OF Cons.prems(1) [unfolded x] sp [unfolded e]]
  have i: "inv rest neps1 new1" and k: "set (keys neps1) \<subseteq> set (keys neps) \<union> set (deps_of es p)" by blast+
  from Cons.IH [OF i f] obtain left' new' neps' where
    "rfold step rest ((left1, new1), neps1) = Inr ((left', new'), neps')" "full es left'" "full es new'" "inv [] neps' new'"
    "set (keys neps') \<subseteq> set (keys neps1) \<union> dep_rel es `` set (keys rest)" by blast
  with s1 k show ?case by (auto simp: x e dep_rel_def)
qed auto

lemma rounds:
  "inv eps [] new \<Longrightarrow> full es left \<Longrightarrow> full es new \<Longrightarrow>
    card (reach (dep_rel es) (set (keys eps))) \<le> n \<Longrightarrow> 0 < n \<Longrightarrow>
    \<exists>left' new'. endpoint_rounds n step eps (left, new) = Inr (left', new') \<and> full es new' \<and> inv [] [] new'"
proof (induction n arbitrary: eps left new)
  case (Suc n)
  from round [OF Suc.prems(1-3)] obtain left1 new1 neps where
    r: "rfold step eps ((left, new), []) = Inr ((left1, new1), neps)" and f: "full es left1" "full es new1"
    and i: "inv [] neps new1" and k: "set (keys neps) \<subseteq> dep_rel es `` set (keys eps)" by auto
  show ?case
  proof (cases "neps = []")
    case True
    with r f i show ?thesis by simp
  next
    case False
    let ?r = "dep_rel es"
    have ne: "set (keys neps) \<noteq> {}" using False by (cases neps) auto
    then have "set (keys eps) \<noteq> {}" using k by auto
    from reach_shrinks [OF dep_rel_finite graph(2) this k]
    have "reach ?r (set (keys neps)) \<subset> reach ?r (set (keys eps))" .
    moreover have "set (keys eps) \<subseteq> set (keys es)" using Suc.prems(1) by (simp add: inv_def)
    from finite_subset [OF reach_keys [OF graph(1) this]] have "finite (reach ?r (set (keys eps)))" by simp
    ultimately have "card (reach ?r (set (keys neps))) < card (reach ?r (set (keys eps)))" by (simp add: psubset_card_mono)
    then have c: "card (reach ?r (set (keys neps))) \<le> n" using Suc.prems(4) by linarith
    have "finite (reach ?r (set (keys neps)))"
      using \<open>reach ?r (set (keys neps)) \<subset> _\<close> \<open>finite _\<close> by (meson finite_subset psubsetE)
    moreover have "reach ?r (set (keys neps)) \<noteq> {}" 
      using reach_self [of "set (keys neps)" ?r] ne by (metis subset_empty)
    ultimately have "0 < card (reach ?r (set (keys neps)))" by (simp add: card_gt_0_iff)
    with c have "0 < n" by linarith
    from Suc.IH [OF inv_next [OF i] f c this] False r show ?thesis by simp
  qed
qed simp

declare endpoint_rounds.simps [simp del]

text \<open>What a search finds.\<close>

lemma search_result:
  assumes "inv eps [] new" "full es left" "full es new"
  shows "\<exists>left' new'. endpoint_rounds (Suc (length es)) step eps (left, new) = Inr (left', new') \<and> full es new' \<and>
    (\<forall>t u. u \<in> at new' t \<longrightarrow> t \<in> set S \<and> R u t) \<and> (\<forall>u t. W u t \<longrightarrow> u \<in> at new' t)"
proof -
  have "set (keys eps) \<subseteq> set (keys es)" using assms(1) by (simp add: inv_def)
  then have "card (reach (dep_rel es) (set (keys eps))) \<le> card (set (keys es))"
    using reach_keys [OF graph(1)] by (simp add: card_mono)
  also have "\<dots> \<le> length es" using card_length [of "keys es"] by (simp add: keys_def)
  finally obtain left' new' where "endpoint_rounds (Suc (length es)) step eps (left, new) = Inr (left', new')"
    "full es new'" "inv [] [] new'" using rounds [OF assms, of "Suc (length es)"] by auto
  then show ?thesis unfolding inv_def waiting_def by auto
qed

end

section \<open>The two searches\<close>

lemma process_point_spec:
  assumes g: "graph_ok es" and p: "p \<in> set (keys es)" and f: "full es left" "full es new"
  shows "\<exists>s'. process_point es S (p, task) ((left, new), neps) = Inr s' \<and>
    step_spec es S (\<lambda>_. {}) (p, task) ((left, new), neps) s'"
proof -
  obtain n where n: "dget new p = Inr n" "at new p = set n" using full_dget [OF f(2) p] by blast
  obtain e where e: "dget es p = Inr e" "rt_depends e = deps_of es p"
    using p by (auto simp: set_keys deps_of_def)
  define ts where "ts = (if p \<in> set S then [] else sunion task n)"
  define new1 where "new1 = dset p (if p \<in> set S then sunion task n else []) new"
  have f1: "full es new1" using f(2) p by (simp add: new1_def full_dset)
  have a1: "at new1 t = (if t = p then (if p \<in> set S then set task \<union> at new p else {}) else at new t)" for t
    by (auto simp: new1_def n(2))
  from hand_down_all [OF f(1) f1 graph_okD(4) [OF g, of p], of S p task ts neps]
  obtain left' new' neps' where h: "rfold (hand_down S p task ts) (deps_of es p) ((left, new1), neps) = Inr ((left', new'), neps')"
    and h1: "full es left'" "full es new'" "\<forall>t. at new' t = (if t \<in> set (deps_of es p) then at new1 t \<union> set ts else at new1 t)"
      "set (keys neps) \<subseteq> set (keys neps')"
      "set (keys neps') \<subseteq> set (keys neps) \<union> set (deps_of es p)"
      "\<forall>d \<in> set (deps_of es p) - set S. at new' d \<noteq> {} \<longrightarrow> d \<in> set (keys neps')"
      "\<forall>d v. (d, v) \<in> set neps' \<longrightarrow> (d, v) \<in> set neps \<or> v = task \<and> d \<in> set (deps_of es p) \<and> d \<notin> set S"
    by (elim exE conjE) (rule that)
  have "process_point es S (p, task) ((left, new), neps) = Inr ((left', new'), neps')"
    using h n(1) e by (simp add: process_point_def ts_def new1_def Let_def del: dget_eq_Inr)
  moreover have "set (keys neps') \<subseteq> set (keys neps) \<union> (set (deps_of es p) - set S)"
    using h1(7) key_in [of _ neps'] in_keys [of _ _ neps] by blast
  moreover have "at new' t = (if t = p then (if p \<in> set S then set task \<union> at new p else {}) else at new t) \<union>
      (if t \<in> set (deps_of es p) \<and> p \<notin> set S then set task \<union> at new p else {})" for t
    using h1(3) by (simp add: a1 ts_def n(2))
  moreover have "\<forall>d v. (d, v) \<in> set neps' \<longrightarrow> (d, v) \<in> set neps \<or> d \<in> set (deps_of es p) \<and> set v \<subseteq> set task \<union> at new p \<union> {}"
    using h1(7) by blast
  ultimately show ?thesis using h1(1,2,4,6) unfolding step_spec_def Let_def by simp
qed

lemma process_point2_spec:
  assumes g: "graph_ok es" and p: "p \<in> set (keys es)" "p \<notin> set S" and f: "full es left" "full es new"
  shows "\<exists>s'. process_point2 es S (p, task) ((left, new), neps) = Inr s' \<and>
    step_spec es S (\<lambda>p. {p}) (p, task) ((left, new), neps) s'"
proof -
  obtain n where n: "dget new p = Inr n" "at new p = set n" using full_dget [OF f(2) p(1)] by blast
  obtain e where e: "dget es p = Inr e" "rt_depends e = deps_of es p"
    using p by (auto simp: set_keys deps_of_def)
  define ts where "ts = sunion (sunion [p] task) n"
  have ts: "set ts = set task \<union> at new p \<union> {p}" by (auto simp: ts_def n(2))
  define new1 where "new1 = dset p [] new"
  have f1: "full es new1" using f(2) p by (simp add: new1_def full_dset)
  have a1: "at new1 t = (if t = p then {} else at new t)" for t by (simp add: new1_def)
  from hand_down_all [OF f(1) f1 graph_okD(4) [OF g, of p], of S p ts ts neps]
  obtain left' new' neps' where h: "rfold (hand_down S p ts ts) (deps_of es p) ((left, new1), neps) = Inr ((left', new'), neps')"
    and h1: "full es left'" "full es new'" "\<forall>t. at new' t = (if t \<in> set (deps_of es p) then at new1 t \<union> set ts else at new1 t)"
      "set (keys neps) \<subseteq> set (keys neps')"
      "set (keys neps') \<subseteq> set (keys neps) \<union> set (deps_of es p)"
      "\<forall>d \<in> set (deps_of es p) - set S. at new' d \<noteq> {} \<longrightarrow> d \<in> set (keys neps')"
      "\<forall>d v. (d, v) \<in> set neps' \<longrightarrow> (d, v) \<in> set neps \<or> v = ts \<and> d \<in> set (deps_of es p) \<and> d \<notin> set S"
    by (elim exE conjE) (rule that)
  have "process_point2 es S (p, task) ((left, new), neps) = Inr ((left', new'), neps')"
    using h n(1) e p(2) by (simp add: process_point2_def ts_def new1_def Let_def del: dget_eq_Inr)
  moreover have "set (keys neps') \<subseteq> set (keys neps) \<union> (set (deps_of es p) - set S)"
    using h1(7) key_in [of _ neps'] in_keys [of _ _ neps] by blast
  moreover have "\<forall>t. at new' t = (if t = p then {} else at new t) \<union>
      (if t \<in> set (deps_of es p) then set task \<union> at new p \<union> {p} else {})"
    using h1(3) by (simp add: a1 ts)
  moreover have "\<forall>d v. (d, v) \<in> set neps' \<longrightarrow> (d, v) \<in> set neps \<or> d \<in> set (deps_of es p) \<and> set v \<subseteq> set task \<union> at new p \<union> {p}"
    using h1(7) ts by blast
  ultimately show ?thesis using h1(1,2,4,6) p(2) unfolding step_spec_def Let_def by simp
qed

text \<open>What the first search is to find: the setscene tasks above a setscene task.\<close>

definition above :: "run_tasks \<Rightarrow> string list \<Rightarrow> string \<Rightarrow> string \<Rightarrow> bool" where
  "above es S u t \<longleftrightarrow> u \<in> set S \<and> (u, t) \<in> (dep_rel es)\<^sup>+"

definition directly_above :: "run_tasks \<Rightarrow> string list \<Rightarrow> string \<Rightarrow> string \<Rightarrow> bool" where
  "directly_above es S u t \<longleftrightarrow> t \<in> set S \<and> u \<in> set S \<and> passes es S u t"

definition task_graph :: "run_tasks \<Rightarrow> bool" where
  "task_graph es \<longleftrightarrow> graph_ok es \<and> acyclic (dep_rel es)"

text \<open>The empty graph stands for a graph with a cycle or without reverse dependencies.\<close>

definition sound_graph :: "run_tasks \<Rightarrow> run_tasks" where
  "sound_graph es = (if task_graph es then es else [])"

lemma sound_graph [simp]: "task_graph es \<Longrightarrow> sound_graph es = es"
  by (simp add: sound_graph_def)

lemma sound_graph_ok: "graph_ok (sound_graph es)" "acyclic (dep_rel (sound_graph es))"
proof -
  have "graph_ok []" by (simp add: graph_ok_def deps_of_def rdeps_of_def)
  moreover have "acyclic (dep_rel [])" by (simp add: dep_rel_def deps_of_def acyclic_def)
  ultimately show "graph_ok (sound_graph es)" "acyclic (dep_rel (sound_graph es))"
    by (auto simp: sound_graph_def task_graph_def)
qed

interpretation first: search "sound_graph es" S "process_point (sound_graph es) S" "\<lambda>_. {}" UNIV "\<lambda>_. True"
  "above (sound_graph es) S" "directly_above (sound_graph es) S" for es S
proof
  show "\<exists>s'. process_point (sound_graph es) S (p, task) ((left, new), neps) = Inr s' \<and>
      step_spec (sound_graph es) S (\<lambda>_. {}) (p, task) ((left, new), neps) s'"
    if "p \<in> set (keys (sound_graph es))" "full (sound_graph es) left" "full (sound_graph es) new"
    for p task left new neps
    by (rule process_point_spec [OF sound_graph_ok(1) that])
  show "above (sound_graph es) S u d" if "above (sound_graph es) S u p" "d \<in> set (deps_of (sound_graph es) p)" for u p d
    using that by (auto simp: above_def dep_rel_def intro: trancl_into_trancl)
qed (auto simp: directly_above_def sound_graph_ok)

text \<open>
  What the second search is to find: the setscene tasks that an endpoint, a task nothing depends on
  and that is no setscene task, needs with no setscene task between.
\<close>

definition endpoint :: "run_tasks \<Rightarrow> string list \<Rightarrow> string \<Rightarrow> bool" where
  "endpoint es S r \<longleftrightarrow> r \<in> set (endpoints_of es) \<and> r \<notin> set S"

definition below_endpoint :: "run_tasks \<Rightarrow> string list \<Rightarrow> string \<Rightarrow> bool" where
  "below_endpoint es S t \<longleftrightarrow> (\<exists>r. endpoint es S r \<and> passes es S r t)"

lemma passes_last: "passes es S p d \<Longrightarrow> d \<notin> set S \<Longrightarrow> (d, t) \<in> dep_rel es \<Longrightarrow> passes es S p t"
  by (induction rule: passes.induct) (auto intro: passes.intros)

lemma below_endpoint_step:
  "endpoint es S p \<or> below_endpoint es S p \<Longrightarrow> p \<notin> set S \<Longrightarrow> d \<in> set (deps_of es p) \<Longrightarrow> below_endpoint es S d"
  using passes.direct [of p d es S] passes_last [of es S _ p d] unfolding below_endpoint_def dep_rel_def by blast

interpretation second: search "sound_graph es" S "process_point2 (sound_graph es) S" "\<lambda>p. {p}" "- set S"
  "\<lambda>p. endpoint (sound_graph es) S p \<or> below_endpoint (sound_graph es) S p" "\<lambda>_. below_endpoint (sound_graph es) S"
  "\<lambda>r t. t \<in> set S \<and> endpoint (sound_graph es) S r \<and> passes (sound_graph es) S r t" for es S
proof
  show "\<exists>s'. process_point2 (sound_graph es) S (p, task) ((left, new), neps) = Inr s' \<and>
      step_spec (sound_graph es) S (\<lambda>p. {p}) (p, task) ((left, new), neps) s'"
    if "p \<in> set (keys (sound_graph es))" "p \<in> - set S" "full (sound_graph es) left" "full (sound_graph es) new"
    for p task left new neps
    by (rule process_point2_spec [OF sound_graph_ok(1) that(1) _ that(3,4)]) (use that(2) in simp)
qed (use below_endpoint_step in \<open>auto simp: sound_graph_ok\<close>)

lemma full_start: "full es (revdeps_copy es)" "full es (no_revdeps es)" "at (no_revdeps es) t = {}"
proof -
  have k: "keys (revdeps_copy es) = keys es" "keys (no_revdeps es) = keys es"
    by (auto simp: revdeps_copy_def no_revdeps_def keys_def)
  then show "full es (revdeps_copy es)" "full es (no_revdeps es)" by (simp_all add: full_def)
  show "at (no_revdeps es) t = {}"
    by (induction es) (auto simp: no_revdeps_def at_def dget_or_def)
qed

lemma first_endpoints:
  assumes "graph_ok es"
  shows "set (keys (first_endpoints es S)) = {t. endpoint es S t}" and "(p, task) \<in> set (first_endpoints es S) \<Longrightarrow> task = []"
proof -
  have "t \<in> set (keys (first_endpoints es S)) \<longleftrightarrow> (\<exists>e. (t, e) \<in> set es \<and> rt_revdeps e = [] \<and> t \<notin> set S)" for t
    by (force simp: first_endpoints_def keys_def)
  also have "\<dots> t \<longleftrightarrow> endpoint es S t" for t
    using graph_okD(1) [OF assms]
    by (force simp: endpoint_def endpoints_of_def rdeps_of_def keys_def map_of_eq_Some_iff)
  finally show "set (keys (first_endpoints es S)) = {t. endpoint es S t}" by blast
  show "(p, task) \<in> set (first_endpoints es S) \<Longrightarrow> task = []" by (auto simp: first_endpoints_def)
qed

text \<open>The result of the second search.\<close>

lemma find_unskippable_result:
  assumes t: "task_graph es" and S: "set S \<subseteq> set (keys es)"
  shows "\<exists>ts. find_unskippable es S = Inr ts \<and> set ts = {t \<in> set S. below_endpoint es S t}"
proof -
  have g: "graph_ok es" using t by (simp add: task_graph_def)
  note k = first_endpoints(1) [OF g, of S]
  have empty: "u \<notin> set task" if "(p, task) \<in> set (first_endpoints es S)" for p task u
    using first_endpoints(2) [OF g that] by simp
  have own: "\<exists>task. (u, task) \<in> set (first_endpoints es S)" if "endpoint es S u" for u
    using key_in [of u "first_endpoints es S"] k that by simp
  have e: "u \<in> set (keys es)" "u \<notin> set S" if "endpoint es S u" for u
    using that by (simp_all add: endpoint_def endpoints_of_def)
  have i: "second.inv es S (first_endpoints es S) [] (no_revdeps es)"
    unfolding second.inv_def second.waiting_def second.route_def
    using empty own e t by (simp add: full_start k) blast
  from second.search_result [OF i, unfolded sound_graph [OF t], OF full_start(1,2)] obtain left new where
    r: "endpoint_rounds (Suc (length es)) (process_point2 es S) (first_endpoints es S) (revdeps_copy es, no_revdeps es) = Inr (left, new)"
    and f: "full es new" and R: "\<And>t u. u \<in> at new t \<Longrightarrow> t \<in> set S \<and> below_endpoint es S t"
    and W: "\<And>r t. t \<in> set S \<and> endpoint es S r \<and> passes es S r t \<Longrightarrow> r \<in> at new t" by blast
  have eq: "at new t \<noteq> {} \<longleftrightarrow> below_endpoint es S t" if "t \<in> set S" for t
    using that R [of _ t] W [of t] unfolding below_endpoint_def by blast
  have "set ts \<subseteq> set S \<Longrightarrow> \<exists>us. rfold (\<lambda>tid unskippable. rbind (dget new tid) (\<lambda>n.
       Inr (if n \<noteq> [] then unskippable @ [tid] else unskippable))) ts acc = Inr us \<and>
       set us = set acc \<union> {t \<in> set ts. below_endpoint es S t}" for ts acc
  proof (induction ts arbitrary: acc)
    case (Cons x ts)
    then have x: "x \<in> set S" "set ts \<subseteq> set S" by auto
    then obtain n where n: "dget new x = Inr n" "at new x = set n" using full_dget [OF f, of x] S by blast
    with eq [OF x(1)] have "n \<noteq> [] \<longleftrightarrow> below_endpoint es S x" by simp
    with Cons.IH [OF x(2), of "if n \<noteq> [] then acc @ [x] else acc"] n(1) show ?case
      by (auto simp del: dget_eq_Inr)
  qed simp
  from this [of S "[]"] r show ?thesis by (simp add: find_unskippable_def)
qed

text \<open>The endpoints of the first search.\<close>

lemma add_endpoints:
  "at (fold (\<lambda>dep eps. dset dep (sadd tid (dget_or eps dep [])) eps) ds eps) t =
     at eps t \<union> (if t \<in> set ds then {tid} else {})"
  "set (keys (fold (\<lambda>dep eps. dset dep (sadd tid (dget_or eps dep [])) eps) ds eps)) = set (keys eps) \<union> set ds"
  "distinct (keys eps) \<Longrightarrow> distinct (keys (fold (\<lambda>dep eps. dset dep (sadd tid (dget_or eps dep [])) eps) ds eps))"
proof -
  let ?f = "\<lambda>dep eps. dset dep (sadd tid (dget_or eps dep [])) eps"
  show "at (fold ?f ds eps) t = at eps t \<union> (if t \<in> set ds then {tid} else {})"
    by (induction ds arbitrary: eps) (auto simp: at_def)
  show "set (keys (fold ?f ds eps)) = set (keys eps) \<union> set ds"
    by (induction ds arbitrary: eps) auto
  show "distinct (keys eps) \<Longrightarrow> distinct (keys (fold ?f ds eps))"
    by (induction ds arbitrary: eps) auto
qed

lemma setscene_endpoints_result:
  assumes "graph_ok es" "set S \<subseteq> set (keys es)" "distinct (keys eps)"
  shows "\<exists>eps'. setscene_endpoints es S eps = Inr eps' \<and> distinct (keys eps') \<and>
    (\<forall>t. at eps' t = at eps t \<union> {u \<in> set S. (u, t) \<in> dep_rel es}) \<and>
    set (keys eps') = set (keys eps) \<union> dep_rel es `` set S"
  using assms(2,3) unfolding setscene_endpoints_def
proof (induction S arbitrary: eps)
  case (Cons x S)
  obtain e where e: "map_of es x = Some e" "rt_depends e = deps_of es x"
    using Cons.prems(1) by (auto simp: set_keys deps_of_def)
  let ?eps = "fold (\<lambda>dep eps. dset dep (sadd x (dget_or eps dep [])) eps) (deps_of es x) eps"
  have "set S \<subseteq> set (keys es)" "distinct (keys ?eps)" using Cons.prems add_endpoints(3) by auto
  from Cons.IH [OF this] e obtain eps' where r: "rfold (\<lambda>tid endpoints. rbind (dget es tid) (\<lambda>e. Inr (fold (\<lambda>dep endpoints.
      dset dep (sadd tid (dget_or endpoints dep [])) endpoints) (rt_depends e) endpoints))) S ?eps = Inr eps'"
    and d: "distinct (keys eps')" and a: "\<forall>t. at eps' t = at ?eps t \<union> {u \<in> set S. (u, t) \<in> dep_rel es}"
    and k: "set (keys eps') = set (keys ?eps) \<union> dep_rel es `` set S" by auto
  have "at eps' t = at eps t \<union> {u \<in> set (x # S). (u, t) \<in> dep_rel es}" for t
    using a by (auto simp: add_endpoints(1) dep_rel_def)
  moreover have "set (keys eps') = set (keys eps) \<union> dep_rel es `` set (x # S)"
    using k by (auto simp: add_endpoints(2) dep_rel_def)
  ultimately show ?case using r d e dget_eq_Inr by (auto simp del: dget_eq_Inr simp: dget_def)
qed auto

lemma at_entry: "distinct (keys d) \<Longrightarrow> (k, v) \<in> set d \<Longrightarrow> at d k = set v"
  by (simp add: at_def dget_or_def keys_def)

text \<open>The result of the first search.\<close>

lemma process_endpoints_result:
  assumes t: "task_graph es" and S: "set S \<subseteq> set (keys es)"
  shows "\<exists>new. process_endpoints es S = Inr new \<and> full es new \<and>
    (\<forall>t u. u \<in> at new t \<longrightarrow> t \<in> set S \<and> above es S u t) \<and> (\<forall>t u. directly_above es S u t \<longrightarrow> u \<in> at new t)"
proof -
  have g: "graph_ok es" using t by (simp add: task_graph_def)
  have d0: "distinct (keys (first_endpoints es S))"
  proof -
    have "keys (first_endpoints es S) = map fst (filter (\<lambda>(tid, e). rt_revdeps e = [] \<and> tid \<notin> set S) es)"
      by (induction es) (auto simp: first_endpoints_def keys_def)
    then show ?thesis using graph_okD(1) [OF g] by (auto simp: keys_def intro: distinct_map_filter)
  qed
  have a0: "at (first_endpoints es S) t = {}" for t
    using first_endpoints(2) [OF g map_of_SomeD, of S t]
    by (cases "map_of (first_endpoints es S) t") (auto simp: at_def dget_or_def)
  obtain eps where r0: "setscene_endpoints es S (first_endpoints es S) = Inr eps" and d: "distinct (keys eps)"
    and a: "\<And>t. at eps t = {u \<in> set S. (u, t) \<in> dep_rel es}"
    and k: "set (keys eps) = {t. endpoint es S t} \<union> dep_rel es `` set S"
    using setscene_endpoints_result [OF g S d0] by (auto simp: a0 first_endpoints(1) [OF g])
  have ks: "set (keys eps) \<subseteq> set (keys es)"
    unfolding k using graph_okD(4) [OF g] by (auto simp: endpoint_def endpoints_of_def dep_rel_def)
  have sound: "above es S u p" if "(p, task) \<in> set eps" "u \<in> set task" for p task u
    using that a [of p] at_entry [OF d that(1)] by (auto simp: above_def)
  have found: "\<exists>p task. (p, task) \<in> set eps \<and> u \<in> set task \<and> (p = t \<or> p \<notin> set S \<and> passes es S p t)"
    if "directly_above es S u t" for u t
  proof -
    have u: "u \<in> set S" "passes es S u t" using that by (simp_all add: directly_above_def)
    from u(2) obtain p where p: "(u, p) \<in> dep_rel es" "p = t \<or> p \<notin> set S \<and> passes es S p t"
      by (auto elim: passesE)
    then have "p \<in> set (keys eps)" using k u(1) by blast
    then obtain task where "(p, task) \<in> set eps" using key_in by meson
    moreover from at_entry [OF d this] a u(1) p(1) have "u \<in> set task" by blast
    ultimately show ?thesis using p(2) by blast
  qed
  have i: "first.inv es S eps [] (no_revdeps es)"
    unfolding first.inv_def first.waiting_def first.route_def
    using sound found ks t by (simp add: full_start)
  from first.search_result [OF i, unfolded sound_graph [OF t], OF full_start(1,2)] obtain left new where
    "endpoint_rounds (Suc (length es)) (process_point es S) eps (revdeps_copy es, no_revdeps es) = Inr (left, new)"
    "full es new" "\<And>t u. u \<in> at new t \<Longrightarrow> t \<in> set S \<and> above es S u t"
    "\<And>u t. directly_above es S u t \<Longrightarrow> u \<in> at new t" by blast
  with r0 show ?thesis by (simp add: process_endpoints_def)
qed

text \<open>The squashed graph has what the first search has found, and never an error.\<close>

lemma squash_result:
  assumes "full es new" "\<And>t u. u \<in> at new t \<Longrightarrow> t \<in> set S" "distinct (keys es)"
  shows "\<exists>sq. squash es S new = Inr sq \<and> keys sq = filter (\<lambda>t. t \<in> set S) (keys es) \<and>
    (\<forall>t \<in> set (keys sq). map_of sq t = map_of new t)"
proof -
  let ?f = "\<lambda>tid sq. rbind (dget new tid) (\<lambda>n. if tid \<in> set S then Inr (dset tid n sq)
     else if n \<noteq> [] then Inl SystemExit else Inr sq)"
  have "set ts \<subseteq> set (keys es) \<Longrightarrow> distinct ts \<Longrightarrow> set ts \<inter> set (keys sq) = {} \<Longrightarrow>
    (\<forall>t \<in> set (keys sq). map_of sq t = map_of new t) \<Longrightarrow>
    \<exists>sq'. rfold ?f ts sq = Inr sq' \<and> keys sq' = keys sq @ filter (\<lambda>t. t \<in> set S) ts \<and>
      (\<forall>t \<in> set (keys sq'). map_of sq' t = map_of new t)" for ts sq
  proof (induction ts arbitrary: sq)
    case (Cons x ts)
    obtain n where n: "dget new x = Inr n" "at new x = set n"
      using full_dget [OF assms(1), of x] Cons.prems(1) by auto
    have e: "x \<notin> set S \<Longrightarrow> n = []" using assms(2) [of _ x] n(2) by (cases n) auto
    let ?sq = "if x \<in> set S then dset x n sq else sq"
    have k: "keys ?sq = keys sq @ filter (\<lambda>t. t \<in> set S) [x]" using Cons.prems(3) by (auto simp: keys_dset)
    have "\<forall>t \<in> set (keys ?sq). map_of ?sq t = map_of new t" using Cons.prems(4) n(1) by auto
    moreover have "set ts \<inter> set (keys ?sq) = {}" using Cons.prems(2,3) k by auto
    ultimately obtain sq' where sq': "rfold ?f ts ?sq = Inr sq'" "keys sq' = keys ?sq @ filter (\<lambda>t. t \<in> set S) ts"
      "\<forall>t \<in> set (keys sq'). map_of sq' t = map_of new t"
      using Cons.IH [of ?sq] Cons.prems(1,2) by auto
    have "?f x sq = Inr ?sq" using n(1) e by (auto simp del: dget_eq_Inr)
    then have "rfold ?f (x # ts) sq = Inr sq'" using sq'(1) by simp
    with sq' k show ?case by auto
  qed simp
  from this [of "keys es" "[]"] assms(3) show ?thesis by (simp add: squash_def)
qed

definition scene_example :: run_tasks where
  "scene_example =
    [(''i:b'', new_task\<lparr>rt_depends := [''u:s'']\<rparr>),
     (''u:s'', new_task\<lparr>rt_depends := [''p:s''], rt_revdeps := [''i:b'']\<rparr>),
     (''p:s'', new_task\<lparr>rt_depends := [''d:c''], rt_revdeps := [''u:s'']\<rparr>),
     (''d:c'', new_task\<lparr>rt_depends := [''t:s''], rt_revdeps := [''p:s'']\<rparr>),
     (''t:s'', new_task\<lparr>rt_revdeps := [''d:c'']\<rparr>)]"

definition example_tids :: "string list" where
  "example_tids = [''u:s'', ''p:s'', ''t:s'']"

lemma scene_example_graph: "task_graph scene_example" "set example_tids \<subseteq> set (keys scene_example)"
proof -
  have "graph_ok scene_example"
    by (auto simp: scene_example_def graph_ok_def new_task_def deps_of_def rdeps_of_def keys_def split: if_splits)
  moreover have "acyclic (dep_rel scene_example)"
  proof (rule acyclicI_order)
    let ?f = "\<lambda>t. case map_of [(''i:b'', 4), (''u:s'', 3), (''p:s'', 2), (''d:c'', 1 :: nat)] t of None \<Rightarrow> 0 | Some n \<Rightarrow> n"
    fix t d assume "(t, d) \<in> dep_rel scene_example"
    then show "?f d < ?f t"
      by (auto simp: scene_example_def dep_rel_def deps_of_def new_task_def split: if_splits)
  qed
  ultimately show "task_graph scene_example" by (simp add: task_graph_def)
  show "set example_tids \<subseteq> set (keys scene_example)" by (simp add: scene_example_def example_tids_def keys_def)
qed

text \<open>
  C35. On a consistent graph without cycles the graph of the setscene tasks is made without an
  exception.  A setscene task gets every setscene task that depends on it with no other between,
  and only setscene tasks that depend on it; the unskippable ones are exactly those that a task
  nothing depends on needs with no setscene task between.
\<close>

theorem scene_graph_correct:
  assumes "graph_ok es" "acyclic (dep_rel es)" "set S \<subseteq> set (keys es)"
  shows "\<exists>new sq ts. process_endpoints es S = Inr new \<and> squash es S new = Inr sq \<and> find_unskippable es S = Inr ts \<and>
    set (keys sq) = set S \<and>
    (\<forall>t \<in> set S. {u \<in> set S. passes es S u t} \<subseteq> at sq t \<and> at sq t \<subseteq> {u \<in> set S. (u, t) \<in> (dep_rel es)\<^sup>+}) \<and>
    set ts = {t \<in> set S. \<exists>r \<in> set (endpoints_of es) - set S. passes es S r t}"
proof -
  have t: "task_graph es" using assms(1,2) by (simp add: task_graph_def)
  obtain new where new: "process_endpoints es S = Inr new" "full es new"
    and R: "\<And>t u. u \<in> at new t \<Longrightarrow> t \<in> set S \<and> above es S u t" and W: "\<And>u t. directly_above es S u t \<Longrightarrow> u \<in> at new t"
    using process_endpoints_result [OF t assms(3)] by blast
  obtain sq where sq: "squash es S new = Inr sq" "keys sq = filter (\<lambda>t. t \<in> set S) (keys es)"
    and eq: "\<And>t. t \<in> set (keys sq) \<Longrightarrow> map_of sq t = map_of new t"
    using squash_result [OF new(2) _ graph_okD(1) [OF assms(1)], of S] R by blast
  have k: "set (keys sq) = set S" using sq(2) assms(3) by auto
  have "at sq t = at new t" if "t \<in> set S" for t using eq [of t] that k by (simp add: at_def dget_or_def)
  then have "{u \<in> set S. passes es S u t} \<subseteq> at sq t \<and> at sq t \<subseteq> {u \<in> set S. (u, t) \<in> (dep_rel es)\<^sup>+}"
    if "t \<in> set S" for t
    using that R [of _ t] W [of _ t] unfolding above_def directly_above_def by blast
  moreover obtain ts where "find_unskippable es S = Inr ts" "set ts = {t \<in> set S. below_endpoint es S t}"
    using find_unskippable_result [OF t assms(3)] by blast
  moreover have "below_endpoint es S t \<longleftrightarrow> (\<exists>r \<in> set (endpoints_of es) - set S. passes es S r t)" for t
    unfolding below_endpoint_def endpoint_def by blast
  ultimately show ?thesis using new(1) sq(1) k by auto
qed

lemma scene_graph_correct_witness:
  "\<exists>sq. squash scene_example example_tids (case process_endpoints scene_example example_tids of Inr new \<Rightarrow> new) = Inr sq \<and>
    ''u:s'' \<in> at sq ''p:s'' \<and> ''p:s'' \<in> at sq ''t:s''"
proof -
  have d: "(''u:s'', ''p:s'') \<in> dep_rel scene_example" "(''p:s'', ''d:c'') \<in> dep_rel scene_example"
    "(''d:c'', ''t:s'') \<in> dep_rel scene_example"
    by (simp_all add: scene_example_def dep_rel_def deps_of_def new_task_def)
  have p: "passes scene_example example_tids ''u:s'' ''p:s''" "passes scene_example example_tids ''p:s'' ''t:s''"
    by (rule passes.direct [OF d(1)], rule passes.through [OF d(2) _ passes.direct [OF d(3)]]) (simp add: example_tids_def)
  have S: "''p:s'' \<in> set example_tids" "''t:s'' \<in> set example_tids" "''u:s'' \<in> set example_tids"
    by (simp_all add: example_tids_def)
  have g: "graph_ok scene_example" "acyclic (dep_rel scene_example)"
    using scene_example_graph(1) by (simp_all add: task_graph_def)
  from scene_graph_correct [OF g scene_example_graph(2)] obtain new sq where
    "process_endpoints scene_example example_tids = Inr new" "squash scene_example example_tids new = Inr sq"
    "\<forall>t \<in> set example_tids. {u \<in> set example_tids. passes scene_example example_tids u t} \<subseteq> at sq t" by blast
  with p S show ?thesis by auto
qed

end
