(* ===== verification/Scene_Queue_Facts.thy ===== *)
theory Scene_Queue_Facts
  imports Scene_Graph_Facts
begin

text \<open>
  What holds while the setscene tasks are tried.  \<open>scene_inv\<close> is the invariant: which
  tasks are settled, what the counters of the others still wait for, which tasks the workers have
  and what the statistics count.  From it follow the order in which the tasks are tried and what
  the phase hands on when it ends.
\<close>

section \<open>Counting down\<close>

text \<open>The hard dependencies as a relation, and the tasks a set of failed ones leaves without hope.\<close>

definition hard_rel :: "scene_state \<Rightarrow> (string \<times> string) set" where
  "hard_rel s = {(x, t). t \<in> at (sq_deps s) x \<and> t \<in> at (sq_harddeps s) x}"

definition hopeless :: "scene_state \<Rightarrow> string set" where
  "hopeless s = reach (hard_rel s) (set (sq_notcovered s))"

text \<open>What \<open>scenequeue_updatecounters\<close> takes away: pairs of a task and one that waits for it.\<close>

definition counts_down :: "scene_state \<Rightarrow> bool \<Rightarrow> string \<Rightarrow> (string \<times> string) set" where
  "counts_down s fail task =
     (if fail then {(x, t). x \<in> reach (hard_rel s) {task} \<and> t \<in> at (sq_deps s) x \<and> (x, t) \<notin> hard_rel s}
      else {(task, t) | t. t \<in> at (sq_deps s) task})"

text \<open>The effect: exactly \<open>Z\<close> is taken away, and what has nothing left to wait for is buildable.\<close>

definition counted_off :: "(string \<times> string) set \<Rightarrow> scene_state \<Rightarrow> scene_state \<Rightarrow> bool" where
  "counted_off Z s s' \<longleftrightarrow> (\<exists>r b. s' = s\<lparr>sq_revdeps2 := r, sq_buildable := b\<rparr>) \<and>
     keys (sq_revdeps2 s') = keys (sq_revdeps2 s) \<and>
     (\<forall>t. at (sq_revdeps2 s') t = at (sq_revdeps2 s) t - {x. (x, t) \<in> Z}) \<and>
     set (sq_buildable s') = set (sq_buildable s) \<union>
       {t. at (sq_revdeps2 s) t \<noteq> {} \<and> at (sq_revdeps2 s') t = {}}"

lemma counted_off_same: "counted_off Z s s' \<Longrightarrow> sq_deps s' = sq_deps s \<and> sq_harddeps s' = sq_harddeps s"
  by (auto simp: counted_off_def)

lemma counted_off_rel: "counted_off Z s s' \<Longrightarrow> hard_rel s' = hard_rel s \<and> counts_down s' = counts_down s"
  using counted_off_same [of Z s s'] by (simp add: hard_rel_def counts_down_def fun_eq_iff)

lemma counted_off_refl: "(\<And>x t. (x, t) \<in> Z \<Longrightarrow> x \<notin> at (sq_revdeps2 s) t) \<Longrightarrow> counted_off Z s s"
  unfolding counted_off_def using exI [of "\<lambda>r. \<exists>b. s = s\<lparr>sq_revdeps2 := r, sq_buildable := b\<rparr>" "sq_revdeps2 s"]
    exI [of "\<lambda>b. s = s\<lparr>sq_revdeps2 := sq_revdeps2 s, sq_buildable := b\<rparr>" "sq_buildable s"] by auto

lemma counted_off_trans:
  assumes "counted_off Z s t" "counted_off Z' t u"
  shows "counted_off (Z \<union> Z') s u"
proof -
  from assms obtain r b r' b' where "t = s\<lparr>sq_revdeps2 := r, sq_buildable := b\<rparr>" "u = t\<lparr>sq_revdeps2 := r', sq_buildable := b'\<rparr>"
    unfolding counted_off_def by blast
  then have "u = s\<lparr>sq_revdeps2 := r', sq_buildable := b'\<rparr>" by simp
  then have "\<exists>r b. u = s\<lparr>sq_revdeps2 := r, sq_buildable := b\<rparr>" by blast
  with assms show ?thesis unfolding counted_off_def by auto
qed

lemma counted_off_loop:
  assumes "sfor xs f s = (Inr (), t)" "\<And>x s t. x \<in> set xs \<Longrightarrow> P s \<Longrightarrow> f x s = (Inr (), t) \<Longrightarrow> counted_off (Z x) s t \<and> P t" "P s"
  shows "counted_off (\<Union>x \<in> set xs. Z x) s t"
  using assms
proof (induction xs arbitrary: s)
  case Nil
  then show ?case by (auto intro!: counted_off_refl)
next
  case (Cons x xs)
  then obtain u where u: "f x s = (Inr (), u)" "sfor xs f u = (Inr (), t)"
    by (auto split: prod.splits sum.splits)
  from Cons.prems(2) [OF _ Cons.prems(3) u(1)] have c: "counted_off (Z x) s u" "P u" by auto
  from Cons.IH [OF u(2) _ c(2)] Cons.prems(2) have "counted_off (\<Union>x \<in> set xs. Z x) u t" by auto
  from counted_off_trans [OF c(1) this] show ?case by simp
qed

lemma at_dget: "dget d k = Inr v \<Longrightarrow> at d k = set v"
  by (simp add: at_def dget_or_def)

lemma reach_unfold: "reach r {x} = insert x (\<Union>y \<in> r `` {x}. reach r {y})"
  by (auto simp: reach_def elim: converse_rtranclE intro: converse_rtrancl_into_rtrancl)

lemma scenequeue_updatecounters_counts:
  "scenequeue_updatecounters n fail task s = (Inr (), s') \<Longrightarrow> counted_off (counts_down s fail task) s s'"
proof (induction n arbitrary: fail task s s')
  case (Suc n)
  let ?Z = "\<lambda>dep. if fail \<and> (task, dep) \<in> hard_rel s then counts_down s fail dep else {(task, dep)}"
  let ?P = "\<lambda>u. sq_deps u = sq_deps s \<and> sq_harddeps u = sq_harddeps s"
  let ?f = "\<lambda>dep. sbind (sget (\<lambda>s. fail \<and> dep \<in> set (dget_or (sq_harddeps s) task []))) (\<lambda>hard.
       if hard then scenequeue_updatecounters n fail dep
       else sbind (sres (\<lambda>s. dget (sq_revdeps2 s) dep)) (\<lambda>r.
         if task \<notin> set r then sret ()
         else let r = filter (\<lambda>t. t \<noteq> task) r in
           supd (\<lambda>s. s\<lparr>sq_revdeps2 := dset dep r (sq_revdeps2 s),
             sq_buildable := (if r = [] then sadd dep (sq_buildable s) else sq_buildable s)\<rparr>)))"
  from Suc.prems obtain deps where deps: "dget (sq_deps s) task = Inr deps" and l: "sfor deps ?f s = (Inr (), s')"
    by (auto simp: sbind_eq_Inr sres_def)
  have at: "at (sq_deps s) task = set deps" by (rule at_dget [OF deps])
  have step: "counted_off (?Z dep) u t \<and> ?P t" if dep: "dep \<in> set deps" and u: "?P u" and f: "?f dep u = (Inr (), t)" for dep u t
  proof (cases "fail \<and> dep \<in> set (dget_or (sq_harddeps u) task [])")
    case True
    then have "scenequeue_updatecounters n fail dep u = (Inr (), t)" using f by (simp add: sbind_def sget_def)
    from Suc.IH [OF this] have c: "counted_off (counts_down u fail dep) u t" .
    have "hard_rel u = hard_rel s" "counts_down u = counts_down s"
      using u by (simp_all add: hard_rel_def counts_down_def fun_eq_iff)
    with c True counted_off_same [OF c] u dep at show ?thesis by (simp add: hard_rel_def at_def)
  next
    case False
    then obtain r where r: "dget (sq_revdeps2 u) dep = Inr r"
      and f': "(if task \<notin> set r then sret () else let r = filter (\<lambda>t. t \<noteq> task) r in
           supd (\<lambda>s. s\<lparr>sq_revdeps2 := dset dep r (sq_revdeps2 s),
             sq_buildable := (if r = [] then sadd dep (sq_buildable s) else sq_buildable s)\<rparr>)) u = (Inr (), t)"
      using f by (auto simp: sbind_eq_Inr sget_def sres_def)
    have a: "at (sq_revdeps2 u) dep = set r" by (rule at_dget [OF r])
    have Z: "?Z dep = {(task, dep)}" using False u by (auto simp: hard_rel_def at_def)
    show ?thesis
    proof (cases "task \<in> set r")
      case True
      then have t: "t = u\<lparr>sq_revdeps2 := dset dep (filter (\<lambda>t. t \<noteq> task) r) (sq_revdeps2 u),
          sq_buildable := (if filter (\<lambda>t. t \<noteq> task) r = [] then sadd dep (sq_buildable u) else sq_buildable u)\<rparr>"
        using f' by (simp add: supd_def Let_def)
      have "dep \<in> set (keys (sq_revdeps2 u))" using r map_of_keys [of "sq_revdeps2 u" dep r] by simp
      then have "keys (sq_revdeps2 t) = keys (sq_revdeps2 u)" by (simp add: t keys_dset_mem)
      moreover have "set (sq_buildable t) = set (sq_buildable u) \<union> {x. at (sq_revdeps2 u) x \<noteq> {} \<and> at (sq_revdeps2 t) x = {}}"
      proof -
        have "at (sq_revdeps2 u) dep \<noteq> {}" using True a by auto
        moreover have "filter (\<lambda>t. t \<noteq> task) r = [] \<longleftrightarrow> at (sq_revdeps2 t) dep = {}" by (auto simp: t filter_empty_conv)
        ultimately show ?thesis by (auto simp: t)
      qed
      moreover have "at (sq_revdeps2 t) x = at (sq_revdeps2 u) x - {y. (y, x) \<in> {(task, dep)}}" for x
        using a by (auto simp: t)
      moreover have "\<exists>r b. t = u\<lparr>sq_revdeps2 := r, sq_buildable := b\<rparr>" using t by blast
      ultimately have "counted_off {(task, dep)} u t" unfolding counted_off_def by blast
      then show ?thesis unfolding Z using u counted_off_same by metis
    next
      case False
      then have "t = u" using f' by (simp add: sret_def)
      with False a u show ?thesis unfolding Z by (auto intro: counted_off_refl)
    qed
  qed
  have "counted_off (\<Union>dep \<in> set deps. ?Z dep) s s'"
    by (rule counted_off_loop [OF l step]) auto
  also have "(\<Union>dep \<in> set deps. ?Z dep) = counts_down s fail task"
  proof (cases fail)
    case True
    have "hard_rel s `` {task} \<subseteq> set deps" using at by (auto simp: hard_rel_def)
    then show ?thesis using True at unfolding counts_down_def reach_unfold [of "hard_rel s" task]
      by (auto split: if_splits)
  qed (auto simp: counts_down_def at)
  finally show ?case .
qed (simp add: sraise_def)

lemma updatecounters_counts:
  "updatecounters fail task s = (Inr (), s') \<Longrightarrow> counted_off (counts_down s fail task) s s'"
  unfolding updatecounters_def
  by (auto simp del: scenequeue_updatecounters.simps simp: sbind_eq_Inr sget_def dest: scenequeue_updatecounters_counts)

section \<open>The invariant\<close>

text \<open>What a task has to wait for has been settled: it may be tried.\<close>

definition passed :: "scene_state \<Rightarrow> string \<Rightarrow> string \<Rightarrow> bool" where
  "passed s x t \<longleftrightarrow> x \<in> set (sq_covered s) \<or> x \<in> hopeless s \<and> (x, t) \<notin> hard_rel s"

definition ready :: "scene_state \<Rightarrow> scene_state \<Rightarrow> string \<Rightarrow> bool" where
  "ready s0 s t \<longleftrightarrow> (\<forall>x \<in> at (sq_revdeps s0) t. passed s x t)"

text \<open>\<open>s0\<close> is the state in which the phase starts; it has the graph.\<close>

definition count_inv :: "scene_state \<Rightarrow> scene_state \<Rightarrow> bool" where
  "count_inv s0 s \<longleftrightarrow>
     sq_deps s = sq_deps s0 \<and> sq_harddeps s = sq_harddeps s0 \<and> keys (sq_revdeps2 s) = keys (sq_revdeps s0) \<and>
     (\<forall>t. at (sq_revdeps2 s) t \<subseteq> at (sq_revdeps s0) t) \<and>
     (\<forall>x t. x \<in> at (sq_revdeps s0) t \<longrightarrow> x \<notin> at (sq_revdeps2 s) t \<longrightarrow> passed s x t) \<and>
     (\<forall>x t. t \<in> at (sq_deps s0) x \<longrightarrow> passed s x t \<longrightarrow> x \<notin> at (sq_revdeps2 s) t)"

definition settle_inv :: "scene_state \<Rightarrow> scene_state \<Rightarrow> bool" where
  "settle_inv s0 s \<longleftrightarrow>
     (\<forall>t \<in> set (sq_buildable s). at (sq_revdeps2 s) t = {} \<or> t \<in> set (sq_running s)) \<and>
     (\<forall>t \<in> set (keys (sq_revdeps s0)). at (sq_revdeps2 s) t = {} \<longrightarrow> t \<in> set (sq_buildable s)) \<and>
     distinct (sq_running s) \<and> distinct (sq_covered s) \<and> distinct (sq_notcovered s) \<and>
     set (sq_covered s) \<inter> set (sq_notcovered s) = {} \<and>
     set (sq_covered s) \<union> set (sq_notcovered s) \<subseteq> set (sq_running s) \<and>
     (\<forall>(f, t) \<in> set (sq_sent s). t \<in> set (sq_running s) \<and> ready s0 s t)"

text \<open>The statistics; the tasks at the workers are those that run and are not settled.\<close>

definition scene_active :: "scene_state \<Rightarrow> string set" where
  "scene_active s = set (sq_running s) - set (sq_covered s) - set (sq_notcovered s)"

definition stats_inv :: "scene_env \<Rightarrow> scene_state \<Rightarrow> bool" where
  "stats_inv env s \<longleftrightarrow>
     active (sq_stats s) = int (length (sq_running s)) - int (length (sq_covered s)) - int (length (sq_notcovered s)) \<and>
     completed (sq_stats s) + failed (sq_stats s) = int (length (sq_covered s)) + int (length (sq_notcovered s)) \<and>
     active (sq_stats s) \<le> x_number_tasks (sq_exec env)"

definition scene_inv :: "scene_env \<Rightarrow> scene_state \<Rightarrow> scene_state \<Rightarrow> bool" where
  "scene_inv env s0 s \<longleftrightarrow> count_inv s0 s \<and> settle_inv s0 s \<and> stats_inv env s"

text \<open>The part of the state that the first two conditions speak of.\<close>

definition scene_core :: "scene_state \<Rightarrow> tid_sets \<times> tid_sets \<times> tid_sets \<times> string list \<times> string list \<times> string list \<times>
    string list \<times> (bool \<times> string) list" where
  "scene_core s = (sq_deps s, sq_harddeps s, sq_revdeps2 s, sq_buildable s, sq_running s, sq_covered s, sq_notcovered s, sq_sent s)"

lemma scene_core_inv:
  assumes "scene_core s = scene_core t"
  shows "count_inv s0 s = count_inv s0 t" "settle_inv s0 s = settle_inv s0 t" "scene_active s = scene_active t"
proof -
  have "passed s = passed t"
    using assms by (simp add: scene_core_def passed_def hopeless_def hard_rel_def fun_eq_iff)
  with assms show "count_inv s0 s = count_inv s0 t" "settle_inv s0 s = settle_inv s0 t" "scene_active s = scene_active t"
    by (simp_all add: scene_core_def count_inv_def settle_inv_def ready_def scene_active_def)
qed

section \<open>Settling a task\<close>

text \<open>Marking a task as covered or not covered, before the counting down.\<close>

definition marked :: "bool \<Rightarrow> string \<Rightarrow> scene_state \<Rightarrow> scene_state \<Rightarrow> bool" where
  "marked fail task s s1 \<longleftrightarrow>
     sq_deps s1 = sq_deps s \<and> sq_harddeps s1 = sq_harddeps s \<and> sq_revdeps2 s1 = sq_revdeps2 s \<and> sq_sent s1 = sq_sent s \<and>
     sq_running s1 = sadd task (sq_running s) \<and>
     (sq_buildable s1 = sq_buildable s \<or> sq_buildable s1 = sadd task (sq_buildable s)) \<and>
     sq_covered s1 = (if fail then sq_covered s else sadd task (sq_covered s)) \<and>
     sq_notcovered s1 = (if fail then sadd task (sq_notcovered s) else sq_notcovered s)"

lemma marked_hopeless:
  "marked fail task s s1 \<Longrightarrow> hopeless s1 = hopeless s \<union> (if fail then reach (hard_rel s) {task} else {})"
  by (auto simp: marked_def hopeless_def hard_rel_def reach_def)

lemma settled_passed:
  assumes m: "marked fail task s s1" and c: "counted_off Z s1 s2"
  shows "passed s2 x t \<longleftrightarrow> passed s x t \<or> (if fail then x \<in> reach (hard_rel s) {task} \<and> (x, t) \<notin> hard_rel s else x = task)"
proof -
  have "hard_rel s2 = hard_rel s" using m counted_off_rel [OF c] by (auto simp: marked_def hard_rel_def)
  moreover have "sq_covered s2 = sq_covered s1" "sq_notcovered s2 = sq_notcovered s1" using c by (auto simp: counted_off_def)
  then have "hopeless s2 = hopeless s1" using counted_off_rel [OF c] by (simp add: hopeless_def)
  ultimately show ?thesis
    using m marked_hopeless [OF m] \<open>sq_covered s2 = _\<close> by (auto simp: passed_def marked_def)
qed

lemma settle_task:
  assumes i: "count_inv s0 s" "settle_inv s0 s" and m: "marked fail task s s1" and c: "counted_off (counts_down s1 fail task) s1 s2"
    and new: "task \<notin> set (sq_covered s)" "task \<notin> set (sq_notcovered s)"
  shows "count_inv s0 s2 \<and> settle_inv s0 s2"
proof -
  have eq: "sq_deps s2 = sq_deps s" "sq_harddeps s2 = sq_harddeps s" "sq_sent s2 = sq_sent s"
    "sq_running s2 = sadd task (sq_running s)"
    "sq_covered s2 = (if fail then sq_covered s else sadd task (sq_covered s))"
    "sq_notcovered s2 = (if fail then sadd task (sq_notcovered s) else sq_notcovered s)"
    using m c by (auto simp: marked_def counted_off_def)
  have Z: "counts_down s1 fail task = counts_down s fail task"
    using m by (simp add: marked_def counts_down_def hard_rel_def)
  have k: "keys (sq_revdeps2 s2) = keys (sq_revdeps2 s)" and a: "\<And>t. at (sq_revdeps2 s2) t = at (sq_revdeps2 s) t - {x. (x, t) \<in> counts_down s fail task}"
    and b: "set (sq_buildable s2) = set (sq_buildable s1) \<union> {t. at (sq_revdeps2 s) t \<noteq> {} \<and> at (sq_revdeps2 s2) t = {}}"
    using m c unfolding Z by (auto simp: marked_def counted_off_def)
  have b1: "sq_buildable s1 = sq_buildable s \<or> sq_buildable s1 = sadd task (sq_buildable s)" using m by (simp add: marked_def)
  note p = settled_passed [OF m c]
  have cd: "(x, t) \<in> counts_down s fail task \<longleftrightarrow>
      t \<in> at (sq_deps s0) x \<and> (if fail then x \<in> reach (hard_rel s) {task} \<and> (x, t) \<notin> hard_rel s else x = task)" for x t
    using i(1) by (auto simp: counts_down_def count_inv_def)
  have "count_inv s0 s2"
    using i(1) unfolding count_inv_def eq k a p cd by (auto split: if_splits)
  moreover have r: "ready s0 s t \<Longrightarrow> ready s0 s2 t" for t by (auto simp: ready_def p)
  have "settle_inv s0 s2"
    using i(2) new b1 r unfolding settle_inv_def eq b a by (auto split: if_splits)
  ultimately show ?thesis by blast
qed

lemma settle_scene:
  assumes i: "scene_inv env s0 s" and m: "marked fail task s s1" and c: "counted_off (counts_down s1 fail task) s1 s2"
    and new: "task \<notin> set (sq_covered s)" "task \<notin> set (sq_notcovered s)" and t: "scene_core t = scene_core s2"
    and st: "active (sq_stats t) = active (sq_stats s) - (if task \<in> set (sq_running s) then 1 else 0)"
      "completed (sq_stats t) + failed (sq_stats t) = completed (sq_stats s) + failed (sq_stats s) + 1"
  shows "scene_inv env s0 t \<and> scene_active t = scene_active s - {task} \<and> task \<in> set (sq_running t)"
proof -
  from i have "count_inv s0 s" "settle_inv s0 s" by (simp_all add: scene_inv_def)
  from settle_task [OF this m c new] scene_core_inv(1,2) [OF t, of s0]
  have 1: "count_inv s0 t" "settle_inv s0 t" by simp_all
  have eq: "sq_running t = sadd task (sq_running s)" "sq_covered t = (if fail then sq_covered s else sadd task (sq_covered s))"
    "sq_notcovered t = (if fail then sadd task (sq_notcovered s) else sq_notcovered s)"
    using t m c by (auto simp: marked_def counted_off_def scene_core_def)
  have "stats_inv env s" using i by (simp add: scene_inv_def)
  with new st have "stats_inv env t" by (auto simp: stats_inv_def eq sadd_def)
  with 1 new show ?thesis by (auto simp: scene_inv_def scene_active_def eq)
qed

lemma sret_eq [simp]: "sret x s = (Inr y, t) \<longleftrightarrow> y = x \<and> t = s"
  by (auto simp: sret_def)

lemma supd_eq [simp]: "supd f s = (Inr y, t) \<longleftrightarrow> t = f s"
  by (auto simp: supd_def)

lemma sget_eq [simp]: "sget f s = (Inr y, t) \<longleftrightarrow> y = f s \<and> t = s"
  by (auto simp: sget_def)

lemma sres_eq [simp]: "sres f s = (Inr y, t) \<longleftrightarrow> f s = Inr y \<and> t = s"
  by (auto simp: sres_def)

lemma running_active: "scene_inv env s0 s \<Longrightarrow> t \<notin> set (sq_running s) \<Longrightarrow> t \<notin> set (sq_covered s) \<and> t \<notin> set (sq_notcovered s)"
  by (auto simp: scene_inv_def settle_inv_def)

lemma scene_task_complete_inv:
  assumes "scene_inv env s0 s" "task \<in> scene_active s" "scene_task_complete task s = (Inr (), t)"
  shows "scene_inv env s0 t \<and> scene_active t = scene_active s - {task}"
proof -
  let ?s1 = "s\<lparr>sq_stats := taskCompleted 1 (sq_stats s), sq_covered := sadd task (sq_covered s)\<rparr>"
  have u: "updatecounters False task ?s1 = (Inr (), t)"
    using assms(3) by (simp add: scene_task_complete_def scene_completeoutright_def sbind_eq_Inr)
  from updatecounters_counts [OF this] have c: "counted_off (counts_down ?s1 False task) ?s1 t" .
  have a: "task \<in> set (sq_running s)" "task \<notin> set (sq_covered s)" "task \<notin> set (sq_notcovered s)"
    using assms(2) by (auto simp: scene_active_def)
  then have m: "marked False task s ?s1" by (auto simp: marked_def sadd_def)
  from c have "sq_stats t = taskCompleted 1 (sq_stats s)" by (auto simp: counted_off_def)
  with settle_scene [OF assms(1) m c a(2,3)] a(1) show ?thesis by (simp add: taskCompleted_def)
qed

lemma check_taskfail_core: "check_taskfail env task s = (Inr (), t) \<Longrightarrow> scene_core t = scene_core s \<and> sq_stats t = sq_stats s \<and>
    (sq_phase t = sq_phase s \<or> sq_phase t = runQueueCleanUp)"
  by (auto simp: check_taskfail_def sbind_eq_Inr scene_core_def split: if_splits)

lemma scene_task_fail_inv:
  assumes "scene_inv env s0 s" "task \<in> scene_active s" "scene_task_fail env task s = (Inr (), t)"
  shows "scene_inv env s0 t \<and> scene_active t = scene_active s - {task}"
proof -
  let ?s1 = "s\<lparr>sq_stats := taskFailed (sq_stats s), sq_notcovered := sadd task (sq_notcovered s)\<rparr>"
  obtain s2 where u: "updatecounters True task ?s1 = (Inr (), s2)" and f: "check_taskfail env task s2 = (Inr (), t)"
    using assms(3) by (auto simp: scene_task_fail_def sbind_eq_Inr)
  from updatecounters_counts [OF u] have c: "counted_off (counts_down ?s1 True task) ?s1 s2" .
  have a: "task \<in> set (sq_running s)" "task \<notin> set (sq_covered s)" "task \<notin> set (sq_notcovered s)"
    using assms(2) by (auto simp: scene_active_def)
  then have m: "marked True task s ?s1" by (auto simp: marked_def sadd_def)
  from c have "sq_stats s2 = taskFailed (sq_stats s)" by (auto simp: counted_off_def)
  with settle_scene [OF assms(1) m c a(2,3)] a(1) check_taskfail_core [OF f] show ?thesis by (simp add: taskFailed_def)
qed

lemma scene_task_skip_inv:
  assumes "scene_inv env s0 s" "task \<notin> set (sq_running s)" "scene_task_skip task s = (Inr (), t)"
  shows "scene_inv env s0 t \<and> scene_active t = scene_active s \<and> set (sq_running t) = insert task (set (sq_running s))"
proof -
  let ?s1 = "s\<lparr>sq_running := sadd task (sq_running s), sq_buildable := sadd task (sq_buildable s), sq_covered := sadd task (sq_covered s)\<rparr>"
  obtain s2 where u: "updatecounters False task ?s1 = (Inr (), s2)" and t: "t = s2\<lparr>sq_stats := taskSkipped 1 (taskCompleted 1 (sq_stats s2))\<rparr>"
    using assms(3) by (auto simp: scene_task_skip_def scene_completeoutright_def sbind_eq_Inr)
  from updatecounters_counts [OF u] have c: "counted_off (counts_down ?s1 False task) ?s1 s2" .
  note a = running_active [OF assms(1,2)]
  have m: "marked False task s ?s1" by (simp add: marked_def)
  from c have "sq_stats s2 = sq_stats s" "sq_running s2 = sadd task (sq_running s)" by (auto simp: counted_off_def)
  moreover have "scene_core t = scene_core s2" by (simp add: t scene_core_def)
  moreover have "scene_active s - {task} = scene_active s" using assms(2) by (auto simp: scene_active_def)
  ultimately show ?thesis using settle_scene [OF assms(1) m c, of t] a assms(2)
    by (simp add: t taskCompleted_def taskSkipped_def)
qed

lemma task_failoutright_inv:
  assumes "scene_inv env s0 s" "task \<notin> set (sq_running s)" "task_failoutright task s = (Inr (), t)"
  shows "scene_inv env s0 t \<and> scene_active t = scene_active s \<and> set (sq_running t) = insert task (set (sq_running s))"
proof -
  let ?s1 = "s\<lparr>sq_running := sadd task (sq_running s), sq_buildable := sadd task (sq_buildable s),
    sq_stats := taskSkipped 1 (taskCompleted 1 (sq_stats s)), sq_notcovered := sadd task (sq_notcovered s)\<rparr>"
  have u: "updatecounters True task ?s1 = (Inr (), t)" using assms(3) by (simp add: task_failoutright_def sbind_eq_Inr)
  from updatecounters_counts [OF u] have c: "counted_off (counts_down ?s1 True task) ?s1 t" .
  note a = running_active [OF assms(1,2)]
  have m: "marked True task s ?s1" by (simp add: marked_def)
  from c have "sq_stats t = taskSkipped 1 (taskCompleted 1 (sq_stats s))" "sq_running t = sadd task (sq_running s)"
    by (auto simp: counted_off_def)
  moreover have "scene_active s - {task} = scene_active s" using assms(2) by (auto simp: scene_active_def)
  ultimately show ?thesis using settle_scene [OF assms(1) m c, of t] a assms(2)
    by (simp add: taskCompleted_def taskSkipped_def)
qed

lemma scene_send_inv:
  assumes i: "scene_inv env s0 s" and t: "task \<in> set (sq_buildable s)" "task \<notin> set (sq_running s)"
    and n: "active (sq_stats s) < x_number_tasks (sq_exec env)" and r: "scene_send env fakeroot task s = (Inr again, t)"
  shows "scene_inv env s0 t \<and> set (sq_running t) = insert task (set (sq_running s)) \<and>
    again = (active (sq_stats t) < x_number_tasks (sq_exec env)) \<and> sq_phase t = sq_phase s"
proof -
  have e: "t = s\<lparr>sq_fakeworker := sq_fakeworker s \<or> fakeroot, sq_sent := sq_sent s @ [(fakeroot, task)],
       sq_running := sadd task (sq_running s), sq_stats := taskActive (sq_stats s)\<rparr>"
    and ag: "again = (active (sq_stats t) < x_number_tasks (sq_exec env))"
    using r by (auto simp: scene_send_def sbind_eq_Inr split: if_splits)
  have p: "passed t = passed s" by (simp add: e passed_def hopeless_def hard_rel_def fun_eq_iff)
  have "at (sq_revdeps2 s) task = {}" using i t by (auto simp: scene_inv_def settle_inv_def)
  then have rd: "ready s0 t task" using i by (auto simp: scene_inv_def count_inv_def ready_def p)
  have "count_inv s0 t" using i by (simp add: scene_inv_def count_inv_def p) (simp add: e)
  moreover have "settle_inv s0 t" using i rd t(2) by (auto simp: scene_inv_def settle_inv_def ready_def p) (auto simp: e)
  moreover have "stats_inv env t" using i t(2) n by (auto simp: scene_inv_def stats_inv_def e taskActive_def sadd_def)
  ultimately show ?thesis using ag by (simp add: scene_inv_def) (simp add: e)
qed

section \<open>Calls of the queue\<close>

lemma scene_inv_core:
  "scene_core t = scene_core s \<Longrightarrow> sq_stats t = sq_stats s \<Longrightarrow>
    scene_inv env s0 t = scene_inv env s0 s \<and> scene_active t = scene_active s \<and> sq_running t = sq_running s \<and>
    sq_buildable t = sq_buildable s"
  using scene_core_inv(1,2) [of t s s0] scene_core_inv(3) [of t s]
  by (simp add: scene_inv_def stats_inv_def scene_core_def)

lemma settled_phase:
  "scene_task_complete task s = (Inr (), t) \<Longrightarrow> sq_phase t = sq_phase s"
  "scene_task_fail env task s = (Inr (), t) \<Longrightarrow> sq_phase t = sq_phase s \<or> sq_phase t = runQueueCleanUp"
  "scene_task_skip task s = (Inr (), t) \<Longrightarrow> sq_phase t = sq_phase s"
  "task_failoutright task s = (Inr (), t) \<Longrightarrow> sq_phase t = sq_phase s"
proof -
  have u: "updatecounters fail x a = (Inr (), b) \<Longrightarrow> sq_phase b = sq_phase a" for fail x a b
    by (auto simp: counted_off_def dest!: updatecounters_counts)
  show "scene_task_complete task s = (Inr (), t) \<Longrightarrow> sq_phase t = sq_phase s"
    "scene_task_skip task s = (Inr (), t) \<Longrightarrow> sq_phase t = sq_phase s"
    "task_failoutright task s = (Inr (), t) \<Longrightarrow> sq_phase t = sq_phase s"
    by (auto simp: scene_task_complete_def scene_completeoutright_def scene_task_skip_def task_failoutright_def sbind_eq_Inr dest!: u)
  show "scene_task_fail env task s = (Inr (), t) \<Longrightarrow> sq_phase t = sq_phase s \<or> sq_phase t = runQueueCleanUp"
    by (auto simp: scene_task_fail_def sbind_eq_Inr dest!: u check_taskfail_core)
qed

lemma scene_read_workers_inv:
  "scene_inv env s0 s \<Longrightarrow> msgs_ok A msgs \<Longrightarrow> scene_active s = A \<Longrightarrow> scene_read_workers env msgs s = (Inr (), t) \<Longrightarrow>
    scene_inv env s0 t \<and> (sq_phase t = runQueueRunInit \<longrightarrow> sq_phase s = runQueueRunInit)"
proof (induction A msgs arbitrary: s rule: msgs_ok.induct)
  case (1 A)
  then show ?case by (simp add: scene_read_workers_def)
next
  case (2 A task status ms)
  obtain u where u: "(if status \<noteq> 0 then scene_task_fail env task else scene_task_complete task) s = (Inr (), u)"
    and r: "scene_read_workers env ms u = (Inr (), t)"
    using 2(5) unfolding scene_read_workers_def by (auto split: prod.splits sum.splits if_splits)
  have a: "task \<in> scene_active s" using 2(3,4) by simp
  have "scene_inv env s0 u \<and> scene_active u = scene_active s - {task}"
    using scene_task_fail_inv [OF 2(2) a, of u] scene_task_complete_inv [OF 2(2) a, of u] u by (simp split: if_splits)
  moreover have "sq_phase u = sq_phase s \<or> sq_phase u = runQueueCleanUp"
    using settled_phase(1) [of task s u] settled_phase(2) [of env task s u] u by (simp split: if_splits)
  moreover have "msgs_ok (A - {task}) ms" using 2(3) by simp
  ultimately have "scene_inv env s0 t \<and> (sq_phase t = runQueueRunInit \<longrightarrow> sq_phase u = runQueueRunInit)"
    "sq_phase u = sq_phase s \<or> sq_phase u = runQueueCleanUp"
    using 2(1) [of u] r 2(4) by blast+
  then show ?case by auto
next
  case (3 A ms)
  let ?u = "s\<lparr>sq_phase := runQueueComplete\<rparr>"
  have "scene_core ?u = scene_core s" "sq_stats ?u = sq_stats s" by (simp_all add: scene_core_def)
  note c = scene_inv_core [OF this, of env s0]
  have finish_now: "scene_finish_now s = (Inr (), ?u)" by (simp add: scene_finish_now_def)
  have "scene_read_workers env ms ?u = (Inr (), t)"
    using 3(5) finish_now unfolding scene_read_workers_def by simp
  with 3(1) [of ?u] c 3(2,3,4) show ?case by simp
qed

definition idle :: "scene_env \<Rightarrow> scene_state \<Rightarrow> bool" where
  "idle env s \<longleftrightarrow> (\<forall>t \<in> set (scene_tids env). t \<in> set (sq_buildable s) \<longrightarrow> t \<in> set (sq_running s))"

lemma not_needed_state: "not_needed env task s = (Inr b, t) \<Longrightarrow> \<exists>r. t = s\<lparr>sq_revdeps := r\<rparr>"
proof -
  have same: "\<exists>r. s = s\<lparr>sq_revdeps := r\<rparr>" by (rule exI [of _ "sq_revdeps s"]) simp
  show "not_needed env task s = (Inr b, t) \<Longrightarrow> ?thesis"
    using same by (auto simp: not_needed_def check_dependencies_def sbind_eq_Inr Let_def split: if_splits option.splits)
qed

lemma scene_check_stamp_state: "scene_check_stamp env recurse tid name s = (Inr b, t) \<Longrightarrow> \<exists>c. t = s\<lparr>sq_stampcache := c\<rparr>"
  by (auto simp: scene_check_stamp_def sbind_eq_Inr)

lemma next_scene_task_inv:
  assumes i: "scene_inv env s0 s" and r: "next_scene_task env s = (Inr c, t)"
  shows "scene_inv env s0 t \<and> sq_phase t = sq_phase s \<and> (c = NoTask \<longrightarrow> t = s \<and> idle env s) \<and>
    (c = Settled \<longrightarrow> set (sq_running s) \<subset> set (sq_running t)) \<and>
    (\<forall>x. c = RunTask x \<longrightarrow> x \<in> set (sq_buildable t) \<and> x \<notin> set (sq_running t) \<and> sq_stats t = sq_stats s \<and>
      sq_running t = sq_running s)"
proof (cases "find (\<lambda>t. t \<in> set (sq_buildable s) \<and> t \<notin> set (sq_running s)) (scene_tids env)")
  case None
  then have "c = NoTask" "t = s" using r by (auto simp: next_scene_task_def sbind_eq_Inr)
  with None i show ?thesis by (auto simp: idle_def find_None_iff)
next
  case (Some x)
  then have x: "x \<in> set (sq_buildable s)" "x \<notin> set (sq_running s)" by (auto simp: find_Some_iff)
  obtain b u where u: "not_needed env x s = (Inr b, u)"
    and r': "(if b \<and> x \<notin> set (target_tids (x_data (sq_exec env)))
         then sbind (scene_task_skip x) (\<lambda>_. sbind (supd (\<lambda>s. s\<lparr>sq_notneeded := sadd x (sq_notneeded s)\<rparr>)) (\<lambda>_. sret Settled))
         else sbind (sget (\<lambda>s. x \<in> set (sq_outrightfail s))) (\<lambda>fails.
           if fails then sbind (task_failoutright x) (\<lambda>_. sret Settled) else sret (RunTask x))) u = (Inr c, t)"
    using r Some by (auto simp: next_scene_task_def sbind_eq_Inr)
  obtain rd where u': "u = s\<lparr>sq_revdeps := rd\<rparr>" using not_needed_state [OF u] by blast
  have "scene_core u = scene_core s" "sq_stats u = sq_stats s" by (simp_all add: u' scene_core_def)
  note uc = scene_inv_core [OF this, of env s0]
  have ui: "scene_inv env s0 u" "x \<notin> set (sq_running u)" "x \<in> set (sq_buildable u)" "sq_phase u = sq_phase s"
    using uc i x by (simp_all add: u')
  show ?thesis
  proof (cases "b \<and> x \<notin> set (target_tids (x_data (sq_exec env)))")
    case True
    then obtain v where v: "scene_task_skip x u = (Inr (), v)" "t = v\<lparr>sq_notneeded := sadd x (sq_notneeded v)\<rparr>" "c = Settled"
      using r' by (auto simp: sbind_eq_Inr)
    have "scene_core t = scene_core v" "sq_stats t = sq_stats v" by (simp_all add: v(2) scene_core_def)
    with scene_task_skip_inv [OF ui(1,2) v(1)] scene_inv_core [of t v env s0] settled_phase(3) [OF v(1)] v(2,3) ui uc
    show ?thesis by auto
  next
    case False
    show ?thesis
    proof (cases "x \<in> set (sq_outrightfail u)")
      case True
      with False r' have v: "task_failoutright x u = (Inr (), t)" "c = Settled" by (auto simp: sbind_eq_Inr)
      with task_failoutright_inv [OF ui(1,2) v(1)] settled_phase(4) [OF v(1)] ui uc show ?thesis by auto
    next
      case f: False
      with False r' have "c = RunTask x" "t = u" by (auto simp: sbind_eq_Inr)
      with ui uc u' show ?thesis by auto
    qed
  qed
qed

lemma run_scene_task_inv:
  assumes i: "scene_inv env s0 s" and x: "x \<in> set (sq_buildable s)" "x \<notin> set (sq_running s)"
    and n: "active (sq_stats s) < x_number_tasks (sq_exec env)" and r: "run_scene_task env x s = (Inr again, t)"
  shows "scene_inv env s0 t \<and> sq_phase t = sq_phase s \<and> set (sq_running t) = insert x (set (sq_running s)) \<and>
    (\<not> again \<longrightarrow> active (sq_stats t) \<ge> x_number_tasks (sq_exec env))"
proof -
  have keep: "scene_inv env s0 u \<and> x \<in> set (sq_buildable u) \<and> x \<notin> set (sq_running u) \<and>
      active (sq_stats u) < x_number_tasks (sq_exec env) \<and> sq_phase u = sq_phase v \<and> sq_running u = sq_running v"
    if "scene_check_stamp env rc x nm v = (Inr b, u)" "scene_inv env s0 v" "x \<in> set (sq_buildable v)" "x \<notin> set (sq_running v)"
      "active (sq_stats v) < x_number_tasks (sq_exec env)" for rc nm v b u
  proof -
    note T = that
    obtain cc where u: "u = v\<lparr>sq_stampcache := cc\<rparr>" using scene_check_stamp_state [OF T(1)] by blast
    have "scene_core u = scene_core v" "sq_stats u = sq_stats v" by (simp_all add: u scene_core_def)
    from scene_inv_core [OF this, of env s0] that show ?thesis by (simp add: u)
  qed
  obtain mc fn tn taskfn name where "split_tid_mcfn x = Inr (mc, fn, tn, taskfn)" "taskname_from_tid x = Inr name"
    using r by (auto simp: run_scene_task_def sbind_eq_Inr Let_def)
  then obtain b u where u: "scene_check_stamp env True x name s = (Inr b, u)"
    and r1: "(if b then sbind (task_failoutright x) (\<lambda>_. sret True)
     else if q_force (x_rq (sq_exec env)) \<and> x \<in> set (target_tids (x_data (sq_exec env)))
     then sbind (task_failoutright x) (\<lambda>_. sret True)
     else sbind (scene_check_stamp env False x (tn @ setscene_suffix)) (\<lambda>current.
     if current then sbind (scene_task_skip x) (\<lambda>_. sret True)
     else sbind (sres (\<lambda>_. rbind (scene_cache env mc) (\<lambda>dc. dget (cd_task_deps dc) taskfn))) (\<lambda>taskdep.
       scene_send env (task_flag taskdep ''fakeroot'' (tn @ setscene_suffix) \<noteq> None \<and> \<not> x_dry_run (sq_exec env)) x))) u = (Inr again, t)"
    using r by (auto simp: run_scene_task_def sbind_eq_Inr Let_def)
  note k = keep [OF u i x n]
  show ?thesis
  proof (cases "b \<or> q_force (x_rq (sq_exec env)) \<and> x \<in> set (target_tids (x_data (sq_exec env)))")
    case True
    with r1 have f: "task_failoutright x u = (Inr (), t)" "again" by (auto simp: sbind_eq_Inr split: if_splits)
    from task_failoutright_inv [OF _ _ f(1), of env s0] settled_phase(4) [OF f(1)] f(2) k x(2) show ?thesis by simp
  next
    case False
    with r1 obtain b2 v where v: "scene_check_stamp env False x (tn @ setscene_suffix) u = (Inr b2, v)"
      and r2: "(if b2 then sbind (scene_task_skip x) (\<lambda>_. sret True)
     else sbind (sres (\<lambda>_. rbind (scene_cache env mc) (\<lambda>dc. dget (cd_task_deps dc) taskfn))) (\<lambda>taskdep.
       scene_send env (task_flag taskdep ''fakeroot'' (tn @ setscene_suffix) \<noteq> None \<and> \<not> x_dry_run (sq_exec env)) x)) v = (Inr again, t)"
      by (auto simp: sbind_eq_Inr split: if_splits)
    have k2: "scene_inv env s0 v" "x \<in> set (sq_buildable v)" "x \<notin> set (sq_running v)"
      "active (sq_stats v) < x_number_tasks (sq_exec env)" "sq_phase v = sq_phase u" "sq_running v = sq_running u"
      using keep [OF v] k by blast+
    show ?thesis
    proof (cases b2)
      case True
      with r2 have f: "scene_task_skip x v = (Inr (), t)" "again" by (auto simp: sbind_eq_Inr)
      from scene_task_skip_inv [OF k2(1,3) f(1)] settled_phase(3) [OF f(1)] f(2) k k2 show ?thesis by simp
    next
      case False
      with r2 obtain fr where "scene_send env fr x v = (Inr again, t)" by (auto simp: sbind_eq_Inr)
      from scene_send_inv [OF k2(1-4) this] k k2 show ?thesis by auto
    qed
  qed
qed

lemma scene_execute_start_inv:
  assumes i: "scene_inv env s0 s" and m: "msgs_ok (scene_active s) msgs" and r: "scene_execute_start env msgs s = (Inr again, t)"
  shows "scene_inv env s0 t \<and> (sq_phase t = runQueueRunInit \<longrightarrow> sq_phase s = runQueueRunInit) \<and>
    (\<not> again \<longrightarrow> active (sq_stats t) \<ge> x_number_tasks (sq_exec env) \<or> idle env t)"
proof -
  obtain u where u: "scene_read_workers env msgs s = (Inr (), u)"
    and r1: "sbind (if active (sq_stats u) < x_number_tasks (sq_exec env) then next_scene_task env else sret NoTask) (\<lambda>choice. case choice of
         NoTask \<Rightarrow> sret False | Settled \<Rightarrow> sret True | RunTask task \<Rightarrow> run_scene_task env task) u = (Inr again, t)"
    using r by (auto simp: scene_execute_start_def sbind_eq_Inr)
  from scene_read_workers_inv [OF i m refl u]
  have ui: "scene_inv env s0 u" "sq_phase u = runQueueRunInit \<Longrightarrow> sq_phase s = runQueueRunInit" by auto
  show ?thesis
  proof (cases "active (sq_stats u) < x_number_tasks (sq_exec env)")
    case False
    with r1 ui show ?thesis by (auto simp: sbind_eq_Inr)
  next
    case True
    then obtain c v where v: "next_scene_task env u = (Inr c, v)"
      and r2: "(case c of NoTask \<Rightarrow> sret False | Settled \<Rightarrow> sret True | RunTask task \<Rightarrow> run_scene_task env task) v = (Inr again, t)"
      using r1 by (auto simp: sbind_eq_Inr)
    note n = next_scene_task_inv [OF ui(1) v]
    show ?thesis
    proof (cases c)
      case (RunTask x)
      have "scene_inv env s0 v" "x \<in> set (sq_buildable v)" "x \<notin> set (sq_running v)"
        "active (sq_stats v) < x_number_tasks (sq_exec env)" using n RunTask True by auto
      from run_scene_task_inv [OF this] r2 RunTask have "scene_inv env s0 t \<and> sq_phase t = sq_phase v \<and>
        (\<not> again \<longrightarrow> active (sq_stats t) \<ge> x_number_tasks (sq_exec env))" by simp
      with n ui(2) show ?thesis by auto
    qed (use n r2 ui(2) in auto)
  qed
qed

text \<open>The end of the phase is reached when there is nothing left to try.\<close>

definition scene_done :: "scene_env \<Rightarrow> scene_state \<Rightarrow> bool" where
  "scene_done env s \<longleftrightarrow> (sq_phase s = runQueueRunInit \<longrightarrow>
     active (sq_stats s) \<le> 0 \<and> idle env s \<and> sq_result s = Some (sq_covered s, sq_notcovered s))"

lemma scene_execute_wait_inv:
  assumes i: "scene_inv env s0 s" and m: "msgs_ok (scene_active s) msgs" and r: "scene_execute_wait env msgs s = (Inr r, t)"
    and p: "sq_phase s \<noteq> runQueueRunInit" and n: "0 < x_number_tasks (sq_exec env)"
    and w: "active (sq_stats s) \<ge> x_number_tasks (sq_exec env) \<or> idle env s"
  shows "scene_inv env s0 t \<and> scene_done env t"
proof (cases "active (sq_stats s) > 0")
  case True
  then have "scene_read_workers env msgs s = (Inr (), t)" using r by (auto simp: scene_execute_wait_def sbind_eq_Inr)
  from scene_read_workers_inv [OF i m refl this] p show ?thesis by (auto simp: scene_done_def)
next
  case False
  then have t: "t = s\<lparr>sq_result := Some (sq_covered s, sq_notcovered s), sq_phase := runQueueRunInit\<rparr>"
    using r by (auto simp: scene_execute_wait_def sbind_eq_Inr)
  have "scene_core t = scene_core s" "sq_stats t = sq_stats s" by (simp_all add: t scene_core_def)
  from scene_inv_core [OF this, of env s0] False w n i show ?thesis by (auto simp: scene_done_def idle_def t)
qed

lemma scene_finish_inv:
  assumes i: "scene_inv env s0 s" and m: "msgs_ok (scene_active s) msgs" and r: "scene_finish env msgs s = (Inr r, t)"
  shows "scene_inv env s0 t \<and> scene_done env t"
proof -
  let ?u = "s\<lparr>sq_phase := runQueueCleanUp\<rparr>"
  have "scene_core ?u = scene_core s" "sq_stats ?u = sq_stats s" by (simp_all add: scene_core_def)
  note c = scene_inv_core [OF this, of env s0]
  show ?thesis
  proof (cases "active (sq_stats s) > 0")
    case True
    then have "scene_read_workers env msgs ?u = (Inr (), t)" using r by (auto simp: scene_finish_def sbind_eq_Inr)
    with scene_read_workers_inv [of env s0 ?u "scene_active s" msgs t] c i m show ?thesis by (auto simp: scene_done_def)
  next
    case False
    then have t: "t = s\<lparr>sq_phase := runQueueComplete\<rparr>" using r by (auto simp: scene_finish_def scene_finish_now_def sbind_eq_Inr)
    have "scene_core t = scene_core s" "sq_stats t = sq_stats s" by (simp_all add: t scene_core_def)
    from scene_inv_core [OF this, of env s0] i show ?thesis by (simp add: scene_done_def t)
  qed
qed

section \<open>Steps of the phase\<close>

text \<open>The workers report whatever they like on the tasks they have.\<close>

inductive scene_step :: "scene_env \<Rightarrow> scene_state \<Rightarrow> scene_state \<Rightarrow> bool" for env where
  goes_on: "sq_phase s = runQueueSceneRun \<Longrightarrow> msgs_ok (scene_active s) msgs \<Longrightarrow>
    scene_execute_start env msgs s = (Inr True, t) \<Longrightarrow> scene_step env s t"
| waits: "sq_phase s = runQueueSceneRun \<Longrightarrow> msgs_ok (scene_active s) msgs \<Longrightarrow>
    scene_execute_start env msgs s = (Inr False, u) \<Longrightarrow> msgs_ok (scene_active u) msgs2 \<Longrightarrow>
    scene_execute_wait env msgs2 u = (Inr r, t) \<Longrightarrow> scene_step env s t"
| finishes: "sq_phase s = runQueueCleanUp \<Longrightarrow> msgs_ok (scene_active s) msgs \<Longrightarrow>
    scene_finish env msgs s = (Inr r, t) \<Longrightarrow> scene_step env s t"

lemma scene_step_inv:
  assumes "scene_step env s t" "scene_inv env s0 s" "0 < x_number_tasks (sq_exec env)"
  shows "scene_inv env s0 t \<and> scene_done env t"
  using assms(1)
proof cases
  case (goes_on msgs)
  from scene_execute_start_inv [OF assms(2) goes_on(2,3)] goes_on(1) show ?thesis by (auto simp: scene_done_def)
next
  case (waits msgs u msgs2 r)
  from scene_execute_start_inv [OF assms(2) waits(2,3)] waits(1)
  have "scene_inv env s0 u" "sq_phase u \<noteq> runQueueRunInit"
    "active (sq_stats u) \<ge> x_number_tasks (sq_exec env) \<or> idle env u" by auto
  from scene_execute_wait_inv [OF this(1) waits(4,5) this(2) assms(3) this(3)] show ?thesis .
next
  case (finishes msgs r)
  from scene_finish_inv [OF assms(2) finishes(2,3)] show ?thesis .
qed

section \<open>The start of the phase\<close>

lemma set_add_result:
  "set_add k x d = Inr d' \<Longrightarrow> keys d' = keys d \<and> (\<forall>t. at d' t = at d t \<union> (if t = k then {x} else {})) \<and> k \<in> set (keys d)"
  by (auto simp: set_add_def rbind_eq_Inr keys_dset_mem map_of_keys at_def dget_or_def)

lemma set_adds_result:
  "rfold (\<lambda>dep. set_add dep tid) deps d = Inr d' \<Longrightarrow>
    keys d' = keys d \<and> (\<forall>t. at d' t = at d t \<union> (if t \<in> set deps then {tid} else {})) \<and> set deps \<subseteq> set (keys d)"
proof (induction deps arbitrary: d)
  case (Cons k deps)
  then obtain d1 where "set_add k tid d = Inr d1" "rfold (\<lambda>dep. set_add dep tid) deps d1 = Inr d'"
    by (auto simp: rbind_eq_Inr)
  with Cons.IH [OF this(2)] set_add_result [OF this(1)] show ?case by auto
qed simp

lemma at_mem:
  assumes "distinct (keys d)"
  shows "x \<in> at d t \<longleftrightarrow> (\<exists>r. (t, r) \<in> set d \<and> x \<in> set r)"
proof (cases "map_of d t")
  case None
  then have "at d t = {}" by (simp add: at_def dget_or_def)
  with None in_keys [of t _ d] show ?thesis by (auto simp: map_of_eq_None_iff keys_def)
next
  case (Some r)
  with assms at_entry [OF assms, of t] show ?thesis by (auto dest: map_of_SomeD)
qed

lemma invert_deps_result:
  assumes "invert_deps sq = Inr deps" "distinct (keys sq)"
  shows "keys deps = keys sq" and "t \<in> at deps x \<longleftrightarrow> x \<in> at sq t" and "x \<in> at sq t \<Longrightarrow> x \<in> set (keys sq)"
proof -
  have "rfold (\<lambda>(tid, deps). rfold (\<lambda>dep. set_add dep tid) deps) ps d = Inr d' \<Longrightarrow>
    keys d' = keys d \<and> (\<forall>x. at d' x = at d x \<union> {t. \<exists>r. (t, r) \<in> set ps \<and> x \<in> set r}) \<and>
    (\<forall>(t, r) \<in> set ps. set r \<subseteq> set (keys d))" for ps d d'
  proof (induction ps arbitrary: d)
    case (Cons p ps)
    obtain t r where p: "p = (t, r)" by force
    from Cons.prems obtain d1 where "rfold (\<lambda>dep. set_add dep t) r d = Inr d1"
      "rfold (\<lambda>(tid, deps). rfold (\<lambda>dep. set_add dep tid) deps) ps d1 = Inr d'" by (auto simp: p rbind_eq_Inr)
    with Cons.IH [OF this(2)] set_adds_result [OF this(1)] show ?case by (auto simp: p)
  qed simp
  note loop = this
  define d0 :: tid_sets where "d0 = map (\<lambda>(tid, _). (tid, [])) sq"
  from loop [of sq d0 deps] assms(1) have k: "keys deps = keys d0"
    and a: "\<And>x. at deps x = at d0 x \<union> {t. \<exists>r. (t, r) \<in> set sq \<and> x \<in> set r}"
    and i: "\<And>t r. (t, r) \<in> set sq \<Longrightarrow> set r \<subseteq> set (keys d0)" by (auto simp: invert_deps_def d0_def)
  have k0: "keys d0 = keys sq" by (auto simp: keys_def d0_def)
  have "at d0 x = {}" for x unfolding d0_def by (induction sq) (auto simp: at_def dget_or_def)
  moreover have e: "x \<in> at sq t \<longleftrightarrow> (\<exists>r. (t, r) \<in> set sq \<and> x \<in> set r)" for x t
    by (rule at_mem [OF assms(2)])
  ultimately show "t \<in> at deps x \<longleftrightarrow> x \<in> at sq t" by (simp add: a)
  show "keys deps = keys sq" by (simp add: k k0)
  show "x \<in> set (keys sq)" if "x \<in> at sq t"
    using that i unfolding e k0 by blast
qed

lemma rfold_distinct:
  assumes "rfold f xs d = Inr d'" "distinct (keys d)" "\<And>x d d'. distinct (keys d) \<Longrightarrow> f x d = Inr d' \<Longrightarrow> distinct (keys d')"
  shows "distinct (keys d')"
  by (rule rfold_inv [OF assms(1), where P = "\<lambda>d. distinct (keys d)"]) (use assms(2,3) in blast)+

lemma scene_graph_distinct:
  assumes "scene_graph env es S = Inr (deps, sq, hard, ts)"
  shows "distinct (keys sq) \<and> invert_deps sq = Inr deps"
proof -
  obtain new sq1 sq2 where q: "squash es S new = Inr sq1" and h: "hard_deps env es S sq1 = Inr (hard, sq2)"
    and a: "add_hard_deps hard sq2 = Inr sq" and i: "invert_deps sq = Inr deps"
    using assms by (auto simp: scene_graph_def rbind_eq_Inr)
  have "distinct (keys sq1)"
    by (rule rfold_distinct [OF q [unfolded squash_def]]) (auto simp: rbind_eq_Inr keys_def [of "[]"] split: if_splits)
  then have "distinct (keys (snd (hard, sq2)))"

  proof (rule_tac rfold_inv [OF h [unfolded hard_deps_def], where P = "\<lambda>acc. distinct (keys (snd acc))"])
    fix tid acc b
    assume d: "distinct (keys (snd acc))" and f: "rbind (split_tid_mcfn tid) (\<lambda>(mc, fn, taskname, _).
     rbind (dget (q_taskData env) mc) (\<lambda>td.
     rbind (dget (taskentries td) (fn @ '':'' @ taskname @ setscene_suffix)) (\<lambda>te.
       rfold (hard_dep es td tid) (idepends te) acc))) = Inr b"
    then obtain td :: taskdata and te :: task_entry where r: "rfold (hard_dep es td tid) (idepends te) acc = Inr b"
      by (auto simp: rbind_eq_Inr intro: that)
    show "distinct (keys (snd b))"
      by (rule rfold_inv [OF r, where P = "\<lambda>acc. distinct (keys (snd acc))"])
        (use d in \<open>auto simp: hard_dep_def rbind_eq_Inr Let_def split: if_splits prod.splits\<close>)
  qed simp
  then have "distinct (keys sq2)" by simp
  moreover have "keys sq = keys sq2"
  proof (rule rfold_inv [OF a [unfolded add_hard_deps_def], where P = "\<lambda>d. keys d = keys sq2"])
    fix x d b assume k: "keys d = keys sq2" and f: "(case x of (task, deps) \<Rightarrow> rfold (\<lambda>dep. set_add dep task) deps) d = Inr b"
    obtain task ds where "x = (task, ds)" by force
    with f have "rfold (\<lambda>dep. set_add dep task) ds d = Inr b" by simp
    from set_adds_result [OF this] k show "keys b = keys sq2" by simp
  qed simp
  ultimately show ?thesis using i by simp
qed

lemma skip_revdeps: "scene_task_skip task s = (Inr (), t) \<Longrightarrow> sq_revdeps t = sq_revdeps s"
  by (auto simp: scene_task_skip_def scene_completeoutright_def sbind_eq_Inr counted_off_def dest!: updatecounters_counts)

lemma scene_candidate_inv:
  assumes i: "scene_inv env s0 s" and t: "tid \<notin> set (sq_running s)" and r: "scene_candidate env now tid s = (Inr k, t)"
  shows "scene_inv env s0 t \<and> set (sq_running t) \<subseteq> insert tid (set (sq_running s)) \<and> sq_revdeps t = sq_revdeps s"
proof -
  have skip: "scene_inv env s0 v \<and> set (sq_running v) \<subseteq> insert tid (set (sq_running s)) \<and> sq_revdeps v = sq_revdeps s"
    if "scene_task_skip tid u = (Inr (), v)" "scene_core u = scene_core s" "sq_stats u = sq_stats s" "sq_revdeps u = sq_revdeps s" for u v
  proof -
    from scene_inv_core [OF that(2,3), of env s0] i t have "scene_inv env s0 u" "tid \<notin> set (sq_running u)" "sq_running u = sq_running s"
      by simp_all
    with scene_task_skip_inv [OF this(1,2) that(1)] skip_revdeps [OF that(1)] that(4) show ?thesis by simp
  qed
  have cs: "scene_core v = scene_core u \<and> sq_stats v = sq_stats u \<and> sq_revdeps v = sq_revdeps u"
    if "scene_check_stamp env rc tid nm u = (Inr b, v)" for rc nm u b v
    using scene_check_stamp_state [OF that] by (auto simp: scene_core_def)
  have files: "scene_inv env s0 (u\<lparr>sq_files := fs\<rparr>) \<and> set (sq_running (u\<lparr>sq_files := fs\<rparr>)) = set (sq_running u) \<and>
      sq_revdeps (u\<lparr>sq_files := fs\<rparr>) = sq_revdeps u" if "scene_inv env s0 u" for u fs
    using that scene_inv_core [of "u\<lparr>sq_files := fs\<rparr>" u env s0] by (simp add: scene_core_def)
  obtain mc fn taskname taskfn dc taskdep where
    r1: "(if task_flag taskdep ''noexec'' taskname \<noteq> None
     then sbind (scene_task_skip tid) (\<lambda>_.
       sbind (sres (\<lambda>s. make_stamp (x_siggen (sq_exec env)) now (taskname @ setscene_suffix) (Core dc taskfn) (sq_files s))) (\<lambda>(_, fs).
       sbind (supd (\<lambda>s. s\<lparr>sq_files := fs\<rparr>)) (\<lambda>_. sret NoExec)))
     else sbind (scene_check_stamp env False tid (taskname @ setscene_suffix)) (\<lambda>current.
     if current then sbind (scene_task_skip tid) (\<lambda>_. sret StampPresent)
     else sbind (scene_check_stamp env True tid taskname) (\<lambda>current.
     if current then sbind (scene_task_skip tid) (\<lambda>_. sret StampPresent)
     else sbind (sres (\<lambda>_. dget (hashfn dc) fn)) (\<lambda>hf.
       sbind (sres (\<lambda>_. dget (scene_tasks env) tid)) (\<lambda>e. sret (Candidate fn taskname (rt_hash e) hf)))))) s = (Inr k, t)"
    using r unfolding scene_candidate_def by (auto simp: sbind_eq_Inr)
  show ?thesis
  proof (cases "task_flag taskdep ''noexec'' taskname \<noteq> None")
    case True
    with r1 obtain u fs where u: "scene_task_skip tid s = (Inr (), u)" and e: "t = u\<lparr>sq_files := fs\<rparr>" by (auto simp: sbind_eq_Inr)
    from skip [OF u] files [of u fs] show ?thesis by (simp add: e)
  next
    case False
    with r1 obtain b u where u: "scene_check_stamp env False tid (taskname @ setscene_suffix) s = (Inr b, u)"
      and r2: "(if b then sbind (scene_task_skip tid) (\<lambda>_. sret StampPresent)
     else sbind (scene_check_stamp env True tid taskname) (\<lambda>current.
     if current then sbind (scene_task_skip tid) (\<lambda>_. sret StampPresent)
     else sbind (sres (\<lambda>_. dget (hashfn dc) fn)) (\<lambda>hf.
       sbind (sres (\<lambda>_. dget (scene_tasks env) tid)) (\<lambda>e. sret (Candidate fn taskname (rt_hash e) hf))))) u = (Inr k, t)"
      by (auto simp: sbind_eq_Inr)
    show ?thesis
    proof (cases b)
      case True
      with r2 have "scene_task_skip tid u = (Inr (), t)" by (auto simp: sbind_eq_Inr)
      from skip [OF this] cs [OF u] show ?thesis by simp
    next
      case False
      with r2 obtain b2 v where v: "scene_check_stamp env True tid taskname u = (Inr b2, v)"
        and e: "(b2 \<and> scene_task_skip tid v = (Inr (), t)) \<or> t = v" by (auto simp: sbind_eq_Inr split: if_splits)
      have "scene_core v = scene_core s" "sq_stats v = sq_stats s" "sq_revdeps v = sq_revdeps s" using cs [OF u] cs [OF v] by simp_all
      with e skip [of v t] scene_inv_core [OF this(1,2), of env s0] i show ?thesis by auto
    qed
  qed
qed

lemma scene_candidates_inv:
  "scene_inv env s0 s \<Longrightarrow> set tids \<inter> set (sq_running s) = {} \<Longrightarrow> distinct tids \<Longrightarrow> scene_candidates env now tids s = (Inr ks, t) \<Longrightarrow>
    scene_inv env s0 t \<and> sq_revdeps t = sq_revdeps s"
proof (induction tids arbitrary: s ks)
  case (Cons tid tids)
  then obtain k u ks' where u: "scene_candidate env now tid s = (Inr k, u)" "scene_candidates env now tids u = (Inr ks', t)"
    by (auto simp: sbind_eq_Inr)
  have "tid \<notin> set (sq_running s)" using Cons.prems(2) by simp
  from scene_candidate_inv [OF Cons.prems(1) this u(1)]
  have c: "scene_inv env s0 u" "set (sq_running u) \<subseteq> insert tid (set (sq_running s))" "sq_revdeps u = sq_revdeps s" by blast+
  with Cons.prems(2,3) have "set tids \<inter> set (sq_running u) = {}" "distinct tids" by auto
  from Cons.IH [OF c(1) this u(2)] c(3) show ?case by simp
qed simp

lemma scene_validate_inv:
  assumes i: "scene_inv env s0 s" and d: "distinct (keys (sq_revdeps s))" "sq_running s = []" and r: "scene_validate env now s = (Inr (), t)"
  shows "scene_inv env s0 t \<and> sq_revdeps t = sq_revdeps s"
proof (cases "sq_hashvalidate env")
  case None
  with r i show ?thesis by (simp add: scene_validate_def)
next
  case (Some hv)
  with r obtain ks u valid where c: "scene_candidates env now (keys (sq_revdeps s)) s = (Inr ks, u)"
    and t: "t = u\<lparr>sq_outrightfail := map fst (filter (\<lambda>(tid, k). is_candidate k \<and> tid \<notin> set valid) ks)\<rparr>"
    by (auto simp: scene_validate_def sbind_eq_Inr)
  from scene_candidates_inv [OF i _ d(1) c] d(2) have "scene_inv env s0 u" "sq_revdeps u = sq_revdeps s" by simp_all
  moreover have "scene_core t = scene_core u" "sq_stats t = sq_stats u" by (simp_all add: t scene_core_def)
  ultimately show ?thesis using scene_inv_core [of t u env s0] by (simp add: t)
qed

text \<open>What the constructor leaves, with the graph of the setscene tasks it has made.\<close>

lemma scene_init_inv:
  assumes "scene_init env now fs = Inr (Some s0)"
  obtains deps hard ts where "scene_graph (x_rq (sq_exec env)) (scene_tasks env) (scene_tids env) = Inr (deps, sq_revdeps s0, hard, ts)"
    "sq_deps s0 = deps" "sq_harddeps s0 = hard" "scene_inv env s0 s0" "scene_done env s0" "0 < x_number_tasks (sq_exec env)"
proof -
  have n: "0 < x_number_tasks (sq_exec env)"
    and i: "rbind (scene_graph (x_rq (sq_exec env)) (scene_tasks env) (scene_tids env)) (\<lambda>g.
        case scene_validate env now (scene_start env fs g) of
          (Inl e, _) \<Rightarrow> Inl e | (Inr _, s) \<Rightarrow> Inr (Some (s\<lparr>sq_phase := runQueueSceneRun\<rparr>))) = Inr (Some s0)"
    using assms by (simp_all add: scene_init_def split: if_splits)
  then obtain g0 where "scene_graph (x_rq (sq_exec env)) (scene_tasks env) (scene_tids env) = Inr g0"
    and "(case scene_validate env now (scene_start env fs g0) of
          (Inl e, _) \<Rightarrow> Inl e | (Inr _, s) \<Rightarrow> Inr (Some (s\<lparr>sq_phase := runQueueSceneRun\<rparr>))) = Inr (Some s0)"
    unfolding rbind_eq_Inr by blast
  moreover obtain deps sq hard ts where "g0 = (deps, sq, hard, ts)" by (metis prod.exhaust)
  moreover obtain x s where "scene_validate env now (scene_start env fs g0) = (x, s)" by force
  ultimately have g: "scene_graph (x_rq (sq_exec env)) (scene_tasks env) (scene_tids env) = Inr (deps, sq, hard, ts)"
    and v: "scene_validate env now (scene_start env fs (deps, sq, hard, ts)) = (Inr (), s)"
    and s0: "s0 = s\<lparr>sq_phase := runQueueSceneRun\<rparr>"
    by (auto split: sum.splits)
  let ?a = "scene_start env fs (deps, sq, hard, ts)"
  from scene_graph_distinct [OF g] have d: "distinct (keys sq)" and iv: "invert_deps sq = Inr deps" by simp_all
  have np: "\<not> passed ?a x t" for x t by (simp add: passed_def hopeless_def reach_def scene_start_def)
  have b: "t \<in> set (keys (filter (\<lambda>(tid, r). r = []) sq)) \<longleftrightarrow> t \<in> set (keys sq) \<and> at sq t = {}" for t
    using key_in [of t sq] at_entry [OF d, of t] by (force simp: keys_def)
  have "count_inv ?a ?a" using np by (simp add: count_inv_def) (simp add: scene_start_def)
  moreover have "settle_inv ?a ?a" by (auto simp: settle_inv_def scene_start_def b)
  moreover have "stats_inv env ?a" using n by (simp add: stats_inv_def init_stats_def scene_start_def)
  ultimately have "scene_inv env ?a ?a" by (simp add: scene_inv_def)
  from scene_validate_inv [OF this _ _ v] d have i: "scene_inv env ?a s" and r: "sq_revdeps s = sq"
    by (simp_all add: scene_start_def)
  then have c: "sq_deps s = deps" "sq_harddeps s = hard" by (simp_all add: scene_inv_def count_inv_def scene_start_def)
  have "scene_core s0 = scene_core s" "sq_stats s0 = sq_stats s" by (simp_all add: s0 scene_core_def)
  from scene_inv_core [OF this, of env ?a] i have "scene_inv env ?a s0" by simp
  moreover have "sq_revdeps ?a = sq_revdeps s0" "sq_deps ?a = sq_deps s0" "sq_harddeps ?a = sq_harddeps s0"
    by (simp_all add: s0 r c) (simp_all add: scene_start_def)
  ultimately have "scene_inv env s0 s0" by (simp add: scene_inv_def count_inv_def settle_inv_def ready_def)
  moreover have "scene_done env s0" by (simp add: scene_done_def s0)
  moreover have "sq_revdeps s0 = sq" "sq_deps s0 = deps" "sq_harddeps s0 = hard" by (simp_all add: s0 r c)
  ultimately show thesis using that [of deps hard ts] g n by simp
qed

lemma scene_reach_inv:
  assumes "(scene_step env)\<^sup>*\<^sup>* s0 s" "scene_init env now fs = Inr (Some s0)"
  shows "scene_inv env s0 s \<and> scene_done env s"
proof -
  obtain "scene_inv env s0 s0" "scene_done env s0" "0 < x_number_tasks (sq_exec env)"
    by (rule scene_init_inv [OF assms(2)]) blast
  with assms(1) show ?thesis
    by (induction rule: rtranclp_induct) (use scene_step_inv in blast)+
qed

text \<open>Without hard dependencies the graph is the squashed one.\<close>

lemma scene_graph_simple:
  assumes "scene_graph env es S = Inr (deps, sq, [], ts)"
  shows "\<exists>new. process_endpoints es S = Inr new \<and> squash es S new = Inr sq"
proof -
  obtain new sq1 sq2 where n: "process_endpoints es S = Inr new" and q: "squash es S new = Inr sq1"
    and h: "hard_deps env es S sq1 = Inr ([], sq2)" and a: "add_hard_deps [] sq2 = Inr sq"
    using assms by (auto simp: scene_graph_def rbind_eq_Inr)
  let ?P = "\<lambda>acc :: tid_sets \<times> tid_sets. fst acc = [] \<longrightarrow> snd acc = sq1"
  have "?P ([], sq2)"
  proof (rule rfold_inv [OF h [unfolded hard_deps_def]])
    fix tid acc b
    assume P: "?P acc" and "rbind (split_tid_mcfn tid) (\<lambda>(mc, fn, taskname, _).
     rbind (dget (q_taskData env) mc) (\<lambda>td.
     rbind (dget (taskentries td) (fn @ '':'' @ taskname @ setscene_suffix)) (\<lambda>te.
       rfold (hard_dep es td tid) (idepends te) acc))) = Inr b"
    then obtain td :: taskdata and te :: task_entry where r: "rfold (hard_dep es td tid) (idepends te) acc = Inr b"
      by (auto simp: rbind_eq_Inr intro: that)
    have ne: "dset k v d \<noteq> []" for k :: string and v :: "string list" and d
    proof
      assume e: "dset k v d = []"
      have "k \<in> set (keys (dset k v d))" by simp
      then show False unfolding e by simp
    qed
    show "?P b"
      by (rule rfold_inv [OF r, where P = ?P])
        (use P ne in \<open>auto simp: hard_dep_def rbind_eq_Inr Let_def split: if_splits prod.splits\<close>)
  qed simp
  with n q a show ?thesis by (auto simp: add_hard_deps_def)
qed

section \<open>An example\<close>

text \<open>The two tasks of \<open>exec_example\<close> as setscene tasks, and three calls: the upper one fails, the lower one succeeds.\<close>

definition scene_env_example :: scene_env where
  "scene_env_example =
    (let te = \<lparr>tdepends = [], idepends = [], irdepends = []\<rparr>;
         td = (init_taskdata True False [] False)\<lparr>taskentries := [(''a:x_setscene'', te), (''b:x_setscene'', te)]\<rparr>
     in \<lparr>sq_exec = exec_example\<lparr>x_rq := (x_rq exec_example)\<lparr>q_taskData := [('''', td)]\<rparr>,
           x_data := (x_data exec_example)\<lparr>runq_setscene_tids := [''a:x'', ''b:x'']\<rparr>\<rparr>,
         sq_hashvalidate = None, sq_depvalidate = None\<rparr>)"

definition scene_run :: "scene_state list" where
  "scene_run = (case scene_init scene_env_example 1 [] of
     Inr (Some s0) \<Rightarrow> (let s1 = snd (scene_execute_start scene_env_example [] s0);
        s2 = snd (scene_execute_start scene_env_example [ExitCode ''b:x'' 1] s1);
        s3 = snd (scene_execute_start scene_env_example [ExitCode ''a:x'' 0] s2) in [s0, s1, s2, s3])
   | _ \<Rightarrow> [])"

lemma scene_run_values:
  "map (\<lambda>s. (sq_phase s, sq_covered s, sq_notcovered s, sq_running s, map snd (sq_sent s), sq_harddeps s, active (sq_stats s))) scene_run =
    [(runQueueSceneRun, [], [], [], [], [], 0),
     (runQueueSceneRun, [], [], [''b:x''], [''b:x''], [], 1),
     (runQueueSceneRun, [], [''b:x''], [''b:x'', ''a:x''], [''b:x'', ''a:x''], [], 1),
     (runQueueSceneRun, [''a:x''], [''b:x''], [''b:x'', ''a:x''], [''b:x'', ''a:x''], [], 0)]"
  by code_simp

lemma scene_run_returns:
  "case scene_run of [s0, s1, s2, s3] \<Rightarrow>
     fst (scene_execute_start scene_env_example [] s0) = Inr True \<and>
     fst (scene_execute_start scene_env_example [ExitCode ''b:x'' 1] s1) = Inr True \<and>
     fst (scene_execute_start scene_env_example [ExitCode ''a:x'' 0] s2) = Inr False
   | _ \<Rightarrow> False"
  by code_simp

lemma scene_example_steps:
  obtains s0 s1 s2 s3 s4 where "scene_run = [s0, s1, s2, s3]" "scene_init scene_env_example 1 [] = Inr (Some s0)"
    "scene_execute_start scene_env_example [] s0 = (Inr True, s1)" "(scene_step scene_env_example)\<^sup>*\<^sup>* s0 s2"
    "(scene_step scene_env_example)\<^sup>*\<^sup>* s0 s4"
    "s4 = s3\<lparr>sq_result := Some ([''a:x''], [''b:x'']), sq_phase := runQueueRunInit\<rparr>"
proof -
  have l: "length scene_run = 4" using arg_cong [OF scene_run_values, of length] by simp
  then obtain s0 where i: "scene_init scene_env_example 1 [] = Inr (Some s0)"
    unfolding scene_run_def by (auto split: sum.splits option.splits)
  define s1 where "s1 = snd (scene_execute_start scene_env_example [] s0)"
  define s2 where "s2 = snd (scene_execute_start scene_env_example [ExitCode ''b:x'' 1] s1)"
  define s3 where "s3 = snd (scene_execute_start scene_env_example [ExitCode ''a:x'' 0] s2)"
  have r: "scene_run = [s0, s1, s2, s3]" by (simp add: scene_run_def i s1_def s2_def s3_def Let_def)
  have v: "sq_phase s0 = runQueueSceneRun" "sq_phase s1 = runQueueSceneRun" "sq_phase s2 = runQueueSceneRun"
    "scene_active s0 = {}" "scene_active s1 = {''b:x''}" "scene_active s2 = {''a:x''}"
    "sq_covered s3 = [''a:x'']" "sq_notcovered s3 = [''b:x'']" "active (sq_stats s3) = 0"
    using scene_run_values unfolding r scene_active_def by auto
  have st: "scene_execute_start scene_env_example [] s0 = (Inr True, s1)"
    "scene_execute_start scene_env_example [ExitCode ''b:x'' 1] s1 = (Inr True, s2)"
    "scene_execute_start scene_env_example [ExitCode ''a:x'' 0] s2 = (Inr False, s3)"
    using scene_run_returns unfolding r by (simp_all add: s1_def s2_def s3_def prod_eq_iff)
  define s4 where "s4 = s3\<lparr>sq_result := Some ([''a:x''], [''b:x'']), sq_phase := runQueueRunInit\<rparr>"
  have w: "scene_execute_wait scene_env_example [] s3 = (Inr RTrue, s4)"
    using v by (simp add: scene_execute_wait_def sm_defs s4_def)
  have 1: "scene_step scene_env_example s0 s1" by (rule scene_step.goes_on [OF v(1) _ st(1)]) simp
  have 2: "scene_step scene_env_example s1 s2" by (rule scene_step.goes_on [OF v(2) _ st(2)]) (simp add: v)
  have 3: "scene_step scene_env_example s2 s4" by (rule scene_step.waits [OF v(3) _ st(3) _ w]) (simp_all add: v)
  note s2 = rtranclp.rtrancl_into_rtrancl [OF r_into_rtranclp [of "scene_step scene_env_example", OF 1] 2]
  show thesis by (rule that [OF r i st(1) s2 rtranclp.rtrancl_into_rtrancl [OF s2 3] s4_def])
qed

section \<open>The theorems\<close>

lemma scene_active_card:
  assumes "scene_inv env s0 s"
  shows "active (sq_stats s) = int (card (scene_active s))"
proof -
  have t: "settle_inv s0 s" and st: "stats_inv env s" using assms by (simp_all add: scene_inv_def)
  have u: "scene_active s = set (sq_running s) - (set (sq_covered s) \<union> set (sq_notcovered s))" by (auto simp: scene_active_def)
  have "card (set (sq_covered s) \<union> set (sq_notcovered s)) = length (sq_covered s) + length (sq_notcovered s)"
    using t by (simp add: settle_inv_def card_Un_disjoint distinct_card)
  moreover have "card (set (sq_covered s) \<union> set (sq_notcovered s)) \<le> card (set (sq_running s))"
    using t by (intro card_mono) (auto simp: settle_inv_def)
  ultimately show ?thesis unfolding u using t st
    by (subst card_Diff_subset) (auto simp: settle_inv_def stats_inv_def distinct_card)
qed

lemma scene_active_none: "scene_inv env s0 s \<Longrightarrow> active (sq_stats s) \<le> 0 \<Longrightarrow> scene_active s = {}"
  using scene_active_card [of env s0 s] by (simp add: scene_active_def)

text \<open>
  C6. Whatever the workers report, a setscene task is given to a worker only after every setscene
  task above it is settled: it has succeeded, or it has failed or was passed over and the task
  does not need its result; so the result of a stated (hard) dependency is always there.  No task
  both succeeds and fails, and the statistics count the tasks at the workers, never more than
  allowed, and the settled ones.
\<close>

theorem scene_tasks_safe:
  assumes "scene_init env now fs = Inr (Some s0)" "(scene_step env)\<^sup>*\<^sup>* s0 s"
  shows "(\<forall>(fakeroot, t) \<in> set (sq_sent s). \<forall>x \<in> at (sq_revdeps s0) t.
      x \<in> set (sq_covered s) \<or> x \<in> hopeless s \<and> t \<notin> at (sq_harddeps s0) x) \<and>
    set (sq_covered s) \<inter> set (sq_notcovered s) = {} \<and>
    active (sq_stats s) = int (card (scene_active s)) \<and> active (sq_stats s) \<le> x_number_tasks (sq_exec env) \<and>
    completed (sq_stats s) + failed (sq_stats s) = int (card (set (sq_covered s) \<union> set (sq_notcovered s)))"
proof -
  obtain deps hard ts where g: "scene_graph (x_rq (sq_exec env)) (scene_tasks env) (scene_tids env) = Inr (deps, sq_revdeps s0, hard, ts)"
    and d: "sq_deps s0 = deps" by (rule scene_init_inv [OF assms(1)])
  from scene_graph_distinct [OF g] have iv: "distinct (keys (sq_revdeps s0))" "invert_deps (sq_revdeps s0) = Inr deps" by simp_all
  from scene_reach_inv [OF assms(2,1)] have c: "count_inv s0 s" and t: "settle_inv s0 s" and st: "stats_inv env s"
    by (simp_all add: scene_inv_def)
  have h: "(x, t) \<notin> hard_rel s \<longleftrightarrow> t \<notin> at (sq_harddeps s0) x" if "x \<in> at (sq_revdeps s0) t" for x t
    using that c invert_deps_result(2) [OF iv(2,1)] by (simp add: count_inv_def hard_rel_def d)
  have "\<forall>(fakeroot, t) \<in> set (sq_sent s). \<forall>x \<in> at (sq_revdeps s0) t.
      x \<in> set (sq_covered s) \<or> x \<in> hopeless s \<and> t \<notin> at (sq_harddeps s0) x"
    using t h unfolding settle_inv_def ready_def passed_def by fast
  moreover have "int (card (set (sq_covered s) \<union> set (sq_notcovered s))) = int (length (sq_covered s)) + int (length (sq_notcovered s))"
    using t by (simp add: settle_inv_def card_Un_disjoint distinct_card)
  moreover have "active (sq_stats s) = int (card (scene_active s))" using scene_reach_inv [OF assms(2,1)] scene_active_card by blast
  ultimately show ?thesis using t st by (simp add: settle_inv_def stats_inv_def)
qed

lemma scene_tasks_safe_witness:
  "\<exists>s0 s. (scene_step scene_env_example)\<^sup>*\<^sup>* s0 s \<and> sq_running s = [''b:x'', ''a:x''] \<and> card (scene_active s) = 1"
proof (rule scene_example_steps)
  fix s0 s1 s2 s3 s4
  assume r: "scene_run = [s0, s1, s2, s3]" and i: "scene_init scene_env_example 1 [] = Inr (Some s0)"
    and s2: "(scene_step scene_env_example)\<^sup>*\<^sup>* s0 s2"
  have v: "sq_running s2 = [''b:x'', ''a:x'']" "active (sq_stats s2) = 1" using scene_run_values unfolding r by auto
  from scene_tasks_safe [OF i s2] v(2) have "card (scene_active s2) = 1" by simp
  with s2 v(1) show ?thesis by blast
qed

text \<open>When the phase ends, a task of an acyclic queue that is not settled was passed over.\<close>

lemma scene_end:
  assumes i: "scene_inv env s0 s" and d: "distinct (keys (sq_revdeps s0))" "invert_deps (sq_revdeps s0) = Inr (sq_deps s0)"
    and k: "set (keys (sq_revdeps s0)) \<subseteq> set (scene_tids env)" and ac: "acyclic {(u, t). u \<in> at (sq_revdeps s0) t}"
    and e: "active (sq_stats s) \<le> 0" "idle env s" and t: "t \<in> set (keys (sq_revdeps s0))"
  shows "t \<in> set (sq_covered s) \<or> t \<in> hopeless s"
proof -
  let ?r = "{(u, t). u \<in> at (sq_revdeps s0) t}"
  have c: "count_inv s0 s" and se: "settle_inv s0 s" and st: "stats_inv env s" using i by (simp_all add: scene_inv_def)
  have run: "x \<in> set (sq_covered s) \<union> set (sq_notcovered s)" if "x \<in> set (sq_running s)" for x
    using scene_active_none [OF i e(1)] that by (auto simp: scene_active_def)
  have nh: "x \<in> hopeless s" if "x \<in> set (sq_notcovered s)" for x using that by (auto simp: hopeless_def reach_def)
  have "?r \<subseteq> set (keys (sq_revdeps s0)) \<times> set (keys (sq_revdeps s0))"
    using invert_deps_result(3) [OF d(2,1)] by (auto simp: at_def dest: dget_or_mem)
  then have "finite ?r" by (rule finite_subset) simp
  from finite_acyclic_wf [OF this ac] have "wf ?r" .
  then show ?thesis using t
  proof (induction t)
    case (less t)
    have up: "x \<in> set (sq_covered s) \<or> x \<in> hopeless s" if "x \<in> at (sq_revdeps s0) t" for x
      using less.IH [of x] that invert_deps_result(3) [OF d(2,1) that] by simp
    show ?case
    proof (cases "at (sq_revdeps2 s) t = {}")
      case True
      then have "t \<in> set (sq_buildable s)" using se less.prems by (simp add: settle_inv_def)
      then have "t \<in> set (sq_running s)" using e(2) k less.prems by (auto simp: idle_def)
      with run nh show ?thesis by blast
    next
      case False
      then obtain x where x: "x \<in> at (sq_revdeps2 s) t" by blast
      then have x0: "x \<in> at (sq_revdeps s0) t" using c by (auto simp: count_inv_def)
      then have "t \<in> at (sq_deps s0) x" using invert_deps_result(2) [OF d(2,1)] by blast
      with x c have "\<not> passed s x t" by (auto simp: count_inv_def)
      with up [OF x0] have "x \<in> hopeless s" "(x, t) \<in> hard_rel s" by (auto simp: passed_def)
      then show ?thesis by (auto simp: hopeless_def reach_def intro: rtrancl_into_rtrancl)
    qed
  qed
qed

text \<open>
  C7. When the phase hands over to the execution of the tasks, every setscene task has been
  settled, if no setscene task states a dependency on another: each is handed over as covered or as
  not covered, none as both, and no worker has a task.
\<close>

theorem scene_all_settled:
  assumes "graph_ok (scene_tasks env)" "acyclic (dep_rel (scene_tasks env))" "set (scene_tids env) \<subseteq> set (keys (scene_tasks env))"
    "scene_init env now fs = Inr (Some s0)" "sq_harddeps s0 = []" "(scene_step env)\<^sup>*\<^sup>* s0 s" "sq_phase s = runQueueRunInit"
  shows "\<exists>covered notcovered. sq_result s = Some (covered, notcovered) \<and> set (scene_tids env) \<subseteq> set covered \<union> set notcovered \<and>
    set covered \<inter> set notcovered = {} \<and> scene_active s = {}"
proof -
  obtain ts where g: "scene_graph (x_rq (sq_exec env)) (scene_tasks env) (scene_tids env) = Inr (sq_deps s0, sq_revdeps s0, [], ts)"
    by (rule scene_init_inv [OF assms(4)]) (use assms(5) that in simp)
  from scene_graph_distinct [OF g] have d: "distinct (keys (sq_revdeps s0))" "invert_deps (sq_revdeps s0) = Inr (sq_deps s0)"
    by simp_all
  from scene_graph_simple [OF g] obtain new where "process_endpoints (scene_tasks env) (scene_tids env) = Inr new"
    and sq: "squash (scene_tasks env) (scene_tids env) new = Inr (sq_revdeps s0)" by blast
  moreover have tg: "task_graph (scene_tasks env)" using assms(1,2) by (simp add: task_graph_def)
  ultimately have full: "full (scene_tasks env) new"
    and R: "\<And>t u. u \<in> at new t \<Longrightarrow> t \<in> set (scene_tids env) \<and> above (scene_tasks env) (scene_tids env) u t"
    using process_endpoints_result [OF tg assms(3)] by auto
  obtain sq' where "squash (scene_tasks env) (scene_tids env) new = Inr sq'"
    and "keys sq' = filter (\<lambda>t. t \<in> set (scene_tids env)) (keys (scene_tasks env))"
    and "\<forall>t \<in> set (keys sq'). map_of sq' t = map_of new t"
    using squash_result [OF full _ graph_okD(1) [OF assms(1)], of "scene_tids env"] R by blast
  with sq have k: "set (keys (sq_revdeps s0)) = set (scene_tids env)"
    and m: "\<And>t. t \<in> set (keys (sq_revdeps s0)) \<Longrightarrow> map_of (sq_revdeps s0) t = map_of new t"
    using assms(3) by auto
  have "{(u, t). u \<in> at (sq_revdeps s0) t} \<subseteq> (dep_rel (scene_tasks env))\<^sup>+"
  proof clarify
    fix u t assume u: "u \<in> at (sq_revdeps s0) t"
    then have "t \<in> set (keys (sq_revdeps s0))" by (auto simp: at_def dest: dget_or_mem)
    with u m have "u \<in> at new t" by (simp add: at_def dget_or_def)
    with R show "(u, t) \<in> (dep_rel (scene_tasks env))\<^sup>+" by (auto simp: above_def)
  qed
  then have ac: "acyclic {(u, t). u \<in> at (sq_revdeps s0) t}"
    by (rule acyclic_subset [rotated]) (use assms(2) in \<open>simp add: acyclic_def\<close>)
  from scene_reach_inv [OF assms(6,4)] have i: "scene_inv env s0 s" and dn: "scene_done env s" by simp_all
  from dn assms(7) have e: "active (sq_stats s) \<le> 0" "idle env s" and r: "sq_result s = Some (sq_covered s, sq_notcovered s)"
    by (simp_all add: scene_done_def)
  have "sq_harddeps s = []" using i assms(5) by (simp add: scene_inv_def count_inv_def)
  then have h: "hopeless s = set (sq_notcovered s)" by (simp add: hopeless_def reach_def hard_rel_def at_def)
  have "set (scene_tids env) \<subseteq> set (sq_covered s) \<union> set (sq_notcovered s)"
    using scene_end [OF i d _ ac e] k h by auto
  moreover have "set (sq_covered s) \<inter> set (sq_notcovered s) = {}" using i by (simp add: scene_inv_def settle_inv_def)
  ultimately show ?thesis using r scene_active_none [OF i e(1)] by simp
qed

lemma scene_all_settled_witness:
  "\<exists>s0 s c n. (scene_step scene_env_example)\<^sup>*\<^sup>* s0 s \<and> sq_result s = Some (c, n) \<and> {''a:x'', ''b:x''} \<subseteq> set c \<union> set n"
proof (rule scene_example_steps)
  fix s0 s1 s2 s3 s4
  assume r: "scene_run = [s0, s1, s2, s3]" and i: "scene_init scene_env_example 1 [] = Inr (Some s0)"
    and s4: "(scene_step scene_env_example)\<^sup>*\<^sup>* s0 s4"
    and e: "s4 = s3\<lparr>sq_result := Some ([''a:x''], [''b:x'']), sq_phase := runQueueRunInit\<rparr>"
  have h: "sq_harddeps s0 = []" using scene_run_values unfolding r by auto
  have t: "scene_tasks scene_env_example = runtaskentries (x_data exec_example)" "scene_tids scene_env_example = [''a:x'', ''b:x'']"
    by (simp_all add: scene_env_example_def Let_def)
  have k: "set (scene_tids scene_env_example) \<subseteq> set (keys (scene_tasks scene_env_example))"
    unfolding t by (simp add: exec_example_def Let_def keys_def)
  have p: "sq_phase s4 = runQueueRunInit" by (simp add: e)
  from scene_all_settled [OF _ _ k i h s4 p] exec_example_graph t s4 show ?thesis by auto
qed

text \<open>
  C8. The phase is never stuck: while no worker has a task, a call of \<open>execute\<close> that returns has
  settled or started a task that was not running before, or has ended the phase.
\<close>

theorem scene_never_stuck:
  assumes "scene_init env now fs = Inr (Some s0)" "(scene_step env)\<^sup>*\<^sup>* s0 s"
    "sq_phase s = runQueueSceneRun" "scene_active s = {}" "scene_execute env [] [] s = (Inr r, t)"
  shows "sq_phase t = runQueueRunInit \<or> set (sq_running s) \<subset> set (sq_running t)"
proof -
  have i: "scene_inv env s0 s" using scene_reach_inv [OF assms(2,1)] by simp
  have n: "0 < x_number_tasks (sq_exec env)" by (rule scene_init_inv [OF assms(1)])
  have "active (sq_stats s) = 0" using scene_active_card [OF i] assms(4) by simp
  then have f: "active (sq_stats s) < x_number_tasks (sq_exec env)" using n by simp
  obtain again u where u: "scene_execute_start env [] s = (Inr again, u)"
    and t: "(if again then sret RTrue else scene_execute_wait env []) u = (Inr r, t)"
    using assms(5) by (auto simp: scene_execute_def sbind_eq_Inr)
  from u f obtain c v where v: "next_scene_task env s = (Inr c, v)"
    and r: "(case c of NoTask \<Rightarrow> sret False | Settled \<Rightarrow> sret True | RunTask task \<Rightarrow> run_scene_task env task) v = (Inr again, u)"
    by (auto simp: scene_execute_start_def scene_read_workers_def sbind_eq_Inr)
  note c = next_scene_task_inv [OF i v]
  show ?thesis
  proof (cases c)
    case NoTask
    with c r t \<open>active (sq_stats s) = 0\<close> show ?thesis by (auto simp: scene_execute_wait_def sbind_eq_Inr)
  next
    case Settled
    with c r t show ?thesis by simp
  next
    case (RunTask x)
    have "scene_inv env s0 v" "x \<in> set (sq_buildable v)" "x \<notin> set (sq_running v)"
      "active (sq_stats v) < x_number_tasks (sq_exec env)" using c RunTask f by auto
    from run_scene_task_inv [OF this] r RunTask
    have "set (sq_running u) = insert x (set (sq_running v))" "\<not> again \<Longrightarrow> active (sq_stats u) \<ge> x_number_tasks (sq_exec env)"
      by simp_all
    moreover have "t = u"
      using t calculation(2) n by (auto simp: scene_execute_wait_def scene_read_workers_def sbind_eq_Inr split: if_splits)
    ultimately show ?thesis using c RunTask by auto
  qed
qed

lemma scene_never_stuck_witness:
  "\<exists>s t. scene_execute scene_env_example [] [] s = (Inr RTrue, t) \<and> sq_running s = [] \<and> set (sq_running t) \<noteq> {}"
proof (rule scene_example_steps)
  fix s0 s1 s2 s3 s4
  assume r: "scene_run = [s0, s1, s2, s3]" and i: "scene_init scene_env_example 1 [] = Inr (Some s0)"
    and e: "scene_execute_start scene_env_example [] s0 = (Inr True, s1)"
  have v: "sq_phase s0 = runQueueSceneRun" "sq_running s0 = []" "scene_active s0 = {}" "sq_phase s1 = runQueueSceneRun"
    using scene_run_values unfolding r scene_active_def by auto
  from e have x: "scene_execute scene_env_example [] [] s0 = (Inr RTrue, s1)"
    by (simp add: scene_execute_def sbind_def sret_def)
  from scene_never_stuck [OF i rtranclp.rtrancl_refl v(1,3) x] v(4) have "set (sq_running s1) \<noteq> {}" by auto
  with x v(2) show ?thesis by blast
qed

end
