(* ===== verification/Data_Store.thy ===== *)
theory Data_Store
  imports Py_Str
begin

text \<open>
  The data store of \<^verbatim>\<open>bitbake/lib/bb/data_smart.py\<close>: the class \<^verbatim>\<open>DataSmart\<close> with its
  variables, flags, overrides and copies, and the expansion of references.

  The object is the record \<open>datastore\<close>.  \<^verbatim>\<open>self.dict\<close> is \<open>ds_vars\<close>, the chain of the
  dictionaries that its key \<^verbatim>\<open>_data\<close> leads to is \<open>ds_below\<close>; no method changes a
  dictionary below its own.  A set that is kept inside a dictionary (\<^verbatim>\<open>__exportlist\<close>) is
  changed in place and can be shared between the layers, so it is a reference into
  \<open>ds_sets\<close>.  What the code calls and the repository does not hold is the record
  \<open>interp\<close>: the compiler and the analysis of inline Python, and its evaluation, which may
  read and change the store.  Two bounds of the interpreter are explicit: the depth of the
  recursion, which ends in a \<open>RecursionError\<close> as it does in Python, and the number of
  rounds of an expansion, which ends in \<open>OutOfFuel\<close>.  The history of the variables is
  recorded only on request (\<^verbatim>\<open>enableTracking\<close>) and is left out.
\<close>

section \<open>Values\<close>

text \<open>The values of variables and flags; \<open>VRef\<close> is a set kept by reference.\<close>

datatype dval = VNone | VInt int | VStr string | VList "dval list" | VSet "string list" | VRef nat

fun dval_true :: "dval \<Rightarrow> bool" where
  "dval_true VNone = False"
| "dval_true (VInt i) = (i \<noteq> 0)"
| "dval_true (VStr s) = (s \<noteq> [])"
| "dval_true (VList xs) = (xs \<noteq> [])"
| "dval_true (VSet xs) = (xs \<noteq> [])"
| "dval_true (VRef n) = True"

text \<open>\<open>a + b\<close>.\<close>

fun dval_add :: "dval \<Rightarrow> dval \<Rightarrow> dval res" where
  "dval_add (VStr a) (VStr b) = Inr (VStr (a @ b))"
| "dval_add (VInt a) (VInt b) = Inr (VInt (a + b))"
| "dval_add (VList a) (VList b) = Inr (VList (a @ b))"
| "dval_add a b = Inl TypeError"

text \<open>\<open>v.split()\<close> and \<open>v.split(c)\<close>, which only strings have.\<close>

fun dval_words :: "dval \<Rightarrow> string list res" where
  "dval_words (VStr s) = Inr (split_ws s)"
| "dval_words v = Inl AttributeError"

fun dval_split :: "char \<Rightarrow> dval \<Rightarrow> string list res" where
  "dval_split c (VStr s) = Inr (split_on c s)"
| "dval_split c v = Inl AttributeError"

text \<open>\<open>for x in v\<close> and the unpacking of an element into two names.\<close>

fun dval_items :: "dval \<Rightarrow> dval list res" where
  "dval_items (VList xs) = Inr xs"
| "dval_items (VStr s) = Inr (map (\<lambda>c. VStr [c]) s)"
| "dval_items (VSet xs) = Inr (map VStr xs)"
| "dval_items v = Inl TypeError"

definition unpack2 :: "dval \<Rightarrow> (dval \<times> dval) res" where
  "unpack2 v = rbind (dval_items v) (\<lambda>xs. case xs of [a, b] \<Rightarrow> Inr (a, b) | _ \<Rightarrow> Inl ValueError)"

section \<open>The object\<close>

type_synonym dflags = "(string \<times> dval) list"
type_synonym layer = "(string \<times> dflags) list"

record varparse =
  vp_value :: dval
  vp_references :: "string list"
  vp_execs :: "string list"
  vp_contains :: "(string \<times> string list) list"

record datastore =
  ds_vars :: layer
  ds_below :: "layer list"
  ds_sets :: "string list list"
  expand_cache :: "(string \<times> varparse) list"
  overridedata :: "(string \<times> (string \<times> string) list) list"
  ds_overrides :: "string list option"
  overridesset :: "string list"
  overridevars :: "string list"
  inoverride :: bool

definition new_datastore :: datastore where
  "new_datastore = \<lparr>ds_vars = [], ds_below = [], ds_sets = [], expand_cache = [], overridedata = [],
     ds_overrides = None, overridesset = [], overridevars = [''OVERRIDES'', ''FILE''], inoverride = False\<rparr>"

text \<open>
  What the interpreter gives: \<open>py_parse\<close> compiles a piece of inline Python and returns the
  variables it reads, the functions it calls and the words it looks for in variables;
  \<open>py_eval\<close> evaluates it against the store and returns the result as a string.
\<close>

record interp =
  py_parse :: "string \<Rightarrow> (string list \<times> string list \<times> (string \<times> string list) list) res"
  py_eval :: "string \<Rightarrow> (datastore, string) sm"
  py_rounds :: nat
  py_depth :: nat

section \<open>Expressions of the variable syntax\<close>

text \<open>
  \<open>re.sub\<close> replaces the matches from left to right: a string is cut into characters and
  matches.  The matcher returns the text of the match at the beginning of its argument.
\<close>

datatype piece = Lit char | Match string

function scan :: "(string \<Rightarrow> string option) \<Rightarrow> string \<Rightarrow> piece list" where
  "scan m [] = []"
| "scan m (c # s) = (case m (c # s) of
     None \<Rightarrow> Lit c # scan m s
   | Some g \<Rightarrow> if g = [] then Lit c # scan m s else Match g # scan m (drop (length g - 1) s))"
  by pat_completeness auto
termination by (relation "measure (\<lambda>(m, s). length s)") auto

text \<open>\<^verbatim>\<open>\${[^{}@\n\t :]+}\<close> and \<^verbatim>\<open>\${@.+?}\<close>.\<close>

definition ref_char :: "char \<Rightarrow> bool" where
  "ref_char c = (c \<notin> set [CHR ''{'', CHR ''}'', CHR ''@'', CHR 0x0A, CHR 0x09, CHR '' '', CHR '':''])"

definition match_ref :: "string \<Rightarrow> string option" where
  "match_ref s = (if \<not> startswith s ''${'' then None
     else let key = takeWhile ref_char (drop 2 s)
       in if key \<noteq> [] \<and> startswith (drop (2 + length key) s) ''}''
          then Some (''${'' @ key @ ''}'') else None)"

definition match_code :: "string \<Rightarrow> string option" where
  "match_code s = (if \<not> startswith s ''${@'' then None
     else case drop 3 s of [] \<Rightarrow> None
     | c # r \<Rightarrow> if c = CHR 0x0A then None
         else let w = takeWhile (\<lambda>x. x \<noteq> CHR ''}'' \<and> x \<noteq> CHR 0x0A) r
           in if startswith (drop (length w) r) ''}'' then Some (''${@'' @ c # w @ ''}'') else None)"

text \<open>\<open>match.group()[2:-1]\<close> and \<open>match.group()[3:-1]\<close>.\<close>

definition group_inner :: "nat \<Rightarrow> string \<Rightarrow> string" where
  "group_inner n g = butlast (drop n g)"

text \<open>
  \<^verbatim>\<open>(?P<base>.*?)(?P<keyword>_append|_prepend|_remove)(_(?P<add>.*))?$\<close> matched at the
  beginning of a name: the shortest base that a keyword follows, up to the end or with an
  underscore and more.  The dot does not match a newline, and the end is also the place
  before a newline at the end.
\<close>

definition setvar_keywords :: "string list" where
  "setvar_keywords = [''_append'', ''_prepend'', ''_remove'']"

definition at_end :: "string \<Rightarrow> bool" where
  "at_end s = (s = [] \<or> s = [CHR 0x0A])"

definition keyword_tail :: "string \<Rightarrow> string option option" where
  "keyword_tail s = (case s of
     CHR ''_'' # a \<Rightarrow> (let w = takeWhile (\<lambda>x. x \<noteq> CHR 0x0A) a
       in if at_end (drop (length w) a) then Some (Some w) else None)
   | _ \<Rightarrow> if at_end s then Some None else None)"

definition keyword_at :: "string \<Rightarrow> (string \<times> string option) option" where
  "keyword_at s = (case find (startswith s) setvar_keywords of None \<Rightarrow> None
     | Some k \<Rightarrow> map_option (\<lambda>a. (k, a)) (keyword_tail (drop (length k) s)))"

fun match_setvar_aux :: "string \<Rightarrow> string \<Rightarrow> (string \<times> string \<times> string option) option" where
  "match_setvar_aux b [] = None"
| "match_setvar_aux b (c # s) = (case keyword_at (c # s) of
     Some (k, a) \<Rightarrow> Some (rev b, k, a)
   | None \<Rightarrow> if c = CHR 0x0A then None else match_setvar_aux (c # b) s)"

definition match_setvar :: "string \<Rightarrow> (string \<times> string \<times> string option) option" where
  "match_setvar var = match_setvar_aux [] var"

section \<open>Layers\<close>

fun find_layers :: "layer list \<Rightarrow> string \<Rightarrow> dflags option" where
  "find_layers [] var = None"
| "find_layers (l # ls) var = (case map_of l var of Some f \<Rightarrow> Some f | None \<Rightarrow> find_layers ls var)"

definition findVar :: "datastore \<Rightarrow> string \<Rightarrow> dflags option" where
  "findVar d var = find_layers (ds_vars d # ds_below d) var"

definition is_local :: "datastore \<Rightarrow> string \<Rightarrow> bool" where
  "is_local d var = (map_of (ds_vars d) var \<noteq> None)"

definition clear_cache :: "(datastore, unit) sm" where
  "clear_cache = supd (\<lambda>d. d\<lparr>expand_cache := []\<rparr>)"

definition initVar :: "string \<Rightarrow> (datastore, unit) sm" where
  "initVar var = supd (\<lambda>d. d\<lparr>expand_cache := [],
     ds_vars := (if is_local d var then ds_vars d else dset var [] (ds_vars d))\<rparr>)"

definition makeShadowCopy :: "string \<Rightarrow> (datastore, unit) sm" where
  "makeShadowCopy var = sbind (sget (\<lambda>d. (is_local d var, findVar d var))) (\<lambda>(l, f).
     if l then sret ()
     else case f of
       Some (p # ps) \<Rightarrow> supd (\<lambda>d. d\<lparr>ds_vars := dset var (p # ps) (ds_vars d)\<rparr>)
     | _ \<Rightarrow> initVar var)"

text \<open>The changes of the flags \<open>self.dict[var]\<close>.\<close>

definition local_flags :: "string \<Rightarrow> datastore \<Rightarrow> dflags res" where
  "local_flags var d = dget (ds_vars d) var"

definition put_flags :: "string \<Rightarrow> dflags \<Rightarrow> (datastore, unit) sm" where
  "put_flags var fs = supd (\<lambda>d. d\<lparr>ds_vars := dset var fs (ds_vars d)\<rparr>)"

definition put_flag :: "string \<Rightarrow> string \<Rightarrow> dval \<Rightarrow> (datastore, unit) sm" where
  "put_flag var flag v = sbind (sres (local_flags var)) (\<lambda>fs. put_flags var (dset flag v fs))"

definition del_key :: "'k \<Rightarrow> ('k \<times> 'v) list \<Rightarrow> ('k \<times> 'v) list" where
  "del_key k xs = filter (\<lambda>(x, v). x \<noteq> k) xs"

lemma map_of_del_key [simp]: "map_of (del_key k d) = (map_of d)(k := None)"
  by (auto simp: fun_eq_iff del_key_def map_of_filter_key)

text \<open>\<open>copy.copy(v)\<close> of a stored value.\<close>

definition copy_value :: "datastore \<Rightarrow> dval \<Rightarrow> dval" where
  "copy_value d v = (case v of VRef n \<Rightarrow> VSet (ds_sets d ! n) | _ \<Rightarrow> v)"

section \<open>Expansion\<close>

text \<open>
  \<open>getVarFlag\<close>, \<open>need_overrides\<close> and the expansion call each other.  The
  expansion and the overrides take the reader of a flag (\<open>var flag expand\<close>) as an
  argument, and \<open>getVarFlag\<close> closes the knot with one level of recursion less.
\<close>

type_synonym reader = "string \<Rightarrow> string \<Rightarrow> bool \<Rightarrow> (datastore, dval) sm"

definition lift_vp :: "(varparse, 'a) sm \<Rightarrow> (datastore \<times> varparse, 'a) sm" where
  "lift_vp m s = (case s of (d, v) \<Rightarrow> (case m v of (r, v') \<Rightarrow> (r, (d, v'))))"

definition same_name :: "string option \<Rightarrow> string \<Rightarrow> bool" where
  "same_name vn key = (vn = Some key \<and> key \<noteq> [])"

definition self_reference :: "string \<Rightarrow> exc" where
  "self_reference v = Exception (''variable '' @ v @ '' references itself!'')"

definition var_sub :: "reader \<Rightarrow> string option \<Rightarrow> string \<Rightarrow> (datastore \<times> varparse, dval) sm" where
  "var_sub get vn g = (let key = group_inner 2 g in
     if same_name vn key then sraise (self_reference key)
     else sbind (sget (\<lambda>(d, v). map_of (expand_cache d) key)) (\<lambda>c.
       sbind (case c of Some p \<Rightarrow> sret (vp_value p) | None \<Rightarrow> on_fst (get key ''_content'' True)) (\<lambda>var.
       sbind (lift_vp (supd (\<lambda>v. v\<lparr>vp_references := sadd key (vp_references v)\<rparr>))) (\<lambda>_.
       sret (if var \<noteq> VNone then var else VStr g)))))"

definition merge_contains :: "(string \<times> string list) list \<Rightarrow> (string \<times> string list) list \<Rightarrow>
    (string \<times> string list) list" where
  "merge_contains new old = fold (\<lambda>(k, ws) c. dset k (sunion (dget_or c k []) ws) c) new old"

definition python_sub :: "interp \<Rightarrow> reader \<Rightarrow> string option \<Rightarrow> string \<Rightarrow>
    (datastore \<times> varparse, dval) sm" where
  "python_sub I get vn g = (let code = group_inner 3 g in
     sbind (sres (\<lambda>_. py_parse I code)) (\<lambda>(refs, execs, contains).
     sbind (case vn of Some n \<Rightarrow> if n \<noteq> [] then sbind (on_fst (get n ''vardeps'' True)) (\<lambda>_. sret ()) else sret ()
            | None \<Rightarrow> sret ()) (\<lambda>_.
     sbind (lift_vp (supd (\<lambda>v. v\<lparr>vp_references := sunion (vp_references v) refs,
       vp_execs := sunion (vp_execs v) execs, vp_contains := merge_contains contains (vp_contains v)\<rparr>))) (\<lambda>_.
     sbind (on_fst (py_eval I code)) (\<lambda>s. sret (VStr s))))))"

text \<open>The replacement of all matches; what is not a string fails when the result is put together.\<close>

fun sub_pieces :: "(string \<Rightarrow> ('s, dval) sm) \<Rightarrow> piece list \<Rightarrow> ('s, dval list) sm" where
  "sub_pieces f [] = sret []"
| "sub_pieces f (Lit c # ps) = sbind (sub_pieces f ps) (\<lambda>vs. sret (VStr [c] # vs))"
| "sub_pieces f (Match g # ps) = sbind (f g) (\<lambda>v. sbind (sub_pieces f ps) (\<lambda>vs. sret (v # vs)))"

fun join_values :: "dval list \<Rightarrow> string res" where
  "join_values [] = Inr []"
| "join_values (VStr s # vs) = rbind (join_values vs) (\<lambda>t. Inr (s @ t))"
| "join_values (v # vs) = Inl TypeError"

definition re_sub :: "(string \<Rightarrow> string option) \<Rightarrow> (string \<Rightarrow> ('s, dval) sm) \<Rightarrow> string \<Rightarrow> ('s, string) sm" where
  "re_sub m f s = sbind (sub_pieces f (scan m s)) (\<lambda>vs. sres (\<lambda>_. join_values vs))"

text \<open>The handlers of the loop: what is no \<open>ExpansionError\<close> or \<open>SkipRecipe\<close> is wrapped.\<close>

definition expansion_error :: "string option \<Rightarrow> string \<Rightarrow> exc \<Rightarrow> exc" where
  "expansion_error vn s e = (case e of ExpansionError _ _ _ \<Rightarrow> e | SkipRecipe _ \<Rightarrow> e | SystemExit \<Rightarrow> e
     | OutOfFuel \<Rightarrow> e | _ \<Rightarrow> ExpansionError vn s e)"

definition eol_error :: exc where
  "eol_error = SyntaxError ''EOL while scanning string literal''"

definition expand_round :: "interp \<Rightarrow> reader \<Rightarrow> string option \<Rightarrow> string \<Rightarrow>
    (datastore \<times> varparse, string) sm" where
  "expand_round I get vn s =
     sbind (scatch (re_sub match_ref (var_sub get vn) s) (\<lambda>_. True)
        (\<lambda>e. sraise (expansion_error vn s e))) (\<lambda>s1.
     scatch (scatch (re_sub match_code (python_sub I get vn) s1) (\<lambda>e. e = eol_error) (\<lambda>_. sret s1))
        (\<lambda>_. True) (\<lambda>e. sraise (expansion_error vn s1 e)))"

fun expand_loop :: "interp \<Rightarrow> reader \<Rightarrow> nat \<Rightarrow> string option \<Rightarrow> string \<Rightarrow>
    (datastore \<times> varparse, string) sm" where
  "expand_loop I get 0 vn s = sraise OutOfFuel"
| "expand_loop I get (Suc k) vn s = (if \<not> occurs s ''${'' then sret s
     else sbind (expand_round I get vn s) (\<lambda>s'.
       if s' = s then sret s' else expand_loop I get k vn s'))"

definition new_varparse :: "dval \<Rightarrow> varparse" where
  "new_varparse v = \<lparr>vp_value = v, vp_references = [], vp_execs = [], vp_contains = []\<rparr>"

text \<open>A name that is given and not empty.\<close>

definition cache_name :: "string option \<Rightarrow> string option" where
  "cache_name vn = (if vn = Some [] then None else vn)"

definition with_new_vp :: "(datastore \<times> varparse, string) sm \<Rightarrow> (datastore, varparse) sm" where
  "with_new_vp m d = (case m (d, new_varparse VNone) of (r, (d', v)) \<Rightarrow>
     (case r of Inl e \<Rightarrow> (Inl e, d') | Inr s \<Rightarrow> (Inr (v\<lparr>vp_value := VStr s\<rparr>), d')))"

definition expand_refs_with :: "interp \<Rightarrow> reader \<Rightarrow> dval \<Rightarrow> string option \<Rightarrow> (datastore, varparse) sm" where
  "expand_refs_with I get v vn = (case v of
     VStr s \<Rightarrow> sbind (sget (\<lambda>d. case cache_name vn of None \<Rightarrow> None | Some n \<Rightarrow> map_of (expand_cache d) n)) (\<lambda>c.
       case c of Some p \<Rightarrow> sret p
       | None \<Rightarrow> sbind (with_new_vp (expand_loop I get (py_rounds I) vn s)) (\<lambda>p.
           case cache_name vn of None \<Rightarrow> sret p
           | Some n \<Rightarrow> sbind (supd (\<lambda>d. d\<lparr>expand_cache := dset n p (expand_cache d)\<rparr>)) (\<lambda>_. sret p)))
   | _ \<Rightarrow> sret (new_varparse v))"

definition expand_with :: "interp \<Rightarrow> reader \<Rightarrow> dval \<Rightarrow> string option \<Rightarrow> (datastore, dval) sm" where
  "expand_with I get v vn = sbind (expand_refs_with I get v vn) (\<lambda>p. sret (vp_value p))"

section \<open>Overrides\<close>

definition read_overrides :: "reader \<Rightarrow> (datastore, string list) sm" where
  "read_overrides get = sbind (get ''OVERRIDES'' ''_content'' True) (\<lambda>v.
     if dval_true v then sres (\<lambda>_. dval_split CHR '':'' v) else sret [[]])"

definition set_overrides :: "string list \<Rightarrow> (datastore, unit) sm" where
  "set_overrides os = supd (\<lambda>d. d\<lparr>ds_overrides := Some os, overridesset := os\<rparr>)"

fun override_rounds :: "reader \<Rightarrow> nat \<Rightarrow> (datastore, unit) sm" where
  "override_rounds get 0 = sraise BBHandledException"
| "override_rounds get (Suc n) =
     sbind (supd (\<lambda>d. d\<lparr>inoverride := True\<rparr>)) (\<lambda>_.
     sbind (set_overrides []) (\<lambda>_.
     sbind (read_overrides get) (\<lambda>os.
     sbind (set_overrides os) (\<lambda>_.
     sbind (supd (\<lambda>d. d\<lparr>inoverride := False, expand_cache := []\<rparr>)) (\<lambda>_.
     sbind (read_overrides get) (\<lambda>os'.
     if os' = os then sret ()
     else sbind (set_overrides os') (\<lambda>_. override_rounds get n)))))))"

definition need_overrides_with :: "reader \<Rightarrow> (datastore, unit) sm" where
  "need_overrides_with get = sbind (sget (\<lambda>d. ds_overrides d \<noteq> None \<or> inoverride d)) (\<lambda>b.
     if b then sret () else override_rounds get 5)"

definition override_active :: "string list \<Rightarrow> string \<Rightarrow> bool" where
  "override_active os o1 = (o1 \<in> set os \<or> (CHR ''_'' \<in> set o1 \<and> set (split_on CHR ''_'' o1) \<subseteq> set os))"

text \<open>
  The search for the override that wins: for every override in their order, the active
  entries that end with it lose the ending, and the entry that is equal to it is the match
  so far; this is repeated while an entry has been shortened.
\<close>

type_synonym active_map = "(string \<times> string) list"

definition resolve_entry :: "string \<Rightarrow> string \<Rightarrow> active_map \<times> string option \<times> bool \<Rightarrow>
    active_map \<times> string option \<times> bool" where
  "resolve_entry o1 a st = (case st of (act, mt, md) \<Rightarrow> (case map_of act a of
     None \<Rightarrow> st
   | Some r \<Rightarrow>
       if endswith a (CHR ''_'' # o1) then (dset (replace (CHR ''_'' # o1) [] a) r (del_key a act), mt, True)
       else if a = o1 then (del_key a act, Some r, md) else st))"

definition resolve_override :: "string \<Rightarrow> active_map \<times> string option \<times> bool \<Rightarrow>
    active_map \<times> string option \<times> bool" where
  "resolve_override o1 st = fold (resolve_entry o1) (keys (fst st)) st"

definition resolve_round :: "string list \<Rightarrow> active_map \<Rightarrow> string option \<Rightarrow>
    active_map \<times> string option \<times> bool" where
  "resolve_round os act mt = fold resolve_override os (act, mt, False)"

definition active_size :: "active_map \<Rightarrow> nat" where
  "active_size act = sum_list (map (\<lambda>(k, r). Suc (length k)) act)"

lemma active_size_del: "map_of act a = Some r \<Longrightarrow> active_size (del_key a act) + Suc (length a) \<le> active_size act"
proof (induction act)
  case Nil
  then show ?case by simp
next
  case (Cons p act)
  obtain k v where p: "p = (k, v)" by force
  have le: "active_size (del_key a act) \<le> active_size act" for act
    by (induction act) (auto simp: active_size_def del_key_def)
  from Cons p le [of act] show ?case
    by (auto simp: active_size_def del_key_def split: if_splits)
qed

lemma active_size_dset: "active_size (dset k v act) \<le> active_size act + Suc (length k)"
  by (induction act) (auto simp: active_size_def dset_def)

lemma replace_shorter: "length (replace old [] s) \<le> length s"
  by (induction old "[] :: string" s rule: replace.induct) auto

lemma replace_ending:
  assumes "endswith s old" "old \<noteq> []"
  shows "length (replace old [] s) < length s"
  using assms
proof (induction old "[] :: string" s rule: replace.induct)
  case (1 old)
  then show ?case by (simp add: endswith_iff)
next
  case (2 old x xs)
  show ?case
  proof (cases "startswith (x # xs) old")
    case True
    have "length (replace old [] (drop (length old) (x # xs))) \<le> length (drop (length old) (x # xs))"
      by (rule replace_shorter)
    with True 2 show ?thesis by (cases old) auto
  next
    case False
    with 2(3) have "endswith xs old"
      by (auto simp: endswith_iff startswith_iff Cons_eq_append_conv)
    with False 2 show ?thesis by simp
  qed
qed

lemma resolve_entry_size:
  "active_size (fst (resolve_entry o1 a st)) \<le> active_size (fst st) \<and>
   (snd (snd (resolve_entry o1 a st)) \<longrightarrow> snd (snd st) \<or>
      active_size (fst (resolve_entry o1 a st)) < active_size (fst st))"
proof -
  obtain act mt md where st: "st = (act, mt, md)" using prod_cases3 by blast
  show ?thesis
  proof (cases "map_of act a")
    case None
    then show ?thesis by (simp add: resolve_entry_def st)
  next
    case (Some r)
    note d = active_size_del [OF Some]
    show ?thesis
    proof (cases "endswith a (CHR ''_'' # o1)")
      case True
      note l = replace_ending [OF True]
      note s = active_size_dset [of "replace (CHR ''_'' # o1) [] a" r "del_key a act"]
      from True Some d l s show ?thesis by (simp add: resolve_entry_def st)
    next
      case False
      with Some d show ?thesis by (cases "a = o1") (auto simp: resolve_entry_def st)
    qed
  qed
qed

lemma resolve_fold_size:
  assumes "\<And>x st. active_size (fst (f x st)) \<le> active_size (fst st) \<and>
     (snd (snd (f x st)) \<longrightarrow> snd (snd st) \<or> active_size (fst (f x st)) < active_size (fst st))"
  shows "active_size (fst (fold f xs st)) \<le> active_size (fst st) \<and>
     (snd (snd (fold f xs st)) \<longrightarrow> snd (snd st) \<or> active_size (fst (fold f xs st)) < active_size (fst st))"
proof (induction xs arbitrary: st)
  case Nil
  then show ?case by simp
next
  case (Cons x xs)
  from assms [of x st] Cons [of "f x st"] show ?case by auto
qed

lemma resolve_round_size:
  "resolve_round os act mt = (act', mt', True) \<Longrightarrow> active_size act' < active_size act"
  using resolve_fold_size [of resolve_override os "(act, mt, False)"]
    resolve_fold_size [of "resolve_entry o1" for o1] resolve_entry_size
  by (auto simp: resolve_round_def resolve_override_def)

function resolve :: "string list \<Rightarrow> active_map \<Rightarrow> string option \<Rightarrow> string option" where
  "resolve os act mt = (let r = resolve_round os act mt
     in if snd (snd r) then resolve os (fst r) (fst (snd r)) else fst (snd r))"
  by pat_completeness auto
termination
  by (relation "measure (\<lambda>(os, act, mt). active_size act)")
    (auto intro!: resolve_round_size simp: prod_eq_iff)

declare resolve.simps [simp del]

section \<open>Reading\<close>

text \<open>The override of an addition: every part of it has to be an override.\<close>

definition addition_applies :: "string list option \<Rightarrow> dval \<Rightarrow> bool res" where
  "addition_applies os o1 = (if \<not> dval_true o1 then Inr True
     else rbind (dval_split CHR ''_'' o1) (\<lambda>ps. case os of None \<Rightarrow> Inl TypeError
       | Some xs \<Rightarrow> Inr (list_all (\<lambda>p. p \<in> set xs) ps)))"

definition apply_append :: "string list option \<Rightarrow> dval \<Rightarrow> dval \<Rightarrow> dval res" where
  "apply_append os it value = rbind (unpack2 it) (\<lambda>(r, o1). rbind (addition_applies os o1) (\<lambda>m.
     if m then dval_add value r else Inr value))"

definition apply_prepend :: "string list option \<Rightarrow> dval \<Rightarrow> dval \<Rightarrow> dval res" where
  "apply_prepend os it value = rbind (unpack2 it) (\<lambda>(r, o1). rbind (addition_applies os o1) (\<lambda>m.
     if m then dval_add r value else Inr value))"

definition or_empty_str :: "dval \<Rightarrow> dval" where
  "or_empty_str v = (if dval_true v then v else VStr [])"

definition additions :: "reader \<Rightarrow> (string list option \<Rightarrow> dval \<Rightarrow> dval \<Rightarrow> dval res) \<Rightarrow> dval \<Rightarrow> dval \<Rightarrow>
    (datastore, dval) sm" where
  "additions get app its value = sbind (need_overrides_with get) (\<lambda>_.
     sbind (sres (\<lambda>_. dval_items its)) (\<lambda>xs.
     sres (\<lambda>d. rfold (app (ds_overrides d)) xs (or_empty_str value))))"

text \<open>The value that the overrides give, \<open>VNone\<close> if none of them is active.\<close>

definition active_entries :: "string list \<Rightarrow> (string \<times> string) list \<Rightarrow> active_map" where
  "active_entries os rs = fold (\<lambda>(r, o1) act. if override_active os o1 then dset o1 r act else act) rs []"

definition override_match :: "string \<Rightarrow> datastore \<Rightarrow> string option res" where
  "override_match var d = rbind (dget (overridedata d) var) (\<lambda>rs. case ds_overrides d of None \<Rightarrow> Inl TypeError
     | Some os \<Rightarrow> Inr (resolve os (active_entries (overridesset d) rs) None))"

definition override_value :: "reader \<Rightarrow> string \<Rightarrow> (datastore, dval) sm" where
  "override_value get var = sbind (need_overrides_with get) (\<lambda>_. sbind (sres (override_match var)) (\<lambda>mt.
     case mt of None \<Rightarrow> sret VNone | Some r \<Rightarrow> if r = [] then sret VNone else get r ''_content'' False))"

definition stored_value :: "dflags \<Rightarrow> string \<Rightarrow> bool \<Rightarrow> dval" where
  "stored_value fs flag noweakdefault = (case map_of fs flag of Some v \<Rightarrow> v
     | None \<Rightarrow> if flag = ''_content'' \<and> \<not> noweakdefault
               then (case map_of fs ''_defaultval'' of Some v \<Rightarrow> v | None \<Rightarrow> VNone) else VNone)"

text \<open>The words that the entries of \<open>_remove\<close> take away.\<close>

fun removed_words :: "interp \<Rightarrow> reader \<Rightarrow> dval list \<Rightarrow> (datastore, string list) sm" where
  "removed_words I get [] = sret []"
| "removed_words I get (it # its) = sbind (sres (\<lambda>_. unpack2 it)) (\<lambda>(r, o1).
     sbind (sres (\<lambda>d. addition_applies (ds_overrides d) o1)) (\<lambda>m.
     sbind (if m then sbind (expand_with I get r None) (\<lambda>v. sres (\<lambda>_. dval_words v)) else sret []) (\<lambda>ws.
     sbind (removed_words I get its) (\<lambda>vs. sret (ws @ vs)))))"

definition removals :: "interp \<Rightarrow> reader \<Rightarrow> string \<Rightarrow> bool \<Rightarrow> dval \<Rightarrow> dval \<Rightarrow> (datastore, dval) sm" where
  "removals I get var expand its value = sbind (need_overrides_with get) (\<lambda>_.
     sbind (sres (\<lambda>_. dval_items its)) (\<lambda>xs.
     sbind (removed_words I get xs) (\<lambda>rem.
     sbind (sres (\<lambda>_. dval_words value)) (\<lambda>ws.
     let new = VStr (join '' '' (filter (\<lambda>w. w \<notin> set rem) ws))
     in sbind (supd (\<lambda>d. case map_of (expand_cache d) var of
          Some p \<Rightarrow> if expand then d\<lparr>expand_cache := dset var (p\<lparr>vp_value := new\<rparr>) (expand_cache d)\<rparr> else d
        | None \<Rightarrow> d)) (\<lambda>_. sret new)))))"

definition flag_cache_name :: "string \<Rightarrow> string \<Rightarrow> string" where
  "flag_cache_name var flag = (if flag = ''_content'' then var else var @ ''['' @ flag @ '']'')"

definition read_stored :: "reader \<Rightarrow> string \<Rightarrow> string \<Rightarrow> bool \<Rightarrow> bool \<Rightarrow> dflags option \<Rightarrow>
    (datastore, dval) sm" where
  "read_stored get var flag noweakdefault parsing lv =
     sbind (sget (\<lambda>d. flag = ''_content'' \<and> map_of (overridedata d) var \<noteq> None \<and> \<not> parsing)) (\<lambda>b.
     sbind (if b then override_value get var else sret VNone) (\<lambda>value.
     if value \<noteq> VNone then sret value
     else case lv of None \<Rightarrow> sret VNone
       | Some fs \<Rightarrow> sget (\<lambda>d. copy_value d (stored_value fs flag noweakdefault))))"

definition read_additions :: "reader \<Rightarrow> string \<Rightarrow> bool \<Rightarrow> dflags option \<Rightarrow> dval \<Rightarrow> (datastore, dval) sm" where
  "read_additions get flag parsing lv value = (case lv of None \<Rightarrow> sret value
   | Some fs \<Rightarrow> if flag \<noteq> ''_content'' \<or> parsing then sret value
     else sbind (case map_of fs ''_append'' of None \<Rightarrow> sret value
            | Some its \<Rightarrow> additions get apply_append its value) (\<lambda>value.
          case map_of fs ''_prepend'' of None \<Rightarrow> sret value
            | Some its \<Rightarrow> additions get apply_prepend its value))"

definition get_flag_with :: "interp \<Rightarrow> reader \<Rightarrow> string \<Rightarrow> string \<Rightarrow> bool \<Rightarrow> bool \<Rightarrow> bool \<Rightarrow>
    (datastore, dval) sm" where
  "get_flag_with I get var flag expand noweakdefault parsing =
     sbind (sget (\<lambda>d. findVar d var)) (\<lambda>lv.
     sbind (read_stored get var flag noweakdefault parsing lv) (\<lambda>value.
     sbind (read_additions get flag parsing lv value) (\<lambda>value.
     sbind (if expand \<and> dval_true value then expand_with I get value (Some (flag_cache_name var flag))
            else sret value) (\<lambda>value.
     case lv of None \<Rightarrow> sret value
     | Some fs \<Rightarrow> (case map_of fs ''_remove'' of None \<Rightarrow> sret value
         | Some its \<Rightarrow> if dval_true value \<and> flag = ''_content'' then removals I get var expand its value
                       else sret value)))))"

fun get_flag :: "interp \<Rightarrow> nat \<Rightarrow> string \<Rightarrow> string \<Rightarrow> bool \<Rightarrow> bool \<Rightarrow> bool \<Rightarrow> (datastore, dval) sm" where
  "get_flag I 0 var flag expand noweakdefault parsing = sraise RecursionError"
| "get_flag I (Suc n) var flag expand noweakdefault parsing =
     get_flag_with I (\<lambda>v f e. get_flag I n v f e False False) var flag expand noweakdefault parsing"

declare get_flag.simps [simp del]

definition reader_at :: "interp \<Rightarrow> nat \<Rightarrow> reader" where
  "reader_at I n v f e = get_flag I n v f e False False"

text \<open>The methods as they are called from outside.\<close>

definition getVarFlag :: "interp \<Rightarrow> string \<Rightarrow> string \<Rightarrow> bool \<Rightarrow> bool \<Rightarrow> bool \<Rightarrow> (datastore, dval) sm" where
  "getVarFlag I var flag expand noweakdefault parsing =
     get_flag I (py_depth I) var flag expand noweakdefault parsing"

definition getVar :: "interp \<Rightarrow> string \<Rightarrow> bool \<Rightarrow> bool \<Rightarrow> bool \<Rightarrow> (datastore, dval) sm" where
  "getVar I var expand noweakdefault parsing = getVarFlag I var ''_content'' expand noweakdefault parsing"

definition need_overrides :: "interp \<Rightarrow> (datastore, unit) sm" where
  "need_overrides I = need_overrides_with (reader_at I (py_depth I))"

definition expandWithRefs :: "interp \<Rightarrow> dval \<Rightarrow> string option \<Rightarrow> (datastore, varparse) sm" where
  "expandWithRefs I v vn = expand_refs_with I (reader_at I (py_depth I)) v vn"

definition expand_value :: "interp \<Rightarrow> dval \<Rightarrow> string option \<Rightarrow> (datastore, dval) sm" where
  "expand_value I v vn = expand_with I (reader_at I (py_depth I)) v vn"

text \<open>\<open>getVarFlags\<close>: the flags that are not internal, \<open>None\<close> if there are none.\<close>

fun flags_items :: "interp \<Rightarrow> string \<Rightarrow> string list \<Rightarrow> bool \<Rightarrow> dflags \<Rightarrow> (datastore, dflags) sm" where
  "flags_items I var expand internalflags [] = sret []"
| "flags_items I var expand internalflags ((i, v) # fs) =
     (if startswith i ''_'' \<and> \<not> internalflags then flags_items I var expand internalflags fs
      else sbind (sget (\<lambda>d. copy_value d v)) (\<lambda>v.
        sbind (if i \<in> set expand then expand_value I v (Some (var @ ''['' @ i @ '']'')) else sret v) (\<lambda>v.
        sbind (flags_items I var expand internalflags fs) (\<lambda>vs. sret ((i, v) # vs)))))"

definition getVarFlags :: "interp \<Rightarrow> string \<Rightarrow> string list \<Rightarrow> bool \<Rightarrow> (datastore, dflags option) sm" where
  "getVarFlags I var expand internalflags = sbind (sget (\<lambda>d. findVar d var)) (\<lambda>lv.
     sbind (case lv of None \<Rightarrow> sret [] | Some fs \<Rightarrow> flags_items I var expand internalflags fs) (\<lambda>fs.
     sret (if fs = [] then None else Some fs)))"

section \<open>The table of overrides\<close>

text \<open>\<open>str.islower()\<close> for the characters below 256.\<close>

definition char_lower :: "char \<Rightarrow> bool" where
  "char_lower c = (let n = (of_char c :: nat) in (97 \<le> n \<and> n \<le> 122) \<or> n = 170 \<or> n = 181 \<or> n = 186 \<or>
     (223 \<le> n \<and> n \<noteq> 247))"

definition char_upper :: "char \<Rightarrow> bool" where
  "char_upper c = (let n = (of_char c :: nat) in (65 \<le> n \<and> n \<le> 90) \<or> (192 \<le> n \<and> n \<le> 222 \<and> n \<noteq> 215))"

definition islower :: "string \<Rightarrow> bool" where
  "islower s = (list_ex char_lower s \<and> \<not> list_ex char_upper s)"

text \<open>
  \<open>var[var.rfind('_')+1:]\<close> and \<open>var[:var.rfind('_')]\<close>; without an underscore
  \<open>rfind\<close> is -1, so these are the whole name and the name without its last character.
\<close>

definition last_part :: "string \<Rightarrow> string" where
  "last_part s = (if CHR ''_'' \<in> set s then last (rsplit1 CHR ''_'' s) else s)"

definition before_last :: "string \<Rightarrow> string" where
  "before_last s = (if CHR ''_'' \<in> set s then hd (rsplit1 CHR ''_'' s) else butlast s)"

lemma before_last_shorter: "CHR ''_'' \<in> set s \<Longrightarrow> length (before_last s) < length s"
  using rsplit1_cases [of "CHR ''_''" s] by (auto simp: before_last_def)

text \<open>The pairs of a variable and an override that the loop over the name goes through.\<close>

function override_splits :: "string \<Rightarrow> string \<Rightarrow> string \<Rightarrow> (string \<times> string) list" where
  "override_splits var o1 short = (if o1 = [] \<or> \<not> islower o1 then []
     else (short, o1) # (if CHR ''_'' \<notin> set short then []
       else let short' = before_last short
         in if short' = [] then [] else override_splits var (drop (Suc (length short')) var) short'))"
  by pat_completeness auto
termination
  by (relation "measure (\<lambda>(var, o1, short). length short)") (auto simp: before_last_shorter)

declare override_splits.simps [simp del]

definition name_splits :: "string \<Rightarrow> (string \<times> string) list" where
  "name_splits var = override_splits var (last_part var) (before_last var)"

definition setvar_update_overrides :: "string \<Rightarrow> (datastore, unit) sm" where
  "setvar_update_overrides var = supd (\<lambda>d. d\<lparr>overridedata :=
     fold (\<lambda>(short, o1) od. dset short (sadd (var, o1) (dget_or od short [])) od)
       (name_splits var) (overridedata d)\<rparr>)"

definition forget_override :: "string \<Rightarrow> (datastore, unit) sm" where
  "forget_override var = supd (\<lambda>d. d\<lparr>overridedata :=
     fold (\<lambda>(short, o1) od. case map_of od short of None \<Rightarrow> od
         | Some rs \<Rightarrow> dset short (remove1 (var, o1) rs) od)
       (name_splits var) (overridedata d)\<rparr>)"

definition internal_finalize :: "(datastore, unit) sm" where
  "internal_finalize = supd (\<lambda>d. d\<lparr>ds_overrides := None\<rparr>)"

text \<open>
  The variables that \<open>OVERRIDES\<close> is made of.  The set of references of the parsed value
  is extended in place, which is the object in the cache.
\<close>

definition vp_names :: "varparse \<Rightarrow> string list" where
  "vp_names p = sunion (vp_references p) (keys (vp_contains p))"

fun override_names :: "interp \<Rightarrow> string list \<Rightarrow> (datastore, string list) sm" where
  "override_names I [] = sret []"
| "override_names I (i # is) = sbind (getVar I i True False False) (\<lambda>v.
     sbind (expandWithRefs I v (Some i)) (\<lambda>p.
     sbind (override_names I is) (\<lambda>ns. sret (sunion (vp_names p) ns))))"

fun grow_overridevars :: "interp \<Rightarrow> nat \<Rightarrow> string list \<Rightarrow> (datastore, unit) sm" where
  "grow_overridevars I 0 new = sraise OutOfFuel"
| "grow_overridevars I (Suc k) new = sbind (sget (\<lambda>d. set new \<subseteq> set (overridevars d))) (\<lambda>b.
     if b then sret ()
     else sbind (supd (\<lambda>d. d\<lparr>overridevars := sunion (overridevars d) new\<rparr>)) (\<lambda>_.
       sbind (override_names I new) (\<lambda>new'. grow_overridevars I k new')))"

definition setvar_update_overridevars :: "interp \<Rightarrow> string \<Rightarrow> dval \<Rightarrow> (datastore, unit) sm" where
  "setvar_update_overridevars I var value = sbind (expandWithRefs I value (Some var)) (\<lambda>p.
     sbind (supd (\<lambda>d. case map_of (expand_cache d) var of
         Some q \<Rightarrow> if q = p then d\<lparr>expand_cache := dset var (p\<lparr>vp_references := vp_names p\<rparr>) (expand_cache d)\<rparr> else d
       | None \<Rightarrow> d)) (\<lambda>_.
     sbind (grow_overridevars I (py_rounds I) (vp_names p)) (\<lambda>_. internal_finalize)))"

section \<open>Writing\<close>

definition underscored :: "string \<Rightarrow> bool" where
  "underscored var = (CHR ''_'' \<in> set var)"

definition exportlist :: string where
  "exportlist = ''__exportlist''"

text \<open>The set of exported variables, which is changed in place.\<close>

definition add_export :: "string \<Rightarrow> (datastore, unit) sm" where
  "add_export var = sbind (sget (\<lambda>d. is_local d exportlist)) (\<lambda>l.
     sbind (if l then sret () else makeShadowCopy exportlist) (\<lambda>_.
     sbind (sres (local_flags exportlist)) (\<lambda>fs.
     case map_of fs ''_content'' of
       None \<Rightarrow> sbind (sget (\<lambda>d. length (ds_sets d))) (\<lambda>n.
         sbind (supd (\<lambda>d. d\<lparr>ds_sets := ds_sets d @ [[var]]\<rparr>)) (\<lambda>_.
         put_flag exportlist ''_content'' (VRef n)))
     | Some (VRef n) \<Rightarrow> supd (\<lambda>d. d\<lparr>ds_sets := (ds_sets d)[n := sadd var (ds_sets d ! n)]\<rparr>)
     | Some (VSet xs) \<Rightarrow> put_flag exportlist ''_content'' (VSet (sadd var xs))
     | Some v \<Rightarrow> sraise AttributeError)))"

definition make_local :: "string \<Rightarrow> (datastore, unit) sm" where
  "make_local var = sbind (sget (\<lambda>d. is_local d var)) (\<lambda>l. if l then sret () else makeShadowCopy var)"

definition setVarFlag :: "interp \<Rightarrow> string \<Rightarrow> string \<Rightarrow> dval \<Rightarrow> (datastore, unit) sm" where
  "setVarFlag I var flag value = sbind clear_cache (\<lambda>_.
     sbind (make_local var) (\<lambda>_.
     sbind (put_flag var flag value) (\<lambda>_.
     sbind (if flag = ''_defaultval'' \<and> underscored var then setvar_update_overrides var else sret ()) (\<lambda>_.
     sbind (sget (\<lambda>d. flag = ''_defaultval'' \<and> var \<in> set (overridevars d))) (\<lambda>b.
     sbind (if b then setvar_update_overridevars I var value else sret ()) (\<lambda>_.
     if flag = ''unexport'' \<or> flag = ''export'' then add_export var else sret ()))))))"

definition delVar :: "string \<Rightarrow> (datastore, unit) sm" where
  "delVar var = sbind clear_cache (\<lambda>_. sbind (put_flags var []) (\<lambda>_.
     sbind (supd (\<lambda>d. d\<lparr>overridedata := del_key var (overridedata d)\<rparr>)) (\<lambda>_.
     if underscored var then forget_override var else sret ())))"

text \<open>Setting a variable for good removes its additions and the active overrides of it.\<close>

definition drop_additions :: "string \<Rightarrow> (datastore, unit) sm" where
  "drop_additions var = sbind (sres (local_flags var)) (\<lambda>fs.
     put_flags var (del_key ''_prepend'' (del_key ''_append'' fs)))"

definition drop_overrides :: "interp \<Rightarrow> string \<Rightarrow> (datastore, unit) sm" where
  "drop_overrides I var = sbind (need_overrides I) (\<lambda>_.
     sbind (sres (\<lambda>d. dget (overridedata d) var)) (\<lambda>rs.
     sbind (sget (\<lambda>d. filter (\<lambda>(r, o1). override_active (overridesset d) o1) rs)) (\<lambda>act.
     sbind (sfor act (\<lambda>(r, o1). delVar r)) (\<lambda>_.
     sbind (sres (\<lambda>d. dget (overridedata d) var)) (\<lambda>_.
     supd (\<lambda>d. d\<lparr>overridedata := del_key var (overridedata d)\<rparr>))))))"

definition as_override :: "string option \<Rightarrow> dval" where
  "as_override a = (case a of None \<Rightarrow> VNone | Some s \<Rightarrow> VStr s)"

text \<open>\<open>l = v or []; l.append(x)\<close>.\<close>

definition dval_append1 :: "dval \<Rightarrow> dval \<Rightarrow> dval res" where
  "dval_append1 l x = (if dval_true l then (case l of VList xs \<Rightarrow> Inr (VList (xs @ [x])) | _ \<Rightarrow> Inl AttributeError)
     else Inr (VList [x]))"

definition set_addition :: "interp \<Rightarrow> string \<Rightarrow> string \<Rightarrow> string \<Rightarrow> string option \<Rightarrow> dval \<Rightarrow>
    (datastore, unit) sm" where
  "set_addition I var base keyword add value =
     sbind (getVarFlag I base keyword False False False) (\<lambda>l.
     sbind (sres (\<lambda>_. dval_append1 l (VList [value, as_override add]))) (\<lambda>l'.
     sbind (setVarFlag I base keyword l') (\<lambda>_.
     sbind (if underscored var then setvar_update_overrides base else sret ()) (\<lambda>_.
     sbind (sget (\<lambda>d. base \<in> set (overridevars d))) (\<lambda>b.
     if b then setvar_update_overridevars I var value else sret ())))))"

definition set_content :: "interp \<Rightarrow> string \<Rightarrow> dval \<Rightarrow> bool \<Rightarrow> (datastore, unit) sm" where
  "set_content I var value parsing =
     sbind (make_local var) (\<lambda>_.
     sbind (if parsing then sret ()
            else sbind (drop_additions var) (\<lambda>_. sbind (sget (\<lambda>d. map_of (overridedata d) var \<noteq> None)) (\<lambda>b.
              if b then drop_overrides I var else sret ()))) (\<lambda>_.
     sbind (if underscored var then setvar_update_overrides var else sret ()) (\<lambda>_.
     sbind (put_flag var ''_content'' value) (\<lambda>_.
     sbind (sget (\<lambda>d. var \<in> set (overridevars d))) (\<lambda>b.
     if b then setvar_update_overridevars I var value else sret ())))))"

definition setVar :: "interp \<Rightarrow> string \<Rightarrow> dval \<Rightarrow> bool \<Rightarrow> (datastore, unit) sm" where
  "setVar I var value parsing = sbind clear_cache (\<lambda>_. case match_setvar var of
     Some (base, keyword, add) \<Rightarrow> set_addition I var base keyword add value
   | None \<Rightarrow> set_content I var value parsing)"

definition appendVar :: "interp \<Rightarrow> string \<Rightarrow> dval \<Rightarrow> (datastore, unit) sm" where
  "appendVar I var value = setVar I (var @ ''_append'') value True"

definition prependVar :: "interp \<Rightarrow> string \<Rightarrow> dval \<Rightarrow> (datastore, unit) sm" where
  "prependVar I var value = setVar I (var @ ''_prepend'') value True"

definition delVarFlag :: "string \<Rightarrow> string \<Rightarrow> (datastore, unit) sm" where
  "delVarFlag var flag = sbind clear_cache (\<lambda>_. sbind (sget (\<lambda>d. findVar d var)) (\<lambda>lv.
     if lv = None \<or> lv = Some [] then sret ()
     else sbind (make_local var) (\<lambda>_. sbind (sres (local_flags var)) (\<lambda>fs. put_flags var (del_key flag fs)))))"

definition appendVarFlag :: "interp \<Rightarrow> string \<Rightarrow> string \<Rightarrow> dval \<Rightarrow> (datastore, unit) sm" where
  "appendVarFlag I var flag value = sbind (getVarFlag I var flag False False False) (\<lambda>old.
     sbind (sres (\<lambda>_. dval_add (or_empty_str old) value)) (\<lambda>new. setVarFlag I var flag new))"

definition prependVarFlag :: "interp \<Rightarrow> string \<Rightarrow> string \<Rightarrow> dval \<Rightarrow> (datastore, unit) sm" where
  "prependVarFlag I var flag value = sbind (getVarFlag I var flag False False False) (\<lambda>old.
     sbind (sres (\<lambda>_. dval_add value (or_empty_str old))) (\<lambda>new. setVarFlag I var flag new))"

definition setVarFlags :: "string \<Rightarrow> dflags \<Rightarrow> (datastore, unit) sm" where
  "setVarFlags var fs = sbind clear_cache (\<lambda>_. sbind (make_local var) (\<lambda>_.
     sfor fs (\<lambda>(i, v). if i = ''_content'' then sret () else put_flag var i v)))"

definition delVarFlags :: "string \<Rightarrow> (datastore, unit) sm" where
  "delVarFlags var = sbind clear_cache (\<lambda>_. sbind (make_local var) (\<lambda>_.
     sbind (sres (local_flags var)) (\<lambda>fs. case map_of fs ''_content'' of
       Some v \<Rightarrow> put_flags var [(''_content'', v)]
     | None \<Rightarrow> supd (\<lambda>d. d\<lparr>ds_vars := del_key var (ds_vars d)\<rparr>))))"

section \<open>Renaming\<close>

definition move_addition :: "interp \<Rightarrow> string \<Rightarrow> string \<Rightarrow> string \<Rightarrow> (datastore, unit) sm" where
  "move_addition I key newkey i = sbind (getVarFlag I key i False False False) (\<lambda>src.
     if src = VNone then sret ()
     else sbind (getVarFlag I newkey i False False False) (\<lambda>dest.
       sbind (sres (\<lambda>_. case (if dval_true dest then dest else VList []) of
           VList xs \<Rightarrow> rbind (dval_items src) (\<lambda>ys. Inr (VList (xs @ ys))) | _ \<Rightarrow> Inl AttributeError)) (\<lambda>new.
       setVarFlag I newkey i new)))"

definition add_rename :: "string \<Rightarrow> string \<times> string \<Rightarrow> (datastore, unit) sm" where
  "add_rename newkey e = sbind (sres (\<lambda>d. dget (overridedata d) newkey)) (\<lambda>rs.
     supd (\<lambda>d. d\<lparr>overridedata := dset newkey (rs @ [e]) (overridedata d)\<rparr>))"

fun rename_var :: "interp \<Rightarrow> nat \<Rightarrow> string \<Rightarrow> string \<Rightarrow> (datastore, unit) sm" where
  "rename_var I 0 key newkey = sraise RecursionError"
| "rename_var I (Suc n) key newkey = sbind (getVar I key False False True) (\<lambda>val.
     sbind (if val \<noteq> VNone then setVar I newkey val True else sret ()) (\<lambda>_.
     sbind (sfor setvar_keywords (move_addition I key newkey)) (\<lambda>_.
     sbind (sget (\<lambda>d. map_of (overridedata d) key \<noteq> None)) (\<lambda>b.
     sbind (if \<not> b then sret ()
       else sbind (supd (\<lambda>d. d\<lparr>overridedata := dset newkey [] (overridedata d)\<rparr>)) (\<lambda>_.
         sbind (sres (\<lambda>d. dget (overridedata d) key)) (\<lambda>rs.
         sfor rs (\<lambda>(v, o1). sbind (add_rename newkey (replace key newkey v, o1)) (\<lambda>_.
           rename_var I n v (replace key newkey v)))))) (\<lambda>_.
     sbind (if underscored newkey \<and> val = VNone then setvar_update_overrides newkey else sret ()) (\<lambda>_.
     delVar key))))))"

declare rename_var.simps [simp del]

definition renameVar :: "interp \<Rightarrow> string \<Rightarrow> string \<Rightarrow> (datastore, unit) sm" where
  "renameVar I key newkey = rename_var I (py_depth I) key newkey"

section \<open>Copies and iteration\<close>

definition createCopy :: "datastore \<Rightarrow> datastore" where
  "createCopy d = new_datastore\<lparr>ds_below := ds_vars d # ds_below d, ds_sets := ds_sets d,
     overridevars := overridevars d, overridedata := overridedata d\<rparr>"

text \<open>
  The original after its copy has been changed: only the sets that both refer to can have
  changed.
\<close>

definition seen_from :: "datastore \<Rightarrow> datastore \<Rightarrow> datastore" where
  "seen_from d copy = d\<lparr>ds_sets := ds_sets copy\<rparr>"

fun keylist :: "string list \<Rightarrow> string list \<Rightarrow> layer list \<Rightarrow> string list" where
  "keylist ovs deleted [] = []"
| "keylist ovs deleted (l # ls) =
     (let cand = filter (\<lambda>(k, fs). k \<notin> set deleted \<and> k \<notin> set ovs) l
      in sunion (keys (filter (\<lambda>(k, fs). fs \<noteq> []) cand))
        (keylist ovs (deleted @ keys (filter (\<lambda>(k, fs). fs = []) cand)) ls))"

definition overridden :: "datastore \<Rightarrow> string list" where
  "overridden d = keys (filter (\<lambda>(var, rs). list_ex (\<lambda>(r, o1). override_active (overridesset d) o1) rs)
     (overridedata d))"

definition data_keys :: "interp \<Rightarrow> (datastore, string list) sm" where
  "data_keys I = sbind (need_overrides I) (\<lambda>_.
     sget (\<lambda>d. keylist (overridden d) [] (ds_vars d # ds_below d) @ overridden d))"

definition data_len :: "interp \<Rightarrow> (datastore, nat) sm" where
  "data_len I = sbind (data_keys I) (\<lambda>ks. sret (length (remdups ks)))"

definition localkeys :: "datastore \<Rightarrow> string list" where
  "localkeys d = keys (ds_vars d)"

definition data_getitem :: "interp \<Rightarrow> string \<Rightarrow> (datastore, dval) sm" where
  "data_getitem I k = sbind (getVar I k False False False) (\<lambda>v. if v = VNone then sraise (KeyError k) else sret v)"

text \<open>
  \<open>expandVarref\<close>: iterating over the own dictionary while it grows is a
  \<open>RuntimeError\<close>.
\<close>

definition expand_varref_in :: "interp \<Rightarrow> string \<Rightarrow> dval \<Rightarrow> string \<Rightarrow> (datastore, unit) sm" where
  "expand_varref_in I ref value key = sbind (getVar I key False False False) (\<lambda>rv.
     if \<not> dval_true rv then sret ()
     else case rv of
       VStr s \<Rightarrow> if \<not> occurs s ref then sret ()
         else (case value of VStr v \<Rightarrow> setVar I key (VStr (replace ref v s)) False | _ \<Rightarrow> sraise TypeError)
     | VList xs \<Rightarrow> if VStr ref \<in> set xs then sraise AttributeError else sret ()
     | VSet xs \<Rightarrow> if ref \<in> set xs then sraise AttributeError else sret ()
     | _ \<Rightarrow> sraise TypeError)"

definition expandVarref :: "interp \<Rightarrow> string \<Rightarrow> bool \<Rightarrow> (datastore, unit) sm" where
  "expandVarref I variable parents = (let ref = ''${'' @ variable @ ''}'' in
     if parents
     then sbind (getVar I variable False False False) (\<lambda>value.
       sbind (data_keys I) (\<lambda>ks. sfor ks (expand_varref_in I ref value)))
     else sbind (getVar I variable False False False) (\<lambda>value.
       sbind (sget localkeys) (\<lambda>ks. sfor ks (\<lambda>key. sbind (sget (\<lambda>d. length (ds_vars d))) (\<lambda>n.
         sbind (expand_varref_in I ref value key) (\<lambda>_. sbind (sget (\<lambda>d. length (ds_vars d))) (\<lambda>n'.
         if n' \<noteq> n then sraise RuntimeError else sret ())))))))"

section \<open>Evaluation\<close>

text \<open>
  Equations for evaluating examples: a step is carried out only when the state it starts in
  has been computed.
\<close>

lemma sbind_eval [code]:
  "sbind m f s = (let r = m s in if isl (fst r) then (Inl (projl (fst r)), snd r) else f (projr (fst r)) (snd r))"
  by (auto simp: sbind_def Let_def split: prod.split sum.split)

lemma scatch_eval [code]:
  "scatch m p h s = (let r = m s in if isl (fst r) \<and> p (projl (fst r)) then h (projl (fst r)) (snd r) else r)"
  by (auto simp: scatch_def Let_def split: prod.split sum.split)

lemma sfor_eval [code]:
  "sfor xs f s = (if xs = [] then (Inr (), s)
     else let r = f (hd xs) s in if isl (fst r) then r else sfor (tl xs) f (snd r))"
  by (cases xs) (auto simp: Let_def split: prod.split sum.split)

lemma get_flag_eval [code]:
  "get_flag I n var flag e nw p d = (if n = 0 then (Inl RecursionError, d)
     else get_flag_with I (\<lambda>v f e. get_flag I (n - 1) v f e False False) var flag e nw p d)"
  by (cases n) (simp_all cong: if_cong add: get_flag.simps sraise_def)

lemma override_rounds_eval [code]:
  "override_rounds get n d = (if n = 0 then (Inl BBHandledException, d) else
     sbind (supd (\<lambda>d. d\<lparr>inoverride := True\<rparr>)) (\<lambda>_.
     sbind (set_overrides []) (\<lambda>_.
     sbind (read_overrides get) (\<lambda>os.
     sbind (set_overrides os) (\<lambda>_.
     sbind (supd (\<lambda>d. d\<lparr>inoverride := False, expand_cache := []\<rparr>)) (\<lambda>_.
     sbind (read_overrides get) (\<lambda>os'.
     if os' = os then sret ()
     else sbind (set_overrides os') (\<lambda>_. override_rounds get (n - 1)))))))) d)"
  by (cases n) (simp_all cong: if_cong add: sraise_def)

lemma expand_loop_eval [code]:
  "expand_loop I get k vn s d = (if k = 0 then (Inl OutOfFuel, d)
     else if \<not> occurs s ''${'' then (Inr s, d)
     else sbind (expand_round I get vn s) (\<lambda>s'.
       if s' = s then sret s' else expand_loop I get (k - 1) vn s') d)"
  by (cases k) (simp_all cong: if_cong add: sraise_def sret_def)

lemma removed_words_eval [code]:
  "removed_words I get its d = (if its = [] then (Inr [], d)
     else sbind (sres (\<lambda>_. unpack2 (hd its))) (\<lambda>(r, o1).
     sbind (sres (\<lambda>d. addition_applies (ds_overrides d) o1)) (\<lambda>m.
     sbind (if m then sbind (expand_with I get r None) (\<lambda>v. sres (\<lambda>_. dval_words v)) else sret []) (\<lambda>ws.
     sbind (removed_words I get (tl its)) (\<lambda>vs. sret (ws @ vs))))) d)"
  by (cases its) (simp_all cong: if_cong add: sret_def)

lemma names_of_eval [code]:
  "override_names I is d = (if is = [] then (Inr [], d)
     else sbind (getVar I (hd is) True False False) (\<lambda>v.
     sbind (expandWithRefs I v (Some (hd is))) (\<lambda>p.
     sbind (override_names I (tl is)) (\<lambda>ns. sret (sunion (vp_names p) ns)))) d)"
  by (cases "is") (simp_all cong: if_cong add: sret_def)

lemma grow_overridevars_eval [code]:
  "grow_overridevars I k new d = (if k = 0 then (Inl OutOfFuel, d)
     else if set new \<subseteq> set (overridevars d) then (Inr (), d)
     else sbind (override_names I new) (\<lambda>new'. grow_overridevars I (k - 1) new')
       (d\<lparr>overridevars := sunion (overridevars d) new\<rparr>))"
  by (cases k) (simp_all cong: if_cong add: sraise_def sret_def sbind_def sget_def supd_def)

lemma rename_var_eval [code]:
  "rename_var I n key newkey d = (if n = 0 then (Inl RecursionError, d)
     else sbind (getVar I key False False True) (\<lambda>val.
     sbind (if val \<noteq> VNone then setVar I newkey val True else sret ()) (\<lambda>_.
     sbind (sfor setvar_keywords (move_addition I key newkey)) (\<lambda>_.
     sbind (sget (\<lambda>d. map_of (overridedata d) key \<noteq> None)) (\<lambda>b.
     sbind (if \<not> b then sret ()
       else sbind (supd (\<lambda>d. d\<lparr>overridedata := dset newkey [] (overridedata d)\<rparr>)) (\<lambda>_.
         sbind (sres (\<lambda>d. dget (overridedata d) key)) (\<lambda>rs.
         sfor rs (\<lambda>(v, o1). sbind (add_rename newkey (replace key newkey v, o1)) (\<lambda>_.
           rename_var I (n - 1) v (replace key newkey v)))))) (\<lambda>_.
     sbind (if underscored newkey \<and> val = VNone then setvar_update_overrides newkey else sret ()) (\<lambda>_.
     delVar key)))))) d)"
  by (cases n) (simp_all cong: if_cong add: sraise_def rename_var.simps)

end
