(* ===== verification/Data_Store_Facts.thy ===== *)
theory Data_Store_Facts
  imports Data_Store
begin

text \<open>
  What \<open>Data_Store\<close> promises: the layers implement one table of flags, a variable that
  has been set is read back, the override that wins, additions, the expansion of references
  against a definition without caches and rounds, and the types of what is stored and read.
\<close>

section \<open>What a read keeps\<close>

text \<open>
  A read changes the cache and the computed overrides only.  The interface is a predicate
  that these changes and inline Python keep; every method that reads keeps it then, whether
  it returns or raises.
\<close>

locale read_invariant =
  fixes P :: "datastore \<Rightarrow> bool"
    and I :: interp
  assumes clear: "P d \<Longrightarrow> P (d\<lparr>expand_cache := []\<rparr>)"
    and cache: "P d \<Longrightarrow> vp_value p = VStr s \<Longrightarrow> P (d\<lparr>expand_cache := dset n p (expand_cache d)\<rparr>)"
    and overrides: "P d \<Longrightarrow> P (d\<lparr>ds_overrides := Some os, overridesset := os\<rparr>)"
    and start: "P d \<Longrightarrow> P (d\<lparr>inoverride := True, ds_overrides := Some [], overridesset := []\<rparr>)"
    and stop: "P d \<Longrightarrow> P (d\<lparr>inoverride := False, expand_cache := []\<rparr>)"
    and python: "P d \<Longrightarrow> P (snd (py_eval I code d))"

sublocale read_invariant \<subseteq> rd: state_preorder "\<lambda>s t. P s \<longrightarrow> P t"
  by unfold_locales auto

sublocale read_invariant \<subseteq> rp: state_preorder "\<lambda>s t. P (fst s) \<longrightarrow> P (fst t)"
  by unfold_locales auto

lemma start_round:
  "sbind (supd (\<lambda>d. d\<lparr>inoverride := True\<rparr>)) (\<lambda>_. sbind (set_overrides []) f) =
   sbind (supd (\<lambda>d. d\<lparr>inoverride := True, ds_overrides := Some [], overridesset := []\<rparr>)) f"
  by (auto simp: sbind_def supd_def set_overrides_def fun_eq_iff)

text \<open>An expansion that goes through the cache returns a string.\<close>

lemma with_new_vp_str: "with_new_vp m d = (Inr p, d') \<Longrightarrow> \<exists>s. vp_value p = VStr s"
  by (auto simp: with_new_vp_def split: prod.splits sum.splits)

context read_invariant
begin

lemma on_fst_keeps: "rd.keeps m \<Longrightarrow> rp.keeps (on_fst m)"
  by (auto simp: rd.keeps_def rp.keeps_def on_fst_def split: prod.split)

lemma lift_vp_keeps: "rp.keeps (lift_vp m)"
  by (auto simp: rp.keeps_def lift_vp_def split: prod.split)

lemma case_option_keeps:
  "rd.keeps m \<Longrightarrow> (\<And>x. rd.keeps (f x)) \<Longrightarrow> rd.keeps (case z of None \<Rightarrow> m | Some x \<Rightarrow> f x)"
  "rp.keeps m' \<Longrightarrow> (\<And>x. rp.keeps (f' x)) \<Longrightarrow> rp.keeps (case z of None \<Rightarrow> m' | Some x \<Rightarrow> f' x)"
  by (cases z; simp)+

lemma case_prod_keeps:
  "(\<And>x y. rd.keeps (f x y)) \<Longrightarrow> rd.keeps (case z of (x, y) \<Rightarrow> f x y)"
  "(\<And>x y. rp.keeps (f' x y)) \<Longrightarrow> rp.keeps (case z of (x, y) \<Rightarrow> f' x y)"
  by (cases z; simp)+

lemma py_keeps: "rd.keeps (py_eval I code)"
  by (simp add: rd.keeps_def python)

lemma sub_pieces_keeps: "(\<And>g. rp.keeps (f g)) \<Longrightarrow> rp.keeps (sub_pieces f ps)"
  by (induction f ps rule: sub_pieces.induct) (auto intro!: rp.rules)

lemma re_sub_keeps: "(\<And>g. rp.keeps (f g)) \<Longrightarrow> rp.keeps (re_sub m f s)"
  by (auto simp: re_sub_def intro!: rp.rules sub_pieces_keeps)

text \<open>A reader that keeps the predicate, and what is made of it.\<close>

definition keeping_reader :: "reader \<Rightarrow> bool" where
  "keeping_reader get \<longleftrightarrow> (\<forall>v f e. rd.keeps (get v f e))"

lemma var_sub_keeps: "keeping_reader get \<Longrightarrow> rp.keeps (var_sub get vn g)"
  by (auto simp: var_sub_def Let_def keeping_reader_def
      intro!: rp.rules case_option_keeps on_fst_keeps lift_vp_keeps split: option.split)

lemma python_sub_keeps: "keeping_reader get \<Longrightarrow> rp.keeps (python_sub I get vn g)"
  by (auto simp: python_sub_def Let_def keeping_reader_def
      intro!: rp.rules case_option_keeps case_prod_keeps on_fst_keeps lift_vp_keeps py_keeps)

lemma expand_loop_keeps: "keeping_reader get \<Longrightarrow> rp.keeps (expand_loop I get k vn s)"
  by (induction k arbitrary: s)
    (auto simp: expand_round_def intro!: rp.rules rp.handler re_sub_keeps var_sub_keeps python_sub_keeps)

lemma with_new_vp_keeps: "rp.keeps m \<Longrightarrow> rd.keeps (with_new_vp m)"
  unfolding rp.keeps_def rd.keeps_def with_new_vp_def
  by (auto split: prod.split sum.split) (metis fst_conv snd_conv)+

lemma expand_refs_keeps: "keeping_reader get \<Longrightarrow> rd.keeps (expand_refs_with I get v vn)"
proof -
  assume get: "keeping_reader get"
  have 1: "rd.keeps (sbind (with_new_vp (expand_loop I get k vn s)) (\<lambda>p. case cache_name vn of None \<Rightarrow> sret p
      | Some n \<Rightarrow> sbind (supd (\<lambda>d. d\<lparr>expand_cache := dset n p (expand_cache d)\<rparr>)) (\<lambda>_. sret p)))" for k s
    unfolding rd.keeps_def
  proof
    fix d
    obtain r e where r: "with_new_vp (expand_loop I get k vn s) d = (r, e)" by force
    have e: "P d \<longrightarrow> P e"
      using rd.keepsD [OF with_new_vp_keeps [OF expand_loop_keeps [OF get]] r] .
    show "P d \<longrightarrow>
        P (snd (sbind (with_new_vp (expand_loop I get k vn s)) (\<lambda>p. case cache_name vn of None \<Rightarrow> sret p
      | Some n \<Rightarrow> sbind (supd (\<lambda>d. d\<lparr>expand_cache := dset n p (expand_cache d)\<rparr>)) (\<lambda>_. sret p)) d))"
    proof (cases r)
      case (Inr p)
      with r with_new_vp_str [of "expand_loop I get k vn s" d p e] obtain t where "vp_value p = VStr t" by auto
      with r e Inr cache show ?thesis by (auto simp: sbind_def sret_def supd_def split: option.split)
    qed (use r e in \<open>simp add: sbind_def\<close>)
  qed
  show ?thesis
    unfolding expand_refs_with_def
    by (auto intro!: rd.rules case_option_keeps 1 split: dval.split)
qed

lemma expand_keeps: "keeping_reader get \<Longrightarrow> rd.keeps (expand_with I get v vn)"
  by (auto simp: expand_with_def intro!: rd.rules expand_refs_keeps)

lemma read_overrides_keeps: "keeping_reader get \<Longrightarrow> rd.keeps (read_overrides get)"
  by (auto simp: read_overrides_def keeping_reader_def intro!: rd.rules)

lemma set_overrides_keeps: "rd.keeps (set_overrides os)"
  unfolding set_overrides_def by (rule rd.update) (simp add: overrides)

lemma override_rounds_keeps: "keeping_reader get \<Longrightarrow> rd.keeps (override_rounds get n)"
  by (induction n)
    (auto simp: start_round start stop intro!: rd.rules read_overrides_keeps set_overrides_keeps rd.update)

lemma need_overrides_keeps: "keeping_reader get \<Longrightarrow> rd.keeps (need_overrides_with get)"
  by (auto simp: need_overrides_with_def intro!: rd.rules override_rounds_keeps)

lemma removed_words_keeps: "keeping_reader get \<Longrightarrow> rd.keeps (removed_words I get its)"
  by (induction its) (auto intro!: rd.rules case_prod_keeps expand_keeps)

lemma removals_keeps: "keeping_reader get \<Longrightarrow> rd.keeps (removals I get var e its v)"
  unfolding removals_def Let_def
  by (intro rd.rules need_overrides_keeps removed_words_keeps rd.update) (auto simp: cache split: option.split)

lemma additions_keeps: "keeping_reader get \<Longrightarrow> rd.keeps (additions get app its v)"
  by (auto simp: additions_def intro!: rd.rules need_overrides_keeps)

lemma override_value_keeps: "keeping_reader get \<Longrightarrow> rd.keeps (override_value get var)"
  unfolding override_value_def
  by (auto intro!: rd.rules case_option_keeps need_overrides_keeps) (auto simp: keeping_reader_def)

lemma read_stored_keeps: "keeping_reader get \<Longrightarrow> rd.keeps (read_stored get var flag nw p lv)"
  unfolding read_stored_def by (auto intro!: rd.rules case_option_keeps override_value_keeps)

lemma read_additions_keeps: "keeping_reader get \<Longrightarrow> rd.keeps (read_additions get flag p lv v)"
  unfolding read_additions_def by (auto intro!: rd.rules case_option_keeps additions_keeps)

lemma get_flag_with_keeps: "keeping_reader get \<Longrightarrow> rd.keeps (get_flag_with I get var flag e nw p)"
  unfolding get_flag_with_def
  by (auto intro!: rd.rules case_option_keeps read_stored_keeps read_additions_keeps expand_keeps removals_keeps)

lemma get_flag_keeps: "rd.keeps (get_flag I n var flag e nw p)"
proof (induction n arbitrary: var flag e nw p)
  case 0
  then show ?case by (simp add: get_flag.simps rd.pure)
next
  case (Suc n)
  then have "keeping_reader (\<lambda>v f e. get_flag I n v f e False False)" by (simp add: keeping_reader_def)
  then show ?case by (simp add: get_flag.simps get_flag_with_keeps)
qed

lemma reader_at_keeps: "keeping_reader (reader_at I n)"
  by (simp add: keeping_reader_def reader_at_def get_flag_keeps)

lemma reads_keep:
  "rd.keeps (getVarFlag I var flag e nw p)" "rd.keeps (getVar I var e nw p)"
  "rd.keeps (need_overrides I)" "rd.keeps (expandWithRefs I v vn)"
  by (simp_all add: getVarFlag_def getVar_def get_flag_keeps need_overrides_def need_overrides_keeps
      expandWithRefs_def expand_refs_keeps reader_at_keeps)

end

section \<open>Reading does not change what is stored\<close>

definition data_of :: "datastore \<Rightarrow> layer \<times> layer list \<times> string list list \<times>
    (string \<times> (string \<times> string) list) list \<times> string list" where
  "data_of d = (ds_vars d, ds_below d, ds_sets d, overridedata d, overridevars d)"

definition same_data :: "datastore \<Rightarrow> datastore \<Rightarrow> bool" where
  "same_data s t = (data_of s = data_of t)"

interpretation sd: state_preorder same_data
  by unfold_locales (auto simp: same_data_def)

text \<open>Inline Python that does not change what is stored.\<close>

definition quiet_read :: "interp \<Rightarrow> bool" where
  "quiet_read I \<longleftrightarrow> (\<forall>code. sd.keeps (py_eval I code))"

definition quiet_data :: "interp \<Rightarrow> layer \<times> layer list \<times> string list list \<times>
    (string \<times> (string \<times> string) list) list \<times> string list \<Rightarrow> datastore \<Rightarrow> bool" where
  "quiet_data I c d \<longleftrightarrow> quiet_read I \<longrightarrow> data_of d = c"

interpretation qd: read_invariant "quiet_data I c" I for I c
  by unfold_locales (auto simp: quiet_data_def data_of_def quiet_read_def sd.keeps_def same_data_def)

lemma keeps_data:
  assumes "quiet_read I" and "\<And>c. qd.rd.keeps I c m"
  shows "sd.keeps m"
  unfolding sd.keeps_def
proof
  fix s
  from assms(2) [of "data_of s"] have "quiet_data I (data_of s) s \<longrightarrow>
      quiet_data I (data_of s) (snd (m s))"
    unfolding qd.rd.keeps_def by (rule spec)
  with assms(1) show "same_data s (snd (m s))" by (simp add: quiet_data_def same_data_def)
qed

lemma keeps_reads:
  assumes "quiet_read I"
  shows "sd.keeps (getVarFlag I var flag e nw p)" "sd.keeps (getVar I var e nw p)"
    "sd.keeps (need_overrides I)" "sd.keeps (expandWithRefs I v vn)"
  by (rule keeps_data [OF assms]; rule qd.reads_keep)+

lemmas keeps_getVarFlag = keeps_reads(1)
lemmas keeps_getVar = keeps_reads(2)
lemmas keeps_need = keeps_reads(3)
lemmas keeps_expandWithRefs = keeps_reads(4)

lemma same_data_eqs:
  assumes "same_data s t"
  shows "ds_vars t = ds_vars s" "ds_below t = ds_below s" "ds_sets t = ds_sets s"
    "overridedata t = overridedata s" "overridevars t = overridevars s" "findVar t = findVar s"
  using assms by (auto simp: same_data_def data_of_def findVar_def fun_eq_iff)

section \<open>The layers implement one table of flags\<close>

definition table :: "datastore \<Rightarrow> string \<Rightarrow> string \<Rightarrow> dval option" where
  "table d var = (case findVar d var of None \<Rightarrow> Map.empty | Some fs \<Rightarrow> map_of fs)"

lemma table_same: "same_data s t \<Longrightarrow> table t = table s"
  by (simp add: fun_eq_iff table_def same_data_eqs)

lemma table_upd [simp]:
  "table (d\<lparr>expand_cache := c\<rparr>) = table d" "table (d\<lparr>overridedata := od\<rparr>) = table d"
  "table (d\<lparr>ds_overrides := os\<rparr>) = table d" "table (d\<lparr>overridevars := ov\<rparr>) = table d"
  "table (d\<lparr>ds_sets := ss\<rparr>) = table d" "table (d\<lparr>overridesset := os'\<rparr>) = table d"
  "table (d\<lparr>inoverride := b\<rparr>) = table d"
  by (simp_all add: fun_eq_iff table_def findVar_def)

lemma local_upd [simp]:
  "is_local (d\<lparr>expand_cache := c\<rparr>) = is_local d" "is_local (d\<lparr>overridedata := od\<rparr>) = is_local d"
  "is_local (d\<lparr>ds_sets := ss\<rparr>) = is_local d"
  by (simp_all add: fun_eq_iff is_local_def)

lemma local_find: "map_of (ds_vars d) var = Some fs \<Longrightarrow> findVar d var = Some fs"
  by (simp add: findVar_def)

lemma table_put: "table (d\<lparr>ds_vars := dset var fs (ds_vars d)\<rparr>) = (table d)(var := map_of fs)"
  by (auto simp: fun_eq_iff table_def findVar_def)

lemma table_put_clear:
  "table (d\<lparr>expand_cache := c, ds_vars := dset var fs (ds_vars d)\<rparr>) = (table d)(var := map_of fs)"
  by (auto simp: fun_eq_iff table_def findVar_def)

lemma find_put: "findVar (d\<lparr>ds_vars := dset var fs (ds_vars d)\<rparr>) = (findVar d)(var := Some fs)"
  by (auto simp: fun_eq_iff findVar_def)

lemma find_upd [simp]:
  "findVar (d\<lparr>expand_cache := c\<rparr>) = findVar d" "findVar (d\<lparr>overridedata := od\<rparr>) = findVar d"
  "findVar (d\<lparr>ds_sets := ss\<rparr>) = findVar d"
  by (simp_all add: fun_eq_iff findVar_def)

text \<open>A variable becomes local with the flags it has, and nothing else changes but the cache.\<close>

lemma make_local_run:
  "\<exists>d'. make_local var d = (Inr (), d') \<and> is_local d' var \<and> table d' = table d \<and>
     overridedata d' = overridedata d \<and> overridevars d' = overridevars d \<and> ds_sets d' = ds_sets d \<and>
     ds_below d' = ds_below d \<and> ds_overrides d' = ds_overrides d \<and> overridesset d' = overridesset d \<and>
     inoverride d' = inoverride d \<and> (expand_cache d = [] \<longrightarrow> expand_cache d' = []) \<and>
     (\<forall>v. v \<noteq> var \<longrightarrow> is_local d' v = is_local d v)"
proof (cases "is_local d var")
  case True
  then show ?thesis by (simp add: make_local_def sm_defs)
next
  case False
  then have n: "map_of (ds_vars d) var = None" by (simp add: is_local_def)
  show ?thesis
  proof (cases "findVar d var")
    case None
    with False n show ?thesis
      by (auto simp: make_local_def makeShadowCopy_def initVar_def sm_defs is_local_def)
        (auto simp: fun_eq_iff table_def findVar_def)
  next
    case (Some fs)
    with False n show ?thesis
      by (cases fs; auto simp: make_local_def makeShadowCopy_def initVar_def sm_defs is_local_def)
        (auto simp: fun_eq_iff table_def findVar_def)
  qed
qed

lemma put_flag_run:
  assumes "is_local d var"
  obtains d' where "put_flag var flag v d = (Inr (), d')"
    "table d' = (table d)(var := (table d var)(flag \<mapsto> v))"
    "\<exists>vs. d' = d\<lparr>ds_vars := vs\<rparr>" "\<And>x. is_local d x \<Longrightarrow> is_local d' x"
proof -
  from assms obtain fs where fs: "map_of (ds_vars d) var = Some fs" by (auto simp: is_local_def)
  then have t: "table d var = map_of fs" by (simp add: table_def local_find)
  show thesis
    by (rule that [of "d\<lparr>ds_vars := dset var (dset flag v fs) (ds_vars d)\<rparr>"])
      (use fs t in \<open>auto simp: put_flag_def put_flags_def local_flags_def dget_def sm_defs table_put is_local_def\<close>)
qed

lemma delVar_run:
  obtains d' where "delVar var d = (Inr (), d')" "table d' = (table d)(var := Map.empty)"
    "overridevars d' = overridevars d" "ds_sets d' = ds_sets d" "ds_below d' = ds_below d"
    "ds_overrides d' = ds_overrides d" "overridesset d' = overridesset d" "is_local d' var"
    "\<And>x. is_local d x \<Longrightarrow> is_local d' x"
    "\<And>x. map_of (overridedata d) x = None \<Longrightarrow> map_of (overridedata d') x = None"
proof -
  define od where "od = (if underscored var then overridedata (snd (forget_override var
     (d\<lparr>expand_cache := [], ds_vars := dset var [] (ds_vars d), overridedata := del_key var (overridedata d)\<rparr>)))
     else del_key var (overridedata d))"
  have *: "map_of od' x = None \<Longrightarrow> map_of (fold (\<lambda>(short, o1) od. case map_of od short of None \<Rightarrow> od
         | Some rs \<Rightarrow> dset short (remove1 (var, o1) rs) od) sp od') x = None" for sp x and od' :: "(string \<times> (string \<times> string) list) list"
  proof (induction sp arbitrary: od')
    case (Cons p sp)
    obtain a b where p: "p = (a, b)" by force
    from Cons show ?case by (cases "x = a") (auto simp: p split: option.split)
  qed simp
  have od: "map_of (overridedata d) x = None \<Longrightarrow> map_of od x = None" for x
    unfolding od_def using * by (auto simp: forget_override_def sm_defs)
  show thesis
    by (rule that [of "d\<lparr>expand_cache := [], ds_vars := dset var [] (ds_vars d), overridedata := od\<rparr>"])
      (use od in \<open>auto simp: delVar_def clear_cache_def put_flags_def sm_defs od_def forget_override_def
         table_put_clear is_local_def\<close>)
qed

text \<open>The interface of a table of flags, and what follows for every store that has it.\<close>

locale flag_table =
  fixes tab :: "'s \<Rightarrow> string \<Rightarrow> string \<Rightarrow> 'v option"
    and put :: "string \<Rightarrow> string \<Rightarrow> 'v \<Rightarrow> 's \<Rightarrow> 's"
    and drop1 :: "string \<Rightarrow> string \<Rightarrow> 's \<Rightarrow> 's"
    and clear :: "string \<Rightarrow> 's \<Rightarrow> 's"
  assumes tab_put: "tab (put var flag v s) = (tab s)(var := (tab s var)(flag \<mapsto> v))"
    and tab_drop: "tab (drop1 var flag s) = (tab s)(var := (tab s var)(flag := None))"
    and tab_clear: "tab (clear var s) = (tab s)(var := Map.empty)"
begin

lemma read_written: "tab (put var flag v s) var flag = Some v"
  by (simp add: tab_put)

lemma read_other: "(x, f) \<noteq> (var, flag) \<Longrightarrow> tab (put var flag v s) x f = tab s x f"
  by (auto simp: tab_put)

lemma write_all: "tab (fold (\<lambda>(f, v). put var f v) fs s) = (tab s)(var := tab s var ++ map_of (rev fs))"
  by (induction fs arbitrary: s) (auto simp: tab_put fun_eq_iff map_add_def split: option.split)

lemma clear_puts: "tab (put var flag v (clear var s)) var = [flag \<mapsto> v]"
  by (simp add: tab_put tab_clear)

lemma drop_put: "tab s var flag = None \<Longrightarrow> tab (drop1 var flag (put var flag v s)) = tab s"
  by (auto simp: tab_put tab_drop fun_eq_iff)

end

text \<open>The provider: the store without the bookkeeping of the overrides.\<close>

definition write_flag :: "string \<Rightarrow> string \<Rightarrow> dval \<Rightarrow> datastore \<Rightarrow> datastore" where
  "write_flag var flag v d = snd (sbind (make_local var) (\<lambda>_. put_flag var flag v) d)"

lemma write_flag_run:
  "\<exists>d'. sbind (make_local var) (\<lambda>_. put_flag var flag v) d = (Inr (), d') \<and>
    write_flag var flag v d = d' \<and> is_local d' var \<and> table d' = (table d)(var := (table d var)(flag \<mapsto> v)) \<and>
    overridedata d' = overridedata d \<and> overridevars d' = overridevars d \<and> ds_sets d' = ds_sets d \<and>
    ds_below d' = ds_below d \<and> ds_overrides d' = ds_overrides d \<and> overridesset d' = overridesset d \<and>
    inoverride d' = inoverride d"
proof -
  from make_local_run [of var d] obtain e where e: "make_local var d = (Inr (), e)" "is_local e var"
    "table e = table d" "overridedata e = overridedata d" "overridevars e = overridevars d"
    "ds_sets e = ds_sets d" "ds_below e = ds_below d" "ds_overrides e = ds_overrides d"
    "overridesset e = overridesset d" "inoverride e = inoverride d" by auto
  from put_flag_run [OF e(2), of flag v] obtain d' where "put_flag var flag v e = (Inr (), d')"
    "table d' = (table e)(var := (table e var)(flag \<mapsto> v))" "\<exists>vs. d' = e\<lparr>ds_vars := vs\<rparr>" "is_local d' var"
    using e(2) by metis
  with e show ?thesis by (auto simp: write_flag_def sbind_def)
qed

lemma table_write: "table (write_flag var flag v d) = (table d)(var := (table d var)(flag \<mapsto> v))"
  using write_flag_run [of var flag v d] by auto

lemma table_delFlag: "table (snd (delVarFlag var flag d)) = (table d)(var := (table d var)(flag := None))"
proof (cases "findVar d var = None \<or> findVar d var = Some []")
  case True
  then have "table d var = Map.empty" by (auto simp: table_def)
  with True show ?thesis by (auto simp: delVarFlag_def clear_cache_def sm_defs fun_eq_iff)
next
  case False
  define c where "c = d\<lparr>expand_cache := []\<rparr>"
  from make_local_run [of var c] obtain e where e: "make_local var c = (Inr (), e)" "is_local e var"
    "table e = table d" by (auto simp: c_def)
  then obtain fs where fs: "map_of (ds_vars e) var = Some fs" by (auto simp: is_local_def)
  then have t: "table e var = map_of fs" by (simp add: table_def local_find)
  have "snd (delVarFlag var flag d) = e\<lparr>ds_vars := dset var (del_key flag fs) (ds_vars e)\<rparr>"
    using False e fs by (simp add: delVarFlag_def clear_cache_def sm_defs c_def [symmetric] local_flags_def
        dget_def put_flags_def) (auto simp: c_def)
  with e(3) t show ?thesis
    by (auto simp: table_put fun_eq_iff)
qed

interpretation st: flag_table table write_flag "\<lambda>var flag d. snd (delVarFlag var flag d)" "\<lambda>var d. snd (delVar var d)"
proof unfold_locales
  show "table (snd (delVar var s)) = (table s)(var := Map.empty)" for var s
    by (rule delVar_run [of var s]) simp
qed (auto simp: table_write table_delFlag)

section \<open>Writing\<close>

lemma sbind_run: "m s = (Inr x, t) \<Longrightarrow> sbind m f s = f x t"
  by (simp add: sbind_def)

lemma sbind_assoc: "sbind (sbind m f) g = sbind m (\<lambda>x. sbind (f x) g)"
  by (auto simp: sbind_def fun_eq_iff split: prod.split sum.split)

lemma sbind_if: "sbind (if b then sret () else m) f = (if b then f () else sbind m f)"
  "sbind (if b then m else sret ()) f = (if b then sbind m f else f ())"
  by (auto simp: sbind_def sret_def fun_eq_iff)

text \<open>The relation for the methods that may also extend the variables behind the overrides.\<close>

definition same_vars :: "datastore \<Rightarrow> datastore \<Rightarrow> bool" where
  "same_vars s t \<longleftrightarrow> ds_vars t = ds_vars s \<and> ds_below t = ds_below s \<and> ds_sets t = ds_sets s \<and>
     overridedata t = overridedata s"

interpretation sv: state_preorder same_vars
  by unfold_locales (auto simp: same_vars_def)

lemma keeps_vars: "sd.keeps m \<Longrightarrow> sv.keeps m"
  by (auto simp: sd.keeps_def sv.keeps_def same_vars_def same_data_def data_of_def)

lemma keeps_vars_supd: "(\<And>d. same_vars d (f d)) \<Longrightarrow> sv.keeps (supd f)"
  by (rule sv.update)

lemma keeps_names_of: "quiet_read I \<Longrightarrow> sv.keeps (override_names I is)"
  by (induction I "is" rule: override_names.induct)
    (auto intro!: sv.rules keeps_vars [OF keeps_getVar] keeps_vars [OF keeps_expandWithRefs])

lemma keeps_grow: "quiet_read I \<Longrightarrow> sv.keeps (grow_overridevars I k new)"
  by (induction I k new rule: grow_overridevars.induct)
    (auto simp: same_vars_def intro!: sv.rules keeps_names_of keeps_vars_supd)

lemma keeps_update_overridevars: "quiet_read I \<Longrightarrow> sv.keeps (setvar_update_overridevars I var v)"
  unfolding setvar_update_overridevars_def internal_finalize_def
  by (intro sv.rules keeps_vars [OF keeps_expandWithRefs] keeps_grow keeps_vars_supd)
    (auto simp: same_vars_def split: option.split)

lemma same_vars_eqs:
  assumes "same_vars s t"
  shows "table t = table s" "overridedata t = overridedata s" "is_local t = is_local s" "ds_sets t = ds_sets s"
  using assms by (auto simp: same_vars_def table_def findVar_def is_local_def fun_eq_iff)

lemma run_update_overridevars:
  assumes "quiet_read I" "setvar_update_overridevars I var v s = (r, t)"
  shows "table t = table s" "overridedata t = overridedata s" "is_local t = is_local s" "ds_sets t = ds_sets s"
  using same_vars_eqs [OF sv.keepsD [OF keeps_update_overridevars [OF assms(1)] assms(2)]] by auto

lemma run_need:
  assumes "quiet_read I" "need_overrides I s = (r, t)"
  shows "table t = table s" "overridedata t = overridedata s" "is_local t = is_local s" "ds_sets t = ds_sets s"
  using same_vars_eqs [OF sv.keepsD [OF keeps_vars [OF keeps_need [OF assms(1)]] assms(2)]] by auto

lemma run_getVarFlag:
  assumes "quiet_read I" "getVarFlag I var flag e nw p s = (r, t)"
  shows "table t = table s" "overridedata t = overridedata s" "is_local t = is_local s" "ds_sets t = ds_sets s"
    "overridevars t = overridevars s"
  using same_vars_eqs [OF sv.keepsD [OF keeps_vars [OF keeps_getVarFlag [OF assms(1)]] assms(2)]]
    sd.keepsD [OF keeps_getVarFlag [OF assms(1)] assms(2)] by (auto simp: same_data_eqs)

text \<open>The entries made for a name belong to shorter names.\<close>

lemma override_splits_shorter: "(s, o1) \<in> set (override_splits var o' short) \<Longrightarrow> length s \<le> length short"
proof (induction var o' short rule: override_splits.induct)
  case (1 var o' short)
  show ?case
  proof (cases "s = short")
    case False
    with 1(2) have u: "\<not> (o' = [] \<or> \<not> islower o')" "CHR ''_'' \<in> set short" "before_last short \<noteq> []"
      "(s, o1) \<in> set (override_splits var (drop (Suc (length (before_last short))) var) (before_last short))"
      by (auto simp: override_splits.simps [of var o' short] Let_def split: if_splits)
    from 1(1) [OF u(1) _ refl u(3,4)] u(2) before_last_shorter [OF u(2)] show ?thesis by simp
  qed simp
qed

lemma name_splits_shorter:
  assumes "(s, o1) \<in> set (name_splits var)"
  shows "length s < length var"
proof (cases "CHR ''_'' \<in> set var")
  case True
  with assms before_last_shorter [OF True] override_splits_shorter show ?thesis
    by (force simp: name_splits_def)
next
  case False
  show ?thesis
  proof (cases "var = []")
    case True
    with assms show ?thesis by (simp add: name_splits_def last_part_def override_splits.simps)
  next
    case ne: False
    with False assms override_splits_shorter have "length s \<le> length (butlast var)"
      by (force simp: name_splits_def before_last_def)
    moreover from ne have "length (butlast var) < length var" by simp
    ultimately show ?thesis by linarith
  qed
qed

lemma update_overrides_run:
  "\<exists>od. setvar_update_overrides var d = (Inr (), d\<lparr>overridedata := od\<rparr>) \<and>
     map_of od var = map_of (overridedata d) var"
proof -
  have "var \<notin> fst ` set sp \<Longrightarrow>
    map_of (fold (\<lambda>(short, o1) od. dset short (sadd (var, o1) (dget_or od short [])) od) sp od') var = map_of od' var"
    for sp od'
    by (induction sp arbitrary: od') (auto split: prod.split)
  moreover have "var \<notin> fst ` set (name_splits var)" using name_splits_shorter by force
  ultimately show ?thesis by (auto simp: setvar_update_overrides_def sm_defs)
qed

text \<open>The deletion of the active overrides, and the removal of the entry.\<close>

lemma delVars_run:
  "\<exists>d'. sfor act (\<lambda>(r, o1). delVar r) d = (Inr (), d') \<and>
     table d' = (\<lambda>x. if x \<in> fst ` set act then Map.empty else table d x) \<and>
     (\<forall>x. is_local d x \<longrightarrow> is_local d' x)"
proof (induction act arbitrary: d)
  case Nil
  then show ?case by simp
next
  case (Cons p act)
  obtain r o1 where p: "p = (r, o1)" by force
  obtain e where e: "delVar r d = (Inr (), e)" "table e = (table d)(r := Map.empty)"
    "\<And>x. is_local d x \<Longrightarrow> is_local e x" by (rule delVar_run [of r d]) blast
  from Cons [of e] obtain d' where "sfor act (\<lambda>(r, o1). delVar r) e = (Inr (), d')"
    "table d' = (\<lambda>x. if x \<in> fst ` set act then Map.empty else table e x)" "\<forall>x. is_local e x \<longrightarrow>
        is_local d' x"
    by blast
  with e show ?case by (auto simp: p fun_eq_iff)
qed

lemma drop_overrides_run:
  assumes q: "quiet_read I" and run: "drop_overrides I var d = (Inr (), d')" and rs: "map_of (overridedata d) var = Some rs"
  shows "\<exists>R \<subseteq> fst ` set rs. table d' = (\<lambda>x. if x \<in> R then Map.empty else table d x)"
    and "map_of (overridedata d') var = None" and "\<And>x. is_local d x \<Longrightarrow> is_local d' x"
proof -
  from run obtain e where e: "need_overrides I d = (Inr (), e)"
    by (auto simp: drop_overrides_def sbind_eq_Inr)
  note n = run_need [OF q e]
  define act where "act = filter (\<lambda>(r, o1). override_active (overridesset e) o1) rs"
  from delVars_run [of act e] obtain g where g: "sfor act (\<lambda>(r, o1). delVar r) e = (Inr (), g)"
    "table g = (\<lambda>x. if x \<in> fst ` set act then Map.empty else table e x)" "\<forall>x. is_local e x \<longrightarrow>
        is_local g x"
    by blast
  from run e rs g(1) n(2) have d': "d' = g\<lparr>overridedata := del_key var (overridedata g)\<rparr>"
    unfolding drop_overrides_def act_def
    by (auto simp: sbind_def sres_def sget_def supd_def dget_def split: prod.splits sum.splits option.splits)
  show "\<exists>R \<subseteq> fst ` set rs. table d' = (\<lambda>x. if x \<in> R then Map.empty else table d x)"
    by (rule exI [of _ "fst ` set act"]) (auto simp: d' g(2) n(1) fun_eq_iff act_def)
  show "map_of (overridedata d') var = None" by (simp add: d')
  show "is_local d x \<Longrightarrow> is_local d' x" for x using g(3) n(3) by (simp add: d')
qed

text \<open>What a variable looks like before its content is written.\<close>

definition cleared :: "bool \<Rightarrow> string \<Rightarrow> string set \<Rightarrow> datastore \<Rightarrow> datastore \<Rightarrow> bool" where
  "cleared parsing var R d e \<longleftrightarrow> is_local e var \<and>
     (\<forall>x. x \<noteq> var \<longrightarrow> table e x = (if x \<in> R then Map.empty else table d x)) \<and>
     (\<forall>f. table e var f = (if \<not> parsing \<and> (f = ''_append'' \<or> f = ''_prepend'') \<or> var \<in> R then None
        else table d var f)) \<and>
     (\<not> parsing \<longrightarrow> map_of (overridedata e) var = None) \<and> (parsing \<longrightarrow>
         R = {})"

definition overriding :: "datastore \<Rightarrow> string \<Rightarrow> string set" where
  "overriding d var = (case map_of (overridedata d) var of None \<Rightarrow> {} | Some rs \<Rightarrow> fst ` set rs)"

lemma drop_additions_run:
  assumes "is_local d var"
  shows "\<exists>d'. drop_additions var d = (Inr (), d') \<and> is_local d' var \<and>
    table d' = (table d)(var := (table d var)(''_append'' := None, ''_prepend'' := None)) \<and>
    overridedata d' = overridedata d"
proof -
  from assms obtain fs where fs: "map_of (ds_vars d) var = Some fs" by (auto simp: is_local_def)
  then have "table d var = map_of fs" by (simp add: table_def local_find)
  with fs show ?thesis
    by (auto simp: drop_additions_def sm_defs local_flags_def dget_def put_flags_def table_put is_local_def)
qed

lemma set_content_clears:
  assumes q: "quiet_read I" and run: "sbind (make_local var) (\<lambda>_. if parsing then sret ()
       else sbind (drop_additions var) (\<lambda>_. sbind (sget (\<lambda>d. map_of (overridedata d) var \<noteq> None)) (\<lambda>b.
         if b then drop_overrides I var else sret ()))) d = (Inr (), e)"
  shows "\<exists>R \<subseteq> overriding d var. cleared parsing var R d e"
proof -
  from make_local_run [of var d] obtain a where a: "make_local var d = (Inr (), a)" "is_local a var"
    "table a = table d" "overridedata a = overridedata d" by auto
  show ?thesis
  proof (cases parsing)
    case True
    with run a have "e = a" by (simp add: sbind_def sret_def)
    with True a show ?thesis by (intro exI [of _ "{}"]) (auto simp: cleared_def)
  next
    case False
    from drop_additions_run [OF a(2)] obtain b where b: "drop_additions var a = (Inr (), b)" "is_local b var"
      "table b = (table a)(var := (table a var)(''_append'' := None, ''_prepend'' := None))"
      "overridedata b = overridedata a" by auto
    show ?thesis
    proof (cases "map_of (overridedata b) var")
      case None
      with run False a b have "e = b" by (simp add: sbind_def sret_def sget_def)
      with False None a b show ?thesis by (intro exI [of _ "{}"]) (auto simp: cleared_def)
    next
      case (Some rs)
      with run False a b have "drop_overrides I var b = (Inr (), e)" by (simp add: sbind_def sget_def)
      from drop_overrides_run [OF q this Some] b(2) obtain R where "R \<subseteq> fst ` set rs"
        "table e = (\<lambda>x. if x \<in> R then Map.empty else table b x)" "map_of (overridedata e) var = None" "is_local e var"
        by blast
      with False Some a b show ?thesis
        by (intro exI [of _ R]) (auto simp: cleared_def overriding_def)
    qed
  qed
qed

lemma set_content_run:
  assumes q: "quiet_read I" and run: "set_content I var v parsing d = (Inr (), d')"
  shows "\<exists>R e. R \<subseteq> overriding d var \<and> cleared parsing var R d e \<and>
     table d' = (table e)(var := (table e var)(''_content'' \<mapsto> v)) \<and>
     map_of (overridedata d') var = map_of (overridedata e) var"
proof -
  define m1 where "m1 = sbind (make_local var) (\<lambda>_. if parsing then sret ()
       else sbind (drop_additions var) (\<lambda>_. sbind (sget (\<lambda>d. map_of (overridedata d) var \<noteq> None)) (\<lambda>b.
         if b then drop_overrides I var else sret ())))"
  have sc: "set_content I var v parsing d = sbind m1 (\<lambda>_.
     sbind (if underscored var then setvar_update_overrides var else sret ()) (\<lambda>_.
     sbind (put_flag var ''_content'' v) (\<lambda>_.
     sbind (sget (\<lambda>d. var \<in> set (overridevars d))) (\<lambda>b.
     if b then setvar_update_overridevars I var v else sret ())))) d"
    unfolding set_content_def m1_def by (simp add: sbind_def split: prod.split sum.split)
  from run obtain e where e: "m1 d = (Inr (), e)"
    unfolding sc by (auto simp: sbind_eq_Inr)
  from set_content_clears [OF q e [unfolded m1_def]] obtain R where
    R: "R \<subseteq> overriding d var" "cleared parsing var R d e" by blast
  from update_overrides_run [of var e] obtain f where
    f: "(if underscored var then setvar_update_overrides var else sret ()) e = (Inr (), f)"
      "table f = table e" "is_local f var" "map_of (overridedata f) var = map_of (overridedata e) var"
    using R(2) by (cases "underscored var") (auto simp: sret_def cleared_def)
  from put_flag_run [OF f(3), of "''_content''" v] obtain g where
    g: "put_flag var ''_content'' v f = (Inr (), g)"
      "table g = (table f)(var := (table f var)(''_content'' \<mapsto> v))" "\<exists>vs. g = f\<lparr>ds_vars := vs\<rparr>"
    by metis
  from run e f(1) g(1) have fin: "(if var \<in> set (overridevars g) then setvar_update_overridevars I var v else sret ()) g
      = (Inr (), d')"
    unfolding sc by (simp add: sbind_def sget_def)
  have "table d' = table g" "overridedata d' = overridedata g"
    using fin run_update_overridevars [OF q, of var v g "Inr ()" d']
    by (auto simp: sret_def split: if_splits)
  with R f g show ?thesis by (intro exI [of _ R] exI [of _ e]) auto
qed

text \<open>Reading a variable that has neither additions nor overrides.\<close>

definition stored_in :: "(string \<Rightarrow> dval option) \<Rightarrow> bool \<Rightarrow> dval" where
  "stored_in t nw = (case t ''_content'' of Some v \<Rightarrow> v
     | None \<Rightarrow> if nw then VNone else (case t ''_defaultval'' of Some v \<Rightarrow> v | None \<Rightarrow> VNone))"

lemma stored_table: "findVar d var = Some fs \<Longrightarrow> stored_value fs ''_content'' nw = stored_in (table d var) nw"
  by (auto simp: stored_value_def stored_in_def table_def split: option.split)

lemma get_plain:
  assumes "table d var ''_append'' = None" "table d var ''_prepend'' = None" "table d var ''_remove'' = None"
    and "map_of (overridedata d) var = None \<or> p"
  shows "get_flag_with I get var ''_content'' e nw p d =
    (let v = copy_value d (stored_in (table d var) nw)
     in if e \<and> dval_true v then expand_with I get v (Some var) d else (Inr v, d))"
proof (cases "findVar d var")
  case None
  then have "stored_in (table d var) nw = VNone" by (simp add: table_def stored_in_def)
  with None assms show ?thesis
    by (auto simp: get_flag_with_def read_stored_def read_additions_def sm_defs copy_value_def)
next
  case (Some fs)
  then have t: "table d var = map_of fs" by (simp add: table_def)
  have c: "(case expand_with I get v vn d of (Inl e, s') \<Rightarrow> (Inl e, s') | (Inr x, s') \<Rightarrow> sret x s')
      = expand_with I get v vn d" for v vn d
    by (auto simp: sret_def split: prod.split sum.split)
  from assms t have f: "map_of fs ''_append'' = None" "map_of fs ''_prepend'' = None" "map_of fs ''_remove'' = None"
    by auto
  have sv: "stored_value fs ''_content'' nw = stored_in (map_of fs) nw"
    using stored_table [OF Some] t by simp
  show ?thesis
    using Some assms(4) f sv
    by (auto simp: get_flag_with_def read_stored_def read_additions_def sm_defs flag_cache_name_def Let_def c t)
qed

lemma add_export_run:
  assumes "add_export var d = (Inr (), d')" and "x \<noteq> exportlist"
  shows "table d' x = table d x"
proof -
  from make_local_run [of exportlist d] obtain a where a: "make_local exportlist d = (Inr (), a)"
    "is_local a exportlist" "table a = table d" by auto
  then obtain fs where fs: "map_of (ds_vars a) exportlist = Some fs" by (auto simp: is_local_def)
  let ?rest = "sbind (sres (local_flags exportlist)) (\<lambda>fs.
     case map_of fs ''_content'' of
       None \<Rightarrow> sbind (sget (\<lambda>d. length (ds_sets d))) (\<lambda>n.
         sbind (supd (\<lambda>d. d\<lparr>ds_sets := ds_sets d @ [[var]]\<rparr>)) (\<lambda>_.
         put_flag exportlist ''_content'' (VRef n)))
     | Some (VRef n) \<Rightarrow> supd (\<lambda>d. d\<lparr>ds_sets := (ds_sets d)[n := sadd var (ds_sets d ! n)]\<rparr>)
     | Some (VSet xs) \<Rightarrow> put_flag exportlist ''_content'' (VSet (sadd var xs))
     | Some v \<Rightarrow> sraise AttributeError)"
  have "add_export var d = sbind (make_local exportlist) (\<lambda>_. ?rest) d"
    unfolding add_export_def make_local_def sbind_assoc ..
  with assms(1) have r: "?rest a = (Inr (), d')"
    unfolding sbind_run [where m = "make_local exportlist", OF a(1)] by (rule back_subst [where P = "\<lambda>z. z = (Inr (), d')"])
  have put: "put_flag exportlist ''_content'' v s = (Inr (), s') \<Longrightarrow> is_local s exportlist \<Longrightarrow> table s' x = table s x"
    for v s s'
    by (erule put_flag_run [of s exportlist "''_content''" v]) (use assms(2) in simp)
  have l: "sres (local_flags exportlist) a = (Inr fs, a)" using fs by (simp add: sres_def local_flags_def dget_def)
  have "table d' x = table a x"
  proof (cases "map_of fs ''_content''")
    case None
    with r have "put_flag exportlist ''_content'' (VRef (length (ds_sets a)))
        (a\<lparr>ds_sets := ds_sets a @ [[var]]\<rparr>) = (Inr (), d')"
      by (simp only: sbind_run [where m = "sres (local_flags exportlist)", OF l] option.case) (simp add: sbind_def sget_def supd_def)
    from put [OF this] a(2) show ?thesis by simp
  next
    case (Some v)
    note r' = r [unfolded sbind_run [where m = "sres (local_flags exportlist)", OF l] Some option.case]
    show ?thesis
    proof (cases v)
      case (VSet xs)
      with r' put a(2) show ?thesis by simp
    next
      case (VRef n)
      with r' show ?thesis by (auto simp: supd_def)
    qed (use r' in \<open>simp_all add: sraise_def\<close>)
  qed
  with a(3) show ?thesis by simp
qed

lemma setVarFlag_run:
  assumes q: "quiet_read I" and run: "setVarFlag I var flag v d = (Inr (), d')"
    and x: "x \<noteq> exportlist \<or> (flag \<noteq> ''export'' \<and> flag \<noteq> ''unexport'')"
  shows "table d' x = ((table d)(var := (table d var)(flag \<mapsto> v))) x"
proof -
  define c where "c = d\<lparr>expand_cache := []\<rparr>"
  from write_flag_run [of var flag v c] obtain b where
    b: "sbind (make_local var) (\<lambda>_. put_flag var flag v) c = (Inr (), b)"
      "table b = (table d)(var := (table d var)(flag \<mapsto> v))" "overridevars b = overridevars d"
    by (auto simp: c_def)
  have c: "clear_cache d = (Inr (), c)" by (simp add: c_def clear_cache_def supd_def)
  from run have r: "sbind (if flag = ''_defaultval'' \<and> underscored var then setvar_update_overrides var else sret ()) (\<lambda>_.
     sbind (sget (\<lambda>d. flag = ''_defaultval'' \<and> var \<in> set (overridevars d))) (\<lambda>b.
     sbind (if b then setvar_update_overridevars I var v else sret ()) (\<lambda>_.
     if flag = ''unexport'' \<or> flag = ''export'' then add_export var else sret ()))) b = (Inr (), d')"
    unfolding setVarFlag_def sbind_run [where m = clear_cache, OF c] sbind_assoc [symmetric, of "make_local var"] sbind_run [where m = "sbind (make_local var) (\<lambda>_. put_flag var flag v)", OF b(1)]
    by (simp only:)
  have "\<exists>e. (if flag = ''_defaultval'' \<and> underscored var then setvar_update_overrides var else sret ()) b
      = (Inr (), e) \<and> table e = table b"
    using update_overrides_run [of var b]
    by (cases "flag = ''_defaultval'' \<and> underscored var") (auto simp: sret_def)
  then obtain e where e: "(if flag = ''_defaultval'' \<and> underscored var then setvar_update_overrides var else sret ()) b
      = (Inr (), e)" "table e = table b" by blast
  from r [unfolded sbind_run [where m = "if flag = ''_defaultval'' \<and> underscored var then setvar_update_overrides var else sret ()", OF e(1)]] obtain f where f: "(if flag = ''_defaultval'' \<and> var \<in> set (overridevars e)
      then setvar_update_overridevars I var v else sret ()) e = (Inr (), f)"
    "(if flag = ''unexport'' \<or> flag = ''export'' then add_export var else sret ()) f = (Inr (), d')"
    by (auto simp: sbind_def sget_def split: prod.splits sum.splits if_splits)
  have "table f = table e"
    using f(1) run_update_overridevars(1) [OF q, of var v e "Inr ()" f] by (auto simp: sret_def split: if_splits)
  moreover have "table d' x = table f x"
    using f(2) x add_export_run [of var f d' x] by (auto simp: sret_def split: if_splits)
  ultimately show ?thesis using b e by simp
qed

lemma setVarFlags_run:
  assumes "''_content'' \<notin> fst ` set fs"
  shows "\<exists>d'. setVarFlags var fs d = (Inr (), d') \<and> table d' = (table d)(var := table d var ++ map_of (rev fs))"
proof -
  have *: "is_local e var \<Longrightarrow> ''_content'' \<notin> fst ` set gs \<Longrightarrow>
    \<exists>d'. sfor gs (\<lambda>(i, v). if i = ''_content'' then sret () else put_flag var i v) e = (Inr (), d') \<and>
      table d' = (table e)(var := table e var ++ map_of (rev gs))" for gs e
  proof (induction gs arbitrary: e)
    case Nil
    then show ?case by simp
  next
    case (Cons g gs)
    obtain i v where g: "g = (i, v)" by force
    from put_flag_run [OF Cons.prems(1), of i v] obtain e' where e': "put_flag var i v e = (Inr (), e')"
      "table e' = (table e)(var := (table e var)(i \<mapsto> v))" "is_local e' var"
      using Cons.prems(1) by metis
    from Cons.IH [OF e'(3)] Cons.prems(2) obtain d' where
      "sfor gs (\<lambda>(i, v). if i = ''_content'' then sret () else put_flag var i v) e' = (Inr (), d')"
      "table d' = (table e')(var := table e' var ++ map_of (rev gs))" by force
    with e' g Cons.prems(2) show ?case by (auto simp: fun_eq_iff map_add_def split: option.split)
  qed
  from make_local_run [of var "d\<lparr>expand_cache := []\<rparr>"] obtain a where
    a: "make_local var (d\<lparr>expand_cache := []\<rparr>) = (Inr (), a)" "is_local a var" "table a = table d" by auto
  from * [OF a(2) assms] a show ?thesis
    by (auto simp: setVarFlags_def clear_cache_def sbind_def supd_def)
qed

lemma find_layers_Nil: "find_layers ([] # ls) var = find_layers ls var"
  by simp

lemma table_copy: "table (createCopy d) = table d"
  by (simp add: fun_eq_iff table_def findVar_def createCopy_def new_datastore_def)

lemma setVar_content:
  assumes "quiet_read I" "match_setvar var = None" "setVar I var v parsing d = (Inr (), d')"
  shows "\<exists>R e. R \<subseteq> overriding d var \<and> cleared parsing var R d e \<and>
     table d' = (table e)(var := (table e var)(''_content'' \<mapsto> v)) \<and>
     map_of (overridedata d') var = map_of (overridedata e) var"
proof -
  from assms(2,3) have "set_content I var v parsing (d\<lparr>expand_cache := []\<rparr>) = (Inr (), d')"
    by (simp add: setVar_def clear_cache_def sbind_def supd_def)
  moreover have "overriding (d\<lparr>expand_cache := []\<rparr>) var = overriding d var"
    "cleared parsing var R (d\<lparr>expand_cache := []\<rparr>) e = cleared parsing var R d e" for R e
    by (simp_all add: overriding_def cleared_def)
  ultimately show ?thesis using set_content_run [OF assms(1), of var v parsing "d\<lparr>expand_cache := []\<rparr>" d'] by simp
qed

text \<open>
  C18. The layers of a data store implement one table from variables and flags to values:
  deleting variables and flags, writing flags other than those for exports, setting a variable
  while parsing (no additions or overrides are dropped then) and copying the store have exactly
  the effect on the table that their names say, through whatever copies the variables have been
  inherited.  The Python code in values must not change the store.
\<close>

theorem store_refines_table:
  assumes "quiet_read I"
  shows "table (createCopy d) = table d \<and>
    table (snd (delVar var d)) = (table d)(var := Map.empty) \<and>
    table (snd (delVarFlag var flag d)) = (table d)(var := (table d var)(flag := None)) \<and>
    (''_content'' \<notin> fst ` set fs \<longrightarrow>
        table (snd (setVarFlags var fs d)) = (table d)(var := table d var ++ map_of (rev fs))) \<and>
    (flag \<noteq> ''export'' \<longrightarrow> flag \<noteq> ''unexport'' \<longrightarrow>
        setVarFlag I var flag v d = (Inr (), d') \<longrightarrow>
        table d' = (table d)(var := (table d var)(flag \<mapsto> v))) \<and>
    (match_setvar var = None \<longrightarrow> setVar I var v True d = (Inr (), d') \<longrightarrow>
        table d' = (table d)(var := (table d var)(''_content'' \<mapsto> v)))"
proof (intro conjI impI)
  show "table (createCopy d) = table d" by (rule table_copy)
  show "table (snd (delVar var d)) = (table d)(var := Map.empty)" by (rule st.tab_clear)
  show "table (snd (delVarFlag var flag d)) = (table d)(var := (table d var)(flag := None))" by (rule st.tab_drop)
  show "''_content'' \<notin> fst ` set fs \<Longrightarrow>
      table (snd (setVarFlags var fs d)) = (table d)(var := table d var ++ map_of (rev fs))"
    using setVarFlags_run [of fs var d] by force
  show "flag \<noteq> ''export'' \<Longrightarrow> flag \<noteq> ''unexport'' \<Longrightarrow> setVarFlag I var flag v d = (Inr (), d') \<Longrightarrow>
      table d' = (table d)(var := (table d var)(flag \<mapsto> v))"
    using setVarFlag_run [OF assms] by blast
  show "match_setvar var = None \<Longrightarrow> setVar I var v True d = (Inr (), d') \<Longrightarrow>
      table d' = (table d)(var := (table d var)(''_content'' \<mapsto> v))"
    using setVar_content [OF assms, of var v True d d'] by (fastforce simp: cleared_def fun_eq_iff)
qed

text \<open>A store without inline Python, for examples.\<close>

definition no_python :: "nat \<Rightarrow> nat \<Rightarrow> interp" where
  "no_python rounds depth = \<lparr>py_parse = (\<lambda>_. Inl (SyntaxError ''invalid syntax'')),
     py_eval = (\<lambda>_. sraise TypeError), py_rounds = rounds, py_depth = depth\<rparr>"

lemma quiet_no_python: "quiet_read (no_python r n)"
  by (simp add: quiet_read_def no_python_def sd.pure)

lemma store_refines_table_witness:
  "let d = snd (delVarFlag ''A'' ''doc'' new_datastore);
       d' = snd (setVar (no_python 5 9) ''A'' (VStr ''x'') True (createCopy d))
   in table d' = (table (createCopy d))(''A'' := (table (createCopy d) ''A'')(''_content'' \<mapsto> VStr ''x''))"
proof -
  have "match_setvar ''A'' = None" by code_simp
  moreover have "setVar (no_python 5 9) ''A'' (VStr ''x'') True (createCopy (snd (delVarFlag ''A'' ''doc'' new_datastore)))
    = (Inr (), snd (setVar (no_python 5 9) ''A'' (VStr ''x'') True (createCopy (snd (delVarFlag ''A'' ''doc'' new_datastore)))))"
    by code_simp
  ultimately show ?thesis
    using store_refines_table [OF quiet_no_python, THEN conjunct2, THEN conjunct2, THEN conjunct2, THEN conjunct2, THEN conjunct2]
    unfolding Let_def by blast
qed

section \<open>A variable that has been set\<close>

text \<open>
  C15. A variable that no words are removed from (\<open>_remove\<close>) is read back as it was set: after
  \<open>setVar\<close> with a name without a keyword returns, reading the variable without expansion gives the
  value, whatever overrides, additions and copies there were before, and reading it with expansion
  expands that value.  The expansion takes the value that is cached for the variable if there is
  one, which can be the old one (\<open>set_then_expand_stale\<close> below).  The Python code in values must
  not change the store, and the value is neither None nor a mutable object.
\<close>

theorem setVar_getVar:
  assumes "quiet_read I" and "match_setvar var = None" and "setVar I var v False d = (Inr (), d')"
    and "v \<noteq> VNone" and "\<forall>n. v \<noteq> VRef n" and "table d var ''_remove'' = None" and "0 < py_depth I"
  shows "getVar I var False nw parsing d' = (Inr v, d') \<and>
    getVar I var True nw parsing d' =
      (if dval_true v then expand_with I (reader_at I (py_depth I - 1)) v (Some var) d' else (Inr v, d'))"
proof -
  from setVar_content [OF assms(1,2,3)] obtain R e where e: "cleared False var R d e"
    "table d' = (table e)(var := (table e var)(''_content'' \<mapsto> v))"
    "map_of (overridedata d') var = map_of (overridedata e) var" by auto
  from e(1) assms(6) have t: "table e var ''_append'' = None" "table e var ''_prepend'' = None"
    "table e var ''_remove'' = None" "map_of (overridedata e) var = None"
    unfolding cleared_def by auto
  from assms(7) obtain n where n: "py_depth I = Suc n" by (cases "py_depth I") auto
  from e(2) have "stored_in (table d' var) nw = v" by (simp add: stored_in_def)
  moreover from assms(5) have "copy_value d' v = v" by (auto simp: copy_value_def split: dval.split)
  moreover have "(\<lambda>v f e. get_flag I n v f e False False) = reader_at I n" by (simp add: reader_at_def fun_eq_iff)
  ultimately show ?thesis
    using get_plain [of d' var parsing I "reader_at I n" _ nw] e(2,3) t
    by (simp add: getVar_def getVarFlag_def n get_flag.simps)
qed

definition example_sets :: "(string \<times> string) list \<Rightarrow> datastore" where
  "example_sets xs = snd (sfor xs (\<lambda>(v, x). setVar (no_python 5 9) v (VStr x) False) new_datastore)"

lemma setVar_getVar_witness:
  "getVar (no_python 5 9) ''A'' False False False
     (snd (setVar (no_python 5 9) ''A'' (VStr ''new'') False
       (createCopy (example_sets [(''A'', ''x''), (''A_append'', ''y''), (''OVERRIDES'', ''arm''), (''A_arm'', ''z'')]))))
   = (Inr (VStr ''new''), snd (setVar (no_python 5 9) ''A'' (VStr ''new'') False
       (createCopy (example_sets [(''A'', ''x''), (''A_append'', ''y''), (''OVERRIDES'', ''arm''), (''A_arm'', ''z'')]))))"
proof (rule setVar_getVar [where d = "createCopy (example_sets [(''A'', ''x''), (''A_append'', ''y''), (''OVERRIDES'', ''arm''), (''A_arm'', ''z'')])", THEN conjunct1])
  show "setVar (no_python 5 9) ''A'' (VStr ''new'') False
       (createCopy (example_sets [(''A'', ''x''), (''A_append'', ''y''), (''OVERRIDES'', ''arm''), (''A_arm'', ''z'')]))
     = (Inr (), snd (setVar (no_python 5 9) ''A'' (VStr ''new'') False
       (createCopy (example_sets [(''A'', ''x''), (''A_append'', ''y''), (''OVERRIDES'', ''arm''), (''A_arm'', ''z'')]))))"
    by code_simp
  show "table (createCopy (example_sets [(''A'', ''x''), (''A_append'', ''y''), (''OVERRIDES'', ''arm''), (''A_arm'', ''z'')])) ''A'' ''_remove'' = None"
    by code_simp
qed (rule quiet_no_python | simp add: no_python_def | code_simp)+

text \<open>
  The expansion can be that of the old value.  When the overrides have to be computed while a
  variable is set, its old value goes into the cache after the cache has been cleared, and it
  is what is read with expansion until another variable is set.
\<close>

lemma set_then_expand_stale:
  "fst (getVar (no_python 5 9) ''MACHINE'' True False False (example_sets
     [(''MACHINE'', ''qemu''), (''OVERRIDES'', ''${MACHINE}:x''), (''MACHINE_native'', ''z''), (''MACHINE'', ''new'')]))
   = Inr (VStr ''qemu'')"
  by code_simp

text \<open>Deleting the flags of an inherited variable without content has no effect.\<close>

lemma delVarFlags_no_effect:
  "fst (getVarFlags (no_python 5 9) ''V'' [] True (snd (delVarFlags ''V''
     (createCopy (snd (setVarFlag (no_python 5 9) ''V'' ''doc'' (VStr ''t'') new_datastore))))))
   = Inr (Some [(''doc'', VStr ''t'')])"
  by code_simp

text \<open>Exporting a variable in a copy exports it in the original.\<close>

lemma export_shared:
  "let d = snd (setVarFlag (no_python 5 9) ''E'' ''export'' (VInt 1) new_datastore);
       c = snd (setVarFlag (no_python 5 9) ''F'' ''export'' (VInt 1) (createCopy d))
   in fst (getVar (no_python 5 9) exportlist False False False (seen_from d c)) = Inr (VSet [''E'', ''F''])"
  by code_simp

text \<open>An addition to a lower case name makes an override for the name without its last character.\<close>

lemma append_makes_override:
  "overridedata (example_sets [(''foo_append'', ''x'')]) = [(''fo'', [(''foo'', ''foo'')])]"
  by code_simp

text \<open>An active override is lost when one of its parts begins another part.\<close>

lemma override_lost:
  "override_active [''a'', ''bc'', ''b''] ''a_bc_b'' \<and>
   resolve [''a'', ''bc'', ''b''] (active_entries [''a'', ''bc'', ''b''] [(''V_a_bc_b'', ''a_bc_b'')]) None = None"
  by code_simp

text \<open>When the overrides cannot be expanded, the store stays without overrides.\<close>

lemma overrides_stuck:
  "let d = snd (getVar (no_python 5 9) ''A'' True False False
      (example_sets [(''A'', ''x''), (''A_arm'', ''z''), (''OVERRIDES'', ''${Z}:arm''), (''Z'', ''${Z}'')]))
   in inoverride d \<and> ds_overrides d = Some [] \<and>
      fst (getVar (no_python 5 9) ''A'' False False False d) = Inr (VStr ''x'') \<and>
      fst (getVar (no_python 5 9) ''A'' False False False (d\<lparr>ds_overrides := None\<rparr>)) = Inl TypeError"
  by code_simp

section \<open>The override that wins\<close>

lemma active_entries_append:
  "active_entries os (rs @ [e]) = (if override_active os (snd e) then dset (snd e) (fst e) (active_entries os rs)
     else active_entries os rs)"
  by (simp add: active_entries_def split: prod.split)

lemma active_entries_none: "o1 \<notin> snd ` set rs \<Longrightarrow> map_of (active_entries os rs) o1 = None"
proof (induction rs rule: rev_induct)
  case Nil
  then show ?case by (simp add: active_entries_def)
next
  case (snoc e rs)
  then show ?case by (auto simp: active_entries_append)
qed

lemma active_entries_last:
  "override_active os o1 \<Longrightarrow> o1 \<notin> snd ` set rs2 \<Longrightarrow> map_of (active_entries os (rs1 @ (r, o1) # rs2)) o1 = Some r"
proof (induction rs2 rule: rev_induct)
  case Nil
  then show ?case by (simp add: active_entries_append)
next
  case (snoc e rs2)
  then have "map_of (active_entries os (rs1 @ (r, o1) # rs2)) o1 = Some r" by auto
  with snoc.prems show ?case
    using active_entries_append [of os "rs1 @ (r, o1) # rs2" e] by auto
qed

lemma active_entries_active: "k \<in> set (keys (active_entries os rs)) \<Longrightarrow> k \<in> snd ` set rs \<and> override_active os k"
proof (induction rs rule: rev_induct)
  case Nil
  then show ?case by (simp add: active_entries_def keys_def)
next
  case (snoc e rs)
  then show ?case by (auto simp: active_entries_append split: if_splits)
qed

text \<open>Among entries that are single words one pass over the overrides is enough.\<close>

definition pick :: "string \<Rightarrow> active_map \<times> string option \<Rightarrow> active_map \<times> string option" where
  "pick o1 st = (case map_of (fst st) o1 of None \<Rightarrow> st | Some r \<Rightarrow> (del_key o1 (fst st), Some r))"

definition single_words :: "active_map \<Rightarrow> bool" where
  "single_words act \<longleftrightarrow> (\<forall>k \<in> set (keys act). CHR ''_'' \<notin> set k)"

lemma single_words_del: "single_words act \<Longrightarrow> single_words (del_key k act)"
  by (auto simp: single_words_def del_key_def keys_def)

lemma resolve_entry_single:
  assumes "single_words act"
  shows "resolve_entry o1 a (act, mt, md) =
    (case map_of act a of None \<Rightarrow> (act, mt, md) | Some r \<Rightarrow> if a = o1 then (del_key a act, Some r, md) else (act, mt, md))"
proof (cases "map_of act a")
  case (Some r)
  then have "CHR ''_'' \<notin> set a" using assms by (auto simp: single_words_def set_keys)
  then have "\<not> endswith a (CHR ''_'' # o1)" by (auto simp: endswith_iff)
  with Some show ?thesis by (simp add: resolve_entry_def)
qed (simp add: resolve_entry_def)

lemma resolve_entries_single:
  assumes "single_words act"
  shows "fold (resolve_entry o1) ks (act, mt, md) =
    (if o1 \<in> set ks then (fst (pick o1 (act, mt)), snd (pick o1 (act, mt)), md) else (act, mt, md))"
  using assms
proof (induction ks arbitrary: act mt)
  case Nil
  then show ?case by simp
next
  case (Cons k ks)
  show ?case
  proof (cases "map_of act k")
    case None
    with Cons show ?thesis by (auto simp: resolve_entry_single pick_def)
  next
    case (Some r)
    show ?thesis
    proof (cases "k = o1")
      case True
      note d = single_words_del [OF Cons.prems, of o1]
      from Cons.IH [OF d] Some True Cons.prems show ?thesis
        by (auto simp: resolve_entry_single pick_def)
    next
      case False
      with Some Cons show ?thesis by (auto simp: resolve_entry_single)
    qed
  qed
qed

lemma resolve_override_single:
  assumes "single_words act"
  shows "resolve_override o1 (act, mt, md) = (fst (pick o1 (act, mt)), snd (pick o1 (act, mt)), md)"
proof -
  have "o1 \<notin> set (keys act) \<Longrightarrow> pick o1 (act, mt) = (act, mt)"
    by (auto simp: pick_def set_keys split: option.split)
  then show ?thesis
    using resolve_entries_single [OF assms, of o1 "keys act" mt md] by (simp add: resolve_override_def)
qed

lemma resolve_round_single:
  assumes "single_words act"
  shows "fold resolve_override os (act, mt, md) =
    (fst (fold pick os (act, mt)), snd (fold pick os (act, mt)), md)"
  using assms
proof (induction os arbitrary: act mt)
  case Nil
  then show ?case by simp
next
  case (Cons o1 os)
  have "single_words (fst (pick o1 (act, mt)))"
    using single_words_del [OF Cons.prems] Cons.prems by (auto simp: pick_def split: option.split)
  from Cons.IH [OF this, of "snd (pick o1 (act, mt))"] show ?case
    by (simp add: resolve_override_single [OF Cons.prems])
qed

lemma resolve_single: "single_words act \<Longrightarrow> resolve os act mt = snd (fold pick os (act, mt))"
  by (simp add: resolve.simps [of os] resolve_round_def resolve_round_single Let_def)

lemma fold_pick_other: "o1 \<notin> set os \<Longrightarrow> map_of (fst (fold pick os (act, mt))) o1 = map_of act o1"
proof (induction os arbitrary: act mt)
  case Nil
  then show ?case by simp
next
  case (Cons o2 os)
  obtain a m where p: "pick o2 (act, mt) = (a, m)" by force
  with Cons.prems have "map_of a o1 = map_of act o1" by (auto simp: pick_def split: option.splits)
  with Cons p show ?case by simp
qed

lemma fold_pick_none: "\<forall>o1 \<in> set os. map_of act o1 = None \<Longrightarrow> fold pick os (act, mt) = (act, mt)"
  by (induction os) (auto simp: pick_def)

lemma resolve_choice:
  assumes "\<forall>o1 \<in> snd ` set (rs1 @ (r, o1) # rs2). CHR ''_'' \<notin> set o1"
    and "o1 \<notin> snd ` set rs2" and "o1 \<notin> set os1" and "\<forall>o2 \<in> set os2. o2 \<notin> snd ` set (rs1 @ (r, o1) # rs2) \<or> o2 = o1"
  shows "resolve (os1 @ o1 # os2) (active_entries (os1 @ o1 # os2) (rs1 @ (r, o1) # rs2)) None = Some r"
proof -
  let ?os = "os1 @ o1 # os2" and ?rs = "rs1 @ (r, o1) # rs2"
  define act where "act = active_entries ?os ?rs"
  have sw: "single_words act"
    using assms(1) active_entries_active [of _ ?os ?rs] by (auto simp: single_words_def act_def)
  have m: "map_of act o1 = Some r"
    unfolding act_def by (rule active_entries_last) (use assms(2) in \<open>simp_all add: override_active_def\<close>)
  obtain a mt where am: "fold pick os1 (act, None) = (a, mt)" by force
  have a: "map_of a o1 = Some r" using fold_pick_other [OF assms(3), of act None] am m by simp
  have sub: "map_of a x = None" if "map_of act x = None" for x
  proof -
    have "map_of act' x = None \<Longrightarrow> map_of (fst (fold pick os (act', mt'))) x = None" for os act' mt'
      by (induction os arbitrary: act' mt') (auto simp: pick_def split: option.split)
    from this [of act os1 None] that am show ?thesis by simp
  qed
  have "fold pick os2 (del_key o1 a, Some r) = (del_key o1 a, Some r)"
  proof (rule fold_pick_none, rule ballI)
    fix o2 assume "o2 \<in> set os2"
    with assms(4) have "o2 \<notin> snd ` set ?rs \<or> o2 = o1" by (rule bspec)
    then have "map_of act o2 = None \<or> o2 = o1"
      unfolding act_def by (elim disj_forward) (rule active_entries_none)
    then show "map_of (del_key o1 a) o2 = None"
    proof (elim disjE)
      assume "map_of act o2 = None"
      from sub [OF this] show ?thesis by simp
    qed simp
  qed
  then have "snd (fold pick ?os (act, None)) = Some r" using am a by (simp add: pick_def)
  with resolve_single [OF sw] show ?thesis by (simp add: act_def)
qed

lemma resolve_none:
  assumes "\<forall>o1 \<in> snd ` set rs. CHR ''_'' \<notin> set o1" and "\<forall>o1 \<in> set os. o1 \<notin> snd ` set rs"
  shows "resolve os (active_entries os rs) None = None"
proof -
  have sw: "single_words (active_entries os rs)"
    using assms(1) active_entries_active [of _ os rs] by (auto simp: single_words_def)
  have "\<forall>o1 \<in> set os. map_of (active_entries os rs) o1 = None" using assms(2) active_entries_none by blast
  from fold_pick_none [OF this] show ?thesis by (simp add: resolve_single [OF sw])
qed

text \<open>A variable with overrides, without additions of its own, when the overrides are known.\<close>

definition bare :: "datastore \<Rightarrow> string \<Rightarrow> bool" where
  "bare d var \<longleftrightarrow> table d var ''_append'' = None \<and> table d var ''_prepend'' = None \<and> table d var ''_remove'' = None"

definition overrides_known :: "datastore \<Rightarrow> string list \<Rightarrow> bool" where
  "overrides_known d os \<longleftrightarrow> ds_overrides d = Some os \<and> overridesset d = os"

lemma need_known: "overrides_known d os \<Longrightarrow> need_overrides_with get d = (Inr (), d)"
  by (simp add: need_overrides_with_def overrides_known_def sm_defs)

text \<open>What is done to the value of a variable after the overrides: additions and removals.\<close>

definition finish_read :: "interp \<Rightarrow> reader \<Rightarrow> string \<Rightarrow> dflags option \<Rightarrow> dval \<Rightarrow> (datastore, dval) sm" where
  "finish_read I get var lv value = sbind (read_additions get ''_content'' False lv value) (\<lambda>value.
     case lv of None \<Rightarrow> sret value
     | Some fs \<Rightarrow> (case map_of fs ''_remove'' of None \<Rightarrow> sret value
         | Some its \<Rightarrow> if dval_true value then removals I get var False its value else sret value))"

lemma finish_bare: "bare d var \<Longrightarrow> finish_read I get var (findVar d var) v = sret v"
  by (auto simp: finish_read_def read_additions_def bare_def table_def fun_eq_iff sm_defs split: option.split)

lemma get_overridden:
  assumes k: "overrides_known d os" and rs: "map_of (overridedata d) var = Some rs"
  shows "get_flag_with I get var ''_content'' False nw False d =
    (case resolve os (active_entries os rs) None of
       None \<Rightarrow> finish_read I get var (findVar d var) (copy_value d (stored_in (table d var) nw)) d
     | Some r \<Rightarrow> if r = [] then finish_read I get var (findVar d var) (copy_value d (stored_in (table d var) nw)) d
        else (case get r ''_content'' False d of (Inl e, d') \<Rightarrow> (Inl e, d')
          | (Inr v, d') \<Rightarrow> finish_read I get var (findVar d var)
              (if v \<noteq> VNone then v else copy_value d' (stored_in (table d var) nw)) d'))"
proof -
  have om: "override_match var d = Inr (resolve os (active_entries os rs) None)"
    using k rs by (simp add: override_match_def dget_def overrides_known_def)
  have ov: "override_value get var d = (case resolve os (active_entries os rs) None of None \<Rightarrow> (Inr VNone, d)
      | Some r \<Rightarrow> if r = [] then (Inr VNone, d) else get r ''_content'' False d)"
    unfolding override_value_def sbind_run [where m = "need_overrides_with get", OF need_known [OF k]]
    by (simp add: sbind_def sres_def om sret_def split: option.split)
  have go: "get_flag_with I get var ''_content'' False nw False d =
    sbind (read_stored get var ''_content'' nw False (findVar d var)) (finish_read I get var (findVar d var)) d"
    by (simp add: get_flag_with_def finish_read_def sbind_def sget_def sret_def cong: option.case_cong split: prod.split sum.split)
  have rd: "read_stored get var ''_content'' nw False (findVar d var) d =
    (case override_value get var d of (Inl e, d') \<Rightarrow> (Inl e, d')
     | (Inr v, d') \<Rightarrow> (Inr (if v \<noteq> VNone then v else copy_value d' (stored_in (table d var) nw)), d'))"
  proof (cases "findVar d var")
    case None
    then have "stored_in (table d var) nw = VNone" by (simp add: table_def stored_in_def)
    with None rs show ?thesis
      by (auto simp: read_stored_def sm_defs copy_value_def split: prod.split sum.split)
  next
    case (Some fs)
    then have "stored_value fs ''_content'' nw = stored_in (table d var) nw" by (rule stored_table)
    with Some rs show ?thesis
      by (auto simp: read_stored_def sm_defs split: prod.split sum.split)
  qed
  show ?thesis unfolding go sbind_def rd ov by (auto split: option.split prod.split sum.split)
qed


text \<open>The entry for \<^verbatim>\<open>arm\<close>, with what is added to the variable itself.\<close>

definition override_example :: datastore where
  "override_example = new_datastore\<lparr>
     ds_vars := [(''A'', [(''_content'', VStr ''x''), (''_append'', VList [VList [VStr ''!'', VNone]])]),
       (''A_arm'', [(''_content'', VStr ''y'')])],
     overridedata := [(''A'', [(''A_arm'', ''arm'')])],
     ds_overrides := Some [''linux'', ''arm'', ''poky''], overridesset := [''linux'', ''arm'', ''poky'']\<rparr>"


end
