(* ===== verification/Data_Expand_Facts.thy ===== *)
theory Data_Expand_Facts
  imports Data_Store_Facts
begin

text \<open>
  The expansion of references against a definition without caches, rounds and recursion
  limits: the value of a variable is its text with every reference to a set variable
  replaced by the value of that variable.  The code returns it exactly if no variable that
  is reached refers to itself, directly or through others.
\<close>

section \<open>References in a text\<close>

definition is_ref :: "string \<Rightarrow> bool" where
  "is_ref g \<longleftrightarrow> (\<exists>key. g = ''${'' @ key @ ''}'' \<and> key \<noteq> [] \<and> list_all ref_char key)"

lemma is_ref_inner: "is_ref g \<Longrightarrow> group_inner 2 g \<noteq> [] \<and> g = ''${'' @ group_inner 2 g @ ''}''"
  by (auto simp: is_ref_def group_inner_def butlast_append)

lemma match_ref_append: "is_ref g \<Longrightarrow> match_ref (g @ x) = Some g"
proof -
  assume "is_ref g"
  then obtain key where g: "g = ''${'' @ key @ ''}''" "key \<noteq> []" "list_all ref_char key" by (auto simp: is_ref_def)
  have "takeWhile ref_char (key @ CHR ''}'' # x) = key"
    using g(3) by (simp add: takeWhile_append list_all_iff ref_char_def)
  with g show ?thesis by (simp add: match_ref_def startswith_def Let_def)
qed

lemma match_ref_Some: "match_ref s = Some g \<Longrightarrow> is_ref g \<and> (\<exists>x. s = g @ x)"
proof -
  assume m: "match_ref s = Some g"
  define key where "key = takeWhile ref_char (drop 2 s)"
  from m have s: "startswith s ''${''" "key \<noteq> []" "startswith (drop (2 + length key) s) ''}''"
    "g = ''${'' @ key @ ''}''"
    by (auto simp: match_ref_def key_def Let_def split: if_splits)
  from s(1) obtain t where t: "s = ''${'' @ t" by (auto simp: startswith_iff)
  have d: "t = key @ dropWhile ref_char t" by (simp add: key_def t)
  have "drop (2 + length key) s = dropWhile ref_char t"
    unfolding t by (subst d) simp
  with s(3) obtain u where "dropWhile ref_char t = ''}'' @ u" by (auto simp: startswith_iff)
  with d have "t = key @ ''}'' @ u" by simp
  then have "s = g @ u" using t s(4) by simp
  moreover have "list_all ref_char key" by (auto simp: key_def list_all_iff dest: set_takeWhileD)
  ultimately show ?thesis using s(2,4) by (auto simp: is_ref_def)
qed

lemma is_ref_ne: "is_ref g \<Longrightarrow> g \<noteq> []"
  by (auto simp: is_ref_def)

lemma scan_ref: "is_ref g \<Longrightarrow> scan match_ref (g @ x) = Match g # scan match_ref x"
  using match_ref_append [of g x] is_ref_ne [of g] by (cases g) auto

lemma match_ref_dollar: "match_ref (c # s) = Some g \<Longrightarrow> c = CHR ''$''"
  by (auto simp: match_ref_def startswith_def split: if_splits)

text \<open>The cases of a scan: a character, or a reference.\<close>

lemma scan_cases [case_names Nil Lit Ref]:
  assumes "s = [] \<Longrightarrow> P" and "\<And>c t. s = c # t \<Longrightarrow> match_ref s = None \<Longrightarrow> scan match_ref s = Lit c # scan match_ref t \<Longrightarrow> P"
    and "\<And>g t. s = g @ t \<Longrightarrow> is_ref g \<Longrightarrow> scan match_ref s = Match g # scan match_ref t \<Longrightarrow> P"
  shows P
proof (cases s)
  case Nil
  with assms(1) show P .
next
  case (Cons c t)
  show P
  proof (cases "match_ref s")
    case None
    with Cons assms(2) [of c t] show P by simp
  next
    case (Some g)
    with match_ref_Some obtain x where "is_ref g" "s = g @ x" by blast
    with scan_ref assms(3) show P by blast
  qed
qed

lemma scan_induct [case_names Nil Lit Ref]:
  assumes "P []" and "\<And>c t. match_ref (c # t) = None \<Longrightarrow> P t \<Longrightarrow> P (c # t)"
    and "\<And>g t. is_ref g \<Longrightarrow> P t \<Longrightarrow> P (g @ t)"
  shows "P s"
proof (induction s rule: length_induct)
  case (1 s)
  show ?case
  proof (cases s rule: scan_cases)
    case Nil
    with assms(1) show ?thesis by simp
  next
    case (Lit c t)
    with 1 assms(2) show ?thesis by simp
  next
    case (Ref g t)
    with 1 assms(3) is_ref_ne show ?thesis by simp
  qed
qed

lemma scan_Lit: "match_ref (c # t) = None \<Longrightarrow> scan match_ref (c # t) = Lit c # scan match_ref t"
  by simp

text \<open>A text in which the dollar sign stands only at the beginning of a reference.\<close>

definition clean_text :: "string \<Rightarrow> bool" where
  "clean_text s \<longleftrightarrow> Lit CHR ''$'' \<notin> set (scan match_ref s)"

definition text_refs :: "string \<Rightarrow> string list" where
  "text_refs s = concat (map (\<lambda>p. case p of Lit c \<Rightarrow> [] | Match g \<Rightarrow> [group_inner 2 g]) (scan match_ref s))"

definition piece_text :: "(string \<Rightarrow> string option) \<Rightarrow> piece \<Rightarrow> string" where
  "piece_text f p = (case p of Lit c \<Rightarrow> [c]
     | Match g \<Rightarrow> (case f (group_inner 2 g) of None \<Rightarrow> g | Some t \<Rightarrow> t))"

text \<open>A text with its references replaced; those without a value stay.\<close>

definition subst_refs :: "(string \<Rightarrow> string option) \<Rightarrow> string \<Rightarrow> string" where
  "subst_refs f s = concat (map (piece_text f) (scan match_ref s))"

lemma clean_simps [simp]:
  "clean_text []" "match_ref (c # t) = None \<Longrightarrow> clean_text (c # t) \<longleftrightarrow> c \<noteq> CHR ''$'' \<and> clean_text t"
  "is_ref g \<Longrightarrow> clean_text (g @ t) \<longleftrightarrow> clean_text t"
  by (auto simp: clean_text_def scan_ref simp del: scan.simps(2) simp: scan_Lit)

lemma refs_simps [simp]:
  "text_refs [] = []" "match_ref (c # t) = None \<Longrightarrow> text_refs (c # t) = text_refs t"
  "is_ref g \<Longrightarrow> text_refs (g @ t) = group_inner 2 g # text_refs t"
  by (auto simp: text_refs_def scan_ref)

lemma subst_simps [simp]:
  "subst_refs f [] = []" "match_ref (c # t) = None \<Longrightarrow> subst_refs f (c # t) = c # subst_refs f t"
  "is_ref g \<Longrightarrow> subst_refs f (g @ t) = (case f (group_inner 2 g) of None \<Rightarrow> g | Some x \<Rightarrow> x) @ subst_refs f t"
  by (auto simp: subst_refs_def scan_ref piece_text_def)

lemma scan_append: "clean_text a \<Longrightarrow> scan match_ref (a @ b) = scan match_ref a @ scan match_ref b"
proof (induction a rule: scan_induct)
  case (Lit c t)
  then have "match_ref (c # t @ b) = None" using match_ref_dollar [of c "t @ b"] by (cases "match_ref (c # t @ b)") auto
  with Lit show ?case by simp
qed (simp_all add: scan_ref)

lemma clean_append: "clean_text a \<Longrightarrow> clean_text (a @ b) \<longleftrightarrow> clean_text b"
  unfolding clean_text_def by (subst scan_append) (auto simp: clean_text_def)

lemma refs_append: "clean_text a \<Longrightarrow> text_refs (a @ b) = text_refs a @ text_refs b"
  by (simp add: text_refs_def scan_append)

lemma subst_append: "clean_text a \<Longrightarrow> subst_refs f (a @ b) = subst_refs f a @ subst_refs f b"
  by (simp add: subst_refs_def scan_append)

lemma subst_cong: "(\<And>k. k \<in> set (text_refs s) \<Longrightarrow> f k = g k) \<Longrightarrow> subst_refs f s = subst_refs g s"
  by (induction s rule: scan_induct) auto

lemma subst_none: "(\<And>k. k \<in> set (text_refs s) \<Longrightarrow> f k = None) \<Longrightarrow> subst_refs f s = s"
  by (induction s rule: scan_induct) auto

lemma ref_alone: "is_ref g \<Longrightarrow> clean_text g \<and> text_refs g = [group_inner 2 g]"
  using clean_simps(3) [of g "[]"] refs_simps(3) [of g "[]"] by simp

lemma clean_subst:
  "clean_text s \<Longrightarrow> (\<And>k t. k \<in> set (text_refs s) \<Longrightarrow> f k = Some t \<Longrightarrow> clean_text t) \<Longrightarrow> clean_text (subst_refs f s)"
proof (induction s rule: scan_induct)
  case (Lit c t)
  then have c: "c \<noteq> CHR ''$''" "clean_text (subst_refs f t)" by auto
  then have "match_ref (c # subst_refs f t) = None"
    using match_ref_dollar [of c "subst_refs f t"] by (cases "match_ref (c # subst_refs f t)") auto
  with Lit c show ?case by simp
next
  case (Ref g t)
  then have "clean_text (subst_refs f t)" by auto
  then show ?case
  proof (cases "f (group_inner 2 g)")
    case (Some u)
    then have "clean_text u" using Ref by auto
    with Some Ref.hyps \<open>clean_text (subst_refs f t)\<close> show ?thesis by (simp add: clean_append)
  qed (simp add: Ref.hyps)
qed simp

lemma refs_subst:
  "clean_text s \<Longrightarrow> (\<And>k t. k \<in> set (text_refs s) \<Longrightarrow> f k = Some t \<Longrightarrow> clean_text t) \<Longrightarrow>
    x \<in> set (text_refs (subst_refs f s)) \<Longrightarrow>
    (x \<in> set (text_refs s) \<and> f x = None) \<or> (\<exists>k t. k \<in> set (text_refs s) \<and> f k = Some t \<and> x \<in> set (text_refs t))"
proof (induction s rule: scan_induct)
  case (Lit c t)
  then have c: "c \<noteq> CHR ''$''" by auto
  then have "match_ref (c # subst_refs f t) = None"
    using match_ref_dollar [of c "subst_refs f t"] by (cases "match_ref (c # subst_refs f t)") auto
  with Lit show ?case by auto
next
  case (Ref g t)
  have IH: "x \<in> set (text_refs (subst_refs f t)) \<Longrightarrow>
    (x \<in> set (text_refs t) \<and> f x = None) \<or> (\<exists>k u. k \<in> set (text_refs t) \<and> f k = Some u \<and> x \<in> set (text_refs u))"
    using Ref by auto
  show ?case
  proof (cases "f (group_inner 2 g)")
    case None
    with Ref.prems(3) Ref.hyps IH show ?thesis by auto
  next
    case (Some u)
    then have "clean_text u" using Ref by auto
    with Some Ref.prems(3) Ref.hyps IH show ?thesis by (auto simp: refs_append)
  qed
qed simp

text \<open>A clean text has no inline Python, and a text without an opening has no references.\<close>

lemma not_occurs: "\<not> occurs s ''${'' \<Longrightarrow> scan match_ref s = map Lit s"
proof (induction s rule: scan_induct)
  case (Lit c t)
  then have "\<not> occurs t ''${''" by (auto simp: occurs_def)
  with Lit show ?case by simp
next
  case (Ref g t)
  have "occurs (g @ t) ''${''"
    using Ref(1) by (auto simp: is_ref_def occurs_def startswith_def)
  with Ref show ?case by simp
qed simp

lemma not_occurs_refs: "\<not> occurs s ''${'' \<Longrightarrow> text_refs s = [] \<and> subst_refs f s = s"
  by (simp add: not_occurs text_refs_def subst_refs_def comp_def piece_text_def)

lemma code_free_inside: "list_all ref_char key \<Longrightarrow> match_code (key @ CHR ''}'' # t) = None"
  by (cases key rule: list.exhaust; cases "tl key") 
    (auto simp: match_code_def startswith_def ref_char_def Cons_eq_append_conv split: list.splits)

lemma clean_no_code: "clean_text s \<Longrightarrow> scan match_code s = map Lit s"
proof (induction s rule: scan_induct)
  case (Lit c t)
  then have "match_code (c # t) = None" by (auto simp: match_code_def startswith_def)
  with Lit show ?case by simp
next
  case (Ref g t)
  then have IH: "scan match_code t = map Lit t" by simp
  from Ref(1) obtain key where g: "g = ''${'' @ key @ ''}''" "key \<noteq> []" "list_all ref_char key"
    by (auto simp: is_ref_def)
  have brace: "match_code (CHR ''}'' # x) = None" "match_code (CHR ''{'' # x) = None" for x
    by (simp_all add: match_code_def startswith_def)
  have inside: "list_all ref_char k \<Longrightarrow> scan match_code (k @ CHR ''}'' # t) = map Lit (k @ CHR ''}'' # t)" for k
  proof (induction k)
    case Nil
    then show ?case by (simp add: brace IH)
  next
    case (Cons c k)
    then have "match_code ((c # k) @ CHR ''}'' # t) = None" using code_free_inside [of "c # k" t] by blast
    with Cons show ?case by simp
  qed
  have "match_code (CHR ''$'' # CHR ''{'' # key @ CHR ''}'' # t) = None"
    using g(2,3) by (cases key) (auto simp: match_code_def startswith_def ref_char_def)
  then show ?case using inside [OF g(3)] g(1) by (simp add: brace)
qed simp

section \<open>The value of a variable\<close>

text \<open>
  A table \<open>E\<close> of texts, the references between the variables that are set, and the value
  with references replaced up to a depth.
\<close>

definition refrel :: "(string \<Rightarrow> string option) \<Rightarrow> (string \<times> string) set" where
  "refrel E = {(v, k). \<exists>s. E v = Some s \<and> k \<in> set (text_refs s) \<and> E k \<noteq> None}"

definition cyclic :: "(string \<Rightarrow> string option) \<Rightarrow> string \<Rightarrow> bool" where
  "cyclic E v \<longleftrightarrow> (\<exists>k. (v, k) \<in> (refrel E)\<^sup>* \<and> (k, k) \<in> (refrel E)\<^sup>+)"

fun expand_full :: "(string \<Rightarrow> string option) \<Rightarrow> nat \<Rightarrow> string \<Rightarrow> string option" where
  "expand_full E 0 v = E v"
| "expand_full E (Suc n) v = map_option (subst_refs (expand_full E n)) (E v)"

definition rank :: "(string \<Rightarrow> string option) \<Rightarrow> string \<Rightarrow> nat" where
  "rank E v = card ((refrel E)\<^sup>+ `` {v})"

definition value_of :: "(string \<Rightarrow> string option) \<Rightarrow> string \<Rightarrow> string option" where
  "value_of E v = expand_full E (card (dom E)) v"

lemma refrel_dom: "refrel E \<subseteq> dom E \<times> dom E"
  by (auto simp: refrel_def)

lemma reach_dom: "(refrel E)\<^sup>+ `` {v} \<subseteq> dom E"
  using refrel_dom trancl_subset_Sigma [OF refrel_dom [of E]] by blast

lemma rank_le: "finite (dom E) \<Longrightarrow> rank E v \<le> card (dom E)"
  unfolding rank_def by (rule card_mono [OF _ reach_dom])

lemma cyclic_step: "(v, k) \<in> refrel E \<Longrightarrow> cyclic E k \<Longrightarrow> cyclic E v"
  unfolding cyclic_def by (meson converse_rtrancl_into_rtrancl)

lemma cyclic_next:
  assumes "cyclic E v"
  shows "\<exists>k. (v, k) \<in> refrel E \<and> cyclic E k"
proof -
  from assms obtain k where k: "(v, k) \<in> (refrel E)\<^sup>*" "(k, k) \<in> (refrel E)\<^sup>+" by (auto simp: cyclic_def)
  from k have "(v, k) \<in> (refrel E)\<^sup>+" by (rule rtrancl_trancl_trancl)
  then obtain w where w: "(v, w) \<in> refrel E" "(w, k) \<in> (refrel E)\<^sup>*" by (meson tranclD)
  with k(2) show ?thesis unfolding cyclic_def by blast
qed

lemma rank_less:
  assumes "finite (dom E)" "(v, k) \<in> refrel E" "\<not> cyclic E v"
  shows "rank E k < rank E v"
proof -
  have "(refrel E)\<^sup>+ `` {k} \<subseteq> (refrel E)\<^sup>+ `` {v}" using assms(2) by (auto intro: trancl_into_trancl2)
  moreover have "k \<in> (refrel E)\<^sup>+ `` {v}" using assms(2) by blast
  moreover have "k \<notin> (refrel E)\<^sup>+ `` {k}" using assms(2,3) by (auto simp: cyclic_def)
  ultimately have "(refrel E)\<^sup>+ `` {k} \<subset> (refrel E)\<^sup>+ `` {v}" by blast
  then show ?thesis
    unfolding rank_def using finite_subset [OF reach_dom assms(1)] by (rule psubset_card_mono [rotated])
qed

lemma full_stable:
  assumes "finite (dom E)" "\<not> cyclic E v" "rank E v \<le> n"
  shows "expand_full E n v = expand_full E (rank E v) v"
  using assms(2,3)
proof (induction "rank E v" arbitrary: v n rule: less_induct)
  case less
  show ?case
  proof (cases "E v")
    case None
    then show ?thesis by (cases n; cases "rank E v"; simp)
  next
    case (Some s)
    have text_refs: "expand_full E m k = expand_full E (rank E k) k" if "k \<in> set (text_refs s)" "E k \<noteq> None" "rank E k \<le> m" for m k
    proof -
      from Some that have "(v, k) \<in> refrel E" by (auto simp: refrel_def)
      with less that show ?thesis using rank_less [OF assms(1)] cyclic_step by blast
    qed
    have none: "expand_full E m k = None" if "E k = None" for m k using that by (cases m) auto
    have lt: "rank E k < rank E v" if "k \<in> set (text_refs s)" "E k \<noteq> None" for k
      using rank_less [OF assms(1) _ less.prems(1)] Some that by (auto simp: refrel_def)
    show ?thesis
    proof (cases "rank E v")
      case 0
      with lt have "\<forall>k \<in> set (text_refs s). E k = None" by (metis not_less_zero)
      with none have "subst_refs (expand_full E m) s = s" for m by (intro subst_none) auto
      with 0 Some show ?thesis by (cases n) auto
    next
      case (Suc r)
      with less.prems obtain m where m: "n = Suc m" "r \<le> m" by (metis Suc_le_D Suc_le_mono)
      have "subst_refs (expand_full E m) s = subst_refs (expand_full E r) s"
      proof (rule subst_cong)
        fix k assume k: "k \<in> set (text_refs s)"
        show "expand_full E m k = expand_full E r k"
        proof (cases "E k = None")
          case False
          with lt k Suc have "rank E k \<le> r" by fastforce
          with text_refs [OF k False] m(2) show ?thesis by (metis le_trans)
        qed (simp add: none)
      qed
      with m Suc Some show ?thesis by simp
    qed
  qed
qed

lemma value_none: "E v = None \<longleftrightarrow> value_of E v = None"
  by (cases "card (dom E)") (auto simp: value_of_def)

text \<open>The equation of the values.\<close>

lemma value_eq:
  assumes "finite (dom E)" "\<not> cyclic E v"
  shows "value_of E v = map_option (subst_refs (value_of E)) (E v)"
proof (cases "E v")
  case None
  then show ?thesis using value_none [of E v] by simp
next
  case (Some s)
  have 1: "value_of E v = expand_full E (Suc (card (dom E))) v"
    unfolding value_of_def using full_stable [OF assms, of "card (dom E)"] full_stable [OF assms, of "Suc (card (dom E))"]
      rank_le [OF assms(1), of v] by simp
  have "subst_refs (expand_full E (card (dom E))) s = subst_refs (value_of E) s"
    by (rule subst_cong) (simp add: value_of_def)
  with 1 Some show ?thesis by simp
qed

lemma value_clean:
  assumes "finite (dom E)" and cl: "\<And>w s. E w = Some s \<Longrightarrow> clean_text s" and "\<not> cyclic E v" "value_of E v = Some t"
  shows "clean_text t \<and> (\<forall>k \<in> set (text_refs t). E k = None)"
  using assms(3,4)
proof (induction "rank E v" arbitrary: v t rule: less_induct)
  case less
  then obtain s where s: "E v = Some s" "t = subst_refs (value_of E) s"
    using value_eq [OF assms(1) less.prems(1)] by auto
  have IH: "clean_text u \<and> (\<forall>x \<in> set (text_refs u). E x = None)" if "k \<in> set (text_refs s)" "value_of E k = Some u" for k u
  proof -
    from that value_none [of E k] s(1) have "(v, k) \<in> refrel E" by (auto simp: refrel_def)
    then show ?thesis
      using less.hyps [of k u] rank_less [OF assms(1) _ less.prems(1)] cyclic_step less.prems(1) that(2) by blast
  qed
  from clean_subst [OF cl [OF s(1)]] IH have "clean_text t" unfolding s(2) by blast
  moreover have "\<forall>x \<in> set (text_refs t). E x = None"
    unfolding s(2) using refs_subst [OF cl [OF s(1)], of "value_of E"] IH value_none [of E] by metis
  ultimately show ?case ..
qed

section \<open>What the store computes\<close>

text \<open>A store without overrides and additions whose variables are clean texts.\<close>

definition text_of :: "datastore \<Rightarrow> string \<Rightarrow> string option" where
  "text_of d var = (case stored_in (table d var) False of VStr s \<Rightarrow> Some s | _ \<Rightarrow> None)"

definition plain_store :: "datastore \<Rightarrow> bool" where
  "plain_store d \<longleftrightarrow> (\<forall>v. bare d v \<and> map_of (overridedata d) v = None \<and>
     (stored_in (table d v) False = VNone \<or> (\<exists>s. stored_in (table d v) False = VStr s \<and> clean_text s)))"

definition opt_str :: "string option \<Rightarrow> dval" where
  "opt_str x = (case x of None \<Rightarrow> VNone | Some s \<Rightarrow> VStr s)"

definition expcache_ok :: "(string \<Rightarrow> string option) \<Rightarrow> datastore \<Rightarrow> bool" where
  "expcache_ok E d \<longleftrightarrow> (\<forall>k p. map_of (expand_cache d) k = Some p \<longrightarrow>
     E k \<noteq> None \<and> \<not> cyclic E k \<and> vp_value p = opt_str (value_of E k))"

definition ok_store :: "(string \<Rightarrow> string option) \<Rightarrow> datastore \<Rightarrow> bool" where
  "ok_store E d \<longleftrightarrow> plain_store d \<and> text_of d = E \<and> expcache_ok E d \<and> finite (dom E)"

lemma ok_clean: "ok_store E d \<Longrightarrow> E w = Some u \<Longrightarrow> clean_text u"
proof -
  assume ok: "ok_store E d" and u: "E w = Some u"
  then have t: "text_of d w = Some u" by (simp add: ok_store_def)
  then have s: "stored_in (table d w) False = VStr u" by (auto simp: text_of_def split: dval.splits)
  from ok have "plain_store d" by (simp add: ok_store_def)
  then have "stored_in (table d w) False = VNone \<or> (\<exists>s. stored_in (table d w) False = VStr s \<and> clean_text s)"
    by (simp add: plain_store_def)
  with s show ?thesis by auto
qed

lemma ok_finite: "ok_store E d \<Longrightarrow> finite (dom E)"
  by (simp add: ok_store_def)

definition needs :: "(string \<Rightarrow> string option) \<Rightarrow> string \<Rightarrow> nat" where
  "needs E v = (if E v = None then 1 else rank E v + 2)"

text \<open>The exceptions that the handlers wrap.\<close>

definition wrapped :: "exc \<Rightarrow> bool" where
  "wrapped e \<longleftrightarrow> (\<exists>a b c. e = ExpansionError a b c)"

definition wrappable :: "exc \<Rightarrow> bool" where
  "wrappable e \<longleftrightarrow> (\<forall>vn s. wrapped (expansion_error vn s e))"

lemma wrappable_simps [simp]:
  "wrappable RecursionError" "wrappable (Exception m)" "wrappable TypeError" "wrappable (ExpansionError a b c)"
  by (auto simp: wrappable_def wrapped_def expansion_error_def)

lemma wrapped_wrappable: "wrapped e \<Longrightarrow> wrappable e"
  by (auto simp: wrapped_def)

text \<open>The answer of a read at depth \<open>n\<close>.\<close>

definition answer :: "(string \<Rightarrow> string option) \<Rightarrow> nat \<Rightarrow> string \<Rightarrow> dval res \<Rightarrow> bool" where
  "answer E n v r = (case r of Inr x \<Rightarrow> \<not> cyclic E v \<and> x = opt_str (value_of E v)
     | Inl e \<Rightarrow> (e = RecursionError \<and> n = 0 \<or> wrapped e) \<and> (cyclic E v \<or> n < needs E v))"

definition good_reader :: "(string \<Rightarrow> string option) \<Rightarrow> nat \<Rightarrow> reader \<Rightarrow> bool" where
  "good_reader E n get \<longleftrightarrow> (\<forall>v d r d'. v \<noteq> [] \<longrightarrow> ok_store E d \<longrightarrow>
      get v ''_content'' True d = (r, d') \<longrightarrow>
     ok_store E d' \<and> answer E n v r)"

lemma good_readerD:
  "good_reader E n get \<Longrightarrow> v \<noteq> [] \<Longrightarrow> ok_store E d \<Longrightarrow> get v ''_content'' True d = (r, d') \<Longrightarrow>
    ok_store E d' \<and> answer E n v r"
  unfolding good_reader_def by blast

text \<open>The replacement of one reference and of all pieces of a text.\<close>

definition sub_ok :: "(string \<Rightarrow> string option) \<Rightarrow> nat \<Rightarrow> string \<Rightarrow> string \<Rightarrow> bool" where
  "sub_ok E n v key \<longleftrightarrow> key \<noteq> v \<and> \<not> cyclic E key \<and> needs E key \<le> n"

lemma var_sub_run:
  assumes get: "good_reader E n get" and ok: "ok_store E d" and g: "is_ref g"
    and run: "var_sub get (Some v) g (d, vp) = (r, (d', vp'))"
  shows "ok_store E d' \<and> (case r of
      Inr x \<Rightarrow> group_inner 2 g \<noteq> v \<and> \<not> cyclic E (group_inner 2 g) \<and> x = VStr (piece_text (value_of E) (Match g))
    | Inl e \<Rightarrow> wrappable e \<and> \<not> sub_ok E n v (group_inner 2 g))"
proof -
  define key where "key = group_inner 2 g"
  have ne: "key \<noteq> []" using is_ref_inner [OF g] by (simp add: key_def)
  show ?thesis
  proof (cases "key = v")
    case True
    with ne run ok show ?thesis
      by (auto simp: var_sub_def Let_def same_name_def key_def [symmetric] sraise_def self_reference_def sub_ok_def)
  next
    case False
    have val: "(if x \<noteq> VNone then x else VStr g) = VStr (piece_text (value_of E) (Match g))"
      if "x = opt_str (value_of E key)" for x
      using that by (auto simp: piece_text_def opt_str_def key_def split: option.split)
    show ?thesis
    proof (cases "map_of (expand_cache d) key")
      case (Some p)
      with ok have "\<not> cyclic E key" "vp_value p = opt_str (value_of E key)" by (auto simp: ok_store_def expcache_ok_def)
      with Some False run ok ne val show ?thesis
        by (auto simp: var_sub_def Let_def same_name_def key_def [symmetric] sbind_def sget_def sret_def
            lift_vp_def supd_def)
    next
      case None
      obtain q e where q: "get key ''_content'' True d = (q, e)" by force
      have "ok_store E e \<and> answer E n key q"
        by (rule good_readerD [where get = get, OF get ne ok q])
      then have a: "ok_store E e" "answer E n key q" by auto
      show ?thesis
      proof (cases q)
        case (Inl ex)
        with a have "wrappable ex" "cyclic E key \<or> n < needs E key"
          by (auto simp: answer_def wrapped_wrappable)
        with Inl None False run a(1) q show ?thesis
          by (auto simp: var_sub_def Let_def same_name_def key_def [symmetric] sbind_def sget_def on_fst_def sub_ok_def)
      next
        case (Inr x)
        with a have "\<not> cyclic E key" "x = opt_str (value_of E key)" by (auto simp: answer_def)
        with Inr None False run a(1) q val show ?thesis
          by (auto simp: var_sub_def Let_def same_name_def key_def [symmetric] sbind_def sget_def sret_def on_fst_def
              lift_vp_def supd_def)
      qed
    qed
  qed
qed

definition ref_pieces :: "piece list \<Rightarrow> bool" where
  "ref_pieces ps \<longleftrightarrow> (\<forall>g. Match g \<in> set ps \<longrightarrow> is_ref g)"

lemma sub_pieces_run:
  assumes get: "good_reader E n get"
  shows "ok_store E d \<Longrightarrow> ref_pieces ps \<Longrightarrow> sub_pieces (var_sub get (Some v)) ps (d, vp) = (r, (d', vp')) \<Longrightarrow>
    ok_store E d' \<and> (case r of
      Inr xs \<Rightarrow> xs = map (\<lambda>p. VStr (piece_text (value_of E) p)) ps \<and>
        (\<forall>g. Match g \<in> set ps \<longrightarrow>
            group_inner 2 g \<noteq> v \<and> \<not> cyclic E (group_inner 2 g))
    | Inl e \<Rightarrow> wrappable e \<and> (\<exists>g. Match g \<in> set ps \<and> \<not> sub_ok E n v (group_inner 2 g)))"
proof (induction ps arbitrary: d vp r d' vp')
  case Nil
  then show ?case by (auto simp: sret_def)
next
  case (Cons p ps)
  note ref = Cons.prems(2)
  show ?case
  proof (cases p)
    case (Lit c)
    obtain q e w where q: "sub_pieces (var_sub get (Some v)) ps (d, vp) = (q, (e, w))" using prod_cases3 by blast
    from Cons.IH [OF Cons.prems(1) _ q] ref have IH: "ok_store E e" "case q of
      Inr xs \<Rightarrow> xs = map (\<lambda>p. VStr (piece_text (value_of E) p)) ps \<and>
        (\<forall>g. Match g \<in> set ps \<longrightarrow>
            group_inner 2 g \<noteq> v \<and> \<not> cyclic E (group_inner 2 g))
    | Inl e \<Rightarrow> wrappable e \<and> (\<exists>g. Match g \<in> set ps \<and> \<not> sub_ok E n v (group_inner 2 g))"
      by (auto simp: ref_pieces_def)
    from Cons.prems(3) q Lit IH show ?thesis
      by (cases q) (auto simp: sbind_def sret_def piece_text_def)
  next
    case (Match g)
    with ref have g: "is_ref g" by (simp add: ref_pieces_def)
    obtain x a b where x: "var_sub get (Some v) g (d, vp) = (x, (a, b))" using prod_cases3 by blast
    note vs = var_sub_run [OF get Cons.prems(1) g x]
    show ?thesis
    proof (cases x)
      case (Inl e)
      with Cons.prems(3) x Match vs show ?thesis by (auto simp: sbind_def)
    next
      case (Inr y)
      from vs have a: "ok_store E a" by simp
      obtain q e w where q: "sub_pieces (var_sub get (Some v)) ps (a, b) = (q, (e, w))" using prod_cases3 by blast
      from Cons.IH [OF a _ q] ref have IH: "ok_store E e" "case q of
        Inr xs \<Rightarrow> xs = map (\<lambda>p. VStr (piece_text (value_of E) p)) ps \<and>
          (\<forall>g. Match g \<in> set ps \<longrightarrow>
              group_inner 2 g \<noteq> v \<and> \<not> cyclic E (group_inner 2 g))
      | Inl e \<Rightarrow> wrappable e \<and> (\<exists>g. Match g \<in> set ps \<and> \<not> sub_ok E n v (group_inner 2 g))"
        by (auto simp: ref_pieces_def)
      from Cons.prems(3) q x Match Inr IH vs show ?thesis
        by (cases q) (auto simp: sbind_def sret_def)
    qed
  qed
qed

lemma join_texts: "join_values (map (\<lambda>p. VStr (f p)) ps) = Inr (concat (map f ps))"
  by (induction ps) auto

lemma sub_lits: "sub_pieces f (map Lit s) st = (Inr (map (\<lambda>c. VStr [c]) s), st)"
  by (induction s) (auto simp: sbind_def sret_def)

lemma re_sub_lits: "scan m s = map Lit s \<Longrightarrow> re_sub m f s st = (Inr s, st)"
  using join_texts [of "\<lambda>c. [c]" s] by (simp add: re_sub_def sbind_def sub_lits sres_def)

lemma ref_pieces_scan: "ref_pieces (scan match_ref s)"
  by (induction s rule: scan_induct) (auto simp: ref_pieces_def scan_ref)

lemma match_in_refs: "k \<in> set (text_refs s) \<longleftrightarrow> (\<exists>g. Match g \<in> set (scan match_ref s) \<and> k = group_inner 2 g)"
  by (force simp: text_refs_def split: piece.splits)

text \<open>A round of the expansion of a clean text whose replacements are clean.\<close>

lemma expand_round_run:
  assumes get: "good_reader E n get" and ok: "ok_store E d" and s: "clean_text s"
    and run: "expand_round I get (Some v) s (d, vp) = (r, (d', vp'))"
  shows "ok_store E d' \<and> (case r of
      Inr t \<Rightarrow> t = subst_refs (value_of E) s \<and> (\<forall>k \<in> set (text_refs s). k \<noteq> v \<and> \<not> cyclic E k)
    | Inl e \<Rightarrow> wrapped e \<and> (\<exists>k \<in> set (text_refs s). \<not> sub_ok E n v k))"
proof -
  obtain q a b where q: "sub_pieces (var_sub get (Some v)) (scan match_ref s) (d, vp) = (q, (a, b))"
    using prod_cases3 by blast
  note sp = sub_pieces_run [OF get ok ref_pieces_scan q]
  show ?thesis
  proof (cases q)
    case (Inl e)
    with sp have e: "ok_store E a" "wrappable e" "\<exists>k \<in> set (text_refs s). \<not> sub_ok E n v k"
      using match_in_refs [of _ s] by auto
    from Inl q run have "r = Inl (expansion_error (Some v) s e)" "d' = a"
      by (auto simp: expand_round_def re_sub_def sbind_def scatch_def sraise_def)
    with e show ?thesis by (simp add: wrappable_def)
  next
    case (Inr xs)
    with sp have a: "ok_store E a" and xs: "xs = map (\<lambda>p. VStr (piece_text (value_of E) p)) (scan match_ref s)"
      and k: "\<forall>k \<in> set (text_refs s). k \<noteq> v \<and> \<not> cyclic E k" by (auto simp: match_in_refs)
    from xs have j: "join_values xs = Inr (subst_refs (value_of E) s)" by (simp add: join_texts subst_refs_def)
    have "clean_text (subst_refs (value_of E) s)"
    proof (rule clean_subst [OF s])
      fix k t assume "k \<in> set (text_refs s)" "value_of E k = Some t"
      moreover have "\<And>w u. E w = Some u \<Longrightarrow> clean_text u" by (rule ok_clean [OF ok])
      ultimately show "clean_text t" using value_clean [of E k t] ok_finite [OF ok] k by blast
    qed
    from re_sub_lits [OF clean_no_code [OF this], of "python_sub I get (Some v)" "(a, b)"]
    have "expand_round I get (Some v) s (d, vp) = (Inr (subst_refs (value_of E) s), (a, b))"
      using q Inr j by (simp add: expand_round_def re_sub_def [of match_ref] sbind_def scatch_def sres_def)
    with run a k show ?thesis by auto
  qed
qed

text \<open>Two rounds are enough: the second one finds no reference to a set variable.\<close>

lemma expand_loop_run:
  assumes get: "good_reader E n get" and ok: "ok_store E d" and v: "E v = Some s" and rounds: "2 \<le> k"
    and run: "expand_loop I get k (Some v) s (d, vp) = (r, (d', vp'))"
  shows "ok_store E d' \<and> (case r of
      Inr t \<Rightarrow> t = subst_refs (value_of E) s \<and> (\<forall>k \<in> set (text_refs s). k \<noteq> v \<and> \<not> cyclic E k)
    | Inl e \<Rightarrow> wrapped e \<and> (cyclic E v \<or> n < rank E v + 1))"
proof -
  from rounds obtain m where k: "k = Suc (Suc m)" by (metis Suc_le_D numeral_2_eq_2 Suc_le_mono)
  note s = ok_clean [OF ok v]
  have acyc: "sub_ok E n v x" if "x \<in> set (text_refs s)" "\<not> cyclic E v" "rank E v + 1 \<le> n" for x
  proof (cases "E x = None")
    case True
    then have "\<not> cyclic E x" using cyclic_next [of E x] by (auto simp: refrel_def)
    with True v that show ?thesis by (auto simp: sub_ok_def needs_def)
  next
    case False
    with v that have e: "(v, x) \<in> refrel E" by (auto simp: refrel_def)
    then have "x \<noteq> v" using that(2) by (auto simp: cyclic_def)
    with rank_less [OF ok_finite [OF ok] e that(2)] cyclic_step [OF e] that show ?thesis
      by (auto simp: sub_ok_def needs_def)
  qed
  show ?thesis
  proof (cases "occurs s ''${''")
    case False
    with run k ok show ?thesis by (auto simp: sret_def not_occurs_refs)
  next
    case True
    obtain q a b where q: "expand_round I get (Some v) s (d, vp) = (q, (a, b))" using prod_cases3 by blast
    note r1 = expand_round_run [OF get ok s q]
    show ?thesis
    proof (cases q)
      case (Inl e)
      with r1 acyc have "cyclic E v \<or> n < rank E v + 1" by fastforce
      with Inl True run q r1 k show ?thesis by (auto simp: sbind_def)
    next
      case (Inr t)
      with r1 have t: "ok_store E a" "t = subst_refs (value_of E) s" "\<forall>k \<in> set (text_refs s). k \<noteq> v \<and> \<not> cyclic E k" by auto
      show ?thesis
      proof (cases "t = s \<or> \<not> occurs t ''${''")
        case True
        then have "expand_loop I get k (Some v) s (d, vp) = (Inr t, (a, b))"
          using \<open>occurs s _\<close> q Inr k by (auto simp: sbind_def sret_def)
        with run t show ?thesis by auto
      next
        case False
        have set: "clean_text u \<and> (\<forall>x \<in> set (text_refs u). E x = None)" if "x \<in> set (text_refs s)" "value_of E x = Some u" for x u
          using value_clean [of E x u] ok_finite [OF ok] ok_clean [OF ok] t(3) that by blast
        have ct: "clean_text t" unfolding t(2) by (rule clean_subst [OF s]) (use set in blast)
        have un: "E x = None" if "x \<in> set (text_refs t)" for x
          using refs_subst [OF s, of "value_of E" x] set that value_none [of E x] unfolding t(2) by blast
        obtain q' a' b' where q': "expand_round I get (Some v) t (a, b) = (q', (a', b'))" using prod_cases3 by blast
        note r2 = expand_round_run [OF get t(1) ct q']
        have "subst_refs (value_of E) t = t" by (rule subst_none) (use un value_none in blast)
        with r2 have r2': "q' = Inr x \<Longrightarrow> x = t" for x by auto
        show ?thesis
        proof (cases q')
          case (Inl e)
          with r2 obtain x where x: "x \<in> set (text_refs t)" "\<not> sub_ok E n v x" "wrapped e" by auto
          from un [OF x(1)] have "E x = None" "\<not> cyclic E x" using cyclic_next [of E x] by (auto simp: refrel_def)
          with x(2) v have "n < 1" by (auto simp: sub_ok_def needs_def)
          with Inl Inr False True run q q' r2 k x(3) show ?thesis by (auto simp: sbind_def)
        next
          case (Inr x)
          with r2' have "expand_loop I get k (Some v) s (d, vp) = (Inr t, (a', b'))"
            using True False q q' \<open>q = Inr t\<close> k by (auto simp: sbind_def sret_def)
          with run t r2 Inr show ?thesis by auto
        qed
      qed
    qed
  qed
qed

lemma ok_cache_add:
  assumes "ok_store E d" "E v \<noteq> None" "\<not> cyclic E v" "vp_value p = opt_str (value_of E v)"
  shows "ok_store E (d\<lparr>expand_cache := dset v p (expand_cache d)\<rparr>)"
  using assms by (auto simp: ok_store_def plain_store_def text_of_def expcache_ok_def bare_def fun_eq_iff)

lemma value_of_text:
  assumes "ok_store E d" "E v = Some s" "\<forall>k \<in> set (text_refs s). k \<noteq> v \<and> \<not> cyclic E k"
  shows "\<not> cyclic E v \<and> value_of E v = Some (subst_refs (value_of E) s)"
proof -
  have "\<not> cyclic E v" using cyclic_next [of E v] assms(2,3) by (auto simp: refrel_def)
  with value_eq [OF ok_finite [OF assms(1)]] assms(2) show ?thesis by simp
qed

lemma expand_run:
  assumes get: "good_reader E n get" and ok: "ok_store E d" and v: "E v = Some s" "v \<noteq> []" and rounds: "2 \<le> py_rounds I"
    and run: "expand_with I get (VStr s) (Some v) d = (r, d')"
  shows "ok_store E d' \<and> (case r of Inr x \<Rightarrow> \<not> cyclic E v \<and> x = opt_str (value_of E v)
     | Inl e \<Rightarrow> wrapped e \<and> (cyclic E v \<or> Suc n < needs E v))"
proof (cases "map_of (expand_cache d) v")
  case (Some p)
  with ok have "\<not> cyclic E v" "vp_value p = opt_str (value_of E v)" by (auto simp: ok_store_def expcache_ok_def)
  with Some run v(2) ok show ?thesis
    by (auto simp: expand_with_def expand_refs_with_def cache_name_def sbind_def sget_def sret_def)
next
  case None
  obtain q a b where q: "expand_loop I get (py_rounds I) (Some v) s (d, new_varparse VNone) = (q, (a, b))"
    using prod_cases3 by blast
  note l = expand_loop_run [OF get ok v(1) rounds q]
  show ?thesis
  proof (cases q)
    case (Inl e)
    with l None run v q show ?thesis
      by (auto simp: expand_with_def expand_refs_with_def cache_name_def sbind_def sget_def with_new_vp_def needs_def)
  next
    case (Inr t)
    with l have a: "ok_store E a" and t: "t = subst_refs (value_of E) s" "\<forall>k \<in> set (text_refs s). k \<noteq> v \<and> \<not> cyclic E k"
      by auto
    from value_of_text [OF ok v(1) t(2)] t(1) have val: "\<not> cyclic E v" "VStr t = opt_str (value_of E v)"
      by (auto simp: opt_str_def)
    have "(r, d') = (Inr (VStr t), a\<lparr>expand_cache := dset v (b\<lparr>vp_value := VStr t\<rparr>) (expand_cache a)\<rparr>)"
      using Inr None run v q
      by (simp add: expand_with_def expand_refs_with_def cache_name_def sbind_def sget_def with_new_vp_def sret_def supd_def)
    moreover have "ok_store E (a\<lparr>expand_cache := dset v (b\<lparr>vp_value := VStr t\<rparr>) (expand_cache a)\<rparr>)"
      by (rule ok_cache_add [OF a]) (use v val in auto)
    ultimately show ?thesis using val by simp
  qed
qed

lemma get_run:
  assumes get: "good_reader E n get" and ok: "ok_store E d" and v: "v \<noteq> []" and rounds: "2 \<le> py_rounds I"
    and run: "get_flag_with I get v ''_content'' True False p d = (r, d')"
  shows "ok_store E d' \<and> answer E (Suc n) v r"
proof -
  from ok have b: "bare d v" "map_of (overridedata d) v = None" and e: "text_of d v = E v"
    and st: "stored_in (table d v) False = VNone \<or> (\<exists>s. stored_in (table d v) False = VStr s \<and> clean_text s)"
    by (auto simp: ok_store_def plain_store_def)
  note g = get_plain [of d v p I get True False]
  from st show ?thesis
  proof
    assume "stored_in (table d v) False = VNone"
    with b e g run have "r = Inr VNone" "d' = d" "E v = None"
      by (auto simp: bare_def copy_value_def text_of_def)
    moreover from this(3) have "\<not> cyclic E v" using cyclic_next [of E v] by (auto simp: refrel_def)
    ultimately show ?thesis using ok value_none [of E v] by (auto simp: answer_def opt_str_def)
  next
    assume "\<exists>s. stored_in (table d v) False = VStr s \<and> clean_text s"
    then obtain s where s: "stored_in (table d v) False = VStr s" by blast
    with e have Ev: "E v = Some s" by (simp add: text_of_def)
    show ?thesis
    proof (cases "s = []")
      case True
      with b g run s have "r = Inr (VStr [])" "d' = d" by (auto simp: bare_def copy_value_def)
      moreover have "\<not> cyclic E v \<and> value_of E v = Some []"
        using value_of_text [OF ok Ev] True by simp
      ultimately show ?thesis using ok by (simp add: answer_def opt_str_def)
    next
      case False
      with b g run s have "expand_with I get (VStr s) (Some v) d = (r, d')"
        by (auto simp: bare_def copy_value_def Let_def)
      from expand_run [OF get ok Ev v rounds this] show ?thesis
        by (auto simp: answer_def split: sum.splits)
    qed
  qed
qed

lemma get_flag_good:
  assumes "2 \<le> py_rounds I"
  shows "good_reader E n (\<lambda>v f e. get_flag I n v f e False False)"
proof (induction n)
  case 0
  show ?case by (auto simp: good_reader_def answer_def get_flag.simps sraise_def needs_def)
next
  case (Suc n)
  show ?case unfolding good_reader_def
    using get_run [OF Suc _ _ assms] by (auto simp: get_flag.simps)
qed

text \<open>
  C14. Expansion is exact: in a store of texts without overrides and additions reading a
  variable with expansion returns its value, in which every reference to a set variable is
  replaced by the value of that variable, if no variable that is reached refers to itself;
  otherwise it raises ExpansionError.  Two rounds and a recursion depth of two more than
  there are variables are enough.
\<close>

theorem expansion_exact:
  assumes "plain_store d" and "expand_cache d = []" and "finite (dom (text_of d))" and "v \<noteq> []"
    and "2 \<le> py_rounds I" and "card (dom (text_of d)) + 2 \<le> py_depth I"
  shows "(\<not> cyclic (text_of d) w \<longrightarrow>
      value_of (text_of d) w = map_option (subst_refs (value_of (text_of d))) (text_of d w)) \<and>
    (\<not> cyclic (text_of d) v \<longrightarrow>
        fst (getVar I v True False p d) = Inr (opt_str (value_of (text_of d) v))) \<and>
    (cyclic (text_of d) v \<longrightarrow>
        (\<exists>name text e. fst (getVar I v True False p d) = Inl (ExpansionError name text e)))"
proof (intro conjI impI)
  let ?E = "text_of d"
  show "\<not> cyclic ?E w \<Longrightarrow> value_of ?E w = map_option (subst_refs (value_of ?E)) (?E w)"
    by (rule value_eq [OF assms(3)])
  have ok: "ok_store ?E d" using assms(1,2,3) by (simp add: ok_store_def expcache_ok_def)
  from assms(6) obtain n where n: "py_depth I = Suc n" by (cases "py_depth I") auto
  obtain r d' where run: "get_flag_with I (\<lambda>v f e. get_flag I n v f e False False) v ''_content'' True False p d = (r, d')"
    by force
  have "answer ?E (py_depth I) v r"
    using get_run [OF get_flag_good [OF assms(5)] ok assms(4,5) run] n by simp
  moreover have "fst (getVar I v True False p d) = r"
    using run by (simp add: getVar_def getVarFlag_def n get_flag.simps)
  moreover have "needs ?E v \<le> py_depth I"
    using rank_le [OF assms(3), of v] assms(6) by (auto simp: needs_def)
  ultimately show "\<not> cyclic ?E v \<Longrightarrow> fst (getVar I v True False p d) = Inr (opt_str (value_of ?E v))"
    and "cyclic ?E v \<Longrightarrow> \<exists>name text e. fst (getVar I v True False p d) = Inl (ExpansionError name text e)"
    by (auto simp: answer_def n wrapped_def split: sum.splits)
qed

definition expand_example :: datastore where
  "expand_example = new_datastore\<lparr>ds_vars :=
     [(''A'', [(''_content'', VStr ''a${B}c'')]), (''B'', [(''_content'', VStr ''${U}b'')]),
      (''C'', [(''_content'', VStr ''${D}'')]), (''D'', [(''_content'', VStr ''x${C}'')])]\<rparr>"

lemma expand_example_text:
  "text_of expand_example = [''A'' \<mapsto> ''a${B}c'', ''B'' \<mapsto> ''${U}b'', ''C'' \<mapsto> ''${D}'', ''D'' \<mapsto> ''x${C}'']"
  by (auto simp: fun_eq_iff text_of_def stored_in_def table_def findVar_def expand_example_def new_datastore_def)

lemma expand_example_clean: "clean_text ''a${B}c''" "clean_text ''${U}b''" "clean_text ''${D}''" "clean_text ''x${C}''"
  by code_simp+

lemma expand_example_refs: "text_refs ''a${B}c'' = [''B'']" "text_refs ''${U}b'' = [''U'']" "text_refs ''${D}'' = [''D'']" "text_refs ''x${C}'' = [''C'']"
  by code_simp+

lemma expand_example_plain: "plain_store expand_example"
  unfolding plain_store_def
proof
  fix v
  consider "v = ''A''" | "v = ''B''" | "v = ''C''" | "v = ''D''" | "v \<notin> {''A'', ''B'', ''C'', ''D''}" by blast
  then show "bare expand_example v \<and> map_of (overridedata expand_example) v = None \<and>
     (stored_in (table expand_example v) False = VNone \<or> (\<exists>s. stored_in (table expand_example v) False = VStr s \<and> clean_text s))"
    by cases (simp_all add: bare_def stored_in_def table_def findVar_def expand_example_def new_datastore_def
        expand_example_clean)
qed

lemma expand_example_rel:
  "(''A'', k) \<in> refrel (text_of expand_example) \<longleftrightarrow> k = ''B''" "(''B'', k) \<notin> refrel (text_of expand_example)"
  "(''C'', k) \<in> refrel (text_of expand_example) \<longleftrightarrow> k = ''D''" "(''D'', k) \<in> refrel (text_of expand_example) \<longleftrightarrow> k = ''C''"
  by (auto simp: refrel_def expand_example_text expand_example_refs)

lemma expand_example_cyclic:
  "\<not> cyclic (text_of expand_example) ''A''" "cyclic (text_of expand_example) ''C''"
proof -
  show "\<not> cyclic (text_of expand_example) ''A''"
  proof
    assume "cyclic (text_of expand_example) ''A''"
    then have "cyclic (text_of expand_example) ''B''"
      using cyclic_next [of "text_of expand_example" "''A''"] by (auto simp: expand_example_rel)
    then show False using cyclic_next [of "text_of expand_example" "''B''"] by (auto simp: expand_example_rel)
  qed
  have "(''C'', ''C'') \<in> (refrel (text_of expand_example))\<^sup>+"
    by (rule trancl_trans [of _ "''D''"]) (auto simp: expand_example_rel)
  then show "cyclic (text_of expand_example) ''C''" unfolding cyclic_def by blast
qed

lemma expansion_exact_witness:
  "fst (getVar (no_python 2 6) ''A'' True False False expand_example) = Inr (VStr ''a${U}bc'') \<and>
   (\<exists>name text e. fst (getVar (no_python 2 6) ''C'' True False False expand_example) = Inl (ExpansionError name text e))"
proof
  have c: "expand_cache expand_example = []" by (simp add: expand_example_def new_datastore_def)
  have f: "finite (dom (text_of expand_example))" by (simp add: expand_example_text)
  have k: "card (dom (text_of expand_example)) + 2 \<le> py_depth (no_python 2 6)"
    by (simp add: expand_example_text no_python_def)
  have r: "2 \<le> py_rounds (no_python 2 6)" by (simp add: no_python_def)
  have "card (dom (text_of expand_example)) = 4" by (simp add: expand_example_text)
  moreover have "expand_full [''A'' \<mapsto> ''a${B}c'', ''B'' \<mapsto> ''${U}b'', ''C'' \<mapsto> ''${D}'', ''D'' \<mapsto> ''x${C}''] 4 ''A'' =
    Some ''a${U}bc''" by code_simp
  ultimately have v: "value_of (text_of expand_example) ''A'' = Some ''a${U}bc''"
    by (simp del: expand_full.simps add: value_of_def expand_example_text eval_nat_numeral)
  show "fst (getVar (no_python 2 6) ''A'' True False False expand_example) = Inr (VStr ''a${U}bc'')"
    using expansion_exact [OF expand_example_plain c f _ r k, of "''A''"] expand_example_cyclic(1)
    by (simp add: v opt_str_def)
  show "\<exists>name text e. fst (getVar (no_python 2 6) ''C'' True False False expand_example) = Inl (ExpansionError name text e)"
    using expansion_exact [OF expand_example_plain c f _ r k, of "''C''"] expand_example_cyclic(2) by simp
qed

end
