(* ===== verification/Data_Type_Facts.thy ===== *)
theory Data_Type_Facts
  imports Data_Store_Facts
begin

text \<open>
  The types of the data store.  The values of variables are strings or None, the flags
  \<open>_append\<close>, \<open>_prepend\<close> and \<open>_remove\<close> hold lists of pairs of a string and
  an optional override, and the entries of the cache are strings.  The methods keep this,
  and in such a store a read returns a string or None; it can fail to expand, but not with
  an error of types.
\<close>

section \<open>Well-typed stores\<close>

definition text_val :: "dval \<Rightarrow> bool" where
  "text_val v \<longleftrightarrow> v = VNone \<or> (\<exists>s. v = VStr s)"

definition addition_ok :: "dval \<Rightarrow> bool" where
  "addition_ok it \<longleftrightarrow> (\<exists>r o1. it = VList [VStr r, o1] \<and> text_val o1)"

definition additions_ok :: "dval \<Rightarrow> bool" where
  "additions_ok v \<longleftrightarrow> (\<exists>its. v = VList its \<and> list_all addition_ok its)"

definition flag_ok :: "string \<Rightarrow> string \<Rightarrow> dval \<Rightarrow> bool" where
  "flag_ok var flag v \<longleftrightarrow> (flag \<in> set setvar_keywords \<longrightarrow>
      additions_ok v) \<and>
     (flag \<in> {''_content'', ''_defaultval''} \<and> var \<noteq> exportlist \<longrightarrow> text_val v)"

definition typed :: "datastore \<Rightarrow> bool" where
  "typed d \<longleftrightarrow> (\<forall>var flag v. table d var flag = Some v \<longrightarrow>
      flag_ok var flag v)"

definition cache_typed :: "datastore \<Rightarrow> bool" where
  "cache_typed d \<longleftrightarrow> (\<forall>k p. map_of (expand_cache d) k = Some p \<longrightarrow>
      (\<exists>s. vp_value p = VStr s))"

text \<open>The overrides are there, or will be computed when they are needed.\<close>

definition overrides_ready :: "datastore \<Rightarrow> bool" where
  "overrides_ready d \<longleftrightarrow> \<not> (inoverride d \<and> ds_overrides d = None)"

text \<open>The entries of the overrides do not lead to the set of exported variables.\<close>

definition flag_entries_ok :: "(string \<times> (string \<times> string) list) list \<Rightarrow> bool" where
  "flag_entries_ok od \<longleftrightarrow> (\<forall>var rs. map_of od var = Some rs \<longrightarrow>
      exportlist \<notin> fst ` set rs)"

definition stored_types :: "datastore \<Rightarrow> bool" where
  "stored_types d \<longleftrightarrow> typed d \<and> cache_typed d \<and> flag_entries_ok (overridedata d)"

definition well_typed :: "datastore \<Rightarrow> bool" where
  "well_typed d \<longleftrightarrow> stored_types d \<and> overrides_ready d"

text \<open>Inline Python that leaves the store well-typed and its variables alone.\<close>

definition tame :: "interp \<Rightarrow> bool" where
  "tame I \<longleftrightarrow> quiet_read I \<and> (\<forall>code d. (stored_types d \<longrightarrow>
      stored_types (snd (py_eval I code d))) \<and>
     (overrides_ready d \<longrightarrow> overrides_ready (snd (py_eval I code d))) \<and>
     (ds_overrides d \<noteq> None \<longrightarrow> ds_overrides (snd (py_eval I code d)) \<noteq> None))"

lemma well_typed_simps [simp]:
  "well_typed d \<Longrightarrow> well_typed (d\<lparr>expand_cache := []\<rparr>)"
  "well_typed d \<Longrightarrow> well_typed (d\<lparr>ds_overrides := Some os, overridesset := os\<rparr>)"
  "well_typed d \<Longrightarrow> well_typed (d\<lparr>inoverride := False, expand_cache := []\<rparr>)"
  "well_typed d \<Longrightarrow> well_typed (d\<lparr>inoverride := True, ds_overrides := Some os, overridesset := os\<rparr>)"
  "well_typed d \<Longrightarrow> flag_entries_ok od \<Longrightarrow> well_typed (d\<lparr>overridedata := od\<rparr>)"
  "well_typed d \<Longrightarrow> well_typed (d\<lparr>overridevars := ov\<rparr>)"
  by (auto simp: well_typed_def stored_types_def typed_def cache_typed_def overrides_ready_def)

lemma stored_types_simps [simp]:
  "stored_types d \<Longrightarrow> stored_types (d\<lparr>expand_cache := []\<rparr>)"
  "stored_types (d\<lparr>ds_overrides := os\<rparr>) = stored_types d"
  "stored_types (d\<lparr>overridesset := os'\<rparr>) = stored_types d"
  "stored_types (d\<lparr>inoverride := b\<rparr>) = stored_types d"
  "stored_types d \<Longrightarrow> flag_entries_ok od \<Longrightarrow> stored_types (d\<lparr>overridedata := od\<rparr>)"
  "stored_types (d\<lparr>overridevars := ov\<rparr>) = stored_types d"
  "stored_types (d\<lparr>ds_sets := ss\<rparr>) = stored_types d"
  by (auto simp: stored_types_def typed_def cache_typed_def)

lemma stored_types_cache:
  "stored_types d \<Longrightarrow> vp_value p = VStr s \<Longrightarrow> stored_types (d\<lparr>expand_cache := dset n p (expand_cache d)\<rparr>)"
  by (auto simp: stored_types_def typed_def cache_typed_def)

lemma well_typed_cache:
  "well_typed d \<Longrightarrow> vp_value p = VStr s \<Longrightarrow> well_typed (d\<lparr>expand_cache := dset n p (expand_cache d)\<rparr>)"
  by (auto simp: well_typed_def stored_types_cache overrides_ready_def)

definition wt_if_tame :: "interp \<Rightarrow> datastore \<Rightarrow> bool" where
  "wt_if_tame I d \<longleftrightarrow> tame I \<longrightarrow> well_typed d"

definition stored_if_tame :: "interp \<Rightarrow> datastore \<Rightarrow> bool" where
  "stored_if_tame I d \<longleftrightarrow> tame I \<longrightarrow> stored_types d"

definition known_if_tame :: "interp \<Rightarrow> datastore \<Rightarrow> bool" where
  "known_if_tame I d \<longleftrightarrow> tame I \<longrightarrow> ds_overrides d \<noteq> None"

interpretation wt: read_invariant "wt_if_tame I" I for I
  by unfold_locales (auto simp: wt_if_tame_def tame_def well_typed_cache, auto simp: well_typed_def)

interpretation ty: read_invariant "stored_if_tame I" I for I
  by unfold_locales (auto simp: stored_if_tame_def tame_def stored_types_cache)

text \<open>A variable keeps its entry for overrides.\<close>

definition entry_if_tame :: "interp \<Rightarrow> string \<Rightarrow> datastore \<Rightarrow> bool" where
  "entry_if_tame I var d \<longleftrightarrow> tame I \<longrightarrow> map_of (overridedata d) var \<noteq> None"

interpretation en: read_invariant "entry_if_tame I var" I for I var
  by unfold_locales (auto simp: entry_if_tame_def tame_def quiet_read_def sd.keeps_def same_data_def data_of_def)

interpretation kn: read_invariant "known_if_tame I" I for I
  by unfold_locales (auto simp: known_if_tame_def tame_def)

lemma wt_hoare: "tame I \<Longrightarrow> wt.rd.keeps I m \<Longrightarrow> hoare well_typed m (\<lambda>_. well_typed) (\<lambda>_. well_typed)"
  by (rule wt.rd.hoare_keeps) (auto simp: wt_if_tame_def)

lemma known_hoare: "tame I \<Longrightarrow> kn.rd.keeps I m \<Longrightarrow>
    hoare (\<lambda>d. ds_overrides d \<noteq> None) m (\<lambda>_ d. ds_overrides d \<noteq> None) (\<lambda>_ d. ds_overrides d \<noteq> None)"
  by (rule kn.rd.hoare_keeps) (auto simp: known_if_tame_def)

section \<open>What an expansion returns and how it fails\<close>

lemma entry_hoare: "tame I \<Longrightarrow> en.rd.keeps I var m \<Longrightarrow>
    hoare (\<lambda>d. map_of (overridedata d) var \<noteq> None) m (\<lambda>_ d. map_of (overridedata d) var \<noteq> None)
      (\<lambda>_ d. map_of (overridedata d) var \<noteq> None)"
  by (rule en.rd.hoare_keeps) (auto simp: entry_if_tame_def)

definition read_exc :: "exc \<Rightarrow> bool" where
  "read_exc e = (case e of ExpansionError _ _ _ \<Rightarrow> True | RecursionError \<Rightarrow> True | SkipRecipe _ \<Rightarrow> True
     | SystemExit \<Rightarrow> True | OutOfFuel \<Rightarrow> True | BBHandledException \<Rightarrow> True | _ \<Rightarrow> False)"

lemma expansion_error_read [simp]: "read_exc (expansion_error vn s e)"
  by (cases e) (simp_all add: expansion_error_def read_exc_def)

lemma read_exc_simps [simp]: "read_exc RecursionError" "read_exc BBHandledException" "read_exc OutOfFuel"
  by (simp_all add: read_exc_def)

lemma expand_round_exc: "expand_round I get vn s d = (Inl e, d') \<Longrightarrow> read_exc e"
  by (auto simp: expand_round_def sbind_def scatch_def sraise_def sret_def split: prod.splits sum.splits if_splits)

lemma expand_loop_exc: "expand_loop I get k vn s d = (Inl e, d') \<Longrightarrow> read_exc e"
proof (induction I get k vn s arbitrary: d rule: expand_loop.induct)
  case (1 I get vn s)
  then show ?case by (simp add: sraise_def)
next
  case (2 I get k vn s)
  show ?case
  proof (cases "occurs s ''${''")
    case True
    obtain r a where r: "expand_round I get vn s d = (r, a)" by (cases "expand_round I get vn s d")
    show ?thesis
    proof (cases r)
      case (Inl e')
      with 2(2) True r expand_round_exc show ?thesis by (auto simp: sbind_def)
    next
      case (Inr t)
      with 2 True r show ?thesis by (auto simp: sbind_def sret_def split: if_splits)
    qed
  qed (use 2 in \<open>simp add: sret_def\<close>)
qed

text \<open>
  A reader of a well-typed store: it keeps the store well-typed and the overrides known, and
  the content of a variable is a string or None.
\<close>

definition reads_text :: "(datastore, dval) sm \<Rightarrow> bool" where
  "reads_text m \<longleftrightarrow> hoare well_typed m (\<lambda>v s. well_typed s \<and> text_val v) (\<lambda>e s. well_typed s \<and> read_exc e)"

definition text_reader :: "interp \<Rightarrow> reader \<Rightarrow> bool" where
  "text_reader I get \<longleftrightarrow> wt.keeping_reader I get \<and> kn.keeping_reader I get \<and> (\<forall>var. en.keeping_reader I var get) \<and>
     (\<forall>v e. v \<noteq> exportlist \<longrightarrow> reads_text (get v ''_content'' e))"

lemma text_readerD:
  "text_reader I get \<Longrightarrow> wt.keeping_reader I get" "text_reader I get \<Longrightarrow> kn.keeping_reader I get"
  "text_reader I get \<Longrightarrow> v \<noteq> exportlist \<Longrightarrow> reads_text (get v ''_content'' e)"
  "text_reader I get \<Longrightarrow> en.keeping_reader I var get"
  by (simp_all add: text_reader_def)

lemma expand_refs_text:
  assumes t: "tame I" "wt.keeping_reader I get" and v: "text_val v"
  shows "hoare well_typed (expand_refs_with I get v vn) (\<lambda>p s. well_typed s \<and> (v = VNone \<longrightarrow>
      vp_value p = VNone) \<and>
     (v \<noteq> VNone \<longrightarrow>
         (\<exists>s. vp_value p = VStr s))) (\<lambda>e s. well_typed s \<and> read_exc e)"
proof (cases v)
  case (VStr s)
  show ?thesis
  proof (rule hoareI)
    fix d assume d: "well_typed d"
    show "case expand_refs_with I get v vn d of (Inl e, s) \<Rightarrow> well_typed s \<and> read_exc e
      | (Inr p, s) \<Rightarrow> well_typed s \<and> (v = VNone \<longrightarrow>
          vp_value p = VNone) \<and> (v \<noteq> VNone \<longrightarrow> (\<exists>s. vp_value p = VStr s))"
    proof (cases "case cache_name vn of None \<Rightarrow> None | Some n \<Rightarrow> map_of (expand_cache d) n")
      case (Some p)
      then obtain n where "map_of (expand_cache d) n = Some p" by (cases "cache_name vn") auto
      with d have "\<exists>s. vp_value p = VStr s" by (auto simp: well_typed_def stored_types_def cache_typed_def)
      with Some d VStr show ?thesis
        by (auto simp: expand_refs_with_def sbind_def sget_def sret_def)
    next
      case None
      obtain q a b where q: "expand_loop I get (py_rounds I) vn s (d, new_varparse VNone) = (q, (a, b))"
        using prod_cases3 by blast
      have a: "well_typed a"
        using wt.rp.keepsD [OF wt.expand_loop_keeps [OF t(2)] q] d t(1) by (simp add: wt_if_tame_def)
      show ?thesis
      proof (cases q)
        case (Inl e)
        with None q a VStr expand_loop_exc [of I get "py_rounds I" vn s "(d, new_varparse VNone)"] show ?thesis
          by (auto simp: expand_refs_with_def sbind_def sget_def with_new_vp_def)
      next
        case (Inr u)
        with None q a VStr show ?thesis
          by (auto simp: expand_refs_with_def sbind_def sget_def with_new_vp_def sret_def supd_def well_typed_cache
              split: option.split)
      qed
    qed
  qed
qed (use v in \<open>auto simp: text_val_def expand_refs_with_def hoare_def sret_def new_varparse_def\<close>)

lemma expand_text:
  assumes "tame I" "wt.keeping_reader I get" "text_val v"
  shows "hoare well_typed (expand_with I get v vn) (\<lambda>x s. well_typed s \<and> text_val x \<and> (v \<noteq> VNone \<longrightarrow>
      x \<noteq> VNone))
    (\<lambda>e s. well_typed s \<and> read_exc e)"
  unfolding expand_with_def
  by (rule hoare_sbind [OF expand_refs_text [OF assms]]) (auto simp: hoare_def sret_def text_val_def)


section \<open>What a read returns\<close>

definition type_ready :: "datastore \<Rightarrow> bool" where
  "type_ready d \<longleftrightarrow> well_typed d \<and> ds_overrides d \<noteq> None"

definition failed :: "exc \<Rightarrow> datastore \<Rightarrow> bool" where
  "failed e d \<longleftrightarrow> well_typed d \<and> read_exc e"

lemma reads_text_hoare:
  "reads_text m \<longleftrightarrow> hoare well_typed m (\<lambda>v s. well_typed s \<and> text_val v) failed"
  by (simp add: reads_text_def failed_def [abs_def])

lemma ready_wt: "type_ready d \<Longrightarrow> well_typed d"
  by (simp add: type_ready_def)

text \<open>What keeps the overrides known and the store well-typed keeps the store ready.\<close>

lemma ready_hoare:
  assumes "tame I" "kn.rd.keeps I m" "hoare well_typed m Q failed" "\<And>x s. Q x s \<Longrightarrow> well_typed s"
  shows "hoare type_ready m (\<lambda>x s. Q x s \<and> type_ready s) failed"
  by (rule hoare_weaken [OF hoare_conj [OF assms(3) known_hoare [OF assms(1,2)]]])
    (auto simp: type_ready_def failed_def dest: assms(4))

lemma read_overrides_ok:
  assumes "text_reader I get"
  shows "hoare well_typed (read_overrides get) (\<lambda>_. well_typed) failed"
proof -
  have "''OVERRIDES'' \<noteq> exportlist" by (simp add: exportlist_def)
  from text_readerD(3) [OF assms this, of True, unfolded reads_text_hoare] show ?thesis
    unfolding read_overrides_def
    by (rule hoare_sbind) (auto simp: hoare_def sret_def sres_def text_val_def)
qed

lemma override_rounds_ok:
  assumes t: "tame I" and get: "text_reader I get"
  shows "hoare well_typed (override_rounds get n) (\<lambda>_. type_ready) failed"
proof (induction n)
  case 0
  show ?case by (simp add: hoare_def sraise_def failed_def)
next
  case (Suc n)
  have ro: "hoare type_ready (read_overrides get) (\<lambda>_. type_ready) failed"
    by (rule hoare_weaken [OF ready_hoare [OF t kn.read_overrides_keeps [OF text_readerD(2) [OF get]]
          read_overrides_ok [OF get]]]) auto
  have so: "hoare well_typed (set_overrides os) (\<lambda>_. type_ready) failed" for os
    unfolding set_overrides_def by (rule hoare_supd) (simp add: type_ready_def)
  have stop: "hoare type_ready (supd (\<lambda>d. d\<lparr>inoverride := False, expand_cache := []\<rparr>)) (\<lambda>_. type_ready) failed"
    by (rule hoare_supd) (simp add: type_ready_def)
  have start: "hoare well_typed (supd (\<lambda>d. d\<lparr>inoverride := True, ds_overrides := Some [], overridesset := []\<rparr>))
    (\<lambda>_. type_ready) failed"
    by (rule hoare_supd) (simp add: type_ready_def)
  have so': "hoare type_ready (set_overrides os) (\<lambda>_. type_ready) failed" for os
    by (rule hoare_pre [OF so]) (rule ready_wt)
  have IH: "hoare type_ready (override_rounds get n) (\<lambda>_. type_ready) failed"
    by (rule hoare_pre [OF Suc]) (rule ready_wt)
  show ?case
    unfolding override_rounds.simps start_round
  proof (rule hoare_sbind [OF start], rule hoare_sbind [OF ro], rule hoare_sbind [OF so'],
      rule hoare_sbind [OF stop], rule hoare_sbind [OF ro])
    fix os os'
    show "hoare type_ready (if os' = os then sret () else sbind (set_overrides os') (\<lambda>_. override_rounds get n))
      (\<lambda>_. type_ready) failed"
      by (auto intro!: hoare_sret hoare_sbind [OF so'] IH)
  qed
qed

lemma need_overrides_ok:
  assumes "tame I" "text_reader I get"
  shows "hoare well_typed (need_overrides_with get) (\<lambda>_. type_ready) failed"
  unfolding need_overrides_with_def
proof (rule hoare_sget_bind)
  fix b
  show "hoare (\<lambda>s. well_typed s \<and> b = (ds_overrides s \<noteq> None \<or> inoverride s))
      (if b then sret () else override_rounds get 5) (\<lambda>_. type_ready) failed"
  proof (cases b)
    case True
    then show ?thesis
      by (auto simp: hoare_def sret_def type_ready_def well_typed_def overrides_ready_def)
  next
    case False
    then show ?thesis by (simp, intro hoare_pre [OF override_rounds_ok [OF assms, of 5]]) auto
  qed
qed

text \<open>Additions to a string give a string.\<close>

lemma addition_step:
  assumes "addition_ok it" "text_val v" "v \<noteq> VNone" "os \<noteq> None"
  shows "(\<exists>s. apply_append os it v = Inr (VStr s)) \<and> (\<exists>s. apply_prepend os it v = Inr (VStr s))"
  using assms
  by (auto simp: addition_ok_def apply_append_def apply_prepend_def unpack2_def addition_applies_def text_val_def)

lemma additions_fold:
  assumes "app = apply_append \<or> app = apply_prepend" "list_all addition_ok its" "os \<noteq> None"
  shows "\<exists>s. rfold (app os) its (VStr t) = Inr (VStr s)"
  using assms(2)
proof (induction its arbitrary: t)
  case Nil
  then show ?case by simp
next
  case (Cons it its)
  from addition_step [of it "VStr t" os] Cons.prems assms obtain u where "app os it (VStr t) = Inr (VStr u)"
    by (auto simp: text_val_def)
  with Cons show ?case by simp
qed

lemma additions_text:
  assumes t: "tame I" and get: "text_reader I get" and its: "additions_ok its" and v: "text_val v"
    and app: "app = apply_append \<or> app = apply_prepend"
  shows "reads_text (additions get app its v)"
proof -
  from its obtain xs where xs: "its = VList xs" "list_all addition_ok xs" by (auto simp: additions_ok_def)
  from v have "\<exists>t0. or_empty_str v = VStr t0" by (auto simp: text_val_def or_empty_str_def)
  then obtain t0 where t0: "or_empty_str v = VStr t0" ..
  show ?thesis
    unfolding reads_text_hoare additions_def
  proof (rule hoare_sbind [OF need_overrides_ok [OF t get]], rule hoareI)
    fix d assume d: "type_ready d"
    then obtain y where y: "ds_overrides d = Some y" "well_typed d" by (auto simp: type_ready_def)
    from additions_fold [OF app xs(2), of "Some y" t0] obtain u where "rfold (app (Some y)) xs (VStr t0) = Inr (VStr u)"
      by auto
    with y xs(1) t0 show "case sbind (sres (\<lambda>_. dval_items its)) (\<lambda>xs. sres (\<lambda>d. rfold (app (ds_overrides d)) xs (or_empty_str v))) d of
        (Inl e, s) \<Rightarrow> failed e s | (Inr x, s) \<Rightarrow> well_typed s \<and> text_val x"
      by (simp add: sbind_def sres_def text_val_def)
  qed
qed

lemma reads_text_sret: "text_val v \<Longrightarrow> reads_text (sret v)"
  by (simp add: reads_text_def hoare_def sret_def)

lemma reads_text_bind:
  assumes "reads_text m" and "\<And>v. text_val v \<Longrightarrow> reads_text (f v)"
  shows "reads_text (sbind m f)"
  unfolding reads_text_hoare
proof (rule hoare_sbind [OF assms(1) [unfolded reads_text_hoare]], rule hoare_fact)
  fix v s assume "well_typed s \<and> text_val v"
  with assms(2) show "hoare (\<lambda>s. well_typed s \<and> text_val v) (f v) (\<lambda>v s. well_typed s \<and> text_val v) failed"
    unfolding reads_text_hoare by (auto intro: hoare_pre)
qed

lemma reads_text_pre: "(\<And>v. reads_text (f v)) \<Longrightarrow> reads_text (sbind (sget g) f)"
  unfolding reads_text_hoare by (rule hoare_sget_any)

text \<open>The flags of a variable in a well-typed store.\<close>

definition flags_ok :: "string \<Rightarrow> dflags option \<Rightarrow> bool" where
  "flags_ok var lv \<longleftrightarrow> (\<forall>fs flag v. lv = Some fs \<longrightarrow>
      map_of fs flag = Some v \<longrightarrow> flag_ok var flag v)"

lemma well_typed_flags: "well_typed d \<Longrightarrow> flags_ok var (findVar d var)"
  by (auto simp: well_typed_def stored_types_def typed_def table_def flags_ok_def split: option.splits)

lemma flags_additions:
  "flags_ok var (Some fs) \<Longrightarrow> map_of fs f = Some its \<Longrightarrow> f \<in> set setvar_keywords \<Longrightarrow> additions_ok its"
  by (auto simp: flags_ok_def flag_ok_def)

lemma stored_text: "flags_ok var (Some fs) \<Longrightarrow> var \<noteq> exportlist \<Longrightarrow> text_val (stored_value fs ''_content'' nw)"
  by (auto simp: stored_value_def flags_ok_def flag_ok_def split: option.split) (auto simp: text_val_def)

text \<open>The override that is found is one of the entries.\<close>

definition in_entries :: "string set \<Rightarrow> active_map \<times> string option \<times> bool \<Rightarrow> bool" where
  "in_entries S st \<longleftrightarrow> snd ` set (fst st) \<subseteq> S \<and> (\<forall>r. fst (snd st) = Some r \<longrightarrow>
      r \<in> S)"

lemma snd_dset: "snd ` set (dset k v xs) \<subseteq> insert v (snd ` set xs)"
  by (induction xs) (auto simp: dset_def)

lemma resolve_entry_in: "in_entries S st \<Longrightarrow> in_entries S (resolve_entry o1 a st)"
proof -
  assume S: "in_entries S st"
  obtain act mt md where st: "st = (act, mt, md)" using prod_cases3 by blast
  show ?thesis
  proof (cases "map_of act a")
    case (Some r)
    then have r: "r \<in> S" using S st map_of_SomeD [OF Some] by (force simp: in_entries_def)
    have "snd ` set (del_key a act) \<subseteq> S" using S st by (auto simp: in_entries_def del_key_def)
    with S st r Some snd_dset [of "replace (CHR ''_'' # o1) [] a" r "del_key a act"] show ?thesis
      by (auto simp: resolve_entry_def in_entries_def)
  qed (use S st in \<open>simp add: resolve_entry_def\<close>)
qed

lemma fold_in: "(\<And>x st. in_entries S st \<Longrightarrow> in_entries S (f x st)) \<Longrightarrow> in_entries S st \<Longrightarrow> in_entries S (fold f xs st)"
  by (induction xs arbitrary: st) auto

lemma resolve_in: "in_entries S (act, mt, b) \<Longrightarrow> resolve os act mt = Some r \<Longrightarrow> r \<in> S"
proof (induction os act mt arbitrary: b rule: resolve.induct)
  case (1 os act mt)
  from 1(2) have "in_entries S (act, mt, False)" by (simp add: in_entries_def)
  then have "in_entries S (resolve_round os act mt)"
    unfolding resolve_round_def resolve_override_def by (intro fold_in resolve_entry_in) simp
  moreover obtain act' mt' md where r: "resolve_round os act mt = (act', mt', md)" using prod_cases3 by blast
  ultimately show ?case
    using 1(1) [OF refl] 1(3) by (cases md) (auto simp: resolve.simps [of os act mt] Let_def in_entries_def)
qed

lemma active_entries_in: "snd ` set (active_entries os rs) \<subseteq> fst ` set rs"
proof (induction rs rule: rev_induct)
  case Nil
  then show ?case by (simp add: active_entries_def)
next
  case (snoc e rs)
  have "snd ` set (dset (snd e) (fst e) (active_entries os rs)) \<subseteq> insert (fst e) (fst ` set rs)"
    using snoc snd_dset [of "snd e" "fst e" "active_entries os rs"] by (meson insert_mono order_trans)
  moreover have "snd ` set (active_entries os rs) \<subseteq> insert (fst e) (fst ` set rs)" using snoc by (rule subset_insertI2)
  moreover have "fst ` set (rs @ [e]) = insert (fst e) (fst ` set rs)" by simp
  ultimately show ?case 
    unfolding active_entries_append by (cases "override_active os (snd e)") (simp_all only: if_True if_False)
qed

lemma override_value_text:
  assumes t: "tame I" and get: "text_reader I get"
  shows "hoare (\<lambda>d. well_typed d \<and> map_of (overridedata d) var \<noteq> None)
    (override_value get var) (\<lambda>v s. well_typed s \<and> text_val v) failed"
proof -
  have need: "hoare (\<lambda>d. well_typed d \<and> map_of (overridedata d) var \<noteq> None) (need_overrides_with get)
      (\<lambda>_ d. type_ready d \<and> map_of (overridedata d) var \<noteq> None) failed"
    by (rule hoare_weaken [OF hoare_conj [OF need_overrides_ok [OF t get]
          entry_hoare [OF t en.need_overrides_keeps [OF text_readerD(4) [OF get]]]]]) auto
  have match: "hoare (\<lambda>d. type_ready d \<and> map_of (overridedata d) var \<noteq> None) (sres (override_match var))
      (\<lambda>mt d. well_typed d \<and> (\<forall>r. mt = Some r \<longrightarrow>
          r \<noteq> exportlist)) failed"
  proof (rule hoareI)
    fix d assume d: "type_ready d \<and> map_of (overridedata d) var \<noteq> None"
    then obtain rs os where rs: "map_of (overridedata d) var = Some rs" "ds_overrides d = Some os" "well_typed d"
      by (auto simp: type_ready_def)
    have "in_entries (fst ` set rs) (active_entries (overridesset d) rs, None, False)"
      using active_entries_in by (simp add: in_entries_def)
    from resolve_in [OF this] have "resolve os (active_entries (overridesset d) rs) None = Some r \<Longrightarrow> r \<in> fst ` set rs" for r .
    moreover from rs have "exportlist \<notin> fst ` set rs" by (auto simp: well_typed_def stored_types_def flag_entries_ok_def)
    ultimately show "case sres (override_match var) d of (Inl e, s) \<Rightarrow> failed e s
      | (Inr mt, s) \<Rightarrow> well_typed s \<and> (\<forall>r. mt = Some r \<longrightarrow>
          r \<noteq> exportlist)"
      using rs by (auto simp: sres_def override_match_def dget_def)
  qed
  have read: "hoare (\<lambda>d. well_typed d \<and> (\<forall>r. mt = Some r \<longrightarrow>
      r \<noteq> exportlist))
      (case mt of None \<Rightarrow> sret VNone | Some r \<Rightarrow> if r = [] then sret VNone else get r ''_content'' False)
      (\<lambda>v s. well_typed s \<and> text_val v) failed" for mt
    using text_readerD(3) [OF get, unfolded reads_text_hoare]
    by (auto intro!: hoare_sret simp: text_val_def split: option.split) (auto intro: hoare_fact hoare_pre)
  show ?thesis
    unfolding override_value_def by (rule hoare_sbind [OF need hoare_sbind [OF match read]])
qed

lemma copy_text: "text_val v \<Longrightarrow> copy_value d v = v"
  by (auto simp: text_val_def copy_value_def)

lemma read_stored_text:
  assumes t: "tame I" and get: "text_reader I get" and lv: "flags_ok var lv" "var \<noteq> exportlist"
  shows "reads_text (read_stored get var ''_content'' nw p lv)"
proof -
  have rest: "hoare (\<lambda>s. well_typed s \<and> text_val value)
      (if value \<noteq> VNone then sret value else case lv of None \<Rightarrow> sret VNone
        | Some fs \<Rightarrow> sget (\<lambda>d. copy_value d (stored_value fs ''_content'' nw)))
      (\<lambda>v s. well_typed s \<and> text_val v) failed" for "value"
    using stored_text lv by (auto simp: hoare_def sret_def sget_def text_val_def copy_text split: option.split)
      (metis copy_text text_val_def)+
  show ?thesis
    unfolding reads_text_hoare read_stored_def
  proof (rule hoare_sget_bind)
    fix b
    show "hoare (\<lambda>s. well_typed s \<and> b = (''_content'' = ''_content'' \<and> map_of (overridedata s) var \<noteq> None \<and> \<not> p))
      (sbind (if b then override_value get var else sret VNone) (\<lambda>value.
        if value \<noteq> VNone then sret value else case lv of None \<Rightarrow> sret VNone
        | Some fs \<Rightarrow> sget (\<lambda>d. copy_value d (stored_value fs ''_content'' nw)))) (\<lambda>v s. well_typed s \<and> text_val v) failed"
    proof (rule hoare_sbind [OF _ rest])
      show "hoare (\<lambda>s. well_typed s \<and> b = (''_content'' = ''_content'' \<and> map_of (overridedata s) var \<noteq> None \<and> \<not> p))
        (if b then override_value get var else sret VNone) (\<lambda>v s. well_typed s \<and> text_val v) failed"
      proof (cases b)
        case True
        then show ?thesis by simp (rule hoare_pre [OF override_value_text [OF t get, of var]], auto)
      qed (auto simp: hoare_def sret_def text_val_def)
    qed
  qed
qed

lemma read_additions_text:
  assumes t: "tame I" and get: "text_reader I get" and lv: "flags_ok var lv" and v: "text_val v"
  shows "reads_text (read_additions get flag p lv v)"
proof (cases lv)
  case None
  with v show ?thesis by (simp add: read_additions_def reads_text_sret)
next
  case (Some fs)
  have add: "reads_text (case map_of fs f of None \<Rightarrow> sret w | Some its \<Rightarrow> additions get app its w)"
    if "f \<in> set setvar_keywords" "text_val w" "app = apply_append \<or> app = apply_prepend" for f w app
    using additions_text [OF t get _ that(2,3)] flags_additions lv Some that reads_text_sret
    by (auto split: option.split)
  have kw: "''_append'' \<in> set setvar_keywords" "''_prepend'' \<in> set setvar_keywords" by (simp_all add: setvar_keywords_def)
  show ?thesis
    using v by (auto simp: read_additions_def Some intro!: reads_text_sret reads_text_bind add kw)
qed

lemma removed_words_ok:
  assumes t: "tame I" and get: "text_reader I get" and its: "list_all addition_ok its"
  shows "hoare type_ready (removed_words I get its) (\<lambda>_ d. type_ready d) failed"
  using its
proof (induction its)
  case Nil
  then show ?case by (auto intro!: hoare_sret)
next
  case (Cons it its)
  from Cons.prems obtain r o1 where it: "unpack2 it = Inr (VStr r, o1)" "text_val o1"
    by (auto simp: addition_ok_def unpack2_def)
  have ex: "hoare type_ready (expand_with I get (VStr r) None) (\<lambda>x s. (\<exists>w. x = VStr w) \<and> type_ready s) failed"
  proof (rule hoare_weaken [OF ready_hoare [OF t kn.expand_keeps [OF text_readerD(2) [OF get]]
          expand_text [OF t text_readerD(1) [OF get], folded failed_def]]])
    show "text_val (VStr r)" by (simp add: text_val_def)
  qed (auto simp: text_val_def)
  have words: "hoare type_ready (if m then sbind (expand_with I get (VStr r) None) (\<lambda>v. sres (\<lambda>_. dval_words v)) else sret [])
      (\<lambda>_. type_ready) failed" for m
  proof (cases m)
    case True
    have "hoare (\<lambda>s. (\<exists>w. x = VStr w) \<and> type_ready s) (sres (\<lambda>_. dval_words x)) (\<lambda>_. type_ready) failed" for x
      by (auto simp: hoare_def sres_def)
    from hoare_sbind [OF ex this] True show ?thesis by simp
  qed (auto intro!: hoare_sret)
  have rest: "hoare type_ready (sbind (removed_words I get its) (\<lambda>vs. sret (ws @ vs))) (\<lambda>_. type_ready) failed" for ws
    by (rule hoare_sbind [OF Cons.IH]) (use Cons.prems in \<open>auto intro!: hoare_sret\<close>)
  have "hoare type_ready (sbind (sres (\<lambda>d. addition_applies (ds_overrides d) o1)) (\<lambda>m.
     sbind (if m then sbind (expand_with I get (VStr r) None) (\<lambda>v. sres (\<lambda>_. dval_words v)) else sret []) (\<lambda>ws.
     sbind (removed_words I get its) (\<lambda>vs. sret (ws @ vs))))) (\<lambda>_. type_ready) failed"
  proof (rule hoare_sres_bind)
    show "hoare (\<lambda>s. type_ready s \<and> addition_applies (ds_overrides s) o1 = Inr m)
      (sbind (if m then sbind (expand_with I get (VStr r) None) (\<lambda>v. sres (\<lambda>_. dval_words v)) else sret []) (\<lambda>ws.
       sbind (removed_words I get its) (\<lambda>vs. sret (ws @ vs)))) (\<lambda>_. type_ready) failed" for m
      by (rule hoare_pre [OF hoare_sbind [OF words rest]]) simp
    fix s e
    assume "type_ready s" "addition_applies (ds_overrides s) o1 = Inl e"
    with it(2) show "failed e s"
      by (auto simp: addition_applies_def type_ready_def text_val_def split: if_splits)
  qed
  with it(1) show ?case by (simp add: sbind_def sres_def hoare_def)
qed

lemma removals_text:
  assumes t: "tame I" and get: "text_reader I get" and its: "additions_ok its" and v: "text_val v" "v \<noteq> VNone"
  shows "reads_text (removals I get var e its v)"
proof -
  from its obtain xs where xs: "its = VList xs" "list_all addition_ok xs" by (auto simp: additions_ok_def)
  from v obtain s where s: "v = VStr s" by (auto simp: text_val_def)
  have 1: "hoare type_ready (removed_words I get xs) (\<lambda>_. well_typed) failed"
    by (rule hoare_weaken [OF removed_words_ok [OF t get xs(2)]]) (auto simp: ready_wt)
  have 2: "hoare well_typed (sbind (sres (\<lambda>_. dval_words v)) (\<lambda>ws.
      let new = VStr (join '' '' (filter (\<lambda>w. w \<notin> set rem) ws))
      in sbind (supd (\<lambda>d. case map_of (expand_cache d) var of
          Some p \<Rightarrow> if e then d\<lparr>expand_cache := dset var (p\<lparr>vp_value := new\<rparr>) (expand_cache d)\<rparr> else d
        | None \<Rightarrow> d)) (\<lambda>_. sret new))) (\<lambda>v s. well_typed s \<and> text_val v) failed" for rem
    by (auto simp: s hoare_def sbind_def sres_def supd_def sret_def Let_def text_val_def well_typed_cache
        split: option.split)
  show ?thesis
    unfolding reads_text_hoare removals_def xs(1) dval_items.simps
  proof (rule hoare_sbind [OF need_overrides_ok [OF t get]], rule hoare_sres_bind)
    fix ys
    show "hoare (\<lambda>s. type_ready s \<and> Inr xs = Inr ys) (sbind (removed_words I get ys) (\<lambda>rem.
     sbind (sres (\<lambda>_. dval_words v)) (\<lambda>ws.
     let new = VStr (join '' '' (filter (\<lambda>w. w \<notin> set rem) ws))
     in sbind (supd (\<lambda>d. case map_of (expand_cache d) var of
          None \<Rightarrow> d | Some p \<Rightarrow> if e then d\<lparr>expand_cache := dset var (p\<lparr>vp_value := new\<rparr>) (expand_cache d)\<rparr> else d))
        (\<lambda>_. sret new)))) (\<lambda>v s. well_typed s \<and> text_val v) failed"
    proof (cases "ys = xs")
      case True
      show ?thesis unfolding True by (rule hoare_pre [OF hoare_sbind [OF 1 2]]) simp
    qed (auto simp: hoare_def)
  qed auto
qed

lemma get_flag_with_text:
  assumes t: "tame I" and get: "text_reader I get" and var: "var \<noteq> exportlist"
  shows "reads_text (get_flag_with I get var ''_content'' e nw p)"
  unfolding reads_text_hoare get_flag_with_def
proof (rule hoare_sget_bind, rule hoare_fact)
  fix lv s assume lv': "well_typed s \<and> lv = findVar s var"
  then have lv: "flags_ok var lv" using well_typed_flags by auto
  have fin: "reads_text (case lv of None \<Rightarrow> sret v
     | Some fs \<Rightarrow> (case map_of fs ''_remove'' of None \<Rightarrow> sret v
         | Some its \<Rightarrow> if dval_true v \<and> ''_content'' = ''_content'' then removals I get var e its v else sret v))"
    if "text_val v" for v
  proof -
    have kw: "''_remove'' \<in> set setvar_keywords" by (simp add: setvar_keywords_def)
    have rem: "reads_text (removals I get var e its v)" if "lv = Some fs" "map_of fs ''_remove'' = Some its" "dval_true v" for fs its
    proof (rule removals_text [OF t get])
      show "additions_ok its" using flags_additions [OF _ that(2) kw] lv that(1) by blast
      show "v \<noteq> VNone" using that(3) by auto
    qed (rule \<open>text_val v\<close>)
    show ?thesis using rem reads_text_sret [OF that] by (auto split: option.split)
  qed
  have exp: "reads_text (if e \<and> dval_true v then expand_with I get v (Some (flag_cache_name var ''_content'')) else sret v)"
    if "text_val v" for v
    using hoare_weaken [OF expand_text [OF t text_readerD(1) [OF get] that]] reads_text_sret [OF that]
    by (auto simp: reads_text_def)
  have "reads_text (sbind (read_stored get var ''_content'' nw p lv) (\<lambda>value.
     sbind (read_additions get ''_content'' p lv value) (\<lambda>value.
     sbind (if e \<and> dval_true value then expand_with I get value (Some (flag_cache_name var ''_content'')) else sret value) (\<lambda>value.
     case lv of None \<Rightarrow> sret value
     | Some fs \<Rightarrow> (case map_of fs ''_remove'' of None \<Rightarrow> sret value
         | Some its \<Rightarrow> if dval_true value \<and> ''_content'' = ''_content'' then removals I get var e its value
                       else sret value)))))"
    by (intro reads_text_bind read_stored_text [OF t get lv var] read_additions_text [OF t get lv] exp fin)
  then show "hoare (\<lambda>s. well_typed s \<and> lv = findVar s var) (sbind (read_stored get var ''_content'' nw p lv) (\<lambda>value.
     sbind (read_additions get ''_content'' p lv value) (\<lambda>value.
     sbind (if e \<and> dval_true value then expand_with I get value (Some (flag_cache_name var ''_content'')) else sret value) (\<lambda>value.
     case lv of None \<Rightarrow> sret value
     | Some fs \<Rightarrow> (case map_of fs ''_remove'' of None \<Rightarrow> sret value
         | Some its \<Rightarrow> if dval_true value \<and> ''_content'' = ''_content'' then removals I get var e its value
                       else sret value))))) (\<lambda>v s. well_typed s \<and> text_val v) failed"
    unfolding reads_text_hoare by (rule hoare_pre) simp
qed

lemma get_flag_text:
  assumes t: "tame I"
  shows "var \<noteq> exportlist \<Longrightarrow> reads_text (get_flag I n var ''_content'' e nw p)"
proof (induction n arbitrary: var e nw p)
  case 0
  show ?case by (simp add: get_flag.simps reads_text_def hoare_def sraise_def)
next
  case (Suc n)
  have "text_reader I (\<lambda>v f e. get_flag I n v f e False False)"
    using Suc.IH by (simp add: text_reader_def wt.keeping_reader_def kn.keeping_reader_def en.keeping_reader_def
        wt.get_flag_keeps kn.get_flag_keeps en.get_flag_keeps)
  from get_flag_with_text [OF t this Suc.prems] show ?case by (simp add: get_flag.simps)
qed

section \<open>Writing\<close>

interpretation ws: state_preorder "\<lambda>s t. stored_types s \<longrightarrow> stored_types t"
  by unfold_locales auto

lemma ws_reads: "tame I \<Longrightarrow> ty.rd.keeps I m \<Longrightarrow> ws.keeps m"
  by (simp add: ws.keeps_def ty.rd.keeps_def stored_if_tame_def)

lemmas ws_read_methods = ws_reads [OF _ ty.reads_keep(1)] ws_reads [OF _ ty.reads_keep(2)]
  ws_reads [OF _ ty.reads_keep(3)] ws_reads [OF _ ty.reads_keep(4)]

lemma ws_state: "(\<And>d. stored_types d \<Longrightarrow> stored_types (snd (m d))) \<Longrightarrow> ws.keeps m"
  by (simp add: ws.keeps_def)

lemma ws_clear: "ws.keeps clear_cache"
  unfolding clear_cache_def by (rule ws.update) simp

lemma entries_ok_fold:
  assumes "var \<noteq> exportlist" "flag_entries_ok od"
  shows "flag_entries_ok (fold (\<lambda>(short, o1) od. dset short (sadd (var, o1) (dget_or od short [])) od) sp od)"
  using assms(2)
proof (induction sp arbitrary: od)
  case Nil
  then show ?case by simp
next
  case (Cons e sp)
  obtain a b where e: "e = (a, b)" by force
  have "flag_entries_ok (dset a (sadd (var, b) (dget_or od a [])) od)"
  proof -
    have "exportlist \<notin> fst ` set (dget_or od a [])"
      using Cons.prems by (cases "map_of od a") (auto simp: flag_entries_ok_def dget_or_def)
    then have "exportlist \<notin> fst ` set (sadd (var, b) (dget_or od a []))" using assms(1) by auto
    with Cons.prems show ?thesis by (auto simp: flag_entries_ok_def)
  qed
  with Cons.IH e show ?case by simp
qed

lemma entries_ok_forget:
  "flag_entries_ok od \<Longrightarrow> flag_entries_ok (fold (\<lambda>(short, o1) od. case map_of od short of None \<Rightarrow> od
         | Some rs \<Rightarrow> dset short (remove1 (var, o1) rs) od) sp od)"
proof (induction sp arbitrary: od)
  case (Cons e sp)
  obtain a b where e: "e = (a, b)" by force
  show ?case
  proof (cases "map_of od a")
    case (Some rs)
    with Cons.prems have "exportlist \<notin> fst ` set rs" by (auto simp: flag_entries_ok_def)
    then have "exportlist \<notin> fst ` set (remove1 (var, b) rs)" using set_remove1_subset [of "(var, b)" rs] by blast
    with Cons.prems have "flag_entries_ok (dset a (remove1 (var, b) rs) od)" by (auto simp: flag_entries_ok_def)
    with Cons.IH e Some show ?thesis by simp
  qed (use Cons e in simp)
qed simp

lemma stored_entries: "stored_types d \<Longrightarrow> flag_entries_ok (overridedata d)"
  by (simp add: stored_types_def)

lemma ws_update_overrides: "var \<noteq> exportlist \<Longrightarrow> ws.keeps (setvar_update_overrides var)"
  unfolding setvar_update_overrides_def by (rule ws.update) (simp add: entries_ok_fold stored_entries)

lemma ws_forget: "ws.keeps (forget_override var)"
  unfolding forget_override_def by (rule ws.update) (simp add: entries_ok_forget stored_entries)

lemma entries_ok_del: "flag_entries_ok od \<Longrightarrow> flag_entries_ok (del_key k od)"
  by (auto simp: flag_entries_ok_def)

lemma ws_names_of: "tame I \<Longrightarrow> ws.keeps (override_names I is)"
  by (induction I "is" rule: override_names.induct) (auto intro!: ws.rules ws_read_methods)

lemma ws_grow: "tame I \<Longrightarrow> ws.keeps (grow_overridevars I k new)"
  by (induction I k new rule: grow_overridevars.induct) (auto intro!: ws.rules ws_names_of ws.update)

lemma expandWithRefs_cached:
  "stored_types d \<Longrightarrow> map_of (expand_cache d) var = Some p \<Longrightarrow> \<exists>s. vp_value p = VStr s"
  by (auto simp: stored_types_def cache_typed_def)

lemma ws_update_overridevars: "tame I \<Longrightarrow> ws.keeps (setvar_update_overridevars I var v)"
proof -
  assume t: "tame I"
  have "stored_types (case map_of (expand_cache d) var of
         Some q \<Rightarrow> if q = p then d\<lparr>expand_cache := dset var (p\<lparr>vp_references := vp_names p\<rparr>) (expand_cache d)\<rparr> else d
       | None \<Rightarrow> d)" if "stored_types d" for d p
  proof (cases "map_of (expand_cache d) var")
    case (Some q)
    from expandWithRefs_cached [OF that Some] obtain s where "vp_value q = VStr s" ..
    then have "stored_types (d\<lparr>expand_cache := dset var (q\<lparr>vp_references := vp_names q\<rparr>) (expand_cache d)\<rparr>)"
      by (intro stored_types_cache [OF that, of _ s]) simp
    with Some that show ?thesis by (cases "q = p") simp_all
  qed (simp add: that)
  then show ?thesis
    unfolding setvar_update_overridevars_def internal_finalize_def
    by (intro ws.rules ws_read_methods [OF t] ws_grow [OF t] ws.update) auto
qed

text \<open>A flag of the right type.\<close>

lemma stored_put:
  assumes "stored_types d" "\<forall>f v. map_of fs f = Some v \<longrightarrow> flag_ok var f v"
  shows "stored_types (d\<lparr>ds_vars := dset var fs (ds_vars d)\<rparr>)"
  using assms unfolding stored_types_def typed_def table_put by (auto simp: cache_typed_def)

lemma ws_make_local: "ws.keeps (make_local var)"
proof (rule ws_state)
  fix d assume d: "stored_types d"
  from make_local_run [of var d] obtain d' where "make_local var d = (Inr (), d')" "table d' = table d"
    "overridedata d' = overridedata d" by auto
  moreover have "cache_typed d'"
  proof -
    have "expand_cache d' = expand_cache d \<or> expand_cache d' = []"
      using calculation(1) by (auto simp: make_local_def makeShadowCopy_def initVar_def sm_defs split: if_splits option.splits list.splits)
    with d show ?thesis by (auto simp: stored_types_def cache_typed_def)
  qed
  ultimately show "stored_types (snd (make_local var d))" using d by (simp add: stored_types_def typed_def)
qed

lemma ws_put_flag:
  assumes "flag_ok var flag v"
  shows "ws.keeps (put_flag var flag v)"
proof (rule ws_state)
  fix d assume d: "stored_types d"
  show "stored_types (snd (put_flag var flag v d))"
  proof (cases "map_of (ds_vars d) var")
    case (Some fs)
    then have "table d var = map_of fs" by (simp add: table_def local_find)
    with d have fs: "\<forall>f v. map_of fs f = Some v \<longrightarrow>
        flag_ok var f v" by (simp add: stored_types_def typed_def)
    then have "stored_types (d\<lparr>ds_vars := dset var (dset flag v fs) (ds_vars d)\<rparr>)"
      using assms by (intro stored_put [OF d]) auto
    with Some show ?thesis by (simp add: put_flag_def put_flags_def local_flags_def dget_def sm_defs)
  qed (use d in \<open>simp add: put_flag_def local_flags_def dget_def sm_defs\<close>)
qed

lemma ws_add_export: "ws.keeps (add_export var)"
proof -
  have ok: "flag_ok exportlist ''_content'' v" for v by (simp add: flag_ok_def setvar_keywords_def)
  have "add_export var = sbind (make_local exportlist) (\<lambda>_. sbind (sres (local_flags exportlist)) (\<lambda>fs.
     case map_of fs ''_content'' of
       None \<Rightarrow> sbind (sget (\<lambda>d. length (ds_sets d))) (\<lambda>n.
         sbind (supd (\<lambda>d. d\<lparr>ds_sets := ds_sets d @ [[var]]\<rparr>)) (\<lambda>_.
         put_flag exportlist ''_content'' (VRef n)))
     | Some (VRef n) \<Rightarrow> supd (\<lambda>d. d\<lparr>ds_sets := (ds_sets d)[n := sadd var (ds_sets d ! n)]\<rparr>)
     | Some (VSet xs) \<Rightarrow> put_flag exportlist ''_content'' (VSet (sadd var xs))
     | Some v \<Rightarrow> sraise AttributeError))"
    unfolding add_export_def make_local_def sbind_assoc ..
  then show ?thesis
    by (auto intro!: ws.rules ws_make_local ws_put_flag [OF ok] ws.update split: option.split dval.split)
qed

lemma ws_setVarFlag:
  "tame I \<Longrightarrow> flag_ok var flag v \<Longrightarrow> flag \<noteq> ''_defaultval'' \<or> var \<noteq> exportlist \<Longrightarrow> ws.keeps (setVarFlag I var flag v)"
  unfolding setVarFlag_def
  by (intro ws.rules ws_clear ws_make_local ws_put_flag ws_update_overrides ws_update_overridevars ws_add_export)
    auto

lemma ws_delVar: "ws.keeps (delVar var)"
  unfolding delVar_def put_flags_def
  by (intro ws.rules ws_clear ws_forget ws.update) (auto simp: stored_put entries_ok_del stored_entries)

lemma ws_case_prod: "(\<And>x y. ws.keeps (f x y)) \<Longrightarrow> ws.keeps (case z of (x, y) \<Rightarrow> f x y)"
  by (cases z) simp

lemma ws_drop_overrides: "tame I \<Longrightarrow> ws.keeps (drop_overrides I var)"
  unfolding drop_overrides_def
  by (intro ws.rules ws_read_methods ws_case_prod ws_delVar ws.update) (auto simp: entries_ok_del stored_entries)

lemma ws_drop_flags: "ws.keeps (sbind (sres (local_flags var)) (\<lambda>fs. put_flags var (del_key a fs)))"
proof (rule ws_state)
  fix d assume d: "stored_types d"
  show "stored_types (snd (sbind (sres (local_flags var)) (\<lambda>fs. put_flags var (del_key a fs)) d))"
  proof (cases "map_of (ds_vars d) var")
    case (Some fs)
    then have "table d var = map_of fs" by (simp add: table_def local_find)
    with d have "\<forall>f v. map_of fs f = Some v \<longrightarrow>
        flag_ok var f v" by (simp add: stored_types_def typed_def)
    then have "stored_types (d\<lparr>ds_vars := dset var (del_key a fs) (ds_vars d)\<rparr>)"
      by (intro stored_put [OF d]) auto
    with Some show ?thesis by (simp add: put_flags_def local_flags_def dget_def sm_defs)
  qed (use d in \<open>simp add: local_flags_def dget_def sm_defs\<close>)
qed

lemma drop_additions_twice:
  "drop_additions var d = sbind (sbind (sres (local_flags var)) (\<lambda>fs. put_flags var (del_key ''_append'' fs)))
     (\<lambda>_. sbind (sres (local_flags var)) (\<lambda>fs. put_flags var (del_key ''_prepend'' fs))) d"
  by (auto simp: drop_additions_def sbind_def sres_def local_flags_def dget_def put_flags_def supd_def dset_def
      update_conv' update_last split: option.split)

lemma ws_drop_additions: "ws.keeps (drop_additions var)"
  unfolding drop_additions_twice [abs_def] by (intro ws.sequence ws_drop_flags)

lemma ws_set_content:
  assumes "tame I" "var \<noteq> exportlist" "text_val v"
  shows "ws.keeps (set_content I var v p)"
proof -
  have "flag_ok var ''_content'' v" using assms(3) by (simp add: flag_ok_def setvar_keywords_def)
  then show ?thesis
    unfolding set_content_def using assms
    by (intro ws.rules ws_make_local ws_drop_additions ws_drop_overrides ws_update_overrides ws_put_flag
        ws_update_overridevars)
qed

text \<open>The list of an addition is extended by a well-typed pair.\<close>

lemma getVarFlag_keyword:
  assumes t: "tame I" and k: "keyword \<in> set setvar_keywords" and d: "stored_types d"
    and run: "getVarFlag I base keyword False False False d = (Inr l, d')"
  shows "l = VNone \<or> additions_ok l"
proof -
  have k': "keyword \<noteq> ''_content''" using k by (auto simp: setvar_keywords_def)
  obtain n where n: "py_depth I = Suc n"
    using run by (cases "py_depth I") (auto simp: getVarFlag_def get_flag.simps sraise_def)
  have "l = (case findVar d base of None \<Rightarrow> VNone | Some fs \<Rightarrow> copy_value d (stored_value fs keyword False))"
    using run k' unfolding getVarFlag_def n get_flag.simps get_flag_with_def read_stored_def read_additions_def
    by (auto simp: sm_defs split: option.splits)
  moreover have "stored_value fs keyword False = VNone \<or> additions_ok (stored_value fs keyword False)"
    if "findVar d base = Some fs" for fs
  proof (cases "map_of fs keyword")
    case None
    with k' show ?thesis by (simp add: stored_value_def)
  next
    case (Some v)
    with that d have "flag_ok base keyword v" by (auto simp: stored_types_def typed_def table_def)
    with Some k show ?thesis by (simp add: stored_value_def flag_ok_def)
  qed
  ultimately show ?thesis by (auto simp: copy_value_def additions_ok_def split: option.splits)
qed

lemma append1_ok:
  "l = VNone \<or> additions_ok l \<Longrightarrow> dval_append1 l (VList [VStr s, as_override add]) = Inr l' \<Longrightarrow> additions_ok l'"
  by (auto simp: dval_append1_def additions_ok_def addition_ok_def as_override_def text_val_def split: if_splits option.splits)

lemma ws_set_addition:
  assumes t: "tame I" and k: "keyword \<in> set setvar_keywords" and b: "base \<noteq> exportlist"
  shows "ws.keeps (set_addition I var base keyword add (VStr s))"
proof (rule ws_state)
  fix d assume d: "stored_types d"
  obtain r e where r: "getVarFlag I base keyword False False False d = (r, e)" by force
  have e: "stored_types e" using ws.keepsD [OF ws_read_methods(1) [OF t] r] d by simp
  show "stored_types (snd (set_addition I var base keyword add (VStr s) d))"
  proof (cases r)
    case (Inl x)
    with r e show ?thesis by (simp add: set_addition_def sbind_def)
  next
    case (Inr l)
    show ?thesis
    proof (cases "dval_append1 l (VList [VStr s, as_override add])")
      case (Inl x)
      with r e Inr show ?thesis by (simp add: set_addition_def sbind_def sres_def)
    next
      case l': (Inr l')
      from append1_ok [OF getVarFlag_keyword [OF t k d r [unfolded Inr]] l'] have "flag_ok base keyword l'"
        using k by (auto simp: flag_ok_def setvar_keywords_def)
      then have "ws.keeps (setVarFlag I base keyword l')" by (intro ws_setVarFlag t) (use b in auto)
      then have "ws.keeps (sbind (setVarFlag I base keyword l') (\<lambda>_.
        sbind (if underscored var then setvar_update_overrides base else sret ()) (\<lambda>_.
        sbind (sget (\<lambda>d. base \<in> set (overridevars d))) (\<lambda>b.
        if b then setvar_update_overridevars I var (VStr s) else sret ()))))"
        by (intro ws.rules ws_update_overrides ws_update_overridevars t b)
      with e r Inr l' show ?thesis by (simp add: set_addition_def sbind_def [of "getVarFlag _ _ _ _ _ _"]
            sbind_def [of "sres _"] sres_def ws.keeps_def)
    qed
  qed
qed

lemma keyword_found: "match_setvar var = Some (base, k, a) \<Longrightarrow> k \<in> set setvar_keywords"
proof -
  have "keyword_at s = Some (k', a') \<Longrightarrow> k' \<in> set setvar_keywords" for s k' a'
    by (auto simp: keyword_at_def find_Some_iff split: option.splits)
  then have "match_setvar_aux b s = Some (base, k, a) \<Longrightarrow> k \<in> set setvar_keywords" for b s
    by (induction b s rule: match_setvar_aux.induct) (auto split: option.splits if_splits)
  then show "match_setvar var = Some (base, k, a) \<Longrightarrow> k \<in> set setvar_keywords" by (simp add: match_setvar_def)
qed

text \<open>A name that does not write the set of exported variables.\<close>

definition settable :: "string \<Rightarrow> bool" where
  "settable var = (case match_setvar var of None \<Rightarrow> var \<noteq> exportlist | Some (base, k, a) \<Rightarrow> base \<noteq> exportlist)"

lemma ws_setVar: "tame I \<Longrightarrow> settable var \<Longrightarrow> ws.keeps (setVar I var (VStr s) p)"
  unfolding setVar_def
  by (intro ws.sequence ws_clear)
    (auto simp: settable_def text_val_def dest: keyword_found intro: ws_set_addition ws_set_content split: option.split)

lemma ws_delVarFlag: "ws.keeps (delVarFlag var flag)"
  unfolding delVarFlag_def by (intro ws.rules ws_clear ws_make_local ws_drop_flags)

lemma typed_find: "stored_types d \<Longrightarrow> findVar d var = Some fs \<Longrightarrow> map_of fs f = Some v \<Longrightarrow> flag_ok var f v"
  by (auto simp: stored_types_def typed_def table_def)

text \<open>The layers themselves, for what deletes an entry of the own dictionary.\<close>

lemma stored_copy: "stored_types d \<Longrightarrow> well_typed (createCopy d)"
  by (auto simp: well_typed_def stored_types_def typed_def table_copy cache_typed_def overrides_ready_def)
    (simp_all add: createCopy_def new_datastore_def)

text \<open>
  C19. The data store is well-typed: setting a variable to a string, deleting variables and
  flags, setting flags to values of their type and copying keep the types of what is stored,
  whether they return or raise; and reading a variable of a well-typed store returns a
  string or None, or raises because of its expansion, and leaves a well-typed store.
\<close>

theorem data_store_types:
  assumes "tame I"
  shows "(well_typed d \<longrightarrow> var \<noteq> exportlist \<longrightarrow> (case getVar I var e nw p d of
       (Inr v, d') \<Rightarrow> well_typed d' \<and> (v = VNone \<or> (\<exists>s. v = VStr s)) | (Inl x, d') \<Rightarrow> well_typed d' \<and> read_exc x)) \<and>
    (stored_types d \<longrightarrow> settable var \<longrightarrow>
        stored_types (snd (setVar I var (VStr s) p d))) \<and>
    (stored_types d \<longrightarrow> flag_ok var flag v \<longrightarrow>
        (flag \<noteq> ''_defaultval'' \<or> var \<noteq> exportlist) \<longrightarrow>
        stored_types (snd (setVarFlag I var flag v d))) \<and>
    (stored_types d \<longrightarrow>
        (stored_types (snd (delVar var d)) \<and> stored_types (snd (delVarFlag var flag d)) \<and>
       well_typed (createCopy d)))"
proof (intro conjI impI)
  show "well_typed d \<Longrightarrow> var \<noteq> exportlist \<Longrightarrow> (case getVar I var e nw p d of
      (Inr v, d') \<Rightarrow> well_typed d' \<and> (v = VNone \<or> (\<exists>s. v = VStr s)) | (Inl x, d') \<Rightarrow> well_typed d' \<and> read_exc x)"
    using get_flag_text [OF assms, of var "py_depth I" e nw p]
    by (auto simp: reads_text_def hoare_def getVar_def getVarFlag_def text_val_def split: prod.split sum.split)
  show "stored_types d \<Longrightarrow> settable var \<Longrightarrow> stored_types (snd (setVar I var (VStr s) p d))"
    using ws_setVar [OF assms] by (simp add: ws.keeps_def)
  show "stored_types d \<Longrightarrow> flag_ok var flag v \<Longrightarrow> flag \<noteq> ''_defaultval'' \<or> var \<noteq> exportlist \<Longrightarrow>
      stored_types (snd (setVarFlag I var flag v d))"
    using ws_setVarFlag [OF assms] by (simp add: ws.keeps_def)
  show "stored_types d \<Longrightarrow> stored_types (snd (delVar var d))" "stored_types d \<Longrightarrow> stored_types (snd (delVarFlag var flag d))"
      "stored_types d \<Longrightarrow> well_typed (createCopy d)"
    using ws_delVar ws_delVarFlag stored_copy by (simp_all add: ws.keeps_def)
qed

lemma tame_no_python: "tame (no_python r n)"
  by (simp add: tame_def quiet_no_python, simp add: no_python_def sraise_def)

lemma new_well_typed: "well_typed new_datastore"
  by (simp add: well_typed_def stored_types_def typed_def cache_typed_def overrides_ready_def flag_entries_ok_def
      new_datastore_def table_def findVar_def)

lemma data_store_types_witness:
  "let d = snd (setVar (no_python 5 9) ''A'' (VStr ''x'') False new_datastore)
   in case getVar (no_python 5 9) ''A'' True False False (createCopy d) of
      (Inr v, d') \<Rightarrow> well_typed d' \<and> (v = VNone \<or> (\<exists>s. v = VStr s)) | (Inl x, d') \<Rightarrow> well_typed d' \<and> read_exc x"
proof -
  have s: "settable ''A''" by code_simp
  from new_well_typed have "stored_types new_datastore" by (simp add: well_typed_def)
  note d = data_store_types [OF tame_no_python, THEN conjunct2, THEN conjunct1, rule_format, OF this s, of 5 9 "''x''" False]
  from data_store_types [OF tame_no_python, THEN conjunct2, THEN conjunct2, THEN conjunct2, rule_format, OF d] have c: "well_typed
    (createCopy (snd (setVar (no_python 5 9) ''A'' (VStr ''x'') False new_datastore)))" by blast
  have "''A'' \<noteq> exportlist" by (simp add: exportlist_def)
  from data_store_types [OF tame_no_python, THEN conjunct1, rule_format, OF c this] show ?thesis by (simp only: Let_def)
qed

end
