(* ===== verification/Data_Add_Facts.thy ===== *)
theory Data_Add_Facts
  imports Data_Type_Facts
begin

text \<open>
  What \<open>appendVar\<close> and \<open>prependVar\<close> do to the value that is read.
\<close>

section \<open>Reading a variable with additions\<close>

definition with_additions :: "(string list option \<Rightarrow> dval \<Rightarrow> dval \<Rightarrow> dval res) \<Rightarrow> string list \<Rightarrow> dval option \<Rightarrow>
    dval \<Rightarrow> dval res" where
  "with_additions app os its v = (case its of None \<Rightarrow> Inr v
     | Some l \<Rightarrow> rbind (dval_items l) (\<lambda>xs. rfold (app (Some os)) xs (or_empty_str v)))"

lemma additions_known:
  "overrides_known d os \<Longrightarrow> additions get app l v d =
    (rbind (dval_items l) (\<lambda>xs. rfold (app (Some os)) xs (or_empty_str v)), d)"
  unfolding additions_def
  by (subst sbind_run [where m = "need_overrides_with get", OF need_known])
    (auto simp: sbind_def sres_def overrides_known_def split: sum.split)

lemma get_with_additions:
  assumes k: "overrides_known d os" and o1: "map_of (overridedata d) var = None" and r: "table d var ''_remove'' = None"
  shows "get_flag_with I get var ''_content'' False nw False d =
    (rbind (with_additions apply_append os (table d var ''_append'') (copy_value d (stored_in (table d var) nw)))
      (with_additions apply_prepend os (table d var ''_prepend'')), d)"
proof (cases "findVar d var")
  case None
  then have "table d var = Map.empty" by (simp add: table_def)
  with None o1 show ?thesis
    by (simp add: get_flag_with_def read_stored_def read_additions_def sm_defs with_additions_def stored_in_def copy_value_def)
next
  case (Some fs)
  then have t: "table d var = map_of fs" by (simp add: table_def)
  have st: "read_stored get var ''_content'' nw False (Some fs) d = (Inr (copy_value d (stored_in (map_of fs) nw)), d)"
    using o1 stored_table [OF Some] t by (simp add: read_stored_def sm_defs)
  have case1: "(case its of None \<Rightarrow> sret v | Some l \<Rightarrow> additions get app l v) d = (with_additions app os its v, d)" for its app v
    by (cases its) (simp_all add: with_additions_def additions_known [OF k] sret_def)
  have ad: "read_additions get ''_content'' False (Some fs) v d =
    (rbind (with_additions apply_append os (map_of fs ''_append'') v) (with_additions apply_prepend os (map_of fs ''_prepend'')), d)"
    for v
    by (auto simp: read_additions_def sbind_def case1 split: sum.split)
  show ?thesis
    unfolding get_flag_with_def
    using Some st ad r t by (simp add: sbind_def sget_def sret_def split: sum.split)
qed

lemma rfold_last: "rfold f (xs @ [x]) a = rbind (rfold f xs a) (f x)"
  by (simp add: rfold_append) (auto simp: rbind_def split: sum.split)

lemma addition_applies_total: "text_val o1 \<Longrightarrow> os \<noteq> None \<Longrightarrow> \<exists>b. addition_applies os o1 = Inr b"
  by (cases "dval_true o1") (auto simp: addition_applies_def text_val_def)

text \<open>Additions to a string are put together in their order.\<close>

lemma append_shift:
  assumes "list_all addition_ok its" "os \<noteq> None"
  shows "\<exists>a. \<forall>t. rfold (apply_append os) its (VStr t) = Inr (VStr (t @ a))"
  using assms(1)
proof (induction its)
  case Nil
  then show ?case by (intro exI [of _ "[]"]) simp
next
  case (Cons it its)
  then obtain a where a: "\<forall>t. rfold (apply_append os) its (VStr t) = Inr (VStr (t @ a))" by auto
  from Cons.prems obtain r o1 where it: "it = VList [VStr r, o1]" "text_val o1" by (auto simp: addition_ok_def)
  with assms(2) obtain b where "addition_applies os o1 = Inr b" using addition_applies_total by blast
  with it have "apply_append os it (VStr t) = Inr (VStr (t @ (if b then r else [])))" for t
    by (simp add: apply_append_def unpack2_def)
  with a show ?case by (intro exI [of _ "(if b then r else []) @ a"]) simp
qed

lemma prepend_shift:
  assumes "list_all addition_ok its" "os \<noteq> None"
  shows "\<exists>a. \<forall>t. rfold (apply_prepend os) its (VStr t) = Inr (VStr (a @ t))"
  using assms(1)
proof (induction its)
  case Nil
  then show ?case by (intro exI [of _ "[]"]) simp
next
  case (Cons it its)
  then obtain a where a: "\<forall>t. rfold (apply_prepend os) its (VStr t) = Inr (VStr (a @ t))" by auto
  from Cons.prems obtain r o1 where it: "it = VList [VStr r, o1]" "text_val o1" by (auto simp: addition_ok_def)
  with assms(2) obtain b where "addition_applies os o1 = Inr b" using addition_applies_total by blast
  with it have "apply_prepend os it (VStr t) = Inr (VStr ((if b then r else []) @ t))" for t
    by (simp add: apply_prepend_def unpack2_def)
  with a show ?case by (intro exI [of _ "a @ (if b then r else [])"]) simp
qed

definition additions_opt :: "dval option \<Rightarrow> dval list" where
  "additions_opt its = (case its of Some (VList xs) \<Rightarrow> xs | _ \<Rightarrow> [])"

text \<open>The text of a variable from the lists of its additions.\<close>

definition text_with :: "string list \<Rightarrow> dval list \<Rightarrow> dval list \<Rightarrow> string \<Rightarrow> string" where
  "text_with os app pre s = (case rbind (rfold (apply_append (Some os)) app (VStr s))
     (rfold (apply_prepend (Some os)) pre) of Inr (VStr t) \<Rightarrow> t | _ \<Rightarrow> [])"

lemma text_with_run:
  "list_all addition_ok app \<Longrightarrow> list_all addition_ok pre \<Longrightarrow>
    rbind (rfold (apply_append (Some os)) app (VStr s)) (rfold (apply_prepend (Some os)) pre) = Inr (VStr (text_with os app pre s))"
  using append_shift [of app "Some os"] prepend_shift [of pre "Some os"] by (auto simp: text_with_def)

lemma text_with_append:
  assumes "list_all addition_ok app" "list_all addition_ok pre"
  shows "text_with os (app @ [VList [VStr v, VNone]]) pre s = text_with os app pre s @ v"
proof -
  from append_shift [OF assms(1), of "Some os"] obtain a where a: "\<forall>t. rfold (apply_append (Some os)) app (VStr t) = Inr (VStr (t @ a))" by auto
  from prepend_shift [OF assms(2), of "Some os"] obtain p where p: "\<forall>t. rfold (apply_prepend (Some os)) pre (VStr t) = Inr (VStr (p @ t))" by auto
  show ?thesis
    by (simp add: text_with_def rfold_last a p apply_append_def unpack2_def addition_applies_def)
qed

lemma text_with_prepend:
  assumes "list_all addition_ok app" "list_all addition_ok pre"
  shows "text_with os app (pre @ [VList [VStr v, VNone]]) s = v @ text_with os app pre s"
proof -
  from append_shift [OF assms(1), of "Some os"] obtain a where a: "\<forall>t. rfold (apply_append (Some os)) app (VStr t) = Inr (VStr (t @ a))" by auto
  from prepend_shift [OF assms(2), of "Some os"] obtain p where p: "\<forall>t. rfold (apply_prepend (Some os)) pre (VStr t) = Inr (VStr (p @ t))" by auto
  show ?thesis
    by (simp add: text_with_def rfold_last a p apply_prepend_def unpack2_def addition_applies_def)
qed

text \<open>A read of a variable with a string as its content, or with additions only.\<close>

definition content_str :: "(string \<Rightarrow> dval option) \<Rightarrow> string" where
  "content_str t = (case stored_in t False of VStr s \<Rightarrow> s | _ \<Rightarrow> [])"

lemma get_text_with:
  assumes k: "overrides_known d os" and o1: "map_of (overridedata d) var = None" and r: "table d var ''_remove'' = None"
    and st: "stored_types d" and var: "var \<noteq> exportlist"
    and set: "stored_in (table d var) False \<noteq> VNone \<or> table d var ''_append'' \<noteq> None \<or> table d var ''_prepend'' \<noteq> None"
  shows "get_flag_with I get var ''_content'' False False False d =
    (Inr (VStr (text_with os (additions_opt (table d var ''_append'')) (additions_opt (table d var ''_prepend''))
      (content_str (table d var)))), d)"
proof -
  have ok: "\<exists>xs. table d var f = Some (VList xs) \<and> list_all addition_ok xs" if "table d var f = Some l" "f \<in> {''_append'', ''_prepend''}" for f l
  proof -
    from that(2) have "f \<in> set setvar_keywords" by (auto simp: setvar_keywords_def)
    with st that(1) have "additions_ok l" by (auto simp: stored_types_def typed_def flag_ok_def)
    with that(1) show ?thesis by (auto simp: additions_ok_def)
  qed
  have fl: "flag_ok var f v" if "table d var f = Some v" for f v using st that by (simp add: stored_types_def typed_def)
  have tv: "text_val (stored_in (table d var) False)"
    using fl [of "''_content''"] fl [of "''_defaultval''"] var
    by (auto simp: stored_in_def flag_ok_def text_val_def split: option.split)
  have ora: "or_empty_str (stored_in (table d var) False) = VStr (content_str (table d var))"
    using tv by (auto simp: text_val_def or_empty_str_def content_str_def)
  have c: "copy_value d (stored_in (table d var) False) = stored_in (table d var) False" by (rule copy_text [OF tv])
  have ors: "or_empty_str (VStr x) = VStr x" for x by (simp add: or_empty_str_def)
  show ?thesis
  proof (cases "table d var ''_append''")
    case None
    show ?thesis
    proof (cases "table d var ''_prepend''")
      case None': None
      with set None tv have "stored_in (table d var) False = VStr (content_str (table d var))"
        by (auto simp: content_str_def text_val_def)
      with None None' show ?thesis
        by (simp add: copy_value_def get_with_additions [OF k o1 r] c with_additions_def additions_opt_def text_with_def)
    next
      case (Some l)
      from ok [OF Some] obtain xs where xs: "table d var ''_prepend'' = Some (VList xs)" "list_all addition_ok xs" by auto
      with None text_with_run [of "[]" xs os "content_str (table d var)"] ora show ?thesis
        by (simp add: get_with_additions [OF k o1 r] c with_additions_def additions_opt_def)
    qed
  next
    case (Some la)
    from ok [OF Some] obtain ys where ys: "table d var ''_append'' = Some (VList ys)" "list_all addition_ok ys" by auto
    from append_shift [OF ys(2), of "Some os"] obtain a where a: "\<forall>t. rfold (apply_append (Some os)) ys (VStr t) = Inr (VStr (t @ a))" by auto
    show ?thesis
    proof (cases "table d var ''_prepend''")
      case None
      with ys a ora show ?thesis
        by (simp add: get_with_additions [OF k o1 r] c with_additions_def additions_opt_def text_with_def)
    next
      case (Some l)
      from ok [OF Some] obtain xs where xs: "table d var ''_prepend'' = Some (VList xs)" "list_all addition_ok xs" by auto
      with ys a text_with_run [of ys xs os "content_str (table d var)"] ora show ?thesis
        by (simp add: get_with_additions [OF k o1 r] c with_additions_def additions_opt_def ors)
    qed
  qed
qed

section \<open>Appending and prepending\<close>

lemma stored_additions: "stored_types d \<Longrightarrow> f \<in> set setvar_keywords \<Longrightarrow> table d var f = Some v \<Longrightarrow> additions_ok v"
  unfolding stored_types_def typed_def flag_ok_def by blast

text \<open>The list of additions of a store.\<close>

lemma getVarFlag_plain:
  assumes "0 < py_depth I" "flag \<noteq> ''_content''"
  shows "getVarFlag I var flag False False False d =
    (Inr (case table d var flag of None \<Rightarrow> VNone | Some v \<Rightarrow> copy_value d v), d)"
proof -
  from assms(1) obtain n where n: "py_depth I = Suc n" by (cases "py_depth I") auto
  show ?thesis
    using assms(2) unfolding getVarFlag_def n get_flag.simps get_flag_with_def read_stored_def read_additions_def
    by (auto simp: sm_defs table_def stored_value_def copy_value_def split: option.splits)
qed

definition more_additions :: "datastore \<Rightarrow> string \<Rightarrow> string \<Rightarrow> string \<Rightarrow> dval list" where
  "more_additions d var keyword v = additions_opt (table d var keyword) @ [VList [VStr v, VNone]]"

lemma set_addition_run:
  assumes d: "stored_types d" and k: "keyword \<in> set setvar_keywords" and n: "0 < py_depth I"
    and o1: "var \<notin> set (overridevars d)" and m: "match_setvar name = Some (var, keyword, None)"
  shows "\<exists>d'. setVar I name (VStr v) True d = (Inr (), d') \<and>
    table d' = (table d)(var := (table d var)(keyword \<mapsto> VList (more_additions d var keyword v))) \<and>
    ds_overrides d' = ds_overrides d \<and> overridesset d' = overridesset d \<and>
    map_of (overridedata d') var = map_of (overridedata d) var"
proof -
  define c where "c = d\<lparr>expand_cache := []\<rparr>"
  have k': "keyword \<noteq> ''_content''" "keyword \<noteq> ''_defaultval''" "keyword \<noteq> ''export''" "keyword \<noteq> ''unexport''"
    using k by (auto simp: setvar_keywords_def)
  have tc: "table c = table d" by (simp add: c_def)
  define l where "l = (case table d var keyword of None \<Rightarrow> VNone | Some v \<Rightarrow> copy_value c v)"
  have l: "getVarFlag I var keyword False False False c = (Inr l, c)"
    using getVarFlag_plain [OF n k'(1), of var c] by (simp add: tc l_def)
  have ok: "table d var keyword = None \<or> (\<exists>xs. table d var keyword = Some (VList xs))"
    using stored_additions [OF d k] by (cases "table d var keyword") (auto simp: additions_ok_def)
  then have new: "dval_append1 l (VList [VStr v, as_override None]) = Inr (VList (more_additions d var keyword v))"
    by (auto simp: l_def dval_append1_def as_override_def more_additions_def additions_opt_def copy_value_def)
  define w where "w = VList (more_additions d var keyword v)"
  from write_flag_run [of var keyword w c] obtain e where
    e: "sbind (make_local var) (\<lambda>_. put_flag var keyword w) c = (Inr (), e)"
      "table e = (table d)(var := (table d var)(keyword \<mapsto> w))" "overridedata e = overridedata d"
      "overridevars e = overridevars d" "ds_overrides e = ds_overrides d" "overridesset e = overridesset d"
    by (auto simp: c_def)
  have cc: "clear_cache c = (Inr (), c)" "clear_cache d = (Inr (), c)" by (simp_all add: c_def clear_cache_def supd_def)
  have svf: "setVarFlag I var keyword w c = (Inr (), e)"
    unfolding setVarFlag_def sbind_run [where m = clear_cache, OF cc(1)]
      sbind_assoc [symmetric, of "make_local var"]
      sbind_run [where m = "sbind (make_local var) (\<lambda>_. put_flag var keyword w)", OF e(1)]
    using k' by (simp add: sbind_def sret_def sget_def)
  obtain f where f: "(if underscored name then setvar_update_overrides var else sret ()) e = (Inr (), f)"
    "table f = table e" "map_of (overridedata f) var = map_of (overridedata e) var" "overridevars f = overridevars e"
    "ds_overrides f = ds_overrides e" "overridesset f = overridesset e"
    using update_overrides_run [of var e] by (cases "underscored name") (auto simp: sret_def)
  have "setVar I name (VStr v) True d = set_addition I name var keyword None (VStr v) c"
    unfolding setVar_def sbind_run [where m = clear_cache, OF cc(2)] by (simp add: m)
  also have "\<dots> = (Inr (), f)"
    unfolding set_addition_def sbind_run [where m = "getVarFlag I var keyword False False False", OF l]
    using new svf f(1,4) e(4) o1 by (simp add: sbind_def sres_def w_def [symmetric] sget_def sret_def)
  finally show ?thesis using e f by (auto simp: w_def)
qed

lemma addition_result:
  assumes t: "tame I" and d: "stored_types d" and n: "0 < py_depth I"
    and o1: "var \<notin> set (overridevars d)" and m: "match_setvar name = Some (var, keyword, None)"
    and kw: "keyword = ''_append'' \<or> keyword = ''_prepend''"
    and k: "overrides_known d os" and od: "map_of (overridedata d) var = None" and rem: "table d var ''_remove'' = None"
    and var: "var \<noteq> exportlist" and x: "getVar I var False False False d = (Inr x, d)"
  shows "\<exists>d'. setVar I name (VStr v) True d = (Inr (), d') \<and>
    fst (getVar I var False False False d') =
      (if keyword = ''_append'' then dval_add (or_empty_str x) (VStr v) else dval_add (VStr v) (or_empty_str x))"
proof -
  have kws: "keyword \<in> set setvar_keywords" using kw by (auto simp: setvar_keywords_def)
  from set_addition_run [OF d kws n o1 m] obtain d' where d': "setVar I name (VStr v) True d = (Inr (), d')"
    "table d' = (table d)(var := (table d var)(keyword \<mapsto> VList (more_additions d var keyword v)))"
    "ds_overrides d' = ds_overrides d" "overridesset d' = overridesset d"
    "map_of (overridedata d') var = map_of (overridedata d) var" by blast
  have sn: "settable name" using m var by (simp add: settable_def)
  have st': "stored_types d'" using ws.keepsD [OF ws_setVar [OF t sn] d'(1)] d by simp
  from n obtain i where i: "py_depth I = Suc i" by (cases "py_depth I") auto
  define app where "app = additions_opt (table d var ''_append'')"
  define pre where "pre = additions_opt (table d var ''_prepend'')"
  have okl: "list_all addition_ok (additions_opt (table d var f))" if "f \<in> set setvar_keywords" for f
    using stored_additions [OF d that, where var = var]
    by (cases "table d var f") (fastforce simp: additions_ok_def additions_opt_def)+
  have ok: "list_all addition_ok app" "list_all addition_ok pre"
    unfolding app_def pre_def by (rule okl, simp add: setvar_keywords_def)+
  let ?s = "content_str (table d var)"
  have old: "or_empty_str x = VStr (text_with os app pre ?s)"
  proof (cases "stored_in (table d var) False \<noteq> VNone \<or> table d var ''_append'' \<noteq> None \<or> table d var ''_prepend'' \<noteq> None")
    case True
    from get_text_with [OF k od rem d var this] x have "x = VStr (text_with os app pre ?s)"
      by (simp add: getVar_def getVarFlag_def i get_flag.simps app_def pre_def)
    then show ?thesis by (simp add: or_empty_str_def)
  next
    case False
    then have "x = VNone"
      using x by (simp add: getVar_def getVarFlag_def i get_flag.simps get_with_additions [OF k od rem] with_additions_def
          copy_value_def)
    with False show ?thesis by (simp add: or_empty_str_def app_def pre_def additions_opt_def text_with_def content_str_def)
  qed
  have k': "overrides_known d' os" using k d'(3,4) by (simp add: overrides_known_def)
  have rem': "table d' var ''_remove'' = None" using d'(2) rem kw by auto
  have "table d' var ''_content'' = table d var ''_content''" "table d' var ''_defaultval'' = table d var ''_defaultval''"
    using d'(2) kw by auto
  then have si: "stored_in (table d' var) False = stored_in (table d var) False"
    by (simp add: stored_in_def split: option.split)
  then have cs: "content_str (table d' var) = ?s" by (simp add: content_str_def)
  have set': "stored_in (table d' var) False \<noteq> VNone \<or> table d' var ''_append'' \<noteq> None \<or> table d' var ''_prepend'' \<noteq> None"
    using d'(2) kw by auto
  have new: "fst (getVar I var False False False d') = Inr (VStr (text_with os
      (additions_opt (table d' var ''_append'')) (additions_opt (table d' var ''_prepend'')) ?s))"
    using get_text_with [OF k' _ rem' st' var set'] d'(5) od
    by (simp add: getVar_def getVarFlag_def i get_flag.simps cs)
  show ?thesis
  proof (cases "keyword = ''_append''")
    case True
    then have "additions_opt (table d' var ''_append'') = app @ [VList [VStr v, VNone]]"
      "additions_opt (table d' var ''_prepend'') = pre"
      using d'(2) by (simp_all add: more_additions_def app_def pre_def additions_opt_def)
    with new True old d'(1) text_with_append [OF ok] show ?thesis by simp
  next
    case False
    with kw have f: "keyword = ''_prepend''" by simp
    then have "additions_opt (table d' var ''_append'') = app"
      "additions_opt (table d' var ''_prepend'') = pre @ [VList [VStr v, VNone]]"
      using d'(2) by (simp_all add: more_additions_def app_def pre_def additions_opt_def)
    with new f old d'(1) text_with_prepend [OF ok] show ?thesis by simp
  qed
qed

text \<open>
  C17. Appending and prepending add to what is read without expansion.  For a variable of a
  well-typed store that has no overrides, from which no words are removed (\<open>_remove\<close>), which the
  overrides do not depend on, and which is not the list of exports, while the overrides are known:
  after \<open>appendVar\<close> it reads as its old value, or the empty string, followed by the new text, and
  after \<open>prependVar\<close> as the new text followed by the old value, whatever additions it had.  The name with the keyword must be
  parsed as such, and the Python code in values leaves stores well-typed and their variables alone.
\<close>

theorem append_prepend_read:
  assumes "tame I" and "stored_types d" and "0 < py_depth I" and "var \<notin> set (overridevars d)" and "var \<noteq> exportlist"
    and "overrides_known d os" and "map_of (overridedata d) var = None" and "table d var ''_remove'' = None"
    and "getVar I var False False False d = (Inr x, d)"
  shows "(match_setvar (var @ ''_append'') = Some (var, ''_append'', None) \<longrightarrow>
      (\<exists>d'. appendVar I var (VStr v) d = (Inr (), d') \<and>
       fst (getVar I var False False False d') = dval_add (or_empty_str x) (VStr v))) \<and>
    (match_setvar (var @ ''_prepend'') = Some (var, ''_prepend'', None) \<longrightarrow>
        (\<exists>d'. prependVar I var (VStr v) d = (Inr (), d') \<and>
       fst (getVar I var False False False d') = dval_add (VStr v) (or_empty_str x)))"
proof (intro conjI impI)
  note r = addition_result [OF assms(1-4) _ _ assms(6-8,5,9)]
  show "match_setvar (var @ ''_append'') = Some (var, ''_append'', None) \<Longrightarrow>
      \<exists>d'. appendVar I var (VStr v) d = (Inr (), d') \<and>
        fst (getVar I var False False False d') = dval_add (or_empty_str x) (VStr v)"
    using r [of "var @ ''_append''" "''_append''" v] by (simp add: appendVar_def)
  show "match_setvar (var @ ''_prepend'') = Some (var, ''_prepend'', None) \<Longrightarrow>
      \<exists>d'. prependVar I var (VStr v) d = (Inr (), d') \<and>
        fst (getVar I var False False False d') = dval_add (VStr v) (or_empty_str x)"
    using r [of "var @ ''_prepend''" "''_prepend''" v] by (simp add: prependVar_def)
qed

definition add_example :: datastore where
  "add_example = new_datastore\<lparr>ds_vars := [(''A'', [(''_append'', VList [VList [VStr ''b'', VStr ''arm'']])])],
     ds_overrides := Some [''arm''], overridesset := [''arm'']\<rparr>"

lemma add_example_types: "stored_types add_example"
  by (auto simp: stored_types_def typed_def cache_typed_def flag_entries_ok_def add_example_def new_datastore_def table_def
      findVar_def flag_ok_def additions_ok_def addition_ok_def text_val_def setvar_keywords_def split: if_splits)

lemma append_prepend_read_witness:
  "\<exists>d'. appendVar (no_python 5 9) ''A'' (VStr ''c'') add_example = (Inr (), d') \<and>
     fst (getVar (no_python 5 9) ''A'' False False False d') = Inr (VStr ''bc'')"
proof -
  have "getVar (no_python 5 9) ''A'' False False False add_example = (Inr (VStr ''b''), add_example)"
    by code_simp
  moreover have "match_setvar (''A'' @ ''_append'') = Some (''A'', ''_append'', None)" by code_simp
  moreover have "overrides_known add_example [''arm'']" "map_of (overridedata add_example) ''A'' = None"
    "table add_example ''A'' ''_remove'' = None" "''A'' \<notin> set (overridevars add_example)" "''A'' \<noteq> exportlist"
    "0 < py_depth (no_python 5 9)"
    by (simp_all add: overrides_known_def add_example_def new_datastore_def table_def findVar_def exportlist_def no_python_def)
  ultimately show ?thesis
    using append_prepend_read [where I = "no_python 5 9" and d = add_example and var = "''A''" and x = "VStr ''b''"
        and v = "''c''" and os = "[''arm'']"] tame_no_python add_example_types by (simp add: or_empty_str_def)
qed

end
