(* ===== verification/Py_Regex.thy ===== *)
theory Py_Regex
  imports Py_Str
begin

text \<open>
  The module \<open>re\<close> of the standard library, as far as the expressions of the parser use it:
  a backtracking matcher with greedy and lazy repetition, named groups, references to groups
  and lookahead.  The matcher is in continuation-passing style: it tries the alternatives in
  the order \<open>re\<close> does and gives the first one after which the rest matches as well.

  The groups are an association list.  An iteration of a repetition has to consume at least
  one character; in every expression of the modelled code the repeated part does.
\<close>

section \<open>Expressions\<close>

datatype rx =
    One "char \<Rightarrow> bool"
  | Eps
  | Seq rx rx
  | Alt rx rx
  | Star bool rx
  | Group string rx
  | Back string
  | Ahead bool rx
  | End

type_synonym caps = "(string \<times> string) list"
type_synonym 'r matcher = "string \<Rightarrow> caps \<Rightarrow> (string \<Rightarrow> caps \<Rightarrow> 'r option) \<Rightarrow> 'r option"

definition or_else :: "'r option \<Rightarrow> 'r option \<Rightarrow> 'r option" where
  "or_else a b = (case a of None \<Rightarrow> b | Some r \<Rightarrow> Some r)"

lemma or_else_simps [simp]: "or_else None b = b" "or_else (Some r) b = Some r" "or_else a None = a"
  by (simp_all add: or_else_def split: option.split)

fun star_loop :: "bool \<Rightarrow> 'r matcher \<Rightarrow> nat \<Rightarrow> 'r matcher" where
  "star_loop greedy m 0 s g k = k s g"
| "star_loop greedy m (Suc n) s g k =
     (let more = (\<lambda>_. m s g (\<lambda>s' g'. if length s' < length s then star_loop greedy m n s' g' k else None))
      in if greedy then or_else (more ()) (k s g) else or_else (k s g) (more ()))"

definition at_eol :: "string \<Rightarrow> bool" where
  "at_eol s = (s = [] \<or> s = [CHR 0x0A])"

primrec rx_run :: "rx \<Rightarrow> (string \<times> caps) matcher" where
  "rx_run (One p) = (\<lambda>s g k. case s of [] \<Rightarrow> None | c # t \<Rightarrow> if p c then k t g else None)"
| "rx_run Eps = (\<lambda>s g k. k s g)"
| "rx_run (Seq a b) = (\<lambda>s g k. rx_run a s g (\<lambda>s' g'. rx_run b s' g' k))"
| "rx_run (Alt a b) = (\<lambda>s g k. or_else (rx_run a s g k) (rx_run b s g k))"
| "rx_run (Star greedy a) = (\<lambda>s g k. star_loop greedy (rx_run a) (length s) s g k)"
| "rx_run (Group x a) = (\<lambda>s g k. rx_run a s g (\<lambda>s' g'. k s' (dset x (take (length s - length s') s) g')))"
| "rx_run (Back x) = (\<lambda>s g k. case map_of g x of None \<Rightarrow> None
     | Some w \<Rightarrow> if startswith s w then k (drop (length w) s) g else None)"
| "rx_run (Ahead positive a) = (\<lambda>s g k. case rx_run a s g (\<lambda>s' g'. Some (s', g')) of
       None \<Rightarrow> if positive then None else k s g
     | Some (s', g') \<Rightarrow> if positive then k s g' else None)"
| "rx_run End = (\<lambda>s g k. if at_eol s then k s g else None)"

text \<open>\<open>pattern.match(s)\<close>: the groups of the match at the beginning of the string.\<close>

definition rx_match :: "rx \<Rightarrow> string \<Rightarrow> caps option" where
  "rx_match a s = map_option snd (rx_run a s [] (\<lambda>s' g'. Some (s', g')))"

text \<open>\<open>m.group(x)\<close> and \<open>m.groupdict()\<close>; a group that took no part is \<open>None\<close>.\<close>

definition group :: "caps \<Rightarrow> string \<Rightarrow> string option" where
  "group g x = map_of g x"

definition groupdict :: "string list \<Rightarrow> caps \<Rightarrow> (string \<times> string option) list" where
  "groupdict names g = map (\<lambda>x. (x, map_of g x)) names"

section \<open>Abbreviated expressions\<close>

fun rx_seq :: "rx list \<Rightarrow> rx" where
  "rx_seq [] = Eps"
| "rx_seq [a] = a"
| "rx_seq (a # as) = Seq a (rx_seq as)"

fun rx_alt :: "rx list \<Rightarrow> rx" where
  "rx_alt [] = Eps"
| "rx_alt [a] = a"
| "rx_alt (a # as) = Alt a (rx_alt as)"

definition Chars :: "string \<Rightarrow> rx" where
  "Chars w = rx_seq (map (\<lambda>c. One (\<lambda>x. x = c)) w)"

definition Opt :: "rx \<Rightarrow> rx" where
  "Opt a = Alt a Eps"

definition Plus :: "bool \<Rightarrow> rx \<Rightarrow> rx" where
  "Plus greedy a = Seq a (Star greedy a)"

text \<open>The classes \<^verbatim>\<open>\s\<close>, \<^verbatim>\<open>\w\<close> and \<^verbatim>\<open>.\<close> below code point 256.\<close>

definition word_char :: "char \<Rightarrow> bool" where
  "word_char c = (let n = (of_char c :: nat) in is_letter c \<or> is_digit c \<or> c = CHR ''_'' \<or>
     n \<in> {170, 178, 179, 181, 185, 186, 188, 189, 190} \<or> (192 \<le> n \<and> n \<noteq> 215 \<and> n \<noteq> 247))"

definition any_char :: "char \<Rightarrow> bool" where
  "any_char c = (c \<noteq> CHR 0x0A)"

abbreviation "spaces \<equiv> Star True (One py_isspace)"

abbreviation "spaces1 \<equiv> Plus True (One py_isspace)"

section \<open>Facts\<close>

named_theorems rx "how the matcher runs"

lemma run_seq [rx]:
  "rx_run (rx_seq []) s g k = k s g"
  "rx_run (rx_seq (a # as)) s g k = rx_run a s g (\<lambda>s' g'. rx_run (rx_seq as) s' g' k)"
  by (cases as; simp)+

lemma run_alt [rx]:
  "rx_run (rx_alt [a]) s g k = rx_run a s g k"
  "rx_run (rx_alt (a # b # as)) s g k = or_else (rx_run a s g k) (rx_run (rx_alt (b # as)) s g k)"
  by simp_all

lemma run_lit [rx]: "rx_run (Chars w) s g k = (if startswith s w then k (drop (length w) s) g else None)"
proof (induction w arbitrary: s)
  case Nil
  then show ?case by (simp add: Chars_def)
next
  case (Cons c w)
  then show ?case
    by (cases s) (auto simp: Chars_def run_seq startswith_def)
qed

lemma run_opt [rx]: "rx_run (Opt a) s g k = or_else (rx_run a s g k) (k s g)"
  by (simp add: Opt_def)

lemma run_plus [rx]: "rx_run (Plus b a) s g k = rx_run a s g (\<lambda>s' g'. rx_run (Star b a) s' g' k)"
  by (simp add: Plus_def)

text \<open>The repetition of a class of characters.\<close>

fun run_class :: "bool \<Rightarrow> (char \<Rightarrow> bool) \<Rightarrow> string \<Rightarrow> caps \<Rightarrow> (string \<Rightarrow> caps \<Rightarrow> 'r option) \<Rightarrow> 'r option" where
  "run_class greedy p [] g k = k [] g"
| "run_class greedy p (c # t) g k = (if \<not> p c then k (c # t) g
     else if greedy then or_else (run_class greedy p t g k) (k (c # t) g)
     else or_else (k (c # t) g) (run_class greedy p t g k))"

lemma star_loop_class:
  "length s \<le> n \<Longrightarrow> star_loop greedy (rx_run (One p)) n s g k = run_class greedy p s g k"
proof (induction n arbitrary: s)
  case 0
  then show ?case by simp
next
  case (Suc n)
  then show ?case by (cases s) auto
qed

lemma run_star [rx]: "rx_run (Star b (One p)) s g k = run_class b p s g k"
  using star_loop_class [of s "length s" b p g k] by simp

declare rx_run.simps(5) [simp del]

text \<open>
  Success and failure of such a repetition: a greedy one takes the whole run of the class if
  the rest matches then, and it fails if no part of the run can be taken; a lazy one takes
  the shortest part after which the rest matches.
\<close>

definition ends_run :: "(char \<Rightarrow> bool) \<Rightarrow> string \<Rightarrow> bool" where
  "ends_run p t = (t = [] \<or> \<not> p (hd t))"

lemma run_greedy:
  assumes "\<forall>c \<in> set w. p c" and "ends_run p t" and "k t g = Some r"
  shows "run_class True p (w @ t) g k = Some r"
  using assms(1)
proof (induction w)
  case Nil
  from assms(2,3) show ?case by (cases t) (auto simp: ends_run_def)
next
  case (Cons c w)
  then show ?case by simp
qed

lemma run_greedy_back:
  assumes "\<forall>c \<in> set (v @ w). p c" and "k t' g = Some r" and "t' = w @ t" and "ends_run p t"
    and "\<And>a b. w = a @ b \<Longrightarrow> a \<noteq> [] \<Longrightarrow> k (b @ t) g = None"
  shows "run_class True p (v @ w @ t) g k = Some r"
proof -
  have none: "run_class True p (b @ t) g k = None" if "w = a @ b" "a \<noteq> []" for a b
    using that
  proof (induction b arbitrary: a)
    case Nil
    with assms(4) assms(5) [of a "[]"] show ?case by (cases t) (auto simp: ends_run_def)
  next
    case (Cons c b)
    have "run_class True p (b @ t) g k = None" using Cons.IH [of "a @ [c]"] Cons.prems by simp
    moreover have "k (c # b @ t) g = None" using assms(5) [of a "c # b"] Cons.prems by simp
    ultimately show ?case by simp
  qed
  have w: "run_class True p (w @ t) g k = Some r"
  proof (cases w)
    case Nil
    with assms(2,3,4) show ?thesis by (cases t) (auto simp: ends_run_def)
  next
    case (Cons c b)
    with none [of "[c]" b] assms(1,2,3) show ?thesis by simp
  qed
  show ?thesis
    using assms(1) w by (induction v) auto
qed

lemma run_fails:
  assumes "\<And>a b. s = a @ b \<Longrightarrow> \<forall>c \<in> set a. p c \<Longrightarrow> k b g = None"
  shows "run_class greedy p s g k = None"
  using assms
proof (induction s)
  case Nil
  then show ?case by simp
next
  case (Cons c s)
  have "k (c # s) g = None" using Cons.prems [of "[]"] by simp
  moreover have "run_class greedy p s g k = None" if "p c"
    using Cons.prems [of "c # a" for a] that by (intro Cons.IH) auto
  ultimately show ?case by auto
qed

lemma run_lazy:
  assumes "\<forall>c \<in> set w. p c" and "k t g = Some r" and "\<And>a b. w = a @ b \<Longrightarrow> b \<noteq> [] \<Longrightarrow> k (b @ t) g = None"
  shows "run_class False p (w @ t) g k = Some r"
  using assms
proof (induction w)
  case Nil
  then show ?case by (cases t) auto
next
  case (Cons c w)
  have "k ((c # w) @ t) g = None" using Cons.prems(3) [of "[]" "c # w"] by simp
  moreover have "run_class False p (w @ t) g k = Some r"
    using Cons.prems by (intro Cons.IH) (auto simp: Cons_eq_append_conv)
  ultimately show ?case using Cons.prems(1) by simp
qed

text \<open>If the rest cannot match before the run ends, the repetition takes exactly the run.\<close>

lemma run_exact:
  assumes "\<forall>c \<in> set w. p c" and "ends_run p t" and "\<And>a b. w = a @ b \<Longrightarrow> b \<noteq> [] \<Longrightarrow> k (b @ t) g = None"
  shows "run_class greedy p (w @ t) g k = k t g"
  using assms(1,3)
proof (induction w)
  case Nil
  from assms(2) show ?case by (cases t) (auto simp: ends_run_def)
next
  case (Cons c w)
  have "k ((c # w) @ t) g = None" using Cons.prems(2) [of "[]" "c # w"] by simp
  moreover have "run_class greedy p (w @ t) g k = k t g"
    using Cons.prems by (intro Cons.IH) (auto simp: Cons_eq_append_conv)
  ultimately show ?case using Cons.prems(1) by (cases greedy) auto
qed

end
