(* ===== verification/Parse_Lines.thy ===== *)
theory Parse_Lines
  imports Py_Regex
begin

text \<open>
  The syntax of the metadata: the line parsers of
  \<^verbatim>\<open>bitbake/lib/bb/parse/parse_py/ConfHandler.py\<close> and \<^verbatim>\<open>BBHandler.py\<close>, which turn
  the lines of a file into the statements of \<^verbatim>\<open>bitbake/lib/bb/parse/ast.py\<close>.

  The expressions are those of the source, written with the constructors of \<open>rx\<close>.  The
  globals of \<^verbatim>\<open>BBHandler.py\<close> that live from line to line are the record \<open>fstate\<close>; the
  state of a line parser is that record with the statements found so far.  A file is its
  text as \<^verbatim>\<open>open\<close> reads it.
\<close>

section \<open>Statements\<close>

type_synonym groupd = "(string \<times> string option) list"

datatype stmt =
    IncludeNode string int string bool
  | ExportNode string int string
  | UnsetNode string int string
  | UnsetFlagNode string int string string
  | DataNode string int groupd
  | MethodNode string int string "string list" bool bool
  | PythonMethodNode string int string string "string list"
  | ExportFuncsNode string int "string list" string
  | AddTaskNode string int string "string option" "string option"
  | DelTaskNode string int string
  | BBHandlerNode string int "string list"
  | InheritNode string int string

section \<open>Configuration lines\<close>

definition alnum :: "char \<Rightarrow> bool" where
  "alnum c = (is_letter c \<or> is_digit c)"

definition var_char :: "char \<Rightarrow> bool" where
  "var_char c = (alnum c \<or> c \<in> set ''-~_+.${}/'')"

definition flag_char :: "char \<Rightarrow> bool" where
  "flag_char c = (alnum c \<or> c \<in> set ''-_+.'')"

definition name_char :: "char \<Rightarrow> bool" where
  "name_char c = (alnum c \<or> c \<in> set ''-_+.${}/'')"

definition quote1 :: char where "quote1 = CHR 0x27"

definition quote2 :: char where "quote2 = CHR 0x22"

text \<open>Not followed by three quotes of the kind, the last of them at the end.\<close>

definition three_quotes :: "char \<Rightarrow> rx" where
  "three_quotes q = rx_seq [Chars [q], Star True (One (\<lambda>c. c \<noteq> q)), Chars [q], Star True (One (\<lambda>c. c \<noteq> q)),
     Chars [q], End]"

definition config_op :: rx where
  "config_op = rx_alt [Group ''colon'' (Chars '':=''), Group ''lazyques'' (Chars ''??=''), Group ''ques'' (Chars ''?=''),
     Group ''append'' (Chars ''+=''), Group ''prepend'' (Chars ''=+''), Group ''predot'' (Chars ''=.''),
     Group ''postdot'' (Chars ''.=''), Chars ''='']"

definition config_value :: rx where
  "config_value = rx_seq [Ahead False (three_quotes quote1), Ahead False (three_quotes quote2),
     Group ''apo'' (One (\<lambda>c. c = quote1 \<or> c = quote2)), Group ''value'' (Star True (One any_char)), Back ''apo'', End]"

definition config_rx :: rx where
  "config_rx = rx_seq [Opt (Group ''exp'' (rx_seq [Chars ''export'', spaces])),
     Group ''var'' (Plus False (One var_char)),
     Opt (rx_seq [Chars ''['', Group ''flag'' (Plus True (One flag_char)), Chars '']'']),
     spaces, config_op, spaces, config_value]"

definition config_names :: "string list" where
  "config_names = [''exp'', ''var'', ''flag'', ''colon'', ''lazyques'', ''ques'', ''append'', ''prepend'', ''predot'',
     ''postdot'', ''apo'', ''value'']"

definition include_rx :: rx where
  "include_rx = rx_seq [Chars ''include'', spaces1, Group ''1'' (Plus True (One any_char))]"

definition require_rx :: rx where
  "require_rx = rx_seq [Chars ''require'', spaces1, Group ''1'' (Plus True (One any_char))]"

definition export_rx :: rx where
  "export_rx = rx_seq [Chars ''export'', spaces1, Group ''1'' (Plus True (One name_char)), End]"

definition unset_rx :: rx where
  "unset_rx = rx_seq [Chars ''unset'', spaces1, Group ''1'' (Plus True (One name_char)), End]"

definition unset_flag_rx :: rx where
  "unset_flag_rx = rx_seq [Chars ''unset'', spaces1, Group ''1'' (Plus True (One name_char)), Chars ''['',
     Group ''2'' (Plus True (One name_char)), Chars '']'', End]"

text \<open>A group that every match has.\<close>

definition must :: "caps \<Rightarrow> string \<Rightarrow> string" where
  "must g x = (case group g x of Some w \<Rightarrow> w | None \<Rightarrow> [])"

text \<open>The statement of a line that is not empty and no comment.\<close>

definition conf_stmt :: "int \<Rightarrow> string \<Rightarrow> string \<Rightarrow> stmt res" where
  "conf_stmt lineno s fn =
     (case rx_match config_rx s of Some g \<Rightarrow> Inr (DataNode fn lineno (groupdict config_names g)) | None \<Rightarrow>
      case rx_match include_rx s of Some g \<Rightarrow> Inr (IncludeNode fn lineno (must g ''1'') False) | None \<Rightarrow>
      case rx_match require_rx s of Some g \<Rightarrow> Inr (IncludeNode fn lineno (must g ''1'') True) | None \<Rightarrow>
      case rx_match export_rx s of Some g \<Rightarrow> Inr (ExportNode fn lineno (must g ''1'')) | None \<Rightarrow>
      case rx_match unset_rx s of Some g \<Rightarrow> Inr (UnsetNode fn lineno (must g ''1'')) | None \<Rightarrow>
      case rx_match unset_flag_rx s of Some g \<Rightarrow> Inr (UnsetFlagNode fn lineno (must g ''1'') (must g ''2'')) | None \<Rightarrow>
      Inl (ParseError (''unparsed line: '' @ [quote1] @ s @ [quote1])))"

definition conf_feeder :: "int \<Rightarrow> string \<Rightarrow> string \<Rightarrow> stmt list \<Rightarrow> stmt list res" where
  "conf_feeder lineno s fn statements = rbind (conf_stmt lineno s fn) (\<lambda>x. Inr (statements @ [x]))"

section \<open>Configuration files\<close>

text \<open>\<open>f.readline()\<close>: the line with its end, and what is left of the file.\<close>

definition readline :: "string \<Rightarrow> string \<times> string" where
  "readline input = (let w = takeWhile (\<lambda>c. c \<noteq> CHR 0x0A) input; n = Suc (length w)
     in (take n input, drop n input))"

definition rstrip :: "string \<Rightarrow> string" where
  "rstrip s = rev (dropWhile py_isspace (rev s))"

lemma length_rstrip: "length (rstrip s) \<le> length s"
  by (metis length_dropWhile_le length_rev rstrip_def)

lemma length_strip: "length (strip s) \<le> length s"
  by (metis (no_types) length_dropWhile_le length_rev order_trans strip_by_def strip_def)

lemma readline_length: "length (snd (readline input)) + length (fst (readline input)) = length input"
  by (simp add: readline_def Let_def)

lemma readline_shorter: "input \<noteq> [] \<Longrightarrow> length (snd (readline input)) < length input"
  by (cases input) (simp_all add: readline_def Let_def)

text \<open>
  The lines that a backslash continues.  Every line is joined to what is there without the
  backslash, stripped on both sides.
\<close>

function join_lines :: "string \<Rightarrow> int \<Rightarrow> string \<Rightarrow> (string \<times> int \<times> string) res" where
  "join_lines input lineno s =
     (if s = [] then Inl IndexError
      else if last s \<noteq> CHR 0x5C then Inr (input, lineno, s)
      else let s2 = strip (fst (readline input)) in
        if (s2 = [] \<or> hd s2 \<noteq> CHR ''#'') \<and> hd s = CHR ''#'' then Inl BBHandledException
        else join_lines (snd (readline input)) (lineno + 1) (butlast s @ s2))"
  by pat_completeness auto
termination
proof (relation "measure (\<lambda>(input, lineno, s). length input + length s)")
  fix t s x :: string and lineno :: int
  assume "s \<noteq> []" and x: "x = strip (fst (readline t))"
  moreover from x have "length x \<le> length (fst (readline t))" by (simp add: length_strip)
  ultimately show "((snd (readline t), lineno + 1, butlast s @ x), t, lineno, s)
      \<in> measure (\<lambda>(input, lineno, s). length input + length s)"
    using readline_length [of t] by (cases s) auto
qed simp

declare join_lines.simps [simp del]

lemma join_lines_rest: "join_lines input lineno s = Inr (input', lineno', s') \<Longrightarrow>
  length input' \<le> length input \<and> s' \<noteq> [] \<and> last s' \<noteq> CHR 0x5C"
proof (induction input lineno s rule: join_lines.induct)
  case (1 t lineno s)
  then show ?case
    using readline_length [of t]
    by (fastforce simp: join_lines.simps [of t lineno s] Let_def split: if_splits)
qed

function conf_lines :: "string \<Rightarrow> string \<Rightarrow> int \<Rightarrow> stmt list \<Rightarrow> stmt list res" where
  "conf_lines fn input lineno statements =
     (if input = [] then Inr statements
      else let s = fst (readline input); rest = snd (readline input) in
        if strip s = [] then conf_lines fn rest (lineno + 1) statements
        else case join_lines rest (lineno + 1) (rstrip s) of
          Inl e \<Rightarrow> Inl e
        | Inr (rest', lineno', s') \<Rightarrow>
            if hd s' = CHR ''#'' then conf_lines fn rest' lineno' statements
            else case conf_feeder lineno' s' fn statements of
              Inl e \<Rightarrow> Inl e
            | Inr statements' \<Rightarrow> conf_lines fn rest' lineno' statements')"
  by pat_completeness auto
termination
  by (relation "measure (\<lambda>(fn, input, lineno, statements). length input)")
    (auto simp: readline_shorter dest!: join_lines_rest intro: le_less_trans)

declare conf_lines.simps [simp del]

section \<open>Recipes and classes\<close>

text \<open>
  The globals of the parser: the shell or Python function whose body is being read (name,
  file, line, Python, fakeroot), the name of the \<^verbatim>\<open>def\<close> that is being read, the lines of
  the body, the beginning of a line that a backslash continues, and the class.
\<close>

record fstate =
  f_infunc :: "(string \<times> string \<times> int \<times> bool \<times> bool) option"
  f_inpython :: "string option"
  f_body :: "string list"
  f_residue :: "string list"
  f_classname :: string

definition func_char :: "char \<Rightarrow> bool" where
  "func_char c = (word_char c \<or> c \<in> set ''.-+{}$'')"

definition func_start_rx :: rx where
  "func_start_rx = rx_seq [Star True (rx_seq [Alt (Group ''py'' (Chars ''python'')) (Group ''fr'' (Chars ''fakeroot'')), spaces]),
     Opt (Group ''func'' (Plus True (One func_char))), spaces, Chars ''('', spaces, Chars '')'', spaces, Chars ''{'', End]"

definition inherit_rx :: rx where
  "inherit_rx = rx_seq [Chars ''inherit'', spaces1, Group ''1'' (Plus True (One any_char))]"

definition export_func_rx :: rx where
  "export_func_rx = rx_seq [Chars ''EXPORT_FUNCTIONS'', spaces1, Group ''1'' (Plus True (One any_char))]"

text \<open>Up to the last place where a word follows, or everything.\<close>

definition up_to :: "string \<Rightarrow> rx" where
  "up_to w = Alt (rx_seq [Star True (One any_char), Ahead True (Chars w)]) (Star True (One any_char))"

definition addtask_rx :: rx where
  "addtask_rx = rx_seq [Chars ''addtask'', spaces1, Group ''func'' (Plus True (One word_char)), spaces,
     Star True (Alt (rx_seq [Chars ''before'', spaces, Group ''before'' (up_to ''after'')])
                    (rx_seq [Chars ''after'', spaces, Group ''after'' (up_to ''before'')]))]"

definition deltask_rx :: rx where
  "deltask_rx = rx_seq [Chars ''deltask'', spaces1, Group ''func'' (Plus True (One word_char))]"

definition addhandler_rx :: rx where
  "addhandler_rx = rx_seq [Chars ''addhandler'', spaces1, Group ''1'' (Plus True (One any_char))]"

definition def_rx :: rx where
  "def_rx = rx_seq [Chars ''def'', spaces1, Group ''1'' (Plus True (One word_char)), Star True (One any_char), Chars '':'']"

definition python_func_rx :: rx where
  "python_func_rx = Alt (Seq spaces1 (Star True (One any_char))) End"

type_synonym 'a feed = "(fstate \<times> stmt list, 'a) sm"

definition upd_f :: "(fstate \<Rightarrow> fstate) \<Rightarrow> unit feed" where
  "upd_f f = supd (\<lambda>(fs, st). (f fs, st))"

definition get_f :: "(fstate \<Rightarrow> 'a) \<Rightarrow> 'a feed" where
  "get_f f = sget (\<lambda>(fs, st). f fs)"

definition add_stmt :: "stmt \<Rightarrow> unit feed" where
  "add_stmt x = supd (\<lambda>(fs, st). (fs, st @ [x]))"

text \<open>A line inside a function that ends with a closing brace.\<close>

definition feed_func :: "int \<Rightarrow> string \<Rightarrow> string \<Rightarrow> string \<times> string \<times> int \<times> bool \<times> bool \<Rightarrow> unit feed" where
  "feed_func lineno s fn f = (case f of (name, _, _, py, fr) \<Rightarrow>
     if s = ''}'' then
       sbind (upd_f (\<lambda>fs. fs\<lparr>f_body := f_body fs @ [[]]\<rparr>)) (\<lambda>_.
       sbind (get_f f_body) (\<lambda>body. sbind (add_stmt (MethodNode fn lineno name body py fr)) (\<lambda>_.
       upd_f (\<lambda>fs. fs\<lparr>f_infunc := None, f_body := []\<rparr>))))
     else upd_f (\<lambda>fs. fs\<lparr>f_body := f_body fs @ [s]\<rparr>))"

text \<open>\<open>__residue__[0][0]\<close>, if there is a residue.\<close>

definition residue_char :: "fstate \<Rightarrow> char option res" where
  "residue_char fs = (case f_residue fs of [] \<Rightarrow> Inr None | [] # rs \<Rightarrow> Inl IndexError | (c # r) # rs \<Rightarrow> Inr (Some c))"

definition hash :: char where "hash = CHR ''#''"

definition check_residue :: "string \<Rightarrow> unit feed" where
  "check_residue s = sbind (sres (\<lambda>(fs, st). residue_char fs)) (\<lambda>c.
     if s \<noteq> [] \<and> hd s = hash \<and> c \<noteq> None \<and> c \<noteq> Some hash then sraise BBHandledException
     else if c = Some hash \<and> (s = [] \<or> hd s \<noteq> hash) then sraise BBHandledException else sret ())"

text \<open>A complete line outside of functions.\<close>

definition line_stmt :: "int \<Rightarrow> string \<Rightarrow> string \<Rightarrow> unit feed" where
  "line_stmt lineno s fn =
     (case rx_match func_start_rx s of
        Some g \<Rightarrow> upd_f (\<lambda>fs. fs\<lparr>f_infunc := Some (case group g ''func'' of Some w \<Rightarrow> if w = [] then ''__anonymous'' else w
            | None \<Rightarrow> ''__anonymous'', fn, lineno, group g ''py'' \<noteq> None, group g ''fr'' \<noteq> None)\<rparr>)
      | None \<Rightarrow>
      case rx_match def_rx s of
        Some g \<Rightarrow> upd_f (\<lambda>fs. fs\<lparr>f_body := f_body fs @ [s], f_inpython := Some (must g ''1'')\<rparr>)
      | None \<Rightarrow>
      case rx_match export_func_rx s of
        Some g \<Rightarrow> sbind (get_f f_classname) (\<lambda>c. add_stmt (ExportFuncsNode fn lineno (split_ws (must g ''1'')) c))
      | None \<Rightarrow>
      case rx_match addtask_rx s of
        Some g \<Rightarrow> add_stmt (AddTaskNode fn lineno (must g ''func'') (group g ''before'') (group g ''after''))
      | None \<Rightarrow>
      case rx_match deltask_rx s of Some g \<Rightarrow> add_stmt (DelTaskNode fn lineno (must g ''func'')) | None \<Rightarrow>
      case rx_match addhandler_rx s of Some g \<Rightarrow> add_stmt (BBHandlerNode fn lineno (split_ws (must g ''1''))) | None \<Rightarrow>
      case rx_match inherit_rx s of Some g \<Rightarrow> add_stmt (InheritNode fn lineno (must g ''1'')) | None \<Rightarrow>
      sbind (sres (\<lambda>_. conf_stmt lineno s fn)) add_stmt)"

definition feed_line :: "int \<Rightarrow> string \<Rightarrow> string \<Rightarrow> unit feed" where
  "feed_line lineno s fn =
     sbind (check_residue s) (\<lambda>_.
     if s \<noteq> [] \<and> last s = CHR 0x5C then upd_f (\<lambda>fs. fs\<lparr>f_residue := f_residue fs @ [butlast s]\<rparr>)
     else sbind (get_f (\<lambda>fs. concat (f_residue fs) @ s)) (\<lambda>s.
       sbind (upd_f (\<lambda>fs. fs\<lparr>f_residue := []\<rparr>)) (\<lambda>_.
       if s = [] \<or> hd s = hash then sret () else line_stmt lineno s fn)))"

definition end_def :: "int \<Rightarrow> string \<Rightarrow> string \<Rightarrow> string \<Rightarrow> unit feed" where
  "end_def lineno fn root name =
     sbind (get_f f_body) (\<lambda>body. sbind (add_stmt (PythonMethodNode fn lineno name root body)) (\<lambda>_.
     upd_f (\<lambda>fs. fs\<lparr>f_body := [], f_inpython := None\<rparr>)))"

definition bb_feeder :: "int \<Rightarrow> string \<Rightarrow> string \<Rightarrow> string \<Rightarrow> bool \<Rightarrow> unit feed" where
  "bb_feeder lineno s fn root eof = sbind (get_f (\<lambda>fs. (f_infunc fs, f_inpython fs))) (\<lambda>(infunc, inpython).
     case infunc of Some f \<Rightarrow> feed_func lineno s fn f
     | None \<Rightarrow> (case inpython of
         Some name \<Rightarrow>
           if rx_match python_func_rx s \<noteq> None \<and> \<not> eof
           then upd_f (\<lambda>fs. fs\<lparr>f_body := f_body fs @ [s]\<rparr>)
           else sbind (end_def lineno fn root name) (\<lambda>_. if eof then sret () else feed_line lineno s fn)
       | None \<Rightarrow> feed_line lineno s fn))"

text \<open>The lines of a file, and the end of the last \<^verbatim>\<open>def\<close>.\<close>

function bb_lines :: "string \<Rightarrow> string \<Rightarrow> string \<Rightarrow> int \<Rightarrow> unit feed" where
  "bb_lines fn root input lineno =
     (if input = [] then sbind (get_f (\<lambda>fs. f_inpython fs)) (\<lambda>p.
        if p = None then sret () else bb_feeder (lineno + 1) [] fn root True)
      else sbind (bb_feeder (lineno + 1) (rstrip (fst (readline input))) fn root False) (\<lambda>_.
        bb_lines fn root (snd (readline input)) (lineno + 1)))"
  by pat_completeness auto
termination
  by (relation "measure (\<lambda>(fn, root, input, lineno). length input)") (auto simp: readline_shorter)

declare bb_lines.simps [simp del]

end
