(* ===== verification/Parse_Lines_Facts.thy ===== *)
theory Parse_Lines_Facts
  imports Parse_Lines
begin

text \<open>
  What the line parsers recognise: every assignment in the usual layout is read back as its
  parts, exactly if it does not contain one quote of its own kind.
\<close>

section \<open>Assignments\<close>

definition assign_ops :: "(string \<times> string option) list" where
  "assign_ops = [('':='', Some ''colon''), (''??='', Some ''lazyques''), (''?='', Some ''ques''), (''+='', Some ''append''),
     (''=+'', Some ''prepend''), (''=.'', Some ''predot''), (''.='', Some ''postdot''), (''='', None)]"

definition op_caps :: "string \<Rightarrow> caps \<Rightarrow> caps" where
  "op_caps op1 g = (case map_of assign_ops op1 of Some (Some n) \<Rightarrow> dset n op1 g | _ \<Rightarrow> g)"

text \<open>The line of an assignment.\<close>

definition flag_text :: "string option \<Rightarrow> string" where
  "flag_text f = (case f of None \<Rightarrow> [] | Some x \<Rightarrow> ''['' @ x @ '']'')"

definition assign_line :: "bool \<Rightarrow> string \<Rightarrow> string option \<Rightarrow> string \<Rightarrow> char \<Rightarrow> string \<Rightarrow> string" where
  "assign_line ex var flag op1 q v = (if ex then ''export '' else []) @ var @ flag_text flag @ '' '' @ op1 @ '' '' @ [q] @ v @ [q]"

definition assign_ok :: "bool \<Rightarrow> string \<Rightarrow> string option \<Rightarrow> string \<Rightarrow> char \<Rightarrow> string \<Rightarrow> bool" where
  "assign_ok ex var flag op1 q v \<longleftrightarrow> var \<noteq> [] \<and> list_all var_char var \<and> (ex \<or> \<not> startswith var ''export'') \<and>
     (case flag of None \<Rightarrow> True | Some f \<Rightarrow> f \<noteq> [] \<and> list_all flag_char f) \<and> op1 \<in> set (keys assign_ops) \<and>
     (q = quote1 \<or> q = quote2) \<and> list_all any_char v"

text \<open>The groups it is read as.\<close>

definition assign_caps :: "bool \<Rightarrow> string \<Rightarrow> string option \<Rightarrow> string \<Rightarrow> char \<Rightarrow> string \<Rightarrow> caps" where
  "assign_caps ex var flag op1 q v = dset ''value'' v (dset ''apo'' [q] (op_caps op1
     ((case flag of None \<Rightarrow> id | Some f \<Rightarrow> dset ''flag'' f) (dset ''var'' var (if ex then [(''exp'', ''export '')] else [])))))"

lemma group_text [simp]: "take (length w + length t - length t) (w @ t) = w" "take (length (w @ t) - length t) (w @ t) = w"
  by simp_all

lemma group_cons [simp]: "take (Suc (length t) - length t) (c # t) = [c]"
  by simp

section \<open>The value\<close>

lemma quotes_differ: "quote1 \<noteq> quote2" "quote2 \<noteq> quote1"
  by (simp_all add: quote1_def quote2_def)

lemma starts_one: "startswith (c # s) [x] \<longleftrightarrow> c = x" "\<not> startswith [] [x]"
  by (auto simp: startswith_def)

text \<open>A class that ends at a quote, followed by the quote.\<close>

lemma up_to_quote:
  assumes "q \<notin> set a"
  shows "run_class True (\<lambda>c. c \<noteq> q) (a @ q # s) g (\<lambda>s' g'. rx_run (Chars [q]) s' g' k) = k s g"
  using assms
proof (induction a)
  case Nil
  then show ?case by (simp add: rx starts_one)
next
  case (Cons c a)
  then have "c \<noteq> q" by auto
  then have "rx_run (Chars [q]) (c # a @ q # s) g k = None" by (simp add: rx starts_one)
  with Cons \<open>c \<noteq> q\<close> show ?case by simp
qed

lemma no_quote:
  assumes "q \<notin> set a"
  shows "run_class True (\<lambda>c. c \<noteq> q) a g (\<lambda>s' g'. rx_run (Chars [q]) s' g' k) = None"
proof (rule run_fails)
  fix x y assume "a = x @ y"
  with assms show "rx_run (Chars [q]) y g k = None" by (cases y) (auto simp: rx starts_one)
qed

lemma three_quotes_run:
  assumes "list_all any_char v" "any_char q"
  shows "rx_run (three_quotes q) (q # v @ [q]) g (\<lambda>s g. Some (s, g)) = (if count_list v q = 1 then Some ([], g) else None)"
proof -
  have last: "rx_run (Chars [q]) s g (\<lambda>s g. rx_run End s g (\<lambda>s g. Some (s, g))) =
    (if s = [q] then Some ([], g) else None)" if "list_all any_char s" for s g
    using that by (cases s) (auto simp: rx starts_one at_eol_def any_char_def)
  have start: "rx_run (three_quotes q) (q # s) g (\<lambda>s g. Some (s, g)) =
      run_class True (\<lambda>c. c \<noteq> q) s g (\<lambda>s g. rx_run (Chars [q]) s g (\<lambda>s g.
      run_class True (\<lambda>c. c \<noteq> q) s g (\<lambda>s g. rx_run (Chars [q]) s g (\<lambda>s g. rx_run End s g (\<lambda>s g. Some (s, g))))))" for s
    by (simp only: three_quotes_def rx) (simp add: starts_one)
  show ?thesis
  proof (cases "q \<in> set v")
    case False
    then have "count_list v q = 0" by (simp add: count_list_0_iff)
    moreover have "rx_run (three_quotes q) (q # v @ [q]) g (\<lambda>s g. Some (s, g)) = None"
      unfolding start up_to_quote [OF False] by (rule no_quote) simp
    ultimately show ?thesis by simp
  next
    case True
    then obtain a b where v: "v = a @ q # b" "q \<notin> set a" by (meson split_list_first)
    have eq: "rx_run (three_quotes q) (q # v @ [q]) g (\<lambda>s g. Some (s, g)) =
      run_class True (\<lambda>c. c \<noteq> q) (b @ [q]) g (\<lambda>s g. rx_run (Chars [q]) s g (\<lambda>s g. rx_run End s g (\<lambda>s g. Some (s, g))))"
      unfolding start v(1) append_assoc append_Cons up_to_quote [OF v(2)] ..
    show ?thesis
    proof (cases "q \<in> set b")
      case False
      with v have "count_list v q = 1" by (simp add: count_list_0_iff)
      then show ?thesis unfolding eq up_to_quote [OF False] by (simp add: at_eol_def)
    next
      case True
      then obtain c d where b: "b = c @ q # d" "q \<notin> set c" by (meson split_list_first)
      from assms v b have "\<not> at_eol (d @ [q])" by (cases d) (auto simp: at_eol_def any_char_def)
      with v b show ?thesis unfolding eq b(1) append_assoc append_Cons up_to_quote [OF b(2)] by simp
    qed
  qed
qed

lemma other_quotes_run: "s = [] \<or> hd s \<noteq> q \<Longrightarrow> rx_run (three_quotes q) s g k = None"
  by (cases s) (simp_all only: three_quotes_def rx, auto simp: starts_one)

lemma config_value_run:
  assumes "list_all any_char v" "q = quote1 \<or> q = quote2"
  shows "rx_run config_value (q # v @ [q]) g (\<lambda>s g. Some (s, g)) =
    (if count_list v q = 1 then None else Some ([], dset ''value'' v (dset ''apo'' [q] g)))"
proof -
  have any: "any_char q" using assms(2) by (auto simp: any_char_def quote1_def quote2_def)
  let ?k = "\<lambda>s s' g'. rx_run (Back ''apo'') s' (dset ''value'' (take (length s - length s') s) g')
    (\<lambda>s g. rx_run End s g (\<lambda>s g. Some (s, g)))"
  have val: "run_class True any_char (v @ [q]) g' (?k (v @ [q])) = Some ([], dset ''value'' v g')"
    if "map_of g' ''apo'' = Some [q]" for g'
    using run_greedy_back [of v "[q]" any_char "?k (v @ [q])" "[q]" g' "([], dset ''value'' v g')" "[]"] assms(1) any that
    by (auto simp: list_all_iff ends_run_def starts_one at_eol_def Cons_eq_append_conv)
  have run: "rx_run config_value (q # s) g (\<lambda>s g. Some (s, g)) =
    (case rx_run (three_quotes q) (q # s) g (\<lambda>s g. Some (s, g)) of Some _ \<Rightarrow> None
     | None \<Rightarrow> run_class True any_char s (dset ''apo'' [q] g) (?k s))" for s
    using assms(2) other_quotes_run [of "q # s" quote1 g] other_quotes_run [of "q # s" quote2 g]
    by (auto simp: config_value_def rx quotes_differ simp del: three_quotes_def split: option.split)
  show ?thesis
    unfolding run three_quotes_run [OF assms(1) any] using val [of "dset ''apo'' [q] g"] by simp
qed

lemma config_value_none: "s \<noteq> [] \<Longrightarrow> hd s \<noteq> quote1 \<Longrightarrow> hd s \<noteq> quote2 \<Longrightarrow> rx_run config_value s g k = None"
  by (cases s) (auto simp: config_value_def rx other_quotes_run)

section \<open>The operator\<close>

lemma op_run:
  assumes "op1 \<in> set (keys assign_ops)" "\<And>c r g. c \<in> {CHR ''+'', CHR ''.''} \<Longrightarrow> k (c # r) g = None"
  shows "rx_run config_op (op1 @ CHR '' '' # x) g k = k (CHR '' '' # x) (op_caps op1 g)"
proof -
  have "op1 \<in> {'':='', ''??='', ''?='', ''+='', ''=+'', ''=.'', ''.='', ''=''}"
    using assms(1) by (simp add: assign_ops_def keys_def)
  then show ?thesis
    using assms(2) by (elim insertE emptyE) (simp_all add: config_op_def rx startswith_def op_caps_def assign_ops_def)
qed

lemma no_op:
  assumes "s = [] \<or> (hd s \<notin> set '':?='' \<and> \<not> (hd s \<in> set ''+.'' \<and> startswith (tl s) ''=''))"
  shows "rx_run config_op s g k = None"
  using assms by (cases s) (auto simp: config_op_def rx startswith_def)

section \<open>After the variable\<close>

definition config_tail :: "string \<Rightarrow> caps \<Rightarrow> (string \<times> caps) option" where
  "config_tail s g = rx_run (rx_seq [Opt (rx_seq [Chars ''['', Group ''flag'' (Plus True (One flag_char)), Chars '']'']),
     spaces, config_op, spaces, config_value]) s g (\<lambda>s g. Some (s, g))"

definition config_after :: "string \<Rightarrow> caps \<Rightarrow> (string \<times> caps) option" where
  "config_after s g = rx_run (rx_seq [spaces, config_op, spaces, config_value]) s g (\<lambda>s g. Some (s, g))"

lemma config_tail_run: "config_tail s g = or_else
  (rx_run (rx_seq [Chars ''['', Group ''flag'' (Plus True (One flag_char)), Chars '']'']) s g config_after) (config_after s g)"
  unfolding config_tail_def config_after_def run_seq(2) [of "Opt _"] run_opt ..

lemma blank: "py_isspace CHR '' ''"
  by (simp add: py_isspace_def)

lemma not_blank: "var_char c \<Longrightarrow> \<not> py_isspace c" "\<not> py_isspace quote1" "\<not> py_isspace quote2" "\<not> py_isspace CHR ''[''"
  by (auto simp: var_char_def alnum_def is_letter_def is_digit_def py_isspace_def quote1_def quote2_def Let_def)

lemma quote_not_op: "(q::char) = quote1 \<or> q = quote2 \<Longrightarrow> q \<notin> set '':?=+.''"
  by (auto simp: quote1_def quote2_def)

lemma config_after_op:
  assumes "op1 \<in> set (keys assign_ops)" "list_all any_char v" "q = quote1 \<or> q = quote2"
  shows "config_after (CHR '' '' # op1 @ CHR '' '' # q # v @ [q]) g =
    (if count_list v q = 1 then None else Some ([], dset ''value'' v (dset ''apo'' [q] (op_caps op1 g))))"
proof -
  let ?k = "\<lambda>s g. run_class True py_isspace s g (\<lambda>s g. rx_run config_value s g (\<lambda>s g. Some (s, g)))"
  have plus: "?k (c # r) g = None" if "c \<in> {CHR ''+'', CHR ''.''}" for c r g
  proof (rule run_fails)
    fix a b assume "c # r = a @ b" "\<forall>x \<in> set a. py_isspace x"
    with that have "b = c # r" by (cases a) (auto simp: py_isspace_def)
    with that show "rx_run config_value b g (\<lambda>s g. Some (s, g)) = None"
      by (auto intro!: config_value_none simp: quote1_def quote2_def)
  qed
  have q: "\<not> py_isspace q" using assms(3) not_blank by auto
  have sp: "?k (CHR '' '' # q # v @ [q]) g = rx_run config_value (q # v @ [q]) g (\<lambda>s g. Some (s, g))" for g
    using q config_value_none [of "CHR '' '' # q # v @ [q]" g "\<lambda>s g. Some (s, g)"] by (simp add: blank quote1_def quote2_def)
  have op0: "\<not> py_isspace (hd (op1 @ s))" for s
    using assms(1) by (auto simp: assign_ops_def keys_def py_isspace_def)
  moreover have "op1 \<noteq> []" using assms(1) by (auto simp: assign_ops_def keys_def)
  ultimately have stop: "run_class True py_isspace (op1 @ s) g k = k (op1 @ s) g" for s g and k :: "string \<Rightarrow> caps \<Rightarrow> (string \<times> caps) option"
    by (cases op1) auto
  have none: "rx_run config_op (CHR '' '' # s) g ?k = None" for s g
    by (rule no_op) simp
  have "config_after (CHR '' '' # op1 @ CHR '' '' # q # v @ [q]) g = rx_run config_op (op1 @ CHR '' '' # q # v @ [q]) g ?k"
    by (simp add: config_after_def rx blank stop none)
  also have "\<dots> = ?k (CHR '' '' # q # v @ [q]) (op_caps op1 g)"
    by (rule op_run [where k = ?k, OF assms(1) plus])
  finally show ?thesis unfolding sp config_value_run [OF assms(2,3)] .
qed

lemma config_after_none:
  assumes "s = [] \<or> (\<not> py_isspace (hd s) \<and> hd s \<notin> set '':?='' \<and> \<not> (hd s \<in> set ''+.'' \<and> startswith (tl s) ''=''))"
  shows "config_after s g = None"
  using assms by (cases s) (auto simp: config_after_def rx no_op)

lemma flag_not_end: "list_all flag_char f \<Longrightarrow> CHR '']'' \<notin> set f"
  by (auto simp: list_all_iff flag_char_def alnum_def is_letter_def is_digit_def Let_def)

lemma flag_run:
  assumes "f \<noteq> []" "list_all flag_char f"
  shows "rx_run (rx_seq [Chars ''['', Group ''flag'' (Plus True (One flag_char)), Chars '']'']) (CHR ''['' # f @ CHR '']'' # s) g k =
    k s (dset ''flag'' f g)"
proof -
  obtain c w where f: "f = c # w" using assms(1) by (cases f) auto
  let ?k = "\<lambda>s' g'. rx_run (Chars '']'') s' (dset ''flag'' (take (length (f @ CHR '']'' # s) - length s') (f @ CHR '']'' # s)) g') k"
  have "run_class True flag_char (w @ CHR '']'' # s) g ?k = ?k (CHR '']'' # s) g"
  proof (rule run_exact)
    show "\<forall>x \<in> set w. flag_char x" using assms(2) f by (simp add: list_all_iff)
    show "ends_run flag_char (CHR '']'' # s)"
      by (simp add: ends_run_def flag_char_def alnum_def is_letter_def is_digit_def)
    fix a b assume "w = a @ b" "b \<noteq> []"
    then show "?k (b @ CHR '']'' # s) g = None"
      using flag_not_end [OF assms(2)] f by (cases b) (auto simp: rx starts_one)
  qed
  moreover have "flag_char c" using assms(2) f by simp
  ultimately show ?thesis by (simp add: rx starts_one f cong: if_cong)
qed

lemma flag_none: "\<not> startswith s ''['' \<Longrightarrow>
    rx_run (rx_seq [Chars ''['', Group ''flag'' (Plus True (One flag_char)), Chars '']'']) s g k = None"
  by (simp add: rx)

lemma config_tail_flag:
  assumes "case flag of None \<Rightarrow> True | Some f \<Rightarrow> f \<noteq> [] \<and> list_all flag_char f" "\<not> startswith s ''[''"
    "config_after (flag_text flag @ s) g = None \<or> flag = None"
  shows "config_tail (flag_text flag @ s) g = config_after s ((case flag of None \<Rightarrow> id | Some f \<Rightarrow> dset ''flag'' f) g)"
proof (cases flag)
  case None
  then show ?thesis unfolding config_tail_run by (simp add: flag_text_def flag_none [OF assms(2)] del: rx_seq.simps)
next
  case (Some f)
  with assms flag_run [of f s g config_after] show ?thesis
    unfolding config_tail_run by (simp add: flag_text_def del: rx_seq.simps)
qed

section \<open>The whole line\<close>

definition config_line :: "string \<Rightarrow> caps \<Rightarrow> (string \<times> caps) option" where
  "config_line s g = rx_run (Group ''var'' (Plus False (One var_char))) s g config_tail"

lemma config_rx_run: "rx_match config_rx s = map_option snd (or_else
  (rx_run (Group ''exp'' (rx_seq [Chars ''export'', spaces])) s [] config_line) (config_line s []))"
  unfolding rx_match_def config_rx_def run_seq(2) [of "Opt _"] run_opt run_seq(2) [of "Group _ _"] config_line_def
    config_tail_def ..

text \<open>Inside the name of a variable nothing that follows it begins.\<close>

lemma tail_inside:
  assumes "b \<noteq> []" "list_all var_char b" "\<not> startswith t ''=''"
  shows "config_tail (b @ t) g = None"
proof -
  obtain c u where b: "b = c # u" "var_char c" using assms by (cases b) auto
  have "\<not> startswith (u @ t) ''=''"
    using assms b by (cases u) (auto simp: startswith_def var_char_def alnum_def is_letter_def is_digit_def Let_def)
  moreover have "c \<notin> set '':?=''" "c \<noteq> CHR ''[''"
    using b(2) by (auto simp: var_char_def alnum_def is_letter_def is_digit_def Let_def)
  ultimately show ?thesis
    using b not_blank(1) [OF b(2)] config_after_none [of "b @ t" g] flag_none [of "b @ t" g config_after]
    unfolding config_tail_run by (simp add: starts_one del: rx_seq.simps)
qed

lemma config_line_var:
  assumes "var \<noteq> []" "list_all var_char var" "ends_run var_char t" "\<not> startswith t ''=''"
  shows "config_line (var @ t) g = config_tail t (dset ''var'' var g)"
proof -
  obtain c w where v: "var = c # w" using assms(1) by (cases var) auto
  let ?k = "\<lambda>s' g'. config_tail s' (dset ''var'' (take (length (var @ t) - length s') (var @ t)) g')"
  have "run_class False var_char (w @ t) g ?k = ?k t g"
  proof (rule run_exact)
    show "\<forall>x \<in> set w. var_char x" using assms(2) v by (simp add: list_all_iff)
    show "ends_run var_char t" by (rule assms(3))
    fix a b assume "w = a @ b" "b \<noteq> []"
    with v assms(2) show "?k (b @ t) g = None" by (intro tail_inside) (use assms(4) in auto)
  qed
  moreover have "var_char c" using assms(2) v by simp
  ultimately show ?thesis by (simp add: config_line_def rx v)
qed

lemma starts_in_run:
  assumes "list_all p w" "ends_run p t" "startswith (v @ t) w"
  shows "startswith v w"
proof (cases "length w \<le> length v")
  case True
  with assms(3) show ?thesis by (simp add: startswith_def)
next
  case False
  then obtain c u where "w = v @ c # u"
    using assms(3) unfolding startswith_def
    by (metis append_eq_append_conv2 append_eq_conv_conj append_self_conv length_append linorder_le_cases neq_Nil_conv take_append
        append_take_drop_id le_add1 list.size(3) nat_le_linear take_all)
  with assms show ?thesis
    by (cases t) (auto simp: startswith_iff ends_run_def)
qed

lemma op_first: "op1 \<in> set (keys assign_ops) \<Longrightarrow> op1 \<noteq> []"
  by (auto simp: assign_ops_def keys_def)

lemma config_line_assign:
  assumes "assign_ok ex var flag op1 q v"
  shows "config_line (var @ flag_text flag @ '' '' @ op1 @ '' '' @ [q] @ v @ [q]) g =
    (if count_list v q = 1 then None
     else Some ([], dset ''value'' v (dset ''apo'' [q] (op_caps op1
       ((case flag of None \<Rightarrow> id | Some f \<Rightarrow> dset ''flag'' f) (dset ''var'' var g))))))"
proof -
  let ?s = "CHR '' '' # op1 @ CHR '' '' # q # v @ [q]"
  have t: "ends_run var_char (flag_text flag @ ?s)" "\<not> startswith (flag_text flag @ ?s) ''=''"
    by (auto simp: ends_run_def flag_text_def startswith_def var_char_def alnum_def is_letter_def is_digit_def
        split: option.split)
  have f: "config_after (flag_text flag @ ?s) g' = None \<or> flag = None" for g'
    by (cases flag) (simp_all add: flag_text_def config_after_none not_blank)
  from assms have a: "var \<noteq> []" "list_all var_char var" "op1 \<in> set (keys assign_ops)" "list_all any_char v"
    "q = quote1 \<or> q = quote2" "case flag of None \<Rightarrow> True | Some f \<Rightarrow> f \<noteq> [] \<and> list_all flag_char f"
    by (auto simp: assign_ok_def)
  have "config_line (var @ flag_text flag @ ?s) g = config_tail (flag_text flag @ ?s) (dset ''var'' var g)"
    by (rule config_line_var [OF a(1,2) t])
  also have "\<dots> = config_after ?s ((case flag of None \<Rightarrow> id | Some f \<Rightarrow> dset ''flag'' f) (dset ''var'' var g))"
    by (rule config_tail_flag [OF a(6) _ f]) (simp add: starts_one)
  finally show ?thesis by (simp add: config_after_op [OF a(3,4,5)])
qed

lemma export_only:
  assumes "var \<noteq> []" "list_all var_char var" "\<not> startswith t ''=''"
  shows "config_line (''export'' @ CHR '' '' # var @ t) g = None"
proof -
  obtain c w where v: "var = c # w" "var_char c" using assms(1,2) by (cases var) auto
  have "\<not> startswith (w @ t) ''=''"
    using assms v by (cases w) (auto simp: startswith_def var_char_def alnum_def is_letter_def is_digit_def Let_def)
  moreover have "c \<notin> set '':?=''"
    using v(2) by (auto simp: var_char_def alnum_def is_letter_def is_digit_def Let_def)
  ultimately have op: "rx_run config_op (var @ t) g k = None" for g k
    using v by (intro no_op) auto
  have none: "rx_run config_op (CHR '' '' # s) g k = None" for s g k
    by (rule no_op) simp
  have after: "config_after (CHR '' '' # var @ t) g = None" for g
    using v not_blank(1) [OF v(2)] op by (simp add: config_after_def rx blank none)
  have "config_line (''export'' @ CHR '' '' # var @ t) g = config_tail (CHR '' '' # var @ t) (dset ''var'' ''export'' g)"
    by (rule config_line_var) (simp_all add: ends_run_def startswith_def var_char_def alnum_def is_letter_def is_digit_def)
  also have "\<dots> = None"
    unfolding config_tail_run by (simp add: after flag_none starts_one del: rx_seq.simps)
  finally show ?thesis .
qed

lemma config_line_match:
  assumes "assign_ok ex var flag op1 q v"
  shows "rx_match config_rx (assign_line ex var flag op1 q v) =
    (if count_list v q = 1 then None else Some (assign_caps ex var flag op1 q v))"
proof -
  let ?t = "flag_text flag @ '' '' @ op1 @ '' '' @ [q] @ v @ [q]"
  from assms have a: "var \<noteq> []" "list_all var_char var" "ex \<or> \<not> startswith var ''export''" by (auto simp: assign_ok_def)
  have t: "ends_run var_char ?t" "\<not> startswith ?t ''=''"
    by (auto simp: ends_run_def flag_text_def startswith_def var_char_def alnum_def is_letter_def is_digit_def
        split: option.split)
  note line = config_line_assign [OF assms]
  show ?thesis
  proof (cases ex)
    case False
    have "list_all var_char ''export''" by (simp add: var_char_def alnum_def is_letter_def is_digit_def)
    then have "\<not> startswith (var @ ?t) ''export''" using starts_in_run [OF _ t(1)] a(3) False by blast
    then have "rx_run (Group ''exp'' (rx_seq [Chars ''export'', spaces])) (var @ ?t) [] config_line = None"
      by (simp add: rx)
    with False line [of "[]"] show ?thesis
      unfolding config_rx_run assign_line_def by (simp add: assign_caps_def del: rx_seq.simps rx_run.simps)
  next
    case True
    obtain c w where v: "var = c # w" "var_char c" using a(1,2) by (cases var) auto
    have blanks: "config_line (CHR '' '' # s) g = None" for s g
      by (simp add: config_line_def rx var_char_def alnum_def is_letter_def is_digit_def)
    have "rx_run (Group ''exp'' (rx_seq [Chars ''export'', spaces])) (''export'' @ CHR '' '' # var @ ?t) [] config_line =
      config_line (var @ ?t) [(''exp'', ''export '')]"
      using v not_blank(1) [OF v(2)] by (simp add: rx startswith_def blank blanks dset_new keys_def)
    with True line [of "[(''exp'', ''export '')]"] export_only [OF a(1,2) t(2), of "[]"] show ?thesis
      unfolding config_rx_run assign_line_def by (simp add: assign_caps_def del: rx_seq.simps rx_run.simps)
  qed
qed

text \<open>
  C21. Assignments are read back: a line with an assignment in the usual layout (one blank
  around the operator), of a variable that does not begin with \<^verbatim>\<open>export\<close>, is parsed into
  the statement with the parts the line was put together from, unless its value contains
  exactly one quote of the kind it is enclosed in; then it is no configuration line.
\<close>

theorem config_line_roundtrip:
  assumes "assign_ok ex var flag op1 q v"
  shows "if count_list v q = 1 then rx_match config_rx (assign_line ex var flag op1 q v) = None
    else conf_stmt lineno (assign_line ex var flag op1 q v) fn =
      Inr (DataNode fn lineno (groupdict config_names (assign_caps ex var flag op1 q v)))"
  using config_line_match [OF assms] by (simp add: conf_stmt_def)

lemma config_line_roundtrip_witness:
  "conf_stmt 7 (''export A_arm[doc] ?= '' @ quote1 # ''x'' @ [quote2] @ ''y z'' @ [quote1]) ''local.conf'' =
    Inr (DataNode ''local.conf'' 7 [(''exp'', Some ''export ''), (''var'', Some ''A_arm''), (''flag'', Some ''doc''),
      (''colon'', None), (''lazyques'', None), (''ques'', Some ''?=''), (''append'', None), (''prepend'', None),
      (''predot'', None), (''postdot'', None), (''apo'', Some [quote1]), (''value'', Some (''x'' @ [quote2] @ ''y z''))])"
proof -
  have ok: "assign_ok True ''A_arm'' (Some ''doc'') ''?='' quote1 (''x'' @ [quote2] @ ''y z'')" by code_simp
  have "assign_line True ''A_arm'' (Some ''doc'') ''?='' quote1 (''x'' @ [quote2] @ ''y z'') =
    ''export A_arm[doc] ?= '' @ quote1 # ''x'' @ [quote2] @ ''y z'' @ [quote1]" by (simp add: assign_line_def flag_text_def)
  moreover have "count_list (''x'' @ [quote2] @ ''y z'') quote1 \<noteq> 1" by code_simp
  moreover have "groupdict config_names (assign_caps True ''A_arm'' (Some ''doc'') ''?='' quote1 (''x'' @ [quote2] @ ''y z'')) =
    [(''exp'', Some ''export ''), (''var'', Some ''A_arm''), (''flag'', Some ''doc''),
      (''colon'', None), (''lazyques'', None), (''ques'', Some ''?=''), (''append'', None), (''prepend'', None),
      (''predot'', None), (''postdot'', None), (''apo'', Some [quote1]), (''value'', Some (''x'' @ [quote2] @ ''y z''))]"
    by code_simp
  ultimately show ?thesis using config_line_roundtrip [OF ok, of 7 "''local.conf''"] by simp
qed

text \<open>
  A variable whose name begins with \<^verbatim>\<open>export\<close> is read as an export of the rest of the name,
  and a shell function whose name begins with \<^verbatim>\<open>python\<close> as a Python function.
\<close>

lemma exporting_name:
  "rx_match config_rx (''exportdir = '' @ quote2 # ''x'' @ [quote2]) =
    Some [(''exp'', ''export''), (''var'', ''dir''), (''apo'', [quote2]), (''value'', ''x'')]"
  by code_simp

lemma python_name: "rx_match func_start_rx ''python_prepare () {'' = Some [(''py'', ''python''), (''func'', ''_prepare'')]"
  by code_simp

text \<open>A line that is only a backslash, and what follows it.\<close>

lemma lone_backslash:
  "conf_lines fn ([CHR 0x5C, CHR 0x0A, CHR 0x0A]) 0 [] = Inl IndexError"
  "fst (bb_lines fn root ([CHR 0x5C, CHR 0x0A, CHR ''A'']) 0 (\<lparr>f_infunc = None, f_inpython = None, f_body = [],
     f_residue = [], f_classname = []\<rparr>, [])) = Inl IndexError"
  by code_simp+

section \<open>Files as blocks\<close>

text \<open>
  What a file consists of when nothing in it is rejected: blank lines and comments, shell
  functions up to the closing brace, \<^verbatim>\<open>def\<close> functions with the indented and empty lines that
  follow, and lines that can be continued with backslashes.
\<close>

datatype block =
    Blank string
  | Func string "string list"
  | Def string "string list"
  | Logical "string list" string

fun block_lines :: "block \<Rightarrow> string list" where
  "block_lines (Blank s) = [s]"
| "block_lines (Func s body) = s # body @ [''}'']"
| "block_lines (Def s body) = s # body"
| "block_lines (Logical cs s) = map (\<lambda>c. c @ [CHR 0x5C]) cs @ [s]"

definition idle :: "fstate \<Rightarrow> bool" where
  "idle fs \<longleftrightarrow> f_infunc fs = None \<and> f_inpython fs = None \<and> f_body fs = [] \<and> f_residue fs = []"

definition idle_in :: "string \<Rightarrow> fstate" where
  "idle_in cls = \<lparr>f_infunc = None, f_inpython = None, f_body = [], f_residue = [], f_classname = cls\<rparr>"

definition line_stmts :: "string \<Rightarrow> string \<Rightarrow> int \<Rightarrow> string \<Rightarrow> stmt list" where
  "line_stmts fn cls n s = snd (snd (line_stmt n s fn (idle_in cls, [])))"

definition no_comment :: "string \<Rightarrow> bool" where
  "no_comment s \<longleftrightarrow> s = [] \<or> hd s \<noteq> hash"

fun block_ok :: "string \<Rightarrow> block \<Rightarrow> bool" where
  "block_ok fn (Blank s) \<longleftrightarrow> s = [] \<or> (hd s = hash \<and> last s \<noteq> CHR 0x5C)"
| "block_ok fn (Func s body) \<longleftrightarrow> rx_match func_start_rx s \<noteq> None \<and> s \<noteq> [] \<and> hd s \<noteq> hash \<and> last s \<noteq> CHR 0x5C \<and>
     ''}'' \<notin> set body"
| "block_ok fn (Def s body) \<longleftrightarrow> rx_match func_start_rx s = None \<and> rx_match def_rx s \<noteq> None \<and> s \<noteq> [] \<and> hd s \<noteq> hash \<and>
     last s \<noteq> CHR 0x5C \<and> list_all (\<lambda>l. rx_match python_func_rx l \<noteq> None) body"
| "block_ok fn (Logical cs s) \<longleftrightarrow> (cs \<noteq> [] \<longrightarrow> hd cs \<noteq> []) \<and> list_all no_comment cs \<and> no_comment s \<and>
     (s = [] \<or> last s \<noteq> CHR 0x5C) \<and> concat cs @ s \<noteq> [] \<and>
     rx_match func_start_rx (concat cs @ s) = None \<and> rx_match def_rx (concat cs @ s) = None \<and>
     fst (line_stmt 0 (concat cs @ s) fn (idle_in [], [])) = Inr ()"

text \<open>The statements of a block that begins at a line.\<close>

fun block_stmts :: "string \<Rightarrow> string \<Rightarrow> string \<Rightarrow> int \<Rightarrow> block \<Rightarrow> stmt list" where
  "block_stmts fn root cls n (Blank s) = []"
| "block_stmts fn root cls n (Func s body) = (case rx_match func_start_rx s of None \<Rightarrow> [] | Some g \<Rightarrow>
     [MethodNode fn (n + int (length body) + 1)
        (case group g ''func'' of Some w \<Rightarrow> if w = [] then ''__anonymous'' else w | None \<Rightarrow> ''__anonymous'')
        (body @ [[]]) (group g ''py'' \<noteq> None) (group g ''fr'' \<noteq> None)])"
| "block_stmts fn root cls n (Def s body) = (case rx_match def_rx s of None \<Rightarrow> [] | Some g \<Rightarrow>
     [PythonMethodNode fn (n + int (length body) + 1) (must g ''1'') root (s # body)])"
| "block_stmts fn root cls n (Logical cs s) = line_stmts fn cls (n + int (length cs)) (concat cs @ s)"

fun file_stmts :: "string \<Rightarrow> string \<Rightarrow> string \<Rightarrow> int \<Rightarrow> block list \<Rightarrow> stmt list" where
  "file_stmts fn root cls n [] = []"
| "file_stmts fn root cls n (b # bs) = block_stmts fn root cls n b @
     file_stmts fn root cls (n + int (length (block_lines b))) bs"

text \<open>After a \<^verbatim>\<open>def\<close> a block has to begin that is not taken for more of its body.\<close>

fun blocks_apart :: "block list \<Rightarrow> bool" where
  "blocks_apart (Def s body # b # bs) \<longleftrightarrow> rx_match python_func_rx (hd (block_lines b)) = None \<and> blocks_apart (b # bs)"
| "blocks_apart (b # bs) \<longleftrightarrow> blocks_apart bs"
| "blocks_apart [] \<longleftrightarrow> True"

fun feed_all :: "string \<Rightarrow> string \<Rightarrow> int \<Rightarrow> string list \<Rightarrow> unit feed" where
  "feed_all fn root n [] = sret ()"
| "feed_all fn root n (l # ls) = sbind (bb_feeder n l fn root False) (\<lambda>_. feed_all fn root (n + 1) ls)"

lemma feed_all_append:
  "feed_all fn root n (xs @ ys) = sbind (feed_all fn root n xs) (\<lambda>_. feed_all fn root (n + int (length xs)) ys)"
proof (induction xs arbitrary: n)
  case Nil
  then show ?case by (auto simp: sbind_def sret_def)
next
  case (Cons x xs)
  show ?case
    unfolding append_Cons feed_all.simps Cons
    by (auto simp: sbind_def fun_eq_iff algebra_simps split: prod.splits sum.splits)
qed

lemmas feed_defs = sbind_def sret_def sget_def supd_def sres_def get_f_def upd_f_def add_stmt_def

lemma feed_line_whole:
  assumes "f_residue fs = []" "s = [] \<or> last s \<noteq> CHR 0x5C"
  shows "feed_line n s fn (fs, st) = (if s = [] \<or> hd s = hash then (Inr (), (fs, st)) else line_stmt n s fn (fs, st))"
proof -
  have eq: "fs\<lparr>f_residue := []\<rparr> = fs" using assms(1) by simp
  show ?thesis
    using assms by (auto simp: eq feed_line_def check_residue_def residue_char_def feed_defs)
qed

lemma feeder_idle: "f_infunc fs = None \<Longrightarrow> f_inpython fs = None \<Longrightarrow> bb_feeder n s fn root eof (fs, st) = feed_line n s fn (fs, st)"
  by (simp add: bb_feeder_def feed_defs)

lemma feed_body:
  assumes "f_infunc fs = Some (name, f, l, py, fr)" "''}'' \<notin> set body"
  shows "feed_all fn root n body (fs, st) = (Inr (), (fs\<lparr>f_body := f_body fs @ body\<rparr>, st))"
  using assms
proof (induction body arbitrary: n fs)
  case Nil
  then show ?case by (simp add: sret_def)
next
  case (Cons b body)
  have "bb_feeder n b fn root False (fs, st) = (Inr (), (fs\<lparr>f_body := f_body fs @ [b]\<rparr>, st))"
    using Cons.prems by (auto simp: bb_feeder_def feed_func_def feed_defs)
  with Cons.IH [of "fs\<lparr>f_body := f_body fs @ [b]\<rparr>" "n + 1"] Cons.prems show ?case
    by (simp add: sbind_def)
qed

lemma feed_def_body:
  assumes "f_infunc fs = None" "f_inpython fs = Some name" "list_all (\<lambda>l. rx_match python_func_rx l \<noteq> None) body"
  shows "feed_all fn root n body (fs, st) = (Inr (), (fs\<lparr>f_body := f_body fs @ body\<rparr>, st))"
  using assms
proof (induction body arbitrary: n fs)
  case Nil
  then show ?case by (simp add: sret_def)
next
  case (Cons b body)
  have "bb_feeder n b fn root False (fs, st) = (Inr (), (fs\<lparr>f_body := f_body fs @ [b]\<rparr>, st))"
    using Cons.prems by (auto simp: bb_feeder_def feed_defs)
  with Cons.IH [of "fs\<lparr>f_body := f_body fs @ [b]\<rparr>" "n + 1"] Cons.prems show ?case
    by (simp add: sbind_def)
qed

lemma conf_stmt_any: "isl (conf_stmt n s fn) \<longleftrightarrow> isl (conf_stmt 0 s fn)"
  by (simp add: conf_stmt_def split: option.split)

lemma line_stmt_adds:
  assumes "rx_match func_start_rx s = None" "rx_match def_rx s = None" "fst (line_stmt 0 s fn (idle_in [], [])) = Inr ()"
  shows "line_stmt n s fn (fs, st) = (Inr (), (fs, st @ line_stmts fn (f_classname fs) n s))"
proof -
  have "\<not> isl (conf_stmt n s fn)"
    if "rx_match export_func_rx s = None" "rx_match addtask_rx s = None" "rx_match deltask_rx s = None"
      "rx_match addhandler_rx s = None" "rx_match inherit_rx s = None"
    using assms that by (auto simp: line_stmt_def feed_defs conf_stmt_any [of n] split: sum.splits)
  then show ?thesis
    using assms(1,2) by (cases "conf_stmt n s fn")
      (auto simp: line_stmts_def line_stmt_def feed_defs idle_in_def split: option.split)
qed

lemma feed_continued:
  assumes "f_infunc fs = None" "f_inpython fs = None" "list_all no_comment cs"
    and "f_residue fs @ cs \<noteq> [] \<longrightarrow> hd (f_residue fs @ cs) \<noteq> [] \<and> hd (hd (f_residue fs @ cs)) \<noteq> hash"
  shows "feed_all fn root n (map (\<lambda>c. c @ [CHR 0x5C]) cs) (fs, st) = (Inr (), (fs\<lparr>f_residue := f_residue fs @ cs\<rparr>, st))"
  using assms
proof (induction cs arbitrary: n fs)
  case Nil
  then show ?case by (simp add: sret_def)
next
  case (Cons c cs)
  have h: "c @ [CHR 0x5C] \<noteq> []" "hd (c @ [CHR 0x5C]) \<noteq> hash"
    using Cons.prems(3) by (cases c; simp add: no_comment_def hash_def)+
  have "residue_char fs \<in> {Inr None} \<union> {Inr (Some x) | x. x \<noteq> hash}"
    using Cons.prems(4) by (auto simp: residue_char_def neq_Nil_conv split: list.splits)
  with h have "check_residue (c @ [CHR 0x5C]) (fs, st) = (Inr (), (fs, st))"
    by (auto simp: check_residue_def feed_defs)
  then have "bb_feeder n (c @ [CHR 0x5C]) fn root False (fs, st) = (Inr (), (fs\<lparr>f_residue := f_residue fs @ [c]\<rparr>, st))"
    using feeder_idle [OF Cons.prems(1,2)] by (simp add: feed_line_def feed_defs)
  with Cons.IH [of "fs\<lparr>f_residue := f_residue fs @ [c]\<rparr>" "n + 1"] Cons.prems show ?case
    by (simp add: sbind_def)
qed

lemma feed_last:
  assumes "idle fs" "block_ok fn (Logical cs s)"
  shows "bb_feeder n s fn root False (fs\<lparr>f_residue := cs\<rparr>, st) =
    (Inr (), (fs, st @ line_stmts fn (f_classname fs) n (concat cs @ s)))"
proof -
  let ?fs = "fs\<lparr>f_residue := cs\<rparr>"
  have eq: "fs\<lparr>f_residue := []\<rparr> = fs" using assms(1) by (simp add: idle_def)
  have "residue_char ?fs \<in> {Inr None} \<union> {Inr (Some x) | x. x \<noteq> hash}"
    using assms(2) by (cases cs) (auto simp: residue_char_def no_comment_def neq_Nil_conv)
  then have c: "check_residue s (?fs, st) = (Inr (), (?fs, st))"
    using assms(2) by (auto simp: check_residue_def feed_defs no_comment_def)
  have w: "concat cs @ s \<noteq> []" "hd (concat cs @ s) \<noteq> hash"
    using assms(2) by (cases cs; auto simp: no_comment_def hd_append)+
  have "bb_feeder n s fn root False (?fs, st) = feed_line n s fn (?fs, st)"
    using assms(1) by (intro feeder_idle) (simp_all add: idle_def)
  also have "\<dots> = line_stmt n (concat cs @ s) fn (fs, st)"
    using c w assms(2) by (auto simp: feed_line_def feed_defs eq)
  also have "\<dots> = (Inr (), (fs, st @ line_stmts fn (f_classname fs) n (concat cs @ s)))"
    using assms(2) by (intro line_stmt_adds) auto
  finally show ?thesis .
qed

text \<open>A block that is not a \<^verbatim>\<open>def\<close>, from between the blocks to between the blocks.\<close>

lemma feed_block:
  assumes "idle fs" "block_ok fn b" "\<nexists>s body. b = Def s body"
  shows "feed_all fn root n (block_lines b) (fs, st) = (Inr (), (fs, st @ block_stmts fn root (f_classname fs) n b))"
proof (cases b)
  case (Blank s)
  then show ?thesis
    using assms(1,2) feeder_idle [of fs n s fn root False st] feed_line_whole [of fs s n fn st]
    by (auto simp: idle_def sbind_def sret_def)
next
  case (Func s body)
  then obtain g where g: "rx_match func_start_rx s = Some g" using assms(2) by auto
  let ?name = "case group g ''func'' of Some w \<Rightarrow> if w = [] then ''__anonymous'' else w | None \<Rightarrow> ''__anonymous''"
  let ?fs = "fs\<lparr>f_infunc := Some (?name, fn, n, group g ''py'' \<noteq> None, group g ''fr'' \<noteq> None)\<rparr>"
  have "bb_feeder n s fn root False (fs, st) = (Inr (), (?fs, st))"
    using assms Func g feeder_idle [of fs n s fn root False st] feed_line_whole [of fs s n fn st]
    by (simp add: idle_def line_stmt_def feed_defs)
  moreover have "feed_all fn root (n + 1) body (?fs, st) = (Inr (), (?fs\<lparr>f_body := body\<rparr>, st))"
    using feed_body [of ?fs _ _ _ _ _ body fn root "n + 1" st] assms(1,2) Func by (simp add: idle_def)
  moreover have "fs\<lparr>f_infunc := None, f_body := []\<rparr> = fs" using assms(1) by (simp add: idle_def)
  then have "bb_feeder m ''}'' fn root False (?fs\<lparr>f_body := body\<rparr>, st) =
    (Inr (), (fs, st @ [MethodNode fn m ?name (body @ [[]]) (group g ''py'' \<noteq> None) (group g ''fr'' \<noteq> None)]))" for m
    by (simp add: bb_feeder_def feed_func_def feed_defs)
  ultimately show ?thesis
    using Func g by (simp add: sbind_def feed_all_append sret_def algebra_simps)
next
  case (Def s body)
  with assms(3) show ?thesis by simp
next
  case (Logical cs s)
  have r: "f_residue fs = []" using assms(1) by (simp add: idle_def)
  have "hd cs \<noteq> [] \<and> hd (hd cs) \<noteq> hash" if "cs \<noteq> []"
    using assms(2) Logical that by (cases cs) (auto simp: no_comment_def)
  then have "feed_all fn root n (map (\<lambda>c. c @ [CHR 0x5C]) cs) (fs, st) = (Inr (), (fs\<lparr>f_residue := cs\<rparr>, st))"
    using feed_continued [of fs cs fn root n st] assms(1,2) Logical r by (simp add: idle_def)
  with Logical feed_last [OF assms(1), of fn cs s "n + int (length cs)" root st] assms(2) show ?thesis
    by (simp add: feed_all_append sbind_def sret_def)
qed

lemma feed_def:
  assumes "idle fs" "block_ok fn (Def s body)" "rx_match def_rx s = Some g"
  shows "feed_all fn root n (s # body) (fs, st) =
    (Inr (), (fs\<lparr>f_inpython := Some (must g ''1''), f_body := s # body\<rparr>, st))"
proof -
  let ?fs = "fs\<lparr>f_body := [s], f_inpython := Some (must g ''1'')\<rparr>"
  have "bb_feeder n s fn root False (fs, st) = (Inr (), (?fs, st))"
    using assms feeder_idle [of fs n s fn root False st] feed_line_whole [of fs s n fn st]
    by (simp add: idle_def line_stmt_def feed_defs)
  then show ?thesis
    using feed_def_body [of ?fs _ body fn root "n + 1" st] assms(1,2) by (simp add: sbind_def idle_def)
qed

lemma end_of_def:
  assumes "idle fs"
  shows "end_def n fn root name (fs\<lparr>f_inpython := Some name, f_body := body\<rparr>, st) =
    (Inr (), (fs, st @ [PythonMethodNode fn n name root body]))"
proof -
  have "fs\<lparr>f_body := [], f_inpython := None\<rparr> = fs" using assms by (simp add: idle_def)
  then show ?thesis by (simp add: end_def_def feed_defs)
qed

lemma feeder_after_def:
  assumes "idle fs" "rx_match python_func_rx l = None"
  shows "bb_feeder n l fn root False (fs\<lparr>f_inpython := Some name, f_body := body\<rparr>, st) =
    bb_feeder n l fn root False (fs, st @ [PythonMethodNode fn n name root body])"
proof -
  have "bb_feeder n l fn root False (fs\<lparr>f_inpython := Some name, f_body := body\<rparr>, st) =
    sbind (end_def n fn root name) (\<lambda>_. feed_line n l fn) (fs\<lparr>f_inpython := Some name, f_body := body\<rparr>, st)"
    using assms by (simp add: bb_feeder_def get_f_def sget_def sbind_def idle_def)
  also have "\<dots> = feed_line n l fn (fs, st @ [PythonMethodNode fn n name root body])"
    by (simp add: sbind_def end_of_def [OF assms(1)])
  finally show ?thesis using assms(1) feeder_idle [of fs n l fn root False] by (simp add: idle_def)
qed

lemma eof_after_def:
  assumes "idle fs"
  shows "bb_feeder n [] fn root True (fs\<lparr>f_inpython := Some name, f_body := body\<rparr>, st) =
    (Inr (), (fs, st @ [PythonMethodNode fn n name root body]))"
proof -
  have "bb_feeder n [] fn root True (fs\<lparr>f_inpython := Some name, f_body := body\<rparr>, st) =
    sbind (end_def n fn root name) (\<lambda>_. sret ()) (fs\<lparr>f_inpython := Some name, f_body := body\<rparr>, st)"
    using assms by (simp add: bb_feeder_def get_f_def sget_def sbind_def idle_def)
  then show ?thesis by (simp add: sbind_def end_of_def [OF assms] sret_def)
qed

definition feed_file :: "string \<Rightarrow> string \<Rightarrow> int \<Rightarrow> string list \<Rightarrow> unit feed" where
  "feed_file fn root n ls = sbind (feed_all fn root n ls) (\<lambda>_. sbind (get_f f_inpython) (\<lambda>p.
     if p = None then sret () else bb_feeder (n + int (length ls)) [] fn root True))"

lemma feed_file_append:
  assumes "feed_all fn root n xs (fs, st) = (Inr (), (fs', st'))"
  shows "feed_file fn root n (xs @ ys) (fs, st) = feed_file fn root (n + int (length xs)) ys (fs', st')"
  using assms by (simp add: feed_file_def feed_all_append sbind_def algebra_simps cong: if_cong)

lemma block_lines_ne: "block_lines b \<noteq> []"
  by (cases b) auto

lemma feed_file_blocks:
  "idle fs \<Longrightarrow> list_all (block_ok fn) bs \<Longrightarrow> blocks_apart bs \<Longrightarrow>
    feed_file fn root n (concat (map block_lines bs)) (fs, st) = (Inr (), (fs, st @ file_stmts fn root (f_classname fs) n bs))"
proof (induction bs arbitrary: n st)
  case Nil
  then show ?case by (simp add: feed_file_def feed_defs idle_def)
next
  case (Cons b bs)
  have apart: "blocks_apart bs"
    using Cons.prems(3) by (cases b; cases bs) auto
  show ?case
  proof (cases "\<exists>s body. b = Def s body")
    case False
    with Cons.prems have "feed_all fn root n (block_lines b) (fs, st) =
        (Inr (), (fs, st @ block_stmts fn root (f_classname fs) n b))" by (intro feed_block) auto
    from feed_file_append [OF this, of "concat (map block_lines bs)"] Cons.IH [OF Cons.prems(1) _ apart] Cons.prems(2)
    show ?thesis by simp
  next
    case True
    then obtain s body where b: "b = Def s body" by blast
    then obtain g where g: "rx_match def_rx s = Some g" using Cons.prems(2) by auto
    let ?pend = "fs\<lparr>f_inpython := Some (must g ''1''), f_body := s # body\<rparr>"
    let ?m = "n + int (length (s # body))"
    let ?st = "st @ [PythonMethodNode fn ?m (must g ''1'') root (s # body)]"
    have run: "feed_file fn root n (concat (map block_lines (b # bs))) (fs, st) =
        feed_file fn root ?m (concat (map block_lines bs)) (?pend, st)"
      using feed_file_append [OF feed_def [where fn = fn and body = body and root = root and n = n and st = st, OF Cons.prems(1) _ g]]
        Cons.prems(2) b by simp
    have "feed_file fn root ?m (concat (map block_lines bs)) (?pend, st) =
        feed_file fn root ?m (concat (map block_lines bs)) (fs, ?st)"
    proof (cases bs)
      case Nil
      have "feed_file fn root ?m [] (?pend, st) = bb_feeder ?m [] fn root True (?pend, st)"
        by (simp add: feed_file_def sbind_def sret_def get_f_def sget_def)
      with Nil eof_after_def [OF Cons.prems(1)] Cons.prems(1) show ?thesis
        by (simp add: feed_file_def feed_defs idle_def)
    next
      case (Cons c cs)
      obtain l ls where l: "block_lines c = l # ls" using block_lines_ne [of c] by (cases "block_lines c") auto
      with Cons.prems(3) b Cons have "rx_match python_func_rx l = None" by simp
      from feeder_after_def [OF \<open>idle fs\<close> this] show ?thesis
        by (simp add: Cons l feed_file_def sbind_def)
    qed
    also have "\<dots> = (Inr (), (fs, ?st @ file_stmts fn root (f_classname fs) ?m bs))"
      using Cons.IH [OF Cons.prems(1) _ apart] Cons.prems(2) by simp
    finally show ?thesis using run b g by (simp add: algebra_simps)
  qed
qed

text \<open>The text of the lines.\<close>

definition line_ok :: "string \<Rightarrow> bool" where
  "line_ok l \<longleftrightarrow> CHR 0x0A \<notin> set l \<and> (l = [] \<or> \<not> py_isspace (last l))"

definition unlines :: "string list \<Rightarrow> string" where
  "unlines ls = concat (map (\<lambda>l. l @ [CHR 0x0A]) ls)"

lemma readline_line: "line_ok l \<Longrightarrow> rstrip (fst (readline (l @ CHR 0x0A # s))) = l \<and> snd (readline (l @ CHR 0x0A # s)) = s"
proof -
  assume l: "line_ok l"
  have w: "takeWhile (\<lambda>c. c \<noteq> CHR 0x0A) (l @ CHR 0x0A # s) = l"
    using l by (auto simp: line_ok_def takeWhile_append)
  have "py_isspace CHR 0x0A" by (simp add: py_isspace_def)
  moreover have "dropWhile py_isspace (rev l) = rev l"
    using l by (cases l rule: rev_cases) (auto simp: line_ok_def)
  ultimately show ?thesis by (simp add: readline_def w rstrip_def)
qed

lemma bb_lines_feed: "list_all line_ok ls \<Longrightarrow> bb_lines fn root (unlines ls) n = feed_file fn root (n + 1) ls"
proof (induction ls arbitrary: n)
  case Nil
  then show ?case
    by (subst bb_lines.simps) (simp add: unlines_def feed_file_def fun_eq_iff sbind_def sret_def cong: if_cong)
next
  case (Cons l ls)
  then have l: "line_ok l" by simp
  have "bb_lines fn root (unlines (l # ls)) n = sbind (bb_feeder (n + 1) l fn root False) (\<lambda>_. bb_lines fn root (unlines ls) (n + 1))"
    using readline_line [OF l, of "unlines ls"] by (subst bb_lines.simps) (simp add: unlines_def)
  with Cons show ?case
    by (auto simp: feed_file_def sbind_def fun_eq_iff algebra_simps split: prod.splits sum.splits)
qed

text \<open>
  C22. The state machine that reads recipes and classes recognises the blocks they are written
  in: from between two blocks, a file of blank lines and comments, shell functions, Python
  functions (\<^verbatim>\<open>def\<close>) and continued lines is read without an exception; the parser is
  between two blocks again, and the statements are those of the blocks, in their order and
  with their line numbers.  The body of a function is exactly its lines.
\<close>

theorem bb_file_parsed:
  assumes "idle fs" and "list_all (block_ok fn) bs" and "blocks_apart bs"
    and "list_all line_ok (concat (map block_lines bs))"
  shows "bb_lines fn root (unlines (concat (map block_lines bs))) 0 (fs, st) =
    (Inr (), (fs, st @ file_stmts fn root (f_classname fs) 1 bs))"
  using bb_lines_feed [OF assms(4), of fn root 0] feed_file_blocks [OF assms(1,2,3)] by simp

definition block_example :: "block list" where
  "block_example = [Blank ''# a comment'', Logical [''SRC = '' @ [quote2] @ ''a ''] (''b'' @ [quote2]),
     Func ''fakeroot do_install () {'' [''  cp a b'', ''  if x; then {'', '' }'', ''# no comment''],
     Def ''def f(d):'' [''    return 1'', [], ''    pass''], Logical [] ''addtask install after do_compile'']"

lemma bb_file_parsed_witness:
  "bb_lines ''a.bb'' ''a'' (unlines (concat (map block_lines block_example))) 0 (idle_in [], []) =
    (Inr (), (idle_in [], [DataNode ''a.bb'' 3 (groupdict config_names [(''var'', ''SRC''), (''apo'', [quote2]), (''value'', ''a b'')]),
      MethodNode ''a.bb'' 9 ''do_install'' [''  cp a b'', ''  if x; then {'', '' }'', ''# no comment'', []] False True,
      PythonMethodNode ''a.bb'' 14 ''f'' ''a'' [''def f(d):'', ''    return 1'', [], ''    pass''],
      AddTaskNode ''a.bb'' 14 ''install'' None (Some ''do_compile'')]))"
proof -
  have "idle (idle_in [])" by (simp add: idle_def idle_in_def)
  moreover have "list_all (block_ok ''a.bb'') block_example" by code_simp
  moreover have "blocks_apart block_example" by code_simp
  moreover have "list_all line_ok (concat (map block_lines block_example))" by code_simp
  moreover have "file_stmts ''a.bb'' ''a'' [] 1 block_example =
     [DataNode ''a.bb'' 3 (groupdict config_names [(''var'', ''SRC''), (''apo'', [quote2]), (''value'', ''a b'')]),
      MethodNode ''a.bb'' 9 ''do_install'' [''  cp a b'', ''  if x; then {'', '' }'', ''# no comment'', []] False True,
      PythonMethodNode ''a.bb'' 14 ''f'' ''a'' [''def f(d):'', ''    return 1'', [], ''    pass''],
      AddTaskNode ''a.bb'' 14 ''install'' None (Some ''do_compile'')]" by code_simp
  ultimately show ?thesis using bb_file_parsed [of "idle_in []" "''a.bb''" block_example "''a''" "[]"]
    by (simp add: idle_in_def)
qed

end
