(* ===== verification/Ast_Nodes.thy ===== *)
theory Ast_Nodes
  imports Data_Store Parse_Lines Build_Stamps
begin

text \<open>
  The evaluation of the statements, \<^verbatim>\<open>bitbake/lib/bb/parse/ast.py\<close>: what every node does to the
  data store, and the functions \<^verbatim>\<open>addtask\<close> and \<^verbatim>\<open>deltask\<close> of \<^verbatim>\<open>bitbake/lib/bb/build.py\<close> as they
  act on the store.

  What the nodes need of the interpreter is the record \<open>nodes_env\<close>: the text of values that
  are not strings or numbers, and the compilation of the code of functions
  (\<^verbatim>\<open>methodpool.insert_method\<close>).  The file and line that go with every change are for the
  history of variables, which is left out.  Inclusion and inheritance are arguments, since
  they lead back to the parser.
\<close>

section \<open>Texts of values\<close>

fun digits_text :: "nat \<Rightarrow> string" where
  "digits_text n = (if n < 10 then [] else digits_text (n div 10)) @ [char_of (48 + n mod 10)]"

declare digits_text.simps [simp del]

definition int_text :: "int \<Rightarrow> string" where
  "int_text i = (if i < 0 then ''-'' else []) @ digits_text (nat \<bar>i\<bar>)"

record nodes_env =
  ne_interp :: interp
  ne_text :: "dval \<Rightarrow> string"
  ne_insert :: "string \<Rightarrow> string \<Rightarrow> unit res"

text \<open>\<open>"%s" % v\<close>.\<close>

definition value_text :: "nodes_env \<Rightarrow> dval \<Rightarrow> string" where
  "value_text E v = (case v of VStr s \<Rightarrow> s | VInt i \<Rightarrow> int_text i | VNone \<Rightarrow> ''None'' | _ \<Rightarrow> ne_text E v)"

text \<open>\<open>x in v\<close> for a string \<open>x\<close>, \<open>v or []\<close>, and \<open>v.remove(x)\<close> of an element.\<close>

definition dval_has :: "string \<Rightarrow> dval \<Rightarrow> bool res" where
  "dval_has x v = (case v of VList xs \<Rightarrow> Inr (VStr x \<in> set xs) | VSet xs \<Rightarrow> Inr (x \<in> set xs)
     | VStr s \<Rightarrow> Inr (occurs s x) | _ \<Rightarrow> Inl TypeError)"

definition or_empty_list :: "dval \<Rightarrow> dval" where
  "or_empty_list v = (if dval_true v then v else VList [])"

definition dval_remove :: "string \<Rightarrow> dval \<Rightarrow> dval res" where
  "dval_remove x v = (case v of VList xs \<Rightarrow> Inr (VList (remove1 (VStr x) xs))
     | VSet xs \<Rightarrow> Inr (VSet (remove1 x xs)) | _ \<Rightarrow> Inl AttributeError)"

section \<open>Assignments\<close>

text \<open>\<open>k in groupd and groupd[k] != None\<close>.\<close>

definition given :: "groupd \<Rightarrow> string \<Rightarrow> bool" where
  "given g k = (\<exists>s. map_of g k = Some (Some s))"

lemma given_eval [code]: "given g k = (case map_of g k of Some (Some s) \<Rightarrow> True | _ \<Rightarrow> False)"
  by (auto simp: given_def split: option.splits)

definition group_value :: "groupd \<Rightarrow> string \<Rightarrow> dval res" where
  "group_value g k = rbind (dget g k) (\<lambda>x. Inr (as_override x))"

definition node_flag :: "groupd \<Rightarrow> string option" where
  "node_flag g = (case map_of g ''flag'' of Some f \<Rightarrow> f | None \<Rightarrow> None)"

definition getFunc :: "interp \<Rightarrow> groupd \<Rightarrow> string \<Rightarrow> (datastore, dval) sm" where
  "getFunc I g key = (case node_flag g of Some f \<Rightarrow> getVarFlag I key f False True False
     | None \<Rightarrow> getVar I key False True True)"

text \<open>The immediate assignment expands in a copy, of which only shared sets are seen again.\<close>

definition expand_in_copy :: "interp \<Rightarrow> dval \<Rightarrow> string \<Rightarrow> (datastore, dval) sm" where
  "expand_in_copy I v name d = (case expand_value I v (Some name) (createCopy d) of (r, e) \<Rightarrow> (r, seen_from d e))"

definition node_value :: "nodes_env \<Rightarrow> groupd \<Rightarrow> string \<Rightarrow> (datastore, dval) sm" where
  "node_value E g key = (let I = ne_interp E in
     sbind (sres (\<lambda>_. if given g ''ques'' then Inr VNone else group_value g ''value'')) (\<lambda>v.
     if given g ''ques'' then sbind (getFunc I g key) (\<lambda>old.
       if old = VNone then sres (\<lambda>_. group_value g ''value'') else sret old)
     else if given g ''colon'' then expand_in_copy I v (key @ ''[:=]'')
     else if given g ''append'' then sbind (getFunc I g key) (\<lambda>old.
       sret (VStr (value_text E (or_empty_str old) @ '' '' @ value_text E v)))
     else if given g ''prepend'' then sbind (getFunc I g key) (\<lambda>old.
       sret (VStr (value_text E v @ '' '' @ value_text E (or_empty_str old))))
     else if given g ''postdot'' then sbind (getFunc I g key) (\<lambda>old.
       sret (VStr (value_text E (or_empty_str old) @ value_text E v)))
     else if given g ''predot'' then sbind (getFunc I g key) (\<lambda>old.
       sret (VStr (value_text E v @ value_text E (or_empty_str old))))
     else sret v))"

text \<open>Where the value goes: to a flag, to the weak default or to the variable.\<close>

definition node_target :: "groupd \<Rightarrow> string option res" where
  "node_target g = (case node_flag g of Some f \<Rightarrow> Inr (if f = [] then None else Some f)
     | None \<Rightarrow> rbind (dget g ''lazyques'') (\<lambda>q. Inr (if q = None \<or> q = Some [] then None else Some ''_defaultval'')))"

definition data_node :: "nodes_env \<Rightarrow> groupd \<Rightarrow> (datastore, unit) sm" where
  "data_node E g = (let I = ne_interp E in
     sbind (sres (\<lambda>_. dget g ''var'')) (\<lambda>k. let key = (case k of Some x \<Rightarrow> x | None \<Rightarrow> []) in
     sbind (if given g ''exp'' then setVarFlag I key ''export'' (VInt 1) else sret ()) (\<lambda>_.
     sbind (node_value E g key) (\<lambda>val.
     sbind (sres (\<lambda>_. node_target g)) (\<lambda>f.
     sbind (sres (\<lambda>_. dget g ''value'')) (\<lambda>_.
     case f of Some x \<Rightarrow> setVarFlag I key x val | None \<Rightarrow> setVar I key val True))))))"

section \<open>Functions\<close>

text \<open>\<open>filename.translate(MethodNode.tr_tbl)\<close>.\<close>

definition tr_char :: "char \<Rightarrow> char" where
  "tr_char c = (if c \<in> set ''/.+-@%&'' then CHR ''_'' else c)"

definition anon_name :: "int \<Rightarrow> string \<Rightarrow> string" where
  "anon_name lineno fn = ''__anon_'' @ int_text lineno @ ''_'' @ map tr_char fn"

definition newline :: string where "newline = [CHR 0x0A]"

definition append_to_list :: "interp \<Rightarrow> string \<Rightarrow> string \<Rightarrow> (datastore, unit) sm" where
  "append_to_list I var x = sbind (getVar I var False False False) (\<lambda>l.
     sbind (sres (\<lambda>_. dval_append1 l (VStr x))) (\<lambda>l'. setVar I var l' False))"

definition method_body :: "nodes_env \<Rightarrow> string \<Rightarrow> string \<Rightarrow> bool \<Rightarrow> bool \<Rightarrow> string \<Rightarrow> int \<Rightarrow> (datastore, unit) sm" where
  "method_body E funcname code py fakeroot fn line = (let I = ne_interp E in
     sbind (getVar I funcname False False False) (\<lambda>old.
     sbind (if dval_true old then sbind (delVarFlag funcname ''python'') (\<lambda>_. delVarFlag funcname ''fakeroot'')
            else sret ()) (\<lambda>_.
     sbind (if py then setVarFlag I funcname ''python'' (VStr ''1'') else sret ()) (\<lambda>_.
     sbind (if fakeroot then setVarFlag I funcname ''fakeroot'' (VStr ''1'') else sret ()) (\<lambda>_.
     sbind (setVarFlag I funcname ''func'' (VInt 1)) (\<lambda>_.
     sbind (setVar I funcname (VStr code) True) (\<lambda>_.
     sbind (setVarFlag I funcname ''filename'' (VStr fn)) (\<lambda>_.
     setVarFlag I funcname ''lineno'' (VStr (int_text line))))))))))"

definition method_node :: "nodes_env \<Rightarrow> string \<Rightarrow> int \<Rightarrow> string \<Rightarrow> string list \<Rightarrow> bool \<Rightarrow> bool \<Rightarrow>
    (datastore, unit) sm" where
  "method_node E fn lineno name body py fakeroot =
     (let I = ne_interp E; code = join newline body; line = lineno - int (length body) in
      if name = ''__anonymous'' then
        let funcname = anon_name lineno fn; code = ''def '' @ funcname @ ''(d):'' @ newline @ code in
        sbind (sres (\<lambda>_. ne_insert E funcname code)) (\<lambda>_.
        sbind (append_to_list I ''__BBANONFUNCS'' funcname) (\<lambda>_.
        method_body E funcname code True fakeroot fn line))
      else method_body E name code py fakeroot fn line)"

definition python_method_node :: "nodes_env \<Rightarrow> string \<Rightarrow> int \<Rightarrow> string \<Rightarrow> string \<Rightarrow> string list \<Rightarrow>
    (datastore, unit) sm" where
  "python_method_node E fn lineno func module body =
     (let I = ne_interp E; code = join newline body; line = lineno - int (length body) - 1 in
      sbind (sres (\<lambda>_. ne_insert E module code)) (\<lambda>_.
      sbind (setVarFlag I func ''func'' (VInt 1)) (\<lambda>_.
      sbind (setVarFlag I func ''python'' (VInt 1)) (\<lambda>_.
      sbind (setVar I func (VStr code) True) (\<lambda>_.
      sbind (setVarFlag I func ''filename'' (VStr fn)) (\<lambda>_.
      setVarFlag I func ''lineno'' (VStr (int_text line))))))))"

section \<open>Exported functions and event handlers\<close>

definition copy_flag :: "interp \<Rightarrow> string \<Rightarrow> string \<Rightarrow> string \<Rightarrow> (datastore, unit) sm" where
  "copy_flag I from1 to1 flag = sbind (getVarFlag I from1 flag False False False) (\<lambda>v.
     if dval_true v then sbind (getVarFlag I from1 flag False False False) (setVarFlag I to1 flag) else sret ())"

definition exec_call :: "string \<Rightarrow> string" where
  "exec_call f = ''    bb.build.exec_func('' @ [quote1] @ f @ [quote1] @ '', d)'' @ newline"

definition export_func :: "interp \<Rightarrow> string \<Rightarrow> string \<Rightarrow> (datastore, unit) sm" where
  "export_func I classname func = (let calledfunc = classname @ ''_'' @ func in
     sbind (getVar I func False False False) (\<lambda>v.
     sbind (if dval_true v then getVarFlag I func ''export_func'' False False False else sret (VInt 1)) (\<lambda>ef.
     if \<not> dval_true ef then sret ()
     else
       sbind (getVar I func False False False) (\<lambda>v.
       sbind (if dval_true v then sbind (setVarFlag I func ''python'' VNone) (\<lambda>_. setVarFlag I func ''func'' VNone)
              else sret ()) (\<lambda>_.
       sbind (copy_flag I calledfunc func ''func'') (\<lambda>_.
       sbind (copy_flag I calledfunc func ''python'') (\<lambda>_.
       sbind (copy_flag I func calledfunc ''dirs'') (\<lambda>_.
       sbind (setVarFlag I func ''filename'' (VStr ''autogenerated'')) (\<lambda>_.
       sbind (setVarFlag I func ''lineno'' (VInt 1)) (\<lambda>_.
       sbind (getVarFlag I calledfunc ''python'' False False False) (\<lambda>py.
       sbind (if dval_true py then setVar I func (VStr (exec_call calledfunc)) True
              else if CHR ''-'' \<in> set classname then sraise BBHandledException
              else setVar I func (VStr (''    '' @ calledfunc @ newline)) True) (\<lambda>_.
       setVarFlag I func ''export_func'' (VStr ''1'')))))))))))))"

definition export_funcs_node :: "interp \<Rightarrow> string list \<Rightarrow> string \<Rightarrow> (datastore, unit) sm" where
  "export_funcs_node I fns classname = sfor fns (export_func I classname)"

fun add_handlers :: "interp \<Rightarrow> string list \<Rightarrow> dval \<Rightarrow> (datastore, dval) sm" where
  "add_handlers I [] l = sret l"
| "add_handlers I (h # hs) l = sbind (sres (\<lambda>_. dval_append1 l (VStr h))) (\<lambda>l'.
     sbind (setVarFlag I h ''handler'' (VInt 1)) (\<lambda>_. add_handlers I hs l'))"

definition handler_node :: "interp \<Rightarrow> string list \<Rightarrow> (datastore, unit) sm" where
  "handler_node I hs = sbind (getVar I ''__BBHANDLERS'' False False False) (\<lambda>l.
     sbind (add_handlers I hs (or_empty_list l)) (\<lambda>l'. setVar I ''__BBHANDLERS'' l' False))"

section \<open>Tasks\<close>

definition get_list :: "interp \<Rightarrow> string \<Rightarrow> string \<Rightarrow> (datastore, dval) sm" where
  "get_list I var flag = sbind (getVarFlag I var flag False False False) (\<lambda>v. sret (or_empty_list v))"

definition tasks_var :: string where "tasks_var = ''__BBTASKS''"

text \<open>\<open>if x not in l: l.append(x)\<close>.\<close>

definition append_new :: "string \<Rightarrow> dval \<Rightarrow> dval res" where
  "append_new x l = rbind (dval_has x l) (\<lambda>b. if b then Inr l else dval_append1 l (VStr x))"

definition task_before :: "interp \<Rightarrow> string \<Rightarrow> string \<Rightarrow> (datastore, unit) sm" where
  "task_before I task entry = sbind (get_list I entry ''deps'') (\<lambda>existing.
     sbind (sres (\<lambda>_. dval_has task existing)) (\<lambda>b.
     if b then sret ()
     else sbind (sres (\<lambda>_. dval_add (VList [VStr task]) existing)) (setVarFlag I entry ''deps'')))"

definition data_addtask :: "interp \<Rightarrow> string \<Rightarrow> string option \<Rightarrow> string option \<Rightarrow> (datastore, unit) sm" where
  "data_addtask I task0 before after = (let task = task_prefix task0 in
     sbind (setVarFlag I task ''task'' (VInt 1)) (\<lambda>_.
     sbind (get_list I tasks_var ''_content'') (\<lambda>bbtasks.
     sbind (sres (\<lambda>_. append_new task bbtasks)) (\<lambda>bbtasks'.
     sbind (setVar I tasks_var bbtasks' False) (\<lambda>_.
     sbind (get_list I task ''deps'') (\<lambda>existing.
     sbind (sres (\<lambda>_. rfold append_new (case after of None \<Rightarrow> [] | Some s \<Rightarrow> split_ws s) existing)) (\<lambda>existing'.
     sbind (setVarFlag I task ''deps'' existing') (\<lambda>_.
     sfor (case before of None \<Rightarrow> [] | Some s \<Rightarrow> split_ws s) (task_before I task)))))))))"

definition drop_task_dep :: "interp \<Rightarrow> string \<Rightarrow> string \<Rightarrow> (datastore, unit) sm" where
  "drop_task_dep I task bbtask = sbind (get_list I bbtask ''deps'') (\<lambda>deps.
     sbind (sres (\<lambda>_. dval_has task deps)) (\<lambda>b.
     if \<not> b then sret ()
     else sbind (sres (\<lambda>_. dval_remove task deps)) (setVarFlag I bbtask ''deps'')))"

text \<open>The variables a list names: numbers and None name none, and lists and sets cannot be looked up.\<close>

definition names_in :: "dval \<Rightarrow> string list res" where
  "names_in v = (case v of VStr s \<Rightarrow> Inr [s] | VInt i \<Rightarrow> Inr [] | VNone \<Rightarrow> Inr [] | _ \<Rightarrow> Inl TypeError)"

definition data_deltask :: "interp \<Rightarrow> string \<Rightarrow> (datastore, unit) sm" where
  "data_deltask I task0 = (let task = task_prefix task0 in
     sbind (get_list I tasks_var ''_content'') (\<lambda>bbtasks.
     sbind (sres (\<lambda>_. dval_has task bbtasks)) (\<lambda>b.
     sbind (if \<not> b then sret ()
            else sbind (sres (\<lambda>_. dval_remove task bbtasks)) (\<lambda>l.
              sbind (delVarFlag task ''task'') (\<lambda>_. setVar I tasks_var l False))) (\<lambda>_.
     sbind (delVarFlag task ''deps'') (\<lambda>_.
     sbind (get_list I tasks_var ''_content'') (\<lambda>l.
     sbind (sres (\<lambda>_. rbind (dval_items l) (rmap names_in))) (\<lambda>ts. sfor (concat ts) (drop_task_dep I task))))))))"

section \<open>Statements\<close>

text \<open>
  The state of the parser: the data store and what the modules keep, the globals of the line
  parser and the statements of the classes and include files read so far.
\<close>

record pstate =
  ps_data :: datastore
  ps_feed :: fstate
  ps_cached :: "(string \<times> stmt list) list"

definition on_data :: "(datastore, 'a) sm \<Rightarrow> (pstate, 'a) sm" where
  "on_data m s = (case m (ps_data s) of (r, d) \<Rightarrow> (r, s\<lparr>ps_data := d\<rparr>))"

text \<open>
  \<open>eval\<close> of every node.  The argument \<open>inc\<close> is \<^verbatim>\<open>ConfHandler.include\<close> (parent file, file,
  line, the verb of the error or none) and \<open>inh\<close> is \<^verbatim>\<open>BBHandler.inherit\<close>.
\<close>

type_synonym includer = "string \<Rightarrow> dval \<Rightarrow> int \<Rightarrow> string option \<Rightarrow> (pstate, unit) sm"
type_synonym inheriter = "string \<Rightarrow> string \<Rightarrow> int \<Rightarrow> (pstate, unit) sm"

fun eval_stmt :: "nodes_env \<Rightarrow> includer \<Rightarrow> inheriter \<Rightarrow> stmt \<Rightarrow> (pstate, unit) sm" where
  "eval_stmt E inc inh (IncludeNode fn lineno what force) =
     sbind (on_data (expand_value (ne_interp E) (VStr what) None)) (\<lambda>s.
     inc fn s lineno (if force then Some ''include required'' else None))"
| "eval_stmt E inc inh (ExportNode fn lineno var) = on_data (setVarFlag (ne_interp E) var ''export'' (VInt 1))"
| "eval_stmt E inc inh (UnsetNode fn lineno var) = on_data (delVar var)"
| "eval_stmt E inc inh (UnsetFlagNode fn lineno var flag) = on_data (delVarFlag var flag)"
| "eval_stmt E inc inh (DataNode fn lineno g) = on_data (data_node E g)"
| "eval_stmt E inc inh (MethodNode fn lineno name body py fakeroot) = on_data (method_node E fn lineno name body py fakeroot)"
| "eval_stmt E inc inh (PythonMethodNode fn lineno func module body) = on_data (python_method_node E fn lineno func module body)"
| "eval_stmt E inc inh (ExportFuncsNode fn lineno fns classname) = on_data (export_funcs_node (ne_interp E) fns classname)"
| "eval_stmt E inc inh (AddTaskNode fn lineno func before after) = on_data (data_addtask (ne_interp E) func before after)"
| "eval_stmt E inc inh (DelTaskNode fn lineno func) = on_data (data_deltask (ne_interp E) func)"
| "eval_stmt E inc inh (BBHandlerNode fn lineno hs) = on_data (handler_node (ne_interp E) hs)"
| "eval_stmt E inc inh (InheritNode fn lineno classes) = inh classes fn lineno"

text \<open>\<open>StatementGroup.eval\<close>.\<close>

definition eval_stmts :: "nodes_env \<Rightarrow> includer \<Rightarrow> inheriter \<Rightarrow> stmt list \<Rightarrow> (pstate, unit) sm" where
  "eval_stmts E inc inh sts = sfor sts (eval_stmt E inc inh)"

end
