(* ===== verification/Parse_Files.thy ===== *)
theory Parse_Files
  imports Ast_Nodes
begin

text \<open>
  From files to the data store: \<^verbatim>\<open>handle\<close>, \<^verbatim>\<open>include\<close> and \<^verbatim>\<open>inherit\<close> of
  \<^verbatim>\<open>bitbake/lib/bb/parse/parse_py\<close>, the search for files and the record of the files a recipe
  depends on (\<^verbatim>\<open>bitbake/lib/bb/parse/__init__.py\<close>, \<^verbatim>\<open>which\<close> of \<^verbatim>\<open>bitbake/lib/bb/utils.py\<close>).

  The files are an argument that does not change while files are read, so the cache of
  modification times is the modification times.  A file includes another by calling the
  parser again: \<open>handle_file\<close> has a recursion depth, which ends in a \<open>RecursionError\<close>.  The
  filters a user interface can add to configuration files are left out, and the
  finalisation of a recipe is reported as the result \<open>ToFinalize\<close>.
\<close>

section \<open>Paths\<close>

text \<open>The functions of \<open>os.path\<close>.\<close>

definition isabs :: "string \<Rightarrow> bool" where
  "isabs p = startswith p ''/''"

definition path_join :: "string \<Rightarrow> string \<Rightarrow> string" where
  "path_join a b = (if startswith b ''/'' then b else if a = [] \<or> last a = CHR ''/'' then a @ b else a @ ''/'' @ b)"

definition path_base :: "string \<Rightarrow> string" where
  "path_base p = rev (takeWhile (\<lambda>c. c \<noteq> CHR ''/'') (rev p))"

definition path_dir :: "string \<Rightarrow> string" where
  "path_dir p = (let h = rev (dropWhile (\<lambda>c. c \<noteq> CHR ''/'') (rev p))
     in if list_all (\<lambda>c. c = CHR ''/'') h then h else rev (dropWhile (\<lambda>c. c = CHR ''/'') (rev h)))"

text \<open>\<open>splitext\<close> of a name without slashes; leading dots do not begin an extension.\<close>

definition splitext :: "string \<Rightarrow> string \<times> string" where
  "splitext p = (let d = takeWhile (\<lambda>c. c = CHR ''.'') p; q = dropWhile (\<lambda>c. c = CHR ''.'') p
     in if CHR ''.'' \<in> set q then (case rsplit1 CHR ''.'' q of [a, b] \<Rightarrow> (d @ a, CHR ''.'' # b) | _ \<Rightarrow> (p, []))
        else (p, []))"

fun norm_parts :: "bool \<Rightarrow> string list \<Rightarrow> string list \<Rightarrow> string list" where
  "norm_parts root acc [] = rev acc"
| "norm_parts root acc (c # cs) = (if c = [] \<or> c = ''.'' then norm_parts root acc cs
     else if c \<noteq> ''..'' \<or> (\<not> root \<and> acc = []) \<or> (acc \<noteq> [] \<and> hd acc = ''..'') then norm_parts root (c # acc) cs
     else norm_parts root (tl acc) cs)"

definition normpath :: "string \<Rightarrow> string" where
  "normpath p = (if p = [] then ''.'' else
     let lead = (if startswith p ''//'' \<and> \<not> startswith p ''///'' then ''//'' else if startswith p ''/'' then ''/'' else []);
         q = lead @ join ''/'' (norm_parts (lead \<noteq> []) [] (split_on CHR ''/'' p))
     in if q = [] then ''.'' else q)"

text \<open>
  The files: the text of a file that can be opened, what exists and what is a file, the
  times of modification and the working directory.
\<close>

record files_env =
  fe_nodes :: nodes_env
  fe_open :: "string \<Rightarrow> string option"
  fe_exists :: "string \<Rightarrow> bool"
  fe_isfile :: "string \<Rightarrow> bool"
  fe_mtime :: "string \<Rightarrow> int option"
  fe_cwd :: string
  fe_depth :: nat

abbreviation "fe_interp F \<equiv> ne_interp (fe_nodes F)"

definition abspath :: "files_env \<Rightarrow> string \<Rightarrow> string" where
  "abspath F p = normpath (if isabs p then p else path_join (fe_cwd F) p)"

section \<open>Dependencies on files\<close>

definition depends_var :: string where "depends_var = ''__depends''"

definition file_entry :: "files_env \<Rightarrow> string \<Rightarrow> dval" where
  "file_entry F f = VList [VStr f, VInt (case fe_mtime F f of Some m \<Rightarrow> m | None \<Rightarrow> 0)]"

text \<open>\<open>e in l\<close> for a pair \<open>e\<close>.\<close>

definition entry_in :: "dval \<Rightarrow> dval \<Rightarrow> bool res" where
  "entry_in e l = (case l of VList xs \<Rightarrow> Inr (e \<in> set xs) | VSet xs \<Rightarrow> Inr False | _ \<Rightarrow> Inl TypeError)"

definition mark_path :: "files_env \<Rightarrow> string \<Rightarrow> string" where
  "mark_path F f = (if startswith f ''./'' then fe_cwd F @ ''/'' @ drop 2 f else f)"

definition mark_dependency :: "files_env \<Rightarrow> string \<Rightarrow> (datastore, unit) sm" where
  "mark_dependency F f0 = (let f = mark_path F f0; I = fe_interp F in
     sbind (get_list I depends_var ''_content'') (\<lambda>deps.
     sbind (sres (\<lambda>_. entry_in (file_entry F f) deps)) (\<lambda>b.
     if b then sret ()
     else sbind (sres (\<lambda>_. dval_append1 deps (file_entry F f))) (\<lambda>l. setVar I depends_var l False))))"

definition check_dependency :: "files_env \<Rightarrow> string \<Rightarrow> (datastore, bool) sm" where
  "check_dependency F f = sbind (get_list (fe_interp F) depends_var ''_content'') (\<lambda>deps.
     sres (\<lambda>_. entry_in (file_entry F f) deps))"

text \<open>\<open>which(path, item, history=True)\<close>.\<close>

fun which_in :: "files_env \<Rightarrow> string list \<Rightarrow> string \<Rightarrow> string list \<Rightarrow> string \<times> string list" where
  "which_in F [] f hist = ([], hist)"
| "which_in F (p # ps) f hist = (let next1 = path_join p f; hist = hist @ [next1] in
     if fe_exists F next1 then (if isabs next1 then next1 else abspath F next1, hist)
     else which_in F ps f hist)"

definition which :: "files_env \<Rightarrow> string \<Rightarrow> string \<Rightarrow> string \<times> string list" where
  "which F path f = which_in F (split_on CHR '':'' path) f []"

definition which_var :: "files_env \<Rightarrow> dval \<Rightarrow> string \<Rightarrow> (string \<times> string list) res" where
  "which_var F path f = rbind (dval_split CHR '':'' (or_empty_str path)) (\<lambda>ps. Inr (which_in F ps f []))"

definition resolve_file :: "files_env \<Rightarrow> string \<Rightarrow> (datastore, string) sm" where
  "resolve_file F fn =
     sbind (if isabs fn then sret fn
       else sbind (getVar (fe_interp F) ''BBPATH'' True False False) (\<lambda>bbpath.
         sbind (sres (\<lambda>_. which_var F bbpath fn)) (\<lambda>(newfn, attempts).
         sbind (sfor attempts (mark_dependency F)) (\<lambda>_.
         if newfn = [] then sraise (NoSuchFile fn) else sret newfn)))) (\<lambda>fn.
     sbind (mark_dependency F fn) (\<lambda>_.
     if fe_isfile F fn then sret fn else sraise (NoSuchFile fn)))"

definition open_file :: "files_env \<Rightarrow> string \<Rightarrow> string res" where
  "open_file F fn = (case fe_open F fn of Some t \<Rightarrow> Inr t | None \<Rightarrow> Inl OSError)"

definition init_parser :: "files_env \<Rightarrow> (datastore, unit) sm" where
  "init_parser F = sbind (getVar (fe_interp F) ''TOPDIR'' False False False) (\<lambda>t.
     if dval_true t then sret () else setVar (fe_interp F) ''TOPDIR'' (VStr (fe_cwd F)) False)"

section \<open>Including\<close>

text \<open>What is left to do when a file has been read.\<close>

datatype handled = Done | Skipped | ToFinalize

type_synonym file_handler = "string \<Rightarrow> (pstate, handled) sm"

definition string_of :: "dval \<Rightarrow> string res" where
  "string_of v = (case v of VStr s \<Rightarrow> Inr s | _ \<Rightarrow> Inl TypeError)"

text \<open>The error that the exceptions of the operating system become.\<close>

definition is_os_error :: "exc \<Rightarrow> bool" where
  "is_os_error e = (case e of OSError \<Rightarrow> True | NoSuchFile f \<Rightarrow> True | _ \<Rightarrow> False)"

definition is_skip :: "exc \<Rightarrow> bool" where
  "is_skip e = (case e of SkipRecipe w \<Rightarrow> True | _ \<Rightarrow> False)"

definition include_error :: "string option \<Rightarrow> string \<Rightarrow> exc \<Rightarrow> (pstate, unit) sm" where
  "include_error error_out fn e = (case error_out of
     Some w \<Rightarrow> sraise (ParseError (''Could not '' @ w @ '' file '' @ fn))
   | None \<Rightarrow> if e = OSError then sraise (ParseError (''Error parsing '' @ fn)) else sret ())"

definition find_included :: "files_env \<Rightarrow> string \<Rightarrow> string \<Rightarrow> (datastore, string) sm" where
  "find_included F parentfn fn = (let I = fe_interp F in
     if \<not> isabs fn then
       sbind (getVar I ''BBPATH'' True False False) (\<lambda>bbpath.
       let (abs_fn, attempts) = which F (path_dir parentfn @ '':'' @ value_text (fe_nodes F) bbpath) fn in
       sbind (if abs_fn \<noteq> [] then check_dependency F abs_fn else sret False) (\<lambda>dup.
       sbind (if dup then getVar I ''FILE'' True False False else sret VNone) (\<lambda>_.
       sbind (sfor attempts (mark_dependency F)) (\<lambda>_.
       sret (if abs_fn \<noteq> [] then abs_fn else fn)))))
     else sbind (check_dependency F fn) (\<lambda>dup.
       sbind (if dup then getVar I ''FILE'' True False False else sret VNone) (\<lambda>_. sret fn)))"

definition include_file :: "files_env \<Rightarrow> file_handler \<Rightarrow> includer" where
  "include_file F hnd parentfn fn0 lineno error_out = (let I = fe_interp F in
     if VStr parentfn = fn0 then sret ()
     else sbind (on_data (expand_value I fn0 None)) (\<lambda>fn1.
       sbind (on_data (expand_value I (VStr parentfn) None)) (\<lambda>parent1.
       sbind (sres (\<lambda>_. string_of fn1)) (\<lambda>fn1.
       sbind (sres (\<lambda>_. string_of parent1)) (\<lambda>parent1.
       sbind (on_data (find_included F parent1 fn1)) (\<lambda>fn.
       scatch (sbind (hnd fn) (\<lambda>_. sret ())) is_os_error
         (include_error error_out fn)))))))"

text \<open>A class that is not inherited yet is included.\<close>

definition cache_var :: string where "cache_var = ''__inherit_cache''"

definition class_file :: "string \<Rightarrow> string" where
  "class_file f = (if \<not> isabs f \<and> \<not> endswith f ''.bbclass'' then path_join ''classes'' (f @ ''.bbclass'') else f)"

definition find_class :: "files_env \<Rightarrow> string \<Rightarrow> (datastore, string) sm" where
  "find_class F f = (if isabs f then sret f
     else sbind (getVar (fe_interp F) ''BBPATH'' True False False) (\<lambda>bbpath.
       sbind (sres (\<lambda>_. which_var F bbpath f)) (\<lambda>(abs_fn, attempts).
       sbind (sfor (filter (\<lambda>af. af \<noteq> abs_fn) attempts) (mark_dependency F)) (\<lambda>_.
       sret (if abs_fn \<noteq> [] then abs_fn else f)))))"

fun inherit_files :: "files_env \<Rightarrow> file_handler \<Rightarrow> string \<Rightarrow> int \<Rightarrow> string list \<Rightarrow> dval \<Rightarrow> (pstate, unit) sm" where
  "inherit_files F hnd fn lineno [] cache = sret ()"
| "inherit_files F hnd fn lineno (f # fs) cache = (let I = fe_interp F in
     sbind (on_data (find_class F (class_file f))) (\<lambda>file.
     sbind (sres (\<lambda>_. dval_has file cache)) (\<lambda>b.
     if b then inherit_files F hnd fn lineno fs cache
     else sbind (sres (\<lambda>_. dval_append1 cache (VStr file))) (\<lambda>cache'.
       sbind (on_data (setVar I cache_var cache' False)) (\<lambda>_.
       sbind (include_file F hnd fn (VStr file) lineno (Some ''inherit'')) (\<lambda>_.
       sbind (on_data (get_list I cache_var ''_content'')) (\<lambda>cache''.
       inherit_files F hnd fn lineno fs cache'')))))))"

definition inherit :: "files_env \<Rightarrow> file_handler \<Rightarrow> inheriter" where
  "inherit F hnd files fn lineno = (let I = fe_interp F in
     sbind (on_data (get_list I cache_var ''_content'')) (\<lambda>cache.
     sbind (on_data (expand_value I (VStr files) None)) (\<lambda>v.
     sbind (sres (\<lambda>_. dval_words v)) (\<lambda>fs. inherit_files F hnd fn lineno fs cache))))"

section \<open>Reading a file\<close>

definition set_FILE :: "files_env \<Rightarrow> dval \<Rightarrow> (pstate, unit) sm" where
  "set_FILE F v = on_data (setVar (fe_interp F) ''FILE'' v False)"

definition evaluate :: "files_env \<Rightarrow> file_handler \<Rightarrow> stmt list \<Rightarrow> (pstate, unit) sm" where
  "evaluate F hnd = eval_stmts (fe_nodes F) (include_file F hnd) (inherit F hnd)"

definition conf_handle :: "files_env \<Rightarrow> file_handler \<Rightarrow> string \<Rightarrow> bool \<Rightarrow> (pstate, handled) sm" where
  "conf_handle F hnd fn included = (let I = fe_interp F in
     sbind (on_data (init_parser F)) (\<lambda>_.
     sbind (if included then on_data (getVar I ''FILE'' False False False) else sret VNone) (\<lambda>oldfile.
     sbind (on_data (resolve_file F fn)) (\<lambda>abs_fn.
     sbind (sres (\<lambda>_. open_file F abs_fn)) (\<lambda>input.
     sbind (if included then on_data (mark_dependency F abs_fn) else sret ()) (\<lambda>_.
     sbind (sres (\<lambda>_. conf_lines abs_fn input 0 [])) (\<lambda>statements.
     sbind (set_FILE F (VStr abs_fn)) (\<lambda>_.
     sbind (evaluate F hnd statements) (\<lambda>_.
     sbind (if dval_true oldfile then set_FILE F oldfile else sret ()) (\<lambda>_. sret Done))))))))))"

text \<open>\<open>get_statements\<close>: classes and include files are parsed once.\<close>

definition on_feed :: "unit feed \<Rightarrow> (pstate, stmt list) sm" where
  "on_feed m s = (case m (ps_feed s, []) of (r, (fs, st)) \<Rightarrow>
     ((case r of Inl e \<Rightarrow> Inl e | Inr _ \<Rightarrow> Inr st), s\<lparr>ps_feed := fs\<rparr>))"

definition get_statements :: "files_env \<Rightarrow> string \<Rightarrow> string \<Rightarrow> string \<Rightarrow> (pstate, stmt list) sm" where
  "get_statements F fn abs_fn base_name = sbind (sget (\<lambda>s. map_of (ps_cached s) abs_fn)) (\<lambda>c.
     case c of Some st \<Rightarrow> sret st
     | None \<Rightarrow> sbind (sres (\<lambda>_. open_file F abs_fn)) (\<lambda>input.
         sbind (on_feed (bb_lines fn base_name input 0)) (\<lambda>st.
         sbind (if endswith fn ''.bbclass'' \<or> endswith fn ''.inc''
           then supd (\<lambda>s. s\<lparr>ps_cached := dset abs_fn st (ps_cached s)\<rparr>) else sret ()) (\<lambda>_. sret st))))"

definition reset_feed :: "string \<Rightarrow> (pstate, unit) sm" where
  "reset_feed cls = supd (\<lambda>s. s\<lparr>ps_feed := (ps_feed s)\<lparr>f_body := [], f_infunc := None, f_classname := cls,
     f_residue := []\<rparr>\<rparr>)"

text \<open>A class adds itself to the inherited classes.\<close>

definition add_class :: "files_env \<Rightarrow> string \<Rightarrow> (datastore, unit) sm" where
  "add_class F fn = (let I = fe_interp F in
     sbind (get_list I cache_var ''_content'') (\<lambda>cache.
     sbind (sres (\<lambda>_. dval_has fn cache)) (\<lambda>b.
     if b then sret ()
     else sbind (sres (\<lambda>_. dval_append1 cache (VStr fn))) (\<lambda>l. setVar I cache_var l False))))"

text \<open>
  After the evaluation a function that is still open is an error, and so is what is left of a
  line; the message of the second is made from a list, which is a \<open>TypeError\<close>.
\<close>

definition check_closed :: "(pstate, unit) sm" where
  "check_closed = sbind (sget ps_feed) (\<lambda>fs.
     case f_infunc fs of
       Some (name, _) \<Rightarrow> sraise (ParseError (''Shell function '' @ name @ '' is never closed''))
     | None \<Rightarrow> if f_residue fs \<noteq> [] then sraise TypeError else sret ())"

definition bb_handle :: "files_env \<Rightarrow> file_handler \<Rightarrow> string \<Rightarrow> bool \<Rightarrow> (pstate, handled) sm" where
  "bb_handle F hnd fn included = (let I = fe_interp F; base_name = path_base fn; (root, ext) = splitext base_name in
     sbind (reset_feed []) (\<lambda>_.
     sbind (on_data (init_parser F)) (\<lambda>_.
     sbind (if ext = ''.bbclass'' then sbind (reset_feed root) (\<lambda>_. on_data (add_class F fn)) else sret ()) (\<lambda>_.
     sbind (if included then on_data (getVar I ''FILE'' False False False) else sret VNone) (\<lambda>oldfile.
     sbind (on_data (resolve_file F fn)) (\<lambda>abs_fn.
     sbind (if included then on_data (mark_dependency F abs_fn) else sret ()) (\<lambda>_.
     sbind (get_statements F fn abs_fn base_name) (\<lambda>statements.
     sbind (if ext \<noteq> ''.bbclass'' \<and> VStr abs_fn \<noteq> oldfile then set_FILE F (VStr abs_fn) else sret ()) (\<lambda>_.
     sbind (scatch (sbind (evaluate F hnd statements) (\<lambda>_. sret False)) is_skip
       (\<lambda>_. sbind (on_data (setVar I ''__SKIPPED'' (VInt 1) False)) (\<lambda>_. sret True))) (\<lambda>skipped.
     if skipped \<and> \<not> included then sret Skipped
     else sbind check_closed (\<lambda>_.
       if ext \<noteq> ''.bbclass'' \<and> \<not> included then sret ToFinalize
       else sbind (if ext \<noteq> ''.bbclass'' \<and> dval_true oldfile \<and> VStr abs_fn \<noteq> oldfile then set_FILE F oldfile
         else sret ()) (\<lambda>_. sret Done))))))))))))"

definition conf_supports :: "string \<Rightarrow> bool" where
  "conf_supports fn = endswith fn ''.conf''"

definition bb_supports :: "string \<Rightarrow> bool" where
  "bb_supports fn = (snd (splitext (path_base fn)) \<in> set [''.bb'', ''.bbclass'', ''.inc''])"

text \<open>\<open>bb.parse.handle\<close>.\<close>

fun handle_file :: "nat \<Rightarrow> files_env \<Rightarrow> string \<Rightarrow> bool \<Rightarrow> (pstate, handled) sm" where
  "handle_file 0 F fn included = sraise RecursionError"
| "handle_file (Suc n) F fn included =
     (let hnd = (\<lambda>f. handle_file n F f True)
      in if conf_supports fn then conf_handle F hnd fn included
         else if bb_supports fn then bb_handle F hnd fn included
         else sraise (ParseError ''not a BitBake file''))"

definition parse_handle :: "files_env \<Rightarrow> string \<Rightarrow> bool \<Rightarrow> (pstate, handled) sm" where
  "parse_handle F fn included = handle_file (fe_depth F) F fn included"

end
