(* ===== verification/Ast_Facts.thy ===== *)
theory Ast_Facts
  imports Parse_Files Parse_Lines_Facts Data_Store_Facts
begin

text \<open>
  What statements do to the data store.  The effect of an assignment is stated from its line
  to the table of variables and flags that the layers of the store implement.
\<close>

section \<open>Setting and reading while parsing\<close>

lemma get_parsing:
  assumes "table d var ''_remove'' = None"
  shows "get_flag_with I get var ''_content'' False nw True d = (Inr (copy_value d (stored_in (table d var) nw)), d)"
proof (cases "findVar d var")
  case None
  then have "stored_in (table d var) nw = VNone" by (simp add: table_def stored_in_def)
  with None show ?thesis
    by (simp add: get_flag_with_def read_stored_def read_additions_def sm_defs copy_value_def)
next
  case (Some fs)
  then have t: "table d var = map_of fs" by (simp add: table_def)
  with assms have "map_of fs ''_remove'' = None" by simp
  with Some show ?thesis
    by (simp add: get_flag_with_def read_stored_def read_additions_def sm_defs stored_table [OF Some] t)
qed

lemma getVar_parsing:
  assumes "table d var ''_remove'' = None" "0 < py_depth I"
  shows "getVar I var False nw True d = (Inr (copy_value d (stored_in (table d var) nw)), d)"
proof -
  from assms(2) obtain n where "py_depth I = Suc n" by (cases "py_depth I") auto
  then show ?thesis by (simp add: getVar_def getVarFlag_def get_flag.simps get_parsing [OF assms(1)])
qed

lemma set_parsing:
  assumes "match_setvar var = None" "var \<notin> set (overridevars d)"
  shows "\<exists>d'. setVar I var v True d = (Inr (), d') \<and> table d' = (table d)(var := (table d var)(''_content'' \<mapsto> v)) \<and>
    overridevars d' = overridevars d"
proof -
  let ?d = "d\<lparr>expand_cache := []\<rparr>"
  from make_local_run [of var ?d] obtain a where a: "make_local var ?d = (Inr (), a)" "is_local a var"
    "table a = table d" "overridevars a = overridevars d" by auto
  obtain b where b: "(if underscored var then setvar_update_overrides var else sret ()) a = (Inr (), b)"
      "table b = table a" "is_local b var" "overridevars b = overridevars a"
    using update_overrides_run [of var a] a(2) by (cases "underscored var") (auto simp: sret_def)
  from put_flag_run [OF b(3), of "''_content''" v] obtain c where c: "put_flag var ''_content'' v b = (Inr (), c)"
      "table c = (table b)(var := (table b var)(''_content'' \<mapsto> v))" "\<exists>vs. c = b\<lparr>ds_vars := vs\<rparr>" by metis
  then have "overridevars c = overridevars b" by auto
  with assms a b c have "setVar I var v True d = (Inr (), c)"
    by (simp add: setVar_def set_content_def clear_cache_def sbind_def supd_def sget_def sret_def split del: if_split)
  with a b c \<open>overridevars c = overridevars b\<close> show ?thesis by auto
qed

lemma set_default:
  assumes "var \<notin> set (overridevars d)"
  shows "\<exists>d'. setVarFlag I var ''_defaultval'' v d = (Inr (), d') \<and>
    table d' = (table d)(var := (table d var)(''_defaultval'' \<mapsto> v))"
proof -
  let ?d = "d\<lparr>expand_cache := []\<rparr>"
  from write_flag_run [of var "''_defaultval''" v ?d] obtain a where
    a: "sbind (make_local var) (\<lambda>_. put_flag var ''_defaultval'' v) ?d = (Inr (), a)"
      "table a = (table d)(var := (table d var)(''_defaultval'' \<mapsto> v))" "overridevars a = overridevars d"
    by auto
  obtain b where b: "(if underscored var then setvar_update_overrides var else sret ()) a = (Inr (), b)"
      "table b = table a" "overridevars b = overridevars a"
    using update_overrides_run [of var a] by (cases "underscored var") (auto simp: sret_def)
  have cc: "clear_cache d = (Inr (), ?d)" by (simp add: clear_cache_def supd_def)
  have "setVarFlag I var ''_defaultval'' v d = (Inr (), b)"
    unfolding setVarFlag_def sbind_run [where m = clear_cache, OF cc] sbind_assoc [symmetric, of "make_local var"] sbind_run [where m = "sbind (make_local var) (\<lambda>_. put_flag var ''_defaultval'' v)", OF a(1)]
    using b a(3) assms by (simp add: sbind_def sget_def sret_def split del: if_split)
  with a b show ?thesis by auto
qed

lemma expand_constant:
  assumes "\<not> occurs v ''${''" "0 < py_rounds I" "name \<noteq> []"
  shows "expand_in_copy I (VStr v) name d = (Inr (VStr v), d)"
proof -
  obtain k where k: "py_rounds I = Suc k" using assms(2) by (cases "py_rounds I") auto
  have c: "expand_cache (createCopy d) = []" by (simp add: createCopy_def new_datastore_def)
  show ?thesis
    using assms(1,3) k c
    by (simp add: expand_in_copy_def expand_value_def expand_with_def expand_refs_with_def cache_name_def sbind_def sget_def
        with_new_vp_def sret_def supd_def new_varparse_def seen_from_def createCopy_def new_datastore_def)
qed

section \<open>Assignments\<close>

text \<open>What an assignment does to the flags of its variable.\<close>

definition text_value :: "(string \<Rightarrow> dval option) \<Rightarrow> bool" where
  "text_value t \<longleftrightarrow> t ''_content'' = None \<or> (\<exists>s. t ''_content'' = Some (VStr s))"

definition old_text :: "(string \<Rightarrow> dval option) \<Rightarrow> string" where
  "old_text t = (case t ''_content'' of Some (VStr s) \<Rightarrow> s | _ \<Rightarrow> [])"

definition assign_spec :: "string \<Rightarrow> string \<Rightarrow> (string \<Rightarrow> dval option) \<Rightarrow> (string \<Rightarrow> dval option)" where
  "assign_spec op1 v t =
     (if op1 = ''??='' then t(''_defaultval'' \<mapsto> VStr v)
      else if op1 = ''?='' then (if t ''_content'' = None then t(''_content'' \<mapsto> VStr v) else t)
      else t(''_content'' \<mapsto> VStr
        (if op1 = ''+='' then old_text t @ '' '' @ v else if op1 = ''=+'' then v @ '' '' @ old_text t
         else if op1 = ''.='' then old_text t @ v else if op1 = ''=.'' then v @ old_text t else v)))"

definition assign_groups :: "string \<Rightarrow> string \<Rightarrow> char \<Rightarrow> string \<Rightarrow> groupd" where
  "assign_groups var op1 q v = groupdict config_names (assign_caps False var None op1 q v)"

lemma group_simps:
  "map_of (assign_groups var op1 q v) ''var'' = Some (Some var)"
  "map_of (assign_groups var op1 q v) ''value'' = Some (Some v)"
  "map_of (assign_groups var op1 q v) ''exp'' = Some None"
  "map_of (assign_groups var op1 q v) ''flag'' = Some None"
  by (auto simp: assign_groups_def groupdict_def config_names_def assign_caps_def op_caps_def assign_ops_def
      split: option.split if_splits)

lemma group_op:
  assumes "op1 \<in> set (keys assign_ops)"
    and "x \<in> {''colon'', ''lazyques'', ''ques'', ''append'', ''prepend'', ''predot'', ''postdot''}"
  shows "map_of (assign_groups var op1 q v) x = Some (if map_of assign_ops op1 = Some (Some x) then Some op1 else None)"
proof -
  have "op1 \<in> {'':='', ''??='', ''?='', ''+='', ''=+'', ''=.'', ''.='', ''=''}"
    using assms(1) by (simp add: assign_ops_def keys_def)
  then show ?thesis using assms(2)
    by (elim insertE emptyE)
      (simp_all add: assign_groups_def groupdict_def config_names_def assign_caps_def op_caps_def assign_ops_def)
qed

lemma data_node_assign:
  assumes op: "op1 \<in> set (keys assign_ops)" and "var \<noteq> []" and set: "match_setvar var = None" "var \<notin> set (overridevars d)"
    and t: "text_value (table d var)" "table d var ''_remove'' = None"
    and n: "0 < py_depth (ne_interp E)" "0 < py_rounds (ne_interp E)" and c: "op1 = '':='' \<Longrightarrow> \<not> occurs v ''${''"
  shows "\<exists>d'. data_node E (assign_groups var op1 q v) d = (Inr (), d') \<and>
    table d' = (table d)(var := assign_spec op1 v (table d var))"
proof -
  let ?I = "ne_interp E"
  define g where "g = assign_groups var op1 q v"
  have ops: "op1 \<in> {'':='', ''??='', ''?='', ''+='', ''=+'', ''=.'', ''.='', ''=''}"
    using op by (simp add: assign_ops_def keys_def)
  have given_op: "given g ''colon'' \<longleftrightarrow> op1 = '':=''" "given g ''ques'' \<longleftrightarrow> op1 = ''?=''"
    "given g ''append'' \<longleftrightarrow> op1 = ''+=''" "given g ''prepend'' \<longleftrightarrow> op1 = ''=+''"
    "given g ''postdot'' \<longleftrightarrow> op1 = ''.=''" "given g ''predot'' \<longleftrightarrow> op1 = ''=.''"
    using ops by (auto simp: g_def given_def group_op [OF op] assign_ops_def)
  have flag: "node_flag g = None" by (simp add: g_def node_flag_def group_simps)
  have old: "getFunc ?I g var d = (Inr (stored_in (table d var) True), d)"
    using t getVar_parsing [OF t(2) n(1), of True]
    by (auto simp: getFunc_def flag text_value_def stored_in_def copy_value_def)
  have val: "group_value g ''value'' = Inr (VStr v)"
    by (simp add: g_def group_value_def dget_def group_simps as_override_def)
  have target: "node_target g = Inr (if op1 = ''??='' then Some ''_defaultval'' else None)"
    using group_op [OF op, of "''lazyques''" var q v] ops unfolding node_target_def flag by (auto simp: g_def dget_def assign_ops_def)
  have texts: "value_text E (or_empty_str (stored_in (table d var) True)) = old_text (table d var)"
    using t(1) by (auto simp: text_value_def stored_in_def or_empty_str_def value_text_def old_text_def)
  define w where "w = (if op1 = '':='' \<or> op1 = ''??='' \<or> op1 = ''='' then v
      else if op1 = ''?='' then (if table d var ''_content'' = None then v else old_text (table d var))
      else if op1 = ''+='' then old_text (table d var) @ '' '' @ v else if op1 = ''=+'' then v @ '' '' @ old_text (table d var)
      else if op1 = ''.='' then old_text (table d var) @ v else v @ old_text (table d var))"
  have new: "node_value E g var d = (Inr (VStr w), d)"
    using ops
  proof (elim insertE emptyE)
    assume "op1 = '':=''"
    with expand_constant [OF c n(2), of "var @ ''[:=]''" d] show ?thesis
      by (simp add: w_def node_value_def given_op sbind_def sres_def val)
  next
    assume "op1 = ''?=''"
    with t(1) show ?thesis
      by (auto simp: w_def node_value_def given_op sbind_def sres_def sret_def val old text_value_def stored_in_def old_text_def)
  qed (simp_all add: w_def node_value_def given_op sbind_def sres_def sret_def val old texts, simp_all add: value_text_def)
  have run: "data_node E g d = (case node_value E g var d of (Inl e, d') \<Rightarrow> (Inl e, d')
     | (Inr x, d') \<Rightarrow> if op1 = ''??='' then setVarFlag ?I var ''_defaultval'' x d' else setVar ?I var x True d')"
    by (auto simp: g_def data_node_def dget_def group_simps given_def sbind_def sres_def sret_def target [unfolded g_def] Let_def
        split: prod.split sum.split)
  have spec: "assign_spec op1 v (table d var) = (if op1 = ''??='' then (table d var)(''_defaultval'' \<mapsto> VStr v)
      else (table d var)(''_content'' \<mapsto> VStr w))"
  proof (cases "op1 = ''?='' \<and> table d var ''_content'' \<noteq> None")
    case True
    with t(1) have "table d var ''_content'' = Some (VStr w)" by (auto simp: w_def text_value_def old_text_def)
    with True show ?thesis by (simp add: assign_spec_def fun_upd_idem)
  next
    case False
    with ops show ?thesis by (auto simp: assign_spec_def w_def)
  qed
  show ?thesis
  proof (cases "op1 = ''??=''")
    case True
    then have "w = v" by (simp add: w_def)
    with True set_default [OF set(2), of ?I "VStr v"] show ?thesis
      unfolding g_def [symmetric] run new spec by auto
  next
    case False
    with set_parsing [OF set, of ?I "VStr w"] show ?thesis
      unfolding g_def [symmetric] run new spec by auto
  qed
qed

text \<open>
  C23. From the line of an assignment to the data store: a line in the usual layout is parsed,
  and evaluating its statement returns and changes one variable of the table, as the
  operator says: a value, a weak default, a value if there is none, or the old value with
  the text added before or after it, with or without a blank.  The variable has a text or no
  value, has no words to remove (with \<open>_remove\<close> the old value is stored without them:
  \<open>removal_while_parsing\<close>), is none that the overrides depend on and its name has no keyword such
  as \<open>_append\<close>; an immediate assignment is of a text without references.
\<close>

theorem assignment_effect:
  assumes "assign_ok False var None op1 q v" and "count_list v q \<noteq> 1"
    and "match_setvar var = None" and "var \<notin> set (overridevars (ps_data s))"
    and "text_value (table (ps_data s) var)" and "table (ps_data s) var ''_remove'' = None"
    and "0 < py_depth (ne_interp E)" and "0 < py_rounds (ne_interp E)"
    and "op1 = '':='' \<Longrightarrow> \<not> occurs v ''${''"
  shows "\<exists>x d'. conf_stmt lineno (assign_line False var None op1 q v) fn = Inr x \<and>
    eval_stmt E inc inh x s = (Inr (), s\<lparr>ps_data := d'\<rparr>) \<and>
    table d' = (table (ps_data s))(var := assign_spec op1 v (table (ps_data s) var))"
proof -
  from assms(1) have op: "op1 \<in> set (keys assign_ops)" "var \<noteq> []" by (auto simp: assign_ok_def)
  from data_node_assign [OF op assms(3-8), of v q] assms(9) obtain d' where
    d': "data_node E (assign_groups var op1 q v) (ps_data s) = (Inr (), d')"
      "table d' = (table (ps_data s))(var := assign_spec op1 v (table (ps_data s) var))" by blast
  have "conf_stmt lineno (assign_line False var None op1 q v) fn = Inr (DataNode fn lineno (assign_groups var op1 q v))"
    using config_line_match [OF assms(1)] assms(2) by (simp add: conf_stmt_def assign_groups_def)
  with d' show ?thesis by (auto simp: on_data_def)
qed

definition plain_env :: nodes_env where
  "plain_env = \<lparr>ne_interp = no_python 5 9, ne_text = (\<lambda>_. []), ne_insert = (\<lambda>_ _. Inr ())\<rparr>"

definition parser_at :: "datastore \<Rightarrow> pstate" where
  "parser_at d = \<lparr>ps_data = d, ps_feed = idle_in [], ps_cached = []\<rparr>"

definition attr_store :: datastore where
  "attr_store = new_datastore\<lparr>ds_below := [[(''DEPENDS'', [(''_content'', VStr ''attr'')])]]\<rparr>"

lemma assignment_effect_witness:
  "\<exists>x d'. conf_stmt 3 (''DEPENDS .= '' @ [quote2] @ '' zlib'' @ [quote2]) ''a.bb'' = Inr x \<and>
    eval_stmt plain_env (\<lambda>_ _ _ _. sret ()) (\<lambda>_ _ _. sret ()) x (parser_at attr_store) = (Inr (), parser_at d') \<and>
    table d' ''DEPENDS'' ''_content'' = Some (VStr ''attr zlib'')"
proof -
  let ?s = "parser_at attr_store"
  have t: "table attr_store ''DEPENDS'' = [''_content'' \<mapsto> VStr ''attr'']"
    by (simp add: table_def findVar_def new_datastore_def attr_store_def)
  have "assign_ok False ''DEPENDS'' None ''.='' quote2 '' zlib''" "count_list '' zlib'' quote2 \<noteq> 1" "match_setvar ''DEPENDS'' = None"
    by code_simp+
  then have "\<exists>x d'. conf_stmt 3 (assign_line False ''DEPENDS'' None ''.='' quote2 '' zlib'') ''a.bb'' = Inr x \<and>
    eval_stmt plain_env (\<lambda>_ _ _ _. sret ()) (\<lambda>_ _ _. sret ()) x ?s = (Inr (), ?s\<lparr>ps_data := d'\<rparr>) \<and>
    table d' = (table (ps_data ?s))(''DEPENDS'' := assign_spec ''.='' '' zlib'' (table (ps_data ?s) ''DEPENDS''))"
    by (rule assignment_effect)
      (simp_all add: parser_at_def t text_value_def plain_env_def no_python_def, simp add: attr_store_def new_datastore_def)
  moreover have "?s\<lparr>ps_data := d'\<rparr> = parser_at d'" for d' by (simp add: parser_at_def)
  moreover have "ps_data ?s = attr_store" by (simp add: parser_at_def)
  moreover have "assign_line False ''DEPENDS'' None ''.='' quote2 '' zlib'' = ''DEPENDS .= '' @ [quote2] @ '' zlib'' @ [quote2]"
    by (simp add: assign_line_def flag_text_def)
  moreover have "assign_spec ''.='' '' zlib'' (table attr_store ''DEPENDS'') ''_content'' = Some (VStr ''attr zlib'')"
    by (simp add: assign_spec_def t old_text_def)
  ultimately show ?thesis by (metis fun_upd_same)
qed

section \<open>Examples\<close>

text \<open>
  Adding to a variable while parsing reads it without its overrides and additions, but with
  its removals, so the words that were to be removed from the final value are lost for good.
\<close>

lemma removal_while_parsing:
  "let d = snd (setVar (no_python 5 9) ''A_remove'' (VStr ''x'') True
        (snd (setVar (no_python 5 9) ''A'' (VStr ''x y'') True new_datastore)));
      g = assign_groups ''A'' ''+='' quote2 ''z''
    in table (snd (data_node plain_env g d)) ''A'' ''_content'' = Some (VStr ''y z'')"
proof -
  have "map_of (the (findVar (snd (data_node plain_env (assign_groups ''A'' ''+='' quote2 ''z'')
      (snd (setVar (no_python 5 9) ''A_remove'' (VStr ''x'') True
        (snd (setVar (no_python 5 9) ''A'' (VStr ''x y'') True new_datastore)))))) ''A'')) ''_content'' = Some (VStr ''y z'')"
    "findVar (snd (data_node plain_env (assign_groups ''A'' ''+='' quote2 ''z'')
      (snd (setVar (no_python 5 9) ''A_remove'' (VStr ''x'') True
        (snd (setVar (no_python 5 9) ''A'' (VStr ''x y'') True new_datastore)))))) ''A'' \<noteq> None"
    by code_simp+
  then show ?thesis by (auto simp: table_def Let_def)
qed

text \<open>A weak default for a flag overwrites the flag.\<close>

lemma weak_flag:
  "let d = snd (setVarFlag (no_python 5 9) ''A'' ''doc'' (VStr ''x'') new_datastore);
      g = groupdict config_names (assign_caps False ''A'' (Some ''doc'') ''??='' quote2 ''y'')
    in findVar (snd (data_node plain_env g d)) ''A'' = Some [(''doc'', VStr ''y'')]"
  by code_simp

text \<open>
  A shell function that is not closed is an error; but a class that the recipe inherits
  resets the parser before the recipe looks, and what comes after the beginning of the
  function is dropped without a word.
\<close>

definition files_of :: "(string \<times> string) list \<Rightarrow> files_env" where
  "files_of fs = \<lparr>fe_nodes = plain_env, fe_open = map_of fs, fe_exists = (\<lambda>p. p \<in> set (keys fs)),
     fe_isfile = (\<lambda>p. p \<in> set (keys fs)), fe_mtime = (\<lambda>_. Some 7), fe_cwd = ''/w'', fe_depth = 4\<rparr>"

definition unclosed :: "string list" where
  "unclosed = [''do_x () {'', ''  echo'', ''V = '' @ [quote2] @ ''y'' @ [quote2]]"

definition base_class :: "string \<times> string" where
  "base_class = (''/l/classes/base.bbclass'', unlines [''W ?= '' @ [quote2] @ ''1'' @ [quote2]])"

definition layer_path :: pstate where
  "layer_path = parser_at (snd (setVar (no_python 5 9) ''BBPATH'' (VStr ''/x:/l'') False new_datastore))"

lemma unclosed_function:
  "fst (parse_handle (files_of [(''/a.bb'', unlines unclosed), base_class]) ''/a.bb'' False layer_path) =
    Inl (ParseError ''Shell function do_x is never closed'')"
  "fst (parse_handle (files_of [(''/a.bb'', unlines (''inherit base'' # unclosed)), base_class]) ''/a.bb'' False layer_path) =
    Inr ToFinalize"
  "findVar (ps_data (snd (parse_handle (files_of [(''/a.bb'', unlines (''inherit base'' # unclosed)), base_class]) ''/a.bb'' False
    layer_path))) ''V'' = None"
  by code_simp+

text \<open>What is left of a line at the end of a file is a \<open>TypeError\<close>, not the \<open>ParseError\<close> it is meant to be.\<close>

lemma leftover_line:
  "fst (parse_handle (files_of [(''/a.bb'', ''V = '' @ [CHR 0x5C, CHR 0x0A])]) ''/a.bb'' False layer_path) = Inl TypeError"
  by code_simp

end
