(* ===== verification/Data_Deps.thy ===== *)
theory Data_Deps
  imports Data_Store
begin

text \<open>
  The functions of \<^verbatim>\<open>bitbake/lib/bb/data.py\<close> on the data store: the expansion of the names
  of variables, exported variables, and the variables that the tasks of a recipe depend on,
  from which the signatures are made.

  The analysis of code is an argument: \<open>de_python\<close> gives what \<^verbatim>\<open>PythonParser\<close> finds in the
  code of a function (the variables it reads, the functions it calls and the words it looks
  for in variables), \<open>de_shell\<close> gives the commands that \<^verbatim>\<open>ShellParser\<close> finds.  Sets are lists
  without duplicates in the order of their iteration.
\<close>

record deps_env =
  de_interp :: interp
  de_python :: "dval \<Rightarrow> dval \<Rightarrow> (string list \<times> string list \<times> (string \<times> string list) list) res"
  de_shell :: "dval \<Rightarrow> string list res"

section \<open>Names of variables\<close>

text \<open>The names to change, with what they expand to.\<close>

fun keys_todo :: "interp \<Rightarrow> string list \<Rightarrow> (string \<times> string) list \<Rightarrow> (datastore, (string \<times> string) list) sm" where
  "keys_todo I [] todo = sret todo"
| "keys_todo I (k # ks) todo = (if \<not> occurs k ''${'' then keys_todo I ks todo
     else sbind (expand_value I (VStr k) None) (\<lambda>v. case v of
       VStr ek \<Rightarrow> keys_todo I ks (if k = ek then todo else dset k ek todo)
     | _ \<Rightarrow> sraise TypeError))"

definition rename_key :: "interp \<Rightarrow> (string \<times> string) list \<Rightarrow> string \<Rightarrow> (datastore, unit) sm" where
  "rename_key I todo k = sbind (sres (\<lambda>_. dget todo k)) (\<lambda>ek.
     sbind (getVar I ek False False False) (\<lambda>newval.
     sbind (if newval \<noteq> VNone then sbind (getVar I k False False False) (\<lambda>_. sret ()) else sret ()) (\<lambda>_.
     renameVar I k ek)))"

definition expandKeys :: "interp \<Rightarrow> (datastore, unit) sm" where
  "expandKeys I = sbind (data_keys I) (\<lambda>ks. sbind (keys_todo I ks []) (\<lambda>todo.
     sfor (sort (keys todo)) (rename_key I todo)))"

text \<open>The variables that are exported.\<close>

definition flag_set :: "interp \<Rightarrow> string \<Rightarrow> string \<Rightarrow> (datastore, bool) sm" where
  "flag_set I var flag = sbind (getVarFlag I var flag False False False) (\<lambda>v. sret (dval_true v))"

definition is_exported :: "interp \<Rightarrow> string \<Rightarrow> (datastore, bool) sm" where
  "is_exported I k = sbind (flag_set I k ''export'') (\<lambda>e.
     if \<not> e then sret False else sbind (flag_set I k ''unexport'') (\<lambda>u. sret (\<not> u)))"

fun sfilter :: "('x \<Rightarrow> ('s, bool) sm) \<Rightarrow> 'x list \<Rightarrow> ('s, 'x list) sm" where
  "sfilter p [] = sret []"
| "sfilter p (x # xs) = sbind (p x) (\<lambda>b. sbind (sfilter p xs) (\<lambda>ys. sret (if b then x # ys else ys)))"

definition public :: "string \<Rightarrow> bool" where
  "public k = (\<not> startswith k ''__'')"

definition exported_keys :: "interp \<Rightarrow> (datastore, string list) sm" where
  "exported_keys I = sbind (data_keys I) (\<lambda>ks. sfilter (is_exported I) (filter public ks))"

definition inherits_class :: "interp \<Rightarrow> string \<Rightarrow> (datastore, bool) sm" where
  "inherits_class I klass = sbind (getVar I ''__inherit_cache'' False False False) (\<lambda>v.
     sbind (sres (\<lambda>_. if dval_true v then dval_items v else Inr [])) (\<lambda>xs.
     sres (\<lambda>_. rfold (\<lambda>x b. case x of
         VStr s \<Rightarrow> Inr (b \<or> endswith s (if startswith klass ''/'' then klass @ ''.bbclass'' else ''classes/'' @ klass @ ''.bbclass''))
       | _ \<Rightarrow> if b then Inr b else Inl AttributeError) xs False)))"

section \<open>What a variable depends on\<close>

definition both :: "string list \<Rightarrow> string list \<Rightarrow> string list" where
  "both xs ys = filter (\<lambda>x. x \<in> set ys) xs"

text \<open>The words that code looks for in variables become part of the value.\<close>

fun words_text :: "string \<Rightarrow> string list \<Rightarrow> string list \<Rightarrow> string" where
  "words_text k l [] = []"
| "words_text k l (w # ws) = CHR 0x0A # k @ ''{'' @ w @ ''} = '' @ (if w \<in> set l then ''Set'' else ''Unset'') @ words_text k l ws"

fun contains_text :: "interp \<Rightarrow> (string \<times> string list) list \<Rightarrow> string list \<Rightarrow> (datastore, string) sm" where
  "contains_text I contains [] = sret []"
| "contains_text I contains (k # ks) = sbind (getVar I k True False False) (\<lambda>v.
     sbind (sres (\<lambda>_. dval_words (or_empty_str v))) (\<lambda>l.
     sbind (contains_text I contains ks) (\<lambda>t. sret (words_text k l (sort (dget_or contains k [])) @ t))))"

definition handle_contains :: "interp \<Rightarrow> dval \<Rightarrow> (string \<times> string list) list \<Rightarrow> (datastore, dval) sm" where
  "handle_contains I v contains = sbind (contains_text I contains (sort (keys contains))) (\<lambda>t.
     if t = [] then sret v else if \<not> dval_true v then sret (VStr t) else sres (\<lambda>_. dval_add v (VStr t)))"

definition expanded_flags :: "string list" where
  "expanded_flags = [''vardeps'', ''vardepvalue'', ''vardepsexclude'', ''exports'', ''postfuncs'', ''prefuncs'', ''lineno'',
     ''filename'']"

definition flag_or_none :: "dflags \<Rightarrow> string \<Rightarrow> dval" where
  "flag_or_none fl f = (case map_of fl f of Some v \<Rightarrow> v | None \<Rightarrow> VNone)"

text \<open>The words of a flag, if it is there.\<close>

definition flag_words :: "dflags \<Rightarrow> string \<Rightarrow> string list res" where
  "flag_words fl f = (case map_of fl f of None \<Rightarrow> Inr [] | Some v \<Rightarrow> dval_words v)"

definition blank_code :: "dval \<Rightarrow> bool res" where
  "blank_code v = (if \<not> dval_true v then Inr True else case v of VStr s \<Rightarrow> Inr (strip s = []) | _ \<Rightarrow> Inl AttributeError)"

text \<open>The three kinds of values: a Python function, a shell function and a variable.\<close>

definition python_deps :: "deps_env \<Rightarrow> string list \<Rightarrow> dflags \<Rightarrow> dval \<Rightarrow> (datastore, string list \<times> dval) sm" where
  "python_deps D ks fl v =
     sbind (sres (\<lambda>_. blank_code v)) (\<lambda>b.
     sbind (sres (\<lambda>_. if b then Inr ([], [], []) else de_python D v (flag_or_none fl ''lineno''))) (\<lambda>(refs, execs, contains).
     sbind (handle_contains (de_interp D) v contains) (\<lambda>v'. sret (sunion refs (both ks execs), v'))))"

definition shell_deps :: "deps_env \<Rightarrow> string \<Rightarrow> string list \<Rightarrow> string list \<Rightarrow> dval \<Rightarrow> (datastore, string list \<times> dval) sm" where
  "shell_deps D key ks shelldeps v = (let I = de_interp D in
     sbind (expandWithRefs I v (Some key)) (\<lambda>p.
     sbind (sres (\<lambda>_. de_shell D (vp_value p))) (\<lambda>execs.
     sbind (handle_contains I v (vp_contains p)) (\<lambda>v'.
     sret (sunion (sunion (sunion shelldeps (vp_references p)) (both ks execs)) (both ks (vp_execs p)), v')))))"

definition func_deps :: "deps_env \<Rightarrow> string \<Rightarrow> string list \<Rightarrow> string list \<Rightarrow> dflags \<Rightarrow> dval \<Rightarrow>
    (datastore, string list \<times> dval) sm" where
  "func_deps D key ks shelldeps fl v =
     sbind (if dval_true (flag_or_none fl ''python'') then python_deps D ks fl v else shell_deps D key ks shelldeps v) (\<lambda>(deps, v').
     sbind (sres (\<lambda>_. flag_words fl ''prefuncs'')) (\<lambda>pre.
     sbind (sres (\<lambda>_. flag_words fl ''postfuncs'')) (\<lambda>post.
     sbind (sres (\<lambda>_. flag_words fl ''exports'')) (\<lambda>ex.
     sret (sunion (sunion (sunion deps pre) post) ex, v')))))"

definition plain_deps :: "deps_env \<Rightarrow> string \<Rightarrow> string list \<Rightarrow> dval \<Rightarrow> (datastore, string list \<times> dval) sm" where
  "plain_deps D key ks v = (let I = de_interp D in
     sbind (expandWithRefs I v (Some key)) (\<lambda>p.
     sbind (handle_contains I v (vp_contains p)) (\<lambda>v'.
     sret (sunion (vp_references p) (both ks (vp_execs p)), v'))))"

text \<open>Parts of the value that do not count are taken out.\<close>

fun take_out :: "string list \<Rightarrow> dval \<Rightarrow> dval res" where
  "take_out [] v = Inr v"
| "take_out (x # xs) v = (if x = [] then take_out xs v
     else case v of VStr s \<Rightarrow> take_out xs (VStr (replace x [] s)) | _ \<Rightarrow> Inl AttributeError)"

definition exclude_value :: "dflags \<Rightarrow> dval \<Rightarrow> dval res" where
  "exclude_value fl v = (case map_of fl ''vardepvalueexclude'' of None \<Rightarrow> Inr v
     | Some ex \<Rightarrow> rbind (dval_split CHR ''|'' ex) (\<lambda>xs. take_out xs v))"

text \<open>
  \<open>f not in varflagsexcl\<close>: the exclusion list is a string, in which the name of the flag is
  looked for as a substring.
\<close>

definition flag_excluded :: "dval \<Rightarrow> string \<Rightarrow> bool res" where
  "flag_excluded excl f = (case excl of VStr s \<Rightarrow> Inr (occurs s f) | VList xs \<Rightarrow> Inr (VStr f \<in> set xs)
     | VSet xs \<Rightarrow> Inr (f \<in> set xs) | _ \<Rightarrow> Inl TypeError)"

fun flag_names :: "string \<Rightarrow> dval \<Rightarrow> string list \<Rightarrow> string list res" where
  "flag_names key excl [] = Inr []"
| "flag_names key excl (f # fs) = rbind (flag_excluded excl f) (\<lambda>b. rbind (flag_names key excl fs) (\<lambda>ns.
     Inr (if b then ns else (key @ ''['' @ f @ '']'') # ns)))"

definition flag_deps :: "string \<Rightarrow> dval \<Rightarrow> dflags \<Rightarrow> string list res" where
  "flag_deps key excl fl = (if dval_true excl then flag_names key excl (keys fl) else Inr [])"

definition key_deps :: "deps_env \<Rightarrow> string \<Rightarrow> string list \<Rightarrow> string list \<Rightarrow> dval \<Rightarrow> (datastore, string list \<times> dval) sm" where
  "key_deps D key ks shelldeps excl = (let I = de_interp D in
     sbind (getVarFlags I key expanded_flags False) (\<lambda>fo. let fl = (case fo of None \<Rightarrow> [] | Some f \<Rightarrow> f) in
     sbind (getVar I key False False False) (\<lambda>v.
     sbind (case map_of fl ''vardepvalue'' of Some w \<Rightarrow> sret ([], w)
       | None \<Rightarrow> if dval_true (flag_or_none fl ''func'') then func_deps D key ks shelldeps fl v
                 else plain_deps D key ks v) (\<lambda>(deps, v).
     sbind (sres (\<lambda>_. exclude_value fl v)) (\<lambda>v.
     sbind (sres (\<lambda>_. flag_deps key excl fl)) (\<lambda>fd.
     sbind (sres (\<lambda>_. dval_words (or_empty_str (flag_or_none fl ''vardeps'')))) (\<lambda>vd.
     sbind (sres (\<lambda>_. flag_words fl ''vardepsexclude'')) (\<lambda>ex.
     sret (filter (\<lambda>x. x \<notin> set ex) (sunion (sunion deps fd) vd), v)))))))))"

text \<open>A flag, written \<^verbatim>\<open>VAR[flag]\<close>.\<close>

definition varflag_deps :: "deps_env \<Rightarrow> string \<Rightarrow> string list \<Rightarrow> (datastore, string list \<times> dval) sm" where
  "varflag_deps D key ks = (let I = de_interp D; vf = split_on CHR ''['' (butlast key) in
     sbind (sres (\<lambda>_. item vf 1)) (\<lambda>flag.
     sbind (getVarFlag I (hd vf) flag False False False) (\<lambda>v.
     sbind (expandWithRefs I v (Some key)) (\<lambda>p.
     sret (sunion (vp_references p) (both ks (vp_execs p)), v)))))"

definition build_dependencies :: "deps_env \<Rightarrow> string list \<Rightarrow> string list \<Rightarrow> dval \<Rightarrow> string \<Rightarrow>
    (datastore, string list \<times> dval) sm" where
  "build_dependencies D ks shelldeps excl key =
     (if key = [] then sraise IndexError
      else if last key = CHR '']'' then varflag_deps D key ks else key_deps D key ks shelldeps excl)"

section \<open>What the tasks depend on\<close>

type_synonym deptable = "(string \<times> string list) list \<times> (string \<times> dval) list"

definition enter :: "(string \<Rightarrow> (datastore, string list \<times> dval) sm) \<Rightarrow> string \<Rightarrow> deptable \<Rightarrow> (datastore, deptable) sm" where
  "enter bd k t = sbind (bd k) (\<lambda>(ds, v). sret (dset k ds (fst t), dset k v (snd t)))"

text \<open>One round: the dependencies found last are entered and their own collected.\<close>

fun deps_round :: "(string \<Rightarrow> (datastore, string list \<times> dval) sm) \<Rightarrow> string list \<Rightarrow> string list \<times> deptable \<Rightarrow>
    (datastore, string list \<times> deptable) sm" where
  "deps_round bd [] st = sret st"
| "deps_round bd (k # ks) st = (case st of (newdeps, t) \<Rightarrow>
     sbind (if map_of (fst t) k = None then enter bd k t else sret t) (\<lambda>t.
     deps_round bd ks (sunion newdeps (dget_or (fst t) k []), t)))"

fun deps_rounds :: "(string \<Rightarrow> (datastore, string list \<times> dval) sm) \<Rightarrow> nat \<Rightarrow> string list \<Rightarrow> string list \<Rightarrow> deptable \<Rightarrow>
    (datastore, deptable) sm" where
  "deps_rounds bd 0 newdeps seen t = (if newdeps = [] then sret t else sraise OutOfFuel)"
| "deps_rounds bd (Suc n) newdeps seen t = (if newdeps = [] then sret t
     else sbind (deps_round bd newdeps ([], t)) (\<lambda>(new', t).
       let seen = sunion seen newdeps
       in deps_rounds bd n (filter (\<lambda>x. x \<notin> set seen) new') seen t))"

definition task_closure :: "(string \<Rightarrow> (datastore, string list \<times> dval) sm) \<Rightarrow> nat \<Rightarrow> string \<Rightarrow> deptable \<Rightarrow>
    (datastore, deptable) sm" where
  "task_closure bd n task t = sbind (enter bd task t) (\<lambda>t. deps_rounds bd n (dget_or (fst t) task []) [] t)"

fun tasks_closure :: "(string \<Rightarrow> (datastore, string list \<times> dval) sm) \<Rightarrow> nat \<Rightarrow> string list \<Rightarrow> deptable \<Rightarrow>
    (datastore, deptable) sm" where
  "tasks_closure bd n [] t = sret t"
| "tasks_closure bd n (k # ks) t = sbind (task_closure bd n k t) (tasks_closure bd n ks)"

definition names_of_list :: "dval \<Rightarrow> string list res" where
  "names_of_list v = rbind (dval_items v) (rmap (\<lambda>x. case x of VStr s \<Rightarrow> Inr s | _ \<Rightarrow> Inl TypeError))"

text \<open>
  The names that are public, the exported ones, the flags to leave out and the tasks; then the
  search from every task.
\<close>

definition dep_arguments :: "deps_env \<Rightarrow> (datastore, string list \<times> string list \<times> dval \<times> string list) sm" where
  "dep_arguments D = (let I = de_interp D in
     sbind (data_keys I) (\<lambda>all.
     sbind (getVar I exportlist False False False) (\<lambda>el.
     sbind (sres (\<lambda>_. names_of_list el)) (\<lambda>els.
     sbind (sfilter (is_exported I) els) (\<lambda>shelldeps.
     sbind (getVar I ''BB_SIGNATURE_EXCLUDE_FLAGS'' True False False) (\<lambda>excl.
     sbind (getVar I ''__BBTASKS'' False False False) (\<lambda>tl.
     sbind (sres (\<lambda>_. if dval_true tl then names_of_list tl else Inr [])) (\<lambda>tasks.
     sret (remdups (filter public all), shelldeps, excl, tasks)))))))))"

definition generate_dependencies :: "deps_env \<Rightarrow> nat \<Rightarrow> (datastore, string list \<times> deptable) sm" where
  "generate_dependencies D n = sbind (dep_arguments D) (\<lambda>(ks, shelldeps, excl, tasks).
     sbind (tasks_closure (build_dependencies D ks shelldeps excl) n tasks ([], [])) (\<lambda>t.
     sret (tasks, t)))"

end
