(* ===== verification/Data_Deps_Facts.thy ===== *)
theory Data_Deps_Facts
  imports Data_Deps Data_Store_Facts
begin

text \<open>
  The search for what the tasks of a recipe depend on: its table is closed under dependencies,
  its entries are the answers for names that can be met from the tasks, and it needs no more
  rounds than there are such names.
\<close>

section \<open>The search\<close>

definition entered :: "deptable \<Rightarrow> string set" where
  "entered t = set (keys (fst t))"

definition deps_in :: "deptable \<Rightarrow> string \<Rightarrow> string list" where
  "deps_in t k = dget_or (fst t) k []"

text \<open>Every dependency has an entry or is still to be looked at.\<close>

definition closed_but :: "string set \<Rightarrow> deptable \<Rightarrow> bool" where
  "closed_but W t \<longleftrightarrow> (\<forall>k \<in> entered t. set (deps_in t k) \<subseteq> entered t \<union> W) \<and>
     set (keys (snd t)) = entered t \<and> distinct (keys (fst t))"

lemma entered_None: "map_of (fst t) k = None \<longleftrightarrow> k \<notin> entered t"
  by (simp add: entered_def keys_def map_of_eq_None_iff)

lemma enter_result:
  assumes "enter bd k t d = (Inr t', d')"
  shows "entered t' = insert k (entered t) \<and> (\<forall>x. x \<noteq> k \<longrightarrow> deps_in t' x = deps_in t x) \<and>
    (set (keys (snd t)) = entered t \<longrightarrow> set (keys (snd t')) = entered t') \<and>
    (distinct (keys (fst t)) \<longrightarrow> distinct (keys (fst t'))) \<and> (\<exists>v. bd k d = (Inr (deps_in t' k, v), d'))"
  using assms by (auto simp: enter_def sbind_eq_Inr sret_def entered_def deps_in_def)

lemma deps_round_result:
  "deps_round bd ks (new, t) d = (Inr (new', t'), d') \<Longrightarrow>
    entered t' = entered t \<union> set ks \<and> (\<forall>x \<in> entered t. deps_in t' x = deps_in t x) \<and>
    (set (keys (snd t)) = entered t \<longrightarrow> set (keys (snd t')) = entered t') \<and>
    (distinct (keys (fst t)) \<longrightarrow> distinct (keys (fst t'))) \<and>
    set new' = set new \<union> (\<Union>k \<in> set ks. set (deps_in t' k))"
proof (induction ks arbitrary: new t d)
  case Nil
  then show ?case by (simp add: sret_def)
next
  case (Cons k ks)
  then obtain t1 d1 where t1: "(if map_of (fst t) k = None then enter bd k t else sret t) d = (Inr t1, d1)"
    and r: "deps_round bd ks (sunion new (deps_in t1 k), t1) d1 = (Inr (new', t'), d')"
    by (auto simp: sbind_eq_Inr deps_in_def)
  have 1: "entered t1 = insert k (entered t) \<and> (\<forall>x \<in> entered t. deps_in t1 x = deps_in t x) \<and>
    (set (keys (snd t)) = entered t \<longrightarrow> set (keys (snd t1)) = entered t1) \<and>
    (distinct (keys (fst t)) \<longrightarrow> distinct (keys (fst t1)))"
  proof (cases "k \<in> entered t")
    case True
    with t1 show ?thesis by (auto simp: entered_None sret_def)
  next
    case False
    with t1 have "enter bd k t d = (Inr t1, d1)" by (simp add: entered_None)
    from enter_result [OF this] False show ?thesis by auto
  qed
  note 2 = Cons.IH [OF r]
  have "k \<in> entered t1" using 1 by simp
  then have k: "deps_in t' k = deps_in t1 k" using 2 by simp
  have "entered t' = entered t \<union> set (k # ks)" using 1 2 by simp
  moreover have "\<forall>x \<in> entered t. deps_in t' x = deps_in t x" using 1 2 by simp
  moreover have "set (keys (snd t)) = entered t \<longrightarrow> set (keys (snd t')) = entered t'" using 1 2 by simp
  moreover have "distinct (keys (fst t)) \<longrightarrow> distinct (keys (fst t'))" using 1 2 by simp
  moreover have "set new' = set new \<union> (\<Union>k \<in> set (k # ks). set (deps_in t' k))"
    using 2 k by (simp add: Un_assoc)
  ultimately show ?case by blast
qed

lemma deps_rounds_closed:
  "deps_rounds bd n new seen t d = (Inr t', d') \<Longrightarrow> closed_but (set new) t \<Longrightarrow> set seen \<subseteq> entered t \<Longrightarrow>
    closed_but {} t' \<and> entered t \<subseteq> entered t'"
proof (induction n arbitrary: new seen t d)
  case 0
  then show ?case by (auto simp: sret_def sraise_def split: if_splits)
next
  case (Suc n)
  show ?case
  proof (cases "new = []")
    case True
    with Suc.prems show ?thesis by (simp add: sret_def)
  next
    case False
    then obtain new1 t1 d1 where r: "deps_round bd new ([], t) d = (Inr (new1, t1), d1)"
      and rest: "deps_rounds bd n (filter (\<lambda>x. x \<notin> set (sunion seen new)) new1) (sunion seen new) t1 d1 = (Inr t', d')"
      using Suc.prems(1) by (auto simp: sbind_eq_Inr Let_def)
    note 1 = deps_round_result [OF r]
    have seen: "set (sunion seen new) \<subseteq> entered t1" using 1 Suc.prems(3) by auto
    have "closed_but (set (filter (\<lambda>x. x \<notin> set (sunion seen new)) new1)) t1"
      using 1 Suc.prems(2) seen by (fastforce simp: closed_but_def)
    from Suc.IH [OF rest this seen] 1 show ?thesis by auto
  qed
qed

lemma task_closure_closed:
  assumes "task_closure bd n task t d = (Inr t', d')" "closed_but {} t"
  shows "closed_but {} t' \<and> insert task (entered t) \<subseteq> entered t'"
proof -
  from assms(1) obtain t1 d1 where e: "enter bd task t d = (Inr t1, d1)"
    and r: "deps_rounds bd n (deps_in t1 task) [] t1 d1 = (Inr t', d')"
    by (auto simp: task_closure_def sbind_eq_Inr deps_in_def)
  note 1 = enter_result [OF e]
  have "set (deps_in t1 k) \<subseteq> entered t1 \<union> set (deps_in t1 task)" if "k \<in> entered t1" for k
    using that 1 assms(2) by (cases "k = task") (fastforce simp: closed_but_def)+
  with 1 assms(2) have "closed_but (set (deps_in t1 task)) t1" by (auto simp: closed_but_def)
  from deps_rounds_closed [OF r this] 1 show ?thesis by auto
qed

lemma tasks_closure_closed:
  "tasks_closure bd n ks t d = (Inr t', d') \<Longrightarrow> closed_but {} t \<Longrightarrow> closed_but {} t' \<and> set ks \<union> entered t \<subseteq> entered t'"
proof (induction ks arbitrary: t d)
  case Nil
  then show ?case by (simp add: sret_def)
next
  case (Cons k ks)
  then obtain t1 d1 where "task_closure bd n k t d = (Inr t1, d1)" "tasks_closure bd n ks t1 d1 = (Inr t', d')"
    by (auto simp: sbind_eq_Inr)
  with task_closure_closed [of bd n k t d t1 d1] Cons.IH [of t1 d1] Cons.prems(2) show ?case by auto
qed

section \<open>The names that can be met\<close>

text \<open>
  The names the search can meet from some tasks, and the stores in which it can ask for their
  dependencies: the answers may differ, since every question changes what is cached.
\<close>

inductive met :: "(string \<Rightarrow> (datastore, string list \<times> dval) sm) \<Rightarrow> string set \<Rightarrow> datastore \<Rightarrow> string \<Rightarrow> bool"
  and later :: "(string \<Rightarrow> (datastore, string list \<times> dval) sm) \<Rightarrow> string set \<Rightarrow> datastore \<Rightarrow> datastore \<Rightarrow> bool"
  for bd :: "string \<Rightarrow> (datastore, string list \<times> dval) sm" and T :: "string set" and d :: datastore where
  task: "k \<in> T \<Longrightarrow> met bd T d k"
| dependency: "met bd T d k \<Longrightarrow> later bd T d s \<Longrightarrow> bd k s = (Inr (ds, v), s') \<Longrightarrow> x \<in> set ds \<Longrightarrow> met bd T d x"
| start: "later bd T d d"
| asked: "met bd T d k \<Longrightarrow> later bd T d s \<Longrightarrow> bd k s = (r, s') \<Longrightarrow> later bd T d s'"

text \<open>They stay in every set of names and stores that is closed under the questions.\<close>

definition answers_in :: "string list \<Rightarrow> datastore list \<Rightarrow> (string \<Rightarrow> (datastore, string list \<times> dval) sm) \<Rightarrow> bool" where
  "answers_in ks ss bd \<longleftrightarrow> list_all (\<lambda>k. list_all (\<lambda>s. case bd k s of
     (Inl e, s') \<Rightarrow> False | (Inr (ds, v), s') \<Rightarrow> List.member ss s' \<and> list_all (List.member ks) ds) ss) ks"

lemma answers_inD:
  assumes "answers_in ks ss bd" "k \<in> set ks" "s \<in> set ss"
  shows "\<exists>ds v s'. bd k s = (Inr (ds, v), s') \<and> s' \<in> set ss \<and> set ds \<subseteq> set ks"
proof -
  have "\<forall>k \<in> set ks. \<forall>s \<in> set ss. case bd k s of (Inl e, s') \<Rightarrow> False
    | (Inr (ds, v), s') \<Rightarrow> List.member ss s' \<and> list_all (List.member ks) ds"
    using assms(1) by (simp add: answers_in_def list_all_iff [of _ ks] list_all_iff [of _ ss])
  from bspec [OF bspec [OF this assms(2)] assms(3)] show ?thesis
    by (auto simp: list_all_iff split: prod.splits sum.splits)
qed

lemma met_later_in:
  assumes "answers_in ks ss bd" "T \<subseteq> set ks" "d \<in> set ss"
  shows "met bd T d k \<Longrightarrow> k \<in> set ks" "later bd T d s \<Longrightarrow> s \<in> set ss"
proof (induction rule: met_later.inducts)
  case (dependency k s ds v s' x)
  with answers_inD [OF assms(1), of k s] show ?case by auto
next
  case (asked k s r s')
  with answers_inD [OF assms(1), of k s] show ?case by auto
qed (use assms in auto)

text \<open>Every entry of a table is an answer, and its names can be met.\<close>

definition answered :: "(string \<Rightarrow> (datastore, string list \<times> dval) sm) \<Rightarrow> string set \<Rightarrow> datastore \<Rightarrow> deptable \<Rightarrow> bool" where
  "answered bd T d t \<longleftrightarrow> (\<forall>k \<in> entered t. met bd T d k \<and>
     (\<exists>s v s'. later bd T d s \<and> map_of (snd t) k = Some v \<and> bd k s = (Inr (deps_in t k, v), s')))"

definition raised :: "(string \<Rightarrow> (datastore, string list \<times> dval) sm) \<Rightarrow> string set \<Rightarrow> datastore \<Rightarrow> exc \<Rightarrow> bool" where
  "raised bd T d e \<longleftrightarrow> (\<exists>k s s'. met bd T d k \<and> later bd T d s \<and> bd k s = (Inl e, s'))"

lemma answered_met: "answered bd T d t \<Longrightarrow> x \<in> set (deps_in t k) \<Longrightarrow> met bd T d x"
proof -
  assume a: "answered bd T d t" and x: "x \<in> set (deps_in t k)"
  from x have "k \<in> entered t" by (cases "map_of (fst t) k") (auto simp: deps_in_def entered_def dget_or_def set_keys)
  with a obtain s v s' where "met bd T d k" "later bd T d s" "bd k s = (Inr (deps_in t k, v), s')"
    unfolding answered_def by blast
  with x show "met bd T d x" by (auto intro: dependency)
qed

lemma enter_answered:
  assumes k: "met bd T d k" and a: "answered bd T d t"
  shows "hoare (later bd T d) (enter bd k t) (\<lambda>t' s. later bd T d s \<and> answered bd T d t') (\<lambda>e _. raised bd T d e)"
proof (rule hoareI)
  fix s assume s: "later bd T d s"
  obtain r s' where r: "bd k s = (r, s')" by (cases "bd k s")
  show "case enter bd k t s of (Inl e, t) \<Rightarrow> raised bd T d e | (Inr t', s') \<Rightarrow> later bd T d s' \<and> answered bd T d t'"
  proof (cases r)
    case (Inl e)
    with k s r have "raised bd T d e" unfolding raised_def by blast
    with Inl r show ?thesis by (simp add: enter_def sbind_def)
  next
    case (Inr p)
    obtain ds v where p: "p = (ds, v)" by (cases p)
    let ?t = "(dset k ds (fst t), dset k v (snd t))"
    have e: "enter bd k t s = (Inr ?t, s')" using r Inr p by (simp add: enter_def sbind_def sret_def)
    have "answered bd T d ?t"
      using a k s r Inr p unfolding answered_def by (auto simp: entered_def deps_in_def)
    with e asked [OF k s r] show ?thesis by simp
  qed
qed

lemma deps_round_answered:
  "set ks \<union> set new \<subseteq> Collect (met bd T d) \<Longrightarrow> answered bd T d t \<Longrightarrow>
    hoare (later bd T d) (deps_round bd ks (new, t))
      (\<lambda>(new', t') s. later bd T d s \<and> set new' \<subseteq> Collect (met bd T d) \<and> answered bd T d t') (\<lambda>e _. raised bd T d e)"
proof (induction ks arbitrary: new t)
  case Nil
  then show ?case by (auto intro!: hoare_sret)
next
  case (Cons k ks)
  have "hoare (\<lambda>s. later bd T d s \<and> answered bd T d t1) (deps_round bd ks (sunion new (dget_or (fst t1) k []), t1))
      (\<lambda>(new', t') s. later bd T d s \<and> set new' \<subseteq> Collect (met bd T d) \<and> answered bd T d t') (\<lambda>e _. raised bd T d e)" for t1
  proof (cases "answered bd T d t1")
    case True
    then have "set ks \<union> set (sunion new (dget_or (fst t1) k [])) \<subseteq> Collect (met bd T d)"
      using Cons.prems(1) answered_met [OF True] by (auto simp: deps_in_def)
    from Cons.IH [OF this True] True show ?thesis by simp
  next
    case False
    then show ?thesis by (simp add: hoare_def)
  qed
  moreover have "hoare (later bd T d) (if map_of (fst t) k = None then enter bd k t else sret t)
      (\<lambda>t' s. later bd T d s \<and> answered bd T d t') (\<lambda>e _. raised bd T d e)"
    using enter_answered [of bd T d k t] Cons.prems by (auto intro: hoare_sret)
  ultimately show ?case by (auto intro: hoare_sbind)
qed

text \<open>
  Every round looks at names that were not looked at before, so there are no more rounds than
  names that can be met.
\<close>

definition short_of_fuel :: "string set \<Rightarrow> nat \<Rightarrow> exc \<Rightarrow> bool" where
  "short_of_fuel U n e \<longleftrightarrow> e = OutOfFuel \<and> (finite U \<longrightarrow> n < card U)"

lemma deps_rounds_answered:
  "set new \<subseteq> Collect (met bd T d) - set seen \<Longrightarrow> answered bd T d t \<Longrightarrow>
    hoare (later bd T d) (deps_rounds bd n new seen t) (\<lambda>t' s. later bd T d s \<and> answered bd T d t')
      (\<lambda>e _. raised bd T d e \<or> short_of_fuel (Collect (met bd T d) - set seen) n e)"
proof (induction n arbitrary: new seen t)
  case 0
  have "short_of_fuel (Collect (met bd T d) - set seen) 0 OutOfFuel" if "new \<noteq> []"
    using that 0 card_gt_0_iff [of "Collect (met bd T d) - set seen"] by (cases new) (auto simp: short_of_fuel_def)
  with 0 show ?case by (auto intro!: hoare_sret hoare_sraise)
next
  case (Suc n)
  let ?U = "\<lambda>seen. Collect (met bd T d) - set seen"
  show ?case
  proof (cases "new = []")
    case True
    with Suc.prems show ?thesis by (auto intro: hoare_sret)
  next
    case False
    let ?seen = "sunion seen new"
    have less: "short_of_fuel (?U ?seen) n e \<Longrightarrow> short_of_fuel (?U seen) (Suc n) e" for e
    proof -
      have "?U ?seen \<subset> ?U seen" using Suc.prems(1) False by (cases new) auto
      from psubset_card_mono [OF _ this]
      show "short_of_fuel (?U ?seen) n e \<Longrightarrow> short_of_fuel (?U seen) (Suc n) e" for e
        by (auto simp: short_of_fuel_def)
    qed
    let ?rest = "\<lambda>(new', t'). deps_rounds bd n (filter (\<lambda>x. x \<notin> set ?seen) new') ?seen t'"
    have "hoare (\<lambda>s. later bd T d s \<and> set new' \<subseteq> Collect (met bd T d) \<and> answered bd T d t') (?rest (new', t'))
        (\<lambda>t' s. later bd T d s \<and> answered bd T d t') (\<lambda>e _. raised bd T d e \<or> short_of_fuel (?U seen) (Suc n) e)" for new' t'
    proof (cases "set new' \<subseteq> Collect (met bd T d) \<and> answered bd T d t'")
      case True
      then have "set (filter (\<lambda>x. x \<notin> set ?seen) new') \<subseteq> ?U ?seen" by auto
      note IH = Suc.IH [OF this conjunct2 [OF True]]
      show ?thesis unfolding prod.case by (rule hoare_weaken [OF IH]) (use True less in auto)
    next
      case False
      then show ?thesis by (auto simp: hoare_def)
    qed
    then have rest: "hoare ((\<lambda>(new', t') s. later bd T d s \<and> set new' \<subseteq> Collect (met bd T d) \<and> answered bd T d t') p) (?rest p)
        (\<lambda>t' s. later bd T d s \<and> answered bd T d t') (\<lambda>e _. raised bd T d e \<or> short_of_fuel (?U seen) (Suc n) e)" for p
      by (cases p) simp
    have "hoare (later bd T d) (deps_round bd new ([], t))
        (\<lambda>(new', t') s. later bd T d s \<and> set new' \<subseteq> Collect (met bd T d) \<and> answered bd T d t')
        (\<lambda>e _. raised bd T d e \<or> short_of_fuel (?U seen) (Suc n) e)"
      by (rule hoare_weaken [OF deps_round_answered [of new "[]"]]) (use Suc.prems in auto)
    moreover have "deps_rounds bd (Suc n) new seen t = sbind (deps_round bd new ([], t)) ?rest"
      using False by (simp add: fun_eq_iff sbind_def Let_def split: prod.split sum.split)
    ultimately show ?thesis using hoare_sbind [OF _ rest] by simp
  qed
qed

lemma task_closure_answered:
  assumes "met bd T d k" "answered bd T d t"
  shows "hoare (later bd T d) (task_closure bd n k t) (\<lambda>t' s. later bd T d s \<and> answered bd T d t')
    (\<lambda>e _. raised bd T d e \<or> short_of_fuel (Collect (met bd T d)) n e)"
  unfolding task_closure_def
proof (rule hoare_sbind [where R = "\<lambda>t' s. later bd T d s \<and> answered bd T d t'"])
  show "hoare (later bd T d) (enter bd k t) (\<lambda>t' s. later bd T d s \<and> answered bd T d t')
    (\<lambda>e _. raised bd T d e \<or> short_of_fuel (Collect (met bd T d)) n e)"
    by (rule hoare_weaken [OF enter_answered [OF assms]]) auto
  show "hoare (\<lambda>s. later bd T d s \<and> answered bd T d t1) (deps_rounds bd n (dget_or (fst t1) k []) [] t1)
    (\<lambda>t' s. later bd T d s \<and> answered bd T d t') (\<lambda>e _. raised bd T d e \<or> short_of_fuel (Collect (met bd T d)) n e)" for t1
  proof (cases "answered bd T d t1")
    case True
    then have "set (dget_or (fst t1) k []) \<subseteq> Collect (met bd T d) - set []"
      using answered_met [OF True] by (auto simp: deps_in_def)
    from deps_rounds_answered [OF this True, of n] True show ?thesis by simp
  next
    case False
    then show ?thesis by (simp add: hoare_def)
  qed
qed

lemma tasks_closure_answered:
  "set ks \<subseteq> T \<Longrightarrow> answered bd T d t \<Longrightarrow>
    hoare (later bd T d) (tasks_closure bd n ks t) (\<lambda>t' s. later bd T d s \<and> answered bd T d t')
      (\<lambda>e _. raised bd T d e \<or> short_of_fuel (Collect (met bd T d)) n e)"
proof (induction ks arbitrary: t)
  case Nil
  then show ?case by (auto intro: hoare_sret)
next
  case (Cons k ks)
  have "hoare (\<lambda>s. later bd T d s \<and> answered bd T d t1) (tasks_closure bd n ks t1) (\<lambda>t' s. later bd T d s \<and> answered bd T d t')
      (\<lambda>e _. raised bd T d e \<or> short_of_fuel (Collect (met bd T d)) n e)" for t1
    using Cons by (cases "answered bd T d t1") (auto simp: hoare_def)
  with Cons.prems show ?case by (auto intro!: hoare_sbind [OF task_closure_answered] intro: task)
qed

section \<open>The tasks of a recipe\<close>

text \<open>
  C20. What the tasks of a recipe depend on is searched exactly.  Let \<open>bd\<close> be
  \<open>build_dependencies\<close> with the public names, the exported ones and the excluded flags of the
  recipe.  When the search returns, every task has an entry, each entry once, and every dependency
  of an entry has one as well; only names that can be met from the tasks have entries, and each
  entry is the answer of \<open>bd\<close> for its name, the dependencies and the value, in a store that the
  search can come to.  If only finitely many names can be met, so many rounds are enough: the
  search returns, or raises what \<open>bd\<close> raised for one of these names.
\<close>

theorem generate_dependencies_exact:
  assumes "dep_arguments D d = (Inr (ks, shelldeps, excl, tasks), d1)" "bd = build_dependencies D ks shelldeps excl"
  shows "(\<forall>ts deps vals d'. generate_dependencies D n d = (Inr (ts, deps, vals), d') \<longrightarrow>
      ts = tasks \<and> set tasks \<subseteq> set (keys deps) \<and> distinct (keys deps) \<and> set (keys vals) = set (keys deps) \<and>
      (\<forall>k \<in> set (keys deps). met bd (set tasks) d1 k \<and> set (dget_or deps k []) \<subseteq> set (keys deps) \<and>
        (\<exists>s v s'. later bd (set tasks) d1 s \<and> map_of vals k = Some v \<and> bd k s = (Inr (dget_or deps k [], v), s')))) \<and>
    (finite {k. met bd (set tasks) d1 k} \<and> card {k. met bd (set tasks) d1 k} \<le> n \<longrightarrow>
      (\<forall>e d'. generate_dependencies D n d = (Inl e, d') \<longrightarrow>
        (\<exists>k s s'. met bd (set tasks) d1 k \<and> later bd (set tasks) d1 s \<and> bd k s = (Inl e, s'))))"
proof -
  let ?T = "set tasks"
  obtain r d2 where r: "tasks_closure bd n tasks ([], []) d1 = (r, d2)" by (cases "tasks_closure bd n tasks ([], []) d1")
  have g: "generate_dependencies D n d = (case r of Inl e \<Rightarrow> (Inl e, d2) | Inr t \<Rightarrow> (Inr (tasks, t), d2))"
    using r assms by (simp add: generate_dependencies_def sbind_def sret_def split: sum.split)
  have nil: "answered bd ?T d1 ([], [])" "closed_but {} ([], [])"
    by (simp_all add: answered_def closed_but_def entered_def keys_def)
  from hoareD [OF tasks_closure_answered [OF subset_refl nil(1), of n] start] r
  have a: "case r of Inl e \<Rightarrow> raised bd ?T d1 e \<or> short_of_fuel {k. met bd ?T d1 k} n e | Inr t \<Rightarrow> answered bd ?T d1 t"
    by (auto split: sum.split)
  show ?thesis
  proof (cases r)
    case (Inl e)
    with g a show ?thesis by (auto simp: raised_def short_of_fuel_def)
  next
    case (Inr t)
    obtain deps vals where t: "t = (deps, vals)" by (cases t)
    from tasks_closure_closed [OF r [unfolded Inr] nil(2)]
    have c: "closed_but {} (deps, vals)" "?T \<subseteq> entered (deps, vals)" by (simp_all add: t)
    from a have "answered bd ?T d1 (deps, vals)" by (simp add: Inr t)
    with c g show ?thesis
      by (simp add: Inr t closed_but_def answered_def entered_def deps_in_def)
  qed
qed

definition deps_example :: datastore where
  "deps_example = new_datastore\<lparr>ds_vars :=
     [(''__BBTASKS'', [(''_content'', VList [VStr ''do_x''])]), (''__exportlist'', [(''_content'', VSet [])]),
      (''S'', [(''_content'', VStr ''/src'')]), (''do_x'', [(''_content'', VStr ''ls ${S}''), (''func'', VInt 1)])]\<rparr>"

definition shell_only :: deps_env where
  "shell_only = \<lparr>de_interp = no_python 5 9, de_python = (\<lambda>_ _. Inl (SyntaxError ''invalid syntax'')),
     de_shell = (\<lambda>_. Inr [''ls''])\<rparr>"

text \<open>The stores the search can come to: each question adds to the cache.\<close>

definition example_bd :: "string \<Rightarrow> (datastore, string list \<times> dval) sm" where
  "example_bd = build_dependencies shell_only [''S'', ''do_x''] [] VNone"

definition example_start :: datastore where
  "example_start = snd (dep_arguments shell_only deps_example)"

definition example_stores :: "datastore list" where
  "example_stores = [example_start, snd (example_bd ''do_x'' example_start), snd (example_bd ''S'' example_start)]"

lemma example_answers: "answers_in [''S'', ''do_x''] example_stores example_bd"
  by code_simp

text \<open>The search returns, because no question raises, and has an entry for both names.\<close>

lemma generate_dependencies_exact_witness:
  "\<exists>deps vals d'. generate_dependencies shell_only 2 deps_example = (Inr ([''do_x''], deps, vals), d') \<and>
    ''do_x'' \<in> set (keys deps) \<and> set (dget_or deps ''do_x'' []) \<subseteq> set (keys deps)"
proof -
  have "fst (dep_arguments shell_only deps_example) = Inr ([''S'', ''do_x''], [], VNone, [''do_x''])" by code_simp
  then have args: "dep_arguments shell_only deps_example = (Inr ([''S'', ''do_x''], [], VNone, [''do_x'']), example_start)"
    by (simp add: example_start_def prod_eq_iff)
  note exact = generate_dependencies_exact [OF args example_bd_def, of 2]
  let ?T = "set [''do_x'']"
  have "example_start \<in> set example_stores" by (simp add: example_stores_def)
  note inside = met_later_in [OF example_answers _ this, of ?T]
  have sub: "{k. met example_bd ?T example_start k} \<subseteq> {''S'', ''do_x''}" using inside(1) by auto
  have "card {''S'', ''do_x''} \<le> 2" by simp
  with card_mono [OF _ sub] have fin: "finite {k. met example_bd ?T example_start k}" "card {k. met example_bd ?T example_start k} \<le> 2"
    using finite_subset [OF sub] by simp_all
  obtain r d' where r: "generate_dependencies shell_only 2 deps_example = (r, d')"
    by (cases "generate_dependencies shell_only 2 deps_example")
  show ?thesis
  proof (cases r)
    case (Inl e)
    with exact fin r obtain k s s' where "met example_bd ?T example_start k" "later example_bd ?T example_start s"
      "example_bd k s = (Inl e, s')" by blast
    with inside answers_inD [OF example_answers, of k s] show ?thesis by force
  next
    case (Inr p)
    obtain ts deps vals where "p = (ts, deps, vals)" by (cases p)
    with exact r Inr show ?thesis by auto
  qed
qed

text \<open>
  The flags to leave out are a string in which the name of a flag is looked for, so a flag
  whose name is part of the name of an excluded one is left out as well.
\<close>

lemma flag_in_longer_name: "flag_deps ''A'' (VStr ''depends doc'') [(''dep'', VStr ''x''), (''dirs'', VStr ''y'')] = Inr [''A[dirs]'']"
  by code_simp

end
