(* ===== verification/Spec2Isabelle.thy ===== *)
theory Spec2Isabelle
  imports Dep_Strings Task_Data_Facts Run_Queue_Prepare_Facts Py_Glob Build_Stamps
    Run_Queue_Exec Run_Queue_Exec_Facts PR_Table PR_Table_Facts Siggen Siggen_Facts Sig_Compare
    Scene_Queue Scene_Graph_Facts Scene_Queue_Facts Data_Store Data_Store_Facts
    Data_Expand_Facts Data_Type_Facts Data_Add_Facts Parse_Lines Parse_Lines_Facts Ast_Nodes
    Parse_Files Ast_Facts Data_Deps Data_Deps_Facts
begin

text \<open>
  A model of the core of BitBake, the task executor of the repository
  (\<^verbatim>\<open>bitbake/lib/bb\<close>), and of the service that numbers package revisions
  (\<^verbatim>\<open>bitbake/lib/prserv\<close>).

  \<^bold>\<open>The program.\<close>  BitBake parses recipes and collects what they say in tables
  (\<^verbatim>\<open>cache.py\<close>).  For the targets asked for it chooses recipe files that provide
  them (\<^verbatim>\<open>providers.py\<close>), comparing versions and layer priorities
  (\<^verbatim>\<open>utils.py\<close>), follows their build and runtime dependencies until every target has
  a provider or is given up (\<^verbatim>\<open>taskdata.py\<close>), and turns the result into a graph of tasks
  (\<^verbatim>\<open>RunQueueData.prepare\<close> in \<^verbatim>\<open>runqueue.py\<close>).  Every task gets a hash
  of what it is and is built from (\<^verbatim>\<open>siggen.py\<close>), and a stamp file says that it has run
  (\<^verbatim>\<open>build.py\<close>).  The run queue then executes the tasks in worker processes, first those
  that fetch finished results (setscene tasks), then those that are still needed.  The package
  revision service answers requests of the tasks for revision numbers, which it keeps in a database.

  \<^bold>\<open>The theories\<close>, in the order in which they use each other.

  \<^item> \<open>Py_Base\<close>: what the modules share of Python.  Exceptions are values (\<open>exc\<close>), a function that
    can raise has the result \<open>exc + 'a\<close>, and one that also changes an object is a function of the
    type \<open>('s, 'a) sm\<close>, whose state after an exception is the state at the time of raising.
    Dictionaries are association lists in insertion order with distinct keys.
  \<^item> \<open>Py_Str\<close>: the methods of \<^verbatim>\<open>str\<close> the code calls, over lists of characters below code point 256.
  \<^item> \<open>Py_Glob\<close>: the patterns of \<^verbatim>\<open>fnmatch\<close> and \<^verbatim>\<open>glob\<close>.
  \<^item> \<open>Versions\<close>: \<^verbatim>\<open>explode_version\<close>, \<^verbatim>\<open>vercmp_part\<close>, \<^verbatim>\<open>vercmp\<close>, \<^verbatim>\<open>vercmp_string\<close>, \<^verbatim>\<open>vercmp_string_op\<close>
    and \<^verbatim>\<open>split_version\<close> of \<^verbatim>\<open>utils.py\<close>.  A comparison that returns is the comparison of a
    total preorder; it raises exactly where one version continues the other with a number.
  \<^item> \<open>Dep_Strings\<close>: \<^verbatim>\<open>explode_deps\<close>, \<^verbatim>\<open>explode_dep_versions2\<close>, \<^verbatim>\<open>explode_dep_versions\<close>,
    \<^verbatim>\<open>join_deps\<close> of \<^verbatim>\<open>utils.py\<close>; printing and parsing a dictionary of dependencies is the identity.
  \<^item> \<open>Cache_Data\<close>: \<^verbatim>\<open>CoreRecipeInfo\<close>, \<^verbatim>\<open>CacheData\<close> and the names of virtual files of
    \<^verbatim>\<open>cache.py\<close>; the record \<open>recipe_info\<close> is what one recipe contributes, \<open>cache_data\<close> the tables.
    The tables stay consistent with each other.
  \<^item> \<open>Providers\<close>: all functions of \<^verbatim>\<open>providers.py\<close>; what is chosen among the providers of a name.
  \<^item> \<open>Task_Data\<close>, \<open>Task_Data_Facts\<close>: the class \<^verbatim>\<open>TaskData\<close> as the record \<open>taskdata\<close>.  Failing a file
    fails exactly the least set of files that cannot be built without it; the resolution ends and
    leaves every target with a provider, failed or ignored; the invariant \<open>td_ok\<close> is kept.
  \<^item> \<open>Dep_Graph\<close>: walking along dependencies, shared by the recursive helpers of the preparation.
  \<^item> \<open>Run_Queue_Data\<close>, \<open>Run_Queue_Data_Facts\<close>: task ids, statistics, weights, the search for circular
    dependencies and the schedulers of \<^verbatim>\<open>runqueue.py\<close>.  An entry of \<open>run_tasks\<close> is a
    \<^verbatim>\<open>RunTaskEntry\<close>.
  \<^item> \<open>Run_Queue_Prepare\<close>, \<open>Run_Queue_Prepare_Facts\<close>: \<^verbatim>\<open>RunQueueData.prepare\<close> with its object as the record
    \<open>rqdata\<close>.  The tasks kept are exactly those the targets need, without cycles, weighed and hashed.
  \<^item> \<open>Build_Stamps\<close>: stamp files and the task lists of a recipe of \<^verbatim>\<open>build.py\<close>.
  \<^item> \<open>Run_Queue_Exec\<close>, \<open>Run_Queue_Exec_Facts\<close>: \<^verbatim>\<open>RunQueueExecuteTasks\<close> with \<^verbatim>\<open>check_stamp_task\<close>.  The
    record \<open>exec_state\<close> is what changes of the three objects that share the state.  The steps are an
    inductive relation over whatever the workers report; a task is started only after all it
    depends on is complete, and the phase does not end before all tasks are, nor gets stuck.
  \<^item> \<open>Scene_Queue\<close>, \<open>Scene_Graph_Facts\<close>, \<open>Scene_Queue_Facts\<close>: \<^verbatim>\<open>RunQueueExecuteScenequeue\<close>.  The constructor squashes the
    graph of all tasks to the setscene tasks; the two searches for this are one locale (\<open>search\<close>) with an
    interpretation each.  A setscene task is only tried after those above it, all are settled when the
    phase ends, and it does not get stuck.
  \<^item> \<open>Data_Store\<close>: the class \<^verbatim>\<open>DataSmart\<close> of \<^verbatim>\<open>data_smart.py\<close> as the record \<open>datastore\<close>: layers
    of variables with flags, overrides, additions, copies, and the expansion of references and
    inline Python.  \<open>Data_Store_Facts\<close>: what a read keeps (the locale \<open>read_invariant\<close>, interpreted for each
    predicate that is used), the layers as one table of flags (the locale \<open>flag_table\<close>), set and read,
    the override that wins, and examples of the errors that modelling showed.
    \<open>Data_Expand_Facts\<close>: expansion against a definition by replacement.  \<open>Data_Type_Facts\<close>: the types of
    what is stored and read.  \<open>Data_Add_Facts\<close>: what appending and prepending do to a read.
  \<^item> \<open>Data_Deps\<close>, \<open>Data_Deps_Facts\<close>: \<^verbatim>\<open>data.py\<close>, the variables that the tasks of a recipe depend on, from which
    the signatures are made; what \<^verbatim>\<open>codeparser.py\<close> finds in code is an argument.  The table found is closed
    under dependencies, its entries are the answers for names that can be met from the tasks, and as
    many rounds (fuel) are enough as there are such names.
  \<^item> \<open>Py_Regex\<close>, \<open>Parse_Lines\<close>, \<open>Parse_Lines_Facts\<close>: the line parsers \<^verbatim>\<open>ConfHandler.py\<close> and \<^verbatim>\<open>BBHandler.py\<close>, from the
    text of a file to the statements of \<^verbatim>\<open>ast.py\<close>, with their regular expressions as data for a
    backtracking matcher.  Assignments are parsed into what they are written from, and the state
    machine over the lines recognises the blocks of a file.
  \<^item> \<open>Ast_Nodes\<close>, \<open>Parse_Files\<close>, \<open>Ast_Facts\<close>: the evaluation of the statements on the data store, and the handlers
    that read a file, include others and record the files a recipe depends on (\<open>pstate\<close> is the store
    with the globals of the parser).  The effect of an assignment is stated from its line to the
    table of variables.
  \<^item> \<open>PR_Table\<close>, \<open>PR_Table_Facts\<close>: \<^verbatim>\<open>PRTable\<close>, \<^verbatim>\<open>PRData\<close> and the requests of the server.  The contract of
    a numbering is the locale \<open>numbering\<close> with an extension for each mode; the tables interpret it
    and refine a numbering that is a function.
  \<^item> \<open>Siggen\<close>, \<open>Siggen_Facts\<close>, \<open>Sig_Compare\<close>: the generators of \<^verbatim>\<open>siggen.py\<close> and the comparison of signature
    files.  The base hash covers exactly the variables a task refers to, the hashes recomputed from
    a signature file are the stored ones, and files between which no difference is printed have the
    same hashes.

  \<^bold>\<open>Loops.\<close>  A recursion that follows data rather than a structure has fuel; running out of it is
  the exception \<open>OutOfFuel\<close> (or \<open>None\<close>), and the theorems named below show that it does not happen.
  Failing a file has one level for each file that a removed target can fail
  (\<open>fail_fn_returns\<close>); \<open>add_unresolved\<close> ends with some fuel for every input
  (\<open>add_unresolved_ends\<close>); the search for cycles and the walks of \<open>prepare\<close> have one level for each
  task, since a path visits a task once (\<open>circular_depchains_correct\<close>, \<open>prepare_ends\<close>); the hand-down of
  end points in the setscene queue has one round more than there are tasks
  (\<open>scene_graph_correct\<close>); the check of a stamp has one level for each task, as many as a path
  without repetition has; the recursion depths of the data store and of the
  inclusion of files end in a \<open>RecursionError\<close> as in
  Python, and its rounds of an expansion are bounded by \<open>py_rounds\<close>, of which two are enough for
  plain texts (\<open>expansion_exact\<close>); the search for the variables of a task has one round for each
  variable of the table (\<open>base_hash_exact\<close>).

  \<^bold>\<open>Parameters.\<close>  What the code calls outside the modelled files is an argument: reading the
  expanded configuration (\<open>getVar\<close>), regular expressions (\<open>re_match\<close>), the code of recipes
  (\<open>exec_func\<close>), digests, file checksums, the behaviour of workers, times.  Sets whose order
  Python does not fix are lists in any order; the theorems hold for every one.

  \<^bold>\<open>Not modelled.\<close>  Processes, sockets, pipes, pickled files, locks and signals; log messages,
  events and progress; the finalisation of recipes and their variants, so that the recipe tables
  take the values of variables as parameters; the evaluation of inline Python, a parameter of the data store, and the history of
  its variables; the fetchers; the running of the code of a task; the cooker
  that calls the parts in order; the metadata library, the image tools and the web application,
  which are mostly calls of the operating system or of frameworks.  The copies of third-party
  packages (\<^verbatim>\<open>ply\<close>, \<^verbatim>\<open>pyinotify\<close>, \<^verbatim>\<open>bs4\<close>) are not part of the program's own logic.
\<close>

end
